(* ===== verification/BT_Prelude.thy ===== *)
theory BT_Prelude
  imports Main "HOL-Library.Word" "HOL-Library.Code_Target_Numeral"
begin

text \<open>
  Shared vocabulary of the development.

  C code is modelled as a state-passing function that either stops in a \<open>fault\<close> (undefined
  behaviour, a failed \<open>assert\<close>, a loop that used up its iteration bound, or a system call that
  does not return) or returns a value
  together with the new state. \<open>ret\<close>, \<open>bnd\<close> and \<open>stop\<close> are the usual operations on such
  functions and \<open>wp\<close> is their weakest precondition, which the simplifier computes through
  the rules collected in \<open>run_simps\<close>. The rest of the theory holds the lemmas on lists
  (overwriting a slice, the first position of a byte) that the components share.
\<close>

section \<open>Rule collections\<close>

named_theorems run_simps \<open>symbolic execution of state-passing functions\<close>
named_theorems list_ops \<open>effect of the intrusive list operations on the represented sequence\<close>

section \<open>Faults and state-passing functions\<close>

datatype fault =
    NullDeref
  | OutOfBounds
  | BadPointer
  | BadFree
  | AssertFailed
  | OutOfFuel
  | Uninit
  | Blocked

type_synonym ('s, 'a) run = "'s \<Rightarrow> fault + ('a \<times> 's)"

definition ret :: "'a \<Rightarrow> ('s, 'a) run" where
  "ret x = (\<lambda>s. Inr (x, s))"

definition stop :: "fault \<Rightarrow> ('s, 'a) run" where
  "stop e = (\<lambda>s. Inl e)"

definition bnd :: "('s, 'a) run \<Rightarrow> ('a \<Rightarrow> ('s, 'b) run) \<Rightarrow> ('s, 'b) run" where
  "bnd f g = (\<lambda>s. case f s of Inl e \<Rightarrow> Inl e | Inr (x, s') \<Rightarrow> g x s')"

definition chk :: "bool \<Rightarrow> fault \<Rightarrow> ('s, unit) run" where
  "chk b e = (if b then ret () else stop e)"

definition wp :: "('s, 'a) run \<Rightarrow> ('a \<Rightarrow> 's \<Rightarrow> bool) \<Rightarrow> (fault \<Rightarrow> bool) \<Rightarrow> 's \<Rightarrow> bool" where
  "wp f Q E s = (case f s of Inl e \<Rightarrow> E e | Inr (x, s') \<Rightarrow> Q x s')"

lemma ret_run [simp, run_simps]: "ret x s = Inr (x, s)"
  by (simp add: ret_def)

lemma stop_run [simp, run_simps]: "stop e s = Inl e"
  by (simp add: stop_def)

lemma chk_run [simp, run_simps]: "chk b e s = (if b then Inr ((), s) else Inl e)"
  by (simp add: chk_def)

lemma bnd_Inr [run_simps]: "f s = Inr (x, s') \<Longrightarrow> bnd f g s = g x s'"
  by (simp add: bnd_def)

lemma bnd_Inl [run_simps]: "f s = Inl e \<Longrightarrow> bnd f g s = Inl e"
  by (simp add: bnd_def)

lemma bnd_ret [simp]: "bnd (ret x) g = g x"
  by (rule ext) (simp add: bnd_def)

lemma bnd_stop [simp]: "bnd (stop e) g = stop e"
  by (rule ext) (simp add: bnd_def)

lemma bnd_assoc: "bnd (bnd f g) h = bnd f (\<lambda>x. bnd (g x) h)"
  by (rule ext) (simp add: bnd_def split: sum.split prod.split)

lemma bnd_chk [simp]: "bnd (chk b e) g = (if b then g () else stop e)"
  by (rule ext) (simp add: bnd_def)

lemma bnd_if: "bnd (if b then f else f') g = (if b then bnd f g else bnd f' g)"
  by simp

lemma bnd_eq_Inr_iff:
  "bnd f g s = Inr r \<longleftrightarrow> (\<exists>x s'. f s = Inr (x, s') \<and> g x s' = Inr r)"
  by (auto simp: bnd_def split: sum.splits)

lemma bnd_eq_Inl_iff:
  "bnd f g s = Inl e \<longleftrightarrow> f s = Inl e \<or> (\<exists>x s'. f s = Inr (x, s') \<and> g x s' = Inl e)"
  by (auto simp: bnd_def split: sum.splits)

lemma wp_ret [simp]: "wp (ret x) Q E s = Q x s"
  by (simp add: wp_def)

lemma wp_stop [simp]: "wp (stop e) Q E s = E e"
  by (simp add: wp_def)

lemma wp_bnd [simp]: "wp (bnd f g) Q E s = wp f (\<lambda>x. wp (g x) Q E) E s"
  by (simp add: wp_def bnd_def split: sum.split prod.split)

lemma wp_mono:
  assumes "wp f Q E s" and "\<And>x s'. Q x s' \<Longrightarrow> Q' x s'" and "\<And>e. E e \<Longrightarrow> E' e"
  shows "wp f Q' E' s"
  using assms by (auto simp: wp_def split: sum.splits)

section \<open>Overwriting a slice\<close>

definition overwrite :: "'a list \<Rightarrow> nat \<Rightarrow> 'a list \<Rightarrow> 'a list" where
  "overwrite xs i ys = take i xs @ ys @ drop (i + length ys) xs"

lemma length_overwrite [simp]:
  "i + length ys \<le> length xs \<Longrightarrow> length (overwrite xs i ys) = length xs"
  by (simp add: overwrite_def)

lemma overwrite_Nil [simp]: "overwrite xs i [] = xs"
  by (simp add: overwrite_def)

lemma take_overwrite_before [simp]:
  "j \<le> i \<Longrightarrow> i \<le> length xs \<Longrightarrow> take j (overwrite xs i ys) = take j xs"
  by (simp add: overwrite_def min_def)

lemma overwrite_slice:
  "i + length ys \<le> length xs \<Longrightarrow> take (length ys) (drop i (overwrite xs i ys)) = ys"
  by (simp add: overwrite_def)

lemma overwrite_nth:
  "i + length ys \<le> length xs \<Longrightarrow> j < length xs \<Longrightarrow>
   overwrite xs i ys ! j = (if i \<le> j \<and> j < i + length ys then ys ! (j - i) else xs ! j)"
  by (auto simp: overwrite_def nth_append min_def)

section \<open>Insertion behind equal keys\<close>

definition insort_after :: "('a \<Rightarrow> 'k::linorder) \<Rightarrow> 'a \<Rightarrow> 'a list \<Rightarrow> 'a list" where
  "insort_after key x xs =
     takeWhile (\<lambda>y. key y \<le> key x) xs @ x # dropWhile (\<lambda>y. key y \<le> key x) xs"

lemma set_insort_after [simp]: "set (insort_after key x xs) = insert x (set xs)"
proof -
  have "set xs = set (takeWhile (\<lambda>y. key y \<le> key x) xs) \<union> set (dropWhile (\<lambda>y. key y \<le> key x) xs)"
    by (metis set_append takeWhile_dropWhile_id)
  then show ?thesis by (simp add: insort_after_def)
qed

lemma length_insort_after [simp]: "length (insort_after key x xs) = Suc (length xs)"
  using arg_cong [OF takeWhile_dropWhile_id, of length "\<lambda>y. key y \<le> key x" xs]
  by (simp add: insort_after_def del: takeWhile_dropWhile_id)

lemma sorted_insort_after:
  "sorted (map key xs) \<Longrightarrow> sorted (map key (insort_after key x xs))"
  unfolding insort_after_def
  by (induction xs) (auto dest: set_takeWhileD set_dropWhileD)

section \<open>Bytes and C strings\<close>

type_synonym byte = char

abbreviation NUL :: byte where "NUL \<equiv> CHR 0x00"

text \<open>The bytes of an array up to (not including) the first zero byte.\<close>

definition cstr :: "byte list \<Rightarrow> byte list" where
  "cstr bs = takeWhile (\<lambda>c. c \<noteq> NUL) bs"

lemma cstr_append_NUL [simp]: "NUL \<notin> set s \<Longrightarrow> cstr (s @ NUL # r) = s"
  by (simp add: cstr_def takeWhile_tail) (metis takeWhile_eq_all_conv)

lemma length_cstr: "length (cstr bs) \<le> length bs"
  by (simp add: cstr_def length_takeWhile_le)

end
