(* ===== verification/Kernel_List.thy ===== *)
theory Kernel_List
  imports BT_Prelude "HOL-Library.Monad_Syntax"
begin

text \<open>
  The intrusive doubly linked lists of \<^verbatim>\<open>include/list.h\<close>.

  Every struct of the program embeds at most one \<open>list_head\<close>, so the list node of the struct
  at address \<open>a\<close> is itself named \<open>a\<close>, and \<open>container_of\<close> is the identity. A link heap maps
  the addresses of live nodes to their two pointers; every operation is a sequence of single
  field reads and writes in the order of the source, and is \<open>None\<close> when it touches an address
  that holds no node. \<open>dll h l xs\<close> says that the ring through the head \<open>l\<close> visits the
  nodes \<open>xs\<close> in order, forwards and backwards. Each operation is shown to refine the
  corresponding operation on sequences, and to leave every node outside the rings it is given
  alone.
\<close>

section \<open>Nodes and field accesses\<close>

type_synonym addr = nat

abbreviation NULL :: addr where "NULL \<equiv> 0"

record list_head =
  lh_next :: addr
  lh_prev :: addr

type_synonym lheap = "addr \<Rightarrow> list_head option"

definition LIST_POISON1 :: addr where "LIST_POISON1 = 0xaabbaabb"
definition LIST_POISON2 :: addr where "LIST_POISON2 = 0xbbaabbaa"

definition get_next :: "lheap \<Rightarrow> addr \<Rightarrow> addr option" where
  "get_next h a = map_option lh_next (h a)"

definition get_prev :: "lheap \<Rightarrow> addr \<Rightarrow> addr option" where
  "get_prev h a = map_option lh_prev (h a)"

definition put_next :: "addr \<Rightarrow> addr \<Rightarrow> lheap \<Rightarrow> lheap" where
  "put_next a v h = h(a := map_option (\<lambda>n. n\<lparr>lh_next := v\<rparr>) (h a))"

definition put_prev :: "addr \<Rightarrow> addr \<Rightarrow> lheap \<Rightarrow> lheap" where
  "put_prev a v h = h(a := map_option (\<lambda>n. n\<lparr>lh_prev := v\<rparr>) (h a))"

definition set_next :: "addr \<Rightarrow> addr \<Rightarrow> lheap \<Rightarrow> lheap option" where
  "set_next a v h = (if h a = None then None else Some (put_next a v h))"

definition set_prev :: "addr \<Rightarrow> addr \<Rightarrow> lheap \<Rightarrow> lheap option" where
  "set_prev a v h = (if h a = None then None else Some (put_prev a v h))"

section \<open>The operations of list.h\<close>

definition INIT_LIST_HEAD :: "addr \<Rightarrow> lheap \<Rightarrow> lheap option" where
  "INIT_LIST_HEAD l h = do { h \<leftarrow> set_next l l h; set_prev l l h }"

definition list_add_raw :: "addr \<Rightarrow> addr \<Rightarrow> addr \<Rightarrow> lheap \<Rightarrow> lheap option" where
  "list_add_raw new prv nxt h = do {
     h \<leftarrow> set_prev nxt new h;
     h \<leftarrow> set_next new nxt h;
     h \<leftarrow> set_prev new prv h;
     set_next prv new h }"

definition list_add :: "addr \<Rightarrow> addr \<Rightarrow> lheap \<Rightarrow> lheap option" where
  "list_add new head h = do { n \<leftarrow> get_next h head; list_add_raw new head n h }"

definition list_add_tail :: "addr \<Rightarrow> addr \<Rightarrow> lheap \<Rightarrow> lheap option" where
  "list_add_tail new head h = do { p \<leftarrow> get_prev h head; list_add_raw new p head h }"

definition list_del_raw :: "addr \<Rightarrow> addr \<Rightarrow> lheap \<Rightarrow> lheap option" where
  "list_del_raw prv nxt h = do { h \<leftarrow> set_prev nxt prv h; set_next prv nxt h }"

definition list_del_entry_raw :: "addr \<Rightarrow> lheap \<Rightarrow> lheap option" where
  "list_del_entry_raw e h = do {
     p \<leftarrow> get_prev h e; n \<leftarrow> get_next h e; list_del_raw p n h }"

definition list_del :: "addr \<Rightarrow> lheap \<Rightarrow> lheap option" where
  "list_del e h = do {
     p \<leftarrow> get_prev h e;
     n \<leftarrow> get_next h e;
     h \<leftarrow> list_del_raw p n h;
     h \<leftarrow> set_next e LIST_POISON1 h;
     set_prev e LIST_POISON2 h }"

definition list_replace :: "addr \<Rightarrow> addr \<Rightarrow> lheap \<Rightarrow> lheap option" where
  "list_replace old new h = do {
     n \<leftarrow> get_next h old;
     h \<leftarrow> set_next new n h;
     n' \<leftarrow> get_next h new;
     h \<leftarrow> set_prev n' new h;
     p \<leftarrow> get_prev h old;
     h \<leftarrow> set_prev new p h;
     p' \<leftarrow> get_prev h new;
     set_next p' new h }"

definition list_replace_init :: "addr \<Rightarrow> addr \<Rightarrow> lheap \<Rightarrow> lheap option" where
  "list_replace_init old new h = do { h \<leftarrow> list_replace old new h; INIT_LIST_HEAD old h }"

definition list_del_init :: "addr \<Rightarrow> lheap \<Rightarrow> lheap option" where
  "list_del_init e h = do { h \<leftarrow> list_del_entry_raw e h; INIT_LIST_HEAD e h }"

definition list_move :: "addr \<Rightarrow> addr \<Rightarrow> lheap \<Rightarrow> lheap option" where
  "list_move l head h = do { h \<leftarrow> list_del_entry_raw l h; list_add l head h }"

definition list_move_tail :: "addr \<Rightarrow> addr \<Rightarrow> lheap \<Rightarrow> lheap option" where
  "list_move_tail l head h = do { h \<leftarrow> list_del_entry_raw l h; list_add_tail l head h }"

definition list_is_last :: "addr \<Rightarrow> addr \<Rightarrow> lheap \<Rightarrow> bool option" where
  "list_is_last l head h = do { n \<leftarrow> get_next h l; Some (n = head) }"

definition list_empty :: "addr \<Rightarrow> lheap \<Rightarrow> bool option" where
  "list_empty head h = do { n \<leftarrow> get_next h head; Some (n = head) }"

definition list_rotate_left :: "addr \<Rightarrow> lheap \<Rightarrow> lheap option" where
  "list_rotate_left head h = do {
     e \<leftarrow> list_empty head h;
     if \<not> e then do { first \<leftarrow> get_next h head; list_move_tail first head h }
     else Some h }"

definition list_is_singular :: "addr \<Rightarrow> lheap \<Rightarrow> bool option" where
  "list_is_singular head h = do {
     e \<leftarrow> list_empty head h;
     if e then Some False
     else do { n \<leftarrow> get_next h head; p \<leftarrow> get_prev h head; Some (n = p) } }"

definition list_cut_position_raw :: "addr \<Rightarrow> addr \<Rightarrow> addr \<Rightarrow> lheap \<Rightarrow> lheap option" where
  "list_cut_position_raw l head e h = do {
     new_first \<leftarrow> get_next h e;
     n \<leftarrow> get_next h head;
     h \<leftarrow> set_next l n h;
     n' \<leftarrow> get_next h l;
     h \<leftarrow> set_prev n' l h;
     h \<leftarrow> set_prev l e h;
     h \<leftarrow> set_next e l h;
     h \<leftarrow> set_next head new_first h;
     set_prev new_first head h }"

definition list_cut_position :: "addr \<Rightarrow> addr \<Rightarrow> addr \<Rightarrow> lheap \<Rightarrow> lheap option" where
  "list_cut_position l head e h = do {
     emp \<leftarrow> list_empty head h;
     if emp then Some h
     else do {
       sing \<leftarrow> list_is_singular head h;
       n \<leftarrow> get_next h head;
       if sing \<and> n \<noteq> e \<and> head \<noteq> e then Some h
       else if e = head then INIT_LIST_HEAD l h
       else list_cut_position_raw l head e h } }"

definition list_splice_raw :: "addr \<Rightarrow> addr \<Rightarrow> addr \<Rightarrow> lheap \<Rightarrow> lheap option" where
  "list_splice_raw l prv nxt h = do {
     first \<leftarrow> get_next h l;
     lst \<leftarrow> get_prev h l;
     h \<leftarrow> set_prev first prv h;
     h \<leftarrow> set_next prv first h;
     h \<leftarrow> set_next lst nxt h;
     set_prev nxt lst h }"

definition list_splice :: "addr \<Rightarrow> addr \<Rightarrow> lheap \<Rightarrow> lheap option" where
  "list_splice l head h = do {
     e \<leftarrow> list_empty l h;
     if \<not> e then do { n \<leftarrow> get_next h head; list_splice_raw l head n h } else Some h }"

definition list_splice_tail :: "addr \<Rightarrow> addr \<Rightarrow> lheap \<Rightarrow> lheap option" where
  "list_splice_tail l head h = do {
     e \<leftarrow> list_empty l h;
     if \<not> e then do { p \<leftarrow> get_prev h head; list_splice_raw l p head h } else Some h }"

definition list_splice_init :: "addr \<Rightarrow> addr \<Rightarrow> lheap \<Rightarrow> lheap option" where
  "list_splice_init l head h = do {
     e \<leftarrow> list_empty l h;
     if \<not> e then do {
       n \<leftarrow> get_next h head;
       h \<leftarrow> list_splice_raw l head n h;
       INIT_LIST_HEAD l h }
     else Some h }"

definition list_splice_tail_init :: "addr \<Rightarrow> addr \<Rightarrow> lheap \<Rightarrow> lheap option" where
  "list_splice_tail_init l head h = do {
     e \<leftarrow> list_empty l h;
     if \<not> e then do {
       p \<leftarrow> get_prev h head;
       h \<leftarrow> list_splice_raw l p head h;
       INIT_LIST_HEAD l h }
     else Some h }"

text \<open>
  The iteration macros: \<open>list_for_each\<close>, \<open>list_for_each_prev\<close> and their \<open>entry\<close> forms visit
  the addresses that \<open>list_for_each\<close> and \<open>list_for_each_prev\<close> return here (bounded by fuel,
  since a corrupted ring need not come back to its head).
\<close>

definition list_first_entry :: "addr \<Rightarrow> lheap \<Rightarrow> addr option" where
  "list_first_entry l h = get_next h l"

definition list_last_entry :: "addr \<Rightarrow> lheap \<Rightarrow> addr option" where
  "list_last_entry l h = get_prev h l"

definition list_first_entry_or_null :: "addr \<Rightarrow> lheap \<Rightarrow> addr option" where
  "list_first_entry_or_null l h = do {
     e \<leftarrow> list_empty l h; if \<not> e then list_first_entry l h else Some NULL }"

definition list_next_entry :: "addr \<Rightarrow> lheap \<Rightarrow> addr option" where
  "list_next_entry pos h = get_next h pos"

definition list_prev_entry :: "addr \<Rightarrow> lheap \<Rightarrow> addr option" where
  "list_prev_entry pos h = get_prev h pos"

fun list_for_each_from :: "nat \<Rightarrow> addr \<Rightarrow> addr \<Rightarrow> lheap \<Rightarrow> addr list option" where
  "list_for_each_from 0 pos head h = None"
| "list_for_each_from (Suc f) pos head h =
     (if pos = head then Some []
      else do { n \<leftarrow> list_next_entry pos h;
                r \<leftarrow> list_for_each_from f n head h;
                Some (pos # r) })"

definition list_for_each :: "nat \<Rightarrow> addr \<Rightarrow> lheap \<Rightarrow> addr list option" where
  "list_for_each f head h = do { pos \<leftarrow> list_first_entry head h; list_for_each_from f pos head h }"

fun list_for_each_prev_from :: "nat \<Rightarrow> addr \<Rightarrow> addr \<Rightarrow> lheap \<Rightarrow> addr list option" where
  "list_for_each_prev_from 0 pos head h = None"
| "list_for_each_prev_from (Suc f) pos head h =
     (if pos = head then Some []
      else do { p \<leftarrow> list_prev_entry pos h;
                r \<leftarrow> list_for_each_prev_from f p head h;
                Some (pos # r) })"

definition list_for_each_prev :: "nat \<Rightarrow> addr \<Rightarrow> lheap \<Rightarrow> addr list option" where
  "list_for_each_prev f head h =
     do { pos \<leftarrow> list_last_entry head h; list_for_each_prev_from f pos head h }"

section \<open>Field updates\<close>

lemma get_put [simp]:
  "get_next (put_next a v h) b = (if a = b \<and> h a \<noteq> None then Some v else get_next h b)"
  "get_prev (put_next a v h) b = get_prev h b"
  "get_prev (put_prev a v h) b = (if a = b \<and> h a \<noteq> None then Some v else get_prev h b)"
  "get_next (put_prev a v h) b = get_next h b"
  by (auto simp: get_next_def get_prev_def put_next_def put_prev_def option.map_comp o_def)

lemma put_None_iff [simp]:
  "(put_next a v h b = None) = (h b = None)"
  "(put_prev a v h b = None) = (h b = None)"
  by (auto simp: put_next_def put_prev_def)

lemma dom_put [simp]: "dom (put_next a v h) = dom h" "dom (put_prev a v h) = dom h"
  by (auto simp: dom_def)

lemma put_other: "b \<noteq> a \<Longrightarrow> put_next a v h b = h b" "b \<noteq> a \<Longrightarrow> put_prev a v h b = h b"
  by (simp_all add: put_next_def put_prev_def)

lemma set_Some [simp]:
  "h a \<noteq> None \<Longrightarrow> set_next a v h = Some (put_next a v h)"
  "h a \<noteq> None \<Longrightarrow> set_prev a v h = Some (put_prev a v h)"
  by (simp_all add: set_next_def set_prev_def)

lemma get_SomeD [dest]:
  "get_next h a = Some b \<Longrightarrow> h a \<noteq> None"
  "get_prev h a = Some b \<Longrightarrow> h a \<noteq> None"
  by (auto simp: get_next_def get_prev_def)

lemma heap_eqI:
  assumes "\<And>b. get_next h b = get_next h' b" and "\<And>b. get_prev h b = get_prev h' b"
  shows "h b = (h' b :: list_head option)"
  using assms(1) [of b] assms(2) [of b]
  by (cases "h b"; cases "h' b") (auto simp: get_next_def get_prev_def)

section \<open>Chains and rings\<close>

fun linked :: "lheap \<Rightarrow> addr list \<Rightarrow> bool" where
  "linked h (x # y # zs) = (get_next h x = Some y \<and> get_prev h y = Some x \<and> linked h (y # zs))"
| "linked h zs = True"

definition dll :: "lheap \<Rightarrow> addr \<Rightarrow> addr list \<Rightarrow> bool" where
  "dll h l xs \<longleftrightarrow> distinct (l # xs) \<and> linked h (l # xs @ [l])"

lemma linked_Cons:
  "linked h (x # ys) \<longleftrightarrow>
     (case ys of [] \<Rightarrow> True
      | y # _ \<Rightarrow> get_next h x = Some y \<and> get_prev h y = Some x \<and> linked h ys)"
  by (cases ys) auto

lemma linked_append: "linked h (xs @ y # ys) \<longleftrightarrow> linked h (xs @ [y]) \<and> linked h (y # ys)"
proof (induction xs)
  case (Cons x xs)
  then show ?case by (cases xs) auto
qed simp

lemma linked_snoc2: "linked h (xs @ [x, y]) \<longleftrightarrow>
    linked h (xs @ [x]) \<and> get_next h x = Some y \<and> get_prev h y = Some x"
  using linked_append [of h xs x "[y]"] by auto

lemma linked_cong:
  assumes "\<And>a. a \<in> set (butlast zs) \<Longrightarrow> get_next h' a = get_next h a"
    and "\<And>a. a \<in> set (tl zs) \<Longrightarrow> get_prev h' a = get_prev h a"
  shows "linked h' zs = linked h zs"
  using assms
proof (induction h zs rule: linked.induct)
  case (1 h x y zs)
  have "linked h' (y # zs) = linked h (y # zs)"
    using "1.prems" by (intro "1.IH") (auto split: if_splits)
  then show ?case using "1.prems" by auto
qed auto

lemma linked_frame:
  assumes "\<And>a. a \<in> set zs \<Longrightarrow> h' a = h a"
  shows "linked h' zs = linked h zs"
proof (rule linked_cong)
  show "get_next h' a = get_next h a" if "a \<in> set (butlast zs)" for a
    using assms [of a] in_set_butlastD [OF that] by (simp add: get_next_def)
  show "get_prev h' a = get_prev h a" if "a \<in> set (tl zs)" for a
    using assms [of a] that by (cases zs) (simp_all add: get_prev_def)
qed

lemma dll_frame: "(\<And>a. a \<in> set (l # xs) \<Longrightarrow> h' a = h a) \<Longrightarrow> dll h' l xs = dll h l xs"
  unfolding dll_def using linked_frame [of "l # xs @ [l]" h' h] by auto

lemma linked_next: "linked h (A @ x # y # B) \<Longrightarrow> get_next h x = Some y \<and> get_prev h y = Some x"
  using linked_append [of h A x "y # B"] by simp

lemma dll_distinct: "dll h l xs \<Longrightarrow> distinct (l # xs)"
  by (simp add: dll_def)

lemma linked_dom: "linked h zs \<Longrightarrow> 2 \<le> length zs \<Longrightarrow> x \<in> set zs \<Longrightarrow> h x \<noteq> None"
proof (induction h zs rule: linked.induct)
  case (1 h x' y zs)
  show ?case
  proof (cases "x = x' \<or> x = y")
    case True
    with "1.prems" show ?thesis by auto
  next
    case False
    with "1.prems" have "x \<in> set (y # zs)" "2 \<le> length (y # zs)" by (cases zs, auto)+
    with "1.prems" "1.IH" show ?thesis by simp
  qed
qed auto

lemma dll_dom: "dll h l xs \<Longrightarrow> x \<in> set (l # xs) \<Longrightarrow> h x \<noteq> None"
  unfolding dll_def by (rule linked_dom) auto

lemma dll_first [list_ops]: "dll h l xs \<Longrightarrow> get_next h l = Some (hd (xs @ [l]))"
  unfolding dll_def by (cases xs) auto

lemma dll_last [list_ops]: "dll h l xs \<Longrightarrow> get_prev h l = Some (last (l # xs))"
  unfolding dll_def using linked_snoc2 [of h "l # butlast xs" "last xs" l]
  by (cases xs rule: rev_cases) auto

lemma dll_nth_next:
  "dll h l (xs @ x # ys) \<Longrightarrow> get_next h x = Some (hd (ys @ [l]))"
  unfolding dll_def using linked_next [of h "l # xs" x "hd (ys @ [l])" "tl (ys @ [l])"] by (cases ys) auto

lemma dll_nth_prev:
  "dll h l (xs @ x # ys) \<Longrightarrow> get_prev h x = Some (last (l # xs))"
  unfolding dll_def using linked_next [of h "butlast (l # xs)" "last (l # xs)" x "ys @ [l]"]
  by (cases xs rule: rev_cases) auto

section \<open>Insertion and removal\<close>

definition spliced_in :: "addr \<Rightarrow> addr \<Rightarrow> addr \<Rightarrow> lheap \<Rightarrow> lheap" where
  "spliced_in new p n h = put_next p new (put_prev new p (put_next new n (put_prev n new h)))"

definition spliced_out :: "addr \<Rightarrow> addr \<Rightarrow> lheap \<Rightarrow> lheap" where
  "spliced_out p n h = put_next p n (put_prev n p h)"

lemma list_add_raw_Some:
  "h new \<noteq> None \<Longrightarrow> h p \<noteq> None \<Longrightarrow> h n \<noteq> None \<Longrightarrow>
   list_add_raw new p n h = Some (spliced_in new p n h)"
  by (simp add: list_add_raw_def spliced_in_def)

lemma list_del_raw_Some:
  "h p \<noteq> None \<Longrightarrow> h n \<noteq> None \<Longrightarrow> list_del_raw p n h = Some (spliced_out p n h)"
  by (simp add: list_del_raw_def spliced_out_def)

lemma spliced_in_other: "b \<notin> {new, p, n} \<Longrightarrow> spliced_in new p n h b = h b"
  by (simp add: spliced_in_def put_other)

lemma spliced_out_other: "b \<notin> {p, n} \<Longrightarrow> spliced_out p n h b = h b"
  by (simp add: spliced_out_def put_other)

lemma spliced_None_iff [simp]:
  "(spliced_in new p n h b = None) = (h b = None)"
  "(spliced_out p n h b = None) = (h b = None)"
  by (simp_all add: spliced_in_def spliced_out_def)

lemma linked_spliced_in:
  assumes l: "linked h (A @ p # n # B)" and d: "distinct (A @ [p])" "distinct (n # B)"
    and d1: "p \<notin> set (butlast (n # B))" and d2: "n \<notin> set (tl (A @ [p]))"
    and new: "new \<notin> set (A @ p # n # B)" "h new \<noteq> None"
  shows "linked (spliced_in new p n h) (A @ p # new # n # B)"
proof -
  let ?h = "spliced_in new p n h"
  have pn: "get_next h p = Some n" "get_prev h n = Some p" using linked_next [OF l] by auto
  have "linked h (A @ [p])" "linked h (n # B)"
    using l linked_append [of h A p "n # B"] by auto
  moreover have "linked ?h (A @ [p]) = linked h (A @ [p])"
    using d d2 new by (intro linked_cong) (auto simp: spliced_in_def dest: list.set_sel(2) [rotated])
  moreover have "linked ?h (n # B) = linked h (n # B)"
    using d d1 new by (intro linked_cong) (auto simp: spliced_in_def dest: in_set_butlastD split: if_splits)
  ultimately show ?thesis
    using pn new linked_append [of ?h A p "new # n # B"]
    by (auto simp: spliced_in_def)
qed

lemma linked_spliced_out:
  assumes l: "linked h (A @ p # e # n # B)" and d: "distinct (A @ [p])" "distinct (n # B)"
    and d1: "p \<notin> set (butlast (n # B))" and d2: "n \<notin> set (tl (A @ [p]))"
  shows "linked (spliced_out p n h) (A @ p # n # B)"
proof -
  let ?h = "spliced_out p n h"
  have pe: "h p \<noteq> None" "h n \<noteq> None"
    using linked_dom [OF l, of p] linked_dom [OF l, of n] by auto
  have "linked h (A @ [p])" "linked h (n # B)"
    using l linked_append [of h A p "e # n # B"] by auto
  moreover have "linked ?h (A @ [p]) = linked h (A @ [p])"
    using d d2 by (intro linked_cong) (auto simp: spliced_out_def)
  moreover have "linked ?h (n # B) = linked h (n # B)"
    using d d1 by (intro linked_cong) (auto simp: spliced_out_def dest: in_set_butlastD split: if_splits)
  ultimately show ?thesis
    using pe linked_append [of ?h A p "n # B"] by (auto simp: spliced_out_def)
qed

text \<open>
  The ring through \<open>l\<close> is cut open in front of \<open>ys\<close>: the node before the cut is
  \<open>last (l # xs)\<close>, the node behind it is \<open>hd (ys @ [l])\<close>.
\<close>

lemma ring_cut:
  "l # (xs @ ys) @ [l] = butlast (l # xs) @ last (l # xs) # hd (ys @ [l]) # tl (ys @ [l])"
  by (cases xs rule: rev_cases; cases ys) auto

lemma ring_cut_distinct:
  assumes "distinct (l # xs @ ys)"
  shows "distinct (butlast (l # xs) @ [last (l # xs)])" "distinct (hd (ys @ [l]) # tl (ys @ [l]))"
    "last (l # xs) \<notin> set (butlast (hd (ys @ [l]) # tl (ys @ [l])))"
    "hd (ys @ [l]) \<notin> set (tl (butlast (l # xs) @ [last (l # xs)]))"
  using assms by (cases xs rule: rev_cases; cases ys; auto)+

lemma ring_ends:
  "last (l # xs) \<in> set (l # xs @ ys)" "hd (ys @ [l]) \<in> set (l # xs @ ys)"
  by (cases xs rule: rev_cases; cases ys; auto)+

lemma dll_spliced_in:
  assumes "dll h l (xs @ ys)" and "new \<notin> set (l # xs @ ys)" and "h new \<noteq> None"
  shows "dll (spliced_in new (last (l # xs)) (hd (ys @ [l])) h) l (xs @ new # ys)"
proof -
  have d: "distinct (l # xs @ ys)" and k: "linked h (l # (xs @ ys) @ [l])"
    using assms(1) by (auto simp: dll_def)
  have "new \<notin> set (l # (xs @ ys) @ [l])" using assms(2) by simp
  then have "linked (spliced_in new (last (l # xs)) (hd (ys @ [l])) h)
          (butlast (l # xs) @ last (l # xs) # new # hd (ys @ [l]) # tl (ys @ [l]))"
    using assms(3)
    by (intro linked_spliced_in [OF k [unfolded ring_cut] ring_cut_distinct [OF d]])
      (simp_all only: ring_cut not_False_eq_True)
  moreover have eq: "l # (xs @ new # ys) @ [l]
      = butlast (l # xs) @ last (l # xs) # new # hd (ys @ [l]) # tl (ys @ [l])"
    by (cases xs rule: rev_cases; cases ys) auto
  ultimately have "linked (spliced_in new (last (l # xs)) (hd (ys @ [l])) h)
      (l # (xs @ new # ys) @ [l])"
    by (simp only: eq)
  then show ?thesis using d assms(2) by (auto simp: dll_def)
qed

lemma dll_spliced_out:
  assumes "dll h l (xs @ e # ys)"
  shows "dll (spliced_out (last (l # xs)) (hd (ys @ [l])) h) l (xs @ ys)"
proof -
  have d: "distinct (l # xs @ ys)" and k: "linked h (l # (xs @ e # ys) @ [l])"
    using assms by (auto simp: dll_def)
  have eq: "l # (xs @ e # ys) @ [l]
      = butlast (l # xs) @ last (l # xs) # e # hd (ys @ [l]) # tl (ys @ [l])"
    by (cases xs rule: rev_cases; cases ys) auto
  have "linked h (butlast (l # xs) @ last (l # xs) # e # hd (ys @ [l]) # tl (ys @ [l]))"
    using k by (simp only: eq)
  then have "linked (spliced_out (last (l # xs)) (hd (ys @ [l])) h)
      (butlast (l # xs) @ last (l # xs) # hd (ys @ [l]) # tl (ys @ [l]))"
    by (rule linked_spliced_out [OF _ ring_cut_distinct [OF d]])
  then have "linked (spliced_out (last (l # xs)) (hd (ys @ [l])) h) (l # (xs @ ys) @ [l])"
    by (simp only: ring_cut)
  then show ?thesis using d by (auto simp: dll_def)
qed

section \<open>The operations refine operations on sequences\<close>

text \<open>What an operation may change: the nodes of \<open>S\<close>, and no node appears or disappears.\<close>

definition keeps :: "addr set \<Rightarrow> lheap \<Rightarrow> lheap \<Rightarrow> bool" where
  "keeps S h h' \<longleftrightarrow> dom h' = dom h \<and> (\<forall>a. a \<notin> S \<longrightarrow> h' a = h a)"

lemma keepsD: "keeps S h h' \<Longrightarrow> a \<notin> S \<Longrightarrow> h' a = h a"
  by (simp add: keeps_def)

lemma keeps_live: "keeps S h h' \<Longrightarrow> (h' a = None) = (h a = None)"
  unfolding keeps_def by (metis domIff)

lemma keeps_trans: "keeps S h h' \<Longrightarrow> keeps T h' h'' \<Longrightarrow> keeps (S \<union> T) h h''"
  by (simp add: keeps_def)

lemma keeps_mono: "keeps S h h' \<Longrightarrow> S \<subseteq> T \<Longrightarrow> keeps T h h'"
  by (auto simp: keeps_def)

lemma keeps_spliced_in: "{new, p, n} \<subseteq> S \<Longrightarrow> keeps S h (spliced_in new p n h)"
  unfolding keeps_def by (intro conjI allI impI spliced_in_other) (auto simp: spliced_in_def)

lemma keeps_spliced_out: "{p, n} \<subseteq> S \<Longrightarrow> keeps S h (spliced_out p n h)"
  unfolding keeps_def by (intro conjI allI impI spliced_out_other) (auto simp: spliced_out_def)

lemma keeps_put: "a \<in> S \<Longrightarrow> keeps S h (put_next a v h)" "a \<in> S \<Longrightarrow> keeps S h (put_prev a v h)"
  unfolding keeps_def by (metis dom_put put_other)+

lemma keeps_put2: "keeps {a} h (put_prev a v (put_next a w h))"
  using keeps_trans [OF keeps_put(1) keeps_put(2)] by (metis insertI1 Un_absorb)

lemma keeps_refl: "keeps S h h"
  by (simp add: keeps_def)

lemma keeps_step:
  "keeps S h h' \<Longrightarrow> a \<in> S \<Longrightarrow> keeps S h (put_next a v h')"
  "keeps S h h' \<Longrightarrow> a \<in> S \<Longrightarrow> keeps S h (put_prev a v h')"
  using keeps_trans [OF _ keeps_put(1)] keeps_trans [OF _ keeps_put(2)] by (metis Un_absorb)+

lemmas keeps_steps = keeps_refl keeps_step

lemma INIT_LIST_HEAD_dll [list_ops]:
  assumes "h l \<noteq> None"
  shows "\<exists>h'. INIT_LIST_HEAD l h = Some h' \<and> dll h' l [] \<and> keeps {l} h h'"
  using assms by (auto simp: INIT_LIST_HEAD_def dll_def intro: keeps_put2)

lemma dll_cut_prev: "dll h l (xs @ ys) \<Longrightarrow> get_prev h (hd (ys @ [l])) = Some (last (l # xs))"
  by (cases ys) (auto simp: dll_last dll_nth_prev)

lemma list_add_tail_before:
  assumes "dll h l (xs @ ys)" and "new \<notin> set (l # xs @ ys)" and "h new \<noteq> None"
  shows "\<exists>h'. list_add_tail new (hd (ys @ [l])) h = Some h' \<and> dll h' l (xs @ new # ys)
           \<and> keeps (set (l # new # xs @ ys)) h h'"
proof -
  let ?p = "last (l # xs)" and ?n = "hd (ys @ [l])"
  have "h ?p \<noteq> None" "h ?n \<noteq> None"
    using dll_dom [OF assms(1)] ring_ends [where xs = xs and ys = ys and l = l] by auto
  then have "list_add_tail new ?n h = Some (spliced_in new ?p ?n h)"
    unfolding list_add_tail_def dll_cut_prev [OF assms(1)]
    using assms(3) by (simp add: list_add_raw_Some del: last.simps)
  moreover have "keeps (set (l # new # xs @ ys)) h (spliced_in new ?p ?n h)"
    using ring_ends [where xs = xs and ys = ys and l = l]
    by (intro keeps_spliced_in) (auto simp del: last.simps)
  ultimately show ?thesis using dll_spliced_in [OF assms] by blast
qed

lemma list_add_tail_dll [list_ops]:
  assumes "dll h l xs" and "new \<notin> set (l # xs)" and "h new \<noteq> None"
  shows "\<exists>h'. list_add_tail new l h = Some h' \<and> dll h' l (xs @ [new]) \<and> keeps (set (l # new # xs)) h h'"
  using list_add_tail_before [of h l xs "[]" new] assms by simp

lemma list_add_dll [list_ops]:
  assumes "dll h l xs" and "new \<notin> set (l # xs)" and "h new \<noteq> None"
  shows "\<exists>h'. list_add new l h = Some h' \<and> dll h' l (new # xs) \<and> keeps (set (l # new # xs)) h h'"
proof -
  let ?n = "hd (xs @ [l])"
  have n: "?n \<in> set (l # xs)" using ring_ends(2) [where xs = "[]"] by simp
  have "h l \<noteq> None" "h ?n \<noteq> None"
    using dll_dom [OF assms(1), of l] dll_dom [OF assms(1) n] by auto
  then have "list_add new l h = Some (spliced_in new l ?n h)"
    unfolding list_add_def dll_first [OF assms(1)]
    using assms(3) by (simp add: list_add_raw_Some)
  moreover have "keeps (set (l # new # xs)) h (spliced_in new l ?n h)"
    using n by (intro keeps_spliced_in) auto
  ultimately show ?thesis using dll_spliced_in [of h l "[]" xs new] assms by auto
qed

lemma list_del_entry_dll:
  assumes "dll h l (xs @ e # ys)"
  shows "\<exists>h'. list_del_entry_raw e h = Some h' \<and> dll h' l (xs @ ys)
          \<and> keeps (set (l # xs @ ys)) h h'"
proof -
  let ?p = "last (l # xs)" and ?n = "hd (ys @ [l])"
  have m: "?p \<in> set (l # xs @ ys)" "?n \<in> set (l # xs @ ys)" by (rule ring_ends)+
  then have "h ?p \<noteq> None" "h ?n \<noteq> None" using dll_dom [OF assms] by auto
  then have "list_del_entry_raw e h = Some (spliced_out ?p ?n h)"
    unfolding list_del_entry_raw_def dll_nth_prev [OF assms] dll_nth_next [OF assms]
    by (simp add: list_del_raw_Some del: last.simps)
  moreover have "keeps (set (l # xs @ ys)) h (spliced_out ?p ?n h)"
    using m by (intro keeps_spliced_out) auto
  ultimately show ?thesis using dll_spliced_out [OF assms] by blast
qed

lemma dll_keeps: "keeps S h h' \<Longrightarrow> S \<inter> set (l # xs) = {} \<Longrightarrow> dll h' l xs = dll h l xs"
  by (rule dll_frame) (auto simp: keeps_def)

lemma list_del_dll [list_ops]:
  assumes "dll h l (xs @ e # ys)"
  shows "\<exists>h'. list_del e h = Some h' \<and> dll h' l (xs @ ys) \<and> keeps (set (l # xs @ e # ys)) h h'
          \<and> h' e = Some \<lparr>lh_next = LIST_POISON1, lh_prev = LIST_POISON2\<rparr>"
proof -
  obtain h1 where h1: "list_del_entry_raw e h = Some h1" "dll h1 l (xs @ ys)"
    "keeps (set (l # xs @ ys)) h h1"
    using list_del_entry_dll [OF assms] by blast
  let ?h2 = "put_prev e LIST_POISON2 (put_next e LIST_POISON1 h1)"
  have e: "e \<notin> set (l # xs @ ys)" "h e \<noteq> None"
    using dll_distinct [OF assms] dll_dom [OF assms, of e] by auto
  then have e1: "h1 e \<noteq> None" using keeps_live [OF h1(3)] by simp
  have "list_del e h = Some ?h2"
    using h1(1) e1 unfolding list_del_def list_del_entry_raw_def
    by (auto split: bind_splits)
  moreover have k2: "keeps {e} h1 ?h2"
    by (rule keeps_put2)
  moreover have "dll ?h2 l (xs @ ys)"
    using dll_keeps [OF k2] e h1(2) by auto
  moreover have "keeps (set (l # xs @ e # ys)) h ?h2"
    using keeps_trans [OF h1(3) k2] by (rule keeps_mono) auto
  moreover have "?h2 e = Some \<lparr>lh_next = LIST_POISON1, lh_prev = LIST_POISON2\<rparr>"
    using e1 by (auto simp: put_next_def put_prev_def)
  ultimately show ?thesis by blast
qed

lemma list_del_init_dll [list_ops]:
  assumes "dll h l (xs @ e # ys)"
  shows "\<exists>h'. list_del_init e h = Some h' \<and> dll h' l (xs @ ys) \<and> dll h' e []
          \<and> keeps (set (l # xs @ e # ys)) h h'"
proof -
  obtain h1 where h1: "list_del_entry_raw e h = Some h1" "dll h1 l (xs @ ys)"
    "keeps (set (l # xs @ ys)) h h1"
    using list_del_entry_dll [OF assms] by blast
  have e: "e \<notin> set (l # xs @ ys)" "h1 e \<noteq> None"
    using dll_distinct [OF assms] dll_dom [OF assms, of e] keeps_live [OF h1(3)] by auto
  obtain h2 where h2: "INIT_LIST_HEAD e h1 = Some h2" "dll h2 e []" "keeps {e} h1 h2"
    using INIT_LIST_HEAD_dll [of h1 e] e by blast
  moreover have "dll h2 l (xs @ ys)" using dll_keeps [OF h2(3)] e h1(2) by auto
  moreover have "keeps (set (l # xs @ e # ys)) h h2"
    using keeps_trans [OF h1(3) h2(3)] by (rule keeps_mono) auto
  ultimately show ?thesis using h1(1) by (simp add: list_del_init_def)
qed

text \<open>Moving an entry is a removal followed by an insertion, possibly in another ring.\<close>

lemma list_move_tail_dll [list_ops]:
  assumes "dll h l (xs @ e # ys)"
  shows "\<exists>h'. list_move_tail e l h = Some h' \<and> dll h' l (xs @ ys @ [e])
          \<and> keeps (set (l # xs @ e # ys)) h h'"
proof -
  obtain h1 where h1: "list_del_entry_raw e h = Some h1" "dll h1 l (xs @ ys)"
    "keeps (set (l # xs @ ys)) h h1"
    using list_del_entry_dll [OF assms] by blast
  have e: "e \<notin> set (l # xs @ ys)" "h1 e \<noteq> None"
    using dll_distinct [OF assms] dll_dom [OF assms, of e] keeps_live [OF h1(3)] by auto
  obtain h2 where h2: "list_add_tail e l h1 = Some h2" "dll h2 l ((xs @ ys) @ [e])"
    "keeps (set (l # e # xs @ ys)) h1 h2"
    using list_add_tail_dll [OF h1(2) e] by blast
  have "keeps (set (l # xs @ e # ys)) h h2"
    using keeps_trans [OF h1(3) h2(3)] by (rule keeps_mono) auto
  then show ?thesis using h1(1) h2 by (simp add: list_move_tail_def)
qed

lemma list_move_dll [list_ops]:
  assumes "dll h l (xs @ e # ys)"
  shows "\<exists>h'. list_move e l h = Some h' \<and> dll h' l (e # xs @ ys)
          \<and> keeps (set (l # xs @ e # ys)) h h'"
proof -
  obtain h1 where h1: "list_del_entry_raw e h = Some h1" "dll h1 l (xs @ ys)"
    "keeps (set (l # xs @ ys)) h h1"
    using list_del_entry_dll [OF assms] by blast
  have e: "e \<notin> set (l # xs @ ys)" "h1 e \<noteq> None"
    using dll_distinct [OF assms] dll_dom [OF assms, of e] keeps_live [OF h1(3)] by auto
  obtain h2 where h2: "list_add e l h1 = Some h2" "dll h2 l (e # xs @ ys)"
    "keeps (set (l # e # xs @ ys)) h1 h2"
    using list_add_dll [OF h1(2) e] by blast
  have "keeps (set (l # xs @ e # ys)) h h2"
    using keeps_trans [OF h1(3) h2(3)] by (rule keeps_mono) auto
  then show ?thesis using h1(1) h2 by (simp add: list_move_def)
qed

lemma hd_snoc_neq: "l \<notin> set xs \<Longrightarrow> hd (xs @ [l]) = l \<longleftrightarrow> xs = []"
  by (cases xs) auto

lemma list_empty_dll [list_ops]: "dll h l xs \<Longrightarrow> list_empty l h = Some (xs = [])"
  using dll_first [of h l xs] dll_distinct [of h l xs] hd_snoc_neq [of l xs]
  by (simp add: list_empty_def)

lemma list_is_singular_dll [list_ops]: "dll h l xs \<Longrightarrow> list_is_singular l h = Some (length xs = 1)"
  using dll_first [of h l xs] dll_last [of h l xs] dll_distinct [of h l xs]
  by (cases xs; cases "tl xs" rule: rev_cases)
    (auto simp: list_is_singular_def list_empty_dll neq_Nil_conv)

lemma list_is_last_dll [list_ops]:
  assumes "dll h l (xs @ e # ys)"
  shows "list_is_last e l h = Some (ys = [])"
  using dll_nth_next [OF assms] dll_distinct [OF assms] hd_snoc_neq [of l ys]
  by (simp add: list_is_last_def)

lemma list_rotate_left_dll [list_ops]:
  assumes "dll h l xs"
  shows "\<exists>h'. list_rotate_left l h = Some h' \<and> dll h' l (rotate1 xs) \<and> keeps (set (l # xs)) h h'"
proof (cases xs)
  case Nil
  then show ?thesis using assms list_empty_dll [OF assms]
    by (auto simp: list_rotate_left_def keeps_def)
next
  case (Cons x ys)
  then obtain h' where "list_move_tail x l h = Some h'" "dll h' l (ys @ [x])"
    "keeps (set (l # x # ys)) h h'"
    using list_move_tail_dll [of h l "[]" x ys] assms by auto
  then show ?thesis using Cons list_empty_dll [OF assms] dll_first [OF assms]
    by (auto simp: list_rotate_left_def)
qed

text \<open>Walking a ring visits exactly its nodes once the iteration bound exceeds their number.\<close>

lemma list_for_each_from_dll:
  assumes "dll h l (xs @ ys)" and "length ys < f"
  shows "list_for_each_from f (hd (ys @ [l])) l h = Some ys"
  using assms
proof (induction ys arbitrary: xs f)
  case Nil
  then show ?case by (cases f) auto
next
  case (Cons y ys)
  from Cons.prems(2) obtain f' where f: "f = Suc f'" by (cases f) auto
  have "y \<noteq> l" using dll_distinct [OF Cons.prems(1)] by auto
  moreover have "list_for_each_from f' (hd (ys @ [l])) l h = Some ys"
    using Cons.IH [of "xs @ [y]" f'] Cons.prems f by simp
  ultimately show ?case
    using dll_nth_next [OF Cons.prems(1)] f by (simp add: list_next_entry_def)
qed

lemma list_for_each_prev_from_dll:
  assumes "dll h l (xs @ ys)" and "length xs < f"
  shows "list_for_each_prev_from f (last (l # xs)) l h = Some (rev xs)"
  using assms
proof (induction xs arbitrary: ys f rule: rev_induct)
  case Nil
  then show ?case by (cases f) auto
next
  case (snoc x xs)
  from snoc.prems(2) obtain f' where f: "f = Suc f'" by (cases f) auto
  have d: "dll h l (xs @ x # ys)" using snoc.prems(1) by simp
  have "x \<noteq> l" using dll_distinct [OF d] by auto
  moreover have "list_for_each_prev_from f' (last (l # xs)) l h = Some (rev xs)"
    using snoc.IH [OF d] snoc.prems f by simp
  ultimately show ?case
    using dll_nth_prev [OF d] f by (simp add: list_prev_entry_def)
qed

lemma list_for_each_dll [list_ops]:
  "dll h l xs \<Longrightarrow> length xs < f \<Longrightarrow> list_for_each f l h = Some xs"
  using list_for_each_from_dll [of h l "[]" xs f] dll_first [of h l xs]
  by (simp add: list_for_each_def list_first_entry_def)

lemma list_for_each_prev_dll [list_ops]:
  "dll h l xs \<Longrightarrow> length xs < f \<Longrightarrow> list_for_each_prev f l h = Some (rev xs)"
  using list_for_each_prev_from_dll [of h l xs "[]" f] dll_last [of h l xs]
  by (simp add: list_for_each_prev_def list_last_entry_def)

lemma dll_unique:
  assumes "dll h l xs" and "dll h l ys"
  shows "xs = ys"
proof -
  let ?f = "Suc (max (length xs) (length ys))"
  have "list_for_each ?f l h = Some xs" "list_for_each ?f l h = Some ys"
    using assms by (auto intro!: list_for_each_dll)
  then show ?thesis by simp
qed

section \<open>Replacing, splitting and joining rings\<close>

lemma linked_join:
  assumes "xs \<noteq> []" and "ys \<noteq> []"
  shows "linked h (xs @ ys) \<longleftrightarrow> linked h xs \<and> linked h ys
    \<and> get_next h (last xs) = Some (hd ys) \<and> get_prev h (hd ys) = Some (last xs)"
proof -
  obtain xs' x y ys' where e: "xs = xs' @ [x]" "ys = y # ys'"
    using assms by (meson neq_Nil_conv rev_exhaust)
  show ?thesis
    using linked_append [of h xs' x "y # ys'"] by (auto simp: e)
qed

lemma dll_nonempty_iff:
  assumes "xs \<noteq> []"
  shows "dll h l xs \<longleftrightarrow> distinct (l # xs) \<and> linked h xs
    \<and> get_next h l = Some (hd xs) \<and> get_prev h (hd xs) = Some l
    \<and> get_next h (last xs) = Some l \<and> get_prev h l = Some (last xs)"
  unfolding dll_def
  using linked_join [of "[l]" "xs @ [l]" h] linked_join [of xs "[l]" h] assms by auto

lemma dll_empty_iff: "dll h l [] \<longleftrightarrow> get_next h l = Some l \<and> get_prev h l = Some l"
  by (simp add: dll_def)

lemma dll_chain: "dll h l xs \<Longrightarrow> linked h xs"
  by (cases "xs = []") (auto simp: dll_nonempty_iff)

lemma distinct_ends:
  assumes "distinct xs" and "xs \<noteq> []"
  shows "last xs \<notin> set (butlast xs)" and "hd xs \<notin> set (tl xs)"
proof -
  show "last xs \<notin> set (butlast xs)"
    using assms by (cases xs rule: rev_cases) auto
  show "hd xs \<notin> set (tl xs)"
    using assms by (cases xs) auto
qed

lemma in_set_tlD: "a \<in> set (tl xs) \<Longrightarrow> a \<in> set xs"
  by (cases xs) auto

lemma list_splice_raw_Some:
  assumes "get_next h l = Some f" "get_prev h l = Some t" "h f \<noteq> None" "h t \<noteq> None"
    "h p \<noteq> None" "h n \<noteq> None"
  shows "list_splice_raw l p n h =
    Some (put_prev n t (put_next t n (put_next p f (put_prev f p h))))"
  using assms by (simp add: list_splice_raw_def)

lemma linked_put_unused:
  "a \<notin> set (butlast zs) \<Longrightarrow> linked (put_next a v h) zs = linked h zs"
  "a \<notin> set (tl zs) \<Longrightarrow> linked (put_prev a v h) zs = linked h zs"
  by (rule linked_cong; auto)+

lemma ring_cut_unused:
  assumes "distinct (k # as @ bs)"
  shows "last (k # as) \<notin> set (butlast (k # as))" "last (k # as) \<notin> set (butlast (bs @ [k]))"
    "hd (bs @ [k]) \<notin> set (tl (k # as))" "hd (bs @ [k]) \<notin> set (tl (bs @ [k]))"
  using ring_cut_distinct [OF assms] assms by (cases as rule: rev_cases; cases bs; auto)+

lemma dll_spliced_ring:
  assumes l: "dll h l xs" and ne: "xs \<noteq> []" and k: "dll h k (as @ bs)"
    and dj: "set (l # xs) \<inter> set (k # as @ bs) = {}"
  shows "\<exists>h'. list_splice_raw l (last (k # as)) (hd (bs @ [k])) h = Some h'
    \<and> dll h' k (as @ xs @ bs) \<and> keeps (set xs \<union> set (k # as @ bs)) h h'"
proof -
  let ?p = "last (k # as)" and ?n = "hd (bs @ [k])" and ?f = "hd xs" and ?t = "last xs"
  let ?h = "put_prev ?n ?t (put_next ?t ?n (put_next ?p ?f (put_prev ?f ?p h)))"
  have ends: "?p \<in> set (k # as @ bs)" "?n \<in> set (k # as @ bs)" by (rule ring_ends)+
  have xe: "?f \<in> set xs" "?t \<in> set xs" using ne by auto
  note li = l [unfolded dll_nonempty_iff [OF ne]]
  have live: "h ?p \<noteq> None" "h ?n \<noteq> None" "h ?f \<noteq> None" "h ?t \<noteq> None"
    using dll_dom [OF k] ends dll_dom [OF l] xe by auto
  have run: "list_splice_raw l ?p ?n h = Some ?h"
    by (rule list_splice_raw_Some) (use li live in auto)
  have dk: "distinct (k # as @ bs)" and rk: "linked h ((k # as) @ bs @ [k])"
    using k by (auto simp: dll_def)
  note un = ring_cut_unused [OF dk]
  have dx: "distinct xs" "set xs \<inter> set (k # as @ bs) = {}" using li dj by auto
  have neq: "?p \<noteq> ?t" "?n \<noteq> ?f" using dx(2) ends xe by (metis disjoint_iff)+
  have out: "a \<notin> set (butlast (k # as))" "a \<notin> set (tl (k # as))"
    "a \<notin> set (butlast (bs @ [k]))" "a \<notin> set (tl (bs @ [k]))" if "a \<in> set xs" for a
  proof -
    have "a \<notin> set (k # as)" "a \<notin> set (bs @ [k])" using dx(2) that by auto
    then show "a \<notin> set (butlast (k # as))" "a \<notin> set (tl (k # as))"
      "a \<notin> set (butlast (bs @ [k]))" "a \<notin> set (tl (bs @ [k]))"
      by (meson in_set_butlastD in_set_tlD)+
  qed
  have out': "?p \<notin> set (butlast xs)" "?n \<notin> set (tl xs)"
    using dx(2) ends by (meson disjoint_iff in_set_butlastD in_set_tlD)+
  have "linked ?h (k # as)" "linked ?h (bs @ [k])" "linked ?h xs"
    using rk li linked_join [of "k # as" "bs @ [k]" h] distinct_ends [OF dx(1) ne]
    by (simp_all only: linked_put_unused un out out' xe list.distinct append_is_Nil_conv not_False_eq_True simp_thms)
  moreover have "get_next ?h ?p = Some ?f" "get_prev ?h ?f = Some ?p"
    "get_next ?h ?t = Some ?n" "get_prev ?h ?n = Some ?t"
    using live neq by auto
  ultimately have "linked ?h ((k # as) @ xs @ bs @ [k])"
    using ne linked_join [of "k # as" "xs @ bs @ [k]" ?h] linked_join [of xs "bs @ [k]" ?h] by auto
  then have "dll ?h k (as @ xs @ bs)"
    using dk dx by (auto simp: dll_def)
  moreover have "keeps (set xs \<union> set (k # as @ bs)) h ?h"
    using ends xe by (intro keeps_steps) auto
  ultimately show ?thesis using run by blast
qed

lemma list_splice_dll [list_ops]:
  assumes "dll h l xs" and "dll h k ys" and "set (l # xs) \<inter> set (k # ys) = {}"
  shows "\<exists>h'. list_splice l k h = Some h' \<and> dll h' k (xs @ ys) \<and> keeps (set xs \<union> set (k # ys)) h h'"
proof (cases "xs = []")
  case True
  then show ?thesis using assms by (auto simp: list_splice_def list_empty_dll keeps_refl)
next
  case False
  then show ?thesis
    using dll_spliced_ring [of h l xs k "[]" ys] assms dll_first [OF assms(2)]
    by (simp add: list_splice_def list_empty_dll)
qed

lemma list_splice_tail_dll [list_ops]:
  assumes "dll h l xs" and "dll h k ys" and "set (l # xs) \<inter> set (k # ys) = {}"
  shows "\<exists>h'. list_splice_tail l k h = Some h' \<and> dll h' k (ys @ xs) \<and> keeps (set xs \<union> set (k # ys)) h h'"
proof (cases "xs = []")
  case True
  then show ?thesis using assms by (auto simp: list_splice_tail_def list_empty_dll keeps_refl)
next
  case False
  then show ?thesis
    using dll_spliced_ring [of h l xs k ys "[]"] assms dll_last [OF assms(2)]
    by (simp add: list_splice_tail_def list_empty_dll)
qed

lemma reinit_after_splice:
  assumes "dll h l xs" "dll h1 k zs" "keeps S h h1" "l \<notin> S" "l \<notin> set (k # zs)"
  shows "\<exists>h'. INIT_LIST_HEAD l h1 = Some h' \<and> dll h' l [] \<and> dll h' k zs \<and> keeps (insert l S) h h'"
proof -
  have "h1 l \<noteq> None" using dll_dom [OF assms(1), of l] keeps_live [OF assms(3)] by simp
  then obtain h' where h': "INIT_LIST_HEAD l h1 = Some h'" "dll h' l []" "keeps {l} h1 h'"
    using INIT_LIST_HEAD_dll by blast
  moreover have "dll h' k zs" using dll_keeps [OF h'(3)] assms(2,5) by auto
  moreover have "keeps (insert l S) h h'" using keeps_trans [OF assms(3) h'(3)] by simp
  ultimately show ?thesis by blast
qed

lemma list_splice_init_dll [list_ops]:
  assumes "dll h l xs" and "dll h k ys" and "set (l # xs) \<inter> set (k # ys) = {}"
  shows "\<exists>h'. list_splice_init l k h = Some h' \<and> dll h' l [] \<and> dll h' k (xs @ ys)
           \<and> keeps (insert l (set xs \<union> set (k # ys))) h h'"
proof (cases "xs = []")
  case True
  then show ?thesis using assms by (auto simp: list_splice_init_def list_empty_dll keeps_refl)
next
  case False
  obtain h1 where h1: "list_splice l k h = Some h1" "dll h1 k (xs @ ys)"
    "keeps (set xs \<union> set (k # ys)) h h1"
    using list_splice_dll [OF assms] by blast
  have "l \<notin> set xs \<union> set (k # ys)" "l \<notin> set (k # xs @ ys)"
    using dll_distinct [OF assms(1)] assms(3) by auto
  from reinit_after_splice [OF assms(1) h1(2,3) this] h1(1) False assms show ?thesis
    by (auto simp: list_splice_init_def list_splice_def list_empty_dll bind_eq_Some_conv)
qed

lemma list_splice_tail_init_dll [list_ops]:
  assumes "dll h l xs" and "dll h k ys" and "set (l # xs) \<inter> set (k # ys) = {}"
  shows "\<exists>h'. list_splice_tail_init l k h = Some h' \<and> dll h' l [] \<and> dll h' k (ys @ xs)
           \<and> keeps (insert l (set xs \<union> set (k # ys))) h h'"
proof (cases "xs = []")
  case True
  then show ?thesis using assms by (auto simp: list_splice_tail_init_def list_empty_dll keeps_refl)
next
  case False
  obtain h1 where h1: "list_splice_tail l k h = Some h1" "dll h1 k (ys @ xs)"
    "keeps (set xs \<union> set (k # ys)) h h1"
    using list_splice_tail_dll [OF assms] by blast
  have "l \<notin> set xs \<union> set (k # ys)" "l \<notin> set (k # ys @ xs)"
    using dll_distinct [OF assms(1)] assms(3) by auto
  from reinit_after_splice [OF assms(1) h1(2,3) this] h1(1) False assms show ?thesis
    by (auto simp: list_splice_tail_init_def list_splice_tail_def list_empty_dll bind_eq_Some_conv)
qed

lemma list_replace_dll [list_ops]:
  assumes r: "dll h l (xs @ old # ys)" and new: "new \<notin> set (l # xs @ old # ys)" "h new \<noteq> None"
  shows "\<exists>h'. list_replace old new h = Some h' \<and> dll h' l (xs @ new # ys)
           \<and> keeps (set (l # new # xs @ ys)) h h'"
proof -
  let ?p = "last (l # xs)" and ?n = "hd (ys @ [l])"
  let ?h = "put_next ?p new (put_prev new ?p (put_prev ?n new (put_next new ?n h)))"
  have ends: "?p \<in> set (l # xs @ ys)" "?n \<in> set (l # xs @ ys)" by (rule ring_ends)+
  have d: "distinct (l # xs @ ys)" "old \<notin> set (l # xs @ ys)" using dll_distinct [OF r] by auto
  have neq: "?p \<noteq> new" "?n \<noteq> new" "?n \<noteq> old" using ends new d(2) by (auto simp del: last.simps)
  have live: "h ?p \<noteq> None" "h ?n \<noteq> None" using dll_dom [OF r] ends by auto
  have run: "list_replace old new h = Some ?h"
    using dll_nth_next [OF r] dll_nth_prev [OF r] live neq new
    by (auto simp: list_replace_def simp del: last.simps)
  note un = ring_cut_unused [OF d(1)]
  have out: "new \<notin> set (butlast (l # xs))" "new \<notin> set (tl (l # xs))"
    "new \<notin> set (butlast (ys @ [l]))" "new \<notin> set (tl (ys @ [l]))"
    using new by (auto dest: in_set_butlastD in_set_tlD simp: butlast_append split: if_splits)
  have "linked h ((l # xs) @ old # ys @ [l])" using r by (simp add: dll_def)
  then have "linked h (l # xs)" "linked h (ys @ [l])"
    using linked_join [of "l # xs" "old # ys @ [l]" h] linked_join [of "[old]" "ys @ [l]" h] by auto
  then have "linked ?h (l # xs)" "linked ?h (ys @ [l])"
    by (simp_all only: linked_put_unused un out not_False_eq_True)
  moreover have "get_next ?h ?p = Some new" "get_prev ?h new = Some ?p"
    "get_next ?h new = Some ?n" "get_prev ?h ?n = Some new"
    using live neq new by auto
  ultimately have "linked ?h ((l # xs) @ new # ys @ [l])"
    using linked_join [of "l # xs" "[new] @ ys @ [l]" ?h] linked_join [of "[new]" "ys @ [l]" ?h] by auto
  then have "dll ?h l (xs @ new # ys)" using d new by (auto simp: dll_def)
  moreover have "keeps (set (l # new # xs @ ys)) h ?h"
    using ends by (intro keeps_steps) auto
  ultimately show ?thesis using run by blast
qed

lemma list_cut_position_dll [list_ops]:
  assumes r: "dll h k (xs @ e # ys)" and l: "l \<notin> set (k # xs @ e # ys)" "h l \<noteq> None"
  shows "\<exists>h'. list_cut_position l k e h = Some h' \<and> dll h' l (xs @ [e]) \<and> dll h' k ys
           \<and> keeps (set (l # k # xs @ e # ys)) h h'"
proof -
  let ?f = "hd (xs @ [e])" and ?n = "hd (ys @ [k])"
  let ?h = "put_prev ?n k (put_next k ?n (put_next e l (put_prev l e (put_prev ?f l (put_next l ?f h)))))"
  have d: "distinct (k # xs @ e # ys)" using dll_distinct [OF r] by simp
  have ends: "?f \<in> set (xs @ [e])" "?n \<in> set (k # ys)" by (cases xs; cases ys; auto)+
  have live: "h k \<noteq> None" "h e \<noteq> None" "h ?f \<noteq> None" "h ?n \<noteq> None"
    using dll_dom [OF r] ends by auto
  have neq: "?f \<noteq> l" "?f \<noteq> k" "?n \<noteq> l" "?n \<noteq> ?f" "e \<noteq> k" "l \<noteq> k" "l \<noteq> e" using ends l d by auto
  have hf: "hd ((xs @ e # ys) @ [k]) = ?f" by (cases xs) auto
  have raw: "list_cut_position_raw l k e h = Some ?h"
    using dll_nth_next [OF r] dll_first [OF r] live neq l hf by (auto simp: list_cut_position_raw_def)
  have "length (xs @ e # ys) = 1 \<Longrightarrow> ?f = e" by (cases xs) auto
  then have run: "list_cut_position l k e h = Some ?h"
    using raw list_empty_dll [OF r] list_is_singular_dll [OF r] dll_first [OF r] hf neq
    by (auto simp: list_cut_position_def)
  have sub: "set (tl (xs @ [e])) \<subseteq> set (xs @ [e])" by (cases xs) auto
  have nx: "?n \<notin> set (xs @ [e])" using ends d by auto
  have un: "e \<notin> set (butlast (xs @ [e]))" "?f \<notin> set (tl (xs @ [e]))" "?n \<notin> set (tl (xs @ [e]))"
    "k \<notin> set (butlast (xs @ [e]))" "l \<notin> set (butlast (xs @ [e]))" "l \<notin> set (tl (xs @ [e]))"
    using d l distinct_ends [of "xs @ [e]"] sub nx by auto
  have un': "e \<notin> set (butlast ys)" "?f \<notin> set (tl ys)" "?n \<notin> set (tl ys)"
    "k \<notin> set (butlast ys)" "l \<notin> set (butlast ys)" "l \<notin> set (tl ys)"
    using d l ends by (cases ys; auto dest: in_set_tlD in_set_butlastD)+
  have c: "linked h ((xs @ [e]) @ ys)" using dll_chain [OF r] by simp
  have "linked h (xs @ [e])" "linked h ys"
    using c linked_join [of "xs @ [e]" ys h] by (cases "ys = []"; simp)+
  then have li: "linked ?h (xs @ [e])" "linked ?h ys"
    by (simp_all only: linked_put_unused un un' not_False_eq_True)
  have "dll ?h l (xs @ [e])"
    using li(1) d l live neq by (simp add: dll_nonempty_iff)
  moreover have "dll ?h k ys"
  proof (cases "ys = []")
    case True
    then show ?thesis using live neq by (simp add: dll_empty_iff)
  next
    case False
    have "get_next h (last ys) = Some k" "get_prev h k = Some (last ys)"
      using r False by (simp_all add: dll_nonempty_iff)
    moreover have "last ys \<noteq> e" "last ys \<noteq> k" "last ys \<noteq> l" "k \<noteq> ?n" "?n = hd ys"
      using False d l last_in_set [OF False] by (cases ys; force)+
    ultimately show ?thesis
      using False li(2) d live neq by (simp add: dll_nonempty_iff)
  qed
  moreover have "keeps (set (l # k # xs @ e # ys)) h ?h"
    using ends by (intro keeps_steps) auto
  ultimately show ?thesis using run by blast
qed

lemma list_cut_position_head [list_ops]:
  assumes "dll h k xs" and "xs \<noteq> []" and "h l \<noteq> None" and "l \<notin> set (k # xs)"
  shows "\<exists>h'. list_cut_position l k k h = Some h' \<and> dll h' l [] \<and> dll h' k xs"
proof -
  obtain h' where h': "INIT_LIST_HEAD l h = Some h'" "dll h' l []" "keeps {l} h h'"
    using INIT_LIST_HEAD_dll assms(3) by blast
  moreover have "dll h' k xs" using dll_keeps [OF h'(3)] assms by auto
  ultimately show ?thesis
    using assms list_empty_dll [OF assms(1)] list_is_singular_dll [OF assms(1)] dll_first [OF assms(1)]
    by (auto simp: list_cut_position_def)
qed

section \<open>The contract clients rely on\<close>

text \<open>
  What the lists of timers, list entries and dictionary entries need of a ring: inserting a
  live node in front of any member (or of the head, which appends it), and unlinking a member.
\<close>

locale node_ring =
  fixes rep :: "'h \<Rightarrow> 'a \<Rightarrow> 'a list \<Rightarrow> bool"
    and live :: "'h \<Rightarrow> 'a \<Rightarrow> bool"
    and insert_before :: "'a \<Rightarrow> 'a \<Rightarrow> 'h \<Rightarrow> 'h option"
    and unlink :: "'a \<Rightarrow> 'h \<Rightarrow> 'h option"
  assumes rep_distinct: "rep h l xs \<Longrightarrow> distinct (l # xs)"
    and rep_live: "rep h l xs \<Longrightarrow> x \<in> set (l # xs) \<Longrightarrow> live h x"
    and insert_law: "rep h l (xs @ ys) \<Longrightarrow> new \<notin> set (l # xs @ ys) \<Longrightarrow> live h new \<Longrightarrow>
      \<exists>h'. insert_before new (hd (ys @ [l])) h = Some h' \<and> rep h' l (xs @ new # ys)
        \<and> (\<forall>a. live h' a = live h a)"
    and unlink_law: "rep h l (xs @ e # ys) \<Longrightarrow>
      \<exists>h'. unlink e h = Some h' \<and> rep h' l (xs @ ys) \<and> (\<forall>a. live h' a = live h a)"
begin

text \<open>Inserting before the first member with a greater key keeps the ring sorted.\<close>

lemma insert_sorted:
  fixes key :: "'a \<Rightarrow> 'k::linorder"
  assumes "rep h l xs" and "new \<notin> set (l # xs)" and "live h new" and "sorted (map key xs)"
  shows "\<exists>h'. insert_before new (hd (dropWhile (\<lambda>x. key x \<le> key new) xs @ [l])) h = Some h'
    \<and> rep h' l (insort_after key new xs) \<and> sorted (map key (insort_after key new xs))
    \<and> (\<forall>a. live h' a = live h a)"
proof -
  let ?P = "\<lambda>x. key x \<le> key new"
  have "rep h l (takeWhile ?P xs @ dropWhile ?P xs)" using assms(1) by simp
  moreover have "new \<notin> set (l # takeWhile ?P xs @ dropWhile ?P xs)" using assms(2) by simp
  ultimately show ?thesis
    using insert_law [of h l "takeWhile ?P xs" "dropWhile ?P xs" new] assms(3)
      sorted_insort_after [OF assms(4)]
    unfolding insort_after_def by blast
qed

text \<open>Unlinking a member and inserting it again by key keeps the members.\<close>

lemma requeue:
  fixes key :: "'a \<Rightarrow> 'k::linorder"
  assumes "rep h l (xs @ e # ys)" and "sorted (map key (xs @ e # ys))"
  shows "\<exists>h1 h2. unlink e h = Some h1
    \<and> insert_before e (hd (dropWhile (\<lambda>x. key x \<le> key e) (xs @ ys) @ [l])) h1 = Some h2
    \<and> rep h2 l (insort_after key e (xs @ ys)) \<and> sorted (map key (insort_after key e (xs @ ys)))
    \<and> (\<forall>a. live h2 a = live h a)"
proof -
  obtain h1 where h1: "unlink e h = Some h1" "rep h1 l (xs @ ys)" "\<forall>a. live h1 a = live h a"
    using unlink_law [OF assms(1)] by blast
  moreover have "e \<notin> set (l # xs @ ys)" using rep_distinct [OF assms(1)] by auto
  moreover have "live h1 e" using rep_live [OF assms(1), of e] h1(3) by simp
  moreover have "sorted (map key (xs @ ys))" using assms(2) by (auto simp: sorted_append)
  ultimately show ?thesis using insert_sorted [of h1 l "xs @ ys" e key] by auto
qed

end

interpretation list_h: node_ring dll "\<lambda>h a. h a \<noteq> None" list_add_tail list_del
proof
  show "distinct (l # xs)" if "dll h l xs" for h l xs
    using that by (rule dll_distinct)
  show "h x \<noteq> None" if "dll h l xs" "x \<in> set (l # xs)" for h l xs x
    using that by (rule dll_dom)
  show "\<exists>h'. list_add_tail new (hd (ys @ [l])) h = Some h' \<and> dll h' l (xs @ new # ys)
      \<and> (\<forall>a. (h' a \<noteq> None) = (h a \<noteq> None))"
    if "dll h l (xs @ ys)" "new \<notin> set (l # xs @ ys)" "h new \<noteq> None" for h l xs ys new
    using list_add_tail_before [OF that] keeps_live by metis
  show "\<exists>h'. list_del e h = Some h' \<and> dll h' l (xs @ ys) \<and> (\<forall>a. (h' a \<noteq> None) = (h a \<noteq> None))"
    if "dll h l (xs @ e # ys)" for h l xs e ys
    using list_del_dll [OF that] keeps_live by metis
qed

end
