(* ===== verification/C_Strings.thy ===== *)
theory C_Strings
  imports BT_Prelude
begin

text \<open>
  What the components use of the C library on characters and numerals: the character classes of the
  C locale, decimal and hexadecimal numerals as \<^verbatim>\<open>printf\<close> writes them, and the scan of
  \<^verbatim>\<open>strtol\<close>. The lemmas say that scanning a printed numeral gives the number back.
\<close>

section \<open>Decimal numerals\<close>

definition isspace :: "byte \<Rightarrow> bool" where
  "isspace c \<longleftrightarrow> (let n = of_char c :: nat in n = 32 \<or> (9 \<le> n \<and> n \<le> 13))"

definition isdigit :: "byte \<Rightarrow> bool" where
  "isdigit c \<longleftrightarrow> (let n = of_char c :: nat in 48 \<le> n \<and> n \<le> 57)"

definition digit_val :: "byte \<Rightarrow> nat" where
  "digit_val c = of_char c - 48"

definition digits_val :: "byte list \<Rightarrow> nat" where
  "digits_val ds = foldl (\<lambda>n c. 10 * n + digit_val c) 0 ds"

fun dec :: "nat \<Rightarrow> byte list" where
  "dec n = (if n < 10 then [char_of (48 + n)] else dec (n div 10) @ [char_of (48 + n mod 10)])"

declare dec.simps [simp del]

definition LONG_MAX :: int where "LONG_MAX = 2 ^ 63 - 1"
definition LONG_MIN :: int where "LONG_MIN = - (2 ^ 63)"

text \<open>
  \<open>strtol (s, &endptr, 10)\<close> on the bytes from \<open>s\<close> to the end of its array: the value, clamped to
  the range of \<open>long\<close>, whether it was out of range (then \<open>errno\<close> becomes \<open>ERANGE\<close>; otherwise
  \<open>errno\<close> is not touched), and how many bytes were consumed. Without a byte that stops the
  scan, it reads beyond the array.
\<close>

definition strtol_sign :: "byte list \<Rightarrow> bool \<times> byte list" where
  "strtol_sign cs = (case cs of
      [] \<Rightarrow> (False, [])
    | c # r \<Rightarrow> if c = CHR ''-'' then (True, r) else if c = CHR ''+'' then (False, r) else (False, cs))"

definition clamp_long :: "int \<Rightarrow> int \<times> bool" where
  "clamp_long v = (if LONG_MAX < v then (LONG_MAX, True)
                   else if v < LONG_MIN then (LONG_MIN, True) else (v, False))"

definition strtol_scan :: "byte list \<Rightarrow> fault + (int \<times> bool) \<times> nat" where
  "strtol_scan cs =
     (let sp = takeWhile isspace cs; r = dropWhile isspace cs;
          (neg, ds) = strtol_sign r; dg = takeWhile isdigit ds
      in if length dg = length ds then Inl OutOfBounds
         else Inr (clamp_long (if neg then - int (digits_val dg) else int (digits_val dg)),
                   if dg = [] then 0 else length sp + (length r - length ds) + length dg))"

lemma isdigit_char_of: "d < 10 \<Longrightarrow> isdigit (char_of (48 + d :: nat))"
  by (simp add: isdigit_def Let_def of_char_of)

lemma digit_val_char_of: "d < 10 \<Longrightarrow> digit_val (char_of (48 + d :: nat)) = d"
  by (simp add: digit_val_def)

lemma dec_digits: "c \<in> set (dec n) \<Longrightarrow> isdigit c"
proof (induction n rule: dec.induct)
  case (1 n)
  then show ?case using isdigit_char_of [of n] isdigit_char_of [of "n mod 10"]
    by (subst (asm) dec.simps) (auto split: if_splits)
qed

lemma dec_nonempty [simp]: "dec n \<noteq> []"
  by (subst dec.simps) simp

lemma digits_val_snoc: "digits_val (ds @ [c]) = 10 * digits_val ds + digit_val c"
  by (simp add: digits_val_def)

lemma digits_val_dec [simp]: "digits_val (dec n) = n"
proof (induction n rule: dec.induct)
  case (1 n)
  show ?case
  proof (cases "n < 10")
    case True
    then show ?thesis by (subst dec.simps) (simp add: digits_val_def digit_val_char_of)
  next
    case False
    then show ?thesis
      using 1 by (subst dec.simps) (simp add: digits_val_snoc digit_val_char_of)
  qed
qed

lemma length_dec_le: "n < 10 ^ k \<Longrightarrow> 0 < k \<Longrightarrow> length (dec n) \<le> k"
proof (induction k arbitrary: n)
  case (Suc k)
  show ?case
  proof (cases "n < 10")
    case True
    then show ?thesis by (subst dec.simps) simp
  next
    case False
    then have "0 < k" using Suc.prems(1) by (cases k) auto
    moreover have "n div 10 < 10 ^ k" using Suc.prems(1) by (simp add: div_less_iff_less_mult mult.commute)
    ultimately have "length (dec (n div 10)) \<le> k" by (rule Suc.IH [rotated])
    then show ?thesis using False by (subst dec.simps) simp
  qed
qed simp

lemma isdigit_not_special:
  assumes "isdigit c"
  shows "\<not> isspace c" "c \<noteq> CHR ''-''" "c \<noteq> CHR ''+''" "c \<noteq> CHR '':''" "c \<noteq> CHR ''e''" "c \<noteq> NUL"
    "c \<noteq> CHR ''l''" "c \<noteq> CHR ''i''" "c \<noteq> CHR ''d''"
  using assms by (auto simp: isdigit_def isspace_def Let_def)

lemma dec_special [simp]:
  "CHR '':'' \<notin> set (dec n)" "CHR ''e'' \<notin> set (dec n)" "NUL \<notin> set (dec n)"
  using dec_digits isdigit_not_special(4,5,6) by blast+

lemma dec_hd: "isdigit (hd (dec n))"
  using dec_digits dec_nonempty hd_in_set by blast

lemma strtol_dec:
  assumes "\<not> isdigit c" and "int n \<le> LONG_MAX"
  shows "strtol_scan (dec n @ c # r) = Inr ((int n, False), length (dec n))"
proof -
  obtain d ds where d: "dec n = d # ds" by (cases "dec n") auto
  have dd: "isdigit d" using dec_hd [of n] d by simp
  have "takeWhile isdigit (dec n @ c # r) = dec n"
    using dec_digits assms(1) by (subst takeWhile_append2) auto
  moreover have "strtol_sign (dec n @ c # r) = (False, dec n @ c # r)"
    using isdigit_not_special [OF dd] by (simp add: strtol_sign_def d)
  moreover have "takeWhile isspace (dec n @ c # r) = []" "dropWhile isspace (dec n @ c # r) = dec n @ c # r"
    using isdigit_not_special [OF dd] by (simp_all add: d)
  moreover have "clamp_long (int n) = (int n, False)"
    using assms(2) by (auto simp: clamp_long_def LONG_MIN_def)
  ultimately show ?thesis by (simp add: strtol_scan_def)
qed

section \<open>Hexadecimal numerals\<close>

definition isxdigit :: "byte \<Rightarrow> bool" where
  "isxdigit c \<longleftrightarrow> (let n = of_char c :: nat in
     (48 \<le> n \<and> n \<le> 57) \<or> (65 \<le> n \<and> n \<le> 70) \<or> (97 \<le> n \<and> n \<le> 102))"

definition hex_val :: "byte \<Rightarrow> nat" where
  "hex_val c = (let n = of_char c in if n \<le> 57 then n - 48 else if n \<le> 70 then n - 55 else n - 87)"

definition hexs_val :: "byte list \<Rightarrow> nat" where
  "hexs_val ds = foldl (\<lambda>n c. 16 * n + hex_val c) 0 ds"

text \<open>One digit as \<^verbatim>\<open>%X\<close> and \<^verbatim>\<open>%x\<close> write it, and the shortest numeral, \<^verbatim>\<open>%x\<close>.\<close>

definition hex_char :: "nat \<Rightarrow> nat \<Rightarrow> byte" where
  "hex_char a d = (if d < 10 then char_of (48 + d) else char_of (a + (d - 10)))"

fun hex :: "nat \<Rightarrow> byte list" where
  "hex n = (if n < 16 then [hex_char 97 n] else hex (n div 16) @ [hex_char 97 (n mod 16)])"

declare hex.simps [simp del]

lemma hex_char [simp]:
  assumes "d < 16" and "a = 65 \<or> a = 97"
  shows "isxdigit (hex_char a d)" "hex_val (hex_char a d) = d"
  using assms by (auto simp: hex_char_def isxdigit_def hex_val_def Let_def of_char_of)

lemma hex_digits: "c \<in> set (hex n) \<Longrightarrow> isxdigit c"
proof (induction n rule: hex.induct)
  case (1 n)
  then show ?case
    by (subst (asm) hex.simps) (auto split: if_splits)
qed

lemma hex_nonempty [simp]: "hex n \<noteq> []"
  by (subst hex.simps) simp

lemma hexs_val_snoc: "hexs_val (ds @ [c]) = 16 * hexs_val ds + hex_val c"
  by (simp add: hexs_val_def)

lemma hexs_val_hex [simp]: "hexs_val (hex n) = n"
proof (induction n rule: hex.induct)
  case (1 n)
  then show ?case
    by (subst hex.simps) (cases "n < 16"; simp add: hexs_val_snoc; simp add: hexs_val_def)
qed

lemma length_hex_le: "n < 16 ^ k \<Longrightarrow> 0 < k \<Longrightarrow> length (hex n) \<le> k"
proof (induction k arbitrary: n)
  case (Suc k)
  show ?case
  proof (cases "n < 16")
    case True
    then show ?thesis by (subst hex.simps) simp
  next
    case False
    then have "0 < k" using Suc.prems(1) by (cases k) auto
    moreover have "n div 16 < 16 ^ k" using Suc.prems(1) by (simp add: div_less_iff_less_mult mult.commute)
    ultimately have "length (hex (n div 16)) \<le> k" by (rule Suc.IH [rotated])
    then show ?thesis using False by (subst hex.simps) simp
  qed
qed simp

lemma isxdigit_not_special:
  assumes "isxdigit c"
  shows "c \<noteq> CHR '':''" "c \<noteq> CHR ''.''" "c \<noteq> NUL" "c \<noteq> CHR ''x''" "c \<noteq> CHR ''X''" "c \<noteq> CHR ''%''"
    "c \<noteq> CHR ''?''" "c \<noteq> CHR ''+''" "c \<noteq> CHR '' ''"
  using assms by (auto simp: isxdigit_def Let_def)

lemma isdigit_isxdigit: "isdigit c \<Longrightarrow> isxdigit c"
  by (simp add: isdigit_def isxdigit_def Let_def)

end
