(* ===== verification/C_Memory.thy ===== *)
theory C_Memory
  imports Kernel_List C_Strings
begin

text \<open>
  The memory the C code of BT-server works on.

  The first section declares the structs of \<^verbatim>\<open>include/*.h\<close>, field by field, without the
  embedded \<open>list_head\<close>, which lives in the link heap of \<open>Kernel_List\<close> under the address of the
  struct. A memory maps live addresses to typed objects; \<open>malloc\<close> hands out fresh addresses,
  may fail (\<open>oom\<close>), may give more bytes than were asked for (\<open>usable\<close>) and leaves the bytes
  of a new buffer unspecified (\<open>junk\<close>); \<open>free\<close> removes an object, so any later access, and a
  second \<open>free\<close>, is a fault. Every access to a buffer is checked against its size. The rest
  models the libc functions the sources call: \<open>memcpy\<close>, \<open>memset\<close>, \<open>strchr\<close>, \<open>strtol\<close> with its
  effect on \<open>errno\<close>, \<open>strncpy\<close>, \<open>strncmp\<close>, \<open>htonl\<close> and \<open>htons\<close>.
\<close>

section \<open>Structs\<close>

type_synonym u16 = "16 word"
type_synonym u32 = "32 word"
type_synonym u64 = "64 word"

text \<open>A \<open>char *\<close>: null, a byte of a heap buffer, or a byte of a local array.\<close>

datatype cptr = CNull | CP addr nat | CLocal nat

record b_string =
  bs_prev :: addr
  bs_data :: cptr
  bs_head :: cptr
  bs_len :: u32

record b_int =
  bi_prev :: addr
  bi_val :: u32

record l_entry =
  le_entry :: addr
  le_type :: byte

record b_list =
  bl_prev :: addr

record d_entry =
  de_key :: "byte list"
  de_val :: addr
  de_type :: byte

record b_dict =
  bd_prev :: addr

record multi_files =
  mf_length :: u64
  mf_path :: addr
  mf_path_utf8 :: addr
  mf_md5sum :: addr

record torrent_info =
  ti_piece_len :: u32
  ti_piece_hash :: addr
  ti_private :: addr
  ti_dir_name :: addr
  ti_name :: addr
  ti_name_utf8 :: addr
  ti_length :: u64
  ti_md5sum :: addr
  ti_publisher :: addr
  ti_publisher_utf8 :: addr
  ti_publisher_url :: addr
  ti_publisher_url_utf8 :: addr

record torrent =
  t_announce :: addr
  t_announce_list :: addr
  t_comment :: addr
  t_comment_utf8 :: addr
  t_create_by :: addr
  t_create_date :: u32
  t_encoding :: u32
  t_info :: torrent_info

record bt_timer =
  tm_id :: u32
  tm_callback :: nat
  tm_data :: addr
  tm_type :: int
  tm_interval :: u32
  tm_elapse :: u32

record peer_state =
  ps_client_stat :: int
  ps_peer_stat :: int

record peer_stat =
  pst_upload :: u32
  pst_download :: u32
  pst_upload_speed :: u32
  pst_download_speed :: u32

record peer_mgnt =
  pm_ip :: u32
  pm_port :: u16
  pm_sock :: int
  pm_peer_id :: addr
  pm_task :: addr
  pm_state :: peer_state
  pm_stat :: peer_stat
  pm_rcv_keep_alive :: addr
  pm_send_keep_alive :: addr

datatype obj =
    OBuf "byte list"
  | OBStr b_string
  | OBInt b_int
  | OLEnt l_entry
  | OBList b_list
  | ODEnt d_entry
  | OBDict b_dict
  | OFile multi_files
  | OTorrent torrent
  | OTimer bt_timer
  | OPeer peer_mgnt

section \<open>Memory, malloc and free\<close>

record mem =
  objs :: "addr \<Rightarrow> obj option"
  links :: lheap
  brk :: addr
  oom :: "addr \<Rightarrow> bool"
  usable :: "nat \<Rightarrow> nat"
  junk :: "addr \<Rightarrow> nat \<Rightarrow> byte"
  errno :: int

type_synonym 'a crun = "(mem, 'a) run"

definition PTRDIFF_MAX :: nat where "PTRDIFF_MAX = 2 ^ 63 - 1"

text \<open>
  \<open>malloc(sizeof(struct \<dots>))\<close> followed by the assignments that initialise the struct. An allocation
  that fails sets \<open>errno\<close>.
\<close>

definition ENOMEM :: int where "ENOMEM = 12"

definition malloc_obj :: "obj \<Rightarrow> addr crun" where
  "malloc_obj x = (\<lambda>m. let a = brk m; m' = m\<lparr>brk := Suc a\<rparr>
     in if oom m a then Inr (NULL, m'\<lparr>errno := ENOMEM\<rparr>) else Inr (a, m'\<lparr>objs := (objs m)(a \<mapsto> x)\<rparr>))"

text \<open>The same for a struct with an embedded \<open>list_head\<close>, whose pointers start out as zero.\<close>

definition malloc_node :: "obj \<Rightarrow> addr crun" where
  "malloc_node x = (\<lambda>m. let a = brk m; m' = m\<lparr>brk := Suc a\<rparr>
     in if oom m a then Inr (NULL, m'\<lparr>errno := ENOMEM\<rparr>)
        else Inr (a, m'\<lparr>objs := (objs m)(a \<mapsto> x), links := (links m)(a \<mapsto> \<lparr>lh_next = NULL, lh_prev = NULL\<rparr>)\<rparr>))"

definition malloc_buf :: "nat \<Rightarrow> cptr crun" where
  "malloc_buf n = (\<lambda>m. let a = brk m; m' = m\<lparr>brk := Suc a\<rparr>
     in if oom m a \<or> PTRDIFF_MAX < n then Inr (CNull, m'\<lparr>errno := ENOMEM\<rparr>)
        else Inr (CP a 0, m'\<lparr>objs := (objs m)(a \<mapsto> OBuf (map (junk m a) [0..<usable m n]))\<rparr>))"

definition release :: "addr \<Rightarrow> mem \<Rightarrow> mem" where
  "release a m = m\<lparr>objs := (objs m)(a := None), links := (links m)(a := None)\<rparr>"

definition free_obj :: "addr \<Rightarrow> unit crun" where
  "free_obj a = (\<lambda>m. if a = NULL then Inr ((), m)
     else if objs m a = None then Inl BadFree else Inr ((), release a m))"

definition free_buf :: "cptr \<Rightarrow> unit crun" where
  "free_buf p = (case p of
      CNull \<Rightarrow> ret ()
    | CLocal _ \<Rightarrow> stop BadFree
    | CP a i \<Rightarrow> (\<lambda>m. case objs m a of
          Some (OBuf _) \<Rightarrow> if i = 0 then Inr ((), release a m) else Inl BadFree
        | _ \<Rightarrow> Inl BadFree))"

section \<open>Typed loads and stores\<close>

definition bad :: "addr \<Rightarrow> fault" where
  "bad a = (if a = NULL then NullDeref else BadPointer)"

definition ld_str :: "addr \<Rightarrow> b_string crun" where
  "ld_str a = (\<lambda>m. case objs m a of Some (OBStr x) \<Rightarrow> Inr (x, m) | _ \<Rightarrow> Inl (bad a))"

definition ld_int :: "addr \<Rightarrow> b_int crun" where
  "ld_int a = (\<lambda>m. case objs m a of Some (OBInt x) \<Rightarrow> Inr (x, m) | _ \<Rightarrow> Inl (bad a))"

definition ld_lent :: "addr \<Rightarrow> l_entry crun" where
  "ld_lent a = (\<lambda>m. case objs m a of Some (OLEnt x) \<Rightarrow> Inr (x, m) | _ \<Rightarrow> Inl (bad a))"

definition ld_list :: "addr \<Rightarrow> b_list crun" where
  "ld_list a = (\<lambda>m. case objs m a of Some (OBList x) \<Rightarrow> Inr (x, m) | _ \<Rightarrow> Inl (bad a))"

definition ld_dent :: "addr \<Rightarrow> d_entry crun" where
  "ld_dent a = (\<lambda>m. case objs m a of Some (ODEnt x) \<Rightarrow> Inr (x, m) | _ \<Rightarrow> Inl (bad a))"

definition ld_dict :: "addr \<Rightarrow> b_dict crun" where
  "ld_dict a = (\<lambda>m. case objs m a of Some (OBDict x) \<Rightarrow> Inr (x, m) | _ \<Rightarrow> Inl (bad a))"

definition ld_file :: "addr \<Rightarrow> multi_files crun" where
  "ld_file a = (\<lambda>m. case objs m a of Some (OFile x) \<Rightarrow> Inr (x, m) | _ \<Rightarrow> Inl (bad a))"

definition ld_torrent :: "addr \<Rightarrow> torrent crun" where
  "ld_torrent a = (\<lambda>m. case objs m a of Some (OTorrent x) \<Rightarrow> Inr (x, m) | _ \<Rightarrow> Inl (bad a))"

definition ld_timer :: "addr \<Rightarrow> bt_timer crun" where
  "ld_timer a = (\<lambda>m. case objs m a of Some (OTimer x) \<Rightarrow> Inr (x, m) | _ \<Rightarrow> Inl (bad a))"

definition ld_peer :: "addr \<Rightarrow> peer_mgnt crun" where
  "ld_peer a = (\<lambda>m. case objs m a of Some (OPeer x) \<Rightarrow> Inr (x, m) | _ \<Rightarrow> Inl (bad a))"

definition st_obj :: "addr \<Rightarrow> obj \<Rightarrow> unit crun" where
  "st_obj a x = (\<lambda>m. case objs m a of None \<Rightarrow> Inl (bad a)
     | Some _ \<Rightarrow> Inr ((), m\<lparr>objs := (objs m)(a \<mapsto> x)\<rparr>))"

definition upd_str :: "addr \<Rightarrow> (b_string \<Rightarrow> b_string) \<Rightarrow> unit crun" where
  "upd_str a f = bnd (ld_str a) (\<lambda>x. st_obj a (OBStr (f x)))"

definition upd_int :: "addr \<Rightarrow> (b_int \<Rightarrow> b_int) \<Rightarrow> unit crun" where
  "upd_int a f = bnd (ld_int a) (\<lambda>x. st_obj a (OBInt (f x)))"

definition upd_lent :: "addr \<Rightarrow> (l_entry \<Rightarrow> l_entry) \<Rightarrow> unit crun" where
  "upd_lent a f = bnd (ld_lent a) (\<lambda>x. st_obj a (OLEnt (f x)))"

definition upd_list :: "addr \<Rightarrow> (b_list \<Rightarrow> b_list) \<Rightarrow> unit crun" where
  "upd_list a f = bnd (ld_list a) (\<lambda>x. st_obj a (OBList (f x)))"

definition upd_dent :: "addr \<Rightarrow> (d_entry \<Rightarrow> d_entry) \<Rightarrow> unit crun" where
  "upd_dent a f = bnd (ld_dent a) (\<lambda>x. st_obj a (ODEnt (f x)))"

definition upd_dict :: "addr \<Rightarrow> (b_dict \<Rightarrow> b_dict) \<Rightarrow> unit crun" where
  "upd_dict a f = bnd (ld_dict a) (\<lambda>x. st_obj a (OBDict (f x)))"

definition upd_file :: "addr \<Rightarrow> (multi_files \<Rightarrow> multi_files) \<Rightarrow> unit crun" where
  "upd_file a f = bnd (ld_file a) (\<lambda>x. st_obj a (OFile (f x)))"

definition upd_torrent :: "addr \<Rightarrow> (torrent \<Rightarrow> torrent) \<Rightarrow> unit crun" where
  "upd_torrent a f = bnd (ld_torrent a) (\<lambda>x. st_obj a (OTorrent (f x)))"

definition upd_timer :: "addr \<Rightarrow> (bt_timer \<Rightarrow> bt_timer) \<Rightarrow> unit crun" where
  "upd_timer a f = bnd (ld_timer a) (\<lambda>x. st_obj a (OTimer (f x)))"

definition upd_peer :: "addr \<Rightarrow> (peer_mgnt \<Rightarrow> peer_mgnt) \<Rightarrow> unit crun" where
  "upd_peer a f = bnd (ld_peer a) (\<lambda>x. st_obj a (OPeer (f x)))"

text \<open>Running an operation of \<open>list.h\<close> on the link heap of a memory.\<close>

definition on_links :: "(lheap \<Rightarrow> lheap option) \<Rightarrow> unit crun" where
  "on_links f = (\<lambda>m. case f (links m) of None \<Rightarrow> Inl BadPointer | Some h \<Rightarrow> Inr ((), m\<lparr>links := h\<rparr>))"

definition ask_links :: "(lheap \<Rightarrow> 'a option) \<Rightarrow> 'a crun" where
  "ask_links f = (\<lambda>m. case f (links m) of None \<Rightarrow> Inl BadPointer | Some x \<Rightarrow> Inr (x, m))"

section \<open>Bytes\<close>

definition ld_buf :: "addr \<Rightarrow> (byte list) crun" where
  "ld_buf a = (\<lambda>m. case objs m a of Some (OBuf bs) \<Rightarrow> Inr (bs, m) | _ \<Rightarrow> Inl (bad a))"

definition rd_bytes :: "cptr \<Rightarrow> nat \<Rightarrow> (byte list) crun" where
  "rd_bytes p n = (if n = 0 then ret [] else (case p of
      CNull \<Rightarrow> stop NullDeref
    | CLocal _ \<Rightarrow> stop BadPointer
    | CP a i \<Rightarrow> bnd (ld_buf a) (\<lambda>bs.
        if i + n \<le> length bs then ret (take n (drop i bs)) else stop OutOfBounds)))"

definition wr_bytes :: "cptr \<Rightarrow> byte list \<Rightarrow> unit crun" where
  "wr_bytes p xs = (if xs = [] then ret () else (case p of
      CNull \<Rightarrow> stop NullDeref
    | CLocal _ \<Rightarrow> stop BadPointer
    | CP a i \<Rightarrow> bnd (ld_buf a) (\<lambda>bs.
        if i + length xs \<le> length bs then st_obj a (OBuf (overwrite bs i xs))
        else stop OutOfBounds)))"

definition ld_byte :: "cptr \<Rightarrow> byte crun" where
  "ld_byte p = bnd (rd_bytes p 1) (\<lambda>bs. ret (hd bs))"

definition st_byte :: "cptr \<Rightarrow> byte \<Rightarrow> unit crun" where
  "st_byte p b = wr_bytes p [b]"

definition memcpy :: "cptr \<Rightarrow> cptr \<Rightarrow> nat \<Rightarrow> unit crun" where
  "memcpy dst src n = bnd (rd_bytes src n) (\<lambda>bs. wr_bytes dst bs)"

definition memset :: "cptr \<Rightarrow> byte \<Rightarrow> nat \<Rightarrow> unit crun" where
  "memset dst b n = wr_bytes dst (replicate n b)"

text \<open>
  Pointer arithmetic: \<open>p + n\<close>, \<open>p - n\<close> and \<open>p - q\<close>. Moving a null pointer, moving in front of
  the buffer, or subtracting pointers of different objects is undefined in C.
\<close>

definition ptr_add :: "cptr \<Rightarrow> nat \<Rightarrow> cptr crun" where
  "ptr_add p n = (case p of
      CNull \<Rightarrow> if n = 0 then ret CNull else stop NullDeref
    | CLocal i \<Rightarrow> ret (CLocal (i + n))
    | CP a i \<Rightarrow> ret (CP a (i + n)))"

definition ptr_sub :: "cptr \<Rightarrow> nat \<Rightarrow> cptr crun" where
  "ptr_sub p n = (case p of
      CP a i \<Rightarrow> if n \<le> i then ret (CP a (i - n)) else stop OutOfBounds
    | _ \<Rightarrow> if n = 0 then ret p else stop BadPointer)"

definition ptr_move :: "cptr \<Rightarrow> int \<Rightarrow> cptr crun" where
  "ptr_move p v = (if 0 \<le> v then ptr_add p (nat v) else ptr_sub p (nat (- v)))"

definition ptr_diff :: "cptr \<Rightarrow> cptr \<Rightarrow> int crun" where
  "ptr_diff p q = (case (p, q) of
      (CNull, CNull) \<Rightarrow> ret 0
    | (CP a i, CP b j) \<Rightarrow> if a = b then ret (int i - int j) else stop BadPointer
    | _ \<Rightarrow> stop BadPointer)"

section \<open>String functions\<close>

text \<open>\<open>strchr\<close>: the offset of the first \<open>c\<close> at or behind the start, none if a zero byte comes first.\<close>

fun strchr_scan :: "byte \<Rightarrow> byte list \<Rightarrow> fault + nat option" where
  "strchr_scan c [] = Inl OutOfBounds"
| "strchr_scan c (b # bs) =
     (if b = c then Inr (Some 0) else if b = NUL then Inr None
      else (case strchr_scan c bs of Inl e \<Rightarrow> Inl e | Inr r \<Rightarrow> Inr (map_option Suc r)))"

definition strchr :: "cptr \<Rightarrow> byte \<Rightarrow> cptr crun" where
  "strchr p c = (case p of
      CNull \<Rightarrow> stop NullDeref
    | CLocal _ \<Rightarrow> stop BadPointer
    | CP a i \<Rightarrow> bnd (ld_buf a) (\<lambda>bs. case strchr_scan c (drop i bs) of
          Inl e \<Rightarrow> stop e
        | Inr None \<Rightarrow> ret CNull
        | Inr (Some k) \<Rightarrow> ret (CP a (i + k))))"

definition ERANGE :: int where "ERANGE = 34"

definition get_errno :: "int crun" where
  "get_errno = (\<lambda>m. Inr (errno m, m))"

text \<open>Conversion of a \<open>long\<close> to \<open>size_t\<close>.\<close>

definition size_t :: "int \<Rightarrow> nat" where
  "size_t v = nat (v mod 2 ^ 64)"

definition strtol :: "byte list \<Rightarrow> (int \<times> cptr) crun" where
  "strtol cs = (\<lambda>m. case strtol_scan cs of
      Inl e \<Rightarrow> Inl e
    | Inr ((v, rng), k) \<Rightarrow> Inr ((v, CLocal k), if rng then m\<lparr>errno := ERANGE\<rparr> else m))"

text \<open>\<open>strncpy\<close> into an array of \<open>n\<close> bytes: the bytes up to the terminator, zero padded.\<close>

definition strncpy_bytes :: "byte list \<Rightarrow> nat \<Rightarrow> byte list" where
  "strncpy_bytes src n = (let s = take n (cstr src) in s @ replicate (n - length s) NUL)"

text \<open>
  The bytes a \<open>strncpy (dst, p, n)\<close> reads: up to the terminator or \<open>n\<close> bytes, whichever comes
  first; running into the end of the source buffer before either is a fault.
\<close>

definition strncpy_src :: "cptr \<Rightarrow> nat \<Rightarrow> (byte list) crun" where
  "strncpy_src p n = (case p of
      CNull \<Rightarrow> stop NullDeref
    | CLocal _ \<Rightarrow> stop BadPointer
    | CP a i \<Rightarrow> bnd (ld_buf a) (\<lambda>bs.
        if n \<le> length bs - i \<or> NUL \<in> set (drop i bs) then ret (strncpy_bytes (drop i bs) n)
        else stop OutOfBounds))"

text \<open>\<open>strncmp (key, lit, n) == 0\<close> for an array and a string literal.\<close>

definition char_at_start :: "byte list \<Rightarrow> byte" where
  "char_at_start xs = (case xs of [] \<Rightarrow> NUL | c # _ \<Rightarrow> c)"

fun strncmp_eq :: "byte list \<Rightarrow> byte list \<Rightarrow> nat \<Rightarrow> bool" where
  "strncmp_eq xs ys 0 = True"
| "strncmp_eq xs ys (Suc n) = (char_at_start xs = char_at_start ys
     \<and> (char_at_start xs = NUL \<or> strncmp_eq (tl xs) (tl ys) n))"

section \<open>Byte order\<close>

definition byte_of :: "'a::len word \<Rightarrow> nat \<Rightarrow> byte" where
  "byte_of w k = char_of (take_bit 8 (unat (drop_bit (8 * k) w)))"

text \<open>The four bytes of \<open>htonl (w)\<close>, the two bytes of \<open>htons (w)\<close>, as they lie in memory.\<close>

definition htonl :: "u32 \<Rightarrow> byte list" where
  "htonl w = [byte_of w 3, byte_of w 2, byte_of w 1, byte_of w 0]"

definition htons :: "u16 \<Rightarrow> byte list" where
  "htons w = [byte_of w 1, byte_of w 0]"

end
