(* ===== verification/B_Parse.thy ===== *)
theory B_Parse
  imports C_Memory
begin

text \<open>
  The bencode objects and the parser of \<^verbatim>\<open>src/b_parse.c\<close>, function by function.

  Recursive calls and loops are bounded by a fuel argument. The destructors take their bound
  from the memory (\<open>free_fuel\<close>): an object graph without sharing has fewer nodes than addresses
  were ever handed out. Trace output is not modelled.
\<close>

definition INTEGER_LEN :: nat where "INTEGER_LEN = 20"
definition KEY_LEN :: nat where "KEY_LEN = 128"

section \<open>Strings\<close>

definition b_string_alloc :: "addr crun" where
  "b_string_alloc =
     malloc_obj (OBStr \<lparr>bs_prev = NULL, bs_data = CNull, bs_head = CNull, bs_len = 0\<rparr>)"

definition b_string_alloc_reserved :: "cptr \<Rightarrow> u32 \<Rightarrow> nat \<Rightarrow> addr crun" where
  "b_string_alloc_reserved buf len reserved =
     bnd (malloc_obj (OBStr \<lparr>bs_prev = NULL, bs_data = CNull, bs_head = CNull, bs_len = 0\<rparr>)) (\<lambda>ptr.
     if ptr \<noteq> NULL then
       bnd (ptr_add buf reserved) (\<lambda>d.
       bnd (upd_str ptr (\<lambda>s. s\<lparr>bs_len := len, bs_head := buf, bs_data := d, bs_prev := NULL\<rparr>)) (\<lambda>_.
       ret ptr))
     else ret NULL)"

definition b_string_free :: "addr \<Rightarrow> unit crun" where
  "b_string_free ptr =
     (if ptr \<noteq> NULL then
        bnd (ld_str ptr) (\<lambda>s.
        bnd (if bs_head s \<noteq> CNull then free_buf (bs_head s) else ret ()) (\<lambda>_.
        free_obj ptr))
      else ret ())"

definition b_string_set :: "addr \<Rightarrow> cptr \<Rightarrow> unit crun" where
  "b_string_set ptr buf = upd_str ptr (\<lambda>s. s\<lparr>bs_data := buf\<rparr>)"

definition b_string_get :: "addr \<Rightarrow> cptr crun" where
  "b_string_get ptr = bnd (ld_str ptr) (\<lambda>s. ret (bs_data s))"

definition b_string_get_length :: "addr \<Rightarrow> u32 crun" where
  "b_string_get_length ptr = bnd (ld_str ptr) (\<lambda>s. ret (bs_len s))"

definition b_string_set_head :: "addr \<Rightarrow> cptr \<Rightarrow> unit crun" where
  "b_string_set_head ptr head = upd_str ptr (\<lambda>s. s\<lparr>bs_head := head\<rparr>)"

definition b_string_get_head :: "addr \<Rightarrow> cptr crun" where
  "b_string_get_head ptr = bnd (ld_str ptr) (\<lambda>s. ret (bs_head s))"

definition b_string_set_length :: "addr \<Rightarrow> u32 \<Rightarrow> unit crun" where
  "b_string_set_length ptr len = upd_str ptr (\<lambda>s. s\<lparr>bs_len := len\<rparr>)"

definition zero_padded :: "byte list \<Rightarrow> nat \<Rightarrow> byte list" where
  "zero_padded t n = t @ replicate (n - length t) NUL"

definition b_string_parse :: "cptr \<Rightarrow> addr \<Rightarrow> cptr crun" where
  "b_string_parse buf target =
     bnd (chk (buf \<noteq> CNull) AssertFailed) (\<lambda>_.
     bnd (chk (target \<noteq> NULL) AssertFailed) (\<lambda>_.
     bnd (strchr buf CHR '':'') (\<lambda>s.
     if s \<noteq> CNull then
       bnd (ptr_diff s buf) (\<lambda>d.
       bnd (rd_bytes buf (if d < int INTEGER_LEN then nat d else INTEGER_LEN)) (\<lambda>t.
       bnd (strtol (zero_padded t (INTEGER_LEN + 1))) (\<lambda>(val, endptr).
       bnd get_errno (\<lambda>en.
       if (en = ERANGE \<and> (val = LONG_MAX \<or> val = LONG_MIN)) \<or> (en \<noteq> 0 \<and> val = 0) then ret CNull
       else if endptr = buf then ret CNull
       else
         bnd (malloc_buf (size_t (val + 1))) (\<lambda>tmp_b.
         bnd (b_string_set target tmp_b) (\<lambda>_.
         bnd (b_string_set_head target tmp_b) (\<lambda>_.
         bnd (b_string_set_length target (word_of_int val)) (\<lambda>_.
         bnd (b_string_get target) (\<lambda>tmp_b.
         bnd (ptr_add s 1) (\<lambda>src.
         bnd (memcpy tmp_b src (size_t val)) (\<lambda>_.
         bnd (ptr_move tmp_b val) (\<lambda>e.
         bnd (st_byte e NUL) (\<lambda>_.
         ptr_move s (val + 1))))))))))))))
     else ret CNull)))"

section \<open>Integers\<close>

definition b_int_alloc :: "addr crun" where
  "b_int_alloc = malloc_obj (OBInt \<lparr>bi_prev = NULL, bi_val = 0\<rparr>)"

definition b_int_free :: "addr \<Rightarrow> unit crun" where
  "b_int_free ptr = (if ptr \<noteq> NULL then free_obj ptr else ret ())"

definition b_int_set :: "addr \<Rightarrow> u32 \<Rightarrow> unit crun" where
  "b_int_set ptr v = upd_int ptr (\<lambda>i. i\<lparr>bi_val := v\<rparr>)"

definition b_int_get :: "addr \<Rightarrow> u32 crun" where
  "b_int_get ptr = bnd (ld_int ptr) (\<lambda>i. ret (bi_val i))"

definition b_int_parse :: "cptr \<Rightarrow> addr \<Rightarrow> cptr crun" where
  "b_int_parse buf r =
     bnd (chk (r \<noteq> NULL) AssertFailed) (\<lambda>_.
     bnd (chk (buf \<noteq> CNull) AssertFailed) (\<lambda>_.
     bnd (strchr buf CHR ''e'') (\<lambda>end.
     if end \<noteq> CNull then
       bnd (ptr_add buf 1) (\<lambda>ptr.
       bnd (ptr_diff end ptr) (\<lambda>d.
       let len = unat (word_of_int (d + 1) :: u32) in
       bnd (rd_bytes ptr (if len < INTEGER_LEN then len else INTEGER_LEN)) (\<lambda>t.
       bnd (strtol (zero_padded t INTEGER_LEN)) (\<lambda>(v, endptr).
       let val = (word_of_int v :: u32) in
       bnd (b_int_set r val) (\<lambda>_.
       bnd get_errno (\<lambda>en.
       if (en = ERANGE \<and> (uint val = LONG_MAX \<or> uint val = LONG_MIN)) \<or> (en \<noteq> 0 \<and> val = 0)
       then ret CNull
       else if endptr = ptr then ret CNull
       else ptr_add end 1))))))
     else ret CNull)))"

section \<open>List and dictionary entries\<close>

definition l_entry_alloc :: "byte \<Rightarrow> addr crun" where
  "l_entry_alloc ty =
     bnd (malloc_node (OLEnt \<lparr>le_entry = NULL, le_type = ty\<rparr>)) (\<lambda>ptr.
     if ptr \<noteq> NULL then bnd (on_links (INIT_LIST_HEAD ptr)) (\<lambda>_. ret ptr) else ret NULL)"

definition b_list_alloc :: "addr crun" where
  "b_list_alloc =
     bnd (malloc_node (OBList \<lparr>bl_prev = NULL\<rparr>)) (\<lambda>ptr.
     if ptr \<noteq> NULL then bnd (on_links (INIT_LIST_HEAD ptr)) (\<lambda>_. ret ptr) else ret NULL)"

definition d_entry_alloc :: "cptr \<Rightarrow> byte \<Rightarrow> addr crun" where
  "d_entry_alloc key ty =
     bnd (malloc_node (ODEnt \<lparr>de_key = replicate KEY_LEN NUL, de_val = NULL, de_type = ty\<rparr>)) (\<lambda>ptr.
     if ptr \<noteq> NULL then
       bnd (on_links (INIT_LIST_HEAD ptr)) (\<lambda>_.
       bnd (strncpy_src key KEY_LEN) (\<lambda>k.
       bnd (upd_dent ptr (\<lambda>e. e\<lparr>de_key := k\<rparr>)) (\<lambda>_. ret ptr)))
     else ret NULL)"

definition b_dict_alloc :: "addr crun" where
  "b_dict_alloc =
     bnd (malloc_node (OBDict \<lparr>bd_prev = NULL\<rparr>)) (\<lambda>ptr.
     if ptr \<noteq> NULL then bnd (on_links (INIT_LIST_HEAD ptr)) (\<lambda>_. ret ptr) else ret NULL)"

text \<open>The \<open>switch\<close> of \<open>b_list_add\<close> and \<open>b_dict_add\<close>: the child's back pointer, by type tag.\<close>

definition set_back_pointer :: "byte \<Rightarrow> addr \<Rightarrow> addr \<Rightarrow> bool crun" where
  "set_back_pointer ty entry ptr =
     (if ty = CHR ''l'' then bnd (upd_list entry (\<lambda>x. x\<lparr>bl_prev := ptr\<rparr>)) (\<lambda>_. ret True)
      else if ty = CHR ''i'' then bnd (upd_int entry (\<lambda>x. x\<lparr>bi_prev := ptr\<rparr>)) (\<lambda>_. ret True)
      else if ty = CHR ''s'' then bnd (upd_str entry (\<lambda>x. x\<lparr>bs_prev := ptr\<rparr>)) (\<lambda>_. ret True)
      else if ty = CHR ''d'' then bnd (upd_dict entry (\<lambda>x. x\<lparr>bd_prev := ptr\<rparr>)) (\<lambda>_. ret True)
      else ret False)"

definition b_list_add :: "addr \<Rightarrow> addr \<Rightarrow> byte \<Rightarrow> unit crun" where
  "b_list_add entry list_ptr ty =
     bnd (l_entry_alloc ty) (\<lambda>ptr.
     if ptr \<noteq> NULL then
       bnd (upd_lent ptr (\<lambda>e. e\<lparr>le_entry := entry\<rparr>)) (\<lambda>_.
       bnd (set_back_pointer ty entry ptr) (\<lambda>known.
       if known then on_links (list_add_tail ptr list_ptr) else ret ()))
     else ret ())"

definition b_dict_add :: "addr \<Rightarrow> cptr \<Rightarrow> addr \<Rightarrow> byte \<Rightarrow> unit crun" where
  "b_dict_add entry key d_ptr ty =
     bnd (d_entry_alloc key ty) (\<lambda>ptr.
     if ptr \<noteq> NULL then
       bnd (upd_dent ptr (\<lambda>e. e\<lparr>de_val := entry\<rparr>)) (\<lambda>_.
       bnd (set_back_pointer ty entry ptr) (\<lambda>known.
       if known then on_links (list_add_tail ptr d_ptr) else ret ()))
     else ret ())"

section \<open>Destructors\<close>

function (sequential) b_list_free_n :: "nat \<Rightarrow> addr \<Rightarrow> unit crun"
  and b_list_free_loop :: "nat \<Rightarrow> addr \<Rightarrow> addr \<Rightarrow> addr \<Rightarrow> unit crun"
  and l_entry_free_n :: "nat \<Rightarrow> addr \<Rightarrow> unit crun"
  and b_dict_free_n :: "nat \<Rightarrow> addr \<Rightarrow> unit crun"
  and b_dict_free_loop :: "nat \<Rightarrow> addr \<Rightarrow> addr \<Rightarrow> addr \<Rightarrow> unit crun"
  and d_entry_free_n :: "nat \<Rightarrow> addr \<Rightarrow> unit crun"
where
  "b_list_free_n 0 ptr = stop OutOfFuel"
| "b_list_free_n (Suc f) ptr =
     (if ptr \<noteq> NULL then
        bnd (ask_links (list_first_entry ptr)) (\<lambda>vec.
        bnd (ask_links (list_next_entry vec)) (\<lambda>tmp.
        bnd (b_list_free_loop f vec tmp ptr) (\<lambda>_.
        free_obj ptr)))
      else ret ())"
| "b_list_free_loop 0 vec tmp head = stop OutOfFuel"
| "b_list_free_loop (Suc f) vec tmp head =
     (if vec = head then ret ()
      else bnd (l_entry_free_n f vec) (\<lambda>_.
           bnd (ask_links (list_next_entry tmp)) (\<lambda>n.
           b_list_free_loop f tmp n head)))"
| "l_entry_free_n 0 ptr = stop OutOfFuel"
| "l_entry_free_n (Suc f) ptr =
     bnd (chk (ptr \<noteq> NULL) AssertFailed) (\<lambda>_.
     bnd (ld_lent ptr) (\<lambda>e.
     bnd (if le_type e = CHR ''l'' then b_list_free_n f (le_entry e)
          else if le_type e = CHR ''i'' then b_int_free (le_entry e)
          else if le_type e = CHR ''s'' then b_string_free (le_entry e)
          else if le_type e = CHR ''d'' then b_dict_free_n f (le_entry e)
          else ret ()) (\<lambda>_.
     free_obj ptr)))"
| "b_dict_free_n 0 ptr = stop OutOfFuel"
| "b_dict_free_n (Suc f) ptr =
     (if ptr \<noteq> NULL then
        bnd (ask_links (list_first_entry ptr)) (\<lambda>vec.
        bnd (ask_links (list_next_entry vec)) (\<lambda>tmp.
        bnd (b_dict_free_loop f vec tmp ptr) (\<lambda>_.
        free_obj ptr)))
      else ret ())"
| "b_dict_free_loop 0 vec tmp head = stop OutOfFuel"
| "b_dict_free_loop (Suc f) vec tmp head =
     (if vec = head then ret ()
      else bnd (d_entry_free_n f vec) (\<lambda>_.
           bnd (ask_links (list_next_entry tmp)) (\<lambda>n.
           b_dict_free_loop f tmp n head)))"
| "d_entry_free_n 0 ptr = stop OutOfFuel"
| "d_entry_free_n (Suc f) ptr =
     bnd (chk (ptr \<noteq> NULL) AssertFailed) (\<lambda>_.
     bnd (ld_dent ptr) (\<lambda>e.
     bnd (if de_type e = CHR ''l'' then b_list_free_n f (de_val e)
          else if de_type e = CHR ''i'' then b_int_free (de_val e)
          else if de_type e = CHR ''s'' then b_string_free (de_val e)
          else if de_type e = CHR ''d'' then b_dict_free_n f (de_val e)
          else ret ()) (\<lambda>_.
     free_obj ptr)))"
  by pat_completeness auto
termination
  by (relation "measure (case_sum (case_sum fst (case_sum fst fst)) (case_sum fst (case_sum fst fst)))") auto

definition free_fuel :: "mem \<Rightarrow> nat" where
  "free_fuel m = 3 * brk m + 2"

definition b_list_free :: "addr \<Rightarrow> unit crun" where
  "b_list_free ptr = (\<lambda>m. b_list_free_n (free_fuel m) ptr m)"

definition b_dict_free :: "addr \<Rightarrow> unit crun" where
  "b_dict_free ptr = (\<lambda>m. b_dict_free_n (free_fuel m) ptr m)"

definition l_entry_free :: "addr \<Rightarrow> unit crun" where
  "l_entry_free ptr = (\<lambda>m. l_entry_free_n (free_fuel m) ptr m)"

definition d_entry_free :: "addr \<Rightarrow> unit crun" where
  "d_entry_free ptr = (\<lambda>m. d_entry_free_n (free_fuel m) ptr m)"

definition b_list_del :: "addr \<Rightarrow> unit crun" where
  "b_list_del entry = l_entry_free entry"

definition b_dict_del :: "addr \<Rightarrow> unit crun" where
  "b_dict_del entry = d_entry_free entry"

section \<open>The recursive parser\<close>

text \<open>
  One unit of fuel per call of a parse function and per iteration of its loop. In the loops, a
  failed allocation of the next element leaves the \<open>switch\<close> without moving \<open>ptr\<close>.
\<close>

function (sequential) b_list_parse :: "nat \<Rightarrow> cptr \<Rightarrow> addr \<Rightarrow> cptr crun"
  and b_list_parse_loop :: "nat \<Rightarrow> cptr \<Rightarrow> addr \<Rightarrow> cptr crun"
  and b_dict_parse :: "nat \<Rightarrow> cptr \<Rightarrow> addr \<Rightarrow> cptr crun"
  and b_dict_parse_loop :: "nat \<Rightarrow> cptr \<Rightarrow> addr \<Rightarrow> cptr crun"
where
  "b_list_parse 0 buf r = stop OutOfFuel"
| "b_list_parse (Suc f) buf r =
     bnd (chk (buf \<noteq> CNull) AssertFailed) (\<lambda>_.
     bnd (chk (r \<noteq> NULL) AssertFailed) (\<lambda>_.
     bnd (ld_byte buf) (\<lambda>c.
     if c \<noteq> CHR ''l'' then ret CNull
     else bnd (ptr_add buf 1) (\<lambda>ptr. b_list_parse_loop f ptr r))))"
| "b_list_parse_loop 0 ptr r = stop OutOfFuel"
| "b_list_parse_loop (Suc f) ptr r =
     bnd (ld_byte ptr) (\<lambda>c.
     if c = CHR ''e'' then ptr_add ptr 1
     else if c = CHR ''l'' then
       bnd b_list_alloc (\<lambda>new_list.
       if new_list \<noteq> NULL then
         bnd (b_list_parse f ptr new_list) (\<lambda>ptr.
         if ptr \<noteq> CNull then bnd (b_list_add new_list r CHR ''l'') (\<lambda>_. b_list_parse_loop f ptr r)
         else bnd (b_list_free new_list) (\<lambda>_. ret CNull))
       else b_list_parse_loop f ptr r)
     else if c = CHR ''i'' then
       bnd b_int_alloc (\<lambda>new_int.
       if new_int \<noteq> NULL then
         bnd (b_int_parse ptr new_int) (\<lambda>ptr.
         if ptr \<noteq> CNull then bnd (b_list_add new_int r CHR ''i'') (\<lambda>_. b_list_parse_loop f ptr r)
         else bnd (b_int_free new_int) (\<lambda>_. ret CNull))
       else b_list_parse_loop f ptr r)
     else if c = CHR ''d'' then
       bnd b_dict_alloc (\<lambda>new_dict.
       if new_dict \<noteq> NULL then
         bnd (b_dict_parse f ptr new_dict) (\<lambda>ptr.
         if ptr \<noteq> CNull then bnd (b_list_add new_dict r CHR ''d'') (\<lambda>_. b_list_parse_loop f ptr r)
         else bnd (b_dict_free new_dict) (\<lambda>_. ret CNull))
       else b_list_parse_loop f ptr r)
     else
       bnd b_string_alloc (\<lambda>new_str.
       if new_str \<noteq> NULL then
         bnd (b_string_parse ptr new_str) (\<lambda>ptr.
         if ptr \<noteq> CNull then bnd (b_list_add new_str r CHR ''s'') (\<lambda>_. b_list_parse_loop f ptr r)
         else bnd (b_string_free new_str) (\<lambda>_. ret CNull))
       else b_list_parse_loop f ptr r))"
| "b_dict_parse 0 buf r = stop OutOfFuel"
| "b_dict_parse (Suc f) buf r =
     bnd (chk (buf \<noteq> CNull) AssertFailed) (\<lambda>_.
     bnd (chk (r \<noteq> NULL) AssertFailed) (\<lambda>_.
     bnd (ld_byte buf) (\<lambda>c.
     if c \<noteq> CHR ''d'' then ret CNull
     else bnd (ptr_add buf 1) (\<lambda>ptr. b_dict_parse_loop f ptr r))))"
| "b_dict_parse_loop 0 ptr r = stop OutOfFuel"
| "b_dict_parse_loop (Suc f) ptr r =
     bnd (ld_byte ptr) (\<lambda>c.
     if c = CHR ''e'' then ptr_add ptr 1
     else
       bnd b_string_alloc (\<lambda>new_key.
       if new_key = NULL then ret CNull
       else
       bnd (b_string_parse ptr new_key) (\<lambda>ptr.
       if ptr = CNull then bnd (b_string_free new_key) (\<lambda>_. ret CNull)
       else
       bnd (ld_byte ptr) (\<lambda>c.
       if c = CHR ''l'' then
         bnd b_list_alloc (\<lambda>new_list.
         if new_list \<noteq> NULL then
           bnd (b_list_parse f ptr new_list) (\<lambda>ptr.
           if ptr \<noteq> CNull then
             bnd (b_string_get new_key) (\<lambda>key.
             bnd (b_dict_add new_list key r CHR ''l'') (\<lambda>_.
             bnd (b_string_free new_key) (\<lambda>_. b_dict_parse_loop f ptr r)))
           else bnd (b_string_free new_key) (\<lambda>_. bnd (b_list_free new_list) (\<lambda>_. ret CNull)))
         else bnd (b_string_free new_key) (\<lambda>_. b_dict_parse_loop f ptr r))
       else if c = CHR ''i'' then
         bnd b_int_alloc (\<lambda>new_int.
         if new_int \<noteq> NULL then
           bnd (b_int_parse ptr new_int) (\<lambda>ptr.
           if ptr \<noteq> CNull then
             bnd (b_string_get new_key) (\<lambda>key.
             bnd (b_dict_add new_int key r CHR ''i'') (\<lambda>_.
             bnd (b_string_free new_key) (\<lambda>_. b_dict_parse_loop f ptr r)))
           else bnd (b_string_free new_key) (\<lambda>_. bnd (b_int_free new_int) (\<lambda>_. ret CNull)))
         else bnd (b_string_free new_key) (\<lambda>_. b_dict_parse_loop f ptr r))
       else if c = CHR ''d'' then
         bnd b_dict_alloc (\<lambda>new_dict.
         if new_dict \<noteq> NULL then
           bnd (b_dict_parse f ptr new_dict) (\<lambda>ptr.
           if ptr \<noteq> CNull then
             bnd (b_string_get new_key) (\<lambda>key.
             bnd (b_dict_add new_dict key r CHR ''d'') (\<lambda>_.
             bnd (b_string_free new_key) (\<lambda>_. b_dict_parse_loop f ptr r)))
           else bnd (b_string_free new_key) (\<lambda>_. bnd (b_dict_free new_dict) (\<lambda>_. ret CNull)))
         else bnd (b_string_free new_key) (\<lambda>_. b_dict_parse_loop f ptr r))
       else
         bnd b_string_alloc (\<lambda>new_str.
         if new_str \<noteq> NULL then
           bnd (b_string_parse ptr new_str) (\<lambda>ptr.
           if ptr \<noteq> CNull then
             bnd (b_string_get new_key) (\<lambda>key.
             bnd (b_dict_add new_str key r CHR ''s'') (\<lambda>_.
             bnd (b_string_free new_key) (\<lambda>_. b_dict_parse_loop f ptr r)))
           else bnd (b_string_free new_key) (\<lambda>_. bnd (b_string_free new_str) (\<lambda>_. ret CNull)))
         else bnd (b_string_free new_key) (\<lambda>_. b_dict_parse_loop f ptr r))))))"
  by pat_completeness auto
termination
  by (relation "measure (case_sum (case_sum fst fst) (case_sum fst fst))") auto

end
