(* ===== verification/B_Spec.thy ===== *)
theory B_Spec
  imports B_Parse
begin

text \<open>
  The abstract side of \<^verbatim>\<open>src/b_parse.c\<close>: bencoded values, their encoding, and what the parser
  computes, as functions on the bytes of the input buffer with no heap. Positions are
  offsets into the buffer, \<open>errno\<close> is passed along because the code consults it without ever
  clearing it. The theory proves that the parser makes progress and terminates on every input,
  and that it reads back every encoded value, whatever follows it in the buffer.
\<close>

section \<open>Values and their encoding\<close>

datatype bval =
    VStr "byte list"
  | VInt u32
  | VList "bval list"
  | VDict "(byte list \<times> bval) list"

definition enc_str :: "byte list \<Rightarrow> byte list" where
  "enc_str s = dec (length s) @ CHR '':'' # s"

fun bencode :: "bval \<Rightarrow> byte list" where
  "bencode (VStr s) = enc_str s"
| "bencode (VInt w) = CHR ''i'' # dec (unat w) @ [CHR ''e'']"
| "bencode (VList vs) = CHR ''l'' # concat (map bencode vs) @ [CHR ''e'']"
| "bencode (VDict kvs) =
     CHR ''d'' # concat (map (\<lambda>(k, v). enc_str (cstr k) @ bencode v) kvs) @ [CHR ''e'']"

text \<open>The \<open>key\<close> array of a dictionary entry for the key string \<open>k\<close>.\<close>

definition key_field :: "byte list \<Rightarrow> byte list" where
  "key_field k = strncpy_bytes (k @ [NUL]) KEY_LEN"

text \<open>Values whose keys are what the code can store: zero padded to \<open>KEY_LEN\<close> bytes.\<close>

fun keys_ok :: "bval \<Rightarrow> bool" where
  "keys_ok (VList vs) = list_all keys_ok vs"
| "keys_ok (VDict kvs) = list_all (\<lambda>(k, v). key_field (cstr k) = k \<and> keys_ok v) kvs"
| "keys_ok _ = True"

section \<open>The parser as a function on bytes\<close>

type_synonym 'a presult = "fault + (int \<times> ('a \<times> nat) option)"

definition mapr :: "('a \<Rightarrow> 'b) \<Rightarrow> 'a presult \<Rightarrow> 'b presult" where
  "mapr f r = (case r of Inl e \<Rightarrow> Inl e
     | Inr (en, x) \<Rightarrow> Inr (en, map_option (\<lambda>(v, q). (f v, q)) x))"

definition andthen :: "'a presult \<Rightarrow> (int \<Rightarrow> 'a \<Rightarrow> nat \<Rightarrow> 'b presult) \<Rightarrow> 'b presult" where
  "andthen r g = (case r of Inl e \<Rightarrow> Inl e
     | Inr (en, None) \<Rightarrow> Inr (en, None)
     | Inr (en, Some (v, q)) \<Rightarrow> g en v q)"

definition sp_string :: "byte list \<Rightarrow> int \<Rightarrow> nat \<Rightarrow> (byte list) presult" where
  "sp_string buf en p = (case strchr_scan CHR '':'' (drop p buf) of
      Inl e \<Rightarrow> Inl e
    | Inr None \<Rightarrow> Inr (en, None)
    | Inr (Some k) \<Rightarrow>
       (case strtol_scan (zero_padded (take (min k INTEGER_LEN) (drop p buf)) (INTEGER_LEN + 1)) of
          Inl e \<Rightarrow> Inl e
        | Inr ((v, rng), _) \<Rightarrow>
           (let en' = (if rng then ERANGE else en) in
            if (en' = ERANGE \<and> (v = LONG_MAX \<or> v = LONG_MIN)) \<or> (en' \<noteq> 0 \<and> v = 0) then Inr (en', None)
            else if v < 0 \<or> length buf < p + k + 1 + nat v then Inl OutOfBounds
            else Inr (en', Some (take (nat v) (drop (p + k + 1) buf), p + k + 1 + nat v)))))"

definition sp_int :: "byte list \<Rightarrow> int \<Rightarrow> nat \<Rightarrow> u32 presult" where
  "sp_int buf en p = (case strchr_scan CHR ''e'' (drop p buf) of
      Inl e \<Rightarrow> Inl e
    | Inr None \<Rightarrow> Inr (en, None)
    | Inr (Some k) \<Rightarrow>
       (let len = unat (word_of_nat k :: u32) in
        case strtol_scan (zero_padded (take (min len INTEGER_LEN) (drop (p + 1) buf)) INTEGER_LEN) of
          Inl e \<Rightarrow> Inl e
        | Inr ((v, rng), _) \<Rightarrow>
           (let en' = (if rng then ERANGE else en); val = (word_of_int v :: u32) in
            if en' \<noteq> 0 \<and> val = 0 then Inr (en', None)
            else Inr (en', Some (val, p + k + 1)))))"

definition sp_elem ::
  "byte list \<Rightarrow> int \<Rightarrow> nat \<Rightarrow> bval list presult \<Rightarrow> (byte list \<times> bval) list presult \<Rightarrow> bval presult" where
  "sp_elem buf en p rl rd =
     (if length buf \<le> p then Inl OutOfBounds
      else if buf ! p = CHR ''l'' then mapr VList rl
      else if buf ! p = CHR ''i'' then mapr VInt (sp_int buf en p)
      else if buf ! p = CHR ''d'' then mapr VDict rd
      else mapr VStr (sp_string buf en p))"

function (sequential) sp_list :: "nat \<Rightarrow> byte list \<Rightarrow> int \<Rightarrow> nat \<Rightarrow> bval list presult"
  and sp_items :: "nat \<Rightarrow> byte list \<Rightarrow> int \<Rightarrow> nat \<Rightarrow> bval list presult"
  and sp_dict :: "nat \<Rightarrow> byte list \<Rightarrow> int \<Rightarrow> nat \<Rightarrow> (byte list \<times> bval) list presult"
  and sp_pairs :: "nat \<Rightarrow> byte list \<Rightarrow> int \<Rightarrow> nat \<Rightarrow> (byte list \<times> bval) list presult"
where
  "sp_list 0 buf en p = Inl OutOfFuel"
| "sp_list (Suc f) buf en p =
     (if length buf \<le> p then Inl OutOfBounds
      else if buf ! p \<noteq> CHR ''l'' then Inr (en, None)
      else sp_items f buf en (p + 1))"
| "sp_items 0 buf en p = Inl OutOfFuel"
| "sp_items (Suc f) buf en p =
     (if length buf \<le> p then Inl OutOfBounds
      else if buf ! p = CHR ''e'' then Inr (en, Some ([], p + 1))
      else andthen (sp_elem buf en p (sp_list f buf en p) (sp_dict f buf en p)) (\<lambda>en1 v q.
           mapr (\<lambda>vs. v # vs) (sp_items f buf en1 q)))"
| "sp_dict 0 buf en p = Inl OutOfFuel"
| "sp_dict (Suc f) buf en p =
     (if length buf \<le> p then Inl OutOfBounds
      else if buf ! p \<noteq> CHR ''d'' then Inr (en, None)
      else sp_pairs f buf en (p + 1))"
| "sp_pairs 0 buf en p = Inl OutOfFuel"
| "sp_pairs (Suc f) buf en p =
     (if length buf \<le> p then Inl OutOfBounds
      else if buf ! p = CHR ''e'' then Inr (en, Some ([], p + 1))
      else andthen (sp_string buf en p) (\<lambda>en1 k p1.
           andthen (sp_elem buf en1 p1 (sp_list f buf en1 p1) (sp_dict f buf en1 p1)) (\<lambda>en2 v q.
           mapr (\<lambda>kvs. (key_field k, v) # kvs) (sp_pairs f buf en2 q))))"
  by pat_completeness auto
termination
  by (relation "measure (case_sum (case_sum fst fst) (case_sum fst fst))") auto

section \<open>Progress and termination\<close>

lemma andthen_Some_iff:
  "andthen r g = Inr (en', Some x) \<longleftrightarrow>
     (\<exists>en v q. r = Inr (en, Some (v, q)) \<and> g en v q = Inr (en', Some x))"
  by (auto simp: andthen_def split: sum.splits prod.splits option.splits)

lemma andthen_Inl_iff:
  "andthen r g = Inl e \<longleftrightarrow> r = Inl e \<or> (\<exists>en v q. r = Inr (en, Some (v, q)) \<and> g en v q = Inl e)"
  by (auto simp: andthen_def split: sum.splits prod.splits option.splits)

lemma mapr_Some_iff:
  "mapr f r = Inr (en', Some (w, q)) \<longleftrightarrow> (\<exists>v. r = Inr (en', Some (v, q)) \<and> w = f v)"
  by (auto simp: mapr_def split: sum.splits prod.splits)

lemma mapr_Inl_iff [simp]: "mapr f r = Inl e \<longleftrightarrow> r = Inl e"
  by (auto simp: mapr_def split: sum.splits)

lemma mapr_Inr [simp]:
  "mapr f (Inr (en, Some (v, q))) = Inr (en, Some (f v, q))" "mapr f (Inr (en, None)) = Inr (en, None)"
  by (simp_all add: mapr_def)

lemma andthen_Inr [simp]:
  "andthen (Inr (en, Some (v, q))) g = g en v q" "andthen (Inr (en, None)) g = Inr (en, None)"
  "andthen (Inl e) g = Inl e"
  by (simp_all add: andthen_def)

lemma strchr_scan_Some:
  "strchr_scan c bs = Inr (Some k) \<Longrightarrow> k < length bs \<and> bs ! k = c"
proof (induction bs arbitrary: k)
  case (Cons b bs)
  then show ?case by (cases k) (auto split: if_splits sum.splits)
qed simp

lemma strchr_scan_fault: "strchr_scan c bs = Inl e \<Longrightarrow> e = OutOfBounds"
  by (induction bs) (auto split: if_splits sum.splits)

lemma strchr_scan_hit:
  "c \<notin> set xs \<Longrightarrow> NUL \<notin> set xs \<Longrightarrow> strchr_scan c (xs @ c # r) = Inr (Some (length xs))"
  by (induction xs) auto

lemma strtol_scan_fault: "strtol_scan cs = Inl e \<Longrightarrow> e = OutOfBounds"
  by (auto simp: strtol_scan_def Let_def split: prod.splits if_splits)

lemma sp_string_progress:
  "sp_string buf en p = Inr (en', Some (s, q)) \<Longrightarrow> p < q \<and> q \<le> length buf"
  by (auto simp: sp_string_def Let_def split: sum.splits option.splits prod.splits if_splits)

lemma sp_int_progress:
  assumes "sp_int buf en p = Inr (en', Some (w, q))"
  shows "p < q \<and> q \<le> length buf"
proof -
  obtain k where "strchr_scan CHR ''e'' (drop p buf) = Inr (Some k)" "q = p + k + 1"
    using assms by (auto simp: sp_int_def Let_def split: sum.splits option.splits prod.splits if_splits)
  then show ?thesis using strchr_scan_Some by fastforce
qed

lemma sp_string_fault: "sp_string buf en p = Inl e \<Longrightarrow> e = OutOfBounds"
  by (auto simp: sp_string_def Let_def dest: strchr_scan_fault strtol_scan_fault
      split: sum.splits option.splits prod.splits if_splits)

lemma sp_int_fault: "sp_int buf en p = Inl e \<Longrightarrow> e = OutOfBounds"
  by (auto simp: sp_int_def Let_def dest: strchr_scan_fault strtol_scan_fault
      split: sum.splits option.splits prod.splits if_splits)

text \<open>What holds of every result of one of the four parse functions.\<close>

definition advances :: "byte list \<Rightarrow> nat \<Rightarrow> 'a presult \<Rightarrow> bool" where
  "advances buf p r \<longleftrightarrow> (\<forall>en v q. r = Inr (en, Some (v, q)) \<longrightarrow> p < q \<and> q \<le> length buf)"

lemma advances_simps [simp]:
  "advances buf p (Inl e)" "advances buf p (Inr (en, None))"
  "advances buf p (Inr (en, Some (v, q))) \<longleftrightarrow> p < q \<and> q \<le> length buf"
  "advances buf p (mapr f r) \<longleftrightarrow> advances buf p r"
  by (auto simp: advances_def mapr_def split: sum.splits)

lemma advances_andthen:
  "advances buf p r \<Longrightarrow> (\<And>en v q. p < q \<Longrightarrow> advances buf q (g en v q)) \<Longrightarrow>
   advances buf p (andthen r g)"
  by (fastforce simp: advances_def andthen_Some_iff)

lemma advances_Suc: "advances buf (Suc p) r \<Longrightarrow> advances buf p r"
  by (fastforce simp: advances_def)

lemma advances_elem:
  "advances buf p rl \<Longrightarrow> advances buf p rd \<Longrightarrow> advances buf p (sp_elem buf en p rl rd)"
  using sp_string_progress sp_int_progress
  by (auto simp: sp_elem_def) (fastforce simp: advances_def)+

lemma sp_advances:
  "advances buf p (sp_list f buf en p)" "advances buf p (sp_items f buf en p)"
  "advances buf p (sp_dict f buf en p)" "advances buf p (sp_pairs f buf en p)"
proof (induction f arbitrary: en p)
  case (Suc f)
  have str: "advances buf p (sp_string buf en p)" for en p
    using sp_string_progress by (fastforce simp: advances_def)
  {
    case 1
    show ?case using Suc.IH(2) [of "p + 1" en] by (auto dest: advances_Suc)
  next
    case 2
    show ?case using Suc.IH by (auto intro!: advances_andthen advances_elem)
  next
    case 3
    show ?case using Suc.IH(4) [of "p + 1" en] by (auto dest: advances_Suc)
  next
    case 4
    show ?case using Suc.IH str by (auto intro!: advances_andthen advances_elem)
  }
qed auto

lemma elem_fault:
  "sp_elem buf en p rl rd = Inl e \<Longrightarrow> e = OutOfBounds \<or> rl = Inl e \<or> rd = Inl e"
  by (auto simp: sp_elem_def dest: sp_string_fault sp_int_fault split: if_splits)

text \<open>Twice the length of the rest of the buffer is enough fuel.\<close>

lemma sp_terminates:
  "2 * (length buf - p) + 1 \<le> f \<Longrightarrow> sp_list f buf en p \<noteq> Inl OutOfFuel"
  "2 * (length buf - p) + 2 \<le> f \<Longrightarrow> sp_items f buf en p \<noteq> Inl OutOfFuel"
  "2 * (length buf - p) + 1 \<le> f \<Longrightarrow> sp_dict f buf en p \<noteq> Inl OutOfFuel"
  "2 * (length buf - p) + 2 \<le> f \<Longrightarrow> sp_pairs f buf en p \<noteq> Inl OutOfFuel"
proof (induction f arbitrary: en p)
  case (Suc f)
  have elem: "sp_elem buf en p (sp_list f buf en p) (sp_dict f buf en p) \<noteq> Inl OutOfFuel"
    if "2 * (length buf - p) + 1 \<le> f" for en p
    using Suc.IH(1,3) [OF that] elem_fault by fastforce
  have prog: "p < q \<and> q \<le> length buf"
    if "sp_elem buf en p (sp_list f buf en p) (sp_dict f buf en p) = Inr (en', Some (v, q))" for en p en' v q
    using advances_elem [OF sp_advances(1,3)] that by (fastforce simp: advances_def)
  {
    case 1
    then show ?case using Suc.IH(2) [of "p + 1" en] by auto
  next
    case 2
    have "sp_items f buf en1 q \<noteq> Inl OutOfFuel"
      if "sp_elem buf en p (sp_list f buf en p) (sp_dict f buf en p) = Inr (en1, Some (v, q))" for en1 v q
      using prog [OF that] 2 by (intro Suc.IH(2)) linarith
    then show ?case using elem [of p en] 2 by (auto simp: andthen_Inl_iff)
  next
    case 3
    then show ?case using Suc.IH(4) [of "p + 1" en] by auto
  next
    case 4
    have key: "p < p1 \<and> p1 \<le> length buf" if "sp_string buf en p = Inr (en1, Some (k, p1))" for en1 k p1
      using sp_string_progress [OF that] .
    have "sp_elem buf en1 p1 (sp_list f buf en1 p1) (sp_dict f buf en1 p1) \<noteq> Inl OutOfFuel"
      if "sp_string buf en p = Inr (en1, Some (k, p1))" for en1 k p1
      using key [OF that] 4 by (intro elem) linarith
    moreover have "sp_pairs f buf en2 q \<noteq> Inl OutOfFuel"
      if k: "sp_string buf en p = Inr (en1, Some (k, p1))"
        and v: "sp_elem buf en1 p1 (sp_list f buf en1 p1) (sp_dict f buf en1 p1) = Inr (en2, Some (v, q))"
      for en1 k p1 en2 v q
      using key [OF k] prog [OF v] 4 by (intro Suc.IH(4)) linarith
    ultimately show ?case by (auto simp: andthen_Inl_iff dest: sp_string_fault)
  }
qed auto

lemma sp_faults:
  "sp_list f buf en p = Inl e \<Longrightarrow> e = OutOfBounds \<or> e = OutOfFuel"
  "sp_items f buf en p = Inl e \<Longrightarrow> e = OutOfBounds \<or> e = OutOfFuel"
  "sp_dict f buf en p = Inl e \<Longrightarrow> e = OutOfBounds \<or> e = OutOfFuel"
  "sp_pairs f buf en p = Inl e \<Longrightarrow> e = OutOfBounds \<or> e = OutOfFuel"
proof (induction f arbitrary: en p e)
  case (Suc f)
  have elem: "e = OutOfBounds \<or> e = OutOfFuel"
    if "sp_elem buf en p (sp_list f buf en p) (sp_dict f buf en p) = Inl e" for en p e
    using elem_fault [OF that] Suc.IH(1,3) by blast
  {
    case 1
    then show ?case using Suc.IH(2) by (auto split: if_splits)
  next
    case 2
    then show ?case by (auto simp: andthen_Inl_iff split: if_splits) (blast dest: elem Suc.IH(2))+
  next
    case 3
    then show ?case using Suc.IH(4) by (auto split: if_splits)
  next
    case 4
    then show ?case by (auto simp: andthen_Inl_iff split: if_splits) (blast dest: elem Suc.IH(4) sp_string_fault)+
  }
qed auto

section \<open>Reading back an encoded value\<close>

lemma drop_hd:
  assumes "drop p buf = c # r"
  shows "p < length buf" "buf ! p = c" "drop (Suc p) buf = r"
proof -
  show p: "p < length buf" using assms by (metis drop_all leI list.distinct(1))
  show "buf ! p = c" "drop (Suc p) buf = r"
    using assms p by (simp_all add: Cons_nth_drop_Suc [symmetric])
qed

lemma drop_prefix: "drop p buf = xs @ ys \<Longrightarrow> drop (p + length xs) buf = ys"
  by (metis add.commute append_eq_conv_conj drop_drop)

lemma strtol_field:
  assumes "n < 2 ^ 63"
  shows "strtol_scan (zero_padded (take (min (length (dec n)) INTEGER_LEN) (dec n @ r)) (INTEGER_LEN + 1))
    = Inr ((int n, False), length (dec n))"
proof -
  have n: "int n \<le> LONG_MAX" using assms by (simp add: LONG_MAX_def)
  have "n < 10 ^ 20" using assms by simp
  then have l20: "length (dec n) \<le> INTEGER_LEN"
    using length_dec_le [of n 20] by (simp add: INTEGER_LEN_def)
  then obtain j where z: "zero_padded (dec n) (Suc INTEGER_LEN) = dec n @ NUL # replicate j NUL"
    by (simp add: zero_padded_def Suc_diff_le)
  show ?thesis using strtol_dec [OF _ n, of NUL] l20 by (simp add: z isdigit_def)
qed

lemma sp_string_enc:
  assumes "drop p buf = enc_str s @ r" and "length s < 2 ^ 63"
  shows "sp_string buf 0 p = Inr (0, Some (s, p + length (enc_str s)))"
proof -
  let ?n = "length s"
  have b: "drop p buf = dec ?n @ CHR '':'' # s @ r" using assms(1) by (simp add: enc_str_def)
  have k: "strchr_scan CHR '':'' (drop p buf) = Inr (Some (length (dec ?n)))"
    unfolding b by (rule strchr_scan_hit) auto
  have v: "strtol_scan (zero_padded (take (min (length (dec ?n)) INTEGER_LEN) (drop p buf)) (INTEGER_LEN + 1))
      = Inr ((int ?n, False), length (dec ?n))"
    unfolding b by (rule strtol_field [OF assms(2)])
  have s: "drop (p + length (dec ?n) + 1) buf = s @ r"
    using drop_prefix [of p buf "dec ?n @ [CHR '':'']" "s @ r"] b by simp
  have "p + length (dec ?n) + 1 + ?n \<le> length buf"
    using arg_cong [OF s, of length] arg_cong [OF b, of length] by simp
  then show ?thesis
    using k v s by (simp add: sp_string_def enc_str_def ERANGE_def)
qed

lemma sp_int_dec:
  assumes "drop p buf = CHR ''i'' # dec n @ CHR ''e'' # r" and "n < 10 ^ 18"
  shows "sp_int buf 0 p = Inr (0, Some (word_of_nat n, p + length (dec n) + 2))"
proof -
  have b: "drop p buf = (CHR ''i'' # dec n) @ CHR ''e'' # r" using assms by simp
  have k: "strchr_scan CHR ''e'' (drop p buf) = Inr (Some (Suc (length (dec n))))"
    unfolding b by (subst strchr_scan_hit) auto
  have i: "int n \<le> LONG_MAX" using assms(2) by (simp add: LONG_MAX_def)
  have l: "length (dec n) \<le> 18" by (rule length_dec_le [OF assms(2)]) simp
  have len: "unat (word_of_nat (Suc (length (dec n))) :: u32) = Suc (length (dec n))"
    using l by (simp add: unsigned_of_nat take_bit_nat_eq_self del: of_nat_Suc)
  have "take (min (Suc (length (dec n))) INTEGER_LEN) (drop (p + 1) buf) = dec n @ [CHR ''e'']"
    using l drop_hd(3) [of p buf "CHR ''i''"] b by (simp add: INTEGER_LEN_def min_def)
  then have "strtol_scan (zero_padded (take (min (Suc (length (dec n))) INTEGER_LEN) (drop (p + 1) buf)) INTEGER_LEN)
      = Inr ((int n, False), length (dec n))"
    using strtol_dec [OF _ i, of "CHR ''e''"] by (simp add: zero_padded_def isdigit_def)
  then show ?thesis using k len by (simp add: sp_int_def Let_def)
qed

lemma sp_int_enc:
  assumes "drop p buf = bencode (VInt w) @ r"
  shows "sp_int buf 0 p = Inr (0, Some (w, p + length (bencode (VInt w))))"
proof -
  have "unat w < 4294967296" using unsigned_less [of w, where 'a = nat] by simp
  then have "unat w < 10 ^ 18" by simp
  then show ?thesis using sp_int_dec [of p buf "unat w" r] assms by simp
qed

text \<open>
  One statement for every kind of value: at any position where the buffer continues with the
  encoding of \<open>v\<close>, the parser returns \<open>v\<close> and stops right behind it.
\<close>

definition reads_back :: "byte list \<Rightarrow> bval \<Rightarrow> bool" where
  "reads_back buf v \<longleftrightarrow> (\<forall>p r f. drop p buf = bencode v @ r \<longrightarrow> 2 * (length buf - p) + 1 \<le> f \<longrightarrow>
     sp_elem buf 0 p (sp_list f buf 0 p) (sp_dict f buf 0 p) = Inr (0, Some (v, p + length (bencode v))))"

lemma bencode_first: "hd (bencode v) \<noteq> CHR ''e''" "bencode v \<noteq> []"
  using isdigit_not_special(5) [OF dec_hd]
  by (cases v; simp add: enc_str_def)+

lemma enc_str_first:
  "hd (enc_str s) \<noteq> CHR ''e''" "hd (enc_str s) \<noteq> CHR ''l''" "hd (enc_str s) \<noteq> CHR ''i''"
  "hd (enc_str s) \<noteq> CHR ''d''" "enc_str s \<noteq> []"
  using isdigit_not_special(5,7,8,9) [OF dec_hd] by (simp_all add: enc_str_def)

lemma drop_at:
  assumes "drop p buf = xs @ r" and "xs \<noteq> []"
  shows "p < length buf" "buf ! p = hd xs"
  using assms drop_hd(1,2) [of p buf "hd xs" "tl xs @ r"] by (cases xs; simp)+

lemma sp_items_enc:
  assumes "\<And>v. v \<in> set vs \<Longrightarrow> reads_back buf v"
    and "drop p buf = concat (map bencode vs) @ CHR ''e'' # r" and "2 * (length buf - p) + 2 \<le> f"
  shows "sp_items f buf 0 p = Inr (0, Some (vs, p + length (concat (map bencode vs)) + 1))"
  using assms
proof (induction vs arbitrary: p f)
  case Nil
  then obtain g where "f = Suc g" by (cases f) auto
  then show ?case using drop_hd [of p buf "CHR ''e''" r] Nil by simp
next
  case (Cons v vs)
  obtain g where g: "f = Suc g" using Cons.prems(3) by (cases f) auto
  have b: "drop p buf = bencode v @ concat (map bencode vs) @ CHR ''e'' # r"
    using Cons.prems(2) by simp
  let ?q = "p + length (bencode v)"
  have at: "p < length buf" "buf ! p \<noteq> CHR ''e''"
    using drop_at [OF b] bencode_first by auto
  have el: "sp_elem buf 0 p (sp_list g buf 0 p) (sp_dict g buf 0 p) = Inr (0, Some (v, ?q))"
    using Cons.prems(1) [of v] b Cons.prems(3) g unfolding reads_back_def by auto
  have q: "p < ?q" "?q \<le> length buf"
    using bencode_first(2) [of v] arg_cong [OF b, of length] at by auto
  have "sp_items g buf 0 ?q = Inr (0, Some (vs, ?q + length (concat (map bencode vs)) + 1))"
  proof (rule Cons.IH)
    show "drop ?q buf = concat (map bencode vs) @ CHR ''e'' # r" by (rule drop_prefix [OF b])
    show "2 * (length buf - ?q) + 2 \<le> g" using q Cons.prems(3) g by linarith
  qed (use Cons.prems(1) in auto)
  then show ?case using at el g by (simp add: add.assoc)
qed

lemma sp_pairs_enc:
  assumes "\<And>k v. (k, v) \<in> set kvs \<Longrightarrow> reads_back buf v \<and> key_field (cstr k) = k \<and> length (cstr k) < 2 ^ 63"
    and "drop p buf = concat (map (\<lambda>(k, v). enc_str (cstr k) @ bencode v) kvs) @ CHR ''e'' # r"
    and "2 * (length buf - p) + 2 \<le> f"
  shows "sp_pairs f buf 0 p =
    Inr (0, Some (kvs, p + length (concat (map (\<lambda>(k, v). enc_str (cstr k) @ bencode v) kvs)) + 1))"
  using assms
proof (induction kvs arbitrary: p f)
  case Nil
  then obtain g where "f = Suc g" by (cases f) auto
  then show ?case using drop_hd [of p buf "CHR ''e''" r] Nil by simp
next
  case (Cons kv kvs)
  obtain k v where kv: "kv = (k, v)" by (cases kv)
  let ?rest = "concat (map (\<lambda>(k, v). enc_str (cstr k) @ bencode v) kvs) @ CHR ''e'' # r"
  obtain g where g: "f = Suc g" using Cons.prems(3) by (cases f) auto
  have b: "drop p buf = enc_str (cstr k) @ bencode v @ ?rest"
    using Cons.prems(2) kv by simp
  let ?p1 = "p + length (enc_str (cstr k))" and ?q = "p + length (enc_str (cstr k)) + length (bencode v)"
  have b1: "drop ?p1 buf = bencode v @ ?rest" by (rule drop_prefix [OF b])
  have b2: "drop ?q buf = ?rest" by (rule drop_prefix [OF b1])
  have ok: "reads_back buf v" "key_field (cstr k) = k" "length (cstr k) < 2 ^ 63"
    using Cons.prems(1) [of k v] kv by auto
  have at: "p < length buf" "buf ! p \<noteq> CHR ''e''"
    using drop_at [OF b] enc_str_first by auto
  have st: "sp_string buf 0 p = Inr (0, Some (cstr k, ?p1))"
    by (rule sp_string_enc [OF b ok(3)])
  have le: "p < ?p1" "?p1 \<le> length buf" "p < ?q" "?q \<le> length buf"
    using enc_str_first(5) [of "cstr k"] arg_cong [OF b, of length] at by auto
  have el: "sp_elem buf 0 ?p1 (sp_list g buf 0 ?p1) (sp_dict g buf 0 ?p1) = Inr (0, Some (v, ?q))"
    using ok(1) b1 Cons.prems(3) g le unfolding reads_back_def by auto
  have "sp_pairs g buf 0 ?q =
      Inr (0, Some (kvs, ?q + length (concat (map (\<lambda>(k, v). enc_str (cstr k) @ bencode v) kvs)) + 1))"
  proof (rule Cons.IH)
    show "2 * (length buf - ?q) + 2 \<le> g" using le Cons.prems(3) g by linarith
  qed (use Cons.prems(1) b2 in auto)
  then show ?case using at st el g ok(2) kv by (simp add: add.assoc)
qed

lemma bencode_parts:
  "v \<in> set vs \<Longrightarrow> length (bencode v) \<le> length (bencode (VList vs))"
  "(k, v) \<in> set kvs \<Longrightarrow> length (bencode v) \<le> length (bencode (VDict kvs))"
  "(k, v) \<in> set kvs \<Longrightarrow> length (cstr k) \<le> length (bencode (VDict kvs))"
  by (auto simp: enc_str_def dest!: split_list)

lemma reads_back_all:
  assumes "keys_ok v" and "length (bencode v) < 2 ^ 63"
  shows "reads_back buf v"
  using assms
proof (induction v)
  case (VStr s)
  have "length s < 2 ^ 63" using VStr.prems by (simp add: enc_str_def)
  then show ?case
    using enc_str_first drop_at sp_string_enc by (fastforce simp: reads_back_def sp_elem_def)
next
  case (VInt w)
  show ?case
    using sp_int_enc [of _ buf w] drop_at [of _ buf "bencode (VInt w)"]
    by (fastforce simp: reads_back_def sp_elem_def)
next
  case (VList vs)
  have all: "reads_back buf v" if "v \<in> set vs" for v
    using VList that bencode_parts(1) [OF that] by (auto simp: list_all_iff)
  show ?case unfolding reads_back_def
  proof (intro allI impI)
    fix p r f assume b: "drop p buf = bencode (VList vs) @ r" and f: "2 * (length buf - p) + 1 \<le> f"
    obtain g where g: "f = Suc g" using f by (cases f) auto
    have h: "p < length buf" "buf ! p = CHR ''l''" "drop (Suc p) buf = concat (map bencode vs) @ CHR ''e'' # r"
      using drop_hd [of p buf "CHR ''l''"] b by simp_all
    have "sp_items g buf 0 (Suc p) = Inr (0, Some (vs, Suc p + length (concat (map bencode vs)) + 1))"
      using all h g f by (intro sp_items_enc) auto
    then show "sp_elem buf 0 p (sp_list f buf 0 p) (sp_dict f buf 0 p) =
        Inr (0, Some (VList vs, p + length (bencode (VList vs))))"
      using h g by (simp add: sp_elem_def)
  qed
next
  case (VDict kvs)
  have all: "reads_back buf v \<and> key_field (cstr k) = k \<and> length (cstr k) < 2 ^ 63"
    if "(k, v) \<in> set kvs" for k v
    using VDict that bencode_parts(2,3) [OF that] by (force simp: list_all_iff)
  show ?case unfolding reads_back_def
  proof (intro allI impI)
    fix p r f assume b: "drop p buf = bencode (VDict kvs) @ r" and f: "2 * (length buf - p) + 1 \<le> f"
    let ?body = "concat (map (\<lambda>(k, v). enc_str (cstr k) @ bencode v) kvs)"
    obtain g where g: "f = Suc g" using f by (cases f) auto
    have h: "p < length buf" "buf ! p = CHR ''d''" "drop (Suc p) buf = ?body @ CHR ''e'' # r"
      using drop_hd [of p buf "CHR ''d''"] b by simp_all
    have "sp_pairs g buf 0 (Suc p) = Inr (0, Some (kvs, Suc p + length ?body + 1))"
      using all h g f by (intro sp_pairs_enc) auto
    then show "sp_elem buf 0 p (sp_list f buf 0 p) (sp_dict f buf 0 p) =
        Inr (0, Some (VDict kvs, p + length (bencode (VDict kvs))))"
      using h g by (simp add: sp_elem_def)
  qed
qed

end
