(* ===== verification/B_Heap.thy ===== *)
theory B_Heap
  imports B_Spec
begin

text \<open>
  How bencoded values lie in memory, and what freeing them does.

  A \<open>bt\<close> is a value together with the addresses of all objects that represent it;
  \<open>holds m pv t\<close> says that the memory contains exactly this object graph, with every back
  pointer (\<open>prev\<close>) in place. The destructors of \<^verbatim>\<open>src/b_parse.c\<close> are shown to free each object
  of the graph exactly once and to touch nothing else. The loop that both destructors share,
  \<open>list_for_each_entry_safe\<close> over entries that are freed on the way, is verified once in the
  locale \<open>safe_walk\<close>.
\<close>

section \<open>Well-formed memories\<close>

definition wf_mem :: "mem \<Rightarrow> bool" where
  "wf_mem m \<longleftrightarrow> 0 < brk m \<and> objs m NULL = None \<and> links m NULL = None
     \<and> (\<forall>a. brk m \<le> a \<longrightarrow> objs m a = None \<and> links m a = None)
     \<and> (\<forall>n. n \<le> usable m n)
     \<and> (\<forall>a bs. objs m a = Some (OBuf bs) \<longrightarrow> length bs \<le> PTRDIFF_MAX)
     \<and> (\<forall>n. n \<le> PTRDIFF_MAX \<longrightarrow> usable m n \<le> PTRDIFF_MAX)"

definition no_oom :: "mem \<Rightarrow> bool" where
  "no_oom m \<longleftrightarrow> (\<forall>a. \<not> oom m a)"

lemma wf_live_less: "wf_mem m \<Longrightarrow> objs m a \<noteq> None \<Longrightarrow> a < brk m"
  unfolding wf_mem_def by (metis leI)

lemma wf_live_not_null: "wf_mem m \<Longrightarrow> objs m a \<noteq> None \<Longrightarrow> a \<noteq> NULL"
  unfolding wf_mem_def by metis

text \<open>Releasing several objects.\<close>

definition release_all :: "addr list \<Rightarrow> mem \<Rightarrow> mem" where
  "release_all as m = m\<lparr>objs := (\<lambda>a. if a \<in> set as then None else objs m a),
                        links := (\<lambda>a. if a \<in> set as then None else links m a)\<rparr>"

lemma release_all_simps [simp]:
  "objs (release_all as m) a = (if a \<in> set as then None else objs m a)"
  "links (release_all as m) a = (if a \<in> set as then None else links m a)"
  "brk (release_all as m) = brk m" "oom (release_all as m) = oom m"
  "usable (release_all as m) = usable m" "junk (release_all as m) = junk m"
  "errno (release_all as m) = errno m"
  by (simp_all add: release_all_def)

lemma release_all_Nil [simp]: "release_all [] m = m"
  by (simp add: release_all_def)

lemma release_all_append: "release_all bs (release_all as m) = release_all (as @ bs) m"
  by (intro mem.equality ext) auto

lemma release_release_all: "release a m = release_all [a] m"
  by (intro mem.equality ext) (auto simp: release_def)

lemma release_all_cong: "set as = set bs \<Longrightarrow> release_all as m = release_all bs m"
  by (simp add: release_all_def)

lemma wf_release_all: "wf_mem m \<Longrightarrow> wf_mem (release_all as m)"
  by (auto simp: wf_mem_def)

text \<open>Agreement of two memories on a set of addresses.\<close>

definition agree :: "addr set \<Rightarrow> mem \<Rightarrow> mem \<Rightarrow> bool" where
  "agree S m m' \<longleftrightarrow> (\<forall>a\<in>S. objs m' a = objs m a \<and> links m' a = links m a)"

lemma agree_refl [simp]: "agree S m m"
  by (simp add: agree_def)

lemma agree_sub: "agree S m m' \<Longrightarrow> T \<subseteq> S \<Longrightarrow> agree T m m'"
  by (auto simp: agree_def)

lemma agree_trans: "agree S m m' \<Longrightarrow> agree S m' m'' \<Longrightarrow> agree S m m''"
  by (auto simp: agree_def)

lemma agree_release: "set as \<inter> S = {} \<Longrightarrow> agree S m (release_all as m)"
  by (auto simp: agree_def)

section \<open>Symbolic execution of single accesses\<close>

lemma ld_runs [run_simps]:
  "objs m a = Some (OBStr s) \<Longrightarrow> ld_str a m = Inr (s, m)"
  "objs m a = Some (OBInt i) \<Longrightarrow> ld_int a m = Inr (i, m)"
  "objs m a = Some (OLEnt le) \<Longrightarrow> ld_lent a m = Inr (le, m)"
  "objs m a = Some (OBList bl) \<Longrightarrow> ld_list a m = Inr (bl, m)"
  "objs m a = Some (ODEnt de) \<Longrightarrow> ld_dent a m = Inr (de, m)"
  "objs m a = Some (OBDict bd) \<Longrightarrow> ld_dict a m = Inr (bd, m)"
  "objs m a = Some (OFile mf) \<Longrightarrow> ld_file a m = Inr (mf, m)"
  "objs m a = Some (OTorrent tr) \<Longrightarrow> ld_torrent a m = Inr (tr, m)"
  "objs m a = Some (OTimer tm) \<Longrightarrow> ld_timer a m = Inr (tm, m)"
  "objs m a = Some (OPeer pm) \<Longrightarrow> ld_peer a m = Inr (pm, m)"
  "objs m a = Some (OBuf bs) \<Longrightarrow> ld_buf a m = Inr (bs, m)"
  by (simp_all add: ld_str_def ld_int_def ld_lent_def ld_list_def ld_dent_def ld_dict_def
      ld_file_def ld_torrent_def ld_timer_def ld_peer_def ld_buf_def)

lemma st_run [run_simps]:
  "objs m a \<noteq> None \<Longrightarrow> st_obj a x m = Inr ((), m\<lparr>objs := (objs m)(a \<mapsto> x)\<rparr>)"
  by (auto simp: st_obj_def)

lemma upd_runs [run_simps]:
  "objs m a = Some (OBStr s) \<Longrightarrow> upd_str a f1 m = Inr ((), m\<lparr>objs := (objs m)(a \<mapsto> OBStr (f1 s))\<rparr>)"
  "objs m a = Some (OBInt i) \<Longrightarrow> upd_int a f2 m = Inr ((), m\<lparr>objs := (objs m)(a \<mapsto> OBInt (f2 i))\<rparr>)"
  "objs m a = Some (OLEnt le) \<Longrightarrow> upd_lent a f3 m = Inr ((), m\<lparr>objs := (objs m)(a \<mapsto> OLEnt (f3 le))\<rparr>)"
  "objs m a = Some (OBList bl) \<Longrightarrow> upd_list a f4 m = Inr ((), m\<lparr>objs := (objs m)(a \<mapsto> OBList (f4 bl))\<rparr>)"
  "objs m a = Some (ODEnt de) \<Longrightarrow> upd_dent a f5 m = Inr ((), m\<lparr>objs := (objs m)(a \<mapsto> ODEnt (f5 de))\<rparr>)"
  "objs m a = Some (OBDict bd) \<Longrightarrow> upd_dict a f6 m = Inr ((), m\<lparr>objs := (objs m)(a \<mapsto> OBDict (f6 bd))\<rparr>)"
  "objs m a = Some (OFile mf) \<Longrightarrow> upd_file a f7 m = Inr ((), m\<lparr>objs := (objs m)(a \<mapsto> OFile (f7 mf))\<rparr>)"
  "objs m a = Some (OTorrent tr) \<Longrightarrow> upd_torrent a f8 m = Inr ((), m\<lparr>objs := (objs m)(a \<mapsto> OTorrent (f8 tr))\<rparr>)"
  "objs m a = Some (OTimer tm) \<Longrightarrow> upd_timer a f9 m = Inr ((), m\<lparr>objs := (objs m)(a \<mapsto> OTimer (f9 tm))\<rparr>)"
  "objs m a = Some (OPeer pm) \<Longrightarrow> upd_peer a f10 m = Inr ((), m\<lparr>objs := (objs m)(a \<mapsto> OPeer (f10 pm))\<rparr>)"
  by (simp_all add: run_simps upd_str_def upd_int_def upd_lent_def upd_list_def upd_dent_def upd_dict_def
      upd_file_def upd_torrent_def upd_timer_def upd_peer_def)

lemma on_links_run [run_simps]: "f (links m) = Some h \<Longrightarrow> on_links f m = Inr ((), m\<lparr>links := h\<rparr>)"
  by (simp add: on_links_def)

lemma ask_links_run [run_simps]: "f (links m) = Some x \<Longrightarrow> ask_links f m = Inr (x, m)"
  by (simp add: ask_links_def)

lemma free_obj_run [run_simps]:
  "a \<noteq> NULL \<Longrightarrow> objs m a \<noteq> None \<Longrightarrow> free_obj a m = Inr ((), release_all [a] m)"
  by (simp add: free_obj_def release_release_all)

lemma free_buf_run [run_simps]:
  "objs m a = Some (OBuf bs) \<Longrightarrow> free_buf (CP a 0) m = Inr ((), release_all [a] m)"
  by (simp add: free_buf_def release_release_all)

section \<open>Object graphs\<close>

datatype bt =
    TStr addr addr "byte list"
  | TInt addr u32
  | TList addr "(addr \<times> bt) list"
  | TDict addr "(addr \<times> byte list \<times> bt) list"

fun root :: "bt \<Rightarrow> addr" where
  "root (TStr a d s) = a"
| "root (TInt a w) = a"
| "root (TList a es) = a"
| "root (TDict a es) = a"

fun tag :: "bt \<Rightarrow> byte" where
  "tag (TStr a d s) = CHR ''s''"
| "tag (TInt a w) = CHR ''i''"
| "tag (TList a es) = CHR ''l''"
| "tag (TDict a es) = CHR ''d''"

fun bval_of :: "bt \<Rightarrow> bval" where
  "bval_of (TStr a d s) = VStr s"
| "bval_of (TInt a w) = VInt w"
| "bval_of (TList a es) = VList (map (\<lambda>(e, t). bval_of t) es)"
| "bval_of (TDict a es) = VDict (map (\<lambda>(e, k, t). (k, bval_of t)) es)"

fun addrs :: "bt \<Rightarrow> addr list" where
  "addrs (TStr a d s) = [a, d]"
| "addrs (TInt a w) = [a]"
| "addrs (TList a es) = a # concat (map (\<lambda>(e, t). e # addrs t) es)"
| "addrs (TDict a es) = a # concat (map (\<lambda>(e, k, t). e # addrs t) es)"

fun holds :: "mem \<Rightarrow> addr \<Rightarrow> bt \<Rightarrow> bool" where
  "holds m pv (TStr a d s) =
     (objs m a = Some (OBStr \<lparr>bs_prev = pv, bs_data = CP d 0, bs_head = CP d 0, bs_len = word_of_nat (length s)\<rparr>)
      \<and> (\<exists>j. objs m d = Some (OBuf (s @ NUL # j))))"
| "holds m pv (TInt a w) = (objs m a = Some (OBInt \<lparr>bi_prev = pv, bi_val = w\<rparr>))"
| "holds m pv (TList a es) =
     (objs m a = Some (OBList \<lparr>bl_prev = pv\<rparr>) \<and> dll (links m) a (map fst es)
      \<and> list_all (\<lambda>(e, t). objs m e = Some (OLEnt \<lparr>le_entry = root t, le_type = tag t\<rparr>) \<and> holds m e t) es)"
| "holds m pv (TDict a es) =
     (objs m a = Some (OBDict \<lparr>bd_prev = pv\<rparr>) \<and> dll (links m) a (map fst es)
      \<and> list_all (\<lambda>(e, k, t). objs m e = Some (ODEnt \<lparr>de_key = k, de_val = root t, de_type = tag t\<rparr>)
          \<and> holds m e t) es)"

lemma root_addrs: "root t \<in> set (addrs t)"
  by (cases t) auto

lemma holds_live: "holds m pv t \<Longrightarrow> a \<in> set (addrs t) \<Longrightarrow> objs m a \<noteq> None"
proof (induction t arbitrary: pv)
  case (TList x es)
  then show ?case by (fastforce simp: list_all_iff)
next
  case (TDict x es)
  then show ?case by (fastforce simp: list_all_iff)
qed auto

lemma holds_frame:
  "agree (set (addrs t)) m m' \<Longrightarrow> holds m' pv t = holds m pv t"
proof (induction t arbitrary: pv)
  case (TList x es)
  have "dll (links m') x (map fst es) = dll (links m) x (map fst es)"
    using TList.prems by (intro dll_frame) (fastforce simp: agree_def)
  moreover have "(objs m' e = Some (OLEnt \<lparr>le_entry = root t, le_type = tag t\<rparr>) \<and> holds m' e t)
      = (objs m e = Some (OLEnt \<lparr>le_entry = root t, le_type = tag t\<rparr>) \<and> holds m e t)"
    if "(e, t) \<in> set es" for e t
  proof -
    have "agree (set (e # addrs t)) m m'" using TList.prems that by (fastforce simp: agree_def)
    then show ?thesis using TList.IH [OF that, of t] by (auto simp: agree_def)
  qed
  ultimately show ?case using TList.prems by (auto simp: agree_def list_all_iff split: prod.splits)
next
  case (TDict x es)
  have "dll (links m') x (map fst es) = dll (links m) x (map fst es)"
    using TDict.prems by (intro dll_frame) (fastforce simp: agree_def)
  moreover have "(objs m' e = Some (ODEnt \<lparr>de_key = k, de_val = root t, de_type = tag t\<rparr>) \<and> holds m' e t)
      = (objs m e = Some (ODEnt \<lparr>de_key = k, de_val = root t, de_type = tag t\<rparr>) \<and> holds m e t)"
    if "(e, k, t) \<in> set es" for e k t
  proof -
    have "agree (set (e # addrs t)) m m'" using TDict.prems that by (fastforce simp: agree_def)
    then show ?thesis using TDict.IH [OF that, of "(k, t)" t] by (auto simp: agree_def)
  qed
  ultimately show ?case using TDict.prems by (auto simp: agree_def list_all_iff split: prod.splits)
qed (auto simp: agree_def)

section \<open>Freeing entries while walking the list\<close>

fun fwd :: "lheap \<Rightarrow> addr list \<Rightarrow> addr \<Rightarrow> bool" where
  "fwd h [] l = (h l \<noteq> None)"
| "fwd h (x # xs) l = (get_next h x = Some (hd (xs @ [l])) \<and> fwd h xs l)"

lemma fwd_frame: "(\<And>a. a \<in> set (l # xs) \<Longrightarrow> h' a = h a) \<Longrightarrow> fwd h' xs l = fwd h xs l"
  by (induction xs) (auto simp: get_next_def)

lemma dll_fwd:
  assumes "dll h l (xs @ ys)"
  shows "fwd h ys l"
  using assms
proof (induction ys arbitrary: xs)
  case Nil
  then show ?case using dll_dom [of h l xs l] by simp
next
  case (Cons y ys)
  then show ?case using dll_nth_next [OF Cons.prems] Cons.IH [of "xs @ [y]"] by simp
qed

lemma fwd_get_next_head: "fwd h xs l \<Longrightarrow> \<exists>n. get_next h (hd (xs @ [l])) = Some n"
  by (cases xs) (auto simp: get_next_def)

text \<open>
  \<open>list_for_each_entry_safe (pos, n, head)\<close> with a body that may free the entry it is given.
  Each entry comes with the objects that the body frees there, the entry included, and with
  the fuel this takes.
\<close>

locale safe_walk =
  fixes loop :: "nat \<Rightarrow> addr \<Rightarrow> addr \<Rightarrow> addr \<Rightarrow> unit crun"
    and visit :: "nat \<Rightarrow> addr \<Rightarrow> unit crun"
  assumes loop_Suc: "loop (Suc f) pos n head =
    (if pos = head then ret ()
     else bnd (visit f pos) (\<lambda>_. bnd (ask_links (list_next_entry n)) (\<lambda>n'. loop f n n' head)))"
begin

lemma frees_all:
  assumes "\<And>e F k g m'. (e, F, k) \<in> set es \<Longrightarrow> agree (set F) m m' \<Longrightarrow> wf_mem m' \<Longrightarrow> k \<le> g \<Longrightarrow>
        visit g e m' = Inr ((), release_all F m')"
    and "distinct (l # concat (map (\<lambda>x. fst (snd x)) es))" and "\<And>e F k. (e, F, k) \<in> set es \<Longrightarrow> e \<in> set F"
    and "fwd (links m) (map fst es) l" and "es \<noteq> [] \<Longrightarrow> n = hd (tl (map fst es) @ [l])"
    and "(\<Sum>x\<leftarrow>es. Suc (snd (snd x))) < f" and "wf_mem m"
  shows "loop f (hd (map fst es @ [l])) n l m = Inr ((), release_all (concat (map (\<lambda>x. fst (snd x)) es)) m)"
  using assms
proof (induction es arbitrary: m n f)
  case Nil
  then obtain g where "f = Suc g" by (cases f) auto
  then show ?case by (simp add: loop_Suc)
next
  case (Cons x es)
  obtain e F k where x: "x = (e, F, k)" by (cases x)
  obtain g where f: "f = Suc g" using Cons.prems(6) by (cases f) auto
  let ?m = "release_all F m" and ?xs = "map fst es" and ?all = "concat (map (\<lambda>x. fst (snd x)) es)"
  have out: "a \<notin> set F" if "a \<in> set (l # ?all)" for a
    using Cons.prems(2) that x by auto
  have xsin: "set ?xs \<subseteq> set ?all"
  proof
    fix a assume "a \<in> set ?xs"
    then obtain y where "y \<in> set es" "a = fst y" by auto
    then show "a \<in> set ?all" using Cons.prems(3) [of "fst y" "fst (snd y)" "snd (snd y)"] by auto
  qed
  have keep: "links ?m a = links m a" if "a \<in> set (l # ?xs)" for a
    using out xsin that by auto
  have fw: "fwd (links ?m) ?xs l"
    using fwd_frame [of l ?xs "links ?m" "links m"] keep Cons.prems(4) by simp
  obtain n' where n': "get_next (links ?m) (hd (?xs @ [l])) = Some n'" using fwd_get_next_head [OF fw] by blast
  have "e \<noteq> l" using Cons.prems(2,3) x by force
  moreover have "visit g e m = Inr ((), ?m)" using Cons.prems(1) [of e F k m g] Cons.prems(6,7) f x by simp
  moreover have "n = hd (?xs @ [l])" using Cons.prems(5) by simp
  ultimately have "loop f (hd (map fst (x # es) @ [l])) n l m = loop g (hd (?xs @ [l])) n' l ?m"
    using n' x by (simp add: f loop_Suc run_simps list_next_entry_def)
  also have "\<dots> = Inr ((), release_all ?all ?m)"
  proof (rule Cons.IH)
    show "visit g' e' m' = Inr ((), release_all F' m')"
      if e: "(e', F', k') \<in> set es" "agree (set F') ?m m'" "wf_mem m'" "k' \<le> g'" for e' F' k' g' m'
    proof -
      have "agree (set F') m ?m" using out e(1) by (intro agree_release) fastforce
      then have "agree (set F') m m'" using e(2) by (rule agree_trans)
      then show ?thesis using Cons.prems(1) [of e' F' k' m' g'] e by simp
    qed
    show "es \<noteq> [] \<Longrightarrow> n' = hd (tl ?xs @ [l])"
      using n' fw by (cases es) auto
    show "fwd (links ?m) ?xs l" by (rule fw)
    show "wf_mem ?m" using Cons.prems(7) by (rule wf_release_all)
    show "e' \<in> set F'" if "(e', F', k') \<in> set es" for e' F' k'
      using Cons.prems(3) that by (metis list.set_intros(2))
  qed (use Cons.prems(2,6) f x in auto)
  finally show ?case by (simp add: release_all_append x)
qed

end

section \<open>The destructors free the whole graph, each object once\<close>

text \<open>The destructor chosen by the type tag, as in \<open>l_entry_free\<close> and \<open>d_entry_free\<close>.\<close>

definition free_by_tag :: "nat \<Rightarrow> byte \<Rightarrow> addr \<Rightarrow> unit crun" where
  "free_by_tag f ty a =
     (if ty = CHR ''l'' then b_list_free_n f a
      else if ty = CHR ''i'' then b_int_free a
      else if ty = CHR ''s'' then b_string_free a
      else if ty = CHR ''d'' then b_dict_free_n f a
      else ret ())"

text \<open>
  The value at \<open>a\<close> with tag \<open>ty\<close> is freed by its destructor, which releases exactly the objects \<open>F\<close>,
  in every memory that agrees on them.
\<close>

definition frees :: "mem \<Rightarrow> byte \<Rightarrow> addr \<Rightarrow> addr list \<Rightarrow> bool" where
  "frees m ty a F \<longleftrightarrow> (\<forall>m' f. wf_mem m' \<longrightarrow> agree (set F) m m' \<longrightarrow> 3 * length F < f \<longrightarrow>
     free_by_tag f ty a m' = Inr ((), release_all F m'))"

lemma frees_agree: "frees m ty a F \<Longrightarrow> agree (set F) m m' \<Longrightarrow> frees m' ty a F"
  unfolding frees_def using agree_trans by blast

text \<open>A value that was moved out of its entry.\<close>

lemma frees_moved: "ty = CHR ''s'' \<or> ty = CHR ''l'' \<Longrightarrow> frees m ty NULL []"
  unfolding frees_def by (auto simp: free_by_tag_def b_string_free_def gr0_conv_Suc)

lemma release_entry:
  "release_all [e] (release_all as m) = release_all (e # as) m"
  by (simp add: release_all_append release_all_cong [of "as @ [e]" "e # as"])

lemma walk_start:
  assumes "dll h a xs"
  shows "list_first_entry a h = Some (hd (xs @ [a]))"
    "list_next_entry (hd (xs @ [a])) h = Some (hd (tl xs @ [a]))"
  using dll_first [OF assms] dll_nth_next [of h a "[]" "hd xs" "tl xs"] assms
  by (cases xs; simp add: list_first_entry_def list_next_entry_def)+

lemma walk_fuel:
  "(\<Sum>x\<leftarrow>map (\<lambda>(e, F). (e, e # F, 3 * length F + 2)) es. Suc (snd (snd x))) = 3 * length (concat (map (\<lambda>(e, F). e # F) es))"
  by (induction es) auto

text \<open>
  A destructor that frees the entries of its list and then the list itself; \<open>payload\<close> gives the tag
  and the value of an entry.
\<close>

locale destructor = safe_walk loop visit
  for loop :: "nat \<Rightarrow> addr \<Rightarrow> addr \<Rightarrow> addr \<Rightarrow> unit crun" and visit :: "nat \<Rightarrow> addr \<Rightarrow> unit crun" +
  fixes destroy :: "nat \<Rightarrow> addr \<Rightarrow> unit crun" and payload :: "obj \<Rightarrow> (byte \<times> addr) option"
  assumes destroy_Suc: "destroy (Suc f) a =
    (if a \<noteq> NULL then
       bnd (ask_links (list_first_entry a)) (\<lambda>vec.
       bnd (ask_links (list_next_entry vec)) (\<lambda>tmp.
       bnd (loop f vec tmp a) (\<lambda>_. free_obj a)))
     else ret ())"
  and visit_Suc: "objs m e = Some x \<Longrightarrow> payload x = Some (ty, v) \<Longrightarrow> e \<noteq> NULL \<Longrightarrow>
    visit (Suc f) e m = bnd (free_by_tag f ty v) (\<lambda>_. free_obj e) m"
begin

lemma visit_frees:
  assumes "frees m ty v F" "objs m e = Some x" "payload x = Some (ty, v)" "e \<notin> set F"
    and "wf_mem m'" "agree (set (e # F)) m m'" "3 * length F + 2 \<le> g"
  shows "visit g e m' = Inr ((), release_all (e # F) m')"
proof -
  obtain f where g: "g = Suc f" using assms(7) by (cases g) auto
  have e: "objs m' e = Some x" "agree (set F) m m'" using assms(2,6) by (auto simp: agree_def)
  then have "e \<noteq> NULL" using wf_live_not_null [OF assms(5)] by auto
  moreover have "free_by_tag f ty v m' = Inr ((), release_all F m')"
    using assms(1,5,7) e(2) g unfolding frees_def by simp
  ultimately show ?thesis
    using visit_Suc [OF e(1) assms(3)] e(1) assms(4) by (simp add: g run_simps release_entry)
qed

lemma destroys:
  assumes "dll (links m) a (map fst es)" "objs m a \<noteq> None" "distinct (a # concat (map (\<lambda>(e, F). e # F) es))"
    and "\<And>e F. (e, F) \<in> set es \<Longrightarrow> \<exists>x ty v. objs m e = Some x \<and> payload x = Some (ty, v) \<and> frees m ty v F"
    and "wf_mem m'" "agree (set (a # concat (map (\<lambda>(e, F). e # F) es))) m m'"
    and "3 * length (a # concat (map (\<lambda>(e, F). e # F) es)) < f"
  shows "destroy f a m' = Inr ((), release_all (a # concat (map (\<lambda>(e, F). e # F) es)) m')"
proof -
  let ?es = "map (\<lambda>(e, F). (e, e # F, 3 * length F + 2)) es" and ?all = "concat (map (\<lambda>(e, F). e # F) es)"
  obtain g where g: "f = Suc g" using assms(7) by (cases f) auto
  have fs: "map fst ?es = map fst es" "concat (map (\<lambda>x. fst (snd x)) ?es) = ?all"
    by (simp_all add: split_def comp_def)
  have "set (map fst es) \<subseteq> set ?all" by force
  then have "links m' b = links m b" if "b \<in> set (a # map fst es)" for b
    using assms(6) that unfolding agree_def by auto
  then have r: "dll (links m') a (map fst es)" using dll_frame assms(1) by metis
  have a: "a \<noteq> NULL" "objs m' a \<noteq> None"
    using assms(2,6) wf_live_not_null [OF assms(5), of a] by (auto simp: agree_def)
  have "loop g (hd (map fst ?es @ [a])) (hd (tl (map fst ?es) @ [a])) a m'
      = Inr ((), release_all (concat (map (\<lambda>x. fst (snd x)) ?es)) m')"
  proof (rule frees_all)
    show "visit g' e m'' = Inr ((), release_all G m'')"
      if i: "(e, G, k) \<in> set ?es" "agree (set G) m' m''" "wf_mem m''" "k \<le> g'" for e G k g' m''
    proof -
      obtain F where F: "(e, F) \<in> set es" "G = e # F" "k = 3 * length F + 2" using i(1) by auto
      obtain x ty v where x: "objs m e = Some x" "payload x = Some (ty, v)" "frees m ty v F" using assms(4) F(1) by blast
      have "set G \<subseteq> set ?all" using F by force
      then have "agree (set G) m m'" by (intro agree_sub [OF assms(6)]) auto
      then have "agree (set (e # F)) m m''" using agree_trans [OF _ i(2)] unfolding F(2) by blast
      moreover have "e \<notin> set F" using assms(3) F(1) by (auto dest!: split_list)
      ultimately show ?thesis using visit_frees [OF x(3,1,2)] i(3,4) F(2,3) by simp
    qed
    show "fwd (links m') (map fst ?es) a" using dll_fwd [of _ _ "[]" "map fst es"] r unfolding fs by simp
    show "(\<Sum>x\<leftarrow>?es. Suc (snd (snd x))) < g"
      using assms(7) g unfolding walk_fuel by simp
    show "distinct (a # concat (map (\<lambda>x. fst (snd x)) ?es))" using assms(3) unfolding fs .
  qed (use assms(5) in auto)
  moreover have "a \<notin> set ?all" using assms(3) by simp
  ultimately show ?thesis
    using a walk_start [OF r] unfolding fs g destroy_Suc by (auto simp: run_simps release_entry)
qed

end

fun list_payload :: "obj \<Rightarrow> (byte \<times> addr) option" where
  "list_payload (OLEnt e) = Some (le_type e, le_entry e)"
| "list_payload x = None"

fun dict_payload :: "obj \<Rightarrow> (byte \<times> addr) option" where
  "dict_payload (ODEnt e) = Some (de_type e, de_val e)"
| "dict_payload x = None"

interpretation list_free: destructor b_list_free_loop l_entry_free_n b_list_free_n list_payload
proof
  fix m :: mem and e x ty v f
  assume "objs m e = Some x" "list_payload x = Some (ty, v)" "e \<noteq> NULL"
  then show "l_entry_free_n (Suc f) e m = bnd (free_by_tag f ty v) (\<lambda>_. free_obj e) m"
    unfolding free_by_tag_def by (cases x) (auto simp: run_simps)
qed simp_all

interpretation dict_free: destructor b_dict_free_loop d_entry_free_n b_dict_free_n dict_payload
proof
  fix m :: mem and e x ty v f
  assume "objs m e = Some x" "dict_payload x = Some (ty, v)" "e \<noteq> NULL"
  then show "d_entry_free_n (Suc f) e m = bnd (free_by_tag f ty v) (\<lambda>_. free_obj e) m"
    unfolding free_by_tag_def by (cases x) (auto simp: run_simps)
qed simp_all

lemma list_frees:
  assumes "dll (links m) a (map fst es)" "objs m a \<noteq> None" "distinct (a # concat (map (\<lambda>(e, F). e # F) es))"
    and "\<And>e F. (e, F) \<in> set es \<Longrightarrow> \<exists>x. objs m e = Some (OLEnt x) \<and> frees m (le_type x) (le_entry x) F"
  shows "frees m CHR ''l'' a (a # concat (map (\<lambda>(e, F). e # F) es))"
proof -
  have "\<exists>x ty v. objs m e = Some x \<and> list_payload x = Some (ty, v) \<and> frees m ty v F" if "(e, F) \<in> set es" for e F
    using assms(4) [OF that] by fastforce
  then show ?thesis
    using list_free.destroys [OF assms(1-3)] unfolding frees_def free_by_tag_def by simp
qed

lemma dict_frees:
  assumes "dll (links m) a (map fst es)" "objs m a \<noteq> None" "distinct (a # concat (map (\<lambda>(e, F). e # F) es))"
    and "\<And>e F. (e, F) \<in> set es \<Longrightarrow> \<exists>x. objs m e = Some (ODEnt x) \<and> frees m (de_type x) (de_val x) F"
  shows "frees m CHR ''d'' a (a # concat (map (\<lambda>(e, F). e # F) es))"
proof -
  have "\<exists>x ty v. objs m e = Some x \<and> dict_payload x = Some (ty, v) \<and> frees m ty v F" if "(e, F) \<in> set es" for e F
    using assms(4) [OF that] by fastforce
  then show ?thesis
    using dict_free.destroys [OF assms(1-3)] unfolding frees_def free_by_tag_def by simp
qed

lemma frees_all_graphs: "holds m pv t \<Longrightarrow> distinct (addrs t) \<Longrightarrow> frees m (tag t) (root t) (addrs t)"
proof (induction t arbitrary: pv)
  case (TStr a d s)
  have "b_string_free a m' = Inr ((), release_all [a, d] m')" if "wf_mem m'" "agree {a, d} m m'" for m'
  proof -
    have "a \<noteq> NULL" using that TStr.prems(1) wf_live_not_null [OF that(1), of a] by (auto simp: agree_def)
    then show ?thesis using that TStr.prems by (auto simp: agree_def b_string_free_def run_simps release_entry)
  qed
  then show ?case by (simp add: frees_def free_by_tag_def)
next
  case (TInt a w)
  have "b_int_free a m' = Inr ((), release_all [a] m')" if "wf_mem m'" "agree {a} m m'" for m'
    using that TInt.prems wf_live_not_null [OF that(1), of a] by (auto simp: agree_def b_int_free_def run_simps)
  then show ?case by (simp add: frees_def free_by_tag_def)
next
  case (TList a es)
  let ?es = "map (\<lambda>(e, t). (e, addrs t)) es"
  have "map fst ?es = map fst es" "concat (map (\<lambda>(e, F). e # F) ?es) = concat (map (\<lambda>(e, t). e # addrs t) es)"
    by (simp_all add: split_def comp_def)
  note fs = this
  have "\<exists>x. objs m e = Some (OLEnt x) \<and> frees m (le_type x) (le_entry x) F" if i: "(e, F) \<in> set ?es" for e F
  proof -
    obtain t where t: "(e, t) \<in> set es" "F = addrs t" using i by auto
    then have "distinct (addrs t)" using TList.prems(2) by (auto dest!: split_list)
    then show ?thesis using TList.IH [OF t(1), of t e] TList.prems(1) t by (auto simp: list_all_iff)
  qed
  then show ?case using list_frees [of m a ?es] TList.prems unfolding fs by simp
next
  case (TDict a es)
  let ?es = "map (\<lambda>(e, k, t). (e, addrs t)) es"
  have "map fst ?es = map fst es" "concat (map (\<lambda>(e, F). e # F) ?es) = concat (map (\<lambda>(e, k, t). e # addrs t) es)"
    by (simp_all add: split_def comp_def)
  note fs = this
  have "\<exists>x. objs m e = Some (ODEnt x) \<and> frees m (de_type x) (de_val x) F" if i: "(e, F) \<in> set ?es" for e F
  proof -
    obtain k t where t: "(e, k, t) \<in> set es" "F = addrs t" using i by auto
    then have "distinct (addrs t)" using TDict.prems(2) by (auto dest!: split_list)
    then show ?thesis using TDict.IH [OF t(1), of "(k, t)" t e] TDict.prems(1) t by (auto simp: list_all_iff)
  qed
  then show ?case using dict_frees [of m a ?es] TDict.prems unfolding fs by simp
qed

end
