(* ===== verification/B_Refine.thy ===== *)
theory B_Refine
  imports B_Heap
begin

text \<open>
  The heap-level parser of \<^verbatim>\<open>src/b_parse.c\<close> refines the abstract parser of \<open>B_Spec\<close>, when no
  allocation fails: it faults exactly where the abstract parser does, returns \<open>NULL\<close> exactly
  where that rejects, and otherwise returns the same position with an object graph of the same
  value. In every case, \<open>grown\<close> accounts for the whole heap: what existed before is unchanged
  (up to the container that was passed in), and the only new live objects are those of the
  graph, so nothing leaks, on the error paths included.
\<close>

section \<open>Accounting for new objects\<close>

definition grown :: "mem \<Rightarrow> mem \<Rightarrow> addr set \<Rightarrow> addr list \<Rightarrow> bool" where
  "grown m m' S N \<longleftrightarrow> wf_mem m' \<and> brk m \<le> brk m' \<and> oom m' = oom m \<and> usable m' = usable m
     \<and> agree {a. a < brk m \<and> a \<notin> S} m m'
     \<and> set N \<subseteq> {brk m..<brk m'}
     \<and> (\<forall>a. brk m \<le> a \<longrightarrow> a \<notin> set N \<longrightarrow> objs m' a = None \<and> links m' a = None)"

lemma grown_wf: "grown m m' S N \<Longrightarrow> wf_mem m'"
  by (simp add: grown_def)

lemma grown_no_oom: "grown m m' S N \<Longrightarrow> no_oom m \<Longrightarrow> no_oom m'"
  by (simp add: grown_def no_oom_def)

lemma grown_brk: "grown m m' S N \<Longrightarrow> brk m \<le> brk m'"
  by (simp add: grown_def)

lemma grown_agree: "grown m m' S N \<Longrightarrow> T \<subseteq> {a. a < brk m} \<Longrightarrow> T \<inter> S = {} \<Longrightarrow> agree T m m'"
  unfolding grown_def by (elim conjE agree_sub) auto

lemma grown_new: "grown m m' S N \<Longrightarrow> a \<in> set N \<Longrightarrow> brk m \<le> a \<and> a < brk m'"
  unfolding grown_def by auto

lemma grown_refl: "wf_mem m \<Longrightarrow> grown m m S []"
  by (auto simp: grown_def wf_mem_def)

lemma grown_trans:
  assumes "grown m m1 S N1" "grown m1 m2 S2 N2" "S2 \<subseteq> S \<union> set N1"
    and fresh: "\<And>a. a \<in> S2 \<Longrightarrow> brk m \<le> a \<Longrightarrow> a \<in> set N1"
  shows "grown m m2 S (N1 @ N2)"
proof -
  have old: "objs m2 a = objs m1 a \<and> links m2 a = links m1 a" if "a < brk m1" "a \<notin> S2" for a
    using assms(2) that by (auto simp: grown_def agree_def)
  have b: "brk m \<le> brk m1" "brk m1 \<le> brk m2" using assms grown_brk by auto
  have N: "set N1 \<subseteq> {brk m..<brk m1}" "set N2 \<subseteq> {brk m1..<brk m2}"
    using assms by (auto simp: grown_def)
  have "agree {a. a < brk m \<and> a \<notin> S} m m2"
    unfolding agree_def
  proof
    fix a assume a: "a \<in> {a. a < brk m \<and> a \<notin> S}"
    then have "a \<notin> S2" using assms(3) N(1) by auto
    then show "objs m2 a = objs m a \<and> links m2 a = links m a"
      using old [of a] a b assms(1) by (auto simp: grown_def agree_def)
  qed
  moreover have "objs m2 a = None \<and> links m2 a = None" if a: "brk m \<le> a" "a \<notin> set (N1 @ N2)" for a
  proof (cases "a < brk m1")
    case True
    have "a \<notin> S2 \<or> a \<in> S" using assms(3) a by auto
    moreover have "objs m1 a = None \<and> links m1 a = None" using assms(1) a by (auto simp: grown_def)
    ultimately show ?thesis using old [of a] True assms(3) a fresh by auto
  next
    case False
    then show ?thesis using assms(2) a by (auto simp: grown_def)
  qed
  ultimately show ?thesis using assms(1,2) b N unfolding grown_def by auto
qed

lemma grown_release:
  assumes "grown m m' S N" "set R \<subseteq> set N" "set N' = set N - set R"
  shows "grown m (release_all R m') S N'"
  using assms wf_release_all [of m' R] unfolding grown_def agree_def by fastforce

lemma grown_mono: "grown m m' S N \<Longrightarrow> S \<subseteq> S' \<Longrightarrow> grown m m' S' N"
  unfolding grown_def by (auto elim: agree_sub)

lemma grown_cong: "grown m m' S N \<Longrightarrow> set N = set N' \<Longrightarrow> grown m m' S N'"
  by (simp add: grown_def)

lemma grown_errno: "grown m m' S N \<Longrightarrow> grown m (m'\<lparr>errno := e\<rparr>) S N"
  unfolding grown_def wf_mem_def agree_def by auto

lemma errno_same [simp]: "m\<lparr>errno := errno m\<rparr> = m"
  by simp

lemma errno_upd [simp]:
  "wf_mem (m\<lparr>errno := e\<rparr>) = wf_mem m" "no_oom (m\<lparr>errno := e\<rparr>) = no_oom m"
  "grown (m\<lparr>errno := e\<rparr>) m' S N = grown m m' S N"
  by (simp_all add: wf_mem_def no_oom_def grown_def agree_def)

lemma grown_upd:
  assumes "grown m m' S N" "a \<in> S \<or> a \<in> set N" "a < brk m'" "a \<noteq> NULL" "objs m' a \<noteq> None"
    "\<And>bs. x = OBuf bs \<Longrightarrow> length bs \<le> PTRDIFF_MAX"
  shows "grown m (m'\<lparr>objs := (objs m')(a \<mapsto> x)\<rparr>) S N"
  using assms unfolding grown_def agree_def wf_mem_def by auto

lemma grown_links:
  assumes "grown m m' S N" "keeps K (links m') h" "K \<subseteq> S \<union> set N"
  shows "grown m (m'\<lparr>links := h\<rparr>) S N"
proof -
  have "h a = links m' a" if "a \<notin> S \<union> set N" for a
    using assms(2,3) that by (auto simp: keeps_def)
  moreover have "(h a = None) = (links m' a = None)" for a
    using keeps_live [OF assms(2)] .
  moreover have "a \<notin> set N" if "a < brk m" for a
    using grown_new [OF assms(1), of a] that by auto
  ultimately show ?thesis
    using assms(1) unfolding grown_def agree_def wf_mem_def by auto
qed

section \<open>Allocation\<close>

lemma malloc_obj_grown:
  assumes "wf_mem m" "no_oom m" "\<And>bs. x \<noteq> OBuf bs"
  shows "\<exists>m'. malloc_obj x m = Inr (brk m, m') \<and> grown m m' {} [brk m] \<and> objs m' (brk m) = Some x
    \<and> errno m' = errno m"
proof -
  let ?m = "m\<lparr>brk := Suc (brk m), objs := (objs m)(brk m \<mapsto> x)\<rparr>"
  have "malloc_obj x m = Inr (brk m, ?m)" using assms by (simp add: malloc_obj_def no_oom_def Let_def)
  moreover have "grown m ?m {} [brk m]" using assms by (auto simp: grown_def wf_mem_def agree_def)
  ultimately show ?thesis by auto
qed

lemma malloc_node_grown:
  assumes "wf_mem m" "no_oom m" "\<And>bs. x \<noteq> OBuf bs"
  shows "\<exists>m'. malloc_node x m = Inr (brk m, m') \<and> grown m m' {} [brk m] \<and> objs m' (brk m) = Some x
    \<and> links m' (brk m) \<noteq> None \<and> errno m' = errno m"
proof -
  let ?m = "m\<lparr>brk := Suc (brk m), objs := (objs m)(brk m \<mapsto> x),
    links := (links m)(brk m \<mapsto> \<lparr>lh_next = NULL, lh_prev = NULL\<rparr>)\<rparr>"
  have "malloc_node x m = Inr (brk m, ?m)" using assms by (simp add: malloc_node_def no_oom_def Let_def)
  moreover have "grown m ?m {} [brk m]" using assms by (auto simp: grown_def wf_mem_def agree_def)
  ultimately show ?thesis by auto
qed

lemma malloc_buf_grown:
  assumes "wf_mem m" "no_oom m" "n \<le> PTRDIFF_MAX"
  shows "\<exists>m' bs. malloc_buf n m = Inr (CP (brk m) 0, m') \<and> grown m m' {} [brk m]
    \<and> objs m' (brk m) = Some (OBuf bs) \<and> n \<le> length bs \<and> length bs \<le> PTRDIFF_MAX \<and> errno m' = errno m"
proof -
  let ?bs = "map (junk m (brk m)) [0..<usable m n]"
  let ?m = "m\<lparr>brk := Suc (brk m), objs := (objs m)(brk m \<mapsto> OBuf ?bs)\<rparr>"
  have "malloc_buf n m = Inr (CP (brk m) 0, ?m)" using assms by (simp add: malloc_buf_def no_oom_def Let_def)
  moreover have "n \<le> length ?bs" "length ?bs \<le> PTRDIFF_MAX" using assms by (auto simp: wf_mem_def)
  moreover have "grown m ?m {} [brk m]" using assms by (auto simp: grown_def wf_mem_def agree_def)
  ultimately show ?thesis by auto
qed

lemma brk_not_null: "wf_mem m \<Longrightarrow> brk m \<noteq> NULL"
  by (simp add: wf_mem_def)

lemma node_init_grown:
  assumes "wf_mem m" "no_oom m" "\<And>bs. x \<noteq> OBuf bs"
  shows "\<exists>m'. bnd (malloc_node x) (\<lambda>ptr. if ptr \<noteq> NULL then bnd (on_links (INIT_LIST_HEAD ptr)) (\<lambda>_. ret ptr) else ret NULL) m
      = Inr (brk m, m') \<and> grown m m' {} [brk m] \<and> objs m' (brk m) = Some x
    \<and> dll (links m') (brk m) [] \<and> errno m' = errno m"
proof -
  obtain m1 where m1: "malloc_node x m = Inr (brk m, m1)" "grown m m1 {} [brk m]"
    "objs m1 (brk m) = Some x" "links m1 (brk m) \<noteq> None" "errno m1 = errno m"
    using malloc_node_grown [OF assms] by blast
  obtain h where h: "INIT_LIST_HEAD (brk m) (links m1) = Some h" "dll h (brk m) []"
    "keeps {brk m} (links m1) h"
    using INIT_LIST_HEAD_dll m1(4) by blast
  have "grown m (m1\<lparr>links := h\<rparr>) {} [brk m]" using grown_links [OF m1(2) h(3)] by simp
  then show ?thesis using m1 h brk_not_null [OF assms(1)] by (simp add: run_simps)
qed

lemma b_list_alloc_grown:
  assumes "wf_mem m" "no_oom m"
  shows "\<exists>m'. b_list_alloc m = Inr (brk m, m') \<and> grown m m' {} [brk m]
    \<and> holds m' NULL (TList (brk m) []) \<and> errno m' = errno m"
  using node_init_grown [OF assms, of "OBList \<lparr>bl_prev = NULL\<rparr>"] by (auto simp: b_list_alloc_def)

lemma b_dict_alloc_grown:
  assumes "wf_mem m" "no_oom m"
  shows "\<exists>m'. b_dict_alloc m = Inr (brk m, m') \<and> grown m m' {} [brk m]
    \<and> holds m' NULL (TDict (brk m) []) \<and> errno m' = errno m"
  using node_init_grown [OF assms, of "OBDict \<lparr>bd_prev = NULL\<rparr>"] by (auto simp: b_dict_alloc_def)

section \<open>Parsing a string and an integer\<close>

lemma rd_bytes_run [run_simps]:
  "objs m a = Some (OBuf bs) \<Longrightarrow> i + n \<le> length bs \<Longrightarrow> rd_bytes (CP a i) n m = Inr (take n (drop i bs), m)"
  by (simp add: rd_bytes_def run_simps)

lemma rd_bytes_oob [run_simps]:
  "objs m a = Some (OBuf bs) \<Longrightarrow> length bs < i + n \<Longrightarrow> 0 < n \<Longrightarrow> rd_bytes (CP a i) n m = Inl OutOfBounds"
  by (simp add: rd_bytes_def run_simps)

lemma ld_byte_run [run_simps]:
  "objs m a = Some (OBuf bs) \<Longrightarrow> i < length bs \<Longrightarrow> ld_byte (CP a i) m = Inr (bs ! i, m)"
  by (simp add: ld_byte_def run_simps take_Suc_conv_app_nth hd_drop_conv_nth)

lemma ld_byte_oob [run_simps]:
  "objs m a = Some (OBuf bs) \<Longrightarrow> length bs \<le> i \<Longrightarrow> ld_byte (CP a i) m = Inl OutOfBounds"
  by (simp add: ld_byte_def run_simps)

lemma strchr_run:
  "objs m a = Some (OBuf bs) \<Longrightarrow> strchr (CP a i) c m =
     (case strchr_scan c (drop i bs) of Inl e \<Rightarrow> Inl e
      | Inr None \<Rightarrow> Inr (CNull, m) | Inr (Some k) \<Rightarrow> Inr (CP a (i + k), m))"
  by (simp add: strchr_def run_simps split: sum.split option.split)

lemma wr_bytes_run [run_simps]:
  "objs m a = Some (OBuf bs) \<Longrightarrow> i + length xs \<le> length bs \<Longrightarrow>
   wr_bytes (CP a i) xs m = Inr ((), m\<lparr>objs := (objs m)(a \<mapsto> OBuf (overwrite bs i xs))\<rparr>)"
  by (auto simp: wr_bytes_def run_simps fun_upd_idem)

lemma strtol_run:
  "strtol cs m = (case strtol_scan cs of Inl e \<Rightarrow> Inl e
     | Inr ((v, rng), k) \<Rightarrow> Inr ((v, CLocal k), m\<lparr>errno := (if rng then ERANGE else errno m)\<rparr>))"
  by (simp add: strtol_def split: sum.split prod.split)

lemma strtol_clamped: "strtol_scan cs = Inr ((v, rng), k) \<Longrightarrow> LONG_MIN \<le> v \<and> v \<le> LONG_MAX"
  by (auto simp: strtol_scan_def clamp_long_def LONG_MIN_def LONG_MAX_def Let_def split: prod.splits if_splits)

text \<open>The copy and the terminator written into the fresh buffer.\<close>

lemma copied_string:
  assumes "length s < length bs"
  shows "\<exists>j. overwrite (overwrite bs 0 s) (length s) [NUL] = s @ NUL # j"
  using assms by (auto simp: overwrite_def)

lemma size_t_nonneg: "0 \<le> v \<Longrightarrow> v \<le> LONG_MAX \<Longrightarrow> size_t v = nat v"
  by (simp add: size_t_def LONG_MAX_def)

lemma size_t_neg: "v < 0 \<Longrightarrow> LONG_MIN \<le> v \<Longrightarrow> PTRDIFF_MAX < size_t v"
proof -
  assume a: "v < 0" "LONG_MIN \<le> v"
  then have "v mod 2 ^ 64 = v + 2 ^ 64"
    unfolding LONG_MIN_def by (intro int_mod_pos_eq [of _ _ "-1", symmetric, THEN sym]) auto
  then show ?thesis using a by (simp add: size_t_def PTRDIFF_MAX_def LONG_MIN_def nat_less_iff)
qed

lemma malloc_buf_any:
  "\<exists>q m1. malloc_buf n m = Inr (q, m1) \<and> (\<forall>a. a < brk m \<longrightarrow> objs m1 a = objs m a)"
  by (simp add: malloc_buf_def Let_def)

lemma set_string_run:
  assumes "objs m t = Some (OBStr s0)"
  shows "bnd (b_string_set t d) (\<lambda>_. bnd (b_string_set_head t d) (\<lambda>_. bnd (b_string_set_length t n) (\<lambda>_.
      bnd (b_string_get t) g))) m
    = g d (m\<lparr>objs := (objs m)(t \<mapsto> OBStr (s0\<lparr>bs_data := d, bs_head := d, bs_len := n\<rparr>))\<rparr>)"
  using assms
  by (simp add: b_string_set_def b_string_set_head_def b_string_set_length_def b_string_get_def run_simps)

lemma copy_oob:
  assumes "wf_mem m" "objs m ba = Some (OBuf buf)" "objs m t = Some (OBStr s0)"
    "length buf < i + size_t v" "0 < size_t v"
  shows "bnd (malloc_buf n) (\<lambda>tmp_b. bnd (b_string_set t tmp_b) (\<lambda>_. bnd (b_string_set_head t tmp_b) (\<lambda>_.
    bnd (b_string_set_length t w) (\<lambda>_. bnd (b_string_get t) (\<lambda>tmp_b. bnd (memcpy tmp_b (CP ba i) (size_t v)) (g tmp_b)))))) m
    = Inl OutOfBounds"
proof -
  obtain q m1 where m1: "malloc_buf n m = Inr (q, m1)" "\<forall>a. a < brk m \<longrightarrow> objs m1 a = objs m a"
    using malloc_buf_any by blast
  have "t < brk m" "ba < brk m" using wf_live_less [OF assms(1)] assms(2,3) by auto
  then have "objs m1 t = Some (OBStr s0)" "objs m1 ba = Some (OBuf buf)" using m1(2) assms by auto
  moreover from this have "t \<noteq> ba" by auto
  ultimately show ?thesis
    using m1(1) assms(4,5) by (simp add: run_simps set_string_run memcpy_def)
qed

lemma copy_ok:
  assumes "wf_mem m" "no_oom m" "objs m ba = Some (OBuf buf)" "objs m t = Some (OBStr s0)"
    "0 \<le> v" "v \<le> LONG_MAX" "i + nat v \<le> length buf" "0 < i"
  shows "\<exists>m' j. bnd (malloc_buf (size_t (v + 1))) (\<lambda>tmp_b. bnd (b_string_set t tmp_b) (\<lambda>_.
      bnd (b_string_set_head t tmp_b) (\<lambda>_. bnd (b_string_set_length t (word_of_int v)) (\<lambda>_.
      bnd (b_string_get t) (\<lambda>tmp_b. bnd (memcpy tmp_b (CP ba i) (size_t v)) (\<lambda>_.
      bnd (ptr_move tmp_b v) (\<lambda>e. bnd (st_byte e NUL) g))))))) m = g () m'
    \<and> errno m' = errno m \<and> grown m m' {t} [brk m]
    \<and> objs m' t = Some (OBStr (s0\<lparr>bs_data := CP (brk m) 0, bs_head := CP (brk m) 0, bs_len := word_of_nat (nat v)\<rparr>))
    \<and> objs m' (brk m) = Some (OBuf (take (nat v) (drop i buf) @ NUL # j))"
proof -
  let ?s = "take (nat v) (drop i buf)" and ?d = "brk m"
  let ?t = "OBStr (s0\<lparr>bs_data := CP ?d 0, bs_head := CP ?d 0, bs_len := word_of_int v\<rparr>)"
  have ls: "length ?s = nat v" using assms(7) by simp
  have "length buf \<le> PTRDIFF_MAX" using assms(1,3) by (auto simp: wf_mem_def)
  then have lt: "nat v < PTRDIFF_MAX" using assms(7,8) by linarith
  then have sz: "size_t (v + 1) = nat v + 1" "size_t v = nat v"
    using assms(5,6) by (auto simp: size_t_def LONG_MAX_def PTRDIFF_MAX_def)
  obtain m1 bs where m1: "malloc_buf (nat v + 1) m = Inr (CP ?d 0, m1)" "grown m m1 {} [?d]"
    "objs m1 ?d = Some (OBuf bs)" "nat v + 1 \<le> length bs" "length bs \<le> PTRDIFF_MAX" "errno m1 = errno m"
    using malloc_buf_grown [OF assms(1,2), of "nat v + 1"] lt by auto
  have less: "t < ?d" "ba < ?d" using wf_live_less [OF assms(1)] assms(3,4) by auto
  then have live: "objs m1 t = Some (OBStr s0)" "objs m1 ba = Some (OBuf buf)"
    using grown_agree [OF m1(2), of "{t, ba}"] assms(3,4) by (auto simp: agree_def)
  have ne: "t \<noteq> ba" "t \<noteq> ?d" "ba \<noteq> ?d" "t \<noteq> NULL"
    using live less wf_live_not_null [OF assms(1), of t] assms(4) by auto
  obtain j where j: "overwrite (overwrite bs 0 ?s) (nat v) [NUL] = ?s @ NUL # j"
    using copied_string [of ?s bs] m1(4) ls by auto
  let ?m2 = "m1\<lparr>objs := (objs m1)(t \<mapsto> ?t)\<rparr>"
  let ?m' = "?m2\<lparr>objs := (objs ?m2)(?d \<mapsto> OBuf (?s @ NUL # j))\<rparr>"
  have g2: "grown m ?m2 {t} [?d]"
    using less live ne by (intro grown_upd grown_mono [OF m1(2)]) (use grown_brk [OF m1(2)] in auto)
  have "length (?s @ NUL # j) \<le> PTRDIFF_MAX"
    using m1(4,5) ls unfolding j [symmetric] by simp
  then have g3: "grown m ?m' {t} [?d]"
    using m1(2,3) ne brk_not_null [OF assms(1)]
    by (intro grown_upd [OF g2]) (auto dest: grown_new)
  have cp: "memcpy (CP ?d 0) (CP ba i) (nat v) ?m2 = Inr ((), ?m2\<lparr>objs := (objs ?m2)(?d \<mapsto> OBuf (overwrite bs 0 ?s))\<rparr>)"
    using live ne m1(3,4) assms(7) ls by (simp add: memcpy_def run_simps)
  have "bnd (malloc_buf (size_t (v + 1))) (\<lambda>tmp_b. bnd (b_string_set t tmp_b) (\<lambda>_.
      bnd (b_string_set_head t tmp_b) (\<lambda>_. bnd (b_string_set_length t (word_of_int v)) (\<lambda>_.
      bnd (b_string_get t) (\<lambda>tmp_b. bnd (memcpy tmp_b (CP ba i) (size_t v)) (\<lambda>_.
      bnd (ptr_move tmp_b v) (\<lambda>e. bnd (st_byte e NUL) g))))))) m = g () ?m'"
    using m1(1,4) live ls cp assms(5) j
    by (simp add: run_simps set_string_run sz ptr_move_def ptr_add_def st_byte_def)
  moreover have "word_of_int v = (word_of_nat (nat v) :: u32)" using assms(5) by simp
  ultimately show ?thesis using g3 m1(6) ne by (intro exI [of _ ?m'] exI [of _ j]) simp
qed

lemma if_run: "(if b then f else g) m = (if b then f m else g m)"
  by simp

lemma b_string_parse_refines:
  assumes "wf_mem m" "no_oom m" "objs m ba = Some (OBuf buf)" "objs m t = Some (OBStr s0)"
  shows "case sp_string buf (errno m) p of
      Inl e \<Rightarrow> b_string_parse (CP ba p) t m = Inl e
    | Inr (en, None) \<Rightarrow> b_string_parse (CP ba p) t m = Inr (CNull, m\<lparr>errno := en\<rparr>)
    | Inr (en, Some (s, q)) \<Rightarrow> \<exists>m' j. b_string_parse (CP ba p) t m = Inr (CP ba q, m')
        \<and> errno m' = en \<and> grown m m' {t} [brk m]
        \<and> objs m' t = Some (OBStr (s0\<lparr>bs_data := CP (brk m) 0, bs_head := CP (brk m) 0, bs_len := word_of_nat (length s)\<rparr>))
        \<and> objs m' (brk m) = Some (OBuf (s @ NUL # j))"
proof -
  have t: "t \<noteq> NULL" using wf_live_not_null [OF assms(1), of t] assms(4) by auto
  show ?thesis
  proof (cases "strchr_scan CHR '':'' (drop p buf)")
    case (Inl e)
    then show ?thesis using t assms(3) by (simp add: sp_string_def b_string_parse_def bnd_def strchr_run)
  next
    case (Inr r)
    show ?thesis
    proof (cases r)
      case None
      then show ?thesis using t assms(3) Inr by (simp add: sp_string_def b_string_parse_def bnd_def strchr_run)
    next
      case (Some k)
      then have k: "strchr_scan CHR '':'' (drop p buf) = Inr (Some k)" using Inr by simp
      have pk: "p + k < length buf" using strchr_scan_Some [OF k] by auto
      let ?tmp = "zero_padded (take (min k INTEGER_LEN) (drop p buf)) (INTEGER_LEN + 1)"
      have n: "(if int k < int INTEGER_LEN then nat (int k) else INTEGER_LEN) = min k INTEGER_LEN" by auto
      show ?thesis
      proof (cases "strtol_scan ?tmp")
        case (Inl e)
        then show ?thesis using t assms(3) k pk n
          by (simp add: sp_string_def b_string_parse_def run_simps strchr_run ptr_diff_def strtol_run bnd_def)
      next
        case (Inr res)
        then obtain v rng l where st: "strtol_scan ?tmp = Inr ((v, rng), l)" by (cases res) auto
        have v: "LONG_MIN \<le> v" "v \<le> LONG_MAX" using strtol_clamped [OF st] by auto
        define en where "en = (if rng then ERANGE else errno m)"
        let ?m = "m\<lparr>errno := en\<rparr>" and ?i = "Suc (p + k)"
        let ?bad = "(en = ERANGE \<and> (v = LONG_MAX \<or> v = LONG_MIN)) \<or> (en \<noteq> 0 \<and> v = 0)"
        have run: "b_string_parse (CP ba p) t m =
          (if ?bad then Inr (CNull, ?m)
           else bnd (malloc_buf (size_t (v + 1))) (\<lambda>tmp_b. bnd (b_string_set t tmp_b) (\<lambda>_.
             bnd (b_string_set_head t tmp_b) (\<lambda>_. bnd (b_string_set_length t (word_of_int v)) (\<lambda>_.
             bnd (b_string_get t) (\<lambda>tmp_b. bnd (memcpy tmp_b (CP ba (Suc (p + k))) (size_t v)) (\<lambda>_.
             bnd (ptr_move tmp_b v) (\<lambda>e. bnd (st_byte e NUL) (\<lambda>_. ptr_move (CP ba (p + k)) (v + 1))))))))) ?m)"
          using t assms(3) k pk n st
          by (simp del: of_nat_less_iff split del: if_split cong: if_cong add: en_def [symmetric] if_run b_string_parse_def run_simps strchr_run ptr_diff_def strtol_run get_errno_def ptr_add_def)
        consider (reject) "?bad"
          | (oob) "\<not> ?bad"
              "v < 0 \<or> length buf < ?i + nat v"
          | (ok) "\<not> ?bad"
              "0 \<le> v" "?i + nat v \<le> length buf" by linarith
        then show ?thesis
        proof cases
          case reject
          have "sp_string buf (errno m) p = Inr (en, None)"
            using k st reject by (simp add: sp_string_def Let_def flip: en_def)
          then show ?thesis using run reject by simp
        next
          case oob
          have sz: "length buf < ?i + size_t v \<and> 0 < size_t v"
          proof (cases "v < 0")
            case True
            then show ?thesis using size_t_neg [OF True v(1)] assms(1,3) by (fastforce simp: wf_mem_def)
          next
            case False
            then show ?thesis using oob(2) size_t_nonneg [of v] v(2) pk by auto
          qed
          have "sp_string buf (errno m) p = Inl OutOfBounds"
            using k st oob by (simp add: sp_string_def Let_def flip: en_def)
          moreover have "b_string_parse (CP ba p) t m = Inl OutOfBounds"
            using oob(1) copy_oob [of ?m ba buf t s0 ?i v] sz assms by (simp add: run)
          ultimately show ?thesis by simp
        next
          case ok
          have "sp_string buf (errno m) p = Inr (en, Some (take (nat v) (drop ?i buf), ?i + nat v))"
            using k st ok by (simp add: sp_string_def Let_def flip: en_def)
          moreover have "ptr_move (CP ba (p + k)) (v + 1) m' = Inr (CP ba (?i + nat v), m')" for m'
            using ok(2) by (simp add: ptr_move_def ptr_add_def nat_add_distrib)
          moreover obtain m' j where m': "b_string_parse (CP ba p) t m = ptr_move (CP ba (p + k)) (v + 1) m'"
            "errno m' = en" "grown m m' {t} [brk m]"
            "objs m' t = Some (OBStr (s0\<lparr>bs_data := CP (brk m) 0, bs_head := CP (brk m) 0, bs_len := word_of_nat (nat v)\<rparr>))"
            "objs m' (brk m) = Some (OBuf (take (nat v) (drop ?i buf) @ NUL # j))"
            unfolding run using ok assms v(2)
              copy_ok [of ?m ba buf t s0 v ?i "\<lambda>_. ptr_move (CP ba (p + k)) (v + 1)"] by auto
          moreover have "length (take (nat v) (drop ?i buf)) = nat v" using ok(3) by simp
          ultimately show ?thesis by (simp del: length_take)
        qed
      qed
    qed
  qed
qed

lemma uint_not_long_limit: "uint (w :: u32) \<noteq> LONG_MAX" "uint w \<noteq> LONG_MIN"
proof -
  have "uint w < 4294967296" "LONG_MIN < 0" "4294967296 < LONG_MAX"
    using uint_lt2p [of w] by (simp_all add: LONG_MIN_def LONG_MAX_def)
  then show "uint w \<noteq> LONG_MAX" "uint w \<noteq> LONG_MIN" using uint_ge_0 [of w] by linarith+
qed

lemma b_int_parse_refines:
  assumes "wf_mem m" "objs m ba = Some (OBuf buf)" "objs m t = Some (OBInt i0)"
  shows "case sp_int buf (errno m) p of
      Inl e \<Rightarrow> b_int_parse (CP ba p) t m = Inl e
    | Inr (en, None) \<Rightarrow> \<exists>m' w. b_int_parse (CP ba p) t m = Inr (CNull, m') \<and> errno m' = en
        \<and> grown m m' {t} [] \<and> objs m' t = Some (OBInt (i0\<lparr>bi_val := w\<rparr>))
    | Inr (en, Some (w, q)) \<Rightarrow> \<exists>m'. b_int_parse (CP ba p) t m = Inr (CP ba q, m') \<and> errno m' = en
        \<and> grown m m' {t} [] \<and> objs m' t = Some (OBInt (i0\<lparr>bi_val := w\<rparr>))"
proof -
  have t: "t \<noteq> NULL" "t < brk m" using wf_live_not_null [OF assms(1), of t] wf_live_less [OF assms(1), of t] assms(3) by auto
  have same: "\<exists>w. objs m t = Some (OBInt (i0\<lparr>bi_val := w\<rparr>))" using assms(3) by (metis b_int.surjective b_int.update_convs(2))
  show ?thesis
  proof (cases "strchr_scan CHR ''e'' (drop p buf)")
    case (Inl e)
    then show ?thesis using t assms(2) by (simp add: sp_int_def b_int_parse_def bnd_def strchr_run)
  next
    case (Inr r)
    show ?thesis
    proof (cases r)
      case None
      then show ?thesis using t assms(2) Inr same grown_refl [OF assms(1)]
        by (auto simp add: sp_int_def b_int_parse_def bnd_def strchr_run)
    next
      case (Some k)
      then have k: "strchr_scan CHR ''e'' (drop p buf) = Inr (Some k)" using Inr by simp
      have pk: "p + k < length buf" using strchr_scan_Some [OF k] by auto
      let ?len = "unat (word_of_nat k :: u32)"
      have len: "?len \<le> k" by (simp add: unsigned_of_nat)
      let ?tmp = "zero_padded (take (min ?len INTEGER_LEN) (drop (p + 1) buf)) INTEGER_LEN"
      have n: "(if ?len < INTEGER_LEN then ?len else INTEGER_LEN) = min ?len INTEGER_LEN" by auto
      have rd: "p + 1 + min ?len INTEGER_LEN \<le> length buf" using len pk by linarith
      show ?thesis
      proof (cases "strtol_scan ?tmp")
        case (Inl e)
        then show ?thesis using t assms(2) k rd n
          by (simp split del: if_split cong: if_cong add: sp_int_def b_int_parse_def run_simps strchr_run ptr_diff_def ptr_add_def strtol_run bnd_def Let_def)
      next
        case (Inr res)
        then obtain v rng l where st: "strtol_scan ?tmp = Inr ((v, rng), l)" by (cases res) auto
        define en where "en = (if rng then ERANGE else errno m)"
        let ?w = "word_of_int v :: u32"
        let ?m = "m\<lparr>errno := en, objs := (objs m)(t \<mapsto> OBInt (i0\<lparr>bi_val := ?w\<rparr>))\<rparr>"
        have g: "grown m ?m {t} []"
          using grown_upd [of m "m\<lparr>errno := en\<rparr>" "{t}" "[]" t "OBInt (i0\<lparr>bi_val := ?w\<rparr>)"] grown_errno [OF grown_refl [OF assms(1)]] t assms(3)
          by simp
        note big = uint_not_long_limit [of ?w]
        have "b_int_parse (CP ba p) t m = Inr (if en \<noteq> 0 \<and> ?w = 0 then CNull else CP ba (p + k + 1), ?m)"
          using t assms(2,3) k rd n st big
          by (simp split del: if_split cong: if_cong
              add: en_def [symmetric] if_run b_int_parse_def run_simps strchr_run ptr_diff_def ptr_add_def
                strtol_run get_errno_def b_int_set_def Let_def) (simp add: if_distrib)
        then show ?thesis using k st g by (auto simp add: sp_int_def Let_def simp flip: en_def)
      qed
    qed
  qed
qed

end
