(* ===== verification/B_Sim.thy ===== *)
theory B_Sim
  imports B_Refine
begin

text \<open>
  The recursive part of the refinement between \<^verbatim>\<open>src/b_parse.c\<close> and the abstract parser: adding
  an element to a list or dictionary, the loops of \<open>b_list_parse\<close> and \<open>b_dict_parse\<close>, and the
  consequences for whole buffers. The loops of the two parsers treat the four kinds of element
  alike; \<open>new_elem\<close> and \<open>free_elem\<close> name the common shape of their \<open>switch\<close> statements.
\<close>

section \<open>Freeing with the bound taken from the memory\<close>

definition tag_of :: "byte \<Rightarrow> byte" where
  "tag_of c = (if c \<in> {CHR ''l'', CHR ''i'', CHR ''d''} then c else CHR ''s'')"

definition free_elem :: "byte \<Rightarrow> addr \<Rightarrow> unit crun" where
  "free_elem c a = (if c = CHR ''l'' then b_list_free a else if c = CHR ''i'' then b_int_free a
     else if c = CHR ''d'' then b_dict_free a else b_string_free a)"

lemma free_elem_by_tag: "free_elem c a m = free_by_tag (free_fuel m) (tag_of c) a m"
  by (simp add: free_elem_def free_by_tag_def tag_of_def b_list_free_def b_dict_free_def)

lemma addrs_bound:
  assumes "wf_mem m" "holds m pv t" "distinct (addrs t)"
  shows "3 * length (addrs t) < free_fuel m"
proof -
  have "set (addrs t) \<subseteq> {..<brk m}" using wf_live_less [OF assms(1)] holds_live [OF assms(2)] by auto
  then have "card (set (addrs t)) \<le> card {..<brk m}" by (intro card_mono) auto
  then show ?thesis using distinct_card [OF assms(3)] by (simp add: free_fuel_def)
qed

lemma free_graph:
  assumes "wf_mem m" "holds m pv t" "distinct (addrs t)" "tag_of c = tag t"
  shows "free_elem c (root t) m = Inr ((), release_all (addrs t) m)"
  using frees_all_graphs [OF assms(2,3)] assms addrs_bound [OF assms(1-3)]
  unfolding frees_def free_elem_by_tag by auto

section \<open>Adding an element\<close>

lemma set_back_pointer_holds:
  assumes "holds m pv t" "distinct (addrs t)"
  shows "\<exists>x. set_back_pointer (tag t) (root t) e m = Inr (True, m\<lparr>objs := (objs m)(root t \<mapsto> x)\<rparr>)
    \<and> holds (m\<lparr>objs := (objs m)(root t \<mapsto> x)\<rparr>) e t \<and> (\<forall>bs. x \<noteq> OBuf bs)"
proof (cases t)
  case (TStr a d s)
  then show ?thesis using assms by (auto simp: set_back_pointer_def run_simps)
next
  case (TInt a w)
  then show ?thesis using assms by (auto simp: set_back_pointer_def run_simps)
next
  case (TList a es)
  let ?m = "m\<lparr>objs := (objs m)(a \<mapsto> OBList \<lparr>bl_prev = e\<rparr>)\<rparr>"
  have "holds ?m x u = holds m x u" "x \<noteq> a" if "(x, u) \<in> set es" for x u
  proof -
    have "a \<notin> set (x # addrs u)" using assms(2) that TList by auto
    then show "holds ?m x u = holds m x u" "x \<noteq> a" by (auto intro!: holds_frame simp: agree_def)
  qed
  then have "holds ?m e (TList a es)" using assms(1) TList by (fastforce simp: list_all_iff)
  then show ?thesis using assms(1) TList by (auto simp: set_back_pointer_def run_simps)
next
  case (TDict a es)
  let ?m = "m\<lparr>objs := (objs m)(a \<mapsto> OBDict \<lparr>bd_prev = e\<rparr>)\<rparr>"
  have "holds ?m x u = holds m x u" "x \<noteq> a" if "(x, k, u) \<in> set es" for x k u
  proof -
    have "a \<notin> set (x # addrs u)" using assms(2) that TDict by auto
    then show "holds ?m x u = holds m x u" "x \<noteq> a" by (auto intro!: holds_frame simp: agree_def)
  qed
  then have "holds ?m e (TDict a es)" using assms(1) TDict by (fastforce simp: list_all_iff)
  then show ?thesis using assms(1) TDict by (auto simp: set_back_pointer_def run_simps)
qed

lemma distinct_heads:
  "distinct (concat (map (\<lambda>z. h z # g z) zs)) \<Longrightarrow> z \<in> set zs \<Longrightarrow> set (g z) \<inter> h ` set zs = {}"
  by (induction zs) force+

text \<open>What \<open>b_list_add\<close> and \<open>b_dict_add\<close> do once the new entry \<open>e\<close> is allocated and filled.\<close>

lemma link_entry:
  assumes w: "wf_mem m" and g: "grown m m1 {} [brk m]" and e: "objs m1 (brk m) = Some y" "links m1 (brk m) \<noteq> None"
    and t: "holds m q t" "distinct (addrs t)" and l: "dll (links m) a xs" "set (addrs t) \<inter> set (a # xs) = {}"
  shows "\<exists>m'. bnd (set_back_pointer (tag t) (root t) (brk m)) (\<lambda>known.
      if known then on_links (list_add_tail (brk m) a) else ret ()) m1 = Inr ((), m')
    \<and> grown m m' (set (root t # a # xs)) [brk m] \<and> errno m' = errno m1
    \<and> holds m' (brk m) t \<and> dll (links m') a (xs @ [brk m])
    \<and> (\<forall>b. b \<noteq> root t \<longrightarrow> objs m' b = objs m1 b)"
proof -
  let ?e = "brk m"
  have less: "b < ?e" if "b \<in> set (addrs t) \<union> set (a # xs)" for b
    using that wf_live_less [OF w] holds_live [OF t(1)] dll_dom [OF l(1)] w unfolding wf_mem_def
    by (metis Un_iff leI)
  have ag: "agree (set (addrs t) \<union> set (a # xs)) m m1"
    using less by (intro grown_agree [OF g]) auto
  have "holds m1 q t" using holds_frame [of t m m1] ag t(1) agree_sub by blast
  then obtain x where x: "set_back_pointer (tag t) (root t) ?e m1 = Inr (True, m1\<lparr>objs := (objs m1)(root t \<mapsto> x)\<rparr>)"
      "holds (m1\<lparr>objs := (objs m1)(root t \<mapsto> x)\<rparr>) ?e t" "\<forall>bs. x \<noteq> OBuf bs"
    using set_back_pointer_holds [OF _ t(2)] by blast
  have live: "objs m1 (root t) \<noteq> None" using holds_live [OF \<open>holds m1 q t\<close> root_addrs] .
  let ?m2 = "m1\<lparr>objs := (objs m1)(root t \<mapsto> x)\<rparr>"
  have "dll (links m1) a xs"
    using dll_frame [of a xs "links m1" "links m"] ag l(1) by (auto simp: agree_def)
  moreover have "?e \<notin> set (a # xs)" using less by (metis UnI2 less_irrefl)
  ultimately obtain h where h: "list_add_tail ?e a (links m1) = Some h" "dll h a (xs @ [?e])"
      "keeps (set (a # ?e # xs)) (links m1) h"
    using list_add_tail_dll e(2) by blast
  have "root t < brk m1" "root t \<noteq> NULL"
    using wf_live_less [OF grown_wf [OF g] live] wf_live_not_null [OF grown_wf [OF g] live] by auto
  then have "grown m ?m2 (set (root t # a # xs)) [?e]"
    using x(3) live by (intro grown_upd grown_mono [OF g]) auto
  then have gr: "grown m (?m2\<lparr>links := h\<rparr>) (set (root t # a # xs)) [?e]"
    using h(3) by (intro grown_links) auto
  have "agree (set (addrs t)) ?m2 (?m2\<lparr>links := h\<rparr>)"
    unfolding agree_def
  proof
    fix b assume "b \<in> set (addrs t)"
    then have "b \<notin> set (a # ?e # xs)" using l(2) less [of b] by auto
    then show "objs (?m2\<lparr>links := h\<rparr>) b = objs ?m2 b \<and> links (?m2\<lparr>links := h\<rparr>) b = links ?m2 b"
      using keepsD [OF h(3)] by simp
  qed
  then have "holds (?m2\<lparr>links := h\<rparr>) ?e t" using holds_frame x(2) by blast
  then show ?thesis using x(1) h gr by (simp add: run_simps)
qed

lemma l_entry_alloc_grown:
  assumes "wf_mem m" "no_oom m"
  shows "\<exists>m1. bnd (l_entry_alloc ty) (\<lambda>ptr. if ptr \<noteq> NULL then
        bnd (upd_lent ptr (\<lambda>e. e\<lparr>le_entry := a\<rparr>)) (\<lambda>_. f ptr) else f' ptr) m = f (brk m) m1
    \<and> grown m m1 {} [brk m] \<and> objs m1 (brk m) = Some (OLEnt \<lparr>le_entry = a, le_type = ty\<rparr>)
    \<and> links m1 (brk m) \<noteq> None \<and> errno m1 = errno m"
proof -
  obtain m1 where m1: "l_entry_alloc ty m = Inr (brk m, m1)" "grown m m1 {} [brk m]"
      "objs m1 (brk m) = Some (OLEnt \<lparr>le_entry = NULL, le_type = ty\<rparr>)" "dll (links m1) (brk m) []" "errno m1 = errno m"
    using node_init_grown [OF assms, of "OLEnt \<lparr>le_entry = NULL, le_type = ty\<rparr>"] by (auto simp: l_entry_alloc_def)
  let ?m2 = "m1\<lparr>objs := (objs m1)(brk m \<mapsto> OLEnt \<lparr>le_entry = a, le_type = ty\<rparr>)\<rparr>"
  have "grown m ?m2 {} [brk m]"
    using m1(3) grown_new [OF m1(2)] brk_not_null [OF assms(1)] by (intro grown_upd [OF m1(2)]) auto
  moreover have "links m1 (brk m) \<noteq> None" using dll_dom [OF m1(4)] by simp
  ultimately show ?thesis
    using m1 brk_not_null [OF assms(1)] by (intro exI [of _ ?m2]) (simp add: run_simps)
qed

lemma b_list_add_grown:
  assumes w: "wf_mem m" "no_oom m" and c: "holds m pv (TList a es)" "distinct (addrs (TList a es))"
    and t: "holds m q t" "distinct (addrs t)" and d: "set (addrs t) \<inter> set (addrs (TList a es)) = {}"
  shows "\<exists>m'. b_list_add (root t) a (tag t) m = Inr ((), m') \<and> errno m' = errno m
    \<and> grown m m' (set (addrs (TList a es)) \<union> {root t}) [brk m] \<and> holds m' pv (TList a (es @ [(brk m, t)]))"
proof -
  let ?e = "brk m" and ?xs = "map fst es"
  obtain m1 where m1: "b_list_add (root t) a (tag t) m = bnd (set_back_pointer (tag t) (root t) ?e) (\<lambda>known.
        if known then on_links (list_add_tail ?e a) else ret ()) m1"
      "grown m m1 {} [?e]" "objs m1 ?e = Some (OLEnt \<lparr>le_entry = root t, le_type = tag t\<rparr>)"
      "links m1 ?e \<noteq> None" "errno m1 = errno m"
    unfolding b_list_add_def
    using l_entry_alloc_grown [OF w, of "tag t" "root t" "\<lambda>ptr. bnd (set_back_pointer (tag t) (root t) ptr)
      (\<lambda>known. if known then on_links (list_add_tail ptr a) else ret ())" "\<lambda>_. ret ()"] by blast
  have sub: "set (a # ?xs) \<subseteq> set (addrs (TList a es))" by force
  then have disj: "set (addrs t) \<inter> set (a # ?xs) = {}" using d by blast
  have dl: "dll (links m) a ?xs" using c(1) by simp
  obtain m' where m': "b_list_add (root t) a (tag t) m = Inr ((), m')"
      "grown m m' (set (root t # a # ?xs)) [?e]" "errno m' = errno m1" "holds m' ?e t"
      "dll (links m') a (?xs @ [?e])" "\<forall>b. b \<noteq> root t \<longrightarrow> objs m' b = objs m1 b"
    unfolding m1(1) using link_entry [OF w(1) m1(2-4) t dl disj] by blast
  have old: "objs m' b = objs m b" if "b \<in> set (addrs (TList a es))" for b
  proof -
    have "b < ?e" using wf_live_less [OF w(1) holds_live [OF c(1) that]] .
    moreover have "b \<noteq> root t" using d root_addrs [of t] that by blast
    ultimately show ?thesis using m'(6) grown_agree [OF m1(2), of "{b}"] by (auto simp: agree_def)
  qed
  have "holds m' x u" if xu: "(x, u) \<in> set es" for x u
  proof -
    have in_es: "set (addrs u) \<subseteq> set (addrs (TList a es))" using xu by auto
    have "set (addrs u) \<inter> set (root t # a # ?xs) = {}"
      using distinct_heads [of fst "\<lambda>z. addrs (snd z)" es "(x, u)"] c(2) xu d root_addrs [of t] in_es
      by (auto simp: split_def)
    moreover have "set (addrs u) \<subseteq> {b. b < brk m}"
      using wf_live_less [OF w(1) holds_live [OF c(1)]] in_es by blast
    ultimately have "agree (set (addrs u)) m m'" by (intro grown_agree [OF m'(2)])
    then show ?thesis using holds_frame [of u m m' x] c(1) xu by (auto simp: list_all_iff)
  qed
  moreover have "objs m' x = Some (OLEnt \<lparr>le_entry = root u, le_type = tag u\<rparr>)" if xu: "(x, u) \<in> set es" for x u
  proof -
    have "x \<in> set (addrs (TList a es))" using xu by force
    then show ?thesis using old [of x] c(1) xu by (auto simp: list_all_iff)
  qed
  moreover have "?e \<noteq> root t" using wf_live_less [OF w(1) holds_live [OF t(1) root_addrs]] by auto
  moreover have "objs m' a = Some (OBList \<lparr>bl_prev = pv\<rparr>)" using old [of a] c(1) by simp
  ultimately have "holds m' pv (TList a (es @ [(?e, t)]))"
    using m'(4,5,6) m1(3) by (simp add: list_all_iff split_beta)
  moreover have "grown m m' (set (addrs (TList a es)) \<union> {root t}) [?e]"
    using sub by (intro grown_mono [OF m'(2)]) auto
  ultimately show ?thesis using m' m1(5) by auto
qed

lemma key_copied: "strncpy_bytes (s @ NUL # j) KEY_LEN = key_field s"
  by (simp add: key_field_def strncpy_bytes_def cstr_def takeWhile_tail Let_def)

lemma d_entry_alloc_grown:
  assumes w: "wf_mem m" "no_oom m" and key: "objs m kd = Some (OBuf (s @ NUL # j))"
  shows "\<exists>m1. bnd (d_entry_alloc (CP kd 0) ty) (\<lambda>ptr. if ptr \<noteq> NULL then
        bnd (upd_dent ptr (\<lambda>e. e\<lparr>de_val := a\<rparr>)) (\<lambda>_. f ptr) else f' ptr) m = f (brk m) m1
    \<and> grown m m1 {} [brk m] \<and> objs m1 (brk m) = Some (ODEnt \<lparr>de_key = key_field s, de_val = a, de_type = ty\<rparr>)
    \<and> links m1 (brk m) \<noteq> None \<and> errno m1 = errno m"
proof -
  let ?e = "brk m" and ?y = "ODEnt \<lparr>de_key = replicate KEY_LEN NUL, de_val = NULL, de_type = ty\<rparr>"
  let ?z = "ODEnt \<lparr>de_key = key_field s, de_val = a, de_type = ty\<rparr>"
  obtain m0 where m0: "malloc_node ?y m = Inr (?e, m0)" "grown m m0 {} [?e]" "objs m0 ?e = Some ?y"
      "links m0 ?e \<noteq> None" "errno m0 = errno m"
    using malloc_node_grown [OF w, of ?y] by auto
  obtain h where h: "INIT_LIST_HEAD ?e (links m0) = Some h" "dll h ?e []" "keeps {?e} (links m0) h"
    using INIT_LIST_HEAD_dll m0(4) by blast
  have g: "grown m (m0\<lparr>links := h\<rparr>) {} [?e]" using grown_links [OF m0(2) h(3)] by simp
  have live: "h ?e \<noteq> None" using dll_dom [OF h(2)] by simp
  let ?m1 = "m0\<lparr>links := h\<rparr>" let ?m2 = "?m1\<lparr>objs := (objs ?m1)(?e \<mapsto> ?z)\<rparr>"
  have "kd < ?e" using wf_live_less [OF w(1)] key by auto
  then have "objs m0 kd = Some (OBuf (s @ NUL # j))"
    using grown_agree [OF g, of "{kd}"] key by (simp add: agree_def)
  moreover have "grown m ?m2 {} [?e]"
    using m0(3) grown_new [OF m0(2)] brk_not_null [OF w(1)] by (intro grown_upd [OF g]) auto
  ultimately show ?thesis
    using m0 h live brk_not_null [OF w(1)] key_copied [of s j]
    by (intro exI [of _ ?m2]) (simp add: d_entry_alloc_def strncpy_src_def run_simps)
qed

lemma b_dict_add_grown:
  assumes w: "wf_mem m" "no_oom m" and c: "holds m pv (TDict a es)" "distinct (addrs (TDict a es))"
    and t: "holds m q t" "distinct (addrs t)" and d: "set (addrs t) \<inter> set (addrs (TDict a es)) = {}"
    and key: "objs m kd = Some (OBuf (s @ NUL # j))"
  shows "\<exists>m'. b_dict_add (root t) (CP kd 0) a (tag t) m = Inr ((), m') \<and> errno m' = errno m
    \<and> grown m m' (set (addrs (TDict a es)) \<union> {root t}) [brk m] \<and> holds m' pv (TDict a (es @ [(brk m, key_field s, t)]))"
proof -
  let ?e = "brk m" and ?xs = "map fst es"
  obtain m1 where m1: "b_dict_add (root t) (CP kd 0) a (tag t) m = bnd (set_back_pointer (tag t) (root t) ?e) (\<lambda>known.
        if known then on_links (list_add_tail ?e a) else ret ()) m1"
      "grown m m1 {} [?e]" "objs m1 ?e = Some (ODEnt \<lparr>de_key = key_field s, de_val = root t, de_type = tag t\<rparr>)"
      "links m1 ?e \<noteq> None" "errno m1 = errno m"
    unfolding b_dict_add_def
    using d_entry_alloc_grown [OF w key, of "tag t" "root t" "\<lambda>ptr. bnd (set_back_pointer (tag t) (root t) ptr)
      (\<lambda>known. if known then on_links (list_add_tail ptr a) else ret ())" "\<lambda>_. ret ()"] by blast
  have sub: "set (a # ?xs) \<subseteq> set (addrs (TDict a es))" by force
  then have disj: "set (addrs t) \<inter> set (a # ?xs) = {}" using d by blast
  have dl: "dll (links m) a ?xs" using c(1) by simp
  obtain m' where m': "b_dict_add (root t) (CP kd 0) a (tag t) m = Inr ((), m')"
      "grown m m' (set (root t # a # ?xs)) [?e]" "errno m' = errno m1" "holds m' ?e t"
      "dll (links m') a (?xs @ [?e])" "\<forall>b. b \<noteq> root t \<longrightarrow> objs m' b = objs m1 b"
    unfolding m1(1) using link_entry [OF w(1) m1(2-4) t dl disj] by blast
  have old: "objs m' b = objs m b" if "b \<in> set (addrs (TDict a es))" for b
  proof -
    have "b < ?e" using wf_live_less [OF w(1) holds_live [OF c(1) that]] .
    moreover have "b \<noteq> root t" using d root_addrs [of t] that by blast
    ultimately show ?thesis using m'(6) grown_agree [OF m1(2), of "{b}"] by (auto simp: agree_def)
  qed
  have "holds m' x u" if xu: "(x, k, u) \<in> set es" for x k u
  proof -
    have in_es: "set (addrs u) \<subseteq> set (addrs (TDict a es))" using xu by auto
    have "set (addrs u) \<inter> set (root t # a # ?xs) = {}"
      using distinct_heads [of fst "\<lambda>z. addrs (snd (snd z))" es "(x, k, u)"] c(2) xu d root_addrs [of t] in_es
      by (auto simp: split_def)
    moreover have "set (addrs u) \<subseteq> {b. b < brk m}"
      using wf_live_less [OF w(1) holds_live [OF c(1)]] in_es by blast
    ultimately have "agree (set (addrs u)) m m'" by (intro grown_agree [OF m'(2)])
    then show ?thesis using holds_frame [of u m m' x] c(1) xu by (auto simp: list_all_iff)
  qed
  moreover have "objs m' x = Some (ODEnt \<lparr>de_key = k, de_val = root u, de_type = tag u\<rparr>)" if xu: "(x, k, u) \<in> set es" for x k u
  proof -
    have "x \<in> set (addrs (TDict a es))" using xu by force
    then show ?thesis using old [of x] c(1) xu by (auto simp: list_all_iff)
  qed
  moreover have "?e \<noteq> root t" using wf_live_less [OF w(1) holds_live [OF t(1) root_addrs]] by auto
  moreover have "objs m' a = Some (OBDict \<lparr>bd_prev = pv\<rparr>)" using old [of a] c(1) by simp
  ultimately have "holds m' pv (TDict a (es @ [(?e, key_field s, t)]))"
    using m'(4,5,6) m1(3) by (auto simp add: list_all_iff)
  moreover have "grown m m' (set (addrs (TDict a es)) \<union> {root t}) [?e]"
    using sub by (intro grown_mono [OF m'(2)]) auto
  ultimately show ?thesis using m' m1(5) by auto
qed


section \<open>The common shape of the two loops\<close>

text \<open>Allocation by the first byte of the element, then parsing; \<open>NULL\<close> if the allocation fails.\<close>

definition parse_into :: "addr crun \<Rightarrow> (cptr \<Rightarrow> addr \<Rightarrow> cptr crun) \<Rightarrow> cptr \<Rightarrow> (addr \<times> cptr) crun" where
  "parse_into alloc parse ptr = bnd alloc (\<lambda>a. if a \<noteq> NULL then bnd (parse ptr a) (\<lambda>q. ret (a, q)) else ret (NULL, ptr))"

definition new_elem :: "nat \<Rightarrow> byte \<Rightarrow> cptr \<Rightarrow> (addr \<times> cptr) crun" where
  "new_elem f c ptr =
     (if c = CHR ''l'' then parse_into b_list_alloc (b_list_parse f) ptr
      else if c = CHR ''i'' then parse_into b_int_alloc b_int_parse ptr
      else if c = CHR ''d'' then parse_into b_dict_alloc (b_dict_parse f) ptr
      else parse_into b_string_alloc b_string_parse ptr)"

lemma parse_into_then:
  "bnd (parse_into alloc parse ptr) (\<lambda>(a, q). if a \<noteq> NULL then (if q \<noteq> CNull then ok a q else fail a) else skip)
   = bnd alloc (\<lambda>a. if a \<noteq> NULL then bnd (parse ptr a) (\<lambda>q. if q \<noteq> CNull then ok a q else fail a) else skip)"
  by (simp add: parse_into_def bnd_assoc bnd_if cong: if_cong del: neq0_conv)

lemma elem_switch:
  "bnd (new_elem f c ptr) (\<lambda>(a, q). if a \<noteq> NULL then (if q \<noteq> CNull then ok a q else fail a) else skip)
   = (if c = CHR ''l'' then bnd b_list_alloc (\<lambda>a. if a \<noteq> NULL then
        bnd (b_list_parse f ptr a) (\<lambda>q. if q \<noteq> CNull then ok a q else fail a) else skip)
      else if c = CHR ''i'' then bnd b_int_alloc (\<lambda>a. if a \<noteq> NULL then
        bnd (b_int_parse ptr a) (\<lambda>q. if q \<noteq> CNull then ok a q else fail a) else skip)
      else if c = CHR ''d'' then bnd b_dict_alloc (\<lambda>a. if a \<noteq> NULL then
        bnd (b_dict_parse f ptr a) (\<lambda>q. if q \<noteq> CNull then ok a q else fail a) else skip)
      else bnd b_string_alloc (\<lambda>a. if a \<noteq> NULL then
        bnd (b_string_parse ptr a) (\<lambda>q. if q \<noteq> CNull then ok a q else fail a) else skip))"
  by (simp add: new_elem_def parse_into_then del: neq0_conv)

lemma b_list_parse_loop_Suc:
  "b_list_parse_loop (Suc f) ptr r = bnd (ld_byte ptr) (\<lambda>c.
     if c = CHR ''e'' then ptr_add ptr 1
     else bnd (new_elem f c ptr) (\<lambda>(a, q). if a \<noteq> NULL then
            (if q \<noteq> CNull then bnd (b_list_add a r (tag_of c)) (\<lambda>_. b_list_parse_loop f q r)
             else bnd (free_elem c a) (\<lambda>_. ret CNull))
          else b_list_parse_loop f ptr r))"
  by (simp add: elem_switch free_elem_def tag_of_def cong: if_cong del: neq0_conv)

lemma b_dict_parse_loop_Suc:
  "b_dict_parse_loop (Suc f) ptr r = bnd (ld_byte ptr) (\<lambda>c.
     if c = CHR ''e'' then ptr_add ptr 1
     else bnd b_string_alloc (\<lambda>k. if k = NULL then ret CNull
     else bnd (b_string_parse ptr k) (\<lambda>ptr. if ptr = CNull then bnd (b_string_free k) (\<lambda>_. ret CNull)
     else bnd (ld_byte ptr) (\<lambda>c.
          bnd (new_elem f c ptr) (\<lambda>(a, q). if a \<noteq> NULL then
            (if q \<noteq> CNull then bnd (b_string_get k) (\<lambda>key. bnd (b_dict_add a key r (tag_of c)) (\<lambda>_.
               bnd (b_string_free k) (\<lambda>_. b_dict_parse_loop f q r)))
             else bnd (b_string_free k) (\<lambda>_. bnd (free_elem c a) (\<lambda>_. ret CNull)))
          else bnd (b_string_free k) (\<lambda>_. b_dict_parse_loop f ptr r))))))"
  by (simp add: elem_switch free_elem_def tag_of_def cong: if_cong del: neq0_conv)

section \<open>Simulation\<close>

definition env :: "addr \<Rightarrow> byte list \<Rightarrow> mem \<Rightarrow> bool" where
  "env ba buf m \<longleftrightarrow> wf_mem m \<and> no_oom m \<and> objs m ba = Some (OBuf buf)"

lemma env_grown: "env ba buf m \<Longrightarrow> grown m m' S N \<Longrightarrow> ba \<notin> S \<Longrightarrow> env ba buf m'"
  using grown_agree [of m m' S N "{ba}"] wf_live_less [of m ba]
  by (auto simp: env_def agree_def intro: grown_wf grown_no_oom)

text \<open>
  A container that had the entries \<open>es\<close> in memory \<open>m\<close> has the further entries \<open>es'\<close> in memory \<open>m'\<close>,
  and their objects are the only new ones.
\<close>

definition built :: "(addr \<Rightarrow> 'e list \<Rightarrow> bt) \<Rightarrow> ('e \<Rightarrow> addr list) \<Rightarrow> mem \<Rightarrow> addr \<Rightarrow> addr \<Rightarrow> 'e list \<Rightarrow> 'e list \<Rightarrow> mem \<Rightarrow> bool" where
  "built mk ent m pv r es es' m' \<longleftrightarrow> grown m m' (set (addrs (mk r es))) (concat (map ent es'))
     \<and> holds m' pv (mk r (es @ es')) \<and> distinct (addrs (mk r (es @ es')))"

definition sim where
  "sim mk ent val ba m pv r es spec x \<longleftrightarrow> (case spec of
      Inl e \<Rightarrow> x = Inl e
    | Inr (en, None) \<Rightarrow> \<exists>m' es'. x = Inr (CNull, m') \<and> errno m' = en \<and> built mk ent m pv r es es' m'
    | Inr (en, Some (vs, q)) \<Rightarrow> \<exists>m' es'. x = Inr (CP ba q, m') \<and> errno m' = en
        \<and> built mk ent m pv r es es' m' \<and> map val es' = vs)"

lemma presult_cases:
  fixes r :: "'a presult"
  obtains e where "r = Inl e" | en where "r = Inr (en, None)" | en v q where "r = Inr (en, Some (v, q))"
  by (metis obj_sumE option.exhaust surj_pair)

lemma mapr_Inl [simp]: "mapr f (Inl e) = Inl e"
  by (simp add: mapr_def)

text \<open>One element, freshly allocated: its graph, or a partial graph that \<open>free_elem\<close> removes.\<close>

definition elem_sim where
  "elem_sim ba c m spec x \<longleftrightarrow> (case spec of
      Inl e \<Rightarrow> x = Inl e
    | Inr (en, None) \<Rightarrow> \<exists>m' a F. x = Inr ((a, CNull), m') \<and> a \<noteq> NULL \<and> errno m' = en \<and> grown m m' {} F
        \<and> (\<forall>m3. agree (set F) m' m3 \<longrightarrow> wf_mem m3 \<longrightarrow> free_elem c a m3 = Inr ((), release_all F m3))
    | Inr (en, Some (v, q)) \<Rightarrow> \<exists>m' t. x = Inr ((root t, CP ba q), m') \<and> errno m' = en
        \<and> grown m m' {} (addrs t) \<and> holds m' NULL t \<and> distinct (addrs t) \<and> bval_of t = v \<and> tag t = tag_of c)"

lemma graph_free_elem:
  assumes "holds m pv t" "distinct (addrs t)" "tag t = tag_of c" "agree (set (addrs t)) m m3" "wf_mem m3"
  shows "free_elem c (root t) m3 = Inr ((), release_all (addrs t) m3)"
  using free_graph [OF assms(5), of pv t c] holds_frame [OF assms(4), of pv] assms(1-3) by simp

locale container =
  fixes mk :: "addr \<Rightarrow> 'e list \<Rightarrow> bt" and ent :: "'e \<Rightarrow> addr list" and val :: "'e \<Rightarrow> 'v"
  assumes addrs_mk: "addrs (mk r es) = r # concat (map ent es)"
begin

lemma old_less: "env ba buf m \<Longrightarrow> holds m pv (mk r es) \<Longrightarrow> a \<in> set (addrs (mk r es)) \<Longrightarrow> a < brk m"
  unfolding env_def using wf_live_less holds_live by blast

lemma distinct_snoc:
  "distinct (b # addrs (mk r es)) \<Longrightarrow> distinct (ent x) \<Longrightarrow> set (ent x) \<inter> set (b # addrs (mk r es)) = {} \<Longrightarrow>
   distinct (b # addrs (mk r (es @ [x])))"
  by (auto simp: addrs_mk)

lemma built_refl:
  assumes "env ba buf m" "holds m pv (mk r es)" "distinct (addrs (mk r es))" "grown m m' {} []"
  shows "built mk ent m pv r es [] m'"
proof -
  have "agree (set (addrs (mk r es))) m m'"
    using old_less [OF assms(1,2)] by (intro grown_agree [OF assms(4)]) auto
  then have "holds m' pv (mk r es)" using holds_frame assms(2) by blast
  then show ?thesis using assms(3) grown_mono [OF assms(4)] by (simp add: built_def)
qed

lemma built_cons:
  assumes e: "env ba buf m" "holds m pv (mk r es)" and g: "grown m m2 (set (addrs (mk r es))) N" "set N = set (ent x)"
    and b: "built mk ent m2 pv r (es @ [x]) es' m3"
  shows "built mk ent m pv r es (x # es') m3"
proof -
  have s: "set (addrs (mk r (es @ [x]))) = set (addrs (mk r es)) \<union> set N" using g(2) by (auto simp: addrs_mk)
  have "grown m m3 (set (addrs (mk r es))) (N @ concat (map ent es'))"
    using b unfolding built_def s
    by (elim conjE grown_trans [OF g(1)]) (use old_less [OF e] in force)+
  then have "grown m m3 (set (addrs (mk r es))) (concat (map ent (x # es')))"
    by (rule grown_cong) (simp add: g(2))
  then show ?thesis using b by (simp add: built_def)
qed

lemma sim_cons:
  assumes "env ba buf m" "holds m pv (mk r es)" "grown m m2 (set (addrs (mk r es))) N" "set N = set (ent x)"
    and s: "sim mk ent val ba m2 pv r (es @ [x]) spec y"
  shows "sim mk ent val ba m pv r es (mapr (\<lambda>vs. val x # vs) spec) y"
  using s built_cons [OF assms(1-4)] unfolding sim_def
  by (auto split: sum.splits option.splits simp: mapr_def; metis list.simps(9))

lemma new_sim:
  assumes e: "env ba buf m" and al: "alloc m = Inr (brk m, m1)" "grown m m1 {} [brk m]"
    and s: "sim mk ent val ba m1 NULL (brk m) [] spec (parse (CP ba p) (brk m) m1)"
    and mk: "\<And>r es. root (mk r es) = r" "\<And>r es. bval_of (mk r es) = V (map val es)" "\<And>r es. tag (mk r es) = tag_of c"
  shows "elem_sim ba c m (mapr V spec) (parse_into alloc parse (CP ba p) m)"
proof -
  let ?a = "brk m"
  have nn: "?a \<noteq> NULL" using e brk_not_null by (auto simp: env_def)
  have run: "parse_into alloc parse (CP ba p) m = bnd (parse (CP ba p) ?a) (\<lambda>q. ret (?a, q)) m1"
    using al(1) nn by (simp add: parse_into_def run_simps)
  have gr: "grown m m' {} (addrs (mk ?a es'))" if "built mk ent m1 NULL ?a [] es' m'" for m' es'
    using that grown_trans [OF al(2), of m'] by (fastforce simp: built_def addrs_mk)
  show ?thesis
  proof (cases rule: presult_cases [of spec])
    case (1 e)
    then show ?thesis using s by (simp add: elem_sim_def sim_def run bnd_def)
  next
    case (2 en)
    then obtain m' es' where m': "parse (CP ba p) ?a m1 = Inr (CNull, m')" "errno m' = en"
        "built mk ent m1 NULL ?a [] es' m'"
      using s by (auto simp: sim_def)
    have "free_elem c ?a m3 = Inr ((), release_all (addrs (mk ?a es')) m3)"
      if "agree (set (addrs (mk ?a es'))) m' m3" "wf_mem m3" for m3
      using graph_free_elem [OF _ _ _ that, of NULL c] m'(3) mk by (simp add: built_def)
    then show ?thesis using 2 m' gr [OF m'(3)] nn by (simp add: elem_sim_def run run_simps) blast
  next
    case (3 en vs q)
    then obtain m' es' where m': "parse (CP ba p) ?a m1 = Inr (CP ba q, m')" "errno m' = en"
        "built mk ent m1 NULL ?a [] es' m'" "map val es' = vs"
      using s by (auto simp: sim_def)
    then have "holds m' NULL (mk ?a es')" "distinct (addrs (mk ?a es'))" by (simp_all add: built_def)
    then show ?thesis using 3 m' gr [OF m'(3)] mk
      by (auto simp: elem_sim_def run run_simps intro!: exI [of _ "mk ?a es'"])
  qed
qed

end

interpretation list_c: container TList "\<lambda>(e, t). e # addrs t" "\<lambda>(e, t). bval_of t"
  by unfold_locales simp

interpretation dict_c: container TDict "\<lambda>(e, k, t). e # addrs t" "\<lambda>(e, k, t). (k, bval_of t)"
  by unfold_locales simp

abbreviation list_sim where
  "list_sim \<equiv> sim TList (\<lambda>(e, t). e # addrs t) (\<lambda>(e, t). bval_of t)"

abbreviation dict_sim where
  "dict_sim \<equiv> sim TDict (\<lambda>(e, k, t). e # addrs t) (\<lambda>(e, k, t). (k, bval_of t))"

definition parses_list :: "nat \<Rightarrow> addr \<Rightarrow> byte list \<Rightarrow> bool" where
  "parses_list f ba buf \<longleftrightarrow> (\<forall>m pv r es p. env ba buf m \<longrightarrow> holds m pv (TList r es) \<longrightarrow>
     distinct (ba # addrs (TList r es)) \<longrightarrow>
     list_sim ba m pv r es (sp_list f buf (errno m) p) (b_list_parse f (CP ba p) r m))"

definition parses_dict :: "nat \<Rightarrow> addr \<Rightarrow> byte list \<Rightarrow> bool" where
  "parses_dict f ba buf \<longleftrightarrow> (\<forall>m pv r es p. env ba buf m \<longrightarrow> holds m pv (TDict r es) \<longrightarrow>
     distinct (ba # addrs (TDict r es)) \<longrightarrow>
     dict_sim ba m pv r es (sp_dict f buf (errno m) p) (b_dict_parse f (CP ba p) r m))"


lemma new_string_sim:
  assumes "env ba buf m" "tag_of c = CHR ''s''"
  shows "elem_sim ba c m (mapr VStr (sp_string buf (errno m) p)) (parse_into b_string_alloc b_string_parse (CP ba p) m)"
proof -
  let ?a = "brk m" and ?s0 = "\<lparr>bs_prev = NULL, bs_data = CNull, bs_head = CNull, bs_len = 0\<rparr>"
  have w: "wf_mem m" "no_oom m" using assms(1) by (auto simp: env_def)
  obtain m1 where m1: "b_string_alloc m = Inr (?a, m1)" "grown m m1 {} [?a]" "objs m1 ?a = Some (OBStr ?s0)" "errno m1 = errno m"
    using malloc_obj_grown [OF w, of "OBStr ?s0"] by (auto simp: b_string_alloc_def)
  have nn: "?a \<noteq> NULL" by (rule brk_not_null [OF w(1)])
  have run: "parse_into b_string_alloc b_string_parse (CP ba p) m = bnd (b_string_parse (CP ba p) ?a) (\<lambda>q. ret (?a, q)) m1"
    using m1(1) nn by (simp add: parse_into_def run_simps)
  have e1: "env ba buf m1" by (rule env_grown [OF assms(1) m1(2)]) simp
  then have w1: "wf_mem m1" "no_oom m1" "objs m1 ba = Some (OBuf buf)" by (auto simp: env_def)
  note ref = b_string_parse_refines [OF w1 m1(3), of p]
  show ?thesis
  proof (cases rule: presult_cases [of "sp_string buf (errno m) p"])
    case (1 e)
    then show ?thesis using ref m1(4) by (simp add: elem_sim_def run bnd_def)
  next
    case (2 en)
    let ?m = "m1\<lparr>errno := en\<rparr>"
    have "free_elem c ?a m3 = Inr ((), release_all [?a] m3)" if "agree {?a} ?m m3" for m3
    proof -
      have "objs m3 ?a = Some (OBStr ?s0)" using that m1(3) by (simp add: agree_def)
      then show ?thesis using nn assms(2)
        by (auto simp: free_elem_def tag_of_def b_string_free_def run_simps split: if_splits)
    qed
    moreover have "grown m ?m {} [?a]" by (rule grown_errno [OF m1(2)])
    ultimately show ?thesis using 2 ref m1(4) nn
      by (simp add: elem_sim_def run run_simps) (metis empty_set list.simps(15))
  next
    case (3 en s q)
    then obtain m' j where m': "b_string_parse (CP ba p) ?a m1 = Inr (CP ba q, m')" "errno m' = en" "grown m1 m' {?a} [brk m1]"
        "objs m' ?a = Some (OBStr (?s0\<lparr>bs_data := CP (brk m1) 0, bs_head := CP (brk m1) 0, bs_len := word_of_nat (length s)\<rparr>))"
        "objs m' (brk m1) = Some (OBuf (s @ NUL # j))"
      using ref m1(4) by auto
    have "grown m m' {} ([?a] @ [brk m1])" by (rule grown_trans [OF m1(2) m'(3)]) auto
    moreover have "?a \<noteq> brk m1" using grown_new [OF m1(2), of ?a] by simp
    ultimately show ?thesis using 3 m' assms(2)
      by (auto simp: elem_sim_def run run_simps intro!: exI [of _ "TStr ?a (brk m1) s"])
  qed
qed

lemma new_int_sim:
  assumes "env ba buf m"
  shows "elem_sim ba CHR ''i'' m (mapr VInt (sp_int buf (errno m) p)) (parse_into b_int_alloc b_int_parse (CP ba p) m)"
proof -
  let ?a = "brk m" and ?i0 = "\<lparr>bi_prev = NULL, bi_val = 0\<rparr>"
  have w: "wf_mem m" "no_oom m" using assms(1) by (auto simp: env_def)
  obtain m1 where m1: "b_int_alloc m = Inr (?a, m1)" "grown m m1 {} [?a]" "objs m1 ?a = Some (OBInt ?i0)" "errno m1 = errno m"
    using malloc_obj_grown [OF w, of "OBInt ?i0"] by (auto simp: b_int_alloc_def)
  have nn: "?a \<noteq> NULL" by (rule brk_not_null [OF w(1)])
  have run: "parse_into b_int_alloc b_int_parse (CP ba p) m = bnd (b_int_parse (CP ba p) ?a) (\<lambda>q. ret (?a, q)) m1"
    using m1(1) nn by (simp add: parse_into_def run_simps)
  have e1: "env ba buf m1" by (rule env_grown [OF assms(1) m1(2)]) simp
  then have w1: "wf_mem m1" "objs m1 ba = Some (OBuf buf)" by (auto simp: env_def)
  note ref = b_int_parse_refines [OF w1 m1(3), of p]
  have gr: "grown m m' {} [?a]" if "grown m1 m' {?a} []" for m'
    using grown_trans [OF m1(2) that] by simp
  show ?thesis
  proof (cases rule: presult_cases [of "sp_int buf (errno m) p"])
    case (1 e)
    then show ?thesis using ref m1(4) by (simp add: elem_sim_def run bnd_def)
  next
    case (2 en)
    then obtain m' v where m': "b_int_parse (CP ba p) ?a m1 = Inr (CNull, m')" "errno m' = en" "grown m1 m' {?a} []"
        "objs m' ?a = Some (OBInt (?i0\<lparr>bi_val := v\<rparr>))"
      using ref m1(4) by auto
    have "free_elem CHR ''i'' ?a m3 = Inr ((), release_all [?a] m3)" if "agree (set [?a]) m' m3" for m3
      using that m'(4) nn by (simp add: agree_def free_elem_def b_int_free_def run_simps)
    then have "\<forall>m3. agree (set [?a]) m' m3 \<longrightarrow> wf_mem m3 \<longrightarrow> free_elem CHR ''i'' ?a m3 = Inr ((), release_all [?a] m3)"
      by blast
    then show ?thesis using 2 m' nn gr [OF m'(3)]
      by (simp only: elem_sim_def run mapr_Inr bnd_Inr ret_run sum.case prod.case option.case) blast
  next
    case (3 en v q)
    then obtain m' where m': "b_int_parse (CP ba p) ?a m1 = Inr (CP ba q, m')" "errno m' = en" "grown m1 m' {?a} []"
        "objs m' ?a = Some (OBInt (?i0\<lparr>bi_val := v\<rparr>))"
      using ref m1(4) by auto
    then show ?thesis using 3 gr [OF m'(3)]
      by (auto simp: elem_sim_def run run_simps tag_of_def intro!: exI [of _ "TInt ?a v"])
  qed
qed

lemma new_elem_sim:
  assumes "parses_list f ba buf" "parses_dict f ba buf" and e: "env ba buf m" and p: "p < length buf"
  shows "elem_sim ba (buf ! p) m (sp_elem buf (errno m) p (sp_list f buf (errno m) p) (sp_dict f buf (errno m) p))
    (new_elem f (buf ! p) (CP ba p) m)"
proof -
  let ?a = "brk m"
  have w: "wf_mem m" "no_oom m" using e by (auto simp: env_def)
  have ne: "ba \<noteq> ?a" using wf_live_less [OF w(1), of ba] e by (auto simp: env_def)
  have "elem_sim ba CHR ''l'' m (mapr VList (sp_list f buf (errno m) p)) (parse_into b_list_alloc (b_list_parse f) (CP ba p) m)"
  proof -
    obtain m1 where m1: "b_list_alloc m = Inr (?a, m1)" "grown m m1 {} [?a]" "holds m1 NULL (TList ?a [])" "errno m1 = errno m"
      using b_list_alloc_grown [OF w] by blast
    have "env ba buf m1" by (rule env_grown [OF e m1(2)]) simp
    then have "list_sim ba m1 NULL ?a [] (sp_list f buf (errno m) p) (b_list_parse f (CP ba p) ?a m1)"
      using assms(1) m1(3,4) ne unfolding parses_list_def by fastforce
    then show ?thesis by (intro list_c.new_sim [OF e, where alloc = b_list_alloc]) (simp_all add: m1 tag_of_def)
  qed
  moreover have "elem_sim ba CHR ''d'' m (mapr VDict (sp_dict f buf (errno m) p)) (parse_into b_dict_alloc (b_dict_parse f) (CP ba p) m)"
  proof -
    obtain m1 where m1: "b_dict_alloc m = Inr (?a, m1)" "grown m m1 {} [?a]" "holds m1 NULL (TDict ?a [])" "errno m1 = errno m"
      using b_dict_alloc_grown [OF w] by blast
    have "env ba buf m1" by (rule env_grown [OF e m1(2)]) simp
    then have "dict_sim ba m1 NULL ?a [] (sp_dict f buf (errno m) p) (b_dict_parse f (CP ba p) ?a m1)"
      using assms(2) m1(3,4) ne unfolding parses_dict_def by fastforce
    then show ?thesis by (intro dict_c.new_sim [OF e, where alloc = b_dict_alloc]) (simp_all add: m1 tag_of_def)
  qed
  ultimately show ?thesis
    using p new_int_sim [OF e] new_string_sim [OF e, of "buf ! p"]
    by (simp add: sp_elem_def new_elem_def tag_of_def)
qed

definition loops_list :: "nat \<Rightarrow> addr \<Rightarrow> byte list \<Rightarrow> bool" where
  "loops_list f ba buf \<longleftrightarrow> (\<forall>m pv r es p. env ba buf m \<longrightarrow> holds m pv (TList r es) \<longrightarrow>
     distinct (ba # addrs (TList r es)) \<longrightarrow>
     list_sim ba m pv r es (sp_items f buf (errno m) p) (b_list_parse_loop f (CP ba p) r m))"

definition loops_dict :: "nat \<Rightarrow> addr \<Rightarrow> byte list \<Rightarrow> bool" where
  "loops_dict f ba buf \<longleftrightarrow> (\<forall>m pv r es p. env ba buf m \<longrightarrow> holds m pv (TDict r es) \<longrightarrow>
     distinct (ba # addrs (TDict r es)) \<longrightarrow>
     dict_sim ba m pv r es (sp_pairs f buf (errno m) p) (b_dict_parse_loop f (CP ba p) r m))"

lemma list_add_elem:
  assumes e: "env ba buf m" and h: "holds m pv (TList r es)" and d: "distinct (ba # addrs (TList r es))"
    and t: "grown m m1 {} (addrs t)" "holds m1 NULL t" "distinct (addrs t)"
  shows "\<exists>m2. b_list_add (root t) r (tag t) m1 = Inr ((), m2) \<and> errno m2 = errno m1
    \<and> grown m m2 (set (addrs (TList r es))) (addrs t @ [brk m1]) \<and> holds m2 pv (TList r (es @ [(brk m1, t)]))
    \<and> env ba buf m2 \<and> distinct (ba # addrs (TList r (es @ [(brk m1, t)])))"
proof -
  let ?L = "TList r es"
  have e1: "env ba buf m1" by (rule env_grown [OF e t(1)]) simp
  then have w1: "wf_mem m1" "no_oom m1" by (auto simp: env_def)
  have less: "a < brk m" if "a \<in> set (addrs ?L)" for a using list_c.old_less [OF e h that] .
  have new: "brk m \<le> a \<and> a < brk m1" if "a \<in> set (addrs t)" for a using grown_new [OF t(1) that] .
  have "agree (set (addrs ?L)) m m1" using less by (intro grown_agree [OF t(1)]) auto
  then have h1: "holds m1 pv ?L" using holds_frame h by blast
  have dj: "set (addrs t) \<inter> set (addrs ?L) = {}" using less new by (meson disjoint_iff leD)
  obtain m2 where m2: "b_list_add (root t) r (tag t) m1 = Inr ((), m2)" "errno m2 = errno m1"
      "grown m1 m2 (set (addrs ?L) \<union> {root t}) [brk m1]" "holds m2 pv (TList r (es @ [(brk m1, t)]))"
    using b_list_add_grown [OF w1 h1 _ t(2,3) dj] d by auto
  have g2: "grown m m2 (set (addrs ?L)) (addrs t @ [brk m1])"
    by (rule grown_trans [OF grown_mono [OF t(1)] m2(3)]) (use root_addrs [of t] less in force)+
  have e2: "env ba buf m2" by (rule env_grown [OF e g2]) (use d in simp)
  have bm: "ba < brk m" using wf_live_less [of m ba] e by (simp add: env_def)
  have "distinct (brk m1 # addrs t)" "set (brk m1 # addrs t) \<inter> set (ba # addrs ?L) = {}"
    using t(3) dj new less bm grown_brk [OF t(1)] by (force simp del: addrs.simps)+
  then have "distinct (ba # addrs (TList r (es @ [(brk m1, t)])))"
    by (intro list_c.distinct_snoc [OF d]) (simp_all only: prod.case)
  then show ?thesis using m2 g2 e2 by blast
qed

lemma loops_list_Suc:
  assumes lo: "loops_list f ba buf" and pa: "parses_list f ba buf" "parses_dict f ba buf"
  shows "loops_list (Suc f) ba buf"
  unfolding loops_list_def
proof (intro allI impI)
  fix m pv r es p
  assume e: "env ba buf m" and h: "holds m pv (TList r es)" and d: "distinct (ba # addrs (TList r es))"
  let ?L = "TList r es" and ?c = "buf ! p"
  have w: "wf_mem m" and b: "objs m ba = Some (OBuf buf)" using e by (auto simp: env_def)
  have stay: "built TList (\<lambda>(e, t). e # addrs t) m pv r es [] m'" if "grown m m' {} []" for m'
    using list_c.built_refl [OF e h _ that] d by simp
  consider (oob) "length buf \<le> p" | (stop) "p < length buf" "?c = CHR ''e''" | (elem) "p < length buf" "?c \<noteq> CHR ''e''"
    by linarith
  then show "list_sim ba m pv r es (sp_items (Suc f) buf (errno m) p) (b_list_parse_loop (Suc f) (CP ba p) r m)"
  proof cases
    case oob
    then show ?thesis using b by (simp add: sim_def run_simps)
  next
    case stop
    then show ?thesis using b stay [OF grown_refl [OF w]] by (simp add: sim_def run_simps ptr_add_def)
  next
    case elem
    let ?el = "sp_elem buf (errno m) p (sp_list f buf (errno m) p) (sp_dict f buf (errno m) p)"
    have es: "elem_sim ba ?c m ?el (new_elem f ?c (CP ba p) m)" by (rule new_elem_sim [OF pa e elem(1)])
    have run: "b_list_parse_loop (Suc f) (CP ba p) r m = bnd (new_elem f ?c (CP ba p)) (\<lambda>(a, q). if a \<noteq> NULL then
            (if q \<noteq> CNull then bnd (b_list_add a r (tag_of ?c)) (\<lambda>_. b_list_parse_loop f q r)
             else bnd (free_elem ?c a) (\<lambda>_. ret CNull))
          else b_list_parse_loop f (CP ba p) r) m"
      using elem b unfolding b_list_parse_loop_Suc by (simp add: run_simps)
    have spec: "sp_items (Suc f) buf (errno m) p = andthen ?el (\<lambda>en1 v q. mapr (\<lambda>vs. v # vs) (sp_items f buf en1 q))"
      using elem by simp
    show ?thesis
    proof (cases rule: presult_cases [of ?el])
      case (1 x)
      then show ?thesis using es unfolding run spec by (simp add: sim_def elem_sim_def bnd_def)
    next
      case (2 en)
      then obtain m' a F where m': "new_elem f ?c (CP ba p) m = Inr ((a, CNull), m')" "a \<noteq> NULL" "errno m' = en"
          "grown m m' {} F" "free_elem ?c a m' = Inr ((), release_all F m')"
        using es grown_wf by (fastforce simp: elem_sim_def)
      have "grown m (release_all F m') {} []" by (rule grown_release [OF m'(4)]) auto
      then show ?thesis using 2 m' stay unfolding run spec by (simp add: sim_def run_simps) blast
    next
      case (3 en v q)
      then obtain m1 t where t: "new_elem f ?c (CP ba p) m = Inr ((root t, CP ba q), m1)" "errno m1 = en"
          "grown m m1 {} (addrs t)" "holds m1 NULL t" "distinct (addrs t)" "bval_of t = v" "tag t = tag_of ?c"
        using es by (auto simp: elem_sim_def)
      obtain m2 where m2: "b_list_add (root t) r (tag t) m1 = Inr ((), m2)" "errno m2 = errno m1"
          "grown m m2 (set (addrs ?L)) (addrs t @ [brk m1])" "holds m2 pv (TList r (es @ [(brk m1, t)]))"
          "env ba buf m2" "distinct (ba # addrs (TList r (es @ [(brk m1, t)])))"
        using list_add_elem [OF e h d t(3-5)] by blast
      then have "list_sim ba m2 pv r (es @ [(brk m1, t)]) (sp_items f buf (errno m2) q) (b_list_parse_loop f (CP ba q) r m2)"
        using lo unfolding loops_list_def by blast
      from list_c.sim_cons [OF e h m2(3) _ this]
      have "list_sim ba m pv r es (mapr (\<lambda>vs. v # vs) (sp_items f buf en q)) (b_list_parse_loop f (CP ba q) r m2)"
        using t(2,6) m2(2) by auto
      moreover have "root t \<noteq> NULL" using wf_live_not_null [OF grown_wf [OF t(3)] holds_live [OF t(4) root_addrs]] .
      ultimately show ?thesis using 3 t(1,7) m2(1) unfolding run spec by (simp add: run_simps)
    qed
  qed
qed

text \<open>Adding to a dictionary under a key that is freed afterwards.\<close>

lemma dict_add_elem:
  assumes e: "env ba buf m" and h: "holds m pv (TDict r es)" and d: "distinct (ba # addrs (TDict r es))"
    and K: "grown m m0 {} [k, kd]" "holds m0 NULL (TStr k kd s)" "k \<noteq> kd"
    and t: "grown m0 m1 {} (addrs t)" "holds m1 NULL t" "distinct (addrs t)"
  shows "\<exists>m3. bnd (b_string_get k) (\<lambda>key. bnd (b_dict_add (root t) key r (tag t)) (\<lambda>_. bnd (b_string_free k) g)) m1
      = g () m3 \<and> errno m3 = errno m1
    \<and> grown m m3 (set (addrs (TDict r es))) (addrs t @ [brk m1]) \<and> holds m3 pv (TDict r (es @ [(brk m1, key_field s, t)]))
    \<and> env ba buf m3 \<and> distinct (ba # addrs (TDict r (es @ [(brk m1, key_field s, t)])))"
proof -
  let ?D = "TDict r es" and ?D' = "TDict r (es @ [(brk m1, key_field s, t)])"
  have g1: "grown m m1 {} ([k, kd] @ addrs t)" by (rule grown_trans [OF K(1) t(1)]) auto
  have e1: "env ba buf m1" by (rule env_grown [OF e g1]) simp
  then have w1: "wf_mem m1" "no_oom m1" by (auto simp: env_def)
  have less: "a < brk m" if "a \<in> set (addrs ?D)" for a using dict_c.old_less [OF e h that] .
  have kn: "brk m \<le> a \<and> a < brk m0" if "a \<in> {k, kd}" for a using grown_new [OF K(1)] that by auto
  have new: "brk m0 \<le> a \<and> a < brk m1" if "a \<in> set (addrs t)" for a using grown_new [OF t(1) that] .
  have bk: "brk m \<le> brk m0" "brk m0 \<le> brk m1" using grown_brk [OF K(1)] grown_brk [OF t(1)] by auto
  have "agree (set (addrs ?D)) m m1" using less by (intro grown_agree [OF g1]) blast+
  then have h1: "holds m1 pv ?D" using holds_frame h by blast
  have dj: "set (addrs t) \<inter> set (addrs ?D) = {}" using less new bk by (meson disjoint_iff leD le_trans)
  have k1: "holds m1 NULL (TStr k kd s)"
    using K(2) holds_frame [OF grown_agree [OF t(1), of "set (addrs (TStr k kd s))"]] kn by auto
  then obtain j where j: "objs m1 kd = Some (OBuf (s @ NUL # j))" by auto
  obtain m2 where m2: "b_dict_add (root t) (CP kd 0) r (tag t) m1 = Inr ((), m2)" "errno m2 = errno m1"
      "grown m1 m2 (set (addrs ?D) \<union> {root t}) [brk m1]" "holds m2 pv ?D'"
    using b_dict_add_grown [OF w1 h1 _ t(2,3) dj j] d by auto
  have g2: "grown m m2 (set (addrs ?D)) (([k, kd] @ addrs t) @ [brk m1])"
  proof (rule grown_trans [OF grown_mono [OF g1] m2(3)])
    show "a \<in> set ([k, kd] @ addrs t)" if "a \<in> set (addrs ?D) \<union> {root t}" "brk m \<le> a" for a
      using that less [of a] root_addrs [of t] by (auto simp del: addrs.simps)
  qed (use root_addrs [of t] in auto)
  have kd: "set [k, kd] \<inter> set (addrs t @ [brk m1]) = {}" "set [k, kd] \<inter> set (addrs ?D) = {}"
    using kn new less bk by (force simp del: addrs.simps)+
  have "set (addrs (TStr k kd s)) \<inter> (set (addrs ?D) \<union> {root t}) = {}" using kd root_addrs [of t] by auto
  moreover have "set (addrs (TStr k kd s)) \<subseteq> {a. a < brk m1}" using kn [of k] kn [of kd] bk by auto
  ultimately have "holds m2 NULL (TStr k kd s)"
    using k1 holds_frame [OF grown_agree [OF m2(3)]] by blast
  then have fr: "b_string_free k m2 = Inr ((), release_all [k, kd] m2)"
    using free_graph [OF grown_wf [OF g2], of NULL "TStr k kd s" "CHR ''s''"] K(3)
    by (simp add: free_elem_def tag_of_def)
  let ?m3 = "release_all [k, kd] m2"
  have g3: "grown m ?m3 (set (addrs ?D)) (addrs t @ [brk m1])"
    by (rule grown_release [OF g2]) (use kd in auto)
  have sub: "set (addrs ?D') = set (addrs ?D) \<union> set (addrs t @ [brk m1])" by auto
  have "holds ?m3 pv ?D'"
    using m2(4) holds_frame [OF agree_release, of "[k, kd]" ?D'] kd unfolding sub by blast
  moreover have "env ba buf ?m3" by (rule env_grown [OF e g3]) (use d in simp)
  moreover have bm: "ba < brk m" using wf_live_less [of m ba] e by (simp add: env_def)
  have "distinct (brk m1 # addrs t)" "set (brk m1 # addrs t) \<inter> set (ba # addrs ?D) = {}"
    using t(3) dj new less bm bk by (force simp del: addrs.simps)+
  then have "distinct (ba # addrs ?D')"
    by (intro dict_c.distinct_snoc [OF d]) (simp_all only: prod.case)
  ultimately show ?thesis using m2 g3 fr k1 by (auto simp: b_string_get_def run_simps simp del: addrs.simps)
qed

lemma dict_value_sim:
  assumes lo: "loops_dict f ba buf" and pa: "parses_list f ba buf" "parses_dict f ba buf"
    and e: "env ba buf m" and h: "holds m pv (TDict r es)" and d: "distinct (ba # addrs (TDict r es))"
    and K: "grown m m0 {} [k, kd]" "holds m0 NULL (TStr k kd s)" "k \<noteq> kd"
  shows "dict_sim ba m pv r es (andthen (sp_elem buf (errno m0) p (sp_list f buf (errno m0) p) (sp_dict f buf (errno m0) p))
       (\<lambda>en v q. mapr (\<lambda>kvs. (key_field s, v) # kvs) (sp_pairs f buf en q)))
    (bnd (ld_byte (CP ba p)) (\<lambda>c. bnd (new_elem f c (CP ba p)) (\<lambda>(a, q). if a \<noteq> NULL then
        (if q \<noteq> CNull then bnd (b_string_get k) (\<lambda>key. bnd (b_dict_add a key r (tag_of c)) (\<lambda>_.
           bnd (b_string_free k) (\<lambda>_. b_dict_parse_loop f q r)))
         else bnd (b_string_free k) (\<lambda>_. bnd (free_elem c a) (\<lambda>_. ret CNull)))
      else bnd (b_string_free k) (\<lambda>_. b_dict_parse_loop f (CP ba p) r))) m0)"
    (is "dict_sim ba m pv r es (andthen ?el ?more) ?run")
proof -
  have e0: "env ba buf m0" by (rule env_grown [OF e K(1)]) simp
  then have b0: "objs m0 ba = Some (OBuf buf)" by (simp add: env_def)
  show ?thesis
  proof (cases "p < length buf")
    case False
    then show ?thesis using b0 by (simp add: sim_def sp_elem_def run_simps)
  next
    case True
    have es: "elem_sim ba (buf ! p) m0 ?el (new_elem f (buf ! p) (CP ba p) m0)" by (rule new_elem_sim [OF pa e0 True])
    have ld: "ld_byte (CP ba p) m0 = Inr (buf ! p, m0)" using True b0 by (simp add: run_simps)
    show ?thesis
    proof (cases rule: presult_cases [of ?el])
      case (1 x)
      then show ?thesis using es ld by (simp add: sim_def elem_sim_def bnd_def)
    next
      case (2 en)
      then obtain m' a F where m': "new_elem f (buf ! p) (CP ba p) m0 = Inr ((a, CNull), m')" "a \<noteq> NULL" "errno m' = en"
          "grown m0 m' {} F" and fr: "\<And>m3. agree (set F) m' m3 \<Longrightarrow> wf_mem m3 \<Longrightarrow> free_elem (buf ! p) a m3 = Inr ((), release_all F m3)"
        using es by (auto simp: elem_sim_def)
      have kF: "set [k, kd] \<inter> set F = {}" using grown_new [OF K(1)] grown_new [OF m'(4)] by fastforce
      have "set (addrs (TStr k kd s)) \<subseteq> {a. a < brk m0}" using grown_new [OF K(1)] by auto
      then have "holds m' NULL (TStr k kd s)" using K(2) holds_frame [OF grown_agree [OF m'(4)]] by blast
      then have "b_string_free k m' = Inr ((), release_all [k, kd] m')"
        using free_graph [OF grown_wf [OF m'(4)], of NULL "TStr k kd s" "CHR ''s''"] K(3)
        by (simp add: free_elem_def tag_of_def)
      moreover have "free_elem (buf ! p) a (release_all [k, kd] m') = Inr ((), release_all ([k, kd] @ F) m')"
        using fr [OF agree_release wf_release_all [OF grown_wf [OF m'(4)]]] kF by (simp only: release_all_append)
      moreover have "grown m m' {} ([k, kd] @ F)" by (rule grown_trans [OF K(1) m'(4)]) auto
      then have "grown m (release_all ([k, kd] @ F) m') {} []" by (rule grown_release) auto
      then have "built TDict (\<lambda>(e, k, t). e # addrs t) m pv r es [] (release_all ([k, kd] @ F) m')"
        using dict_c.built_refl [OF e h] d by simp
      ultimately show ?thesis using 2 m' ld
        by (simp add: sim_def run_simps del: append_Cons) blast
    next
      case (3 en v q)
      then obtain m1 t where t: "new_elem f (buf ! p) (CP ba p) m0 = Inr ((root t, CP ba q), m1)" "errno m1 = en"
          "grown m0 m1 {} (addrs t)" "holds m1 NULL t" "distinct (addrs t)" "bval_of t = v" "tag t = tag_of (buf ! p)"
        using es by (auto simp: elem_sim_def)
      obtain m3 where m3: "bnd (b_string_get k) (\<lambda>key. bnd (b_dict_add (root t) key r (tag t)) (\<lambda>_.
            bnd (b_string_free k) (\<lambda>_. b_dict_parse_loop f (CP ba q) r))) m1 = b_dict_parse_loop f (CP ba q) r m3"
          "errno m3 = errno m1" "grown m m3 (set (addrs (TDict r es))) (addrs t @ [brk m1])"
          "holds m3 pv (TDict r (es @ [(brk m1, key_field s, t)]))" "env ba buf m3"
          "distinct (ba # addrs (TDict r (es @ [(brk m1, key_field s, t)])))"
        using dict_add_elem [OF e h d K t(3-5)] by blast
      then have "dict_sim ba m3 pv r (es @ [(brk m1, key_field s, t)]) (sp_pairs f buf (errno m3) q) (b_dict_parse_loop f (CP ba q) r m3)"
        using lo unfolding loops_dict_def by blast
      from dict_c.sim_cons [OF e h m3(3) _ this]
      have "dict_sim ba m pv r es (mapr (\<lambda>vs. (key_field s, v) # vs) (sp_pairs f buf en q)) (b_dict_parse_loop f (CP ba q) r m3)"
        using t(2,6) m3(2) by auto
      moreover have "root t \<noteq> NULL" using wf_live_not_null [OF grown_wf [OF t(3)] holds_live [OF t(4) root_addrs]] .
      ultimately show ?thesis using 3 t(1,7) m3(1) ld by (simp add: run_simps)
    qed
  qed
qed

lemma key_then:
  "bnd b_string_alloc (\<lambda>k. if k = NULL then skip
     else bnd (b_string_parse ptr k) (\<lambda>q. if q = CNull then fail k else ok k q))
   = bnd (parse_into b_string_alloc b_string_parse ptr)
       (\<lambda>(k, q). if k \<noteq> NULL then (if q \<noteq> CNull then ok k q else fail k) else skip)"
  unfolding parse_into_then by (intro arg_cong2 [where f = bnd] refl ext) (simp add: bnd_def split: sum.split)

lemma loops_dict_Suc:
  assumes lo: "loops_dict f ba buf" and pa: "parses_list f ba buf" "parses_dict f ba buf"
  shows "loops_dict (Suc f) ba buf"
  unfolding loops_dict_def
proof (intro allI impI)
  fix m pv r es p
  assume e: "env ba buf m" and h: "holds m pv (TDict r es)" and d: "distinct (ba # addrs (TDict r es))"
  have w: "wf_mem m" and b: "objs m ba = Some (OBuf buf)" using e by (auto simp: env_def)
  have stay: "built TDict (\<lambda>(e, k, t). e # addrs t) m pv r es [] m'" if "grown m m' {} []" for m'
    using dict_c.built_refl [OF e h _ that] d by simp
  consider (oob) "length buf \<le> p" | (stop) "p < length buf" "buf ! p = CHR ''e''" | (elem) "p < length buf" "buf ! p \<noteq> CHR ''e''"
    by linarith
  then show "dict_sim ba m pv r es (sp_pairs (Suc f) buf (errno m) p) (b_dict_parse_loop (Suc f) (CP ba p) r m)"
  proof cases
    case oob
    then show ?thesis using b by (simp add: sim_def run_simps)
  next
    case stop
    then show ?thesis using b stay [OF grown_refl [OF w]] by (simp add: sim_def run_simps ptr_add_def)
  next
    case elem
    let ?key = "sp_string buf (errno m) p"
    have ks: "elem_sim ba CHR ''s'' m (mapr VStr ?key) (parse_into b_string_alloc b_string_parse (CP ba p) m)"
      by (rule new_string_sim [OF e]) (simp add: tag_of_def)
    show ?thesis
    proof (cases rule: presult_cases [of ?key])
      case (1 x)
      then show ?thesis using ks elem b unfolding b_dict_parse_loop_Suc key_then
        by (simp add: sim_def elem_sim_def run_simps)
    next
      case (2 en)
      then obtain m' a F where m': "parse_into b_string_alloc b_string_parse (CP ba p) m = Inr ((a, CNull), m')"
          "a \<noteq> NULL" "errno m' = en" "grown m m' {} F" "free_elem CHR ''s'' a m' = Inr ((), release_all F m')"
        using ks grown_wf by (fastforce simp: elem_sim_def)
      have "grown m (release_all F m') {} []" by (rule grown_release [OF m'(4)]) auto
      then show ?thesis using 2 m' stay elem b unfolding b_dict_parse_loop_Suc key_then
        by (simp add: sim_def run_simps free_elem_def) blast
    next
      case (3 en s q)
      then obtain m0 t where t: "parse_into b_string_alloc b_string_parse (CP ba p) m = Inr ((root t, CP ba q), m0)"
          "errno m0 = en" "grown m m0 {} (addrs t)" "holds m0 NULL t" "distinct (addrs t)" "bval_of t = VStr s"
        using ks by (auto simp: elem_sim_def)
      obtain k kd where k: "t = TStr k kd s" using t(6) by (cases t) auto
      have "k \<noteq> NULL" using wf_live_not_null [OF grown_wf [OF t(3)]] t(4) k by auto
      then show ?thesis
        using dict_value_sim [OF lo pa e h d, of m0 k kd s q] t 3 elem b
        unfolding b_dict_parse_loop_Suc key_then by (simp add: k run_simps)
    qed
  qed
qed

lemma parses_list_Suc:
  assumes "loops_list f ba buf"
  shows "parses_list (Suc f) ba buf"
  unfolding parses_list_def
proof (intro allI impI)
  fix m pv r es p
  assume e: "env ba buf m" and h: "holds m pv (TList r es)" and d: "distinct (ba # addrs (TList r es))"
  have w: "wf_mem m" and b: "objs m ba = Some (OBuf buf)" using e by (auto simp: env_def)
  have "r \<noteq> NULL" using wf_live_not_null [OF w, of r] h by auto
  moreover have "built TList (\<lambda>(e, t). e # addrs t) m pv r es [] m"
    using list_c.built_refl [OF e h _ grown_refl [OF w]] d by simp
  moreover have "list_sim ba m pv r es (sp_items f buf (errno m) (Suc p)) (b_list_parse_loop f (CP ba (Suc p)) r m)"
    using assms e h d unfolding loops_list_def by blast
  moreover have "b_list_parse (Suc f) (CP ba p) r m = b_list_parse_loop f (CP ba (Suc p)) r m"
    if "p < length buf" "buf ! p = CHR ''l''" using b that \<open>r \<noteq> NULL\<close> by (simp add: run_simps ptr_add_def)
  ultimately show "list_sim ba m pv r es (sp_list (Suc f) buf (errno m) p) (b_list_parse (Suc f) (CP ba p) r m)"
    using b by (cases "p < length buf"; cases "buf ! p = CHR ''l''") (simp_all del: b_list_parse.simps, simp_all add: run_simps sim_def, blast)
qed

lemma parses_dict_Suc:
  assumes "loops_dict f ba buf"
  shows "parses_dict (Suc f) ba buf"
  unfolding parses_dict_def
proof (intro allI impI)
  fix m pv r es p
  assume e: "env ba buf m" and h: "holds m pv (TDict r es)" and d: "distinct (ba # addrs (TDict r es))"
  have w: "wf_mem m" and b: "objs m ba = Some (OBuf buf)" using e by (auto simp: env_def)
  have "r \<noteq> NULL" using wf_live_not_null [OF w, of r] h by auto
  moreover have "built TDict (\<lambda>(e, k, t). e # addrs t) m pv r es [] m"
    using dict_c.built_refl [OF e h _ grown_refl [OF w]] d by simp
  moreover have "dict_sim ba m pv r es (sp_pairs f buf (errno m) (Suc p)) (b_dict_parse_loop f (CP ba (Suc p)) r m)"
    using assms e h d unfolding loops_dict_def by blast
  moreover have "b_dict_parse (Suc f) (CP ba p) r m = b_dict_parse_loop f (CP ba (Suc p)) r m"
    if "p < length buf" "buf ! p = CHR ''d''" using b that \<open>r \<noteq> NULL\<close> by (simp add: run_simps ptr_add_def)
  ultimately show "dict_sim ba m pv r es (sp_dict (Suc f) buf (errno m) p) (b_dict_parse (Suc f) (CP ba p) r m)"
    using b by (cases "p < length buf"; cases "buf ! p = CHR ''d''") (simp_all del: b_dict_parse.simps, simp_all add: run_simps sim_def, blast)
qed

lemma parsers_refine:
  "parses_list f ba buf" "loops_list f ba buf" "parses_dict f ba buf" "loops_dict f ba buf"
proof (induction f)
  case 0
  {
    case 1 show ?case by (simp add: parses_list_def sim_def)
  next
    case 2 show ?case by (simp add: loops_list_def sim_def)
  next
    case 3 show ?case by (simp add: parses_dict_def sim_def)
  next
    case 4 show ?case by (simp add: loops_dict_def sim_def)
  }
next
  case (Suc f)
  {
    case 1 show ?case by (rule parses_list_Suc [OF Suc.IH(2)])
  next
    case 2 show ?case by (rule loops_list_Suc [OF Suc.IH(2,1,3)])
  next
    case 3 show ?case by (rule parses_dict_Suc [OF Suc.IH(4)])
  next
    case 4 show ?case by (rule loops_dict_Suc [OF Suc.IH(4,1,3)])
  }
qed

section \<open>Parsing into a fresh container\<close>

lemma fresh_dict:
  assumes e: "env ba buf m" and al: "b_dict_alloc m = Inr (r, m1)"
  shows "env ba buf m1" "errno m1 = errno m" "grown m m1 {} [r]" "r = brk m"
    "dict_sim ba m1 NULL r [] (sp_dict f buf (errno m) p) (b_dict_parse f (CP ba p) r m1)"
proof -
  have w: "wf_mem m" "no_oom m" using e by (auto simp: env_def)
  show r: "r = brk m" and g: "grown m m1 {} [r]" and en: "errno m1 = errno m"
    using b_dict_alloc_grown [OF w] al by auto
  show e1: "env ba buf m1" by (rule env_grown [OF e g]) simp
  have "holds m1 NULL (TDict r [])" using b_dict_alloc_grown [OF w] al by auto
  moreover have "ba \<noteq> r" using wf_live_less [OF w(1), of ba] e r by (auto simp: env_def)
  ultimately show "dict_sim ba m1 NULL r [] (sp_dict f buf (errno m) p) (b_dict_parse f (CP ba p) r m1)"
    using parsers_refine(3) [of f ba buf] e1 en unfolding parses_dict_def by fastforce
qed

lemma fresh_list:
  assumes e: "env ba buf m" and al: "b_list_alloc m = Inr (r, m1)"
  shows "env ba buf m1" "errno m1 = errno m" "grown m m1 {} [r]" "r = brk m"
    "list_sim ba m1 NULL r [] (sp_list f buf (errno m) p) (b_list_parse f (CP ba p) r m1)"
proof -
  have w: "wf_mem m" "no_oom m" using e by (auto simp: env_def)
  show r: "r = brk m" and g: "grown m m1 {} [r]" and en: "errno m1 = errno m"
    using b_list_alloc_grown [OF w] al by auto
  show e1: "env ba buf m1" by (rule env_grown [OF e g]) simp
  have "holds m1 NULL (TList r [])" using b_list_alloc_grown [OF w] al by auto
  moreover have "ba \<noteq> r" using wf_live_less [OF w(1), of ba] e r by (auto simp: env_def)
  ultimately show "list_sim ba m1 NULL r [] (sp_list f buf (errno m) p) (b_list_parse f (CP ba p) r m1)"
    using parsers_refine(1) [of f ba buf] e1 en unfolding parses_list_def by fastforce
qed

text \<open>Freeing everything that is new gives the heap back.\<close>

lemma released_heap:
  assumes "grown m m' {} N" and w: "wf_mem m"
  shows "objs (release_all N m') = objs m" "links (release_all N m') = links m"
proof -
  have "objs (release_all N m') a = objs m a \<and> links (release_all N m') a = links m a" for a
  proof (cases "a < brk m")
    case True
    then show ?thesis using assms grown_new [OF assms(1), of a] grown_agree [OF assms(1), of "{a}"] by (auto simp: agree_def)
  next
    case False
    then show ?thesis using assms by (auto simp: grown_def wf_mem_def)
  qed
  then show "objs (release_all N m') = objs m" "links (release_all N m') = links m" by auto
qed

lemma sim_built:
  fixes spec :: "'v list presult"
  assumes "sim mk ent val ba m pv r es spec (Inr (q, m'))"
  shows "\<exists>es'. built mk ent m pv r es es' m'"
  using assms by (cases rule: presult_cases [of spec]) (auto simp: sim_def)

lemma dict_into_sim:
  assumes "env ba buf m"
  shows "elem_sim ba CHR ''d'' m (mapr VDict (sp_dict f buf (errno m) p)) (parse_into b_dict_alloc (b_dict_parse f) (CP ba p) m)"
proof -
  obtain m1 where m1: "b_dict_alloc m = Inr (brk m, m1)"
    using b_dict_alloc_grown assms unfolding env_def by blast
  note fr = fresh_dict [OF assms m1]
  show ?thesis
    by (rule dict_c.new_sim [OF assms, where alloc = b_dict_alloc]) (rule m1 fr(3,5) | simp add: tag_of_def)+
qed

lemma list_into_sim:
  assumes "env ba buf m"
  shows "elem_sim ba CHR ''l'' m (mapr VList (sp_list f buf (errno m) p)) (parse_into b_list_alloc (b_list_parse f) (CP ba p) m)"
proof -
  obtain m1 where m1: "b_list_alloc m = Inr (brk m, m1)"
    using b_list_alloc_grown assms unfolding env_def by blast
  note fr = fresh_list [OF assms m1]
  show ?thesis
    by (rule list_c.new_sim [OF assms, where alloc = b_list_alloc]) (rule m1 fr(3,5) | simp add: tag_of_def)+
qed

text \<open>However the parse ended, the destructor takes the container away again.\<close>

lemma elem_sim_freed:
  fixes spec :: "bval presult"
  assumes "elem_sim ba c m spec (Inr ((a, q), m'))" "wf_mem m"
  shows "\<exists>m''. free_elem c a m' = Inr ((), m'') \<and> objs m'' = objs m \<and> links m'' = links m"
proof (cases rule: presult_cases [of spec])
  case (1 e)
  then show ?thesis using assms by (simp add: elem_sim_def)
next
  case (2 en)
  then obtain F where "grown m m' {} F" "free_elem c a m' = Inr ((), release_all F m')"
    using assms(1) grown_wf by (fastforce simp: elem_sim_def)
  then show ?thesis using released_heap [OF _ assms(2)] by blast
next
  case (3 en v p)
  then obtain t where "a = root t" "grown m m' {} (addrs t)" "holds m' NULL t" "distinct (addrs t)" "tag t = tag_of c"
    using assms(1) by (auto simp: elem_sim_def)
  then show ?thesis using graph_free_elem [of m' NULL t c m'] released_heap [OF _ assms(2)] grown_wf by fastforce
qed

end
