(* ===== verification/B_Properties.thy ===== *)
theory B_Properties
  imports B_Sim
begin

text \<open>
  The properties of the bencode parser and destructors of \<^verbatim>\<open>src/b_parse.c\<close>: refinement of the
  abstract parser, round trip, termination, absence of leaks, and the inputs on which the code
  departs from the bencode format or runs outside its buffers.
\<close>

section \<open>A concrete memory\<close>

text \<open>One buffer at address 1, nothing else; used to show that the hypotheses below can be met.\<close>

definition mem_of :: "byte list \<Rightarrow> mem" where
  "mem_of buf = \<lparr>objs = [1 \<mapsto> OBuf buf], links = Map.empty, brk = 2, oom = (\<lambda>_. False), usable = (\<lambda>n. n),
     junk = (\<lambda>_ _. NUL), errno = 0\<rparr>"

lemma mem_of_ok: "length buf \<le> PTRDIFF_MAX \<Longrightarrow> wf_mem (mem_of buf)" "no_oom (mem_of buf)" "objs (mem_of buf) 1 = Some (OBuf buf)"
  by (auto simp: mem_of_def wf_mem_def no_oom_def)

lemma env_mem_of: "length buf \<le> PTRDIFF_MAX \<Longrightarrow> env 1 buf (mem_of buf)"
  by (auto simp: env_def mem_of_def wf_mem_def no_oom_def)

definition empty_str :: b_string where
  "empty_str = \<lparr>bs_prev = NULL, bs_data = CNull, bs_head = CNull, bs_len = 0\<rparr>"

definition str_mem :: "byte list \<Rightarrow> mem" where
  "str_mem buf = (mem_of buf)\<lparr>objs := [1 \<mapsto> OBuf buf, 2 \<mapsto> OBStr empty_str], brk := 3\<rparr>"

definition int_mem :: "byte list \<Rightarrow> mem" where
  "int_mem buf = (mem_of buf)\<lparr>objs := [1 \<mapsto> OBuf buf, 2 \<mapsto> OBInt \<lparr>bi_prev = NULL, bi_val = 0\<rparr>], brk := 3\<rparr>"

lemma env_str_mem: "length buf \<le> PTRDIFF_MAX \<Longrightarrow> env 1 buf (str_mem buf)"
  by (auto simp: env_def str_mem_def mem_of_def wf_mem_def no_oom_def)

lemma env_int_mem: "length buf \<le> PTRDIFF_MAX \<Longrightarrow> env 1 buf (int_mem buf)"
  by (auto simp: env_def int_mem_def mem_of_def wf_mem_def no_oom_def)

lemma str_mem_simps [simp]:
  "objs (str_mem buf) 2 = Some (OBStr empty_str)" "errno (str_mem buf) = 0"
  "objs (int_mem buf) 2 = Some (OBInt \<lparr>bi_prev = NULL, bi_val = 0\<rparr>)" "errno (int_mem buf) = 0"
  by (simp_all add: str_mem_def int_mem_def mem_of_def)

section \<open>Bencode parsing\<close>

lemma grown_old: "grown m m' {} N \<Longrightarrow> agree {a. a < brk m} m m'"
  by (simp add: grown_def)

text \<open>
  C1. Parsing a dictionary into a freshly allocated \<open>b_dict\<close> refines the abstract parser: it
  faults exactly when that does, returns \<open>NULL\<close> exactly when that rejects, and otherwise returns
  the same end position, with an object graph of the same value as the only new objects on
  the heap and every object that existed before unchanged.
\<close>

theorem b_dict_parse_refines:
  assumes "env ba buf m"
  shows "case sp_dict f buf (errno m) p of
      Inl e \<Rightarrow> parse_into b_dict_alloc (b_dict_parse f) (CP ba p) m = Inl e
    | Inr (en, None) \<Rightarrow> \<exists>r m'. parse_into b_dict_alloc (b_dict_parse f) (CP ba p) m = Inr ((r, CNull), m')
        \<and> errno m' = en \<and> agree {a. a < brk m} m m'
    | Inr (en, Some (kvs, q)) \<Rightarrow> \<exists>t m'. parse_into b_dict_alloc (b_dict_parse f) (CP ba p) m = Inr ((root t, CP ba q), m')
        \<and> errno m' = en \<and> bval_of t = VDict kvs \<and> holds m' NULL t \<and> distinct (addrs t) \<and> grown m m' {} (addrs t)"
  using dict_into_sim [OF assms, of f p]
  by (cases rule: presult_cases [of "sp_dict f buf (errno m) p"])
    (auto simp: elem_sim_def dest: grown_old)

theorem b_dict_parse_refines_witness:
  "\<exists>t m'. parse_into b_dict_alloc (b_dict_parse 20) (CP 1 0) (mem_of ''d1:ai7ee'') = Inr ((root t, CP 1 8), m')
     \<and> bval_of t = VDict [(key_field ''a'', VInt 7)]"
proof -
  have "sp_dict 20 ''d1:ai7ee'' 0 0 = Inr (0, Some ([(key_field ''a'', VInt 7)], 8))"
    by code_simp
  then show ?thesis
    using b_dict_parse_refines [OF env_mem_of, of "''d1:ai7ee''" 20 0]
    by (auto simp: PTRDIFF_MAX_def mem_of_def)
qed

text \<open>
  The same for \<open>b_list_parse\<close> and a freshly allocated \<open>b_list\<close>.
\<close>

theorem b_list_parse_refines:
  assumes "env ba buf m"
  shows "case sp_list f buf (errno m) p of
      Inl e \<Rightarrow> parse_into b_list_alloc (b_list_parse f) (CP ba p) m = Inl e
    | Inr (en, None) \<Rightarrow> \<exists>r m'. parse_into b_list_alloc (b_list_parse f) (CP ba p) m = Inr ((r, CNull), m')
        \<and> errno m' = en \<and> agree {a. a < brk m} m m'
    | Inr (en, Some (vs, q)) \<Rightarrow> \<exists>t m'. parse_into b_list_alloc (b_list_parse f) (CP ba p) m = Inr ((root t, CP ba q), m')
        \<and> errno m' = en \<and> bval_of t = VList vs \<and> holds m' NULL t \<and> distinct (addrs t) \<and> grown m m' {} (addrs t)"
  using list_into_sim [OF assms, of f p]
  by (cases rule: presult_cases [of "sp_list f buf (errno m) p"])
    (auto simp: elem_sim_def dest: grown_old)

theorem b_list_parse_refines_witness:
  "\<exists>t m'. parse_into b_list_alloc (b_list_parse 30) (CP 1 0) (mem_of ''l3:abci12eled1:xi1eee'') = Inr ((root t, CP 1 21), m')
     \<and> bval_of t = VList [VStr ''abc'', VInt 12, VList [], VDict [(key_field ''x'', VInt 1)]]"
proof -
  have "sp_list 30 ''l3:abci12eled1:xi1eee'' 0 0 =
      Inr (0, Some ([VStr ''abc'', VInt 12, VList [], VDict [(key_field ''x'', VInt 1)]], 21))"
    by code_simp
  then show ?thesis
    using b_list_parse_refines [OF env_mem_of, of "''l3:abci12eled1:xi1eee''" 30 0]
    by (auto simp: PTRDIFF_MAX_def mem_of_def)
qed

text \<open>
  C2. Round trip: when no allocation fails and \<open>errno\<close> is 0 at the call, then wherever the buffer continues with the
  encoding of a dictionary whose keys fit the key array, \<open>b_dict_parse\<close> builds exactly that dictionary and returns the
  position behind it.
\<close>

theorem dict_round_trip:
  assumes "wf_mem m" "no_oom m" "objs m ba = Some (OBuf buf)" "errno m = 0"
    "drop p buf = bencode (VDict kvs) @ rest" "keys_ok (VDict kvs)" "2 * length buf + 1 \<le> f"
  shows "\<exists>t m'. parse_into b_dict_alloc (b_dict_parse f) (CP ba p) m
      = Inr ((root t, CP ba (p + length (bencode (VDict kvs)))), m')
    \<and> bval_of t = VDict kvs \<and> holds m' NULL t \<and> distinct (addrs t) \<and> grown m m' {} (addrs t)"
proof -
  have e: "env ba buf m" using assms(1-3) by (simp add: env_def)
  then have "length buf \<le> PTRDIFF_MAX" by (auto simp: env_def wf_mem_def)
  moreover have "length (bencode (VDict kvs)) \<le> length buf" using arg_cong [OF assms(5), of length] by simp
  ultimately have "length (bencode (VDict kvs)) < 2 ^ 63" by (simp add: PTRDIFF_MAX_def del: bencode.simps)
  from reads_back_all [OF assms(6) this, of buf]
  have "sp_elem buf 0 p (sp_list f buf 0 p) (sp_dict f buf 0 p) =
      Inr (0, Some (VDict kvs, p + length (bencode (VDict kvs))))"
    unfolding reads_back_def using assms(5,7) by auto
  moreover have "p < length buf" "buf ! p = CHR ''d''" using drop_hd [of p buf "CHR ''d''"] assms(5) by simp_all
  ultimately have "mapr VDict (sp_dict f buf 0 p) = Inr (0, Some (VDict kvs, p + length (bencode (VDict kvs))))"
    by (simp add: sp_elem_def)
  then show ?thesis
    using dict_into_sim [OF e, of f p] assms(4) by (auto simp: elem_sim_def)
qed

theorem dict_round_trip_witness:
  "\<exists>t m'. parse_into b_dict_alloc (b_dict_parse 25) (CP 1 0) (mem_of ''d1:al2:xyeeQ'') = Inr ((root t, CP 1 11), m')
    \<and> bval_of t = VDict [(key_field ''a'', VList [VStr ''xy''])]"
proof -
  let ?v = "[(key_field ''a'', VList [VStr ''xy''])]" and ?b = "''d1:al2:xyeeQ''"
  have b: "bencode (VDict ?v) = ''d1:al2:xyee''" by code_simp
  have "keys_ok (VDict ?v)" by code_simp
  then show ?thesis
    using dict_round_trip [OF mem_of_ok, of ?b 0 ?v "''Q''" 25]
    unfolding b by (auto simp: PTRDIFF_MAX_def mem_of_def)
qed

text \<open>
  C3. When no allocation fails, every call of the dictionary parser ends, whatever the buffer holds and wherever the call
  starts: with fuel twice the length of the buffer it returns, or it stops with a read outside the buffer or behind the
  local array of digits. No other fault can occur.
\<close>

theorem b_dict_parse_ends:
  assumes "wf_mem m" "no_oom m" "objs m ba = Some (OBuf buf)" "2 * length buf + 1 \<le> f"
  shows "(\<exists>r q m'. parse_into b_dict_alloc (b_dict_parse f) (CP ba p) m = Inr ((r, q), m'))
    \<or> parse_into b_dict_alloc (b_dict_parse f) (CP ba p) m = Inl OutOfBounds"
proof -
  have e: "env ba buf m" using assms(1-3) by (simp add: env_def)
  have "sp_dict f buf (errno m) p \<noteq> Inl OutOfFuel" using assms(4) by (intro sp_terminates(3)) linarith
  then have "sp_dict f buf (errno m) p = Inl e \<Longrightarrow> e = OutOfBounds" for e using sp_faults(3) by blast
  then show ?thesis
    using dict_into_sim [OF e, of f p]
    by (cases rule: presult_cases [of "sp_dict f buf (errno m) p"]) (auto simp: elem_sim_def)
qed

theorem b_dict_parse_ends_witness:
  "(\<exists>r q m'. parse_into b_dict_alloc (b_dict_parse 11) (CP 1 0) (mem_of ''d9:ab'') = Inr ((r, q), m'))
    \<or> parse_into b_dict_alloc (b_dict_parse 11) (CP 1 0) (mem_of ''d9:ab'') = Inl OutOfBounds"
  by (rule b_dict_parse_ends [OF mem_of_ok]) (simp_all add: PTRDIFF_MAX_def)

text \<open>
  C4. No leak and no double free as long as no allocation fails: whatever the buffer contains, and whether the parse
  succeeded or was rejected half way, freeing the dictionary gives back exactly the heap before the call.
\<close>

theorem dict_parse_then_free:
  assumes "wf_mem m" "no_oom m" "objs m ba = Some (OBuf buf)" "parse_into b_dict_alloc (b_dict_parse f) (CP ba p) m = Inr ((r, q), m')"
  shows "\<exists>m''. b_dict_free r m' = Inr ((), m'') \<and> objs m'' = objs m \<and> links m'' = links m"
  using elem_sim_freed [of ba "CHR ''d''" m "mapr VDict (sp_dict f buf (errno m) p)" r q m'] dict_into_sim [of ba buf m f p] assms
  by (auto simp: free_elem_def env_def)

theorem dict_parse_then_free_witness:
  "\<exists>r q m' m''. parse_into b_dict_alloc (b_dict_parse 40) (CP 1 0) (mem_of (''d1:ali1e2:xy'' @ [NUL])) = Inr ((r, q), m')
    \<and> q = CNull \<and> b_dict_free r m' = Inr ((), m'') \<and> objs m'' = [1 \<mapsto> OBuf (''d1:ali1e2:xy'' @ [NUL])]"
proof -
  let ?b = "''d1:ali1e2:xy'' @ [NUL]"
  have e: "env 1 ?b (mem_of ?b)" by (rule env_mem_of) (simp add: PTRDIFF_MAX_def)
  have s: "sp_dict 40 ?b 0 0 = Inr (0, None)" by code_simp
  have "elem_sim 1 CHR ''d'' (mem_of ?b) (Inr (0, None)) (parse_into b_dict_alloc (b_dict_parse 40) (CP 1 0) (mem_of ?b))"
    using dict_into_sim [OF e, of 40 0] s by (simp add: mem_of_def)
  then obtain r m' where r: "parse_into b_dict_alloc (b_dict_parse 40) (CP 1 0) (mem_of ?b) = Inr ((r, CNull), m')"
    unfolding elem_sim_def by auto
  then show ?thesis using dict_parse_then_free [OF mem_of_ok r] by (auto simp: mem_of_def PTRDIFF_MAX_def)
qed

text \<open>
  \<open>b_dict_free\<close> on any well-formed object graph frees every object of the graph, each exactly
  once, and touches nothing else.
\<close>

theorem b_dict_free_exact:
  assumes "wf_mem m" "holds m pv (TDict a es)" "distinct (addrs (TDict a es))"
  shows "b_dict_free a m = Inr ((), release_all (addrs (TDict a es)) m)"
  using free_graph [OF assms, of "CHR ''d''"] by (simp add: free_elem_def tag_of_def)

definition one_dict :: mem where
  "one_dict = \<lparr>objs = [1 \<mapsto> OBDict \<lparr>bd_prev = 0\<rparr>, 2 \<mapsto> ODEnt \<lparr>de_key = key_field ''k'', de_val = 3, de_type = CHR ''i''\<rparr>,
       3 \<mapsto> OBInt \<lparr>bi_prev = 2, bi_val = 5\<rparr>],
     links = [1 \<mapsto> \<lparr>lh_next = 2, lh_prev = 2\<rparr>, 2 \<mapsto> \<lparr>lh_next = 1, lh_prev = 1\<rparr>],
     brk = 4, oom = (\<lambda>_. False), usable = (\<lambda>n. n), junk = (\<lambda>_ _. NUL), errno = 0\<rparr>"

theorem b_dict_free_exact_witness:
  "\<exists>m'. b_dict_free 1 one_dict = Inr ((), m') \<and> objs m' = Map.empty \<and> links m' = Map.empty"
proof -
  have "wf_mem one_dict" by (auto simp: one_dict_def wf_mem_def split: if_splits)
  moreover have "holds one_dict 0 (TDict 1 [(2, key_field ''k'', TInt 3 5)])"
    by (simp add: one_dict_def dll_def get_next_def get_prev_def)
  ultimately have "b_dict_free 1 one_dict = Inr ((), release_all [1, 2, 3] one_dict)"
    using b_dict_free_exact [of one_dict 0 1 "[(2, key_field ''k'', TInt 3 5)]"] by simp
  then show ?thesis by (auto simp: one_dict_def release_all_def)
qed

text \<open>
  When \<open>malloc\<close> keeps failing, the loop of \<open>b_list_parse\<close> never leaves the current element: no
  number of iterations ends it.
\<close>

theorem b_list_parse_spins:
  assumes "\<forall>a. oom m a" "objs m ba = Some (OBuf buf)" "p < length buf" "buf ! p \<noteq> CHR ''e''"
  shows "b_list_parse_loop f (CP ba p) r m = Inl OutOfFuel"
  using assms
proof (induction f arbitrary: m)
  case (Suc f)
  have fail: "malloc_obj x m = Inr (NULL, m\<lparr>brk := Suc (brk m), errno := ENOMEM\<rparr>)" "malloc_node x m = Inr (NULL, m\<lparr>brk := Suc (brk m), errno := ENOMEM\<rparr>)" for x
    using Suc.prems(1) by (simp_all add: malloc_obj_def malloc_node_def Let_def)
  have "new_elem f (buf ! p) (CP ba p) m = Inr ((NULL, CP ba p), m\<lparr>brk := Suc (brk m), errno := ENOMEM\<rparr>)"
    by (simp add: new_elem_def parse_into_def b_list_alloc_def b_int_alloc_def b_dict_alloc_def b_string_alloc_def
        run_simps fail)
  moreover have "b_list_parse_loop f (CP ba p) r (m\<lparr>brk := Suc (brk m), errno := ENOMEM\<rparr>) = Inl OutOfFuel"
    using Suc.prems by (intro Suc.IH) simp_all
  ultimately show ?case using Suc.prems unfolding b_list_parse_loop_Suc by (simp add: run_simps)
qed simp

theorem b_list_parse_spins_witness:
  "b_list_parse_loop 1000 (CP 1 1) 2 (mem_of ''li1ee''\<lparr>oom := (\<lambda>_. True)\<rparr>) = Inl OutOfFuel"
  by (rule b_list_parse_spins [where buf = "''li1ee''"]) (simp_all add: mem_of_def)

text \<open>
  C5. The announced length of a string is not compared with the size of the buffer: an announced
  length beyond the bytes that are left makes \<open>b_string_parse\<close> read outside the buffer.
\<close>

theorem b_string_parse_overrun:
  assumes "env ba buf m" "objs m t = Some (OBStr s0)" "errno m = 0"
    "drop p buf = dec n @ CHR '':'' # s" "length s < n" "n < 2 ^ 63"
  shows "b_string_parse (CP ba p) t m = Inl OutOfBounds"
proof -
  have v: "strtol_scan (zero_padded (take (min (length (dec n)) INTEGER_LEN) (drop p buf)) (INTEGER_LEN + 1))
      = Inr ((int n, False), length (dec n))"
    using strtol_field [OF assms(6)] assms(4) by simp
  have k: "strchr_scan CHR '':'' (drop p buf) = Inr (Some (length (dec n)))"
    unfolding assms(4) by (rule strchr_scan_hit) auto
  have "length buf - p = length (dec n) + 1 + length s" using arg_cong [OF assms(4), of length] by simp
  then have "length buf < p + length (dec n) + 1 + n" using assms(5) by linarith
  then have "sp_string buf (errno m) p = Inl OutOfBounds"
    using k v assms(3,5) by (simp add: sp_string_def ERANGE_def)
  then show ?thesis
    using b_string_parse_refines [of m ba buf t s0 p] assms(1,2) by (simp add: env_def)
qed

theorem b_string_parse_overrun_witness: "b_string_parse (CP 1 0) 2 (str_mem ''5:abc'') = Inl OutOfBounds"
proof (rule b_string_parse_overrun)
  have "dec 5 = ''5''" by code_simp
  then show "drop 0 ''5:abc'' = dec 5 @ CHR '':'' # ''abc''" by simp
  show "env 1 ''5:abc'' (str_mem ''5:abc'')" by (rule env_str_mem) (simp add: PTRDIFF_MAX_def)
qed simp_all

text \<open>
  A string without any length digits is accepted as the empty string, although the code
  means to reject it (the comparison of \<open>endptr\<close> with the caller's buffer can never hold).
\<close>

theorem b_string_parse_no_digits:
  assumes "env ba buf m" "objs m t = Some (OBStr s0)" "errno m = 0" "drop p buf = CHR '':'' # s"
  shows "\<exists>m' d. b_string_parse (CP ba p) t m = Inr (CP ba (p + 1), m')
    \<and> objs m' t = Some (OBStr (s0\<lparr>bs_data := CP d 0, bs_head := CP d 0, bs_len := 0\<rparr>))"
proof -
  have z: "strtol_scan (zero_padded [] (INTEGER_LEN + 1)) = Inr ((0, False), 0)" by code_simp
  have "p < length buf" using drop_hd(1) [OF assms(4)] .
  then have "sp_string buf (errno m) p = Inr (0, Some ([], p + 1))"
    using assms(3,4) z by (simp add: sp_string_def ERANGE_def)
  then show ?thesis
    using b_string_parse_refines [of m ba buf t s0 p] assms(1,2) by (auto simp: env_def)
qed

theorem b_string_parse_no_digits_witness:
  "\<exists>m' d. b_string_parse (CP 1 0) 2 (str_mem '':abc'') = Inr (CP 1 1, m')
     \<and> objs m' 2 = Some (OBStr \<lparr>bs_prev = 0, bs_data = CP d 0, bs_head = CP d 0, bs_len = 0\<rparr>)"
  using b_string_parse_no_digits [OF env_str_mem, of "'':abc''" 2 _ 0 "''abc''"]
  by (simp add: PTRDIFF_MAX_def empty_str_def)

text \<open>
  \<open>errno\<close> is consulted without ever being cleared: once any earlier call has left it set, the
  valid encoding of the empty string is rejected.
\<close>

theorem b_string_parse_stale_errno:
  assumes "env ba buf m" "objs m t = Some (OBStr s0)" "errno m \<noteq> 0" "drop p buf = enc_str [] @ rest"
  shows "b_string_parse (CP ba p) t m = Inr (CNull, m)"
proof -
  have d: "dec 0 = ''0''" by code_simp
  have z: "strtol_scan (zero_padded ''0'' (INTEGER_LEN + 1)) = Inr ((0, False), 1)" by code_simp
  have i: "min (Suc 0) INTEGER_LEN = 1" by (simp add: INTEGER_LEN_def)
  have b: "drop p buf = ''0:'' @ rest" using assms(4) d by (simp add: enc_str_def)
  then have k: "strchr_scan CHR '':'' (drop p buf) = Inr (Some 1)" by simp
  have "take (Suc 0) (drop p buf) = ''0''" using b by simp
  then have "sp_string buf (errno m) p = Inr (errno m, None)"
    using assms(3) z k i by (simp add: sp_string_def)
  then show ?thesis
    using b_string_parse_refines [of m ba buf t s0 p] assms(1,2) by (simp add: env_def)
qed

theorem b_string_parse_stale_errno_witness:
  "\<exists>m. errno m = ERANGE \<and> b_string_parse (CP 1 0) 2 m = Inr (CNull, m) \<and> objs m 1 = Some (OBuf ''0:e'')"
proof -
  let ?m = "(str_mem ''0:e'')\<lparr>errno := ERANGE\<rparr>"
  have e: "env 1 ''0:e'' (str_mem ''0:e'')" by (rule env_str_mem) (simp add: PTRDIFF_MAX_def)
  have d: "enc_str [] = ''0:''" by code_simp
  have "b_string_parse (CP 1 0) 2 ?m = Inr (CNull, ?m)"
    by (rule b_string_parse_stale_errno [of 1 "''0:e''" _ _ _ _ "''e''"])
      (use e in \<open>simp_all add: env_def ERANGE_def d\<close>)
  then show ?thesis using e by (intro exI [of _ ?m]) (simp add: env_def)
qed

text \<open>
  An integer of up to 18 digits is stored modulo \<open>2 ^ 32\<close>: values that do not fit the 32-bit
  field are accepted and silently truncated.
\<close>

theorem b_int_parse_truncates:
  assumes "env ba buf m" "objs m t = Some (OBInt i0)" "errno m = 0"
    "drop p buf = CHR ''i'' # dec n @ CHR ''e'' # rest" "n < 10 ^ 18"
  shows "\<exists>m'. b_int_parse (CP ba p) t m = Inr (CP ba (p + length (dec n) + 2), m')
    \<and> (\<exists>i. objs m' t = Some (OBInt i) \<and> unat (bi_val i) = n mod 2 ^ 32)"
proof -
  have "sp_int buf (errno m) p = Inr (0, Some (word_of_nat n, p + length (dec n) + 2))"
    using sp_int_dec [OF assms(4,5)] assms(3) by simp
  moreover have "unat (word_of_nat n :: u32) = n mod 2 ^ 32" by (simp add: unsigned_of_nat take_bit_eq_mod)
  ultimately show ?thesis
    using b_int_parse_refines [of m ba buf t i0 p] assms(1,2) by (auto simp: env_def)
qed

theorem b_int_parse_truncates_witness:
  "\<exists>m' i. b_int_parse (CP 1 0) 2 (int_mem ''i4294967298e'') = Inr (CP 1 12, m')
     \<and> objs m' 2 = Some (OBInt i) \<and> unat (bi_val i) = 2"
proof -
  have d: "dec 4294967298 = ''4294967298''" by code_simp
  have e: "env 1 ''i4294967298e'' (int_mem ''i4294967298e'')" by (rule env_int_mem) (simp add: PTRDIFF_MAX_def)
  show ?thesis
    using b_int_parse_truncates [OF e, of 2 _ 0 4294967298 "[]"] unfolding d by auto
qed

end
