(* ===== verification/List_Properties.thy ===== *)
theory List_Properties
  imports Kernel_List
begin

text \<open>
  The properties of the intrusive lists of \<^verbatim>\<open>include/list.h\<close>, each stated on the sequence of nodes
  that a ring represents.
\<close>

section \<open>A concrete ring\<close>

definition ring :: lheap where
  "ring = [1 \<mapsto> \<lparr>lh_next = 2, lh_prev = 3\<rparr>, 2 \<mapsto> \<lparr>lh_next = 3, lh_prev = 1\<rparr>,
           3 \<mapsto> \<lparr>lh_next = 1, lh_prev = 2\<rparr>, 4 \<mapsto> \<lparr>lh_next = 0, lh_prev = 0\<rparr>]"

lemma ring_dll: "dll ring 1 [2, 3]"
  by (simp add: ring_def dll_def get_next_def get_prev_def)

lemma ring_free: "ring 4 \<noteq> None"
  by (simp add: ring_def)

section \<open>Properties\<close>

text \<open>
  C6. \<open>list_add_tail\<close> appends a node to the ring of its head and \<open>list_add\<close> puts it in front; no
  node outside the ring is written.
\<close>

theorem list_add_both_ends:
  assumes "dll h l xs" "new \<notin> set (l # xs)" "h new \<noteq> None"
  shows "(\<exists>h'. list_add_tail new l h = Some h' \<and> dll h' l (xs @ [new]) \<and> keeps (set (l # new # xs)) h h')
    \<and> (\<exists>h'. list_add new l h = Some h' \<and> dll h' l (new # xs) \<and> keeps (set (l # new # xs)) h h')"
  using list_add_tail_dll [OF assms] list_add_dll [OF assms] by blast

theorem list_add_both_ends_witness:
  "(\<exists>h'. list_add_tail 4 1 ring = Some h' \<and> dll h' 1 [2, 3, 4]) \<and> (\<exists>h'. list_add 4 1 ring = Some h' \<and> dll h' 1 [4, 2, 3])"
  using list_add_both_ends [OF ring_dll _ ring_free] by auto

text \<open>
  \<open>list_del\<close> removes exactly the given node, wherever it is in the ring, and leaves the poison
  values in its links.
\<close>

theorem list_del_removes:
  assumes "dll h l xs" "e \<in> set xs"
  shows "\<exists>h'. list_del e h = Some h' \<and> dll h' l (remove1 e xs)
    \<and> h' e = Some \<lparr>lh_next = LIST_POISON1, lh_prev = LIST_POISON2\<rparr>"
proof -
  obtain ys zs where xs: "xs = ys @ e # zs" using assms(2) by (meson split_list)
  have "e \<notin> set ys" using dll_distinct [OF assms(1)] xs by auto
  then have "remove1 e xs = ys @ zs" by (simp add: xs remove1_append)
  then show ?thesis using list_del_dll [of h l ys e zs] assms(1) xs by auto
qed

theorem list_del_removes_witness:
  "\<exists>h'. list_del 2 ring = Some h' \<and> dll h' 1 [3] \<and> h' 2 = Some \<lparr>lh_next = LIST_POISON1, lh_prev = LIST_POISON2\<rparr>"
  using list_del_removes [OF ring_dll, of 2] by simp

text \<open>
  The iteration macros visit every node of the ring once, forwards with \<open>list_for_each\<close> and
  backwards with \<open>list_for_each_prev\<close>, and end after one step more than there are nodes.
\<close>

theorem list_for_each_visits:
  assumes "dll h l xs" "length xs < f"
  shows "list_for_each f l h = Some xs \<and> list_for_each_prev f l h = Some (rev xs)"
  using list_for_each_dll [OF assms] list_for_each_prev_dll [OF assms] by blast

theorem list_for_each_visits_witness:
  "list_for_each 3 1 ring = Some [2, 3] \<and> list_for_each_prev 3 1 ring = Some [3, 2]"
  using list_for_each_visits [OF ring_dll, of 3] by simp

text \<open>
  Cutting a ring behind a member and splicing the cut part back in front restores the ring.
\<close>

theorem cut_then_splice:
  assumes "dll h k (xs @ e # ys)" "l \<notin> set (k # xs @ e # ys)" "h l \<noteq> None"
  shows "\<exists>h1 h2. list_cut_position l k e h = Some h1 \<and> dll h1 l (xs @ [e]) \<and> dll h1 k ys
    \<and> list_splice_init l k h1 = Some h2 \<and> dll h2 k (xs @ e # ys) \<and> dll h2 l []"
proof -
  obtain h1 where h1: "list_cut_position l k e h = Some h1" "dll h1 l (xs @ [e])" "dll h1 k ys"
    using list_cut_position_dll [OF assms] by blast
  have "set (l # xs @ [e]) \<inter> set (k # ys) = {}" using dll_distinct [OF assms(1)] assms(2) by auto
  then obtain h2 where "list_splice_init l k h1 = Some h2" "dll h2 l []" "dll h2 k ((xs @ [e]) @ ys)"
    using list_splice_init_dll [OF h1(2,3)] by blast
  then show ?thesis using h1 by auto
qed

theorem cut_then_splice_witness:
  "\<exists>h1 h2. list_cut_position 4 1 2 ring = Some h1 \<and> dll h1 4 [2] \<and> dll h1 1 [3]
    \<and> list_splice_init 4 1 h1 = Some h2 \<and> dll h2 1 [2, 3] \<and> dll h2 4 []"
  using cut_then_splice [of ring 1 "[]" 2 "[3]" 4] ring_dll ring_free by simp

text \<open>
  Splicing concatenates: \<open>list_splice_init\<close> puts the first ring in front of the second and
  \<open>list_splice_tail_init\<close> behind it; the head that was emptied is a well-formed empty ring.
\<close>

theorem splice_concatenates:
  assumes "dll h l xs" "dll h k ys" "set (l # xs) \<inter> set (k # ys) = {}"
  shows "(\<exists>h'. list_splice_init l k h = Some h' \<and> dll h' l [] \<and> dll h' k (xs @ ys))
    \<and> (\<exists>h'. list_splice_tail_init l k h = Some h' \<and> dll h' l [] \<and> dll h' k (ys @ xs))"
  using list_splice_init_dll [OF assms] list_splice_tail_init_dll [OF assms] by blast

definition two_rings :: lheap where
  "two_rings = [1 \<mapsto> \<lparr>lh_next = 2, lh_prev = 2\<rparr>, 2 \<mapsto> \<lparr>lh_next = 1, lh_prev = 1\<rparr>,
                3 \<mapsto> \<lparr>lh_next = 4, lh_prev = 4\<rparr>, 4 \<mapsto> \<lparr>lh_next = 3, lh_prev = 3\<rparr>]"

theorem splice_concatenates_witness:
  "(\<exists>h'. list_splice_init 1 3 two_rings = Some h' \<and> dll h' 1 [] \<and> dll h' 3 [2, 4])
    \<and> (\<exists>h'. list_splice_tail_init 1 3 two_rings = Some h' \<and> dll h' 1 [] \<and> dll h' 3 [4, 2])"
proof -
  have "dll two_rings 1 [2]" "dll two_rings 3 [4]"
    by (simp_all add: two_rings_def dll_def get_next_def get_prev_def)
  then show ?thesis using splice_concatenates [of two_rings 1 "[2]" 3 "[4]"] by simp
qed

lemma rotations:
  assumes "dll h l xs"
  shows "\<exists>h'. ((\<lambda>r. Option.bind r (list_rotate_left l)) ^^ n) (Some h) = Some h' \<and> dll h' l (rotate n xs)"
proof (induction n)
  case (Suc n)
  then obtain h1 where "((\<lambda>r. Option.bind r (list_rotate_left l)) ^^ n) (Some h) = Some h1" "dll h1 l (rotate n xs)"
    by blast
  then show ?case using list_rotate_left_dll [of h1 l "rotate n xs"] by auto
qed (use assms in simp)

text \<open>
  \<open>list_rotate_left\<close> moves the first node to the end, and as many rotations as there are nodes
  give the ring back.
\<close>

theorem rotate_all_round:
  assumes "dll h l xs"
  shows "\<exists>h'. ((\<lambda>r. Option.bind r (list_rotate_left l)) ^^ length xs) (Some h) = Some h' \<and> dll h' l xs"
  using rotations [OF assms, of "length xs"] by simp

theorem rotate_all_round_witness:
  "\<exists>h'. Option.bind (list_rotate_left 1 ring) (list_rotate_left 1) = Some h' \<and> dll h' 1 [2, 3]"
  using rotate_all_round [OF ring_dll] by (simp add: numeral_2_eq_2)

end
