(* ===== verification/C_Loops.thy ===== *)
theory C_Loops
  imports B_Sim
begin

text \<open>
  The entry iteration macros of \<^verbatim>\<open>include/list.h\<close> with a body that works on the memory:
  \<open>list_for_each_entry_safe\<close>, which reads the successor of an entry before it runs the body, and
  \<open>list_for_each_entry\<close>, which reads it afterwards. A body returns \<open>Some\<close> value to leave the
  enclosing function with that value. A ring has fewer nodes than addresses were handed out,
  so the number of addresses bounds the iterations.
\<close>

section \<open>The macros\<close>

fun entry_safe_loop :: "nat \<Rightarrow> (addr \<Rightarrow> 'r option crun) \<Rightarrow> addr \<Rightarrow> addr \<Rightarrow> addr \<Rightarrow> 'r option crun" where
  "entry_safe_loop 0 body pos n head = stop OutOfFuel"
| "entry_safe_loop (Suc f) body pos n head =
     (if pos = head then ret None
      else bnd (body pos) (\<lambda>r. case r of Some x \<Rightarrow> ret (Some x) | None \<Rightarrow>
           bnd (ask_links (list_next_entry n)) (\<lambda>n'. entry_safe_loop f body n n' head)))"

definition list_for_each_entry_safe :: "(addr \<Rightarrow> 'r option crun) \<Rightarrow> addr \<Rightarrow> 'r option crun" where
  "list_for_each_entry_safe body head = (\<lambda>m.
     bnd (ask_links (list_first_entry head)) (\<lambda>pos.
     bnd (ask_links (list_next_entry pos)) (\<lambda>n.
     entry_safe_loop (Suc (brk m)) body pos n head)) m)"

fun entry_loop :: "nat \<Rightarrow> (addr \<Rightarrow> 'r option crun) \<Rightarrow> addr \<Rightarrow> addr \<Rightarrow> 'r option crun" where
  "entry_loop 0 body pos head = stop OutOfFuel"
| "entry_loop (Suc f) body pos head =
     (if pos = head then ret None
      else bnd (body pos) (\<lambda>r. case r of Some x \<Rightarrow> ret (Some x) | None \<Rightarrow>
           bnd (ask_links (list_next_entry pos)) (\<lambda>n. entry_loop f body n head)))"

definition list_for_each_entry :: "(addr \<Rightarrow> 'r option crun) \<Rightarrow> addr \<Rightarrow> 'r option crun" where
  "list_for_each_entry body head = (\<lambda>m.
     bnd (ask_links (list_first_entry head)) (\<lambda>pos. entry_loop (Suc (brk m)) body pos head) m)"

section \<open>Walking a ring that the body leaves alone\<close>

lemma ring_bound:
  assumes "wf_mem m" "dll (links m) head xs"
  shows "length xs < brk m"
proof -
  have "set (head # xs) \<subseteq> {..<brk m}"
    using dll_dom [OF assms(2)] assms(1) unfolding wf_mem_def by (metis lessThan_iff leI subsetI)
  then have "card (set (head # xs)) \<le> brk m" using card_mono [of "{..<brk m}" "set (head # xs)"] by simp
  then show ?thesis using distinct_card [OF dll_distinct [OF assms(2)]] by simp
qed

lemma entry_safe_walk:
  assumes "\<And>ys x zs m. xs = ys @ x # zs \<Longrightarrow> I ys m \<Longrightarrow> \<exists>m'. body x m = Inr (None, m') \<and> I (ys @ [x]) m'"
    and "\<And>ys m. I ys m \<Longrightarrow> dll (links m) head xs"
    and "I ys m" "xs = ys @ zs" "length zs < f"
    and "zs \<noteq> [] \<Longrightarrow> n = hd (tl zs @ [head])"
  shows "\<exists>m'. entry_safe_loop f body (hd (zs @ [head])) n head m = Inr (None, m') \<and> I xs m'"
  using assms(3-)
proof (induction zs arbitrary: ys m f n)
  case Nil
  then obtain g where "f = Suc g" by (cases f) auto
  then show ?case using Nil by simp
next
  case (Cons x zs)
  obtain g where f: "f = Suc g" using Cons.prems(3) by (cases f) auto
  obtain m1 where m1: "body x m = Inr (None, m1)" "I (ys @ [x]) m1"
    using assms(1) [OF Cons.prems(2,1)] by blast
  have d: "dll (links m1) head (ys @ x # zs)" using assms(2) [OF m1(2)] Cons.prems(2) by simp
  have "x \<noteq> head" using dll_distinct [OF d] by auto
  have n: "n = hd (zs @ [head])" using Cons.prems(4) by simp
  obtain n' where n': "get_next (links m1) n = Some n'"
    using dll_fwd [of "links m1" head "ys @ [x]" zs] d fwd_get_next_head n by fastforce
  moreover have "zs \<noteq> [] \<Longrightarrow> n' = hd (tl zs @ [head])"
    using n' dll_nth_next [of "links m1" head "ys @ [x]" "hd zs" "tl zs"] d n by (cases zs) auto
  ultimately obtain m' where "entry_safe_loop g body n n' head m1 = Inr (None, m')" "I xs m'"
    using Cons.IH [of "ys @ [x]" m1 g n'] m1(2) Cons.prems(2,3) f n by auto
  then show ?case using \<open>x \<noteq> head\<close> m1(1) n' f by (auto simp: run_simps list_next_entry_def)
qed

lemma for_each_entry_safe_walk:
  assumes "wf_mem m" "dll (links m) head xs" "I [] m"
    and "\<And>ys x zs m. xs = ys @ x # zs \<Longrightarrow> I ys m \<Longrightarrow> \<exists>m'. body x m = Inr (None, m') \<and> I (ys @ [x]) m'"
    and "\<And>ys m. I ys m \<Longrightarrow> dll (links m) head xs"
  shows "\<exists>m'. list_for_each_entry_safe body head m = Inr (None, m') \<and> I xs m'"
proof -
  have "\<exists>m'. entry_safe_loop (Suc (brk m)) body (hd (xs @ [head])) (hd (tl xs @ [head])) head m = Inr (None, m') \<and> I xs m'"
  proof (rule entry_safe_walk [where I = I and ys = "[]"])
    show "length xs < Suc (brk m)" using ring_bound [OF assms(1,2)] by simp
  qed (use assms in auto)
  then show ?thesis
    using walk_start [OF assms(2)] by (simp add: list_for_each_entry_safe_def run_simps)
qed

end
