(* ===== verification/Torrent.thy ===== *)
theory Torrent
  imports C_Loops
begin

text \<open>
  The torrent metainfo reader of \<^verbatim>\<open>src/torrent_parse.c\<close>: it parses a bencoded dictionary, moves
  the values it knows out of the dictionary into a \<open>struct torrent\<close> (leaving \<open>NULL\<close> in the entry),
  and frees what is left. The embedded \<open>struct torrent_info\<close> and \<open>struct info_multi_file\<close> have no
  address of their own: the model passes the address of the torrent, under which the list head
  \<open>info.multi.files_list\<close> lives in the link heap.
\<close>

section \<open>Allocation and destruction\<close>

definition no_file :: multi_files where
  "no_file = \<lparr>mf_length = 0, mf_path = NULL, mf_path_utf8 = NULL, mf_md5sum = NULL\<rparr>"

definition no_info :: torrent_info where
  "no_info = \<lparr>ti_piece_len = 0, ti_piece_hash = NULL, ti_private = NULL, ti_dir_name = NULL, ti_name = NULL,
     ti_name_utf8 = NULL, ti_length = 0, ti_md5sum = NULL, ti_publisher = NULL, ti_publisher_utf8 = NULL,
     ti_publisher_url = NULL, ti_publisher_url_utf8 = NULL\<rparr>"

definition no_torrent :: torrent where
  "no_torrent = \<lparr>t_announce = NULL, t_announce_list = NULL, t_comment = NULL, t_comment_utf8 = NULL,
     t_create_by = NULL, t_create_date = 0, t_encoding = 0, t_info = no_info\<rparr>"

text \<open>\<open>strncmp (vec->key, lit, KEY_LEN) == 0 && vec->type == ty\<close>\<close>

definition key_is :: "d_entry \<Rightarrow> string \<Rightarrow> byte \<Rightarrow> bool" where
  "key_is e lit ty \<longleftrightarrow> strncmp_eq (de_key e) lit KEY_LEN \<and> de_type e = ty"

definition multi_files_entry :: "addr \<Rightarrow> addr \<Rightarrow> int option crun" where
  "multi_files_entry ptr vec = bnd (ld_dent vec) (\<lambda>e.
     if key_is e ''path'' CHR ''l'' then
       bnd (upd_file ptr (\<lambda>x. x\<lparr>mf_path := de_val e\<rparr>)) (\<lambda>_.
       bnd (upd_dent vec (\<lambda>e. e\<lparr>de_val := NULL\<rparr>)) (\<lambda>_. ret None))
     else if key_is e ''path.utf-8'' CHR ''l'' then
       bnd (upd_file ptr (\<lambda>x. x\<lparr>mf_path_utf8 := de_val e\<rparr>)) (\<lambda>_.
       bnd (upd_dent vec (\<lambda>e. e\<lparr>de_val := NULL\<rparr>)) (\<lambda>_. ret None))
     else if key_is e ''length'' CHR ''i'' then
       bnd (b_int_get (de_val e)) (\<lambda>v.
       bnd (upd_file ptr (\<lambda>x. x\<lparr>mf_length := ucast v\<rparr>)) (\<lambda>_. ret None))
     else ret None)"

definition multi_files_alloc :: "addr \<Rightarrow> addr crun" where
  "multi_files_alloc dict =
     bnd (malloc_node (OFile no_file)) (\<lambda>ptr.
     if ptr \<noteq> NULL \<and> dict \<noteq> NULL then
       bnd (list_for_each_entry_safe (multi_files_entry ptr) dict) (\<lambda>_. ret ptr)
     else ret NULL)"

definition multi_files_free :: "addr \<Rightarrow> unit crun" where
  "multi_files_free ptr =
     (if ptr \<noteq> NULL then
        bnd (ld_file ptr) (\<lambda>x.
        bnd (b_list_free (mf_path x)) (\<lambda>_.
        bnd (b_list_free (mf_path_utf8 x)) (\<lambda>_.
        free_obj ptr)))
      else ret ())"

definition multi_files_add :: "addr \<Rightarrow> addr \<Rightarrow> unit crun" where
  "multi_files_add ptr head = on_links (list_add_tail ptr head)"

definition info_multi_files_free :: "addr \<Rightarrow> unit crun" where
  "info_multi_files_free ptr =
     bnd (list_for_each_entry_safe (\<lambda>vec. bnd (multi_files_free vec) (\<lambda>_. ret (None :: unit option))) ptr) (\<lambda>_.
     bnd (ld_torrent ptr) (\<lambda>t. b_string_free (ti_dir_name (t_info t))))"

definition torrent_alloc :: "addr crun" where
  "torrent_alloc =
     bnd (malloc_node (OTorrent no_torrent)) (\<lambda>ptr.
     if ptr \<noteq> NULL then bnd (on_links (INIT_LIST_HEAD ptr)) (\<lambda>_. ret ptr) else ret NULL)"

definition torrent_info_free :: "addr \<Rightarrow> int crun" where
  "torrent_info_free ptr =
     bnd (ld_torrent ptr) (\<lambda>t. let i = t_info t in
     bnd (b_string_free (ti_piece_hash i)) (\<lambda>_.
     bnd (b_string_free (ti_private i)) (\<lambda>_.
     bnd (b_string_free (ti_name i)) (\<lambda>_.
     bnd (b_string_free (ti_name_utf8 i)) (\<lambda>_.
     bnd (b_string_free (ti_md5sum i)) (\<lambda>_.
     bnd (b_string_free (ti_publisher i)) (\<lambda>_.
     bnd (b_string_free (ti_publisher_utf8 i)) (\<lambda>_.
     bnd (b_string_free (ti_publisher_url i)) (\<lambda>_.
     bnd (b_string_free (ti_publisher_url i)) (\<lambda>_.
     bnd (info_multi_files_free ptr) (\<lambda>_.
     ret 0)))))))))))"

definition torrent_free :: "addr \<Rightarrow> int crun" where
  "torrent_free ptr =
     (if ptr \<noteq> NULL then
        bnd (ld_torrent ptr) (\<lambda>t.
        bnd (b_string_free (t_announce t)) (\<lambda>_.
        bnd (b_string_free (t_comment t)) (\<lambda>_.
        bnd (b_string_free (t_comment_utf8 t)) (\<lambda>_.
        bnd (b_list_free (t_announce_list t)) (\<lambda>_.
        bnd (torrent_info_free ptr) (\<lambda>_.
        bnd (free_obj ptr) (\<lambda>_.
        ret 0)))))))
      else ret 0)"

section \<open>Reading the dictionaries\<close>

text \<open>A value that is moved into the torrent: \<open>field = vec->val; vec->val = NULL\<close>.\<close>

definition move_to_info :: "addr \<Rightarrow> addr \<Rightarrow> (torrent_info \<Rightarrow> torrent_info) \<Rightarrow> int option crun" where
  "move_to_info ptr vec f =
     bnd (upd_torrent ptr (\<lambda>t. t\<lparr>t_info := f (t_info t)\<rparr>)) (\<lambda>_.
     bnd (upd_dent vec (\<lambda>e. e\<lparr>de_val := NULL\<rparr>)) (\<lambda>_. ret None))"

definition move_to_torrent :: "addr \<Rightarrow> addr \<Rightarrow> (torrent \<Rightarrow> torrent) \<Rightarrow> int option crun" where
  "move_to_torrent ptr vec f =
     bnd (upd_torrent ptr f) (\<lambda>_.
     bnd (upd_dent vec (\<lambda>e. e\<lparr>de_val := NULL\<rparr>)) (\<lambda>_. ret None))"

definition torrent_file_entry :: "addr \<Rightarrow> addr \<Rightarrow> int option crun" where
  "torrent_file_entry ptr vec_l = bnd (ld_lent vec_l) (\<lambda>le.
     if le_type le = CHR ''d'' then
       bnd (multi_files_alloc (le_entry le)) (\<lambda>files_ptr.
       if files_ptr \<noteq> NULL then bnd (multi_files_add files_ptr ptr) (\<lambda>_. ret None)
       else ret (Some (- 1)))
     else ret None)"

definition torrent_info_entry :: "addr \<Rightarrow> addr \<Rightarrow> int option crun" where
  "torrent_info_entry ptr vec = bnd (ld_dent vec) (\<lambda>e.
     if key_is e ''piece length'' CHR ''i'' then
       bnd (b_int_get (de_val e)) (\<lambda>v.
       bnd (upd_torrent ptr (\<lambda>t. t\<lparr>t_info := t_info t\<lparr>ti_piece_len := v\<rparr>\<rparr>)) (\<lambda>_. ret None))
     else if key_is e ''pieces'' CHR ''s'' then move_to_info ptr vec (\<lambda>i. i\<lparr>ti_piece_hash := de_val e\<rparr>)
     else if key_is e ''name'' CHR ''s'' then move_to_info ptr vec (\<lambda>i. i\<lparr>ti_name := de_val e\<rparr>)
     else if key_is e ''name.utf-8'' CHR ''s'' then move_to_info ptr vec (\<lambda>i. i\<lparr>ti_name_utf8 := de_val e\<rparr>)
     else if key_is e ''length'' CHR ''i'' then
       bnd (b_int_get (de_val e)) (\<lambda>v.
       bnd (upd_torrent ptr (\<lambda>t. t\<lparr>t_info := t_info t\<lparr>ti_length := ucast v\<rparr>\<rparr>)) (\<lambda>_. ret None))
     else if key_is e ''publisher'' CHR ''s'' then move_to_info ptr vec (\<lambda>i. i\<lparr>ti_publisher := de_val e\<rparr>)
     else if key_is e ''private'' CHR ''s'' then move_to_info ptr vec (\<lambda>i. i\<lparr>ti_private := de_val e\<rparr>)
     else if key_is e ''md5sum'' CHR ''s'' then move_to_info ptr vec (\<lambda>i. i\<lparr>ti_md5sum := de_val e\<rparr>)
     else if key_is e ''publisher utf-8'' CHR ''s'' then move_to_info ptr vec (\<lambda>i. i\<lparr>ti_publisher_utf8 := de_val e\<rparr>)
     else if key_is e ''publisher url'' CHR ''s'' then move_to_info ptr vec (\<lambda>i. i\<lparr>ti_publisher_url := de_val e\<rparr>)
     else if key_is e ''publisher url utf-8'' CHR ''s'' then move_to_info ptr vec (\<lambda>i. i\<lparr>ti_publisher_url_utf8 := de_val e\<rparr>)
     else if key_is e ''files'' CHR ''l'' then list_for_each_entry_safe (torrent_file_entry ptr) (de_val e)
     else ret None)"

definition torrent_info_parse :: "addr \<Rightarrow> addr \<Rightarrow> int crun" where
  "torrent_info_parse info_dict ptr =
     bnd (list_for_each_entry_safe (torrent_info_entry ptr) info_dict) (\<lambda>r.
     case r of Some v \<Rightarrow> ret v | None \<Rightarrow> ret 0)"

definition torrent_entry :: "addr \<Rightarrow> addr \<Rightarrow> addr \<Rightarrow> int option crun" where
  "torrent_entry dict_ptr ptr vec = bnd (ld_dent vec) (\<lambda>e.
     if key_is e ''announce'' CHR ''s'' then move_to_torrent ptr vec (\<lambda>t. t\<lparr>t_announce := de_val e\<rparr>)
     else if key_is e ''announce-list'' CHR ''l'' then move_to_torrent ptr vec (\<lambda>t. t\<lparr>t_announce_list := de_val e\<rparr>)
     else if key_is e ''comment'' CHR ''s'' then move_to_torrent ptr vec (\<lambda>t. t\<lparr>t_comment := de_val e\<rparr>)
     else if key_is e ''comment-utf8'' CHR ''s'' then move_to_torrent ptr vec (\<lambda>t. t\<lparr>t_comment_utf8 := de_val e\<rparr>)
     else if key_is e ''comment'' CHR ''s'' then move_to_torrent ptr vec (\<lambda>t. t\<lparr>t_comment := de_val e\<rparr>)
     else if key_is e ''create by'' CHR ''s'' then move_to_torrent ptr vec (\<lambda>t. t\<lparr>t_create_by := de_val e\<rparr>)
     else if key_is e ''creation date'' CHR ''i'' then
       bnd (b_int_get (de_val e)) (\<lambda>v.
       bnd (upd_torrent ptr (\<lambda>t. t\<lparr>t_create_date := v\<rparr>)) (\<lambda>_. ret None))
     else if key_is e ''comment'' CHR ''s'' then move_to_torrent ptr vec (\<lambda>t. t\<lparr>t_comment := de_val e\<rparr>)
     else if key_is e ''comment-utf8'' CHR ''s'' then move_to_torrent ptr vec (\<lambda>t. t\<lparr>t_comment_utf8 := de_val e\<rparr>)
     else if key_is e ''info'' CHR ''d'' then
       bnd (torrent_info_parse (de_val e) ptr) (\<lambda>r.
       if 0 = r then ret None
       else bnd (b_dict_free dict_ptr) (\<lambda>_. ret (Some (- 1))))
     else ret None)"

definition torrent_parse :: "nat \<Rightarrow> cptr \<Rightarrow> addr \<Rightarrow> int crun" where
  "torrent_parse f buf ptr =
     bnd b_dict_alloc (\<lambda>dict_ptr.
     bnd (chk (buf \<noteq> CNull) AssertFailed) (\<lambda>_.
     if dict_ptr \<noteq> NULL then
       bnd (b_dict_parse f buf dict_ptr) (\<lambda>t.
       if t = CNull then bnd (b_dict_free dict_ptr) (\<lambda>_. ret (- 1))
       else
         bnd (list_for_each_entry_safe (torrent_entry dict_ptr ptr) dict_ptr) (\<lambda>r.
         case r of Some v \<Rightarrow> ret v
         | None \<Rightarrow> bnd (b_dict_free dict_ptr) (\<lambda>_. ret 0)))
     else ret (- 1)))"

end
