(* ===== verification/Bt_Timer.thy ===== *)
theory Bt_Timer
  imports C_Loops
begin

text \<open>
  The timers of \<^verbatim>\<open>src/bt_timer.c\<close>: one static list of timers, sorted by interval, driven by
  \<open>SIGALRM\<close> once per second.

  The state is the memory with the static \<open>timer_list\<close>; its list head lives in the link heap at
  \<open>TIMER_LIST\<close>. The functions the timers call (\<open>callback\<close>) are a parameter of the handler, as are
  the results of \<open>signal\<close> and \<open>setitimer\<close>.
\<close>

section \<open>State\<close>

datatype BT_TIMER_TYPE = BT_TIMER_SINGLE | BT_TIMER_REPEAT

definition timer_type_code :: "BT_TIMER_TYPE \<Rightarrow> int" where
  "timer_type_code ty = (case ty of BT_TIMER_SINGLE \<Rightarrow> 0 | BT_TIMER_REPEAT \<Rightarrow> 1)"

record itimerval =
  it_value_sec :: int
  it_value_usec :: int
  it_interval_sec :: int
  it_interval_usec :: int

datatype sighandler = SigDefault | SigErr | BtTimerFunc | OtherHandler nat

record bt_timer_list =
  btl_value :: itimerval
  btl_ovalue :: itimerval
  btl_old_sigfunc :: sighandler
  btl_new_sigfunc :: sighandler
  btl_num :: u32

text \<open>The address of the static list head \<open>timer_list.list\<close>.\<close>

definition TIMER_LIST :: addr where "TIMER_LIST = 1"

record tstate =
  t_mem :: mem
  t_list :: bt_timer_list
  t_sigalrm :: sighandler

type_synonym 'a trun = "(tstate, 'a) run"

definition on_mem :: "'a crun \<Rightarrow> 'a trun" where
  "on_mem f = (\<lambda>s. case f (t_mem s) of Inl e \<Rightarrow> Inl e | Inr (x, m) \<Rightarrow> Inr (x, s\<lparr>t_mem := m\<rparr>))"

text \<open>A callback is given the timer's id and data; it may change the state.\<close>

type_synonym timer_expired = "nat \<Rightarrow> u32 \<Rightarrow> addr \<Rightarrow> unit trun"

section \<open>The list\<close>

definition position_body :: "u32 \<Rightarrow> addr \<Rightarrow> addr option crun" where
  "position_body interval vec =
     bnd (ld_timer vec) (\<lambda>t. ret (if interval < tm_interval t then Some vec else None))"

definition get_position :: "u32 \<Rightarrow> addr \<Rightarrow> addr crun" where
  "get_position interval lst =
     bnd (list_for_each_entry (position_body interval) lst) (\<lambda>r.
     case r of Some vec \<Rightarrow> ret vec | None \<Rightarrow> ret lst)"

definition bt_timer_add :: "nat \<Rightarrow> addr \<Rightarrow> u32 \<Rightarrow> int \<Rightarrow> addr trun" where
  "bt_timer_add func data interval ty =
     bnd (on_mem (malloc_node (OTimer \<lparr>tm_id = 0, tm_callback = 0, tm_data = NULL, tm_type = 0,
            tm_interval = 0, tm_elapse = 0\<rparr>))) (\<lambda>ptr.
     bnd (chk (ptr \<noteq> NULL) NullDeref) (\<lambda>_.
     bnd (\<lambda>s. Inr (btl_num (t_list s), s\<lparr>t_list := t_list s\<lparr>btl_num := btl_num (t_list s) + 1\<rparr>\<rparr>)) (\<lambda>n.
     bnd (on_mem (upd_timer ptr (\<lambda>t. t\<lparr>tm_id := n, tm_callback := func, tm_data := data, tm_type := ty,
            tm_elapse := 0, tm_interval := interval\<rparr>))) (\<lambda>_.
     bnd (on_mem (get_position interval TIMER_LIST)) (\<lambda>pos.
     bnd (on_mem (on_links (list_add_tail ptr pos))) (\<lambda>_.
     ret ptr))))))"

definition bt_timer_del :: "addr \<Rightarrow> unit trun" where
  "bt_timer_del ptr =
     bnd (on_mem (on_links (list_del ptr))) (\<lambda>_. on_mem (free_obj ptr))"

definition bt_timer_update :: "addr \<Rightarrow> unit trun" where
  "bt_timer_update ptr =
     bnd (on_mem (on_links (list_del ptr))) (\<lambda>_.
     bnd (on_mem (upd_timer ptr (\<lambda>t. t\<lparr>tm_elapse := 0\<rparr>))) (\<lambda>_.
     bnd (on_mem (ld_timer ptr)) (\<lambda>t.
     bnd (on_mem (get_position (tm_interval t) TIMER_LIST)) (\<lambda>pos.
     on_mem (on_links (list_add_tail ptr pos))))))"

section \<open>The signal handler\<close>

text \<open>
  The body of the handler's loop for one timer. Without a bound on what the callbacks do, the
  loop itself is given a number of iterations.
\<close>

definition bt_timer_visit :: "timer_expired \<Rightarrow> addr \<Rightarrow> unit trun" where
  "bt_timer_visit cb vec =
     bnd (on_mem (upd_timer vec (\<lambda>t. t\<lparr>tm_elapse := tm_elapse t + 1\<rparr>))) (\<lambda>_.
     bnd (on_mem (ld_timer vec)) (\<lambda>t.
     if tm_interval t \<le> tm_elapse t then
       bnd (on_mem (upd_timer vec (\<lambda>t. t\<lparr>tm_elapse := 0\<rparr>))) (\<lambda>_.
       bnd (cb (tm_callback t) (tm_id t) (tm_data t)) (\<lambda>_.
       bnd (on_mem (on_links (list_del vec))) (\<lambda>_.
       bnd (on_mem (ld_timer vec)) (\<lambda>t.
       if tm_type t \<noteq> timer_type_code BT_TIMER_SINGLE then
         bnd (on_mem (get_position (tm_interval t) TIMER_LIST)) (\<lambda>pos.
         on_mem (on_links (list_add_tail vec pos)))
       else ret ()))))
     else ret ()))"

fun bt_timer_loop :: "nat \<Rightarrow> timer_expired \<Rightarrow> addr \<Rightarrow> addr \<Rightarrow> unit trun" where
  "bt_timer_loop 0 cb vec tmp = stop OutOfFuel"
| "bt_timer_loop (Suc f) cb vec tmp =
     (if vec = TIMER_LIST then ret ()
      else bnd (bt_timer_visit cb vec) (\<lambda>_.
           bnd (on_mem (ask_links (list_next_entry tmp))) (\<lambda>n. bt_timer_loop f cb tmp n)))"

definition bt_timer_func :: "nat \<Rightarrow> timer_expired \<Rightarrow> unit trun" where
  "bt_timer_func f cb =
     bnd (on_mem (ask_links (list_first_entry TIMER_LIST))) (\<lambda>vec.
     bnd (on_mem (ask_links (list_next_entry vec))) (\<lambda>tmp.
     bt_timer_loop f cb vec tmp))"

section \<open>Set-up and tear-down\<close>

definition zero_itimer :: itimerval where
  "zero_itimer = \<lparr>it_value_sec = 0, it_value_usec = 0, it_interval_sec = 0, it_interval_usec = 0\<rparr>"

definition zero_timer_list :: bt_timer_list where
  "zero_timer_list = \<lparr>btl_value = zero_itimer, btl_ovalue = zero_itimer, btl_old_sigfunc = SigDefault,
     btl_new_sigfunc = SigDefault, btl_num = 0\<rparr>"

text \<open>
  \<open>sig\<close> is what \<open>signal\<close> returns, \<open>setit\<close> the result of \<open>setitimer\<close> and the previous timer it reports.
\<close>

definition bt_timer_init :: "sighandler \<Rightarrow> int \<times> itimerval \<Rightarrow> int trun" where
  "bt_timer_init sig setit =
     bnd (\<lambda>s. Inr ((), s\<lparr>t_list := zero_timer_list\<rparr>)) (\<lambda>_.
     bnd (on_mem (on_links (INIT_LIST_HEAD TIMER_LIST))) (\<lambda>_.
     bnd (\<lambda>s. Inr ((), s\<lparr>t_list := t_list s\<lparr>btl_old_sigfunc := sig\<rparr>,
            t_sigalrm := (if sig = SigErr then t_sigalrm s else BtTimerFunc)\<rparr>)) (\<lambda>_.
     if sig = SigErr then ret (- 1)
     else
       bnd (\<lambda>s. Inr ((), s\<lparr>t_list := t_list s\<lparr>btl_new_sigfunc := BtTimerFunc,
              btl_value := \<lparr>it_value_sec = 0, it_value_usec = 1, it_interval_sec = 1, it_interval_usec = 0\<rparr>,
              btl_ovalue := snd setit\<rparr>\<rparr>)) (\<lambda>_.
       ret (fst setit)))))"

fun bt_timer_finit_loop :: "nat \<Rightarrow> addr \<Rightarrow> addr \<Rightarrow> unit trun" where
  "bt_timer_finit_loop 0 vec tmp = stop OutOfFuel"
| "bt_timer_finit_loop (Suc f) vec tmp =
     (if vec = TIMER_LIST then ret ()
      else bnd (bt_timer_del vec) (\<lambda>_.
           bnd (on_mem (ask_links (list_next_entry tmp))) (\<lambda>n. bt_timer_finit_loop f tmp n)))"

definition bt_timer_finit :: "unit trun" where
  "bt_timer_finit = (\<lambda>s.
     bnd (\<lambda>s. Inr ((), s\<lparr>t_sigalrm := btl_old_sigfunc (t_list s)\<rparr>)) (\<lambda>_.
     bnd (on_mem (ask_links (list_first_entry TIMER_LIST))) (\<lambda>vec.
     bnd (on_mem (ask_links (list_next_entry vec))) (\<lambda>tmp.
     bnd (bt_timer_finit_loop (Suc (brk (t_mem s))) vec tmp) (\<lambda>_.
     bnd (on_mem (\<lambda>m. Inr ((), m\<lparr>links := (links m)(TIMER_LIST \<mapsto> \<lparr>lh_next = NULL, lh_prev = NULL\<rparr>)\<rparr>))) (\<lambda>_.
     (\<lambda>s. Inr ((), s\<lparr>t_list := zero_timer_list\<rparr>))))))) s)"

section \<open>Sorted timer lists\<close>

lemma on_mem_run [run_simps]:
  "f (t_mem s) = Inr (x, m) \<Longrightarrow> on_mem f s = Inr (x, s\<lparr>t_mem := m\<rparr>)"
  "f (t_mem s) = Inl e \<Longrightarrow> on_mem f s = Inl e"
  by (simp_all add: on_mem_def)

definition timer_at :: "mem \<Rightarrow> addr \<Rightarrow> bt_timer" where
  "timer_at m x = (case objs m x of Some (OTimer t) \<Rightarrow> t | _ \<Rightarrow> undefined)"

definition intv :: "mem \<Rightarrow> addr \<Rightarrow> u32" where
  "intv m x = tm_interval (timer_at m x)"

definition is_timer :: "mem \<Rightarrow> addr \<Rightarrow> bool" where
  "is_timer m x \<longleftrightarrow> objs m x = Some (OTimer (timer_at m x))"

text \<open>The invariant of the module: the timers \<open>xs\<close> are linked in order of their intervals.\<close>

definition timers :: "mem \<Rightarrow> addr list \<Rightarrow> bool" where
  "timers m xs \<longleftrightarrow> wf_mem m \<and> dll (links m) TIMER_LIST xs \<and> (\<forall>x\<in>set xs. is_timer m x)
     \<and> sorted (map (intv m) xs)"

lemma timer_atI: "objs m x = Some (OTimer t) \<Longrightarrow> timer_at m x = t"
  by (simp add: timer_at_def)

lemma is_timerI: "objs m x = Some (OTimer t) \<Longrightarrow> is_timer m x"
  unfolding is_timer_def timer_at_def by simp

lemma position_body_run:
  "is_timer m x \<Longrightarrow> position_body i x m = Inr (if i < intv m x then Some x else None, m)"
  unfolding position_body_def intv_def is_timer_def by (drule ld_runs(9)) (simp add: bnd_def)

lemma position_loop:
  assumes "dll (links m) l (ys @ zs)" "\<forall>x\<in>set zs. is_timer m x" "length zs < f"
  shows "entry_loop f (position_body i) (hd (zs @ [l])) l m
    = Inr (case dropWhile (\<lambda>x. intv m x \<le> i) zs of [] \<Rightarrow> None | x # _ \<Rightarrow> Some x, m)"
  using assms
proof (induction zs arbitrary: ys f)
  case Nil
  obtain g where "f = Suc g" using Nil.prems(3) by (cases f) auto
  then show ?case by simp
next
  case (Cons x zs)
  obtain g where f: "f = Suc g" using Cons.prems(3) by (cases f) auto
  have x: "is_timer m x" using Cons.prems(2) by simp
  have "x \<noteq> l" using dll_distinct [OF Cons.prems(1)] by auto
  moreover have "get_next (links m) x = Some (hd (zs @ [l]))" using dll_nth_next [OF Cons.prems(1)] .
  moreover have "entry_loop g (position_body i) (hd (zs @ [l])) l m
    = Inr (case dropWhile (\<lambda>x. intv m x \<le> i) zs of [] \<Rightarrow> None | x # _ \<Rightarrow> Some x, m)"
    using Cons.IH [of "ys @ [x]" g] Cons.prems f by simp
  ultimately show ?case
    using x by (cases "i < intv m x")
      (simp_all add: f run_simps list_next_entry_def position_body_run del: not_less flip: not_less)
qed

lemma get_position_run:
  assumes "wf_mem m" "dll (links m) l xs" "\<forall>x\<in>set xs. is_timer m x"
  shows "get_position i l m = Inr (hd (dropWhile (\<lambda>x. intv m x \<le> i) xs @ [l]), m)"
proof -
  have "length xs < Suc (brk m)" using ring_bound [OF assms(1,2)] by simp
  with position_loop [of m l "[]" xs "Suc (brk m)" i] assms(2,3)
  show ?thesis using walk_start(1) [OF assms(2)]
    by (cases "dropWhile (\<lambda>x. intv m x \<le> i) xs")
      (simp_all add: get_position_def list_for_each_entry_def run_simps del: entry_loop.simps dropWhile_eq_Nil_conv)
qed

text \<open>Inserting a timer that is not in the ring at the position for its interval.\<close>

lemma insert_timer:
  assumes t: "timers m xs" and x: "is_timer m x" "x \<notin> set xs" "links m x \<noteq> None" "x \<noteq> TIMER_LIST"
  shows "\<exists>m'. bnd (get_position (intv m x) TIMER_LIST) (\<lambda>pos. on_links (list_add_tail x pos)) m = Inr ((), m')
    \<and> timers m' (insort_after (intv m) x xs) \<and> objs m' = objs m \<and> brk m' = brk m \<and> oom m' = oom m"
proof -
  have d: "wf_mem m" "dll (links m) TIMER_LIST xs" "\<forall>x\<in>set xs. is_timer m x" "sorted (map (intv m) xs)"
    using t by (simp_all add: timers_def)
  obtain h where h: "list_add_tail x (hd (dropWhile (\<lambda>y. intv m y \<le> intv m x) xs @ [TIMER_LIST])) (links m) = Some h"
      "dll h TIMER_LIST (insort_after (intv m) x xs)" "sorted (map (intv m) (insort_after (intv m) x xs))"
      "\<forall>a. (h a \<noteq> None) = (links m a \<noteq> None)"
    using list_h.insert_sorted [OF d(2) _ x(3) d(4)] x(2,4) by auto
  let ?m = "m\<lparr>links := h\<rparr>"
  have "(h a = None) = (links m a = None)" for a using h(4) by blast
  then have "wf_mem ?m" using d(1) by (simp add: wf_mem_def)
  moreover have i: "intv ?m = intv m" "is_timer ?m = is_timer m"
    by (auto simp: intv_def timer_at_def is_timer_def fun_eq_iff)
  ultimately have "timers ?m (insort_after (intv m) x xs)"
    using h d(3) x(1) by (simp add: timers_def)
  then show ?thesis using h(1) get_position_run [OF d(1-3), of "intv m x"] by (simp add: run_simps)
qed

lemma unlink_timer:
  assumes "timers m (xs @ x # ys)"
  shows "\<exists>m'. on_links (list_del x) m = Inr ((), m') \<and> timers m' (xs @ ys) \<and> objs m' = objs m \<and> brk m' = brk m
    \<and> oom m' = oom m \<and> links m' x = Some \<lparr>lh_next = LIST_POISON1, lh_prev = LIST_POISON2\<rparr>
    \<and> (\<forall>a. (links m' a = None) = (links m a = None))"
proof -
  have d: "wf_mem m" "dll (links m) TIMER_LIST (xs @ x # ys)" "\<forall>y\<in>set (xs @ x # ys). is_timer m y"
      "sorted (map (intv m) (xs @ x # ys))"
    using assms by (simp_all add: timers_def)
  obtain h where h: "list_del x (links m) = Some h" "dll h TIMER_LIST (xs @ ys)"
      "h x = Some \<lparr>lh_next = LIST_POISON1, lh_prev = LIST_POISON2\<rparr>" "keeps (set (TIMER_LIST # xs @ x # ys)) (links m) h"
    using list_del_dll [OF d(2)] by blast
  let ?m = "m\<lparr>links := h\<rparr>"
  note live = keeps_live [OF h(4)]
  have "wf_mem ?m" using d(1) live by (simp add: wf_mem_def)
  moreover have i: "intv ?m = intv m" "is_timer ?m = is_timer m"
    by (auto simp: intv_def timer_at_def is_timer_def fun_eq_iff)
  ultimately have "timers ?m (xs @ ys)"
    using h(2) d(3,4) by (simp add: timers_def sorted_append)
  then show ?thesis using h(1,3) live by (simp add: run_simps)
qed

lemma timers_upd:
  assumes "is_timer m x" "tm_interval t = intv m x"
  shows "timers m xs \<Longrightarrow> timers (m\<lparr>objs := (objs m)(x \<mapsto> OTimer t)\<rparr>) xs"
    "intv (m\<lparr>objs := (objs m)(x \<mapsto> OTimer t)\<rparr>) = intv m"
proof -
  let ?m = "m\<lparr>objs := (objs m)(x \<mapsto> OTimer t)\<rparr>"
  have x: "objs m x \<noteq> None" using assms(1) by (simp add: is_timer_def)
  have at: "timer_at ?m y = (if y = x then t else timer_at m y)" for y by (simp add: timer_at_def)
  have "is_timer ?m y = is_timer m y" for y using assms(1) by (cases "y = x") (simp_all add: is_timer_def at)
  moreover show i: "intv ?m = intv m" using assms(2) by (auto simp: intv_def at fun_eq_iff)
  moreover have "wf_mem ?m" if "wf_mem m"
    using that x wf_live_not_null [OF that x] wf_live_less [OF that x] unfolding wf_mem_def by auto
  ultimately show "timers m xs \<Longrightarrow> timers ?m xs" unfolding timers_def by simp
qed

lemma timers_live:
  assumes "timers m xs" "x \<in> set xs"
  shows "is_timer m x" "links m x \<noteq> None" "x \<noteq> TIMER_LIST" "x < brk m" "x \<noteq> NULL"
proof -
  have d: "wf_mem m" "dll (links m) TIMER_LIST xs" using assms(1) by (simp_all add: timers_def)
  show t: "is_timer m x" using assms by (simp add: timers_def)
  show "links m x \<noteq> None" using dll_dom [OF d(2)] assms(2) by simp
  show "x \<noteq> TIMER_LIST" using dll_distinct [OF d(2)] assms(2) by auto
  show "x < brk m" "x \<noteq> NULL" using wf_live_less [OF d(1)] wf_live_not_null [OF d(1)] t by (simp_all add: is_timer_def)
qed

lemma timers_distinct: "timers m xs \<Longrightarrow> distinct xs"
  using dll_distinct by (fastforce simp: timers_def)

lemma timer_upd_run:
  "is_timer m x \<Longrightarrow> upd_timer x f m = Inr ((), m\<lparr>objs := (objs m)(x \<mapsto> OTimer (f (timer_at m x)))\<rparr>)"
  "is_timer m x \<Longrightarrow> ld_timer x m = Inr (timer_at m x, m)"
  unfolding is_timer_def by (rule upd_runs(9) ld_runs(9), assumption)+

section \<open>The operations keep the list sorted\<close>

lemma bt_timer_add_run:
  assumes t: "timers (t_mem s) xs" and o: "no_oom (t_mem s)"
  shows "\<exists>s'. bt_timer_add func data i ty s = Inr (brk (t_mem s), s')
    \<and> timers (t_mem s') (insort_after (intv (t_mem s')) (brk (t_mem s)) xs)
    \<and> timer_at (t_mem s') (brk (t_mem s)) = \<lparr>tm_id = btl_num (t_list s), tm_callback = func, tm_data = data, tm_type = ty,
        tm_interval = i, tm_elapse = 0\<rparr>
    \<and> t_list s' = t_list s\<lparr>btl_num := btl_num (t_list s) + 1\<rparr>
    \<and> (\<forall>x\<in>set xs. timer_at (t_mem s') x = timer_at (t_mem s) x)"
proof -
  let ?m = "t_mem s" let ?x = "brk ?m"
  let ?z = "\<lparr>tm_id = 0, tm_callback = 0, tm_data = NULL, tm_type = 0, tm_interval = 0, tm_elapse = 0\<rparr>"
  let ?t = "\<lparr>tm_id = btl_num (t_list s), tm_callback = func, tm_data = data, tm_type = ty, tm_interval = i, tm_elapse = 0\<rparr>"
  have w: "wf_mem ?m" "dll (links ?m) TIMER_LIST xs" using t by (simp_all add: timers_def)
  obtain m1 where m1: "malloc_node (OTimer ?z) ?m = Inr (?x, m1)" "grown ?m m1 {} [?x]" "objs m1 ?x = Some (OTimer ?z)"
      "links m1 ?x \<noteq> None"
    using malloc_node_grown [OF w(1) o, of "OTimer ?z"] by auto
  let ?m2 = "m1\<lparr>objs := (objs m1)(?x \<mapsto> OTimer ?t)\<rparr>"
  have g2: "grown ?m ?m2 {} [?x]"
    using m1(3) grown_new [OF m1(2)] brk_not_null [OF w(1)] by (intro grown_upd [OF m1(2)]) auto
  have lt: "y < ?x" if "y \<in> set (TIMER_LIST # xs)" for y
    using dll_dom [OF w(2) that] w(1) unfolding wf_mem_def by (metis leI)
  have ag: "agree (set (TIMER_LIST # xs)) ?m ?m2" using lt by (intro grown_agree [OF g2]) auto
  have same: "timer_at ?m2 y = timer_at ?m y" "is_timer ?m2 y = is_timer ?m y" if "y \<in> set xs" for y
    using ag that by (simp_all add: agree_def timer_at_def is_timer_def)
  have "dll (links ?m2) TIMER_LIST xs"
    using w(2) ag by (subst dll_frame [of TIMER_LIST xs "links ?m2" "links ?m"]) (auto simp: agree_def)
  moreover have "map (intv ?m2) xs = map (intv ?m) xs" using same(1) by (simp add: intv_def)
  then have "sorted (map (intv ?m2) xs)" using t unfolding timers_def by metis
  ultimately have t2: "timers ?m2 xs" using t same(2) grown_wf [OF g2] by (simp add: timers_def)
  have x2: "is_timer ?m2 ?x" "timer_at ?m2 ?x = ?t" by (simp_all add: is_timer_def timer_at_def)
  moreover have "?x \<notin> set xs" "?x \<noteq> TIMER_LIST" using lt by (metis less_irrefl list.set_intros)+
  moreover have "intv ?m2 ?x = i" by (simp add: intv_def x2)
  ultimately obtain m3 where m3: "bnd (get_position i TIMER_LIST) (\<lambda>pos. on_links (list_add_tail ?x pos)) ?m2 = Inr ((), m3)"
      "timers m3 (insort_after (intv ?m2) ?x xs)" "objs m3 = objs ?m2"
    using insert_timer [OF t2, of ?x] m1(4) by auto
  then obtain pos where "get_position i TIMER_LIST ?m2 = Inr (pos, ?m2)" "on_links (list_add_tail ?x pos) ?m2 = Inr ((), m3)"
    using get_position_run [of ?m2 TIMER_LIST xs i] t2 by (auto simp: bnd_def timers_def)
  moreover have "timer_at m3 = timer_at ?m2" "intv m3 = intv ?m2" using m3(3) by (auto simp: timer_at_def intv_def fun_eq_iff)
  ultimately show ?thesis
    using m1 m3 x2 same(1) brk_not_null [OF w(1)] by (simp add: bt_timer_add_def run_simps)
qed

lemma bt_timer_update_run:
  assumes t: "timers (t_mem s) (xs @ x # ys)"
  shows "\<exists>s'. bt_timer_update x s = Inr ((), s') \<and> timers (t_mem s') (insort_after (intv (t_mem s)) x (xs @ ys))
    \<and> objs (t_mem s') = (objs (t_mem s))(x \<mapsto> OTimer ((timer_at (t_mem s) x)\<lparr>tm_elapse := 0\<rparr>)) \<and> t_list s' = t_list s"
proof -
  let ?m = "t_mem s" and ?t = "(timer_at (t_mem s) x)\<lparr>tm_elapse := 0\<rparr>"
  obtain m1 where m1: "on_links (list_del x) ?m = Inr ((), m1)" "timers m1 (xs @ ys)" "objs m1 = objs ?m"
      "links m1 x \<noteq> None"
    using unlink_timer [OF t] by auto
  have x: "is_timer ?m x" "x \<noteq> TIMER_LIST" "x \<notin> set (xs @ ys)"
    using timers_live(1,3) [OF t] timers_distinct [OF t] by auto
  have at1: "timer_at m1 = timer_at ?m" "is_timer m1 x" "intv m1 = intv ?m"
    using m1(3) x(1) by (auto simp: timer_at_def is_timer_def intv_def fun_eq_iff)
  let ?m2 = "m1\<lparr>objs := (objs m1)(x \<mapsto> OTimer ?t)\<rparr>"
  have i: "intv ?m2 = intv ?m" and t2: "timers ?m2 (xs @ ys)"
    using timers_upd [OF at1(2), of ?t] m1(2) at1(3) by (simp_all add: intv_def)
  have x2: "is_timer ?m2 x" "timer_at ?m2 x = ?t" by (simp_all add: is_timer_def timer_at_def)
  obtain m3 where m3: "bnd (get_position (intv ?m x) TIMER_LIST) (\<lambda>pos. on_links (list_add_tail x pos)) ?m2 = Inr ((), m3)"
      "timers m3 (insort_after (intv ?m) x (xs @ ys))" "objs m3 = objs ?m2"
    using insert_timer [OF t2 x2(1) x(3)] m1(4) x(2) i by auto
  then obtain pos where "get_position (intv ?m x) TIMER_LIST ?m2 = Inr (pos, ?m2)" "on_links (list_add_tail x pos) ?m2 = Inr ((), m3)"
    using get_position_run [of ?m2 TIMER_LIST "xs @ ys" "intv ?m x"] t2 by (auto simp: bnd_def timers_def)
  moreover have "upd_timer x (\<lambda>t. t\<lparr>tm_elapse := 0\<rparr>) m1 = Inr ((), ?m2)" using timer_upd_run(1) [OF at1(2)] at1(1) by simp
  moreover have "ld_timer x ?m2 = Inr (?t, ?m2)" using timer_upd_run(2) [OF x2(1)] x2(2) by simp
  ultimately show ?thesis
    using m1 m3 by (simp add: bt_timer_update_def run_simps intv_def)
qed

lemma bt_timer_del_run:
  assumes t: "timers (t_mem s) (xs @ x # ys)"
  shows "\<exists>s'. bt_timer_del x s = Inr ((), s') \<and> timers (t_mem s') (xs @ ys)
    \<and> objs (t_mem s') = (objs (t_mem s))(x := None) \<and> t_list s' = t_list s \<and> t_sigalrm s' = t_sigalrm s
    \<and> brk (t_mem s') = brk (t_mem s) \<and> links (t_mem s') x = None"
proof -
  obtain m1 where m1: "on_links (list_del x) (t_mem s) = Inr ((), m1)" "timers m1 (xs @ ys)" "objs m1 = objs (t_mem s)"
      "brk m1 = brk (t_mem s)"
    using unlink_timer [OF t] by auto
  have x: "objs m1 x \<noteq> None" "x \<noteq> NULL" using timers_live(1,5) [OF t, of x] m1(3) by (auto simp: is_timer_def)
  have "x \<notin> set (TIMER_LIST # xs @ ys)" using timers_live(3) [OF t] timers_distinct [OF t] by auto
  let ?m2 = "release_all [x] m1"
  have "dll (links ?m2) TIMER_LIST (xs @ ys)"
    using m1(2) \<open>x \<notin> _\<close> by (subst dll_frame [of TIMER_LIST "xs @ ys" "links ?m2" "links m1"]) (auto simp: timers_def)
  moreover have "timer_at ?m2 y = timer_at m1 y" "is_timer ?m2 y = is_timer m1 y" if "y \<in> set (xs @ ys)" for y
    using that \<open>x \<notin> _\<close> by (auto simp: timer_at_def is_timer_def)
  then have "map (intv ?m2) (xs @ ys) = map (intv m1) (xs @ ys)" "\<forall>y\<in>set (xs @ ys). is_timer ?m2 y"
    using m1(2) by (auto simp: intv_def timers_def)
  ultimately have "timers ?m2 (xs @ ys)"
    using m1(2) wf_release_all unfolding timers_def by metis
  moreover have "objs ?m2 = (objs (t_mem s))(x := None)" using m1(3) by auto
  ultimately show ?thesis
    using m1 x by (auto simp: bt_timer_del_def run_simps)
qed

section \<open>The signal handler\<close>

text \<open>A callback that returns without changing anything.\<close>

definition quiet :: timer_expired where
  "quiet c i d = ret ()"

lemma visit_waiting:
  assumes "is_timer (t_mem s) x" "\<not> tm_interval (timer_at (t_mem s) x) \<le> tm_elapse (timer_at (t_mem s) x) + 1"
  shows "bt_timer_visit cb x s = Inr ((), s\<lparr>t_mem := (t_mem s)\<lparr>objs :=
    (objs (t_mem s))(x \<mapsto> OTimer ((timer_at (t_mem s) x)\<lparr>tm_elapse := tm_elapse (timer_at (t_mem s) x) + 1\<rparr>))\<rparr>\<rparr>)"
proof -
  let ?t = "(timer_at (t_mem s) x)\<lparr>tm_elapse := tm_elapse (timer_at (t_mem s) x) + 1\<rparr>"
  let ?m = "(t_mem s)\<lparr>objs := (objs (t_mem s))(x \<mapsto> OTimer ?t)\<rparr>"
  have "ld_timer x ?m = Inr (?t, ?m)" by (simp add: ld_timer_def)
  then show ?thesis using timer_upd_run(1) [OF assms(1)] assms(2) by (simp add: bt_timer_visit_def run_simps)
qed

lemma expired_start:
  assumes "is_timer (t_mem s) x" "tm_interval (timer_at (t_mem s) x) \<le> tm_elapse (timer_at (t_mem s) x) + 1"
  shows "bt_timer_visit quiet x s =
    bnd (on_mem (on_links (list_del x))) (\<lambda>_. bnd (on_mem (ld_timer x)) (\<lambda>t.
       if tm_type t \<noteq> timer_type_code BT_TIMER_SINGLE then
         bnd (on_mem (get_position (tm_interval t) TIMER_LIST)) (\<lambda>pos. on_mem (on_links (list_add_tail x pos)))
       else ret ()))
    (s\<lparr>t_mem := (t_mem s)\<lparr>objs := (objs (t_mem s))(x \<mapsto> OTimer ((timer_at (t_mem s) x)\<lparr>tm_elapse := 0\<rparr>))\<rparr>\<rparr>)"
proof -
  let ?m = "t_mem s" and ?t = "timer_at (t_mem s) x"
  let ?t1 = "?t\<lparr>tm_elapse := tm_elapse ?t + 1\<rparr>" and ?t2 = "?t\<lparr>tm_elapse := 0\<rparr>"
  let ?m1 = "?m\<lparr>objs := (objs ?m)(x \<mapsto> OTimer ?t1)\<rparr>" and ?m2 = "?m\<lparr>objs := (objs ?m)(x \<mapsto> OTimer ?t2)\<rparr>"
  have "ld_timer x ?m1 = Inr (?t1, ?m1)" by (simp add: ld_timer_def)
  moreover have "upd_timer x (\<lambda>t. t\<lparr>tm_elapse := 0\<rparr>) ?m1 = Inr ((), ?m2)"
    using upd_runs(9) [of ?m1 x ?t1 "\<lambda>t. t\<lparr>tm_elapse := 0\<rparr>"] by simp
  ultimately show ?thesis
    using timer_upd_run(1) [OF assms(1)] assms(2) by (simp add: bt_timer_visit_def run_simps quiet_def)
qed

lemma visit_repeat:
  assumes t: "timers (t_mem s) (xs @ x # ys)" and ex: "tm_interval (timer_at (t_mem s) x) \<le> tm_elapse (timer_at (t_mem s) x) + 1"
    and ty: "tm_type (timer_at (t_mem s) x) \<noteq> 0"
  shows "\<exists>s'. bt_timer_visit quiet x s = Inr ((), s') \<and> timers (t_mem s') (insort_after (intv (t_mem s)) x (xs @ ys))
    \<and> objs (t_mem s') = (objs (t_mem s))(x \<mapsto> OTimer ((timer_at (t_mem s) x)\<lparr>tm_elapse := 0\<rparr>))"
proof -
  let ?m = "t_mem s" and ?t = "(timer_at (t_mem s) x)\<lparr>tm_elapse := 0\<rparr>"
  let ?m1 = "?m\<lparr>objs := (objs ?m)(x \<mapsto> OTimer ?t)\<rparr>"
  have x: "is_timer ?m x" "x \<noteq> TIMER_LIST" "x \<notin> set (xs @ ys)"
    using timers_live(1,3) [OF t] timers_distinct [OF t] by auto
  have t1: "timers ?m1 (xs @ x # ys)" and i1: "intv ?m1 = intv ?m"
    using timers_upd [OF x(1), of ?t] t by (simp_all add: intv_def)
  obtain m2 where m2: "on_links (list_del x) ?m1 = Inr ((), m2)" "timers m2 (xs @ ys)" "objs m2 = objs ?m1" "links m2 x \<noteq> None"
    using unlink_timer [OF t1] by auto
  have x2: "is_timer m2 x" "timer_at m2 x = ?t" "intv m2 = intv ?m"
    using m2(3) i1 by (auto simp: is_timer_def timer_at_def intv_def fun_eq_iff)
  obtain m3 where m3: "bnd (get_position (intv ?m x) TIMER_LIST) (\<lambda>pos. on_links (list_add_tail x pos)) m2 = Inr ((), m3)"
      "timers m3 (insort_after (intv ?m) x (xs @ ys))" "objs m3 = objs m2"
    using insert_timer [OF m2(2) x2(1) x(3) m2(4) x(2)] x2(3) by auto
  then obtain pos where "get_position (intv ?m x) TIMER_LIST m2 = Inr (pos, m2)" "on_links (list_add_tail x pos) m2 = Inr ((), m3)"
    using get_position_run [of m2 TIMER_LIST "xs @ ys" "intv ?m x"] m2(2) by (auto simp: bnd_def timers_def)
  moreover have "ld_timer x m2 = Inr (?t, m2)" using timer_upd_run(2) [OF x2(1)] x2(2) by simp
  ultimately show ?thesis
    using expired_start [OF x(1) ex] m2(1,3) m3(2,3) ty
    by (simp add: run_simps intv_def timer_type_code_def)
qed

lemma visit_single:
  assumes t: "timers (t_mem s) (xs @ x # ys)" and ex: "tm_interval (timer_at (t_mem s) x) \<le> tm_elapse (timer_at (t_mem s) x) + 1"
    and ty: "tm_type (timer_at (t_mem s) x) = 0"
  shows "\<exists>s'. bt_timer_visit quiet x s = Inr ((), s') \<and> timers (t_mem s') (xs @ ys)
    \<and> objs (t_mem s') = (objs (t_mem s))(x \<mapsto> OTimer ((timer_at (t_mem s) x)\<lparr>tm_elapse := 0\<rparr>))
    \<and> links (t_mem s') x = Some \<lparr>lh_next = LIST_POISON1, lh_prev = LIST_POISON2\<rparr> \<and> brk (t_mem s') = brk (t_mem s)"
proof -
  let ?m = "t_mem s" and ?t = "(timer_at (t_mem s) x)\<lparr>tm_elapse := 0\<rparr>"
  let ?m1 = "?m\<lparr>objs := (objs ?m)(x \<mapsto> OTimer ?t)\<rparr>"
  have x: "is_timer ?m x" using timers_live(1) [OF t] by auto
  have t1: "timers ?m1 (xs @ x # ys)" using timers_upd [OF x, of ?t] t by (simp_all add: intv_def)
  obtain m2 where m2: "on_links (list_del x) ?m1 = Inr ((), m2)" "timers m2 (xs @ ys)" "objs m2 = objs ?m1"
      "links m2 x = Some \<lparr>lh_next = LIST_POISON1, lh_prev = LIST_POISON2\<rparr>" "brk m2 = brk ?m1"
    using unlink_timer [OF t1] by auto
  have "ld_timer x m2 = Inr (?t, m2)" using m2(3) by (simp add: ld_timer_def)
  then show ?thesis
    using expired_start [OF x ex] m2 ty by (simp add: run_simps timer_type_code_def)
qed

text \<open>One tick of timers none of which expires.\<close>

definition ticked :: "addr list \<Rightarrow> mem \<Rightarrow> mem" where
  "ticked xs m = m\<lparr>objs := (\<lambda>a. if a \<in> set xs
     then Some (OTimer ((timer_at m a)\<lparr>tm_elapse := tm_elapse (timer_at m a) + 1\<rparr>)) else objs m a)\<rparr>"

lemma tick_loop:
  assumes "dll (links (t_mem s)) TIMER_LIST (ys @ zs)" "\<forall>x\<in>set zs. is_timer (t_mem s) x" "length zs < f"
    "\<forall>x\<in>set zs. \<not> tm_interval (timer_at (t_mem s) x) \<le> tm_elapse (timer_at (t_mem s) x) + 1"
    "zs \<noteq> [] \<Longrightarrow> n = hd (tl zs @ [TIMER_LIST])"
  shows "bt_timer_loop f cb (hd (zs @ [TIMER_LIST])) n s = Inr ((), s\<lparr>t_mem := ticked zs (t_mem s)\<rparr>)"
  using assms
proof (induction zs arbitrary: ys f n s)
  case Nil
  obtain g where "f = Suc g" using Nil.prems(3) by (cases f) auto
  then show ?case by (simp add: ticked_def)
next
  case (Cons x zs)
  obtain g where f: "f = Suc g" using Cons.prems(3) by (cases f) auto
  let ?m = "t_mem s"
  let ?m1 = "?m\<lparr>objs := (objs ?m)(x \<mapsto> OTimer ((timer_at ?m x)\<lparr>tm_elapse := tm_elapse (timer_at ?m x) + 1\<rparr>))\<rparr>"
  let ?s1 = "s\<lparr>t_mem := ?m1\<rparr>"
  have d: "x \<noteq> TIMER_LIST" "x \<notin> set zs" using dll_distinct [OF Cons.prems(1)] by auto
  have v: "bt_timer_visit cb x s = Inr ((), ?s1)" using Cons.prems(2,4) by (intro visit_waiting) auto
  have n: "n = hd (zs @ [TIMER_LIST])" using Cons.prems(5) by simp
  obtain n' where n': "get_next (links ?m1) n = Some n'"
    using dll_fwd [of "links ?m" TIMER_LIST "ys @ [x]" zs] Cons.prems(1) fwd_get_next_head n by fastforce
  have at: "timer_at ?m1 y = timer_at ?m y" "is_timer ?m1 y = is_timer ?m y" if "y \<in> set zs" for y
    using that d(2) by (auto simp: timer_at_def is_timer_def)
  have "bt_timer_loop g cb (hd (zs @ [TIMER_LIST])) n' ?s1 = Inr ((), ?s1\<lparr>t_mem := ticked zs (t_mem ?s1)\<rparr>)"
  proof (rule Cons.IH)
    show "dll (links (t_mem ?s1)) TIMER_LIST ((ys @ [x]) @ zs)" using Cons.prems(1) by simp
    show "zs \<noteq> [] \<Longrightarrow> n' = hd (tl zs @ [TIMER_LIST])"
      using n' dll_nth_next [of "links ?m" TIMER_LIST "ys @ [x]" "hd zs" "tl zs"] Cons.prems(1) n by (cases zs) auto
  qed (use Cons.prems(2,3,4) f at in auto)
  moreover have "ticked zs ?m1 = ticked (x # zs) ?m"
    using d(2) by (auto simp: ticked_def at fun_eq_iff)
  ultimately show ?case using v n n' d(1) f by (simp add: run_simps list_next_entry_def)
qed

lemma bt_timer_func_start:
  assumes "dll (links (t_mem s)) TIMER_LIST xs"
  shows "bt_timer_func f cb s = bt_timer_loop f cb (hd (xs @ [TIMER_LIST])) (hd (tl xs @ [TIMER_LIST])) s"
  using walk_start [OF assms] by (simp add: bt_timer_func_def run_simps)

text \<open>Two repeating timers of the same interval that expire at every tick chase each other.\<close>

definition due :: "mem \<Rightarrow> addr \<Rightarrow> bool" where
  "due m x \<longleftrightarrow> tm_interval (timer_at m x) \<le> 1 \<and> tm_type (timer_at m x) \<noteq> 0 \<and> tm_elapse (timer_at m x) = 0"

lemma chase:
  assumes "timers (t_mem s) [x, y]" "intv (t_mem s) x = intv (t_mem s) y" "due (t_mem s) x" "due (t_mem s) y"
  shows "bt_timer_loop f quiet x y s = Inl OutOfFuel"
  using assms
proof (induction f arbitrary: x y s)
  case (Suc f)
  let ?m = "t_mem s"
  have t: "timers ?m ([] @ x # [y])" using Suc.prems(1) by simp
  have x: "x \<noteq> TIMER_LIST" "x \<noteq> y" using timers_live(3) [OF t] timers_distinct [OF t] by auto
  have ins: "insort_after (intv ?m) x ([] @ [y]) = [y, x]" using Suc.prems(2) by (simp add: insort_after_def)
  obtain s1 where s1: "bt_timer_visit quiet x s = Inr ((), s1)" "timers (t_mem s1) [y, x]"
      "objs (t_mem s1) = (objs ?m)(x \<mapsto> OTimer ((timer_at ?m x)\<lparr>tm_elapse := 0\<rparr>))"
    using visit_repeat [OF t] Suc.prems(3) unfolding ins by (auto simp: due_def)
  have at: "timer_at (t_mem s1) a = (if a = x then (timer_at ?m x)\<lparr>tm_elapse := 0\<rparr> else timer_at ?m a)" for a
    using s1(3) by (simp add: timer_at_def)
  have "get_next (links (t_mem s1)) y = Some x"
    using s1(2) dll_nth_next [of "links (t_mem s1)" TIMER_LIST "[]" y "[x]"] by (simp add: timers_def)
  moreover have "bt_timer_loop f quiet y x s1 = Inl OutOfFuel"
    using s1(2) Suc.prems(2,3,4) x(2) by (intro Suc.IH) (simp_all add: intv_def due_def at)
  ultimately show ?case using s1(1) x(1) by (simp add: run_simps list_next_entry_def)
qed simp

section \<open>Tear-down\<close>

lemma finit_loop:
  assumes "timers (t_mem s) zs" "length zs < f" "zs \<noteq> [] \<Longrightarrow> n = hd (tl zs @ [TIMER_LIST])"
  shows "\<exists>s'. bt_timer_finit_loop f (hd (zs @ [TIMER_LIST])) n s = Inr ((), s')
    \<and> objs (t_mem s') = (\<lambda>a. if a \<in> set zs then None else objs (t_mem s) a) \<and> t_sigalrm s' = t_sigalrm s"
  using assms
proof (induction zs arbitrary: f n s)
  case Nil
  obtain g where "f = Suc g" using Nil.prems(2) by (cases f) auto
  then show ?case by simp
next
  case (Cons x zs)
  obtain g where f: "f = Suc g" using Cons.prems(2) by (cases f) auto
  obtain s1 where s1: "bt_timer_del x s = Inr ((), s1)" "timers (t_mem s1) zs" "objs (t_mem s1) = (objs (t_mem s))(x := None)"
      "t_sigalrm s1 = t_sigalrm s"
    using bt_timer_del_run [of s "[]" x zs] Cons.prems(1) by auto
  have d: "dll (links (t_mem s1)) TIMER_LIST ([] @ zs)" using s1(2) by (simp add: timers_def)
  have x: "x \<noteq> TIMER_LIST" using timers_live(3) [OF Cons.prems(1)] by simp
  have n: "n = hd (zs @ [TIMER_LIST])" using Cons.prems(3) by simp
  obtain n' where n': "get_next (links (t_mem s1)) n = Some n'" using dll_fwd [OF d] fwd_get_next_head n by fastforce
  have "zs \<noteq> [] \<Longrightarrow> n' = hd (tl zs @ [TIMER_LIST])"
    using n' dll_nth_next [of "links (t_mem s1)" TIMER_LIST "[]" "hd zs" "tl zs"] d n by (cases zs) auto
  then obtain s' where "bt_timer_finit_loop g n n' s1 = Inr ((), s')"
      "objs (t_mem s') = (\<lambda>a. if a \<in> set zs then None else objs (t_mem s1) a)" "t_sigalrm s' = t_sigalrm s1"
    using Cons.IH [OF s1(2), of g n'] Cons.prems(2) f n by auto
  then show ?case using s1 x n' f by (auto simp: run_simps list_next_entry_def)
qed

lemma bt_timer_finit_run:
  assumes "timers (t_mem s) xs"
  shows "\<exists>s'. bt_timer_finit s = Inr ((), s') \<and> t_sigalrm s' = btl_old_sigfunc (t_list s) \<and> t_list s' = zero_timer_list
    \<and> objs (t_mem s') = (\<lambda>a. if a \<in> set xs then None else objs (t_mem s) a)"
proof -
  let ?s = "s\<lparr>t_sigalrm := btl_old_sigfunc (t_list s)\<rparr>"
  have d: "wf_mem (t_mem s)" "dll (links (t_mem s)) TIMER_LIST xs" using assms by (simp_all add: timers_def)
  obtain s' where "bt_timer_finit_loop (Suc (brk (t_mem s))) (hd (xs @ [TIMER_LIST])) (hd (tl xs @ [TIMER_LIST])) ?s = Inr ((), s')"
      "objs (t_mem s') = (\<lambda>a. if a \<in> set xs then None else objs (t_mem s) a)" "t_sigalrm s' = btl_old_sigfunc (t_list s)"
    using finit_loop [of ?s xs "Suc (brk (t_mem s))" "hd (tl xs @ [TIMER_LIST])"] assms ring_bound [OF d]
    by (auto simp del: bt_timer_finit_loop.simps cong: if_cong)
  then show ?thesis
    using walk_start [OF d(2)] by (simp add: bt_timer_finit_def run_simps del: bt_timer_finit_loop.simps)
qed

end
