(* ===== verification/Timer_Properties.thy ===== *)
theory Timer_Properties
  imports Bt_Timer
begin

text \<open>
  The properties of the timer module of \<^verbatim>\<open>src/bt_timer.c\<close>: every operation keeps the list of
  timers linked and sorted by interval, and the cases in which the signal handler does not do
  what its callers expect.
\<close>

section \<open>A concrete state\<close>

definition timer_rec :: "u32 \<Rightarrow> int \<Rightarrow> u32 \<Rightarrow> bt_timer" where
  "timer_rec i ty el = \<lparr>tm_id = 0, tm_callback = 7, tm_data = NULL, tm_type = ty, tm_interval = i, tm_elapse = el\<rparr>"

text \<open>Two timers, at addresses 2 and 3.\<close>

definition two_timers :: "bt_timer \<Rightarrow> bt_timer \<Rightarrow> tstate" where
  "two_timers a b = \<lparr>t_mem = \<lparr>objs = [2 \<mapsto> OTimer a, 3 \<mapsto> OTimer b],
       links = [1 \<mapsto> \<lparr>lh_next = 2, lh_prev = 3\<rparr>, 2 \<mapsto> \<lparr>lh_next = 3, lh_prev = 1\<rparr>, 3 \<mapsto> \<lparr>lh_next = 1, lh_prev = 2\<rparr>],
       brk = 4, oom = (\<lambda>_. False), usable = (\<lambda>n. n), junk = (\<lambda>_ _. NUL), errno = 0\<rparr>,
     t_list = zero_timer_list, t_sigalrm = BtTimerFunc\<rparr>"

lemma two_timers_at [simp]:
  "timer_at (t_mem (two_timers a b)) 2 = a" "timer_at (t_mem (two_timers a b)) 3 = b"
  "brk (t_mem (two_timers a b)) = 4"
  by (simp_all add: two_timers_def timer_at_def)

lemma two_timers_ok: "tm_interval a \<le> tm_interval b \<Longrightarrow> timers (t_mem (two_timers a b)) [2, 3]"
  by (auto simp: timers_def wf_mem_def two_timers_def dll_def TIMER_LIST_def get_next_def get_prev_def
      is_timer_def timer_at_def intv_def)

section \<open>Properties\<close>

text \<open>
  C11. \<open>bt_timer_add\<close> inserts the new timer behind all timers whose interval is not greater, so the
  list stays linked and sorted; the other timers are not changed and the new one gets the next id.
\<close>

theorem timer_add_sorted:
  assumes "timers (t_mem s) xs" "no_oom (t_mem s)"
  shows "\<exists>x s'. bt_timer_add func data i ty s = Inr (x, s') \<and> x \<notin> set xs
    \<and> timers (t_mem s') (insort_after (intv (t_mem s')) x xs) \<and> intv (t_mem s') x = i
    \<and> tm_id (timer_at (t_mem s') x) = btl_num (t_list s) \<and> btl_num (t_list s') = btl_num (t_list s) + 1
    \<and> (\<forall>y\<in>set xs. timer_at (t_mem s') y = timer_at (t_mem s) y)"
  using bt_timer_add_run [OF assms, of func data i ty] timers_live(4) [OF assms(1), of "brk (t_mem s)"]
  by (fastforce simp: intv_def)

theorem timer_add_sorted_witness:
  "\<exists>x s'. bt_timer_add 9 NULL 3 1 (two_timers (timer_rec 2 1 0) (timer_rec 5 1 0)) = Inr (x, s')
    \<and> timers (t_mem s') [2, x, 3]"
proof -
  let ?s = "two_timers (timer_rec 2 1 0) (timer_rec 5 1 0)"
  have t: "timers (t_mem ?s) [2, 3]" by (rule two_timers_ok) (simp add: timer_rec_def)
  have o: "no_oom (t_mem ?s)" by (simp add: no_oom_def two_timers_def)
  obtain x s' where x: "bt_timer_add 9 NULL 3 1 ?s = Inr (x, s')" "timers (t_mem s') (insort_after (intv (t_mem s')) x [2, 3])"
      "intv (t_mem s') x = 3" "\<forall>y\<in>set [2, 3]. timer_at (t_mem s') y = timer_at (t_mem ?s) y"
    using timer_add_sorted [OF t o, of 9 NULL 3 1] by blast
  then have "insort_after (intv (t_mem s')) x [2, 3] = [2, x, 3]"
    by (simp add: insort_after_def intv_def timer_rec_def)
  then show ?thesis using x by auto
qed

text \<open>
  \<open>bt_timer_update\<close> resets the elapsed time and moves the timer behind all timers whose interval
  is not greater; the list stays linked and sorted and no timer is lost.
\<close>

theorem timer_update_sorted:
  assumes "timers (t_mem s) (xs @ x # ys)"
  shows "\<exists>s'. bt_timer_update x s = Inr ((), s') \<and> timers (t_mem s') (insort_after (intv (t_mem s)) x (xs @ ys))
    \<and> tm_elapse (timer_at (t_mem s') x) = 0 \<and> (\<forall>y. y \<noteq> x \<longrightarrow> objs (t_mem s') y = objs (t_mem s) y)"
  using bt_timer_update_run [OF assms] by (auto simp: timer_at_def)

theorem timer_update_sorted_witness:
  "\<exists>s'. bt_timer_update 2 (two_timers (timer_rec 4 1 3) (timer_rec 4 1 0)) = Inr ((), s')
    \<and> timers (t_mem s') [3, 2] \<and> tm_elapse (timer_at (t_mem s') 2) = 0"
proof -
  let ?s = "two_timers (timer_rec 4 1 3) (timer_rec 4 1 0)"
  have "timers (t_mem ?s) ([] @ 2 # [3])" using two_timers_ok by (simp add: timer_rec_def)
  from timer_update_sorted [OF this] show ?thesis by (auto simp: insort_after_def intv_def timer_rec_def)
qed

text \<open>
  \<open>bt_timer_finit\<close> frees every timer in the list and restores the previous signal handler.
\<close>

theorem timer_finit_frees:
  assumes "timers (t_mem s) xs"
  shows "\<exists>s'. bt_timer_finit s = Inr ((), s') \<and> t_sigalrm s' = btl_old_sigfunc (t_list s)
    \<and> objs (t_mem s') = (\<lambda>a. if a \<in> set xs then None else objs (t_mem s) a)"
  using bt_timer_finit_run [OF assms] by blast

theorem timer_finit_frees_witness:
  "\<exists>s'. bt_timer_finit (two_timers (timer_rec 4 1 3) (timer_rec 4 1 0)) = Inr ((), s') \<and> objs (t_mem s') = Map.empty"
proof -
  have "timers (t_mem (two_timers (timer_rec 4 1 3) (timer_rec 4 1 0))) [2, 3]"
    by (rule two_timers_ok) (simp add: timer_rec_def)
  from timer_finit_frees [OF this] show ?thesis by (auto simp: two_timers_def fun_eq_iff)
qed

text \<open>
  A tick in which no timer is due only adds one to every elapsed time: the order of the list
  does not change and no callback runs, whatever the callbacks are.
\<close>

theorem tick_without_expiry:
  assumes "timers (t_mem s) xs" "length xs < f"
    "\<forall>x\<in>set xs. tm_elapse (timer_at (t_mem s) x) + 1 < tm_interval (timer_at (t_mem s) x)"
  shows "\<exists>s'. bt_timer_func f cb s = Inr ((), s') \<and> links (t_mem s') = links (t_mem s)
    \<and> (\<forall>x\<in>set xs. timer_at (t_mem s') x = (timer_at (t_mem s) x)\<lparr>tm_elapse := tm_elapse (timer_at (t_mem s) x) + 1\<rparr>)
    \<and> (\<forall>a. a \<notin> set xs \<longrightarrow> objs (t_mem s') a = objs (t_mem s) a)"
proof -
  have d: "dll (links (t_mem s)) TIMER_LIST xs" "\<forall>x\<in>set xs. is_timer (t_mem s) x"
    using assms(1) by (simp_all add: timers_def)
  have "bt_timer_func f cb s = Inr ((), s\<lparr>t_mem := ticked xs (t_mem s)\<rparr>)"
    using tick_loop [of s "[]" xs f] d assms(2,3) by (simp add: bt_timer_func_start [OF d(1)] not_le)
  then show ?thesis by (simp add: ticked_def timer_at_def)
qed

theorem tick_without_expiry_witness:
  "\<exists>s'. bt_timer_func 3 quiet (two_timers (timer_rec 4 1 2) (timer_rec 9 0 0)) = Inr ((), s')
    \<and> tm_elapse (timer_at (t_mem s') 2) = 3 \<and> tm_elapse (timer_at (t_mem s') 3) = 1"
proof -
  let ?s = "two_timers (timer_rec 4 1 2) (timer_rec 9 0 0)"
  have "timers (t_mem ?s) [2, 3]" by (rule two_timers_ok) (simp add: timer_rec_def)
  from tick_without_expiry [OF this, of 3 quiet] show ?thesis by (auto simp: timer_rec_def)
qed

text \<open>
  C12. Two repeating timers alone in the list, with the same interval of at most one second, no seconds
  counted yet and callbacks that do nothing, make the handler run for ever: each is put behind the
  other, and the loop visits them in turn without reaching the head.
\<close>

theorem tick_never_ends:
  assumes "timers (t_mem s) [x, y]" "intv (t_mem s) x = intv (t_mem s) y" "due (t_mem s) x" "due (t_mem s) y"
  shows "bt_timer_func f quiet s = Inl OutOfFuel"
proof -
  have "dll (links (t_mem s)) TIMER_LIST [x, y]" using assms(1) by (simp add: timers_def)
  then show ?thesis using chase [OF assms] by (simp add: bt_timer_func_start)
qed

theorem tick_never_ends_witness:
  "bt_timer_func 100000 quiet (two_timers (timer_rec 1 1 0) (timer_rec 1 1 0)) = Inl OutOfFuel"
proof (rule tick_never_ends)
  show "timers (t_mem (two_timers (timer_rec 1 1 0) (timer_rec 1 1 0))) [2, 3]"
    by (rule two_timers_ok) simp
qed (simp_all add: intv_def due_def timer_rec_def)

text \<open>
  A single-shot timer that has fired is unlinked but not freed, and its links are poisoned:
  the \<open>bt_timer_del\<close> by which its owner would free it follows the poisoned pointers.
\<close>

theorem single_shot_del_faults:
  assumes "timers (t_mem s) (xs @ x # ys)" "tm_type (timer_at (t_mem s) x) = timer_type_code BT_TIMER_SINGLE"
    "tm_interval (timer_at (t_mem s) x) \<le> tm_elapse (timer_at (t_mem s) x) + 1" "brk (t_mem s) \<le> LIST_POISON1"
  shows "\<exists>s'. bt_timer_visit quiet x s = Inr ((), s') \<and> timers (t_mem s') (xs @ ys) \<and> is_timer (t_mem s') x
    \<and> bt_timer_del x s' = Inl BadPointer"
proof -
  obtain s' where s': "bt_timer_visit quiet x s = Inr ((), s')" "timers (t_mem s') (xs @ ys)"
      "objs (t_mem s') = (objs (t_mem s))(x \<mapsto> OTimer ((timer_at (t_mem s) x)\<lparr>tm_elapse := 0\<rparr>))"
      "links (t_mem s') x = Some \<lparr>lh_next = LIST_POISON1, lh_prev = LIST_POISON2\<rparr>" "brk (t_mem s') = brk (t_mem s)"
    using visit_single [OF assms(1,3)] assms(2) by (auto simp: timer_type_code_def)
  have "links (t_mem s') LIST_POISON1 = None" using s'(2,5) assms(4) by (auto simp: timers_def wf_mem_def)
  then have "list_del x (links (t_mem s')) = None"
    using s'(4) by (simp add: list_del_def list_del_raw_def get_next_def get_prev_def set_prev_def)
  then have "bt_timer_del x s' = Inl BadPointer" by (simp add: bt_timer_del_def bnd_def on_mem_def on_links_def)
  then show ?thesis using s' by (auto simp: is_timer_def timer_at_def)
qed

theorem single_shot_del_faults_witness:
  "\<exists>s'. bt_timer_visit quiet 2 (two_timers (timer_rec 1 0 0) (timer_rec 4 1 0)) = Inr ((), s')
    \<and> bt_timer_del 2 s' = Inl BadPointer"
proof -
  let ?s = "two_timers (timer_rec 1 0 0) (timer_rec 4 1 0)"
  have "timers (t_mem ?s) ([] @ 2 # [3])" using two_timers_ok by (simp add: timer_rec_def)
  from single_shot_del_faults [OF this]
  show ?thesis by (auto simp: timer_rec_def timer_type_code_def LIST_POISON1_def)
qed

end
