(* ===== verification/Peer_Message.thy ===== *)
theory Peer_Message
  imports Bt_Timer
begin

text \<open>
  The wire messages of \<^verbatim>\<open>src/peer_message.c\<close>: building each kind of message in a \<open>b_string\<close> with
  reserved space in front of the payload, sending, and dispatching a received one. \<open>send\<close> is a
  parameter. The payload is written first; \<open>set_prefix_and_msgid\<close> then puts the length prefix and
  the message id in front of it, in the reserved space or in a new buffer.
\<close>

section \<open>Constants\<close>

definition HANDSHAKE_MESSAGE_LEN :: nat where "HANDSHAKE_MESSAGE_LEN = 68"
definition DEFAULT_PSTRLEN :: nat where "DEFAULT_PSTRLEN = 19"
definition DEFAULT_PSTR :: "byte list" where "DEFAULT_PSTR = ''BitTorrent protocol''"
definition RESERVED_LEN :: nat where "RESERVED_LEN = 8"
definition HASH_LEN :: nat where "HASH_LEN = 20"
definition PEER_ID_LEN :: nat where "PEER_ID_LEN = 20"
definition MSG_ID_LEN :: nat where "MSG_ID_LEN = 1"
definition LEN_PREFIX :: nat where "LEN_PREFIX = 4"

definition PEER_MESSAGE_KEEP_ALIVE :: byte where "PEER_MESSAGE_KEEP_ALIVE = CHR 0x00"
definition PEER_MESSAGE_CHOKE :: byte where "PEER_MESSAGE_CHOKE = CHR 0x00"
definition PEER_MESSAGE_UNCHOCKE :: byte where "PEER_MESSAGE_UNCHOCKE = CHR 0x01"
definition PEER_MESSAGE_INTERESTED :: byte where "PEER_MESSAGE_INTERESTED = CHR 0x02"
definition PEER_MESSAGE_NOT_INTERESTED :: byte where "PEER_MESSAGE_NOT_INTERESTED = CHR 0x03"
definition PEER_MESSAGE_HAVE :: byte where "PEER_MESSAGE_HAVE = CHR 0x04"
definition PEER_MESSAGE_BITFIELD :: byte where "PEER_MESSAGE_BITFIELD = CHR 0x05"
definition PEER_MESSAGE_REQUEST :: byte where "PEER_MESSAGE_REQUEST = CHR 0x06"
definition PEER_MESSAGE_PIECE :: byte where "PEER_MESSAGE_PIECE = CHR 0x07"
definition PEER_MESSAGE_CANCEL :: byte where "PEER_MESSAGE_CANCEL = CHR 0x08"
definition PEER_MESSAGE_PORT :: byte where "PEER_MESSAGE_PORT = CHR 0x09"

lemmas msg_consts = HANDSHAKE_MESSAGE_LEN_def DEFAULT_PSTRLEN_def RESERVED_LEN_def HASH_LEN_def
  PEER_ID_LEN_def MSG_ID_LEN_def LEN_PREFIX_def

section \<open>Building messages\<close>

definition generate_handshake_message :: "cptr \<Rightarrow> cptr \<Rightarrow> addr crun" where
  "generate_handshake_message info_hash peer_id =
     (if info_hash \<noteq> CNull \<and> peer_id \<noteq> CNull then
        bnd b_string_alloc (\<lambda>ptr.
        if ptr \<noteq> NULL then
          bnd (malloc_buf HANDSHAKE_MESSAGE_LEN) (\<lambda>buf.
          bnd (b_string_set_head ptr buf) (\<lambda>_.
          bnd (b_string_set ptr buf) (\<lambda>_.
          bnd (memset buf NUL HANDSHAKE_MESSAGE_LEN) (\<lambda>_.
          bnd (st_byte buf (char_of DEFAULT_PSTRLEN)) (\<lambda>_.
          bnd (ptr_add buf 1) (\<lambda>p1.
          bnd (wr_bytes p1 DEFAULT_PSTR) (\<lambda>_.
          bnd (ptr_add buf (1 + DEFAULT_PSTRLEN)) (\<lambda>p2.
          bnd (memset p2 NUL RESERVED_LEN) (\<lambda>_.
          bnd (ptr_add buf (1 + DEFAULT_PSTRLEN + RESERVED_LEN)) (\<lambda>p3.
          bnd (memcpy p3 info_hash HASH_LEN) (\<lambda>_.
          bnd (ptr_add buf (1 + DEFAULT_PSTRLEN + RESERVED_LEN + HASH_LEN)) (\<lambda>p4.
          bnd (memcpy p4 peer_id PEER_ID_LEN) (\<lambda>_.
          bnd (b_string_set_length ptr (word_of_nat HANDSHAKE_MESSAGE_LEN)) (\<lambda>_.
          ret ptr))))))))))))))
        else ret NULL)
      else ret NULL)"

definition set_prefix_and_msgid :: "u32 \<Rightarrow> byte \<Rightarrow> addr \<Rightarrow> addr crun" where
  "set_prefix_and_msgid len_prefix message_id payload =
     (let msg_id_len = (if len_prefix \<noteq> 0 then MSG_ID_LEN else 0) in
     bnd (if payload \<noteq> NULL then
            bnd (b_string_get payload) (\<lambda>d.
            bnd (b_string_get_head payload) (\<lambda>h.
            bnd (ptr_diff d h) (\<lambda>room.
            if int (LEN_PREFIX + msg_id_len) < room then
              bnd (ptr_sub d (LEN_PREFIX + msg_id_len)) (\<lambda>buf. ret (payload, buf))
            else
              bnd (malloc_buf (unat (len_prefix + word_of_nat LEN_PREFIX))) (\<lambda>buf.
              bnd (ptr_add buf (LEN_PREFIX + msg_id_len)) (\<lambda>q.
              bnd (memcpy q d (unat len_prefix)) (\<lambda>_.
              bnd (free_buf h) (\<lambda>_.
              bnd (b_string_set_head payload buf) (\<lambda>_.
              bnd (b_string_set payload q) (\<lambda>_.
              ret (payload, buf)))))))))) 
          else
            bnd (malloc_buf (unat (len_prefix + word_of_nat LEN_PREFIX))) (\<lambda>buf.
            bnd (b_string_alloc_reserved buf (len_prefix + word_of_nat LEN_PREFIX) 0) (\<lambda>ptr.
            ret (ptr, buf)))) (\<lambda>(ptr, buf).
     bnd (wr_bytes buf (htonl len_prefix)) (\<lambda>_.
     bnd (if len_prefix \<noteq> 0 then bnd (ptr_add buf LEN_PREFIX) (\<lambda>q. st_byte q message_id) else ret ()) (\<lambda>_.
     bnd (b_string_set ptr buf) (\<lambda>_.
     bnd (b_string_set_length ptr (len_prefix + word_of_nat LEN_PREFIX)) (\<lambda>_.
     ret ptr))))))"

definition generate_keep_alive_message :: "addr crun" where
  "generate_keep_alive_message = set_prefix_and_msgid 0 PEER_MESSAGE_KEEP_ALIVE NULL"

definition generate_choke_message :: "addr crun" where
  "generate_choke_message = set_prefix_and_msgid (word_of_nat MSG_ID_LEN) PEER_MESSAGE_CHOKE NULL"

definition generate_unchoke_message :: "addr crun" where
  "generate_unchoke_message = set_prefix_and_msgid (word_of_nat MSG_ID_LEN) PEER_MESSAGE_UNCHOCKE NULL"

definition generate_interested_message :: "addr crun" where
  "generate_interested_message = set_prefix_and_msgid (word_of_nat MSG_ID_LEN) PEER_MESSAGE_INTERESTED NULL"

definition generate_not_interested_message :: "addr crun" where
  "generate_not_interested_message = set_prefix_and_msgid (word_of_nat MSG_ID_LEN) PEER_MESSAGE_NOT_INTERESTED NULL"

text \<open>
  The common start of the messages with a payload of \<open>n\<close> bytes: a buffer with room for the prefix and
  the id, a string over it, and the payload bytes written behind the room.
\<close>

definition payload_string :: "nat \<Rightarrow> u32 \<Rightarrow> (cptr \<Rightarrow> unit crun) \<Rightarrow> addr crun" where
  "payload_string n len fill =
     bnd (malloc_buf n) (\<lambda>buf.
     bnd (b_string_alloc_reserved buf len (LEN_PREFIX + MSG_ID_LEN)) (\<lambda>ptr.
     bnd (b_string_get ptr) (\<lambda>buf.
     bnd (fill buf) (\<lambda>_. ret ptr))))"

definition generate_have_message :: "u32 \<Rightarrow> addr crun" where
  "generate_have_message piece_index =
     bnd (payload_string (LEN_PREFIX + MSG_ID_LEN + 4) 4 (\<lambda>buf. wr_bytes buf (htonl piece_index))) (\<lambda>ptr.
     set_prefix_and_msgid (word_of_nat MSG_ID_LEN + 4) PEER_MESSAGE_HAVE ptr)"

definition generate_bitfield_message :: "u32 \<Rightarrow> cptr \<Rightarrow> addr crun" where
  "generate_bitfield_message bitfield_len bitfield =
     bnd (payload_string (unat (word_of_nat (LEN_PREFIX + MSG_ID_LEN) + bitfield_len)) bitfield_len
            (\<lambda>buf. memcpy buf bitfield (unat bitfield_len))) (\<lambda>ptr.
     set_prefix_and_msgid (word_of_nat MSG_ID_LEN + bitfield_len) PEER_MESSAGE_BITFIELD ptr)"

definition generate_request_message :: "u32 \<Rightarrow> u32 \<Rightarrow> u32 \<Rightarrow> addr crun" where
  "generate_request_message piece_index begin slice_len =
     bnd (payload_string (LEN_PREFIX + MSG_ID_LEN + 12) 12
            (\<lambda>buf. wr_bytes buf (htonl piece_index @ htonl begin @ htonl slice_len))) (\<lambda>ptr.
     set_prefix_and_msgid (12 + word_of_nat MSG_ID_LEN) PEER_MESSAGE_REQUEST ptr)"

definition generate_piece_message :: "u32 \<Rightarrow> u32 \<Rightarrow> u32 \<Rightarrow> addr \<Rightarrow> addr crun" where
  "generate_piece_message piece_index begin slice_len ptr =
     bnd (b_string_get ptr) (\<lambda>d.
     bnd (b_string_get_head ptr) (\<lambda>h.
     bnd (ptr_diff d h) (\<lambda>room.
     if room < int (8 + MSG_ID_LEN + LEN_PREFIX) then bnd (b_string_free ptr) (\<lambda>_. ret NULL)
     else
       bnd (ptr_sub d 8) (\<lambda>buf.
       bnd (wr_bytes buf (htonl piece_index)) (\<lambda>_.
       bnd (ptr_add buf 4) (\<lambda>q.
       bnd (wr_bytes q (htonl begin)) (\<lambda>_.
       bnd (b_string_set ptr buf) (\<lambda>_.
       bnd (b_string_get_length ptr) (\<lambda>n.
       bnd (b_string_set_length ptr (n + 8)) (\<lambda>_.
       set_prefix_and_msgid (slice_len + word_of_nat MSG_ID_LEN + 8) PEER_MESSAGE_PIECE ptr))))))))))"

definition generate_cancel_message :: "u32 \<Rightarrow> u32 \<Rightarrow> u32 \<Rightarrow> addr crun" where
  "generate_cancel_message piece_index begin slice_len =
     bnd (payload_string (LEN_PREFIX + MSG_ID_LEN + 12) 12
            (\<lambda>buf. wr_bytes buf (htonl piece_index @ htonl begin @ htonl slice_len))) (\<lambda>ptr.
     set_prefix_and_msgid (12 + word_of_nat MSG_ID_LEN) PEER_MESSAGE_CANCEL ptr)"

definition generate_port_message :: "u16 \<Rightarrow> addr crun" where
  "generate_port_message port =
     bnd (payload_string (LEN_PREFIX + MSG_ID_LEN + 2) 2 (\<lambda>buf. wr_bytes buf (htons port))) (\<lambda>ptr.
     set_prefix_and_msgid (word_of_nat MSG_ID_LEN + 2) PEER_MESSAGE_PORT ptr)"

section \<open>Sending and receiving\<close>

definition send_message :: "(int \<Rightarrow> byte list \<Rightarrow> int) \<Rightarrow> int \<Rightarrow> addr \<Rightarrow> int crun" where
  "send_message send send_fd ptr =
     bnd (b_string_get ptr) (\<lambda>d.
     bnd (b_string_get_length ptr) (\<lambda>n.
     bnd (rd_bytes d (unat n)) (\<lambda>bs.
     ret (if send send_fd bs = - 1 then - 1 else 0))))"

definition deal_keep_alive :: "addr \<Rightarrow> unit trun" where
  "deal_keep_alive ptr = bnd (on_mem (ld_peer ptr)) (\<lambda>p. bt_timer_update (pm_rcv_keep_alive p))"

text \<open>
  The branches of the \<open>switch\<close> other than the first are empty in the source.
\<close>

definition deal_message :: "addr \<Rightarrow> addr \<Rightarrow> int trun" where
  "deal_message ptr str =
     bnd (on_mem (b_string_get_length str)) (\<lambda>n.
     let len_prefix = n - 4 in
     bnd (on_mem (b_string_get str)) (\<lambda>d.
     bnd (on_mem (ptr_add d 4)) (\<lambda>q.
     bnd (on_mem (ld_byte q)) (\<lambda>ty.
     if ty = PEER_MESSAGE_KEEP_ALIVE then
       (if len_prefix \<noteq> 0 then ret 0 else bnd (deal_keep_alive ptr) (\<lambda>_. ret 0))
     else ret 0))))"

section \<open>Symbolic execution of the builders\<close>

text \<open>The bytes a string object stands for: \<open>len\<close> bytes from \<open>data\<close> on.\<close>

definition message :: "mem \<Rightarrow> addr \<Rightarrow> byte list \<Rightarrow> bool" where
  "message m a bs \<longleftrightarrow> (\<exists>s d i buf. objs m a = Some (OBStr s) \<and> bs_data s = CP d i \<and> bs_head s = CP d 0
     \<and> objs m d = Some (OBuf buf) \<and> unat (bs_len s) = length bs \<and> i + length bs \<le> length buf
     \<and> take (length bs) (drop i buf) = bs)"

lemma messageI:
  "objs m a = Some (OBStr s) \<Longrightarrow> bs_data s = CP d i \<Longrightarrow> bs_head s = CP d 0 \<Longrightarrow> objs m d = Some (OBuf buf) \<Longrightarrow>
   unat (bs_len s) = length bs \<Longrightarrow> i + length bs \<le> length buf \<Longrightarrow> take (length bs) (drop i buf) = bs \<Longrightarrow> message m a bs"
  unfolding message_def by blast

lemma malloc_eqs [run_simps]:
  "\<not> oom m (brk m) \<Longrightarrow> n \<le> PTRDIFF_MAX \<Longrightarrow> malloc_buf n m = Inr (CP (brk m) 0, m\<lparr>brk := Suc (brk m),
     objs := (objs m)(brk m \<mapsto> OBuf (map (junk m (brk m)) [0..<usable m n]))\<rparr>)"
  "\<not> oom m (brk m) \<Longrightarrow> malloc_obj x m = Inr (brk m, m\<lparr>brk := Suc (brk m), objs := (objs m)(brk m \<mapsto> x)\<rparr>)"
  by (simp_all add: malloc_buf_def malloc_obj_def Let_def)

lemma ptr_eqs [run_simps]:
  "ptr_add (CP a i) n m = Inr (CP a (i + n), m)"
  "n \<le> i \<Longrightarrow> ptr_sub (CP a i) n m = Inr (CP a (i - n), m)"
  "ptr_diff (CP a i) (CP a j) m = Inr (int i - int j, m)"
  by (simp_all add: ptr_add_def ptr_sub_def ptr_diff_def)

lemma length_htonl [simp]: "length (htonl w) = 4" "htonl w \<noteq> []"
  by (simp_all add: htonl_def)

lemma length_htons [simp]: "length (htons w) = 2" "htons w \<noteq> []"
  by (simp_all add: htons_def)

lemma usable_le: "wf_mem m \<Longrightarrow> n \<le> usable m n"
  by (simp add: wf_mem_def)

lemmas string_ops = b_string_get_def b_string_set_def b_string_get_head_def b_string_set_head_def
  b_string_get_length_def b_string_set_length_def b_string_alloc_def b_string_alloc_reserved_def

text \<open>The prefix and the id, without a payload.\<close>

lemma set_prefix_empty:
  assumes "wf_mem m" "no_oom m" "n = 0 \<or> n = 1"
  shows "\<exists>a m'. set_prefix_and_msgid n ty NULL m = Inr (a, m') \<and> message m' a (htonl n @ (if n \<noteq> 0 then [ty] else []))"
proof -
  let ?k = "unat n + 4" and ?d = "brk m"
  let ?b = "map (junk m ?d) [0..<usable m ?k]"
  have o: "\<not> oom m a" for a using assms(2) by (simp add: no_oom_def)
  have k: "unat (n + 4) = ?k" "?k \<le> PTRDIFF_MAX" "?k \<le> usable m ?k" "4 \<le> usable m ?k"
    using assms(3) usable_le [OF assms(1), of ?k] by (auto simp: PTRDIFF_MAX_def)
  have ne: "Suc ?d \<noteq> ?d" "Suc ?d \<noteq> NULL" by simp_all
  show ?thesis
  proof (cases "n = 0")
    case True
    then show ?thesis using o k ne
      by (auto simp: set_prefix_and_msgid_def Let_def string_ops run_simps LEN_PREFIX_def message_def overwrite_def)
  next
    case False
    then have n: "n = 1" using assms(3) by simp
    have "5 \<le> usable m 5" using usable_le [OF assms(1)] .
    then show ?thesis using o k ne n
      by (auto simp: set_prefix_and_msgid_def Let_def string_ops run_simps LEN_PREFIX_def message_def overwrite_def
          st_byte_def PTRDIFF_MAX_def)
  qed
qed

text \<open>A string whose data starts right behind the room for the prefix and the id.\<close>

definition tight :: "mem \<Rightarrow> addr \<Rightarrow> addr \<Rightarrow> byte list \<Rightarrow> bool" where
  "tight m a d bs \<longleftrightarrow> a \<noteq> NULL \<and> objs m d = Some (OBuf bs)
     \<and> (\<exists>s. objs m a = Some (OBStr s) \<and> bs_data s = CP d 5 \<and> bs_head s = CP d 0)"

lemma payload_string_run:
  assumes "wf_mem m" "no_oom m" "n = 5 + length xs" "n \<le> PTRDIFF_MAX"
    "\<And>p m'. (\<forall>a b. objs m a = Some b \<longrightarrow> objs m' a = Some b) \<Longrightarrow> fill p m' = wr_bytes p xs m'"
  shows "\<exists>a m' bs. payload_string n len fill m = Inr (a, m') \<and> tight m' a (brk m) bs \<and> length bs = usable m n
    \<and> take (length xs) (drop 5 bs) = xs \<and> wf_mem m' \<and> no_oom m' \<and> usable m' = usable m"
proof -
  let ?d = "brk m" and ?b = "map (junk m (brk m)) [0..<usable m n]"
  let ?s = "\<lparr>bs_prev = NULL, bs_data = CP ?d 5, bs_head = CP ?d 0, bs_len = len\<rparr>"
  let ?m = "m\<lparr>brk := Suc (Suc ?d), objs := (objs m)(?d \<mapsto> OBuf (overwrite ?b 5 xs), Suc ?d \<mapsto> OBStr ?s)\<rparr>"
  have o: "\<not> oom m a" for a using assms(2) by (simp add: no_oom_def)
  have u: "5 + length xs \<le> usable m n" "usable m n \<le> PTRDIFF_MAX"
    using usable_le [OF assms(1), of n] assms(1,3,4) by (auto simp: wf_mem_def)
  have "objs (m\<lparr>brk := Suc (Suc ?d), objs := (objs m)(?d \<mapsto> b1, Suc ?d \<mapsto> b2)\<rparr>) a = Some b" if "objs m a = Some b" for a b b1 b2
    using that assms(1) by (auto simp: wf_mem_def)
  then have fill: "fill p (m\<lparr>brk := Suc (Suc ?d), objs := (objs m)(?d \<mapsto> b1, Suc ?d \<mapsto> b2)\<rparr>)
      = wr_bytes p xs (m\<lparr>brk := Suc (Suc ?d), objs := (objs m)(?d \<mapsto> b1, Suc ?d \<mapsto> b2)\<rparr>)" for p b1 b2
    by (intro assms(5)) blast
  have "payload_string n len fill m = Inr (Suc ?d, ?m)"
    using o assms(4) u fill by (simp add: payload_string_def string_ops run_simps LEN_PREFIX_def MSG_ID_LEN_def fun_upd_twist)
  moreover have "tight ?m (Suc ?d) ?d (overwrite ?b 5 xs)" by (simp add: tight_def)
  moreover have "wf_mem ?m" using assms(1) u by (auto simp: wf_mem_def)
  moreover have "no_oom ?m" using assms(2) by (simp add: no_oom_def)
  moreover have "length (overwrite ?b 5 xs) = usable m n" using u(1) by simp
  moreover have "take (length xs) (drop 5 (overwrite ?b 5 xs)) = xs" using u(1) by (intro overwrite_slice) simp
  ultimately show ?thesis by (intro exI conjI) (assumption | simp)+
qed

lemma u32_small: "unat (n :: u32) \<le> PTRDIFF_MAX"
  using unsigned_less [of n, where 'a = nat] by (simp add: PTRDIFF_MAX_def)

lemma tight_old:
  assumes "wf_mem m" "tight m a d bs"
  shows "a < brk m" "d < brk m" "a \<noteq> d"
  using wf_live_less [OF assms(1), of a] wf_live_less [OF assms(1), of d] assms(2) by (auto simp: tight_def)

lemma set_prefix_tight_fault:
  assumes "wf_mem m" "no_oom m" "tight m a d bs" "length bs < 5 + unat n" "n \<noteq> 0"
  shows "set_prefix_and_msgid n ty a m = Inl OutOfBounds"
proof -
  obtain s where s: "objs m a = Some (OBStr s)" "bs_data s = CP d 5" "bs_head s = CP d 0" "objs m d = Some (OBuf bs)" "a \<noteq> NULL"
    using assms(3) by (auto simp: tight_def)
  have o: "\<not> oom m (brk m)" using assms(2) by (simp add: no_oom_def)
  have n: "0 < unat n" using assms(5) by (simp add: unat_gt_0)
  show ?thesis
    using s o u32_small [of "n + 4"] tight_old [OF assms(1,3)] assms(4,5) n
    by (simp add: set_prefix_and_msgid_def Let_def string_ops run_simps LEN_PREFIX_def MSG_ID_LEN_def memcpy_def)
qed

lemma set_prefix_tight:
  assumes "wf_mem m" "no_oom m" "tight m a d bs" "5 + unat n \<le> length bs" "n \<noteq> 0" "unat n + 5 \<le> usable m (unat n + 4)"
    and "unat n + 4 < 2 ^ 32"
  shows "\<exists>m'. set_prefix_and_msgid n ty a m = Inr (a, m') \<and> message m' a (htonl n @ ty # take (unat n - 1) (drop 5 bs))"
proof -
  obtain s where s: "objs m a = Some (OBStr s)" "bs_data s = CP d 5" "bs_head s = CP d 0" "objs m d = Some (OBuf bs)" "a \<noteq> NULL"
    using assms(3) by (auto simp: tight_def)
  have o: "\<not> oom m (brk m)" using assms(2) by (simp add: no_oom_def)
  have n: "0 < unat n" using assms(5) by (simp add: unat_gt_0)
  have n4: "unat (n + 4) = unat n + 4" using assms(7) by (subst unat_add_lem [THEN iffD1]) auto
  let ?e = "brk m" and ?x = "take (unat n) (drop 5 bs)"
  let ?b = "map (junk m ?e) [0..<usable m (unat n + 4)]"
  let ?c = "overwrite (overwrite (overwrite ?b 5 ?x) 0 (htonl n)) 4 [ty]"
  have lx: "length ?x = unat n" using assms(4) by simp
  have c: "?c = htonl n @ ty # ?x @ drop (5 + unat n) ?b"
    using assms(6) lx by (simp add: overwrite_def htonl_def)
  have "take (unat n - 1) (drop 5 bs) = take (unat n - 1) ?x" by simp
  then have tk: "take (4 + unat n) ?c = htonl n @ ty # take (unat n - 1) (drop 5 bs)"
    using n lx unfolding c by (cases "unat n") simp_all
  have ne: "a \<noteq> ?e" "d \<noteq> ?e" "a \<noteq> d" using tight_old [OF assms(1,3)] by auto
  have lb: "length ?b = usable m (unat n + 4)" "5 + unat n \<le> usable m (unat n + 4)" using assms(6) by simp_all
  have "\<exists>m'. set_prefix_and_msgid n ty a m = Inr (a, m') \<and> objs m' ?e = Some (OBuf ?c)
      \<and> objs m' a = Some (OBStr (s\<lparr>bs_data := CP ?e 0, bs_head := CP ?e 0, bs_len := n + 4\<rparr>))"
    using s o u32_small [of "n + 4"] ne assms(4,5) n lx lb
    by (simp add: set_prefix_and_msgid_def Let_def string_ops run_simps LEN_PREFIX_def MSG_ID_LEN_def memcpy_def n4
        st_byte_def del: length_take)
  then obtain m' where m': "set_prefix_and_msgid n ty a m = Inr (a, m')" "objs m' ?e = Some (OBuf ?c)"
      "objs m' a = Some (OBStr (s\<lparr>bs_data := CP ?e 0, bs_head := CP ?e 0, bs_len := n + 4\<rparr>))" by blast
  have l: "length (htonl n @ ty # take (unat n - 1) (drop 5 bs)) = unat n + 4" using n assms(4) by simp
  have "4 + unat n \<le> length ?c" unfolding c using lx by simp
  then have "message m' a (htonl n @ ty # take (unat n - 1) (drop 5 bs))"
    using tk n4 unfolding l by (intro messageI [where i = 0 and d = ?e, OF m'(3) _ _ m'(2)], unfold l) (simp_all add: add.commute)
  then show ?thesis using m'(1) by blast
qed

text \<open>With more room in front of the data than the prefix and the id need, the message is built in place.\<close>

lemma overwrite_prefix:
  assumes "length p = i" "i \<le> j" "j \<le> length bs"
  shows "drop (j - i) (overwrite bs (j - i) p) = p @ drop j bs"
  using assms by (simp add: overwrite_def)

lemma set_prefix_roomy:
  assumes w: "wf_mem m" and s: "objs m a = Some (OBStr s)" "bs_data s = CP d i" "bs_head s = CP d 0"
    "objs m d = Some (OBuf bs)" "a \<noteq> NULL" and i: "5 < i" "i + (unat n - 1) \<le> length bs" and n: "n \<noteq> 0" "unat n + 4 < 2 ^ 32"
  shows "\<exists>m'. set_prefix_and_msgid n ty a m = Inr (a, m') \<and> message m' a (htonl n @ ty # take (unat n - 1) (drop i bs))"
proof -
  have n0: "0 < unat n" using n(1) by (simp add: unat_gt_0)
  have n4: "unat (n + 4) = unat n + 4" using n(2) by (subst unat_add_lem [THEN iffD1]) auto
  have ne: "a \<noteq> d" using s by auto
  let ?c = "overwrite (overwrite bs (i - 5) (htonl n)) (i - 1) [ty]"
  have "i - 5 + 4 = i - 1" using i by simp
  then have run: "\<exists>m'. set_prefix_and_msgid n ty a m = Inr (a, m') \<and> objs m' d = Some (OBuf ?c)
      \<and> objs m' a = Some (OBStr (s\<lparr>bs_data := CP d (i - 5), bs_len := n + 4\<rparr>))"
    using s i n n0 ne
    by (simp add: set_prefix_and_msgid_def Let_def string_ops run_simps LEN_PREFIX_def MSG_ID_LEN_def st_byte_def)
  have ix: "i \<le> length bs" "i - 1 = (i - 5) + 4" using i by auto
  have "?c = overwrite bs (i - 5) (htonl n @ [ty])"
    using ix i unfolding overwrite_def ix(2) by (simp add: htonl_def)
  then have dr: "drop (i - 5) ?c = htonl n @ ty # drop i bs"
    using overwrite_prefix [of "htonl n @ [ty]" 5 i bs] i ix by simp
  have l: "length (htonl n @ ty # take (unat n - 1) (drop i bs)) = unat n + 4" using n0 i by simp
  have tk: "take (unat n + 4) (drop (i - 5) ?c) = htonl n @ ty # take (unat n - 1) (drop i bs)"
    unfolding dr using n0 by (cases "unat n") simp_all
  have le: "i - 5 + (unat n + 4) \<le> length ?c" using i n0 by simp
  obtain m' where m': "set_prefix_and_msgid n ty a m = Inr (a, m')" "objs m' d = Some (OBuf ?c)"
      "objs m' a = Some (OBStr (s\<lparr>bs_data := CP d (i - 5), bs_len := n + 4\<rparr>))" using run by blast
  have "message m' a (htonl n @ ty # take (unat n - 1) (drop i bs))"
    using tk n4 le s(3) by (intro messageI [where i = "i - 5" and d = d, OF m'(3) _ _ m'(2)], unfold l) simp_all
  then show ?thesis using m'(1) by blast
qed

end
