(* ===== verification/Message_Properties.thy ===== *)
theory Message_Properties
  imports Peer_Message B_Properties
begin

text \<open>
  The properties of the wire messages of \<^verbatim>\<open>src/peer_message.c\<close>: the exact bytes of every message,
  and the off-by-one in the test for reserved space, which sends every message allocated with a payload
  through a path that reads and writes one byte too many.
\<close>

section \<open>Network byte order\<close>

definition ntohl :: "byte list \<Rightarrow> nat" where
  "ntohl bs = foldl (\<lambda>n c. 256 * n + of_char c) 0 bs"

lemma byte_of_nat: "of_char (byte_of w k) = unat w div 2 ^ (8 * k) mod 256"
  unfolding byte_of_def unat_drop_bit_eq by (simp add: drop_bit_eq_div take_bit_eq_mod)

lemma ntohl_htonl: "ntohl (htonl w) = unat w"
proof -
  have w: "unat w < 2 ^ 32" using unsigned_less [of w, where 'a = nat] by simp
  let ?n = "unat w"
  have d: "?n div 65536 = ?n div 256 div 256" "?n div 16777216 = ?n div 256 div 256 div 256"
    by (simp_all add: div_mult2_eq [symmetric])
  have "?n div 256 div 256 div 256 < 256" using w by (simp add: div_mult2_eq [symmetric] div_less_iff_less_mult)
  then have "256 * (256 * (256 * (?n div 16777216 mod 256) + ?n div 65536 mod 256) + ?n div 256 mod 256) + ?n mod 256 = ?n"
    unfolding d by simp
  moreover have "?n div 16777216 < 256" using w by (simp add: div_less_iff_less_mult)
  ultimately show ?thesis by (simp add: ntohl_def htonl_def byte_of_nat)
qed

section \<open>A concrete memory\<close>

text \<open>Two buffers of 20 bytes; \<open>malloc\<close> gives \<open>slack\<close> bytes more than asked for.\<close>

definition two_bufs :: "nat \<Rightarrow> mem" where
  "two_bufs slack = \<lparr>objs = [1 \<mapsto> OBuf (replicate 20 CHR ''h''), 2 \<mapsto> OBuf (replicate 20 CHR ''p'')], links = Map.empty,
     brk = 3, oom = (\<lambda>_. False), usable = (\<lambda>n. if n + slack \<le> PTRDIFF_MAX then n + slack else n), junk = (\<lambda>_ _. NUL), errno = 0\<rparr>"

lemma two_bufs_ok: "wf_mem (two_bufs slack)" "no_oom (two_bufs slack)"
  by (auto simp: two_bufs_def wf_mem_def no_oom_def PTRDIFF_MAX_def)

lemma two_bufs_usable: "n + slack \<le> PTRDIFF_MAX \<Longrightarrow> usable (two_bufs slack) n = n + slack"
  by (simp add: two_bufs_def)

section \<open>Properties\<close>

text \<open>
  The handshake message is the protocol string with its length in front, eight reserved zero
  bytes, the info hash and the peer id: 68 bytes.
\<close>

theorem handshake_bytes:
  assumes "wf_mem m" "no_oom m" "objs m ih = Some (OBuf hb)" "i + 20 \<le> length hb"
    "objs m ip = Some (OBuf pb)" "j + 20 \<le> length pb"
  shows "\<exists>a m'. generate_handshake_message (CP ih i) (CP ip j) m = Inr (a, m')
    \<and> message m' a (CHR 0x13 # ''BitTorrent protocol'' @ replicate 8 NUL @ take 20 (drop i hb) @ take 20 (drop j pb))"
proof -
  let ?a = "brk m" and ?d = "Suc (brk m)"
  let ?b = "map (junk m ?d) [0..<usable m 68]"
  let ?h = "take 20 (drop i hb)" and ?p = "take 20 (drop j pb)"
  let ?c = "CHR 0x13 # ''BitTorrent protocol'' @ replicate 8 NUL @ ?h @ ?p @ drop 68 ?b"
  have o: "\<not> oom m x" for x using assms(2) by (simp add: no_oom_def)
  have u: "68 \<le> usable m 68" using usable_le [OF assms(1)] .
  have ne: "ih \<noteq> ?a" "ih \<noteq> ?d" "ip \<noteq> ?a" "ip \<noteq> ?d" "?a \<noteq> NULL"
    using wf_live_less [OF assms(1), of ih] wf_live_less [OF assms(1), of ip] assms(3,5) brk_not_null [OF assms(1)] by auto
  have l: "length ?h = 20" "length ?p = 20" using assms(4,6) by simp_all
  have ch: "char_of (19 :: nat) = CHR 0x13" by code_simp
  have z: "overwrite (overwrite (overwrite (overwrite (overwrite (overwrite ?b 0 (replicate 68 NUL)) 0 [CHR 0x13]) 1
      ''BitTorrent protocol'') 20 (replicate 8 NUL)) 28 ?h) 48 ?p = ?c"
    using u l by (simp add: overwrite_def)
  have "\<exists>m'. generate_handshake_message (CP ih i) (CP ip j) m = Inr (?a, m') \<and> objs m' ?d = Some (OBuf ?c)
      \<and> objs m' ?a = Some (OBStr \<lparr>bs_prev = NULL, bs_data = CP ?d 0, bs_head = CP ?d 0, bs_len = 68\<rparr>)"
    using o u ne assms l unfolding z [symmetric]
    by (simp add: generate_handshake_message_def string_ops run_simps msg_consts memset_def memcpy_def st_byte_def
        DEFAULT_PSTR_def PTRDIFF_MAX_def ch del: length_take)
  then obtain m' where m': "generate_handshake_message (CP ih i) (CP ip j) m = Inr (?a, m')" "objs m' ?d = Some (OBuf ?c)"
      "objs m' ?a = Some (OBStr \<lparr>bs_prev = NULL, bs_data = CP ?d 0, bs_head = CP ?d 0, bs_len = 68\<rparr>)" by blast
  have "message m' ?a (CHR 0x13 # ''BitTorrent protocol'' @ replicate 8 NUL @ ?h @ ?p)"
    using l by (intro messageI [where i = 0 and d = ?d, OF m'(3) _ _ m'(2)]) (simp_all del: length_take)
  then show ?thesis using m'(1) by blast
qed

theorem handshake_bytes_witness:
  "\<exists>a m'. generate_handshake_message (CP 1 0) (CP 2 0) (two_bufs 0) = Inr (a, m')
    \<and> message m' a (CHR 0x13 # ''BitTorrent protocol'' @ replicate 8 NUL @ replicate 20 CHR ''h'' @ replicate 20 CHR ''p'')"
  using handshake_bytes [OF two_bufs_ok [of 0], of 1 "replicate 20 CHR ''h''" 0 2 "replicate 20 CHR ''p''" 0]
  by (simp add: two_bufs_def)

text \<open>
  The messages without a payload: four zero bytes for keep-alive, and a length of one with the
  message id for choke, unchoke, interested and not interested.
\<close>

theorem short_message_bytes:
  assumes "wf_mem m" "no_oom m"
  shows "(\<exists>a m'. generate_keep_alive_message m = Inr (a, m') \<and> message m' a [NUL, NUL, NUL, NUL])
    \<and> (\<exists>a m'. generate_choke_message m = Inr (a, m') \<and> message m' a [NUL, NUL, NUL, CHR 0x01, CHR 0x00])
    \<and> (\<exists>a m'. generate_unchoke_message m = Inr (a, m') \<and> message m' a [NUL, NUL, NUL, CHR 0x01, CHR 0x01])
    \<and> (\<exists>a m'. generate_interested_message m = Inr (a, m') \<and> message m' a [NUL, NUL, NUL, CHR 0x01, CHR 0x02])
    \<and> (\<exists>a m'. generate_not_interested_message m = Inr (a, m') \<and> message m' a [NUL, NUL, NUL, CHR 0x01, CHR 0x03])"
proof -
  have h: "htonl 0 = [NUL, NUL, NUL, NUL]" "htonl 1 = [NUL, NUL, NUL, CHR 0x01]" by code_simp+
  note [simp] = h generate_keep_alive_message_def generate_choke_message_def generate_unchoke_message_def
    generate_interested_message_def generate_not_interested_message_def MSG_ID_LEN_def
    PEER_MESSAGE_KEEP_ALIVE_def PEER_MESSAGE_CHOKE_def PEER_MESSAGE_UNCHOCKE_def PEER_MESSAGE_INTERESTED_def
    PEER_MESSAGE_NOT_INTERESTED_def
  note e = set_prefix_empty [OF assms]
  show ?thesis
    using e [of 0 "CHR 0x00"] e [of 1 "CHR 0x00"] e [of 1 "CHR 0x01"] e [of 1 "CHR 0x02"] e [of 1 "CHR 0x03"]
    by (simp only: h) simp
qed

theorem short_message_bytes_witness:
  "\<exists>a m'. generate_unchoke_message (two_bufs 0) = Inr (a, m') \<and> message m' a [NUL, NUL, NUL, CHR 0x01, CHR 0x01]"
  using short_message_bytes [OF two_bufs_ok [of 0]] by blast

text \<open>
  C13. If \<open>malloc\<close> happens to give at least one byte more than was asked for, a request message has
  the right bytes: length 13, id 6, and the piece index, offset and slice length in network order.
\<close>

theorem request_bytes:
  assumes "wf_mem m" "no_oom m" "18 \<le> usable m 17"
  shows "\<exists>a m'. generate_request_message idx off len m = Inr (a, m')
    \<and> message m' a (htonl 13 @ CHR 0x06 # htonl idx @ htonl off @ htonl len)"
proof -
  let ?x = "htonl idx @ htonl off @ htonl len"
  obtain a m1 bs where p: "payload_string 17 12 (\<lambda>buf. wr_bytes buf ?x) m = Inr (a, m1)" "tight m1 a (brk m) bs"
      "length bs = usable m 17" "take (length ?x) (drop 5 bs) = ?x" "wf_mem m1" "no_oom m1" "usable m1 = usable m"
    using payload_string_run [OF assms(1,2), of 17 ?x "\<lambda>buf. wr_bytes buf ?x" 12] by (auto simp: PTRDIFF_MAX_def)
  have "\<exists>m'. set_prefix_and_msgid 13 CHR 0x06 a m1 = Inr (a, m')
      \<and> message m' a (htonl 13 @ CHR 0x06 # take (unat (13 :: u32) - 1) (drop 5 bs))"
    using p(3,7) assms(3) by (intro set_prefix_tight [OF p(5,6,2)]) simp_all
  moreover have "take (unat (13 :: u32) - 1) (drop 5 bs) = ?x" using p(4) by simp
  ultimately show ?thesis
    using p(1) by (auto simp: generate_request_message_def msg_consts PEER_MESSAGE_REQUEST_def run_simps)
qed

theorem request_bytes_witness:
  "\<exists>a m'. generate_request_message 100 0x10000 0x4000 (two_bufs 3) = Inr (a, m')
    \<and> message m' a [NUL, NUL, NUL, CHR 0x0d, CHR 0x06, NUL, NUL, NUL, CHR 0x64, NUL, CHR 0x01, NUL, NUL, NUL, NUL, CHR 0x40, NUL]"
proof -
  have h: "htonl 13 @ CHR 0x06 # htonl 100 @ htonl 0x10000 @ htonl 0x4000 =
      [NUL, NUL, NUL, CHR 0x0d, CHR 0x06, NUL, NUL, NUL, CHR 0x64, NUL, CHR 0x01, NUL, NUL, NUL, NUL, CHR 0x40, NUL]"
    by code_simp
  have "18 \<le> usable (two_bufs 3) 17" by (simp add: two_bufs_usable PTRDIFF_MAX_def)
  from request_bytes [OF two_bufs_ok [of 3] this, where idx = 100 and off = "0x10000" and len = "0x4000"]
  show ?thesis unfolding h .
qed

text \<open>
  C14. If \<open>malloc\<close> gives exactly what was asked for, building a have, bitfield, request, cancel or port
  message reads behind its buffer: the reserved room is exactly what is needed, but the test asks for
  more. Piece messages are built in front of data that the caller holds and are not meant here.
\<close>

theorem payload_messages_overrun:
  assumes "wf_mem m" "no_oom m" "\<forall>n. usable m n = n"
    "objs m bf = Some (OBuf bits)" "i + unat n \<le> length bits" "unat n + 5 < 2 ^ 32"
  shows "generate_have_message idx m = Inl OutOfBounds \<and> generate_bitfield_message n (CP bf i) m = Inl OutOfBounds
    \<and> generate_request_message idx off len m = Inl OutOfBounds \<and> generate_cancel_message idx off len m = Inl OutOfBounds
    \<and> generate_port_message port m = Inl OutOfBounds"
proof -
  have f: "bnd (payload_string n k fill) (set_prefix_and_msgid p ty) m = Inl OutOfBounds"
    if n: "n = 5 + length x" "n \<le> PTRDIFF_MAX" "unat p = 1 + length x"
      "\<And>p m'. (\<forall>a b. objs m a = Some b \<longrightarrow> objs m' a = Some b) \<Longrightarrow> fill p m' = wr_bytes p x m'" for n k x p ty fill
  proof -
    obtain a m1 bs where r: "payload_string n k fill m = Inr (a, m1)" "tight m1 a (brk m) bs" "length bs = n" "wf_mem m1" "no_oom m1"
      using payload_string_run [OF assms(1,2) n(1,2), of fill k] n(4) assms(3) by auto
    have "p \<noteq> 0" using n(3) by auto
    then show ?thesis using r set_prefix_tight_fault [OF r(4,5,2), of p ty] n(1,3) by (simp add: run_simps)
  qed
  have bits: "memcpy p (CP bf i) (unat n) m' = wr_bytes p (take (unat n) (drop i bits)) m'" if "\<forall>a b. objs m a = Some b \<longrightarrow> objs m' a = Some b" for p m'
    using that assms(4,5) by (simp add: memcpy_def run_simps)
  have k: "unat (5 + n) = 5 + unat n" "unat (1 + n) = 1 + unat n" using assms(6) by (simp_all add: unat_word_ariths)
  have "5 + unat n \<le> PTRDIFF_MAX" using assms(6) by (simp add: PTRDIFF_MAX_def)
  then have "bnd (payload_string (5 + unat n) n (\<lambda>buf. memcpy buf (CP bf i) (unat n))) (set_prefix_and_msgid (1 + n) PEER_MESSAGE_BITFIELD) m = Inl OutOfBounds"
    using assms(5) k(2) bits by (intro f [of _ "take (unat n) (drop i bits)"]) simp_all
  then have "generate_bitfield_message n (CP bf i) m = Inl OutOfBounds" using k(1) by (simp add: generate_bitfield_message_def msg_consts)
  then show ?thesis
    using assms(1,2) f [of 9 "htonl idx" 5 "\<lambda>buf. wr_bytes buf (htonl idx)" 4 PEER_MESSAGE_HAVE]
      f [of 17 "htonl idx @ htonl off @ htonl len" 13 "\<lambda>buf. wr_bytes buf (htonl idx @ htonl off @ htonl len)" 12 PEER_MESSAGE_REQUEST]
      f [of 17 "htonl idx @ htonl off @ htonl len" 13 "\<lambda>buf. wr_bytes buf (htonl idx @ htonl off @ htonl len)" 12 PEER_MESSAGE_CANCEL]
      f [of 7 "htons port" 3 "\<lambda>buf. wr_bytes buf (htons port)" 2 PEER_MESSAGE_PORT]
    by (simp add: generate_have_message_def generate_request_message_def generate_cancel_message_def
        generate_port_message_def msg_consts PTRDIFF_MAX_def)
qed

theorem payload_messages_overrun_witness:
  "generate_have_message 1 (two_bufs 0) = Inl OutOfBounds \<and> generate_bitfield_message 20 (CP 1 0) (two_bufs 0) = Inl OutOfBounds
    \<and> generate_request_message 1 2 3 (two_bufs 0) = Inl OutOfBounds"
proof -
  have u: "\<forall>n. usable (two_bufs 0) n = n" "objs (two_bufs 0) 1 = Some (OBuf (replicate 20 CHR ''h''))" by (simp_all add: two_bufs_def)
  then show ?thesis using payload_messages_overrun [OF two_bufs_ok [of 0] u, of 0 20 1 2 3] by simp
qed

text \<open>
  A piece message built on a string with more than 13 bytes in front of its data is made in
  place: the length, id 7, the piece index and the offset stand directly in front of the slice.
\<close>

theorem piece_bytes:
  assumes "wf_mem m" "a \<noteq> NULL" "objs m a = Some (OBStr s)" "bs_data s = CP d i" "bs_head s = CP d 0"
    "objs m d = Some (OBuf bs)" "13 < i" "i + unat len \<le> length bs" "unat len + 13 < 2 ^ 32"
  shows "\<exists>m'. generate_piece_message idx off len a m = Inr (a, m')
    \<and> message m' a (htonl (len + 9) @ CHR 0x07 # htonl idx @ htonl off @ take (unat len) (drop i bs))"
proof -
  let ?b = "overwrite (overwrite bs (i - 8) (htonl idx)) (i - 4) (htonl off)"
  let ?s = "s\<lparr>bs_data := CP d (i - 8), bs_len := bs_len s + 8\<rparr>"
  let ?m = "m\<lparr>objs := (objs m)(d \<mapsto> OBuf ?b, a \<mapsto> OBStr ?s)\<rparr>"
  have ne: "a \<noteq> d" using assms(3,6) by auto
  have i4: "i - 8 + 4 = i - 4" using assms(7) by simp
  have run: "generate_piece_message idx off len a m = set_prefix_and_msgid (len + 9) CHR 0x07 a ?m"
    using assms(2-9) ne i4
    by (simp add: generate_piece_message_def string_ops run_simps LEN_PREFIX_def MSG_ID_LEN_def PEER_MESSAGE_PIECE_def
        fun_upd_twist add.commute)
  have n9: "unat (len + 9) = unat len + 9" using assms(9) by (subst unat_add_lem [THEN iffD1]) auto
  have "a \<noteq> 0" "d \<noteq> 0" "length bs \<le> PTRDIFF_MAX" using assms(1,2,3,6) by (auto simp: wf_mem_def intro: ccontr)
  moreover have "length ?b = length bs" using assms(7,8) by simp
  ultimately have w: "wf_mem ?m" using assms(1,3,6) by (auto simp: wf_mem_def)
  have "?b = overwrite bs (i - 8) (htonl idx @ htonl off)"
    using assms(7,8) unfolding overwrite_def i4 [symmetric]
    by (simp add: htonl_def) (rule arg_cong [where f = "\<lambda>k. drop k bs"], simp)
  then have dr: "drop (i - 8) ?b = htonl idx @ htonl off @ drop i bs"
    using overwrite_prefix [of "htonl idx @ htonl off" 8 i bs] assms(7,8) by simp
  have "\<exists>m'. set_prefix_and_msgid (len + 9) CHR 0x07 a ?m = Inr (a, m')
      \<and> message m' a (htonl (len + 9) @ CHR 0x07 # take (unat (len + 9) - 1) (drop (i - 8) ?b))"
    by (rule set_prefix_roomy [OF w, where s = ?s and d = d and i = "i - 8"])
      (use assms ne n9 in \<open>auto simp: unat_eq_0 [symmetric]\<close>)
  moreover have "take (unat (len + 9) - 1) (drop (i - 8) ?b) = htonl idx @ htonl off @ take (unat len) (drop i bs)"
    unfolding dr n9 by simp
  ultimately show ?thesis unfolding run by simp
qed

definition slice_mem :: mem where
  "slice_mem = \<lparr>objs = [1 \<mapsto> OBuf (replicate 14 NUL @ ''data''),
     2 \<mapsto> OBStr \<lparr>bs_prev = NULL, bs_data = CP 1 14, bs_head = CP 1 0, bs_len = 4\<rparr>], links = Map.empty,
     brk = 3, oom = (\<lambda>_. False), usable = id, junk = (\<lambda>_ _. NUL), errno = 0\<rparr>"

theorem piece_bytes_witness:
  "\<exists>m'. generate_piece_message 3 0x4000 4 2 slice_mem = Inr (2, m')
    \<and> message m' 2 [NUL, NUL, NUL, CHR 0x0d, CHR 0x07, NUL, NUL, NUL, CHR 0x03, NUL, NUL, CHR 0x40, NUL,
        CHR ''d'', CHR ''a'', CHR ''t'', CHR ''a'']"
proof -
  have h: "htonl (4 + 9) @ CHR 0x07 # htonl 3 @ htonl 0x4000 @ ''data'' =
      [NUL, NUL, NUL, CHR 0x0d, CHR 0x07, NUL, NUL, NUL, CHR 0x03, NUL, NUL, CHR 0x40, NUL, CHR ''d'', CHR ''a'', CHR ''t'', CHR ''a'']"
    by code_simp
  have "wf_mem slice_mem" by (auto simp: slice_mem_def wf_mem_def PTRDIFF_MAX_def)
  from piece_bytes [OF this, where a = 2 and s = "\<lparr>bs_prev = NULL, bs_data = CP 1 14, bs_head = CP 1 0, bs_len = 4\<rparr>"
      and d = 1 and i = 14 and bs = "replicate 14 NUL @ ''data''" and len = 4 and idx = 3 and off = "0x4000"] show ?thesis
    unfolding h [symmetric] by (simp add: slice_mem_def)
qed

text \<open>
  A piece message whose string has fewer than 13 bytes in front of its data is refused: the
  string and its buffer are freed and NULL is returned.
\<close>

theorem piece_refused:
  assumes "a \<noteq> NULL" "d \<noteq> NULL" "objs m a = Some (OBStr s)" "bs_data s = CP d i" "bs_head s = CP d 0"
    "objs m d = Some (OBuf bs)" "i < 13"
  shows "generate_piece_message idx off len a m = Inr (NULL, release_all [d, a] m)"
proof -
  have "a \<noteq> d" using assms(3,6) by auto
  then show ?thesis
    using assms by (simp add: generate_piece_message_def string_ops run_simps LEN_PREFIX_def MSG_ID_LEN_def b_string_free_def
        release_all_append)
qed

theorem piece_refused_witness:
  "\<exists>m. objs m 2 \<noteq> None \<and> generate_piece_message 0 0 0 2 m = Inr (NULL, release_all [1, 2] m)"
proof -
  let ?b = "\<lparr>bs_prev = NULL, bs_data = CP 1 0, bs_head = CP 1 0, bs_len = 1\<rparr>"
  let ?m = "slice_mem\<lparr>objs := [1 \<mapsto> OBuf ''x'', 2 \<mapsto> OBStr ?b]\<rparr>"
  have "generate_piece_message 0 0 0 2 ?m = Inr (NULL, release_all [1, 2] ?m)"
    by (rule piece_refused [where i = 0 and s = ?b and bs = "''x''"]) simp_all
  moreover have "objs ?m 2 \<noteq> None" by simp
  ultimately show ?thesis by blast
qed

text \<open>
  A keep-alive message is four bytes long, but the dispatcher reads the fifth byte of every
  message before it looks at the length: on a keep-alive it reads behind the buffer.
\<close>

theorem keep_alive_dispatch_overreads:
  assumes "objs (t_mem s) str = Some (OBStr b)" "bs_data b = CP d i" "objs (t_mem s) d = Some (OBuf bs)" "length bs = i + 4"
  shows "deal_message p str s = Inl OutOfBounds"
  using assms by (simp add: deal_message_def string_ops run_simps on_mem_def ld_byte_def)

theorem keep_alive_dispatch_overreads_witness:
  "\<exists>s. objs (t_mem s) 2 \<noteq> None \<and> deal_message 3 2 s = Inl OutOfBounds"
proof -
  let ?b = "\<lparr>bs_prev = NULL, bs_data = CP 1 0, bs_head = CP 1 0, bs_len = 4\<rparr>"
  let ?m = "slice_mem\<lparr>objs := [1 \<mapsto> OBuf [NUL, NUL, NUL, NUL], 2 \<mapsto> OBStr ?b]\<rparr>"
  fix l
  let ?s = "\<lparr>t_mem = ?m, t_list = l, t_sigalrm = SigDefault\<rparr>"
  have "deal_message 3 2 ?s = Inl OutOfBounds"
    by (rule keep_alive_dispatch_overreads [where b = ?b and d = 1 and i = 0 and bs = "[NUL, NUL, NUL, NUL]"]) simp_all
  moreover have "objs (t_mem ?s) 2 \<noteq> None" by simp
  ultimately show ?thesis by blast
qed

end
