(* ===== verification/Bt_Socket.thy ===== *)
theory Bt_Socket
  imports C_Memory
begin

unbundle bit_operations_syntax

text \<open>
  The send service of \<^verbatim>\<open>src/bt_socket.c\<close>. The kernel is a script of replies: each system call takes
  the next reply (its result and, on failure, the value of \<open>errno\<close>) and is recorded with its
  arguments. A call for which the script has no reply does not return (\<open>Blocked\<close>). Every loop of the
  file makes a system call in each iteration, so the number of replies bounds the iterations.

  A port is kept as the 16-bit word that the little-endian host reads from the two bytes in network
  order. The reference-counted send buffers of the file are left out: their structs are declared
  nowhere in the repository.
\<close>

section \<open>System calls\<close>

record sockaddr_in =
  sin_family :: int
  sin_port :: u16
  sin_addr :: u32

datatype syscall =
    Socket int int int
  | Bind int sockaddr_in
  | Connect int sockaddr_in
  | Send int "byte list" int
  | FcntlGetfd int
  | FcntlSetfd int int
  | Close int

record reply =
  rp_ret :: int
  rp_errno :: int

record os =
  replies :: "reply list"
  calls :: "syscall list"
  os_errno :: int

definition sys :: "syscall \<Rightarrow> (os, int) run" where
  "sys c = (\<lambda>s. case replies s of [] \<Rightarrow> Inl Blocked
     | r # rs \<Rightarrow> Inr (rp_ret r, s\<lparr>replies := rs, calls := calls s @ [c],
         os_errno := if rp_ret r = - 1 then rp_errno r else os_errno s\<rparr>))"

definition get_os_errno :: "(os, int) run" where
  "get_os_errno = (\<lambda>s. Inr (os_errno s, s))"

definition EINTR :: int where "EINTR = 4"
definition EADDRINUSE :: int where "EADDRINUSE = 98"
definition ENOBUFS :: int where "ENOBUFS = 105"
definition EISCONN :: int where "EISCONN = 106"
definition ETIMEDOUT :: int where "ETIMEDOUT = 110"
definition EINPROGRESS :: int where "EINPROGRESS = 115"
definition O_NONBLOCK :: int where "O_NONBLOCK = 2048"
definition AF_INET :: int where "AF_INET = 2"
definition SOCK_STREAM :: int where "SOCK_STREAM = 1"
definition SOCK_DGRAM :: int where "SOCK_DGRAM = 2"
definition IPPROTO_TCP :: int where "IPPROTO_TCP = 6"
definition IPPROTO_UDP :: int where "IPPROTO_UDP = 17"
definition MSG_DONTWAIT :: int where "MSG_DONTWAIT = 64"

text \<open>\<open>ntohs\<close> and \<open>htons\<close> on a little-endian host.\<close>

definition swap16 :: "u16 \<Rightarrow> u16" where
  "swap16 w = push_bit 8 w OR drop_bit 8 w"

section \<open>The functions of the file\<close>

definition BT_IPPROTO_TCP :: int where "BT_IPPROTO_TCP = 100"
definition BT_IPPROTO_UDP :: int where "BT_IPPROTO_UDP = 101"

definition get_fd_by_port :: "u16 \<Rightarrow> int" where
  "get_fd_by_port port = 0"

definition set_nonblock :: "int \<Rightarrow> (os, unit) run" where
  "set_nonblock fd =
     bnd (sys (FcntlGetfd fd)) (\<lambda>status.
     bnd (sys (FcntlSetfd fd (status OR O_NONBLOCK))) (\<lambda>_. ret ()))"

definition set_block :: "int \<Rightarrow> (os, unit) run" where
  "set_block fd =
     bnd (sys (FcntlGetfd fd)) (\<lambda>status.
     bnd (sys (FcntlSetfd fd (status XOR O_NONBLOCK))) (\<lambda>_. ret ()))"

text \<open>The two retry loops of \<open>init_socket\<close>; \<open>None\<close> and \<open>False\<close> stand for \<open>goto ERR_DEAL\<close>.\<close>

fun socket_retry :: "nat \<Rightarrow> int \<Rightarrow> int \<Rightarrow> (os, int option) run" where
  "socket_retry 0 flag retry = stop OutOfFuel"
| "socket_retry (Suc f) flag retry =
     (if flag = BT_IPPROTO_TCP \<or> flag = BT_IPPROTO_UDP then
        bnd (sys (if flag = BT_IPPROTO_TCP then Socket AF_INET SOCK_STREAM IPPROTO_TCP
                  else Socket AF_INET SOCK_DGRAM IPPROTO_UDP)) (\<lambda>fd.
        if fd = - 1 then
          bnd get_os_errno (\<lambda>e.
          if retry \<noteq> 0 \<and> e = ENOBUFS then socket_retry f flag retry else ret None)
        else ret (Some fd))
      else ret None)"

text \<open>\<open>sin_port += ntohs (sin_port) + 5; sin_port = htons (sin_port)\<close>\<close>

definition next_port :: "u16 \<Rightarrow> u16" where
  "next_port p = swap16 (p + (swap16 p + 5))"

fun bind_retry :: "nat \<Rightarrow> int \<Rightarrow> sockaddr_in \<Rightarrow> int \<Rightarrow> (os, bool \<times> sockaddr_in) run" where
  "bind_retry 0 fd source retry = stop OutOfFuel"
| "bind_retry (Suc f) fd source retry =
     bnd (sys (Bind fd source)) (\<lambda>r.
     if r = - 1 then
       bnd get_os_errno (\<lambda>e.
       if e = EADDRINUSE then
         (if retry \<noteq> 0 then bind_retry f fd (source\<lparr>sin_port := next_port (sin_port source)\<rparr>) retry
          else ret (False, source))
       else if e = ENOBUFS then bind_retry f fd source retry
       else ret (False, source))
     else ret (True, source))"

definition init_socket :: "sockaddr_in \<Rightarrow> int \<Rightarrow> int \<Rightarrow> (os, int \<times> sockaddr_in) run" where
  "init_socket source flag retry = (\<lambda>s.
     bnd (socket_retry (Suc (length (replies s))) flag retry) (\<lambda>o_fd.
     case o_fd of None \<Rightarrow> ret (- 1, source)
     | Some fd \<Rightarrow>
       bnd (bind_retry (Suc (length (replies s))) fd source retry) (\<lambda>(ok, source).
       if ok then bnd (set_nonblock fd) (\<lambda>_. ret (fd, source)) else ret (- 1, source))) s)"

text \<open>The argument of \<open>send\<close>: \<open>n\<close> bytes from \<open>buf + i\<close> on.\<close>

definition slice :: "byte list \<Rightarrow> int \<Rightarrow> int \<Rightarrow> (os, byte list) run" where
  "slice buf i n = (if 0 \<le> i \<and> 0 \<le> n \<and> i + n \<le> int (length buf) then ret (take (nat n) (drop (nat i) buf)) else stop OutOfBounds)"

text \<open>\<open>n\<close> is a local variable without initial value: \<open>None\<close> until \<open>send\<close> was called.\<close>

fun sendall_loop :: "nat \<Rightarrow> int \<Rightarrow> byte list \<Rightarrow> int \<Rightarrow> int \<Rightarrow> int \<Rightarrow> int option \<Rightarrow> (os, int \<times> int option) run" where
  "sendall_loop 0 fd buf len sent bytesleft n = stop OutOfFuel"
| "sendall_loop (Suc f) fd buf len sent bytesleft n =
     (if sent < len then
        bnd (slice buf sent bytesleft) (\<lambda>bs.
        bnd (sys (Send fd bs 0)) (\<lambda>n.
        if n = - 1 then ret (sent, Some n)
        else sendall_loop f fd buf len (sent + n) (bytesleft - n) (Some n)))
      else ret (sent, n))"

definition sendall :: "int \<Rightarrow> byte list \<Rightarrow> int \<Rightarrow> (os, int \<times> int) run" where
  "sendall fd buf len = (\<lambda>s.
     bnd (sendall_loop (Suc (length (replies s))) fd buf len 0 len None) (\<lambda>(sent, n).
     case n of None \<Rightarrow> stop Uninit
     | Some n \<Rightarrow> ret (if n = - 1 then - 1 else 0, sent)) s)"

text \<open>\<open>CONNECT_RETRY\<close>; \<open>False\<close> stands for \<open>goto ERR_DEAL\<close>.\<close>

fun connect_retry :: "nat \<Rightarrow> int \<Rightarrow> sockaddr_in \<Rightarrow> int \<Rightarrow> (os, bool) run" where
  "connect_retry 0 fd dest retry = stop OutOfFuel"
| "connect_retry (Suc f) fd dest retry =
     bnd (sys (Connect fd dest)) (\<lambda>r.
     if r = - 1 then
       bnd get_os_errno (\<lambda>e.
       if e = EADDRINUSE \<or> e = EINPROGRESS \<or> e = EISCONN then ret True
       else if e = EINTR \<or> e = ETIMEDOUT then
         (if retry > 5 then ret False else connect_retry f fd dest (retry + 1))
       else ret False)
     else ret True)"

definition bt_sync_send :: "sockaddr_in \<Rightarrow> sockaddr_in \<Rightarrow> byte list \<Rightarrow> int \<Rightarrow> int \<Rightarrow> (os, int) run" where
  "bt_sync_send dest source buf buflen flag = (\<lambda>s.
     let fd = 0 in
     bnd (if (if fd = get_fd_by_port (swap16 (sin_port source)) then 1 else (0 :: int)) = 0
          then init_socket source flag 1 else ret (fd, source)) (\<lambda>(fd, source).
     if fd = - 1 then ret (- 1)
     else if flag = BT_IPPROTO_TCP then
       bnd (connect_retry (Suc (length (replies s))) fd dest 0) (\<lambda>ok.
       if ok then bnd (slice buf 0 buflen) (\<lambda>bs. bnd (sys (Send fd bs MSG_DONTWAIT)) (\<lambda>_. ret 0))
       else ret (- 1))
     else if flag = BT_IPPROTO_UDP then bnd (sendall fd buf buflen) (\<lambda>_. ret 0)
     else ret 0) s)"

section \<open>One system call\<close>

lemma sys_run [run_simps]:
  "replies s = r # rs \<Longrightarrow> sys c s = Inr (rp_ret r, s\<lparr>replies := rs, calls := calls s @ [c],
     os_errno := if rp_ret r = - 1 then rp_errno r else os_errno s\<rparr>)"
  "replies s = [] \<Longrightarrow> sys c s = Inl Blocked"
  "get_os_errno s = Inr (os_errno s, s)"
  by (simp_all add: sys_def get_os_errno_def)

lemma slice_run [run_simps]:
  "0 \<le> i \<Longrightarrow> 0 \<le> n \<Longrightarrow> i + n \<le> int (length buf) \<Longrightarrow> slice buf i n s = Inr (take (nat n) (drop (nat i) buf), s)"
  by (simp add: slice_def)

text \<open>What the kernel took of the bytes it was offered.\<close>

fun accepted :: "(syscall \<times> reply) list \<Rightarrow> byte list" where
  "accepted [] = []"
| "accepted ((Send fd bs fl, r) # xs) = take (nat (rp_ret r)) bs @ accepted xs"
| "accepted ((c, r) # xs) = accepted xs"

text \<open>The documented results of \<open>send\<close>: an error, or at most the number of bytes offered.\<close>

fun send_replies :: "int \<Rightarrow> reply list \<Rightarrow> bool" where
  "send_replies left [] = True"
| "send_replies left (r # rs) = (rp_ret r = - 1 \<or> 0 \<le> rp_ret r \<and> rp_ret r \<le> left \<and> send_replies (left - rp_ret r) rs)"

section \<open>Sending everything\<close>

text \<open>
  The outcomes of the loop started with \<open>sent\<close> bytes done: all is sent; or an error after a part; or the
  loop waits for a reply, and the replies it had were no errors and did not add up to the rest.
\<close>

definition send_outcome :: "byte list \<Rightarrow> int \<Rightarrow> int \<Rightarrow> os \<Rightarrow> fault + (int \<times> int option) \<times> os \<Rightarrow> bool" where
  "send_outcome buf len sent s res = (case res of
      Inl e \<Rightarrow> e = Blocked \<and> (\<forall>r\<in>set (replies s). rp_ret r \<noteq> - 1) \<and> (\<Sum>r\<leftarrow>replies s. rp_ret r) < len - sent
    | Inr ((t, k), s') \<Rightarrow> \<exists>cs rs. calls s' = calls s @ cs \<and> replies s = rs @ replies s' \<and> length cs = length rs
        \<and> take (nat sent) buf @ accepted (zip cs rs) = take (nat t) buf \<and> sent \<le> t
        \<and> (k = Some (- 1) \<and> t < len \<or> k \<noteq> Some (- 1) \<and> k \<noteq> None \<and> t = len))"

lemma send_outcome_step:
  assumes "send_outcome buf len (sent + rp_ret r) s1 res" "replies s = r # replies s1" "calls s1 = calls s @ [Send fd bs 0]"
    "take (nat sent) buf @ take (nat (rp_ret r)) bs = take (nat (sent + rp_ret r)) buf" "0 \<le> rp_ret r"
  shows "send_outcome buf len sent s res"
proof (cases res)
  case (Inl e)
  then show ?thesis using assms by (simp add: send_outcome_def)
next
  case (Inr p)
  obtain t k s' where p: "p = ((t, k), s')" by (cases p) auto
  obtain cs rs where c: "calls s' = calls s1 @ cs" "replies s1 = rs @ replies s'" "length cs = length rs"
      "take (nat (sent + rp_ret r)) buf @ accepted (zip cs rs) = take (nat t) buf" "sent + rp_ret r \<le> t"
      "k = Some (- 1) \<and> t < len \<or> k \<noteq> Some (- 1) \<and> k \<noteq> None \<and> t = len"
    using assms(1) unfolding send_outcome_def Inr p by auto
  have "take (nat sent) buf @ accepted (zip (Send fd bs 0 # cs) (r # rs)) = take (nat t) buf"
    using c(4) unfolding assms(4) [symmetric] by simp
  moreover have "calls s' = calls s @ Send fd bs 0 # cs" "replies s = (r # rs) @ replies s'" "sent \<le> t"
    "length (Send fd bs 0 # cs) = length (r # rs)"
    using c(1-3,5) assms(2,3,5) by simp_all
  ultimately show ?thesis using c(6) unfolding send_outcome_def Inr p sum.case prod.case by blast
qed

lemma sendall_loop_outcome:
  assumes "0 \<le> sent" "sent \<le> len" "len \<le> int (length buf)" "send_replies (len - sent) (replies s)"
    "length (replies s) < f" "n \<noteq> Some (- 1)" "sent = len \<Longrightarrow> n \<noteq> None"
  shows "send_outcome buf len sent s (sendall_loop f fd buf len sent (len - sent) n s)"
  using assms
proof (induction f arbitrary: sent s n)
  case (Suc f)
  let ?bs = "take (nat (len - sent)) (drop (nat sent) buf)"
  consider (complete) "\<not> sent < len" | (blocked) "sent < len" "replies s = []"
    | (call) r rs where "sent < len" "replies s = r # rs" by (cases "sent < len"; cases "replies s") auto
  then show ?case
  proof cases
    case complete
    then show ?thesis using Suc.prems by (auto simp: send_outcome_def)
  next
    case blocked
    then show ?thesis using Suc.prems by (simp add: run_simps send_outcome_def)
  next
    case call
    have sl: "slice buf sent (len - sent) s = Inr (?bs, s)" using Suc.prems by (simp add: run_simps)
    obtain s1 where sy: "sys (Send fd ?bs 0) s = Inr (rp_ret r, s1)" "replies s1 = rs" "calls s1 = calls s @ [Send fd ?bs 0]"
      using call(2) by (simp add: sys_run)
    show ?thesis
    proof (cases "rp_ret r = - 1")
      case True
      then have "sendall_loop (Suc f) fd buf len sent (len - sent) n s = Inr ((sent, Some (- 1)), s1)"
        using sl sy(1) call(1) by (simp add: run_simps)
      moreover have "accepted (zip [Send fd ?bs 0] [r]) = []" using True by simp
      ultimately show ?thesis
        using call sy(2,3) unfolding send_outcome_def by (auto intro!: exI [of _ "[Send fd ?bs 0]"] exI [of _ "[r]"])
    next
      case False
      have k: "0 \<le> rp_ret r" "rp_ret r \<le> len - sent" "send_replies (len - (sent + rp_ret r)) rs"
        using Suc.prems(4) False call(2) by (simp_all add: algebra_simps)
      have "nat (sent + rp_ret r) = nat sent + nat (rp_ret r)" using Suc.prems(1) k(1) by simp
      then have tk: "take (nat sent) buf @ take (nat (rp_ret r)) ?bs = take (nat (sent + rp_ret r)) buf"
        using k(2) by (simp add: take_add min_def)
      have "send_outcome buf len (sent + rp_ret r) s1
          (sendall_loop f fd buf len (sent + rp_ret r) (len - (sent + rp_ret r)) (Some (rp_ret r)) s1)"
        by (rule Suc.IH) (use Suc.prems k call False sy in auto)
      moreover have "sendall_loop (Suc f) fd buf len sent (len - sent) n s
          = sendall_loop f fd buf len (sent + rp_ret r) (len - (sent + rp_ret r)) (Some (rp_ret r)) s1"
        using sl sy(1) call(1) False by (simp add: run_simps algebra_simps)
      ultimately show ?thesis
        using send_outcome_step [OF _ _ sy(3) tk k(1)] call(2) sy(2) by simp
    qed
  qed
qed simp

section \<open>Connecting\<close>

lemma connect_retry_bound:
  assumes "connect_retry f fd dest k s = Inr (ok, s')" "0 \<le> k" "k \<le> 6"
  shows "\<exists>n. calls s' = calls s @ replicate n (Connect fd dest) \<and> int n \<le> 7 - k"
  using assms
proof (induction f arbitrary: k s)
  case (Suc f)
  show ?case
  proof (cases "replies s")
    case (Cons r rs)
    let ?s = "s\<lparr>replies := rs, calls := calls s @ [Connect fd dest],
        os_errno := if rp_ret r = - 1 then rp_errno r else os_errno s\<rparr>"
    have "calls s' = calls s @ replicate 1 (Connect fd dest)
        \<or> k \<le> 5 \<and> connect_retry f fd dest (k + 1) ?s = Inr (ok, s')"
      using Suc.prems(1) Cons by (auto simp: run_simps split: if_splits)
    then show ?thesis
    proof
      assume "calls s' = calls s @ replicate 1 (Connect fd dest)"
      then show ?thesis using Suc.prems by (intro exI [of _ 1]) simp
    next
      assume "k \<le> 5 \<and> connect_retry f fd dest (k + 1) ?s = Inr (ok, s')"
      then obtain n where "calls s' = calls ?s @ replicate n (Connect fd dest)" "int n \<le> 7 - (k + 1)"
        using Suc.IH [of "k + 1" ?s] Suc.prems(2) by auto
      then show ?thesis by (intro exI [of _ "Suc n"]) simp
    qed
  qed (use Suc.prems in \<open>simp add: run_simps\<close>)
qed simp

lemma connect_retry_gives_up:
  assumes "\<forall>r\<in>set rs. rp_ret r = - 1 \<and> (rp_errno r = EINTR \<or> rp_errno r = ETIMEDOUT)" "replies s = rs @ rs'"
    "rs \<noteq> []" "int (length rs) = 7 - k" "length rs \<le> f"
  shows "\<exists>s'. connect_retry f fd dest k s = Inr (False, s') \<and> calls s' = calls s @ replicate (length rs) (Connect fd dest)
    \<and> replies s' = rs'"
  using assms
proof (induction rs arbitrary: f k s)
  case (Cons r rs)
  obtain g where f: "f = Suc g" using Cons.prems(5) by (cases f) auto
  let ?s = "s\<lparr>replies := rs @ rs', calls := calls s @ [Connect fd dest], os_errno := rp_errno r\<rparr>"
  have e: "rp_errno r = EINTR \<or> rp_errno r = ETIMEDOUT" "rp_ret r = - 1" using Cons.prems(1) by auto
  have ne: "rp_errno r \<noteq> EADDRINUSE" "rp_errno r \<noteq> EINPROGRESS" "rp_errno r \<noteq> EISCONN"
    using e(1) by (auto simp: EINTR_def ETIMEDOUT_def EADDRINUSE_def EINPROGRESS_def EISCONN_def)
  have run: "connect_retry f fd dest k s = (if k > 5 then Inr (False, ?s) else connect_retry g fd dest (k + 1) ?s)"
    using Cons.prems(2) e ne f by (auto simp: run_simps)
  show ?case
  proof (cases "rs = []")
    case True
    then show ?thesis using run Cons.prems(2,4) by simp
  next
    case False
    have "\<exists>s'. connect_retry g fd dest (k + 1) ?s = Inr (False, s')
        \<and> calls s' = calls ?s @ replicate (length rs) (Connect fd dest) \<and> replies s' = rs'"
      by (rule Cons.IH) (use Cons.prems False f in auto)
    moreover have "\<not> k > 5" using Cons.prems(4) False by (cases rs) auto
    ultimately show ?thesis using run by auto
  qed
qed simp

end
