(* ===== verification/Socket_Properties.thy ===== *)
theory Socket_Properties
  imports Bt_Socket
begin

text \<open>
  The properties of the send service: what \<open>sendall\<close> hands to the kernel, how often a connection is
  tried, and the places where the service does not do what its interface says.
\<close>

unbundle bit_operations_syntax

text \<open>
  C15. \<open>sendall\<close> sends the whole buffer or says how much of it was sent: the bytes the kernel accepted
  are the first \<open>t\<close> bytes of the buffer, where \<open>t\<close> is the length reported back, and \<open>t\<close> is the full
  length exactly if the result is 0. It only fails to return if the kernel never reports an error and
  never accepts the rest.
\<close>

theorem sendall_sends:
  assumes "0 < len" "len \<le> int (length buf)" "send_replies len (replies s)"
  shows "case sendall fd buf len s of
      Inl e \<Rightarrow> e = Blocked \<and> (\<forall>r\<in>set (replies s). rp_ret r \<noteq> - 1) \<and> (\<Sum>r\<leftarrow>replies s. rp_ret r) < len
    | Inr ((r, t), s') \<Rightarrow> (r = 0 \<and> t = len \<or> r = - 1 \<and> t < len)
        \<and> (\<exists>cs rs. calls s' = calls s @ cs \<and> replies s = rs @ replies s' \<and> length cs = length rs
            \<and> accepted (zip cs rs) = take (nat t) buf)"
proof -
  let ?l = "sendall_loop (Suc (length (replies s))) fd buf len 0 len None s"
  have o: "send_outcome buf len 0 s ?l"
    using sendall_loop_outcome [of 0 len buf s "Suc (length (replies s))" None fd] assms by simp
  show ?thesis
  proof (cases ?l)
    case (Inl e)
    then show ?thesis using o by (simp add: sendall_def run_simps send_outcome_def)
  next
    case (Inr p)
    obtain t k s' where p: "p = ((t, k), s')" by (cases p) auto
    obtain k' where k: "k = Some k'" "k' = - 1 \<and> t < len \<or> k' \<noteq> - 1 \<and> t = len"
      using o unfolding Inr p send_outcome_def by auto
    have "sendall fd buf len s = Inr ((if k' = - 1 then - 1 else 0, t), s')"
      using Inr p k(1) by (simp add: sendall_def run_simps)
    then show ?thesis using o k(2) unfolding Inr p send_outcome_def by auto
  qed
qed

theorem sendall_sends_witness:
  "case sendall 7 ''hello'' 5 \<lparr>replies = [\<lparr>rp_ret = 3, rp_errno = 0\<rparr>, \<lparr>rp_ret = 2, rp_errno = 0\<rparr>], calls = [], os_errno = 0\<rparr> of
      Inl e \<Rightarrow> False | Inr ((r, t), s') \<Rightarrow> r = 0 \<and> t = 5 \<and> accepted (zip (calls s') [\<lparr>rp_ret = 3, rp_errno = 0\<rparr>, \<lparr>rp_ret = 2, rp_errno = 0\<rparr>]) = ''hello''"
proof -
  let ?s = "\<lparr>replies = [\<lparr>rp_ret = 3, rp_errno = 0\<rparr>, \<lparr>rp_ret = 2, rp_errno = 0\<rparr>], calls = [], os_errno = 0\<rparr>"
  obtain s' where r: "sendall 7 ''hello'' 5 ?s = Inr ((0, 5), s')" "replies s' = []"
    by (simp add: sendall_def run_simps slice_def numeral_nat)
  obtain cs rs where "calls s' = cs" "replies ?s = rs" "accepted (zip cs rs) = take 5 ''hello''"
    using sendall_sends [of 5 "''hello''" ?s 7] r by auto
  then show ?thesis using r by simp
qed

text \<open>
  For a length of zero the loop of \<open>sendall\<close> is not entered and its result depends on the variable
  \<open>n\<close>, which was never written.
\<close>

theorem sendall_nothing:
  assumes "len \<le> 0"
  shows "sendall fd buf len s = Inl Uninit"
  using assms by (simp add: sendall_def run_simps)

theorem sendall_nothing_witness:
  "sendall 3 [] 0 \<lparr>replies = [], calls = [], os_errno = 0\<rparr> = Inl Uninit"
  by (rule sendall_nothing) simp

fun on_fd :: "int \<Rightarrow> syscall \<Rightarrow> bool" where
  "on_fd fd (Connect k a) = (k = fd)"
| "on_fd fd (Send k bs fl) = (k = fd)"
| "on_fd fd c = False"

lemma sendall_loop_on_fd:
  "sendall_loop f fd buf len t b n s = Inr (x, s') \<Longrightarrow> \<exists>cs. calls s' = calls s @ cs \<and> list_all (on_fd fd) cs"
proof (induction f arbitrary: t b n s)
  case (Suc f)
  show ?case
  proof (cases "t < len")
    case True
    obtain bs r s1 where a: "slice buf t b s = Inr (bs, s)" "sys (Send fd bs 0) s = Inr (r, s1)"
        "(if r = - 1 then ret (t, Some r) else sendall_loop f fd buf len (t + r) (b - r) (Some r)) s1 = Inr (x, s')"
      using Suc.prems True by (auto simp: bnd_eq_Inr_iff slice_def split: if_splits)
    have c: "calls s1 = calls s @ [Send fd bs 0]" using a(2) by (auto simp: sys_def split: list.splits)
    show ?thesis
    proof (cases "r = - 1")
      case False
      then have "sendall_loop f fd buf len (t + r) (b - r) (Some r) s1 = Inr (x, s')" using a(3) by simp
      then obtain cs where "calls s' = calls s1 @ cs" "list_all (on_fd fd) cs" using Suc.IH by blast
      then show ?thesis using c by (intro exI [of _ "Send fd bs 0 # cs"]) simp
    qed (use a(3) c in auto)
  qed (use Suc.prems in auto)
qed simp

text \<open>
  \<open>bt_sync_send\<close> never opens a socket: the test meant to ask whether a descriptor exists compares
  instead of assigning, and every system call it makes is on descriptor 0.
\<close>

theorem sync_send_on_fd_zero:
  assumes "bt_sync_send dest source buf buflen flag s = Inr (r, s')"
  shows "\<exists>cs. calls s' = calls s @ cs \<and> list_all (on_fd 0) cs"
proof -
  consider (tcp) "flag = BT_IPPROTO_TCP" | (udp) "flag = BT_IPPROTO_UDP" | (other) "flag \<noteq> BT_IPPROTO_TCP" "flag \<noteq> BT_IPPROTO_UDP"
    by blast
  then show ?thesis
  proof cases
    case tcp
    obtain ok s1 where c: "connect_retry (Suc (length (replies s))) 0 dest 0 s = Inr (ok, s1)"
        "(if ok then bnd (slice buf 0 buflen) (\<lambda>bs. bnd (sys (Send 0 bs MSG_DONTWAIT)) (\<lambda>_. ret 0)) else ret (- 1)) s1 = Inr (r, s')"
      using assms tcp by (auto simp: bt_sync_send_def get_fd_by_port_def bnd_eq_Inr_iff simp del: connect_retry.simps)
    obtain n where n: "calls s1 = calls s @ replicate n (Connect 0 dest)" using connect_retry_bound [OF c(1)] by auto
    have "\<exists>cs. calls s' = calls s1 @ cs \<and> list_all (on_fd 0) cs"
      using c(2) by (cases ok) (auto simp: bnd_eq_Inr_iff slice_def sys_def split: if_splits list.splits)
    then obtain cs where "calls s' = calls s1 @ cs" "list_all (on_fd 0) cs" by blast
    then show ?thesis using n by (intro exI [of _ "replicate n (Connect 0 dest) @ cs"]) (auto simp: list_all_iff)
  next
    case udp
    then obtain x s1 where "sendall_loop (Suc (length (replies s))) 0 buf buflen 0 buflen None s = Inr (x, s1)" "calls s1 = calls s'"
      using assms by (auto simp: bt_sync_send_def get_fd_by_port_def BT_IPPROTO_TCP_def BT_IPPROTO_UDP_def bnd_eq_Inr_iff
          sendall_def split: option.splits simp del: sendall_loop.simps)
    then show ?thesis using sendall_loop_on_fd by metis
  qed (use assms in \<open>simp add: bt_sync_send_def get_fd_by_port_def\<close>)
qed

definition any_addr :: sockaddr_in where
  "any_addr = \<lparr>sin_family = AF_INET, sin_port = 0xb822, sin_addr = 0\<rparr>"

theorem sync_send_on_fd_zero_witness:
  "\<exists>s' cs. bt_sync_send any_addr any_addr ''hi'' 2 BT_IPPROTO_TCP
      \<lparr>replies = [\<lparr>rp_ret = 0, rp_errno = 0\<rparr>, \<lparr>rp_ret = 2, rp_errno = 0\<rparr>], calls = [], os_errno = 0\<rparr> = Inr (0, s')
    \<and> calls s' = cs \<and> cs \<noteq> [] \<and> list_all (on_fd 0) cs"
proof -
  let ?s = "\<lparr>replies = [\<lparr>rp_ret = 0, rp_errno = 0\<rparr>, \<lparr>rp_ret = 2, rp_errno = 0\<rparr>], calls = [], os_errno = 0\<rparr>"
  obtain s' where r: "bt_sync_send any_addr any_addr ''hi'' 2 BT_IPPROTO_TCP ?s = Inr (0, s')" "calls s' \<noteq> []"
    by (simp add: bt_sync_send_def get_fd_by_port_def run_simps)
  then show ?thesis using sync_send_on_fd_zero [OF r(1)] by auto
qed

text \<open>
  A TCP send whose connection is interrupted or times out is given up after seven attempts.
\<close>

theorem sync_send_gives_up:
  assumes "replies s = rs @ rs'" "length rs = 7"
    "\<forall>r\<in>set rs. rp_ret r = - 1 \<and> (rp_errno r = EINTR \<or> rp_errno r = ETIMEDOUT)"
  shows "\<exists>s'. bt_sync_send dest source buf buflen BT_IPPROTO_TCP s = Inr (- 1, s')
    \<and> calls s' = calls s @ replicate 7 (Connect 0 dest) \<and> replies s' = rs'"
proof -
  obtain s' where "connect_retry (Suc (length (replies s))) 0 dest 0 s = Inr (False, s')"
      "calls s' = calls s @ replicate 7 (Connect 0 dest)" "replies s' = rs'"
    using connect_retry_gives_up [OF assms(3,1), of 0 "Suc (length (replies s))" 0 dest] assms(1,2) by fastforce
  then show ?thesis
    by (auto simp: bt_sync_send_def get_fd_by_port_def bnd_def simp del: connect_retry.simps)
qed

theorem sync_send_gives_up_witness:
  "\<exists>s'. bt_sync_send any_addr any_addr ''hi'' 2 BT_IPPROTO_TCP
      \<lparr>replies = replicate 9 \<lparr>rp_ret = - 1, rp_errno = EINTR\<rparr>, calls = [], os_errno = 0\<rparr> = Inr (- 1, s')
    \<and> length (calls s') = 7"
proof -
  let ?r = "\<lparr>rp_ret = - 1, rp_errno = EINTR\<rparr>"
  have "replicate 9 ?r = replicate 7 ?r @ replicate 2 ?r" by (simp add: replicate_add [symmetric])
  then obtain s' where "bt_sync_send any_addr any_addr ''hi'' 2 BT_IPPROTO_TCP
        \<lparr>replies = replicate 9 ?r, calls = [], os_errno = 0\<rparr> = Inr (- 1, s')" "calls s' = [] @ replicate 7 (Connect 0 any_addr)"
    using sync_send_gives_up [of "\<lparr>replies = replicate 9 ?r, calls = [], os_errno = 0\<rparr>" "replicate 7 ?r" "replicate 2 ?r"
        any_addr any_addr "''hi''" 2] by auto
  then show ?thesis by simp
qed

text \<open>
  After a successful connection \<open>bt_sync_send\<close> returns 0 whatever \<open>send\<close> answers, although its
  interface promises -1 for a failed send.
\<close>

theorem sync_send_hides_errors:
  assumes "replies s = c # r # rs" "rp_ret c \<noteq> - 1" "0 \<le> buflen" "buflen \<le> int (length buf)"
  shows "\<exists>s'. bt_sync_send dest source buf buflen BT_IPPROTO_TCP s = Inr (0, s')
    \<and> calls s' = calls s @ [Connect 0 dest, Send 0 (take (nat buflen) buf) MSG_DONTWAIT]"
  using assms by (simp add: bt_sync_send_def get_fd_by_port_def run_simps)

theorem sync_send_hides_errors_witness:
  "\<exists>s'. bt_sync_send any_addr any_addr ''hi'' 2 BT_IPPROTO_TCP
      \<lparr>replies = [\<lparr>rp_ret = 0, rp_errno = 0\<rparr>, \<lparr>rp_ret = - 1, rp_errno = 32\<rparr>], calls = [], os_errno = 0\<rparr> = Inr (0, s')
    \<and> os_errno s' = 32 \<and> length (calls s') = 2"
proof -
  let ?s = "\<lparr>replies = [\<lparr>rp_ret = 0, rp_errno = 0\<rparr>, \<lparr>rp_ret = - 1, rp_errno = 32\<rparr>], calls = [], os_errno = 0\<rparr>"
  obtain s' where "bt_sync_send any_addr any_addr ''hi'' 2 BT_IPPROTO_TCP ?s = Inr (0, s')"
      "calls s' = calls ?s @ [Connect 0 any_addr, Send 0 (take (nat 2) ''hi'') MSG_DONTWAIT]"
    using sync_send_hides_errors [of ?s "\<lparr>rp_ret = 0, rp_errno = 0\<rparr>" "\<lparr>rp_ret = - 1, rp_errno = 32\<rparr>" "[]" 2 "''hi''"
        any_addr any_addr] by auto
  moreover from this(1) have "os_errno s' = 32" by (auto simp: bt_sync_send_def get_fd_by_port_def run_simps)
  ultimately show ?thesis by simp
qed

lemma swap16_swap16: "swap16 (swap16 w) = w"
  by (rule bit_word_eqI) (auto simp: swap16_def bit_or_iff bit_push_bit_iff bit_drop_bit_eq dest: bit_imp_le_length)

text \<open>
  When an address is in use, \<open>init_socket\<close> binds again to the port that is larger by five plus the
  old port with its bytes swapped: the addition is made before the conversion. It is the next port
  but four only for port 0.
\<close>

theorem bind_retry_port:
  assumes "replies s = r # rs" "rp_ret r = - 1" "rp_errno r = EADDRINUSE" "retry \<noteq> 0"
  shows "\<exists>s1 src'. bind_retry (Suc f) fd src retry s = bind_retry f fd src' retry s1 \<and> replies s1 = rs
    \<and> calls s1 = calls s @ [Bind fd src] \<and> swap16 (sin_port src') = swap16 (sin_port src) + sin_port src + 5
    \<and> (swap16 (sin_port src') = swap16 (sin_port src) + 5 \<longleftrightarrow> sin_port src = 0)"
proof -
  let ?src = "src\<lparr>sin_port := next_port (sin_port src)\<rparr>"
  let ?s = "s\<lparr>replies := rs, calls := calls s @ [Bind fd src], os_errno := EADDRINUSE\<rparr>"
  have "bind_retry (Suc f) fd src retry s = bind_retry f fd ?src retry ?s"
    using assms by (simp add: run_simps)
  moreover have p: "swap16 (sin_port ?src) = swap16 (sin_port src) + sin_port src + 5"
    by (simp add: next_port_def swap16_swap16)
  moreover have "swap16 (sin_port ?src) = swap16 (sin_port src) + 5 \<longleftrightarrow> sin_port src = 0"
    unfolding p by (metis add.right_neutral add_left_cancel add_right_cancel)
  moreover have "replies ?s = rs" "calls ?s = calls s @ [Bind fd src]" by simp_all
  ultimately show ?thesis by blast
qed

theorem bind_retry_port_witness:
  "\<exists>s1 src'. bind_retry 2 3 any_addr 1 \<lparr>replies = [\<lparr>rp_ret = - 1, rp_errno = EADDRINUSE\<rparr>], calls = [], os_errno = 0\<rparr>
      = bind_retry 1 3 src' 1 s1 \<and> swap16 (sin_port any_addr) = 8888 \<and> swap16 (sin_port src') = 56031"
proof -
  have v: "swap16 (sin_port any_addr) = 8888" "sin_port any_addr = 0xb822" by (code_simp, simp add: any_addr_def)
  obtain s1 src' where "bind_retry (Suc 1) 3 any_addr 1 \<lparr>replies = [\<lparr>rp_ret = - 1, rp_errno = EADDRINUSE\<rparr>], calls = [], os_errno = 0\<rparr>
      = bind_retry 1 3 src' 1 s1" "swap16 (sin_port src') = swap16 (sin_port any_addr) + sin_port any_addr + 5"
    using bind_retry_port [of "\<lparr>replies = [\<lparr>rp_ret = - 1, rp_errno = EADDRINUSE\<rparr>], calls = [], os_errno = 0\<rparr>"
        "\<lparr>rp_ret = - 1, rp_errno = EADDRINUSE\<rparr>" "[]" 1 1 3 any_addr] by (simp del: bind_retry.simps) blast
  then show ?thesis using v unfolding Suc_1 by (intro exI conjI) (assumption, simp_all)
qed

end
