(* ===== verification/Peer_Manage.thy ===== *)
theory Peer_Manage
  imports Bt_Socket C_Loops
begin

unbundle bit_operations_syntax

text \<open>
  The peers of \<^verbatim>\<open>src/peer_manage.c\<close>: allocation, destruction, and \<open>peer_init\<close>, which allocates a peer
  and connects to it. The state is the memory together with the system calls.
\<close>

section \<open>The functions of the file\<close>

record pstate =
  p_mem :: mem
  p_os :: os

definition in_mem :: "(mem, 'a) run \<Rightarrow> (pstate, 'a) run" where
  "in_mem f = (\<lambda>s. case f (p_mem s) of Inl e \<Rightarrow> Inl e | Inr (x, m) \<Rightarrow> Inr (x, s\<lparr>p_mem := m\<rparr>))"

definition in_os :: "(os, 'a) run \<Rightarrow> (pstate, 'a) run" where
  "in_os f = (\<lambda>s. case f (p_os s) of Inl e \<Rightarrow> Inl e | Inr (x, k) \<Rightarrow> Inr (x, s\<lparr>p_os := k\<rparr>))"

definition no_peer :: peer_mgnt where
  "no_peer = \<lparr>pm_ip = 0, pm_port = 0, pm_sock = 0, pm_peer_id = NULL, pm_task = NULL,
     pm_state = \<lparr>ps_client_stat = 0, ps_peer_stat = 0\<rparr>,
     pm_stat = \<lparr>pst_upload = 0, pst_download = 0, pst_upload_speed = 0, pst_download_speed = 0\<rparr>,
     pm_rcv_keep_alive = NULL, pm_send_keep_alive = NULL\<rparr>"

text \<open>The result of \<open>malloc\<close> is cleared with \<open>memset\<close> without a test.\<close>

definition peer_alloc :: "addr crun" where
  "peer_alloc = bnd (malloc_node (OPeer no_peer)) (\<lambda>ptr. bnd (chk (ptr \<noteq> NULL) NullDeref) (\<lambda>_. ret ptr))"

definition peer_free :: "addr \<Rightarrow> unit crun" where
  "peer_free ptr =
     bnd (on_links (list_del ptr)) (\<lambda>_.
     bnd (ld_peer ptr) (\<lambda>p.
     bnd (b_string_free (pm_peer_id p)) (\<lambda>_.
     free_obj ptr)))"

text \<open>\<open>htonl\<close> as a word of the little-endian host.\<close>

definition swap32 :: "u32 \<Rightarrow> u32" where
  "swap32 w = push_bit 24 w OR (push_bit 8 w AND 0xff0000) OR (drop_bit 8 w AND 0xff00) OR drop_bit 24 w"

definition peer_init :: "u32 \<Rightarrow> u16 \<Rightarrow> addr \<Rightarrow> addr \<Rightarrow> (pstate, addr) run" where
  "peer_init ip port peer_id task_ptr =
     bnd (in_mem peer_alloc) (\<lambda>ptr.
     bnd (in_mem (upd_peer ptr (\<lambda>p. p\<lparr>pm_ip := ip, pm_port := port, pm_peer_id := peer_id, pm_task := task_ptr\<rparr>))) (\<lambda>_.
     bnd (in_os (sys (Socket AF_INET SOCK_STREAM IPPROTO_TCP))) (\<lambda>sockfd.
     if sockfd = - 1 then bnd (in_mem (peer_free ptr)) (\<lambda>_. ret NULL)
     else
       bnd (in_os (sys (Connect sockfd \<lparr>sin_family = AF_INET, sin_port = swap16 port, sin_addr = swap32 ip\<rparr>))) (\<lambda>r.
       if r = - 1 then
         bnd (in_os (sys (Close sockfd))) (\<lambda>_.
         bnd (in_mem (peer_free ptr)) (\<lambda>_. ret NULL))
       else ret ptr))))"

definition peer_destory :: "addr \<Rightarrow> unit crun" where
  "peer_destory ptr = ret ()"

section \<open>Runs\<close>

lemma in_runs [run_simps]:
  "f (p_mem s) = Inr (x, m) \<Longrightarrow> in_mem f s = Inr (x, s\<lparr>p_mem := m\<rparr>)"
  "f (p_mem s) = Inl e \<Longrightarrow> in_mem f s = Inl e"
  "g (p_os s) = Inr (y, k) \<Longrightarrow> in_os g s = Inr (y, s\<lparr>p_os := k\<rparr>)"
  "g (p_os s) = Inl e \<Longrightarrow> in_os g s = Inl e"
  by (simp_all add: in_mem_def in_os_def)

text \<open>The peer that \<open>peer_init\<close> has filled in before it makes the first system call.\<close>

definition fresh_peer :: "u32 \<Rightarrow> u16 \<Rightarrow> addr \<Rightarrow> addr \<Rightarrow> mem \<Rightarrow> mem" where
  "fresh_peer ip port peer_id task m = m\<lparr>brk := Suc (brk m),
     links := (links m)(brk m \<mapsto> \<lparr>lh_next = NULL, lh_prev = NULL\<rparr>),
     objs := (objs m)(brk m \<mapsto> OPeer (no_peer\<lparr>pm_ip := ip, pm_port := port, pm_peer_id := peer_id, pm_task := task\<rparr>))\<rparr>"

lemma peer_init_run:
  assumes "wf_mem (p_mem s)" "no_oom (p_mem s)"
  shows "peer_init ip port pid t s = (let ptr = brk (p_mem s) in
     bnd (in_os (sys (Socket AF_INET SOCK_STREAM IPPROTO_TCP))) (\<lambda>sockfd.
     if sockfd = - 1 then bnd (in_mem (peer_free ptr)) (\<lambda>_. ret NULL)
     else
       bnd (in_os (sys (Connect sockfd \<lparr>sin_family = AF_INET, sin_port = swap16 port, sin_addr = swap32 ip\<rparr>))) (\<lambda>r.
       if r = - 1 then
         bnd (in_os (sys (Close sockfd))) (\<lambda>_.
         bnd (in_mem (peer_free ptr)) (\<lambda>_. ret NULL))
       else ret ptr)) (s\<lparr>p_mem := fresh_peer ip port pid t (p_mem s)\<rparr>))"
proof -
  have "brk (p_mem s) \<noteq> NULL" "\<not> oom (p_mem s) (brk (p_mem s))" using assms by (auto simp: wf_mem_def no_oom_def)
  then show ?thesis
    unfolding peer_init_def peer_alloc_def fresh_peer_def
    by (simp add: malloc_node_def Let_def bnd_def in_mem_def run_simps)
qed

text \<open>Its list pointers are zero, so that it cannot be unlinked.\<close>

lemma fresh_peer_free:
  assumes "wf_mem m"
  shows "peer_free (brk m) (fresh_peer ip port pid t m) = Inl BadPointer"
proof -
  have "links (fresh_peer ip port pid t m) NULL = None" "brk m \<noteq> NULL" using assms by (auto simp: fresh_peer_def wf_mem_def)
  then have "list_del (brk m) (links (fresh_peer ip port pid t m)) = None"
    by (simp add: list_del_def list_del_entry_raw_def list_del_raw_def fresh_peer_def set_next_def set_prev_def get_next_def get_prev_def)
  then show ?thesis by (simp add: peer_free_def run_simps on_links_def)
qed

end
