(* ===== verification/Peer_Properties.thy ===== *)
theory Peer_Properties
  imports Peer_Manage B_Properties
begin

text \<open>The properties of the peers of \<^verbatim>\<open>src/peer_manage.c\<close>.\<close>

text \<open>
  If the kernel gives a socket and the connection succeeds, \<open>peer_init\<close> returns a new peer with
  the given address, port, id and task, after exactly these two system calls. The descriptor is not
  kept: \<open>sock\<close> is 0 and nothing can ever close it.
\<close>

theorem peer_init_connects:
  assumes "wf_mem (p_mem s)" "no_oom (p_mem s)" "replies (p_os s) = r1 # r2 # rs" "rp_ret r1 \<noteq> - 1" "rp_ret r2 \<noteq> - 1"
  shows "\<exists>a s' p. peer_init ip port pid t s = Inr (a, s') \<and> a \<noteq> NULL \<and> objs (p_mem s) a = None
    \<and> objs (p_mem s') = (objs (p_mem s))(a \<mapsto> OPeer p)
    \<and> pm_ip p = ip \<and> pm_port p = port \<and> pm_peer_id p = pid \<and> pm_task p = t \<and> pm_sock p = 0
    \<and> calls (p_os s') = calls (p_os s) @ [Socket AF_INET SOCK_STREAM IPPROTO_TCP,
         Connect (rp_ret r1) \<lparr>sin_family = AF_INET, sin_port = swap16 port, sin_addr = swap32 ip\<rparr>]"
proof -
  have "brk (p_mem s) \<noteq> NULL" "objs (p_mem s) (brk (p_mem s)) = None" using assms(1) by (auto simp: wf_mem_def)
  moreover define p where "p = no_peer\<lparr>pm_ip := ip, pm_port := port, pm_peer_id := pid, pm_task := t\<rparr>"
  moreover from this have "pm_ip p = ip \<and> pm_port p = port \<and> pm_peer_id p = pid \<and> pm_task p = t \<and> pm_sock p = 0"
    by (simp add: no_peer_def)
  ultimately show ?thesis
    unfolding peer_init_run [OF assms(1,2)] using assms(3-)
    by (intro exI [of _ "brk (p_mem s)"]) (auto simp: run_simps fresh_peer_def)
qed

definition script :: "reply list \<Rightarrow> pstate" where
  "script rs = \<lparr>p_mem = mem_of ''x'', p_os = \<lparr>replies = rs, calls = [], os_errno = 0\<rparr>\<rparr>"

lemma script_ok: "wf_mem (p_mem (script rs))" "no_oom (p_mem (script rs))" "replies (p_os (script rs)) = rs" "calls (p_os (script rs)) = []"
  by (auto simp: script_def mem_of_def wf_mem_def no_oom_def PTRDIFF_MAX_def)

theorem peer_init_connects_witness:
  "\<exists>a s' p. peer_init 0x7f000001 6881 NULL NULL (script [\<lparr>rp_ret = 3, rp_errno = 0\<rparr>, \<lparr>rp_ret = 0, rp_errno = 0\<rparr>]) = Inr (a, s')
    \<and> objs (p_mem s') a = Some (OPeer p) \<and> pm_port p = 6881 \<and> length (calls (p_os s')) = 2"
  using peer_init_connects [OF script_ok(1,2), of "[\<lparr>rp_ret = 3, rp_errno = 0\<rparr>, \<lparr>rp_ret = 0, rp_errno = 0\<rparr>]"
        "\<lparr>rp_ret = 3, rp_errno = 0\<rparr>" "\<lparr>rp_ret = 0, rp_errno = 0\<rparr>" "[]", where ip = "0x7f000001" and port = 6881 and pid = NULL and t = NULL]
  by (auto simp: script_ok)

text \<open>
  C16. If the socket or the connection fails, \<open>peer_init\<close> does not return NULL: \<open>peer_free\<close> unlinks
  the new peer, whose list pointers are still zero.
\<close>

theorem peer_init_error_path:
  assumes "wf_mem (p_mem s)" "no_oom (p_mem s)" "replies (p_os s) = r1 # r2 # r3 # rs" "rp_ret r1 = - 1 \<or> rp_ret r2 = - 1"
  shows "peer_init ip port pid t s = Inl BadPointer"
  using assms(3,4) fresh_peer_free [OF assms(1)] unfolding peer_init_run [OF assms(1,2)]
  by (auto simp: run_simps)

theorem peer_init_error_path_witness:
  "peer_init 0 0 NULL NULL (script [\<lparr>rp_ret = 3, rp_errno = 0\<rparr>, \<lparr>rp_ret = - 1, rp_errno = 111\<rparr>, \<lparr>rp_ret = 0, rp_errno = 0\<rparr>]) = Inl BadPointer"
  by (rule peer_init_error_path [OF script_ok(1-3)]) simp

text \<open>
  \<open>peer_free\<close> on a peer that is in a list takes it out of the list and frees the peer and its id.
\<close>

theorem peer_free_unlinks:
  assumes "wf_mem m" "dll (links m) l (xs @ a # ys)" "objs m a = Some (OPeer p)"
    "holds m pv (TStr (pm_peer_id p) d bs)" "set [pm_peer_id p, d] \<inter> set (l # xs @ ys) = {}" "pm_peer_id p \<noteq> d"
  shows "\<exists>m'. peer_free a m = Inr ((), m') \<and> dll (links m') l (xs @ ys)
    \<and> objs m' = (\<lambda>b. if b \<in> {a, pm_peer_id p, d} then None else objs m b)"
proof -
  let ?i = "pm_peer_id p"
  obtain h where h: "list_del a (links m) = Some h" "dll h l (xs @ ys)"
    using list_del_dll [OF assms(2)] by auto
  let ?m = "m\<lparr>links := h\<rparr>"
  obtain j b where s: "objs m ?i = Some (OBStr b)" "bs_head b = CP d 0" "objs m d = Some (OBuf j)"
    using assms(4) by auto
  have ne: "?i \<noteq> NULL" "a \<noteq> NULL" "?i \<noteq> a" "d \<noteq> a" using wf_live_not_null [OF assms(1)] s assms(3) by auto
  let ?m' = "release_all [a] (release_all [?i] (release_all [d] ?m))"
  have "peer_free a m = Inr ((), ?m')"
    using h(1) assms(3,6) s ne by (simp add: peer_free_def b_string_free_def run_simps)
  moreover have "dll (links ?m') l (xs @ ys) = dll h l (xs @ ys)"
  proof (rule dll_frame)
    have "a \<notin> set (l # xs @ ys)" using dll_distinct [OF assms(2)] by auto
    then show "links ?m' b = h b" if "b \<in> set (l # xs @ ys)" for b using that assms(5) by auto
  qed
  moreover have "objs ?m' = (\<lambda>b. if b \<in> {a, ?i, d} then None else objs m b)" by auto
  ultimately show ?thesis using h(2) by blast
qed

definition one_peer :: mem where
  "one_peer = \<lparr>objs = [2 \<mapsto> OPeer (no_peer\<lparr>pm_peer_id := 3\<rparr>),
       3 \<mapsto> OBStr \<lparr>bs_prev = NULL, bs_data = CP 4 0, bs_head = CP 4 0, bs_len = word_of_nat (length ''id'')\<rparr>, 4 \<mapsto> OBuf (''id'' @ [NUL])],
     links = [1 \<mapsto> \<lparr>lh_next = 2, lh_prev = 2\<rparr>, 2 \<mapsto> \<lparr>lh_next = 1, lh_prev = 1\<rparr>],
     brk = 5, oom = (\<lambda>_. False), usable = (\<lambda>n. n), junk = (\<lambda>_ _. NUL), errno = 0\<rparr>"

theorem peer_free_unlinks_witness:
  "\<exists>m'. peer_free 2 one_peer = Inr ((), m') \<and> dll (links m') 1 [] \<and> objs m' 2 = None \<and> objs m' 3 = None \<and> objs m' 4 = None"
proof -
  have "\<exists>m'. peer_free 2 one_peer = Inr ((), m') \<and> dll (links m') 1 ([] @ [])
      \<and> objs m' = (\<lambda>b. if b \<in> {2, pm_peer_id (no_peer\<lparr>pm_peer_id := 3\<rparr>), 4} then None else objs one_peer b)"
  proof (rule peer_free_unlinks)
    show "wf_mem one_peer" by (auto simp: one_peer_def wf_mem_def PTRDIFF_MAX_def)
    show "dll (links one_peer) 1 ([] @ 2 # [])"
      by (simp add: one_peer_def dll_def get_next_def get_prev_def)
    show "holds one_peer NULL (TStr (pm_peer_id (no_peer\<lparr>pm_peer_id := 3\<rparr>)) 4 ''id'')"
      by (auto simp: one_peer_def no_peer_def)
  qed (auto simp: one_peer_def no_peer_def)
  then show ?thesis by (auto simp: no_peer_def)
qed

end
