(* ===== verification/Min_Heap.thy ===== *)
theory Min_Heap
  imports BT_Prelude "HOL-Library.Multiset" "HOL-Library.Product_Lexorder"
begin

text \<open>
  The timeout queue of the bundled event library, \<^verbatim>\<open>libevent/minheap-internal.h\<close>: a binary heap of
  pointers to events in a growing array. Each event stores its position in the heap, so that it can
  be erased without a search.

  The state holds the array (its length is the capacity), the number of used slots and the events.
  \<open>unsigned\<close> values are natural numbers below 2^32 with the wrap-around written out. Whether a
  reallocation to a number of slots fails, and what new slots contain, is part of the state.
\<close>

section \<open>State\<close>

type_synonym eptr = nat

record timeval =
  tv_sec :: int
  tv_usec :: int

record heap_event =
  ev_timeout :: timeval
  min_heap_idx :: int

record min_heap =
  mh_p :: "eptr list"
  mh_n :: nat
  mh_a :: nat
  mh_events :: "eptr \<Rightarrow> heap_event option"
  mh_nomem :: "nat \<Rightarrow> bool"
  mh_junk :: "nat \<Rightarrow> eptr"

type_synonym 'a hrun = "(min_heap, 'a) run"

definition u32_add :: "nat \<Rightarrow> nat \<Rightarrow> nat" where "u32_add a b = (a + b) mod 2 ^ 32"
definition u32_mul :: "nat \<Rightarrow> nat \<Rightarrow> nat" where "u32_mul a b = (a * b) mod 2 ^ 32"
definition u32_sub :: "nat \<Rightarrow> nat \<Rightarrow> nat" where "u32_sub a b = (a + (2 ^ 32 - b)) mod 2 ^ 32"

text \<open>Conversion between \<open>unsigned\<close> and \<open>int\<close>.\<close>

definition to_int :: "nat \<Rightarrow> int" where "to_int w = (if w < 2 ^ 31 then int w else int w - 2 ^ 32)"
definition to_unsigned :: "int \<Rightarrow> nat" where "to_unsigned i = nat (i mod 2 ^ 32)"

definition slot :: "nat \<Rightarrow> eptr hrun" where
  "slot i = (\<lambda>s. if i < length (mh_p s) then Inr (mh_p s ! i, s) else Inl OutOfBounds)"

definition event_of :: "eptr \<Rightarrow> heap_event hrun" where
  "event_of e = (\<lambda>s. case mh_events s e of Some x \<Rightarrow> Inr (x, s) | None \<Rightarrow> Inl BadPointer)"

definition set_idx :: "eptr \<Rightarrow> int \<Rightarrow> unit hrun" where
  "set_idx e i = bnd (event_of e) (\<lambda>x s. Inr ((), s\<lparr>mh_events := (mh_events s)(e \<mapsto> x\<lparr>min_heap_idx := i\<rparr>)\<rparr>))"

text \<open>\<open>(s->p[i] = e)->ev_timeout_pos.min_heap_idx = i\<close>\<close>

definition place :: "nat \<Rightarrow> eptr \<Rightarrow> unit hrun" where
  "place i e = bnd (slot i) (\<lambda>_. bnd (\<lambda>s. Inr ((), s\<lparr>mh_p := (mh_p s)[i := e]\<rparr>)) (\<lambda>_. set_idx e (to_int i)))"

definition get_heap :: "(min_heap \<Rightarrow> 'a) \<Rightarrow> 'a hrun" where
  "get_heap f = (\<lambda>s. Inr (f s, s))"

definition set_n :: "nat \<Rightarrow> unit hrun" where
  "set_n k = (\<lambda>s. Inr ((), s\<lparr>mh_n := k\<rparr>))"

section \<open>Operations\<close>

text \<open>\<open>evutil_timercmp (a, b, >)\<close>\<close>

definition timercmp_gt :: "timeval \<Rightarrow> timeval \<Rightarrow> bool" where
  "timercmp_gt a b = (if tv_sec a = tv_sec b then tv_usec a > tv_usec b else tv_sec a > tv_sec b)"

definition min_heap_elem_greater :: "eptr \<Rightarrow> eptr \<Rightarrow> bool hrun" where
  "min_heap_elem_greater a b =
     bnd (event_of a) (\<lambda>x. bnd (event_of b) (\<lambda>y. ret (timercmp_gt (ev_timeout x) (ev_timeout y))))"

definition min_heap_ctor :: "unit hrun" where
  "min_heap_ctor = (\<lambda>s. Inr ((), s\<lparr>mh_p := [], mh_n := 0, mh_a := 0\<rparr>))"

definition min_heap_elem_init :: "eptr \<Rightarrow> unit hrun" where
  "min_heap_elem_init e = set_idx e (- 1)"

definition min_heap_empty :: "bool hrun" where
  "min_heap_empty = get_heap (\<lambda>s. 0 = mh_n s)"

definition min_heap_size :: "nat hrun" where
  "min_heap_size = get_heap mh_n"

definition min_heap_top :: "eptr hrun" where
  "min_heap_top = bnd (get_heap mh_n) (\<lambda>n. if n \<noteq> 0 then slot 0 else ret 0)"

definition min_heap_reserve :: "nat \<Rightarrow> int hrun" where
  "min_heap_reserve n = (\<lambda>s.
     if mh_a s < n then
       let a0 = (if mh_a s \<noteq> 0 then u32_mul (mh_a s) 2 else 8); a = (if a0 < n then n else a0) in
       if mh_nomem s a then Inr (- 1, s)
       else Inr (0, s\<lparr>mh_p := take a (mh_p s) @ map (mh_junk s) [length (mh_p s)..<a], mh_a := a\<rparr>)
     else Inr (0, s))"

lemma parent_less: "0 < h \<Longrightarrow> u32_sub h 1 div 2 < h"
proof -
  assume h: "0 < h"
  have "(h + (2 ^ 32 - 1)) mod 2 ^ 32 \<le> h - 1 \<or> 2 ^ 32 \<le> h"
  proof (cases "2 ^ 32 \<le> h")
    case False
    then have "h + (2 ^ 32 - 1) = 2 ^ 32 + (h - 1)" "h - 1 < 2 ^ 32" using h by auto
    then show ?thesis by (metis mod_add_self1 mod_less order_refl)
  qed simp
  moreover have "(h + (2 ^ 32 - 1)) mod 2 ^ 32 < (2 ^ 32 :: nat)" by simp
  ultimately show ?thesis using h unfolding u32_sub_def by linarith
qed

function min_heap_shift_up :: "nat \<Rightarrow> eptr \<Rightarrow> unit hrun" where
  "min_heap_shift_up hole_index e =
     (if hole_index \<noteq> 0 then
        bnd (slot (u32_sub hole_index 1 div 2)) (\<lambda>p.
        bnd (min_heap_elem_greater p e) (\<lambda>g.
        if g then
          bnd (place hole_index p) (\<lambda>_. min_heap_shift_up (u32_sub hole_index 1 div 2) e)
        else place hole_index e))
      else place hole_index e)"
  by pat_completeness auto

termination
  by (relation "measure fst") (use parent_less in auto)

text \<open>
  \<open>min_child -= min_child == s->n || greater (p[min_child], p[min_child - 1])\<close>. With indices that wrap
  around the loop need not move down the tree; the number of slots bounds its iterations otherwise.
\<close>

definition min_child_of :: "nat \<Rightarrow> nat hrun" where
  "min_child_of c =
     bnd (get_heap mh_n) (\<lambda>n.
     bnd (if c = n then ret True
          else bnd (slot c) (\<lambda>x. bnd (slot (u32_sub c 1)) (\<lambda>y. min_heap_elem_greater x y))) (\<lambda>b.
     ret (if b then u32_sub c 1 else c)))"

fun shift_down_loop :: "nat \<Rightarrow> nat \<Rightarrow> eptr \<Rightarrow> unit hrun" where
  "shift_down_loop 0 hole_index e = stop OutOfFuel"
| "shift_down_loop (Suc f) hole_index e =
     bnd (get_heap mh_n) (\<lambda>n.
     let min_child = u32_mul 2 (u32_add hole_index 1) in
     if min_child \<le> n then
       bnd (min_child_of min_child) (\<lambda>c.
       bnd (slot c) (\<lambda>x.
       bnd (min_heap_elem_greater e x) (\<lambda>g.
       if g then bnd (place hole_index x) (\<lambda>_. shift_down_loop f c e)
       else place hole_index e)))
     else place hole_index e)"

definition min_heap_shift_down :: "nat \<Rightarrow> eptr \<Rightarrow> unit hrun" where
  "min_heap_shift_down hole_index e = (\<lambda>s. shift_down_loop (Suc (mh_n s)) hole_index e s)"

definition min_heap_push :: "eptr \<Rightarrow> int hrun" where
  "min_heap_push e =
     bnd (get_heap mh_n) (\<lambda>n.
     bnd (min_heap_reserve (u32_add n 1)) (\<lambda>r.
     if r \<noteq> 0 then ret (- 1)
     else bnd (set_n (u32_add n 1)) (\<lambda>_. bnd (min_heap_shift_up n e) (\<lambda>_. ret 0))))"

definition min_heap_pop :: "eptr hrun" where
  "min_heap_pop =
     bnd (get_heap mh_n) (\<lambda>n.
     if n \<noteq> 0 then
       bnd (slot 0) (\<lambda>e.
       bnd (set_n (u32_sub n 1)) (\<lambda>_.
       bnd (slot (u32_sub n 1)) (\<lambda>l.
       bnd (min_heap_shift_down 0 l) (\<lambda>_.
       bnd (set_idx e (- 1)) (\<lambda>_. ret e)))))
     else ret 0)"

definition min_heap_elt_is_top :: "eptr \<Rightarrow> bool hrun" where
  "min_heap_elt_is_top e = bnd (event_of e) (\<lambda>x. ret (min_heap_idx x = 0))"

text \<open>The quotient is that of C: it rounds towards zero.\<close>

definition erase_parent :: "int \<Rightarrow> nat" where
  "erase_parent i = to_unsigned (if i - 1 < 0 then - (- (i - 1) div 2) else (i - 1) div 2)"

definition min_heap_erase :: "eptr \<Rightarrow> int hrun" where
  "min_heap_erase e =
     bnd (event_of e) (\<lambda>x.
     let i = min_heap_idx x in
     if - 1 \<noteq> i then
       bnd (get_heap mh_n) (\<lambda>n.
       bnd (set_n (u32_sub n 1)) (\<lambda>_.
       bnd (slot (u32_sub n 1)) (\<lambda>l.
       bnd (if i > 0 then bnd (slot (erase_parent i)) (\<lambda>p. min_heap_elem_greater p l) else ret False) (\<lambda>up.
       bnd (if up then min_heap_shift_up (to_unsigned i) l else min_heap_shift_down (to_unsigned i) l) (\<lambda>_.
       bnd (set_idx e (- 1)) (\<lambda>_. ret 0))))))
     else ret (- 1))"

declare min_heap_shift_up.simps [simp del]

section \<open>Heap order on lists\<close>

definition swap :: "'a list \<Rightarrow> nat \<Rightarrow> nat \<Rightarrow> 'a list" where
  "swap q i j = q[i := q ! j, j := q ! i]"

lemma length_swap [simp]: "length (swap q i j) = length q"
  by (simp add: swap_def)

lemma nth_swap:
  "i < length q \<Longrightarrow> j < length q \<Longrightarrow> m < length q \<Longrightarrow> swap q i j ! m = (if m = i then q ! j else if m = j then q ! i else q ! m)"
  by (auto simp: swap_def nth_list_update)

lemma mset_swap: "i < length q \<Longrightarrow> j < length q \<Longrightarrow> mset (swap q i j) = mset q"
  unfolding swap_def by (simp add: mset_swap)

definition par :: "nat \<Rightarrow> nat" where
  "par i = (i - 1) div 2"

lemma par_less: "0 < i \<Longrightarrow> par i < i"
  by (auto simp: par_def)

definition heap_ord :: "('a \<Rightarrow> 'k::linorder) \<Rightarrow> 'a list \<Rightarrow> bool" where
  "heap_ord k q \<longleftrightarrow> (\<forall>i. 0 < i \<and> i < length q \<longrightarrow> k (q ! par i) \<le> k (q ! i))"

text \<open>In order except that the element at \<open>h\<close> may belong further up, or further down.\<close>

definition up_inv :: "('a \<Rightarrow> 'k::linorder) \<Rightarrow> 'a list \<Rightarrow> nat \<Rightarrow> bool" where
  "up_inv k q h \<longleftrightarrow> (\<forall>i. 0 < i \<and> i < length q \<and> i \<noteq> h \<longrightarrow> k (q ! par i) \<le> k (q ! i))
     \<and> (\<forall>c. 0 < h \<and> 0 < c \<and> c < length q \<and> par c = h \<longrightarrow> k (q ! par h) \<le> k (q ! c))"

definition down_inv :: "('a \<Rightarrow> 'k::linorder) \<Rightarrow> 'a list \<Rightarrow> nat \<Rightarrow> bool" where
  "down_inv k q h \<longleftrightarrow> (\<forall>i. 0 < i \<and> i < length q \<and> par i \<noteq> h \<longrightarrow> k (q ! par i) \<le> k (q ! i))
     \<and> (\<forall>c. 0 < h \<and> 0 < c \<and> c < length q \<and> par c = h \<longrightarrow> k (q ! par h) \<le> k (q ! c))"

lemma up_step:
  assumes u: "up_inv k q h" and h: "0 < h" "h < length q" and g: "k (q ! h) < k (q ! par h)"
  shows "up_inv k (swap q h (par h)) (par h)"
proof -
  let ?p = "par h" and ?q = "swap q h (par h)"
  have p: "?p < h" "?p < length q" using par_less [OF h(1)] h(2) by auto
  have nth: "?q ! m = (if m = h then q ! ?p else if m = ?p then q ! h else q ! m)" if "m < length q" for m
    using nth_swap [OF h(2) p(2) that] .
  have u1: "k (q ! par i) \<le> k (q ! i)" if "0 < i" "i < length q" "i \<noteq> h" for i using u that by (auto simp: up_inv_def)
  have u2: "k (q ! ?p) \<le> k (q ! c)" if "0 < c" "c < length q" "par c = h" for c using u that h by (auto simp: up_inv_def)
  have "k (?q ! par i) \<le> k (?q ! i)" if i: "0 < i" "i < length q" "i \<noteq> ?p" for i
  proof -
    have pi: "par i < i" "par i < length q" using par_less [OF i(1)] i(2) by auto
    consider "i = h" | "i \<noteq> h" "par i = h" | "i \<noteq> h" "par i = ?p" | "i \<noteq> h" "par i \<noteq> h" "par i \<noteq> ?p" by blast
    then show ?thesis
    proof cases
      case 3
      then show ?thesis using u1 [OF i(1,2)] g p i(2,3) pi by (simp add: nth)
    qed (use nth [OF i(2)] nth [OF pi(2)] g p i u1 u2 in auto)
  qed
  moreover have "k (?q ! par ?p) \<le> k (?q ! c)" if c: "0 < ?p" "0 < c" "c < length q" "par c = ?p" for c
  proof -
    have pp: "par ?p < ?p" using par_less [OF c(1)] .
    have pl: "par ?p < length q" using pp p(2) by simp
    have a: "k (q ! par ?p) \<le> k (q ! ?p)" using u1 [OF c(1) p(2)] p by simp
    moreover have "c \<noteq> ?p" using c(4) pp by auto
    moreover have "k (q ! ?p) \<le> k (q ! c)" if "c \<noteq> h" using u1 [OF c(2,3) that] c(4) by simp
    ultimately show ?thesis using nth [OF c(3)] nth [OF pl] pp p by (auto dest: order_trans)
  qed
  ultimately show ?thesis unfolding up_inv_def by simp
qed

lemma up_done: "up_inv k q h \<Longrightarrow> h = 0 \<or> k (q ! par h) \<le> k (q ! h) \<Longrightarrow> heap_ord k q"
  unfolding up_inv_def heap_ord_def by auto

lemma down_step:
  assumes u: "down_inv k q h" and c: "0 < c" "c < length q" "par c = h" and g: "k (q ! c) < k (q ! h)"
    and m: "\<And>d. 0 < d \<Longrightarrow> d < length q \<Longrightarrow> par d = h \<Longrightarrow> k (q ! c) \<le> k (q ! d)"
  shows "down_inv k (swap q h c) c"
proof -
  let ?q = "swap q h c"
  have h: "h < c" "h < length q" using par_less [OF c(1)] c by auto
  have nth: "?q ! m = (if m = h then q ! c else if m = c then q ! h else q ! m)" if "m < length q" for m
    using nth_swap [OF h(2) c(2) that] .
  have u1: "k (q ! par i) \<le> k (q ! i)" if "0 < i" "i < length q" "par i \<noteq> h" for i using u that by (auto simp: down_inv_def)
  have u2: "k (q ! par h) \<le> k (q ! d)" if "0 < h" "0 < d" "d < length q" "par d = h" for d using u that by (auto simp: down_inv_def)
  have "k (?q ! par i) \<le> k (?q ! i)" if i: "0 < i" "i < length q" "par i \<noteq> c" for i
  proof -
    have pi: "par i < i" "par i < length q" using par_less [OF i(1)] i(2) by auto
    show ?thesis
    proof (cases "i = h")
      case True
      then show ?thesis using nth [OF i(2)] nth [OF pi(2)] u2 [OF _ c] i pi by auto
    next
      case False
      then show ?thesis using nth [OF i(2)] nth [OF pi(2)] g u1 [OF i(1,2)] m [OF i(1,2)] i(3) c h by auto
    qed
  qed
  moreover have "k (?q ! par c) \<le> k (?q ! d)" if d: "0 < d" "d < length q" "par d = c" for d
  proof -
    have "k (q ! c) \<le> k (q ! d)" using u1 [OF d(1,2)] d(3) h by simp
    moreover have "d \<noteq> h" "d \<noteq> c" using par_less [OF d(1)] d(3) h by auto
    ultimately show ?thesis using nth [OF d(2)] nth [OF h(2)] c(3) by simp
  qed
  ultimately show ?thesis unfolding down_inv_def by simp
qed

lemma down_done:
  "down_inv k q h \<Longrightarrow> (\<And>d. 0 < d \<Longrightarrow> d < length q \<Longrightarrow> par d = h \<Longrightarrow> k (q ! h) \<le> k (q ! d)) \<Longrightarrow> heap_ord k q"
  unfolding down_inv_def heap_ord_def by metis

text \<open>The situations in which the loops start.\<close>

lemma push_up_inv:
  assumes "heap_ord k q"
  shows "up_inv k (q @ [e]) (length q)"
  unfolding up_inv_def
proof (intro conjI allI impI)
  fix i assume i: "0 < i \<and> i < length (q @ [e]) \<and> i \<noteq> length q"
  then have "par i < length q" using par_less [of i] by auto
  then show "k ((q @ [e]) ! par i) \<le> k ((q @ [e]) ! i)" using assms i by (auto simp: heap_ord_def nth_append)
next
  fix c assume c: "0 < length q \<and> 0 < c \<and> c < length (q @ [e]) \<and> par c = length q"
  then show "k ((q @ [e]) ! par (length q)) \<le> k ((q @ [e]) ! c)" using par_less [of c] by auto
qed

lemma erase_nth: "i < length q - 1 \<Longrightarrow> m < length q - 1 \<Longrightarrow> (butlast q)[i := last q] ! m = (if m = i then last q else q ! m)"
  by (simp add: nth_list_update nth_butlast)

lemma erase_up_inv:
  assumes o: "heap_ord k q" and i: "0 < i" "i < length q - 1" and g: "k (last q) < k (q ! par i)"
  shows "up_inv k ((butlast q)[i := last q]) i"
proof -
  let ?q = "(butlast q)[i := last q]"
  have nth: "?q ! m = (if m = i then last q else q ! m)" if "m < length q - 1" for m using erase_nth [OF i(2) that] .
  have o1: "k (q ! par j) \<le> k (q ! j)" if "0 < j" "j < length q - 1" for j using o that by (auto simp: heap_ord_def)
  have p: "par i < length q - 1" "par i \<noteq> i" using par_less [OF i(1)] i(2) by auto
  have "k (?q ! par j) \<le> k (?q ! j)" if j: "0 < j" "j < length q - 1" "j \<noteq> i" for j
  proof -
    have pj: "par j < length q - 1" using par_less [OF j(1)] j(2) by simp
    show ?thesis
      using o1 [OF j(1,2)] o1 [OF i] g unfolding nth [OF j(2)] nth [OF pj] using j(3) by (cases "par j = i") auto
  qed
  moreover have "k (?q ! par i) \<le> k (?q ! c)" if c: "0 < c" "c < length q - 1" "par c = i" for c
  proof -
    have "c \<noteq> i" using par_less [OF c(1)] c(3) by auto
    then show ?thesis using o1 [OF c(1,2)] o1 [OF i] c(3) unfolding nth [OF c(2)] nth [OF p(1)] using p(2) by auto
  qed
  ultimately show ?thesis unfolding up_inv_def by simp
qed

lemma erase_down_inv:
  assumes o: "heap_ord k q" and i: "i < length q - 1" and g: "i = 0 \<or> k (q ! par i) \<le> k (last q)"
  shows "down_inv k ((butlast q)[i := last q]) i"
proof -
  let ?q = "(butlast q)[i := last q]"
  have nth: "?q ! m = (if m = i then last q else q ! m)" if "m < length q - 1" for m using erase_nth [OF i that] .
  have o1: "k (q ! par j) \<le> k (q ! j)" if "0 < j" "j < length q - 1" for j using o that by (auto simp: heap_ord_def)
  have "k (?q ! par j) \<le> k (?q ! j)" if j: "0 < j" "j < length q - 1" "par j \<noteq> i" for j
  proof -
    have pj: "par j < length q - 1" using par_less [OF j(1)] j(2) by simp
    show ?thesis
      using o1 [OF j(1,2)] g unfolding nth [OF j(2)] nth [OF pj] using j by (cases "j = i") auto
  qed
  moreover have "k (?q ! par i) \<le> k (?q ! c)" if c: "0 < i" "0 < c" "c < length q - 1" "par c = i" for c
  proof -
    have "c \<noteq> i" and p: "par i < length q - 1" "par i \<noteq> i"
      using par_less [OF c(1)] par_less [OF c(2)] c(4) i by auto
    then show ?thesis using o1 [OF c(2,3)] o1 [OF c(1) i] c(4) unfolding nth [OF c(3)] nth [OF p(1)] by auto
  qed
  ultimately show ?thesis unfolding down_inv_def by simp
qed

lemma heap_ord_min:
  assumes "heap_ord k q" "i < length q"
  shows "k (q ! 0) \<le> k (q ! i)"
  using assms(2)
proof (induction i rule: less_induct)
  case (less i)
  then show ?case
  proof (cases "i = 0")
    case False
    then show ?thesis using less.IH [of "par i"] par_less [of i] less.prems assms(1) unfolding heap_ord_def
      by (meson bot_nat_0.not_eq_extremum order.strict_trans order_trans)
  qed simp
qed

section \<open>Executing the loops\<close>

definition key :: "min_heap \<Rightarrow> eptr \<Rightarrow> int \<times> int" where
  "key s x = (case mh_events s x of Some y \<Rightarrow> (tv_sec (ev_timeout y), tv_usec (ev_timeout y)) | None \<Rightarrow> (0, 0))"

definition idx :: "min_heap \<Rightarrow> eptr \<Rightarrow> int" where
  "idx s x = (case mh_events s x of Some y \<Rightarrow> min_heap_idx y | None \<Rightarrow> - 1)"

definition live :: "min_heap \<Rightarrow> eptr \<Rightarrow> bool" where
  "live s x \<longleftrightarrow> mh_events s x \<noteq> None"

text \<open>The bookkeeping that no operation on the slots touches.\<close>

definition same_frame :: "min_heap \<Rightarrow> min_heap \<Rightarrow> bool" where
  "same_frame s s' \<longleftrightarrow> mh_n s' = mh_n s \<and> mh_a s' = mh_a s \<and> length (mh_p s') = length (mh_p s)
     \<and> mh_nomem s' = mh_nomem s \<and> mh_junk s' = mh_junk s \<and> key s' = key s \<and> live s' = live s"

lemma same_frame_refl [simp]: "same_frame s s" by (simp add: same_frame_def)

lemma same_frame_trans: "same_frame s s' \<Longrightarrow> same_frame s' s'' \<Longrightarrow> same_frame s s''"
  by (simp add: same_frame_def)

lemma heap_reads [run_simps]:
  "i < length (mh_p s) \<Longrightarrow> slot i s = Inr (mh_p s ! i, s)"
  "get_heap f s = Inr (f s, s)"
  "set_n k s = Inr ((), s\<lparr>mh_n := k\<rparr>)"
  by (simp_all add: slot_def get_heap_def set_n_def)

lemma greater_run [run_simps]:
  "live s x \<Longrightarrow> live s y \<Longrightarrow> min_heap_elem_greater x y s = Inr (key s y < key s x, s)"
  by (auto simp: min_heap_elem_greater_def event_of_def live_def key_def timercmp_gt_def less_prod_def bnd_def)

lemma set_idx_run:
  assumes "live s x"
  shows "\<exists>s'. set_idx x i s = Inr ((), s') \<and> same_frame s s' \<and> mh_p s' = mh_p s \<and> idx s' = (idx s)(x := i)"
  using assms by (auto simp: live_def set_idx_def event_of_def bnd_def same_frame_def key_def idx_def fun_eq_iff split: option.splits)

lemma place_run:
  assumes "live s x" "i < length (mh_p s)"
  shows "\<exists>s'. place i x s = Inr ((), s') \<and> same_frame s s' \<and> mh_p s' = (mh_p s)[i := x] \<and> idx s' = (idx s)(x := to_int i)"
proof -
  let ?s = "s\<lparr>mh_p := (mh_p s)[i := x]\<rparr>"
  have f: "same_frame s ?s" "idx ?s = idx s" "live ?s x"
    using assms(1) by (auto simp: same_frame_def key_def live_def idx_def fun_eq_iff)
  obtain s' where "set_idx x (to_int i) ?s = Inr ((), s')" "same_frame ?s s'" "mh_p s' = mh_p ?s" "idx s' = (idx ?s)(x := to_int i)"
    using set_idx_run [OF f(3)] by blast
  then show ?thesis using f assms(2) by (auto simp: place_def bnd_def slot_def dest: same_frame_trans)
qed

text \<open>
  The slots below \<open>n\<close> hold distinct events with their positions, except that slot \<open>h\<close> is about to be
  overwritten with \<open>e\<close>; \<open>q\<close> is the list with \<open>e\<close> in it.
\<close>

definition holed :: "min_heap \<Rightarrow> nat \<Rightarrow> nat \<Rightarrow> eptr \<Rightarrow> eptr list \<Rightarrow> bool" where
  "holed s n h e q \<longleftrightarrow> h < n \<and> n \<le> length (mh_p s) \<and> n < 2 ^ 31 \<and> q = (take n (mh_p s))[h := e] \<and> distinct q
     \<and> (\<forall>x\<in>set q. live s x) \<and> (\<forall>i<n. i \<noteq> h \<longrightarrow> idx s (mh_p s ! i) = int i)"

definition placed :: "min_heap \<Rightarrow> nat \<Rightarrow> eptr list \<Rightarrow> bool" where
  "placed s n q \<longleftrightarrow> n \<le> length (mh_p s) \<and> n < 2 ^ 31 \<and> q = take n (mh_p s) \<and> distinct q \<and> (\<forall>x\<in>set q. live s x)
     \<and> (\<forall>i<n. idx s (mh_p s ! i) = int i)"

lemma holedD:
  assumes "holed s n h e q"
  shows "length q = n" "h < n" "q ! h = e" "\<And>i. i < n \<Longrightarrow> i \<noteq> h \<Longrightarrow> mh_p s ! i = q ! i"
    "\<And>i. i < n \<Longrightarrow> live s (q ! i)" "\<And>i. i < n \<Longrightarrow> i < length (mh_p s)" "live s e"
proof -
  show l: "length q = n" "h < n" "q ! h = e" "\<And>i. i < n \<Longrightarrow> i \<noteq> h \<Longrightarrow> mh_p s ! i = q ! i"
      "\<And>i. i < n \<Longrightarrow> i < length (mh_p s)"
    using assms by (auto simp: holed_def nth_list_update)
  then show *: "\<And>i. i < n \<Longrightarrow> live s (q ! i)" using assms unfolding holed_def by (metis nth_mem)
  show "live s e" using * [of h] l by simp
qed

lemma to_int_small: "i < 2 ^ 31 \<Longrightarrow> to_int i = int i"
  by (simp add: to_int_def)

text \<open>Moving the event at \<open>j\<close> into the hole, and filling the hole.\<close>

lemma holed_move:
  assumes H: "holed s n h e q" and j: "j < n" "j \<noteq> h"
  shows "\<exists>s'. place h (q ! j) s = Inr ((), s') \<and> same_frame s s' \<and> holed s' n j e (swap q h j)
    \<and> (\<forall>x. x \<notin> set q \<longrightarrow> idx s' x = idx s x)"
proof -
  note d = holedD [OF H]
  obtain s' where s': "place h (q ! j) s = Inr ((), s')" "same_frame s s'" "mh_p s' = (mh_p s)[h := q ! j]"
      "idx s' = (idx s)(q ! j := to_int h)"
    using place_run [OF d(5) [OF j(1)] d(6) [OF d(2)]] by blast
  have n: "n \<le> length (mh_p s)" "n < 2 ^ 31" "q = (take n (mh_p s))[h := e]" "distinct q"
      "\<And>i. i < n \<Longrightarrow> i \<noteq> h \<Longrightarrow> idx s (mh_p s ! i) = int i" using H by (auto simp: holed_def)
  have q: "swap q h j = (take n (mh_p s'))[j := e]"
  proof (rule nth_equalityI)
    fix i assume i: "i < length (swap q h j)"
    then have "i < n" using d(1) by simp
    then show "swap q h j ! i = (take n (mh_p s'))[j := e] ! i"
      using nth_swap [of h q j i] d j n(1) s'(3) by (auto simp: nth_list_update)
  qed (use d(1) n(1) s'(3) in simp)
  have m: "mset (swap q h j) = mset q" using mset_swap [of h q j] d j by simp
  have idx': "idx s' (mh_p s' ! i) = int i" if i: "i < n" "i \<noteq> j" for i
  proof (cases "i = h")
    case True
    then show ?thesis using s'(3,4) d(2,6) n(2) by (simp add: to_int_small)
  next
    case False
    then have "mh_p s ! i = q ! i" "q ! i \<noteq> q ! j" using d n(4) i j by (auto simp: nth_eq_iff_index_eq)
    then show ?thesis using s'(3,4) n(5) [OF i(1) False] False by simp
  qed
  have "distinct (swap q h j)" using m n(4) mset_eq_imp_distinct_iff by blast
  moreover have "\<forall>x\<in>set (swap q h j). live s' x"
    using mset_eq_setD [OF m] H s'(2) by (auto simp: holed_def same_frame_def)
  moreover have "n \<le> length (mh_p s')" using n(1) s'(3) by simp
  ultimately have "holed s' n j e (swap q h j)" unfolding holed_def using j(1) n(2) q idx' by blast
  moreover have "q ! j \<in> set q" using d(1) j(1) by simp
  ultimately show ?thesis using s' by (metis fun_upd_other)
qed

lemma holed_fill:
  assumes H: "holed s n h e q"
  shows "\<exists>s'. place h e s = Inr ((), s') \<and> same_frame s s' \<and> placed s' n q \<and> (\<forall>x. x \<notin> set q \<longrightarrow> idx s' x = idx s x)"
proof -
  note d = holedD [OF H]
  obtain s' where s': "place h e s = Inr ((), s')" "same_frame s s'" "mh_p s' = (mh_p s)[h := e]"
      "idx s' = (idx s)(e := to_int h)"
    using place_run [OF d(7) d(6) [OF d(2)]] by blast
  have n: "n \<le> length (mh_p s)" "n < 2 ^ 31" "q = (take n (mh_p s))[h := e]" "distinct q"
      "\<And>i. i < n \<Longrightarrow> i \<noteq> h \<Longrightarrow> idx s (mh_p s ! i) = int i" using H by (auto simp: holed_def)
  have idx': "idx s' (mh_p s' ! i) = int i" if i: "i < n" for i
  proof (cases "i = h")
    case True
    then show ?thesis using s'(3,4) d(2,6) n(2) by (simp add: to_int_small)
  next
    case False
    then have "mh_p s ! i = q ! i" "q ! i \<noteq> q ! h" using d n(4) i by (auto simp: nth_eq_iff_index_eq)
    then show ?thesis using s'(3,4) n(5) [OF i False] False d(3) by simp
  qed
  moreover have "q = take n (mh_p s')" using n(3) s'(3) by (simp add: take_update_swap)
  moreover have "\<forall>x\<in>set q. live s' x" using H s'(2) by (auto simp: holed_def same_frame_def)
  moreover have "n \<le> length (mh_p s')" using n(1) s'(3) by simp
  ultimately have "placed s' n q" unfolding placed_def using n(2,4) by blast
  moreover have "e \<in> set q" using d(1-3) nth_mem by metis
  ultimately show ?thesis using s' by (metis fun_upd_other)
qed

text \<open>What a loop started on \<open>q\<close> achieves.\<close>

definition sifted :: "min_heap \<Rightarrow> min_heap \<Rightarrow> nat \<Rightarrow> eptr list \<Rightarrow> bool" where
  "sifted s s' n q \<longleftrightarrow> same_frame s s' \<and> (\<exists>q'. placed s' n q' \<and> heap_ord (key s) q' \<and> mset q' = mset q)
     \<and> (\<forall>x. x \<notin> set q \<longrightarrow> idx s' x = idx s x)"

lemma sifted_step:
  assumes "sifted s1 s' n (swap q h j)" "same_frame s s1" "\<forall>x. x \<notin> set q \<longrightarrow> idx s1 x = idx s x" "h < length q" "j < length q"
  shows "sifted s s' n q"
proof -
  have m: "mset (swap q h j) = mset q" using mset_swap assms(4,5) by blast
  then have "set (swap q h j) = set q" by (rule mset_eq_setD)
  then show ?thesis
    using assms(1-3) m same_frame_trans [OF assms(2)] unfolding sifted_def by (auto simp: same_frame_def)
qed

lemma sifted_fill:
  assumes "holed s n h e q" "heap_ord (key s) q"
  shows "\<exists>s'. place h e s = Inr ((), s') \<and> sifted s s' n q"
  using holed_fill [OF assms(1)] assms(2) unfolding sifted_def by blast

lemma u32_sub_1: "0 < h \<Longrightarrow> h < 2 ^ 32 \<Longrightarrow> u32_sub h 1 = h - 1"
proof -
  assume h: "0 < h" "h < 2 ^ 32"
  have "h + (2 ^ 32 - 1) = 2 ^ 32 + (h - 1)" using h(1) by simp
  then show ?thesis using h unfolding u32_sub_def by (metis less_imp_diff_less mod_add_self1 mod_less)
qed

lemma shift_up_sifts:
  assumes "holed s n h e q" "up_inv (key s) q h"
  shows "\<exists>s'. min_heap_shift_up h e s = Inr ((), s') \<and> sifted s s' n q"
  using assms
proof (induction h arbitrary: s q rule: less_induct)
  case (less h)
  note d = holedD [OF less.prems(1)]
  show ?case
  proof (cases "h = 0")
    case True
    then show ?thesis
      using sifted_fill [OF less.prems(1) up_done [OF less.prems(2)]] by (subst min_heap_shift_up.simps) simp
  next
    case False
    let ?p = "par h"
    have "n < 2 ^ 31" using less.prems(1) by (simp add: holed_def)
    then have "u32_sub h 1 = h - 1" using u32_sub_1 [of h] False d(2) by simp
    then have pp: "u32_sub h 1 div 2 = ?p" "?p < h" "?p < n" using par_less [of h] False d(2) by (simp_all add: par_def)
    have pe: "mh_p s ! ?p = q ! ?p" "live s (q ! ?p)" "?p < length (mh_p s)" using d(4) [of ?p] d(5,6) [OF pp(3)] pp by auto
    have run: "min_heap_shift_up h e s = (if key s e < key s (q ! ?p)
        then bnd (place h (q ! ?p)) (\<lambda>_. min_heap_shift_up ?p e) s else place h e s)"
      using False pe d(7) by (subst min_heap_shift_up.simps) (simp add: run_simps pp(1) del: One_nat_def)
    show ?thesis
    proof (cases "key s e < key s (q ! ?p)")
      case True
      obtain s1 where s1: "place h (q ! ?p) s = Inr ((), s1)" "same_frame s s1" "holed s1 n ?p e (swap q h ?p)"
          "\<forall>x. x \<notin> set q \<longrightarrow> idx s1 x = idx s x"
        using holed_move [OF less.prems(1) pp(3)] pp(2) by auto
      have "up_inv (key s1) (swap q h ?p) ?p"
        using up_step [OF less.prems(2)] False True d(1-3) s1(2) by (simp add: same_frame_def)
      then obtain s' where "min_heap_shift_up ?p e s1 = Inr ((), s')" "sifted s1 s' n (swap q h ?p)"
        using less.IH [OF pp(2) s1(3)] by blast
      then show ?thesis
        using run True s1 sifted_step [OF _ s1(2,4)] d(1,2) pp(3) by (auto simp: run_simps)
    next
      case ge: False
      then have "heap_ord (key s) q" using up_done [OF less.prems(2)] d(3) by (simp add: not_less)
      then show ?thesis using sifted_fill [OF less.prems(1)] run ge by simp
    qed
  qed
qed

lemma par_eq: "0 < d \<Longrightarrow> par d = h \<longleftrightarrow> d = 2 * h + 1 \<or> d = 2 * h + 2"
  by (auto simp: par_def)

lemma min_child_run:
  assumes H: "holed s n h e q" and n: "mh_n s = n" and c: "2 * h + 2 \<le> n"
  shows "\<exists>c. min_child_of (2 * h + 2) s = Inr (c, s) \<and> 0 < c \<and> c < n \<and> c \<noteq> h \<and> par c = h
    \<and> (\<forall>d. 0 < d \<and> d < n \<and> par d = h \<longrightarrow> key s (q ! c) \<le> key s (q ! d))"
proof -
  note d = holedD [OF H]
  have small: "n < 2 ^ 31" using H by (simp add: holed_def)
  then have u: "u32_sub (2 * h + 2) 1 = 2 * h + 1" using u32_sub_1 [of "2 * h + 2"] c by simp
  show ?thesis
  proof (cases "2 * h + 2 = n")
    case True
    then have "min_child_of (2 * h + 2) s = Inr (2 * h + 1, s)"
      unfolding min_child_of_def using n u by (simp add: run_simps del: One_nat_def)
    moreover have "key s (q ! (2 * h + 1)) \<le> key s (q ! d)" if "0 < d" "d < n" "par d = h" for d
    proof -
      have "d = 2 * h + 1" using that True par_eq [of d h] by auto
      then show ?thesis by simp
    qed
    moreover have "par (2 * h + 1) = h" by (simp add: par_def)
    ultimately show ?thesis using True by (intro exI [of _ "2 * h + 1"]) auto
  next
    case False
    then have lt: "2 * h + 2 < n" using c by simp
    have e: "mh_p s ! (2 * h + 2) = q ! (2 * h + 2)" "mh_p s ! (2 * h + 1) = q ! (2 * h + 1)"
      "live s (q ! (2 * h + 2))" "live s (q ! (2 * h + 1))" "2 * h + 2 < length (mh_p s)" "2 * h + 1 < length (mh_p s)"
      using d(4) [of "2 * h + 2"] d(4) [of "2 * h + 1"] d(5,6) lt by auto
    define c where "c = (if key s (q ! (2 * h + 1)) < key s (q ! (2 * h + 2)) then 2 * h + 1 else 2 * h + 2)"
    have "min_child_of (2 * h + 2) s = Inr (c, s)"
      unfolding min_child_of_def c_def using n u e False
      by (simp add: run_simps del: One_nat_def add_2_eq_Suc' mult_Suc_right)
    moreover have "key s (q ! c) \<le> key s (q ! d)" if "0 < d" "par d = h" for d
    proof -
      have "d = 2 * h + 1 \<or> d = 2 * h + 2" using that par_eq [of d h] by auto
      then show ?thesis unfolding c_def by (elim disjE) (simp_all add: not_less less_imp_le)
    qed
    moreover have "0 < c" "c < n" "c \<noteq> h" "par c = h" using lt by (simp_all add: c_def par_def)
    ultimately show ?thesis by blast
  qed
qed

lemma shift_down_sifts:
  assumes "holed s n h e q" "down_inv (key s) q h" "mh_n s = n" "n - h \<le> f" "0 < f"
  shows "\<exists>s'. shift_down_loop f h e s = Inr ((), s') \<and> sifted s s' n q"
  using assms
proof (induction f arbitrary: s q h)
  case (Suc f)
  note d = holedD [OF Suc.prems(1)]
  have "n < 2 ^ 31" using Suc.prems(1) by (simp add: holed_def)
  then have mc: "u32_mul 2 (u32_add h 1) = 2 * h + 2" using d(2) by (simp add: u32_mul_def u32_add_def)
  show ?case
  proof (cases "2 * h + 2 \<le> n")
    case False
    have "heap_ord (key s) q" using Suc.prems(2) by (rule down_done) (use False d(1) in \<open>auto simp: par_eq\<close>)
    then show ?thesis
      using sifted_fill [OF Suc.prems(1)] False Suc.prems(3) mc by (simp add: run_simps Let_def del: One_nat_def)
  next
    case True
    obtain c where c: "min_child_of (2 * h + 2) s = Inr (c, s)" "0 < c" "c < n" "c \<noteq> h" "par c = h"
        "\<And>d. 0 < d \<Longrightarrow> d < n \<Longrightarrow> par d = h \<Longrightarrow> key s (q ! c) \<le> key s (q ! d)"
      using min_child_run [OF Suc.prems(1,3) True] by blast
    have x: "mh_p s ! c = q ! c" "live s (q ! c)" "c < length (mh_p s)" using d(4-6) c by auto
    have run: "shift_down_loop (Suc f) h e s = (if key s (q ! c) < key s e
        then bnd (place h (q ! c)) (\<lambda>_. shift_down_loop f c e) s else place h e s)"
      using True Suc.prems(3) mc c(1) x d(7) by (simp add: run_simps Let_def del: One_nat_def add_2_eq_Suc')
    show ?thesis
    proof (cases "key s (q ! c) < key s e")
      case less: True
      obtain s1 where s1: "place h (q ! c) s = Inr ((), s1)" "same_frame s s1" "holed s1 n c e (swap q h c)"
          "\<forall>x. x \<notin> set q \<longrightarrow> idx s1 x = idx s x"
        using holed_move [OF Suc.prems(1) c(3,4)] by auto
      have "down_inv (key s1) (swap q h c) c"
        using down_step [OF Suc.prems(2) c(2)] c less d(1,3) s1(2) by (simp add: same_frame_def)
      moreover have "mh_n s1 = n" "n - c \<le> f" "0 < f"
        using s1(2) Suc.prems(3,4) par_less [OF c(2)] c(3,5) by (auto simp: same_frame_def)
      ultimately obtain s' where "shift_down_loop f c e s1 = Inr ((), s')" "sifted s1 s' n (swap q h c)"
        using Suc.IH [OF s1(3)] by blast
      then show ?thesis
        using run less s1 sifted_step [OF _ s1(2,4)] d(1,2) c(3) by (auto simp: run_simps)
    next
      case ge: False
      have "heap_ord (key s) q"
      proof (rule down_done [OF Suc.prems(2)])
        show "key s (q ! h) \<le> key s (q ! x)" if "0 < x" "x < length q" "par x = h" for x
          using ge c(6) [of x] that d(1,3) by (simp add: not_less)
      qed
      then show ?thesis using sifted_fill [OF Suc.prems(1)] run ge by simp
    qed
  qed
qed simp

lemma min_heap_shift_down_sifts:
  assumes "holed s n h e q" "down_inv (key s) q h" "mh_n s = n"
  shows "\<exists>s'. min_heap_shift_down h e s = Inr ((), s') \<and> sifted s s' n q"
  using shift_down_sifts [OF assms, of "Suc n"] assms(3) unfolding min_heap_shift_down_def by simp

section \<open>The queue\<close>

text \<open>
  The invariant: a heap with the events \<open>q\<close>, each knowing its position, in an array of the recorded
  capacity, and the position -1 in every event outside.
\<close>

definition queue :: "min_heap \<Rightarrow> eptr list \<Rightarrow> bool" where
  "queue s q \<longleftrightarrow> placed s (mh_n s) q \<and> heap_ord (key s) q \<and> length (mh_p s) = mh_a s
     \<and> (\<forall>x. live s x \<and> x \<notin> set q \<longrightarrow> idx s x = - 1)"

lemma queue_length: "queue s q \<Longrightarrow> length q = mh_n s"
  by (auto simp: queue_def placed_def)

lemma sifted_queue:
  assumes "sifted s s' n q" "mh_n s = n" "length (mh_p s) = mh_a s" "\<And>x. live s x \<Longrightarrow> x \<notin> set q \<Longrightarrow> idx s x = - 1"
  shows "\<exists>q'. queue s' q' \<and> mset q' = mset q"
proof -
  obtain q' where q': "placed s' n q'" "heap_ord (key s) q'" "mset q' = mset q" "same_frame s s'"
      "\<And>x. x \<notin> set q \<Longrightarrow> idx s' x = idx s x" using assms(1) unfolding sifted_def by blast
  then have "set q' = set q" using mset_eq_setD by blast
  then have "queue s' q'" using q' assms(2-4) by (auto simp: queue_def same_frame_def)
  then show ?thesis using q'(3) by blast
qed

lemma reserve_run:
  assumes "mh_a s = length (mh_p s)" "n \<le> Suc (mh_a s)" "n < 2 ^ 31"
  shows "(\<exists>a. mh_nomem s a \<and> min_heap_reserve n s = Inr (- 1, s))
    \<or> (\<exists>s'. min_heap_reserve n s = Inr (0, s') \<and> mh_n s' = mh_n s \<and> mh_events s' = mh_events s \<and> n \<le> mh_a s'
         \<and> length (mh_p s') = mh_a s' \<and> (\<forall>k \<le> length (mh_p s). take k (mh_p s') = take k (mh_p s))
         \<and> mh_nomem s' = mh_nomem s \<and> mh_junk s' = mh_junk s)"
proof (cases "mh_a s < n")
  case False
  then show ?thesis using assms(1) by (auto simp: min_heap_reserve_def)
next
  case True
  let ?a0 = "if mh_a s \<noteq> 0 then u32_mul (mh_a s) 2 else 8"
  let ?a = "if ?a0 < n then n else ?a0"
  have "length (mh_p s) < ?a" using True assms(1) by auto
  then show ?thesis
    using True assms(1) by (cases "mh_nomem s ?a") (auto simp: min_heap_reserve_def Let_def)
qed

lemma queueD:
  assumes "queue s q"
  shows "length q = mh_n s" "mh_n s \<le> length (mh_p s)" "mh_n s < 2 ^ 31" "distinct q" "length (mh_p s) = mh_a s" "heap_ord (key s) q"
    "\<And>i. i < mh_n s \<Longrightarrow> mh_p s ! i = q ! i" "\<And>i. i < mh_n s \<Longrightarrow> idx s (q ! i) = int i" "\<And>x. x \<in> set q \<Longrightarrow> live s x"
    "\<And>x. live s x \<Longrightarrow> x \<notin> set q \<Longrightarrow> idx s x = - 1" "q = take (mh_n s) (mh_p s)"
proof -
  show "length q = mh_n s" "mh_n s \<le> length (mh_p s)" "mh_n s < 2 ^ 31" "distinct q" "length (mh_p s) = mh_a s"
      "heap_ord (key s) q" and q: "\<And>i. i < mh_n s \<Longrightarrow> mh_p s ! i = q ! i"
      "\<And>x. x \<in> set q \<Longrightarrow> live s x" "\<And>x. live s x \<Longrightarrow> x \<notin> set q \<Longrightarrow> idx s x = - 1" "q = take (mh_n s) (mh_p s)"
    using assms by (auto simp: queue_def placed_def)
  show "\<And>i. i < mh_n s \<Longrightarrow> idx s (q ! i) = int i" using assms q(1) by (auto simp: queue_def placed_def)
qed

text \<open>Insertion.\<close>

lemma push_run:
  assumes Q: "queue s q" and e: "live s e" "e \<notin> set q" and big: "Suc (mh_n s) < 2 ^ 31"
  shows "(\<exists>a. mh_nomem s a \<and> min_heap_push e s = Inr (- 1, s))
    \<or> (\<exists>s' q'. min_heap_push e s = Inr (0, s') \<and> queue s' q' \<and> mset q' = add_mset e (mset q)
         \<and> key s' = key s \<and> live s' = live s \<and> mh_nomem s' = mh_nomem s)"
proof -
  note d = queueD [OF Q]
  have n1: "u32_add (mh_n s) 1 = Suc (mh_n s)" using big by (simp add: u32_add_def)
  consider a where "mh_nomem s a" "min_heap_reserve (Suc (mh_n s)) s = Inr (- 1, s)"
    | s1 where "min_heap_reserve (Suc (mh_n s)) s = Inr (0, s1)" "mh_n s1 = mh_n s" "mh_events s1 = mh_events s"
        "Suc (mh_n s) \<le> mh_a s1" "length (mh_p s1) = mh_a s1" "take (mh_n s) (mh_p s1) = take (mh_n s) (mh_p s)"
        "mh_nomem s1 = mh_nomem s"
    using reserve_run [of s "Suc (mh_n s)"] d(2,5) big by auto
  then show ?thesis
  proof cases
    case 1
    then have "min_heap_push e s = Inr (- 1, s)" by (simp add: min_heap_push_def run_simps n1 del: One_nat_def)
    then show ?thesis using 1(1) by blast
  next
    case (2 s1)
    let ?s = "s1\<lparr>mh_n := Suc (mh_n s)\<rparr>" and ?q = "q @ [e]" and ?n = "mh_n s"
    have f: "key ?s = key s" "idx ?s = idx s" "live ?s = live s" using 2(3) by (auto simp: key_def idx_def live_def fun_eq_iff)
    have "mh_p s1 ! i = q ! i" if "i < ?n" for i using d(11) 2(6) that by (metis nth_take)
    moreover have "?q = (take (Suc ?n) (mh_p s1))[?n := e]"
    proof -
      have "take (Suc ?n) (mh_p s1) = q @ [mh_p s1 ! ?n]"
        using 2(4-6) d(11) by (subst take_Suc_conv_app_nth) auto
      then show ?thesis using d(1) by (metis list_update_length)
    qed
    moreover have "Suc ?n \<le> length (mh_p s1)" using 2(4,5) by simp
    moreover have "\<forall>x\<in>set ?q. live ?s x" "distinct ?q" using d(4,9) e f(3) by auto
    ultimately have "holed ?s (Suc ?n) ?n e ?q"
      using d(8) f(2) big unfolding holed_def by simp
    moreover have "up_inv (key ?s) ?q ?n" using push_up_inv [OF d(6), of e] f(1) d(1) by simp
    ultimately obtain s' where s': "min_heap_shift_up ?n e ?s = Inr ((), s')" "sifted ?s s' (Suc ?n) ?q"
      using shift_up_sifts by blast
    have "min_heap_push e s = Inr (0, s')"
      using 2(1) s'(1) by (simp add: min_heap_push_def run_simps n1 del: One_nat_def)
    moreover obtain q' where "queue s' q'" "mset q' = mset ?q"
      using sifted_queue [OF s'(2)] 2(5) f d(10) by auto
    moreover have "key s' = key s" "live s' = live s" "mh_nomem s' = mh_nomem s"
      using s'(2) f 2(7) by (auto simp: sifted_def same_frame_def)
    ultimately show ?thesis by auto
  qed
qed

text \<open>Removal of the event at position \<open>i\<close>: the last one takes its place.\<close>

definition shrunk :: "min_heap \<Rightarrow> min_heap" where
  "shrunk s = s\<lparr>mh_n := mh_n s - 1\<rparr>"

lemma shrunk_simps [simp]:
  "mh_n (shrunk s) = mh_n s - 1" "mh_p (shrunk s) = mh_p s" "mh_a (shrunk s) = mh_a s"
  "key (shrunk s) = key s" "idx (shrunk s) = idx s" "live (shrunk s) = live s"
  by (auto simp: shrunk_def key_def idx_def live_def fun_eq_iff)

lemma shrunk_holed:
  assumes Q: "queue s q" and i: "i < mh_n s - 1"
  shows "holed (shrunk s) (mh_n s - 1) i (last q) ((butlast q)[i := last q])"
proof -
  note d = queueD [OF Q]
  have ne: "q \<noteq> []" using d(1) i by auto
  have "butlast q = take (mh_n s - 1) (mh_p s)" using d(1,2,11) by (simp add: butlast_conv_take min_def)
  moreover have "distinct ((butlast q)[i := last q])"
  proof (rule distinct_list_update)
    have "distinct (butlast q @ [last q])" using d(4) ne by simp
    then show "distinct (butlast q)" "last q \<notin> set (butlast q) - {butlast q ! i}" by auto
  qed
  moreover have "set ((butlast q)[i := last q]) \<subseteq> set q"
    using set_update_subset_insert [of "butlast q" i "last q"] ne in_set_butlastD [of _ q] by fastforce
  ultimately show ?thesis unfolding holed_def using d i by auto
qed

lemma mset_shrunk:
  assumes "i < length q - 1"
  shows "mset ((butlast q)[i := last q]) = mset q - {#q ! i#}"
proof -
  obtain b l where q: "q = b @ [l]" using assms by (cases q rule: rev_cases) auto
  then have i: "i < length b" using assms by simp
  then have "b ! i \<in># mset b" by simp
  then show ?thesis using i unfolding q by (simp add: mset_update nth_append)
qed

lemma sifted_removed:
  assumes "sifted s s1 n q1" "mh_n s = n" "length (mh_p s) = mh_a s" "live s x" "x \<notin> set q1"
    "\<And>y. live s y \<Longrightarrow> y \<notin> set q1 \<Longrightarrow> y \<noteq> x \<Longrightarrow> idx s y = - 1"
  shows "\<exists>s' q'. set_idx x (- 1) s1 = Inr ((), s') \<and> queue s' q' \<and> mset q' = mset q1 \<and> same_frame s s'"
proof -
  obtain q' where q': "placed s1 n q'" "heap_ord (key s) q'" "mset q' = mset q1" "same_frame s s1"
      "\<And>y. y \<notin> set q1 \<Longrightarrow> idx s1 y = idx s y" using assms(1) unfolding sifted_def by blast
  have st: "set q' = set q1" using q'(3) mset_eq_setD by blast
  have "live s1 x" using assms(4) q'(4) by (simp add: same_frame_def)
  then obtain s' where s': "set_idx x (- 1) s1 = Inr ((), s')" "same_frame s1 s'" "mh_p s' = mh_p s1" "idx s' = (idx s1)(x := - 1)"
    using set_idx_run by blast
  have "mh_p s1 ! i \<noteq> x" if "i < n" for i
  proof -
    have "mh_p s1 ! i \<in> set q'" using q'(1) that by (auto simp: placed_def in_set_conv_nth)
    then show ?thesis using st assms(5) by auto
  qed
  then have "placed s' n q'"
    using q'(1) s' unfolding placed_def same_frame_def by auto
  then have "queue s' q'"
    using q' s' st assms(2,3,6) unfolding queue_def same_frame_def by auto
  then show ?thesis using s'(1,2) q'(3,4) same_frame_trans by blast
qed

lemma heap_ord_butlast: "heap_ord k (b @ [l]) \<Longrightarrow> heap_ord k b"
  unfolding heap_ord_def
proof (intro allI impI)
  fix i assume h: "\<forall>i. 0 < i \<and> i < length (b @ [l]) \<longrightarrow> k ((b @ [l]) ! par i) \<le> k ((b @ [l]) ! i)" and i: "0 < i \<and> i < length b"
  then have "k ((b @ [l]) ! par i) \<le> k ((b @ [l]) ! i)" "par i < length b" using par_less [of i] by auto
  then show "k (b ! par i) \<le> k (b ! i)" using i by (simp add: nth_append)
qed

lemma remove_last_run:
  assumes Q: "queue s (b @ [l])"
  shows "\<exists>s'. bnd (min_heap_shift_down (length b) l) (\<lambda>_. set_idx l (- 1)) (shrunk s) = Inr ((), s')
    \<and> queue s' b \<and> same_frame (shrunk s) s'"
proof -
  note d = queueD [OF Q]
  let ?i = "length b"
  have n: "mh_n s = Suc ?i" using d(1) by simp
  have l: "live s l" "?i < length (mh_p s)" "Suc ?i < 2 ^ 31" using d(2,3,9) n by auto
  obtain s1 where s1: "place ?i l (shrunk s) = Inr ((), s1)" "same_frame (shrunk s) s1" "mh_p s1 = (mh_p s)[?i := l]"
      "idx s1 = (idx s)(l := to_int ?i)"
    using place_run [of "shrunk s" l ?i] l by auto
  have "live s1 l" using l(1) s1(2) by (simp add: same_frame_def)
  then obtain s' where s': "set_idx l (- 1) s1 = Inr ((), s')" "same_frame s1 s'" "mh_p s' = mh_p s1" "idx s' = (idx s1)(l := - 1)"
    using set_idx_run by blast
  have "u32_mul 2 (u32_add ?i 1) = 2 * ?i + 2" using l(3) by (simp add: u32_mul_def u32_add_def)
  then have "min_heap_shift_down ?i l (shrunk s) = Inr ((), s1)"
    using s1(1) n by (simp add: min_heap_shift_down_def run_simps Let_def del: One_nat_def)
  then have run: "bnd (min_heap_shift_down ?i l) (\<lambda>_. set_idx l (- 1)) (shrunk s) = Inr ((), s')"
    using s'(1) by (simp add: run_simps)
  have fr: "same_frame (shrunk s) s'" using same_frame_trans [OF s1(2) s'(2)] .
  have "take ?i (take (Suc ?i) (mh_p s)) = take ?i (b @ [l])" using d(11) n by simp
  then have bl: "b = take ?i (mh_p s)" by simp
  have nl: "l \<notin> set b" "distinct b" using d(4) by auto
  have idx': "idx s' (b ! j) = int j" if j: "j < ?i" for j
  proof -
    have "b ! j \<noteq> l" using nl j by (metis nth_mem)
    then show ?thesis using s1(4) s'(4) d(8) [of j] j n by (simp add: nth_append)
  qed
  have "mh_p s' ! j = b ! j" if "j < ?i" for j using d(7) [of j] that n s1(3) s'(3) by (simp add: nth_append)
  moreover have "\<forall>x\<in>set b. live s' x" using d(9) fr by (auto simp: same_frame_def)
  moreover have "b = take ?i (mh_p s')" using bl s1(3) s'(3) by simp
  ultimately have "placed s' ?i b"
    using l idx' nl s1(3) s'(3) unfolding placed_def by auto
  moreover have "heap_ord (key s) b" using heap_ord_butlast [OF d(6)] .
  moreover have "idx s' x = - 1" if "live s x" "x \<notin> set b" for x
    using that d(10) [of x] s1(4) s'(4) by auto
  ultimately have "queue s' b"
    using fr d(5) n unfolding queue_def same_frame_def by auto
  then show ?thesis using run fr by blast
qed

text \<open>What \<open>min_heap_erase\<close> and \<open>min_heap_pop\<close> do after taking the last event off the array.\<close>

lemma remove_run:
  assumes Q: "queue s q" and i: "i < mh_n s"
  shows "\<exists>s' q'. bnd (if 0 < i \<and> key s (last q) < key s (q ! par i) then min_heap_shift_up i (last q)
        else min_heap_shift_down i (last q)) (\<lambda>_. set_idx (q ! i) (- 1)) (shrunk s) = Inr ((), s')
    \<and> queue s' q' \<and> mset q' = mset q - {#q ! i#} \<and> same_frame (shrunk s) s'"
proof (cases "i < mh_n s - 1")
  case False
  note d = queueD [OF Q]
  obtain b l where q: "q = b @ [l]" using i d(1) by (cases q rule: rev_cases) auto
  have ib: "i = length b" using False i d(1) q by simp
  have "\<not> (0 < i \<and> key s (last q) < key s (q ! par i))"
    using d(1,6) i ib q unfolding heap_ord_def by (metis last_snoc leD nth_append_length)
  then show ?thesis using remove_last_run [of s b l] Q unfolding q ib by auto
next
  case lt: True
  note d = queueD [OF Q]
  let ?q = "(butlast q)[i := last q]" and ?n = "mh_n s - 1"
  have H: "holed (shrunk s) ?n i (last q) ?q" by (rule shrunk_holed [OF Q lt])
  have m: "mset ?q = mset q - {#q ! i#}" using mset_shrunk [of i q] lt d(1) by simp
  obtain s1 where s1: "(if 0 < i \<and> key s (last q) < key s (q ! par i) then min_heap_shift_up i (last q)
        else min_heap_shift_down i (last q)) (shrunk s) = Inr ((), s1)" "sifted (shrunk s) s1 ?n ?q"
  proof (cases "0 < i \<and> key s (last q) < key s (q ! par i)")
    case True
    then have "up_inv (key (shrunk s)) ?q i" using erase_up_inv [OF d(6)] lt d(1) by simp
    then show ?thesis using shift_up_sifts [OF H] that True by auto
  next
    case False
    then have "down_inv (key (shrunk s)) ?q i" using erase_down_inv [OF d(6)] lt d(1) by (auto simp: not_less)
    then obtain s1 where "min_heap_shift_down i (last q) (shrunk s) = Inr ((), s1)" "sifted (shrunk s) s1 ?n ?q"
      using min_heap_shift_down_sifts [OF H] by auto
    then show ?thesis using that False by auto
  qed
  have "mset ?q = mset (remove1 (q ! i) q)" using m by simp
  then have x: "q ! i \<in> set q" "set ?q = set q - {q ! i}"
    using mset_eq_setD set_remove1_eq [OF d(4)] i d(1) by (metis nth_mem)+
  obtain s' q' where "set_idx (q ! i) (- 1) s1 = Inr ((), s')" "queue s' q'" "mset q' = mset ?q" "same_frame (shrunk s) s'"
    using sifted_removed [OF s1(2), of "q ! i"] x d(5,9,10) by auto
  then show ?thesis using s1(1) m by (auto simp: bnd_def)
qed

lemma u32_sub_n: "queue s q \<Longrightarrow> mh_n s \<noteq> 0 \<Longrightarrow> u32_sub (mh_n s) 1 = mh_n s - 1"
  using queueD(3) [of s q] by (intro u32_sub_1) auto

lemma last_slot:
  assumes "queue s q" "mh_n s \<noteq> 0"
  shows "slot (mh_n s - 1) (shrunk s) = Inr (last q, shrunk s)"
proof -
  have "q \<noteq> []" using queueD(1) [OF assms(1)] assms(2) by auto
  then show ?thesis
    using queueD(1,2,7) [OF assms(1)] assms(2) by (simp add: slot_def last_conv_nth)
qed

lemma pop_run:
  assumes Q: "queue s q" and n: "q \<noteq> []"
  shows "\<exists>s' q'. min_heap_pop s = Inr (q ! 0, s') \<and> queue s' q' \<and> mset q' = mset q - {#q ! 0#}
    \<and> key s' = key s \<and> live s' = live s"
proof -
  note d = queueD [OF Q]
  have n0: "0 < mh_n s" using n unfolding d(1) [symmetric] by simp
  then have sl: "slot 0 s = Inr (q ! 0, s)" "u32_sub (mh_n s) 1 = mh_n s - 1" "slot (mh_n s - 1) (shrunk s) = Inr (last q, shrunk s)"
    using d(2,7) u32_sub_n [OF Q] last_slot [OF Q] by (auto simp: slot_def)
  obtain s' q' where r: "bnd (min_heap_shift_down 0 (last q)) (\<lambda>_. set_idx (q ! 0) (- 1)) (shrunk s) = Inr ((), s')"
      "queue s' q'" "mset q' = mset q - {#q ! 0#}" "same_frame (shrunk s) s'"
    using remove_run [OF Q n0] by auto
  have "min_heap_pop s = bnd (bnd (min_heap_shift_down 0 (last q)) (\<lambda>_. set_idx (q ! 0) (- 1))) (\<lambda>_. ret (q ! 0)) (shrunk s)"
    using n0 sl unfolding min_heap_pop_def by (simp add: bnd_def get_heap_def set_n_def shrunk_def [symmetric] del: One_nat_def split: sum.split)
  then show ?thesis using r by (auto simp: bnd_def same_frame_def)
qed

lemma erase_run:
  assumes Q: "queue s q" and x: "x \<in> set q"
  shows "\<exists>s' q'. min_heap_erase x s = Inr (0, s') \<and> queue s' q' \<and> mset q' = mset q - {#x#}
    \<and> key s' = key s \<and> live s' = live s \<and> mh_a s' = mh_a s"
proof -
  note d = queueD [OF Q]
  obtain i where i: "i < mh_n s" "x = q ! i" using x d(1) by (metis in_set_conv_nth)
  have n0: "mh_n s \<noteq> 0" using i by simp
  have sl: "u32_sub (mh_n s) 1 = mh_n s - 1" "slot (mh_n s - 1) (shrunk s) = Inr (last q, shrunk s)"
    using u32_sub_n [OF Q n0] last_slot [OF Q n0] .
  obtain y where y: "mh_events s x = Some y" using d(9) [OF x] by (auto simp: live_def)
  then have yi: "min_heap_idx y = int i" using d(8) [OF i(1)] i(2) by (simp add: idx_def)
  have i31: "i < 2 ^ 31" using i(1) d(3) by simp
  have tu: "to_unsigned (int i) = i" "0 < i \<Longrightarrow> erase_parent (int i) = par i"
    using i31 by (simp_all add: to_unsigned_def erase_parent_def par_def zdiv_int nat_div_distrib)
  have up: "(if 0 < int i then bnd (slot (erase_parent (int i))) (\<lambda>p. min_heap_elem_greater p (last q)) else ret False) (shrunk s)
      = Inr (0 < i \<and> key s (last q) < key s (q ! par i), shrunk s)"
  proof (cases "0 < i")
    case True
    have p: "par i < mh_n s" using par_less [OF True] i(1) by simp
    have "q \<noteq> []" using d(1) n0 by auto
    then have "live s (q ! par i)" "live s (last q)" "par i < length (mh_p s)" "mh_p s ! par i = q ! par i"
      using d(1,2,7) d(9) [of "q ! par i"] d(9) [of "last q"] p by auto
    then show ?thesis using True tu(2) by (simp add: run_simps)
  qed simp
  obtain s' q' where r: "bnd (if 0 < i \<and> key s (last q) < key s (q ! par i) then min_heap_shift_up i (last q)
        else min_heap_shift_down i (last q)) (\<lambda>_. set_idx (q ! i) (- 1)) (shrunk s) = Inr ((), s')"
      "queue s' q'" "mset q' = mset q - {#q ! i#}" "same_frame (shrunk s) s'"
    using remove_run [OF Q i(1)] by auto
  have "min_heap_erase x s = bnd (bnd (if 0 < i \<and> key s (last q) < key s (q ! par i) then min_heap_shift_up i (last q)
        else min_heap_shift_down i (last q)) (\<lambda>_. set_idx (q ! i) (- 1))) (\<lambda>_. ret 0) (shrunk s)"
  proof -
    have "event_of x s = Inr (y, s)" "get_heap mh_n s = Inr (mh_n s, s)" "set_n (mh_n s - 1) s = Inr ((), shrunk s)"
      using y by (simp_all add: event_of_def get_heap_def set_n_def shrunk_def)
    then show ?thesis
      using sl yi up tu(1) i(2) unfolding min_heap_erase_def
      by (simp add: bnd_Inr Let_def bnd_assoc del: One_nat_def split del: if_split cong: if_cong)
  qed
  then show ?thesis using r i(2) by (auto simp: bnd_def same_frame_def)
qed

section \<open>The interface of a priority queue\<close>

text \<open>
  \<open>rep s M\<close>: the state represents the multiset \<open>M\<close> of elements. The laws are those a client of the queue
  relies on; what follows from them for a client that empties the queue is proved once.
\<close>

fun drain :: "('s, 'e) run \<Rightarrow> nat \<Rightarrow> ('s, 'e list) run" where
  "drain pop 0 = ret []"
| "drain pop (Suc n) = bnd pop (\<lambda>e. bnd (drain pop n) (\<lambda>es. ret (e # es)))"

locale prio_queue =
  fixes rep :: "'s \<Rightarrow> 'e multiset \<Rightarrow> bool"
    and prio :: "'s \<Rightarrow> 'e \<Rightarrow> 'k::linorder"
    and pop :: "('s, 'e) run"
    and erase :: "'e \<Rightarrow> ('s, int) run"
  assumes pop_min: "rep s M \<Longrightarrow> M \<noteq> {#} \<Longrightarrow>
      \<exists>e s'. pop s = Inr (e, s') \<and> e \<in># M \<and> (\<forall>x\<in>#M. prio s e \<le> prio s x) \<and> rep s' (M - {#e#}) \<and> prio s' = prio s"
    and erase_one: "rep s M \<Longrightarrow> x \<in># M \<Longrightarrow> \<exists>s'. erase x s = Inr (0, s') \<and> rep s' (M - {#x#}) \<and> prio s' = prio s"
begin

lemma drain_sorts:
  assumes "rep s M" "size M = n"
  shows "\<exists>es s'. drain pop n s = Inr (es, s') \<and> mset es = M \<and> sorted (map (prio s) es) \<and> rep s' {#} \<and> prio s' = prio s"
  using assms
proof (induction n arbitrary: s M)
  case (Suc n)
  then have "M \<noteq> {#}" by auto
  then obtain e s1 where e: "pop s = Inr (e, s1)" "e \<in># M" "\<forall>x\<in>#M. prio s e \<le> prio s x" "rep s1 (M - {#e#})" "prio s1 = prio s"
    using pop_min [OF Suc.prems(1)] by blast
  have "size (M - {#e#}) = n" using e(2) Suc.prems(2) by (simp add: size_Diff_singleton)
  then obtain es s' where es: "drain pop n s1 = Inr (es, s')" "mset es = M - {#e#}" "sorted (map (prio s) es)" "rep s' {#}" "prio s' = prio s"
    using Suc.IH [OF e(4)] e(5) by auto
  have "mset (e # es) = M" using es(2) e(2) by simp
  moreover have "sorted (map (prio s) (e # es))"
    using es(2,3) e(3) by (auto dest: in_diffD simp flip: set_mset_mset)
  ultimately show ?case using e(1) es by (intro exI [of _ "e # es"]) (auto simp: run_simps)
qed simp

lemma erase_then_drain:
  assumes "rep s M" "x \<in># M" "size M = Suc n"
  shows "\<exists>es s1 s'. erase x s = Inr (0, s1) \<and> drain pop n s1 = Inr (es, s') \<and> add_mset x (mset es) = M \<and> sorted (map (prio s) es)"
proof -
  obtain s1 where s1: "erase x s = Inr (0, s1)" "rep s1 (M - {#x#})" "prio s1 = prio s" using erase_one [OF assms(1,2)] by blast
  have "size (M - {#x#}) = n" using assms(2,3) by (simp add: size_Diff_singleton)
  then show ?thesis using drain_sorts [OF s1(2)] s1(1,3) assms(2) by auto
qed

end

definition holds_events :: "min_heap \<Rightarrow> eptr multiset \<Rightarrow> bool" where
  "holds_events s M \<longleftrightarrow> (\<exists>q. queue s q \<and> mset q = M)"

interpretation timeouts: prio_queue holds_events key min_heap_pop min_heap_erase
proof
  fix s M assume "holds_events s M" "M \<noteq> {#}"
  then obtain q where q: "queue s q" "mset q = M" "q \<noteq> []" by (auto simp: holds_events_def)
  obtain s' q' where "min_heap_pop s = Inr (q ! 0, s')" "queue s' q'" "mset q' = mset q - {#q ! 0#}" "key s' = key s"
    using pop_run [OF q(1,3)] by blast
  moreover have "q ! 0 \<in># M" using q(2,3) by auto
  moreover have "\<forall>x\<in>#M. key s (q ! 0) \<le> key s x"
    using heap_ord_min [OF queueD(6) [OF q(1)]] q(2) by (metis in_set_conv_nth set_mset_mset)
  ultimately show "\<exists>e s'. min_heap_pop s = Inr (e, s') \<and> e \<in># M \<and> (\<forall>x\<in>#M. key s e \<le> key s x)
      \<and> holds_events s' (M - {#e#}) \<and> key s' = key s"
    unfolding holds_events_def using q(2) by blast
next
  fix s M x assume "holds_events s M" "x \<in># M"
  then obtain q where "queue s q" "mset q = M" "x \<in> set q" by (auto simp: holds_events_def)
  then show "\<exists>s'. min_heap_erase x s = Inr (0, s') \<and> holds_events s' (M - {#x#}) \<and> key s' = key s"
    using erase_run [of s q x] unfolding holds_events_def by blast
qed

end
