(* ===== verification/Heap_Properties.thy ===== *)
theory Heap_Properties
  imports Min_Heap
begin

text \<open>
  The properties of the timeout queue: every operation keeps the invariant, and the queue hands out the
  events in the order of their timeouts.
\<close>

section \<open>Filling and emptying the queue\<close>

fun push_all :: "eptr list \<Rightarrow> int hrun" where
  "push_all [] = ret 0"
| "push_all (e # es) = bnd (min_heap_push e) (\<lambda>r. if r \<noteq> 0 then ret r else push_all es)"

lemma push_all_run:
  assumes "queue s q" "distinct (q @ es)" "\<forall>x\<in>set es. live s x" "\<forall>a. \<not> mh_nomem s a" "length q + length es < 2 ^ 31"
  shows "\<exists>s' q'. push_all es s = Inr (0, s') \<and> queue s' q' \<and> mset q' = mset q + mset es \<and> key s' = key s"
  using assms
proof (induction es arbitrary: s q)
  case (Cons e es)
  have "mh_n s = length q" using queueD(1) [OF Cons.prems(1)] by simp
  then obtain s1 q1 where s1: "min_heap_push e s = Inr (0, s1)" "queue s1 q1" "mset q1 = add_mset e (mset q)" "key s1 = key s" "live s1 = live s"
      and nm: "mh_nomem s1 = mh_nomem s"
    using push_run [OF Cons.prems(1), of e] Cons.prems(2-5) by auto
  have m: "mset (q1 @ es) = mset (q @ e # es)" using s1(3) by simp
  have "distinct (q1 @ es)" using m Cons.prems(2) mset_eq_imp_distinct_iff by blast
  moreover have "length q1 = Suc (length q)" using s1(3) by (metis mset.simps(2) size_mset size_add_mset)
  ultimately obtain s' q' where "push_all es s1 = Inr (0, s')" "queue s' q'" "mset q' = mset q1 + mset es" "key s' = key s1"
    using Cons.IH [OF s1(2)] Cons.prems(3-5) s1(5) nm by auto
  then show ?case using s1 by (auto simp: run_simps)
qed auto

lemma ctor_queue:
  assumes "\<forall>x. live s x \<longrightarrow> idx s x = - 1"
  shows "\<exists>s'. min_heap_ctor s = Inr ((), s') \<and> queue s' [] \<and> key s' = key s \<and> live s' = live s \<and> mh_nomem s' = mh_nomem s"
  using assms by (auto simp: min_heap_ctor_def queue_def placed_def heap_ord_def key_def live_def idx_def fun_eq_iff)

section \<open>Properties\<close>

text \<open>
  \<open>min_heap_push\<close> keeps the invariant of the queue (heap order, every event knows its position, the
  array has the recorded capacity) and adds exactly the new event; if the array cannot grow it
  returns -1 and changes nothing.
\<close>

theorem min_heap_push_keeps:
  assumes "queue s q" "live s e" "e \<notin> set q" "Suc (mh_n s) < 2 ^ 31"
  shows "min_heap_push e s = Inr (- 1, s) \<and> (\<exists>a. mh_nomem s a)
    \<or> (\<exists>s' q'. min_heap_push e s = Inr (0, s') \<and> queue s' q' \<and> mset q' = add_mset e (mset q))"
  using push_run [OF assms] by blast

text \<open>
  C17. A queue built from the constructor by pushing events hands out, popped until it is empty,
  exactly these events in the order of their timeouts.
\<close>

theorem min_heap_sorts:
  assumes "\<forall>x. live s x \<longrightarrow> idx s x = - 1" "distinct es" "\<forall>x\<in>set es. live s x" "\<forall>a. \<not> mh_nomem s a" "length es < 2 ^ 31"
  shows "\<exists>out s'. bnd min_heap_ctor (\<lambda>_. bnd (push_all es) (\<lambda>_. drain min_heap_pop (length es))) s = Inr (out, s')
    \<and> mset out = mset es \<and> sorted (map (key s) out) \<and> queue s' []"
proof -
  obtain s1 where s1: "min_heap_ctor s = Inr ((), s1)" "queue s1 []" "key s1 = key s" "live s1 = live s" "mh_nomem s1 = mh_nomem s"
    using ctor_queue [OF assms(1)] by blast
  obtain s2 q where s2: "push_all es s1 = Inr (0, s2)" "queue s2 q" "mset q = mset es" "key s2 = key s1"
    using push_all_run [OF s1(2), of es] assms s1 by auto
  have "holds_events s2 (mset es)" using s2 unfolding holds_events_def by metis
  from timeouts.drain_sorts [OF this] obtain out s' where
    "drain min_heap_pop (length es) s2 = Inr (out, s')" "mset out = mset es" "sorted (map (key s2) out)" "holds_events s' {#}"
    by auto
  then show ?thesis using s1 s2 by (auto simp: run_simps holds_events_def)
qed

definition three_events :: min_heap where
  "three_events = \<lparr>mh_p = [], mh_n = 0, mh_a = 0,
     mh_events = [1 \<mapsto> \<lparr>ev_timeout = \<lparr>tv_sec = 9, tv_usec = 0\<rparr>, min_heap_idx = - 1\<rparr>,
                  2 \<mapsto> \<lparr>ev_timeout = \<lparr>tv_sec = 4, tv_usec = 700\<rparr>, min_heap_idx = - 1\<rparr>,
                  3 \<mapsto> \<lparr>ev_timeout = \<lparr>tv_sec = 4, tv_usec = 20\<rparr>, min_heap_idx = - 1\<rparr>],
     mh_nomem = (\<lambda>_. False), mh_junk = (\<lambda>_. 0)\<rparr>"

lemma three_events_ok:
  "\<forall>x. live three_events x \<longrightarrow> idx three_events x = - 1" "\<forall>a. \<not> mh_nomem three_events a"
  "\<forall>x\<in>{1, 2, 3}. live three_events x"
  by (auto simp: three_events_def live_def idx_def)

theorem min_heap_sorts_witness:
  "\<exists>out s'. bnd min_heap_ctor (\<lambda>_. bnd (push_all [1, 2, 3]) (\<lambda>_. drain min_heap_pop 3)) three_events = Inr (out, s')
    \<and> mset out = {#1, 2, 3#} \<and> sorted (map (key three_events) out)"
proof -
  have "distinct [1, 2, 3 :: eptr]" "\<forall>x\<in>set [1, 2, 3]. live three_events x" "length [1, 2, 3 :: eptr] < 2 ^ 31"
    using three_events_ok(3) by simp_all
  from min_heap_sorts [OF three_events_ok(1) this(1,2) three_events_ok(2) this(3)] show ?thesis
    by (auto simp: add_mset_commute numeral_3_eq_3 simp del: push_all.simps drain.simps)
qed

theorem min_heap_push_keeps_witness:
  "\<exists>s' q'. min_heap_push 2 three_events = Inr (0, s') \<and> queue s' q' \<and> mset q' = {#2#}"
proof -
  have "queue three_events []" "live three_events 2"
    using three_events_ok(1) by (auto simp: queue_def placed_def heap_ord_def three_events_def live_def)
  moreover have "Suc (mh_n three_events) < 2 ^ 31" by (simp add: three_events_def)
  ultimately show ?thesis using min_heap_push_keeps [of three_events "[]" 2] three_events_ok(2) by simp
qed

text \<open>
  \<open>min_heap_erase\<close> removes exactly the given event from anywhere in the queue; the others still
  come out in the order of their timeouts.
\<close>

theorem min_heap_erase_exact:
  assumes "queue s q" "x \<in> set q"
  shows "\<exists>es s1 s'. min_heap_erase x s = Inr (0, s1) \<and> drain min_heap_pop (length q - 1) s1 = Inr (es, s')
    \<and> mset (x # es) = mset q \<and> sorted (map (key s) es)"
proof -
  have "holds_events s (mset q)" using assms(1) by (auto simp: holds_events_def)
  moreover have "size (mset q) = Suc (length q - 1)" using assms(2) by (cases q) auto
  ultimately show ?thesis using timeouts.erase_then_drain [of s "mset q" x "length q - 1"] assms(2) by auto
qed

theorem min_heap_erase_exact_witness:
  "\<exists>s q es s1 s'. queue s q \<and> length q = 2 \<and> min_heap_erase 1 s = Inr (0, s1) \<and> drain min_heap_pop 1 s1 = Inr (es, s') \<and> es = [3]"
proof -
  have q0: "queue three_events []"
    using three_events_ok(1) by (auto simp: queue_def placed_def heap_ord_def three_events_def)
  obtain s q where q: "queue s q" "mset q = {#1, 3#}"
    using push_all_run [OF q0, of "[1, 3]"] three_events_ok by (auto simp del: push_all.simps)
  then have s: "1 \<in> set q" "length q = 2" by (metis set_mset_mset union_single_eq_member add_mset_commute, metis size_mset size_add_mset size_empty numeral_2_eq_2)
  obtain es s1 s' where r: "min_heap_erase 1 s = Inr (0, s1)" "drain min_heap_pop 1 s1 = Inr (es, s')" "mset (1 # es) = {#1, 3#}"
    using min_heap_erase_exact [OF q(1) s(1)] s(2) q(2) by auto
  then have "es = [3]" by simp
  then show ?thesis using r q(1) s(2) by blast
qed

end
