(* ===== verification/Event_Tagging.thy ===== *)
theory Event_Tagging
  imports BT_Prelude
begin

unbundle bit_operations_syntax

text \<open>
  The tagged wire format of the bundled event library, \<^verbatim>\<open>libevent/event_tagging.c\<close>: tags in groups of
  seven bits, integers in nibbles, and tagged data with its length.

  An \<open>evbuffer\<close> is the sequence of bytes in it; adding, draining and copying out never fail for lack of
  memory in this model. A function that returns -1 for malformed input does so here; an output
  parameter is an extra result, \<open>None\<close> when it was not written. Reading behind the bytes that
  \<open>bytes_pullup\<close> made contiguous is a fault.
\<close>

section \<open>Buffers\<close>

type_synonym u8 = "8 word"
type_synonym ebuf = "u8 list"
type_synonym 'a erun = "(ebuf, 'a) run"

definition bytes_get_length :: "nat erun" where
  "bytes_get_length = (\<lambda>b. Inr (length b, b))"

definition bytes_add :: "u8 list \<Rightarrow> unit erun" where
  "bytes_add d = (\<lambda>b. Inr ((), b @ d))"

definition bytes_drain :: "nat \<Rightarrow> unit erun" where
  "bytes_drain n = (\<lambda>b. Inr ((), drop n b))"

definition bytes_remove :: "nat \<Rightarrow> u8 list erun" where
  "bytes_remove n = (\<lambda>b. Inr (take n b, drop n b))"

text \<open>The first \<open>n\<close> bytes, made contiguous; \<open>NULL\<close> if there are fewer, or none are asked for.\<close>

definition bytes_pullup :: "nat \<Rightarrow> u8 list option erun" where
  "bytes_pullup n = (\<lambda>b. Inr (if n = 0 \<or> length b < n then None else Some (take n b), b))"

definition in_array :: "u8 list \<Rightarrow> nat \<Rightarrow> (u8 \<Rightarrow> fault + 'a) \<Rightarrow> fault + 'a" where
  "in_array d i k = (if i < length d then k (d ! i) else Inl OutOfBounds)"

section \<open>Integers\<close>

text \<open>The macro \<open>ENCODE_INT_INTERNAL\<close>, for both widths.\<close>

definition put_nibble :: "u8 list \<Rightarrow> nat \<Rightarrow> 'a::len word \<Rightarrow> fault + u8 list" where
  "put_nibble data off number = in_array data (off div 2) (\<lambda>x.
     Inr (data[off div 2 := if odd off then (x AND 0xf0) OR ucast (number AND 0x0f)
                            else (x AND 0x0f) OR push_bit 4 (ucast (number AND 0x0f))]))"

lemma drop_nibble_less: "(n :: 'a::len word) \<noteq> 0 \<Longrightarrow> unat (drop_bit 4 n) < unat n"
proof -
  assume "n \<noteq> 0"
  then have "unat n \<noteq> 0" by (metis unat_eq_zero)
  moreover have "unat (drop_bit 4 n) = unat n div 16" by (simp only: unat_drop_bit_eq) (simp add: drop_bit_eq_div)
  ultimately show ?thesis by simp
qed

function encode_loop :: "nat \<Rightarrow> 'a::len word \<Rightarrow> u8 list \<Rightarrow> fault + nat \<times> u8 list" where
  "encode_loop off number data =
     (if number = 0 then Inr (off, data)
      else case put_nibble data off number of Inl e \<Rightarrow> Inl e
        | Inr data' \<Rightarrow> encode_loop (Suc off) (drop_bit 4 number) data')"
  by pat_completeness auto

termination
  by (relation "measure (\<lambda>(off, n, d). unat n)") (use drop_nibble_less in auto)

declare encode_loop.simps [simp del]

definition encode_int_internal :: "'a::len word \<Rightarrow> fault + u8 list" where
  "encode_int_internal number =
     (case encode_loop 1 number (replicate (LENGTH('a) div 8 + 1) 0) of Inl e \<Rightarrow> Inl e
      | Inr (off, data) \<Rightarrow>
        let nibbles = (if off > 2 then off - 2 else 0) in
        in_array data 0 (\<lambda>x.
        Inr (take ((off + 1) div 2) (data[0 := (x AND 0x0f) OR push_bit 4 (word_of_nat nibbles AND 0x0f)]))))"

definition lift :: "fault + 'a \<Rightarrow> ('s, 'a) run" where
  "lift r = (\<lambda>s. case r of Inl e \<Rightarrow> Inl e | Inr x \<Rightarrow> Inr (x, s))"

definition evtag_encode_int :: "32 word \<Rightarrow> unit erun" where
  "evtag_encode_int number = bnd (lift (encode_int_internal number)) bytes_add"

definition evtag_encode_int64 :: "64 word \<Rightarrow> unit erun" where
  "evtag_encode_int64 number = bnd (lift (encode_int_internal number)) bytes_add"

text \<open>
  The macro \<open>DECODE_INT_INTERNAL\<close>: from \<open>offset\<close> on, without draining. The result is the encoded length
  and the number, or \<open>None\<close> for -1.
\<close>

fun decode_loop :: "nat \<Rightarrow> u8 list \<Rightarrow> 'a::len word \<Rightarrow> fault + 'a word" where
  "decode_loop 0 data number = Inr number"
| "decode_loop (Suc k) data number = in_array data (Suc k div 2) (\<lambda>x.
     decode_loop k data (push_bit 4 number OR (if odd (Suc k) then ucast (x AND 0x0f) else ucast (drop_bit 4 (x AND 0xf0)))))"

definition decode_int_internal :: "nat \<Rightarrow> nat \<Rightarrow> (nat \<times> 'a::len word) option erun" where
  "decode_int_internal maxnibbles offset =
     bnd bytes_get_length (\<lambda>total.
     if total \<le> offset then ret None
     else
       bnd (bytes_pullup (offset + 1)) (\<lambda>p.
       case p of None \<Rightarrow> ret None | Some d \<Rightarrow>
       bnd (lift (in_array (drop offset d) 0 (\<lambda>x. Inr (unat (drop_bit 4 (x AND 0xf0)) + 1)))) (\<lambda>nibbles.
       if nibbles > maxnibbles \<or> nibbles div 2 + 1 > total - offset then ret None
       else
         bnd (bytes_pullup (offset + (nibbles div 2 + 1))) (\<lambda>p.
         case p of None \<Rightarrow> ret None | Some d \<Rightarrow>
         bnd (lift (decode_loop nibbles (drop offset d) 0)) (\<lambda>number.
         ret (Some (nibbles div 2 + 1, number)))))))"

definition evtag_decode_int :: "32 word option erun" where
  "evtag_decode_int = bnd (decode_int_internal 8 0) (\<lambda>r.
     case r of None \<Rightarrow> ret None | Some (res, number) \<Rightarrow> bnd (bytes_drain res) (\<lambda>_. ret (Some number)))"

definition evtag_decode_int64 :: "64 word option erun" where
  "evtag_decode_int64 = bnd (decode_int_internal 16 0) (\<lambda>r.
     case r of None \<Rightarrow> ret None | Some (res, number) \<Rightarrow> bnd (bytes_drain res) (\<lambda>_. ret (Some number)))"

section \<open>Tags\<close>

text \<open>
  The loop of \<open>evtag_encode_tag\<close>. The array has five bytes, which the 32 bits fill.
\<close>

lemma drop_tag_less: "drop_bit 7 (n :: 'a::len word) \<noteq> 0 \<Longrightarrow> unat (drop_bit 7 n) < unat n"
proof -
  assume "drop_bit 7 n \<noteq> 0"
  then have "unat n \<noteq> 0" by (metis drop_bit_of_0 unat_eq_zero)
  moreover have "unat (drop_bit 7 n) = unat n div 128" by (simp only: unat_drop_bit_eq) (simp add: drop_bit_eq_div)
  ultimately show ?thesis by simp
qed

function encode_tag_loop :: "32 word \<Rightarrow> u8 list" where
  "encode_tag_loop tag =
     (let lower = ucast (tag AND 0x7f); tag' = drop_bit 7 tag in
      if tag' \<noteq> 0 then (lower OR 0x80) # encode_tag_loop tag' else [lower])"
  by pat_completeness auto

termination
  by (relation "measure unat") (use drop_tag_less in auto)

declare encode_tag_loop.simps [simp del]

definition evtag_encode_tag :: "32 word \<Rightarrow> nat erun" where
  "evtag_encode_tag tag =
     (let data = encode_tag_loop tag in
      bnd (lift (if length data \<le> 5 then Inr () else Inl OutOfBounds)) (\<lambda>_.
      bnd (bytes_add data) (\<lambda>_. ret (length data))))"

text \<open>
  The loop of \<open>decode_tag_internal\<close> runs over the whole buffer, but at most five bytes were pulled up.
  The shift of the last group keeps the bits that fit into 32.
\<close>

function decode_tag_loop :: "u8 list \<Rightarrow> nat \<Rightarrow> nat \<Rightarrow> 32 word \<Rightarrow> fault + (nat \<times> 32 word) option" where
  "decode_tag_loop data len count number =
     (if count < len then
        in_array data count (\<lambda>lower.
        let number' = number OR push_bit (7 * count) (ucast (lower AND 0x7f)) in
        if lower AND 0x80 = 0 then Inr (Some (count + 1, number'))
        else decode_tag_loop data len (count + 1) number')
      else Inr None)"
  by pat_completeness auto

termination
  by (relation "measure (\<lambda>(d, len, c, n). len - c)") auto

declare decode_tag_loop.simps [simp del]

definition INT_MAX :: nat where "INT_MAX = 2 ^ 31 - 1"

definition decode_tag_internal :: "bool \<Rightarrow> (nat \<times> 32 word) option erun" where
  "decode_tag_internal dodrain =
     bnd bytes_get_length (\<lambda>len.
     bnd (bytes_pullup (if len < 5 then len else 5)) (\<lambda>p.
     case p of None \<Rightarrow> ret None | Some data \<Rightarrow>
     bnd (lift (decode_tag_loop data len 0 0)) (\<lambda>r.
     case r of None \<Rightarrow> ret None | Some (count, number) \<Rightarrow>
     bnd (if dodrain then bytes_drain count else ret ()) (\<lambda>_.
     ret (Some (if count > INT_MAX then INT_MAX else count, number))))))"

definition evtag_decode_tag :: "(nat \<times> 32 word) option erun" where
  "evtag_decode_tag = decode_tag_internal True"

definition evtag_peek :: "(nat \<times> 32 word) option erun" where
  "evtag_peek = decode_tag_internal False"

section \<open>Marshalling\<close>

definition evtag_marshal :: "32 word \<Rightarrow> u8 list \<Rightarrow> unit erun" where
  "evtag_marshal tag data =
     bnd (evtag_encode_tag tag) (\<lambda>_.
     bnd (evtag_encode_int (word_of_nat (length data))) (\<lambda>_.
     bytes_add data))"

text \<open>The data buffer is emptied into the other one.\<close>

definition evtag_marshal_buffer :: "32 word \<Rightarrow> ebuf \<Rightarrow> ebuf erun" where
  "evtag_marshal_buffer tag data =
     bnd (evtag_encode_tag tag) (\<lambda>_.
     bnd (evtag_encode_int (word_of_nat (length data))) (\<lambda>_.
     bnd (bytes_add data) (\<lambda>_. ret [])))"

definition evtag_marshal_int :: "32 word \<Rightarrow> 32 word \<Rightarrow> unit erun" where
  "evtag_marshal_int tag integer =
     bnd (lift (encode_int_internal integer)) (\<lambda>data.
     bnd (evtag_encode_tag tag) (\<lambda>_.
     bnd (evtag_encode_int (word_of_nat (length data))) (\<lambda>_.
     bytes_add data)))"

definition evtag_marshal_int64 :: "32 word \<Rightarrow> 64 word \<Rightarrow> unit erun" where
  "evtag_marshal_int64 tag integer =
     bnd (lift (encode_int_internal integer)) (\<lambda>data.
     bnd (evtag_encode_tag tag) (\<lambda>_.
     bnd (evtag_encode_int (word_of_nat (length data))) (\<lambda>_.
     bytes_add data)))"

text \<open>The argument is the bytes of the string before its terminating zero.\<close>

definition evtag_marshal_string :: "32 word \<Rightarrow> u8 list \<Rightarrow> unit erun" where
  "evtag_marshal_string tag str = evtag_marshal tag str"

definition evtag_marshal_timeval :: "32 word \<Rightarrow> int \<Rightarrow> int \<Rightarrow> unit erun" where
  "evtag_marshal_timeval tag tv_sec tv_usec =
     bnd (lift (encode_int_internal (word_of_int tv_sec :: 32 word))) (\<lambda>d1.
     bnd (lift (encode_int_internal (word_of_int tv_usec :: 32 word))) (\<lambda>d2.
     evtag_marshal tag (d1 @ d2)))"

definition evtag_peek_length :: "32 word option erun" where
  "evtag_peek_length =
     bnd (decode_tag_internal False) (\<lambda>r.
     case r of None \<Rightarrow> ret None | Some (len, _) \<Rightarrow>
     bnd (decode_int_internal 8 len) (\<lambda>r.
     case r of None \<Rightarrow> ret None | Some (res, plength) \<Rightarrow>
     ret (Some (plength + word_of_nat (res + len)))))"

definition evtag_payload_length :: "32 word option erun" where
  "evtag_payload_length =
     bnd (decode_tag_internal False) (\<lambda>r.
     case r of None \<Rightarrow> ret None | Some (len, _) \<Rightarrow>
     bnd (decode_int_internal 8 len) (\<lambda>r.
     case r of None \<Rightarrow> ret None | Some (res, plength) \<Rightarrow> ret (Some plength)))"

text \<open>
  The result is the length as a signed \<open>int\<close>, so that a length of 2^31 or more comes out negative, and
  the tag.
\<close>

definition evtag_unmarshal_header :: "(int \<times> 32 word option) erun" where
  "evtag_unmarshal_header =
     bnd (decode_tag_internal True) (\<lambda>r.
     case r of None \<Rightarrow> ret (- 1, None) | Some (_, tag) \<Rightarrow>
     bnd evtag_decode_int (\<lambda>r.
     case r of None \<Rightarrow> ret (- 1, Some tag) | Some len \<Rightarrow>
     bnd bytes_get_length (\<lambda>total.
     if total < unat len then ret (- 1, Some tag) else ret (sint len, Some tag))))"

text \<open>A negative length given to \<open>bytes_drain\<close> is a huge \<open>size_t\<close>.\<close>

definition drain_int :: "int \<Rightarrow> unit erun" where
  "drain_int n = bytes_drain (nat (n mod 2 ^ 64))"

definition evtag_consume :: "int erun" where
  "evtag_consume = bnd evtag_unmarshal_header (\<lambda>(len, _).
     if len = - 1 then ret (- 1) else bnd (drain_int len) (\<lambda>_. ret 0))"

text \<open>
  The payload goes to \<open>dst\<close>; \<open>bytes_pullup\<close> with a negative size means everything, with size zero it is
  \<open>NULL\<close>, of which zero bytes are added.
\<close>

definition evtag_unmarshal :: "ebuf \<Rightarrow> (int \<times> 32 word option \<times> ebuf) erun" where
  "evtag_unmarshal dst =
     bnd evtag_unmarshal_header (\<lambda>(len, tag).
     if len = - 1 then ret (- 1, tag, dst)
     else
       bnd (if len < 0 then stop OutOfBounds
            else bnd (bytes_pullup (nat len)) (\<lambda>p. ret (case p of None \<Rightarrow> [] | Some d \<Rightarrow> d))) (\<lambda>d.
       bnd (drain_int len) (\<lambda>_. ret (len, tag, dst @ d))))"

definition evtag_unmarshal_number :: "(nat \<times> 'a::len word) option erun \<Rightarrow> 32 word \<Rightarrow> (int \<times> 'a word option) erun" where
  "evtag_unmarshal_number decode need_tag =
     bnd (decode_tag_internal True) (\<lambda>r.
     case r of None \<Rightarrow> ret (- 1, None) | Some (_, tag) \<Rightarrow>
     if need_tag \<noteq> tag then ret (- 1, None)
     else
       bnd evtag_decode_int (\<lambda>r.
       case r of None \<Rightarrow> ret (- 1, None) | Some len \<Rightarrow>
       bnd bytes_get_length (\<lambda>total.
       if total < unat len then ret (- 1, None)
       else
         bnd decode (\<lambda>result.
         bnd (bytes_drain (unat len)) (\<lambda>_.
         case result of None \<Rightarrow> ret (- 1, None) | Some (k, number) \<Rightarrow>
         ret (if k > unat len then - 1 else int k, Some number))))))"

definition evtag_unmarshal_int :: "32 word \<Rightarrow> (int \<times> 32 word option) erun" where
  "evtag_unmarshal_int = evtag_unmarshal_number (decode_int_internal 8 0)"

definition evtag_unmarshal_int64 :: "32 word \<Rightarrow> (int \<times> 64 word option) erun" where
  "evtag_unmarshal_int64 = evtag_unmarshal_number (decode_int_internal 16 0)"

definition evtag_unmarshal_fixed :: "32 word \<Rightarrow> nat \<Rightarrow> (int \<times> u8 list) erun" where
  "evtag_unmarshal_fixed need_tag len =
     bnd evtag_unmarshal_header (\<lambda>(tag_len, tag).
     if tag_len < 0 \<or> tag \<noteq> Some need_tag then ret (- 1, [])
     else if nat (tag_len mod 2 ^ 64) \<noteq> len then ret (- 1, [])
     else bnd (bytes_remove len) (\<lambda>d. ret (0, d)))"

text \<open>
  The string that was allocated, without its terminating zero. \<open>tag_len + 1\<close> for a negative length, or
  the largest one, is a size that cannot be allocated.
\<close>

definition evtag_unmarshal_string :: "32 word \<Rightarrow> (int \<times> u8 list option) erun" where
  "evtag_unmarshal_string need_tag =
     bnd evtag_unmarshal_header (\<lambda>(tag_len, tag).
     if tag_len = - 1 \<or> tag \<noteq> Some need_tag then ret (- 1, None)
     else if tag_len < 0 \<or> tag_len = int INT_MAX then ret (- 1, None)
     else bnd (bytes_remove (nat tag_len)) (\<lambda>d. ret (0, Some d)))"

definition evtag_unmarshal_timeval :: "32 word \<Rightarrow> (int \<times> (32 word \<times> 32 word) option) erun" where
  "evtag_unmarshal_timeval need_tag =
     bnd evtag_unmarshal_header (\<lambda>(len, tag).
     if len = - 1 then ret (- 1, None)
     else
       bnd (if tag \<noteq> Some need_tag then ret (- 1, None)
            else bnd (decode_int_internal 8 0) (\<lambda>r.
              case r of None \<Rightarrow> ret (- 1, None) | Some (offset, sec) \<Rightarrow>
              bnd (decode_int_internal 8 offset) (\<lambda>r.
              case r of None \<Rightarrow> ret (- 1, None) | Some (offset2, usec) \<Rightarrow>
              ret (if int (offset + offset2) > len then - 1 else 0, Some (sec, usec))))) (\<lambda>result.
       bnd (drain_int len) (\<lambda>_. ret result)))"

end
