(* ===== verification/Tagging_Codec.thy ===== *)
theory Tagging_Codec
  imports Event_Tagging
begin

unbundle bit_operations_syntax

text \<open>
  The codes of \<^verbatim>\<open>libevent/event_tagging.c\<close> can be decoded: the bytes of an integer are an array of
  nibbles, and both loops are described by what they do to single bits. A code whose decoder takes an
  encoded value off the front of any buffer is prefix-free; this and the composition of codes are
  proved in the locale \<open>codec\<close>.
\<close>

section \<open>Nibbles\<close>

definition nib :: "u8 list \<Rightarrow> nat \<Rightarrow> u8" where
  "nib d k = (if odd k then d ! (k div 2) AND 0x0f else drop_bit 4 (d ! (k div 2)))"

lemma masks: "(0x0f :: 'a::len word) = mask 4" "(0xf0 :: u8) = push_bit 4 (mask 4)" "(0x7f :: 'a::len word) = mask 7"
  by (simp_all add: mask_eq_exp_minus_1)

lemma nibble_words:
  fixes x :: u8 and n :: "'a::len word"
  shows "((x AND 0xf0) OR ucast (n AND 0x0f)) AND 0x0f = ucast n AND 0x0f"
    "drop_bit 4 ((x AND 0xf0) OR ucast (n AND 0x0f)) = drop_bit 4 x"
    "((x AND 0x0f) OR push_bit 4 (ucast (n AND 0x0f))) AND 0x0f = x AND 0x0f"
    "drop_bit 4 ((x AND 0x0f) OR push_bit 4 (ucast (n AND 0x0f))) = ucast n AND 0x0f"
    "drop_bit 4 (x AND 0xf0) = drop_bit 4 x"
  unfolding masks by (rule bit_word_eqI; auto simp: bit_simps dest: bit_imp_le_length; fail)+

lemma high_nibble: "drop_bit 4 (x :: u8) AND 0x0f = drop_bit 4 x"
  unfolding masks by (rule bit_word_eqI) (auto simp: bit_simps dest: bit_imp_le_length)

lemma put_nibble_run:
  assumes "off div 2 < length d"
  shows "\<exists>d'. put_nibble d off n = Inr d' \<and> length d' = length d
    \<and> (\<forall>k. k div 2 < length d \<longrightarrow> nib d' k = (if k = off then ucast n AND 0x0f else nib d k))"
proof -
  let ?x = "d ! (off div 2)"
  let ?y = "if odd off then (?x AND 0xf0) OR ucast (n AND 0x0f) else (?x AND 0x0f) OR push_bit 4 (ucast (n AND 0x0f))"
  have "put_nibble d off n = Inr (d[off div 2 := ?y])" using assms by (simp add: put_nibble_def in_array_def)
  moreover have "nib (d[off div 2 := ?y]) k = (if k = off then ucast n AND 0x0f else nib d k)" if "k div 2 < length d" for k
  proof (cases "k div 2 = off div 2")
    case True
    then have "k = off \<or> odd k \<noteq> odd off" by (metis odd_two_times_div_two_succ even_two_times_div_two)
    then show ?thesis using True assms nibble_words by (auto simp: nib_def)
  next
    case False
    then have "k \<noteq> off" by auto
    then show ?thesis using False by (simp add: nib_def)
  qed
  ultimately show ?thesis by simp
qed

lemma encode_loop_run:
  assumes "drop_bit (4 * m) (n :: 'a::len word) = 0" "off + m \<le> 2 * length d"
  shows "\<exists>K d'. encode_loop off n d = Inr (off + K, d') \<and> K \<le> m \<and> drop_bit (4 * K) n = 0 \<and> length d' = length d
    \<and> (\<forall>k. k div 2 < length d \<longrightarrow> nib d' k = (if off \<le> k \<and> k < off + K then ucast (drop_bit (4 * (k - off)) n) AND 0x0f else nib d k))"
  using assms
proof (induction m arbitrary: off n d)
  case 0
  then show ?case by (subst encode_loop.simps) (auto intro!: exI [of _ 0])
next
  case (Suc m)
  show ?case
  proof (cases "n = 0")
    case True
    then show ?thesis by (subst encode_loop.simps) (auto intro!: exI [of _ 0])
  next
    case False
    have "off div 2 < length d" using Suc.prems(2) by auto
    then obtain d1 where d1: "put_nibble d off n = Inr d1" "length d1 = length d"
        "\<And>k. k div 2 < length d \<Longrightarrow> nib d1 k = (if k = off then ucast n AND 0x0f else nib d k)"
      using put_nibble_run by blast
    have "drop_bit (4 * m) (drop_bit 4 n) = 0" using Suc.prems(1) by (simp add: add.commute)
    then obtain K d' where K: "encode_loop (Suc off) (drop_bit 4 n) d1 = Inr (Suc off + K, d')" "K \<le> m"
        "drop_bit (4 * K) (drop_bit 4 n) = 0" "length d' = length d1"
        "\<And>k. k div 2 < length d1 \<Longrightarrow> nib d' k = (if Suc off \<le> k \<and> k < Suc off + K then ucast (drop_bit (4 * (k - Suc off)) (drop_bit 4 n)) AND 0x0f else nib d1 k)"
      using Suc.IH [of "drop_bit 4 n" "Suc off" d1] Suc.prems(2) d1(2) by auto
    have "nib d' k = (if off \<le> k \<and> k < off + Suc K then ucast (drop_bit (4 * (k - off)) n) AND 0x0f else nib d k)"
      if k: "k div 2 < length d" for k
    proof -
      have "4 * (k - Suc off) + 4 = 4 * (k - off)" if "Suc off \<le> k" using that by simp
      then show ?thesis using K(5) [of k] d1(2,3) k by (auto simp: le_Suc_eq)
    qed
    moreover have "encode_loop off n d = Inr (off + Suc K, d')"
      using False d1(1) K(1) by (subst encode_loop.simps) simp
    moreover have "drop_bit (4 * Suc K) n = 0" using K(3) by (simp add: add.commute)
    ultimately show ?thesis using K(2,4) d1(2) by (intro exI [of _ "Suc K"] exI [of _ d']) simp
  qed
qed

text \<open>The shape of an encoded integer.\<close>

definition int_shape :: "'a::len word \<Rightarrow> nat \<Rightarrow> u8 list \<Rightarrow> bool" where
  "int_shape n K bs \<longleftrightarrow> 0 < K \<and> K \<le> 16 \<and> 4 * K \<le> LENGTH('a) \<and> drop_bit (4 * K) n = 0 \<and> length bs = K div 2 + 1
     \<and> unat (drop_bit 4 (bs ! 0)) + 1 = K
     \<and> (\<forall>k. 0 < k \<and> k \<le> K \<longrightarrow> nib bs k = ucast (drop_bit (4 * (k - 1)) n) AND 0x0f)"

lemma nib_take: "k div 2 < n \<Longrightarrow> nib (take n d) k = nib d k"
  by (simp add: nib_def)

lemma length_byte_nibble: "n < 16 \<Longrightarrow> unat (drop_bit 4 ((x AND 0x0f) OR push_bit 4 (word_of_nat n AND 0x0f)) :: u8) = n"
proof -
  assume n: "n < 16"
  have "drop_bit 4 ((x AND 0x0f) OR push_bit 4 (word_of_nat n AND 0x0f)) = (word_of_nat n AND 0x0f :: u8)"
    using nibble_words(4) [of x "word_of_nat n :: u8"] by simp
  also have "\<dots> = word_of_nat n"
  proof -
    have "take_bit 4 (word_of_nat n :: u8) = word_of_nat (take_bit 4 n)" by (simp add: take_bit_of_nat)
    moreover have "take_bit 4 n = n" using n by (simp add: take_bit_nat_eq_self)
    ultimately show ?thesis unfolding masks take_bit_eq_mask [symmetric] by simp
  qed
  finally show ?thesis using n by (simp add: unsigned_of_nat take_bit_nat_eq_self)
qed

lemma encode_int_shape:
  fixes n :: "'a::len word"
  assumes L: "LENGTH('a) = 32 \<or> LENGTH('a) = 64"
  shows "\<exists>bs K. encode_int_internal n = Inr bs \<and> int_shape n K bs"
proof -
  let ?L = "LENGTH('a)" and ?d = "replicate (LENGTH('a) div 8 + 1) (0 :: u8)"
  have l: "4 * (?L div 4) = ?L" "?L div 4 \<le> 16" "1 + ?L div 4 \<le> 2 * length ?d" "8 \<le> ?L div 4" using L by auto
  have "drop_bit (4 * (?L div 4)) n = 0" unfolding l(1) by (rule bit_word_eqI) (auto simp: bit_simps dest: bit_imp_le_length)
  then obtain K d where K: "encode_loop 1 n ?d = Inr (1 + K, d)" "K \<le> ?L div 4" "drop_bit (4 * K) n = 0" "length d = length ?d"
      "\<And>k. k div 2 < length ?d \<Longrightarrow> nib d k = (if 1 \<le> k \<and> k < 1 + K then ucast (drop_bit (4 * (k - 1)) n) AND 0x0f else nib ?d k)"
    using encode_loop_run [of "?L div 4" n 1 ?d] l(3) by blast
  let ?K = "if K = 0 then 1 else K" and ?nb = "if 1 + K > 2 then 1 + K - 2 else 0"
  let ?x = "(d ! 0 AND 0x0f) OR push_bit 4 (word_of_nat ?nb AND 0x0f)"
  let ?d' = "d[0 := ?x]"
  let ?bs = "take ((1 + K + 1) div 2) ?d'"
  have enc: "encode_int_internal n = Inr ?bs"
  proof -
    have "d \<noteq> []" using K(4) by auto
    then show ?thesis using K(1) by (simp add: encode_int_internal_def Let_def in_array_def)
  qed
  have nb: "?nb < 16" "?nb + 1 = ?K" using K(2) l(2) by auto
  have lb: "length ?bs = ?K div 2 + 1" using K(2,4) L by auto
  have x0: "?bs ! 0 = ?x" using K(4) by simp
  have "nib ?bs k = ucast (drop_bit (4 * (k - 1)) n) AND 0x0f" if k: "0 < k" "k \<le> ?K" for k
  proof -
    have "k div 2 \<le> K div 2" using k by (cases "K = 0") (auto intro: div_le_mono)
    then have kl: "k div 2 < (1 + K + 1) div 2" "k div 2 < length ?d" using K(2) L by auto
    have "nib ?d' k = nib d k"
    proof (cases "k div 2 = 0")
      case True
      then have k1: "k = 1" using k(1) by auto
      have "?x AND 0x0f = d ! 0 AND 0x0f" using nibble_words(3) [of "d ! 0" "word_of_nat ?nb :: u8"] by simp
      then show ?thesis using K(4) k1 by (simp add: nib_def)
    qed (simp add: nib_def)
    moreover have "nib ?bs k = nib ?d' k" using nib_take [OF kl(1)] .
    moreover have "ucast (drop_bit (4 * (k - 1)) n) AND 0x0f = (0 :: u8)" if "\<not> k < 1 + K"
      using that k K(3) by (cases "K = 0") auto
    moreover have "?d ! (k div 2) = 0" using kl(2) by (simp only: length_replicate nth_replicate)
    then have "nib ?d k = 0" unfolding nib_def by (simp only: and_zero_eq zero_and_eq drop_bit_of_0 if_cancel)
    ultimately show ?thesis using K(5) [OF kl(2)] k(1) by auto
  qed
  moreover have "drop_bit (4 * ?K) n = 0" using K(3) by auto
  moreover have "unat (drop_bit 4 (?bs ! 0)) + 1 = ?K" using length_byte_nibble [OF nb(1), of "d ! 0"] nb(2) x0 by simp
  ultimately have "int_shape n ?K ?bs" unfolding int_shape_def using lb K(2) l L by auto
  then show ?thesis using enc by blast
qed

lemma decode_loop_bits:
  assumes "k div 2 < length d"
  shows "\<exists>r. decode_loop k d (n :: 'a::len word) = Inr r
    \<and> (\<forall>i<LENGTH('a). bit r i \<longleftrightarrow> (if i < 4 * k then bit (nib d (i div 4 + 1)) (i mod 4) else bit n (i - 4 * k)))"
  using assms
proof (induction k arbitrary: n)
  case (Suc k)
  let ?n = "push_bit 4 n OR ucast (nib d (Suc k)) :: 'a word"
  have "k div 2 < length d" using Suc.prems div_le_mono [of k "Suc k" 2] by linarith
  then obtain r where r: "decode_loop k d ?n = Inr r"
      "\<And>i. i < LENGTH('a) \<Longrightarrow> bit r i \<longleftrightarrow> (if i < 4 * k then bit (nib d (i div 4 + 1)) (i mod 4) else bit ?n (i - 4 * k))"
    using Suc.IH [of ?n] by blast
  have "decode_loop (Suc k) d n = Inr r"
    using Suc.prems r(1) by (simp add: in_array_def nib_def high_nibble split: if_splits)
  moreover have "bit r i \<longleftrightarrow> (if i < 4 * Suc k then bit (nib d (i div 4 + 1)) (i mod 4) else bit n (i - 4 * Suc k))"
    if i: "i < LENGTH('a)" for i
  proof (cases "i < 4 * k")
    case False
    let ?j = "i - 4 * k"
    have nb: "\<not> bit (nib d (Suc k)) j" if "4 \<le> j" for j
      using that by (auto simp: nib_def masks bit_simps dest: bit_imp_le_length)
    have b: "bit r i \<longleftrightarrow> 4 \<le> ?j \<and> bit n (?j - 4) \<or> bit (nib d (Suc k)) ?j"
      using r(2) [OF i] False i by (auto simp: bit_simps dest: bit_imp_le_length)
    show ?thesis
    proof (cases "?j < 4")
      case True
      have "i = ?j + 4 * k" using False by simp
      then have "i div 4 = k" "i mod 4 = ?j" using True by (metis add.commute div_less div_mult_self2 mod_less mod_mult_self2 add_0_right zero_neq_numeral)+
      then show ?thesis using b True False by auto
    next
      case ge: False
      then show ?thesis using b nb [of ?j] by (auto simp: diff_diff_eq add.commute)
    qed
  qed (use r(2) [OF i] in auto)
  ultimately show ?case by blast
qed simp

lemma decode_int_shape:
  fixes n :: "'a::len word"
  assumes S: "int_shape n K bs" and m: "K \<le> maxnibbles"
  shows "decode_int_internal maxnibbles (length pre) (pre @ bs @ rest) = Inr (Some (length bs, n), pre @ bs @ rest)"
proof -
  have s: "0 < K" "4 * K \<le> LENGTH('a)" "drop_bit (4 * K) n = 0" "length bs = K div 2 + 1" "unat (drop_bit 4 (bs ! 0)) + 1 = K"
      "\<And>k. 0 < k \<Longrightarrow> k \<le> K \<Longrightarrow> nib bs k = ucast (drop_bit (4 * (k - 1)) n) AND 0x0f"
    using S by (auto simp: int_shape_def)
  have "K div 2 < length bs" using s(4) by simp
  then obtain r :: "'a word" where r: "decode_loop K bs (0 :: 'a word) = Inr r"
      "\<And>i. i < LENGTH('a) \<Longrightarrow> bit r i \<longleftrightarrow> (if i < 4 * K then bit (nib bs (i div 4 + 1)) (i mod 4) else bit (0 :: 'a word) (i - 4 * K))"
    using decode_loop_bits [of K bs "0 :: 'a word"] by blast
  have "r = n"
  proof (rule bit_word_eqI)
    fix i assume i: "i < LENGTH('a)"
    show "bit r i = bit n i"
    proof (cases "i < 4 * K")
      case True
      then have "nib bs (i div 4 + 1) = ucast (drop_bit (4 * (i div 4)) n) AND 0x0f" using s(6) [of "i div 4 + 1"] by auto
      moreover have "4 * (i div 4) + i mod 4 = i" "i mod 4 < 4" by simp_all
      ultimately show ?thesis using r(2) [OF i] True i by (auto simp: bit_simps masks)
    next
      case False
      then have "\<not> bit (drop_bit (4 * K) n) (i - 4 * K)" using s(3) by simp
      then show ?thesis using r(2) [OF i] False by (simp add: bit_simps)
    qed
  qed
  moreover define b where "b = pre @ bs @ rest"
  have l: "length b = length pre + length bs + length rest" "drop (length pre) (take (length pre + k) b) = take k (bs @ rest)" for k
    by (simp_all add: b_def)
  have "lift (in_array (drop (length pre) (take (length pre + 1) b)) 0 (\<lambda>x. Inr (unat (drop_bit 4 (x AND 0xf0)) + 1))) b = Inr (K, b)"
    unfolding l(2) using s(4,5) by (cases bs) (simp_all add: lift_def in_array_def high_nibble)
  moreover have "bytes_pullup (length pre + 1) b = Inr (Some (take (length pre + 1) b), b)"
    "bytes_pullup (length pre + (K div 2 + 1)) b = Inr (Some (take (length pre + length bs) b), b)"
    using s(4) l(1) by (simp_all add: bytes_pullup_def)
  moreover have "lift (decode_loop K (drop (length pre) (take (length pre + length bs) b)) 0) b = Inr (r, b)"
    unfolding l(2) using r(1) by (simp add: lift_def)
  ultimately show ?thesis
    using l(1) s(4) m unfolding b_def [symmetric] decode_int_internal_def
    by (simp add: bnd_Inr bytes_get_length_def del: take_append drop_append)
qed

section \<open>Tags\<close>

lemma encode_tag_length:
  assumes "drop_bit (7 * Suc m) (t :: 32 word) = 0"
  shows "length (encode_tag_loop t) \<le> Suc m"
  using assms
proof (induction m arbitrary: t)
  case 0
  then show ?case by (subst encode_tag_loop.simps) (simp add: Let_def)
next
  case (Suc m)
  have "drop_bit (7 * Suc m) (drop_bit 7 t) = 0" using Suc.prems by (simp add: add.commute)
  then show ?case using Suc.IH [of "drop_bit 7 t"] by (subst encode_tag_loop.simps) (simp add: Let_def)
qed

lemma encode_tag_length_5: "length (encode_tag_loop t) \<le> 5"
proof -
  have "drop_bit (7 * Suc 4) t = 0" by (rule bit_word_eqI) (auto simp: bit_simps dest: bit_imp_le_length)
  from encode_tag_length [OF this] show ?thesis by simp
qed

lemma encode_tag_nonempty: "encode_tag_loop t \<noteq> []"
  by (subst encode_tag_loop.simps) (simp add: Let_def)

lemma tag_words:
  fixes t :: "32 word"
  shows "(ucast (t AND 0x7f) OR 0x80 :: u8) AND 0x7f = ucast t AND 0x7f" "(ucast (t AND 0x7f) :: u8) AND 0x7f = ucast t AND 0x7f"
    "(ucast (t AND 0x7f) OR 0x80 :: u8) AND 0x80 \<noteq> 0" "(ucast (t AND 0x7f) :: u8) AND 0x80 = 0"
    "push_bit c (ucast (ucast t AND 0x7f :: u8)) OR push_bit (c + 7) (drop_bit 7 t) = push_bit c t"
    "drop_bit 7 t = 0 \<Longrightarrow> ucast (ucast t AND 0x7f :: u8) = t"
proof -
  define c80 :: u8 where "c80 = 0x80"
  have h: "bit c80 n \<longleftrightarrow> n = 7" for n using bit_exp_iff [of 7 n, where 'a = u8] by (auto simp: c80_def)
  show "(ucast (t AND 0x7f) OR 0x80 :: u8) AND 0x7f = ucast t AND 0x7f" "(ucast (t AND 0x7f) :: u8) AND 0x7f = ucast t AND 0x7f"
    unfolding masks c80_def [symmetric] by (rule bit_word_eqI, auto simp: bit_simps h)+
  show "(ucast (t AND 0x7f) :: u8) AND 0x80 = 0"
    unfolding masks c80_def [symmetric] by (rule bit_word_eqI) (auto simp: bit_simps h)
  show "push_bit c (ucast (ucast t AND 0x7f :: u8)) OR push_bit (c + 7) (drop_bit 7 t) = push_bit c t"
  proof (rule bit_word_eqI)
    fix n assume "n < LENGTH(32)"
    moreover have "7 + (n - (c + 7)) = n - c" if "\<not> n - c < 7" using that by simp
    ultimately show "bit (push_bit c (ucast (ucast t AND 0x7f :: u8)) OR push_bit (c + 7) (drop_bit 7 t)) n = bit (push_bit c t) n"
      unfolding masks by (cases "n - c < 7") (auto simp: bit_simps)
  qed
  have "bit ((ucast (t AND 0x7f) OR 0x80 :: u8) AND 0x80) 7"
    unfolding masks c80_def [symmetric] by (simp add: bit_simps h)
  then show "(ucast (t AND 0x7f) OR 0x80 :: u8) AND 0x80 \<noteq> 0" by (intro notI) (simp only: bit_0_eq bot_apply bot_bool_def)
  assume z: "drop_bit 7 t = 0"
  have "\<not> bit (drop_bit 7 t) i" for i using z by simp
  then have "\<not> bit t (7 + i)" for i by (simp add: bit_drop_bit_eq)
  then have "bit t i \<Longrightarrow> i < 7" for i by (metis le_add_diff_inverse leI)
  then have "bit t i \<Longrightarrow> i < 7 \<and> i < 8" for i by force
  then show "ucast (ucast t AND 0x7f :: u8) = t" unfolding masks
    by (intro bit_word_eqI) (auto simp: bit_simps dest: bit_imp_le_length)
qed

lemma decode_tag_loop_run:
  assumes "length pre + length (encode_tag_loop t) \<le> len"
  shows "decode_tag_loop (pre @ encode_tag_loop t @ rest) len (length pre) num
    = Inr (Some (length pre + length (encode_tag_loop t), num OR push_bit (7 * length pre) t))"
  using assms
proof (induction t arbitrary: pre num rule: encode_tag_loop.induct)
  case (1 t)
  let ?lo = "ucast (t AND 0x7f) :: u8"
  show ?case
  proof (cases "drop_bit 7 t = 0")
    case True
    then have e: "encode_tag_loop t = [?lo]" by (subst encode_tag_loop.simps) (simp add: Let_def)
    show ?thesis using "1.prems" unfolding e
      by (subst decode_tag_loop.simps) (simp add: in_array_def Let_def tag_words(2,4) tag_words(6) [OF True] nth_append)
  next
    case False
    then have e: "encode_tag_loop t = (?lo OR 0x80) # encode_tag_loop (drop_bit 7 t)"
      by (subst encode_tag_loop.simps) (simp add: Let_def)
    let ?pre = "pre @ [?lo OR 0x80]"
    let ?num = "num OR push_bit (7 * length pre) (ucast (ucast t AND 0x7f :: u8))"
    have "decode_tag_loop (pre @ encode_tag_loop t @ rest) len (length pre) num
        = decode_tag_loop (?pre @ encode_tag_loop (drop_bit 7 t) @ rest) len (length ?pre) ?num"
      using "1.prems" unfolding e
      by (subst decode_tag_loop.simps) (simp add: in_array_def Let_def tag_words(1,3) nth_append)
    also have "\<dots> = Inr (Some (length ?pre + length (encode_tag_loop (drop_bit 7 t)), ?num OR push_bit (7 * length ?pre) (drop_bit 7 t)))"
      using "1.IH" [OF refl refl False, of ?pre ?num] "1.prems" unfolding e by simp
    also have "?num OR push_bit (7 * length ?pre) (drop_bit 7 t) = num OR push_bit (7 * length pre) t"
      using tag_words(5) [of "7 * length pre" t] by (simp add: or.assoc add.commute)
    finally show ?thesis unfolding e by simp
  qed
qed

lemma decode_tag_run:
  "decode_tag_internal drain (encode_tag_loop t @ rest)
     = Inr (Some (length (encode_tag_loop t), t), if drain then rest else encode_tag_loop t @ rest)"
proof -
  define e b n where "e = encode_tag_loop t" and "b = e @ rest" and "n = (if length b < 5 then length b else 5)"
  have n: "length e \<le> n" "n \<le> length b" "0 < n"
    using encode_tag_length_5 [of t] encode_tag_nonempty [of t] by (auto simp: e_def b_def n_def)
  have "take n b = e @ take (n - length e) rest" using n(1) by (simp add: b_def)
  then have "lift (decode_tag_loop (take n b) (length b) 0 0) b = Inr (Some (length e, t), b)"
    using decode_tag_loop_run [of "[]" t "length b" "take (n - length e) rest" 0] by (simp add: lift_def e_def b_def)
  moreover have "bytes_pullup n b = Inr (Some (take n b), b)" using n by (auto simp: bytes_pullup_def)
  moreover have "length e \<le> INT_MAX" using encode_tag_length_5 [of t] by (simp add: INT_MAX_def e_def)
  moreover have "drop (length e) b = rest" by (simp add: b_def)
  ultimately show ?thesis
    unfolding decode_tag_internal_def e_def [symmetric] b_def [symmetric]
    by (simp add: bnd_Inr bytes_get_length_def bytes_drain_def flip: n_def)
qed

section \<open>Codes\<close>

text \<open>
  An encoder and a decoder that takes an encoded value off the front of a buffer, whatever follows.
\<close>

locale codec =
  fixes enc :: "'v \<Rightarrow> u8 list" and dec :: "'v option erun"
  assumes dec_enc: "dec (enc x @ rest) = Inr (Some x, rest)"
begin

lemma prefix_free: "enc x @ r = enc y @ r' \<Longrightarrow> x = y \<and> r = r'"
  by (metis dec_enc option.inject prod.inject sum.inject(2))

lemma enc_inj: "enc x = enc y \<Longrightarrow> x = y"
  using prefix_free [of x "[]" y "[]"] by simp

lemma decode_many:
  "fold (\<lambda>_ acc. bnd acc (\<lambda>xs. bnd dec (\<lambda>r. ret (case r of Some x \<Rightarrow> xs @ [x] | None \<Rightarrow> xs)))) [0..<length vs] (ret us)
     (concat (map enc vs) @ rest) = Inr (us @ vs, rest)"
proof (induction vs arbitrary: rest rule: rev_induct)
  case (snoc v vs)
  then show ?case using dec_enc by (simp add: bnd_def)
qed simp

end

definition int_code :: "'a::len word \<Rightarrow> u8 list" where
  "int_code n = (case encode_int_internal n of Inr bs \<Rightarrow> bs | Inl e \<Rightarrow> [])"

lemma int_code_shape:
  fixes n :: "'a::len word"
  assumes "LENGTH('a) = 32 \<or> LENGTH('a) = 64"
  shows "encode_int_internal n = Inr (int_code n)" "\<exists>K. int_shape n K (int_code n)"
  using encode_int_shape [OF assms, of n] by (auto simp: int_code_def)

lemma decode_int_at:
  "decode_int_internal 8 (length pre) (pre @ int_code (n :: 32 word) @ rest) = Inr (Some (length (int_code n), n), pre @ int_code n @ rest)"
  "decode_int_internal 16 (length pre) (pre @ int_code (k :: 64 word) @ rest) = Inr (Some (length (int_code k), k), pre @ int_code k @ rest)"
proof -
  obtain K where K: "int_shape n K (int_code n)" using int_code_shape(2) [of n] by auto
  then have "K \<le> 8" by (simp add: int_shape_def)
  then show "decode_int_internal 8 (length pre) (pre @ int_code n @ rest) = Inr (Some (length (int_code n), n), pre @ int_code n @ rest)"
    by (rule decode_int_shape [OF K])
  obtain J where J: "int_shape k J (int_code k)" using int_code_shape(2) [of k] by auto
  then have "J \<le> 16" by (simp add: int_shape_def)
  then show "decode_int_internal 16 (length pre) (pre @ int_code k @ rest) = Inr (Some (length (int_code k), k), pre @ int_code k @ rest)"
    by (rule decode_int_shape [OF J])
qed

lemma int_code_length: "0 < length (int_code (n :: 32 word))" "length (int_code n) \<le> 5" "0 < length (int_code (k :: 64 word))" "length (int_code k) \<le> 9"
proof -
  obtain K where "int_shape n K (int_code n)" using int_code_shape(2) [of n] by auto
  then show "0 < length (int_code n)" "length (int_code n) \<le> 5" by (auto simp: int_shape_def)
  obtain J where "int_shape k J (int_code k)" using int_code_shape(2) [of k] by auto
  then show "0 < length (int_code k)" "length (int_code k) \<le> 9" by (auto simp: int_shape_def)
qed

interpretation int32: codec int_code evtag_decode_int
  by unfold_locales (use decode_int_at(1) [of "[]"] in \<open>simp add: evtag_decode_int_def bnd_Inr bytes_drain_def\<close>)

interpretation int64: codec int_code evtag_decode_int64
  by unfold_locales (use decode_int_at(2) [of "[]"] in \<open>simp add: evtag_decode_int64_def bnd_Inr bytes_drain_def\<close>)

interpretation tags: codec encode_tag_loop "bnd evtag_decode_tag (\<lambda>r. ret (map_option snd r))"
  by unfold_locales (simp add: evtag_decode_tag_def decode_tag_run bnd_Inr)

section \<open>Marshalling\<close>

lemma encoders:
  "evtag_encode_int n b = Inr ((), b @ int_code n)" "evtag_encode_int64 k b = Inr ((), b @ int_code k)"
  "evtag_encode_tag t b = Inr (length (encode_tag_loop t), b @ encode_tag_loop t)"
  using int_code_shape(1) [of n] int_code_shape(1) [of k] encode_tag_length_5 [of t]
  by (simp_all add: evtag_encode_int_def evtag_encode_int64_def evtag_encode_tag_def Let_def bnd_Inr lift_def bytes_add_def)

lemma evtag_marshal_run:
  "evtag_marshal tag d b = Inr ((), b @ encode_tag_loop tag @ int_code (word_of_nat (length d) :: 32 word) @ d)"
  by (simp add: evtag_marshal_def bnd_Inr encoders bytes_add_def)

lemma unmarshal_header_run:
  assumes "unat len \<le> length d"
  shows "evtag_unmarshal_header (encode_tag_loop tag @ int_code (len :: 32 word) @ d) = Inr ((sint len, Some tag), d)"
  using assms by (simp add: evtag_unmarshal_header_def bnd_Inr decode_tag_run int32.dec_enc bytes_get_length_def)

lemma sint_of_len: "n < 2 ^ 31 \<Longrightarrow> sint (word_of_nat n :: 32 word) = int n" "n < 2 ^ 31 \<Longrightarrow> unat (word_of_nat n :: 32 word) = n"
proof -
  assume n: "n < 2 ^ 31"
  then show u: "unat (word_of_nat n :: 32 word) = n" by (simp add: unsigned_of_nat take_bit_nat_eq_self)
  show "sint (word_of_nat n :: 32 word) = int n" using n by (subst signed_of_nat) (simp add: signed_take_bit_int_eq_self)
qed

end
