(* ===== verification/Tagging_Properties.thy ===== *)
theory Tagging_Properties
  imports Tagging_Codec
begin

unbundle bit_operations_syntax

text \<open>The properties of the tagged wire format.\<close>

text \<open>
  C18. Integers of both widths are read back: whatever follows them in the buffer, the decoder returns
  the number that was encoded and leaves exactly what follows.
\<close>

theorem int_round_trip:
  "bnd (evtag_encode_int n) (\<lambda>_. bnd (bytes_add rest) (\<lambda>_. evtag_decode_int)) [] = Inr (Some n, rest)
   \<and> bnd (evtag_encode_int64 k) (\<lambda>_. bnd (bytes_add rest) (\<lambda>_. evtag_decode_int64)) [] = Inr (Some k, rest)"
  by (simp add: bnd_Inr encoders bytes_add_def int32.dec_enc int64.dec_enc)

text \<open>
  No encoded integer is the beginning of another, so that a sequence of integers has only one
  reading.
\<close>

theorem int_prefix_free:
  assumes "evtag_encode_int n [] = Inr ((), c)" "evtag_encode_int k [] = Inr ((), d)" "c @ r = d @ r'"
  shows "n = k \<and> r = r'"
proof -
  have "int_code n @ r = int_code k @ r'" using assms by (simp add: encoders)
  then show ?thesis by (rule int32.prefix_free)
qed

theorem int_prefix_free_witness:
  "\<exists>c. evtag_encode_int 300 [] = Inr ((), c) \<and> (300 :: 32 word) = 300 \<and> [7 :: u8] = [7]"
proof -
  obtain c where c: "evtag_encode_int 300 [] = Inr ((), c)" by (simp add: encoders)
  from int_prefix_free [OF c c, of "[7]" "[7]"] show ?thesis using c by simp
qed

text \<open>
  C19. Marshalled data is unmarshalled with its tag and length and appended to the target buffer; what
  follows it stays in the source buffer.
\<close>

theorem marshal_round_trip:
  assumes "length d < 2 ^ 31"
  shows "bnd (evtag_marshal tag d) (\<lambda>_. bnd (bytes_add rest) (\<lambda>_. evtag_unmarshal dst)) [] = Inr ((int (length d), Some tag, dst @ d), rest)"
proof -
  let ?n = "word_of_nat (length d) :: 32 word"
  have s: "sint ?n = int (length d)" "unat ?n = length d" using sint_of_len [OF assms] .
  have h: "evtag_unmarshal_header (encode_tag_loop tag @ int_code ?n @ d @ rest) = Inr ((int (length d), Some tag), d @ rest)"
    using unmarshal_header_run [of ?n "d @ rest" tag] s by simp
  have "int (length d) mod 2 ^ 64 = int (length d)" using assms by simp
  then have dr: "drain_int (int (length d)) (d @ rest) = Inr ((), rest)" by (simp add: drain_int_def bytes_drain_def)
  show ?thesis
    using h dr by (simp add: bnd_Inr evtag_marshal_run bytes_add_def evtag_unmarshal_def bytes_pullup_def)
qed

theorem marshal_round_trip_witness:
  "bnd (evtag_marshal 0x166 [1, 2, 3]) (\<lambda>_. bnd (bytes_add [9]) (\<lambda>_. evtag_unmarshal [])) [] = Inr ((3, Some 0x166, [1, 2, 3]), [9])"
  using marshal_round_trip [of "[1, 2, 3]" "0x166" "[9]" "[]"] by simp

lemma decode_int_front:
  "decode_int_internal 8 0 (int_code (n :: 32 word) @ rest) = Inr (Some (length (int_code n), n), int_code n @ rest)"
  "decode_int_internal 16 0 (int_code (k :: 64 word) @ rest) = Inr (Some (length (int_code k), k), int_code k @ rest)"
  using decode_int_at [of "[]"] by simp_all

lemma unmarshal_number_run:
  assumes "decode (c @ rest) = Inr (Some (length c, n), c @ rest)" "length c \<le> 10"
  shows "evtag_unmarshal_number decode tag (encode_tag_loop tag @ int_code (word_of_nat (length c) :: 32 word) @ c @ rest)
    = Inr ((int (length c), Some n), rest)"
  using assms sint_of_len(2) [of "length c"]
  by (simp add: evtag_unmarshal_number_def bnd_Inr decode_tag_run int32.dec_enc bytes_get_length_def bytes_drain_def)

text \<open>
  The typed marshalling functions are read back by their counterparts: 32-bit and 64-bit integers
  and time values, under the tag they were written with.
\<close>

theorem typed_round_trip:
  "(\<exists>len. bnd (evtag_marshal_int tag n) (\<lambda>_. bnd (bytes_add rest) (\<lambda>_. evtag_unmarshal_int tag)) [] = Inr ((len, Some n), rest) \<and> 0 \<le> len)
   \<and> (\<exists>len. bnd (evtag_marshal_int64 tag k) (\<lambda>_. bnd (bytes_add rest) (\<lambda>_. evtag_unmarshal_int64 tag)) [] = Inr ((len, Some k), rest) \<and> 0 \<le> len)
   \<and> bnd (evtag_marshal_timeval tag sec usec) (\<lambda>_. bnd (bytes_add rest) (\<lambda>_. evtag_unmarshal_timeval tag)) []
       = Inr ((0, Some (word_of_int sec, word_of_int usec)), rest)"
proof (intro conjI)
  have l: "length (int_code n) \<le> 10" "length (int_code k) \<le> 10" using int_code_length(2) [of n] int_code_length(4) [of k] by simp_all
  have m: "evtag_marshal_int tag n [] = Inr ((), encode_tag_loop tag @ int_code (word_of_nat (length (int_code n)) :: 32 word) @ int_code n)"
    "evtag_marshal_int64 tag k [] = Inr ((), encode_tag_loop tag @ int_code (word_of_nat (length (int_code k)) :: 32 word) @ int_code k)"
    using int_code_shape(1) [of n] int_code_shape(1) [of k]
    by (simp_all add: evtag_marshal_int_def evtag_marshal_int64_def bnd_Inr lift_def encoders bytes_add_def)
  show "\<exists>len. bnd (evtag_marshal_int tag n) (\<lambda>_. bnd (bytes_add rest) (\<lambda>_. evtag_unmarshal_int tag)) [] = Inr ((len, Some n), rest) \<and> 0 \<le> len"
    using m(1) unmarshal_number_run [of "decode_int_internal 8 0", OF decode_int_front(1) [of n rest] l(1)] by (simp add: bnd_Inr bytes_add_def evtag_unmarshal_int_def)
  show "\<exists>len. bnd (evtag_marshal_int64 tag k) (\<lambda>_. bnd (bytes_add rest) (\<lambda>_. evtag_unmarshal_int64 tag)) [] = Inr ((len, Some k), rest) \<and> 0 \<le> len"
    using m(2) unmarshal_number_run [of "decode_int_internal 16 0", OF decode_int_front(2) [of k rest] l(2)] by (simp add: bnd_Inr bytes_add_def evtag_unmarshal_int64_def)
next
  let ?s = "word_of_int sec :: 32 word" and ?u = "word_of_int usec :: 32 word"
  let ?d = "int_code ?s @ int_code ?u" and ?n = "word_of_nat (length (int_code ?s @ int_code ?u)) :: 32 word"
  have l: "length ?d \<le> 10" using int_code_length(2) [of ?s] int_code_length(2) [of ?u] by simp
  then have n: "unat ?n = length ?d" "sint ?n = int (length ?d)" using sint_of_len [of "length ?d"] by simp_all
  have m: "evtag_marshal_timeval tag sec usec [] = Inr ((), encode_tag_loop tag @ int_code ?n @ ?d)"
    using int_code_shape(1) [of ?s] int_code_shape(1) [of ?u] by (simp add: evtag_marshal_timeval_def bnd_Inr lift_def evtag_marshal_run)
  have h: "evtag_unmarshal_header (encode_tag_loop tag @ int_code ?n @ ?d @ rest) = Inr ((int (length ?d), Some tag), ?d @ rest)"
    using unmarshal_header_run [of ?n "?d @ rest" tag] n by simp
  have i: "decode_int_internal 8 0 (?d @ rest) = Inr (Some (length (int_code ?s), ?s), ?d @ rest)"
    "decode_int_internal 8 (length (int_code ?s)) (?d @ rest) = Inr (Some (length (int_code ?u), ?u), ?d @ rest)"
    using decode_int_front(1) [of ?s "int_code ?u @ rest"] decode_int_at(1) [of "int_code ?s" ?u rest] by simp_all
  have "int (length ?d) mod 2 ^ 64 = int (length ?d)" using l by simp
  then have dr: "drain_int (int (length ?d)) (?d @ rest) = Inr ((), rest)" by (simp add: drain_int_def bytes_drain_def)
  show "bnd (evtag_marshal_timeval tag sec usec) (\<lambda>_. bnd (bytes_add rest) (\<lambda>_. evtag_unmarshal_timeval tag)) []
       = Inr ((0, Some (?s, ?u)), rest)"
    using m h i dr l by (simp add: bnd_Inr bytes_add_def evtag_unmarshal_timeval_def)
qed

text \<open>
  Peeking at the length of a tagged item gives the number of bytes it occupies, and consuming it
  drains exactly these.
\<close>

theorem peek_then_consume:
  assumes "length d < 2 ^ 31" "evtag_marshal tag d [] = Inr ((), item)"
  shows "evtag_peek_length (item @ rest) = Inr (Some (word_of_nat (length item)), item @ rest) \<and> evtag_consume (item @ rest) = Inr (0, rest)"
proof
  let ?n = "word_of_nat (length d) :: 32 word" and ?t = "encode_tag_loop tag"
  have item: "item = ?t @ int_code ?n @ d" using assms(2) by (simp add: evtag_marshal_run)
  have s: "sint ?n = int (length d)" "unat ?n = length d" using sint_of_len [OF assms(1)] .
  show "evtag_peek_length (item @ rest) = Inr (Some (word_of_nat (length item)), item @ rest)"
    using decode_int_at(1) [of ?t ?n "d @ rest"] unfolding item
    by (simp add: evtag_peek_length_def bnd_Inr decode_tag_run algebra_simps)
  have h: "evtag_unmarshal_header (item @ rest) = Inr ((int (length d), Some tag), d @ rest)"
    using unmarshal_header_run [of ?n "d @ rest" tag] s unfolding item by simp
  have "int (length d) mod 2 ^ 64 = int (length d)" using assms(1) by simp
  then show "evtag_consume (item @ rest) = Inr (0, rest)"
    using h by (simp add: evtag_consume_def bnd_Inr drain_int_def bytes_drain_def)
qed

theorem peek_then_consume_witness:
  "\<exists>item. evtag_marshal 1 [5] [] = Inr ((), item) \<and> evtag_consume (item @ [8]) = Inr (0, [8])"
proof -
  obtain item where "evtag_marshal 1 [5] [] = Inr ((), item)" by (simp add: evtag_marshal_run)
  then show ?thesis using peek_then_consume [of "[5]" 1 item "[8]"] by auto
qed

text \<open>
  A tag of five bytes with the continuation bit set, followed by more data, makes the decoder read
  behind the five bytes that it made contiguous: the loop is bounded by the length of the whole buffer.
\<close>

theorem decode_tag_overreads:
  assumes "5 < length b" "\<forall>i<5. b ! i AND 0x80 \<noteq> 0"
  shows "evtag_decode_tag b = Inl OutOfBounds"
proof -
  have "decode_tag_loop (take 5 b) (length b) c num = Inl OutOfBounds" if "c \<le> 5" for c num
    using that
  proof (induction "5 - c" arbitrary: c num)
    case 0
    then show ?case using assms(1) by (subst decode_tag_loop.simps) (simp add: in_array_def)
  next
    case (Suc k)
    then have c: "c < 5" by simp
    have "decode_tag_loop (take 5 b) (length b) (c + 1) x = Inl OutOfBounds" for x using Suc c by simp
    then show ?case using c assms by (subst decode_tag_loop.simps) (simp add: in_array_def Let_def)
  qed
  then have "decode_tag_loop (take 5 b) (length b) 0 0 = Inl OutOfBounds" by simp
  then show ?thesis
    using assms(1) by (simp add: evtag_decode_tag_def decode_tag_internal_def bnd_def bytes_get_length_def bytes_pullup_def lift_def)
qed

theorem decode_tag_overreads_witness:
  "evtag_decode_tag [0xff, 0x80, 0x81, 0xff, 0x90, 0] = Inl OutOfBounds"
proof (rule decode_tag_overreads)
  show "\<forall>i<5. [0xff, 0x80, 0x81, 0xff, 0x90, 0 :: u8] ! i AND 0x80 \<noteq> 0" by code_simp
qed simp

end
