(* ===== verification/Evutil_Ascii.thy ===== *)
theory Evutil_Ascii
  imports C_Strings
begin

unbundle bit_operations_syntax

text \<open>
  The locale-independent character functions of \<^verbatim>\<open>libevent/evutil.c\<close>: the bit tables behind
  \<^verbatim>\<open>EVUTIL_ISALPHA\<close> and its siblings, the case tables, and the string comparisons built on
  them. A C string is the list of its characters in front of the terminator; reading at its end
  gives the terminator. The lemmas reduce every table to the character class it stands for.
\<close>

section \<open>Character tables\<close>

definition EVUTIL_ISALPHA_TABLE :: "32 word list" where
  "EVUTIL_ISALPHA_TABLE = [0, 0, 0x7fffffe, 0x7fffffe, 0, 0, 0, 0]"

definition EVUTIL_ISALNUM_TABLE :: "32 word list" where
  "EVUTIL_ISALNUM_TABLE = [0, 0x3ff0000, 0x7fffffe, 0x7fffffe, 0, 0, 0, 0]"

definition EVUTIL_ISSPACE_TABLE :: "32 word list" where
  "EVUTIL_ISSPACE_TABLE = [0x3e00, 0x1, 0, 0, 0, 0, 0, 0]"

definition EVUTIL_ISXDIGIT_TABLE :: "32 word list" where
  "EVUTIL_ISXDIGIT_TABLE = [0, 0x3ff0000, 0x7e, 0x7e, 0, 0, 0, 0]"

definition EVUTIL_ISDIGIT_TABLE :: "32 word list" where
  "EVUTIL_ISDIGIT_TABLE = [0, 0x3ff0000, 0, 0, 0, 0, 0, 0]"

definition EVUTIL_ISPRINT_TABLE :: "32 word list" where
  "EVUTIL_ISPRINT_TABLE = [0, 0xffffffff, 0xffffffff, 0x7fffffff, 0, 0, 0, 0x0]"

definition EVUTIL_ISUPPER_TABLE :: "32 word list" where
  "EVUTIL_ISUPPER_TABLE = [0, 0, 0x7fffffe, 0, 0, 0, 0, 0]"

definition EVUTIL_ISLOWER_TABLE :: "32 word list" where
  "EVUTIL_ISLOWER_TABLE = [0, 0, 0, 0x7fffffe, 0, 0, 0, 0]"

definition EVUTIL_TOUPPER_TABLE :: "nat list" where
  "EVUTIL_TOUPPER_TABLE = concat
   [[0, 1, 2, 3, 4, 5, 6, 7, 8, 9, 10, 11, 12, 13, 14, 15],
    [16, 17, 18, 19, 20, 21, 22, 23, 24, 25, 26, 27, 28, 29, 30, 31],
    [32, 33, 34, 35, 36, 37, 38, 39, 40, 41, 42, 43, 44, 45, 46, 47],
    [48, 49, 50, 51, 52, 53, 54, 55, 56, 57, 58, 59, 60, 61, 62, 63],
    [64, 65, 66, 67, 68, 69, 70, 71, 72, 73, 74, 75, 76, 77, 78, 79],
    [80, 81, 82, 83, 84, 85, 86, 87, 88, 89, 90, 91, 92, 93, 94, 95],
    [96, 65, 66, 67, 68, 69, 70, 71, 72, 73, 74, 75, 76, 77, 78, 79],
    [80, 81, 82, 83, 84, 85, 86, 87, 88, 89, 90, 123, 124, 125, 126, 127],
    [128, 129, 130, 131, 132, 133, 134, 135, 136, 137, 138, 139, 140, 141, 142, 143],
    [144, 145, 146, 147, 148, 149, 150, 151, 152, 153, 154, 155, 156, 157, 158, 159],
    [160, 161, 162, 163, 164, 165, 166, 167, 168, 169, 170, 171, 172, 173, 174, 175],
    [176, 177, 178, 179, 180, 181, 182, 183, 184, 185, 186, 187, 188, 189, 190, 191],
    [192, 193, 194, 195, 196, 197, 198, 199, 200, 201, 202, 203, 204, 205, 206, 207],
    [208, 209, 210, 211, 212, 213, 214, 215, 216, 217, 218, 219, 220, 221, 222, 223],
    [224, 225, 226, 227, 228, 229, 230, 231, 232, 233, 234, 235, 236, 237, 238, 239],
    [240, 241, 242, 243, 244, 245, 246, 247, 248, 249, 250, 251, 252, 253, 254, 255]]"

definition EVUTIL_TOLOWER_TABLE :: "nat list" where
  "EVUTIL_TOLOWER_TABLE = concat
   [[0, 1, 2, 3, 4, 5, 6, 7, 8, 9, 10, 11, 12, 13, 14, 15],
    [16, 17, 18, 19, 20, 21, 22, 23, 24, 25, 26, 27, 28, 29, 30, 31],
    [32, 33, 34, 35, 36, 37, 38, 39, 40, 41, 42, 43, 44, 45, 46, 47],
    [48, 49, 50, 51, 52, 53, 54, 55, 56, 57, 58, 59, 60, 61, 62, 63],
    [64, 97, 98, 99, 100, 101, 102, 103, 104, 105, 106, 107, 108, 109, 110, 111],
    [112, 113, 114, 115, 116, 117, 118, 119, 120, 121, 122, 91, 92, 93, 94, 95],
    [96, 97, 98, 99, 100, 101, 102, 103, 104, 105, 106, 107, 108, 109, 110, 111],
    [112, 113, 114, 115, 116, 117, 118, 119, 120, 121, 122, 123, 124, 125, 126, 127],
    [128, 129, 130, 131, 132, 133, 134, 135, 136, 137, 138, 139, 140, 141, 142, 143],
    [144, 145, 146, 147, 148, 149, 150, 151, 152, 153, 154, 155, 156, 157, 158, 159],
    [160, 161, 162, 163, 164, 165, 166, 167, 168, 169, 170, 171, 172, 173, 174, 175],
    [176, 177, 178, 179, 180, 181, 182, 183, 184, 185, 186, 187, 188, 189, 190, 191],
    [192, 193, 194, 195, 196, 197, 198, 199, 200, 201, 202, 203, 204, 205, 206, 207],
    [208, 209, 210, 211, 212, 213, 214, 215, 216, 217, 218, 219, 220, 221, 222, 223],
    [224, 225, 226, 227, 228, 229, 230, 231, 232, 233, 234, 235, 236, 237, 238, 239],
    [240, 241, 242, 243, 244, 245, 246, 247, 248, 249, 250, 251, 252, 253, 254, 255]]"

text \<open>The macro \<^verbatim>\<open>IMPL_CTYPE_FN\<close>: bit \<open>u & 31\<close> of word \<open>(u >> 5) & 7\<close>.\<close>

definition ctype_fn :: "32 word list \<Rightarrow> byte \<Rightarrow> bool" where
  "ctype_fn table c =
     (let u = of_char c :: 8 word in
      table ! unat (drop_bit 5 u AND 7) AND push_bit (unat (u AND 31)) 1 \<noteq> 0)"

definition EVUTIL_ISALPHA :: "byte \<Rightarrow> bool" where "EVUTIL_ISALPHA = ctype_fn EVUTIL_ISALPHA_TABLE"
definition EVUTIL_ISALNUM :: "byte \<Rightarrow> bool" where "EVUTIL_ISALNUM = ctype_fn EVUTIL_ISALNUM_TABLE"
definition EVUTIL_ISSPACE :: "byte \<Rightarrow> bool" where "EVUTIL_ISSPACE = ctype_fn EVUTIL_ISSPACE_TABLE"
definition EVUTIL_ISDIGIT :: "byte \<Rightarrow> bool" where "EVUTIL_ISDIGIT = ctype_fn EVUTIL_ISDIGIT_TABLE"
definition EVUTIL_ISXDIGIT :: "byte \<Rightarrow> bool" where "EVUTIL_ISXDIGIT = ctype_fn EVUTIL_ISXDIGIT_TABLE"
definition EVUTIL_ISPRINT :: "byte \<Rightarrow> bool" where "EVUTIL_ISPRINT = ctype_fn EVUTIL_ISPRINT_TABLE"
definition EVUTIL_ISLOWER :: "byte \<Rightarrow> bool" where "EVUTIL_ISLOWER = ctype_fn EVUTIL_ISLOWER_TABLE"
definition EVUTIL_ISUPPER :: "byte \<Rightarrow> bool" where "EVUTIL_ISUPPER = ctype_fn EVUTIL_ISUPPER_TABLE"

definition EVUTIL_TOLOWER :: "byte \<Rightarrow> byte" where
  "EVUTIL_TOLOWER c = char_of (EVUTIL_TOLOWER_TABLE ! of_char c)"

definition EVUTIL_TOUPPER :: "byte \<Rightarrow> byte" where
  "EVUTIL_TOUPPER c = char_of (EVUTIL_TOUPPER_TABLE ! of_char c)"

section \<open>What the tables stand for\<close>

lemma of_char_less [simp]: "of_char (c :: char) < (256 :: nat)"
  using of_char_mod_256 [of c, where ?'a = nat] by (metis mod_less_divisor zero_less_numeral)

lemma char_of_of_char [simp]: "char_of (of_char c :: nat) = (c :: char)"
  by simp

lemma ctype_fn_bit:
  "ctype_fn table c \<longleftrightarrow> (let n = of_char c :: nat in bit (table ! (n div 32)) (n mod 32))"
proof -
  let ?n = "of_char c :: nat" and ?u = "of_char c :: 8 word"
  have u: "?u = word_of_nat ?n" by (simp add: of_char_def)
  have n: "unat ?u = ?n" unfolding u by (simp add: unat_of_nat)
  have w31: "?u AND 31 = take_bit 5 ?u" and w7: "drop_bit 5 ?u AND 7 = take_bit 3 (drop_bit 5 ?u)"
    by (simp_all add: take_bit_eq_mask mask_numeral)
  have k: "unat (?u AND 31) = ?n mod 32"
    unfolding w31 unsigned_take_bit_eq n by (simp add: take_bit_eq_mod)
  have q: "unat (drop_bit 5 ?u AND 7) = ?n div 32"
    unfolding w7 unsigned_take_bit_eq unat_drop_bit_eq n by (simp add: take_bit_eq_mod drop_bit_eq_div div_less_iff_less_mult)
  show ?thesis unfolding ctype_fn_def Let_def k q by (simp add: bit_iff_and_push_bit_not_eq_0)
qed

text \<open>A row of a table: the bits from \<open>a\<close> on, \<open>l\<close> of them.\<close>

definition row :: "nat \<Rightarrow> nat \<Rightarrow> 32 word" where
  "row a l = push_bit a (mask l)"

lemma bit_row [simp]: "bit (row a l) k \<longleftrightarrow> a \<le> k \<and> k < a + l \<and> k < 32"
  by (auto simp: row_def bit_push_bit_iff bit_mask_iff)

lemma rows:
  "0x7fffffe = row 1 26" "0x3ff0000 = row 16 10" "0x7e = row 1 6" "0x3e00 = row 9 5"
  "0xffffffff = row 0 32" "0x7fffffff = row 0 31"
  by (simp_all add: row_def mask_eq_exp_minus_1)

lemmas table_defs = EVUTIL_ISALPHA_TABLE_def EVUTIL_ISALNUM_TABLE_def EVUTIL_ISSPACE_TABLE_def
  EVUTIL_ISXDIGIT_TABLE_def EVUTIL_ISDIGIT_TABLE_def EVUTIL_ISPRINT_TABLE_def EVUTIL_ISUPPER_TABLE_def
  EVUTIL_ISLOWER_TABLE_def EVUTIL_ISALPHA_def EVUTIL_ISALNUM_def EVUTIL_ISSPACE_def EVUTIL_ISDIGIT_def
  EVUTIL_ISXDIGIT_def EVUTIL_ISPRINT_def EVUTIL_ISLOWER_def EVUTIL_ISUPPER_def

lemma char_cases:
  assumes "\<And>q k. (of_char c :: nat) = 32 * q + k \<Longrightarrow> k < 32 \<Longrightarrow> q \<in> {0, 1, 2, 3, 4, 5, 6, 7} \<Longrightarrow> P q k"
  shows "P (of_char c div 32) (of_char c mod 32)"
proof -
  let ?q = "(of_char c :: nat) div 32"
  have "?q < 8" by (simp add: div_less_iff_less_mult)
  then have "?q \<in> {0, 1, 2, 3, 4, 5, 6, 7}" by simp linarith
  then show ?thesis by (intro assms) simp_all
qed

lemma ctype_class:
  assumes "\<And>q k. (of_char c :: nat) = 32 * q + k \<Longrightarrow> k < 32 \<Longrightarrow> q \<in> {0, 1, 2, 3, 4, 5, 6, 7} \<Longrightarrow> bit (t ! q) k = Q"
  shows "ctype_fn t c = Q"
  unfolding ctype_fn_bit Let_def by (rule char_cases) (rule assms)

lemma isdigit_table [simp]: "EVUTIL_ISDIGIT c \<longleftrightarrow> isdigit c"
  unfolding table_defs rows by (rule ctype_class) (auto simp: isdigit_def Let_def)

lemma isxdigit_table [simp]: "EVUTIL_ISXDIGIT c \<longleftrightarrow> isxdigit c"
  unfolding table_defs rows by (rule ctype_class) (auto simp: isxdigit_def Let_def)

lemma isspace_table [simp]: "EVUTIL_ISSPACE c \<longleftrightarrow> isspace c"
  unfolding table_defs rows by (rule ctype_class) (auto simp: isspace_def Let_def bit_1_iff)

lemma isprint_table [simp]: "EVUTIL_ISPRINT c \<longleftrightarrow> of_char c \<in> {32..126 :: nat}"
  unfolding table_defs rows by (rule ctype_class) (auto simp:  Let_def)

lemma isupper_table [simp]: "EVUTIL_ISUPPER c \<longleftrightarrow> of_char c \<in> {65..90 :: nat}"
  unfolding table_defs rows by (rule ctype_class) (auto simp:  Let_def)

lemma islower_table [simp]: "EVUTIL_ISLOWER c \<longleftrightarrow> of_char c \<in> {97..122 :: nat}"
  unfolding table_defs rows by (rule ctype_class) (auto simp:  Let_def)

lemma isalpha_table [simp]:
  "EVUTIL_ISALPHA c \<longleftrightarrow> of_char c \<in> {65..90 :: nat} \<or> of_char c \<in> {97..122 :: nat}"
  unfolding table_defs rows by (rule ctype_class) auto

lemma isalnum_table [simp]: "EVUTIL_ISALNUM c \<longleftrightarrow> EVUTIL_ISALPHA c \<or> isdigit c"
  unfolding isalpha_table unfolding table_defs rows by (rule ctype_class) (auto simp: isdigit_def Let_def)

lemma tolower_list: "EVUTIL_TOLOWER_TABLE = [0..<65] @ [97..<123] @ [91..<256]"
  unfolding EVUTIL_TOLOWER_TABLE_def by (simp add: upt_rec)

lemma toupper_list: "EVUTIL_TOUPPER_TABLE = [0..<97] @ [65..<91] @ [123..<256]"
  unfolding EVUTIL_TOUPPER_TABLE_def by (simp add: upt_rec)

lemma nth_moved_range:
  assumes "n < e" "a \<le> d" "d \<le> e" "b + d = f + a"
  shows "([0..<a] @ [b..<f] @ [d..<e]) ! n = (if a \<le> n \<and> n < d then n - a + b else n)"
  using assms by (auto simp: nth_append)

lemma tolower_char:
  "EVUTIL_TOLOWER c = (if EVUTIL_ISUPPER c then char_of (of_char c + 32 :: nat) else c)"
proof -
  have "EVUTIL_TOLOWER_TABLE ! of_char c
    = (if 65 \<le> (of_char c :: nat) \<and> (of_char c :: nat) < 91 then of_char c - 65 + 97 else of_char c)"
    unfolding tolower_list by (rule nth_moved_range) simp_all
  then show ?thesis unfolding EVUTIL_TOLOWER_def isupper_table by (simp add: less_Suc_eq_le [of _ 90, simplified])
qed

lemma toupper_char:
  "EVUTIL_TOUPPER c = (if EVUTIL_ISLOWER c then char_of (of_char c - 32 :: nat) else c)"
proof -
  have "EVUTIL_TOUPPER_TABLE ! of_char c
    = (if 97 \<le> (of_char c :: nat) \<and> (of_char c :: nat) < 123 then of_char c - 97 + 65 else of_char c)"
    unfolding toupper_list by (rule nth_moved_range) simp_all
  then show ?thesis unfolding EVUTIL_TOUPPER_def islower_table by (simp add: less_Suc_eq_le [of _ 122, simplified])
qed

lemma tolower_NUL [simp]: "EVUTIL_TOLOWER c = NUL \<longleftrightarrow> c = NUL"
proof -
  have "char_of (of_char c + 32 :: nat) \<noteq> NUL" if "EVUTIL_ISUPPER c"
    using that by (auto simp: char_of_eq_iff take_bit_eq_mod)
  then show ?thesis by (auto simp: tolower_char)
qed

section \<open>Comparing strings\<close>

text \<open>
  \<^verbatim>\<open>char\<close> is signed, so a character above 127 comes before the terminator. Neither loop reads
  behind the terminator of a string: the characters up to there were equal.
\<close>

definition char_at :: "byte list \<Rightarrow> nat \<Rightarrow> byte" where
  "char_at s i = (if i < length s then s ! i else NUL)"

definition schar :: "byte \<Rightarrow> int" where
  "schar c = (let n = of_char c in if n < 128 then n else n - 256)"

lemma schar_eq_iff [simp]: "schar c = schar d \<longleftrightarrow> c = d"
proof
  assume "schar c = schar d"
  moreover have "0 \<le> (of_char c :: int) \<and> (of_char c :: int) < 256" "0 \<le> (of_char d :: int) \<and> (of_char d :: int) < 256"
    by (simp_all add: of_nat_of_char [symmetric, where ?'a = int])
  ultimately have "(of_char c :: int) = of_char d"
    unfolding schar_def Let_def by presburger
  then show "c = d" by simp
qed simp

lemma tolower_end: "EVUTIL_TOLOWER (char_at s 0) \<noteq> NUL \<Longrightarrow> s \<noteq> []"
  by (auto simp: char_at_def)

function evutil_ascii_strcasecmp :: "byte list \<Rightarrow> byte list \<Rightarrow> int" where
  "evutil_ascii_strcasecmp s1 s2 =
     (let c1 = EVUTIL_TOLOWER (char_at s1 0); c2 = EVUTIL_TOLOWER (char_at s2 0) in
      if schar c1 < schar c2 then - 1
      else if schar c1 > schar c2 then 1
      else if c1 = NUL then 0
      else evutil_ascii_strcasecmp (tl s1) (tl s2))"
  by pat_completeness auto

termination
  by (relation "measure (\<lambda>(s1, s2). length s1)") (auto simp: char_at_def split: if_splits)

declare evutil_ascii_strcasecmp.simps [simp del]

fun evutil_ascii_strncasecmp :: "byte list \<Rightarrow> byte list \<Rightarrow> nat \<Rightarrow> int" where
  "evutil_ascii_strncasecmp s1 s2 0 = 0"
| "evutil_ascii_strncasecmp s1 s2 (Suc n) =
     (let c1 = EVUTIL_TOLOWER (char_at s1 0); c2 = EVUTIL_TOLOWER (char_at s2 0) in
      if schar c1 < schar c2 then - 1
      else if schar c1 > schar c2 then 1
      else if c1 = NUL then 0
      else evutil_ascii_strncasecmp (tl s1) (tl s2) n)"

text \<open>The cases of the \<^verbatim>\<open>switch\<close> of \<^verbatim>\<open>evutil_hex_char_to_int\<close>, in order.\<close>

definition hex_cases :: "(byte \<times> int) list" where
  "hex_cases = zip ''0123456789'' [0..9] @ zip ''AaBbCcDdEeFf'' [10, 10, 11, 11, 12, 12, 13, 13, 14, 14, 15, 15]"

definition evutil_hex_char_to_int :: "byte \<Rightarrow> int" where
  "evutil_hex_char_to_int c = (case map_of hex_cases c of Some v \<Rightarrow> v | None \<Rightarrow> - 1)"

end
