(* ===== verification/Evutil_Inet.thy ===== *)
theory Evutil_Inet
  imports Evutil_Ascii
begin

unbundle bit_operations_syntax

text \<open>
  Printing and parsing of network addresses in \<^verbatim>\<open>libevent/evutil.c\<close>. The file defines
  \<^verbatim>\<open>USE_INTERNAL_NTOP\<close> and \<^verbatim>\<open>USE_INTERNAL_PTON\<close>, so its own code is always used and never
  the one of the system. An IPv4 address is its 32-bit value in host order, an IPv6 address the
  list of its sixteen bytes. A C string is the list of its characters; suffixes of it stand for
  pointers into it.
\<close>

section \<open>Formatted input\<close>

text \<open>
  \<^verbatim>\<open>%d\<close> skips white space and takes an optional sign and digits. The C library reads the number
  as a \<^verbatim>\<open>long\<close> and keeps the low 32 bits of it.
\<close>

definition int_of_long :: "int \<Rightarrow> int" where
  "int_of_long v = signed_take_bit 31 v"

definition scan_d :: "byte list \<Rightarrow> (int \<times> byte list) option" where
  "scan_d s =
     (let (neg, r) = strtol_sign (dropWhile isspace s); ds = takeWhile isdigit r;
          v = int (digits_val ds)
      in if ds = [] then None
         else Some (int_of_long (fst (clamp_long (if neg then - v else v))), dropWhile isdigit r))"

definition scan_char :: "byte \<Rightarrow> byte list \<Rightarrow> byte list option" where
  "scan_char c s = (case s of [] \<Rightarrow> None | d # r \<Rightarrow> if d = c then Some r else None)"

text \<open>\<^verbatim>\<open>sscanf (s, "%d.%d.%d.%d%c", ...) == 4\<close>: four numbers and nothing behind them.\<close>

definition scan_quad :: "byte list \<Rightarrow> (int \<times> int \<times> int \<times> int) option" where
  "scan_quad s =
     Option.bind (scan_d s) (\<lambda>(a, s). Option.bind (scan_char CHR ''.'' s) (\<lambda>s.
     Option.bind (scan_d s) (\<lambda>(b, s). Option.bind (scan_char CHR ''.'' s) (\<lambda>s.
     Option.bind (scan_d s) (\<lambda>(c, s). Option.bind (scan_char CHR ''.'' s) (\<lambda>s.
     Option.bind (scan_d s) (\<lambda>(d, s). if s = [] then Some (a, b, c, d) else None)))))))"

text \<open>
  \<^verbatim>\<open>strtol (s, &next, 16)\<close> at a hexadecimal digit: the value and the rest. Base 16 allows a
  \<^verbatim>\<open>0x\<close> in front of the digits.
\<close>

definition strtol16 :: "byte list \<Rightarrow> int \<times> byte list" where
  "strtol16 s =
     (let r = (if char_at s 0 = CHR ''0'' \<and> char_at s 1 \<in> {CHR ''x'', CHR ''X''} \<and> isxdigit (char_at s 2)
               then drop 2 s else s)
      in (fst (clamp_long (int (hexs_val (takeWhile isxdigit r)))), dropWhile isxdigit r))"

section \<open>Printing\<close>

definition quad :: "nat \<Rightarrow> nat \<Rightarrow> nat \<Rightarrow> nat \<Rightarrow> byte list" where
  "quad a b c d = dec a @ CHR ''.'' # dec b @ CHR ''.'' # dec c @ CHR ''.'' # dec d"

text \<open>\<^verbatim>\<open>evutil_inet_ntop\<close> for \<^verbatim>\<open>AF_INET\<close>; \<^verbatim>\<open>None\<close> is \<^verbatim>\<open>NULL\<close>.\<close>

definition evutil_inet_ntop4 :: "32 word \<Rightarrow> nat \<Rightarrow> byte list option" where
  "evutil_inet_ntop4 a len =
     (let s = quad (unat (drop_bit 24 a AND 0xff)) (unat (drop_bit 16 a AND 0xff))
                   (unat (drop_bit 8 a AND 0xff)) (unat (a AND 0xff))
      in if length s \<ge> len then None else Some s)"

type_synonym addr6 = "8 word list"

definition words_of :: "addr6 \<Rightarrow> 16 word list" where
  "words_of a = map (\<lambda>i. push_bit 8 (ucast (a ! (2 * i))) + ucast (a ! (2 * i + 1))) [0..<8]"

text \<open>The search for the longest run of zero words: position and length of the best run so far.\<close>

function longest_gap :: "16 word list \<Rightarrow> nat \<Rightarrow> int \<Rightarrow> nat \<Rightarrow> int \<times> nat" where
  "longest_gap ws i longestGapPos longestGapLen =
     (if i < 8 then
        (if ws ! i = 0 then
           (let curGapLen = Suc (length (takeWhile (\<lambda>w. w = 0) (take (8 - Suc i) (drop (Suc i) ws)))) in
            if curGapLen > longestGapLen then longest_gap ws (i + curGapLen) (int i) curGapLen
            else longest_gap ws (i + curGapLen) longestGapPos longestGapLen)
         else longest_gap ws (i + 1) longestGapPos longestGapLen)
      else (longestGapPos, longestGapLen))"
  by pat_completeness auto

termination
  by (relation "measure (\<lambda>(ws, i, p, l). 8 - i)") auto

declare longest_gap.simps [simp del]

text \<open>The loop that writes the words; at the gap it skips every zero word.\<close>

function print_words :: "16 word list \<Rightarrow> int \<Rightarrow> nat \<Rightarrow> byte list" where
  "print_words ws longestGapPos i =
     (if i < 8 then
        (if ws ! i = 0 \<and> longestGapPos = int i then
           (if i = 0 then '':'' else []) @ '':'' @
           print_words ws longestGapPos (i + 1 + length (takeWhile (\<lambda>w. w = 0) (take (8 - Suc i) (drop (Suc i) ws))))
         else hex (unat (ws ! i)) @ (if i \<noteq> 7 then '':'' else []) @ print_words ws longestGapPos (i + 1))
      else [])"
  by pat_completeness auto

termination
  by (relation "measure (\<lambda>(ws, p, i). 8 - i)") auto

declare print_words.simps [simp del]

text \<open>
  \<^verbatim>\<open>strlen (buf) > len\<close> refuses, so a text of exactly \<open>len\<close> characters passes and \<^verbatim>\<open>strlcpy\<close>
  cuts its last one off to make room for the terminator.
\<close>

definition copied_out :: "byte list \<Rightarrow> nat \<Rightarrow> byte list option" where
  "copied_out buf len = (if length buf > len then None else Some (take (len - 1) buf))"

definition evutil_inet_ntop6 :: "addr6 \<Rightarrow> nat \<Rightarrow> byte list option" where
  "evutil_inet_ntop6 a len =
     (let ws = words_of a; q = quad (unat (a ! 12)) (unat (a ! 13)) (unat (a ! 14)) (unat (a ! 15)) in
      if ws ! 0 = 0 \<and> ws ! 1 = 0 \<and> ws ! 2 = 0 \<and> ws ! 3 = 0 \<and> ws ! 4 = 0 \<and>
         ((ws ! 5 = 0 \<and> ws ! 6 \<noteq> 0 \<and> ws ! 7 \<noteq> 0) \<or> ws ! 5 = 0xffff)
      then copied_out (if ws ! 5 = 0 then ''::'' @ q else ''::'' @ hex (unat (ws ! 5)) @ '':'' @ q) len
      else
        (let (longestGapPos, longestGapLen) = longest_gap ws 0 (- 1) 0 in
         copied_out (print_words ws (if longestGapLen \<le> 1 then - 1 else longestGapPos) 0) len))"

section \<open>Parsing\<close>

definition byte_range :: "int \<Rightarrow> bool" where
  "byte_range v \<longleftrightarrow> \<not> (v < 0 \<or> v > 255)"

definition evutil_inet_pton4 :: "byte list \<Rightarrow> 32 word option" where
  "evutil_inet_pton4 src = (case scan_quad src of
      None \<Rightarrow> None
    | Some (a, b, c, d) \<Rightarrow>
        if \<not> byte_range a then None else if \<not> byte_range b then None
        else if \<not> byte_range c then None else if \<not> byte_range d then None
        else Some (push_bit 24 (word_of_int a) OR push_bit 16 (word_of_int b)
                   OR push_bit 8 (word_of_int c) OR word_of_int d))"

text \<open>
  The words read so far. An element of \<^verbatim>\<open>words\<close> that was not written yet is \<open>None\<close>; reading
  one is a fault.
\<close>

record pton6 =
  words :: "16 word option list"
  pos :: nat
  gapPos :: int
  setWords :: nat

text \<open>
  One iteration of the loop over the words: \<open>src\<close> is the text from the current position on, \<open>n\<close>
  the distance to \<^verbatim>\<open>eow\<close>. \<open>None\<close> stands for \<^verbatim>\<open>return 0\<close>.
\<close>

definition pton6_step :: "byte list \<Rightarrow> nat \<Rightarrow> pton6 \<Rightarrow> (nat \<times> pton6) option" where
  "pton6_step src n st =
     (if pos st > 7 then None
      else if EVUTIL_ISXDIGIT (char_at src 0) then
        (let (r, nxt) = strtol16 src; k = length src - length nxt in
         if k > 4 then None else if k = 0 then None else if r < 0 \<or> r > 65536 then None
         else if char_at nxt 0 \<noteq> CHR '':'' \<and> k \<noteq> n then None
         else Some (k + 1, st\<lparr>words := (words st)[pos st := Some (word_of_int r)],
                              pos := pos st + 1, setWords := setWords st + 1\<rparr>))
      else if char_at src 0 = CHR '':'' \<and> pos st > 0 \<and> gapPos st = - 1 then
        Some (1, st\<lparr>gapPos := int (pos st)\<rparr>)
      else if char_at src 0 = CHR '':'' \<and> pos st = 0 \<and> char_at src 1 = CHR '':'' \<and> gapPos st = - 1 then
        Some (2, st\<lparr>gapPos := int (pos st)\<rparr>)
      else None)"

lemma pton6_step_moves: "pton6_step src n st = Some (k, st') \<Longrightarrow> 0 < k"
  by (auto simp: pton6_step_def Let_def split: if_splits prod.splits)

function pton6_loop :: "byte list \<Rightarrow> nat \<Rightarrow> pton6 \<Rightarrow> pton6 option" where
  "pton6_loop src n st =
     (if n = 0 then Some st
      else case pton6_step src n st of None \<Rightarrow> None
        | Some (k, st') \<Rightarrow> pton6_loop (drop k src) (n - k) st')"
  by pat_completeness auto

termination
  by (relation "measure (\<lambda>(src, n, st). n)") (auto dest: pton6_step_moves)

declare pton6_loop.simps [simp del]

text \<open>The result of \<^verbatim>\<open>evutil_inet_pton (AF_INET6, ...)\<close>: \<open>None\<close> if it returns 0 or -1.\<close>

definition all_set :: "16 word option list \<Rightarrow> fault + 16 word list" where
  "all_set ws = (if None \<in> set ws then Inl Uninit else Inr (map the ws))"

definition bytes_of :: "16 word list \<Rightarrow> addr6" where
  "bytes_of ws = concat (map (\<lambda>w. [ucast (drop_bit 8 w), ucast (w AND 0xff)]) ws)"

definition open_gap :: "bool \<Rightarrow> pton6 \<Rightarrow> 16 word option list option" where
  "open_gap dot st =
     (if gapPos st \<ge> 0 then
        (let g = nat (gapPos st);
             nToMove = int (setWords st) - (if dot then 2 else 0) - gapPos st;
             gapLen = 8 - setWords st
         in if nToMove < 0 then None
            else Some (overwrite (overwrite (words st) (g + gapLen) (take (nat nToMove) (drop g (words st))))
                                 g (replicate gapLen (Some 0))))
      else Some (words st))"

definition pton6_end :: "bool \<Rightarrow> pton6 \<Rightarrow> fault + addr6 option" where
  "pton6_end dot st =
     (if setWords st > 8 \<or> (setWords st = 8 \<and> gapPos st \<noteq> - 1) \<or> (setWords st < 8 \<and> gapPos st = - 1)
      then Inr None
      else case open_gap dot st of None \<Rightarrow> Inr None
        | Some ws \<Rightarrow> (case all_set ws of Inl e \<Rightarrow> Inl e | Inr ws \<Rightarrow> Inr (Some (bytes_of ws))))"

definition pton6_start :: pton6 where
  "pton6_start = \<lparr>words = replicate 8 None, pos = 0, gapPos = - 1, setWords = 0\<rparr>"

text \<open>The last two words, from a dotted quad.\<close>

definition pton6_quad :: "int \<times> int \<times> int \<times> int \<Rightarrow> pton6 option" where
  "pton6_quad q = (case q of (b1, b2, b3, b4) \<Rightarrow>
     if b1 > 255 \<or> b1 < 0 \<or> b2 > 255 \<or> b2 < 0 \<or> b3 > 255 \<or> b3 < 0 \<or> b4 > 255 \<or> b4 < 0 then None
     else Some (pton6_start\<lparr>words := (words pton6_start)
                  [6 := Some (push_bit 8 (word_of_int b1) OR word_of_int b2),
                   7 := Some (push_bit 8 (word_of_int b3) OR word_of_int b4)], setWords := 2\<rparr>))"

definition pton6_run :: "byte list \<Rightarrow> bool \<Rightarrow> nat \<Rightarrow> pton6 \<Rightarrow> fault + addr6 option" where
  "pton6_run src dot n st =
     (case pton6_loop src n st of None \<Rightarrow> Inr None | Some st' \<Rightarrow> pton6_end dot st')"

text \<open>\<open>eow\<close>: where the digits in front of the first dot begin.\<close>

definition end_of_words :: "byte list \<Rightarrow> nat" where
  "end_of_words src =
     (let front = takeWhile (\<lambda>c. c \<noteq> CHR ''.'') src
      in length front - length (takeWhile EVUTIL_ISDIGIT (rev front)))"

definition evutil_inet_pton6 :: "byte list \<Rightarrow> fault + addr6 option" where
  "evutil_inet_pton6 src =
     (if char_at src 0 = CHR ''.'' then Inr None
      else if CHR ''.'' \<notin> set src then pton6_run src False (length src) pton6_start
      else case Option.bind (scan_quad (drop (end_of_words src) src)) pton6_quad of
          None \<Rightarrow> Inr None
        | Some st \<Rightarrow> pton6_run src True (end_of_words src) st)"

section \<open>Socket addresses\<close>

text \<open>
  A socket address keeps the port in network order in C; the model keeps its value, and the order of
  the address bytes only matters to the comparison. Other families carry their number only.
\<close>

datatype sockaddr =
    Sin "32 word" "16 word"
  | Sin6 addr6 "16 word"
  | Other int

definition AF_INET :: int where "AF_INET = 2"
definition AF_INET6 :: int where "AF_INET6 = 10"

definition sizeof_sin :: int where "sizeof_sin = 16"
definition sizeof_sin6 :: int where "sizeof_sin6 = 28"

fun sa_family :: "sockaddr \<Rightarrow> int" where
  "sa_family (Sin a p) = AF_INET"
| "sa_family (Sin6 a p) = AF_INET6"
| "sa_family (Other f) = f"

text \<open>\<^verbatim>\<open>atoi\<close>: the value \<^verbatim>\<open>%d\<close> would read, 0 without digits.\<close>

definition atoi :: "byte list \<Rightarrow> int" where
  "atoi s = (case scan_d s of None \<Rightarrow> 0 | Some (v, _) \<Rightarrow> v)"

text \<open>
  Which text is the address and which the port: \<open>(is_ipv6, address, port)\<close>, \<open>None\<close> for a return
  of -1.
\<close>

definition split_sockaddr :: "byte list \<Rightarrow> (bool \<times> byte list \<times> byte list option) option" where
  "split_sockaddr s =
     (let front = takeWhile (\<lambda>c. c \<noteq> CHR '':'') s; back = drop (length front + 1) s in
      if char_at s 0 = CHR ''['' then
        (if CHR '']'' \<notin> set s then None
         else
           (let k = length (takeWhile (\<lambda>c. c \<noteq> CHR '']'') s); len = int k - 1 in
            if len > 127 then None
            else Some (True, take (k - 1) (drop 1 s),
                       if char_at s (k + 1) = CHR '':'' then Some (drop (k + 2) s) else None)))
      else if CHR '':'' \<in> set s \<and> CHR '':'' \<in> set back then Some (True, s, None)
      else if CHR '':'' \<in> set s then
        (if int (length front) > 127 then None else Some (False, front, Some back))
      else Some (False, s, None))"

definition evutil_parse_sockaddr_port :: "byte list \<Rightarrow> int \<Rightarrow> fault + (sockaddr \<times> int) option" where
  "evutil_parse_sockaddr_port ip_as_string outlen = (case split_sockaddr ip_as_string of
      None \<Rightarrow> Inr None
    | Some (is_ipv6, addr_part, port_part) \<Rightarrow>
        (let port = (case port_part of None \<Rightarrow> 0 | Some p \<Rightarrow> atoi p) in
         if port_part \<noteq> None \<and> (port \<le> 0 \<or> port > 65535) then Inr None
         else if is_ipv6 then
           (case evutil_inet_pton6 addr_part of Inl e \<Rightarrow> Inl e | Inr None \<Rightarrow> Inr None
            | Inr (Some a) \<Rightarrow>
                if sizeof_sin6 > outlen then Inr None
                else Inr (Some (Sin6 a (word_of_int port), sizeof_sin6)))
         else
           (case evutil_inet_pton4 addr_part of None \<Rightarrow> Inr None
            | Some a \<Rightarrow>
                if sizeof_sin > outlen then Inr None
                else Inr (Some (Sin a (word_of_int port), sizeof_sin)))))"

text \<open>\<^verbatim>\<open>snprintf (out, outlen, ...)\<close> keeps the first \<open>outlen - 1\<close> characters.\<close>

definition dec_int :: "int \<Rightarrow> byte list" where
  "dec_int v = (if v < 0 then CHR ''-'' # dec (nat (- v)) else dec (nat v))"

definition evutil_format_sockaddr_port :: "sockaddr \<Rightarrow> nat \<Rightarrow> byte list" where
  "evutil_format_sockaddr_port sa outlen = take (outlen - 1)
     (let other = ''<addr with socktype '' @ dec_int (sa_family sa) @ ''>'' in
      case sa of
        Sin a p \<Rightarrow> (case evutil_inet_ntop4 a 128 of None \<Rightarrow> other | Some b \<Rightarrow> b @ '':'' @ dec (unat p))
      | Sin6 a p \<Rightarrow> (case evutil_inet_ntop6 a 128 of None \<Rightarrow> other
                      | Some b \<Rightarrow> ''['' @ b @ '']:'' @ dec (unat p))
      | Other f \<Rightarrow> other)"

text \<open>
  The comparison looks at the fields as they lie in memory: on a little-endian machine the bytes of
  an IPv4 address and of a port are swapped. \<open>memcmp\<close> returns the sign of the first difference.
\<close>

definition swap32 :: "32 word \<Rightarrow> 32 word" where
  "swap32 a = push_bit 24 a OR push_bit 8 (a AND 0xff00) OR (drop_bit 8 a AND 0xff00) OR drop_bit 24 a"

definition swapped16 :: "16 word \<Rightarrow> 16 word" where
  "swapped16 p = push_bit 8 p OR drop_bit 8 p"

fun memcmp :: "8 word list \<Rightarrow> 8 word list \<Rightarrow> int" where
  "memcmp (x # xs) (y # ys) = (if x < y then - 1 else if x > y then 1 else memcmp xs ys)"
| "memcmp _ _ = 0"

definition evutil_sockaddr_cmp :: "sockaddr \<Rightarrow> sockaddr \<Rightarrow> bool \<Rightarrow> int" where
  "evutil_sockaddr_cmp sa1 sa2 include_port =
     (let r = sa_family sa1 - sa_family sa2 in
      if r \<noteq> 0 then r
      else case (sa1, sa2) of
        (Sin a1 p1, Sin a2 p2) \<Rightarrow>
          (let r = uint (swapped16 p1) - uint (swapped16 p2) in
           if swap32 a1 < swap32 a2 then - 1 else if swap32 a1 > swap32 a2 then 1
           else if include_port \<and> r \<noteq> 0 then r else 0)
      | (Sin6 a1 p1, Sin6 a2 p2) \<Rightarrow>
          (let r = memcmp a1 a2; q = uint (swapped16 p1) - uint (swapped16 p2) in
           if r \<noteq> 0 then r else if include_port \<and> q \<noteq> 0 then q else 0)
      | _ \<Rightarrow> 1)"

definition evutil_sockaddr_is_loopback :: "sockaddr \<Rightarrow> bool" where
  "evutil_sockaddr_is_loopback sa = (case sa of
      Sin a p \<Rightarrow> a AND 0xff000000 = 0x7f000000
    | Sin6 a p \<Rightarrow> memcmp a (replicate 15 0 @ [1]) = 0
    | Other f \<Rightarrow> False)"

end
