(* ===== verification/Inet_Facts.thy ===== *)
theory Inet_Facts
  imports Evutil_Inet
begin

unbundle bit_operations_syntax

text \<open>
  Facts on the address functions of \<^verbatim>\<open>libevent/evutil.c\<close>: the parser never reads a word it did
  not write, printed numbers, words and quads are read back, and so are whole addresses in each of
  the three forms the printer uses.
\<close>

section \<open>No unset word is read\<close>

definition pton6_inv :: "bool \<Rightarrow> pton6 \<Rightarrow> bool" where
  "pton6_inv dot st \<longleftrightarrow> length (words st) = 8 \<and> pos st \<le> 8 \<and> setWords st = pos st + (if dot then 2 else 0)
     \<and> (\<forall>i < pos st. words st ! i \<noteq> None) \<and> (dot \<longrightarrow> words st ! 6 \<noteq> None \<and> words st ! 7 \<noteq> None)
     \<and> (gapPos st = - 1 \<or> (0 \<le> gapPos st \<and> gapPos st \<le> int (pos st)))"

lemma pton6_step_inv:
  assumes "pton6_inv dot st" and "pton6_step src n st = Some (k, st')"
  shows "pton6_inv dot st'"
  using assms
  by (auto simp: pton6_inv_def pton6_step_def Let_def nth_list_update less_Suc_eq split: if_splits prod.splits)

lemma pton6_loop_inv:
  "pton6_inv dot st \<Longrightarrow> pton6_loop src n st = Some st' \<Longrightarrow> pton6_inv dot st'"
proof (induction src n st rule: pton6_loop.induct)
  case (1 src n st)
  then show ?case
    using pton6_step_inv [of dot st src n]
    by (subst (asm) pton6_loop.simps) (auto split: if_splits option.splits)
qed

lemma open_gap_set:
  assumes "pton6_inv dot st" and "setWords st \<le> 8" and "setWords st < 8 \<longrightarrow> gapPos st \<noteq> - 1"
    and "setWords st = 8 \<longrightarrow> gapPos st = - 1"
  obtains ws where "open_gap dot st = Some ws" "None \<notin> set ws"
proof (cases "gapPos st = - 1")
  case True
  then have "setWords st = 8" using assms(2,3) by linarith
  then have "None \<notin> set (words st)"
    using assms(1) by (auto simp: pton6_inv_def in_set_conv_nth less_Suc_eq eval_nat_numeral split: if_splits)
  then show thesis using that True by (simp add: open_gap_def)
next
  case False
  define g where "g = nat (gapPos st)"
  define l where "l = 8 - setWords st"
  define m where "m = pos st - g"
  have inv: "length (words st) = 8" "g \<le> pos st" "gapPos st = int g" "setWords st = pos st + (if dot then 2 else 0)"
    using assms(1) False by (auto simp: pton6_inv_def g_def)
  let ?ws = "overwrite (overwrite (words st) (g + l) (take m (drop g (words st)))) g (replicate l (Some 0))"
  have m: "int (setWords st) - (if dot then 2 else 0) - gapPos st = int m" "length (take m (drop g (words st))) = m"
    using inv assms(2) by (auto simp: m_def)
  have len: "g + l + m \<le> 8" using inv assms(2) by (auto simp: l_def m_def split: if_splits)
  have "?ws ! i \<noteq> None" if "i < 8" for i
  proof -
    consider "i < g" | "g \<le> i" "i < g + l" | "g + l \<le> i" "i < g + l + m" | "g + l + m \<le> i" by linarith
    then show ?thesis
    proof cases
      case 4
      then have "dot" "i = 6 \<or> i = 7"
        using that inv assms(2) by (auto simp: l_def m_def split: if_splits)
      then show ?thesis using 4 len m inv that assms(1) by (auto simp: overwrite_nth pton6_inv_def)
    qed (use len m inv that assms(1) in \<open>auto simp: overwrite_nth pton6_inv_def m_def\<close>)
  qed
  then have "None \<notin> set ?ws" using len m inv by (auto simp: in_set_conv_nth)
  moreover have "open_gap dot st = Some ?ws"
    using m inv False by (simp add: open_gap_def Let_def l_def)
  ultimately show thesis using that by blast
qed

lemma pton6_end_total:
  assumes "pton6_inv dot st"
  shows "\<exists>r. pton6_end dot st = Inr r"
proof (cases "setWords st > 8 \<or> (setWords st = 8 \<and> gapPos st \<noteq> - 1) \<or> (setWords st < 8 \<and> gapPos st = - 1)")
  case False
  then obtain ws where "open_gap dot st = Some ws" "None \<notin> set ws"
    using open_gap_set [OF assms] by (metis not_less)
  then show ?thesis using False by (simp add: pton6_end_def all_set_def)
qed (simp add: pton6_end_def)

lemma pton6_run_total: "pton6_inv dot st \<Longrightarrow> \<exists>r. pton6_run src dot n st = Inr r"
  using pton6_end_total pton6_loop_inv by (auto simp: pton6_run_def split: option.split)

lemma pton6_start_inv: "pton6_inv False pton6_start"
  by (simp add: pton6_inv_def pton6_start_def)

lemma pton6_quad_inv: "pton6_quad q = Some st \<Longrightarrow> pton6_inv True st"
  by (auto simp: pton6_inv_def pton6_quad_def pton6_start_def split: if_splits prod.splits)

lemma evutil_inet_pton6_total: "\<exists>r. evutil_inet_pton6 src = Inr r"
  unfolding evutil_inet_pton6_def
  using pton6_run_total [OF pton6_start_inv] pton6_run_total [OF pton6_quad_inv]
  by (auto simp: bind_eq_Some_conv split: option.split)

section \<open>Reading back numbers and quads\<close>

lemma isspace_special: "isdigit c \<Longrightarrow> \<not> isspace c" "\<not> isspace CHR ''.''" "\<not> isdigit CHR ''.''" "\<not> isdigit NUL"
  by (auto simp: isdigit_def isspace_def Let_def)

lemma dec_takeWhile:
  assumes "\<forall>c r'. r = c # r' \<longrightarrow> \<not> isdigit c"
  shows "takeWhile isdigit (dec n @ r) = dec n" "dropWhile isdigit (dec n @ r) = r"
  using dec_digits assms by (auto simp: takeWhile_append dropWhile_append) (cases r; auto)+

lemma scan_d_dec:
  assumes "n < 2 ^ 31" and "\<forall>c r'. r = c # r' \<longrightarrow> \<not> isdigit c"
  shows "scan_d (dec n @ r) = Some (int n, r)"
proof -
  obtain d ds where d: "dec n = d # ds" by (cases "dec n") auto
  have dd: "isdigit d" using dec_hd [of n] d by simp
  have "dropWhile isspace (dec n @ r) = dec n @ r" "strtol_sign (dec n @ r) = (False, dec n @ r)"
    using isdigit_not_special [OF dd] by (simp_all add: d strtol_sign_def)
  moreover have "int_of_long (fst (clamp_long (int n))) = int n"
    using assms(1) by (simp add: clamp_long_def LONG_MAX_def LONG_MIN_def int_of_long_def signed_take_bit_int_eq_self)
  ultimately show ?thesis using dec_takeWhile [OF assms(2)] by (simp add: scan_d_def)
qed

lemma scan_quad_quad:
  assumes "a < 256" "b < 256" "c < 256" "d < 256"
  shows "scan_quad (quad a b c d) = Some (int a, int b, int c, int d)"
  using assms scan_d_dec [of d "[]"]
  by (simp add: scan_quad_def quad_def scan_d_dec isspace_special scan_char_def)

lemma byte_word:
  fixes a :: "32 word"
  shows "push_bit 24 (word_of_int (int (unat (drop_bit 24 a AND 0xff)))) OR push_bit 16 (word_of_int (int (unat (drop_bit 16 a AND 0xff))))
     OR push_bit 8 (word_of_int (int (unat (drop_bit 8 a AND 0xff)))) OR word_of_int (int (unat (a AND 0xff))) = a" (is "?l = a")
proof -
  have m: "(0xff :: 32 word) = mask 8" by (simp add: mask_eq_exp_minus_1)
  show ?thesis
  proof (rule bit_word_eqI)
    fix n assume "n < LENGTH(32)"
    then consider "n < 8" | "8 \<le> n" "n < 16" | "16 \<le> n" "n < 24" | "24 \<le> n" "n < 32" by force
    then show "bit ?l n = bit a n" unfolding m by cases (auto simp: bit_simps)
  qed
qed

lemma unat_byte: "unat (w AND 0xff :: 32 word) < 256"
proof -
  have "(0xff :: 32 word) = mask 8" by (simp add: mask_eq_exp_minus_1)
  then have "w AND 0xff = take_bit 8 w" by (simp add: take_bit_eq_mask)
  then have "unat (w AND 0xff) = take_bit 8 (unat w)" by (simp only: unsigned_take_bit_eq)
  then show ?thesis by (simp only: take_bit_eq_mod) simp
qed

lemma ntop4_pton4:
  assumes "evutil_inet_ntop4 a len = Some s"
  shows "evutil_inet_pton4 s = Some a"
proof -
  have s: "s = quad (unat (drop_bit 24 a AND 0xff)) (unat (drop_bit 16 a AND 0xff))
                   (unat (drop_bit 8 a AND 0xff)) (unat (a AND 0xff))"
    using assms by (simp add: evutil_inet_ntop4_def Let_def split: if_splits)
  have r: "byte_range (int (unat (w AND 0xff)))" for w :: "32 word"
    unfolding byte_range_def using unat_byte [of w] by (intro notI) (elim disjE; linarith)
  show ?thesis unfolding s evutil_inet_pton4_def scan_quad_quad [OF unat_byte unat_byte unat_byte unat_byte]
    using byte_word [of a] by (simp only: option.case prod.case r not_True_eq_False if_False)
qed

section \<open>Reading back words\<close>

definition colon_words :: "16 word list \<Rightarrow> byte list" where
  "colon_words ws = concat (map (\<lambda>w. hex (unat w) @ '':'') ws)"

definition sep_words :: "16 word list \<Rightarrow> byte list" where
  "sep_words ws = (if ws = [] then [] else colon_words (butlast ws) @ hex (unat (last ws)))"

lemma colon_words_simps [simp]:
  "colon_words [] = []" "colon_words (w # ws) = hex (unat w) @ '':'' @ colon_words ws"
  "colon_words (us @ vs) = colon_words us @ colon_words vs"
  by (simp_all add: colon_words_def)

definition put_word :: "16 word \<Rightarrow> pton6 \<Rightarrow> pton6" where
  "put_word w st = st\<lparr>words := (words st)[pos st := Some w], pos := pos st + 1, setWords := setWords st + 1\<rparr>"

lemma length_hex_word: "length (hex (unat (w :: 16 word))) \<le> 4"
proof -
  have "unat w < 16 ^ 4" using unsigned_less [of w, where ?'a = nat] by simp
  then show ?thesis by (rule length_hex_le) simp
qed

lemma of_nat_unat_word: "word_of_nat (unat w) = w"
  by simp

lemma hex_first: "isxdigit (char_at (hex n @ r) 0)"
  using hex_digits [of "hd (hex n)" n] hex_nonempty [of n] by (cases "hex n") (auto simp: char_at_def)

lemma strtol16_hex:
  fixes w :: "16 word"
  assumes r: "r = [] \<or> hd r = CHR '':''"
  shows "strtol16 (hex (unat w) @ r) = (int (unat w), r)"
proof -
  let ?h = "hex (unat w)"
  have col: "\<not> isxdigit CHR '':''" by (simp add: isxdigit_def)
  have "char_at (?h @ r) 1 \<notin> {CHR ''x'', CHR ''X''}"
  proof (cases "length ?h > 1")
    case True
    then have "isxdigit (char_at (?h @ r) 1)" using hex_digits [OF nth_mem] by (simp add: char_at_def nth_append)
    then show ?thesis using isxdigit_not_special by blast
  next
    case False
    then have "length ?h = 1" using hex_nonempty [of "unat w"] by (cases ?h) auto
    then show ?thesis using r by (cases r) (auto simp: char_at_def nth_append)
  qed
  moreover have "takeWhile isxdigit (?h @ r) = ?h" "dropWhile isxdigit (?h @ r) = r"
    using hex_digits r col by (auto simp: takeWhile_append dropWhile_append) (cases r; auto)+
  moreover have "fst (clamp_long (int (unat w))) = int (unat w)"
    using unsigned_less [of w, where ?'a = nat] by (simp add: clamp_long_def LONG_MAX_def LONG_MIN_def del: of_nat_unat)
  ultimately show ?thesis by (auto simp: strtol16_def Let_def simp del: of_nat_unat)
qed

lemma step_word:
  assumes "pos st \<le> 7" and "(r = [] \<and> n = length (hex (unat w))) \<or> (r \<noteq> [] \<and> hd r = CHR '':'')"
  shows "pton6_step (hex (unat w) @ r) n st = Some (length (hex (unat w)) + 1, put_word w st)"
proof -
  have "strtol16 (hex (unat w) @ r) = (int (unat w), r)" using assms(2) by (intro strtol16_hex) auto
  moreover have "unat w < 65536" using unsigned_less [of w, where ?'a = nat] by simp
  moreover have "char_at r 0 = CHR '':'' \<or> length (hex (unat w)) = n" using assms(2) by (cases r) (auto simp: char_at_def)
  ultimately show ?thesis
    using assms(1) length_hex_word [of w] hex_first [of "unat w" r] hex_nonempty [of "unat w"]
    by (auto simp: pton6_step_def put_word_def Let_def of_nat_unat_word simp del: of_nat_unat)
qed

lemma loop_words:
  "pos st + length ws \<le> 8 \<Longrightarrow>
   pton6_loop (colon_words ws @ r) (length (colon_words ws) + n) st = pton6_loop r n (fold put_word ws st)"
proof (induction ws arbitrary: st)
  case (Cons w ws)
  have "pos st \<le> 7" using Cons.prems by simp
  then have "pton6_step (hex (unat w) @ '':'' @ colon_words ws @ r) (length (hex (unat w)) + (1 + (length (colon_words ws) + n))) st
    = Some (length (hex (unat w)) + 1, put_word w st)" by (intro step_word) auto
  moreover have "pos (put_word w st) + length ws \<le> 8" using Cons.prems by (simp add: put_word_def)
  note Cons.IH [OF this]
  ultimately show ?case by (subst pton6_loop.simps) (simp add: add.assoc)
qed simp

lemma loop_sep:
  assumes "pos st + length ws \<le> 8"
  shows "pton6_loop (sep_words ws) (length (sep_words ws)) st = Some (fold put_word ws st)"
proof (cases ws rule: rev_cases)
  case (snoc us w)
  let ?st = "fold put_word us st"
  have p: "pos (fold put_word vs st) = pos st + length vs" for vs st
    by (induction vs arbitrary: st) (simp_all add: put_word_def)
  then have "pos ?st \<le> 7" using assms snoc by simp
  then have "pton6_step (hex (unat w)) (length (hex (unat w))) ?st = Some (length (hex (unat w)) + 1, put_word w ?st)"
    using step_word [of ?st "[]" _ w] by simp
  then have "pton6_loop (hex (unat w)) (length (hex (unat w))) ?st = Some (put_word w ?st)"
    by (subst pton6_loop.simps) (simp add: pton6_loop.simps [of _ 0])
  then show ?thesis
    using loop_words [of st us "hex (unat w)" "length (hex (unat w))"] assms snoc by (simp add: sep_words_def)
qed (simp add: sep_words_def pton6_loop.simps)

lemma fold_put_word:
  "pos st + length ws \<le> length (words st) \<Longrightarrow>
   fold put_word ws st = st\<lparr>words := overwrite (words st) (pos st) (map Some ws),
     pos := pos st + length ws, setWords := setWords st + length ws\<rparr>"
proof (induction ws arbitrary: st)
  case (Cons w ws)
  have "overwrite ((words st)[pos st := Some w]) (Suc (pos st)) (map Some ws) = overwrite (words st) (pos st) (map Some (w # ws))"
    using Cons.prems by (simp add: overwrite_def upd_conv_take_nth_drop add.commute)
  then show ?case using Cons by (simp add: put_word_def)
qed simp

section \<open>Reading back addresses\<close>

lemma no_dot: "CHR ''.'' \<notin> set (hex n)" "CHR ''.'' \<notin> set (colon_words ws)" "CHR ''.'' \<notin> set (sep_words ws)"
proof -
  show h: "CHR ''.'' \<notin> set (hex n)" for n using hex_digits isxdigit_not_special(2) by blast
  then show "CHR ''.'' \<notin> set (colon_words ws)" for ws by (induction ws) auto
  then show "CHR ''.'' \<notin> set (sep_words ws)" using h by (simp add: sep_words_def)
qed

lemma pton6_full:
  assumes "length ws = 8"
  shows "evutil_inet_pton6 (sep_words ws) = Inr (Some (bytes_of ws))"
proof -
  have "pton6_loop (sep_words ws) (length (sep_words ws)) pton6_start = Some (fold put_word ws pton6_start)"
    using assms by (intro loop_sep) (simp add: pton6_start_def)
  moreover have "fold put_word ws pton6_start = \<lparr>words = map Some ws, pos = 8, gapPos = - 1, setWords = 8\<rparr>"
    using assms by (subst fold_put_word) (simp_all add: pton6_start_def overwrite_def)
  moreover have "char_at (sep_words ws) 0 \<noteq> CHR ''.''"
    using no_dot(3) [of ws] by (cases "sep_words ws") (auto simp: char_at_def)
  ultimately show ?thesis
    using no_dot(3) by (simp add: evutil_inet_pton6_def pton6_run_def pton6_end_def open_gap_def all_set_def)
qed

definition gap_text :: "16 word list \<Rightarrow> byte list" where
  "gap_text us = (if us = [] then ''::'' else colon_words us @ '':'')"

lemma loop_gap:
  assumes "length us < 8" and that: "pos st0 = 0" "gapPos st0 = - 1" "length (words st0) = 8"
  shows "pton6_loop (gap_text us @ r) (length (gap_text us) + n) st0 = pton6_loop r n ((fold put_word us st0)\<lparr>gapPos := int (length us)\<rparr>)"
proof (cases "us = []")
  case True
  have "pton6_step (''::'' @ r) (2 + n) st0 = Some (2, st0\<lparr>gapPos := 0\<rparr>)"
    using that by (simp add: pton6_step_def char_at_def isxdigit_def)
  then show ?thesis using True that by (subst pton6_loop.simps) (simp add: gap_text_def)
next
  case False
  let ?st = "fold put_word us st0"
  have st: "pos ?st = length us" "gapPos ?st = - 1" using that assms by (simp_all add: fold_put_word)
  have "pton6_step ('':'' @ r) (1 + n) ?st = Some (1, ?st\<lparr>gapPos := int (length us)\<rparr>)"
    using st False assms by (simp add: pton6_step_def char_at_def isxdigit_def)
  then have "pton6_loop ('':'' @ r) (1 + n) ?st = pton6_loop r n (?st\<lparr>gapPos := int (length us)\<rparr>)"
    by (subst pton6_loop.simps) simp
  then show ?thesis
    using loop_words [of st0 us "'':'' @ r" "1 + n"] False that assms by (simp add: gap_text_def)
qed

lemma open_gap_words:
  assumes "g + m + l = 8 - length ts" "length us = g" "length vs = m" "length ts = (if dot then 2 else 0)"
  shows "open_gap dot \<lparr>words = map Some (us @ vs) @ replicate l None @ map Some ts, pos = g + m, gapPos = int g,
      setWords = g + m + length ts\<rparr> = Some (map Some (us @ replicate l 0 @ vs @ ts))"
proof -
  have l: "8 - (g + m + length ts) = l" using assms by (auto split: if_splits)
  have "take m (drop g (map Some (us @ vs) @ replicate l None @ map Some ts)) = map Some vs"
    using assms by simp
  then show ?thesis using assms l
    by (simp add: open_gap_def Let_def overwrite_def min_def add.commute)
qed

lemma pton6_gap:
  assumes "length us + length vs < 8"
  shows "evutil_inet_pton6 (gap_text us @ sep_words vs)
     = Inr (Some (bytes_of (us @ replicate (8 - (length us + length vs)) 0 @ vs)))"
proof -
  let ?l = "8 - (length us + length vs)"
  let ?st = "fold put_word vs ((fold put_word us pton6_start)\<lparr>gapPos := int (length us)\<rparr>)"
  have "pton6_loop (gap_text us @ sep_words vs) (length (gap_text us) + length (sep_words vs)) pton6_start = Some ?st"
    using loop_gap [of us pton6_start "sep_words vs" "length (sep_words vs)"]
      loop_sep [of "(fold put_word us pton6_start)\<lparr>gapPos := int (length us)\<rparr>" vs] assms
    by (simp add: pton6_start_def fold_put_word [of _ us])
  moreover have "?st = \<lparr>words = map Some (us @ vs) @ replicate ?l None @ map Some [], pos = length us + length vs,
      gapPos = int (length us), setWords = length us + length vs + length ([] :: 16 word list)\<rparr>"
    using assms by (simp add: fold_put_word pton6_start_def overwrite_def)
  moreover have "open_gap False \<lparr>words = map Some (us @ vs) @ replicate ?l None @ map Some [], pos = length us + length vs,
      gapPos = int (length us), setWords = length us + length vs + length ([] :: 16 word list)\<rparr>
     = Some (map Some (us @ replicate ?l 0 @ vs @ []))"
    using assms by (intro open_gap_words) auto
  moreover have "CHR ''.'' \<notin> set (gap_text us)" using no_dot(2) by (simp add: gap_text_def)
  moreover have "char_at (gap_text us @ sep_words vs) 0 \<noteq> CHR ''.''"
    using \<open>CHR ''.'' \<notin> set (gap_text us)\<close> by (cases "gap_text us") (auto simp: char_at_def gap_text_def split: if_splits)
  ultimately show ?thesis
    using no_dot(3) [of vs] assms by (simp add: evutil_inet_pton6_def pton6_run_def pton6_end_def all_set_def)
qed

lemma end_of_words_quad:
  assumes "CHR ''.'' \<notin> set p" "p \<noteq> []" "last p = CHR '':''"
  shows "end_of_words (p @ quad a b c d) = length p"
proof -
  have "CHR ''.'' \<notin> set (dec a)" using dec_digits isspace_special(3) by blast
  then have f: "takeWhile (\<lambda>c. c \<noteq> CHR ''.'') (p @ quad a b c d) = p @ dec a"
    using assms(1) by (auto simp: quad_def takeWhile_append)
  have r: "rev p = CHR '':'' # rev (butlast p)"
    using assms(2,3) by (metis append_butlast_last_id rev_eq_Cons_iff rev_rev_ident)
  have "EVUTIL_ISDIGIT = isdigit" by auto
  moreover have "takeWhile isdigit (rev (dec a) @ rev p) = rev (dec a)"
    using dec_digits unfolding r by (auto simp: takeWhile_append isdigit_def)
  ultimately show ?thesis unfolding end_of_words_def f Let_def by simp
qed

lemma last_colon: "colon_words ws \<noteq> [] \<Longrightarrow> last (colon_words ws) = CHR '':''"
  by (cases ws rule: rev_cases) auto

lemma pton6_dotted:
  assumes "length us \<le> 5" "a < 256" "b < 256" "c < 256" "d < 256"
  shows "evutil_inet_pton6 (''::'' @ colon_words us @ quad a b c d)
    = Inr (Some (bytes_of (replicate (6 - length us) 0 @ us @
        [push_bit 8 (word_of_nat a) OR word_of_nat b, push_bit 8 (word_of_nat c) OR word_of_nat d])))"
proof -
  let ?p = "gap_text [] @ colon_words us" and ?l = "6 - length us"
  let ?ts = "[push_bit 8 (word_of_nat a) OR word_of_nat b, push_bit 8 (word_of_nat c) OR word_of_nat d] :: 16 word list"
  define q where "q = pton6_start\<lparr>words := (words pton6_start)[6 := Some (?ts ! 0), 7 := Some (?ts ! 1)], setWords := 2\<rparr>"
  have w: "(replicate 8 None)[6 := Some (?ts ! 0), 7 := Some (?ts ! 1)] = replicate 6 None @ map Some ?ts"
    by (simp add: eval_nat_numeral)
  have e: "end_of_words (?p @ quad a b c d) = length ?p"
    using no_dot(2) by (intro end_of_words_quad) (auto simp: gap_text_def last_append last_colon)
  have q: "pton6_quad (int a, int b, int c, int d) = Some q"
    using assms by (simp add: pton6_quad_def q_def)
  let ?st = "fold put_word us (q\<lparr>gapPos := 0\<rparr>)"
  have "pton6_loop (?p @ quad a b c d) (length ?p) q = Some ?st"
    using loop_gap [of "[]" q "colon_words us @ quad a b c d" "length (colon_words us)"]
      loop_words [of "q\<lparr>gapPos := 0\<rparr>" us "quad a b c d" 0] assms(1)
    by (simp add: q_def pton6_start_def pton6_loop.simps [of _ 0])
  moreover have "?st = \<lparr>words = map Some ([] @ us) @ replicate ?l None @ map Some ?ts, pos = 0 + length us,
      gapPos = int 0, setWords = 0 + length us + length ?ts\<rparr>"
    using assms(1) w by (simp add: fold_put_word q_def pton6_start_def overwrite_def drop_append)
  moreover have "open_gap True \<lparr>words = map Some ([] @ us) @ replicate ?l None @ map Some ?ts, pos = 0 + length us,
      gapPos = int 0, setWords = 0 + length us + length ?ts\<rparr> = Some (map Some ([] @ replicate ?l 0 @ us @ ?ts))"
    using assms(1) by (intro open_gap_words) auto
  moreover have "CHR ''.'' \<in> set (?p @ quad a b c d)" "char_at (?p @ quad a b c d) 0 \<noteq> CHR ''.''"
    by (simp_all add: quad_def gap_text_def char_at_def)
  ultimately show ?thesis
    using scan_quad_quad [OF assms(2-5)] q e assms(1)
    by (simp add: evutil_inet_pton6_def pton6_run_def pton6_end_def all_set_def gap_text_def)
qed

section \<open>What the printer writes\<close>

definition run_at :: "16 word list \<Rightarrow> nat \<Rightarrow> nat" where
  "run_at ws i = Suc (length (takeWhile (\<lambda>w. w = 0) (take (8 - Suc i) (drop (Suc i) ws))))"

lemma run_at_zero:
  assumes "length ws = 8" "i < 8" "ws ! i = 0"
  shows "i + run_at ws i \<le> 8" "take (run_at ws i) (drop i ws) = replicate (run_at ws i) 0"
proof -
  let ?t = "takeWhile (\<lambda>w. w = 0) (drop (Suc i) ws)"
  have r: "run_at ws i = Suc (length ?t)" using assms by (simp add: run_at_def)
  have "length ?t \<le> length (drop (Suc i) ws)" by (rule length_takeWhile_le)
  then show "i + run_at ws i \<le> 8" using assms r by simp
  have "take (length ?t) (drop (Suc i) ws) = ?t" by (metis takeWhile_eq_take)
  moreover have "?t = replicate (length ?t) 0"
    by (rule replicate_eqI [symmetric, THEN sym]) (auto dest: set_takeWhileD)
  ultimately have "take (length ?t) (drop (Suc i) ws) = replicate (length ?t) 0" by metis
  moreover have "drop i ws = 0 # drop (Suc i) ws" using assms by (metis Cons_nth_drop_Suc)
  ultimately show "take (run_at ws i) (drop i ws) = replicate (run_at ws i) 0" unfolding r by simp
qed

lemma longest_gap_zero:
  assumes "length ws = 8" "longest_gap ws i p l = (p', l')" "p = - 1 \<or> (0 \<le> p \<and> p < 8 \<and> ws ! nat p = 0)"
  shows "p' = - 1 \<or> (0 \<le> p' \<and> p' < 8 \<and> ws ! nat p' = 0)"
  using assms
proof (induction ws i p l rule: longest_gap.induct)
  case (1 ws i p l)
  then show ?case
    by (subst (asm) longest_gap.simps) (auto simp: Let_def split: if_splits)
qed

lemma sep_words_Cons: "sep_words (w # ws) = hex (unat w) @ (if ws = [] then [] else '':'' @ sep_words ws)"
  by (simp add: sep_words_def)

lemma print_after:
  assumes "length ws = 8" "p < int i" "i \<le> 8"
  shows "print_words ws p i = sep_words (drop i ws)"
  using assms(2,3)
proof (induction "8 - i" arbitrary: i)
  case 0
  then show ?case using assms(1) by (subst print_words.simps) (simp add: sep_words_def)
next
  case (Suc k)
  have "print_words ws p (i + 1) = sep_words (drop (i + 1) ws)" using Suc by (intro Suc(1)) simp_all
  moreover have "drop i ws = ws ! i # drop (i + 1) ws" using Suc assms(1) by (simp add: Cons_nth_drop_Suc)
  moreover have "i < 8" using Suc(2) by linarith
  ultimately show ?case using Suc.prems assms(1) by (subst print_words.simps) (auto simp: sep_words_Cons sep_words_def)
qed

lemma print_before:
  assumes "length ws = 8" "g < 8" "ws ! g = 0" "i \<le> g"
  shows "print_words ws (int g) i = colon_words (drop i (take g ws)) @ (if g = 0 then ''::'' else '':'')
           @ sep_words (drop (g + run_at ws g) ws)"
  using assms(4)
proof (induction "g - i" arbitrary: i)
  case 0
  then have i: "i = g" by simp
  have "print_words ws (int g) (g + run_at ws g) = sep_words (drop (g + run_at ws g) ws)"
    using run_at_zero [OF assms(1-3)] assms(1) by (intro print_after) (auto simp: run_at_def)
  then show ?case unfolding i using assms by (subst print_words.simps) (auto simp: run_at_def)
next
  case (Suc k)
  have "i < g" using Suc(2) by linarith
  have "print_words ws (int g) (i + 1) = colon_words (drop (i + 1) (take g ws)) @ (if g = 0 then ''::'' else '':'')
       @ sep_words (drop (g + run_at ws g) ws)" using Suc by (intro Suc(1)) simp_all
  moreover have "drop i (take g ws) = ws ! i # drop (i + 1) (take g ws)"
    using \<open>i < g\<close> assms(1,2) Cons_nth_drop_Suc [of i "take g ws"] by simp
  ultimately show ?case using \<open>i < g\<close> assms(2) by (subst print_words.simps) simp
qed

lemma pton6_print:
  assumes "length ws = 8" "p = - 1 \<or> (0 \<le> p \<and> p < 8 \<and> ws ! nat p = 0)"
  shows "evutil_inet_pton6 (print_words ws p 0) = Inr (Some (bytes_of ws))"
proof (cases "p = - 1")
  case True
  then show ?thesis using assms(1) pton6_full by (simp add: print_after)
next
  case False
  define g where "g = nat p"
  have g: "g < 8" "ws ! g = 0" "p = int g" using assms(2) False by (auto simp: g_def)
  let ?us = "take g ws" and ?vs = "drop (g + run_at ws g) ws"
  have r: "g + run_at ws g \<le> 8" "take (run_at ws g) (drop g ws) = replicate (run_at ws g) 0"
    using run_at_zero [OF assms(1) g(1,2)] by auto
  have "print_words ws p 0 = gap_text ?us @ sep_words ?vs"
    using print_before [OF assms(1) g(1,2)] g(1) assms(1) unfolding g(3) by (auto simp: gap_text_def)
  moreover have "?us @ replicate (8 - (length ?us + length ?vs)) 0 @ ?vs = ws"
  proof -
    have "8 - (length ?us + length ?vs) = run_at ws g" using r(1) g(1) assms(1) by simp
    then have "?us @ replicate (8 - (length ?us + length ?vs)) 0 @ ?vs
      = take g ws @ take (run_at ws g) (drop g ws) @ drop (run_at ws g) (drop g ws)"
      unfolding r(2) by (simp add: add.commute)
    then show ?thesis by (simp only: append_take_drop_id)
  qed
  moreover have "length ?us + length ?vs < 8" using r(1) g(1) assms(1) by (simp add: run_at_def)
  ultimately show ?thesis using pton6_gap [of ?us ?vs] by simp
qed

section \<open>Bytes and words\<close>

lemma word_bytes:
  fixes x y :: "8 word"
  defines "w \<equiv> push_bit 8 (ucast x) + ucast y :: 16 word"
  shows "w = push_bit 8 (ucast x) OR ucast y" "ucast (drop_bit 8 w) = x" "ucast (w AND 0xff) = y"
proof -
  have "push_bit 8 (ucast x) AND ucast y = (0 :: 16 word)"
    by (rule bit_word_eqI) (auto simp: bit_simps dest: bit_imp_le_length)
  then show w: "w = push_bit 8 (ucast x) OR ucast y"
    unfolding w_def by (rule disjunctive_add_eq_or)
  have m: "(0xff :: 16 word) = mask 8" by (simp add: mask_eq_exp_minus_1)
  show "ucast (drop_bit 8 w) = x" unfolding w by (rule bit_word_eqI) (auto simp: bit_simps dest: bit_imp_le_length)
  show "ucast (w AND 0xff) = y" unfolding w m by (rule bit_word_eqI) (auto simp: bit_simps)
qed

lemma length_16_cases:
  assumes "length a = 16"
  obtains a0 a1 a2 a3 a4 a5 a6 a7 a8 a9 b0 b1 b2 b3 b4 b5
    where "a = [a0, a1, a2, a3, a4, a5, a6, a7, a8, a9, b0, b1, b2, b3, b4, b5]"
  using assms that by (auto simp: length_Suc_conv eval_nat_numeral)

lemma words_of_list:
  "words_of [a0, a1, a2, a3, a4, a5, a6, a7, a8, a9, b0, b1, b2, b3, b4, b5] =
    [push_bit 8 (ucast a0) + ucast a1, push_bit 8 (ucast a2) + ucast a3, push_bit 8 (ucast a4) + ucast a5,
     push_bit 8 (ucast a6) + ucast a7, push_bit 8 (ucast a8) + ucast a9, push_bit 8 (ucast b0) + ucast b1,
     push_bit 8 (ucast b2) + ucast b3, push_bit 8 (ucast b4) + ucast b5]"
  by (simp add: words_of_def upt_rec)

lemma bytes_of_words_of: "length a = 16 \<Longrightarrow> bytes_of (words_of a) = a"
  by (erule length_16_cases) (simp only: words_of_list bytes_of_def list.map concat.simps append.simps word_bytes(2,3))

lemma length_words_of [simp]: "length (words_of a) = 8"
  by (simp add: words_of_def)

lemma words_of_split:
  assumes "length a = 16"
  shows "words_of a = take 6 (words_of a) @ [push_bit 8 (word_of_nat (unat (a ! 12))) OR word_of_nat (unat (a ! 13)),
     push_bit 8 (word_of_nat (unat (a ! 14))) OR word_of_nat (unat (a ! 15))]"
  using assms by (elim length_16_cases) (simp add: words_of_list word_bytes(1))

lemma length_colon_words: "length (colon_words ws) \<le> 5 * length ws"
proof (induction ws)
  case (Cons w ws)
  then show ?case using length_hex_word [of w] by simp
qed simp

lemma length_sep_words: "length (sep_words ws) \<le> 5 * length ws"
proof (cases ws rule: rev_cases)
  case (snoc us w)
  then show ?thesis using length_colon_words [of us] length_hex_word [of w] by (simp add: sep_words_def)
qed (simp add: sep_words_def)

lemma length_quad: "a < 256 \<Longrightarrow> b < 256 \<Longrightarrow> c < 256 \<Longrightarrow> d < 256 \<Longrightarrow> length (quad a b c d) \<le> 15"
  using length_dec_le [of a 3] length_dec_le [of b 3] length_dec_le [of c 3] length_dec_le [of d 3]
  by (simp add: quad_def)

lemma length_print_words:
  assumes "length ws = 8" "p = - 1 \<or> (0 \<le> p \<and> p < 8 \<and> ws ! nat p = 0)"
  shows "length (print_words ws p 0) \<le> 42"
proof (cases "p = - 1")
  case True
  then show ?thesis using assms(1) length_sep_words [of ws] by (simp add: print_after)
next
  case False
  define g where "g = nat p"
  have g: "g < 8" "ws ! g = 0" "p = int g" using assms(2) False by (auto simp: g_def)
  have "length (colon_words (take g ws)) \<le> 5 * g" using length_colon_words [of "take g ws"] g(1) assms(1) by simp
  moreover have "length (sep_words (drop (g + run_at ws g) ws)) \<le> 5 * (8 - (g + run_at ws g))"
    using length_sep_words [of "drop (g + run_at ws g) ws"] assms(1) by simp
  moreover have "0 < run_at ws g" by (simp add: run_at_def)
  ultimately show ?thesis
    using print_before [OF assms(1) g(1,2), of 0] g(1) unfolding g(3) by (simp split: if_splits)
qed

text \<open>The text of an address in the form \<^verbatim>\<open>evutil_inet_ntop\<close> chooses.\<close>

lemma ntop6_text:
  assumes "length a = 16"
  obtains s where "\<forall>len. evutil_inet_ntop6 a len = copied_out s len" "length s \<le> 42"
    "evutil_inet_pton6 s = Inr (Some a)"
proof -
  let ?ws = "words_of a" and ?q = "quad (unat (a ! 12)) (unat (a ! 13)) (unat (a ! 14)) (unat (a ! 15))"
  have b: "unat (a ! i) < 256" for i using unsigned_less [of "a ! i", where ?'a = nat] by simp
  define v4 where "v4 \<longleftrightarrow> ?ws ! 0 = 0 \<and> ?ws ! 1 = 0 \<and> ?ws ! 2 = 0 \<and> ?ws ! 3 = 0 \<and> ?ws ! 4 = 0 \<and>
     ((?ws ! 5 = 0 \<and> ?ws ! 6 \<noteq> 0 \<and> ?ws ! 7 \<noteq> 0) \<or> ?ws ! 5 = 0xffff)"
  show thesis
  proof (cases v4)
    case True
    let ?us = "if ?ws ! 5 = 0 then [] else [?ws ! 5]"
    have z: "take 6 ?ws = replicate (6 - length ?us) 0 @ ?us"
    proof -
      obtain w0 w1 w2 w3 w4 w5 w6 w7 where "?ws = [w0, w1, w2, w3, w4, w5, w6, w7]"
        using length_words_of [of a] by (auto simp: length_Suc_conv eval_nat_numeral simp del: length_words_of)
      then show ?thesis using True by (auto simp: v4_def eval_nat_numeral)
    qed
    let ?s = "''::'' @ colon_words ?us @ ?q"
    have "evutil_inet_ntop6 a len = copied_out ?s len" for len
      using True unfolding v4_def by (simp add: evutil_inet_ntop6_def Let_def)
    moreover have "length ?s \<le> 42"
      using length_quad [OF b b b b, of 12 13 14 15] length_colon_words [of ?us] by (simp split: if_splits)
    moreover have "evutil_inet_pton6 ?s = Inr (Some a)"
      using pton6_dotted [of ?us, OF _ b b b b, of 12 13 14 15] words_of_split [OF assms] z
        bytes_of_words_of [OF assms] by simp
    ultimately show thesis by (intro that [of ?s] allI)
  next
    case False
    obtain p l where pl: "longest_gap ?ws 0 (- 1) 0 = (p, l)" by (cases "longest_gap ?ws 0 (- 1) 0")
    let ?p = "if l \<le> 1 then - 1 else p"
    have p: "?p = - 1 \<or> (0 \<le> ?p \<and> ?p < 8 \<and> ?ws ! nat ?p = 0)"
      using longest_gap_zero [OF _ pl] by auto
    let ?s = "print_words ?ws ?p 0"
    have "evutil_inet_ntop6 a len = copied_out ?s len" for len
      unfolding evutil_inet_ntop6_def Let_def v4_def [symmetric] using False pl by simp
    then show thesis
      using that [of ?s] length_print_words [OF _ p] pton6_print [OF _ p] bytes_of_words_of [OF assms] by simp
  qed
qed

section \<open>The characters of an accepted address\<close>

definition addr_char :: "byte \<Rightarrow> bool" where
  "addr_char c \<longleftrightarrow> isxdigit c \<or> isspace c \<or> c \<in> set '':.xX+-''"

lemma scan_d_chars:
  assumes "scan_d s = Some (v, r)"
  obtains p where "s = p @ r" "list_all addr_char p"
proof -
  obtain neg r' where sg: "strtol_sign (dropWhile isspace s) = (neg, r')" by fastforce
  have sign: "\<exists>q. cs = q @ r' \<and> list_all addr_char q" if "strtol_sign cs = (neg, r')" for cs
    using that by (auto simp: strtol_sign_def addr_char_def split: list.splits if_splits intro: exI [of _ "[_]"] exI [of _ "[]"])
  obtain q where q: "dropWhile isspace s = q @ r'" "list_all addr_char q" using sign [OF sg] by blast
  have r: "r = dropWhile isdigit r'" using assms sg by (auto simp: scan_d_def Let_def split: if_splits)
  have "s = takeWhile isspace s @ q @ takeWhile isdigit r' @ r"
    using q(1) r by (metis append.assoc takeWhile_dropWhile_id)
  moreover have "list_all addr_char (takeWhile isspace s)" "list_all addr_char (takeWhile isdigit r')"
    by (auto simp: list_all_iff addr_char_def isdigit_isxdigit dest: set_takeWhileD)
  ultimately show thesis using that [of "takeWhile isspace s @ q @ takeWhile isdigit r'"] q(2) by simp
qed

lemma scan_char_chars: "scan_char CHR ''.'' s = Some r \<Longrightarrow> s = CHR ''.'' # r"
  by (auto simp: scan_char_def split: list.splits if_splits)

lemma scan_quad_chars:
  assumes "scan_quad s = Some q"
  shows "list_all addr_char s"
proof -
  have dot: "addr_char CHR ''.''" by (simp add: addr_char_def)
  show ?thesis using assms unfolding scan_quad_def
    by (auto simp: bind_eq_Some_conv dot dest!: scan_char_chars elim!: scan_d_chars split: if_splits)
qed

lemma strtol16_chars:
  assumes "strtol16 s = (v, r)" and "isxdigit (char_at s 0)"
  obtains p where "s = p @ r" "list_all addr_char p"
proof -
  have x: "list_all addr_char (takeWhile isxdigit t)" for t
    by (auto simp: list_all_iff addr_char_def dest: set_takeWhileD)
  show thesis
  proof (cases "char_at s 0 = CHR ''0'' \<and> char_at s 1 \<in> {CHR ''x'', CHR ''X''} \<and> isxdigit (char_at s 2)")
    case True
    then obtain t where "s = char_at s 0 # char_at s 1 # t"
      by (cases s; cases "tl s") (auto simp: char_at_def split: if_splits)
    then have s: "s = char_at s 0 # char_at s 1 # drop 2 s" by (metis One_nat_def Suc_1 drop0 drop_Suc_Cons)
    have r: "r = dropWhile isxdigit (drop 2 s)" using assms(1) True by (simp add: strtol16_def Let_def)
    have "s = (char_at s 0 # char_at s 1 # takeWhile isxdigit (drop 2 s)) @ r"
      using s by (subst s) (simp add: r)
    moreover have "list_all addr_char (char_at s 0 # char_at s 1 # takeWhile isxdigit (drop 2 s))"
      using x assms(2) True by (auto simp: addr_char_def)
    ultimately show thesis by (rule that)
  next
    case False
    then have "r = dropWhile isxdigit s" using assms(1) unfolding strtol16_def Let_def by (simp split: if_splits)
    then show thesis using that [of "takeWhile isxdigit s"] x by simp
  qed
qed

lemma step_chars:
  assumes "pton6_step src n st = Some (k, st')" "0 < n" "n \<le> length src"
  shows "list_all addr_char (take (min n k) src)"
proof (cases "isxdigit (char_at src 0)")
  case True
  obtain v r where s: "strtol16 src = (v, r)" by fastforce
  obtain p where p: "src = p @ r" "list_all addr_char p" using strtol16_chars [OF s True] .
  have "k = length p + 1" "char_at r 0 = CHR '':'' \<or> length p = n"
    using assms(1) True s p(1) by (auto simp: pton6_step_def Let_def split: if_splits)
  moreover have "addr_char CHR '':''" by (simp add: addr_char_def)
  ultimately show ?thesis using p
    by (cases r) (auto simp: char_at_def take_Cons' list_all_iff dest: in_set_takeD split: if_splits)
next
  case False
  have "addr_char CHR '':''" by (simp add: addr_char_def)
  then show ?thesis using assms False
    by (cases src; cases "tl src")
      (auto simp: pton6_step_def char_at_def take_Cons' split: if_splits)
qed

lemma loop_chars:
  "pton6_loop src n st = Some st' \<Longrightarrow> n \<le> length src \<Longrightarrow> list_all addr_char (take n src)"
proof (induction src n st rule: pton6_loop.induct)
  case (1 src n st)
  show ?case
  proof (cases "n = 0")
    case False
    then obtain k st1 where k: "pton6_step src n st = Some (k, st1)" "pton6_loop (drop k src) (n - k) st1 = Some st'"
      using 1(2) by (subst (asm) pton6_loop.simps) (auto split: option.splits)
    then have "list_all addr_char (take (n - k) (drop k src))" using 1(1) [OF False k(1) refl k(2)] 1(3) by simp
    moreover have "list_all addr_char (take (min n k) src)" using step_chars [OF k(1)] False 1(3) by simp
    moreover have "take n src = take (min n k) src @ take (n - k) (drop k src)"
      by (cases "k \<le> n") (simp_all add: min_def flip: take_add)
    ultimately show ?thesis by simp
  qed simp
qed

lemma pton6_chars:
  assumes "evutil_inet_pton6 s = Inr (Some a)"
  shows "list_all addr_char s"
proof (cases "CHR ''.'' \<in> set s")
  case False
  then obtain st where "pton6_loop s (length s) pton6_start = Some st"
    using assms by (auto simp: evutil_inet_pton6_def pton6_run_def split: if_splits option.splits)
  from loop_chars [OF this] show ?thesis by simp
next
  case True
  let ?n = "end_of_words s"
  obtain q st0 st where "scan_quad (drop ?n s) = Some q" "pton6_loop s ?n st0 = Some st"
    using assms True by (auto simp: evutil_inet_pton6_def pton6_run_def bind_eq_Some_conv split: if_splits option.splits)
  moreover have "?n \<le> length s"
    using length_takeWhile_le [of "\<lambda>c. c \<noteq> CHR ''.''" s] by (simp add: end_of_words_def Let_def)
  ultimately have "list_all addr_char (take ?n s)" "list_all addr_char (drop ?n s)"
    using loop_chars scan_quad_chars by blast+
  then have "list_all addr_char (take ?n s @ drop ?n s)" by (simp only: list_all_append)
  then show ?thesis by simp
qed

end
