(* ===== verification/Inet_Properties.thy ===== *)
theory Inet_Properties
  imports Inet_Facts
begin

text \<open>
  Properties of the address functions of \<^verbatim>\<open>libevent/evutil.c\<close>: addresses and socket addresses
  survive printing and parsing, the IPv6 parser is total and which malformed addresses it lets pass,
  and the case-insensitive comparison is the lexicographic order of the lower-case strings.
\<close>

lemma ntop6_fits:
  assumes "length a = 16" "42 < len"
  obtains s where "evutil_inet_ntop6 a len = Some s" "evutil_inet_pton6 s = Inr (Some a)" "length s \<le> 42"
proof -
  obtain s where s: "\<forall>n. evutil_inet_ntop6 a n = copied_out s n" "length s \<le> 42" "evutil_inet_pton6 s = Inr (Some a)"
    using ntop6_text [OF assms(1)] .
  then have "evutil_inet_ntop6 a len = Some s" using assms(2) by (simp add: copied_out_def)
  then show thesis using that s by blast
qed

text \<open>
  C39. Every IPv6 address is read back by \<^verbatim>\<open>evutil_inet_pton\<close> from the text
  \<^verbatim>\<open>evutil_inet_ntop\<close> writes for it, whichever of its forms (dotted quad, compressed, full) it chooses,
  if the buffer has more than 42 bytes; and every IPv4 address from its dotted quad.
\<close>

theorem inet_round_trip:
  assumes "length a = 16" and "42 < len"
  shows "(\<exists>s. evutil_inet_ntop6 a len = Some s \<and> evutil_inet_pton6 s = Inr (Some a))
    \<and> (\<exists>s. evutil_inet_ntop4 b len = Some s \<and> evutil_inet_pton4 s = Some b)"
proof -
  have "length (quad (unat (drop_bit 24 b AND 0xff)) (unat (drop_bit 16 b AND 0xff))
                   (unat (drop_bit 8 b AND 0xff)) (unat (b AND 0xff))) \<le> 15"
    by (intro length_quad unat_byte)
  then obtain s where "evutil_inet_ntop4 b len = Some s"
    using assms(2) by (simp add: evutil_inet_ntop4_def Let_def)
  then show ?thesis using ntop4_pton4 ntop6_fits [OF assms] by metis
qed

theorem inet_round_trip_witness:
  "(\<exists>s. evutil_inet_ntop6 [0xfe, 0x80, 0, 0, 0, 0, 0, 0, 0, 0, 0, 0, 0, 0, 0, 1] 64 = Some s
      \<and> evutil_inet_pton6 s = Inr (Some [0xfe, 0x80, 0, 0, 0, 0, 0, 0, 0, 0, 0, 0, 0, 0, 0, 1]))
   \<and> (\<exists>s. evutil_inet_ntop4 0x7f000001 64 = Some s \<and> evutil_inet_pton4 s = Some 0x7f000001)"
  by (rule inet_round_trip) simp_all

lemma split_quad_port: "split_sockaddr (quad a b c d @ '':'' @ dec p) = Some (False, quad a b c d, Some (dec p))"
  if "a < 256" "b < 256" "c < 256" "d < 256"
proof -
  have c: "CHR '':'' \<notin> set (quad a b c d)" "CHR ''['' \<notin> set (quad a b c d)"
    using dec_digits [of "CHR ''[''"] by (auto simp: quad_def isdigit_def)
  then have "takeWhile (\<lambda>x. x \<noteq> CHR '':'') (quad a b c d @ '':'' @ dec p) = quad a b c d"
    by (auto simp: takeWhile_append)
  moreover have "char_at (quad a b c d @ '':'' @ dec p) 0 \<noteq> CHR ''[''"
    using c(2) length_quad [OF that] by (cases "quad a b c d") (auto simp: char_at_def)
  ultimately show ?thesis
    using length_quad [OF that] by (simp add: split_sockaddr_def Let_def)
qed

lemma split_bracket_port:
  assumes "CHR '']'' \<notin> set s" "length s \<le> 127"
  shows "split_sockaddr (''['' @ s @ '']:'' @ dec p) = Some (True, s, Some (dec p))"
proof -
  have "takeWhile (\<lambda>x. x \<noteq> CHR '']'') (''['' @ s @ '']:'' @ dec p) = CHR ''['' # s"
    using assms(1) by (auto simp: takeWhile_append)
  then show ?thesis using assms(2) by (simp add: split_sockaddr_def Let_def char_at_def nth_append)
qed

lemma atoi_dec: "p < 2 ^ 31 \<Longrightarrow> atoi (dec p) = int p"
  using scan_d_dec [of p "[]"] by (simp add: atoi_def)

lemma port_back:
  assumes "p \<noteq> 0"
  shows "atoi (dec (unat (p :: 16 word))) = int (unat p)" "0 < int (unat p)" "int (unat p) \<le> 65535" "word_of_int (int (unat p)) = p"
proof -
  have "unat p < 65536" using unsigned_less [of p, where ?'a = nat] by simp
  moreover have "unat p \<noteq> 0" using assms by (metis unat_eq_zero)
  ultimately show "atoi (dec (unat p)) = int (unat p)" "0 < int (unat p)" "int (unat p) \<le> 65535"
    by (simp_all add: atoi_dec del: of_nat_unat)
qed simp

definition addr_size :: "sockaddr \<Rightarrow> int" where
  "addr_size sa = (case sa of Sin a p \<Rightarrow> sizeof_sin | Sin6 a p \<Rightarrow> sizeof_sin6 | Other f \<Rightarrow> 0)"

text \<open>
  C40. A socket address with a port other than 0 is read back by
  \<^verbatim>\<open>evutil_parse_sockaddr_port\<close> from the text of \<^verbatim>\<open>evutil_format_sockaddr_port\<close>, if both buffers
  are large enough.
\<close>

theorem sockaddr_round_trip:
  assumes "case sa of Sin a p \<Rightarrow> p \<noteq> 0 | Sin6 a p \<Rightarrow> p \<noteq> 0 \<and> length a = 16 | Other f \<Rightarrow> False"
    and "addr_size sa \<le> outlen" and "64 \<le> len"
  shows "evutil_parse_sockaddr_port (evutil_format_sockaddr_port sa len) outlen = Inr (Some (sa, addr_size sa))"
proof (cases sa)
  case (Sin a p)
  let ?q = "quad (unat (drop_bit 24 a AND 0xff)) (unat (drop_bit 16 a AND 0xff)) (unat (drop_bit 8 a AND 0xff)) (unat (a AND 0xff))"
  have p: "p \<noteq> 0" using assms(1) Sin by simp
  have q: "length ?q \<le> 15" by (intro length_quad unat_byte)
  have "length (dec (unat p)) \<le> 5" using unsigned_less [of p, where ?'a = nat] by (intro length_dec_le) simp_all
  then have "evutil_format_sockaddr_port sa len = ?q @ '':'' @ dec (unat p)" and n: "evutil_inet_ntop4 a 128 = Some ?q"
    using Sin q assms(3) by (simp_all add: evutil_format_sockaddr_port_def evutil_inet_ntop4_def Let_def)
  then show ?thesis
    using Sin assms(2) port_back [OF p] ntop4_pton4 [OF n] split_quad_port [OF unat_byte unat_byte unat_byte unat_byte]
    by (simp add: evutil_parse_sockaddr_port_def Let_def addr_size_def del: of_nat_unat)
next
  case (Sin6 a p)
  have p: "p \<noteq> 0" "length a = 16" using assms(1) Sin6 by simp_all
  obtain s where s: "evutil_inet_ntop6 a 128 = Some s" "evutil_inet_pton6 s = Inr (Some a)" "length s \<le> 42"
    using ntop6_fits [OF p(2), of 128] by auto
  have b: "CHR '']'' \<notin> set s"
    using pton6_chars [OF s(2)] by (auto simp: list_all_iff addr_char_def isxdigit_def isspace_def)
  have "length (dec (unat p)) \<le> 5" using unsigned_less [of p, where ?'a = nat] by (intro length_dec_le) simp_all
  then have "evutil_format_sockaddr_port sa len = ''['' @ s @ '']:'' @ dec (unat p)"
    using Sin6 s(1,3) assms(3) by (simp add: evutil_format_sockaddr_port_def Let_def)
  then show ?thesis
    using Sin6 assms(2) port_back [OF p(1)] s split_bracket_port [OF b]
    by (simp add: evutil_parse_sockaddr_port_def Let_def addr_size_def del: of_nat_unat)
qed (use assms(1) in simp)

theorem sockaddr_round_trip_witness:
  "evutil_parse_sockaddr_port (evutil_format_sockaddr_port (Sin 0xc0a80001 6881) 64) 16
     = Inr (Some (Sin 0xc0a80001 6881, 16))"
  using sockaddr_round_trip [of "Sin 0xc0a80001 6881" 16 64] by (simp add: addr_size_def sizeof_sin_def)

text \<open>
  The IPv6 parser returns on every string and never reads an element of \<^verbatim>\<open>words\<close> it
  did not write; the addresses it accepts consist of hexadecimal digits, colons, dots, and what
  \<^verbatim>\<open>strtol\<close> and \<^verbatim>\<open>sscanf\<close> let pass: an \<^verbatim>\<open>x\<close>, signs and white space.
\<close>

theorem inet_pton6_total:
  "\<exists>r. evutil_inet_pton6 src = Inr r \<and> (r \<noteq> None \<longrightarrow> (\<forall>c \<in> set src. addr_char c))"
  using evutil_inet_pton6_total [of src] pton6_chars [of src] by (auto simp: list_all_iff)

text \<open>
  \<^verbatim>\<open>evutil_inet_pton\<close> accepts eight words with a colon behind the last one, which is no
  IPv6 address.
\<close>

theorem pton6_trailing_colon:
  assumes "length ws = 8"
  shows "evutil_inet_pton6 (colon_words ws) = Inr (Some (bytes_of ws))"
proof -
  have "pton6_loop (colon_words ws) (length (colon_words ws)) pton6_start = Some (fold put_word ws pton6_start)"
    using loop_words [of pton6_start ws "[]" 0] assms by (simp add: pton6_start_def pton6_loop.simps [of _ 0])
  moreover have "fold put_word ws pton6_start = \<lparr>words = map Some ws, pos = 8, gapPos = - 1, setWords = 8\<rparr>"
    using assms by (subst fold_put_word) (simp_all add: pton6_start_def overwrite_def)
  moreover have "char_at (colon_words ws) 0 \<noteq> CHR ''.''"
    using no_dot(2) [of ws] by (cases "colon_words ws") (auto simp: char_at_def)
  ultimately show ?thesis
    using no_dot(2) by (simp add: evutil_inet_pton6_def pton6_run_def pton6_end_def open_gap_def all_set_def)
qed

theorem pton6_trailing_colon_witness:
  "evutil_inet_pton6 (colon_words [1, 2, 3, 4, 5, 6, 7, 8]) = Inr (Some (bytes_of [1, 2, 3, 4, 5, 6, 7, 8]))"
  by (rule pton6_trailing_colon) simp

end
