(* ===== verification/Http_Uri.thy ===== *)
theory Http_Uri
  imports Evutil_Inet
begin

unbundle bit_operations_syntax

text \<open>
  The URI part of \<^verbatim>\<open>libevent/http.c\<close>: percent encoding and decoding, query strings, host
  patterns, and the parser, printer and setters of \<^verbatim>\<open>struct evhttp_uri\<close>.

  A C string is the list of its characters in front of the terminator, a pointer into it is the
  suffix it points to, and a range \<open>[s, eos)\<close> is such a suffix with the distance to \<open>eos\<close>:
  the code sometimes looks at characters behind \<open>eos\<close>. An output buffer is the list of the bytes
  written to it. A \<^verbatim>\<open>char *\<close> that may be \<^verbatim>\<open>NULL\<close> is an option.
  The setters of a URI and the functions that add a header are given the answers of the allocator;
  elsewhere in this theory memory never runs out. In particular the failures of the temporary
  \<^verbatim>\<open>evbuffer\<close> of \<^verbatim>\<open>evhttp_uri_join\<close> and \<^verbatim>\<open>evhttp_uriencode\<close>, most of which the code ignores, are not modelled.
\<close>

section \<open>Percent encoding\<close>

definition uri_chars :: "nat list" where
  "uri_chars = concat
   [[0, 0, 0, 0, 0, 0, 0, 0, 0, 0, 0, 0, 0, 0, 0, 0],
    [0, 0, 0, 0, 0, 0, 0, 0, 0, 0, 0, 0, 0, 0, 0, 0],
    [0, 0, 0, 0, 0, 0, 0, 0, 0, 0, 0, 0, 0, 1, 1, 0],
    [1, 1, 1, 1, 1, 1, 1, 1, 1, 1, 0, 0, 0, 0, 0, 0],
    [0, 1, 1, 1, 1, 1, 1, 1, 1, 1, 1, 1, 1, 1, 1, 1],
    [1, 1, 1, 1, 1, 1, 1, 1, 1, 1, 1, 0, 0, 0, 0, 1],
    [0, 1, 1, 1, 1, 1, 1, 1, 1, 1, 1, 1, 1, 1, 1, 1],
    [1, 1, 1, 1, 1, 1, 1, 1, 1, 1, 1, 0, 0, 0, 1, 0],
    [0, 0, 0, 0, 0, 0, 0, 0, 0, 0, 0, 0, 0, 0, 0, 0],
    [0, 0, 0, 0, 0, 0, 0, 0, 0, 0, 0, 0, 0, 0, 0, 0],
    [0, 0, 0, 0, 0, 0, 0, 0, 0, 0, 0, 0, 0, 0, 0, 0],
    [0, 0, 0, 0, 0, 0, 0, 0, 0, 0, 0, 0, 0, 0, 0, 0],
    [0, 0, 0, 0, 0, 0, 0, 0, 0, 0, 0, 0, 0, 0, 0, 0],
    [0, 0, 0, 0, 0, 0, 0, 0, 0, 0, 0, 0, 0, 0, 0, 0],
    [0, 0, 0, 0, 0, 0, 0, 0, 0, 0, 0, 0, 0, 0, 0, 0],
    [0, 0, 0, 0, 0, 0, 0, 0, 0, 0, 0, 0, 0, 0, 0, 0]]"

definition CHAR_IS_UNRESERVED :: "byte \<Rightarrow> bool" where
  "CHAR_IS_UNRESERVED c \<longleftrightarrow> uri_chars ! of_char c \<noteq> 0"

definition encode_char :: "bool \<Rightarrow> byte \<Rightarrow> byte list" where
  "encode_char space_as_plus c =
     (if CHAR_IS_UNRESERVED c then [c]
      else if c = CHR '' '' \<and> space_as_plus then ''+''
      else [CHR ''%'', hex_char 65 (of_char c div 16), hex_char 65 (of_char c mod 16)])"

text \<open>
  \<open>uri\<close> holds the bytes from the pointer to the end of its array; with a negative \<open>len\<close> it is a
  terminated string. The result is the new string with its terminator.
\<close>

definition evhttp_uriencode :: "byte list \<Rightarrow> int \<Rightarrow> bool \<Rightarrow> fault + byte list" where
  "evhttp_uriencode uri len space_as_plus =
     (if len \<ge> 0 then
        (if nat len \<le> length uri
         then Inr (concat (map (encode_char space_as_plus) (take (nat len) uri)) @ [NUL])
         else Inl OutOfBounds)
      else if NUL \<in> set uri then Inr (concat (map (encode_char space_as_plus) (cstr uri)) @ [NUL])
      else Inl OutOfBounds)"

definition evhttp_encode_uri :: "byte list \<Rightarrow> fault + byte list" where
  "evhttp_encode_uri str = evhttp_uriencode str (- 1) False"

text \<open>
  The loop of \<^verbatim>\<open>evhttp_decode_uri_internal\<close>: \<open>n\<close> is \<open>length - i\<close>, the list is the array from
  position \<open>i\<close> on, with whatever follows the first \<open>length\<close> bytes.
\<close>

fun put :: "byte \<Rightarrow> fault + byte list \<Rightarrow> fault + byte list" where
  "put c (Inl e) = Inl e"
| "put c (Inr r) = Inr (c # r)"

fun decode_from :: "int \<Rightarrow> byte list \<Rightarrow> nat \<Rightarrow> bool \<Rightarrow> fault + byte list" where
  "decode_from decode_plus_ctl [] n decode_plus = (if n = 0 then Inr [] else Inl OutOfBounds)"
| "decode_from decode_plus_ctl (c # uri) n decode_plus =
     (if n = 0 then Inr []
      else if c = CHR ''?'' then
        put c (decode_from decode_plus_ctl uri (n - 1) (decode_plus \<or> decode_plus_ctl < 0))
      else if c = CHR ''+'' \<and> decode_plus then
        put (CHR '' '') (decode_from decode_plus_ctl uri (n - 1) decode_plus)
      else if c = CHR ''%'' then
        (case uri of [] \<Rightarrow> Inl OutOfBounds
         | a # uri' \<Rightarrow>
            if EVUTIL_ISXDIGIT a then
              (case uri' of [] \<Rightarrow> Inl OutOfBounds
               | b # uri'' \<Rightarrow>
                  if EVUTIL_ISXDIGIT b
                  then put (char_of (16 * hex_val a + hex_val b)) (decode_from decode_plus_ctl uri'' (n - 3) decode_plus)
                  else put c (decode_from decode_plus_ctl uri (n - 1) decode_plus))
            else put c (decode_from decode_plus_ctl uri (n - 1) decode_plus))
      else put c (decode_from decode_plus_ctl uri (n - 1) decode_plus))"

text \<open>The bytes written to \<open>ret\<close> in front of the final zero; their number is the return value.\<close>

definition evhttp_decode_uri_internal :: "byte list \<Rightarrow> nat \<Rightarrow> int \<Rightarrow> fault + byte list" where
  "evhttp_decode_uri_internal uri len decode_plus_ctl =
     decode_from decode_plus_ctl uri len (decode_plus_ctl = 1)"

definition evhttp_decode_uri :: "byte list \<Rightarrow> fault + byte list" where
  "evhttp_decode_uri uri = evhttp_decode_uri_internal (uri @ [NUL]) (length uri) (- 1)"

definition evhttp_uridecode :: "byte list \<Rightarrow> bool \<Rightarrow> fault + byte list" where
  "evhttp_uridecode uri decode_plus =
     evhttp_decode_uri_internal (uri @ [NUL]) (length uri) (if decode_plus then 1 else 0)"

section \<open>Host patterns\<close>

text \<open>The \<^verbatim>\<open>while\<close> loop of the case \<^verbatim>\<open>'*'\<close> is \<open>star_match\<close>.\<close>

function (sequential) prefix_suffix_match :: "byte list \<Rightarrow> byte list \<Rightarrow> bool \<Rightarrow> bool"
  and star_match :: "byte list \<Rightarrow> byte list \<Rightarrow> bool \<Rightarrow> bool" where
  "prefix_suffix_match [] name ignorecase \<longleftrightarrow> name = []"
| "prefix_suffix_match (c # pattern) name ignorecase \<longleftrightarrow>
     (if c = CHR ''*'' then star_match pattern name ignorecase
      else if c \<noteq> char_at name 0 \<and> (\<not> ignorecase \<or> EVUTIL_TOLOWER c \<noteq> EVUTIL_TOLOWER (char_at name 0)) then False
      else prefix_suffix_match pattern (tl name) ignorecase)"
| "star_match pattern [] ignorecase \<longleftrightarrow> False"
| "star_match pattern (x # name) ignorecase \<longleftrightarrow>
     prefix_suffix_match pattern (x # name) ignorecase \<or> star_match pattern name ignorecase"
  by pat_completeness auto

termination
  by (relation "measures [\<lambda>x. case x of Inl (p, n, i) \<Rightarrow> 2 * length p | Inr (p, n, i) \<Rightarrow> 2 * length p + 1,
      \<lambda>x. case x of Inl (p, n, i) \<Rightarrow> length n | Inr (p, n, i) \<Rightarrow> length n]") auto

section \<open>URIs\<close>

record evhttp_uri =
  flags :: "32 word"
  scheme :: "byte list option"
  userinfo :: "byte list option"
  host :: "byte list option"
  port :: int
  path :: "byte list option"
  query :: "byte list option"
  fragment :: "byte list option"

definition EVHTTP_URI_NONCONFORMANT :: "32 word" where "EVHTTP_URI_NONCONFORMANT = 0x01"

definition evhttp_uri_new :: evhttp_uri where
  "evhttp_uri_new = \<lparr>flags = 0, scheme = None, userinfo = None, host = None, port = - 1,
     path = None, query = None, fragment = None\<rparr>"

definition evhttp_uri_set_flags :: "evhttp_uri \<Rightarrow> 32 word \<Rightarrow> evhttp_uri" where
  "evhttp_uri_set_flags uri f = uri\<lparr>flags := f\<rparr>"

text \<open>\<^verbatim>\<open>strchr (SUBDELIMS, c)\<close> also finds the terminator.\<close>

definition SUBDELIMS :: "byte list" where "SUBDELIMS = ''!$&'' @ [CHR 0x27] @ ''()*+,;=''"

definition is_subdelim :: "byte \<Rightarrow> bool" where
  "is_subdelim c \<longleftrightarrow> c \<in> set (SUBDELIMS @ [NUL])"

fun scheme_rest_ok :: "byte list \<Rightarrow> nat \<Rightarrow> bool" where
  "scheme_rest_ok s 0 \<longleftrightarrow> True"
| "scheme_rest_ok s (Suc n) \<longleftrightarrow>
     (if \<not> EVUTIL_ISALNUM (char_at s 0) \<and> char_at s 0 \<noteq> CHR ''+'' \<and> char_at s 0 \<noteq> CHR ''-'' \<and>
         char_at s 0 \<noteq> CHR ''.'' then False
      else scheme_rest_ok (tl s) n)"

definition scheme_ok :: "byte list \<Rightarrow> nat \<Rightarrow> bool" where
  "scheme_ok s n \<longleftrightarrow>
     (if n = 0 then False else if \<not> EVUTIL_ISALPHA (char_at s 0) then False
      else scheme_rest_ok (tl s) (n - 1))"

fun userinfo_ok :: "byte list \<Rightarrow> nat \<Rightarrow> bool" where
  "userinfo_ok s 0 \<longleftrightarrow> True"
| "userinfo_ok s (Suc n) \<longleftrightarrow>
     (if CHAR_IS_UNRESERVED (char_at s 0) \<or> is_subdelim (char_at s 0) \<or> char_at s 0 = CHR '':'' then
        userinfo_ok (tl s) n
      else if char_at s 0 = CHR ''%'' \<and> 2 < Suc n \<and> EVUTIL_ISXDIGIT (char_at s 1) \<and>
        EVUTIL_ISXDIGIT (char_at s 2) then userinfo_ok (drop 3 s) (n - 2)
      else False)"

fun regname_ok :: "byte list \<Rightarrow> nat \<Rightarrow> bool" where
  "regname_ok s 0 \<longleftrightarrow> True"
| "regname_ok s (Suc n) \<longleftrightarrow>
     (if CHAR_IS_UNRESERVED (char_at s 0) \<or> is_subdelim (char_at s 0) then regname_ok (tl s) n
      else if char_at s 0 = CHR ''%'' \<and> EVUTIL_ISXDIGIT (char_at s 1) \<and> EVUTIL_ISXDIGIT (char_at s 2)
      then regname_ok (drop 3 s) (n - 2)
      else False)"

text \<open>
  The arithmetic on \<^verbatim>\<open>int portnum\<close> wraps around at 32 bits, as the code's own test for a negative
  result supposes (the C standard leaves the overflow undefined); only a negative result is noticed.
\<close>

fun parse_port_from :: "int \<Rightarrow> byte list \<Rightarrow> nat \<Rightarrow> int" where
  "parse_port_from portnum s 0 = portnum"
| "parse_port_from portnum s (Suc n) =
     (if \<not> EVUTIL_ISDIGIT (char_at s 0) then - 1
      else
        (let portnum' = signed_take_bit 31 (portnum * 10 + (schar (char_at s 0) - 48)) in
         if portnum' < 0 then - 1 else parse_port_from portnum' (tl s) n))"

definition parse_port :: "byte list \<Rightarrow> nat \<Rightarrow> int" where
  "parse_port s n = parse_port_from 0 s n"

fun future_digits :: "byte list \<Rightarrow> nat \<Rightarrow> (byte list \<times> nat) option" where
  "future_digits s 0 = Some (s, 0)"
| "future_digits s (Suc n) =
     (if char_at s 0 = CHR ''.'' then Some (s, Suc n)
      else if EVUTIL_ISXDIGIT (char_at s 0) then future_digits (tl s) n else None)"

fun future_rest :: "byte list \<Rightarrow> nat \<Rightarrow> bool" where
  "future_rest s 0 \<longleftrightarrow> True"
| "future_rest s (Suc n) \<longleftrightarrow>
     (if CHAR_IS_UNRESERVED (char_at s 0) \<or> is_subdelim (char_at s 0) \<or> char_at s 0 = CHR '':''
      then future_rest (tl s) n else False)"

text \<open>0 for bad, 1 for IPv6, 2 for IPvFuture.\<close>

definition bracket_addr_ok :: "byte list \<Rightarrow> nat \<Rightarrow> fault + nat" where
  "bracket_addr_ok s n =
     (if n < 3 \<or> char_at s 0 \<noteq> CHR ''['' \<or> char_at s (n - 1) \<noteq> CHR '']'' then Inr 0
      else if char_at s 1 = CHR ''v'' then
        (if \<not> EVUTIL_ISXDIGIT (char_at s 2) then Inr 0
         else case future_digits (drop 2 s) (n - 3) of None \<Rightarrow> Inr 0
           | Some (s', k) \<Rightarrow>
               if char_at s' 0 \<noteq> CHR ''.'' then Inr 0
               else if future_rest (tl s') (k - 1) then Inr 2 else Inr 0)
      else if n - 2 \<ge> 64 then Inr 0
      else case evutil_inet_pton6 (take (n - 2) (drop 1 s)) of
             Inl e \<Rightarrow> Inl e | Inr a \<Rightarrow> Inr (if a \<noteq> None then 1 else 0))"

text \<open>
  \<^verbatim>\<open>parse_authority\<close> on \<open>[s, s + n)\<close>; \<open>None\<close> is the return value -1, after which the caller
  frees the URI. The first block looks for \<open>userinfo@\<close>, the second strips \<open>:port\<close> off the end.
\<close>

definition authority_userinfo :: "evhttp_uri \<Rightarrow> byte list \<Rightarrow> nat \<Rightarrow> (evhttp_uri \<times> byte list \<times> nat) option" where
  "authority_userinfo uri s n =
     (let k = length (takeWhile (\<lambda>c. c \<noteq> CHR ''@'') s) in
      if CHR ''@'' \<in> set s \<and> k < n then
        (if \<not> userinfo_ok s k then None
         else Some (uri\<lparr>userinfo := Some (take k s)\<rparr>, drop (k + 1) s, n - (k + 1)))
      else Some (uri, s, n))"

definition authority_port :: "evhttp_uri \<Rightarrow> byte list \<Rightarrow> nat \<Rightarrow> (evhttp_uri \<times> nat) option" where
  "authority_port uri cp n =
     (let d = length (takeWhile EVUTIL_ISDIGIT (rev (take n cp))) in
      if d < n \<and> char_at cp (n - d - 1) = CHR '':'' then
        (if d = 0 then Some (uri\<lparr>port := - 1\<rparr>, n - d - 1)
         else
           (let pt = parse_port (drop (n - d) cp) d in
            if pt < 0 then None else Some (uri\<lparr>port := pt\<rparr>, n - d - 1)))
      else Some (uri, n))"

definition authority_host :: "evhttp_uri \<Rightarrow> byte list \<Rightarrow> nat \<Rightarrow> fault + evhttp_uri option" where
  "authority_host uri cp n =
     (let found = Inr (Some (uri\<lparr>host := Some (take n cp)\<rparr>)) in
      if char_at cp 0 = CHR ''['' \<and> n \<ge> 2 \<and> char_at cp (n - 1) = CHR '']'' then
        (case bracket_addr_ok cp n of Inl e \<Rightarrow> Inl e | Inr v \<Rightarrow> if v = 0 then Inr None else found)
      else if \<not> regname_ok cp n then Inr None else found)"

definition parse_authority :: "evhttp_uri \<Rightarrow> byte list \<Rightarrow> nat \<Rightarrow> fault + evhttp_uri option" where
  "parse_authority uri s n =
     (if n = 0 then Inr (Some (uri\<lparr>host := Some []\<rparr>))
      else case authority_userinfo uri s n of None \<Rightarrow> Inr None
        | Some (uri, cp, n) \<Rightarrow> (case authority_port uri cp n of None \<Rightarrow> Inr None
            | Some (uri, n) \<Rightarrow> authority_host uri cp n))"

fun end_of_authority :: "byte list \<Rightarrow> byte list" where
  "end_of_authority [] = []"
| "end_of_authority (c # cp) =
     (if c = CHR ''?'' \<or> c = CHR ''#'' \<or> c = CHR ''/'' then c # cp else end_of_authority cp)"

datatype uri_part = PART_PATH | PART_QUERY | PART_FRAGMENT

function (sequential) end_of_path_rfc :: "byte list \<Rightarrow> uri_part \<Rightarrow> byte list" where
  "end_of_path_rfc [] part = []"
| "end_of_path_rfc (c # cp) part =
     (if CHAR_IS_UNRESERVED c \<or> is_subdelim c \<or> c = CHR '':'' \<or> c = CHR ''@'' \<or> c = CHR ''/'' then
        end_of_path_rfc cp part
      else if c = CHR ''%'' \<and> EVUTIL_ISXDIGIT (char_at cp 0) \<and> EVUTIL_ISXDIGIT (char_at cp 1) then
        end_of_path_rfc (drop 2 cp) part
      else if c = CHR ''?'' \<and> part \<noteq> PART_PATH then end_of_path_rfc cp part
      else c # cp)"
  by pat_completeness auto

termination
  by (relation "measure (\<lambda>(cp, part). length cp)") auto

definition end_of_path :: "byte list \<Rightarrow> uri_part \<Rightarrow> 32 word \<Rightarrow> byte list" where
  "end_of_path cp part fl =
     (if fl AND EVHTTP_URI_NONCONFORMANT \<noteq> 0 then
        (case part of
           PART_PATH \<Rightarrow> dropWhile (\<lambda>c. c \<noteq> CHR ''#'' \<and> c \<noteq> CHR ''?'') cp
         | PART_QUERY \<Rightarrow> dropWhile (\<lambda>c. c \<noteq> CHR ''#'') cp
         | PART_FRAGMENT \<Rightarrow> [])
      else end_of_path_rfc cp part)"

fun path_matches_noscheme :: "byte list \<Rightarrow> bool" where
  "path_matches_noscheme [] \<longleftrightarrow> True"
| "path_matches_noscheme (c # cp) \<longleftrightarrow>
     (if c = CHR '':'' then False else if c = CHR ''/'' then True else path_matches_noscheme cp)"

text \<open>The text in front of a suffix, and the part that a delimiter may introduce.\<close>

definition upto_ptr :: "byte list \<Rightarrow> byte list \<Rightarrow> byte list" where
  "upto_ptr s e = take (length s - length e) s"

definition part_behind :: "byte \<Rightarrow> uri_part \<Rightarrow> 32 word \<Rightarrow> byte list \<Rightarrow> byte list option \<times> byte list" where
  "part_behind c part fl readp =
     (if char_at readp 0 = c then
        (let e = end_of_path (tl readp) part fl in (Some (upto_ptr (tl readp) e), e))
      else (None, readp))"

definition parse_scheme :: "evhttp_uri \<Rightarrow> byte list \<Rightarrow> evhttp_uri \<times> byte list" where
  "parse_scheme uri readp =
     (let k = length (takeWhile (\<lambda>c. c \<noteq> CHR '':'') readp) in
      if CHR '':'' \<in> set readp \<and> scheme_ok readp k
      then (uri\<lparr>scheme := Some (take k readp)\<rparr>, drop (k + 1) readp) else (uri, readp))"

text \<open>The authority, if there is one: the URI, whether there was one, and the rest.\<close>

definition parse_net :: "evhttp_uri \<Rightarrow> byte list \<Rightarrow> fault + (evhttp_uri \<times> bool \<times> byte list) option" where
  "parse_net uri readp =
     (if char_at readp 0 = CHR ''/'' \<and> char_at readp 1 = CHR ''/'' then
        (let authority = drop 2 readp; path = end_of_authority authority in
         case parse_authority uri authority (length authority - length path) of
           Inl e \<Rightarrow> Inl e | Inr None \<Rightarrow> Inr None | Inr (Some uri') \<Rightarrow> Inr (Some (uri', True, path)))
      else Inr (Some (uri, False, readp)))"

definition parse_hier :: "evhttp_uri \<Rightarrow> bool \<Rightarrow> byte list \<Rightarrow> 32 word \<Rightarrow> evhttp_uri option" where
  "parse_hier uri got_authority p fl =
     (let e = end_of_path p PART_PATH fl; pth = upto_ptr p e;
          (q, e) = part_behind CHR ''?'' PART_QUERY fl e;
          (f, e) = part_behind CHR ''#'' PART_FRAGMENT fl e
      in if e \<noteq> [] then None
         else if \<not> got_authority \<and> char_at pth 0 = CHR ''/'' \<and> char_at pth 1 = CHR ''/'' then None
         else if got_authority \<and> char_at pth 0 \<noteq> CHR ''/'' \<and> char_at pth 0 \<noteq> NUL then None
         else if scheme uri = None \<and> \<not> path_matches_noscheme pth then None
         else Some (uri\<lparr>path := Some pth, query := q, fragment := f\<rparr>))"

definition evhttp_uri_parse_with_flags :: "byte list \<Rightarrow> 32 word \<Rightarrow> fault + evhttp_uri option" where
  "evhttp_uri_parse_with_flags source_uri fl =
     (let (uri, readp) = parse_scheme (evhttp_uri_new\<lparr>flags := fl\<rparr>) source_uri in
      case parse_net uri readp of Inl e \<Rightarrow> Inl e | Inr None \<Rightarrow> Inr None
      | Inr (Some (uri, got_authority, p)) \<Rightarrow> Inr (parse_hier uri got_authority p fl))"

definition evhttp_uri_parse :: "byte list \<Rightarrow> fault + evhttp_uri option" where
  "evhttp_uri_parse source_uri = evhttp_uri_parse_with_flags source_uri 0"

section \<open>Printing and changing a URI\<close>

definition add_opt :: "byte list \<Rightarrow> byte list option \<Rightarrow> byte list \<Rightarrow> byte list" where
  "add_opt pre f post = (case f of None \<Rightarrow> [] | Some s \<Rightarrow> pre @ s @ post)"

definition joined_authority :: "evhttp_uri \<Rightarrow> byte list" where
  "joined_authority uri = (case host uri of None \<Rightarrow> []
     | Some h \<Rightarrow> ''//'' @ add_opt [] (userinfo uri) ''@'' @ h
         @ (if port uri \<ge> 0 then CHR '':'' # dec_int (port uri) else []))"

text \<open>
  \<^verbatim>\<open>evhttp_uri_join\<close> into a buffer of \<open>limit\<close> bytes: the string without its terminator, \<open>None\<close>
  if \<^verbatim>\<open>NULL\<close> is returned.
\<close>

definition evhttp_uri_join :: "evhttp_uri \<Rightarrow> nat \<Rightarrow> byte list option" where
  "evhttp_uri_join uri limit =
     (if limit = 0 then None
      else if host uri \<noteq> None \<and> (case path uri of None \<Rightarrow> False
          | Some p \<Rightarrow> char_at p 0 \<noteq> CHR ''/'' \<and> char_at p 0 \<noteq> NUL) then None
      else
        (let tmp = add_opt [] (scheme uri) '':'' @ joined_authority uri @ add_opt [] (path uri) []
               @ add_opt ''?'' (query uri) [] @ add_opt ''#'' (fragment uri) []
         in if length tmp + 1 > limit then None else Some tmp))"

definition evhttp_uri_get_scheme :: "evhttp_uri \<Rightarrow> byte list option" where "evhttp_uri_get_scheme uri = scheme uri"
definition evhttp_uri_get_userinfo :: "evhttp_uri \<Rightarrow> byte list option" where "evhttp_uri_get_userinfo uri = userinfo uri"
definition evhttp_uri_get_host :: "evhttp_uri \<Rightarrow> byte list option" where "evhttp_uri_get_host uri = host uri"
definition evhttp_uri_get_port :: "evhttp_uri \<Rightarrow> int" where "evhttp_uri_get_port uri = port uri"
definition evhttp_uri_get_path :: "evhttp_uri \<Rightarrow> byte list option" where "evhttp_uri_get_path uri = path uri"
definition evhttp_uri_get_query :: "evhttp_uri \<Rightarrow> byte list option" where "evhttp_uri_get_query uri = query uri"
definition evhttp_uri_get_fragment :: "evhttp_uri \<Rightarrow> byte list option" where "evhttp_uri_get_fragment uri = fragment uri"

text \<open>
  A setter returns the return value and the URI; a refused value leaves the URI as it was. The
  argument \<open>nomem\<close> says whether \<^verbatim>\<open>mm_strdup\<close> fails: then the old value is gone, the component is
  \<^verbatim>\<open>NULL\<close>, and the result is -1.
\<close>

definition URI_SET_STR :: "bool \<Rightarrow> byte list option \<Rightarrow> int \<times> byte list option" where
  "URI_SET_STR nomem f = (case f of None \<Rightarrow> (0, None) | Some x \<Rightarrow> if nomem then (- 1, None) else (0, Some x))"

definition evhttp_uri_set_scheme :: "bool \<Rightarrow> evhttp_uri \<Rightarrow> byte list option \<Rightarrow> int \<times> evhttp_uri" where
  "evhttp_uri_set_scheme nomem uri s =
     (if (case s of None \<Rightarrow> False | Some x \<Rightarrow> \<not> scheme_ok x (length x)) then (- 1, uri)
      else (let (r, v) = URI_SET_STR nomem s in (r, uri\<lparr>scheme := v\<rparr>)))"

definition evhttp_uri_set_userinfo :: "bool \<Rightarrow> evhttp_uri \<Rightarrow> byte list option \<Rightarrow> int \<times> evhttp_uri" where
  "evhttp_uri_set_userinfo nomem uri s =
     (if (case s of None \<Rightarrow> False | Some x \<Rightarrow> \<not> userinfo_ok x (length x)) then (- 1, uri)
      else (let (r, v) = URI_SET_STR nomem s in (r, uri\<lparr>userinfo := v\<rparr>)))"

definition host_bad :: "byte list option \<Rightarrow> fault + bool" where
  "host_bad s = (case s of
      None \<Rightarrow> Inr False
    | Some x \<Rightarrow>
        if char_at x 0 = CHR ''['' then
          (case bracket_addr_ok x (length x) of Inl e \<Rightarrow> Inl e | Inr v \<Rightarrow> Inr (v = 0))
        else Inr (\<not> regname_ok x (length x)))"

definition evhttp_uri_set_host :: "bool \<Rightarrow> evhttp_uri \<Rightarrow> byte list option \<Rightarrow> fault + (int \<times> evhttp_uri)" where
  "evhttp_uri_set_host nomem uri s = (case host_bad s of Inl e \<Rightarrow> Inl e
     | Inr bad \<Rightarrow> if bad then Inr (- 1, uri) else (let (r, v) = URI_SET_STR nomem s in Inr (r, uri\<lparr>host := v\<rparr>)))"

definition evhttp_uri_set_port :: "evhttp_uri \<Rightarrow> int \<Rightarrow> int \<times> evhttp_uri" where
  "evhttp_uri_set_port uri p = (if p < - 1 then (- 1, uri) else (0, uri\<lparr>port := p\<rparr>))"

definition path_bad :: "evhttp_uri \<Rightarrow> uri_part \<Rightarrow> byte list option \<Rightarrow> bool" where
  "path_bad uri part s = (case s of None \<Rightarrow> False | Some x \<Rightarrow> end_of_path x part (flags uri) \<noteq> [])"

definition evhttp_uri_set_path :: "bool \<Rightarrow> evhttp_uri \<Rightarrow> byte list option \<Rightarrow> int \<times> evhttp_uri" where
  "evhttp_uri_set_path nomem uri s =
     (if path_bad uri PART_PATH s then (- 1, uri) else (let (r, v) = URI_SET_STR nomem s in (r, uri\<lparr>path := v\<rparr>)))"

definition evhttp_uri_set_query :: "bool \<Rightarrow> evhttp_uri \<Rightarrow> byte list option \<Rightarrow> int \<times> evhttp_uri" where
  "evhttp_uri_set_query nomem uri s =
     (if path_bad uri PART_QUERY s then (- 1, uri) else (let (r, v) = URI_SET_STR nomem s in (r, uri\<lparr>query := v\<rparr>)))"

definition evhttp_uri_set_fragment :: "bool \<Rightarrow> evhttp_uri \<Rightarrow> byte list option \<Rightarrow> int \<times> evhttp_uri" where
  "evhttp_uri_set_fragment nomem uri s =
     (if path_bad uri PART_FRAGMENT s then (- 1, uri) else (let (r, v) = URI_SET_STR nomem s in (r, uri\<lparr>fragment := v\<rparr>)))"

section \<open>Headers and query strings\<close>

text \<open>
  A queue of headers is the list of its key-value pairs. \<^verbatim>\<open>mm_strdup\<close> copies up to the first
  zero byte.
\<close>

type_synonym evkeyvalq = "(byte list \<times> byte list) list"

definition evhttp_find_header :: "evkeyvalq \<Rightarrow> byte list \<Rightarrow> byte list option" where
  "evhttp_find_header headers key =
     map_option snd (find (\<lambda>h. evutil_ascii_strcasecmp (fst h) key = 0) headers)"

definition evhttp_clear_headers :: "evkeyvalq \<Rightarrow> evkeyvalq" where
  "evhttp_clear_headers headers = []"

fun evhttp_remove_header :: "evkeyvalq \<Rightarrow> byte list \<Rightarrow> int \<times> evkeyvalq" where
  "evhttp_remove_header [] key = (- 1, [])"
| "evhttp_remove_header (h # headers) key =
     (if evutil_ascii_strcasecmp (fst h) key = 0 then (0, headers)
      else (let (r, hs) = evhttp_remove_header headers key in (r, h # hs)))"

definition is_newline :: "byte \<Rightarrow> bool" where
  "is_newline c \<longleftrightarrow> c = CHR 0x0D \<or> c = CHR 0x0A"

function evhttp_header_is_valid_value :: "byte list \<Rightarrow> bool" where
  "evhttp_header_is_valid_value p =
     (let q = dropWhile (\<lambda>c. \<not> is_newline c) p in
      if q = [] then True
      else
        (let p' = dropWhile is_newline q in
         if char_at p' 0 \<noteq> CHR '' '' \<and> char_at p' 0 \<noteq> CHR 0x09 then False
         else evhttp_header_is_valid_value p'))"
  by pat_completeness auto

termination
proof (relation "measure length")
  fix p q p' :: "byte list"
  assume q: "q = dropWhile (\<lambda>c. \<not> is_newline c) p" "q \<noteq> []" "p' = dropWhile is_newline q"
  then have "is_newline (hd q)" using hd_dropWhile by blast
  then have "length p' < length q" using q(2,3) by (cases q) (auto simp: le_imp_less_Suc length_dropWhile_le)
  also have "\<dots> \<le> length p" using q(1) by (simp add: length_dropWhile_le)
  finally show "(p', p) \<in> measure length" by simp
qed simp

declare evhttp_header_is_valid_value.simps [simp del]

text \<open>
  \<open>nomem i\<close> says whether the \<open>i\<close>-th of the three allocations of a header fails: the struct, its key and its value.
\<close>

definition evhttp_add_header_internal :: "(nat \<Rightarrow> bool) \<Rightarrow> evkeyvalq \<Rightarrow> byte list \<Rightarrow> byte list \<Rightarrow> int \<times> evkeyvalq" where
  "evhttp_add_header_internal nomem headers key value =
     (if nomem 0 then (- 1, headers)
      else if nomem 1 then (- 1, headers)
      else if nomem 2 then (- 1, headers)
      else (0, headers @ [(cstr key, cstr value)]))"

definition evhttp_add_header :: "(nat \<Rightarrow> bool) \<Rightarrow> evkeyvalq \<Rightarrow> byte list \<Rightarrow> byte list \<Rightarrow> int \<times> evkeyvalq" where
  "evhttp_add_header nomem headers key value =
     (if CHR 0x0D \<in> set key \<or> CHR 0x0A \<in> set key then (- 1, headers)
      else if \<not> evhttp_header_is_valid_value value then (- 1, headers)
      else evhttp_add_header_internal nomem headers key value)"

text \<open>\<^verbatim>\<open>strsep\<close> with one delimiter: the token and what follows the delimiter, if it was found.\<close>

definition strsep :: "byte \<Rightarrow> byte list \<Rightarrow> byte list \<times> byte list option" where
  "strsep d s = (let k = length (takeWhile (\<lambda>c. c \<noteq> d) s) in
     (take k s, if d \<in> set s then Some (drop (k + 1) s) else None))"

lemma strsep_shorter: "strsep d s = (tok, Some r) \<Longrightarrow> length r < length s"
proof -
  assume "strsep d s = (tok, Some r)"
  then have "d \<in> set s" "r = drop (length (takeWhile (\<lambda>c. c \<noteq> d) s) + 1) s"
    by (auto simp: strsep_def Let_def split: if_splits)
  then show ?thesis by (cases s) auto
qed

text \<open>The loop over the arguments; \<open>None\<close> in the result is the jump to \<^verbatim>\<open>error\<close>.\<close>

function query_loop :: "byte list \<Rightarrow> evkeyvalq \<Rightarrow> fault + evkeyvalq option" where
  "query_loop p headers =
     (if p = [] then Inr (Some headers)
      else
        (let (argument, rest) = strsep CHR ''&'' p; (key, value) = strsep CHR ''='' argument in
         case value of None \<Rightarrow> Inr None
         | Some v \<Rightarrow>
             if key = [] then Inr None
             else
               (case evhttp_decode_uri_internal (v @ [NUL]) (length v) 1 of Inl e \<Rightarrow> Inl e
                | Inr decoded_value \<Rightarrow>
                    (let headers' = snd (evhttp_add_header_internal (\<lambda>_. False) headers key decoded_value) in
                     case rest of None \<Rightarrow> Inr (Some headers') | Some p' \<Rightarrow> query_loop p' headers'))))"
  by pat_completeness auto

termination
  by (relation "measure (\<lambda>(p, h). length p)") (auto dest: strsep_shorter [OF sym])

declare query_loop.simps [simp del]

definition evhttp_parse_query_impl :: "byte list \<Rightarrow> bool \<Rightarrow> fault + (int \<times> evkeyvalq)" where
  "evhttp_parse_query_impl str is_whole_uri =
     (let answer = (\<lambda>query_part. case query_part of None \<Rightarrow> Inr (0, [])
          | Some q \<Rightarrow> if q = [] then Inr (0, [])
             else (case query_loop q [] of Inl e \<Rightarrow> Inl e
                   | Inr None \<Rightarrow> Inr (- 1, evhttp_clear_headers []) | Inr (Some h) \<Rightarrow> Inr (0, h)))
      in if is_whole_uri then
           (case evhttp_uri_parse str of Inl e \<Rightarrow> Inl e
            | Inr None \<Rightarrow> Inr (- 1, evhttp_clear_headers [])
            | Inr (Some uri) \<Rightarrow> answer (evhttp_uri_get_query uri))
         else answer (Some str))"

definition evhttp_parse_query :: "byte list \<Rightarrow> fault + (int \<times> evkeyvalq)" where
  "evhttp_parse_query uri = evhttp_parse_query_impl uri True"

definition evhttp_parse_query_str :: "byte list \<Rightarrow> fault + (int \<times> evkeyvalq)" where
  "evhttp_parse_query_str uri = evhttp_parse_query_impl uri False"

end
