(* ===== verification/Http_Codec.thy ===== *)
theory Http_Codec
  imports Http_Uri
begin

text \<open>
  Facts on the percent encoding and on host patterns of \<^verbatim>\<open>libevent/http.c\<close>: which characters the
  table \<^verbatim>\<open>uri_chars\<close> marks, that decoding undoes encoding and never leaves its arrays, and the
  globs that \<^verbatim>\<open>prefix_suffix_match\<close> accepts.
\<close>

section \<open>The table of unreserved characters\<close>

definition unreserved :: "nat \<Rightarrow> bool" where
  "unreserved n \<longleftrightarrow> n = 45 \<or> n = 46 \<or> (48 \<le> n \<and> n \<le> 57) \<or> (65 \<le> n \<and> n \<le> 90) \<or> n = 95
     \<or> (97 \<le> n \<and> n \<le> 122) \<or> n = 126"

lemma uri_chars_table: "uri_chars = map (\<lambda>n. if unreserved n then 1 else 0) [0..<256]"
  unfolding uri_chars_def by (simp add: upt_rec unreserved_def)

lemma CHAR_IS_UNRESERVED_iff: "CHAR_IS_UNRESERVED c \<longleftrightarrow> unreserved (of_char c)"
  by (simp add: CHAR_IS_UNRESERVED_def uri_chars_table)

lemma unreserved_not_special:
  assumes "CHAR_IS_UNRESERVED c"
  shows "c \<noteq> CHR ''?''" "c \<noteq> CHR ''+''" "c \<noteq> CHR ''%''" "c \<noteq> NUL" "c \<noteq> CHR ''#''" "c \<noteq> CHR ''/''"
    "c \<noteq> CHR ''@''" "c \<noteq> CHR '':''" "c \<noteq> CHR ''[''" "c \<noteq> CHR '']''"
  using assms by (auto simp: CHAR_IS_UNRESERVED_iff unreserved_def)

section \<open>Decoding what was encoded\<close>

definition encoded :: "bool \<Rightarrow> byte list \<Rightarrow> byte list" where
  "encoded space_as_plus s = concat (map (encode_char space_as_plus) s)"

lemma encoded_simps [simp]:
  "encoded p [] = []" "encoded p (c # s) = encode_char p c @ encoded p s"
  by (simp_all add: encoded_def)

lemma encode_char_no_NUL: "NUL \<notin> set (encode_char p c)"
proof -
  have h: "hex_char 65 d \<noteq> NUL" if "d < 16" for d
    using hex_char(1) [of d 65] isxdigit_not_special(3) that by metis
  have "(of_char c :: nat) div 16 < 16" "(of_char c :: nat) mod 16 < 16"
    by (simp_all add: div_less_iff_less_mult)
  then show ?thesis
    using h h [symmetric] unreserved_not_special(4) [of c] by (auto simp: encode_char_def)
qed

lemma encoded_no_NUL: "NUL \<notin> set (encoded p s)"
  using encode_char_no_NUL by (induction s) auto

lemma decode_encode_char:
  assumes "p \<longrightarrow> dp"  and "dp \<longrightarrow> p"
  shows "decode_from ctl (encode_char p c @ r) (length (encode_char p c) + n) dp = put c (decode_from ctl r n dp)"
proof -
  consider (plain) "CHAR_IS_UNRESERVED c" | (plus) "\<not> CHAR_IS_UNRESERVED c" "c = CHR '' ''" "p"
    | (hex) "\<not> CHAR_IS_UNRESERVED c" "\<not> (c = CHR '' '' \<and> p)" by blast
  then show ?thesis
  proof cases
    case plain
    then show ?thesis using unreserved_not_special [OF plain] by (simp add: encode_char_def)
  next
    case plus
    then show ?thesis using assms by (simp add: encode_char_def)
  next
    case hex
    have d: "(of_char c :: nat) div 16 < 16" by (simp add: div_less_iff_less_mult)
    have "char_of (16 * (of_char c div 16) + of_char c mod 16 :: nat) = c"
      by (simp only: mult_div_mod_eq) simp
    moreover have "encode_char p c = [CHR ''%'', hex_char 65 (of_char c div 16), hex_char 65 (of_char c mod 16)]"
      using hex by (simp add: encode_char_def)
    ultimately show ?thesis using d by simp
  qed
qed

lemma decode_encoded:
  assumes "p \<longleftrightarrow> dp"
  shows "decode_from ctl (encoded p s @ r) (length (encoded p s)) dp = Inr s"
proof (induction s)
  case (Cons c s)
  then show ?case using assms decode_encode_char [of p dp ctl c "encoded p s @ r" "length (encoded p s)"] by simp
qed (cases r; simp)

text \<open>Decoding a terminated string neither leaves it nor writes more than its length.\<close>

lemma put_Inr [simp]: "(\<exists>t. put c x = Inr t \<and> P t) \<longleftrightarrow> (\<exists>t. x = Inr t \<and> P (c # t))"
  by (cases x) auto

lemma decode_fits: "\<exists>t. decode_from ctl (s @ [NUL]) (length s) dp = Inr t \<and> length t \<le> length s"
proof (induction "length s" arbitrary: s dp rule: less_induct)
  case less
  have IH: "\<exists>t. decode_from ctl (s' @ [NUL]) (length s') dp' = Inr t \<and> Suc (length t) \<le> length s"
    if "length s' < length s" for s' dp'
    using less [OF that, of dp'] that by auto
  show ?case
  proof (cases s)
    case (Cons c s')
    note tl = IH [of s']
    show ?thesis
    proof (cases "c = CHR ''%'' \<and> (\<exists>a b s''. s' = a # b # s'' \<and> isxdigit a \<and> isxdigit b)")
      case True
      then obtain a b s'' where s: "s' = a # b # s''" "isxdigit a" "isxdigit b" "c = CHR ''%''" by blast
      then show ?thesis using IH [of s''] Cons by simp
    next
      case False
      have n: "\<not> isxdigit NUL" by (simp add: isxdigit_def)
      show ?thesis using tl False n Cons by (auto split: list.splits simp: Cons_eq_append_conv append_eq_Cons_conv)
    qed
  qed simp
qed

section \<open>Globs\<close>

definition same_char :: "bool \<Rightarrow> byte \<Rightarrow> byte \<Rightarrow> bool" where
  "same_char ignorecase c d \<longleftrightarrow> c = d \<or> (ignorecase \<and> EVUTIL_TOLOWER c = EVUTIL_TOLOWER d)"

text \<open>The usual meaning of a pattern: a star stands for any text, the empty one too.\<close>

fun glob :: "bool \<Rightarrow> byte list \<Rightarrow> byte list \<Rightarrow> bool" where
  "glob ignorecase [] s \<longleftrightarrow> s = []"
| "glob ignorecase (c # p) s \<longleftrightarrow>
     (if c = CHR ''*'' then \<exists>k \<le> length s. glob ignorecase p (drop k s)
      else s \<noteq> [] \<and> same_char ignorecase c (hd s) \<and> glob ignorecase p (tl s))"

lemma star_match_iff: "star_match p s i \<longleftrightarrow> (\<exists>k < length s. prefix_suffix_match p (drop k s) i)"
proof (induction s)
  case (Cons x s)
  have "(\<exists>k < Suc (length s). prefix_suffix_match p (drop k (x # s)) i) \<longleftrightarrow>
    prefix_suffix_match p (x # s) i \<or> (\<exists>k < length s. prefix_suffix_match p (drop k s) i)"
    by (auto simp: less_Suc_eq_0_disj)
  then show ?case using Cons by simp
qed simp

lemma glob_Nil: "glob i p [] \<Longrightarrow> p \<noteq> [] \<Longrightarrow> last p = CHR ''*''"
  by (induction p) (auto split: if_splits)

lemma prefix_suffix_match_glob:
  "NUL \<notin> set p \<Longrightarrow> prefix_suffix_match p s i \<longleftrightarrow> glob i p s \<and> (p = [] \<or> last p \<noteq> CHR ''*'')"
proof (induction p arbitrary: s)
  case (Cons c p)
  have IH: "prefix_suffix_match p s i \<longleftrightarrow> glob i p s \<and> (p = [] \<or> last p \<noteq> CHR ''*'')" for s
    using Cons by simp
  show ?case
  proof (cases "c = CHR ''*''")
    case star: True
    show ?thesis
    proof (cases "p = []")
      case True
      then show ?thesis using star IH by (auto simp: star_match_iff)
    next
      case False
      have "(\<exists>k < length s. glob i p (drop k s)) \<longleftrightarrow> (\<exists>k \<le> length s. glob i p (drop k s))"
        if "last p \<noteq> CHR ''*''"
      proof -
        have "k < length s" if "k \<le> length s" "glob i p (drop k s)" for k
          using that glob_Nil [of i p] \<open>last p \<noteq> CHR ''*''\<close> False
          by (cases "k = length s") (auto simp: le_less)
        then show ?thesis using less_imp_le by blast
      qed
      then show ?thesis using star False IH by (auto simp: star_match_iff)
    qed
  next
    case False
    have c: "c \<noteq> NUL" using Cons.prems by auto
    then have n: "EVUTIL_TOLOWER c \<noteq> EVUTIL_TOLOWER NUL" by (metis tolower_NUL)
    show ?thesis
      using False c n IH by (cases s) (auto simp: char_at_def same_char_def glob_Nil)
  qed
qed simp

end
