(* ===== verification/Uri_Facts.thy ===== *)
theory Uri_Facts
  imports Http_Codec Inet_Facts
begin

unbundle bit_operations_syntax

text \<open>
  How the URI parser of \<^verbatim>\<open>libevent/http.c\<close> cuts its input. The scanners for path, query and
  fragment share one contract, the locale \<open>part_scanner\<close>: a scanner splits off a prefix it accepts as
  a whole, and it stops at its delimiters. It is interpreted for every part, with and without
  \<^verbatim>\<open>EVHTTP_URI_NONCONFORMANT\<close>. The rest of the theory describes scheme, authority and the whole
  string in terms of what the components of a URI may look like.
\<close>

section \<open>Scanners\<close>

locale part_scanner =
  fixes eop :: "byte list \<Rightarrow> byte list" and delim :: "byte \<Rightarrow> bool"
  assumes split: "\<exists>p. s = p @ eop s \<and> eop p = []"
    and join: "eop p = [] \<Longrightarrow> e = [] \<or> delim (hd e) \<Longrightarrow> eop (p @ e) = e"
begin

lemma upto_split: "s = upto_ptr s (eop s) @ eop s" "eop (upto_ptr s (eop s)) = []"
proof -
  obtain p where p: "s = p @ eop s" "eop p = []" using split by blast
  then have "upto_ptr s (eop s) = p" by (metis add_diff_cancel_right' append_eq_conv_conj length_append upto_ptr_def)
  then show "s = upto_ptr s (eop s) @ eop s" "eop (upto_ptr s (eop s)) = []" using p by auto
qed

lemma upto_join:
  assumes "eop p = []" "e = [] \<or> delim (hd e)"
  shows "eop (p @ e) = e" "upto_ptr (p @ e) (eop (p @ e)) = p"
  using join [OF assms] by (simp_all add: upto_ptr_def)

lemma accepts_iff: "eop s = [] \<longleftrightarrow> upto_ptr s (eop s) = s"
  using upto_split(1) [of s] by (metis append_Nil2 append_self_conv)

end

definition part_delim :: "uri_part \<Rightarrow> byte \<Rightarrow> bool" where
  "part_delim part c = (case part of PART_PATH \<Rightarrow> c = CHR ''?'' \<or> c = CHR ''#''
     | PART_QUERY \<Rightarrow> c = CHR ''#'' | PART_FRAGMENT \<Rightarrow> False)"

definition pchar :: "byte \<Rightarrow> bool" where
  "pchar c \<longleftrightarrow> CHAR_IS_UNRESERVED c \<or> is_subdelim c \<or> c = CHR '':'' \<or> c = CHR ''@'' \<or> c = CHR ''/''"

lemma is_subdelim_special:
  "\<not> is_subdelim CHR ''?''" "\<not> is_subdelim CHR ''#''" "\<not> is_subdelim CHR ''/''" "\<not> is_subdelim CHR ''@''"
  "\<not> is_subdelim CHR '':''" "\<not> is_subdelim CHR ''%''" "\<not> is_subdelim CHR ''[''" "\<not> is_subdelim CHR '']''"
  by (simp_all add: is_subdelim_def SUBDELIMS_def)

lemma pchar_special: "\<not> pchar CHR ''?''" "\<not> pchar CHR ''#''" "\<not> pchar CHR ''%''"
  using unreserved_not_special(1,3,5) is_subdelim_special by (auto simp: pchar_def)

lemma rfc_split: "\<exists>p. s = p @ end_of_path_rfc s part \<and> end_of_path_rfc p part = []"
proof (induction s part rule: end_of_path_rfc.induct)
  case (2 c cp part)
  consider (plain) "pchar c" | (pct) "\<not> pchar c" "c = CHR ''%''" "isxdigit (char_at cp 0)" "isxdigit (char_at cp 1)"
    | (qm) "\<not> pchar c" "c = CHR ''?''" "part \<noteq> PART_PATH"
    | (halt) "\<not> pchar c" "\<not> (c = CHR ''%'' \<and> isxdigit (char_at cp 0) \<and> isxdigit (char_at cp 1))" "\<not> (c = CHR ''?'' \<and> part \<noteq> PART_PATH)"
    by blast
  then show ?case
  proof cases
    case plain
    then obtain p where "cp = p @ end_of_path_rfc cp part" "end_of_path_rfc p part = []"
      using 2(1) unfolding pchar_def by blast
    then show ?thesis using plain by (intro exI [of _ "c # p"]) (auto simp: pchar_def)
  next
    case pct
    then obtain p where p: "drop 2 cp = p @ end_of_path_rfc (drop 2 cp) part" "end_of_path_rfc p part = []"
      using 2(2) unfolding pchar_def by auto
    obtain a b r where cp: "cp = a # b # r"
      using pct(3,4) by (cases cp; cases "tl cp") (auto simp: char_at_def isxdigit_def split: if_splits)
    then show ?thesis using pct p by (intro exI [of _ "c # a # b # p"]) (auto simp: pchar_def char_at_def)
  next
    case qm
    then obtain p where "cp = p @ end_of_path_rfc cp part" "end_of_path_rfc p part = []"
      using 2(3) unfolding pchar_def by auto
    then show ?thesis using qm by (intro exI [of _ "c # p"]) (auto simp: pchar_def)
  next
    case halt
    then show ?thesis by (intro exI [of _ "[]"]) (auto simp: pchar_def)
  qed
qed simp

lemma rfc_join:
  "end_of_path_rfc p part = [] \<Longrightarrow> e = [] \<or> part_delim part (hd e) \<Longrightarrow> end_of_path_rfc (p @ e) part = e"
proof (induction p part rule: end_of_path_rfc.induct)
  case (1 part)
  show ?case
  proof (cases e)
    case (Cons c r)
    then have "c = CHR ''?'' \<and> part = PART_PATH \<or> c = CHR ''#''"
      using 1 by (auto simp: part_delim_def split: uri_part.splits)
    then show ?thesis using Cons pchar_special by (auto simp: pchar_def)
  qed simp
next
  case (2 c cp part)
  have "isxdigit (char_at (cp @ e) 0) \<and> isxdigit (char_at (cp @ e) 1)"
    if "isxdigit (char_at cp 0) \<and> isxdigit (char_at cp 1)"
    using that by (cases cp; cases "tl cp") (auto simp: char_at_def isxdigit_def split: if_splits)
  moreover have "2 \<le> length cp" if "isxdigit (char_at cp 0) \<and> isxdigit (char_at cp 1)"
    using that by (cases cp; cases "tl cp") (auto simp: char_at_def isxdigit_def split: if_splits)
  ultimately show ?case using 2 by (auto split: if_splits)
qed

interpretation rfc: part_scanner "\<lambda>s. end_of_path_rfc s part" "part_delim part" for part
  by unfold_locales (rule rfc_split, rule rfc_join)

lemma eop_rfc: "fl AND EVHTTP_URI_NONCONFORMANT = 0 \<Longrightarrow> end_of_path s part fl = end_of_path_rfc s part"
  by (simp add: end_of_path_def)

lemma loose_scanner:
  assumes "\<And>s. eop s = dropWhile (\<lambda>c. \<not> d c) s"
  shows "part_scanner eop d"
proof
  fix s show "\<exists>p. s = p @ eop s \<and> eop p = []"
    unfolding assms by (intro exI [of _ "takeWhile (\<lambda>c. \<not> d c) s"]) (auto dest: set_takeWhileD)
next
  fix p e assume "eop p = []" "e = [] \<or> d (hd e)"
  then show "eop (p @ e) = e" unfolding assms by (cases e) (auto simp: dropWhile_append)
qed

lemma dropWhile_all: "dropWhile (\<lambda>c. True) s = []"
  by (induction s) simp_all

interpretation parts: part_scanner "\<lambda>s. end_of_path s part fl" "part_delim part" for part fl
proof (cases "fl AND EVHTTP_URI_NONCONFORMANT = 0")
  case True
  then show "part_scanner (\<lambda>s. end_of_path s part fl) (part_delim part)"
    using rfc.part_scanner_axioms by (simp add: eop_rfc)
next
  case False
  then show "part_scanner (\<lambda>s. end_of_path s part fl) (part_delim part)"
    by (intro loose_scanner) (cases part; simp add: end_of_path_def part_delim_def conj_commute dropWhile_all)
qed

section \<open>Path, query and fragment\<close>

definition part_ok :: "uri_part \<Rightarrow> 32 word \<Rightarrow> byte list option \<Rightarrow> bool" where
  "part_ok part fl s \<longleftrightarrow> (case s of None \<Rightarrow> True | Some x \<Rightarrow> end_of_path x part fl = [])"

lemma path_bad_iff: "path_bad uri part s \<longleftrightarrow> \<not> part_ok part (flags uri) s"
  by (simp add: path_bad_def part_ok_def split: option.split)

lemma part_behind_split:
  assumes "part_behind c part fl e = (q, e')" "c \<noteq> NUL"
  shows "e = add_opt [c] q [] @ e'" "part_ok part fl q" "q = None \<Longrightarrow> char_at e' 0 \<noteq> c"
proof -
  have hd: "e = c # tl e" if "char_at e 0 = c"
    using that assms(2) by (cases e) (auto simp: char_at_def)
  have "e = add_opt [c] q [] @ e' \<and> part_ok part fl q \<and> (q = None \<longrightarrow> char_at e' 0 \<noteq> c)"
  proof (cases "char_at e 0 = c")
    case True
    then have "q = Some (upto_ptr (tl e) (end_of_path (tl e) part fl))" "e' = end_of_path (tl e) part fl"
      using assms(1) by (auto simp: part_behind_def Let_def)
    then show ?thesis using hd [OF True] parts.upto_split [where fl = fl and part = part and s = "tl e"]
      by (simp add: add_opt_def part_ok_def)
  qed (use assms(1) in \<open>auto simp: part_behind_def add_opt_def part_ok_def\<close>)
  then show "e = add_opt [c] q [] @ e'" "part_ok part fl q" "q = None \<Longrightarrow> char_at e' 0 \<noteq> c" by auto
qed

lemma part_behind_join:
  assumes "part_ok part fl q" "e' = [] \<or> part_delim part (hd e')" "q = None \<Longrightarrow> char_at e' 0 \<noteq> c"
  shows "part_behind c part fl (add_opt [c] q [] @ e') = (q, e')"
proof (cases q)
  case (Some x)
  then show ?thesis using assms parts.upto_join [of x part fl e']
    by (simp add: part_behind_def add_opt_def part_ok_def char_at_def)
qed (use assms in \<open>simp add: part_behind_def add_opt_def\<close>)

definition hier_ok :: "evhttp_uri \<Rightarrow> bool" where
  "hier_ok u \<longleftrightarrow> (case path u of None \<Rightarrow> False | Some p \<Rightarrow>
     (if host u = None then \<not> (char_at p 0 = CHR ''/'' \<and> char_at p 1 = CHR ''/'')
      else char_at p 0 = CHR ''/'' \<or> p = []) \<and> (scheme u = None \<longrightarrow> path_matches_noscheme p))"

definition parts_ok :: "evhttp_uri \<Rightarrow> bool" where
  "parts_ok u \<longleftrightarrow> part_ok PART_PATH (flags u) (path u) \<and> part_ok PART_QUERY (flags u) (query u)
     \<and> part_ok PART_FRAGMENT (flags u) (fragment u)"

definition hier_text :: "evhttp_uri \<Rightarrow> byte list" where
  "hier_text u = add_opt [] (path u) [] @ add_opt ''?'' (query u) [] @ add_opt ''#'' (fragment u) []"

lemma parse_hier_Some:
  assumes "parse_hier uri (host uri \<noteq> None) p (flags uri) = Some u" "NUL \<notin> set p"
  shows "p = hier_text u" "parts_ok u" "hier_ok u"
    "u = uri\<lparr>path := path u, query := query u, fragment := fragment u\<rparr>"
proof -
  let ?fl = "flags uri"
  obtain q e1 f e2 where q: "part_behind CHR ''?'' PART_QUERY ?fl (end_of_path p PART_PATH ?fl) = (q, e1)"
    and f: "part_behind CHR ''#'' PART_FRAGMENT ?fl e1 = (f, e2)" by fastforce
  let ?pth = "upto_ptr p (end_of_path p PART_PATH ?fl)"
  have u: "u = uri\<lparr>path := Some ?pth, query := q, fragment := f\<rparr>" "e2 = []" "hier_ok u"
    using assms q f by (auto simp: parse_hier_def Let_def hier_ok_def char_at_def split: if_splits)
       (metis append_Cons in_set_conv_decomp parts.upto_split(1) append_is_Nil_conv nth_mem set_append UnI1 length_greater_0_conv)+
  note pth = parts.upto_split [where fl = ?fl and part = PART_PATH and s = p]
  show "p = hier_text u"
    using pth(1) part_behind_split(1) [OF q] part_behind_split(1) [OF f] u(1,2) by (simp add: hier_text_def add_opt_def)
  show "parts_ok u"
    using pth(2) part_behind_split(2) [OF q] part_behind_split(2) [OF f] u(1) by (simp add: parts_ok_def part_ok_def)
  show "hier_ok u" by (rule u(3))
  show "u = uri\<lparr>path := path u, query := query u, fragment := fragment u\<rparr>" using u(1) by simp
qed

lemma parse_hier_text:
  assumes "parts_ok u" "hier_ok u" "uri = u\<lparr>path := None, query := None, fragment := None\<rparr>"
  shows "parse_hier uri (host u \<noteq> None) (hier_text u) (flags u) = Some u"
proof -
  obtain p where p: "path u = Some p" using assms(2) by (auto simp: hier_ok_def split: option.splits)
  let ?f = "add_opt ''#'' (fragment u) []" and ?q = "add_opt ''?'' (query u) []"
  have d: "?q @ ?f = [] \<or> part_delim PART_PATH (hd (?q @ ?f))"
    by (auto simp: add_opt_def part_delim_def split: option.splits)
  have "end_of_path p PART_PATH (flags u) = []" using assms(1) p by (simp add: parts_ok_def part_ok_def)
  note pth = parts.upto_join [OF this d]
  have f: "part_behind CHR ''#'' PART_FRAGMENT (flags u) ?f = (fragment u, [])"
    using part_behind_join [of PART_FRAGMENT "flags u" "fragment u" "[]" "CHR ''#''"] assms(1)
    by (simp add: parts_ok_def char_at_def)
  have q: "part_behind CHR ''?'' PART_QUERY (flags u) (?q @ ?f) = (query u, ?f)"
    using assms(1) by (intro part_behind_join) (auto simp: parts_ok_def part_delim_def add_opt_def char_at_def split: option.splits)
  show ?thesis
    using assms(2,3) p pth f q by (auto simp: parse_hier_def hier_text_def Let_def hier_ok_def add_opt_def [of "[]" "Some p"] char_at_def)
qed

section \<open>Ranges that lie inside a string\<close>

lemma char_at_take: "i < n \<Longrightarrow> char_at (take n s) i = char_at s i"
  by (simp add: char_at_def)

lemma char_at_0: "char_at s 0 = (case s of [] \<Rightarrow> NUL | c # _ \<Rightarrow> c)"
  by (cases s) (simp_all add: char_at_def)

lemma tl_take: "tl (take (Suc n) s) = take n (tl s)"
  by (cases s) simp_all

lemma scheme_rest_take: "scheme_rest_ok (take n s) n = scheme_rest_ok s n"
  by (induction n arbitrary: s) (simp_all add: char_at_take tl_take)

lemma scheme_ok_take: "scheme_ok (take n s) n = scheme_ok s n"
  by (cases n) (simp_all add: scheme_ok_def char_at_take tl_take scheme_rest_take)

lemma userinfo_take: "userinfo_ok (take n s) n = userinfo_ok s n"
proof (induction n arbitrary: s rule: less_induct)
  case (less n)
  show ?case
  proof (cases n)
    case (Suc k)
    have "userinfo_ok (take k (tl s)) k = userinfo_ok (tl s) k" using less Suc by simp
    moreover have "userinfo_ok (take (k - 2) (drop 3 s)) (k - 2) = userinfo_ok (drop 3 s) (k - 2)" using less Suc by simp
    moreover have "drop 3 (take (Suc k) s) = take (k - 2) (drop 3 s)" by (simp add: drop_take)
    ultimately show ?thesis unfolding Suc userinfo_ok.simps
      by (cases "2 < Suc k") (simp_all add: char_at_take tl_take)
  qed simp
qed

lemma regname_take:
  assumes "\<not> isxdigit (char_at s n)"
  shows "regname_ok (take n s) n = regname_ok s n"
  using assms
proof (induction n arbitrary: s rule: less_induct)
  case (less n)
  show ?case
  proof (cases n)
    case (Suc k)
    have at: "char_at (tl s) i = char_at s (Suc i)" "char_at (drop 3 s) i = char_at s (i + 3)" for i
      by (auto simp: char_at_def nth_tl add.commute)
    have tl: "regname_ok (take k (tl s)) k = regname_ok (tl s) k" using less Suc at by simp
    have n: "\<not> isxdigit NUL" by (simp add: isxdigit_def)
    show ?thesis
    proof (cases "2 \<le> k")
      case True
      then have "regname_ok (take (k - 2) (drop 3 s)) (k - 2) = regname_ok (drop 3 s) (k - 2)"
      proof -
        have "k - 2 + 3 = n" using True Suc by simp
        then have "\<not> isxdigit (char_at (drop 3 s) (k - 2))" using at(2) [of "k - 2"] less.prems by simp
        then show ?thesis using less.IH [of "k - 2"] Suc by simp
      qed
      moreover have "drop 3 (take (Suc k) s) = take (k - 2) (drop 3 s)" by (simp add: drop_take)
      ultimately show ?thesis using True unfolding Suc by (simp add: char_at_take tl_take tl)
    next
      case False
      then have "k = 0 \<or> k = 1" by linarith
      then show ?thesis using less.prems n unfolding Suc
        by (auto simp: char_at_take tl_take tl) (auto simp: char_at_def eval_nat_numeral split: if_splits)
    qed
  qed simp
qed

lemma future_digits_append:
  "n \<le> length s \<Longrightarrow> future_digits (s @ r) n = map_option (\<lambda>(s', k). (s' @ r, k)) (future_digits s n)"
proof (induction n arbitrary: s)
  case (Suc n)
  then show ?case by (cases s) (auto simp: char_at_def)
qed simp

lemma future_digits_suffix:
  "future_digits s n = Some (s', k) \<Longrightarrow> n \<le> length s \<Longrightarrow>
   \<exists>h. list_all isxdigit h \<and> s = h @ s' \<and> n = length h + k"
proof (induction n arbitrary: s)
  case (Suc n)
  then obtain c t where s: "s = c # t" by (cases s) auto
  show ?case
  proof (cases "c = CHR ''.''")
    case True
    then show ?thesis using Suc s by (auto simp: char_at_def intro: exI [of _ "[]"])
  next
    case False
    then have c: "isxdigit c" "future_digits t n = Some (s', k)" using Suc s by (auto simp: char_at_def split: if_splits)
    then obtain h where "list_all isxdigit h" "t = h @ s'" "n = length h + k" using Suc s by auto
    then show ?thesis using c s by (intro exI [of _ "c # h"]) simp
  qed
qed auto

lemma future_rest_append: "n \<le> length s \<Longrightarrow> future_rest (s @ r) n = future_rest s n"
proof (induction n arbitrary: s)
  case (Suc n)
  then show ?case by (cases s) (auto simp: char_at_def)
qed simp

lemma bracket_append: "bracket_addr_ok (h @ r) (length h) = bracket_addr_ok h (length h)"
proof (cases "length h < 3")
  case False
  have at: "char_at (h @ r) i = char_at h i" if "i < length h" for i
    using that by (simp add: char_at_def nth_append)
  have "future_digits (drop 2 h @ r) (length h - 3) = map_option (\<lambda>(s', k). (s' @ r, k)) (future_digits (drop 2 h) (length h - 3))"
    using False by (intro future_digits_append) simp
  moreover have "char_at (s' @ r) 0 = char_at s' 0 \<and> future_rest (tl (s' @ r)) (k - 1) = future_rest (tl s') (k - 1)"
    if f: "future_digits (drop 2 h) (length h - 3) = Some (s', k)" for s' k
  proof -
    have "length h - 3 \<le> length (drop 2 h)" by simp
    then obtain g where g: "drop 2 h = g @ s'" "length h - 3 = length g + k"
      using future_digits_suffix [OF f] by blast
    have "length (drop 2 h) = length g + length s'" unfolding g(1) by simp
    then have "length s' = k + 1" using g(2) False by simp
    then show ?thesis using future_rest_append [of "k - 1" "tl s'" r] by (cases s') (auto simp: char_at_def)
  qed
  moreover have "char_at (h @ r) 0 = char_at h 0" "char_at (h @ r) 1 = char_at h 1" "char_at (h @ r) 2 = char_at h 2"
    "char_at (h @ r) (length h - 1) = char_at h (length h - 1)" using False by (intro at; linarith)+
  ultimately show ?thesis using False unfolding bracket_addr_ok_def
    by (auto split: option.split)
qed (simp add: bracket_addr_ok_def)

section \<open>Valid components\<close>

definition host_ok :: "byte list \<Rightarrow> bool" where
  "host_ok h \<longleftrightarrow> (if char_at h 0 = CHR ''['' then bracket_addr_ok h (length h) \<in> {Inr 1, Inr 2}
     else regname_ok h (length h))"

text \<open>The delimiters that end an authority or its parts, and what may stand in its components.\<close>

definition delims :: "byte set" where "delims = {CHR ''/'', CHR ''?'', CHR ''#'', CHR ''@''}"

lemma delims_special: "c \<in> delims \<Longrightarrow> \<not> isxdigit c \<and> \<not> CHAR_IS_UNRESERVED c \<and> \<not> is_subdelim c \<and> \<not> addr_char c
    \<and> c \<noteq> CHR '':'' \<and> c \<noteq> CHR ''%'' \<and> \<not> isdigit c \<and> c \<noteq> CHR ''['' \<and> c \<noteq> CHR '']'' \<and> c \<noteq> CHR ''v'' \<and> c \<noteq> CHR ''.''"
  by (auto simp: delims_def isxdigit_def isdigit_def addr_char_def isspace_def CHAR_IS_UNRESERVED_iff unreserved_def
      is_subdelim_def SUBDELIMS_def)

lemma plain_special: "CHAR_IS_UNRESERVED c \<or> is_subdelim c \<Longrightarrow> c \<notin> delims \<union> {CHR '':'', CHR ''['', CHR '']''}"
  by (auto simp: delims_def CHAR_IS_UNRESERVED_iff unreserved_def is_subdelim_def SUBDELIMS_def)

lemma xdigit_special: "isxdigit c \<Longrightarrow> c \<notin> delims \<union> {CHR '':'', CHR ''['', CHR '']''}"
  by (auto simp: delims_def isxdigit_def)

lemma char_at_Cons [simp]: "char_at (c # s) 0 = c" "char_at (c # s) (Suc i) = char_at s i"
  by (simp_all add: char_at_def)

lemma xdigit_at: "isxdigit (char_at s i) \<Longrightarrow> i < length s"
  by (auto simp: char_at_def isxdigit_def split: if_splits)

lemma pct_shape:
  assumes "isxdigit (char_at s 0)" "isxdigit (char_at s 1)"
  obtains a b r where "s = a # b # r" "isxdigit a" "isxdigit b"
  using assms xdigit_at [OF assms(2)] by (cases s; cases "tl s") auto

lemma regname_chars: "regname_ok s (length s) \<Longrightarrow> set s \<inter> (delims \<union> {CHR '':'', CHR ''['', CHR '']''}) = {}"
proof (induction "length s" arbitrary: s rule: less_induct)
  case less
  show ?case
  proof (cases s)
    case (Cons c r)
    show ?thesis
    proof (cases "CHAR_IS_UNRESERVED c \<or> is_subdelim c")
      case True
      then have "c \<notin> delims \<union> {CHR '':'', CHR ''['', CHR '']''}" using plain_special by blast
      moreover have "set r \<inter> (delims \<union> {CHR '':'', CHR ''['', CHR '']''}) = {}" using less(1) [of r] less(2) Cons True by simp
      ultimately show ?thesis using Cons by simp
    next
      case False
      then have "c = CHR ''%''" "isxdigit (char_at r 0)" "isxdigit (char_at r 1)" "regname_ok (drop 2 r) (length r - 2)"
        using less(2) Cons by (auto simp: eval_nat_numeral split: if_splits)
      moreover from this(2,3) obtain a b s' where "r = a # b # s'" "isxdigit a" "isxdigit b" by (rule pct_shape)
      ultimately show ?thesis using less(1) [of s'] Cons xdigit_special [of a] xdigit_special [of b]
        by (auto simp: delims_def)
    qed
  qed simp
qed

lemma userinfo_chars: "userinfo_ok s (length s) \<Longrightarrow> set s \<inter> delims = {}"
proof (induction "length s" arbitrary: s rule: less_induct)
  case less
  show ?case
  proof (cases s)
    case (Cons c r)
    show ?thesis
    proof (cases "CHAR_IS_UNRESERVED c \<or> is_subdelim c \<or> c = CHR '':''")
      case True
      then show ?thesis using less(1) [of r] less(2) Cons delims_special [of c] by auto
    next
      case False
      then have "c = CHR ''%''" "isxdigit (char_at r 0)" "isxdigit (char_at r 1)" "userinfo_ok (drop 2 r) (length r - 2)"
        using less(2) Cons by (auto simp: eval_nat_numeral split: if_splits)
      moreover from this(2,3) obtain a b s' where "r = a # b # s'" "isxdigit a" "isxdigit b" by (rule pct_shape)
      ultimately show ?thesis using less(1) [of s'] Cons xdigit_special [of a] xdigit_special [of b]
        by (auto simp: delims_def)
    qed
  qed simp
qed

lemma future_rest_chars: "future_rest s n \<Longrightarrow> set (take n s) \<inter> delims = {}"
proof (induction n arbitrary: s)
  case (Suc n)
  then show ?case using delims_special [of "hd s"] by (cases s) (auto split: if_splits)
qed simp

lemma bracket_chars:
  assumes "bracket_addr_ok h (length h) \<in> {Inr 1, Inr 2}"
  shows "set h \<inter> delims = {}" "3 \<le> length h" "last h = CHR '']''" "char_at h 0 = CHR ''[''"
proof -
  have *: "3 \<le> length h" "char_at h 0 = CHR ''[''" "char_at h (length h - 1) = CHR '']''"
    using assms by (auto simp: bracket_addr_ok_def split: if_splits)
  show "3 \<le> length h" "char_at h 0 = CHR ''[''" using * by simp_all
  show "last h = CHR '']''" using * by (auto simp: char_at_def last_conv_nth split: if_splits)
  define m where "m = take (length h - 2) (drop 1 h)"
  have h: "h = [CHR ''[''] @ m @ [CHR '']'']"
  proof -
    have "h = hd h # tl h" "tl h = butlast (tl h) @ [last (tl h)]" using *(1) by (cases h; auto; cases "tl h"; auto)+
    moreover have "butlast (tl h) = m" using *(1) by (simp add: m_def butlast_conv_take drop_Suc numeral_2_eq_2)
    moreover have "hd h = CHR ''[''" using *(1,2) by (cases h) auto
    moreover have "last (tl h) = last h" using *(1) by (cases h) auto
    ultimately show ?thesis using \<open>last h = CHR '']''\<close> by simp
  qed
  have "set m \<inter> delims = {}"
  proof (cases "char_at h 1 = CHR ''v''")
    case True
    then obtain s' k where f: "future_digits (drop 2 h) (length h - 3) = Some (s', k)" "char_at s' 0 = CHR ''.''" "future_rest (tl s') (k - 1)"
      using assms *(1) by (auto simp: bracket_addr_ok_def split: if_splits option.splits)
    have "length h - 3 \<le> length (drop 2 h)" by simp
    then obtain g where g: "list_all isxdigit g" "drop 2 h = g @ s'" "length h - 3 = length g + k"
      using future_digits_suffix [OF f(1)] by blast
    have "m = CHR ''v'' # take (length h - 3) (drop 2 h)"
      using h True *(1) by (cases m) (auto simp: m_def)
    also have "take (length h - 3) (drop 2 h) = g @ take k s'" unfolding g(2,3) by simp
    finally have "set m \<subseteq> {CHR ''v''} \<union> set g \<union> {CHR ''.''} \<union> set (take (k - 1) (tl s'))"
      using f(2) by (cases s'; cases k) (auto simp: char_at_def)
    then show ?thesis using future_rest_chars [OF f(3)] g(1) delims_special by (auto simp: list_all_iff)
  next
    case False
    then obtain a where "evutil_inet_pton6 m = Inr (Some a)"
      using assms *(1) by (auto simp: bracket_addr_ok_def m_def split: if_splits sum.splits)
    then show ?thesis using pton6_chars delims_special by (auto simp: list_all_iff)
  qed
  then show "set h \<inter> delims = {}" using h delims_special by auto
qed

lemma bracket_total: "\<exists>v \<in> {0, 1, 2}. bracket_addr_ok s n = Inr v"
proof -
  obtain r where "evutil_inet_pton6 (take (n - 2) (drop 1 s)) = Inr r"
    using evutil_inet_pton6_total by blast
  then show ?thesis by (cases r) (auto simp: bracket_addr_ok_def split: option.split)
qed

lemma host_chars: "host_ok h \<Longrightarrow> set h \<inter> delims = {}"
  using regname_chars bracket_chars(1) by (fastforce simp: host_ok_def split: if_splits)

section \<open>Ports\<close>

lemma port_append: "parse_port_from a (ds @ r) (length ds) = parse_port_from a ds (length ds)"
  by (induction ds arbitrary: a) (simp_all add: Let_def)

lemma signed_range: "- (2 ^ 31) \<le> signed_take_bit 31 (v :: int) \<and> signed_take_bit 31 v < 2 ^ 31"
  using signed_take_bit_int_greater_eq_minus_exp [of 31 v] signed_take_bit_int_less_exp [of 31 v] by simp

lemma port_range: "- 1 \<le> a \<Longrightarrow> a < 2 ^ 31 \<Longrightarrow> - 1 \<le> parse_port_from a s n \<and> parse_port_from a s n < 2 ^ 31"
proof (induction n arbitrary: a s)
  case (Suc n)
  let ?v = "signed_take_bit 31 (a * 10 + (schar (char_at s 0) - 48))"
  have "?v < 2 ^ 31" using signed_range by blast
  then have "\<not> ?v < 0 \<Longrightarrow> - 1 \<le> parse_port_from ?v (tl s) n \<and> parse_port_from ?v (tl s) n < 2 ^ 31"
    by (intro Suc.IH) linarith+
  then show ?case unfolding parse_port_from.simps Let_def by (cases "?v < 0") (simp_all del: signed_take_bit_negative_iff)
qed simp

lemma schar_digit: "isdigit c \<Longrightarrow> schar c - 48 = int (digit_val c)"
  by (auto simp: isdigit_def schar_def digit_val_def Let_def of_nat_of_char [symmetric, where ?'a = int] of_nat_diff)

lemma foldl_ge: "a \<le> foldl (\<lambda>n c. 10 * n + digit_val c) a ds"
proof (induction ds arbitrary: a)
  case (Cons c ds)
  show ?case using Cons.IH [of "10 * a + digit_val c"] by simp
qed simp

lemma port_step:
  "list_all isdigit ds \<Longrightarrow> foldl (\<lambda>n c. 10 * n + digit_val c) a ds < 2 ^ 31 \<Longrightarrow>
   parse_port_from (int a) (ds @ r) (length ds + n) = parse_port_from (int (foldl (\<lambda>n c. 10 * n + digit_val c) a ds)) r n"
proof (induction ds arbitrary: a)
  case (Cons c ds)
  let ?a = "10 * a + digit_val c"
  have "?a < 2 ^ 31" using foldl_ge [of ?a ds] Cons.prems(2) by simp
  then have "signed_take_bit 31 (int ?a) = int ?a"
    by (intro signed_take_bit_int_eq_self) simp_all
  moreover have "int a * 10 + (schar c - 48) = int ?a" using schar_digit [of c] Cons.prems(1) by simp
  ultimately show ?case using Cons.IH [of ?a] Cons.prems by (simp add: Let_def del: of_nat_add of_nat_mult)
qed simp

lemma port_value:
  "list_all isdigit ds \<Longrightarrow> foldl (\<lambda>n c. 10 * n + digit_val c) a ds < 2 ^ 31 \<Longrightarrow>
   parse_port_from (int a) ds (length ds) = int (foldl (\<lambda>n c. 10 * n + digit_val c) a ds)"
  using port_step [of ds a "[]" 0] by simp

lemma port_dec: "p < 2 ^ 31 \<Longrightarrow> parse_port (dec p @ r) (length (dec p)) = int p"
  using port_value [of "dec p" 0] digits_val_dec [of p] dec_digits
  by (simp add: parse_port_def port_append digits_val_def list_all_iff)

text \<open>The text of a port: nothing, a colon, or a colon and digits.\<close>

definition port_text :: "byte list \<Rightarrow> int \<Rightarrow> bool" where
  "port_text t p \<longleftrightarrow> (t = [] \<and> p = - 1) \<or>
     (\<exists>ds. t = CHR '':'' # ds \<and> list_all isdigit ds
        \<and> p = (if ds = [] then - 1 else parse_port ds (length ds)) \<and> (ds \<noteq> [] \<longrightarrow> 0 \<le> p))"

lemma ISDIGIT_eq: "EVUTIL_ISDIGIT = isdigit"
  by auto

lemma authority_port_found:
  assumes "list_all isdigit ds" "ds \<noteq> [] \<longrightarrow> 0 \<le> parse_port ds (length ds)"
  shows "authority_port uri (h @ CHR '':'' # ds @ r) (length h + 1 + length ds)
    = Some (uri\<lparr>port := if ds = [] then - 1 else parse_port ds (length ds)\<rparr>, length h)"
proof -
  let ?n = "length h + 1 + length ds"
  have "take ?n (h @ CHR '':'' # ds @ r) = h @ CHR '':'' # ds" by simp
  moreover have "takeWhile isdigit (rev ds @ CHR '':'' # rev h) = rev ds"
    using assms(1) by (auto simp: takeWhile_append isdigit_def list_all_iff)
  ultimately have d: "length (takeWhile EVUTIL_ISDIGIT (rev (take ?n (h @ CHR '':'' # ds @ r)))) = length ds"
    by (simp add: ISDIGIT_eq)
  have "char_at (h @ CHR '':'' # ds @ r) (length h) = CHR '':''" by (simp add: char_at_def)
  then show ?thesis unfolding authority_port_def d Let_def using assms(2)
    by (cases "ds = []") (simp_all add: parse_port_def port_append not_less)
qed

lemma authority_port_none:
  assumes "h = [] \<or> CHR '':'' \<notin> set h \<or> last h = CHR '']''"
  shows "authority_port uri (h @ r) (length h) = Some (uri, length h)"
proof -
  let ?d = "length (takeWhile isdigit (rev h))"
  have "char_at (h @ r) (length h - ?d - 1) \<noteq> CHR '':''" if "?d < length h"
  proof -
    have "length h - ?d - 1 < length h" using that by linarith
    then have c: "char_at (h @ r) (length h - ?d - 1) = h ! (length h - ?d - 1)" "h ! (length h - ?d - 1) \<in> set h"
      by (simp_all add: char_at_def nth_append)
    show ?thesis
    proof (cases "CHR '':'' \<in> set h")
      case True
      then have "last h = CHR '']''" "h \<noteq> []" using assms by auto
      then have "h ! (length h - ?d - 1) = CHR '']''"
        by (cases h rule: rev_cases) (auto simp: isdigit_def)
      then show ?thesis using c(1) by simp
    next
      case False
      then show ?thesis using c by metis
    qed
  qed
  then have "\<not> (?d < length h \<and> char_at (h @ r) (length h - ?d - 1) = CHR '':'')" by blast
  moreover have "take (length h) (h @ r) = h" by simp
  ultimately show ?thesis unfolding authority_port_def Let_def ISDIGIT_eq by presburger
qed

lemma authority_port_Some:
  assumes "authority_port uri (t @ r) (length t) = Some (uri', n')" "port uri = - 1"
  obtains h pt where "t = h @ pt" "port_text pt (port uri')" "n' = length h" "uri' = uri\<lparr>port := port uri'\<rparr>"
proof -
  define ds where "ds = rev (takeWhile isdigit (rev t))"
  define b where "b = rev (dropWhile isdigit (rev t))"
  have t: "t = b @ ds" unfolding ds_def b_def by (metis rev_append rev_rev_ident takeWhile_dropWhile_id)
  have dig: "list_all isdigit ds" by (auto simp: ds_def list_all_iff dest: set_takeWhileD)
  show thesis
  proof (cases "b \<noteq> [] \<and> last b = CHR '':''")
    case True
    then obtain h where b: "b = h @ [CHR '':'']" by (metis append_butlast_last_id)
    have tt: "t @ r = h @ CHR '':'' # ds @ r" "length t = length h + 1 + length ds" using t b by simp_all
    show thesis
    proof (cases "ds \<noteq> [] \<longrightarrow> 0 \<le> parse_port ds (length ds)")
      case True
      then show thesis using that [of h "CHR '':'' # ds"] authority_port_found [OF dig, of uri h r] assms(1) dig
        unfolding tt by (auto simp: port_text_def t b)
    next
      case False
      have "length (takeWhile EVUTIL_ISDIGIT (rev (take (length t) (t @ r)))) = length ds"
        by (simp add: ISDIGIT_eq ds_def)
      then have "authority_port uri (t @ r) (length t) = None"
        using False b unfolding authority_port_def Let_def by (auto simp: t char_at_def nth_append parse_port_def port_append)
      then show thesis using assms(1) by simp
    qed
  next
    case False
    have d: "length (takeWhile EVUTIL_ISDIGIT (rev (take (length t) (t @ r)))) = length ds" by (simp add: ISDIGIT_eq ds_def)
    have "char_at (t @ r) (length t - length ds - 1) \<noteq> CHR '':''" if "length ds < length t"
      using that False by (auto simp: t char_at_def nth_append last_conv_nth)
    then have "uri' = uri" "n' = length t" using assms(1) unfolding authority_port_def d Let_def by (auto split: if_splits)
    then show thesis using that [of t "[]"] assms(2) by (simp add: port_text_def)
  qed
qed

section \<open>Authorities\<close>

lemma authority_host_iff:
  assumes "\<not> isxdigit (char_at r 0)" "char_at r 0 \<noteq> CHR ''[''"
  shows "authority_host uri (h @ r) (length h) = Inr (if host_ok h then Some (uri\<lparr>host := Some h\<rparr>) else None)"
proof -
  have reg: "regname_ok (h @ r) (length h) = regname_ok h (length h)"
  proof -
    have "char_at (h @ r) (length h) = char_at r 0" by (cases r) (auto simp: char_at_def)
    then show ?thesis using regname_take [of "h @ r" "length h"] assms(1) by simp
  qed
  have at0: "char_at (h @ r) 0 = char_at h 0" "char_at (h @ r) (length h - 1) = char_at h (length h - 1)" if "h \<noteq> []"
    using that by (cases h rule: rev_cases; auto simp: char_at_def nth_append)+
  obtain v where v: "v \<in> {0, 1, 2}" "bracket_addr_ok h (length h) = Inr v" using bracket_total by blast
  show ?thesis
  proof (cases "h \<noteq> [] \<and> char_at h 0 = CHR ''[''")
    case True
    then obtain h' where h: "h = CHR ''['' # h'" by (cases h) auto
    have n: "\<not> regname_ok h (length h)" using h unreserved_not_special(9) is_subdelim_special(7) by auto
    show ?thesis
    proof (cases "2 \<le> length h \<and> char_at h (length h - 1) = CHR '']''")
      case True
      then show ?thesis using v h at0 bracket_append [of h r] by (auto simp: authority_host_def host_ok_def)
    next
      case False
      then have "bracket_addr_ok h (length h) = Inr 0" by (auto simp: bracket_addr_ok_def)
      then show ?thesis using False n h at0 reg by (auto simp: authority_host_def host_ok_def)
    qed
  next
    case False
    then show ?thesis using reg at0 assms(2) by (cases h) (auto simp: authority_host_def host_ok_def char_at_def)
  qed
qed

definition userinfo_valid :: "byte list option \<Rightarrow> bool" where
  "userinfo_valid s \<longleftrightarrow> (case s of None \<Rightarrow> True | Some x \<Rightarrow> userinfo_ok x (length x))"

definition ends_authority :: "byte list \<Rightarrow> bool" where
  "ends_authority r \<longleftrightarrow> r = [] \<or> hd r \<in> {CHR ''/'', CHR ''?'', CHR ''#''}"

lemma ends_authority_at:
  assumes "ends_authority r" "pt = [] \<or> hd pt = CHR '':''"
  shows "\<not> isxdigit (char_at (pt @ r) 0)" "char_at (pt @ r) 0 \<noteq> CHR ''[''"
  using assms by (cases pt; cases r; auto simp: ends_authority_def isxdigit_def char_at_def)+

lemma first_at: "CHR ''@'' \<notin> set x \<Longrightarrow> length (takeWhile (\<lambda>c. c \<noteq> CHR ''@'') (x @ CHR ''@'' # r)) = length x"
  by (simp add: takeWhile_append)

lemma authority_userinfo_Some:
  assumes "authority_userinfo uri (a @ r) (length a) = Some (uri', cp, n)" "userinfo uri = None"
  obtains t where "a = add_opt [] (userinfo uri') ''@'' @ t" "cp = t @ r" "n = length t" "userinfo_valid (userinfo uri')"
    "uri' = uri\<lparr>userinfo := userinfo uri'\<rparr>"
proof (cases "CHR ''@'' \<in> set a")
  case True
  then obtain x t where a: "a = x @ CHR ''@'' # t" "CHR ''@'' \<notin> set x" by (metis split_list_first)
  have "userinfo_ok (a @ r) (length x) = userinfo_ok x (length x)"
    using userinfo_take [of "length x" "a @ r"] a(1) by simp
  then have "userinfo_ok x (length x)" "uri' = uri\<lparr>userinfo := Some x\<rparr>" "cp = t @ r" "n = length t"
    using assms(1) first_at [OF a(2), of "t @ r"] a by (auto simp: authority_userinfo_def Let_def split: if_splits)
  then show thesis using that [of t] a by (simp add: add_opt_def userinfo_valid_def)
next
  case False
  have "\<not> length (takeWhile (\<lambda>c. c \<noteq> CHR ''@'') (a @ r)) < length a" using False by (auto simp: takeWhile_append)
  then have "uri' = uri" "cp = a @ r" "n = length a" using assms(1) by (auto simp: authority_userinfo_def Let_def)
  then show thesis using that [of a] assms(2) by (simp add: add_opt_def userinfo_valid_def)
qed

lemma parse_authority_Some:
  assumes "parse_authority uri (a @ r) (length a) = Inr (Some u)" "userinfo uri = None" "port uri = - 1" "ends_authority r"
  obtains h pt where "a = add_opt [] (userinfo u) ''@'' @ h @ pt" "host u = Some h" "host_ok h" "port_text pt (port u)"
    "userinfo_valid (userinfo u)" "u = uri\<lparr>userinfo := userinfo u, host := Some h, port := port u\<rparr>"
proof (cases "a = []")
  case True
  then have "u = uri\<lparr>host := Some []\<rparr>" using assms(1) by (simp add: parse_authority_def)
  then show thesis using that [of "[]" "[]"] assms(2,3) True
    by (simp add: add_opt_def host_ok_def port_text_def userinfo_valid_def char_at_def)
next
  case False
  then obtain u1 cp n u2 n2 where 1: "authority_userinfo uri (a @ r) (length a) = Some (u1, cp, n)"
    and 2: "authority_port u1 cp n = Some (u2, n2)" and 3: "authority_host u2 cp n2 = Inr (Some u)"
    using assms(1) by (auto simp: parse_authority_def split: option.splits)
  obtain t where t: "a = add_opt [] (userinfo u1) ''@'' @ t" "cp = t @ r" "n = length t" "userinfo_valid (userinfo u1)"
      "u1 = uri\<lparr>userinfo := userinfo u1\<rparr>"
    using authority_userinfo_Some [OF 1 assms(2)] .
  have "port u1 = - 1" using t(5) assms(3) by (metis evhttp_uri.select_convs(5) evhttp_uri.surjective evhttp_uri.update_convs(3))
  then obtain h pt where h: "t = h @ pt" "port_text pt (port u2)" "n2 = length h" "u2 = u1\<lparr>port := port u2\<rparr>"
    using authority_port_Some [OF 2 [unfolded t(2,3)]] by blast
  have "pt = [] \<or> hd pt = CHR '':''" using h(2) by (auto simp: port_text_def)
  note at = ends_authority_at [OF assms(4) this]
  have u: "host_ok h" "u = u2\<lparr>host := Some h\<rparr>"
    using 3 authority_host_iff [OF at, of u2 h] unfolding t(2) h(1,3) by (auto split: if_splits)
  have "u = uri\<lparr>userinfo := userinfo u1, host := Some h, port := port u2\<rparr>"
    unfolding u(2) by (subst h(4), subst t(5)) simp
  then show thesis using that [of h pt] t(1,4) h(1,2) u(1) by simp
qed

definition port_canon :: "int \<Rightarrow> byte list" where
  "port_canon p = (if 0 \<le> p then CHR '':'' # dec_int p else [])"

lemma joined_authority_Some:
  "host u = Some h \<Longrightarrow> joined_authority u = ''//'' @ add_opt [] (userinfo u) ''@'' @ h @ port_canon (port u)"
  by (simp add: joined_authority_def port_canon_def)

lemma port_canon_chars: "c \<in> set (port_canon p) \<Longrightarrow> c = CHR '':'' \<or> isdigit c"
  using dec_digits by (auto simp: port_canon_def dec_int_def split: if_splits)

lemma host_port_end: "host_ok h \<Longrightarrow> h = [] \<or> CHR '':'' \<notin> set h \<or> last h = CHR '']''"
  using regname_chars [of h] bracket_chars(3) [of h] by (auto simp: host_ok_def split: if_splits)

lemma parse_authority_text:
  assumes "userinfo uri = None" "port uri = - 1" "ends_authority r"
    and "userinfo_valid ui" "host_ok h" "- 1 \<le> p" "p < 2 ^ 31"
  shows "parse_authority uri ((add_opt [] ui ''@'' @ h @ port_canon p) @ r) (length (add_opt [] ui ''@'' @ h @ port_canon p))
    = Inr (Some (uri\<lparr>userinfo := ui, host := Some h, port := p\<rparr>))"
proof (cases "add_opt [] ui ''@'' @ h @ port_canon p = []")
  case True
  then have "ui = None" "h = []" "p = - 1"
    using assms(6) by (auto simp: add_opt_def port_canon_def split: option.splits if_splits)
  then show ?thesis using True assms(1,2) by (simp add: parse_authority_def add_opt_def port_canon_def)
next
  case False
  let ?t = "h @ port_canon p" and ?u1 = "uri\<lparr>userinfo := ui\<rparr>" and ?u2 = "uri\<lparr>userinfo := ui, port := p\<rparr>"
  have "CHR ''@'' \<notin> set ?t"
    using host_chars [OF assms(5)] port_canon_chars [of "CHR ''@''" p] by (auto simp: delims_def isdigit_def)
  then have "authority_userinfo uri ((add_opt [] ui ''@'' @ ?t) @ r) (length (add_opt [] ui ''@'' @ ?t)) = Some (?u1, ?t @ r, length ?t)"
  proof (cases ui)
    case None
    have "\<not> length (takeWhile (\<lambda>c. c \<noteq> CHR ''@'') (?t @ r)) < length ?t"
      using \<open>CHR ''@'' \<notin> set ?t\<close> by (auto simp: takeWhile_append)
    then show ?thesis using None assms(1) by (simp add: authority_userinfo_def add_opt_def)
  next
    case (Some x)
    have "CHR ''@'' \<notin> set x" "userinfo_ok (x @ CHR ''@'' # ?t @ r) (length x)"
      using assms(4) userinfo_chars [of x] userinfo_take [of "length x" "x @ CHR ''@'' # ?t @ r"] Some
      by (auto simp: userinfo_valid_def delims_def)
    then show ?thesis using Some first_at [of x "?t @ r"] by (simp add: authority_userinfo_def add_opt_def)
  qed
  moreover have "authority_port ?u1 (?t @ r) (length ?t) = Some (?u2, length h)"
  proof (cases "0 \<le> p")
    case True
    then have "parse_port (dec (nat p)) (length (dec (nat p))) = p"
      using port_dec [of "nat p" "[]"] assms(7) by simp
    then show ?thesis
      using authority_port_found [of "dec (nat p)" ?u1 h r] dec_digits True by (simp add: port_canon_def dec_int_def list_all_iff)
  next
    case False
    then have "p = - 1" using assms(6) by simp
    then show ?thesis using authority_port_none [OF host_port_end [OF assms(5)], of ?u1 r] assms(2) by (simp add: port_canon_def)
  qed
  moreover have "authority_host ?u2 (?t @ r) (length h) = Inr (Some (uri\<lparr>userinfo := ui, host := Some h, port := p\<rparr>))"
  proof -
    have "port_canon p = [] \<or> hd (port_canon p) = CHR '':''" by (simp add: port_canon_def)
    then show ?thesis using authority_host_iff [OF ends_authority_at [OF assms(3)], of "port_canon p" ?u2 h] assms(5) by simp
  qed
  ultimately show ?thesis using False by (auto simp: parse_authority_def)
qed

section \<open>Schemes\<close>

definition scheme_valid :: "byte list option \<Rightarrow> bool" where
  "scheme_valid s \<longleftrightarrow> (case s of None \<Rightarrow> True | Some x \<Rightarrow> scheme_ok x (length x))"

lemma scheme_rest_chars: "scheme_rest_ok s n \<Longrightarrow> c \<in> set (take n s) \<Longrightarrow> EVUTIL_ISALNUM c \<or> c \<in> set ''+-.''"
proof (induction n arbitrary: s)
  case (Suc n)
  then show ?case by (cases s) (auto split: if_splits)
qed simp

lemma scheme_char_special: "EVUTIL_ISALNUM c \<or> c \<in> set ''+-.'' \<Longrightarrow> c \<notin> {CHR '':'', CHR ''/'', CHR ''?'', CHR ''#''}"
  by (auto simp: isdigit_def)

lemma scheme_chars:
  assumes "scheme_ok s (length s)"
  shows "set s \<inter> {CHR '':'', CHR ''/'', CHR ''?'', CHR ''#''} = {}"
proof -
  obtain c r where s: "s = c # r" "EVUTIL_ISALPHA c" "scheme_rest_ok r (length r)"
    using assms by (cases s) (auto simp: scheme_ok_def split: if_splits)
  have "\<forall>x \<in> set s. EVUTIL_ISALNUM x \<or> x \<in> set ''+-.''"
    using s scheme_rest_chars [OF s(3)] by auto
  then show ?thesis using scheme_char_special by blast
qed

lemma parse_scheme_Some:
  assumes "parse_scheme uri s = (u, r)" "scheme uri = None"
  shows "s = add_opt [] (scheme u) '':'' @ r" "scheme_valid (scheme u)" "u = uri\<lparr>scheme := scheme u\<rparr>"
proof -
  let ?k = "length (takeWhile (\<lambda>c. c \<noteq> CHR '':'') s)"
  have "s = add_opt [] (scheme u) '':'' @ r \<and> scheme_valid (scheme u) \<and> u = uri\<lparr>scheme := scheme u\<rparr>"
  proof (cases "CHR '':'' \<in> set s \<and> scheme_ok s ?k")
    case True
    then obtain x y where s: "s = x @ CHR '':'' # y" "CHR '':'' \<notin> set x" by (metis split_list_first)
    then have k: "?k = length x" by (simp add: takeWhile_append)
    then have "u = uri\<lparr>scheme := Some x\<rparr>" "r = y" using assms(1) True s(1) by (auto simp: parse_scheme_def Let_def)
    moreover have "scheme_ok x (length x)" using True scheme_ok_take [of "length x" s] s(1) k by simp
    ultimately show ?thesis using s(1) by (simp add: add_opt_def scheme_valid_def)
  qed (use assms in \<open>auto simp: parse_scheme_def Let_def add_opt_def scheme_valid_def\<close>)
  then show "s = add_opt [] (scheme u) '':'' @ r" "scheme_valid (scheme u)" "u = uri\<lparr>scheme := scheme u\<rparr>" by auto
qed

lemma parse_scheme_text:
  assumes "scheme_ok x (length x)"
  shows "parse_scheme uri (x @ CHR '':'' # r) = (uri\<lparr>scheme := Some x\<rparr>, r)"
proof -
  have "CHR '':'' \<notin> set x" using scheme_chars [OF assms] by auto
  then have "length (takeWhile (\<lambda>c. c \<noteq> CHR '':'') (x @ CHR '':'' # r)) = length x" by (simp add: takeWhile_append)
  moreover have "scheme_ok (x @ CHR '':'' # r) (length x)"
    using scheme_ok_take [of "length x" "x @ CHR '':'' # r"] assms by simp
  ultimately show ?thesis by (simp add: parse_scheme_def)
qed

lemma parse_scheme_none:
  assumes "CHR '':'' \<notin> set s \<or> set (takeWhile (\<lambda>c. c \<noteq> CHR '':'') s) \<inter> {CHR ''/'', CHR ''?'', CHR ''#''} \<noteq> {}"
  shows "parse_scheme uri s = (uri, s)"
proof -
  let ?x = "takeWhile (\<lambda>c. c \<noteq> CHR '':'') s"
  have "scheme_ok s (length ?x) = scheme_ok ?x (length ?x)"
    using scheme_ok_take [of "length ?x" s] by (metis takeWhile_eq_take)
  then show ?thesis using assms scheme_chars [of ?x] by (auto simp: parse_scheme_def Let_def)
qed

section \<open>Whole URIs\<close>

definition host_valid :: "byte list option \<Rightarrow> bool" where
  "host_valid s \<longleftrightarrow> (case s of None \<Rightarrow> True | Some h \<Rightarrow> host_ok h)"

text \<open>The type invariant of \<^verbatim>\<open>struct evhttp_uri\<close>, and what a URI out of the parser keeps besides.\<close>

definition uri_ok :: "evhttp_uri \<Rightarrow> bool" where
  "uri_ok u \<longleftrightarrow> scheme_valid (scheme u) \<and> userinfo_valid (userinfo u) \<and> host_valid (host u)
     \<and> - 1 \<le> port u \<and> port u < 2 ^ 31 \<and> parts_ok u"

definition uri_wf :: "evhttp_uri \<Rightarrow> bool" where
  "uri_wf u \<longleftrightarrow> uri_ok u \<and> hier_ok u \<and> (host u = None \<longrightarrow> userinfo u = None \<and> port u = - 1)"

definition net_text :: "evhttp_uri \<Rightarrow> byte list \<Rightarrow> byte list" where
  "net_text u pt = (case host u of None \<Rightarrow> [] | Some h \<Rightarrow> ''//'' @ add_opt [] (userinfo u) ''@'' @ h @ pt)"

lemma end_of_authority_dropWhile:
  "end_of_authority s = dropWhile (\<lambda>c. c \<notin> {CHR ''?'', CHR ''#'', CHR ''/''}) s"
  by (induction s) auto

lemma end_of_authority_split:
  obtains a where "s = a @ end_of_authority s" "ends_authority (end_of_authority s)"
proof -
  let ?d = "\<lambda>c. c \<notin> {CHR ''?'', CHR ''#'', CHR ''/''}"
  have "ends_authority (dropWhile ?d s)"
    using hd_dropWhile [of ?d s] by (auto simp: ends_authority_def)
  then show thesis using that [of "takeWhile ?d s"] unfolding end_of_authority_dropWhile by simp
qed

lemma end_of_authority_join:
  assumes "set a \<inter> delims = {}" "ends_authority r"
  shows "end_of_authority (a @ r) = r"
proof -
  have "\<forall>c \<in> set a. c \<notin> {CHR ''?'', CHR ''#'', CHR ''/''}" using assms(1) by (auto simp: delims_def)
  then have "end_of_authority (a @ r) = dropWhile (\<lambda>c. c \<notin> {CHR ''?'', CHR ''#'', CHR ''/''}) r"
    unfolding end_of_authority_dropWhile by (simp add: dropWhile_append2)
  then show ?thesis using assms(2) by (cases r) (auto simp: ends_authority_def)
qed

lemma port_text_range: "port_text pt p \<Longrightarrow> - 1 \<le> p \<and> p < 2 ^ 31"
  using port_range [of 0] by (auto simp: port_text_def parse_port_def split: if_splits)

lemma parse_Some:
  assumes "evhttp_uri_parse_with_flags s fl = Inr (Some u)" "NUL \<notin> set s"
  obtains pt where "s = add_opt [] (scheme u) '':'' @ net_text u pt @ hier_text u" "host u \<noteq> None \<longrightarrow> port_text pt (port u)"
    "uri_wf u" "flags u = fl"
proof -
  let ?u0 = "evhttp_uri_new\<lparr>flags := fl\<rparr>"
  obtain u1 r1 where 1: "parse_scheme ?u0 s = (u1, r1)" by fastforce
  then obtain u2 g r2 where 2: "parse_net u1 r1 = Inr (Some (u2, g, r2))" and 3: "parse_hier u2 g r2 fl = Some u"
    using assms(1) by (auto simp: evhttp_uri_parse_with_flags_def split: sum.splits option.splits)
  have "scheme ?u0 = None" by (simp add: evhttp_uri_new_def)
  note s1 = parse_scheme_Some [OF 1 this]
  have u1: "userinfo u1 = None" "port u1 = - 1" "host u1 = None" "flags u1 = fl"
    using s1(3) by (metis evhttp_uri.simps evhttp_uri_new_def)+
  have n: "NUL \<notin> set r1" using assms(2) s1(1) by auto
  have "\<exists>pt. r1 = net_text u2 pt @ r2 \<and> (host u2 \<noteq> None \<longrightarrow> port_text pt (port u2)) \<and> g = (host u2 \<noteq> None)
      \<and> userinfo_valid (userinfo u2) \<and> host_valid (host u2) \<and> (host u2 = None \<longrightarrow> u2 = u1)
      \<and> u2 = u1\<lparr>userinfo := userinfo u2, host := host u2, port := port u2\<rparr>"
  proof (cases "char_at r1 0 = CHR ''/'' \<and> char_at r1 1 = CHR ''/''")
    case True
    then have r1: "r1 = ''//'' @ drop 2 r1" by (cases r1; cases "tl r1") (auto simp: char_at_def split: if_splits)
    define e where "e = end_of_authority (drop 2 r1)"
    obtain a where a: "drop 2 r1 = a @ e" "ends_authority e"
      unfolding e_def by (rule end_of_authority_split)
    have p: "parse_authority u1 (a @ e) (length a) = Inr (Some u2)" and r2: "r2 = e" and g: "g"
      using 2 True e_def [symmetric] unfolding parse_net_def Let_def a(1) by (auto split: sum.splits option.splits)
    obtain h pt where "a = add_opt [] (userinfo u2) ''@'' @ h @ pt" "host u2 = Some h" "host_ok h"
        "port_text pt (port u2)" "userinfo_valid (userinfo u2)" "u2 = u1\<lparr>userinfo := userinfo u2, host := Some h, port := port u2\<rparr>"
      using parse_authority_Some [OF p u1(1,2) a(2)] .
    moreover have "r1 = ''//'' @ a @ e" using r1 unfolding a(1) .
    ultimately show ?thesis using r2 g by (intro exI [of _ pt]) (simp add: net_text_def host_valid_def)
  next
    case False
    then have "u2 = u1" "\<not> g" "r2 = r1" using 2 by (auto simp: parse_net_def)
    then show ?thesis using u1 by (auto simp: net_text_def host_valid_def userinfo_valid_def)
  qed
  then obtain pt where s2: "r1 = net_text u2 pt @ r2" "host u2 \<noteq> None \<longrightarrow> port_text pt (port u2)" "g = (host u2 \<noteq> None)"
      "userinfo_valid (userinfo u2)" "host_valid (host u2)" "host u2 = None \<longrightarrow> u2 = u1"
      "u2 = u1\<lparr>userinfo := userinfo u2, host := host u2, port := port u2\<rparr>" by (elim exE conjE) (rule that)
  have u2: "flags u2 = fl" "scheme u2 = scheme u1" using arg_cong [OF s2(7), of flags] arg_cong [OF s2(7), of scheme] u1(4) by simp_all
  note s3 = parse_hier_Some [of u2 r2 u, unfolded u2(1)]
  have "NUL \<notin> set r2" using n s2(1) by auto
  then have s3: "r2 = hier_text u" "parts_ok u" "hier_ok u" "u = u2\<lparr>path := path u, query := query u, fragment := fragment u\<rparr>"
    using s3 3 s2(3) by simp_all
  have u: "flags u = fl" "scheme u = scheme u1" "userinfo u = userinfo u2" "host u = host u2" "port u = port u2"
    using arg_cong [OF s3(4), of flags] arg_cong [OF s3(4), of scheme] arg_cong [OF s3(4), of userinfo]
      arg_cong [OF s3(4), of host] arg_cong [OF s3(4), of port] u2 by simp_all
  have "net_text u pt = net_text u2 pt" unfolding net_text_def u ..
  moreover have "- 1 \<le> port u \<and> port u < 2 ^ 31"
    using port_text_range s2(2,6) u u1(2) by (cases "host u2 = None") auto
  then have "uri_wf u"
    using s1(2) s2 s3(2,3) u u1 by (auto simp: uri_wf_def uri_ok_def)
  ultimately show thesis using that [of pt] s1(1) s2(1,2) s3(1) u by simp
qed

lemma parse_total: "\<exists>r. evhttp_uri_parse_with_flags s fl = Inr r"
proof -
  have host: "\<exists>r. authority_host u cp n = Inr r" for u cp n
    using bracket_total [of cp n] by (auto simp: authority_host_def Let_def)
  have "\<exists>r. parse_authority u t n = Inr r" for u t n
    unfolding parse_authority_def using host by (auto split: option.split)
  then have net: "\<exists>r. parse_net u t = Inr r" for u t
    unfolding parse_net_def Let_def
    by (metis (mono_tags, lifting) option.exhaust option.simps(4,5) sum.simps(6))
  show ?thesis
    using net [of "fst (parse_scheme (evhttp_uri_new\<lparr>flags := fl\<rparr>) s)" "snd (parse_scheme (evhttp_uri_new\<lparr>flags := fl\<rparr>) s)"]
    by (auto simp: evhttp_uri_parse_with_flags_def split: prod.splits option.split)
qed

lemma noscheme_iff:
  "path_matches_noscheme p \<longleftrightarrow> CHR '':'' \<notin> set p \<or> CHR ''/'' \<in> set (takeWhile (\<lambda>c. c \<noteq> CHR '':'') p)"
  by (induction p) auto

lemma noscheme_text:
  assumes "path_matches_noscheme p"
  shows "parse_scheme uri (p @ add_opt ''?'' q [] @ add_opt ''#'' f []) = (uri, p @ add_opt ''?'' q [] @ add_opt ''#'' f [])"
proof (rule parse_scheme_none)
  let ?r = "add_opt ''?'' q [] @ add_opt ''#'' f []"
  show "CHR '':'' \<notin> set (p @ ?r) \<or> set (takeWhile (\<lambda>c. c \<noteq> CHR '':'') (p @ ?r)) \<inter> {CHR ''/'', CHR ''?'', CHR ''#''} \<noteq> {}"
  proof (cases "CHR '':'' \<in> set p")
    case True
    then have "takeWhile (\<lambda>c. c \<noteq> CHR '':'') (p @ ?r) = takeWhile (\<lambda>c. c \<noteq> CHR '':'') p" by (auto simp: takeWhile_append)
    then show ?thesis using True assms by (auto simp: noscheme_iff)
  next
    case False
    then have "takeWhile (\<lambda>c. c \<noteq> CHR '':'') (p @ ?r) = p @ takeWhile (\<lambda>c. c \<noteq> CHR '':'') ?r" by (auto simp: takeWhile_append)
    then show ?thesis using False by (auto simp: add_opt_def split: option.splits)
  qed
qed

lemma hier_text_start:
  assumes "hier_ok u" "host u = None"
  shows "\<not> (char_at (hier_text u) 0 = CHR ''/'' \<and> char_at (hier_text u) 1 = CHR ''/'')"
proof -
  obtain p where p: "path u = Some p" "\<not> (char_at p 0 = CHR ''/'' \<and> char_at p 1 = CHR ''/'')"
    using assms by (auto simp: hier_ok_def split: option.splits)
  let ?r = "add_opt ''?'' (query u) [] @ add_opt ''#'' (fragment u) []"
  have "char_at ?r i \<noteq> CHR ''/''" if "i = 0" for i
    using that by (auto simp: add_opt_def split: option.splits) (simp add: char_at_def)
  moreover have "hier_text u = p @ ?r" using p(1) by (simp add: hier_text_def add_opt_def)
  ultimately show ?thesis using p(2) by (cases p; cases "tl p") auto
qed

lemma hier_text_ends:
  assumes "hier_ok u" "host u \<noteq> None"
  shows "ends_authority (hier_text u)"
proof -
  obtain p where "path u = Some p" "char_at p 0 = CHR ''/'' \<or> p = []"
    using assms by (auto simp: hier_ok_def split: option.splits)
  then show ?thesis by (cases p) (auto simp: hier_text_def add_opt_def ends_authority_def split: option.splits)
qed

lemma dropped_authority:
  assumes "host_ok h" "userinfo_valid ui" "ends_authority r"
  shows "end_of_authority ((add_opt [] ui ''@'' @ h @ port_canon p) @ r) = r"
proof -
  let ?d = "\<lambda>c. c \<notin> {CHR ''?'', CHR ''#'', CHR ''/''}"
  have "\<forall>c \<in> set (add_opt [] ui ''@'' @ h @ port_canon p). ?d c"
    using host_chars [OF assms(1)] assms(2) userinfo_chars port_canon_chars
    by (auto simp: add_opt_def userinfo_valid_def delims_def isdigit_def split: option.splits) fastforce+
  then have "end_of_authority ((add_opt [] ui ''@'' @ h @ port_canon p) @ r) = dropWhile ?d r"
    unfolding end_of_authority_dropWhile by (intro dropWhile_append2) blast
  then show ?thesis using assms(3) by (cases r) (auto simp: ends_authority_def)
qed

lemma parse_text:
  assumes "uri_wf u"
  shows "evhttp_uri_parse_with_flags (add_opt [] (scheme u) '':'' @ joined_authority u @ hier_text u) (flags u) = Inr (Some u)"
proof -
  let ?u0 = "evhttp_uri_new\<lparr>flags := flags u\<rparr>" and ?r = "joined_authority u @ hier_text u"
  let ?u1 = "?u0\<lparr>scheme := scheme u\<rparr>" and ?u2 = "u\<lparr>path := None, query := None, fragment := None\<rparr>"
  have ok: "uri_ok u" "hier_ok u" "host u = None \<longrightarrow> userinfo u = None \<and> port u = - 1" using assms by (auto simp: uri_wf_def)
  obtain p where p: "path u = Some p" using ok(2) by (auto simp: hier_ok_def split: option.splits)
  have 1: "parse_scheme ?u0 (add_opt [] (scheme u) '':'' @ ?r) = (?u1, ?r)"
  proof (cases "scheme u")
    case None
    have n: "path_matches_noscheme p" using ok(2) p None by (simp add: hier_ok_def)
    show ?thesis
    proof (cases "host u")
      case None
      then show ?thesis using noscheme_text [OF n, of ?u0 "query u" "fragment u"] \<open>scheme u = None\<close> p
        by (simp add: joined_authority_def hier_text_def add_opt_def evhttp_uri_new_def)
    next
      case (Some h)
      have "CHR ''/'' \<in> set (takeWhile (\<lambda>c. c \<noteq> CHR '':'') (''//'' @ x))" for x by simp
      then show ?thesis
        using parse_scheme_none [of ?r ?u0] \<open>scheme u = None\<close> Some
        by (auto simp: joined_authority_def add_opt_def evhttp_uri_new_def)
    qed
  next
    case (Some x)
    then show ?thesis using parse_scheme_text [of x ?u0 ?r] ok(1) by (simp add: uri_ok_def scheme_valid_def add_opt_def)
  qed
  have 2: "parse_net ?u1 ?r = Inr (Some (?u2, host u \<noteq> None, hier_text u))"
  proof (cases "host u")
    case None
    have "?u2 = ?u1" using ok(3) None by (simp add: evhttp_uri_new_def)
    then show ?thesis using hier_text_start [OF ok(2) None] None by (auto simp: parse_net_def joined_authority_def)
  next
    case (Some h)
    let ?a = "add_opt [] (userinfo u) ''@'' @ h @ port_canon (port u)"
    have e: "ends_authority (hier_text u)" using hier_text_ends [OF ok(2)] Some by simp
    have v: "userinfo_valid (userinfo u)" "host_ok h" "- 1 \<le> port u" "port u < 2 ^ 31"
      using ok(1) Some by (auto simp: uri_ok_def host_valid_def)
    have "parse_authority ?u1 (?a @ hier_text u) (length ?a) = Inr (Some (?u1\<lparr>userinfo := userinfo u, host := Some h, port := port u\<rparr>))"
      using v e by (intro parse_authority_text) (simp_all add: evhttp_uri_new_def)
    moreover have "?u1\<lparr>userinfo := userinfo u, host := Some h, port := port u\<rparr> = ?u2"
      using Some by (simp add: evhttp_uri_new_def)
    moreover have "end_of_authority (?a @ hier_text u) = hier_text u"
    proof (rule dropped_authority)
      show "host_ok h" "userinfo_valid (userinfo u)" "ends_authority (hier_text u)" by (fact v e)+
    qed
    ultimately show ?thesis using joined_authority_Some [OF Some] Some by (simp add: parse_net_def char_at_def)
  qed
  show ?thesis
    using 1 2 parse_hier_text [of u ?u2] ok(1,2) by (simp add: evhttp_uri_parse_with_flags_def uri_ok_def)
qed

end
