(* ===== verification/Http_Properties.thy ===== *)
theory Http_Properties
  imports Uri_Facts
begin

unbundle bit_operations_syntax

text \<open>
  Properties of the URI and header functions of \<^verbatim>\<open>libevent/http.c\<close> and of the string comparison
  they use: what is encoded is decoded, what is parsed is printed, what is printed is parsed, every
  operation keeps the type invariant of \<^verbatim>\<open>struct evhttp_uri\<close>, and which inputs are treated in an
  unexpected way.
\<close>

section \<open>Percent encoding\<close>

text \<open>
  C35. Percent encoding is inverted by decoding with the same treatment of spaces, for every
  string of bytes, zero bytes included; the encoded text is terminated only at its end.
\<close>

theorem uri_codec_round_trip:
  "\<exists>e. evhttp_uriencode s (int (length s)) as_plus = Inr (e @ [NUL]) \<and> NUL \<notin> set e
     \<and> evhttp_uridecode e as_plus = Inr s"
proof (intro exI conjI)
  show "evhttp_uriencode s (int (length s)) as_plus = Inr (encoded as_plus s @ [NUL])"
    by (simp add: evhttp_uriencode_def encoded_def)
  show "NUL \<notin> set (encoded as_plus s)" by (rule encoded_no_NUL)
  show "evhttp_uridecode (encoded as_plus s) as_plus = Inr s"
    by (simp add: evhttp_uridecode_def evhttp_decode_uri_internal_def decode_encoded)
qed

text \<open>
  Decoding any terminated string stays inside it, whichever way plus signs are treated, and
  writes at most as many bytes as the string has, so the result fits the buffer that was allocated for it.
\<close>

theorem uri_decode_in_bounds:
  "\<exists>t. evhttp_decode_uri_internal (s @ [NUL]) (length s) ctl = Inr t \<and> length t \<le> length s"
  unfolding evhttp_decode_uri_internal_def by (rule decode_fits)

section \<open>Host patterns\<close>

text \<open>
  C37. \<^verbatim>\<open>prefix_suffix_match\<close> agrees with glob matching on every pattern that does not end in
  a star, and matches nothing with a pattern that does.
\<close>

theorem host_pattern_glob:
  assumes "NUL \<notin> set pattern"
  shows "prefix_suffix_match pattern name ignorecase \<longleftrightarrow>
    glob ignorecase pattern name \<and> \<not> (pattern \<noteq> [] \<and> last pattern = CHR ''*'')"
  using prefix_suffix_match_glob [OF assms] by auto

theorem host_pattern_glob_witness:
  "(prefix_suffix_match ''*.example.com'' ''www.Example.com'' True \<longleftrightarrow> glob True ''*.example.com'' ''www.Example.com''
     \<and> \<not> (''*.example.com'' \<noteq> [] \<and> last ''*.example.com'' = CHR ''*''))
   \<and> (prefix_suffix_match ''www.*'' ''www.example'' False \<longleftrightarrow> glob False ''www.*'' ''www.example''
     \<and> \<not> (''www.*'' \<noteq> [] \<and> last ''www.*'' = CHR ''*''))"
  using host_pattern_glob [of "''*.example.com''" "''www.Example.com''" True] host_pattern_glob [of "''www.*''" "''www.example''" False]
  by (simp only: list.set insert_iff empty_iff) simp

section \<open>URIs\<close>

lemma join_text:
  assumes "hier_ok u" "host u = None \<longrightarrow> port u = - 1"
    and "length (add_opt [] (scheme u) '':'' @ joined_authority u @ hier_text u) < limit"
  shows "evhttp_uri_join u limit = Some (add_opt [] (scheme u) '':'' @ joined_authority u @ hier_text u)"
proof -
  obtain p where p: "path u = Some p" "host u \<noteq> None \<longrightarrow> char_at p 0 = CHR ''/'' \<or> p = []"
    using assms(1) by (auto simp: hier_ok_def split: option.splits if_splits)
  then have "\<not> (host u \<noteq> None \<and> (case path u of None \<Rightarrow> False | Some p \<Rightarrow> char_at p 0 \<noteq> CHR ''/'' \<and> char_at p 0 \<noteq> NUL))"
    by (auto simp: char_at_def)
  then show ?thesis using assms(3) unfolding evhttp_uri_join_def hier_text_def Let_def by simp
qed

lemma joined_net: "host u \<noteq> None \<or> port u = - 1 \<Longrightarrow> joined_authority u = net_text u (port_canon (port u))"
  by (auto simp: net_text_def joined_authority_def port_canon_def split: option.split)

lemma length_port_canon: "p < 2 ^ 31 \<Longrightarrow> length (port_canon p) \<le> 11"
  using length_dec_le [of "nat p" 10] by (auto simp: port_canon_def dec_int_def)

text \<open>
  C32. Printing a parsed URI gives the parsed text back, whatever the flags, except that the
  text of the port is replaced by the decimal number it stands for: nothing for a missing or empty port.
\<close>

theorem uri_parse_then_join:
  assumes "evhttp_uri_parse_with_flags s fl = Inr (Some u)" "NUL \<notin> set s" "length s + 12 \<le> limit"
  shows "\<exists>a pt b. s = a @ pt @ b \<and> port_text pt (port u) \<and>
    evhttp_uri_join u limit = Some (a @ (if 0 \<le> port u then CHR '':'' # dec_int (port u) else []) @ b)"
proof -
  obtain pt where s: "s = add_opt [] (scheme u) '':'' @ net_text u pt @ hier_text u"
    "host u \<noteq> None \<longrightarrow> port_text pt (port u)" "uri_wf u"
    using parse_Some [OF assms(1,2)] by blast
  have w: "hier_ok u" "host u = None \<longrightarrow> port u = - 1" "port u < 2 ^ 31" using s(3) by (auto simp: uri_wf_def uri_ok_def)
  have j: "joined_authority u = net_text u (port_canon (port u))" using w(2) by (intro joined_net) auto
  let ?pt = "if host u = None then [] else pt" and ?x = "port_canon (port u)"
  obtain a b where ab: "s = a @ ?pt @ b" "add_opt [] (scheme u) '':'' @ joined_authority u @ hier_text u = a @ ?x @ b"
  proof (cases "host u")
    case None
    then show thesis using that [of s "[]"] s(1) j w(2) by (simp add: net_text_def port_canon_def)
  next
    case (Some h)
    then show thesis
      using that [of "add_opt [] (scheme u) '':'' @ ''//'' @ add_opt [] (userinfo u) ''@'' @ h" "hier_text u"] s(1) j
      by (simp add: net_text_def)
  qed
  have "length (a @ ?x @ b) < limit"
    using ab(1) length_port_canon [OF w(3)] assms(3) by (cases "host u = None") auto
  then have "evhttp_uri_join u limit = Some (a @ ?x @ b)" using join_text [OF w(1,2)] ab(2) by metis
  moreover have "port_text ?pt (port u)" using s(2) w(2) by (auto simp: port_text_def)
  ultimately show ?thesis using ab(1) unfolding port_canon_def by blast
qed

lemmas uri_eval = evhttp_uri_parse_with_flags_def parse_scheme_def scheme_ok_def parse_net_def parse_authority_def
  authority_userinfo_def authority_port_def authority_host_def parse_hier_def part_behind_def end_of_path_def
  EVHTTP_URI_NONCONFORMANT_def evhttp_uri_new_def upto_ptr_def CHAR_IS_UNRESERVED_iff unreserved_def char_at_def
  is_subdelim_def SUBDELIMS_def isdigit_def isxdigit_def parse_port_def schar_def Let_def eval_nat_numeral

definition sample_uri :: evhttp_uri where
  "sample_uri = \<lparr>flags = 0, scheme = Some ''http'', userinfo = None, host = Some ''h'',
     port = 80, path = Some ''/a'', query = Some ''b'', fragment = None\<rparr>"

lemma sample_parse: "evhttp_uri_parse_with_flags ''http://h:080/a?b'' 0 = Inr (Some sample_uri)"
  by (simp add: uri_eval sample_uri_def)

lemma sample_wf: "uri_wf sample_uri"
  using parse_Some [OF sample_parse] by auto

theorem uri_parse_then_join_witness:
  "\<exists>a pt b. ''http://h:080/a?b'' = a @ pt @ b \<and> port_text pt (port sample_uri) \<and>
    evhttp_uri_join sample_uri 64 = Some (a @ (if 0 \<le> port sample_uri then CHR '':'' # dec_int (port sample_uri) else []) @ b)"
  by (rule uri_parse_then_join [OF sample_parse]) simp_all

text \<open>
  C33. A URI whose components satisfy the type invariant and the rules of RFC 3986 for their
  combination is read back from what \<^verbatim>\<open>evhttp_uri_join\<close> prints for it, component by component.
\<close>

theorem uri_join_then_parse:
  assumes "uri_wf u" "evhttp_uri_join u limit = Some s"
  shows "evhttp_uri_parse_with_flags s (flags u) = Inr (Some u)"
proof -
  have "s = add_opt [] (scheme u) '':'' @ joined_authority u @ hier_text u"
    using assms(2) by (auto simp: evhttp_uri_join_def hier_text_def Let_def split: if_splits)
  then show ?thesis using parse_text [OF assms(1)] by simp
qed

theorem uri_join_then_parse_witness:
  "\<exists>s. evhttp_uri_join sample_uri 64 = Some s \<and> evhttp_uri_parse_with_flags s (flags sample_uri) = Inr (Some sample_uri)"
proof -
  have "hier_ok sample_uri" using sample_wf by (simp add: uri_wf_def)
  then obtain s where "evhttp_uri_join sample_uri 64 = Some s"
    using join_text [of sample_uri 64] length_port_canon [of 80]
    by (auto simp: sample_uri_def add_opt_def joined_authority_def hier_text_def port_canon_def)
  then show ?thesis using uri_join_then_parse [OF sample_wf] by blast
qed

text \<open>
  What a setter promises for a new value \<open>x\<close> of the component that \<open>upd\<close> stores: an invalid value is refused and nothing changes; a valid one is stored, unless the
  copy cannot be allocated, which leaves the component empty.
\<close>

definition set_result :: "bool \<Rightarrow> bool \<Rightarrow> (byte list option \<Rightarrow> evhttp_uri) \<Rightarrow> evhttp_uri \<Rightarrow> byte list option \<Rightarrow> int \<times> evhttp_uri" where
  "set_result valid nomem upd u x =
     (if \<not> valid then (- 1, u) else if nomem \<and> x \<noteq> None then (- 1, upd None) else (0, upd x))"

lemma host_bad_run: "host_bad x = Inr (\<not> host_valid x)"
proof (cases x)
  case (Some h)
  obtain r where "r \<in> {0, 1, 2}" "bracket_addr_ok h (length h) = Inr r" using bracket_total by blast
  then show ?thesis using Some by (auto simp: host_bad_def host_valid_def host_ok_def)
qed (simp add: host_bad_def host_valid_def)

lemma setters_result:
  "evhttp_uri_set_scheme nomem u x = set_result (scheme_valid x) nomem (\<lambda>v. u\<lparr>scheme := v\<rparr>) u x"
  "evhttp_uri_set_userinfo nomem u x = set_result (userinfo_valid x) nomem (\<lambda>v. u\<lparr>userinfo := v\<rparr>) u x"
  "evhttp_uri_set_host nomem u x = Inr (set_result (host_valid x) nomem (\<lambda>v. u\<lparr>host := v\<rparr>) u x)"
  "evhttp_uri_set_path nomem u x = set_result (part_ok PART_PATH (flags u) x) nomem (\<lambda>v. u\<lparr>path := v\<rparr>) u x"
  "evhttp_uri_set_query nomem u x = set_result (part_ok PART_QUERY (flags u) x) nomem (\<lambda>v. u\<lparr>query := v\<rparr>) u x"
  "evhttp_uri_set_fragment nomem u x = set_result (part_ok PART_FRAGMENT (flags u) x) nomem (\<lambda>v. u\<lparr>fragment := v\<rparr>) u x"
  by (auto simp: evhttp_uri_set_scheme_def evhttp_uri_set_userinfo_def evhttp_uri_set_host_def evhttp_uri_set_path_def evhttp_uri_set_query_def
      evhttp_uri_set_fragment_def host_bad_run path_bad_iff URI_SET_STR_def set_result_def scheme_valid_def userinfo_valid_def split: option.split)

lemma set_result_ok:
  assumes "uri_ok u" "uri_ok (upd None)" "valid \<Longrightarrow> uri_ok (upd x)"
  shows "uri_ok (snd (set_result valid nomem upd u x))"
  using assms by (simp add: set_result_def)

text \<open>
  C34. Every URI the parser returns satisfies the type invariant, and every setter keeps it, whatever value it is given (\<open>set_result\<close>): a valid value is stored in its
  component, with result 0 and no other component changed; any other is refused with -1 and changes nothing; and when the copy of a valid value cannot be allocated
  the result is -1 and the component is empty. Parser and setters always return.
\<close>

theorem uri_type_invariant:
  assumes "uri_ok u" "p < 2 ^ 31" "NUL \<notin> set s"
  shows "(\<exists>r. evhttp_uri_parse_with_flags s fl = Inr r \<and> (\<forall>v. r = Some v \<longrightarrow> uri_ok v))
    \<and> evhttp_uri_set_scheme nomem u x = set_result (scheme_valid x) nomem (\<lambda>v. u\<lparr>scheme := v\<rparr>) u x
    \<and> evhttp_uri_set_userinfo nomem u x = set_result (userinfo_valid x) nomem (\<lambda>v. u\<lparr>userinfo := v\<rparr>) u x
    \<and> evhttp_uri_set_host nomem u x = Inr (set_result (host_valid x) nomem (\<lambda>v. u\<lparr>host := v\<rparr>) u x)
    \<and> evhttp_uri_set_port u p = (if - 1 \<le> p then (0, u\<lparr>port := p\<rparr>) else (- 1, u))
    \<and> evhttp_uri_set_path nomem u x = set_result (part_ok PART_PATH (flags u) x) nomem (\<lambda>v. u\<lparr>path := v\<rparr>) u x
    \<and> evhttp_uri_set_query nomem u x = set_result (part_ok PART_QUERY (flags u) x) nomem (\<lambda>v. u\<lparr>query := v\<rparr>) u x
    \<and> evhttp_uri_set_fragment nomem u x = set_result (part_ok PART_FRAGMENT (flags u) x) nomem (\<lambda>v. u\<lparr>fragment := v\<rparr>) u x
    \<and> uri_ok (snd (evhttp_uri_set_scheme nomem u x)) \<and> uri_ok (snd (evhttp_uri_set_userinfo nomem u x))
    \<and> (\<forall>r v. evhttp_uri_set_host nomem u x = Inr (r, v) \<longrightarrow> uri_ok v) \<and> uri_ok (snd (evhttp_uri_set_port u p))
    \<and> uri_ok (snd (evhttp_uri_set_path nomem u x)) \<and> uri_ok (snd (evhttp_uri_set_query nomem u x)) \<and> uri_ok (snd (evhttp_uri_set_fragment nomem u x))"
proof -
  have parse: "\<exists>r. evhttp_uri_parse_with_flags s fl = Inr r \<and> (\<forall>v. r = Some v \<longrightarrow> uri_ok v)"
    using parse_total [of s fl] parse_Some [OF _ assms(3)] by (metis uri_wf_def)
  have port: "evhttp_uri_set_port u p = (if - 1 \<le> p then (0, u\<lparr>port := p\<rparr>) else (- 1, u))" by (simp add: evhttp_uri_set_port_def)
  have set: "uri_ok (snd (set_result (scheme_valid x) nomem (\<lambda>v. u\<lparr>scheme := v\<rparr>) u x))"
      "uri_ok (snd (set_result (userinfo_valid x) nomem (\<lambda>v. u\<lparr>userinfo := v\<rparr>) u x))"
      "uri_ok (snd (set_result (host_valid x) nomem (\<lambda>v. u\<lparr>host := v\<rparr>) u x))"
      "uri_ok (snd (set_result (part_ok PART_PATH (flags u) x) nomem (\<lambda>v. u\<lparr>path := v\<rparr>) u x))"
      "uri_ok (snd (set_result (part_ok PART_QUERY (flags u) x) nomem (\<lambda>v. u\<lparr>query := v\<rparr>) u x))"
      "uri_ok (snd (set_result (part_ok PART_FRAGMENT (flags u) x) nomem (\<lambda>v. u\<lparr>fragment := v\<rparr>) u x))"
    by (rule set_result_ok; use assms(1) in \<open>simp add: uri_ok_def parts_ok_def part_ok_def scheme_valid_def userinfo_valid_def host_valid_def\<close>)+
  have "uri_ok (snd (if - 1 \<le> p then (0, u\<lparr>port := p\<rparr>) else (- 1, u)))" using assms(1,2) by (simp add: uri_ok_def parts_ok_def)
  then show ?thesis using parse set unfolding setters_result port by auto
qed

theorem uri_type_invariant_witness:
  "evhttp_uri_set_host False sample_uri (Some ''g'') = Inr (0, sample_uri\<lparr>host := Some ''g''\<rparr>)
   \<and> evhttp_uri_set_host True sample_uri (Some ''g'') = Inr (- 1, sample_uri\<lparr>host := None\<rparr>)
   \<and> evhttp_uri_set_host False sample_uri (Some ''g/'') = Inr (- 1, sample_uri)"
proof -
  have ok: "uri_ok sample_uri" using sample_wf by (simp add: uri_wf_def)
  have v: "host_valid (Some ''g'')" "\<not> host_valid (Some ''g/'')"
    by (simp_all add: host_valid_def host_ok_def char_at_def regname_ok.simps CHAR_IS_UNRESERVED_iff unreserved_def is_subdelim_def SUBDELIMS_def isxdigit_def eval_nat_numeral)
  note t = uri_type_invariant [OF ok, of 80 "''http://h/''" 0, simplified]
  show ?thesis using t [of False "Some ''g''"] t [of True "Some ''g''"] t [of False "Some ''g/''"] v by (simp add: set_result_def)
qed

text \<open>
  \<^verbatim>\<open>parse_port\<close> only notices an overflow that turns the number negative: a number just
  above \<open>2 ^ 32\<close> is accepted as the port it exceeds \<open>2 ^ 32\<close> by.
\<close>

theorem parse_port_wraps:
  assumes "p < 2 ^ 31"
  shows "parse_port (dec (2 ^ 32 + p)) (length (dec (2 ^ 32 + p))) = int p"
proof -
  define N where "N = 2 ^ 32 + p"
  define n where "n = N div 10"
  define c where "c = char_of (48 + N mod 10)"
  have N: "int N = 4294967296 + int p" "10 \<le> N" by (simp_all add: N_def)
  have n: "n < 2 ^ 31" using assms by (simp add: n_def N_def)
  have d: "dec N = dec n @ [c]" using N(2) unfolding n_def c_def by (subst dec.simps) (simp only: not_less [symmetric] if_False)
  have c: "isdigit c" "digit_val c = N mod 10"
    unfolding c_def by (rule isdigit_char_of, simp) (rule digit_val_char_of, simp)
  have "int n * 10 + (schar c - 48) = int N"
    unfolding schar_digit [OF c(1)] c(2) n_def by (metis div_mult_mod_eq of_nat_add of_nat_mult of_nat_numeral)
  moreover have "signed_take_bit 31 (int N) = int p"
  proof -
    have "take_bit 32 (int N) = take_bit 32 (int p)" unfolding N(1) by (simp add: take_bit_eq_mod)
    then have "signed_take_bit 31 (int N) = signed_take_bit 31 (int p)"
      by (subst signed_take_bit_eq_iff_take_bit_eq) simp
    moreover have "int p < 2 ^ 31" using assms by simp
    ultimately show ?thesis by (simp add: signed_take_bit_int_eq_self)
  qed
  ultimately have "parse_port_from (int n) [c] 1 = int p"
    using c(1) by (simp add: Let_def)
  moreover have "parse_port_from 0 (dec n @ [c]) (length (dec n) + 1) = parse_port_from (int n) [c] 1"
    using port_step [of "dec n" 0 "[c]" 1] dec_digits n digits_val_dec [of n] by (simp add: list_all_iff digits_val_def)
  ultimately show ?thesis unfolding parse_port_def N_def [symmetric] d by simp
qed

theorem parse_port_wraps_witness: "parse_port (dec (2 ^ 32 + 80)) (length (dec (2 ^ 32 + 80))) = int 80"
  by (rule parse_port_wraps) simp

section \<open>Comparing names\<close>

text \<open>A string as the numbers the comparison sees, with the terminator.\<close>

definition folded :: "byte list \<Rightarrow> int list" where
  "folded s = map (schar \<circ> EVUTIL_TOLOWER) s @ [0]"

lemma schar_NUL: "schar NUL = 0"
  by (simp add: schar_def)

lemma schar_zero_iff [simp]: "schar c = 0 \<longleftrightarrow> c = NUL"
  using schar_eq_iff [of c NUL] by (simp add: schar_NUL)

lemma folded_hd: "folded s = schar (EVUTIL_TOLOWER (char_at s 0)) # (if s = [] then [] else folded (tl s))"
  by (cases s) (simp_all add: folded_def char_at_def schar_NUL)

lemma strcasecmp_lex:
  "NUL \<notin> set s \<Longrightarrow> NUL \<notin> set t \<Longrightarrow> evutil_ascii_strcasecmp s t =
     (if folded s = folded t then 0 else if (folded s, folded t) \<in> lexord {(x, y). x < y} then - 1 else 1)"
proof (induction s t rule: evutil_ascii_strcasecmp.induct)
  case (1 s t)
  let ?c = "EVUTIL_TOLOWER (char_at s 0)" and ?d = "EVUTIL_TOLOWER (char_at t 0)"
  show ?case
  proof (cases "?c = ?d")
    case False
    then have "schar ?c \<noteq> schar ?d" by simp
    then show ?thesis
      by (subst evutil_ascii_strcasecmp.simps) (simp add: Let_def folded_hd [of s] folded_hd [of t])
  next
    case True
    show ?thesis
    proof (cases "?c = NUL")
      case nul: True
      then have "char_at s 0 = NUL" "char_at t 0 = NUL" using True by (metis tolower_NUL)+
      then have "s = []" "t = []" using 1(2,3) by (cases s; cases t; simp)+
      then show ?thesis by (subst evutil_ascii_strcasecmp.simps) (simp add: char_at_def)
    next
      case False
      then have "char_at s 0 \<noteq> NUL" "char_at t 0 \<noteq> NUL" using True by (metis tolower_NUL)+
      then have ne: "s \<noteq> []" "t \<noteq> []" by (auto simp: char_at_def)
      then have "NUL \<notin> set (tl s)" "NUL \<notin> set (tl t)" using 1(2,3) by (auto dest: list.set_sel(2))
      then have IH: "evutil_ascii_strcasecmp (tl s) (tl t) = (if folded (tl s) = folded (tl t) then 0
          else if (folded (tl s), folded (tl t)) \<in> lexord {(x, y). x < y} then - 1 else 1)"
        using 1(1) [of ?c ?d] True False by simp
      have "evutil_ascii_strcasecmp s t = evutil_ascii_strcasecmp (tl s) (tl t)"
        using True False by (subst evutil_ascii_strcasecmp.simps) (simp add: Let_def)
      then show ?thesis using IH ne True by (simp add: folded_hd [of s] folded_hd [of t])
    qed
  qed
qed

lemma strcasecmp_zero:
  "NUL \<notin> set s \<Longrightarrow> NUL \<notin> set t \<Longrightarrow> evutil_ascii_strcasecmp s t = 0 \<longleftrightarrow> map EVUTIL_TOLOWER s = map EVUTIL_TOLOWER t"
proof -
  have "inj schar" by (rule injI) simp
  then have "map (schar \<circ> EVUTIL_TOLOWER) s = map (schar \<circ> EVUTIL_TOLOWER) t \<longleftrightarrow> map EVUTIL_TOLOWER s = map EVUTIL_TOLOWER t"
    by (metis inj_map_eq_map map_map)
  then show "NUL \<notin> set s \<Longrightarrow> NUL \<notin> set t \<Longrightarrow> ?thesis" by (simp add: strcasecmp_lex folded_def)
qed

text \<open>
  \<^verbatim>\<open>evutil_ascii_strcasecmp\<close> is the lexicographic comparison of the two strings in lower
  case, with their terminators and characters as signed numbers; it returns 0 exactly for strings
  that differ in case only.
\<close>

theorem strcasecmp_order:
  assumes "NUL \<notin> set s" "NUL \<notin> set t"
  shows "evutil_ascii_strcasecmp s t =
      (if folded s = folded t then 0 else if (folded s, folded t) \<in> lexord {(x, y). x < y} then - 1 else 1)
    \<and> (evutil_ascii_strcasecmp s t = 0 \<longleftrightarrow> map EVUTIL_TOLOWER s = map EVUTIL_TOLOWER t)"
  using strcasecmp_lex [OF assms] strcasecmp_zero [OF assms] by simp

theorem strcasecmp_order_witness: "evutil_ascii_strcasecmp ''Host'' ''hOST'' = 0"
  using strcasecmp_order [of "''Host''" "''hOST''", THEN conjunct2] by (simp add: tolower_char char_of_def bit_Suc_0_iff)

section \<open>Headers\<close>

text \<open>Queues of named values, for any equivalence of names.\<close>

locale name_match =
  fixes same :: "'k \<Rightarrow> 'k \<Rightarrow> bool" and valid :: "'k \<Rightarrow> bool"
  assumes refl: "valid a \<Longrightarrow> same a a"
    and sym: "valid a \<Longrightarrow> valid b \<Longrightarrow> same a b \<Longrightarrow> same b a"
    and trans: "valid a \<Longrightarrow> valid b \<Longrightarrow> valid c \<Longrightarrow> same a b \<Longrightarrow> same b c \<Longrightarrow> same a c"
begin

lemma find_add:
  "find (\<lambda>h. same (fst h) k) (hs @ [(a, v)]) =
     (case find (\<lambda>h. same (fst h) k) hs of None \<Rightarrow> if same a k then Some (a, v) else None | Some h \<Rightarrow> Some h)"
  by (induction hs) auto

lemma find_same:
  assumes "valid k" "valid k'" "\<forall>h \<in> set hs. valid (fst h)" "same k k'"
  shows "find (\<lambda>h. same (fst h) k) hs = find (\<lambda>h. same (fst h) k') hs"
  using assms(3)
proof (induction hs)
  case (Cons h hs)
  have "same (fst h) k \<longleftrightarrow> same (fst h) k'" using assms Cons.prems sym trans by (metis list.set_intros(1))
  then show ?case using Cons by simp
qed simp

end

interpretation names: name_match "\<lambda>a b. evutil_ascii_strcasecmp a b = 0" "\<lambda>a. NUL \<notin> set a"
  by unfold_locales (simp_all add: strcasecmp_zero)

lemma remove_spec:
  "evhttp_remove_header hs k = (case evhttp_find_header hs k of None \<Rightarrow> (- 1, hs)
     | Some v \<Rightarrow> (0, takeWhile (\<lambda>h. evutil_ascii_strcasecmp (fst h) k \<noteq> 0) hs
                     @ tl (dropWhile (\<lambda>h. evutil_ascii_strcasecmp (fst h) k \<noteq> 0) hs)))"
  by (induction hs) (auto simp: evhttp_find_header_def split: option.splits)

text \<open>
  A header that was added is found under every spelling of its name unless an earlier one
  has that name; removing takes out the first header of the name, and only that one.
\<close>

theorem header_queue_laws:
  assumes "NUL \<notin> set k" "NUL \<notin> set v" "evhttp_add_header nomem hs k v = (0, hs')"
  shows "(\<forall>k'. evhttp_find_header hs' k' = (case evhttp_find_header hs k' of
        None \<Rightarrow> if evutil_ascii_strcasecmp k k' = 0 then Some v else None | Some x \<Rightarrow> Some x))
    \<and> (evhttp_find_header hs k = None \<longrightarrow> evhttp_remove_header hs' k = (0, hs))"
proof -
  have c: "cstr k = k" "cstr v = v" using assms(1,2) by (auto simp: cstr_def takeWhile_eq_all_conv)
  have hs: "hs' = hs @ [(k, v)]"
    using assms(3) c by (auto simp: evhttp_add_header_def evhttp_add_header_internal_def split: if_splits)
  have "evhttp_remove_header (hs @ [(k, v)]) k = (0, hs)" if "evhttp_find_header hs k = None"
    using that names.refl [OF assms(1)] by (induction hs) (auto simp: evhttp_find_header_def split: if_splits)
  then show ?thesis unfolding hs evhttp_find_header_def names.find_add by (auto split: option.splits)
qed

theorem header_queue_laws_witness:
  "evhttp_remove_header [(''A'', ''1''), (''Host'', ''x'')] ''Host'' = (0, [(''A'', ''1'')])"
proof -
  have "evhttp_header_is_valid_value ''x''" by (subst evhttp_header_is_valid_value.simps) (simp add: is_newline_def)
  then have "evhttp_add_header (\<lambda>_. False) [(''A'', ''1'')] ''Host'' ''x'' = (0, [(''A'', ''1''), (''Host'', ''x'')])"
    by (simp add: evhttp_add_header_def evhttp_add_header_internal_def cstr_def)
  note h = header_queue_laws [OF _ _ this]
  have "evhttp_find_header [(''A'', ''1'')] ''Host'' = None"
    by (simp add: evhttp_find_header_def strcasecmp_zero tolower_char)
  then show ?thesis using h by simp
qed

text \<open>What \<^verbatim>\<open>evhttp_header_is_valid_value\<close> checks: a run of line ends is followed by a blank.\<close>

definition folds_lines :: "byte list \<Rightarrow> bool" where
  "folds_lines s \<longleftrightarrow> (\<forall>i < length s. is_newline (s ! i) \<longrightarrow>
     Suc i < length s \<and> (is_newline (s ! Suc i) \<or> s ! Suc i = CHR '' '' \<or> s ! Suc i = CHR 0x09))"

lemma folds_lines_append:
  assumes "list_all (\<lambda>c. \<not> is_newline c) x" "list_all is_newline y" "char_at p 0 = CHR '' '' \<or> char_at p 0 = CHR 0x09"
    and "folds_lines p"
  shows "folds_lines (x @ y @ p)"
  unfolding folds_lines_def
proof (intro allI impI)
  fix i assume i: "i < length (x @ y @ p)" "is_newline ((x @ y @ p) ! i)"
  let ?k = "length x + length y"
  have p: "p \<noteq> []" "p ! 0 = CHR '' '' \<or> p ! 0 = CHR 0x09" using assms(3) by (auto simp: char_at_def split: if_splits)
  have at: "(x @ y @ p) ! (?k + j) = p ! j" for j by (simp add: nth_append)
  have x: "length x \<le> i" using i(2) assms(1) by (cases "i < length x") (auto simp: nth_append list_all_length)
  consider "Suc i < ?k" | "Suc i = ?k" | j where "i = ?k + j" using less_iff_Suc_add [of i ?k] by (metis add.commute le_add_diff_inverse2 linorder_neqE_nat not_less_eq less_Suc_eq_le)
  then show "Suc i < length (x @ y @ p) \<and> (is_newline ((x @ y @ p) ! Suc i) \<or> (x @ y @ p) ! Suc i = CHR '' '' \<or> (x @ y @ p) ! Suc i = CHR 0x09)"
  proof cases
    case 1
    then show ?thesis using assms(2) x by (auto simp: nth_append list_all_length)
  next
    case 2
    then show ?thesis using p at [of 0] by (cases p) auto
  next
    case (3 j)
    then have "j < length p" "is_newline (p ! j)" using i at by auto
    then have "Suc j < length p \<and> (is_newline (p ! Suc j) \<or> p ! Suc j = CHR '' '' \<or> p ! Suc j = CHR 0x09)"
      using assms(4) by (auto simp: folds_lines_def)
    then show ?thesis using 3 at [of "Suc j"] by simp
  qed
qed

lemma valid_value_folds: "evhttp_header_is_valid_value s \<Longrightarrow> folds_lines s"
proof (induction s rule: evhttp_header_is_valid_value.induct)
  case (1 s)
  let ?q = "dropWhile (\<lambda>c. \<not> is_newline c) s"
  let ?p = "dropWhile is_newline ?q"
  show ?case
  proof (cases "?q = []")
    case True
    then show ?thesis by (auto simp: folds_lines_def dropWhile_eq_Nil_conv)
  next
    case False
    have v: "char_at ?p 0 = CHR '' '' \<or> char_at ?p 0 = CHR 0x09" "evhttp_header_is_valid_value ?p"
      using 1(2) False by (subst (asm) evhttp_header_is_valid_value.simps, simp add: Let_def split: if_splits)+
    then have "folds_lines ?p" using 1(1) [OF refl False refl] by auto
    then have "folds_lines (takeWhile (\<lambda>c. \<not> is_newline c) s @ takeWhile is_newline ?q @ ?p)"
      using v(1) by (intro folds_lines_append) (auto simp: list_all_iff dest: set_takeWhileD)
    then show ?thesis by simp
  qed
qed

lemma folds_lines_split:
  assumes "folds_lines (x @ y @ p)" "y \<noteq> []" "list_all is_newline y" "p = [] \<or> \<not> is_newline (hd p)"
  shows "char_at p 0 = CHR '' '' \<or> char_at p 0 = CHR 0x09" "folds_lines p"
proof -
  let ?s = "x @ y @ p" and ?k = "length x + length y"
  have at: "?s ! (?k + j) = p ! j" for j by (simp add: nth_append)
  let ?l = "length x + (length y - 1)"
  have l: "0 < length y" using assms(2) by simp
  then have "?s ! ?l = y ! (length y - 1)" by (simp add: nth_append)
  moreover have "is_newline (y ! (length y - 1))" using assms(3) l by (simp add: list_all_length)
  ultimately have "is_newline (?s ! ?l)" by (rule ssubst)
  moreover have "?l < length ?s" "Suc ?l = ?k" using l unfolding length_append by linarith+
  ultimately have n: "?k < length ?s" "is_newline (?s ! ?k) \<or> ?s ! ?k = CHR '' '' \<or> ?s ! ?k = CHR 0x09" using assms(1) unfolding folds_lines_def by metis+
  then have "p \<noteq> []" by auto
  then show "char_at p 0 = CHR '' '' \<or> char_at p 0 = CHR 0x09" using n(2) at [of 0] assms(4) by (simp add: char_at_def hd_conv_nth)
  show "folds_lines p"
    unfolding folds_lines_def
  proof (intro allI impI)
    fix i assume i: "i < length p" "is_newline (p ! i)"
    then have "Suc (?k + i) < length ?s \<and> (is_newline (?s ! Suc (?k + i)) \<or> ?s ! Suc (?k + i) = CHR '' '' \<or> ?s ! Suc (?k + i) = CHR 0x09)"
      using assms(1) at [of i] unfolding folds_lines_def by simp
    then show "Suc i < length p \<and> (is_newline (p ! Suc i) \<or> p ! Suc i = CHR '' '' \<or> p ! Suc i = CHR 0x09)" using at [of "Suc i"] by simp
  qed
qed

lemma folds_valid_value: "folds_lines s \<Longrightarrow> evhttp_header_is_valid_value s"
proof (induction s rule: evhttp_header_is_valid_value.induct)
  case (1 s)
  let ?q = "dropWhile (\<lambda>c. \<not> is_newline c) s"
  let ?p = "dropWhile is_newline ?q" and ?x = "takeWhile (\<lambda>c. \<not> is_newline c) s" and ?y = "takeWhile is_newline ?q"
  show ?case
  proof (cases "?q = []")
    case True
    then show ?thesis by (subst evhttp_header_is_valid_value.simps) simp
  next
    case False
    then have "is_newline (hd ?q)" using hd_dropWhile by blast
    then have y: "?y \<noteq> []" "list_all is_newline ?y" using False by (cases ?q; auto simp: list_all_iff dest: set_takeWhileD)+
    have "folds_lines (?x @ ?y @ ?p)" using 1(2) by simp
    note f = folds_lines_split [OF this y]
    have "?p = [] \<or> \<not> is_newline (hd ?p)" using hd_dropWhile by blast
    then have "char_at ?p 0 = CHR '' '' \<or> char_at ?p 0 = CHR 0x09" "evhttp_header_is_valid_value ?p" using f 1(1) [OF refl False refl] by auto
    then show ?thesis using False by (subst evhttp_header_is_valid_value.simps) (simp add: Let_def)
  qed
qed

text \<open>
  C38. \<^verbatim>\<open>evhttp_add_header\<close> takes a header exactly when its name contains neither carriage return nor line feed, every carriage return or line feed of its value is
  followed by another one, a space or a tab, and its three allocations succeed: it is then appended to the queue. In every other case the result is -1 and the
  queue is as it was.
\<close>

theorem header_accept_exact:
  "evhttp_add_header nomem hs k v =
     (if (\<forall>c. c \<in> set k \<longrightarrow> \<not> is_newline c) \<and> folds_lines v \<and> \<not> nomem 0 \<and> \<not> nomem 1 \<and> \<not> nomem 2
      then (0, hs @ [(cstr k, cstr v)]) else (- 1, hs))"
proof -
  have "evhttp_header_is_valid_value v \<longleftrightarrow> folds_lines v" using valid_value_folds folds_valid_value by blast
  moreover have "(\<forall>c. c \<in> set k \<longrightarrow> \<not> is_newline c) \<longleftrightarrow> \<not> (CHR 0x0D \<in> set k \<or> CHR 0x0A \<in> set k)" by (auto simp: is_newline_def)
  ultimately show ?thesis by (auto simp: evhttp_add_header_def evhttp_add_header_internal_def)
qed

theorem header_accept_exact_witness:
  "evhttp_add_header (\<lambda>_. False) [(''A'', ''1'')] ''B'' [CHR ''x'', CHR 0x0A, CHR ''y''] = (- 1, [(''A'', ''1'')])
   \<and> evhttp_add_header (\<lambda>_. False) [(''A'', ''1'')] ''B'' [CHR ''x'', CHR 0x0A, CHR '' '', CHR ''y'']
     = (0, [(''A'', ''1''), (''B'', [CHR ''x'', CHR 0x0A, CHR '' '', CHR ''y''])])"
proof -
  have "\<not> folds_lines [CHR ''x'', CHR 0x0A, CHR ''y'']" by (auto simp: folds_lines_def is_newline_def intro!: exI [of _ 1])
  moreover have "folds_lines [CHR ''x'', CHR 0x0A, CHR '' '', CHR ''y'']"
    by (simp add: folds_lines_def is_newline_def All_less_Suc)
  ultimately show ?thesis by (simp add: header_accept_exact is_newline_def cstr_def)
qed

text \<open>
  An empty line gets through: a value with two line ends and a blank behind them is accepted, although the second line end closes the whole block of headers when the
  message is written, and the rest of the value is sent as its body.
\<close>

theorem header_takes_empty_line:
  assumes "\<forall>c. c \<in> set k \<longrightarrow> \<not> is_newline c" "folds_lines (CHR '' '' # b)" "list_all (\<lambda>c. \<not> is_newline c) a" "NUL \<notin> set (k @ a @ b)"
  shows "evhttp_add_header (\<lambda>_. False) hs k (a @ [CHR 0x0D, CHR 0x0A, CHR 0x0D, CHR 0x0A, CHR '' ''] @ b)
    = (0, hs @ [(k, a @ [CHR 0x0D, CHR 0x0A, CHR 0x0D, CHR 0x0A, CHR '' ''] @ b)])"
proof -
  have "folds_lines (a @ [CHR 0x0D, CHR 0x0A, CHR 0x0D, CHR 0x0A] @ CHR '' '' # b)"
    by (rule folds_lines_append) (use assms(2,3) in \<open>simp_all add: is_newline_def char_at_def\<close>)
  moreover have "cstr k = k" "cstr (a @ [CHR 0x0D, CHR 0x0A, CHR 0x0D, CHR 0x0A, CHR '' ''] @ b) = a @ [CHR 0x0D, CHR 0x0A, CHR 0x0D, CHR 0x0A, CHR '' ''] @ b"
    using assms(4) unfolding cstr_def takeWhile_eq_all_conv by auto
  ultimately show ?thesis using assms(1) by (auto simp: evhttp_add_header_def evhttp_add_header_internal_def folds_valid_value is_newline_def)
qed

theorem header_takes_empty_line_witness:
  "evhttp_add_header (\<lambda>_. False) [] ''B'' [CHR ''x'', CHR 0x0D, CHR 0x0A, CHR 0x0D, CHR 0x0A, CHR '' '', CHR ''y'']
    = (0, [(''B'', [CHR ''x'', CHR 0x0D, CHR 0x0A, CHR 0x0D, CHR 0x0A, CHR '' '', CHR ''y''])])"
  using header_takes_empty_line [of "''B''" "''y''" "''x''" "[]"] by (simp add: folds_lines_def is_newline_def All_less_Suc)

section \<open>Query strings\<close>

lemma strsep_found: "d \<notin> set a \<Longrightarrow> strsep d (a @ d # r) = (a, Some r)"
  by (simp add: strsep_def Let_def takeWhile_append)

lemma strsep_end: "d \<notin> set a \<Longrightarrow> strsep d a = (a, None)"
proof -
  assume d: "d \<notin> set a"
  then have "takeWhile (\<lambda>c. c \<noteq> d) a = a" unfolding takeWhile_eq_all_conv by auto
  then have "length (takeWhile (\<lambda>c. c \<noteq> d) a) = length a" by (rule arg_cong)
  then show ?thesis using d unfolding strsep_def Let_def by simp
qed

fun query_text :: "evkeyvalq \<Rightarrow> byte list" where
  "query_text [] = []"
| "query_text [(k, v)] = k @ ''='' @ encoded True v"
| "query_text ((k, v) # kvs) = k @ ''='' @ encoded True v @ ''&'' @ query_text kvs"

lemma xdigit_no_delim: "isxdigit c \<Longrightarrow> c \<notin> {CHR ''&'', CHR ''=''}"
  by (auto simp: isxdigit_def)

lemma encode_char_delims: "set (encode_char p c) \<inter> {CHR ''&'', CHR ''=''} = {}"
proof -
  have h: "hex_char 65 d \<notin> {CHR ''&'', CHR ''=''}" if "d < 16" for d
    using hex_char(1) [of d 65] xdigit_no_delim that by blast
  have "(of_char c :: nat) div 16 < 16" "(of_char c :: nat) mod 16 < 16" by (simp_all add: div_less_iff_less_mult)
  moreover have "c \<notin> {CHR ''&'', CHR ''=''}" if "CHAR_IS_UNRESERVED c"
    using that by (auto simp: CHAR_IS_UNRESERVED_iff unreserved_def)
  ultimately show ?thesis using h [of "of_char c div 16"] h [of "of_char c mod 16"] by (auto simp: encode_char_def)
qed

lemma encoded_delims: "set (encoded p v) \<inter> {CHR ''&'', CHR ''=''} = {}"
  using encode_char_delims by (induction v) auto

definition plain_pair :: "byte list \<times> byte list \<Rightarrow> bool" where
  "plain_pair kv \<longleftrightarrow> fst kv \<noteq> [] \<and> set (fst kv) \<inter> {CHR ''&'', CHR ''='', NUL} = {} \<and> NUL \<notin> set (snd kv)"

lemma query_arg:
  assumes "plain_pair (k, v)"
  shows "strsep CHR ''='' (k @ ''='' @ encoded True v) = (k, Some (encoded True v))"
    "CHR ''&'' \<notin> set (k @ ''='' @ encoded True v)" "cstr k = k" "cstr v = v"
    "evhttp_decode_uri_internal (encoded True v @ [NUL]) (length (encoded True v)) 1 = Inr v"
proof -
  show "strsep CHR ''='' (k @ ''='' @ encoded True v) = (k, Some (encoded True v))"
    using assms strsep_found [of "CHR ''=''" k] by (auto simp: plain_pair_def)
  show "CHR ''&'' \<notin> set (k @ ''='' @ encoded True v)" using assms encoded_delims [of True v] by (auto simp: plain_pair_def)
  show "cstr k = k" "cstr v = v" using assms by (auto simp: cstr_def plain_pair_def takeWhile_eq_all_conv)
  show "evhttp_decode_uri_internal (encoded True v @ [NUL]) (length (encoded True v)) 1 = Inr v"
    by (simp add: evhttp_decode_uri_internal_def decode_encoded)
qed

lemma query_loop_text:
  "list_all plain_pair kvs \<Longrightarrow> query_loop (query_text kvs) hs = Inr (Some (hs @ kvs))"
proof (induction kvs arbitrary: hs rule: query_text.induct)
  case 1
  then show ?case by (simp add: query_loop.simps)
next
  case (2 k v)
  then have p: "plain_pair (k, v)" by simp
  then have "k \<noteq> []" by (simp add: plain_pair_def)
  then show ?case using query_arg [OF p] strsep_end [OF query_arg(2) [OF p]]
    by (subst query_loop.simps) (simp add: evhttp_add_header_internal_def)
next
  case (3 k v x xs)
  then have p: "plain_pair (k, v)" by simp
  have s: "strsep CHR ''&'' (query_text ((k, v) # x # xs)) = (k @ ''='' @ encoded True v, Some (query_text (x # xs)))"
    using strsep_found [OF query_arg(2) [OF p], of "query_text (x # xs)"] by simp
  have k: "k \<noteq> []" using p by (simp add: plain_pair_def)
  then have "query_text ((k, v) # x # xs) \<noteq> []" by simp
  then show ?case using query_arg [OF p] s k 3
    by (subst query_loop.simps) (simp add: evhttp_add_header_internal_def del: query_text.simps)
qed

text \<open>
  C36. A query string put together from names and encoded values is taken apart into exactly
  these names and values, in order and with repetitions.
\<close>

theorem query_round_trip:
  assumes "list_all plain_pair kvs"
  shows "evhttp_parse_query_str (query_text kvs) = Inr (0, kvs)"
proof (cases kvs)
  case (Cons kv r)
  then have "query_text kvs \<noteq> []" using assms by (cases kv; cases r) (auto simp: plain_pair_def)
  then show ?thesis using query_loop_text [OF assms, of "[]"]
    by (simp add: evhttp_parse_query_str_def evhttp_parse_query_impl_def)
qed (simp add: evhttp_parse_query_str_def evhttp_parse_query_impl_def)

theorem query_round_trip_witness:
  "evhttp_parse_query_str (query_text [(''q'', ''a b&c''), (''q'', ''=''), (''lang'', [])])
     = Inr (0, [(''q'', ''a b&c''), (''q'', ''=''), (''lang'', [])])"
  by (rule query_round_trip) (simp add: plain_pair_def)

end
