(* ===== verification/Evbuffer.thy ===== *)
theory Evbuffer
  imports BT_Prelude
begin

unbundle bit_operations_syntax

text \<open>
  The byte queues of the bundled event library, \<^verbatim>\<open>libevent/buffer.c\<close> and
  \<^verbatim>\<open>libevent/evbuffer-internal.h\<close>: an \<^verbatim>\<open>evbuffer\<close> is a singly linked list of chains, each a block
  of memory with a used part in it.

  Chains and buffers live in heaps of their own. \<^verbatim>\<open>last_with_datap\<close> is a pointer to a pointer:
  \<open>First b\<close> is \<^verbatim>\<open>&b->first\<close> and \<open>Next c\<close> is \<^verbatim>\<open>&c->next\<close>; following it when the chain \<open>c\<close> has
  been freed is a fault, as is every access outside the memory of a chain. Addresses are never
  reused and \<open>0\<close> is \<^verbatim>\<open>NULL\<close>. \<open>ev_oom\<close> says which allocations fail. Loops over chains are
  bounded by the number of addresses handed out. \<open>size_t\<close> values are natural numbers with the
  wrap-around written out where a sum or difference could leave the range.

  The program runs single-threaded, so locks do nothing here. Calls of code outside the module
  (buffer callbacks, cleanup functions of referenced memory, \<^verbatim>\<open>munmap\<close> and \<^verbatim>\<open>close\<close>) are
  recorded; a callback that changes the buffer it is called for is outside the model.
\<close>

section \<open>State\<close>

type_synonym u8 = "8 word"

datatype cell = First nat | Next nat

datatype chain_extra = NoExtra | Ref_Extra nat nat | Fd_Extra int

record evbuffer_chain =
  ch_next :: nat
  buffer_len :: nat
  misalign :: nat
  off :: nat
  ch_flags :: "32 word"
  ch_buffer :: "nat \<Rightarrow> u8"
  ch_extra :: chain_extra

definition EVBUFFER_MMAP :: "32 word" where "EVBUFFER_MMAP = 0x0001"
definition EVBUFFER_SENDFILE :: "32 word" where "EVBUFFER_SENDFILE = 0x0002"
definition EVBUFFER_REFERENCE :: "32 word" where "EVBUFFER_REFERENCE = 0x0004"
definition EVBUFFER_IMMUTABLE :: "32 word" where "EVBUFFER_IMMUTABLE = 0x0008"
definition EVBUFFER_MEM_PINNED_R :: "32 word" where "EVBUFFER_MEM_PINNED_R = 0x0010"
definition EVBUFFER_MEM_PINNED_W :: "32 word" where "EVBUFFER_MEM_PINNED_W = 0x0020"
definition EVBUFFER_MEM_PINNED_ANY :: "32 word" where
  "EVBUFFER_MEM_PINNED_ANY = (EVBUFFER_MEM_PINNED_R OR EVBUFFER_MEM_PINNED_W)"
definition EVBUFFER_DANGLING :: "32 word" where "EVBUFFER_DANGLING = 0x0040"

record evbuffer_cb_entry =
  cb_id :: nat
  cb_func :: nat
  cbarg :: nat
  cb_flags :: "32 word"

record evbuffer =
  eb_first :: nat
  eb_last :: nat
  last_with_datap :: cell
  total_len :: nat
  n_add_for_cb :: nat
  n_del_for_cb :: nat
  freeze_start :: bool
  freeze_end :: bool
  deferred_cbs :: bool
  eb_flags :: "32 word"
  refcnt :: int
  deferred_queued :: bool
  callbacks :: "evbuffer_cb_entry list"

text \<open>What a callback is told: \<^verbatim>\<open>struct evbuffer_cb_info\<close>, or the two sizes of the obsolete interface.\<close>

datatype ev_call =
    Callback nat nat nat nat nat nat
  | Obsolete nat nat nat nat nat
  | Cleanup nat nat nat
  | Munmap nat
  | Close int

record evstate =
  ch_heap :: "nat \<Rightarrow> evbuffer_chain option"
  eb_heap :: "nat \<Rightarrow> evbuffer option"
  ev_brk :: nat
  ev_oom :: "nat \<Rightarrow> bool"
  ev_junk :: "nat \<Rightarrow> u8"
  ev_log :: "ev_call list"

type_synonym 'a brun = "(evstate, 'a) run"

definition EV_SIZE_MAX :: nat where "EV_SIZE_MAX = 2 ^ 64 - 1"
definition EV_SSIZE_MAX :: nat where "EV_SSIZE_MAX = 2 ^ 63 - 1"
definition EVBUFFER_CHAIN_MAX :: nat where "EVBUFFER_CHAIN_MAX = EV_SSIZE_MAX"
definition EVBUFFER_CHAIN_SIZE :: nat where "EVBUFFER_CHAIN_SIZE = 48"
definition MIN_BUFFER_SIZE :: nat where "MIN_BUFFER_SIZE = 1024"

definition sz_add :: "nat \<Rightarrow> nat \<Rightarrow> nat" where "sz_add a b = (a + b) mod 2 ^ 64"
definition sz_sub :: "nat \<Rightarrow> nat \<Rightarrow> nat" where "sz_sub a b = (a + (2 ^ 64 - b)) mod 2 ^ 64"

section \<open>Access to the heaps\<close>

definition with_brk :: "(nat \<Rightarrow> 'a brun) \<Rightarrow> 'a brun" where
  "with_brk f = (\<lambda>s. f (Suc (ev_brk s)) s)"

definition ld_chain :: "nat \<Rightarrow> evbuffer_chain brun" where
  "ld_chain p = (\<lambda>s. if p = 0 then Inl NullDeref
     else case ch_heap s p of None \<Rightarrow> Inl BadPointer | Some c \<Rightarrow> Inr (c, s))"

definition upd_chain :: "nat \<Rightarrow> (evbuffer_chain \<Rightarrow> evbuffer_chain) \<Rightarrow> unit brun" where
  "upd_chain p f = bnd (ld_chain p) (\<lambda>c s. Inr ((), s\<lparr>ch_heap := (ch_heap s)(p \<mapsto> f c)\<rparr>))"

definition ld_buf :: "nat \<Rightarrow> evbuffer brun" where
  "ld_buf b = (\<lambda>s. if b = 0 then Inl NullDeref
     else case eb_heap s b of None \<Rightarrow> Inl BadPointer | Some e \<Rightarrow> Inr (e, s))"

definition upd_buf :: "nat \<Rightarrow> (evbuffer \<Rightarrow> evbuffer) \<Rightarrow> unit brun" where
  "upd_buf b f = bnd (ld_buf b) (\<lambda>e s. Inr ((), s\<lparr>eb_heap := (eb_heap s)(b \<mapsto> f e)\<rparr>))"

fun rd_cell :: "cell \<Rightarrow> nat brun" where
  "rd_cell (First b) = bnd (ld_buf b) (\<lambda>e. ret (eb_first e))"
| "rd_cell (Next p) = bnd (ld_chain p) (\<lambda>c. ret (ch_next c))"

fun wr_cell :: "cell \<Rightarrow> nat \<Rightarrow> unit brun" where
  "wr_cell (First b) q = upd_buf b (\<lambda>e. e\<lparr>eb_first := q\<rparr>)"
| "wr_cell (Next p) q = upd_chain p (\<lambda>c. c\<lparr>ch_next := q\<rparr>)"

definition log_call :: "ev_call \<Rightarrow> unit brun" where
  "log_call x = (\<lambda>s. Inr ((), s\<lparr>ev_log := ev_log s @ [x]\<rparr>))"

text \<open>
  The memory of a chain: \<open>slice\<close> reads a range, \<open>put\<close> overwrites one; \<open>ld_bytes\<close> and \<open>st_bytes\<close> are
  \<^verbatim>\<open>memcpy\<close> out of and into \<^verbatim>\<open>chain->buffer\<close>.
\<close>

definition slice :: "(nat \<Rightarrow> 'a) \<Rightarrow> nat \<Rightarrow> nat \<Rightarrow> 'a list" where
  "slice f i n = map f [i..<i + n]"

definition put :: "(nat \<Rightarrow> 'a) \<Rightarrow> nat \<Rightarrow> 'a list \<Rightarrow> nat \<Rightarrow> 'a" where
  "put f i xs = (\<lambda>j. if i \<le> j \<and> j < i + length xs then xs ! (j - i) else f j)"

definition ld_bytes :: "nat \<Rightarrow> nat \<Rightarrow> nat \<Rightarrow> u8 list brun" where
  "ld_bytes p i n = bnd (ld_chain p) (\<lambda>c.
     if i + n \<le> buffer_len c then ret (slice (ch_buffer c) i n) else stop OutOfBounds)"

definition st_bytes :: "nat \<Rightarrow> nat \<Rightarrow> u8 list \<Rightarrow> unit brun" where
  "st_bytes p i xs = bnd (ld_chain p) (\<lambda>c.
     if i + length xs \<le> buffer_len c then upd_chain p (\<lambda>c. c\<lparr>ch_buffer := put (ch_buffer c) i xs\<rparr>)
     else stop OutOfBounds)"

section \<open>Chains\<close>

definition CHAIN_SPACE_LEN :: "evbuffer_chain \<Rightarrow> nat" where
  "CHAIN_SPACE_LEN ch =
     (if ch_flags ch AND EVBUFFER_IMMUTABLE \<noteq> 0 then 0 else sz_sub (buffer_len ch) (sz_add (misalign ch) (off ch)))"

text \<open>A pointer into the memory of a chain is the chain with an offset.\<close>

definition CHAIN_SPACE_PTR :: "nat \<Rightarrow> evbuffer_chain \<Rightarrow> nat \<times> nat" where
  "CHAIN_SPACE_PTR p ch = (p, misalign ch + off ch)"

definition CHAIN_PINNED :: "evbuffer_chain \<Rightarrow> bool" where
  "CHAIN_PINNED ch \<longleftrightarrow> ch_flags ch AND EVBUFFER_MEM_PINNED_ANY \<noteq> 0"

definition CHAIN_PINNED_R :: "evbuffer_chain \<Rightarrow> bool" where
  "CHAIN_PINNED_R ch \<longleftrightarrow> ch_flags ch AND EVBUFFER_MEM_PINNED_R \<noteq> 0"

text \<open>
  The loop that doubles the allocation. It starts at \<open>MIN_BUFFER_SIZE\<close> and is only run for sizes below
  \<^verbatim>\<open>EVBUFFER_CHAIN_MAX / 2\<close>, so the doubling never leaves the range of \<open>size_t\<close>.
\<close>

function grown_size :: "nat \<Rightarrow> nat \<Rightarrow> nat" where
  "grown_size to_alloc sz = (if 0 < to_alloc \<and> to_alloc < sz then grown_size (2 * to_alloc) sz else to_alloc)"
  by pat_completeness auto

termination
  by (relation "measure (\<lambda>(a, n). n - a)") auto

declare grown_size.simps [simp del]

definition evbuffer_chain_new :: "nat \<Rightarrow> nat brun" where
  "evbuffer_chain_new sz =
     (if sz > EVBUFFER_CHAIN_MAX - EVBUFFER_CHAIN_SIZE then ret 0
      else
        let to_fit = sz + EVBUFFER_CHAIN_SIZE;
            to_alloc = (if to_fit < EVBUFFER_CHAIN_MAX div 2 then grown_size MIN_BUFFER_SIZE to_fit else to_fit)
        in (\<lambda>s. let p = ev_brk s in
             if ev_oom s p then Inr (0, s\<lparr>ev_brk := Suc p\<rparr>)
             else Inr (p, s\<lparr>ev_brk := Suc p, ch_heap := (ch_heap s)(p \<mapsto>
                    \<lparr>ch_next = 0, buffer_len = to_alloc - EVBUFFER_CHAIN_SIZE, misalign = 0, off = 0, ch_flags = 0,
                     ch_buffer = ev_junk s, ch_extra = NoExtra\<rparr>)\<rparr>)))"

definition mm_free_chain :: "nat \<Rightarrow> unit brun" where
  "mm_free_chain p = bnd (ld_chain p) (\<lambda>_ s. Inr ((), s\<lparr>ch_heap := (ch_heap s)(p := None)\<rparr>))"

definition evbuffer_chain_free :: "nat \<Rightarrow> unit brun" where
  "evbuffer_chain_free p =
     bnd (ld_chain p) (\<lambda>ch.
     if CHAIN_PINNED ch then upd_chain p (\<lambda>ch. ch\<lparr>ch_flags := ch_flags ch OR EVBUFFER_DANGLING\<rparr>)
     else
       bnd (if ch_flags ch AND EVBUFFER_REFERENCE \<noteq> 0 then
              (case ch_extra ch of Ref_Extra cleanupfn extra \<Rightarrow>
                 if cleanupfn \<noteq> 0 then log_call (Cleanup cleanupfn (buffer_len ch) extra) else ret ()
               | _ \<Rightarrow> stop BadPointer)
            else ret ()) (\<lambda>_.
       bnd (if ch_flags ch AND EVBUFFER_MMAP \<noteq> 0 then
              (case ch_extra ch of Fd_Extra fd \<Rightarrow>
                 bnd (log_call (Munmap (buffer_len ch))) (\<lambda>_. log_call (Close fd))
               | _ \<Rightarrow> stop BadPointer)
            else ret ()) (\<lambda>_.
       bnd (if ch_flags ch AND EVBUFFER_SENDFILE \<noteq> 0 then
              (case ch_extra ch of Fd_Extra fd \<Rightarrow> log_call (Close fd) | _ \<Rightarrow> stop BadPointer)
            else ret ()) (\<lambda>_.
       mm_free_chain p))))"

fun free_chains_loop :: "nat \<Rightarrow> nat \<Rightarrow> unit brun" where
  "free_chains_loop 0 chain = stop OutOfFuel"
| "free_chains_loop (Suc f) chain =
     (if chain \<noteq> 0 then
        bnd (ld_chain chain) (\<lambda>c.
        bnd (evbuffer_chain_free chain) (\<lambda>_. free_chains_loop f (ch_next c)))
      else ret ())"

definition evbuffer_free_all_chains :: "nat \<Rightarrow> unit brun" where
  "evbuffer_free_all_chains chain = with_brk (\<lambda>n. free_chains_loop n chain)"

fun all_empty_loop :: "nat \<Rightarrow> nat \<Rightarrow> bool brun" where
  "all_empty_loop 0 chain = stop OutOfFuel"
| "all_empty_loop (Suc f) chain =
     (if chain \<noteq> 0 then
        bnd (ld_chain chain) (\<lambda>c. if off c \<noteq> 0 then ret False else all_empty_loop f (ch_next c))
      else ret True)"

definition evbuffer_chains_all_empty :: "nat \<Rightarrow> bool brun" where
  "evbuffer_chains_all_empty chain = with_brk (\<lambda>n. all_empty_loop n chain)"

text \<open>The search for the first chain that is empty and not pinned.\<close>

fun victim_loop :: "nat \<Rightarrow> cell \<Rightarrow> cell brun" where
  "victim_loop 0 ch = stop OutOfFuel"
| "victim_loop (Suc f) ch =
     bnd (rd_cell ch) (\<lambda>p.
     if p = 0 then ret ch
     else bnd (ld_chain p) (\<lambda>c. if off c \<noteq> 0 \<or> CHAIN_PINNED c then victim_loop f (Next p) else ret ch))"

definition evbuffer_free_trailing_empty_chains :: "nat \<Rightarrow> cell brun" where
  "evbuffer_free_trailing_empty_chains buf =
     bnd (ld_buf buf) (\<lambda>e.
     bnd (with_brk (\<lambda>n. victim_loop n (last_with_datap e))) (\<lambda>ch.
     bnd (rd_cell ch) (\<lambda>p.
     bnd (if p \<noteq> 0 then
            bnd (evbuffer_chains_all_empty p) (\<lambda>r.
            bnd (chk r AssertFailed) (\<lambda>_.
            bnd (evbuffer_free_all_chains p) (\<lambda>_. wr_cell ch 0)))
          else ret ()) (\<lambda>_.
     ret ch))))"

definition evbuffer_chain_insert :: "nat \<Rightarrow> nat \<Rightarrow> unit brun" where
  "evbuffer_chain_insert buf chain =
     bnd (ld_buf buf) (\<lambda>e.
     bnd (rd_cell (last_with_datap e)) (\<lambda>d.
     bnd (if d = 0 then
            bnd (chk (last_with_datap e = First buf) AssertFailed) (\<lambda>_.
            bnd (chk (eb_first e = 0) AssertFailed) (\<lambda>_.
            upd_buf buf (\<lambda>e. e\<lparr>eb_first := chain, eb_last := chain\<rparr>)))
          else
            bnd (with_brk (\<lambda>n. victim_loop n (last_with_datap e))) (\<lambda>ch.
            bnd (rd_cell ch) (\<lambda>p.
            bnd (if p = 0 then
                   bnd (upd_chain (eb_last e) (\<lambda>c. c\<lparr>ch_next := chain\<rparr>)) (\<lambda>_.
                   bnd (ld_chain chain) (\<lambda>c.
                   if off c \<noteq> 0 then upd_buf buf (\<lambda>e. e\<lparr>last_with_datap := Next (eb_last e)\<rparr>) else ret ()))
                 else
                   bnd (evbuffer_chains_all_empty p) (\<lambda>r.
                   bnd (chk r AssertFailed) (\<lambda>_.
                   bnd (evbuffer_free_all_chains p) (\<lambda>_.
                   wr_cell ch chain)))) (\<lambda>_.
            upd_buf buf (\<lambda>e. e\<lparr>eb_last := chain\<rparr>))))) (\<lambda>_.
     bnd (ld_chain chain) (\<lambda>c.
     upd_buf buf (\<lambda>e. e\<lparr>total_len := sz_add (total_len e) (off c)\<rparr>)))))"

definition evbuffer_chain_insert_new :: "nat \<Rightarrow> nat \<Rightarrow> nat brun" where
  "evbuffer_chain_insert_new buf datlen =
     bnd (evbuffer_chain_new datlen) (\<lambda>chain.
     if chain = 0 then ret 0
     else bnd (evbuffer_chain_insert buf chain) (\<lambda>_. ret chain))"

definition evbuffer_chain_pin :: "nat \<Rightarrow> 32 word \<Rightarrow> unit brun" where
  "evbuffer_chain_pin chain flag =
     bnd (ld_chain chain) (\<lambda>c.
     bnd (chk (ch_flags c AND flag = 0) AssertFailed) (\<lambda>_.
     upd_chain chain (\<lambda>c. c\<lparr>ch_flags := ch_flags c OR flag\<rparr>)))"

definition evbuffer_chain_unpin :: "nat \<Rightarrow> 32 word \<Rightarrow> unit brun" where
  "evbuffer_chain_unpin chain flag =
     bnd (ld_chain chain) (\<lambda>c.
     bnd (chk (ch_flags c AND flag \<noteq> 0) AssertFailed) (\<lambda>_.
     bnd (upd_chain chain (\<lambda>c. c\<lparr>ch_flags := ch_flags c AND NOT flag\<rparr>)) (\<lambda>_.
     bnd (ld_chain chain) (\<lambda>c.
     if ch_flags c AND EVBUFFER_DANGLING \<noteq> 0 then evbuffer_chain_free chain else ret ()))))"

definition evbuffer_chain_align :: "nat \<Rightarrow> unit brun" where
  "evbuffer_chain_align chain =
     bnd (ld_chain chain) (\<lambda>c.
     bnd (chk (ch_flags c AND EVBUFFER_IMMUTABLE = 0) AssertFailed) (\<lambda>_.
     bnd (chk (ch_flags c AND EVBUFFER_MEM_PINNED_ANY = 0) AssertFailed) (\<lambda>_.
     bnd (ld_bytes chain (misalign c) (off c)) (\<lambda>bs.
     bnd (st_bytes chain 0 bs) (\<lambda>_.
     upd_chain chain (\<lambda>c. c\<lparr>misalign := 0\<rparr>))))))"

definition MAX_TO_COPY_IN_EXPAND :: nat where "MAX_TO_COPY_IN_EXPAND = 4096"
definition MAX_TO_REALIGN_IN_EXPAND :: nat where "MAX_TO_REALIGN_IN_EXPAND = 2048"

definition evbuffer_chain_should_realign :: "evbuffer_chain \<Rightarrow> nat \<Rightarrow> bool" where
  "evbuffer_chain_should_realign chain datlen \<longleftrightarrow>
     sz_sub (buffer_len chain) (off chain) \<ge> datlen \<and> off chain < buffer_len chain div 2 \<and>
     off chain \<le> MAX_TO_REALIGN_IN_EXPAND"

end
