(* ===== verification/Evbuffer_Ops.thy ===== *)
theory Evbuffer_Ops
  imports Evbuffer
begin

unbundle bit_operations_syntax

text \<open>
  The queue operations of \<^verbatim>\<open>libevent/buffer.c\<close>: creating and freeing buffers, callbacks, adding at both
  ends, draining, copying out, moving data between buffers and making data contiguous.
\<close>

section \<open>Callbacks\<close>

definition EVBUFFER_CB_ENABLED :: "32 word" where "EVBUFFER_CB_ENABLED = 1"
definition EVBUFFER_CB_NODEFER :: "32 word" where "EVBUFFER_CB_NODEFER = 2"
definition EVBUFFER_CB_OBSOLETE :: "32 word" where "EVBUFFER_CB_OBSOLETE = 0x00040000"
definition EVBUFFER_CB_INTERNAL_FLAGS :: "32 word" where "EVBUFFER_CB_INTERNAL_FLAGS = 0xffff0000"

fun callback_loop :: "nat \<Rightarrow> 32 word \<Rightarrow> 32 word \<Rightarrow> nat \<Rightarrow> nat \<Rightarrow> nat \<Rightarrow> nat \<Rightarrow> evbuffer_cb_entry list \<Rightarrow> unit brun" where
  "callback_loop buf msk masked_val orig_size new_size n_added n_deleted [] = ret ()"
| "callback_loop buf msk masked_val orig_size new_size n_added n_deleted (cbent # cbs) =
     bnd (if cb_flags cbent AND msk \<noteq> masked_val then ret ()
          else if cb_flags cbent AND EVBUFFER_CB_OBSOLETE \<noteq> 0
          then log_call (Obsolete (cb_func cbent) buf orig_size new_size (cbarg cbent))
          else log_call (Callback (cb_func cbent) buf orig_size n_added n_deleted (cbarg cbent))) (\<lambda>_.
     callback_loop buf msk masked_val orig_size new_size n_added n_deleted cbs)"

definition evbuffer_run_callbacks :: "nat \<Rightarrow> bool \<Rightarrow> unit brun" where
  "evbuffer_run_callbacks buffer running_deferred =
     bnd (ld_buf buffer) (\<lambda>e.
     let (msk, masked_val, clear) =
       (if running_deferred then (EVBUFFER_CB_NODEFER OR EVBUFFER_CB_ENABLED, EVBUFFER_CB_ENABLED, True)
        else if deferred_cbs e then
          (EVBUFFER_CB_NODEFER OR EVBUFFER_CB_ENABLED, EVBUFFER_CB_NODEFER OR EVBUFFER_CB_ENABLED, False)
        else (EVBUFFER_CB_ENABLED, EVBUFFER_CB_ENABLED, True)) in
     if callbacks e = [] then upd_buf buffer (\<lambda>e. e\<lparr>n_add_for_cb := 0, n_del_for_cb := 0\<rparr>)
     else if n_add_for_cb e = 0 \<and> n_del_for_cb e = 0 then ret ()
     else
       let new_size = total_len e;
           orig_size = sz_sub (sz_add new_size (n_del_for_cb e)) (n_add_for_cb e)
       in bnd (if clear then upd_buf buffer (\<lambda>e. e\<lparr>n_add_for_cb := 0, n_del_for_cb := 0\<rparr>) else ret ()) (\<lambda>_.
          callback_loop buffer msk masked_val orig_size new_size (n_add_for_cb e) (n_del_for_cb e) (callbacks e)))"

text \<open>The deferred queue of the event loop only notes that the buffer is queued.\<close>

definition evbuffer_invoke_callbacks :: "nat \<Rightarrow> unit brun" where
  "evbuffer_invoke_callbacks buffer =
     bnd (ld_buf buffer) (\<lambda>e.
     if callbacks e = [] then upd_buf buffer (\<lambda>e. e\<lparr>n_add_for_cb := 0, n_del_for_cb := 0\<rparr>)
     else if deferred_cbs e then
       (if deferred_queued e then ret ()
        else
          bnd (upd_buf buffer (\<lambda>e. e\<lparr>refcnt := refcnt e + 1\<rparr>)) (\<lambda>_.
          bnd (upd_buf buffer (\<lambda>e. e\<lparr>deferred_queued := True\<rparr>)) (\<lambda>_.
          evbuffer_run_callbacks buffer False)))
     else evbuffer_run_callbacks buffer False)"

definition evbuffer_add_cb :: "nat \<Rightarrow> nat \<Rightarrow> nat \<Rightarrow> nat brun" where
  "evbuffer_add_cb buffer cb arg =
     bnd (\<lambda>s. Inr (ev_brk s, s\<lparr>ev_brk := Suc (ev_brk s)\<rparr>)) (\<lambda>p.
     bnd (\<lambda>s. Inr (ev_oom s p, s)) (\<lambda>fails.
     if fails then ret 0
     else
       bnd (upd_buf buffer (\<lambda>e. e\<lparr>callbacks :=
              \<lparr>cb_id = p, cb_func = cb, cbarg = arg, cb_flags = EVBUFFER_CB_ENABLED\<rparr> # callbacks e\<rparr>)) (\<lambda>_.
       ret p)))"

definition evbuffer_remove_all_callbacks :: "nat \<Rightarrow> unit brun" where
  "evbuffer_remove_all_callbacks buffer = upd_buf buffer (\<lambda>e. e\<lparr>callbacks := []\<rparr>)"

definition evbuffer_remove_cb_entry :: "nat \<Rightarrow> nat \<Rightarrow> int brun" where
  "evbuffer_remove_cb_entry buffer ent =
     bnd (upd_buf buffer (\<lambda>e. e\<lparr>callbacks := filter (\<lambda>x. cb_id x \<noteq> ent) (callbacks e)\<rparr>)) (\<lambda>_. ret 0)"

definition evbuffer_remove_cb :: "nat \<Rightarrow> nat \<Rightarrow> nat \<Rightarrow> int brun" where
  "evbuffer_remove_cb buffer cb arg =
     bnd (ld_buf buffer) (\<lambda>e.
     case filter (\<lambda>x. cb_func x = cb \<and> cbarg x = arg) (callbacks e) of [] \<Rightarrow> ret (- 1)
     | x # _ \<Rightarrow> evbuffer_remove_cb_entry buffer (cb_id x))"

definition evbuffer_cb_set_flags :: "nat \<Rightarrow> nat \<Rightarrow> 32 word \<Rightarrow> int brun" where
  "evbuffer_cb_set_flags buffer cb flags =
     bnd (upd_buf buffer (\<lambda>e. e\<lparr>callbacks := map (\<lambda>x. if cb_id x = cb
            then x\<lparr>cb_flags := cb_flags x OR (flags AND NOT EVBUFFER_CB_INTERNAL_FLAGS)\<rparr> else x) (callbacks e)\<rparr>)) (\<lambda>_.
     ret 0)"

definition evbuffer_cb_clear_flags :: "nat \<Rightarrow> nat \<Rightarrow> 32 word \<Rightarrow> int brun" where
  "evbuffer_cb_clear_flags buffer cb flags =
     bnd (upd_buf buffer (\<lambda>e. e\<lparr>callbacks := map (\<lambda>x. if cb_id x = cb
            then x\<lparr>cb_flags := cb_flags x AND NOT (flags AND NOT EVBUFFER_CB_INTERNAL_FLAGS)\<rparr> else x) (callbacks e)\<rparr>)) (\<lambda>_.
     ret 0)"

text \<open>The obsolete interface with one callback; the entry is used without a test that it was allocated.\<close>

definition evbuffer_setcb :: "nat \<Rightarrow> nat \<Rightarrow> nat \<Rightarrow> unit brun" where
  "evbuffer_setcb buffer cb arg =
     bnd (ld_buf buffer) (\<lambda>e.
     bnd (if callbacks e \<noteq> [] then evbuffer_remove_all_callbacks buffer else ret ()) (\<lambda>_.
     if cb \<noteq> 0 then
       bnd (evbuffer_add_cb buffer 0 arg) (\<lambda>ent.
       if ent = 0 then stop NullDeref
       else upd_buf buffer (\<lambda>e. e\<lparr>callbacks := map (\<lambda>x. if cb_id x = ent
              then x\<lparr>cb_func := cb, cb_flags := cb_flags x OR EVBUFFER_CB_OBSOLETE\<rparr> else x) (callbacks e)\<rparr>))
     else ret ()))"

section \<open>Buffers\<close>

definition evbuffer_new :: "nat brun" where
  "evbuffer_new = (\<lambda>s. let b = ev_brk s in
     if ev_oom s b then Inr (0, s\<lparr>ev_brk := Suc b\<rparr>)
     else Inr (b, s\<lparr>ev_brk := Suc b, eb_heap := (eb_heap s)(b \<mapsto>
            \<lparr>eb_first = 0, eb_last = 0, last_with_datap = First b, total_len = 0, n_add_for_cb = 0, n_del_for_cb = 0,
             freeze_start = False, freeze_end = False, deferred_cbs = False, eb_flags = 0, refcnt = 1,
             deferred_queued = False, callbacks = []\<rparr>)\<rparr>))"

definition evbuffer_set_flags :: "nat \<Rightarrow> 64 word \<Rightarrow> int brun" where
  "evbuffer_set_flags buf flags = bnd (upd_buf buf (\<lambda>e. e\<lparr>eb_flags := eb_flags e OR ucast flags\<rparr>)) (\<lambda>_. ret 0)"

definition evbuffer_clear_flags :: "nat \<Rightarrow> 64 word \<Rightarrow> int brun" where
  "evbuffer_clear_flags buf flags = bnd (upd_buf buf (\<lambda>e. e\<lparr>eb_flags := eb_flags e AND NOT (ucast flags)\<rparr>)) (\<lambda>_. ret 0)"

definition evbuffer_incref :: "nat \<Rightarrow> unit brun" where
  "evbuffer_incref buf = upd_buf buf (\<lambda>e. e\<lparr>refcnt := refcnt e + 1\<rparr>)"

definition evbuffer_defer_callbacks :: "nat \<Rightarrow> int brun" where
  "evbuffer_defer_callbacks buffer = bnd (upd_buf buffer (\<lambda>e. e\<lparr>deferred_cbs := True\<rparr>)) (\<lambda>_. ret 0)"

definition evbuffer_decref_and_unlock :: "nat \<Rightarrow> unit brun" where
  "evbuffer_decref_and_unlock buffer =
     bnd (ld_buf buffer) (\<lambda>e.
     bnd (chk (refcnt e > 0) AssertFailed) (\<lambda>_.
     bnd (upd_buf buffer (\<lambda>e. e\<lparr>refcnt := refcnt e - 1\<rparr>)) (\<lambda>_.
     if refcnt e - 1 > 0 then ret ()
     else
       bnd (with_brk (\<lambda>n. free_chains_loop n (eb_first e))) (\<lambda>_.
       bnd (evbuffer_remove_all_callbacks buffer) (\<lambda>_.
       bnd (if deferred_cbs e then upd_buf buffer (\<lambda>e. e\<lparr>deferred_queued := False\<rparr>) else ret ()) (\<lambda>_ s.
       Inr ((), s\<lparr>eb_heap := (eb_heap s)(buffer := None)\<rparr>)))))))"

definition evbuffer_free :: "nat \<Rightarrow> unit brun" where
  "evbuffer_free buffer = evbuffer_decref_and_unlock buffer"

definition evbuffer_deferred_callback :: "nat \<Rightarrow> unit brun" where
  "evbuffer_deferred_callback buffer =
     bnd (evbuffer_run_callbacks buffer True) (\<lambda>_. evbuffer_decref_and_unlock buffer)"

definition evbuffer_get_length :: "nat \<Rightarrow> nat brun" where
  "evbuffer_get_length buffer = bnd (ld_buf buffer) (\<lambda>e. ret (total_len e))"

definition evbuffer_get_contiguous_space :: "nat \<Rightarrow> nat brun" where
  "evbuffer_get_contiguous_space buf =
     bnd (ld_buf buf) (\<lambda>e. if eb_first e \<noteq> 0 then bnd (ld_chain (eb_first e)) (\<lambda>c. ret (off c)) else ret 0)"

definition evbuffer_freeze :: "nat \<Rightarrow> bool \<Rightarrow> int brun" where
  "evbuffer_freeze buffer start =
     bnd (upd_buf buffer (\<lambda>e. if start then e\<lparr>freeze_start := True\<rparr> else e\<lparr>freeze_end := True\<rparr>)) (\<lambda>_. ret 0)"

definition evbuffer_unfreeze :: "nat \<Rightarrow> bool \<Rightarrow> int brun" where
  "evbuffer_unfreeze buffer start =
     bnd (upd_buf buffer (\<lambda>e. if start then e\<lparr>freeze_start := False\<rparr> else e\<lparr>freeze_end := False\<rparr>)) (\<lambda>_. ret 0)"

section \<open>Adding data\<close>

definition EVBUFFER_CHAIN_MAX_AUTO_SIZE :: nat where "EVBUFFER_CHAIN_MAX_AUTO_SIZE = 4096"

text \<open>\<^verbatim>\<open>buf->total_len += n; buf->n_add_for_cb += n\<close>\<close>

definition count_added :: "nat \<Rightarrow> nat \<Rightarrow> unit brun" where
  "count_added buf n =
     upd_buf buf (\<lambda>e. e\<lparr>total_len := sz_add (total_len e) n, n_add_for_cb := sz_add (n_add_for_cb e) n\<rparr>)"

text \<open>The block \<^verbatim>\<open>if (remain)\<close>, which fills up the last chain.\<close>

definition fill_remaining :: "nat \<Rightarrow> nat \<Rightarrow> evbuffer_chain \<Rightarrow> nat \<Rightarrow> u8 list \<Rightarrow> unit brun" where
  "fill_remaining buf chain c remain data =
     (if remain \<noteq> 0 then
        bnd (st_bytes chain (misalign c + off c) (take remain data)) (\<lambda>_.
        bnd (upd_chain chain (\<lambda>c. c\<lparr>off := off c + remain\<rparr>)) (\<lambda>_.
        count_added buf remain))
      else ret ())"

text \<open>The last part of \<open>evbuffer_add\<close>, from the comment ``we need to add another chain''.\<close>

definition add_chain_for :: "nat \<Rightarrow> nat \<Rightarrow> evbuffer_chain \<Rightarrow> nat \<Rightarrow> u8 list \<Rightarrow> int brun" where
  "add_chain_for buf chain c remain data =
     (let to_alloc = (if buffer_len c \<le> EVBUFFER_CHAIN_MAX_AUTO_SIZE div 2 then 2 * buffer_len c else buffer_len c);
          to_alloc = (if length data > to_alloc then length data else to_alloc) in
     bnd (evbuffer_chain_new to_alloc) (\<lambda>tmp.
     if tmp = 0 then ret (- 1)
     else
       bnd (fill_remaining buf chain c remain data) (\<lambda>_.
       bnd (st_bytes tmp 0 (drop remain data)) (\<lambda>_.
       bnd (upd_chain tmp (\<lambda>c. c\<lparr>off := length data - remain\<rparr>)) (\<lambda>_.
       bnd (evbuffer_chain_insert buf tmp) (\<lambda>_.
       bnd (upd_buf buf (\<lambda>e. e\<lparr>n_add_for_cb := sz_add (n_add_for_cb e) (length data - remain)\<rparr>)) (\<lambda>_.
       bnd (evbuffer_invoke_callbacks buf) (\<lambda>_. ret 0))))))))"

text \<open>\<open>evbuffer_add\<close> from the test of the flags on; \<open>chain\<close> is the last chain of the buffer.\<close>

definition add_to_chain :: "nat \<Rightarrow> nat \<Rightarrow> u8 list \<Rightarrow> int brun" where
  "add_to_chain buf chain data =
     bnd (ld_chain chain) (\<lambda>c.
     if ch_flags c AND EVBUFFER_IMMUTABLE = 0 then
       bnd (chk (misalign c \<le> EVBUFFER_CHAIN_MAX) AssertFailed) (\<lambda>_.
       let remain = sz_sub (sz_sub (buffer_len c) (misalign c)) (off c) in
       if remain \<ge> length data then
         bnd (st_bytes chain (misalign c + off c) data) (\<lambda>_.
         bnd (upd_chain chain (\<lambda>c. c\<lparr>off := off c + length data\<rparr>)) (\<lambda>_.
         bnd (count_added buf (length data)) (\<lambda>_.
         bnd (evbuffer_invoke_callbacks buf) (\<lambda>_. ret 0))))
       else if \<not> CHAIN_PINNED c \<and> evbuffer_chain_should_realign c (length data) then
         bnd (evbuffer_chain_align chain) (\<lambda>_.
         bnd (st_bytes chain (off c) data) (\<lambda>_.
         bnd (upd_chain chain (\<lambda>c. c\<lparr>off := off c + length data\<rparr>)) (\<lambda>_.
         bnd (count_added buf (length data)) (\<lambda>_.
         bnd (evbuffer_invoke_callbacks buf) (\<lambda>_. ret 0)))))
       else add_chain_for buf chain c remain data)
     else add_chain_for buf chain c 0 data)"

definition evbuffer_add :: "nat \<Rightarrow> u8 list \<Rightarrow> int brun" where
  "evbuffer_add buf data =
     bnd (ld_buf buf) (\<lambda>e.
     if freeze_end e then ret (- 1)
     else if length data > EV_SIZE_MAX - total_len e then ret (- 1)
     else
       bnd (if eb_last e = 0 then evbuffer_chain_insert_new buf (length data) else ret (eb_last e)) (\<lambda>chain.
       if chain = 0 then ret (- 1) else add_to_chain buf chain data))"

text \<open>
  The last part of \<open>evbuffer_prepend\<close>. The callbacks are told \<^verbatim>\<open>chain->misalign\<close>, the space left in front
  of the old first chain, and not the number of bytes added.
\<close>

definition prepend_chain_for :: "nat \<Rightarrow> nat \<Rightarrow> u8 list \<Rightarrow> int brun" where
  "prepend_chain_for buf chain data =
     bnd (evbuffer_chain_new (length data)) (\<lambda>tmp.
     if tmp = 0 then ret (- 1)
     else
       bnd (upd_buf buf (\<lambda>e. e\<lparr>eb_first := tmp\<rparr>)) (\<lambda>_.
       bnd (upd_buf buf (\<lambda>e. if last_with_datap e = First buf then e\<lparr>last_with_datap := Next tmp\<rparr> else e)) (\<lambda>_.
       bnd (upd_chain tmp (\<lambda>t. t\<lparr>ch_next := chain, off := length data\<rparr>)) (\<lambda>_.
       bnd (ld_chain tmp) (\<lambda>t.
       bnd (chk (length data \<le> buffer_len t) AssertFailed) (\<lambda>_.
       bnd (upd_chain tmp (\<lambda>t. t\<lparr>misalign := buffer_len t - length data\<rparr>)) (\<lambda>_.
       bnd (st_bytes tmp (buffer_len t - length data) data) (\<lambda>_.
       bnd (upd_buf buf (\<lambda>e. e\<lparr>total_len := sz_add (total_len e) (length data)\<rparr>)) (\<lambda>_.
       bnd (ld_chain chain) (\<lambda>c.
       bnd (upd_buf buf (\<lambda>e. e\<lparr>n_add_for_cb := sz_add (n_add_for_cb e) (misalign c)\<rparr>)) (\<lambda>_.
       bnd (evbuffer_invoke_callbacks buf) (\<lambda>_. ret 0))))))))))))"

definition prepend_to_chain :: "nat \<Rightarrow> nat \<Rightarrow> u8 list \<Rightarrow> int brun" where
  "prepend_to_chain buf chain data =
     bnd (ld_chain chain) (\<lambda>c.
     if ch_flags c AND EVBUFFER_IMMUTABLE = 0 then
       bnd (chk (misalign c \<le> EVBUFFER_CHAIN_MAX) AssertFailed) (\<lambda>_.
       bnd (if off c = 0 then upd_chain chain (\<lambda>c. c\<lparr>misalign := buffer_len c\<rparr>) else ret ()) (\<lambda>_.
       bnd (ld_chain chain) (\<lambda>c.
       if misalign c \<ge> length data then
         bnd (st_bytes chain (misalign c - length data) data) (\<lambda>_.
         bnd (upd_chain chain (\<lambda>c. c\<lparr>off := off c + length data, misalign := misalign c - length data\<rparr>)) (\<lambda>_.
         bnd (count_added buf (length data)) (\<lambda>_.
         bnd (evbuffer_invoke_callbacks buf) (\<lambda>_. ret 0))))
       else if misalign c \<noteq> 0 then
         bnd (st_bytes chain 0 (drop (length data - misalign c) data)) (\<lambda>_.
         bnd (upd_chain chain (\<lambda>x. x\<lparr>off := off x + misalign x\<rparr>)) (\<lambda>_.
         bnd (count_added buf (misalign c)) (\<lambda>_.
         bnd (upd_chain chain (\<lambda>x. x\<lparr>misalign := 0\<rparr>)) (\<lambda>_.
         prepend_chain_for buf chain (take (length data - misalign c) data)))))
       else prepend_chain_for buf chain data)))
     else prepend_chain_for buf chain data)"

definition evbuffer_prepend :: "nat \<Rightarrow> u8 list \<Rightarrow> int brun" where
  "evbuffer_prepend buf data =
     bnd (ld_buf buf) (\<lambda>e.
     if freeze_start e then ret (- 1)
     else if length data > EV_SIZE_MAX - total_len e then ret (- 1)
     else
       bnd (if eb_first e = 0 then evbuffer_chain_insert_new buf (length data) else ret (eb_first e)) (\<lambda>chain.
       if chain = 0 then ret (- 1) else prepend_to_chain buf chain data))"

definition evbuffer_add_reference :: "nat \<Rightarrow> u8 list \<Rightarrow> nat \<Rightarrow> nat \<Rightarrow> int brun" where
  "evbuffer_add_reference outbuf data cleanupfn extra =
     bnd (evbuffer_chain_new 16) (\<lambda>chain.
     if chain = 0 then ret (- 1)
     else
       bnd (upd_chain chain (\<lambda>c. c\<lparr>ch_flags := ch_flags c OR (EVBUFFER_REFERENCE OR EVBUFFER_IMMUTABLE),
              ch_buffer := (\<lambda>i. if i < length data then data ! i else 0), buffer_len := length data,
              off := length data, ch_extra := Ref_Extra cleanupfn extra\<rparr>)) (\<lambda>_.
       bnd (ld_buf outbuf) (\<lambda>e.
       if freeze_end e then bnd (mm_free_chain chain) (\<lambda>_. ret (- 1))
       else
         bnd (evbuffer_chain_insert outbuf chain) (\<lambda>_.
         bnd (upd_buf outbuf (\<lambda>e. e\<lparr>n_add_for_cb := sz_add (n_add_for_cb e) (length data)\<rparr>)) (\<lambda>_.
         bnd (evbuffer_invoke_callbacks outbuf) (\<lambda>_. ret 0))))))"

section \<open>Removing data\<close>

definition HAS_PINNED_R :: "nat \<Rightarrow> bool brun" where
  "HAS_PINNED_R buf =
     bnd (ld_buf buf) (\<lambda>e.
     if eb_last e = 0 then ret False else bnd (ld_chain (eb_last e)) (\<lambda>c. ret (CHAIN_PINNED_R c)))"

definition ZERO_CHAIN :: "nat \<Rightarrow> unit brun" where
  "ZERO_CHAIN dst = upd_buf dst (\<lambda>e. e\<lparr>eb_first := 0, eb_last := 0, last_with_datap := First dst, total_len := 0\<rparr>)"

fun drain_loop :: "nat \<Rightarrow> nat \<Rightarrow> nat \<Rightarrow> nat \<Rightarrow> (nat \<times> nat) brun" where
  "drain_loop 0 buf chain remaining = stop OutOfFuel"
| "drain_loop (Suc f) buf chain remaining =
     bnd (ld_chain chain) (\<lambda>c.
     if remaining \<ge> off c then
       bnd (ld_buf buf) (\<lambda>e.
       bnd (rd_cell (last_with_datap e)) (\<lambda>d.
       bnd (if chain = d then upd_buf buf (\<lambda>e. e\<lparr>last_with_datap := First buf\<rparr>) else ret ()) (\<lambda>_.
       bnd (upd_buf buf (\<lambda>e. if Next chain = last_with_datap e then e\<lparr>last_with_datap := First buf\<rparr> else e)) (\<lambda>_.
       if CHAIN_PINNED_R c then
         bnd (chk (remaining - off c = 0) AssertFailed) (\<lambda>_.
         bnd (upd_chain chain (\<lambda>c. c\<lparr>misalign := misalign c + off c, off := 0\<rparr>)) (\<lambda>_.
         ret (chain, remaining - off c)))
       else
         bnd (evbuffer_chain_free chain) (\<lambda>_.
         drain_loop f buf (ch_next c) (remaining - off c))))))
     else ret (chain, remaining))"

text \<open>The two branches of \<open>evbuffer_drain\<close>; the result is the number of bytes drained.\<close>

definition drain_all :: "nat \<Rightarrow> evbuffer \<Rightarrow> nat brun" where
  "drain_all buf e =
     bnd (with_brk (\<lambda>n. free_chains_loop n (eb_first e))) (\<lambda>_.
     bnd (ZERO_CHAIN buf) (\<lambda>_. ret (total_len e)))"

definition drain_some :: "nat \<Rightarrow> evbuffer \<Rightarrow> nat \<Rightarrow> nat brun" where
  "drain_some buf e len =
     bnd (upd_buf buf (\<lambda>e. e\<lparr>total_len := sz_sub (total_len e) len\<rparr>)) (\<lambda>_.
     bnd (with_brk (\<lambda>n. drain_loop n buf (eb_first e) len)) (\<lambda>(chain, remaining).
     bnd (upd_buf buf (\<lambda>e. e\<lparr>eb_first := chain\<rparr>)) (\<lambda>_.
     bnd (if chain \<noteq> 0 then
            bnd (ld_chain chain) (\<lambda>c.
            bnd (chk (remaining \<le> off c) AssertFailed) (\<lambda>_.
            upd_chain chain (\<lambda>c. c\<lparr>misalign := misalign c + remaining, off := off c - remaining\<rparr>)))
          else ret ()) (\<lambda>_.
     ret len))))"

definition evbuffer_drain :: "nat \<Rightarrow> nat \<Rightarrow> int brun" where
  "evbuffer_drain buf len =
     bnd (ld_buf buf) (\<lambda>e.
     if total_len e = 0 then ret 0
     else if freeze_start e then ret (- 1)
     else
       bnd (HAS_PINNED_R buf) (\<lambda>pinned.
       bnd (if len \<ge> total_len e \<and> \<not> pinned then drain_all buf e
            else drain_some buf e (if len \<ge> total_len e then total_len e else len)) (\<lambda>len.
       bnd (upd_buf buf (\<lambda>e. e\<lparr>n_del_for_cb := sz_add (n_del_for_cb e) len\<rparr>)) (\<lambda>_.
       bnd (evbuffer_invoke_callbacks buf) (\<lambda>_. ret 0)))))"

fun copyout_loop :: "nat \<Rightarrow> nat \<Rightarrow> nat \<Rightarrow> u8 list \<Rightarrow> u8 list brun" where
  "copyout_loop 0 chain datlen data = stop OutOfFuel"
| "copyout_loop (Suc f) chain datlen data =
     (if datlen = 0 then ret data
      else
        bnd (ld_chain chain) (\<lambda>c.
        if datlen \<ge> off c then
          bnd (ld_bytes chain (misalign c) (off c)) (\<lambda>bs.
          bnd (chk (ch_next c \<noteq> 0 \<or> datlen - off c = 0) AssertFailed) (\<lambda>_.
          copyout_loop f (ch_next c) (datlen - off c) (data @ bs)))
        else
          bnd (chk (chain \<noteq> 0) AssertFailed) (\<lambda>_.
          bnd (chk (datlen \<le> off c) AssertFailed) (\<lambda>_.
          bnd (ld_bytes chain (misalign c) datlen) (\<lambda>bs. ret (data @ bs))))))"

text \<open>The bytes copied to \<^verbatim>\<open>data_out\<close>; \<open>None\<close> is the result -1. Otherwise their number is the result.\<close>

definition evbuffer_copyout :: "nat \<Rightarrow> nat \<Rightarrow> u8 list option brun" where
  "evbuffer_copyout buf datlen =
     bnd (ld_buf buf) (\<lambda>e.
     let datlen = (if datlen \<ge> total_len e then total_len e else datlen) in
     if datlen = 0 then ret (Some [])
     else if freeze_start e then ret None
     else bnd (with_brk (\<lambda>n. copyout_loop n (eb_first e) datlen [])) (\<lambda>data. ret (Some data)))"

text \<open>
  The bytes that were removed; the code returns their number as an \<^verbatim>\<open>int\<close>, so that a request for \<open>2 ^ 31\<close> bytes or more reports a wrong number.
\<close>

definition evbuffer_remove :: "nat \<Rightarrow> nat \<Rightarrow> u8 list option brun" where
  "evbuffer_remove buf datlen =
     bnd (evbuffer_copyout buf datlen) (\<lambda>r.
     case r of None \<Rightarrow> ret None
     | Some data \<Rightarrow>
        if length data > 0 then
          bnd (evbuffer_drain buf (length data)) (\<lambda>x. if x < 0 then ret None else ret (Some data))
        else ret (Some data))"

section \<open>Moving data between buffers\<close>

text \<open>The result, and the values written to \<^verbatim>\<open>*first\<close> and \<^verbatim>\<open>*last\<close>.\<close>

definition PRESERVE_PINNED :: "nat \<Rightarrow> (int \<times> nat \<times> nat) brun" where
  "PRESERVE_PINNED src =
     bnd (HAS_PINNED_R src) (\<lambda>has.
     if \<not> has then ret (0, 0, 0)
     else
       bnd (ld_buf src) (\<lambda>e.
       bnd (rd_cell (last_with_datap e)) (\<lambda>d.
       bnd (ld_chain d) (\<lambda>dc.
       let pinned = (if CHAIN_PINNED_R dc then last_with_datap e else Next d) in
       bnd (rd_cell pinned) (\<lambda>chain.
       bnd (ld_chain chain) (\<lambda>c.
       bnd (chk (CHAIN_PINNED_R c) AssertFailed) (\<lambda>_.
       if off c \<noteq> 0 then
         bnd (chk (pinned = last_with_datap e) AssertFailed) (\<lambda>_.
         bnd (evbuffer_chain_new (off c)) (\<lambda>tmp.
         if tmp = 0 then ret (- 1, chain, eb_last e)
         else
           bnd (ld_bytes chain (misalign c) (off c)) (\<lambda>bs.
           bnd (st_bytes tmp 0 bs) (\<lambda>_.
           bnd (upd_chain tmp (\<lambda>t. t\<lparr>off := off c\<rparr>)) (\<lambda>_.
           bnd (wr_cell (last_with_datap e) tmp) (\<lambda>_.
           bnd (upd_buf src (\<lambda>e. e\<lparr>eb_last := tmp\<rparr>)) (\<lambda>_.
           bnd (upd_chain chain (\<lambda>c. c\<lparr>misalign := misalign c + off c, off := 0\<rparr>)) (\<lambda>_.
           ret (0, chain, eb_last e)))))))))
       else
         bnd (upd_buf src (\<lambda>e. e\<lparr>eb_last := d\<rparr>)) (\<lambda>_.
         bnd (wr_cell pinned 0) (\<lambda>_.
         ret (0, chain, eb_last e))))))))))"

definition RESTORE_PINNED :: "nat \<Rightarrow> nat \<Rightarrow> nat \<Rightarrow> unit brun" where
  "RESTORE_PINNED src pinned lst =
     (if pinned = 0 then ZERO_CHAIN src
      else upd_buf src (\<lambda>e. e\<lparr>eb_first := pinned, eb_last := lst, last_with_datap := First src, total_len := 0\<rparr>))"

definition COPY_CHAIN :: "nat \<Rightarrow> nat \<Rightarrow> unit brun" where
  "COPY_CHAIN dst src =
     bnd (ld_buf src) (\<lambda>i.
     upd_buf dst (\<lambda>e. e\<lparr>eb_first := eb_first i,
       last_with_datap := if last_with_datap i = First src then First dst else last_with_datap i,
       eb_last := eb_last i, total_len := total_len i\<rparr>))"

definition APPEND_CHAIN :: "nat \<Rightarrow> nat \<Rightarrow> unit brun" where
  "APPEND_CHAIN dst src =
     bnd (ld_buf src) (\<lambda>i.
     bnd (ld_buf dst) (\<lambda>e.
     bnd (upd_chain (eb_last e) (\<lambda>c. c\<lparr>ch_next := eb_first i\<rparr>)) (\<lambda>_.
     upd_buf dst (\<lambda>e. e\<lparr>
       last_with_datap := if last_with_datap i = First src then Next (eb_last e) else last_with_datap i,
       eb_last := eb_last i, total_len := sz_add (total_len e) (total_len i)\<rparr>))))"

definition PREPEND_CHAIN :: "nat \<Rightarrow> nat \<Rightarrow> unit brun" where
  "PREPEND_CHAIN dst src =
     bnd (ld_buf src) (\<lambda>i.
     bnd (ld_buf dst) (\<lambda>e.
     bnd (upd_chain (eb_last i) (\<lambda>c. c\<lparr>ch_next := eb_first e\<rparr>)) (\<lambda>_.
     bnd (upd_buf dst (\<lambda>e. e\<lparr>eb_first := eb_first i, total_len := sz_add (total_len e) (total_len i)\<rparr>)) (\<lambda>_.
     bnd (rd_cell (last_with_datap e)) (\<lambda>d.
     if d = 0 then
       upd_buf dst (\<lambda>e. e\<lparr>last_with_datap := if last_with_datap i = First src then First dst else last_with_datap i\<rparr>)
     else if last_with_datap e = First dst then
       upd_buf dst (\<lambda>e. e\<lparr>last_with_datap := Next (eb_last i)\<rparr>)
     else ret ())))))"

text \<open>
  \<open>evbuffer_add_buffer\<close> and \<open>evbuffer_prepend_buffer\<close> differ in the end of \<^verbatim>\<open>outbuf\<close> that must not be
  frozen and in the function that links the chains.
\<close>

definition transfer_buffer :: "(evbuffer \<Rightarrow> bool) \<Rightarrow> (nat \<Rightarrow> nat \<Rightarrow> unit brun) \<Rightarrow> nat \<Rightarrow> nat \<Rightarrow> int brun" where
  "transfer_buffer frozen link outbuf inbuf =
     bnd (ld_buf inbuf) (\<lambda>i.
     bnd (ld_buf outbuf) (\<lambda>e.
     if total_len i = 0 \<or> outbuf = inbuf then ret 0
     else if frozen e \<or> freeze_start i then ret (- 1)
     else
       bnd (PRESERVE_PINNED inbuf) (\<lambda>(r, pinned, lst).
       if r < 0 then ret (- 1)
       else
         bnd (if total_len e = 0 then
                bnd (evbuffer_free_all_chains (eb_first e)) (\<lambda>_. COPY_CHAIN outbuf inbuf)
              else link outbuf inbuf) (\<lambda>_.
         bnd (RESTORE_PINNED inbuf pinned lst) (\<lambda>_.
         bnd (upd_buf inbuf (\<lambda>x. x\<lparr>n_del_for_cb := sz_add (n_del_for_cb x) (total_len i)\<rparr>)) (\<lambda>_.
         bnd (upd_buf outbuf (\<lambda>x. x\<lparr>n_add_for_cb := sz_add (n_add_for_cb x) (total_len i)\<rparr>)) (\<lambda>_.
         bnd (evbuffer_invoke_callbacks inbuf) (\<lambda>_.
         bnd (evbuffer_invoke_callbacks outbuf) (\<lambda>_. ret 0)))))))))"

definition evbuffer_add_buffer :: "nat \<Rightarrow> nat \<Rightarrow> int brun" where
  "evbuffer_add_buffer outbuf inbuf = transfer_buffer freeze_end APPEND_CHAIN outbuf inbuf"

definition evbuffer_prepend_buffer :: "nat \<Rightarrow> nat \<Rightarrow> int brun" where
  "evbuffer_prepend_buffer outbuf inbuf = transfer_buffer freeze_start PREPEND_CHAIN outbuf inbuf"

fun advance_loop :: "nat \<Rightarrow> nat \<Rightarrow> nat \<Rightarrow> nat brun" where
  "advance_loop 0 buf n = stop OutOfFuel"
| "advance_loop (Suc f) buf n =
     bnd (ld_buf buf) (\<lambda>e.
     bnd (rd_cell (last_with_datap e)) (\<lambda>d.
     bnd (ld_chain d) (\<lambda>c.
     if ch_next c = 0 then ret n
     else
       bnd (ld_chain (ch_next c)) (\<lambda>c'.
       if off c' \<noteq> 0 then
         bnd (upd_buf buf (\<lambda>e. e\<lparr>last_with_datap := Next d\<rparr>)) (\<lambda>_. advance_loop f buf (n + 1))
       else ret n))))"

definition advance_last_with_data :: "nat \<Rightarrow> nat brun" where
  "advance_last_with_data buf =
     bnd (ld_buf buf) (\<lambda>e.
     bnd (rd_cell (last_with_datap e)) (\<lambda>d.
     if d = 0 then ret 0 else with_brk (\<lambda>n. advance_loop n buf 0)))"

text \<open>The loop that skips the chains that move as a whole: \<^verbatim>\<open>chain\<close>, \<^verbatim>\<open>previous\<close>, \<^verbatim>\<open>nread\<close> and \<^verbatim>\<open>datlen\<close>.\<close>

fun remove_loop :: "nat \<Rightarrow> nat \<Rightarrow> nat \<Rightarrow> nat \<Rightarrow> nat \<Rightarrow> nat \<Rightarrow> (nat \<times> nat \<times> nat \<times> nat) brun" where
  "remove_loop 0 src chain previous nread datlen = stop OutOfFuel"
| "remove_loop (Suc f) src chain previous nread datlen =
     bnd (ld_chain chain) (\<lambda>c.
     if off c \<le> datlen then
       bnd (ld_buf src) (\<lambda>e.
       bnd (rd_cell (last_with_datap e)) (\<lambda>d.
       bnd (chk (chain \<noteq> d) AssertFailed) (\<lambda>_.
       bnd (if last_with_datap e = Next chain then upd_buf src (\<lambda>e. e\<lparr>last_with_datap := First src\<rparr>) else ret ()) (\<lambda>_.
       remove_loop f src (ch_next c) chain (nread + off c) (datlen - off c)))))
     else ret (chain, previous, nread, datlen))"

text \<open>Conversion to \<^verbatim>\<open>int\<close>.\<close>

definition c_int :: "nat \<Rightarrow> int" where "c_int n = sint (word_of_nat n :: 32 word)"

definition evbuffer_remove_buffer :: "nat \<Rightarrow> nat \<Rightarrow> nat \<Rightarrow> int brun" where
  "evbuffer_remove_buffer src dst datlen =
     bnd (ld_buf src) (\<lambda>se.
     bnd (ld_buf dst) (\<lambda>de.
     if datlen = 0 \<or> dst = src then ret 0
     else if freeze_end de \<or> freeze_start se then ret (- 1)
     else if datlen \<ge> total_len se then bnd (evbuffer_add_buffer dst src) (\<lambda>_. ret (c_int (total_len se)))
     else
       bnd (with_brk (\<lambda>n. remove_loop n src (eb_first se) (eb_first se) 0 datlen)) (\<lambda>(chain, previous, nread, datlen).
       bnd (if nread \<noteq> 0 then
              bnd (evbuffer_free_trailing_empty_chains dst) (\<lambda>chp.
              bnd (ld_buf dst) (\<lambda>de.
              bnd (if eb_first de = 0 then upd_buf dst (\<lambda>e. e\<lparr>eb_first := eb_first se\<rparr>) else wr_cell chp (eb_first se)) (\<lambda>_.
              bnd (upd_buf dst (\<lambda>e. e\<lparr>eb_last := previous\<rparr>)) (\<lambda>_.
              bnd (upd_chain previous (\<lambda>c. c\<lparr>ch_next := 0\<rparr>)) (\<lambda>_.
              bnd (upd_buf src (\<lambda>e. e\<lparr>eb_first := chain\<rparr>)) (\<lambda>_.
              bnd (advance_last_with_data dst) (\<lambda>_.
              count_added dst nread)))))))
            else ret ()) (\<lambda>_.
       bnd (ld_chain chain) (\<lambda>c.
       bnd (ld_bytes chain (misalign c) datlen) (\<lambda>bs.
       bnd (evbuffer_add dst bs) (\<lambda>_.
       bnd (upd_chain chain (\<lambda>c. c\<lparr>misalign := misalign c + datlen, off := off c - datlen\<rparr>)) (\<lambda>_.
       bnd (upd_buf src (\<lambda>e. e\<lparr>total_len := sz_sub (total_len e) (nread + datlen),
              n_del_for_cb := sz_add (n_del_for_cb e) (nread + datlen)\<rparr>)) (\<lambda>_.
       bnd (if nread + datlen \<noteq> 0 then
              bnd (evbuffer_invoke_callbacks dst) (\<lambda>_. evbuffer_invoke_callbacks src)
            else ret ()) (\<lambda>_.
       ret (c_int (nread + datlen))))))))))))"

section \<open>Contiguous data\<close>

fun pinned_loop :: "nat \<Rightarrow> nat \<Rightarrow> nat \<Rightarrow> bool brun" where
  "pinned_loop 0 tmp remaining = stop OutOfFuel"
| "pinned_loop (Suc f) tmp remaining =
     (if tmp = 0 then ret False
      else
        bnd (ld_chain tmp) (\<lambda>c.
        if CHAIN_PINNED c then ret True
        else if off c \<ge> remaining then ret False
        else pinned_loop f (ch_next c) (remaining - off c)))"

text \<open>
  The loop that copies and frees the chains that are pulled up as a whole. \<open>dest\<close> is the offset of
  \<^verbatim>\<open>buffer\<close> in \<^verbatim>\<open>tmp\<close>; the results are \<^verbatim>\<open>chain\<close>, \<^verbatim>\<open>size\<close>, \<open>dest\<close> and the two flags.
\<close>

fun pullup_loop :: "nat \<Rightarrow> nat \<Rightarrow> nat \<Rightarrow> nat \<Rightarrow> nat \<Rightarrow> nat \<Rightarrow> nat \<Rightarrow> bool \<Rightarrow> bool
    \<Rightarrow> (nat \<times> nat \<times> nat \<times> bool \<times> bool) brun" where
  "pullup_loop 0 buf tmp last_with_data chain sz dest rm rmp = stop OutOfFuel"
| "pullup_loop (Suc f) buf tmp last_with_data chain sz dest rm rmp =
     (if chain = 0 then ret (chain, sz, dest, rm, rmp)
      else
        bnd (ld_chain chain) (\<lambda>c.
        if sz \<ge> off c then
          bnd (ld_bytes chain (misalign c) (off c)) (\<lambda>bs.
          bnd (st_bytes tmp dest bs) (\<lambda>_.
          bnd (ld_buf buf) (\<lambda>e.
          bnd (evbuffer_chain_free chain) (\<lambda>_.
          pullup_loop f buf tmp last_with_data (ch_next c) (sz - off c) (dest + off c)
            (rm \<or> chain = last_with_data) (rmp \<or> Next chain = last_with_datap e)))))
        else ret (chain, sz, dest, rm, rmp)))"

text \<open>
  The chain the data is collected in, with the offset of the first missing byte, the number of missing
  bytes and the first chain to take them from; \<open>None\<close> stands for \<^verbatim>\<open>goto done\<close>.
\<close>

definition pullup_target :: "nat \<Rightarrow> nat \<Rightarrow> evbuffer_chain \<Rightarrow> nat \<Rightarrow> (nat \<times> nat \<times> nat \<times> nat) option brun" where
  "pullup_target buf chain c sz =
     (if CHAIN_PINNED c then
        (if CHAIN_SPACE_LEN c < sz - off c then ret None
         else
           bnd (upd_chain chain (\<lambda>c. c\<lparr>off := sz\<rparr>)) (\<lambda>_.
           ret (Some (chain, misalign c + off c, sz - off c, ch_next c))))
      else if sz_sub (buffer_len c) (misalign c) \<ge> sz then
        bnd (upd_chain chain (\<lambda>c. c\<lparr>off := sz\<rparr>)) (\<lambda>_.
        ret (Some (chain, misalign c + off c, sz - off c, ch_next c)))
      else
        bnd (evbuffer_chain_new sz) (\<lambda>tmp.
        if tmp = 0 then ret None
        else
          bnd (upd_chain tmp (\<lambda>c. c\<lparr>off := sz\<rparr>)) (\<lambda>_.
          bnd (upd_buf buf (\<lambda>e. e\<lparr>eb_first := tmp\<rparr>)) (\<lambda>_.
          ret (Some (tmp, 0, sz, chain))))))"

text \<open>The rest of the first chain that is not pulled up as a whole, and the links: from \<^verbatim>\<open>if (chain != NULL)\<close> on.\<close>

definition pullup_finish :: "nat \<Rightarrow> nat \<Rightarrow> nat \<Rightarrow> nat \<Rightarrow> nat \<Rightarrow> bool \<Rightarrow> bool \<Rightarrow> (nat \<times> nat) option brun" where
  "pullup_finish buf tmp chain sz dest rm rmp =
     bnd (if chain \<noteq> 0 then
            bnd (ld_chain chain) (\<lambda>c.
            bnd (ld_bytes chain (misalign c) sz) (\<lambda>bs.
            bnd (st_bytes tmp dest bs) (\<lambda>_.
            upd_chain chain (\<lambda>c. c\<lparr>misalign := misalign c + sz, off := off c - sz\<rparr>))))
          else upd_buf buf (\<lambda>e. e\<lparr>eb_last := tmp\<rparr>)) (\<lambda>_.
     bnd (upd_chain tmp (\<lambda>c. c\<lparr>ch_next := chain\<rparr>)) (\<lambda>_.
     bnd (if rm then upd_buf buf (\<lambda>e. e\<lparr>last_with_datap := First buf\<rparr>)
          else if rmp then
            bnd (ld_buf buf) (\<lambda>e.
            bnd (ld_chain (eb_first e)) (\<lambda>f.
            bnd (if ch_next f \<noteq> 0 then bnd (ld_chain (ch_next f)) (\<lambda>g. ret (off g \<noteq> 0)) else ret False) (\<lambda>x.
            upd_buf buf (\<lambda>e. e\<lparr>last_with_datap := if x then Next (eb_first e) else First buf\<rparr>))))
          else ret ()) (\<lambda>_.
     bnd (ld_chain tmp) (\<lambda>t.
     ret (Some (tmp, misalign t))))))"

text \<open>The part that follows the choice of the chain to collect in.\<close>

definition pullup_collect :: "nat \<Rightarrow> nat \<times> nat \<times> nat \<times> nat \<Rightarrow> (nat \<times> nat) option brun" where
  "pullup_collect buf = (\<lambda>(tmp, dest, sz, chain).
     bnd (ld_buf buf) (\<lambda>e.
     bnd (rd_cell (last_with_datap e)) (\<lambda>last_with_data.
     bnd (with_brk (\<lambda>n. pullup_loop n buf tmp last_with_data chain sz dest False False))
       (\<lambda>(chain, sz, dest, rm, rmp). pullup_finish buf tmp chain sz dest rm rmp))))"

text \<open>
  The result is the chain and the offset the returned pointer points to. The length is a signed
  \<^verbatim>\<open>ev_ssize_t\<close>; the buffer is taken to hold fewer than $2^{63}$ bytes.
\<close>

definition evbuffer_pullup :: "nat \<Rightarrow> int \<Rightarrow> (nat \<times> nat) option brun" where
  "evbuffer_pullup buf len =
     bnd (ld_buf buf) (\<lambda>e.
     let sz = (if len < 0 then total_len e else nat len); chain = eb_first e in
     if sz = 0 \<or> sz > total_len e then ret None
     else
       bnd (ld_chain chain) (\<lambda>c.
       if off c \<ge> sz then ret (Some (chain, misalign c))
       else
         bnd (with_brk (\<lambda>n. pinned_loop n (ch_next c) (sz - off c))) (\<lambda>pinned.
         if pinned then ret None
         else
           bnd (pullup_target buf chain c sz) (\<lambda>r.
           case r of None \<Rightarrow> ret None | Some x \<Rightarrow> pullup_collect buf x))))"

end
