(* ===== verification/Evbuffer_Facts.thy ===== *)
theory Evbuffer_Facts
  imports Evbuffer_Ops
begin

unbundle bit_operations_syntax

text \<open>
  How a buffer lies in memory. \<open>holds s b e cs\<close> is the invariant of \<^verbatim>\<open>struct evbuffer\<close>: the chains \<open>cs\<close> (with
  their addresses) are linked from \<^verbatim>\<open>first\<close> to \<^verbatim>\<open>last\<close>, those with data come first, \<^verbatim>\<open>last_with_datap\<close>
  points at the pointer to the last of them, \<^verbatim>\<open>total_len\<close> counts the bytes, and every chain keeps its
  data inside its memory. \<open>content cs\<close> is the byte sequence the buffer stands for. \<open>evolves\<close> accounts for
  the memory: what an operation may touch and which chains it must have freed.
\<close>

section \<open>Memory of a chain\<close>

lemma length_slice [simp]: "length (slice f i n) = n"
  by (simp add: slice_def)

lemma slice_0 [simp]: "slice f i 0 = []"
  by (simp add: slice_def)

lemma slice_add: "slice f i (m + n) = slice f i m @ slice f (i + m) n"
  using upt_add_eq_append [of i "i + m" n] by (simp add: slice_def add.assoc)

lemma take_slice [simp]: "take m (slice f i n) = slice f i (min m n)"
  by (simp add: slice_def take_map min_def)

lemma drop_slice [simp]: "drop m (slice f i n) = slice f (i + m) (n - m)"
  by (cases "m \<le> n") (simp_all add: slice_def drop_map)

lemma nth_slice [simp]: "j < n \<Longrightarrow> slice f i n ! j = f (i + j)"
  by (simp add: slice_def)

lemma slice_cong: "(\<And>j. i \<le> j \<Longrightarrow> j < i + n \<Longrightarrow> f j = g j) \<Longrightarrow> slice f i n = slice g i n"
  by (simp add: slice_def)

lemma slice_put [simp]: "slice (put f i xs) i (length xs) = xs"
  by (rule nth_equalityI) (simp_all add: put_def)

lemma slice_put_before: "j + n \<le> i \<Longrightarrow> slice (put f i xs) j n = slice f j n"
  by (rule slice_cong) (simp add: put_def)

lemma slice_put_behind: "i + length xs \<le> j \<Longrightarrow> slice (put f i xs) j n = slice f j n"
  by (rule slice_cong) (simp add: put_def)

lemma slice_put_append: "j + n = i \<Longrightarrow> slice (put f i xs) j (n + length xs) = slice f j n @ xs"
  using slice_put [of f "j + n" xs] by (simp add: slice_add slice_put_before)

lemma slice_put_prepend: "i + length xs = j \<Longrightarrow> slice (put f i xs) i (length xs + n) = xs @ slice f j n"
  using slice_put [of f i xs] by (simp add: slice_add slice_put_behind)

lemma sz_add_small [simp]: "a + b < 2 ^ 64 \<Longrightarrow> sz_add a b = a + b"
  by (simp add: sz_add_def)

lemma sz_sub_small [simp]: "b \<le> a \<Longrightarrow> a < 2 ^ 64 \<Longrightarrow> sz_sub a b = a - b"
proof -
  assume a: "b \<le> a" "a < 2 ^ 64"
  then have "a + (2 ^ 64 - b) = (a - b) + 2 ^ 64" by simp
  then show ?thesis using a unfolding sz_sub_def by (metis less_imp_diff_less mod_add_self2 mod_less)
qed

section \<open>Linked chains\<close>

text \<open>A list of chains says nothing about the \<^verbatim>\<open>next\<close> fields of its members; the order of the list does.\<close>

abbreviation addrs :: "(nat \<times> evbuffer_chain) list \<Rightarrow> nat list" where "addrs \<equiv> map fst"

definition head_addr :: "(nat \<times> evbuffer_chain) list \<Rightarrow> nat \<Rightarrow> nat" where
  "head_addr cs q = (case cs of [] \<Rightarrow> q | (x, c) # _ \<Rightarrow> x)"

fun chain_seg :: "(nat \<Rightarrow> evbuffer_chain option) \<Rightarrow> nat \<Rightarrow> (nat \<times> evbuffer_chain) list \<Rightarrow> nat \<Rightarrow> bool" where
  "chain_seg h p [] q \<longleftrightarrow> p = q"
| "chain_seg h p ((x, c) # cs) q \<longleftrightarrow>
     p = x \<and> x \<noteq> 0 \<and> h x = Some (c\<lparr>ch_next := head_addr cs q\<rparr>) \<and> chain_seg h (head_addr cs q) cs q"

lemma head_addr_simps [simp]:
  "head_addr [] q = q" "head_addr ((x, c) # cs) q = x" "head_addr (xc # cs) q = fst xc"
  by (simp_all add: head_addr_def split: prod.split)

lemma head_addr_append [simp]: "head_addr (as @ bs) q = head_addr as (head_addr bs q)"
  by (cases as) auto

lemma chain_seg_head: "chain_seg h p cs q \<Longrightarrow> p = head_addr cs q"
  by (cases cs) auto

lemma chain_seg_append:
  "chain_seg h p (as @ bs) q \<longleftrightarrow> chain_seg h p as (head_addr bs q) \<and> chain_seg h (head_addr bs q) bs q"
  by (induction as arbitrary: p) (auto dest: chain_seg_head)

lemma chain_seg_cong:
  "(\<And>x. x \<in> set (addrs cs) \<Longrightarrow> h' x = h x) \<Longrightarrow> chain_seg h' p cs q = chain_seg h p cs q"
  by (induction cs arbitrary: p) auto

lemma chain_seg_nth:
  "chain_seg h p cs q \<Longrightarrow> i < length cs \<Longrightarrow>
   h (fst (cs ! i)) = Some (snd (cs ! i)\<lparr>ch_next := head_addr (drop (Suc i) cs) q\<rparr>) \<and> 0 < fst (cs ! i)"
  by (induction cs arbitrary: p i) (auto simp: nth_Cons split: nat.split)

lemma chain_seg_mem: "chain_seg h p cs q \<Longrightarrow> xc \<in> set cs \<Longrightarrow> (\<exists>n. h (fst xc) = Some (snd xc\<lparr>ch_next := n\<rparr>)) \<and> 0 < fst xc"
  by (metis chain_seg_nth in_set_conv_nth)

lemma chain_seg_nz: "chain_seg h p cs q \<Longrightarrow> 0 \<notin> set (addrs cs)"
  by (induction cs arbitrary: p) force+

text \<open>Replacing a chain in place, and redirecting the last link.\<close>

lemma chain_seg_set:
  assumes "chain_seg h p (as @ (x, c) # bs) q" "distinct (addrs (as @ (x, c) # bs))"
  shows "chain_seg (h(x \<mapsto> c'\<lparr>ch_next := head_addr bs q\<rparr>)) p (as @ (x, c') # bs) q"
proof -
  let ?h = "h(x \<mapsto> c'\<lparr>ch_next := head_addr bs q\<rparr>)"
  have "chain_seg ?h p as x = chain_seg h p as x" by (rule chain_seg_cong) (use assms(2) in auto)
  moreover have "chain_seg ?h (head_addr bs q) bs q = chain_seg h (head_addr bs q) bs q"
    by (rule chain_seg_cong) (use assms(2) in auto)
  ultimately show ?thesis using assms(1) by (simp add: chain_seg_append)
qed

lemma chain_seg_relink:
  assumes "chain_seg h p (as @ [(x, c)]) q" "distinct (addrs (as @ [(x, c)]))"
  shows "chain_seg (h(x \<mapsto> c\<lparr>ch_next := r\<rparr>)) p (as @ [(x, c)]) r"
proof -
  have "chain_seg (h(x \<mapsto> c\<lparr>ch_next := r\<rparr>)) p as x = chain_seg h p as x" by (rule chain_seg_cong) (use assms(2) in auto)
  then show ?thesis using assms(1) by (simp add: chain_seg_append)
qed

section \<open>The invariant\<close>

definition chain_bytes :: "evbuffer_chain \<Rightarrow> u8 list" where
  "chain_bytes c = slice (ch_buffer c) (misalign c) (off c)"

definition content :: "(nat \<times> evbuffer_chain) list \<Rightarrow> u8 list" where
  "content cs = concat (map (\<lambda>xc. chain_bytes (snd xc)) cs)"

definition has_data :: "nat \<times> evbuffer_chain \<Rightarrow> bool" where
  "has_data xc \<longleftrightarrow> off (snd xc) \<noteq> 0"

abbreviation used :: "(nat \<times> evbuffer_chain) list \<Rightarrow> (nat \<times> evbuffer_chain) list" where "used \<equiv> takeWhile has_data"
abbreviation spare :: "(nat \<times> evbuffer_chain) list \<Rightarrow> (nat \<times> evbuffer_chain) list" where "spare \<equiv> dropWhile has_data"

definition mutable :: "evbuffer_chain \<Rightarrow> bool" where
  "mutable c \<longleftrightarrow> ch_flags c AND EVBUFFER_IMMUTABLE = 0"

definition chain_ok :: "evbuffer_chain \<Rightarrow> bool" where
  "chain_ok c \<longleftrightarrow> misalign c + off c \<le> buffer_len c \<and> buffer_len c \<le> EVBUFFER_CHAIN_MAX - EVBUFFER_CHAIN_SIZE
     \<and> ch_flags c AND EVBUFFER_MEM_PINNED_ANY = 0 \<and> ch_flags c AND EVBUFFER_MEM_PINNED_R = 0
     \<and> ch_flags c AND EVBUFFER_MMAP = 0 \<and> ch_flags c AND EVBUFFER_SENDFILE = 0
     \<and> (ch_flags c AND EVBUFFER_REFERENCE \<noteq> 0 \<longrightarrow> (\<exists>f x. ch_extra c = Ref_Extra f x))
     \<and> (\<not> mutable c \<longrightarrow> misalign c + off c = buffer_len c)"

text \<open>The cell that points at chain number \<open>i\<close>.\<close>

definition cell_of :: "nat \<Rightarrow> (nat \<times> evbuffer_chain) list \<Rightarrow> nat \<Rightarrow> cell" where
  "cell_of b cs i = (if i = 0 then First b else Next (fst (cs ! (i - 1))))"

definition last_addr :: "(nat \<times> evbuffer_chain) list \<Rightarrow> nat" where
  "last_addr cs = (if cs = [] then 0 else fst (last cs))"

definition holds :: "evstate \<Rightarrow> nat \<Rightarrow> evbuffer \<Rightarrow> (nat \<times> evbuffer_chain) list \<Rightarrow> bool" where
  "holds s b e cs \<longleftrightarrow> b \<noteq> 0 \<and> eb_heap s b = Some e \<and> chain_seg (ch_heap s) (eb_first e) cs 0
     \<and> distinct (addrs cs) \<and> (\<forall>x\<in>set (addrs cs). x < ev_brk s)
     \<and> eb_last e = last_addr cs \<and> last_with_datap e = cell_of b cs (length (used cs) - 1)
     \<and> (\<forall>xc\<in>set (spare cs). \<not> has_data xc) \<and> (\<forall>xc\<in>set cs. chain_ok (snd xc))
     \<and> total_len e = length (content cs) \<and> total_len e < 2 ^ 64"

definition wf_ev :: "evstate \<Rightarrow> bool" where
  "wf_ev s \<longleftrightarrow> 0 < ev_brk s \<and> (\<forall>x\<ge>ev_brk s. ch_heap s x = None \<and> eb_heap s x = None)"

definition evolves :: "evstate \<Rightarrow> evstate \<Rightarrow> nat set \<Rightarrow> nat set \<Rightarrow> nat set \<Rightarrow> bool" where
  "evolves s s' B X X' \<longleftrightarrow> ev_brk s \<le> ev_brk s' \<and> ev_oom s' = ev_oom s \<and> ev_junk s' = ev_junk s
     \<and> (\<forall>b. b \<notin> B \<longrightarrow> eb_heap s' b = eb_heap s b)
     \<and> (\<forall>x. x \<notin> X \<longrightarrow> x < ev_brk s \<longrightarrow> ch_heap s' x = ch_heap s x)
     \<and> (\<forall>x. x \<in> X \<or> ev_brk s \<le> x \<longrightarrow> x \<notin> X' \<longrightarrow> ch_heap s' x = None)
     \<and> X' \<subseteq> X \<union> {ev_brk s..}"

lemma length_content: "length (content cs) = sum_list (map (\<lambda>xc. off (snd xc)) cs)"
  by (simp add: content_def chain_bytes_def length_concat comp_def)

lemma content_simps [simp]:
  "content [] = []" "content (xc # cs) = chain_bytes (snd xc) @ content cs" "content (as @ bs) = content as @ content bs"
  by (simp_all add: content_def)

lemma length_chain_bytes [simp]: "length (chain_bytes c) = off c"
  by (simp add: chain_bytes_def)

lemma content_empty: "(\<forall>xc\<in>set cs. \<not> has_data xc) \<Longrightarrow> content cs = []"
  by (induction cs) (auto simp: has_data_def chain_bytes_def)

lemma chain_ok_flags:
  assumes "chain_ok c"
  shows "\<not> CHAIN_PINNED c" "\<not> CHAIN_PINNED_R c"
  using assms by (simp_all add: chain_ok_def CHAIN_PINNED_def CHAIN_PINNED_R_def)

lemma ch_next_simps [simp]:
  "chain_bytes (c\<lparr>ch_next := n\<rparr>) = chain_bytes c" "mutable (c\<lparr>ch_next := n\<rparr>) = mutable c"
  "chain_ok (c\<lparr>ch_next := n\<rparr>) = chain_ok c" "CHAIN_PINNED (c\<lparr>ch_next := n\<rparr>) = CHAIN_PINNED c"
  "CHAIN_PINNED_R (c\<lparr>ch_next := n\<rparr>) = CHAIN_PINNED_R c" "CHAIN_SPACE_LEN (c\<lparr>ch_next := n\<rparr>) = CHAIN_SPACE_LEN c"
  "evbuffer_chain_should_realign (c\<lparr>ch_next := n\<rparr>) = evbuffer_chain_should_realign c"
  by (simp_all add: chain_bytes_def mutable_def chain_ok_def CHAIN_PINNED_def CHAIN_PINNED_R_def CHAIN_SPACE_LEN_def
      evbuffer_chain_should_realign_def fun_eq_iff)

lemma used_spare: "cs = used cs @ spare cs" by simp

lemma holds_content: "holds s b e cs \<Longrightarrow> content cs = content (used cs)"
proof -
  assume "holds s b e cs"
  then have "content (spare cs) = []" by (intro content_empty) (simp add: holds_def)
  then show ?thesis using arg_cong [OF used_spare, of content cs] by (simp del: takeWhile_dropWhile_id)
qed

section \<open>Running the accessors\<close>

lemma ld_chain_run [run_simps]: "ch_heap s p = Some c \<Longrightarrow> p \<noteq> 0 \<Longrightarrow> ld_chain p s = Inr (c, s)"
  by (simp add: ld_chain_def)

lemma upd_chain_run [run_simps]:
  "ch_heap s p = Some c \<Longrightarrow> p \<noteq> 0 \<Longrightarrow> upd_chain p f s = Inr ((), s\<lparr>ch_heap := (ch_heap s)(p \<mapsto> f c)\<rparr>)"
  by (simp add: upd_chain_def ld_chain_def bnd_def)

lemma ld_buf_run [run_simps]: "eb_heap s b = Some e \<Longrightarrow> b \<noteq> 0 \<Longrightarrow> ld_buf b s = Inr (e, s)"
  by (simp add: ld_buf_def)

lemma upd_buf_run [run_simps]:
  "eb_heap s b = Some e \<Longrightarrow> b \<noteq> 0 \<Longrightarrow> upd_buf b f s = Inr ((), s\<lparr>eb_heap := (eb_heap s)(b \<mapsto> f e)\<rparr>)"
  by (simp add: upd_buf_def ld_buf_def bnd_def)

lemma with_brk_run [run_simps]: "with_brk f s = f (Suc (ev_brk s)) s"
  by (simp add: with_brk_def)

lemma log_call_run [run_simps]: "log_call x s = Inr ((), s\<lparr>ev_log := ev_log s @ [x]\<rparr>)"
  by (simp add: log_call_def)

lemma ld_bytes_run [run_simps]:
  "ch_heap s p = Some c \<Longrightarrow> p \<noteq> 0 \<Longrightarrow> i + n \<le> buffer_len c \<Longrightarrow> ld_bytes p i n s = Inr (slice (ch_buffer c) i n, s)"
  by (simp add: ld_bytes_def bnd_def ld_chain_def)

lemma st_bytes_run [run_simps]:
  "ch_heap s p = Some c \<Longrightarrow> p \<noteq> 0 \<Longrightarrow> i + length xs \<le> buffer_len c \<Longrightarrow>
   st_bytes p i xs s = Inr ((), s\<lparr>ch_heap := (ch_heap s)(p \<mapsto> c\<lparr>ch_buffer := put (ch_buffer c) i xs\<rparr>)\<rparr>)"
  by (simp add: st_bytes_def bnd_def ld_chain_def upd_chain_run)

lemma rd_cell_run:
  assumes "chain_seg (ch_heap s) (eb_first e) cs 0" "eb_heap s b = Some e" "b \<noteq> 0" "i \<le> length cs"
  shows "rd_cell (cell_of b cs i) s = Inr (head_addr (drop i cs) 0, s)"
proof (cases i)
  case 0
  then show ?thesis
    using assms(2,3) chain_seg_head [OF assms(1)] by (simp add: cell_of_def run_simps bnd_Inr [OF ld_buf_run])
next
  case (Suc k)
  then have k: "k < length cs" using assms(4) by simp
  then show ?thesis
    using chain_seg_nth [OF assms(1) k] Suc
    by (simp add: cell_of_def bnd_Inr [OF ld_chain_run])
qed

lemma run_bnd_simps:
  "ch_heap s p = Some c \<Longrightarrow> p \<noteq> 0 \<Longrightarrow> bnd (ld_chain p) g s = g c s"
  "eb_heap s b = Some e \<Longrightarrow> b \<noteq> 0 \<Longrightarrow> bnd (ld_buf b) k s = k e s"
  by (simp_all add: bnd_Inr [OF ld_chain_run] bnd_Inr [OF ld_buf_run])

end
