(* ===== verification/Evbuffer_Runs.thy ===== *)
theory Evbuffer_Runs
  imports Evbuffer_Facts
begin

unbundle bit_operations_syntax

text \<open>
  What the helper functions of \<^verbatim>\<open>libevent/buffer.c\<close> do on a well-formed buffer: freeing chains, searching for
  the first spare chain, inserting a chain, allocating one and invoking the callbacks.
\<close>

section \<open>Freeing\<close>

definition cleanup_calls :: "evbuffer_chain \<Rightarrow> ev_call list" where
  "cleanup_calls c = (if ch_flags c AND EVBUFFER_REFERENCE = 0 then []
     else case ch_extra c of Ref_Extra f x \<Rightarrow> if f = 0 then [] else [Cleanup f (buffer_len c) x] | _ \<Rightarrow> [])"

lemma cleanup_calls_next [simp]: "cleanup_calls (c\<lparr>ch_next := n\<rparr>) = cleanup_calls c"
  by (simp add: cleanup_calls_def split: chain_extra.split)

definition cleanups :: "(nat \<times> evbuffer_chain) list \<Rightarrow> ev_call list" where
  "cleanups cs = concat (map (\<lambda>xc. cleanup_calls (snd xc)) cs)"

lemma cleanups_simps [simp]: "cleanups [] = []" "cleanups (xc # cs) = cleanup_calls (snd xc) @ cleanups cs"
  by (simp_all add: cleanups_def)

definition without :: "(nat \<Rightarrow> evbuffer_chain option) \<Rightarrow> nat set \<Rightarrow> nat \<Rightarrow> evbuffer_chain option" where
  "without h X = (\<lambda>x. if x \<in> X then None else h x)"

lemma without_simps [simp]: "x \<in> X \<Longrightarrow> without h X x = None" "x \<notin> X \<Longrightarrow> without h X x = h x" "without h {} = h"
  by (auto simp: without_def)

lemma without_insert: "without h (insert p X) = without (h(p := None)) X"
  by (auto simp: without_def)

lemma mm_free_chain_run [run_simps]:
  "ch_heap s p = Some c \<Longrightarrow> p \<noteq> 0 \<Longrightarrow> mm_free_chain p s = Inr ((), s\<lparr>ch_heap := (ch_heap s)(p := None)\<rparr>)"
  by (simp add: mm_free_chain_def run_bnd_simps)

lemma chain_free_run:
  assumes "chain_ok c" "ch_heap s p = Some c" "p \<noteq> 0"
  shows "evbuffer_chain_free p s
    = Inr ((), s\<lparr>ch_heap := (ch_heap s)(p := None), ev_log := ev_log s @ cleanup_calls c\<rparr>)"
proof (cases "ch_flags c AND EVBUFFER_REFERENCE = 0")
  case True
  then show ?thesis using assms chain_ok_flags [OF assms(1)]
    by (simp add: evbuffer_chain_free_def run_bnd_simps mm_free_chain_run cleanup_calls_def chain_ok_def)
next
  case False
  then obtain f x where x: "ch_extra c = Ref_Extra f x" using assms(1) by (auto simp: chain_ok_def)
  then show ?thesis using assms chain_ok_flags [OF assms(1)] False
    by (cases "f = 0") (simp_all add: evbuffer_chain_free_def run_bnd_simps mm_free_chain_run cleanup_calls_def
        chain_ok_def bnd_Inr [OF log_call_run])
qed

lemma free_chains_run:
  assumes "chain_seg (ch_heap s) p cs 0" "distinct (addrs cs)" "\<forall>xc\<in>set cs. chain_ok (snd xc)" "length cs < f"
  shows "free_chains_loop f p s
    = Inr ((), s\<lparr>ch_heap := without (ch_heap s) (set (addrs cs)), ev_log := ev_log s @ cleanups cs\<rparr>)"
  using assms
proof (induction cs arbitrary: f p s)
  case Nil
  then show ?case by (cases f) simp_all
next
  case (Cons xc cs)
  obtain x c where xc: "xc = (x, c)" by (cases xc)
  obtain g where f: "f = Suc g" using Cons.prems(4) by (cases f) auto
  let ?c = "c\<lparr>ch_next := head_addr cs 0\<rparr>"
  have x: "p = x" "x \<noteq> 0" "ch_heap s x = Some ?c" "chain_seg (ch_heap s) (ch_next ?c) cs 0"
    using Cons.prems(1) xc by auto
  have c: "chain_ok ?c" "cleanup_calls ?c = cleanup_calls c" using Cons.prems(3) xc by simp_all
  let ?t = "s\<lparr>ch_heap := (ch_heap s)(x := None), ev_log := ev_log s @ cleanup_calls c\<rparr>"
  have "chain_seg (ch_heap ?t) (ch_next ?c) cs 0 = chain_seg (ch_heap s) (ch_next ?c) cs 0"
    by (rule chain_seg_cong) (use Cons.prems(2) xc in auto)
  then have "chain_seg (ch_heap ?t) (ch_next ?c) cs 0" using x(4) by blast
  then have "free_chains_loop g (ch_next ?c) ?t
    = Inr ((), ?t\<lparr>ch_heap := without (ch_heap ?t) (set (addrs cs)), ev_log := ev_log ?t @ cleanups cs\<rparr>)"
    by (rule Cons.IH) (use Cons.prems xc f in simp_all)
  moreover have "without (ch_heap ?t) (set (addrs cs)) = without (ch_heap s) (set (addrs (xc # cs)))"
    by (auto simp: without_def xc)
  ultimately have "free_chains_loop g (ch_next ?c) ?t
    = Inr ((), s\<lparr>ch_heap := without (ch_heap s) (set (addrs (xc # cs))), ev_log := ev_log s @ cleanups (xc # cs)\<rparr>)"
    using xc by simp
  moreover have "free_chains_loop f p s = free_chains_loop g (ch_next ?c) ?t"
    using f x(1-3) chain_free_run [OF c(1) x(3,2)] c(2) by (simp add: ld_chain_run bnd_def)
  ultimately show ?case by simp
qed

section \<open>Searching\<close>

lemma all_empty_run:
  assumes "chain_seg (ch_heap s) p cs 0" "\<forall>xc\<in>set cs. \<not> has_data xc" "length cs < f"
  shows "all_empty_loop f p s = Inr (True, s)"
  using assms
proof (induction cs arbitrary: f p)
  case Nil
  then show ?case by (cases f) simp_all
next
  case (Cons xc cs)
  obtain x c where xc: "xc = (x, c)" by (cases xc)
  obtain g where "f = Suc g" using Cons.prems(3) by (cases f) auto
  then show ?case using Cons xc by (auto simp: run_bnd_simps has_data_def)
qed

lemma holds_simps:
  assumes "holds s b e cs"
  shows "b \<noteq> 0" "eb_heap s b = Some e" "chain_seg (ch_heap s) (eb_first e) cs 0" "distinct (addrs cs)"
    "\<forall>x\<in>set (addrs cs). x < ev_brk s" "eb_last e = last_addr cs"
    "last_with_datap e = cell_of b cs (length (used cs) - 1)" "\<forall>xc\<in>set (spare cs). \<not> has_data xc"
    "\<forall>xc\<in>set cs. chain_ok (snd xc)" "total_len e = length (content cs)" "length (content cs) < 2 ^ 64"
    "eb_first e = head_addr cs 0"
  using assms chain_seg_head [of "ch_heap s" "eb_first e" cs 0] by (auto simp: holds_def)

lemma holds_fuel:
  assumes "holds s b e cs"
  shows "length cs < Suc (ev_brk s)"
proof -
  have "set (addrs cs) \<subseteq> {..<ev_brk s}" using holds_simps(5) [OF assms] by auto
  then have "card (set (addrs cs)) \<le> ev_brk s" using card_mono [of "{..<ev_brk s}"] by fastforce
  then show ?thesis using distinct_card [OF holds_simps(4) [OF assms]] by simp
qed

lemma used_nth: "i < length (used cs) \<Longrightarrow> has_data (cs ! i)"
  by (metis nth_mem set_takeWhileD takeWhile_nth)

lemma drop_used: "drop (length (used cs)) cs = spare cs"
  by (simp add: dropWhile_eq_drop)

lemma drop_nth_Cons: "i < length cs \<Longrightarrow> drop i cs = cs ! i # drop (Suc i) cs"
  by (simp add: Cons_nth_drop_Suc)

lemma victim_run:
  assumes "holds s b e cs" "i \<le> length (used cs)" "length (used cs) - i < f"
  shows "victim_loop f (cell_of b cs i) s = Inr (cell_of b cs (length (used cs)), s)"
  using assms(2,3)
proof (induction f arbitrary: i)
  case (Suc f)
  note h = holds_simps [OF assms(1)]
  have il: "i \<le> length cs" using Suc.prems(1) length_takeWhile_le [of has_data cs] by simp
  have rd: "bnd (rd_cell (cell_of b cs i)) k s = k (head_addr (drop i cs) 0) s" for k :: "nat \<Rightarrow> cell brun"
    using rd_cell_run [OF h(3,2,1) il] by (simp add: bnd_def)
  show ?case
  proof (cases "i < length (used cs)")
    case True
    then have i: "i < length cs" using length_takeWhile_le [of has_data cs] by simp
    note n = chain_seg_nth [OF h(3) i]
    have o: "0 < off (snd (cs ! i))" using used_nth [OF True] by (simp add: has_data_def)
    have "cell_of b cs (Suc i) = Next (fst (cs ! i))" by (simp add: cell_of_def)
    then show ?thesis
      using True Suc.IH [of "Suc i"] Suc.prems n o drop_nth_Cons [OF i] by (simp add: rd run_bnd_simps)
  next
    case False
    then have i: "i = length (used cs)" using Suc.prems(1) by simp
    then have d: "drop i cs = spare cs" using drop_used by simp
    show ?thesis
    proof (cases "spare cs")
      case Nil
      then show ?thesis by (simp add: rd d flip: i del: dropWhile_eq_Nil_conv)
    next
      case (Cons xc es)
      then have d: "drop i cs = xc # es" using d by simp
      then have m: "xc \<in> set cs" by (metis in_set_dropD list.set_intros(1))
      then obtain n where c: "ch_heap s (fst xc) = Some (snd xc\<lparr>ch_next := n\<rparr>)" "0 < fst xc"
        using chain_seg_mem [OF h(3)] by blast
      have "\<not> has_data xc" "chain_ok (snd xc)" using Cons h(8,9) m by auto
      then have "off (snd xc) = 0" "\<not> CHAIN_PINNED (snd xc)" using chain_ok_flags by (simp_all add: has_data_def)
      then show ?thesis using c by (simp add: rd d run_bnd_simps flip: i)
    qed
  qed
qed simp

section \<open>Callbacks\<close>

definition same_core :: "evbuffer \<Rightarrow> evbuffer \<Rightarrow> bool" where
  "same_core e e' \<longleftrightarrow> eb_first e' = eb_first e \<and> eb_last e' = eb_last e \<and> last_with_datap e' = last_with_datap e
     \<and> total_len e' = total_len e \<and> freeze_start e' = freeze_start e \<and> freeze_end e' = freeze_end e
     \<and> callbacks e' = callbacks e"

lemma callback_loop_run: "\<exists>l. callback_loop buf m v a n x y cbs s = Inr ((), s\<lparr>ev_log := l\<rparr>)"
proof (induction cbs arbitrary: s)
  case Nil
  have "s = s\<lparr>ev_log := ev_log s\<rparr>" by simp
  then show ?case by (metis callback_loop.simps(1) ret_run)
next
  case (Cons cb cbs)
  obtain l where l: "(if cb_flags cb AND m \<noteq> v then ret ()
      else if cb_flags cb AND EVBUFFER_CB_OBSOLETE \<noteq> 0 then log_call (Obsolete (cb_func cb) buf a n (cbarg cb))
      else log_call (Callback (cb_func cb) buf a x y (cbarg cb))) s = Inr ((), s\<lparr>ev_log := l\<rparr>)"
  proof
    show "(if cb_flags cb AND m \<noteq> v then ret ()
      else if cb_flags cb AND EVBUFFER_CB_OBSOLETE \<noteq> 0 then log_call (Obsolete (cb_func cb) buf a n (cbarg cb))
      else log_call (Callback (cb_func cb) buf a x y (cbarg cb))) s
      = Inr ((), s\<lparr>ev_log := ev_log s @ (if cb_flags cb AND m \<noteq> v then []
          else if cb_flags cb AND EVBUFFER_CB_OBSOLETE \<noteq> 0 then [Obsolete (cb_func cb) buf a n (cbarg cb)]
          else [Callback (cb_func cb) buf a x y (cbarg cb)])\<rparr>)"
      by (simp add: log_call_run)
  qed
  show ?case using Cons.IH [of "s\<lparr>ev_log := l\<rparr>"] l by (auto simp: bnd_def)
qed

lemma same_state: "eb_heap s b = Some e \<Longrightarrow> s = s\<lparr>eb_heap := (eb_heap s)(b \<mapsto> e), ev_log := ev_log s\<rparr>"
  by (simp add: fun_upd_idem)

lemma run_callbacks_run:
  assumes "eb_heap s b = Some e" "b \<noteq> 0"
  shows "\<exists>e' l. evbuffer_run_callbacks b d s = Inr ((), s\<lparr>eb_heap := (eb_heap s)(b \<mapsto> e'), ev_log := l\<rparr>) \<and> same_core e e'"
proof -
  define P where "P r \<longleftrightarrow> (\<exists>e' l. r = Inr ((), s\<lparr>eb_heap := (eb_heap s)(b \<mapsto> e'), ev_log := l\<rparr>) \<and> same_core e e')"
    for r :: "fault + unit \<times> evstate"
  have skip: "P (Inr ((), s))"
    unfolding P_def using same_state [OF assms(1)] by (intro exI [of _ e] exI [of _ "ev_log s"]) (simp add: same_core_def)
  have clear: "P (Inr ((), s\<lparr>eb_heap := (eb_heap s)(b \<mapsto> e\<lparr>n_add_for_cb := 0, n_del_for_cb := 0\<rparr>)\<rparr>))"
    unfolding P_def by (intro exI [of _ "e\<lparr>n_add_for_cb := 0, n_del_for_cb := 0\<rparr>"] exI [of _ "ev_log s"]) (simp add: same_core_def)
  have loop: "P (callback_loop buf m v a n x y cbs t)" if "P (Inr ((), t))" for buf m v a n x y cbs t
  proof -
    from that obtain e' l where t: "t = s\<lparr>eb_heap := (eb_heap s)(b \<mapsto> e'), ev_log := l\<rparr>" "same_core e e'"
      by (auto simp: P_def)
    show ?thesis using callback_loop_run [of buf m v a n x y cbs t] t by (auto simp: P_def)
  qed
  have "P (evbuffer_run_callbacks b d s)"
    using assms skip clear loop [OF skip] loop [OF clear]
    by (simp add: evbuffer_run_callbacks_def run_bnd_simps upd_buf_run Let_def bnd_if bnd_Inr [OF upd_buf_run])
  then show ?thesis by (simp add: P_def)
qed

lemma same_core_trans: "same_core a b \<Longrightarrow> same_core b c \<Longrightarrow> same_core a c"
  by (simp add: same_core_def)

lemma invoke_run:
  assumes "eb_heap s b = Some e" "b \<noteq> 0"
  shows "\<exists>e' l. evbuffer_invoke_callbacks b s = Inr ((), s\<lparr>eb_heap := (eb_heap s)(b \<mapsto> e'), ev_log := l\<rparr>) \<and> same_core e e'"
proof (cases "callbacks e \<noteq> [] \<and> deferred_cbs e \<and> \<not> deferred_queued e")
  case True
  let ?e = "e\<lparr>refcnt := refcnt e + 1, deferred_queued := True\<rparr>" and ?t = "s\<lparr>eb_heap := (eb_heap s)(b \<mapsto> e\<lparr>refcnt := refcnt e + 1, deferred_queued := True\<rparr>)\<rparr>"
  have "evbuffer_invoke_callbacks b s = evbuffer_run_callbacks b False ?t"
    using True assms by (simp add: evbuffer_invoke_callbacks_def run_bnd_simps bnd_Inr [OF upd_buf_run])
  moreover have "eb_heap ?t b = Some ?e" by simp
  moreover have "same_core e ?e" by (simp add: same_core_def)
  ultimately show ?thesis
    using run_callbacks_run [of ?t b ?e False] assms(2) same_core_trans by fastforce
next
  case False
  have clear: "same_core e (e\<lparr>n_add_for_cb := 0, n_del_for_cb := 0\<rparr>)" by (simp add: same_core_def)
  consider (none) "callbacks e = []" | (queued) "callbacks e \<noteq> []" "deferred_cbs e" "deferred_queued e"
    | (now) "callbacks e \<noteq> []" "\<not> deferred_cbs e" using False by blast
  then show ?thesis
  proof cases
    case none
    then show ?thesis using assms clear
      by (intro exI [of _ "e\<lparr>n_add_for_cb := 0, n_del_for_cb := 0\<rparr>"] exI [of _ "ev_log s"])
        (simp add: evbuffer_invoke_callbacks_def run_bnd_simps upd_buf_run)
  next
    case queued
    then show ?thesis using assms
      by (intro exI [of _ e] exI [of _ "ev_log s"])
        (simp add: evbuffer_invoke_callbacks_def run_bnd_simps same_core_def fun_upd_idem)
  next
    case now
    then show ?thesis using assms run_callbacks_run [OF assms, of False]
      by (simp add: evbuffer_invoke_callbacks_def run_bnd_simps)
  qed
qed

end
