(* ===== verification/Evbuffer_Insert.thy ===== *)
theory Evbuffer_Insert
  imports Evbuffer_Runs
begin

unbundle bit_operations_syntax

text \<open>
  Accounting for memory across operations, allocating a chain, and inserting a chain at the end of a
  buffer.
\<close>

section \<open>Accounting\<close>

lemma evolves_refl: "wf_ev s \<Longrightarrow> evolves s s B X X"
  by (auto simp: evolves_def wf_ev_def)

lemma evolves_trans:
  assumes "evolves s s' B X X'" "evolves s' s'' B X' X''"
  shows "evolves s s'' B X X''"
proof -
  note a = assms [unfolded evolves_def]
  have "ch_heap s'' x = ch_heap s x" if "x \<notin> X" "x < ev_brk s" for x
  proof -
    have "x \<notin> X'" "x < ev_brk s'" using that a by auto
    then show ?thesis using that a by simp
  qed
  moreover have "ch_heap s'' x = None" if "x \<in> X \<or> ev_brk s \<le> x" "x \<notin> X''" for x
  proof (cases "x \<in> X' \<or> ev_brk s' \<le> x")
    case False
    then have "ch_heap s' x = None" "ch_heap s'' x = ch_heap s' x" using that a by auto
    then show ?thesis by simp
  qed (use that a in blast)
  moreover have "X'' \<subseteq> X \<union> {ev_brk s..}" using a by fastforce
  ultimately show ?thesis using a by (simp add: evolves_def)
qed

lemma evolves_wf:
  assumes "wf_ev s" "evolves s s' B X X'" "X' \<subseteq> {..<ev_brk s'}" "B \<subseteq> {..<ev_brk s}"
  shows "wf_ev s'"
  unfolding wf_ev_def
proof (intro conjI allI impI)
  show "0 < ev_brk s'" using assms(1,2) by (simp add: wf_ev_def evolves_def)
  fix x assume x: "ev_brk s' \<le> x"
  then have "x \<notin> X'" "ev_brk s \<le> x" "x \<notin> B" using assms(2-4) by (auto simp: evolves_def)
  then show "ch_heap s' x = None" "eb_heap s' x = None" using assms(1,2) by (auto simp: evolves_def wf_ev_def)
qed

text \<open>The effect of a straight-line piece of code: it may write the chains \<open>X\<close>, free those not in \<open>X'\<close>, and write the buffers \<open>B\<close>.\<close>

lemma evolvesI:
  assumes "wf_ev s" "ev_brk s' = ev_brk s" "ev_oom s' = ev_oom s" "ev_junk s' = ev_junk s" "X' \<subseteq> X" "X \<subseteq> {..<ev_brk s}"
    "\<And>b. b \<notin> B \<Longrightarrow> eb_heap s' b = eb_heap s b" "\<And>x. x \<notin> X \<Longrightarrow> ch_heap s' x = ch_heap s x"
    "\<And>x. x \<in> X \<Longrightarrow> x \<notin> X' \<Longrightarrow> ch_heap s' x = None"
  shows "evolves s s' B X X'"
  using assms by (force simp: evolves_def wf_ev_def)

definition rest :: "evbuffer \<Rightarrow> evbuffer" where
  "rest e = e\<lparr>eb_first := 0, eb_last := 0, last_with_datap := First 0, total_len := 0\<rparr>"

lemma rest_simps [simp]:
  "rest (e\<lparr>eb_first := x\<rparr>) = rest e" "rest (e\<lparr>eb_last := x\<rparr>) = rest e" "rest (e\<lparr>last_with_datap := l\<rparr>) = rest e"
  "rest (e\<lparr>total_len := n\<rparr>) = rest e"
  by (simp_all add: rest_def)

lemma rest_fields:
  assumes "rest e' = rest e"
  shows "freeze_start e' = freeze_start e" "freeze_end e' = freeze_end e" "callbacks e' = callbacks e"
    "n_add_for_cb e' = n_add_for_cb e" "n_del_for_cb e' = n_del_for_cb e" "deferred_cbs e' = deferred_cbs e"
  using assms [THEN arg_cong, of freeze_start] assms [THEN arg_cong, of freeze_end] assms [THEN arg_cong, of callbacks]
    assms [THEN arg_cong, of n_add_for_cb] assms [THEN arg_cong, of n_del_for_cb] assms [THEN arg_cong, of deferred_cbs]
  by (simp_all add: rest_def)

section \<open>Allocating a chain\<close>

lemma grown_size_ge: "0 < a \<Longrightarrow> n \<le> grown_size a n"
  by (induction a n rule: grown_size.induct) (subst grown_size.simps, auto)

lemma grown_size_le: "0 < a \<Longrightarrow> grown_size a n \<le> max a (2 * n)"
  by (induction a n rule: grown_size.induct) (subst grown_size.simps, auto)

definition new_chain :: "nat \<Rightarrow> evbuffer_chain \<Rightarrow> bool" where
  "new_chain n c \<longleftrightarrow> n \<le> buffer_len c \<and> buffer_len c \<le> EVBUFFER_CHAIN_MAX - EVBUFFER_CHAIN_SIZE \<and> misalign c = 0 \<and> off c = 0 \<and> ch_flags c = 0
     \<and> ch_next c = 0"

definition room :: "nat \<Rightarrow> evstate \<Rightarrow> bool" where
  "room n s \<longleftrightarrow> n \<le> EVBUFFER_CHAIN_MAX - EVBUFFER_CHAIN_SIZE \<and> \<not> ev_oom s (ev_brk s)"

lemma new_chain_ok: "new_chain n c \<Longrightarrow> chain_ok c" "new_chain n c \<Longrightarrow> mutable c"
  by (simp_all add: new_chain_def chain_ok_def mutable_def)

lemma chain_new_cases:
  obtains (fail) s' where "evbuffer_chain_new n s = Inr (0, s')" "\<not> room n s" "s' = s \<or> s' = s\<lparr>ev_brk := Suc (ev_brk s)\<rparr>"
  | (new) c where "evbuffer_chain_new n s = Inr (ev_brk s, s\<lparr>ev_brk := Suc (ev_brk s), ch_heap := (ch_heap s)(ev_brk s \<mapsto> c)\<rparr>)"
      "room n s" "new_chain n c"
proof (cases "n \<le> EVBUFFER_CHAIN_MAX - EVBUFFER_CHAIN_SIZE")
  case False
  then show thesis by (intro fail [of s]) (simp_all add: evbuffer_chain_new_def room_def)
next
  case n: True
  show thesis
  proof (cases "ev_oom s (ev_brk s)")
    case True
    then show thesis using n
      by (intro fail [of "s\<lparr>ev_brk := Suc (ev_brk s)\<rparr>"]) (simp_all add: evbuffer_chain_new_def room_def Let_def)
  next
    case False
    define m where "m = n + EVBUFFER_CHAIN_SIZE"
    define k where "k = (if m < EVBUFFER_CHAIN_MAX div 2 then grown_size MIN_BUFFER_SIZE m else m)"
    have "m \<le> EVBUFFER_CHAIN_MAX" "2048 \<le> EVBUFFER_CHAIN_MAX"
      using n by (simp_all add: m_def EVBUFFER_CHAIN_MAX_def EVBUFFER_CHAIN_SIZE_def EV_SSIZE_MAX_def)
    moreover have "grown_size MIN_BUFFER_SIZE m \<le> max 1024 (2 * m)" "m \<le> grown_size MIN_BUFFER_SIZE m"
      using grown_size_le [of MIN_BUFFER_SIZE m] grown_size_ge [of MIN_BUFFER_SIZE m] by (simp_all add: MIN_BUFFER_SIZE_def)
    ultimately have k: "m \<le> k" "k \<le> EVBUFFER_CHAIN_MAX" by (auto simp: k_def max_def split: if_splits)
    let ?c = "\<lparr>ch_next = 0, buffer_len = k - EVBUFFER_CHAIN_SIZE, misalign = 0, off = 0, ch_flags = 0,
                     ch_buffer = ev_junk s, ch_extra = NoExtra\<rparr>"
    show thesis
    proof (rule new)
      show "evbuffer_chain_new n s = Inr (ev_brk s, s\<lparr>ev_brk := Suc (ev_brk s), ch_heap := (ch_heap s)(ev_brk s \<mapsto> ?c)\<rparr>)"
        using n False unfolding evbuffer_chain_new_def Let_def m_def [symmetric] k_def [symmetric] by simp
      show "room n s" using n False by (simp add: room_def)
      show "new_chain n ?c" using k by (simp add: new_chain_def m_def) linarith
    qed
  qed
qed

lemma evolves_fail:
  assumes "s' = s \<or> s' = s\<lparr>ev_brk := Suc (ev_brk s)\<rparr>" "wf_ev s"
  shows "evolves s s' B X X" "wf_ev s'" "\<And>b e cs. holds s b e cs \<Longrightarrow> holds s' b e cs"
  using assms by (auto simp: evolves_def wf_ev_def holds_def)

lemma evolves_new:
  assumes "wf_ev s"
  shows "evolves s (s\<lparr>ev_brk := Suc (ev_brk s), ch_heap := (ch_heap s)(ev_brk s \<mapsto> c)\<rparr>) B X (insert (ev_brk s) X)"
    "wf_ev (s\<lparr>ev_brk := Suc (ev_brk s), ch_heap := (ch_heap s)(ev_brk s \<mapsto> c)\<rparr>)"
  using assms by (auto simp: evolves_def wf_ev_def)

lemma holds_other:
  assumes "holds s b e cs" "eb_heap s' b = eb_heap s b" "\<And>x. x \<in> set (addrs cs) \<Longrightarrow> ch_heap s' x = ch_heap s x"
    "ev_brk s \<le> ev_brk s'"
  shows "holds s' b e cs"
proof -
  have "chain_seg (ch_heap s') (eb_first e) cs 0 = chain_seg (ch_heap s) (eb_first e) cs 0"
    by (rule chain_seg_cong) (rule assms(3))
  then show ?thesis using assms by (force simp: holds_def)
qed

lemma holds_new:
  assumes "holds s b e cs"
  shows "holds (s\<lparr>ev_brk := Suc (ev_brk s), ch_heap := (ch_heap s)(ev_brk s \<mapsto> c)\<rparr>) b e cs" "ev_brk s \<notin> set (addrs cs)"
proof -
  show n: "ev_brk s \<notin> set (addrs cs)" using holds_simps(5) [OF assms] by blast
  show "holds (s\<lparr>ev_brk := Suc (ev_brk s), ch_heap := (ch_heap s)(ev_brk s \<mapsto> c)\<rparr>) b e cs"
    by (rule holds_other [OF assms]) (use n in force)+
qed

section \<open>Inserting a chain\<close>

lemma used_append_spare: "spare cs = [] \<Longrightarrow> used cs = cs"
  by (metis append_Nil2 takeWhile_dropWhile_id)

lemma used_snoc:
  assumes "\<forall>xc\<in>set ds. has_data xc"
  shows "used (ds @ [xc]) = (if has_data xc then ds @ [xc] else ds)" "spare (ds @ [xc]) = (if has_data xc then [] else [xc])"
  using assms by (simp_all add: takeWhile_append dropWhile_append)

lemma used_all: "\<forall>xc\<in>set (used cs). has_data xc"
  by (meson set_takeWhileD)

lemma cell_of_append: "i \<le> length as \<Longrightarrow> cell_of b (as @ bs) i = cell_of b as i"
  by (auto simp: cell_of_def nth_append)

lemma cell_of_snoc: "cell_of b (as @ (x, c) # bs) (Suc (length as)) = Next x"
  by (simp add: cell_of_def)

text \<open>The list that results from replacing the spare chains by \<open>(p, c)\<close>.\<close>

lemma holds_replaced:
  assumes "holds s b e cs" "ch_heap s p = Some (c\<lparr>ch_next := 0\<rparr>)" "0 < p" "p \<notin> set (addrs cs)" "p < ev_brk s" "chain_ok c"
    "length (content cs) + off c < 2 ^ 64" and ev: "ev_brk s' = ev_brk s" "eb_heap s' b = Some e'"
    and seg: "chain_seg (ch_heap s') (eb_first e') (used cs) p" "ch_heap s' p = ch_heap s p"
    and f: "eb_last e' = p" "total_len e' = total_len e + off c"
      "last_with_datap e' = (if off c = 0 then last_with_datap e else cell_of b (used cs) (length (used cs)))"
  shows "holds s' b e' (used cs @ [(p, c)])"
proof -
  note h = holds_simps [OF assms(1)]
  have sub: "set (used cs) \<subseteq> set cs" by (meson set_takeWhileD subsetI)
  have l: "last_with_datap e' = cell_of b (used cs @ [(p, c)]) (length (used (used cs @ [(p, c)])) - 1)"
  proof (cases "off c = 0")
    case True
    then have u: "used (used cs @ [(p, c)]) = used cs" by (simp add: used_snoc [OF used_all] has_data_def)
    have "cell_of b cs (length (used cs) - 1) = cell_of b (used cs) (length (used cs) - 1)"
      by (metis cell_of_append diff_le_self takeWhile_dropWhile_id)
    then show ?thesis using f(3) h(7) True u by (simp add: cell_of_append)
  next
    case False
    then have "used (used cs @ [(p, c)]) = used cs @ [(p, c)]" by (simp add: used_snoc [OF used_all] has_data_def)
    then show ?thesis using f(3) False by (simp add: cell_of_append)
  qed
  have d: "distinct (addrs (used cs @ [(p, c)]))"
    using h(4) assms(4) sub by (auto simp: takeWhile_map [symmetric] comp_def intro: distinct_takeWhile dest: subsetD)
      (metis distinct_append map_append takeWhile_dropWhile_id)
  have c: "content cs = content (used cs)" by (rule holds_content [OF assms(1)])
  show ?thesis
    unfolding holds_def
  proof (intro conjI)
    show "chain_seg (ch_heap s') (eb_first e') (used cs @ [(p, c)]) 0"
      using seg assms(2,3) by (simp add: chain_seg_append)
    show "\<forall>x\<in>set (addrs (used cs @ [(p, c)])). x < ev_brk s'" using h(5) ev(1) sub assms(5) by auto
    show "\<forall>xc\<in>set (spare (used cs @ [(p, c)])). \<not> has_data xc" by (simp add: used_snoc [OF used_all])
    show "\<forall>xc\<in>set (used cs @ [(p, c)]). chain_ok (snd xc)" using h(9) sub assms(6) by auto
  qed (use h(1,10) ev d l f assms(7) c in \<open>simp_all add: last_addr_def\<close>)
qed

lemma seg_without:
  "chain_seg h p cs q \<Longrightarrow> set (addrs cs) \<inter> X = {} \<Longrightarrow> chain_seg (without h X) p cs q"
  using chain_seg_cong [of cs "without h X" h p q] by (auto simp: disjoint_iff)

lemma spare_facts:
  assumes "holds s b e cs"
  shows "chain_seg (ch_heap s) (head_addr (spare cs) 0) (spare cs) 0" "distinct (addrs (spare cs))"
    "\<forall>xc\<in>set (spare cs). chain_ok (snd xc)" "length (spare cs) < Suc (ev_brk s)"
    "chain_seg (ch_heap s) (eb_first e) (used cs) (head_addr (spare cs) 0)" "set (addrs (used cs)) \<inter> set (addrs (spare cs)) = {}"
    "set (addrs cs) = set (addrs (used cs)) \<union> set (addrs (spare cs))" "distinct (addrs (used cs))"
proof -
  note h = holds_simps [OF assms]
  have seg: "chain_seg (ch_heap s) (eb_first e) (used cs @ spare cs) 0" using h(3) by simp
  have dist: "distinct (addrs (used cs @ spare cs))" using h(4) by simp
  show "chain_seg (ch_heap s) (head_addr (spare cs) 0) (spare cs) 0"
    "chain_seg (ch_heap s) (eb_first e) (used cs) (head_addr (spare cs) 0)"
    using seg by (simp_all only: chain_seg_append)
  show "distinct (addrs (spare cs))" "set (addrs (used cs)) \<inter> set (addrs (spare cs)) = {}" "distinct (addrs (used cs))"
    using dist by (simp_all only: map_append distinct_append)
  show "set (addrs cs) = set (addrs (used cs)) \<union> set (addrs (spare cs))" by (metis map_append set_append takeWhile_dropWhile_id)
  show "\<forall>xc\<in>set (spare cs). chain_ok (snd xc)" using h(9) set_dropWhileD by metis
  show "length (spare cs) < Suc (ev_brk s)"
    using holds_fuel [OF assms] length_dropWhile_le [of has_data cs] by simp
qed

lemma snoc_cases: "xs \<noteq> [] \<Longrightarrow> (\<And>ys x c. xs = ys @ [(x, c)] \<Longrightarrow> P) \<Longrightarrow> P"
  by (metis rev_exhaust surj_pair)

lemma chain_insert_run:
  assumes "holds s b e cs" "wf_ev s" "ch_heap s p = Some (c\<lparr>ch_next := 0\<rparr>)" "0 < p" "p \<notin> set (addrs cs)" "p < ev_brk s"
    "chain_ok c" "spare cs = [] \<or> used cs = [] \<or> off c = 0" "length (content cs) + off c < 2 ^ 64"
  obtains s' e' where "evbuffer_chain_insert b p s = Inr ((), s')" "holds s' b e' (used cs @ [(p, c)])"
    "evolves s s' {b} (insert p (set (addrs cs))) (insert p (set (addrs (used cs))))" "rest e' = rest e"
    "ch_heap s' p = ch_heap s p"
proof -
  note h = holds_simps [OF assms(1)]
  note sp = spare_facts [OF assms(1)]
  let ?k = "length (used cs)"
  have k: "?k \<le> length cs" by (simp add: length_takeWhile_le)
  have tot: "sz_add (total_len e) (off c) = total_len e + off c" using assms(9) h(10) by simp
  have pb: "insert p (set (addrs cs)) \<subseteq> {..<ev_brk s}" using h(5) assms(6) by auto
  note goal = that
  have fin: thesis
    if run: "evbuffer_chain_insert b p s = Inr ((), s')" and ev: "ev_brk s' = ev_brk s" "ev_oom s' = ev_oom s" "ev_junk s' = ev_junk s"
      and b: "eb_heap s' = (eb_heap s)(b \<mapsto> e')" and seg: "chain_seg (ch_heap s') (eb_first e') (used cs) p"
      and hp: "ch_heap s' p = ch_heap s p"
        "\<And>x. x \<notin> set (addrs cs) \<Longrightarrow> ch_heap s' x = ch_heap s x" "\<And>x. x \<in> set (addrs (spare cs)) \<Longrightarrow> ch_heap s' x = None"
      and f: "eb_last e' = p" "total_len e' = total_len e + off c"
        "last_with_datap e' = (if off c = 0 then last_with_datap e else cell_of b (used cs) ?k)" "rest e' = rest e"
    for s' e'
  proof (rule goal [OF run _ _ f(4) hp(1)])
    show "holds s' b e' (used cs @ [(p, c)])"
      by (rule holds_replaced [OF assms(1,3,4,5,6,7,9) ev(1) _ seg hp(1) f(1-3)]) (simp add: b)
    show "evolves s s' {b} (insert p (set (addrs cs))) (insert p (set (addrs (used cs))))"
      by (rule evolvesI [OF assms(2) ev]) (use b hp sp(7) pb in auto)
  qed
  have lwd: "last_with_datap e = cell_of b cs (?k - 1)" by (rule h(7))
  show thesis
  proof (cases "cs = []")
    case True
    let ?e = "e\<lparr>eb_first := p, eb_last := p, total_len := total_len e + off c\<rparr>"
    let ?s = "s\<lparr>eb_heap := (eb_heap s)(b \<mapsto> ?e)\<rparr>"
    have l: "last_with_datap e = First b" "eb_first e = 0" using lwd True h(12) by (simp_all add: cell_of_def)
    have "evbuffer_chain_insert b p s = Inr ((), ?s)"
      using h(1,2) l tot assms(3,4) by (simp add: evbuffer_chain_insert_def run_simps)
    then show thesis by (rule fin [where e' = ?e]) (use True l in \<open>simp_all add: cell_of_def\<close>)
  next
    case False
    have kl: "?k - 1 < length cs" using False k by (cases cs) auto
    have rd1: "rd_cell (last_with_datap e) s = Inr (head_addr (drop (?k - 1) cs) 0, s)"
      using rd_cell_run [OF h(3,2,1), of "?k - 1"] kl lwd by simp
    have nz: "head_addr (drop (?k - 1) cs) 0 \<noteq> 0" using chain_seg_nth [OF h(3) kl] drop_nth_Cons [OF kl] by simp
    have vic: "victim_loop (Suc (ev_brk s)) (last_with_datap e) s = Inr (cell_of b cs ?k, s)"
      unfolding lwd by (rule victim_run [OF assms(1)]) (use holds_fuel [OF assms(1)] k in auto)
    have rd2: "rd_cell (cell_of b cs ?k) s = Inr (head_addr (spare cs) 0, s)"
      using rd_cell_run [OF h(3,2,1) k] by (simp add: drop_used)
    show thesis
    proof (cases "spare cs")
      case Nil
      have u: "used cs = cs" using Nil by (rule used_append_spare)
      obtain ys x d where cs: "cs = ys @ [(x, d)]" using False by (rule snoc_cases)
      have x: "ch_heap s x = Some (d\<lparr>ch_next := 0\<rparr>)" "0 < x" "eb_last e = x" "x \<noteq> p"
        using h(3,6) cs assms(5) by (auto simp: chain_seg_append last_addr_def)
      let ?l = "if off c = 0 then last_with_datap e else Next x"
      let ?e = "e\<lparr>last_with_datap := ?l, eb_last := p, total_len := total_len e + off c\<rparr>"
      let ?s = "s\<lparr>ch_heap := (ch_heap s)(x \<mapsto> d\<lparr>ch_next := p\<rparr>), eb_heap := (eb_heap s)(b \<mapsto> ?e)\<rparr>"
      have "evbuffer_chain_insert b p s = Inr ((), ?s)"
        using h(1,2) tot assms(3,4) nz x rd2 [unfolded Nil head_addr_simps]
        by (cases "off c = 0") (simp_all add: evbuffer_chain_insert_def run_simps rd1 vic fun_upd_twist del: victim_loop.simps)
      then show thesis
      proof (rule fin [where e' = ?e])
        show "chain_seg (ch_heap ?s) (eb_first ?e) (used cs) p"
          using chain_seg_relink [of "ch_heap s" "eb_first e" ys x d 0 p] h(3,4) u cs by simp
      qed (use x u Nil cs assms(5) in \<open>auto simp: cell_of_def nth_append\<close>)
    next
      case (Cons y ys)
      let ?X = "set (addrs (spare cs))" and ?q = "head_addr (spare cs) 0"
      let ?h = "without (ch_heap s) ?X" and ?l = "ev_log s @ cleanups (spare cs)"
      have emp: "evbuffer_chains_all_empty ?q s = Inr (True, s)"
        using all_empty_run [OF sp(1) h(8) sp(4)] by (simp add: evbuffer_chains_all_empty_def with_brk_def)
      have fre: "evbuffer_free_all_chains ?q s = Inr ((), s\<lparr>ch_heap := ?h, ev_log := ?l\<rparr>)"
        using free_chains_run [OF sp(1-4)] by (simp add: evbuffer_free_all_chains_def with_brk_def)
      have q: "?q \<noteq> 0" using sp(1) Cons by (cases y) auto
      have hp: "?h p = Some (c\<lparr>ch_next := 0\<rparr>)" using assms(3,5) sp(7) by simp
      show thesis
      proof (cases "used cs = []")
        case True
        let ?e = "e\<lparr>eb_first := p, eb_last := p, total_len := total_len e + off c\<rparr>"
        let ?s = "s\<lparr>ch_heap := ?h, ev_log := ?l, eb_heap := (eb_heap s)(b \<mapsto> ?e)\<rparr>"
        have lf: "last_with_datap e = First b" and cell: "cell_of b cs ?k = First b" using lwd True by (simp_all add: cell_of_def)
        have "evbuffer_chain_insert b p s = Inr ((), ?s)"
          using h(1,2) tot assms(4) nz q hp rd2 vic unfolding cell
          by (simp add: evbuffer_chain_insert_def run_simps rd1 emp fre del: victim_loop.simps)
        then show thesis
          by (rule fin [where e' = ?e]) (use True lf hp assms(3) sp(7) in \<open>auto simp: cell_of_def\<close>)
      next
        case False
        then obtain zs x d where us: "used cs = zs @ [(x, d)]" by (rule snoc_cases)
        have off: "off c = 0" using assms(8) Cons False by simp
        have seg: "chain_seg ?h (eb_first e) (used cs) ?q" using sp(5,6) by (rule seg_without)
        have x: "?h x = Some (d\<lparr>ch_next := ?q\<rparr>)" "0 < x" using seg us by (auto simp: chain_seg_append)
        have px: "p \<noteq> x" "x \<in> set (addrs cs)" using assms(5) sp(7) us by auto
        have cell: "cell_of b cs ?k = Next x" by (metis cell_of_append cell_of_snoc length_append_singleton order_refl takeWhile_dropWhile_id us)
        let ?e = "e\<lparr>eb_last := p, total_len := total_len e + off c\<rparr>"
        let ?s = "s\<lparr>ch_heap := ?h(x \<mapsto> d\<lparr>ch_next := p\<rparr>), ev_log := ?l, eb_heap := (eb_heap s)(b \<mapsto> ?e)\<rparr>"
        have "evbuffer_chain_insert b p s = Inr ((), ?s)"
          using h(1,2) tot assms(4) nz q hp px x rd2 vic unfolding cell
          by (simp add: evbuffer_chain_insert_def run_simps rd1 emp fre del: victim_loop.simps)
        then show thesis
        proof (rule fin [where e' = ?e])
          show "chain_seg (ch_heap ?s) (eb_first ?e) (used cs) p"
            using chain_seg_relink [of ?h "eb_first e" zs x d ?q p] seg sp(8) us by simp
          show "ch_heap ?s y = None" if "y \<in> ?X" for y using that sp(6) us by auto
        qed (use off px hp assms(3,5) sp(6,7) us in auto)
      qed
    qed
  qed
qed

end
