(* ===== verification/Evbuffer_Add.thy ===== *)
theory Evbuffer_Add
  imports Evbuffer_Insert
begin

unbundle bit_operations_syntax

text \<open>
  Adding at both ends of a buffer. \<open>becomes\<close> is the common shape of the results: the invariant holds for
  the new chains, the settings of the buffer are kept, and the memory is accounted for. Appending is
  only correct on a \<open>tight\<close> buffer, one without spare chains behind the data: \<^verbatim>\<open>evbuffer_add\<close> writes to
  \<^verbatim>\<open>buf->last\<close> and does not move \<^verbatim>\<open>last_with_datap\<close>.
\<close>

definition tight :: "(nat \<times> evbuffer_chain) list \<Rightarrow> bool" where
  "tight cs \<longleftrightarrow> spare cs = [] \<or> length cs = 1"

definition settings :: "evbuffer \<Rightarrow> bool \<times> bool \<times> evbuffer_cb_entry list" where
  "settings e = (freeze_start e, freeze_end e, callbacks e)"

definition becomes :: "evstate \<Rightarrow> nat \<Rightarrow> evbuffer \<Rightarrow> (nat \<times> evbuffer_chain) list \<Rightarrow> evstate \<Rightarrow> (nat \<times> evbuffer_chain) list \<Rightarrow> bool" where
  "becomes s b e cs s' cs' \<longleftrightarrow> (\<exists>e'. holds s' b e' cs' \<and> settings e' = settings e)
     \<and> evolves s s' {b} (set (addrs cs)) (set (addrs cs'))"

lemma tight_snoc: "tight (as @ [xc]) \<longleftrightarrow> (\<forall>a\<in>set as. has_data a) \<and> (as = [] \<or> has_data xc)"
  by (auto simp: tight_def dropWhile_append)

lemma holds_buf_less: "holds s b e cs \<Longrightarrow> wf_ev s \<Longrightarrow> b < ev_brk s"
  by (metis holds_simps(2) not_le option.distinct(1) wf_ev_def)

lemma holds_addrs_less: "holds s b e cs \<Longrightarrow> set (addrs cs) \<subseteq> {..<ev_brk s}"
  using holds_simps(5) by blast

lemma becomes_wf: "wf_ev s \<Longrightarrow> holds s b e cs \<Longrightarrow> becomes s b e cs s' cs' \<Longrightarrow> wf_ev s'"
  using evolves_wf holds_buf_less holds_addrs_less unfolding becomes_def by (metis empty_subsetI insert_subset lessThan_iff)

lemma becomes_trans:
  assumes "holds s1 b e1 cs1" "settings e1 = settings e" "evolves s s1 {b} (set (addrs cs)) (set (addrs cs1))"
    "becomes s1 b e1 cs1 s' cs'"
  shows "becomes s b e cs s' cs'"
  using assms evolves_trans unfolding becomes_def by metis

lemma becomes_refl: "wf_ev s \<Longrightarrow> holds s b e cs \<Longrightarrow> becomes s b e cs s cs"
  unfolding becomes_def using evolves_refl by blast

lemma holds_core:
  assumes "holds s b e cs" "same_core e e'"
  shows "holds (s\<lparr>eb_heap := (eb_heap s)(b \<mapsto> e'), ev_log := l\<rparr>) b e' cs"
  using assms by (simp add: holds_def same_core_def)

lemma invoke_holds:
  assumes "holds s b e cs" "wf_ev s"
  obtains s' e' where "evbuffer_invoke_callbacks b s = Inr ((), s')" "holds s' b e' cs" "settings e' = settings e"
    "\<forall>X. evolves s s' {b} X X"
proof -
  note h = holds_simps [OF assms(1)]
  obtain e' l where r: "evbuffer_invoke_callbacks b s = Inr ((), s\<lparr>eb_heap := (eb_heap s)(b \<mapsto> e'), ev_log := l\<rparr>)" "same_core e e'"
    using invoke_run [OF h(2,1)] by blast
  have "settings e' = settings e" using r(2) by (simp add: same_core_def settings_def)
  moreover have "evolves s (s\<lparr>eb_heap := (eb_heap s)(b \<mapsto> e'), ev_log := l\<rparr>) {b} X X" for X
    using assms(2) by (auto simp: evolves_def wf_ev_def)
  ultimately show thesis using that r holds_core [OF assms(1) r(2)] by blast
qed

text \<open>Replacing a chain by one that keeps its place among the chains with data.\<close>

lemma used_replace:
  assumes "has_data (x, c') = has_data (x, c) \<or> as = [] \<and> bs = []"
  shows "length (used (as @ (x, c') # bs)) - 1 = length (used (as @ (x, c) # bs)) - 1"
    "(\<forall>xc\<in>set (spare (as @ (x, c) # bs)). \<not> has_data xc) \<Longrightarrow> (\<forall>xc\<in>set (spare (as @ (x, c') # bs)). \<not> has_data xc)"
proof -
  consider (same) "has_data (x, c') = has_data (x, c)" | (single) "as = []" "bs = []" using assms by blast
  then show "length (used (as @ (x, c') # bs)) - 1 = length (used (as @ (x, c) # bs)) - 1"
  proof cases
    case same
    then have "length (used (as @ (x, c') # bs)) = length (used (as @ (x, c) # bs))" by (induction as) auto
    then show ?thesis by simp
  qed simp
  assume sp: "\<forall>xc\<in>set (spare (as @ (x, c) # bs)). \<not> has_data xc"
  from assms consider (same) "has_data (x, c') = has_data (x, c)" | (single) "as = []" "bs = []" by blast
  then show "\<forall>xc\<in>set (spare (as @ (x, c') # bs)). \<not> has_data xc"
  proof cases
    case same
    have eq: "spare (as @ (x, d) # bs)
        = (if spare as = [] then if has_data (x, d) then spare bs else (x, d) # bs else spare as @ (x, d) # bs)" for d
      by (induction as) auto
    show ?thesis
    proof (cases "spare as = []")
      case True
      then have "spare (as @ (x, d) # bs) = (if has_data (x, d) then spare bs else (x, d) # bs)" for d by (simp only: eq if_True refl)
      then show ?thesis using sp same by (cases "has_data (x, c)") (simp_all only: if_True if_False list.set(2) ball_simps(7) not_True_eq_False)
    next
      case False
      then have "spare (as @ (x, d) # bs) = spare as @ (x, d) # bs" for d by (simp only: eq if_False)
      then show ?thesis using sp same by (simp only: set_append list.set(2) ball_Un ball_simps(7) not_False_eq_True simp_thms) blast
    qed
  qed simp
qed

lemma cell_of_replace: "cell_of b (as @ (x, c') # bs) i = cell_of b (as @ (x, c) # bs) i"
  by (simp add: cell_of_def nth_append nth_Cons split: nat.split)

lemma holds_upd:
  assumes h: "holds s b e (as @ (x, c) # bs)"
    and s': "eb_heap s' b = Some e'" "ch_heap s' = (ch_heap s)(x \<mapsto> c'\<lparr>ch_next := head_addr bs 0\<rparr>)" "ev_brk s' = ev_brk s"
    and e': "eb_first e' = eb_first e" "eb_last e' = eb_last e" "last_with_datap e' = last_with_datap e"
    and c': "has_data (x, c') = has_data (x, c) \<or> as = [] \<and> bs = []" "chain_ok c'"
    and l: "total_len e' = length (content (as @ (x, c') # bs))" "total_len e' < 2 ^ 64"
  shows "holds s' b e' (as @ (x, c') # bs)"
  unfolding holds_def
proof (intro conjI)
  note h' = holds_simps [OF h]
  show "chain_seg (ch_heap s') (eb_first e') (as @ (x, c') # bs) 0"
    unfolding s'(2) e'(1) by (rule chain_seg_set [OF h'(3,4)])
  show "eb_last e' = last_addr (as @ (x, c') # bs)" using h'(6) e'(2) by (simp add: last_addr_def)
  show "last_with_datap e' = cell_of b (as @ (x, c') # bs) (length (used (as @ (x, c') # bs)) - 1)"
    using h'(7) e'(3) used_replace(1) [OF c'(1)] cell_of_replace by metis
  show "\<forall>xc\<in>set (spare (as @ (x, c') # bs)). \<not> has_data xc" by (rule used_replace(2) [OF c'(1) h'(8)])
  show "\<forall>xc\<in>set (as @ (x, c') # bs). chain_ok (snd xc)" using h'(9) c'(2) by auto
  show "b \<noteq> 0" "distinct (addrs (as @ (x, c') # bs))" "\<forall>y\<in>set (addrs (as @ (x, c') # bs)). y < ev_brk s'"
    using h'(1,4,5) s'(3) by simp_all
qed (fact s'(1) l)+

lemma chain_at:
  assumes "holds s b e (as @ (x, c) # bs)"
  shows "ch_heap s x = Some (c\<lparr>ch_next := head_addr bs 0\<rparr>)" "0 < x" "chain_ok c"
  using holds_simps(3,9) [OF assms] by (auto simp: chain_seg_append)

lemma count_added_run [run_simps]:
  "eb_heap s b = Some e \<Longrightarrow> b \<noteq> 0 \<Longrightarrow> count_added b n s = Inr ((), s\<lparr>eb_heap := (eb_heap s)(b \<mapsto>
     e\<lparr>total_len := sz_add (total_len e) n, n_add_for_cb := sz_add (n_add_for_cb e) n\<rparr>)\<rparr>)"
  by (simp add: count_added_def upd_buf_run)

lemma evolves_step:
  assumes "wf_ev s" "x \<in> X" "X \<subseteq> {..<ev_brk s}" "b \<in> B"
  shows "evolves s (s\<lparr>ch_heap := (ch_heap s)(x \<mapsto> c), eb_heap := (eb_heap s)(b \<mapsto> e)\<rparr>) B X X"
    "evolves s (s\<lparr>eb_heap := (eb_heap s)(b \<mapsto> e), ch_heap := (ch_heap s)(x \<mapsto> c)\<rparr>) B X X"
  by (rule evolvesI; use assms in auto)+

lemma stored_run:
  assumes h: "holds s b e (as @ (x, c) # bs)" "wf_ev s"
    and s1: "s1 = s\<lparr>ch_heap := (ch_heap s)(x \<mapsto> c'\<lparr>ch_next := head_addr bs 0\<rparr>)\<rparr>"
    and c': "has_data (x, c') = has_data (x, c) \<or> as = [] \<and> bs = []" "chain_ok c'" "off c' = off c + n"
    and l: "total_len e + n < 2 ^ 64"
  obtains s' where "bnd (count_added b n) (\<lambda>_. bnd (evbuffer_invoke_callbacks b) (\<lambda>_. ret (0 :: int))) s1 = Inr (0, s')"
    "becomes s b e (as @ (x, c) # bs) s' (as @ (x, c') # bs)"
proof -
  note h' = holds_simps [OF h(1)]
  let ?e = "e\<lparr>total_len := total_len e + n, n_add_for_cb := sz_add (n_add_for_cb e) n\<rparr>"
  let ?t = "s\<lparr>ch_heap := (ch_heap s)(x \<mapsto> c'\<lparr>ch_next := head_addr bs 0\<rparr>), eb_heap := (eb_heap s)(b \<mapsto> ?e)\<rparr>"
  have len: "length (content (as @ (x, c') # bs)) = total_len e + n" using h'(10) c'(3) by simp
  have t: "holds ?t b ?e (as @ (x, c') # bs)"
    by (rule holds_upd [OF h(1) _ _ _ _ _ _ c'(1,2)]) (use len l in simp_all)
  have st: "settings ?e = settings e" by (simp add: settings_def)
  have ev: "evolves s ?t {b} (set (addrs (as @ (x, c) # bs))) (set (addrs (as @ (x, c') # bs)))"
    using evolves_step(1) [OF h(2) _ holds_addrs_less [OF h(1)], of x b "{b}"] by simp
  have wf: "wf_ev ?t"
    using evolves_wf [OF h(2) ev] holds_addrs_less [OF t] holds_buf_less [OF h] by simp
  obtain s' e' where s': "evbuffer_invoke_callbacks b ?t = Inr ((), s')" "holds s' b e' (as @ (x, c') # bs)"
    "settings e' = settings ?e" "\<forall>X. evolves ?t s' {b} X X"
    using invoke_holds [OF t wf] .
  have "count_added b n s1 = Inr ((), ?t)" using h'(1,2) l by (simp add: count_added_run s1)
  then have "bnd (count_added b n) (\<lambda>_. bnd (evbuffer_invoke_callbacks b) (\<lambda>_. ret (0 :: int))) s1 = Inr (0, s')"
    using s'(1) by (simp add: bnd_def)
  moreover have "becomes s b e (as @ (x, c) # bs) s' (as @ (x, c') # bs)"
    by (rule becomes_trans [OF t st ev]) (use s'(2-4) in \<open>auto simp: becomes_def\<close>)
  ultimately show thesis by (rule that)
qed

section \<open>Appending\<close>

lemma chain_okD:
  assumes "chain_ok c"
  shows "misalign c + off c \<le> buffer_len c" "buffer_len c \<le> EVBUFFER_CHAIN_MAX - EVBUFFER_CHAIN_SIZE"
    "buffer_len c < 2 ^ 63" "misalign c \<le> EVBUFFER_CHAIN_MAX" "\<not> mutable c \<Longrightarrow> misalign c + off c = buffer_len c"
    "CHAIN_SPACE_LEN c = buffer_len c - (misalign c + off c)" "ch_flags c AND EVBUFFER_MEM_PINNED_ANY = 0"
  using assms by (auto simp: chain_ok_def EVBUFFER_CHAIN_MAX_def EVBUFFER_CHAIN_SIZE_def EV_SSIZE_MAX_def CHAIN_SPACE_LEN_def mutable_def)

lemma chain_ok_data:
  "chain_ok c \<Longrightarrow> mutable c \<Longrightarrow> m + n \<le> buffer_len c \<Longrightarrow> chain_ok (c\<lparr>misalign := m, off := n, ch_buffer := f\<rparr>)"
  by (simp add: chain_ok_def mutable_def)

lemma mutable_data [simp]: "mutable (c\<lparr>misalign := m, off := n, ch_buffer := f\<rparr>) = mutable c"
  by (simp add: mutable_def)

definition set_data :: "evbuffer_chain \<Rightarrow> nat \<Rightarrow> nat \<Rightarrow> (nat \<Rightarrow> u8) \<Rightarrow> evbuffer_chain" where
  "set_data c m n f = c\<lparr>misalign := m, off := n, ch_buffer := f\<rparr>"

lemma set_data_simps [simp]:
  "misalign (set_data c m n f) = m" "off (set_data c m n f) = n" "ch_buffer (set_data c m n f) = f"
  "buffer_len (set_data c m n f) = buffer_len c" "mutable (set_data c m n f) = mutable c"
  "(set_data c m n f)\<lparr>ch_next := x\<rparr> = set_data (c\<lparr>ch_next := x\<rparr>) m n f"
  by (simp_all add: set_data_def)

lemma set_data_id [simp]: "set_data c (misalign c) (off c) (ch_buffer c) = c" "set_data (set_data c m' n' f') m n f = set_data c m n f"
  by (simp_all add: set_data_def)

text \<open>Every write to a chain in terms of \<open>set_data\<close>.\<close>

lemma chain_writes:
  "c\<lparr>off := n\<rparr> = set_data c (misalign c) n (ch_buffer c)" "c\<lparr>misalign := m\<rparr> = set_data c m (off c) (ch_buffer c)"
  "c\<lparr>ch_buffer := f\<rparr> = set_data c (misalign c) (off c) f"
  by (simp_all add: set_data_def)

lemma set_data_ok: "chain_ok c \<Longrightarrow> mutable c \<Longrightarrow> m + n \<le> buffer_len c \<Longrightarrow> chain_ok (set_data c m n f)"
  by (simp add: set_data_def chain_ok_data)

lemma has_data_pair [simp]: "has_data (x, c) \<longleftrightarrow> 0 < off c"
  by (simp add: has_data_def)

definition appends :: "evstate \<Rightarrow> nat \<Rightarrow> evbuffer \<Rightarrow> (nat \<times> evbuffer_chain) list \<Rightarrow> u8 list \<Rightarrow> fault + int \<times> evstate \<Rightarrow> bool" where
  "appends s b e cs data r \<longleftrightarrow> (\<exists>s' cs'. r = Inr (0, s') \<and> becomes s b e cs s' cs' \<and> content cs' = content cs @ data
       \<and> (data \<noteq> [] \<longrightarrow> tight cs'))
     \<or> (\<exists>s' cs'. r = Inr (- 1, s') \<and> becomes s b e cs s' cs' \<and> content cs' = content cs \<and> tight cs' \<and> ((\<exists>n. ev_oom s n) \<or> EVBUFFER_CHAIN_MAX - EVBUFFER_CHAIN_SIZE < length data))"

lemma append_in_place:
  assumes h: "holds s b e (as @ [(x, c)])" "wf_ev s" "tight (as @ [(x, c)])" "mutable c" "total_len e + length data < 2 ^ 64"
    and c': "m + off c + length data \<le> buffer_len c" "slice f m (off c + length data) = chain_bytes c @ data"
    and r: "r = bnd (count_added b (length data)) (\<lambda>_. bnd (evbuffer_invoke_callbacks b) (\<lambda>_. ret (0 :: int)))
        (s\<lparr>ch_heap := (ch_heap s)(x \<mapsto> set_data (c\<lparr>ch_next := 0\<rparr>) m (off c + length data) f)\<rparr>)"
  shows "appends s b e (as @ [(x, c)]) data r"
proof -
  let ?c = "set_data c m (off c + length data) f"
  have ok: "chain_ok ?c" using chain_at(3) [of s b e as x c "[]"] h(1,4) c'(1) by (simp add: set_data_ok)
  have hd: "has_data (x, ?c) = has_data (x, c) \<or> as = []" using h(3) by (auto simp: tight_snoc)
  obtain s' where s': "r = Inr (0, s')" "becomes s b e (as @ [(x, c)]) s' (as @ [(x, ?c)])"
    using stored_run [OF h(1,2) refl _ ok] hd h(5) unfolding r by (auto simp: has_data_def)
  moreover have "content (as @ [(x, ?c)]) = content (as @ [(x, c)]) @ data" using c'(2) by (simp add: chain_bytes_def)
  moreover have "data \<noteq> [] \<Longrightarrow> tight (as @ [(x, ?c)])" using h(3) by (simp add: tight_snoc)
  ultimately show ?thesis unfolding appends_def by blast
qed

end
