(* ===== verification/Evbuffer_Append.thy ===== *)
theory Evbuffer_Append
  imports Evbuffer_Add
begin

unbundle bit_operations_syntax

text \<open>\<open>evbuffer_add\<close> appends its data, or changes nothing if no memory is available.\<close>

lemma settings_rest: "rest e' = rest e \<Longrightarrow> settings e' = settings e"
  using rest_fields [of e' e] by (simp add: settings_def)

lemma settings_counters [simp]:
  "settings (e\<lparr>n_add_for_cb := n\<rparr>) = settings e" "settings (e\<lparr>n_del_for_cb := n\<rparr>) = settings e"
  "settings (e\<lparr>total_len := n\<rparr>) = settings e" "settings (e\<lparr>eb_first := x\<rparr>) = settings e" "settings (e\<lparr>eb_last := x\<rparr>) = settings e"
  "settings (e\<lparr>last_with_datap := l\<rparr>) = settings e"
  by (simp_all add: settings_def)

lemma holds_counters:
  assumes "holds s b e cs"
  shows "holds (s\<lparr>eb_heap := (eb_heap s)(b \<mapsto> e\<lparr>n_add_for_cb := n\<rparr>)\<rparr>) b (e\<lparr>n_add_for_cb := n\<rparr>) cs"
    "holds (s\<lparr>eb_heap := (eb_heap s)(b \<mapsto> e\<lparr>n_del_for_cb := n\<rparr>)\<rparr>) b (e\<lparr>n_del_for_cb := n\<rparr>) cs"
  using assms by (simp_all add: holds_def)

lemma evolves_buf: "wf_ev s \<Longrightarrow> b \<in> B \<Longrightarrow> evolves s (s\<lparr>eb_heap := (eb_heap s)(b \<mapsto> e)\<rparr>) B X X"
  by (auto simp: evolves_def wf_ev_def)

lemma wf_ev_buf: "wf_ev s \<Longrightarrow> b < ev_brk s \<Longrightarrow> wf_ev (s\<lparr>eb_heap := (eb_heap s)(b \<mapsto> e)\<rparr>)"
  by (auto simp: wf_ev_def)

lemma wf_ev_chain: "wf_ev s \<Longrightarrow> p < ev_brk s \<Longrightarrow> wf_ev (s\<lparr>ch_heap := (ch_heap s)(p \<mapsto> c)\<rparr>)"
  by (auto simp: wf_ev_def)

lemma evolves_frame: "evolves s s' B X X' \<Longrightarrow> Y \<subseteq> {..<ev_brk s} \<Longrightarrow> evolves s s' B (X \<union> Y) (X' \<union> Y)"
  by (auto simp: evolves_def)

lemma linked_run:
  assumes h: "holds s b e cs" "wf_ev s" and p: "ch_heap s p = Some (d\<lparr>ch_next := 0\<rparr>)" "0 < p" "p \<notin> set (addrs cs)" "p < ev_brk s"
    "chain_ok d" and l: "spare cs = [] \<or> used cs = [] \<or> off d = 0" "length (content cs) + off d < 2 ^ 64"
  obtains s' e' where "bnd (evbuffer_chain_insert b p) (\<lambda>_. bnd (upd_buf b (\<lambda>e. e\<lparr>n_add_for_cb := sz_add (n_add_for_cb e) n\<rparr>))
      (\<lambda>_. bnd (evbuffer_invoke_callbacks b) (\<lambda>_. ret (0 :: int)))) s = Inr (0, s')"
    "holds s' b e' (used cs @ [(p, d)])" "settings e' = settings e"
    "evolves s s' {b} (insert p (set (addrs cs))) (set (addrs (used cs @ [(p, d)])))"
proof -
  obtain s1 e1 where s1: "evbuffer_chain_insert b p s = Inr ((), s1)" "holds s1 b e1 (used cs @ [(p, d)])"
    "evolves s s1 {b} (insert p (set (addrs cs))) (insert p (set (addrs (used cs))))" "rest e1 = rest e"
    using chain_insert_run [OF h p l] by metis
  let ?cs = "used cs @ [(p, d)]"
  have X: "insert p (set (addrs (used cs))) = set (addrs ?cs)" by simp
  let ?e = "e1\<lparr>n_add_for_cb := sz_add (n_add_for_cb e1) n\<rparr>" and ?s = "s1\<lparr>eb_heap := (eb_heap s1)(b \<mapsto> e1\<lparr>n_add_for_cb := sz_add (n_add_for_cb e1) n\<rparr>)\<rparr>"
  have wf1: "wf_ev s1" using evolves_wf [OF h(2) s1(3)] holds_addrs_less [OF s1(2)] holds_buf_less [OF h] by simp
  have wf2: "wf_ev ?s" by (rule wf_ev_buf [OF wf1 holds_buf_less [OF s1(2) wf1]])
  have h2: "holds ?s b ?e ?cs" by (rule holds_counters [OF s1(2)])
  obtain s' e' where s': "evbuffer_invoke_callbacks b ?s = Inr ((), s')" "holds s' b e' ?cs" "settings e' = settings ?e"
    "\<forall>X. evolves ?s s' {b} X X" using invoke_holds [OF h2 wf2] .
  have "evolves s1 s' {b} (set (addrs ?cs)) (set (addrs ?cs))"
    by (rule evolves_trans [OF evolves_buf [OF wf1]]) (use s'(4) in auto)
  then have "evolves s s' {b} (insert p (set (addrs cs))) (set (addrs ?cs))"
    by (rule evolves_trans [OF s1(3) [unfolded X]])
  moreover have "settings e' = settings e" using s'(3) settings_rest [OF s1(4)] by simp
  moreover have "upd_buf b (\<lambda>e. e\<lparr>n_add_for_cb := sz_add (n_add_for_cb e) n\<rparr>) s1 = Inr ((), ?s)"
    using holds_simps(1,2) [OF s1(2)] by (simp add: upd_buf_run)
  then have "bnd (evbuffer_chain_insert b p) (\<lambda>_. bnd (upd_buf b (\<lambda>e. e\<lparr>n_add_for_cb := sz_add (n_add_for_cb e) n\<rparr>))
      (\<lambda>_. bnd (evbuffer_invoke_callbacks b) (\<lambda>_. ret (0 :: int)))) s = Inr (0, s')"
    using s1(1) s'(1) by (simp add: bnd_def)
  ultimately show thesis using that s'(2) by blast
qed

lemma to_alloc_bounds:
  assumes "chain_ok c"
    and n: "n = (let t = (if buffer_len c \<le> EVBUFFER_CHAIN_MAX_AUTO_SIZE div 2 then 2 * buffer_len c else buffer_len c)
            in if k > t then k else t)"
  shows "k \<le> n" "n \<le> EVBUFFER_CHAIN_MAX - EVBUFFER_CHAIN_SIZE \<or> EVBUFFER_CHAIN_MAX - EVBUFFER_CHAIN_SIZE < k"
  using chain_okD(2) [OF assms(1)] n
  by (auto simp: Let_def EVBUFFER_CHAIN_MAX_AUTO_SIZE_def EVBUFFER_CHAIN_MAX_def EVBUFFER_CHAIN_SIZE_def EV_SSIZE_MAX_def split: if_splits)

lemma fill_run:
  assumes h: "holds s b e (as @ [(x, c)])" "wf_ev s" "tight (as @ [(x, c)])" "total_len e + length data < 2 ^ 64"
    and r: "remain = buffer_len c - (misalign c + off c)" "remain < length data \<or> remain = 0"
  obtains s' e' c1 where "fill_remaining b x (c\<lparr>ch_next := 0\<rparr>) remain data s = Inr ((), s')"
    "holds s' b e' (as @ [(x, c1)])" "settings e' = settings e" "tight (as @ [(x, c1)])"
    "content (as @ [(x, c1)]) = content (as @ [(x, c)]) @ take remain data"
    "evolves s s' {b} (set (addrs (as @ [(x, c)]))) (set (addrs (as @ [(x, c)])))"
    "\<forall>y. y \<notin> set (addrs (as @ [(x, c)])) \<longrightarrow> ch_heap s' y = ch_heap s y" "ev_brk s' = ev_brk s"
proof (cases "remain = 0")
  case True
  then show thesis using that [of s e c] h evolves_refl [OF h(2)] by (simp add: fill_remaining_def)
next
  case False
  note at = chain_at [of s b e as x c "[]", OF h(1)]
  note ok = chain_okD [OF at(3)]
  let ?c = "set_data c (misalign c) (off c + remain) (put (ch_buffer c) (misalign c + off c) (take remain data))"
  let ?e = "e\<lparr>total_len := total_len e + remain, n_add_for_cb := sz_add (n_add_for_cb e) remain\<rparr>"
  let ?s = "s\<lparr>ch_heap := (ch_heap s)(x \<mapsto> ?c\<lparr>ch_next := 0\<rparr>), eb_heap := (eb_heap s)(b \<mapsto> ?e)\<rparr>"
  have mut: "mutable c" using ok(5) r False by auto
  have rl: "length (take remain data) = remain" and lt: "total_len e + remain < 2 ^ 64" using r(2) h(4) False by auto
  have ok1: "chain_ok ?c" by (rule set_data_ok [OF at(3) mut]) (use r ok(1) in simp)
  have hd: "has_data (x, ?c) = has_data (x, c) \<or> as = [] \<and> [] = []" using h(3) False by (auto simp: tight_snoc)
  have len: "length (content (as @ [(x, ?c)])) = total_len e + remain" using holds_simps(10) [OF h(1)] by simp
  show thesis
  proof (rule that)
    show "fill_remaining b x (c\<lparr>ch_next := 0\<rparr>) remain data s = Inr ((), ?s)"
      using at r ok(1) holds_simps(1,2) [OF h(1)] lt rl False by (simp add: fill_remaining_def run_simps chain_writes)
    show "holds ?s b ?e (as @ [(x, ?c)])"
      by (rule holds_upd [OF h(1) _ _ _ _ _ _ hd ok1]) (use len lt in simp_all)
    show "evolves s ?s {b} (set (addrs (as @ [(x, c)]))) (set (addrs (as @ [(x, c)])))"
      by (rule evolves_step(1) [OF h(2) _ holds_addrs_less [OF h(1)]]) simp_all
    show "content (as @ [(x, ?c)]) = content (as @ [(x, c)]) @ take remain data"
      using slice_put_append [OF refl, of "ch_buffer c" "misalign c" "off c" "take remain data"] rl by (simp add: chain_bytes_def)
  qed (use h(3) False in \<open>simp_all add: tight_snoc\<close>)
qed

lemma new_chain_filled:
  assumes "new_chain n d" "length bs \<le> n"
  shows "chain_ok (set_data d 0 (length bs) (put f 0 bs))" "chain_bytes (set_data d 0 (length bs) (put f 0 bs)) = bs"
  using assms new_chain_ok [OF assms(1)] slice_put [of f 0 bs]
  by (auto simp: new_chain_def chain_bytes_def intro!: set_data_ok)

lemma set_data_next: "new_chain n d \<Longrightarrow> d\<lparr>ch_next := 0\<rparr> = d"
  by (simp add: new_chain_def)

lemma add_chain_run:
  assumes h: "holds s b e (as @ [(x, c)])" "wf_ev s" "tight (as @ [(x, c)])" "total_len e + length data < 2 ^ 64"
    and r: "remain = buffer_len c - (misalign c + off c)" "remain < length data \<or> remain = 0"
  shows "appends s b e (as @ [(x, c)]) data (add_chain_for b x (c\<lparr>ch_next := 0\<rparr>) remain data s)"
proof -
  let ?cs = "as @ [(x, c)]"
  define n where "n = (let t = (if buffer_len c \<le> EVBUFFER_CHAIN_MAX_AUTO_SIZE div 2 then 2 * buffer_len c else buffer_len c)
            in if length data > t then length data else t)"
  note at = chain_at [of s b e as x c "[]", OF h(1)]
  note nb = to_alloc_bounds [OF at(3) n_def]
  have run: "add_chain_for b x (c\<lparr>ch_next := 0\<rparr>) remain data s = bnd (evbuffer_chain_new n) (\<lambda>tmp.
     if tmp = 0 then ret (- 1)
     else
       bnd (fill_remaining b x (c\<lparr>ch_next := 0\<rparr>) remain data) (\<lambda>_.
       bnd (st_bytes tmp 0 (drop remain data)) (\<lambda>_.
       bnd (upd_chain tmp (\<lambda>c. c\<lparr>off := length data - remain\<rparr>)) (\<lambda>_.
       bnd (evbuffer_chain_insert b tmp) (\<lambda>_.
       bnd (upd_buf b (\<lambda>e. e\<lparr>n_add_for_cb := sz_add (n_add_for_cb e) (length data - remain)\<rparr>)) (\<lambda>_.
       bnd (evbuffer_invoke_callbacks b) (\<lambda>_. ret 0))))))) s"
    unfolding add_chain_for_def n_def Let_def by simp
  show ?thesis
  proof (cases rule: chain_new_cases [of n s])
    case (fail s')
    have "(\<exists>k. ev_oom s k) \<or> EVBUFFER_CHAIN_MAX - EVBUFFER_CHAIN_SIZE < length data" using fail(2) nb(2) by (auto simp: room_def)
    moreover have "becomes s b e ?cs s' ?cs"
      using evolves_fail [OF fail(3) h(2)] h(1) unfolding becomes_def by blast
    ultimately show ?thesis unfolding appends_def run using fail(1) h(3) by (auto simp: bnd_def)
  next
    case (new d)
    let ?p = "ev_brk s"
    let ?s1 = "s\<lparr>ev_brk := Suc ?p, ch_heap := (ch_heap s)(?p \<mapsto> d)\<rparr>"
    let ?d = "set_data d 0 (length data - remain) (put (ch_buffer d) 0 (drop remain data))"
    have p0: "0 < ?p" using h(2) by (simp add: wf_ev_def)
    note h1 = holds_new(1) [OF h(1), of d] holds_new(2) [OF h(1)] and ev1 = evolves_new [OF h(2), of d]
    have dok: "chain_ok ?d" "chain_bytes ?d = drop remain data" "length (drop remain data) \<le> buffer_len d" "misalign d = 0"
      using new_chain_filled [OF new(3), of "drop remain data"] nb(1) new(3) by (auto simp: new_chain_def)
    have d0: "?d\<lparr>ch_next := 0\<rparr> = ?d" by (simp only: set_data_simps set_data_next [OF new(3)])
    obtain s2 e2 c1 where s2: "fill_remaining b x (c\<lparr>ch_next := 0\<rparr>) remain data ?s1 = Inr ((), s2)" "holds s2 b e2 (as @ [(x, c1)])"
      "settings e2 = settings e" "tight (as @ [(x, c1)])" "content (as @ [(x, c1)]) = content ?cs @ take remain data"
      "evolves ?s1 s2 {b} (set (addrs ?cs)) (set (addrs ?cs))" "\<forall>y. y \<notin> set (addrs ?cs) \<longrightarrow> ch_heap s2 y = ch_heap ?s1 y"
      "ev_brk s2 = ev_brk ?s1"
      using fill_run [OF h1(1) ev1(2) h(3,4) r] .
    let ?s3 = "s2\<lparr>ch_heap := (ch_heap s2)(?p \<mapsto> ?d)\<rparr>" and ?cs1 = "as @ [(x, c1)]"
    have p2: "ch_heap s2 ?p = Some d" using s2(7) h1(2) by simp
    have h3: "holds ?s3 b e2 ?cs1" by (rule holds_other [OF s2(2)]) (use h1(2) in auto)
    have wf2: "wf_ev s2"
      using evolves_wf [OF ev1(2) s2(6)] holds_addrs_less [OF s2(2)] holds_buf_less [OF h(1,2)] by simp
    then have wf3: "wf_ev ?s3" using s2(8) by (simp add: wf_ev_chain)
    have lim: "length (content ?cs1) + off ?d < 2 ^ 64" using s2(5) h(4) r(2) holds_simps(10) [OF h(1)] by auto
    obtain s' e' where s': "bnd (evbuffer_chain_insert b ?p) (\<lambda>_. bnd (upd_buf b (\<lambda>e. e\<lparr>n_add_for_cb := sz_add (n_add_for_cb e) (length data - remain)\<rparr>))
        (\<lambda>_. bnd (evbuffer_invoke_callbacks b) (\<lambda>_. ret (0 :: int)))) ?s3 = Inr (0, s')"
      "holds s' b e' (used ?cs1 @ [(?p, ?d)])" "settings e' = settings e2"
      "evolves ?s3 s' {b} (insert ?p (set (addrs ?cs1))) (set (addrs (used ?cs1 @ [(?p, ?d)])))"
      by (rule linked_run [OF h3 wf3 _ p0 _ _ dok(1) _ lim]) (use d0 h1(2) s2(4,8) in \<open>auto simp: tight_def length_Suc_conv\<close>)
    have "add_chain_for b x (c\<lparr>ch_next := 0\<rparr>) remain data s = Inr (0, s')"
      using new(1) s2(1) p2 p0 dok(3,4) s'(1) unfolding run by (simp add: run_simps chain_writes)
    moreover have "evolves s s' {b} (set (addrs ?cs)) (set (addrs (used ?cs1 @ [(?p, ?d)])))"
    proof -
      let ?X = "set (addrs ?cs)"
      have "evolves ?s1 s2 {b} (?X \<union> {?p}) (?X \<union> {?p})" by (rule evolves_frame [OF s2(6)]) simp
      then have "evolves s s2 {b} ?X (?X \<union> {?p})" using evolves_trans [OF ev1(1)] by simp
      moreover have "evolves s2 ?s3 {b} (?X \<union> {?p}) (?X \<union> {?p})"
        by (rule evolvesI [OF wf2]) (use holds_addrs_less [OF h1(1)] s2(8) in auto)
      moreover have "evolves ?s3 s' {b} (?X \<union> {?p}) (set (addrs (used ?cs1 @ [(?p, ?d)])))" using s'(4) by simp
      ultimately show ?thesis using evolves_trans by blast
    qed
    moreover have "content (used ?cs1 @ [(?p, ?d)]) = content ?cs @ data"
      using holds_content [OF h3] s2(5) dok(2) by simp
    moreover have "data \<noteq> [] \<Longrightarrow> tight (used ?cs1 @ [(?p, ?d)])"
      using used_all r(2) by (auto simp: tight_snoc)
    ultimately show ?thesis unfolding appends_def becomes_def using s'(2,3) s2(3) by metis
  qed
qed

lemma realign_run:
  assumes "ch_heap s x = Some c" "0 < x" "chain_ok c" "mutable c"
  shows "evbuffer_chain_align x s
    = Inr ((), s\<lparr>ch_heap := (ch_heap s)(x \<mapsto> set_data c 0 (off c) (put (ch_buffer c) 0 (chain_bytes c)))\<rparr>)"
  using assms chain_okD [OF assms(3)]
  by (simp add: evbuffer_chain_align_def run_simps chain_writes mutable_def chain_bytes_def)

lemma add_to_chain_run:
  assumes h: "holds s b e (as @ [(x, c)])" "wf_ev s" "tight (as @ [(x, c)])" "total_len e + length data < 2 ^ 64"
  shows "appends s b e (as @ [(x, c)]) data (add_to_chain b x data s)"
proof -
  note at = chain_at [of s b e as x c "[]", OF h(1)]
  note ok = chain_okD [OF at(3)]
  let ?c = "c\<lparr>ch_next := 0\<rparr>" and ?r = "buffer_len c - (misalign c + off c)"
  have rem: "sz_sub (sz_sub (buffer_len c) (misalign c)) (off c) = ?r" using ok(1,3) by simp
  have ld: "ch_heap s x = Some ?c" "x \<noteq> 0" using at by simp_all
  note run = add_to_chain_def [of b x data, THEN fun_cong [of _ _ s]] run_bnd_simps(1) [OF ld]
  show ?thesis
  proof (cases "mutable c")
    case False
    then have "?r = 0" using ok(5) by simp
    then show ?thesis using add_chain_run [OF h refl] False by (simp add: run mutable_def)
  next
    case mut: True
    then have m: "ch_flags c AND EVBUFFER_IMMUTABLE = 0" by (simp add: mutable_def)
    consider (fits) "length data \<le> ?r" | (realign) "?r < length data" "evbuffer_chain_should_realign c (length data)"
      | (new) "?r < length data" "\<not> evbuffer_chain_should_realign c (length data)" by linarith
    then show ?thesis
    proof cases
      case fits
      show ?thesis
        by (rule append_in_place [OF h(1-3) mut h(4), where m = "misalign c"])
          (use fits ok(1) ld m rem slice_put_append [OF refl, of "ch_buffer c" "misalign c" "off c" data] ok(4)
            in \<open>simp_all add: run run_simps chain_writes chain_bytes_def\<close>)
    next
      case realign
      have sp: "off c + length data \<le> buffer_len c" using realign(2) ok(1,3) by (simp add: evbuffer_chain_should_realign_def) linarith
      have al: "evbuffer_chain_align x s
          = Inr ((), s\<lparr>ch_heap := (ch_heap s)(x \<mapsto> set_data ?c 0 (off c) (put (ch_buffer c) 0 (chain_bytes c)))\<rparr>)"
        using realign_run [OF ld(1)] at mut by simp
      let ?f = "put (put (ch_buffer c) 0 (chain_bytes c)) (off c) data"
      have "slice ?f 0 (off c + length data) = chain_bytes c @ data"
        using slice_put_append [of 0 "off c" "off c" "put (ch_buffer c) 0 (chain_bytes c)" data]
          slice_put [of "ch_buffer c" 0 "chain_bytes c"] by simp
      then show ?thesis
        by (rule append_in_place [OF h(1-3) mut h(4), where m = 0 and f = ?f, rotated])
          (use realign sp ld m rem chain_ok_flags [OF at(3)] al ok(4) in \<open>simp_all add: run run_simps chain_writes\<close>)
    next
      case new
      then show ?thesis using add_chain_run [OF h refl] m ok(4) rem by (simp add: run)
    qed
  qed
qed

lemma insert_empty_run:
  assumes "holds s b e cs" "wf_ev s"
  obtains (fail) s' where "evbuffer_chain_insert_new b n s = Inr (0, s')" "\<not> room n s" "becomes s b e cs s' cs"
  | (new) s' p c where "evbuffer_chain_insert_new b n s = Inr (p, s')" "0 < p" "becomes s b e cs s' (used cs @ [(p, c)])" "new_chain n c"
proof (cases rule: chain_new_cases [of n s])
  case (fail s')
  have "becomes s b e cs s' cs" using evolves_fail [OF fail(3) assms(2)] assms(1) unfolding becomes_def by blast
  moreover have "evbuffer_chain_insert_new b n s = Inr (0, s')" using fail(1) by (simp add: evbuffer_chain_insert_new_def bnd_def)
  ultimately show thesis using that(1) fail(2) by blast
next
  case (new c)
  let ?p = "ev_brk s" and ?s = "s\<lparr>ev_brk := Suc (ev_brk s), ch_heap := (ch_heap s)(ev_brk s \<mapsto> c)\<rparr>"
  note n = holds_new [OF assms(1)] and wf = evolves_new(2) [OF assms(2), of c]
  have c: "c\<lparr>ch_next := 0\<rparr> = c" "off c = 0" "chain_ok c"
    using set_data_next [OF new(3)] new(3) new_chain_ok(1) [OF new(3)] by (simp_all add: new_chain_def)
  have p: "0 < ?p" using assms(2) by (simp add: wf_ev_def)
  obtain s' e' where r: "evbuffer_chain_insert b ?p ?s = Inr ((), s')" "holds s' b e' (used cs @ [(?p, c)])"
    "evolves ?s s' {b} (insert ?p (set (addrs cs))) (insert ?p (set (addrs (used cs))))" "rest e' = rest e"
    by (rule chain_insert_run [OF n(1) wf, of ?p c]) (use n(2) c p holds_simps(11) [OF assms(1)] in auto)
  have "evolves s ?s {b} (set (addrs cs)) (insert ?p (set (addrs cs)))"
    using assms(2) holds_addrs_less [OF assms(1)] by (auto simp: evolves_def wf_ev_def)
  then have "evolves s s' {b} (set (addrs cs)) (set (addrs (used cs @ [(?p, c)])))" using evolves_trans [OF _ r(3)] by simp
  moreover have "settings e' = settings e" using rest_fields [OF r(4)] by (simp add: settings_def)
  ultimately have "becomes s b e cs s' (used cs @ [(?p, c)])" using r(2) unfolding becomes_def by blast
  moreover have "evbuffer_chain_insert_new b n s = Inr (?p, s')"
    using new(1) r(1) p by (simp add: evbuffer_chain_insert_new_def bnd_def)
  ultimately show thesis using that(2) p new(3) by blast
qed

lemma insert_new_run:
  assumes "holds s b e []" "wf_ev s"
  obtains (fail) s' where "evbuffer_chain_insert_new b n s = Inr (0, s')" "\<not> room n s" "becomes s b e [] s' []"
  | (new) s' e' p c where "evbuffer_chain_insert_new b n s = Inr (p, s')" "0 < p" "holds s' b e' [(p, c)]" "settings e' = settings e"
      "evolves s s' {b} {} {p}" "new_chain n c" "wf_ev s'"
proof (cases rule: insert_empty_run [OF assms, of n])
  case (1 s')
  then show thesis by (rule fail)
next
  case (2 s' p c)
  then show thesis using new becomes_wf [OF assms(2,1) 2(3)] unfolding becomes_def by auto
qed

lemma appends_later:
  assumes "appends s1 b e1 cs1 data r" "settings e1 = settings e" "evolves s s1 {b} (set (addrs cs)) (set (addrs cs1))"
    "holds s1 b e1 cs1" "content cs1 = content cs"
  shows "appends s b e cs data r"
proof -
  have "ev_oom s1 = ev_oom s" using assms(3) by (simp add: evolves_def)
  then show ?thesis using assms(1,5) becomes_trans [OF assms(4,2,3)] unfolding appends_def by fastforce
qed

theorem evbuffer_add_run:
  assumes h: "holds s b e cs" "wf_ev s" "tight cs" "\<not> freeze_end e" "total_len e + length data < 2 ^ 64"
  shows "appends s b e cs data (evbuffer_add b data s)"
proof -
  note hs = holds_simps [OF h(1)]
  have lim: "\<not> EV_SIZE_MAX - total_len e < length data" using h(5) by (simp add: EV_SIZE_MAX_def)
  show ?thesis
  proof (cases "cs = []")
    case False
    then obtain as x c where cs: "cs = as @ [(x, c)]" by (rule snoc_cases)
    have "eb_last e = x" "0 < x" using hs(6) chain_at [of s b e as x c "[]"] h(1) cs by (simp_all add: last_addr_def)
    then have "evbuffer_add b data s = add_to_chain b x data s"
      using hs(1,2) h(4) lim by (simp add: evbuffer_add_def run_bnd_simps)
    then show ?thesis using add_to_chain_run h cs by simp
  next
    case True
    then have l: "eb_last e = 0" "holds s b e []" using hs(6) h(1) by (simp_all add: last_addr_def)
    have run: "evbuffer_add b data s = bnd (evbuffer_chain_insert_new b (length data)) (\<lambda>chain.
       if chain = 0 then ret (- 1) else add_to_chain b chain data) s"
      using hs(1,2) h(4) lim l by (simp add: evbuffer_add_def run_bnd_simps)
    show ?thesis
    proof (cases rule: insert_new_run [OF l(2) h(2), of "length data"])
      case (1 s')
      then show ?thesis using True unfolding run by (auto simp: appends_def bnd_def room_def tight_def)
    next
      case (2 s' e' p c)
      have tl: "total_len e' + length data < 2 ^ 64"
        using holds_simps(10) [OF 2(3)] h(5) 2(6) by (simp add: new_chain_def)
      have "appends s' b e' [(p, c)] data (add_to_chain b p data s')"
        using add_to_chain_run [of s' b e' "[]" p c data] 2(3,7) tl by (simp add: tight_def)
      moreover have "evolves s s' {b} (set (addrs cs)) (set (addrs [(p, c)]))" "content [(p, c)] = content cs"
        using 2(5,6) True by (simp_all add: new_chain_def chain_bytes_def)
      ultimately have "appends s b e cs data (add_to_chain b p data s')" using appends_later 2(3,4) by blast
      moreover have "evbuffer_add b data s = add_to_chain b p data s'" using 2(1,2) unfolding run by (simp add: bnd_def)
      ultimately show ?thesis by simp
    qed
  qed
qed

end
