(* ===== verification/Evbuffer_Drain.thy ===== *)
theory Evbuffer_Drain
  imports Evbuffer_Append
begin

unbundle bit_operations_syntax

text \<open>\<open>evbuffer_copyout\<close>, \<open>evbuffer_drain\<close> and \<open>evbuffer_remove\<close> take bytes from the front.\<close>

text \<open>A fixed order of updates of the state.\<close>

lemma ev_order:
  "s\<lparr>eb_heap := x, ch_heap := y\<rparr> = s\<lparr>ch_heap := y, eb_heap := x\<rparr>" "s\<lparr>ev_log := l, ch_heap := y\<rparr> = s\<lparr>ch_heap := y, ev_log := l\<rparr>"
  "s\<lparr>ev_log := l, eb_heap := x\<rparr> = s\<lparr>eb_heap := x, ev_log := l\<rparr>"
  by simp_all

lemma chain_seg_fun_upd: "x \<notin> set (addrs cs) \<Longrightarrow> chain_seg (h(x := v)) p cs q = chain_seg h p cs q"
  by (rule chain_seg_cong) auto

section \<open>Copying out\<close>

lemma chain_seg_Cons:
  assumes "chain_seg h p (xc # cs) q"
  shows "p = fst xc" "0 < p" "h p = Some (snd xc\<lparr>ch_next := head_addr cs q\<rparr>)" "chain_seg h (head_addr cs q) cs q"
  using assms by (cases xc; simp)+

lemma copyout_loop_run:
  assumes "chain_seg (ch_heap s) p cs 0" "\<forall>xc\<in>set cs. chain_ok (snd xc)" "n \<le> length (content cs)" "length cs < f"
  shows "copyout_loop f p n acc s = Inr (acc @ take n (content cs), s)"
  using assms
proof (induction cs arbitrary: f p n acc)
  case Nil
  then show ?case by (cases f) auto
next
  case (Cons xc cs)
  obtain g where f: "f = Suc g" using Cons.prems(4) by (cases f) auto
  note x = chain_seg_Cons [OF Cons.prems(1)]
  have ok: "misalign (snd xc) + off (snd xc) \<le> buffer_len (snd xc)" using Cons.prems(2) by (simp add: chain_ok_def)
  let ?c = "snd xc"
  consider (none) "n = 0" | (part) "0 < n" "n < off ?c" | (whole) "0 < n" "off ?c \<le> n" by linarith
  then show ?case
  proof cases
    case part
    then have "ld_bytes p (misalign ?c) n s = Inr (take n (chain_bytes ?c), s)"
      using x(2,3) ok by (simp add: ld_bytes_run chain_bytes_def)
    then show ?thesis using f x(2,3) part by (simp add: run_bnd_simps bnd_Inr)
  next
    case whole
    have nz: "head_addr cs 0 \<noteq> 0 \<or> n - off ?c = 0"
    proof (cases cs)
      case (Cons a list)
      then show ?thesis using chain_seg_Cons(2) [OF x(4) [unfolded Cons]] by simp
    qed (use whole Cons.prems(3) in simp)
    have "copyout_loop g (head_addr cs 0) (n - off ?c) (acc @ chain_bytes ?c) s = Inr ((acc @ chain_bytes ?c) @ take (n - off ?c) (content cs), s)"
      by (rule Cons.IH [OF x(4)]) (use Cons.prems f in auto)
    moreover have "ld_bytes p (misalign ?c) (off ?c) s = Inr (chain_bytes ?c, s)"
      using x(2,3) ok by (simp add: ld_bytes_run chain_bytes_def)
    ultimately show ?thesis using f x(2,3) nz whole by (simp add: run_bnd_simps bnd_Inr)
  qed (use f in simp)
qed

lemma copyout_run:
  assumes "holds s b e cs"
  shows "evbuffer_copyout b n s = Inr (if content cs = [] \<or> n = 0 then Some [] else if freeze_start e then None else Some (take n (content cs)), s)"
proof -
  note h = holds_simps [OF assms]
  define m where "m = (if n \<ge> total_len e then total_len e else n)"
  have m: "m \<le> length (content cs)" "m = 0 \<longleftrightarrow> content cs = [] \<or> n = 0" "take m (content cs) = take n (content cs)"
    using h(10) by (auto simp: m_def)
  have "copyout_loop (Suc (ev_brk s)) (eb_first e) m [] s = Inr (take m (content cs), s)"
    using copyout_loop_run [OF h(3,9) m(1) holds_fuel [OF assms]] by simp
  then have "bnd (with_brk (\<lambda>n. copyout_loop n (eb_first e) m [])) (\<lambda>data. ret (Some data)) s = Inr (Some (take m (content cs)), s)"
    by (simp add: with_brk_def bnd_def del: copyout_loop.simps)
  moreover have "evbuffer_copyout b n s = (if m = 0 then ret (Some []) else if freeze_start e then ret None
      else bnd (with_brk (\<lambda>n. copyout_loop n (eb_first e) m [])) (\<lambda>data. ret (Some data))) s"
    using h(1,2) by (simp add: evbuffer_copyout_def run_bnd_simps m_def Let_def)
  ultimately show ?thesis using m(2,3) by simp
qed

section \<open>Draining\<close>

lemma chain_ok_shift: "chain_ok c \<Longrightarrow> r \<le> off c \<Longrightarrow> chain_ok (set_data c (misalign c + r) (off c - r) (ch_buffer c))"
  by (auto simp: chain_ok_def set_data_def mutable_def)

lemma chain_bytes_shift: "r \<le> off c \<Longrightarrow> chain_bytes (set_data c (misalign c + r) (off c - r) (ch_buffer c)) = drop r (chain_bytes c)"
  by (simp add: chain_bytes_def)

lemma drain_loop_run:
  assumes "chain_seg (ch_heap s) p ds 0" "distinct (addrs ds)" "\<forall>xc\<in>set ds. chain_ok (snd xc)" "eb_heap s b = Some e" "0 < b"
    "last_with_datap e = cell_of b ds k" "k < length ds" "content (drop (Suc k) ds) = []" "n < length (content ds)" "length ds < f"
  shows "\<exists>as x c bs. ds = as @ (x, c) # bs \<and> length (content as) \<le> n \<and> n - length (content as) < off c \<and> length as \<le> k
    \<and> drain_loop f b p n s = Inr ((x, n - length (content as)), s\<lparr>ch_heap := without (ch_heap s) (set (addrs as)),
        eb_heap := (eb_heap s)(b \<mapsto> e\<lparr>last_with_datap := cell_of b ((x, c) # bs) (k - length as)\<rparr>), ev_log := ev_log s @ cleanups as\<rparr>)"
  using assms
proof (induction ds arbitrary: s p e k n f)
  case (Cons xc ds)
  obtain x c where xc: "xc = (x, c)" by (cases xc)
  obtain g where f: "f = Suc g" using Cons.prems(10) by (cases f) auto
  note x = chain_seg_Cons [OF Cons.prems(1), unfolded xc fst_conv snd_conv]
  have ok: "chain_ok c" using Cons.prems(3) xc by simp
  show ?case
  proof (cases "n < off c")
    case True
    have "drain_loop f b p n s = Inr ((x, n), s)" using f x True by (simp add: run_bnd_simps)
    moreover have "s\<lparr>eb_heap := (eb_heap s)(b \<mapsto> e\<lparr>last_with_datap := cell_of b (xc # ds) k\<rparr>)\<rparr> = s"
      using Cons.prems(4) by (simp add: fun_upd_idem flip: Cons.prems(6))
    ultimately show ?thesis
      by (intro exI [of "\<lambda>as. \<exists>x c bs. P as x c bs" "[]" for P] exI [of "\<lambda>x. \<exists>c bs. P x c bs" x for P] exI [of _ c] exI [of _ ds])
        (use True xc in \<open>simp add: fun_upd_def\<close>)
  next
    case False
    have "k \<noteq> 0" using Cons.prems(8,9) False xc by (cases k) auto
    then obtain j where j: "k = Suc j" by (cases k) auto
    then have jl: "j < length ds" using Cons.prems(7) by simp
    let ?l = "cell_of b ds j" and ?c = "c\<lparr>ch_next := head_addr ds 0\<rparr>"
    let ?e = "e\<lparr>last_with_datap := ?l\<rparr>"
    let ?s = "s\<lparr>ch_heap := (ch_heap s)(x := None), eb_heap := (eb_heap s)(b \<mapsto> ?e), ev_log := ev_log s @ cleanup_calls c\<rparr>"
    have step: "drain_loop f b p n s = drain_loop g b (head_addr ds 0) (n - off c) ?s"
    proof -
      have lw: "last_with_datap e = Next (fst ((xc # ds) ! j))" using Cons.prems(6) j by (simp add: cell_of_def)
      have rd: "rd_cell (last_with_datap e) s = Inr (fst (ds ! j), s)"
        using chain_seg_nth [OF Cons.prems(1), of j] jl drop_nth_Cons [OF jl] unfolding lw by (simp add: run_bnd_simps)
      have xj: "x \<noteq> fst (ds ! j)" using Cons.prems(2) xc jl by auto
      have "(if Next x = last_with_datap e then e\<lparr>last_with_datap := First b\<rparr> else e) = ?e"
      proof (cases j)
        case (Suc i)
        then have "x \<noteq> fst (ds ! i)" "last_with_datap e = ?l" using Cons.prems(2) xc jl lw by (auto simp: cell_of_def)
        then show ?thesis using lw Suc by (auto simp: cell_of_def)
      qed (use lw xc in \<open>simp add: cell_of_def\<close>)
      then show ?thesis
        using f x False rd xj Cons.prems(4,5) chain_ok_flags [OF ok] chain_free_run [of ?c _ x] ok
        by (simp add: run_simps ev_order)
    qed
    have seg: "chain_seg (ch_heap ?s) (head_addr ds 0) ds 0"
      using x(4) chain_seg_fun_upd [of x ds "ch_heap s" None] Cons.prems(2) xc by simp
    have pre: "distinct (addrs ds)" "\<forall>xc\<in>set ds. chain_ok (snd xc)" "content (drop (Suc j) ds) = []"
      "n - off c < length (content ds)" "length ds < g"
      using Cons.prems(2,3,8-10) xc j f False by auto
    have e1: "eb_heap ?s b = Some ?e" "last_with_datap ?e = ?l" by simp_all
    obtain as y d bs where r: "ds = as @ (y, d) # bs" "length (content as) \<le> n - off c" "n - off c - length (content as) < off d" "length as \<le> j"
      "drain_loop g b (head_addr ds 0) (n - off c) ?s = Inr ((y, n - off c - length (content as)), ?s\<lparr>ch_heap := without (ch_heap ?s) (set (addrs as)),
        eb_heap := (eb_heap ?s)(b \<mapsto> ?e\<lparr>last_with_datap := cell_of b ((y, d) # bs) (j - length as)\<rparr>), ev_log := ev_log ?s @ cleanups as\<rparr>)"
      using Cons.IH [OF seg pre(1,2) e1(1) Cons.prems(5) e1(2) jl pre(3-5)] by blast
    have "without (ch_heap ?s) (set (addrs as)) = without (ch_heap s) (set (addrs (xc # as)))" by (auto simp: without_def xc)
    then have "drain_loop f b p n s = Inr ((y, n - length (content (xc # as))), s\<lparr>ch_heap := without (ch_heap s) (set (addrs (xc # as))),
        eb_heap := (eb_heap s)(b \<mapsto> e\<lparr>last_with_datap := cell_of b ((y, d) # bs) (k - length (xc # as))\<rparr>), ev_log := ev_log s @ cleanups (xc # as)\<rparr>)"
      using r(5) j xc unfolding step by simp
    moreover have "xc # ds = (xc # as) @ (y, d) # bs" "length (content (xc # as)) \<le> n" "n - length (content (xc # as)) < off d"
      "length (xc # as) \<le> k" using r(1-4) False j xc by simp_all
    ultimately show ?thesis by blast
  qed
qed simp

lemma zero_chain_run:
  assumes "holds s b e cs" "wf_ev s"
  obtains s' e' where "drain_all b e s = Inr (total_len e, s')" "holds s' b e' []" "settings e' = settings e" "evolves s s' {b} (set (addrs cs)) {}"
proof -
  note h = holds_simps [OF assms(1)]
  let ?e = "e\<lparr>eb_first := 0, eb_last := 0, last_with_datap := First b, total_len := 0\<rparr>"
  let ?s = "s\<lparr>ch_heap := without (ch_heap s) (set (addrs cs)), ev_log := ev_log s @ cleanups cs, eb_heap := (eb_heap s)(b \<mapsto> ?e)\<rparr>"
  have fr: "free_chains_loop (Suc (ev_brk s)) (eb_first e) s
      = Inr ((), s\<lparr>ch_heap := without (ch_heap s) (set (addrs cs)), ev_log := ev_log s @ cleanups cs\<rparr>)"
    by (rule free_chains_run [OF h(3,4,9) holds_fuel [OF assms(1)]])
  show thesis
  proof (rule that)
    show "drain_all b e s = Inr (total_len e, ?s)"
      using h(1,2) by (simp add: drain_all_def ZERO_CHAIN_def run_simps fr del: free_chains_loop.simps)
    show "holds ?s b ?e []" using h(1) by (simp add: holds_def last_addr_def cell_of_def)
    show "evolves s ?s {b} (set (addrs cs)) {}"
      by (rule evolvesI [OF assms(2)]) (use holds_addrs_less [OF assms(1)] in auto)
  qed simp
qed

lemma used_drop_prefix: "length as < length (used (as @ bs)) \<Longrightarrow> length (used (as @ bs)) = length as + length (used bs)"
  by (induction as) (auto split: if_splits)

lemma spare_drop_prefix: "length as < length (used (as @ bs)) \<Longrightarrow> spare (as @ bs) = spare bs"
  by (induction as) (auto split: if_splits)

definition drains :: "evstate \<Rightarrow> nat \<Rightarrow> evbuffer \<Rightarrow> (nat \<times> evbuffer_chain) list \<Rightarrow> nat \<Rightarrow> fault + int \<times> evstate \<Rightarrow> bool" where
  "drains s b e cs n r \<longleftrightarrow> (\<exists>s' cs'. r = Inr (0, s') \<and> becomes s b e cs s' cs' \<and> content cs' = drop n (content cs)
     \<and> (tight cs \<longrightarrow> tight cs'))"

lemma has_pinned_run:
  assumes "holds s b e cs"
  shows "HAS_PINNED_R b s = Inr (False, s)"
proof (cases "cs = []")
  case True
  then show ?thesis using holds_simps(1,2,6) [OF assms] by (simp add: HAS_PINNED_R_def run_bnd_simps last_addr_def)
next
  case False
  then obtain as x c where cs: "cs = as @ [(x, c)]" by (rule snoc_cases)
  then show ?thesis
    using holds_simps(1,2,6) [OF assms] chain_at [of s b e as x c "[]"] assms chain_ok_flags
    by (simp add: HAS_PINNED_R_def run_bnd_simps last_addr_def)
qed

text \<open>The state in which the loop of \<open>evbuffer_drain\<close> has left the buffer, with \<^verbatim>\<open>first\<close> and the first chain adjusted.\<close>

lemma holds_drained:
  assumes h: "holds s b e (as @ (x, c) # bs)" "length as < length (used (as @ (x, c) # bs))" "r < off c"
    and s': "ev_brk s' = ev_brk s" "ch_heap s' = (without (ch_heap s) (set (addrs as)))
        (x \<mapsto> (set_data c (misalign c + r) (off c - r) (ch_buffer c))\<lparr>ch_next := head_addr bs 0\<rparr>)"
    "eb_heap s' b = Some e'"
    and e': "eb_first e' = x" "eb_last e' = eb_last e" "total_len e' = total_len e - (length (content as) + r)"
      "last_with_datap e' = cell_of b ((x, c) # bs) (length (used (as @ (x, c) # bs)) - 1 - length as)"
  shows "holds s' b e' ((x, set_data c (misalign c + r) (off c - r) (ch_buffer c)) # bs)"
proof -
  note h' = holds_simps [OF h(1)]
  let ?c = "set_data c (misalign c + r) (off c - r) (ch_buffer c)"
  have ok: "chain_ok ?c" using chain_at(3) [OF h(1)] h(3) by (simp add: chain_ok_shift)
  have u: "length (used ((x, ?c) # bs)) - 1 = length (used (as @ (x, c) # bs)) - 1 - length as"
    using used_drop_prefix [OF h(2)] h(3) by simp
  have sp: "set (spare ((x, ?c) # bs)) = set (spare (as @ (x, c) # bs))" using spare_drop_prefix [OF h(2)] h(3) by simp
  have "chain_seg (ch_heap s) x ((x, c) # bs) 0" "x \<notin> set (addrs as)" "x \<notin> set (addrs bs)" "set (addrs as) \<inter> set (addrs bs) = {}"
    using h'(3,4) by (auto simp: chain_seg_append)
  then have "chain_seg (without (ch_heap s) (set (addrs as))) x ([] @ (x, c) # bs) 0" "distinct (addrs ([] @ (x, c) # bs))"
    using seg_without [of "ch_heap s" x "(x, c) # bs" 0 "set (addrs as)"] h'(4) by auto
  from chain_seg_set [OF this, of ?c] have seg: "chain_seg (ch_heap s') (eb_first e') ((x, ?c) # bs) 0" using s'(2) e'(1) by simp
  show ?thesis
    unfolding holds_def
  proof (intro conjI seg)
    show "last_with_datap e' = cell_of b ((x, ?c) # bs) (length (used ((x, ?c) # bs)) - 1)"
      using e'(4) u cell_of_replace [of b "[]" x ?c bs _ c] by simp
    show "\<forall>xc\<in>set (spare ((x, ?c) # bs)). \<not> has_data xc" using h'(8) unfolding sp .
    show "eb_last e' = last_addr ((x, ?c) # bs)" using e'(2) h'(6) by (simp add: last_addr_def)
    show "\<forall>xc\<in>set ((x, ?c) # bs). chain_ok (snd xc)" using h'(9) ok by simp
    show "total_len e' = length (content ((x, ?c) # bs))" using e'(3) h'(10) h(3) by simp
    show "total_len e' < 2 ^ 64" using e'(3) h'(10,11) by simp
  qed (use h'(1,4,5) s' in auto)
qed

lemma used_less: "length as \<le> length (used cs) - 1 \<Longrightarrow> content cs \<noteq> [] \<Longrightarrow> holds s b e cs \<Longrightarrow> length as < length (used cs)"
  using holds_content [of s b e cs] by (cases "used cs") auto

lemma drain_part_run:
  assumes h: "holds s b e cs" "wf_ev s" "n < length (content cs)"
  obtains s' e' cs' where "drain_some b e n s = Inr (n, s')"
    "holds s' b e' cs'" "settings e' = settings e" "evolves s s' {b} (set (addrs cs)) (set (addrs cs'))"
    "content cs' = drop n (content cs)" "tight cs \<longrightarrow> tight cs'"
proof -
  note hs = holds_simps [OF h(1)]
  let ?k = "length (used cs) - 1" and ?e1 = "e\<lparr>total_len := total_len e - n\<rparr>"
  let ?s1 = "s\<lparr>eb_heap := (eb_heap s)(b \<mapsto> e\<lparr>total_len := total_len e - n\<rparr>)\<rparr>"
  have e1: "eb_heap ?s1 b = Some ?e1" "last_with_datap ?e1 = cell_of b cs ?k" "chain_seg (ch_heap ?s1) (eb_first e) cs 0" "0 < b"
    using hs(1,3,7) by simp_all
  have k: "?k < length cs" "content (drop (Suc ?k) cs) = []"
  proof -
    have "used cs \<noteq> []" using holds_content [OF h(1)] h(3) by auto
    then have u: "0 < length (used cs)" by blast
    then show "?k < length cs" using length_takeWhile_le [of has_data cs] by linarith
    show "content (drop (Suc ?k) cs) = []" using u drop_used [of cs] content_empty [OF hs(8)] by simp
  qed
  from drain_loop_run [OF e1(3) hs(4,9) e1(1,4,2) k h(3) holds_fuel [OF h(1)]]
  obtain as x c bs where r: "cs = as @ (x, c) # bs" "length (content as) \<le> n" "n - length (content as) < off c" "length as \<le> ?k"
    "drain_loop (Suc (ev_brk s)) b (eb_first e) n ?s1 = Inr ((x, n - length (content as)), ?s1\<lparr>ch_heap := without (ch_heap ?s1) (set (addrs as)),
        eb_heap := (eb_heap ?s1)(b \<mapsto> ?e1\<lparr>last_with_datap := cell_of b ((x, c) # bs) (?k - length as)\<rparr>), ev_log := ev_log ?s1 @ cleanups as\<rparr>)"
    by blast
  let ?r = "n - length (content as)"
  let ?c = "set_data c (misalign c + ?r) (off c - ?r) (ch_buffer c)"
  let ?e = "e\<lparr>total_len := total_len e - n, last_with_datap := cell_of b ((x, c) # bs) (?k - length as), eb_first := x\<rparr>"
  let ?s = "s\<lparr>ch_heap := (without (ch_heap s) (set (addrs as)))(x \<mapsto> ?c\<lparr>ch_next := head_addr bs 0\<rparr>),
      eb_heap := (eb_heap s)(b \<mapsto> ?e), ev_log := ev_log s @ cleanups as\<rparr>"
  have "content cs \<noteq> []" using h(3) by auto
  then have u: "length as < length (used (as @ (x, c) # bs))" using used_less [OF r(4) _ h(1)] unfolding r(1) by blast
  have tl: "sz_sub (total_len e) n = total_len e - n" using hs(10,11) h(3) by simp
  have at: "ch_heap s x = Some (c\<lparr>ch_next := head_addr bs 0\<rparr>)" "0 < x" "x \<notin> set (addrs as)"
    using chain_at [of s b e as x c bs] h(1) hs(4) r(1) by auto
  show thesis
  proof (rule that)
    show "holds ?s b ?e ((x, ?c) # bs)"
      by (rule holds_drained [OF h(1) [unfolded r(1)] u r(3)]) (use r(1,2) in simp_all)
    show "evolves s ?s {b} (set (addrs cs)) (set (addrs ((x, ?c) # bs)))"
      by (rule evolvesI [OF h(2)]) (use holds_addrs_less [OF h(1)] at(3) hs(4) r(1) in auto)
    show "content ((x, ?c) # bs) = drop n (content cs)"
      using r(1-3) chain_bytes_shift [of ?r c] by simp
    show "tight cs \<longrightarrow> tight ((x, ?c) # bs)"
      using spare_drop_prefix [OF u] r(1,3) by (auto simp: tight_def)
  qed (use hs(1,2) tl r(3) at in \<open>simp_all add: drain_some_def run_simps r(5) ev_order chain_writes del: drain_loop.simps\<close>)
qed

theorem evbuffer_drain_run:
  assumes h: "holds s b e cs" "wf_ev s" "\<not> freeze_start e"
  shows "drains s b e cs n (evbuffer_drain b n s)"
proof (cases "content cs = []")
  case True
  then have "evbuffer_drain b n s = Inr (0, s)"
    using holds_simps(1,2,10) [OF h(1)] by (simp add: evbuffer_drain_def run_bnd_simps)
  then show ?thesis using True becomes_refl [OF h(2,1)] by (auto simp: drains_def)
next
  case False
  note hs = holds_simps [OF h(1)]
  define m where "m = (if n \<ge> total_len e then total_len e else n)"
  let ?body = "if n \<ge> total_len e then drain_all b e else drain_some b e n"
  have run: "evbuffer_drain b n s = bnd ?body (\<lambda>len.
       bnd (upd_buf b (\<lambda>e. e\<lparr>n_del_for_cb := sz_add (n_del_for_cb e) len\<rparr>)) (\<lambda>_.
       bnd (evbuffer_invoke_callbacks b) (\<lambda>_. ret 0))) s"
    using hs(1,2,10) h(3) False has_pinned_run [OF h(1)]
    by (simp add: evbuffer_drain_def run_bnd_simps bnd_Inr cong: if_cong)
  obtain s1 e1 cs' where s1: "?body s = Inr (m, s1)" "holds s1 b e1 cs'" "settings e1 = settings e"
    "evolves s s1 {b} (set (addrs cs)) (set (addrs cs'))" "content cs' = drop n (content cs)" "tight cs \<longrightarrow> tight cs'"
  proof (cases "total_len e \<le> n")
    case True
    obtain t e' where "drain_all b e s = Inr (total_len e, t)" "holds t b e' []" "settings e' = settings e"
      "evolves s t {b} (set (addrs cs)) {}" using zero_chain_run [OF h(1,2)] .
    then show thesis using that [of t e' "[]"] True hs(10) by (simp add: m_def tight_def)
  next
    case part: False
    then have n: "n < length (content cs)" "m = n" using hs(10) by (simp_all add: m_def)
    obtain t e' cs' where "drain_some b e n s = Inr (n, t)" "holds t b e' cs'" "settings e' = settings e"
      "evolves s t {b} (set (addrs cs)) (set (addrs cs'))" "content cs' = drop n (content cs)" "tight cs \<longrightarrow> tight cs'"
      using drain_part_run [OF h(1,2) n(1)] .
    then show thesis using that [of t e' cs'] part n(2) by simp
  qed
  let ?e2 = "e1\<lparr>n_del_for_cb := sz_add (n_del_for_cb e1) m\<rparr>"
  let ?s2 = "s1\<lparr>eb_heap := (eb_heap s1)(b \<mapsto> ?e2)\<rparr>"
  have wf1: "wf_ev s1" using evolves_wf [OF h(2) s1(4)] holds_addrs_less [OF s1(2)] holds_buf_less [OF h(1,2)] by simp
  have h2: "holds ?s2 b ?e2 cs'" by (rule holds_counters(2) [OF s1(2)])
  obtain s' e' where s': "evbuffer_invoke_callbacks b ?s2 = Inr ((), s')" "holds s' b e' cs'" "settings e' = settings ?e2"
    "\<forall>X. evolves ?s2 s' {b} X X" using invoke_holds [OF h2 wf_ev_buf [OF wf1 holds_buf_less [OF s1(2) wf1]]] .
  have "evbuffer_drain b n s = Inr (0, s')"
    using s1(1) s'(1) holds_simps(1,2) [OF s1(2)] unfolding run by (simp add: run_simps)
  moreover have "evolves s s' {b} (set (addrs cs)) (set (addrs cs'))"
    by (rule evolves_trans [OF s1(4) evolves_trans [OF evolves_buf [OF wf1]]]) (use s'(4) in auto)
  ultimately show ?thesis
    unfolding drains_def becomes_def using s'(2,3) s1(3,5,6) by (intro exI [of _ s'] exI [of _ cs']) auto
qed

theorem evbuffer_remove_run:
  assumes h: "holds s b e cs" "wf_ev s" "\<not> freeze_start e"
  obtains s' cs' where "evbuffer_remove b n s = Inr (Some (take n (content cs)), s')" "becomes s b e cs s' cs'"
    "content cs' = drop n (content cs)" "tight cs \<longrightarrow> tight cs'"
proof (cases "content cs = [] \<or> n = 0")
  case True
  then have "evbuffer_remove b n s = Inr (Some (take n (content cs)), s)"
    by (auto simp: evbuffer_remove_def run_simps copyout_run [OF h(1)])
  then show thesis using that [of s cs] True becomes_refl [OF h(2,1)] by auto
next
  case False
  define k where "k = length (take n (content cs))"
  have k: "k \<noteq> 0" "drop k (content cs) = drop n (content cs)" using False by (auto simp: k_def min_def)
  obtain s' cs' where s': "evbuffer_drain b k s = Inr (0, s')" "becomes s b e cs s' cs'" "content cs' = drop k (content cs)"
    "tight cs \<longrightarrow> tight cs'"
    using evbuffer_drain_run [OF h, of k] unfolding drains_def by blast
  have "evbuffer_remove b n s = Inr (Some (take n (content cs)), s')"
    using False h(3) s'(1) by (simp add: evbuffer_remove_def run_simps copyout_run [OF h(1)] k_def)
  then show thesis using that [of s' cs'] s' k(2) by simp
qed

section \<open>Frozen buffers\<close>

lemma frozen_runs:
  assumes "holds s b e cs"
  shows "freeze_start e \<Longrightarrow> content cs \<noteq> [] \<Longrightarrow> evbuffer_drain b n s = Inr (- 1, s)"
    "freeze_start e \<Longrightarrow> content cs \<noteq> [] \<Longrightarrow> 0 < n \<Longrightarrow> evbuffer_remove b n s = Inr (None, s)"
    "freeze_start e \<Longrightarrow> evbuffer_prepend b data s = Inr (- 1, s)" "freeze_end e \<Longrightarrow> evbuffer_add b data s = Inr (- 1, s)"
  using holds_simps(1,2,10) [OF assms]
  by (simp_all add: evbuffer_drain_def evbuffer_prepend_def evbuffer_add_def run_bnd_simps evbuffer_remove_def
      run_simps copyout_run [OF assms])

section \<open>Referenced memory\<close>

theorem evbuffer_add_reference_run:
  assumes h: "holds s b e cs" "wf_ev s" "tight cs" "\<not> freeze_end e" "total_len e + length data < 2 ^ 64" "\<not> ev_oom s (ev_brk s)"
    "length data \<le> EVBUFFER_CHAIN_MAX - EVBUFFER_CHAIN_SIZE"
  obtains s' cs' where "evbuffer_add_reference b data f x s = Inr (0, s')" "becomes s b e cs s' cs'" "content cs' = content cs @ data"
    "data \<noteq> [] \<longrightarrow> tight cs'"
proof (cases rule: chain_new_cases [of 16 s])
  case (fail s')
  then show thesis using h(6) by (simp add: room_def EVBUFFER_CHAIN_MAX_def EVBUFFER_CHAIN_SIZE_def EV_SSIZE_MAX_def)
next
  case (new d)
  let ?p = "ev_brk s"
  define c where "c = d\<lparr>ch_flags := EVBUFFER_REFERENCE OR EVBUFFER_IMMUTABLE, ch_buffer := (\<lambda>i. if i < length data then data ! i else 0),
      buffer_len := length data, off := length data, ch_extra := Ref_Extra f x\<rparr>"
  have d: "misalign d = 0" "ch_next d = 0" "ch_flags d = 0" using new(3) by (simp_all add: new_chain_def)
  have ok: "chain_ok c" using d h(7)
    by (simp add: chain_ok_def c_def mutable_def EVBUFFER_REFERENCE_def EVBUFFER_IMMUTABLE_def EVBUFFER_MEM_PINNED_ANY_def
        EVBUFFER_MEM_PINNED_R_def EVBUFFER_MEM_PINNED_W_def EVBUFFER_MMAP_def EVBUFFER_SENDFILE_def)
  have cb: "chain_bytes c = data" by (rule nth_equalityI) (simp_all add: chain_bytes_def c_def d)
  have c0: "c\<lparr>ch_next := 0\<rparr> = c" using d(2) by (simp add: c_def)
  let ?s = "s\<lparr>ev_brk := Suc ?p, ch_heap := (ch_heap s)(?p \<mapsto> c)\<rparr>"
  have p: "0 < ?p" using h(2) by (simp add: wf_ev_def)
  note h1 = holds_new(1) [OF h(1), of c] holds_new(2) [OF h(1)] and ev1 = evolves_new [OF h(2), of c]
  obtain s' e' where s': "bnd (evbuffer_chain_insert b ?p) (\<lambda>_. bnd (upd_buf b (\<lambda>e. e\<lparr>n_add_for_cb := sz_add (n_add_for_cb e) (length data)\<rparr>))
      (\<lambda>_. bnd (evbuffer_invoke_callbacks b) (\<lambda>_. ret (0 :: int)))) ?s = Inr (0, s')"
    "holds s' b e' (used cs @ [(?p, c)])" "settings e' = settings e"
    "evolves ?s s' {b} (insert ?p (set (addrs cs))) (set (addrs (used cs @ [(?p, c)])))"
  proof (rule linked_run [OF h1(1) ev1(2) _ p h1(2) _ ok, where n = "length data"])
    show "spare cs = [] \<or> used cs = [] \<or> off c = 0" using h(3) by (auto simp: tight_def length_Suc_conv)
    show "length (content cs) + off c < 2 ^ 64" using h(5) holds_simps(10) [OF h(1)] by (simp add: c_def)
  qed (use c0 in simp_all)
  show thesis
  proof (rule that)
    show "evbuffer_add_reference b data f x s = Inr (0, s')"
      using new(1) p holds_simps(1,2) [OF h(1)] h(4) d(3) s'(1)
      by (simp add: evbuffer_add_reference_def run_simps flip: c_def)
    show "becomes s b e cs s' (used cs @ [(?p, c)])"
      unfolding becomes_def using s'(2,3) evolves_trans [OF ev1(1) s'(4)] by blast
    show "content (used cs @ [(?p, c)]) = content cs @ data" using holds_content [OF h(1)] cb by simp
    show "data \<noteq> [] \<longrightarrow> tight (used cs @ [(?p, c)])" using used_all by (auto simp: tight_snoc c_def)
  qed
qed

section \<open>Freeing a buffer\<close>

theorem evbuffer_free_run:
  assumes h: "holds s b e cs" "wf_ev s" "refcnt e = 1"
  obtains s' where "evbuffer_free b s = Inr ((), s')" "evolves s s' {b} (set (addrs cs)) {}" "eb_heap s' b = None"
    "ev_log s' = ev_log s @ cleanups cs"
proof -
  note hs = holds_simps [OF h(1)]
  let ?h = "without (ch_heap s) (set (addrs cs))"
  let ?s = "s\<lparr>ch_heap := ?h, ev_log := ev_log s @ cleanups cs, eb_heap := (eb_heap s)(b := None)\<rparr>"
  have fr: "free_chains_loop (Suc (ev_brk s)) (eb_first e) (s\<lparr>eb_heap := g\<rparr>)
      = Inr ((), s\<lparr>eb_heap := g, ch_heap := ?h, ev_log := ev_log s @ cleanups cs\<rparr>)" for g
    using free_chains_run [of "s\<lparr>eb_heap := g\<rparr>" "eb_first e" cs "Suc (ev_brk s)"] hs(3,4,9) holds_fuel [OF h(1)] by simp
  show thesis
  proof (rule that)
    show "evbuffer_free b s = Inr ((), ?s)"
      using hs(1,2) h(3)
      by (simp add: evbuffer_free_def evbuffer_decref_and_unlock_def run_simps fr evbuffer_remove_all_callbacks_def ev_order
          del: free_chains_loop.simps)
    show "evolves s ?s {b} (set (addrs cs)) {}"
      by (rule evolvesI [OF h(2)]) (use holds_addrs_less [OF h(1)] in auto)
  qed simp_all
qed

end
