(* ===== verification/Evbuffer_Prepend.thy ===== *)
theory Evbuffer_Prepend
  imports Evbuffer_Drain
begin

unbundle bit_operations_syntax

text \<open>
  \<open>evbuffer_prepend\<close> puts its data in front. It fills the room in front of the first chain before it asks
  for a new chain, so when no memory is available the end of the data may have been added already.
\<close>

definition prepends :: "evstate \<Rightarrow> nat \<Rightarrow> evbuffer \<Rightarrow> (nat \<times> evbuffer_chain) list \<Rightarrow> u8 list \<Rightarrow> fault + int \<times> evstate \<Rightarrow> bool" where
  "prepends s b e cs data r \<longleftrightarrow> (\<exists>s' cs' ret k. r = Inr (ret, s') \<and> becomes s b e cs s' cs'
     \<and> content cs' = drop k data @ content cs \<and> (tight cs \<longrightarrow> tight cs')
     \<and> (ret = 0 \<and> k = 0 \<or> ret = - 1 \<and> ((\<exists>n. ev_oom s n) \<or> EVBUFFER_CHAIN_MAX - EVBUFFER_CHAIN_SIZE < length data)))"

lemma holds_pushed:
  assumes h: "holds s b e cs" "has_data (hd cs)" "cs \<noteq> []" and d: "chain_ok d" "0 < off d" "0 < p" "p \<notin> set (addrs cs)" "p < ev_brk s'"
    and s': "ev_brk s \<le> ev_brk s'" "ch_heap s' p = Some (d\<lparr>ch_next := eb_first e\<rparr>)" "\<And>x. x \<in> set (addrs cs) \<Longrightarrow> ch_heap s' x = ch_heap s x"
      "eb_heap s' b = Some e'" "total_len e' < 2 ^ 64"
    and e': "eb_first e' = p" "eb_last e' = eb_last e" "total_len e' = total_len e + off d"
      "last_with_datap e' = (if last_with_datap e = First b then Next p else last_with_datap e)"
  shows "holds s' b e' ((p, d) # cs)"
  unfolding holds_def
proof (intro conjI)
  note hs = holds_simps [OF h(1)]
  obtain y ys where cs: "cs = y # ys" using h(3) by (cases cs) auto
  have seg: "chain_seg (ch_heap s') (eb_first e) cs 0"
    by (rule iffD2 [OF chain_seg_cong hs(3)]) (rule s'(3))
  have sp: "spare ((p, d) # cs) = spare cs" using d(2) by simp
  have u: "used cs = y # used ys" using h(2) cs by simp
  show "last_with_datap e' = cell_of b ((p, d) # cs) (length (used ((p, d) # cs)) - 1)"
  proof (cases "used ys")
    case Nil
    then show ?thesis using hs(7) e'(4) u d(2) by (simp add: cell_of_def)
  next
    case (Cons z zs)
    then show ?thesis using hs(7) e'(4) u d(2) by (simp add: cell_of_def)
  qed
  show "chain_seg (ch_heap s') (eb_first e') ((p, d) # cs) 0"
    using seg hs(12) s'(2) e'(1) d(3) by simp
  show "\<forall>xc\<in>set (spare ((p, d) # cs)). \<not> has_data xc"
    using hs(8) unfolding sp .
  show "eb_last e' = last_addr ((p, d) # cs)" using e'(2) hs(6) cs by (simp add: last_addr_def)
  show "\<forall>xc\<in>set ((p, d) # cs). chain_ok (snd xc)" using hs(9) d(1) by simp
  show "\<forall>x\<in>set (addrs ((p, d) # cs)). x < ev_brk s'" using hs(5) s'(1) d(5) by fastforce
  show "total_len e' = length (content ((p, d) # cs))" using e'(3) hs(10) by simp
  show "distinct (addrs ((p, d) # cs))" "b \<noteq> 0" using hs(1,4) d(4) by simp_all
qed (fact s'(4,5))+

lemma prepend_chain_run:
  assumes h: "holds s b e ((x, c) # bs)" "wf_ev s" "has_data (x, c)" "data \<noteq> []" "total_len e + length data < 2 ^ 64"
  shows "\<exists>s' cs' ret. prepend_chain_for b x data s = Inr (ret, s') \<and> becomes s b e ((x, c) # bs) s' cs'
    \<and> (tight ((x, c) # bs) \<longrightarrow> tight cs')
    \<and> (ret = 0 \<and> content cs' = data @ content ((x, c) # bs) \<or> ret = - 1 \<and> content cs' = content ((x, c) # bs)
       \<and> ((\<exists>n. ev_oom s n) \<or> EVBUFFER_CHAIN_MAX - EVBUFFER_CHAIN_SIZE < length data))"
proof (cases rule: chain_new_cases [of "length data" s])
  case (fail s')
  have "becomes s b e ((x, c) # bs) s' ((x, c) # bs)"
    using evolves_fail [OF fail(3) h(2)] h(1) unfolding becomes_def by blast
  moreover have "prepend_chain_for b x data s = Inr (- 1, s')" using fail(1) by (simp add: prepend_chain_for_def bnd_def)
  moreover have "(\<exists>n. ev_oom s n) \<or> EVBUFFER_CHAIN_MAX - EVBUFFER_CHAIN_SIZE < length data" using fail(2) by (auto simp: room_def)
  ultimately show ?thesis by blast
next
  case (new d)
  let ?cs = "(x, c) # bs" and ?p = "ev_brk s" and ?n = "length data"
  note hs = holds_simps [OF h(1)]
  define m where "m = buffer_len d - ?n"
  define d' where "d' = set_data d m ?n (put (ch_buffer d) m data)"
  have n: "?n \<le> buffer_len d" "misalign d = 0" "off d = 0" using new(3) by (simp_all add: new_chain_def)
  have d': "chain_ok d'" "chain_bytes d' = data" "0 < off d'"
    using new_chain_ok [OF new(3)] n slice_put [of "ch_buffer d" m data] h(4) by (auto simp: d'_def m_def chain_bytes_def intro!: set_data_ok)
  let ?e = "e\<lparr>eb_first := ?p, last_with_datap := if last_with_datap e = First b then Next ?p else last_with_datap e,
      total_len := total_len e + ?n, n_add_for_cb := sz_add (n_add_for_cb e) (misalign c)\<rparr>"
  let ?s = "s\<lparr>ev_brk := Suc ?p, ch_heap := (ch_heap s)(?p \<mapsto> d'\<lparr>ch_next := x\<rparr>), eb_heap := (eb_heap s)(b \<mapsto> ?e)\<rparr>"
  have p: "0 < ?p" "?p \<notin> set (addrs ?cs)" using h(2) holds_new(2) [OF h(1)] by (simp_all add: wf_ev_def)
  have at: "ch_heap s x = Some (c\<lparr>ch_next := head_addr bs 0\<rparr>)" "0 < x" "eb_first e = x" "x \<noteq> ?p"
    using chain_at [of s b e "[]" x c bs] h(1) hs(12) p(2) by auto
  have h2: "holds ?s b ?e ((?p, d') # ?cs)"
    by (rule holds_pushed [OF h(1) _ _ d'(1,3) p]) (use h(3,5) at p(2) in \<open>auto simp: d'_def\<close>)
  have ev: "evolves s ?s {b} (set (addrs ?cs)) (set (addrs ((?p, d') # ?cs)))"
    using h(2) holds_addrs_less [OF h(1)] by (auto simp: evolves_def wf_ev_def)
  have wf: "wf_ev ?s" using evolves_wf [OF h(2) ev] holds_addrs_less [OF h2] holds_buf_less [OF h(1,2)] by simp
  obtain s' e' where s': "evbuffer_invoke_callbacks b ?s = Inr ((), s')" "holds s' b e' ((?p, d') # ?cs)" "settings e' = settings ?e"
    "\<forall>X. evolves ?s s' {b} X X" using invoke_holds [OF h2 wf] .
  have "prepend_chain_for b x data s = Inr (0, s')"
    using new(1) p(1) hs(1,2) at n s'(1) h(5)
    by (cases "last_with_datap e = First b") (simp_all add: prepend_chain_for_def run_simps chain_writes ev_order d'_def m_def)
  moreover have "becomes s b e ?cs s' ((?p, d') # ?cs)"
    using s'(2,3) evolves_trans [OF ev] s'(4) unfolding becomes_def by (auto simp: settings_def)
  moreover have "content ((?p, d') # ?cs) = data @ content ?cs" using d'(2) by simp
  moreover have "tight ?cs \<longrightarrow> tight ((?p, d') # ?cs)" using d'(3) h(3) by (auto simp: tight_def)
  ultimately show ?thesis by blast
qed

lemma prepend_in_place:
  assumes h: "holds s b e ((x, c) # bs)" "wf_ev s" "mutable c" "has_data (x, c) \<or> bs = []" "total_len e + length data < 2 ^ 64"
    and m: "length data \<le> m" "m + off c \<le> buffer_len c" "off c = 0 \<or> m = misalign c"
    and r: "r = bnd (count_added b (length data)) (\<lambda>_. bnd (evbuffer_invoke_callbacks b) (\<lambda>_. ret (0 :: int)))
        (s\<lparr>ch_heap := (ch_heap s)(x \<mapsto> set_data (c\<lparr>ch_next := head_addr bs 0\<rparr>) (m - length data) (off c + length data)
            (put (ch_buffer c) (m - length data) data))\<rparr>)"
  shows "prepends s b e ((x, c) # bs) data r"
proof -
  let ?c = "set_data c (m - length data) (off c + length data) (put (ch_buffer c) (m - length data) data)"
  have ok: "chain_ok ?c" using chain_at(3) [of s b e "[]" x c bs] h(1,3) m by (simp add: set_data_ok)
  obtain s' where s': "r = Inr (0, s')" "becomes s b e ([] @ (x, c) # bs) s' ([] @ (x, ?c) # bs)"
    using stored_run [of s b e "[]" x c bs _ ?c "length data"] h ok unfolding r by auto
  have "slice (put (ch_buffer c) (m - length data) data) (m - length data) (length data + off c) = data @ slice (ch_buffer c) m (off c)"
    using slice_put_prepend [of "m - length data" data m "ch_buffer c" "off c"] m(1) by simp
  then have "content ((x, ?c) # bs) = drop 0 data @ content ((x, c) # bs)" using m(3) by (auto simp: chain_bytes_def add.commute)
  moreover have "tight ((x, c) # bs) \<longrightarrow> tight ((x, ?c) # bs)" using h(4) by (auto simp: tight_def)
  ultimately show ?thesis unfolding prepends_def using s' by fastforce
qed

lemma prepends_chain:
  assumes "holds s b e ((x, c) # bs)" "wf_ev s" "has_data (x, c)" "data \<noteq> []" "total_len e + length data < 2 ^ 64"
  shows "prepends s b e ((x, c) # bs) data (prepend_chain_for b x data s)"
  using prepend_chain_run [OF assms] drop_0 drop_all [of data "length data"] unfolding prepends_def by (metis append_Nil order_refl)

lemma prepend_fill_run:
  assumes h: "holds s b e ((x, c) # bs)" "wf_ev s" "mutable c" "has_data (x, c)" "total_len e + length data < 2 ^ 64"
    and m: "m = misalign c" "0 < m" "m < length data"
  shows "prepends s b e ((x, c) # bs) data (bnd (st_bytes x 0 (drop (length data - m) data)) (\<lambda>_.
         bnd (upd_chain x (\<lambda>x. x\<lparr>off := off x + misalign x\<rparr>)) (\<lambda>_.
         bnd (count_added b m) (\<lambda>_.
         bnd (upd_chain x (\<lambda>x. x\<lparr>misalign := 0\<rparr>)) (\<lambda>_.
         prepend_chain_for b x (take (length data - m) data))))) s)"
proof -
  let ?k = "length data - m" and ?cs = "(x, c) # bs"
  define c1 where "c1 = set_data c 0 (off c + m) (put (ch_buffer c) 0 (drop (length data - m) data))"
  let ?e1 = "e\<lparr>total_len := total_len e + m, n_add_for_cb := sz_add (n_add_for_cb e) m\<rparr>"
  let ?s1 = "s\<lparr>ch_heap := (ch_heap s)(x \<mapsto> c1\<lparr>ch_next := head_addr bs 0\<rparr>), eb_heap := (eb_heap s)(b \<mapsto> ?e1)\<rparr>"
  note at = chain_at [of s b e "[]" x c bs, simplified, OF h(1)]
  note hs = holds_simps [OF h(1)] and ok = chain_okD(1) [OF at(3)]
  have "slice (put (ch_buffer c) 0 (drop ?k data)) 0 (m + off c) = drop ?k data @ chain_bytes c"
    using slice_put_prepend [of 0 "drop ?k data" m "ch_buffer c" "off c"] m by (simp add: chain_bytes_def)
  then have ct: "content ((x, c1) # bs) = drop ?k data @ content ?cs" by (simp add: c1_def chain_bytes_def add.commute)
  have ok1: "chain_ok c1" using at(3) h(3) ok m(1) by (simp add: c1_def set_data_ok)
  have tl: "total_len ?e1 = length (content ([] @ (x, c1) # bs))" using hs(10) ct m by simp
  have h1: "holds ?s1 b ?e1 ([] @ (x, c1) # bs)"
    by (rule holds_upd [where as = "[]" and c = c and s = s and e = e]) (use h(1,4,5) ok1 tl m in \<open>simp_all add: c1_def\<close>)
  have ev: "evolves s ?s1 {b} (set (addrs ?cs)) (set (addrs ((x, c1) # bs)))"
    using evolves_step(1) [OF h(2) _ holds_addrs_less [OF h(1)], of x b "{b}"] by simp
  have wf: "wf_ev ?s1" using evolves_wf [OF h(2) ev] holds_addrs_less [OF h1] holds_buf_less [OF h(1,2)] by simp
  have pre: "holds ?s1 b ?e1 ((x, c1) # bs)" "has_data (x, c1)" "take ?k data \<noteq> []" "total_len ?e1 + length (take ?k data) < 2 ^ 64"
    using h1 h(4,5) m by (auto simp: c1_def)
  obtain s' cs' ret where r: "prepend_chain_for b x (take ?k data) ?s1 = Inr (ret, s')" "becomes ?s1 b ?e1 ((x, c1) # bs) s' cs'"
    "tight ((x, c1) # bs) \<longrightarrow> tight cs'" "ret = 0 \<and> content cs' = take ?k data @ content ((x, c1) # bs)
      \<or> ret = - 1 \<and> content cs' = content ((x, c1) # bs)
        \<and> ((\<exists>n. ev_oom ?s1 n) \<or> EVBUFFER_CHAIN_MAX - EVBUFFER_CHAIN_SIZE < length (take ?k data))"
    using prepend_chain_run [OF pre(1) wf pre(2-4)] by blast
  have "becomes s b e ?cs s' cs'" by (rule becomes_trans [OF pre(1) _ ev r(2)]) simp
  moreover have "tight ?cs \<longrightarrow> tight cs'" using r(3) h(4) by (auto simp: tight_def c1_def)
  moreover have "ret = 0 \<and> content cs' = drop 0 data @ content ?cs \<or> ret = - 1 \<and> content cs' = drop ?k data @ content ?cs
      \<and> ((\<exists>n. ev_oom s n) \<or> EVBUFFER_CHAIN_MAX - EVBUFFER_CHAIN_SIZE < length data)"
    using r(4) append_take_drop_id [of ?k data] unfolding ct by (auto simp flip: append_assoc)
  moreover have "(bnd (st_bytes x 0 (drop ?k data)) (\<lambda>_.
         bnd (upd_chain x (\<lambda>x. x\<lparr>off := off x + misalign x\<rparr>)) (\<lambda>_.
         bnd (count_added b m) (\<lambda>_.
         bnd (upd_chain x (\<lambda>x. x\<lparr>misalign := 0\<rparr>)) (\<lambda>_.
         prepend_chain_for b x (take ?k data))))) s) = Inr (ret, s')"
    using r(1) at hs(1,2) m h(5) ok by (simp add: run_simps chain_writes ev_order c1_def)
  ultimately show ?thesis unfolding prepends_def by blast
qed

lemma prepend_to_chain_run:
  assumes h: "holds s b e ((x, c) # bs)" "wf_ev s" "has_data (x, c)" "data \<noteq> []" "total_len e + length data < 2 ^ 64"
  shows "prepends s b e ((x, c) # bs) data (prepend_to_chain b x data s)"
proof -
  note at = chain_at [of s b e "[]" x c bs, simplified, OF h(1)]
  note ok = chain_okD [OF at(3)]
  have x: "x \<noteq> 0" and off: "off c \<noteq> 0" using at(2) h(3) by simp_all
  note run = prepend_to_chain_def [of b x data, THEN fun_cong [of _ _ s]] run_bnd_simps(1) [OF at(1) x]
  show ?thesis
  proof (cases "mutable c")
    case False
    then show ?thesis using prepends_chain [OF h] by (simp add: run mutable_def)
  next
    case mut: True
    then have m: "ch_flags c AND EVBUFFER_IMMUTABLE = 0" by (simp add: mutable_def)
    consider (fits) "length data \<le> misalign c" | (part) "0 < misalign c" "misalign c < length data" | (full) "misalign c = 0" by linarith
    then show ?thesis
    proof cases
      case fits
      show ?thesis
        by (rule prepend_in_place [OF h(1,2) mut _ h(5) fits])
          (use h(3) ok(1,4) m off fits at x in \<open>simp_all add: run run_simps chain_writes\<close>)
    next
      case part
      then show ?thesis using prepend_fill_run [OF h(1,2) mut h(3,5) refl] m off ok(4) by (simp add: run)
    next
      case full
      then show ?thesis using prepends_chain [OF h] m off h(4) by (simp add: run)
    qed
  qed
qed

theorem evbuffer_prepend_run:
  assumes h: "holds s b e cs" "wf_ev s" "cs = [] \<or> has_data (hd cs)" "data \<noteq> []" "\<not> freeze_start e" "total_len e + length data < 2 ^ 64"
  shows "prepends s b e cs data (evbuffer_prepend b data s)"
proof -
  note hs = holds_simps [OF h(1)]
  have lim: "\<not> EV_SIZE_MAX - total_len e < length data" using h(6) by (simp add: EV_SIZE_MAX_def)
  show ?thesis
  proof (cases cs)
    case (Cons xc bs)
    obtain x c where xc: "xc = (x, c)" by (cases xc)
    have "eb_first e = x" "x \<noteq> 0" using hs(12) chain_at(2) [of s b e "[]" x c bs] h(1) Cons xc by simp_all
    then have "evbuffer_prepend b data s = prepend_to_chain b x data s"
      using hs(1,2) h(5) lim by (simp add: evbuffer_prepend_def run_bnd_simps)
    then show ?thesis using prepend_to_chain_run [of s b e x c bs data] h Cons xc by simp
  next
    case Nil
    then have l: "eb_first e = 0" "holds s b e []" using hs(12) h(1) by simp_all
    have run: "evbuffer_prepend b data s = bnd (evbuffer_chain_insert_new b (length data)) (\<lambda>chain.
       if chain = 0 then ret (- 1) else prepend_to_chain b chain data) s"
      using hs(1,2) h(5) lim l by (simp add: evbuffer_prepend_def run_bnd_simps)
    show ?thesis
    proof (cases rule: insert_new_run [OF l(2) h(2), of "length data"])
      case (1 s')
      have "evbuffer_prepend b data s = Inr (- 1, s')" using 1(1) unfolding run by (simp add: bnd_def)
      moreover have "(\<exists>n. ev_oom s n) \<or> EVBUFFER_CHAIN_MAX - EVBUFFER_CHAIN_SIZE < length data" using 1(2) by (auto simp: room_def)
      moreover have "content [] = drop (length data) data @ content []" by simp
      ultimately show ?thesis using 1(3) Nil unfolding prepends_def by blast
    next
      case (2 s' e' p c)
      have n: "length data \<le> buffer_len c" "misalign c = 0" "off c = 0" "ch_flags c = 0" using 2(6) by (simp_all add: new_chain_def)
      have at: "ch_heap s' p = Some (c\<lparr>ch_next := 0\<rparr>)" "p \<noteq> 0" using chain_at(1,2) [of s' b e' "[]" p c "[]"] 2(2,3) by simp_all
      have tl: "total_len e' + length data < 2 ^ 64" using holds_simps(10) [OF 2(3)] h(6) n(3) by simp
      have "prepends s' b e' [(p, c)] data (prepend_to_chain b p data s')"
        by (rule prepend_in_place [OF 2(3,7) new_chain_ok(2) [OF 2(6)] _ tl n(1)])
          (use n at in \<open>simp_all add: prepend_to_chain_def run_simps chain_writes\<close>)
      moreover have "evbuffer_prepend b data s = prepend_to_chain b p data s'" using 2(1,2) unfolding run by (simp add: bnd_def)
      moreover have "evolves s s' {b} (set (addrs cs)) (set (addrs [(p, c)]))" using 2(5) Nil by simp
      moreover have "content [(p, c)] = content cs" "tight [(p, c)]" using n(3) Nil by (simp_all add: chain_bytes_def tight_def)
      moreover have "ev_oom s' = ev_oom s" using 2(5) by (simp add: evolves_def)
      ultimately show ?thesis using becomes_trans [OF 2(3,4)] unfolding prepends_def by fastforce
    qed
  qed
qed

end
