(* ===== verification/Evbuffer_Move.thy ===== *)
theory Evbuffer_Move
  imports Evbuffer_Prepend
begin

unbundle bit_operations_syntax

text \<open>
  Moving all data of a buffer to the end or the front of another: no byte is copied, the chains change
  their owner.
\<close>

lemma holds_join:
  assumes h1: "holds s b1 e1 (as @ [(x, c)])" "spare (as @ [(x, c)]) = []" and h2: "holds s b2 e2 bs" "used bs \<noteq> []"
    and dis: "set (addrs (as @ [(x, c)])) \<inter> set (addrs bs) = {}" and b: "b \<noteq> 0" "eb_heap s' b = Some e'" "ev_brk s' = ev_brk s"
    and s': "ch_heap s' = (ch_heap s)(x \<mapsto> c\<lparr>ch_next := eb_first e2\<rparr>)"
    and e': "eb_first e' = eb_first e1" "eb_last e' = eb_last e2" "total_len e' = total_len e1 + total_len e2" "total_len e' < 2 ^ 64"
      "last_with_datap e' = (if last_with_datap e2 = First b2 then Next x else last_with_datap e2)"
  shows "holds s' b e' ((as @ [(x, c)]) @ bs)"
proof -
  note a = holds_simps [OF h1(1)] and d = holds_simps [OF h2(1)]
  let ?as = "as @ [(x, c)]"
  have all: "\<forall>xc\<in>set ?as. has_data xc" using h1(2) by (simp only: dropWhile_eq_Nil_conv)
  have u: "used (?as @ bs) = ?as @ used bs" "spare (?as @ bs) = spare bs"
    using all by (simp_all add: takeWhile_append dropWhile_append)
  have bs: "bs \<noteq> []" using h2(2) by auto
  have "chain_seg (ch_heap s') (eb_first e1) ?as (eb_first e2)"
    using chain_seg_relink [OF a(3,4)] unfolding s' .
  moreover have "chain_seg (ch_heap s') (eb_first e2) bs 0"
    using d(3) dis chain_seg_fun_upd [of x bs "ch_heap s"] unfolding s' by auto
  ultimately have seg: "chain_seg (ch_heap s') (eb_first e') (?as @ bs) 0" using d(12) e'(1) by (simp only: chain_seg_append)
  have l: "last_with_datap e' = cell_of b (?as @ bs) (length (used (?as @ bs)) - 1)"
  proof -
    obtain n where n: "length (used bs) = Suc n" using h2(2) by (cases "used bs") auto
    have "length (used (?as @ bs)) - 1 = Suc (length as + n)" using n u(1) by simp
    moreover have "cell_of b (?as @ bs) (Suc (length as + n)) = (if n = 0 then Next x else Next (fst (bs ! (n - 1))))"
      by (cases n) (simp_all add: cell_of_def nth_append)
    moreover have "last_with_datap e2 = (if n = 0 then First b2 else Next (fst (bs ! (n - 1))))" using d(7) n by (simp add: cell_of_def)
    ultimately show ?thesis using e'(5) by simp
  qed
  show ?thesis
    unfolding holds_def
  proof (intro conjI seg l b(1,2) e'(4))
    show "\<forall>xc\<in>set (spare (?as @ bs)). \<not> has_data xc" using d(8) unfolding u(2) .
    show "eb_last e' = last_addr (?as @ bs)" using e'(2) d(6) bs by (simp add: last_addr_def)
    show "\<forall>xc\<in>set (?as @ bs). chain_ok (snd xc)" using a(9) d(9) by auto
    show "\<forall>y\<in>set (addrs (?as @ bs)). y < ev_brk s'" using a(5) d(5) b(3) by auto
    show "distinct (addrs (?as @ bs))" using a(4) d(4) dis by auto
    show "total_len e' = length (content (?as @ bs))" using e'(3) a(10) d(10) by simp
  qed
qed

lemma holds_moved:
  assumes "holds s i ei cs" "ob \<noteq> 0" "eb_heap s' ob = Some e'" "ev_brk s' = ev_brk s" "\<And>x. x \<in> set (addrs cs) \<Longrightarrow> ch_heap s' x = ch_heap s x"
    "eb_first e' = eb_first ei" "eb_last e' = eb_last ei" "total_len e' = total_len ei"
    "last_with_datap e' = (if last_with_datap ei = First i then First ob else last_with_datap ei)"
  shows "holds s' ob e' cs"
proof -
  note h = holds_simps [OF assms(1)]
  have seg: "chain_seg (ch_heap s') (eb_first ei) cs 0" by (rule iffD2 [OF chain_seg_cong h(3)]) (rule assms(5))
  have "last_with_datap e' = cell_of ob cs (length (used cs) - 1)" using assms(9) h(7) by (auto simp: cell_of_def)
  then show ?thesis using h seg assms(2-8) unfolding holds_def by metis
qed

lemma tight_full:
  assumes "tight cs" "content cs \<noteq> []"
  shows "spare cs = []"
proof (cases "spare cs = []")
  case False
  then obtain xc where "cs = [xc]" using assms(1) by (auto simp: tight_def length_Suc_conv)
  moreover have "has_data xc" using assms(2) calculation by (cases "off (snd xc)") (auto simp: has_data_def chain_bytes_def)
  ultimately show ?thesis by simp
qed

lemma preserve_run: "holds s i ei ci \<Longrightarrow> PRESERVE_PINNED i s = Inr ((0, 0, 0), s)"
  by (simp add: PRESERVE_PINNED_def bnd_Inr [OF has_pinned_run] ret_def)

text \<open>The state in which all of \<open>inbuf\<close>'s chains belong to \<open>outbuf\<close>, before \<open>inbuf\<close> is reset.\<close>

definition moves :: "evstate \<Rightarrow> nat \<Rightarrow> nat \<Rightarrow> evbuffer \<Rightarrow> nat set \<Rightarrow> evbuffer \<Rightarrow> (nat \<times> evbuffer_chain) list \<Rightarrow> fault + unit \<times> evstate \<Rightarrow> bool" where
  "moves s ob i eo X ei cs r \<longleftrightarrow> (\<exists>s' e'. r = Inr ((), s') \<and> holds s' ob e' cs \<and> settings e' = settings eo \<and> eb_heap s' i = Some ei
     \<and> evolves s s' {ob} X (set (addrs cs)) \<and> ev_brk s' = ev_brk s)"

lemma append_chain_run:
  assumes h: "holds s ob eo co" "holds s i ei ci" "wf_ev s" "ob \<noteq> i" "set (addrs co) \<inter> set (addrs ci) = {}"
    "tight co" "content co \<noteq> []" "content ci \<noteq> []" "total_len eo + total_len ei < 2 ^ 64"
  shows "moves s ob i eo (set (addrs (co @ ci))) ei (co @ ci) (APPEND_CHAIN ob i s)"
proof -
  have "co \<noteq> []" using h(7) by auto
  then obtain as x c where co: "co = as @ [(x, c)]" by (rule snoc_cases)
  have sp: "spare co = []" "used ci \<noteq> []" using h(8) holds_content [OF h(2)] tight_full [OF h(6,7)] by auto
  note at = chain_at [of s ob eo as x c "[]"]
  have l: "eb_last eo = x" "ch_heap s x = Some (c\<lparr>ch_next := 0\<rparr>)" "0 < x" using holds_simps(6) [OF h(1)] at h(1) co by (simp_all add: last_addr_def)
  let ?e = "eo\<lparr>last_with_datap := if last_with_datap ei = First i then Next x else last_with_datap ei, eb_last := eb_last ei,
      total_len := total_len eo + total_len ei\<rparr>"
  let ?s = "s\<lparr>ch_heap := (ch_heap s)(x \<mapsto> c\<lparr>ch_next := eb_first ei\<rparr>), eb_heap := (eb_heap s)(ob \<mapsto> ?e)\<rparr>"
  have "APPEND_CHAIN ob i s = Inr ((), ?s)"
    using holds_simps(1,2) [OF h(1)] holds_simps(1,2) [OF h(2)] l h(9) by (simp add: APPEND_CHAIN_def run_simps)
  moreover have "holds ?s ob ?e (co @ ci)"
    unfolding co by (rule holds_join [OF h(1) [unfolded co] _ h(2)]) (use h sp co holds_simps(1) [OF h(1)] in simp_all)
  moreover have "evolves s ?s {ob} (set (addrs (co @ ci))) (set (addrs (co @ ci)))"
    by (rule evolves_step(1) [OF h(3)]) (use co holds_addrs_less [OF h(1)] holds_addrs_less [OF h(2)] in auto)
  moreover have "eb_heap ?s i = Some ei" using holds_simps(2) [OF h(2)] h(4) by simp
  ultimately show ?thesis unfolding moves_def by (intro exI [of _ ?s] exI [of _ ?e]) simp
qed

lemma rd_last_run:
  assumes "holds s b e cs" "used cs \<noteq> []"
  shows "rd_cell (last_with_datap e) s = Inr (fst (cs ! (length (used cs) - 1)), s)"
proof -
  note h = holds_simps [OF assms(1)]
  let ?k = "length (used cs) - 1"
  have k: "?k < length cs" using assms(2) length_takeWhile_le [of has_data cs] by (cases "used cs") auto
  then have "drop ?k cs = cs ! ?k # drop (Suc ?k) cs" by (rule Cons_nth_drop_Suc [symmetric])
  then show ?thesis using rd_cell_run [OF h(3,2,1), of ?k] k h(7) by simp
qed

lemma prepend_chains_run:
  assumes h: "holds s ob eo co" "holds s i ei ci" "wf_ev s" "ob \<noteq> i" "set (addrs co) \<inter> set (addrs ci) = {}"
    "tight ci" "content co \<noteq> []" "content ci \<noteq> []" "total_len eo + total_len ei < 2 ^ 64"
  shows "moves s ob i eo (set (addrs (co @ ci))) ei (ci @ co) (PREPEND_CHAIN ob i s)"
proof -
  have "ci \<noteq> []" using h(8) by auto
  then obtain as x c where ci: "ci = as @ [(x, c)]" by (rule snoc_cases)
  have sp: "spare ci = []" "used co \<noteq> []" using h(7) holds_content [OF h(1)] tight_full [OF h(6,8)] by auto
  note at = chain_at [of s i ei as x c "[]"] and ho = holds_simps [OF h(1)] and hi = holds_simps [OF h(2)]
  have l: "eb_last ei = x" "ch_heap s x = Some (c\<lparr>ch_next := 0\<rparr>)" "0 < x" using hi(6) at h(2) ci by (simp_all add: last_addr_def)
  let ?e1 = "eo\<lparr>eb_first := eb_first ei, total_len := total_len eo + total_len ei\<rparr>"
  let ?e = "if last_with_datap eo = First ob then ?e1\<lparr>last_with_datap := Next x\<rparr> else ?e1"
  let ?s = "s\<lparr>ch_heap := (ch_heap s)(x \<mapsto> c\<lparr>ch_next := eb_first eo\<rparr>), eb_heap := (eb_heap s)(ob \<mapsto> ?e)\<rparr>"
  have "PREPEND_CHAIN ob i s = Inr ((), ?s)"
  proof (cases "last_with_datap eo = First ob")
    case True
    moreover have "eb_first ei \<noteq> 0" using hi(3,12) ci chain_seg_nz [OF hi(3)] by (cases as) auto
    ultimately show ?thesis using ho(1,2) hi(1,2) l h(9) by (simp add: PREPEND_CHAIN_def run_simps add.commute)
  next
    case False
    let ?k = "length (used co) - 1"
    define y where "y = fst (co ! (?k - 1))"
    have k: "?k < length co" "last_with_datap eo = Next y"
      using False ho(7) sp(2) length_takeWhile_le [of has_data co] by (cases "used co"; auto simp: cell_of_def y_def split: if_splits)+
    then have "y \<in> set (addrs co)" "fst (co ! ?k) \<in> set (addrs co)" by (auto simp: y_def)
    moreover have "x \<in> set (addrs ci)" using ci by simp
    ultimately have ne: "y \<noteq> x" "fst (co ! ?k) \<noteq> 0" using h(5) chain_seg_nz [OF ho(3)] by (blast, metis)
    have "rd_cell (Next y) s = Inr (fst (co ! ?k), s)" using rd_last_run [OF h(1) sp(2)] k(2) by simp
    then obtain cy where cy: "ch_heap s y = Some cy" "0 < y" "ch_next cy = fst (co ! ?k)"
      by (auto simp: ld_chain_def bnd_def ret_def split: if_splits option.splits)
    show ?thesis using ho(1,2) hi(1,2) l h(9) False k(2) cy ne by (simp add: PREPEND_CHAIN_def run_simps add.commute)
  qed
  moreover have "holds ?s ob ?e (ci @ co)"
    unfolding ci by (rule holds_join [OF h(2) [unfolded ci] _ h(1)]) (use h sp ci ho(1) in \<open>auto simp: add.commute\<close>)
  moreover have "evolves s ?s {ob} (set (addrs (co @ ci))) (set (addrs (ci @ co)))"
    using evolves_step(1) [OF h(3), of x "set (addrs (co @ ci))" ob "{ob}"] ci holds_addrs_less [OF h(1)] holds_addrs_less [OF h(2)]
    by (simp add: Un_ac)
  moreover have "eb_heap ?s i = Some ei" using hi(2) h(4) by simp
  ultimately show ?thesis unfolding moves_def by (intro exI [of _ ?s] exI [of _ ?e]) (simp add: settings_def)
qed

lemma copy_chain_run:
  assumes h: "holds s ob eo co" "holds s i ei ci" "wf_ev s" "ob \<noteq> i" "set (addrs co) \<inter> set (addrs ci) = {}"
  shows "moves s ob i eo (set (addrs (co @ ci))) ei ci (bnd (evbuffer_free_all_chains (eb_first eo)) (\<lambda>_. COPY_CHAIN ob i) s)"
proof -
  note ho = holds_simps [OF h(1)] and hi = holds_simps [OF h(2)]
  let ?e = "eo\<lparr>eb_first := eb_first ei, last_with_datap := if last_with_datap ei = First i then First ob else last_with_datap ei,
       eb_last := eb_last ei, total_len := total_len ei\<rparr>"
  let ?s1 = "s\<lparr>ch_heap := without (ch_heap s) (set (addrs co)), ev_log := ev_log s @ cleanups co\<rparr>"
  let ?s = "?s1\<lparr>eb_heap := (eb_heap s)(ob \<mapsto> ?e)\<rparr>"
  have fr: "free_chains_loop (Suc (ev_brk s)) (eb_first eo) s = Inr ((), ?s1)"
    by (rule free_chains_run [OF ho(3,4,9) holds_fuel [OF h(1)]])
  have "bnd (evbuffer_free_all_chains (eb_first eo)) (\<lambda>_. COPY_CHAIN ob i) s = Inr ((), ?s)"
    using ho(1,2) hi(1,2) by (simp add: evbuffer_free_all_chains_def COPY_CHAIN_def run_simps fr del: free_chains_loop.simps)
  moreover have "holds ?s ob ?e ci"
    by (rule holds_moved [OF h(2)]) (use h(5) ho(1) in \<open>auto simp: without_def\<close>)
  moreover have "evolves s ?s {ob} (set (addrs (co @ ci))) (set (addrs ci))"
    by (rule evolvesI [OF h(3)]) (use holds_addrs_less [OF h(1)] holds_addrs_less [OF h(2)] h(5) in \<open>auto simp: without_def\<close>)
  moreover have "eb_heap ?s i = Some ei" using hi(2) h(4) by simp
  ultimately show ?thesis unfolding moves_def by (intro exI [of _ ?s] exI [of _ ?e]) (simp add: settings_def)
qed

section \<open>The two operations\<close>

text \<open>The buffers after a transfer: \<open>inbuf\<close> is empty, \<open>outbuf\<close> has the chains \<open>cs\<close>.\<close>

definition transfers :: "evstate \<Rightarrow> nat \<Rightarrow> evbuffer \<Rightarrow> nat \<Rightarrow> evbuffer \<Rightarrow> nat set \<Rightarrow> (nat \<times> evbuffer_chain) list \<Rightarrow> evstate \<Rightarrow> bool" where
  "transfers s ob eo i ei X cs s' \<longleftrightarrow> (\<exists>eo' ei'. holds s' ob eo' cs \<and> settings eo' = settings eo \<and> holds s' i ei' []
     \<and> settings ei' = settings ei) \<and> evolves s s' {ob, i} X (set (addrs cs))"

lemma evolves_mono: "evolves s s' B X X' \<Longrightarrow> B \<subseteq> B' \<Longrightarrow> evolves s s' B' X X'"
  by (auto simp: evolves_def)

lemma transfer_end_run:
  assumes h: "holds s ob eo cs" "eb_heap s i = Some ei" "ob \<noteq> i" "i \<noteq> 0" "wf_ev s" "i < ev_brk s"
  obtains s' eo' ei' where "bnd (RESTORE_PINNED i 0 0) (\<lambda>_.
         bnd (upd_buf i (\<lambda>x. x\<lparr>n_del_for_cb := sz_add (n_del_for_cb x) n\<rparr>)) (\<lambda>_.
         bnd (upd_buf ob (\<lambda>x. x\<lparr>n_add_for_cb := sz_add (n_add_for_cb x) n\<rparr>)) (\<lambda>_.
         bnd (evbuffer_invoke_callbacks i) (\<lambda>_.
         bnd (evbuffer_invoke_callbacks ob) (\<lambda>_. ret (0 :: int)))))) s = Inr (0, s')"
    "holds s' ob eo' cs" "settings eo' = settings eo" "holds s' i ei' []" "settings ei' = settings ei" "\<forall>X. evolves s s' {ob, i} X X"
proof -
  note ho = holds_simps [OF h(1)]
  let ?ei = "ei\<lparr>eb_first := 0, eb_last := 0, last_with_datap := First i, total_len := 0, n_del_for_cb := sz_add (n_del_for_cb ei) n\<rparr>"
    and ?eo = "eo\<lparr>n_add_for_cb := sz_add (n_add_for_cb eo) n\<rparr>"
  let ?t = "s\<lparr>eb_heap := (eb_heap s)(i \<mapsto> ?ei, ob \<mapsto> ?eo)\<rparr>"
  obtain ei' l where i': "evbuffer_invoke_callbacks i ?t = Inr ((), ?t\<lparr>eb_heap := (eb_heap ?t)(i \<mapsto> ei'), ev_log := l\<rparr>)" "same_core ?ei ei'"
    using invoke_run [of ?t i ?ei] h(3,4) by auto
  let ?u = "?t\<lparr>eb_heap := (eb_heap ?t)(i \<mapsto> ei'), ev_log := l\<rparr>"
  obtain eo' l' where o': "evbuffer_invoke_callbacks ob ?u = Inr ((), ?u\<lparr>eb_heap := (eb_heap ?u)(ob \<mapsto> eo'), ev_log := l'\<rparr>)" "same_core ?eo eo'"
    using invoke_run [of ?u ob ?eo] h(3) ho(1) by auto
  let ?v = "?u\<lparr>eb_heap := (eb_heap ?u)(ob \<mapsto> eo'), ev_log := l'\<rparr>"
  show thesis
  proof (rule that)
    show "bnd (RESTORE_PINNED i 0 0) (\<lambda>_.
         bnd (upd_buf i (\<lambda>x. x\<lparr>n_del_for_cb := sz_add (n_del_for_cb x) n\<rparr>)) (\<lambda>_.
         bnd (upd_buf ob (\<lambda>x. x\<lparr>n_add_for_cb := sz_add (n_add_for_cb x) n\<rparr>)) (\<lambda>_.
         bnd (evbuffer_invoke_callbacks i) (\<lambda>_.
         bnd (evbuffer_invoke_callbacks ob) (\<lambda>_. ret (0 :: int)))))) s = Inr (0, ?v)"
      using h(2-4) ho(1,2) i'(1) o'(1) by (simp add: RESTORE_PINNED_def ZERO_CHAIN_def run_simps)
    show "holds ?v ob eo' cs" using h(1) o'(2) by (simp add: holds_def same_core_def)
    show "holds ?v i ei' []" using h(3,4) i'(2) by (simp add: holds_def same_core_def last_addr_def cell_of_def)
    show "settings eo' = settings eo" "settings ei' = settings ei" using i'(2) o'(2) by (simp_all add: same_core_def settings_def)
    show "\<forall>X. evolves s ?v {ob, i} X X" using h(5) by (auto simp: evolves_def wf_ev_def)
  qed
qed

lemma transfer_run:
  assumes h: "holds s ob eo co" "holds s i ei ci" "wf_ev s" "ob \<noteq> i" "set (addrs co) \<inter> set (addrs ci) = {}"
    "\<not> frozen eo" "\<not> freeze_start ei" "content ci \<noteq> []"
    and link: "content co \<noteq> [] \<Longrightarrow> moves s ob i eo (set (addrs (co @ ci))) ei cs (link ob i s)"
  shows "\<exists>s'. transfer_buffer frozen link ob i s = Inr (0, s')
    \<and> transfers s ob eo i ei (set (addrs (co @ ci))) (if content co = [] then ci else cs) s'"
proof -
  note ho = holds_simps [OF h(1)] and hi = holds_simps [OF h(2)]
  let ?cs = "if content co = [] then ci else cs" and ?X = "set (addrs (co @ ci))"
  define body where "body = (if total_len eo = 0 then bnd (evbuffer_free_all_chains (eb_first eo)) (\<lambda>_. COPY_CHAIN ob i) else link ob i)"
  have "moves s ob i eo ?X ei ?cs (body s)"
    using copy_chain_run [OF h(1-5)] link ho(10) by (simp add: body_def)
  then obtain s1 e1 where s1: "body s = Inr ((), s1)" "holds s1 ob e1 ?cs" "settings e1 = settings eo" "eb_heap s1 i = Some ei"
    "evolves s s1 {ob} ?X (set (addrs ?cs))" "ev_brk s1 = ev_brk s" unfolding moves_def by blast
  have lt: "ob < ev_brk s" "i < ev_brk s1" using holds_buf_less [OF h(1,3)] holds_buf_less [OF h(2,3)] s1(6) by simp_all
  have wf: "wf_ev s1" using evolves_wf [OF h(3) s1(5)] holds_addrs_less [OF s1(2)] lt(1) by simp
  obtain s' eo' ei' where s': "bnd (RESTORE_PINNED i 0 0) (\<lambda>_.
         bnd (upd_buf i (\<lambda>x. x\<lparr>n_del_for_cb := sz_add (n_del_for_cb x) (total_len ei)\<rparr>)) (\<lambda>_.
         bnd (upd_buf ob (\<lambda>x. x\<lparr>n_add_for_cb := sz_add (n_add_for_cb x) (total_len ei)\<rparr>)) (\<lambda>_.
         bnd (evbuffer_invoke_callbacks i) (\<lambda>_.
         bnd (evbuffer_invoke_callbacks ob) (\<lambda>_. ret (0 :: int)))))) s1 = Inr (0, s')"
    "holds s' ob eo' ?cs" "settings eo' = settings e1" "holds s' i ei' []" "settings ei' = settings ei" "\<forall>X. evolves s1 s' {ob, i} X X"
    by (rule transfer_end_run [OF s1(2,4) h(4) hi(1) wf lt(2)])
  have "transfer_buffer frozen link ob i s = Inr (0, s')"
    using ho(1,2) hi(1,2,10) h(4,6-8) s'(1)
    by (simp add: transfer_buffer_def run_bnd_simps body_def [symmetric] bnd_Inr [of "PRESERVE_PINNED i", OF preserve_run [OF h(2)]]
        bnd_Inr [of body, OF s1(1)] del: if_split)
  moreover have "evolves s s' {ob, i} ?X (set (addrs ?cs))"
    using evolves_trans evolves_mono [OF s1(5), of "{ob, i}"] s'(6) by blast
  ultimately show ?thesis using s' s1(3) unfolding transfers_def by (intro exI [of _ s'] conjI exI [of _ eo'] exI [of _ ei']) simp_all
qed

theorem evbuffer_add_buffer_run:
  assumes h: "holds s ob eo co" "holds s i ei ci" "wf_ev s" "ob \<noteq> i" "set (addrs co) \<inter> set (addrs ci) = {}"
    "\<not> freeze_end eo" "\<not> freeze_start ei" "content ci \<noteq> []" "tight co" "total_len eo + total_len ei < 2 ^ 64"
  shows "\<exists>s' cs. evbuffer_add_buffer ob i s = Inr (0, s') \<and> transfers s ob eo i ei (set (addrs (co @ ci))) cs s'
    \<and> content cs = content co @ content ci \<and> (tight ci \<longrightarrow> tight cs)"
proof -
  have "\<exists>s'. evbuffer_add_buffer ob i s = Inr (0, s') \<and> transfers s ob eo i ei (set (addrs (co @ ci))) (if content co = [] then ci else co @ ci) s'"
    unfolding evbuffer_add_buffer_def by (rule transfer_run [of s ob eo co i ei ci freeze_end "co @ ci" APPEND_CHAIN, OF h(1-8) append_chain_run [OF h(1-5,9) _ h(8,10)]])
  moreover have "tight ci \<Longrightarrow> tight (co @ ci)" if "content co \<noteq> []"
    using tight_full [OF h(9) that] tight_full [OF _ h(8)] by (auto simp: tight_def dropWhile_append)
  moreover have "content (if content co = [] then ci else co @ ci) = content co @ content ci" by simp
  ultimately show ?thesis by (cases "content co = []") fastforce+
qed

theorem evbuffer_prepend_buffer_run:
  assumes h: "holds s ob eo co" "holds s i ei ci" "wf_ev s" "ob \<noteq> i" "set (addrs co) \<inter> set (addrs ci) = {}"
    "\<not> freeze_start eo" "\<not> freeze_start ei" "content ci \<noteq> []" "tight ci" "total_len eo + total_len ei < 2 ^ 64"
  shows "\<exists>s' cs. evbuffer_prepend_buffer ob i s = Inr (0, s') \<and> transfers s ob eo i ei (set (addrs (co @ ci))) cs s'
    \<and> content cs = content ci @ content co \<and> (tight co \<longrightarrow> tight cs)"
proof -
  have "\<exists>s'. evbuffer_prepend_buffer ob i s = Inr (0, s') \<and> transfers s ob eo i ei (set (addrs (co @ ci))) (if content co = [] then ci else ci @ co) s'"
    unfolding evbuffer_prepend_buffer_def by (rule transfer_run [of s ob eo co i ei ci freeze_start "ci @ co" PREPEND_CHAIN, OF h(1-8) prepend_chains_run [OF h(1-5,9) _ h(8,10)]])
  moreover have "tight co \<Longrightarrow> tight (ci @ co)" if "content co \<noteq> []"
    using tight_full [OF h(9,8)] tight_full [OF _ that] by (auto simp: tight_def dropWhile_append)
  moreover have "content (if content co = [] then ci else ci @ co) = content ci @ content co" by simp
  ultimately show ?thesis using h(9) by (cases "content co = []") fastforce+
qed

end
