(* ===== verification/Evbuffer_Pullup.thy ===== *)
theory Evbuffer_Pullup
  imports Evbuffer_Move
begin

unbundle bit_operations_syntax

text \<open>
  \<open>evbuffer_pullup\<close> makes the first bytes of a buffer contiguous: the chains it collects are copied into
  one chain and freed, the content does not change.
\<close>

lemma put_Nil [simp]: "put f i [] = f"
  by (auto simp: put_def fun_eq_iff)

lemma put_put: "put (put f i xs) (i + length xs) ys = put f i (xs @ ys)"
  by (auto simp: put_def fun_eq_iff nth_append)

lemma pinned_loop_run:
  assumes "chain_seg (ch_heap s) p ds 0" "\<forall>xc\<in>set ds. chain_ok (snd xc)" "length ds < f"
  shows "pinned_loop f p n s = Inr (False, s)"
  using assms
proof (induction ds arbitrary: f p n)
  case (Cons xc ds)
  obtain g where f: "f = Suc g" using Cons.prems(3) by (cases f) auto
  note x = chain_seg_Cons [OF Cons.prems(1)]
  have "\<not> CHAIN_PINNED (snd xc)" using Cons.prems(2) chain_ok_flags by auto
  then show ?case using Cons.IH [OF x(4)] Cons.prems(2,3) x(2,3) f by (simp add: run_simps)
qed (auto simp: gr0_conv_Suc)

lemma pullup_loop_run:
  assumes "chain_seg (ch_heap s) p ds 0" "distinct (addrs ds)" "\<forall>xc\<in>set ds. chain_ok (snd xc)" "tmp \<notin> set (addrs ds)"
    "ch_heap s tmp = Some t" "0 < tmp" "eb_heap s b = Some e" "0 < b" "dest + n \<le> buffer_len t" "length ds < f"
  shows "\<exists>as rs. ds = as @ rs \<and> length (content as) \<le> n \<and> (rs = [] \<or> n - length (content as) < off (snd (hd rs)))
    \<and> pullup_loop f b tmp lwd p n dest rm rmp s = Inr ((head_addr rs 0, n - length (content as), dest + length (content as),
        rm \<or> lwd \<in> set (addrs as), rmp \<or> last_with_datap e \<in> Next ` set (addrs as)),
        s\<lparr>ch_heap := (without (ch_heap s) (set (addrs as)))(tmp \<mapsto> t\<lparr>ch_buffer := put (ch_buffer t) dest (content as)\<rparr>),
          ev_log := ev_log s @ cleanups as\<rparr>)"
  using assms
proof (induction ds arbitrary: s t p n dest rm rmp f)
  case Nil
  then obtain g where "f = Suc g" by (cases f) auto
  then show ?case using Nil by (intro exI [of _ "[]"]) (simp add: fun_upd_idem ret_def)
next
  case (Cons xc ds)
  obtain x c where xc: "xc = (x, c)" by (cases xc)
  obtain g where f: "f = Suc g" using Cons.prems(10) by (cases f) auto
  note x = chain_seg_Cons [OF Cons.prems(1), unfolded xc fst_conv snd_conv]
  have ok: "chain_ok c" "misalign c + off c \<le> buffer_len c" using Cons.prems(3) xc chain_okD(1) [of c] by auto
  show ?case
  proof (cases "off c \<le> n")
    case False
    then have "pullup_loop f b tmp lwd p n dest rm rmp s = Inr ((x, n, dest, rm, rmp), s)"
      using x f by (simp add: run_simps)
    then show ?thesis using False xc Cons.prems(5)
      by (intro exI [of _ "[]"] exI [of _ "xc # ds"]) (simp add: fun_upd_idem cleanups_def)
  next
    case True
    let ?t = "t\<lparr>ch_buffer := put (ch_buffer t) dest (chain_bytes c)\<rparr>"
    let ?s1 = "s\<lparr>ch_heap := (ch_heap s)(tmp \<mapsto> ?t)\<rparr>"
    let ?s2 = "s\<lparr>ch_heap := (without (ch_heap s) {x})(tmp \<mapsto> ?t), ev_log := ev_log s @ cleanups [xc]\<rparr>"
    have ne: "x \<noteq> tmp" "x \<notin> set (addrs ds)" "tmp \<notin> set (addrs ds)" using Cons.prems(2,4) xc by auto
    have "ch_heap ?s1 p = Some (c\<lparr>ch_next := head_addr ds 0\<rparr>)" "p \<noteq> 0" "chain_ok (c\<lparr>ch_next := head_addr ds 0\<rparr>)"
      using x ne ok(1) by simp_all
    then have "evbuffer_chain_free p ?s1 = Inr ((), ?s1\<lparr>ch_heap := (ch_heap ?s1)(p := None), ev_log := ev_log ?s1 @ cleanup_calls (c\<lparr>ch_next := head_addr ds 0\<rparr>)\<rparr>)"
      by (intro chain_free_run)
    moreover have "(ch_heap ?s1)(p := None) = (without (ch_heap s) {x})(tmp \<mapsto> ?t)" using x(1) ne by (auto simp: without_def fun_eq_iff)
    ultimately have fr: "evbuffer_chain_free p ?s1 = Inr ((), ?s2)" using xc by simp
    have step: "pullup_loop f b tmp lwd p n dest rm rmp s
        = pullup_loop g b tmp lwd (head_addr ds 0) (n - off c) (dest + off c) (rm \<or> p = lwd) (rmp \<or> Next p = last_with_datap e) ?s2"
      using x ok(2) Cons.prems(5-9) True f fr by (simp add: run_simps chain_bytes_def)
    have "chain_seg (ch_heap ?s2) (head_addr ds 0) ds 0"
      by (rule iffD2 [OF chain_seg_cong x(4)]) (use ne in \<open>auto simp: without_def\<close>)
    moreover have "distinct (addrs ds)" "\<forall>xc\<in>set ds. chain_ok (snd xc)" "ch_heap ?s2 tmp = Some ?t" "eb_heap ?s2 b = Some e"
      "dest + off c + (n - off c) \<le> buffer_len ?t" "length ds < g"
      using Cons.prems f True by simp_all
    ultimately have pre: "chain_seg (ch_heap ?s2) (head_addr ds 0) ds 0" "distinct (addrs ds)" "\<forall>xc\<in>set ds. chain_ok (snd xc)" "tmp \<notin> set (addrs ds)"
      "ch_heap ?s2 tmp = Some ?t" "0 < tmp" "eb_heap ?s2 b = Some e" "0 < b" "dest + off c + (n - off c) \<le> buffer_len ?t" "length ds < g"
      using ne(3) Cons.prems(6,8) by blast+
    obtain as rs where IH: "ds = as @ rs" "length (content as) \<le> n - off c" "rs = [] \<or> n - off c - length (content as) < off (snd (hd rs))"
      "pullup_loop g b tmp lwd (head_addr ds 0) (n - off c) (dest + off c) (rm \<or> p = lwd) (rmp \<or> Next p = last_with_datap e) ?s2
        = Inr ((head_addr rs 0, n - off c - length (content as), dest + off c + length (content as),
        (rm \<or> p = lwd) \<or> lwd \<in> set (addrs as), (rmp \<or> Next p = last_with_datap e) \<or> last_with_datap e \<in> Next ` set (addrs as)),
        ?s2\<lparr>ch_heap := (without (ch_heap ?s2) (set (addrs as)))(tmp \<mapsto> ?t\<lparr>ch_buffer := put (ch_buffer ?t) (dest + off c) (content as)\<rparr>),
          ev_log := ev_log ?s2 @ cleanups as\<rparr>)"
      using Cons.IH [OF pre, of "rm \<or> p = lwd" "rmp \<or> Next p = last_with_datap e"] by blast
    have "put (put (ch_buffer t) dest (chain_bytes c)) (dest + off c) (content as) = put (ch_buffer t) dest (content (xc # as))"
      using put_put [of "ch_buffer t" dest "chain_bytes c"] xc by simp
    moreover have "(without ((without (ch_heap s) {x})(tmp \<mapsto> ?t)) (set (addrs as)))(tmp \<mapsto> u) = (without (ch_heap s) (set (addrs (xc # as))))(tmp \<mapsto> u)" for u
      using xc by (auto simp: without_def fun_eq_iff)
    moreover have "cleanups [xc] @ cleanups as = cleanups (xc # as)" by (simp add: cleanups_def)
    ultimately show ?thesis
      using IH x(1) xc True unfolding step
      by - (rule exI [of _ "xc # as"], rule exI [of _ rs], auto simp: add.assoc fun_upd_def)
  qed
qed

section \<open>The links after collecting\<close>

text \<open>The data of the collecting chain.\<close>

lemma collected_ok:
  assumes "chain_ok t" "mutable t"
  shows "chain_ok (t\<lparr>ch_buffer := m\<rparr>)" "mutable (t\<lparr>ch_buffer := m\<rparr>)"
  using assms by (simp_all add: chain_ok_def mutable_def)

lemma set_data_link [simp]: "ch_next (set_data c m n f) = ch_next c"
  by (simp add: set_data_def)

lemma collected_bytes: "off t = k + length xs \<Longrightarrow> chain_bytes (t\<lparr>ch_buffer := put (ch_buffer t) (misalign t + k) xs\<rparr>) = slice (ch_buffer t) (misalign t) k @ xs"
  by (simp add: chain_bytes_def slice_put_append)

lemma pullup_finish_all:
  assumes "ch_heap s tmp = Some t" "0 < tmp" "eb_heap s b = Some e" "0 < b" "chain_ok t" "off t \<noteq> 0" "eb_first e = tmp" "tmp < ev_brk s"
    "total_len e = off t" "total_len e < 2 ^ 64"
  obtains s' e' where "pullup_finish b tmp 0 n dest True rmp s = Inr (Some (tmp, misalign t), s')" "holds s' b e' [(tmp, t)]"
    "settings e' = settings e" "s' = s\<lparr>ch_heap := (ch_heap s)(tmp \<mapsto> t\<lparr>ch_next := 0\<rparr>), eb_heap := (eb_heap s)(b \<mapsto> e')\<rparr>"
proof -
  let ?e = "e\<lparr>eb_last := tmp, last_with_datap := First b\<rparr>"
  let ?s = "s\<lparr>ch_heap := (ch_heap s)(tmp \<mapsto> t\<lparr>ch_next := 0\<rparr>), eb_heap := (eb_heap s)(b \<mapsto> ?e)\<rparr>"
  have "pullup_finish b tmp 0 n dest True rmp s = Inr (Some (tmp, misalign t), ?s)"
    using assms(1-4) by (simp add: pullup_finish_def run_simps ev_order)
  moreover have "holds ?s b ?e [(tmp, t)]"
    using assms by (simp add: holds_def last_addr_def cell_of_def has_data_def)
  ultimately show thesis by (intro that [of ?s ?e]) (simp_all add: settings_def)
qed

lemma pullup_finish_part:
  assumes seg: "chain_seg (ch_heap s) y ((y, d) # rs) 0" "distinct (addrs ((y, d) # rs))" "\<forall>xc\<in>set ((y, d) # rs). chain_ok (snd xc)"
      "\<forall>x\<in>set (addrs ((y, d) # rs)). x < ev_brk s" "\<forall>xc\<in>set (spare rs). \<not> has_data xc"
    and tm: "tmp \<notin> set (addrs ((y, d) # rs))" "ch_heap s tmp = Some t" "0 < tmp" "tmp < ev_brk s" "chain_ok t" "mutable t" "off t \<noteq> 0" "dest + n \<le> buffer_len t"
    and e: "eb_heap s b = Some e" "0 < b" "eb_first e = tmp" "eb_last e = last_addr ((y, d) # rs)" "n < off d"
      "rmp \<and> used rs = [] \<or> \<not> rmp \<and> last_with_datap e = cell_of b ((tmp, t) # (y, d) # rs) (Suc (length (used rs)))"
      "total_len e + n = length (content ((tmp, t) # (y, d) # rs))" "total_len e < 2 ^ 64"
  obtains s' e' where "pullup_finish b tmp y n dest False rmp s = Inr (Some (tmp, misalign t), s')"
    "holds s' b e' ((tmp, t\<lparr>ch_buffer := put (ch_buffer t) dest (take n (chain_bytes d))\<rparr>)
        # (y, set_data d (misalign d + n) (off d - n) (ch_buffer d)) # rs)" "settings e' = settings e"
    "ev_brk s' = ev_brk s" "ev_oom s' = ev_oom s" "ev_junk s' = ev_junk s"
    "\<forall>a. a \<noteq> b \<longrightarrow> eb_heap s' a = eb_heap s a" "\<forall>x. x \<notin> {tmp, y} \<longrightarrow> ch_heap s' x = ch_heap s x"
proof -
  let ?t = "t\<lparr>ch_buffer := put (ch_buffer t) dest (take n (chain_bytes d))\<rparr>" and ?d = "set_data d (misalign d + n) (off d - n) (ch_buffer d)"
  let ?e = "if rmp then e\<lparr>last_with_datap := Next tmp\<rparr> else e"
  let ?s = "s\<lparr>ch_heap := (ch_heap s)(y \<mapsto> ?d\<lparr>ch_next := head_addr rs 0\<rparr>, tmp \<mapsto> ?t\<lparr>ch_next := y\<rparr>), eb_heap := (eb_heap s)(b \<mapsto> ?e)\<rparr>"
  have y: "ch_heap s y = Some (d\<lparr>ch_next := head_addr rs 0\<rparr>)" "0 < y" "y \<noteq> tmp" "misalign d + off d \<le> buffer_len d" "chain_ok d"
    using seg(1,3) tm(1) chain_okD(1) [of d] by auto
  have run: "pullup_finish b tmp y n dest False rmp s = Inr (Some (tmp, misalign t), ?s)"
    using y tm(2,3,8) e(1-3,5) by (cases rmp) (simp_all add: pullup_finish_def run_simps ev_order chain_writes chain_bytes_def min_def fun_upd_twist fun_upd_idem)
  have seg': "chain_seg (ch_heap ?s) tmp ((tmp, ?t) # (y, ?d) # rs) 0"
    using seg(1,2) tm(1,3) y chain_seg_fun_upd [of _ rs] by auto
  have dd: "has_data (tmp, ?t)" "has_data (y, ?d)" using tm(7) e(5) by (simp_all add: has_data_def)
  have sp: "spare ((tmp, ?t) # (y, ?d) # rs) = spare rs" "length (used ((tmp, ?t) # (y, ?d) # rs)) = Suc (Suc (length (used rs)))"
    using dd by simp_all
  have "holds ?s b ?e ((tmp, ?t) # (y, ?d) # rs)"
    unfolding holds_def
  proof (intro conjI)
    show "last_with_datap ?e = cell_of b ((tmp, ?t) # (y, ?d) # rs) (length (used ((tmp, ?t) # (y, ?d) # rs)) - 1)"
      using e(6) unfolding sp(2) by (auto simp: cell_of_def nth_Cons split: nat.splits)
    show "\<forall>xc\<in>set (spare ((tmp, ?t) # (y, ?d) # rs)). \<not> has_data xc" using seg(5) unfolding sp(1) .
    show "\<forall>xc\<in>set ((tmp, ?t) # (y, ?d) # rs). chain_ok (snd xc)"
      using seg(3) collected_ok(1) [OF tm(5,6)] chain_ok_shift [OF y(5), of n] e(5) by simp
    show "total_len ?e = length (content ((tmp, ?t) # (y, ?d) # rs))" using e(5,7) by simp
    show "chain_seg (ch_heap ?s) (eb_first ?e) ((tmp, ?t) # (y, ?d) # rs) 0" using seg' e(3) by simp
  qed (use seg(2,4) tm(1,4) e(1-4,8) in \<open>auto simp: last_addr_def\<close>)
  then show thesis using that [of ?s ?e] run by (simp add: settings_def)
qed

text \<open>
  The collecting part as a whole. \<open>ds\<close> are the chains that are collected from and \<open>k\<close> bytes are in \<open>tmp\<close>
  already: the first chain of the buffer when it has room, or none when \<open>tmp\<close> is a new chain. If no chain was
  empty before (\<open>full\<close>), none is afterwards.
\<close>

definition pulls :: "evstate \<Rightarrow> nat \<Rightarrow> evbuffer \<Rightarrow> nat set \<Rightarrow> nat \<Rightarrow> nat \<Rightarrow> u8 list \<Rightarrow> bool \<Rightarrow> fault + (nat \<times> nat) option \<times> evstate \<Rightarrow> bool" where
  "pulls s b e X tmp n data full r \<longleftrightarrow> (\<exists>s' e' t rs. r = Inr (Some (tmp, misalign t), s') \<and> holds s' b e' ((tmp, t) # rs) \<and> settings e' = settings e
     \<and> 0 < n \<and> n \<le> off t \<and> (full \<longrightarrow> spare ((tmp, t) # rs) = []) \<and> content ((tmp, t) # rs) = data \<and> evolves s s' {b} X (set (addrs ((tmp, t) # rs))))"

lemma used_append_data:
  assumes "\<forall>xc\<in>set (spare (as @ (y, d) # rs)). \<not> has_data xc" "off d \<noteq> 0"
  shows "used (as @ (y, d) # rs) = as @ (y, d) # used rs" "spare (as @ (y, d) # rs) = spare rs"
proof -
  have "\<forall>xc\<in>set as. has_data xc"
  proof (rule ccontr)
    assume "\<not> ?thesis"
    then have "spare (as @ (y, d) # rs) = spare as @ (y, d) # rs" by (induction as) auto
    then have "(y, d) \<in> set (spare (as @ (y, d) # rs))" by simp
    then show False using assms by (metis has_data_def snd_conv)
  qed
  then show "used (as @ (y, d) # rs) = as @ (y, d) # used rs" "spare (as @ (y, d) # rs) = spare rs"
    using assms(2) by (simp_all add: has_data_def)
qed

lemma last_link_cases:
  assumes "used (as @ (y, d) # rs) = as @ (y, d) # used rs" "distinct (addrs (as @ (y, d) # rs))"
    "l = (if length (used (as @ (y, d) # rs)) = 1 then Next tmp
          else Next (fst ((as @ (y, d) # rs) ! (length (used (as @ (y, d) # rs)) - 2))))"
    "tmp \<notin> set (addrs (as @ (y, d) # rs))"
  shows "l \<in> Next ` set (addrs as) \<and> used rs = [] \<or> l \<notin> Next ` set (addrs as) \<and> l = cell_of b ((tmp, t) # (y, d) # rs) (Suc (length (used rs)))"
proof (cases "used rs")
  case Nil
  then have u: "length (used (as @ (y, d) # rs)) = Suc (length as)" using assms(1) by simp
  show ?thesis
  proof (cases as rule: rev_cases)
    case Nil
    then show ?thesis using assms(3) u \<open>used rs = []\<close> by (simp add: cell_of_def)
  next
    case (snoc bs z)
    then have "l = Next (fst z)" using assms(3) u by (simp add: nth_append)
    then show ?thesis using snoc Nil by simp
  qed
next
  case (Cons z zs)
  define m where "m = length zs"
  have u: "length (used (as @ (y, d) # rs)) = Suc (Suc (length as + m))" "length (used rs) = Suc m"
    using assms(1) Cons by (simp_all add: m_def)
  have l: "l = Next (fst (((y, d) # rs) ! m))" using assms(3) u(1) by (simp add: nth_append)
  have "m < length ((y, d) # rs)" using length_takeWhile_le [of has_data rs] u(2) by simp
  then have "((y, d) # rs) ! m \<in> set ((y, d) # rs)" by (rule nth_mem)
  then have "l \<notin> Next ` set (addrs as)" using assms(2) l by (auto simp: image_iff)
  moreover have "l = cell_of b ((tmp, t) # (y, d) # rs) (Suc (length (used rs)))" using l u(2) by (simp add: cell_of_def)
  ultimately show ?thesis by blast
qed

lemma pullup_end_run:
  assumes seg: "chain_seg (ch_heap s) p ds 0" "distinct (addrs ds)" "\<forall>xc\<in>set ds. chain_ok (snd xc)" "\<forall>x\<in>set (addrs ds). x < ev_brk s"
      "\<forall>xc\<in>set (spare ds). \<not> has_data xc" "used ds \<noteq> []"
    and tm: "tmp \<notin> set (addrs ds)" "ch_heap s tmp = Some t" "0 < tmp" "tmp < ev_brk s" "chain_ok t" "mutable t" "off t = k + n" "0 < n"
      "n \<le> length (content ds)"
    and e: "eb_heap s b = Some e" "0 < b" "eb_first e = tmp" "eb_last e = last_addr ds" "total_len e = k + length (content ds)" "total_len e < 2 ^ 64"
      "last_with_datap e = (if length (used ds) = 1 then Next tmp else Next (fst (ds ! (length (used ds) - 2))))" "wf_ev s"
  shows "pulls s b e (insert tmp (set (addrs ds))) tmp (k + n) (slice (ch_buffer t) (misalign t) k @ content ds) (spare ds = [])
    (bnd (with_brk (\<lambda>f. pullup_loop f b tmp (fst (ds ! (length (used ds) - 1))) p n (misalign t + k) False False))
       (\<lambda>(chain, sz, dest, rm, rmp). pullup_finish b tmp chain sz dest rm rmp) s)"
proof -
  let ?lwd = "fst (ds ! (length (used ds) - 1))" and ?dest = "misalign t + k"
  have room: "?dest + n \<le> buffer_len t" using chain_okD(1) [OF tm(5)] tm(7) by simp
  have "card (set (addrs ds)) \<le> card {..<ev_brk s}" by (rule card_mono) (use seg(4) in auto)
  then have fuel: "length ds < Suc (ev_brk s)" using distinct_card [OF seg(2)] by simp
  obtain as rs where lp: "ds = as @ rs" "length (content as) \<le> n" "rs = [] \<or> n - length (content as) < off (snd (hd rs))"
    "pullup_loop (Suc (ev_brk s)) b tmp ?lwd p n ?dest False False s = Inr ((head_addr rs 0, n - length (content as), ?dest + length (content as),
        ?lwd \<in> set (addrs as), last_with_datap e \<in> Next ` set (addrs as)),
        s\<lparr>ch_heap := (without (ch_heap s) (set (addrs as)))(tmp \<mapsto> t\<lparr>ch_buffer := put (ch_buffer t) ?dest (content as)\<rparr>),
          ev_log := ev_log s @ cleanups as\<rparr>)"
    using pullup_loop_run [OF seg(1-3) tm(1-3) e(1,2) room fuel, of ?lwd False False] by auto
  let ?t = "t\<lparr>ch_buffer := put (ch_buffer t) ?dest (content as)\<rparr>"
  let ?s = "s\<lparr>ch_heap := (without (ch_heap s) (set (addrs as)))(tmp \<mapsto> ?t), ev_log := ev_log s @ cleanups as\<rparr>"
  have k: "length (used ds) - 1 < length ds" using seg(6) length_takeWhile_le [of has_data ds] by (cases "used ds") auto
  note ok = collected_ok [OF tm(5,6), of "put (ch_buffer t) ?dest (content as)"]
  show ?thesis
  proof (cases rs)
    case Nil
    then have as: "as = ds" "length (content ds) = n" using lp(1,2) tm(9) by auto
    have "?lwd \<in> set (addrs as)" using as(1) k by simp
    moreover obtain s' e' where f: "pullup_finish b tmp 0 (n - length (content as)) (?dest + length (content as)) True (last_with_datap e \<in> Next ` set (addrs as)) ?s
        = Inr (Some (tmp, misalign ?t), s')" "holds s' b e' [(tmp, ?t)]" "settings e' = settings e"
        "s' = ?s\<lparr>ch_heap := (ch_heap ?s)(tmp \<mapsto> ?t\<lparr>ch_next := 0\<rparr>), eb_heap := (eb_heap ?s)(b \<mapsto> e')\<rparr>"
      by (rule pullup_finish_all [of ?s tmp ?t b e]) (use tm e ok(1) as in simp_all)
    moreover have "content [(tmp, ?t)] = slice (ch_buffer t) (misalign t) k @ content ds"
      using collected_bytes [of t k "content as"] tm(7) as by simp
    moreover have "evolves s s' {b} (insert tmp (set (addrs ds))) (set (addrs [(tmp, ?t)]))"
      unfolding f(4) by (rule evolvesI [OF e(8)]) (use tm(4) seg(4) as in \<open>auto simp: without_def\<close>)
    ultimately show ?thesis using lp(4) Nil tm(7,8) unfolding pulls_def
      by (intro exI [of _ s'] exI [of _ e'] exI [of _ ?t] exI [of _ "[]"]) (simp add: bnd_def with_brk_def del: pullup_loop.simps)
  next
    case (Cons yd rs1)
    obtain y d where yd: "yd = (y, d)" by (cases yd)
    let ?r = "n - length (content as)"
    have r: "?r < off d" "ds = as @ (y, d) # rs1" using lp(1,3) Cons yd by simp_all
    have d0: "off d \<noteq> 0" using r(1) by simp
    note u = used_append_data [OF seg(5) [unfolded r(2)] d0]
    have seg2: "chain_seg (ch_heap ?s) y ((y, d) # rs1) 0"
    proof (rule iffD2 [OF chain_seg_cong])
      show "chain_seg (ch_heap s) y ((y, d) # rs1) 0" using seg(1) unfolding r(2) chain_seg_append by auto
      show "ch_heap ?s x = ch_heap s x" if "x \<in> set (addrs ((y, d) # rs1))" for x
        using that seg(2) tm(1) unfolding r(2) by (auto simp: without_def)
    qed
    have l: "?lwd \<notin> set (addrs as)"
    proof -
      have "ds ! (length (used ds) - 1) = ((y, d) # rs1) ! length (used rs1)" unfolding r(2) u(1) by (simp add: nth_append)
      moreover have "((y, d) # rs1) ! length (used rs1) \<in> set ((y, d) # rs1)"
        using length_takeWhile_le [of has_data rs1] by (intro nth_mem) simp
      ultimately show ?thesis using seg(2) unfolding r(2) by (auto simp: image_iff)
    qed
    have lw: "last_with_datap e \<in> Next ` set (addrs as) \<and> used rs1 = [] \<or> last_with_datap e \<notin> Next ` set (addrs as)
        \<and> last_with_datap e = cell_of b ((tmp, ?t) # (y, d) # rs1) (Suc (length (used rs1)))"
      by (rule last_link_cases [OF u(1) seg(2) [unfolded r(2)] e(7) [unfolded r(2)] tm(1) [unfolded r(2)]])
    let ?t2 = "?t\<lparr>ch_buffer := put (ch_buffer ?t) (?dest + length (content as)) (take ?r (chain_bytes d))\<rparr>"
      and ?cs = "(tmp, ?t\<lparr>ch_buffer := put (ch_buffer ?t) (?dest + length (content as)) (take ?r (chain_bytes d))\<rparr>)
        # (y, set_data d (misalign d + ?r) (off d - ?r) (ch_buffer d)) # rs1"
    obtain s' e' where f: "pullup_finish b tmp y ?r (?dest + length (content as)) False (last_with_datap e \<in> Next ` set (addrs as)) ?s
        = Inr (Some (tmp, misalign ?t), s')" "holds s' b e' ?cs" "settings e' = settings e"
        "ev_brk s' = ev_brk ?s" "ev_oom s' = ev_oom ?s" "ev_junk s' = ev_junk ?s"
        "\<forall>a. a \<noteq> b \<longrightarrow> eb_heap s' a = eb_heap ?s a" "\<forall>x. x \<notin> {tmp, y} \<longrightarrow> ch_heap s' x = ch_heap ?s x"
    proof (rule pullup_finish_part [of ?s y d rs1 tmp ?t "?dest + length (content as)" ?r b e "last_with_datap e \<in> Next ` set (addrs as)"])
      show "chain_seg (ch_heap ?s) y ((y, d) # rs1) 0" by (rule seg2)
      show "\<forall>xc\<in>set (spare rs1). \<not> has_data xc" using seg(5) unfolding r(2) u(2) .
      show "total_len e + ?r = length (content ((tmp, ?t) # (y, d) # rs1))" using e(5) tm(7) lp(2) unfolding r(2) by simp
    qed (use seg(2-4) tm e(1-6) ok lw r room lp(2) in \<open>simp_all add: last_addr_def\<close>)
    have "take n (content ds) = content as @ take ?r (chain_bytes d)" "drop n (content ds) = drop ?r (chain_bytes d) @ content rs1"
      using lp(2) r by simp_all
    moreover have "chain_bytes ?t2 = slice (ch_buffer t) (misalign t) k @ take n (content ds)"
      using collected_bytes [of t k "take n (content ds)"] tm(7,9) put_put [of "ch_buffer t" ?dest "content as"] calculation(1) r(1) lp(2) by simp
    ultimately have ct: "content ?cs = slice (ch_buffer t) (misalign t) k @ content ds"
      using r(1) append_take_drop_id [of n "content ds"] chain_bytes_shift [of ?r d] by simp
    have "evolves s s' {b} (insert tmp (set (addrs ds))) (set (addrs ?cs))"
      by (rule evolvesI [OF e(8)]) (use f(4-8) tm(4) seg(4) r(2) in \<open>auto simp: without_def\<close>)
    moreover have "spare ds = [] \<longrightarrow> spare ?cs = []" using r(1) tm(7,8) u(2) unfolding r(2) by (simp add: has_data_def)
    ultimately show ?thesis using lp(4) Cons yd l f(1-3) ct tm(7,8) unfolding pulls_def
      by (intro exI [of _ s'] exI [of _ e'] exI [of _ ?t2] exI [of _ "tl ?cs"]) (simp add: bnd_def with_brk_def del: pullup_loop.simps)
  qed
qed

section \<open>The operation\<close>

lemma pulls_mono:
  assumes "evolves s s1 {b} X Y" "pulls s1 b e1 Y tmp n data full r" "settings e1 = settings e"
  shows "pulls s b e X tmp n data full r"
  using assms evolves_trans [OF assms(1)] unfolding pulls_def by metis

lemma rd_next_run:
  assumes "chain_seg (ch_heap s) p cs 0" "Suc i < length cs"
  shows "rd_cell (Next (fst (cs ! i))) s = Inr (fst (cs ! Suc i), s)"
  using chain_seg_nth [OF assms(1), of i] assms(2) by (simp add: run_simps flip: Cons_nth_drop_Suc)

lemma pullup_collect_run:
  assumes "eb_heap s b = Some e" "0 < b" "rd_cell (last_with_datap e) s = Inr (lwd, s)"
  shows "pullup_collect b (tmp, dest, n, p) s = bnd (with_brk (\<lambda>f. pullup_loop f b tmp lwd p n dest False False))
       (\<lambda>(chain, sz, dest, rm, rmp). pullup_finish b tmp chain sz dest rm rmp) s"
  using assms(1,2) bnd_Inr [of "rd_cell (last_with_datap e)", OF assms(3)] by (simp add: pullup_collect_def run_bnd_simps)

lemma pullup_in_place:
  assumes h: "holds s b e ((x, c) # bs)" "wf_ev s" "off c < n" "n \<le> length (content ((x, c) # bs))" "has_data (x, c)"
    and fits: "n \<le> buffer_len c - misalign c"
  shows "pulls s b e (set (addrs ((x, c) # bs))) x n (content ((x, c) # bs)) (spare ((x, c) # bs) = []) (pullup_collect b (x, misalign c + off c, n - off c, head_addr bs 0)
     (s\<lparr>ch_heap := (ch_heap s)(x \<mapsto> c\<lparr>ch_next := head_addr bs 0, off := n\<rparr>)\<rparr>))"
proof -
  note hs = holds_simps [OF h(1)] and at = chain_at [of s b e "[]" x c bs, simplified, OF h(1)]
  let ?t = "c\<lparr>ch_next := head_addr bs 0, off := n\<rparr>"
  let ?s = "s\<lparr>ch_heap := (ch_heap s)(x \<mapsto> ?t)\<rparr>"
  have mut: "mutable c" using chain_okD(5) [OF at(3)] fits h(3) by fastforce
  have ok: "chain_ok ?t" "mutable ?t" using set_data_ok [OF at(3) mut, of "misalign c" n "ch_buffer c"] mut fits h(3)
    by (auto simp: set_data_def chain_ok_def mutable_def)
  have sp: "spare ((x, c) # bs) = spare bs" "used ((x, c) # bs) = (x, c) # used bs" using h(5) by simp_all
  have sb: "\<forall>xc\<in>set (spare bs). \<not> has_data xc" using hs(8) unfolding sp(1) .
  have "content bs \<noteq> []" using h(3,4) by auto
  then have "used bs \<noteq> []" using content_empty [of bs] sb by (metis append_Nil takeWhile_dropWhile_id)
  then obtain m where m: "length (used bs) = Suc m" by (cases "used bs") auto
  then have ml: "m < length bs" using length_takeWhile_le [of has_data bs] by simp
  have ne: "x \<notin> set (addrs bs)" using hs(4) by simp
  have lw: "last_with_datap e = Next (fst (((x, c) # bs) ! m))" using hs(7) m unfolding sp(2) by (simp add: cell_of_def)
  have seg: "chain_seg (ch_heap ?s) (head_addr bs 0) bs 0" using hs(3) ne by (simp add: chain_seg_fun_upd)
  have seg': "chain_seg (ch_heap ?s) x ((x, ?t) # bs) 0" using seg at(2) by simp
  have "rd_cell (Next (fst (((x, ?t) # bs) ! m))) ?s = Inr (fst (bs ! m), ?s)" using rd_next_run [OF seg', of m] ml by simp
  moreover have "fst (((x, ?t) # bs) ! m) = fst (((x, c) # bs) ! m)" by (cases m) simp_all
  ultimately have rd: "rd_cell (last_with_datap e) ?s = Inr (fst (bs ! m), ?s)" using lw by simp
  have "pulls ?s b e (insert x (set (addrs bs))) x (off c + (n - off c)) (slice (ch_buffer ?t) (misalign ?t) (off c) @ content bs) (spare bs = [])
      (bnd (with_brk (\<lambda>f. pullup_loop f b x (fst (bs ! (length (used bs) - 1))) (head_addr bs 0) (n - off c) (misalign ?t + off c) False False))
       (\<lambda>(chain, sz, dest, rm, rmp). pullup_finish b x chain sz dest rm rmp) ?s)"
  proof (rule pullup_end_run [OF seg _ _ _ sb])
    show "last_with_datap e = (if length (used bs) = 1 then Next x else Next (fst (bs ! (length (used bs) - 2))))"
      using lw m by (cases m) simp_all
    show "eb_last e = last_addr bs" using hs(6) ml by (auto simp: last_addr_def)
    show "total_len e < 2 ^ 64" using hs(10,11) by simp
    show "wf_ev ?s" using h(2) hs(5) by (auto simp: wf_ev_def)
  qed (use hs(1,2,4,5,9,10,12) ne at(2) ok h(3,4) \<open>used bs \<noteq> []\<close> in \<open>auto simp: chain_bytes_def\<close>)
  moreover have "evolves s ?s {b} (set (addrs ((x, c) # bs))) (insert x (set (addrs bs)))"
    by (rule evolvesI [OF h(2)]) (use holds_addrs_less [OF h(1)] in auto)
  moreover have "pullup_collect b (x, misalign c + off c, n - off c, head_addr bs 0) ?s
      = bnd (with_brk (\<lambda>f. pullup_loop f b x (fst (bs ! m)) (head_addr bs 0) (n - off c) (misalign c + off c) False False))
       (\<lambda>(chain, sz, dest, rm, rmp). pullup_finish b x chain sz dest rm rmp) ?s"
    by (rule pullup_collect_run [OF _ _ rd]) (use hs(1,2) in simp_all)
  moreover have "content ((x, c) # bs) = slice (ch_buffer ?t) (misalign ?t) (off c) @ content bs" by (simp add: chain_bytes_def)
  moreover have "off c + (n - off c) = n" "fst (bs ! (length (used bs) - 1)) = fst (bs ! m)" "misalign ?t = misalign c" using h(3) m by simp_all
  ultimately show ?thesis using pulls_mono [OF _ _ refl, where e = e] unfolding sp(1) by metis
qed

lemma pullup_new_chain:
  assumes h: "holds s b e ((x, c) # bs)" "wf_ev s" "off c < n" "n \<le> length (content ((x, c) # bs))" "has_data (x, c)"
    and new: "new_chain n d"
  shows "pulls s b e (set (addrs ((x, c) # bs))) (ev_brk s) n (content ((x, c) # bs)) (spare ((x, c) # bs) = []) (pullup_collect b (ev_brk s, 0, n, x)
     (s\<lparr>ev_brk := Suc (ev_brk s), ch_heap := (ch_heap s)(ev_brk s \<mapsto> d\<lparr>off := n\<rparr>), eb_heap := (eb_heap s)(b \<mapsto> e\<lparr>eb_first := ev_brk s\<rparr>)\<rparr>))"
proof -
  let ?p = "ev_brk s" and ?cs = "(x, c) # bs" and ?t = "d\<lparr>off := n\<rparr>" and ?e = "e\<lparr>eb_first := ev_brk s\<rparr>"
  let ?s = "s\<lparr>ev_brk := Suc ?p, ch_heap := (ch_heap s)(?p \<mapsto> ?t), eb_heap := (eb_heap s)(b \<mapsto> ?e)\<rparr>"
  note hs = holds_simps [OF h(1)] and at = chain_at [of s b e "[]" x c bs, simplified, OF h(1)]
  have p: "0 < ?p" "?p \<notin> set (addrs ?cs)" using h(2) holds_new(2) [OF h(1)] by (simp_all add: wf_ev_def)
  have d: "chain_ok ?t" "mutable ?t" "misalign ?t = 0" "off ?t = 0 + n"
    using set_data_ok [OF new_chain_ok [OF new], of 0 n "ch_buffer d"] new_chain_ok(2) [OF new] new
    by (auto simp: set_data_def chain_ok_def mutable_def new_chain_def)
  have "content bs \<noteq> []" using h(3,4) by auto
  moreover have "\<forall>xc\<in>set (spare bs). \<not> has_data xc" using hs(8) h(5) by (simp only: dropWhile.simps if_True)
  ultimately have "used bs \<noteq> []" using content_empty [of bs] by (metis append_Nil takeWhile_dropWhile_id)
  then obtain m where m: "length (used ?cs) = Suc (Suc m)" using h(5) by (cases "used bs") auto
  then have ml: "Suc m < length ?cs" using length_takeWhile_le [of has_data ?cs] by simp
  have lw: "last_with_datap ?e = Next (fst (?cs ! m))" using hs(7) m by (simp add: cell_of_def)
  have seg: "chain_seg (ch_heap ?s) x ?cs 0" using hs(3,12) p(2) by (simp add: chain_seg_fun_upd)
  have rd: "rd_cell (last_with_datap ?e) ?s = Inr (fst (?cs ! Suc m), ?s)" using rd_next_run [OF seg ml] lw by simp
  have "pulls ?s b ?e (insert ?p (set (addrs ?cs))) ?p (0 + n) (slice (ch_buffer ?t) (misalign ?t) 0 @ content ?cs) (spare ?cs = [])
      (bnd (with_brk (\<lambda>f. pullup_loop f b ?p (fst (?cs ! (length (used ?cs) - 1))) x n (misalign ?t + 0) False False))
       (\<lambda>(chain, sz, dest, rm, rmp). pullup_finish b ?p chain sz dest rm rmp) ?s)"
  proof (rule pullup_end_run [OF seg hs(4,9) _ hs(8) _ p(2)])
    show "last_with_datap ?e = (if length (used ?cs) = 1 then Next ?p else Next (fst (?cs ! (length (used ?cs) - 2))))"
      using lw m by simp
    show "used ?cs \<noteq> []" using h(5) by simp
    show "\<forall>y\<in>set (addrs ?cs). y < ev_brk ?s" using hs(5) by auto
    show "wf_ev ?s" using h(2) holds_buf_less [OF h(1,2)] by (auto simp: wf_ev_def)
    show "total_len ?e < 2 ^ 64" using hs(10,11) by simp
    show "total_len ?e = 0 + length (content ?cs)" "eb_last ?e = last_addr ?cs" using hs(6,10) by simp_all
  qed (use p(1) d h(3,4) hs(1) in auto)
  moreover have "evolves s ?s {b} (set (addrs ?cs)) (insert ?p (set (addrs ?cs)))"
    using h(2) holds_addrs_less [OF h(1)] by (auto simp: evolves_def wf_ev_def)
  moreover have "pullup_collect b (?p, 0, n, x) ?s = bnd (with_brk (\<lambda>f. pullup_loop f b ?p (fst (?cs ! Suc m)) x n 0 False False))
       (\<lambda>(chain, sz, dest, rm, rmp). pullup_finish b ?p chain sz dest rm rmp) ?s"
    by (rule pullup_collect_run [OF _ _ rd]) (use hs(1) in simp_all)
  ultimately show ?thesis using pulls_mono [where e = e and ?e1.0 = ?e] m d(3) by (fastforce simp: settings_def)
qed

theorem evbuffer_pullup_run:
  assumes h: "holds s b e cs" "wf_ev s" "0 < n" "n \<le> length (content cs)" "len = int n \<or> len < 0 \<and> n = length (content cs)"
  shows "(\<exists>tmp. pulls s b e (set (addrs cs)) tmp n (content cs) (spare cs = []) (evbuffer_pullup b len s))
    \<or> (\<exists>s'. evbuffer_pullup b len s = Inr (None, s') \<and> \<not> room n s \<and> becomes s b e cs s' cs)"
proof -
  note hs = holds_simps [OF h(1)]
  have cs: "cs \<noteq> []" "used cs \<noteq> []" using h(3,4) holds_content [OF h(1)] by auto
  then obtain x c bs where c: "cs = (x, c) # bs" by (cases cs) auto
  have hd: "has_data (x, c)" using cs(2) c by (auto split: if_splits)
  note h1 = h(1) [unfolded c] and n1 = h(4) [unfolded c]
  note at = chain_at [of s b e "[]" x c bs, simplified, OF h1]
  have sz: "(if len < 0 then total_len e else nat len) = n" using h(5) hs(10) by auto
  have e1: "eb_first e = x" "x \<noteq> 0" using hs(12) c at(2) by simp_all
  have seg: "chain_seg (ch_heap s) (head_addr bs 0) bs 0" "\<forall>xc\<in>set bs. chain_ok (snd xc)" "length bs < Suc (ev_brk s)"
    using hs(3,9) holds_fuel [OF h(1)] unfolding c by auto
  note start = evbuffer_pullup_def [of b len, THEN fun_cong [of _ _ s]]
  show ?thesis
  proof (cases "n \<le> off c")
    case True
    have "evbuffer_pullup b len s = Inr (Some (x, misalign c), s)"
      using hs(1,2,10) h(3,4) True at e1 unfolding start by (simp add: run_simps sz Let_def)
    then have "pulls s b e (set (addrs cs)) x n (content cs) (spare cs = []) (evbuffer_pullup b len s)"
      using h(1,3) evolves_refl [OF h(2)] True unfolding pulls_def c
      by (intro exI [of _ s] exI [of _ e] exI [of _ c] exI [of _ bs] conjI) simp_all
    then show ?thesis by blast
  next
    case False
    let ?c = "c\<lparr>ch_next := head_addr bs 0\<rparr>"
    have run: "evbuffer_pullup b len s = bnd (pullup_target b x ?c n) (\<lambda>r. case r of None \<Rightarrow> ret None | Some x \<Rightarrow> pullup_collect b x) s"
      using hs(1,2,10) h(3,4) False at e1 pinned_loop_run [OF seg, of "n - off c"] unfolding start
      by (simp add: run_simps sz Let_def del: pinned_loop.simps)
    have len: "sz_sub (buffer_len c) (misalign c) = buffer_len c - misalign c"
      using chain_okD(1,3) [OF at(3)] by simp
    show ?thesis
    proof (cases "n \<le> buffer_len c - misalign c")
      case True
      then have "evbuffer_pullup b len s = pullup_collect b (x, misalign c + off c, n - off c, head_addr bs 0)
          (s\<lparr>ch_heap := (ch_heap s)(x \<mapsto> c\<lparr>ch_next := head_addr bs 0, off := n\<rparr>)\<rparr>)"
        using at e1 len chain_ok_flags(1) [OF at(3)] unfolding run by (simp add: pullup_target_def run_simps)
      then show ?thesis using pullup_in_place [OF h1 h(2) _ n1 hd True] False c by auto
    next
      case big: False
      show ?thesis
      proof (cases rule: chain_new_cases [of n s])
        case (fail s')
        have "becomes s b e cs s' cs" using evolves_fail [OF fail(3) h(2)] h(1) unfolding becomes_def by blast
        moreover have "evbuffer_pullup b len s = Inr (None, s')"
          using big len chain_ok_flags(1) [OF at(3)] fail(1) unfolding run by (simp add: pullup_target_def bnd_def)
        ultimately show ?thesis using fail(2) by blast
      next
        case (new d)
        have p: "0 < ev_brk s" using h(2) by (simp add: wf_ev_def)
        have "evbuffer_pullup b len s = pullup_collect b (ev_brk s, 0, n, x)
            (s\<lparr>ev_brk := Suc (ev_brk s), ch_heap := (ch_heap s)(ev_brk s \<mapsto> d\<lparr>off := n\<rparr>), eb_heap := (eb_heap s)(b \<mapsto> e\<lparr>eb_first := ev_brk s\<rparr>)\<rparr>)"
          using big len chain_ok_flags(1) [OF at(3)] new(1) p hs(1,2) unfolding run by (simp add: pullup_target_def run_simps)
        then show ?thesis using pullup_new_chain [OF h1 h(2) _ n1 hd new(3)] False c by auto
      qed
    qed
  qed
qed

end
