(* ===== verification/Byte_Queue.thy ===== *)
theory Byte_Queue
  imports BT_Prelude
begin

text \<open>
  What a user of a byte buffer relies on: a queue of bytes that is filled at the end and emptied at
  the front. \<open>queue_spec\<close> is the abstract behaviour of a sequence of calls together with what the calls
  returned; the interface \<open>byte_queue\<close> lists the laws of the four operations, and any implementation
  of it behaves as the specification says.
\<close>

section \<open>The abstract queue\<close>

datatype 'b queue_op = Append "'b list" | Take nat | Skip nat | Look nat

datatype 'b queue_res = Appended bool | Taken "'b list" | Skipped | Looked "'b list option"

text \<open>
  The bytes left after the calls, or \<open>None\<close> when a result is not one the queue may give. An append may be
  refused, looking ahead may fail; taking and skipping always succeed.
\<close>

fun queue_spec :: "'b queue_op list \<Rightarrow> 'b queue_res list \<Rightarrow> 'b list \<Rightarrow> 'b list option" where
  "queue_spec [] [] bs = Some bs"
| "queue_spec (Append d # ops) (Appended ok # rs) bs = queue_spec ops rs (if ok then bs @ d else bs)"
| "queue_spec (Take n # ops) (Taken x # rs) bs = (if x = take n bs then queue_spec ops rs (drop n bs) else None)"
| "queue_spec (Skip n # ops) (Skipped # rs) bs = queue_spec ops rs (drop n bs)"
| "queue_spec (Look n # ops) (Looked x # rs) bs =
     (if x = None \<or> 0 < n \<and> n \<le> length bs \<and> x = Some (take n bs) then queue_spec ops rs bs else None)"
| "queue_spec ops rs bs = None"

text \<open>Calling an implementation, given by its operations.\<close>

fun queue_call :: "('b list \<Rightarrow> ('s, int) run) \<Rightarrow> (nat \<Rightarrow> ('s, 'b list option) run) \<Rightarrow> (nat \<Rightarrow> ('s, int) run)
    \<Rightarrow> (nat \<Rightarrow> ('s, 'b list option) run) \<Rightarrow> 'b queue_op \<Rightarrow> ('s, 'b queue_res) run" where
  "queue_call add remove drain pull (Append d) = bnd (add d) (\<lambda>r. ret (Appended (r = 0)))"
| "queue_call add remove drain pull (Take n) =
     bnd (remove n) (\<lambda>r. case r of None \<Rightarrow> stop AssertFailed | Some x \<Rightarrow> ret (Taken x))"
| "queue_call add remove drain pull (Skip n) = bnd (drain n) (\<lambda>r. if r = 0 then ret Skipped else stop AssertFailed)"
| "queue_call add remove drain pull (Look n) = bnd (pull n) (\<lambda>r. ret (Looked r))"

fun queue_calls :: "('b queue_op \<Rightarrow> ('s, 'b queue_res) run) \<Rightarrow> 'b queue_op list \<Rightarrow> ('s, 'b queue_res list) run" where
  "queue_calls f [] = ret []"
| "queue_calls f (x # ops) = bnd (f x) (\<lambda>r. bnd (queue_calls f ops) (\<lambda>rs. ret (r # rs)))"

fun appended :: "'b queue_op list \<Rightarrow> nat" where
  "appended [] = 0"
| "appended (Append d # ops) = length d + appended ops"
| "appended (_ # ops) = appended ops"

text \<open>The bytes that were accepted and the bytes that came out.\<close>

fun accepted :: "'b queue_op list \<Rightarrow> 'b queue_res list \<Rightarrow> 'b list" where
  "accepted (Append d # ops) (Appended ok # rs) = (if ok then d else []) @ accepted ops rs"
| "accepted (_ # ops) (_ # rs) = accepted ops rs"
| "accepted _ _ = []"

fun delivered :: "'b queue_res list \<Rightarrow> 'b list" where
  "delivered [] = []"
| "delivered (Taken x # rs) = x @ delivered rs"
| "delivered (_ # rs) = delivered rs"

lemma take_drop_append: "take n xs @ drop n xs @ ys = xs @ ys"
  by (metis append_assoc append_take_drop_id)

lemma queue_spec_order:
  assumes "queue_spec ops rs bs = Some bs'" "\<forall>n. Skip n \<notin> set ops"
  shows "delivered rs @ bs' = bs @ accepted ops rs"
  using assms
  by (induction ops rs bs rule: queue_spec.induct) (auto split: if_splits simp: take_drop_append)

section \<open>The interface\<close>

locale byte_queue =
  fixes view :: "'s \<Rightarrow> 'b list \<Rightarrow> bool"
    and add :: "'b list \<Rightarrow> ('s, int) run"
    and remove :: "nat \<Rightarrow> ('s, 'b list option) run"
    and drain :: "nat \<Rightarrow> ('s, int) run"
    and pull :: "nat \<Rightarrow> ('s, 'b list option) run"
  assumes add_law: "view s bs \<Longrightarrow> d \<noteq> [] \<Longrightarrow> length bs + length d < 2 ^ 64 \<Longrightarrow>
      \<exists>r s'. add d s = Inr (r, s') \<and> (r = 0 \<and> view s' (bs @ d) \<or> r = - 1 \<and> view s' bs)"
    and remove_law: "view s bs \<Longrightarrow> \<exists>s'. remove n s = Inr (Some (take n bs), s') \<and> view s' (drop n bs)"
    and drain_law: "view s bs \<Longrightarrow> \<exists>s'. drain n s = Inr (0, s') \<and> view s' (drop n bs)"
    and pull_law: "view s bs \<Longrightarrow> \<exists>r s'. pull n s = Inr (r, s') \<and> view s' bs
      \<and> (r = None \<or> 0 < n \<and> n \<le> length bs \<and> r = Some (take n bs))"
begin

lemma call_refines:
  assumes "view s bs" "\<forall>d. x = Append d \<longrightarrow> d \<noteq> []" "length bs + appended [x] < 2 ^ 64"
  shows "\<exists>r s' bs'. queue_call add remove drain pull x s = Inr (r, s') \<and> view s' bs' \<and> queue_spec [x] [r] bs = Some bs'
    \<and> (\<forall>ops rs. queue_spec (x # ops) (r # rs) bs = queue_spec ops rs bs') \<and> length bs' \<le> length bs + appended [x]"
proof (cases x)
  case (Append d)
  obtain r s' where "add d s = Inr (r, s')" "r = 0 \<and> view s' (bs @ d) \<or> r = - 1 \<and> view s' bs"
    using add_law [OF assms(1), of d] assms(2,3) Append by auto
  then show ?thesis using Append
    by (intro exI [of _ "Appended (r = 0)"] exI [of _ s'] exI [of _ "if r = 0 then bs @ d else bs"]) (auto simp: bnd_def)
next
  case (Take n)
  obtain s' where "remove n s = Inr (Some (take n bs), s')" "view s' (drop n bs)" using remove_law [OF assms(1)] by blast
  then show ?thesis using Take by (auto simp: bnd_def)
next
  case (Skip n)
  obtain s' where "drain n s = Inr (0, s')" "view s' (drop n bs)" using drain_law [OF assms(1)] by blast
  then show ?thesis using Skip by (auto simp: bnd_def)
next
  case (Look n)
  obtain r s' where "pull n s = Inr (r, s')" "view s' bs" "r = None \<or> 0 < n \<and> n \<le> length bs \<and> r = Some (take n bs)"
    using pull_law [OF assms(1)] by blast
  then show ?thesis using Look by (auto simp: bnd_def)
qed

lemma calls_refine:
  assumes "view s bs" "\<forall>d. Append d \<in> set ops \<longrightarrow> d \<noteq> []" "length bs + appended ops < 2 ^ 64"
  shows "\<exists>rs s' bs'. queue_calls (queue_call add remove drain pull) ops s = Inr (rs, s') \<and> queue_spec ops rs bs = Some bs' \<and> view s' bs'"
  using assms
proof (induction ops arbitrary: s bs)
  case Nil
  then show ?case by (intro exI [of _ "[]"]) simp
next
  case (Cons x ops)
  have ap: "appended (x # ops) = appended [x] + appended ops" by (cases x) simp_all
  obtain r s1 b1 where r: "queue_call add remove drain pull x s = Inr (r, s1)" "view s1 b1"
    "\<And>ops rs. queue_spec (x # ops) (r # rs) bs = queue_spec ops rs b1" "length b1 \<le> length bs + appended [x]"
    using call_refines [OF Cons.prems(1), of x] Cons.prems(2,3) ap by auto
  have "length b1 + appended ops < 2 ^ 64" using r(4) Cons.prems(3) ap by linarith
  then obtain rs s' bs' where "queue_calls (queue_call add remove drain pull) ops s1 = Inr (rs, s')" "queue_spec ops rs b1 = Some bs'" "view s' bs'"
    using Cons.IH [OF r(2)] Cons.prems(2) by auto
  then show ?case using r(1,3) by (intro exI [of _ "r # rs"] exI [of _ s'] exI [of _ bs']) (simp add: bnd_def)
qed

text \<open>First in, first out: as long as nothing is skipped, what came out and what is left is what was there and what was accepted.\<close>

lemma fifo:
  assumes "view s bs" "\<forall>d. Append d \<in> set ops \<longrightarrow> d \<noteq> []" "length bs + appended ops < 2 ^ 64" "\<forall>n. Skip n \<notin> set ops"
  shows "\<exists>rs s' bs'. queue_calls (queue_call add remove drain pull) ops s = Inr (rs, s') \<and> view s' bs'
    \<and> delivered rs @ bs' = bs @ accepted ops rs"
  using calls_refine [OF assms(1-3)] queue_spec_order [OF _ assms(4)] by blast

end

end
