(* ===== verification/Evbuffer_Queue.thy ===== *)
theory Evbuffer_Queue
  imports Evbuffer_Pullup Byte_Queue Event_Tagging
begin

text \<open>
  The buffers of the event library as byte queues. \<open>is_queue b F s bs\<close> says that buffer \<open>b\<close> is in order, is
  not frozen and holds \<open>bs\<close>, and that \<open>F\<close> is all other chain memory: an operation that keeps \<open>F\<close> neither
  touches nor leaks a chain. The byte lists that stand for buffers in the model of the tagged format
  satisfy the same interface.
\<close>

definition is_queue :: "nat \<Rightarrow> (nat \<Rightarrow> evbuffer_chain option) \<Rightarrow> evstate \<Rightarrow> u8 list \<Rightarrow> bool" where
  "is_queue b F s bs \<longleftrightarrow> wf_ev s \<and> (\<exists>e cs. holds s b e cs \<and> tight cs \<and> content cs = bs \<and> \<not> freeze_start e \<and> \<not> freeze_end e
     \<and> ch_heap s |` (- set (addrs cs)) = F)"

lemma frame_kept:
  assumes "evolves s s' B X X'" "wf_ev s"
  shows "ch_heap s' |` (- X') = ch_heap s |` (- X)"
proof
  fix x
  consider "x \<in> X'" "x \<in> X" | "x \<in> X'" "x \<notin> X" | "x \<notin> X'" "x \<notin> X" "x < ev_brk s" | "x \<notin> X'" "x \<in> X \<or> ev_brk s \<le> x" by fastforce
  then show "(ch_heap s' |` (- X')) x = (ch_heap s |` (- X)) x"
    by cases (use assms in \<open>auto simp: restrict_map_def evolves_def wf_ev_def\<close>)
qed

lemma is_queueI:
  assumes "becomes s b e cs s' cs'" "wf_ev s" "holds s b e cs" "tight cs'" "\<not> freeze_start e" "\<not> freeze_end e"
  shows "is_queue b (ch_heap s |` (- set (addrs cs))) s' (content cs')"
proof -
  obtain e' where e': "holds s' b e' cs'" "settings e' = settings e" and ev: "evolves s s' {b} (set (addrs cs)) (set (addrs cs'))"
    using assms(1) by (auto simp: becomes_def)
  have "\<not> freeze_start e'" "\<not> freeze_end e'" using e'(2) assms(5,6) by (simp_all add: settings_def)
  then show ?thesis
    using e'(1) frame_kept [OF ev assms(2)] becomes_wf [OF assms(2,3,1)] assms(4) unfolding is_queue_def by blast
qed

text \<open>Looking at the first \<open>n\<close> bytes through the pointer \<open>evbuffer_pullup\<close> returns.\<close>

definition pullup_bytes :: "nat \<Rightarrow> nat \<Rightarrow> u8 list option brun" where
  "pullup_bytes b n = bnd (evbuffer_pullup b (int n)) (\<lambda>r.
     case r of None \<Rightarrow> ret None | Some (p, i) \<Rightarrow> bnd (ld_bytes p i n) (\<lambda>x. ret (Some x)))"

lemma pullup_bytes_run:
  assumes "is_queue b F s bs"
  shows "\<exists>r s'. pullup_bytes b n s = Inr (r, s') \<and> is_queue b F s' bs \<and> (r = None \<or> 0 < n \<and> n \<le> length bs \<and> r = Some (take n bs))"
proof -
  obtain e cs where h: "holds s b e cs" "tight cs" "content cs = bs" "\<not> freeze_start e" "\<not> freeze_end e" "wf_ev s"
    "ch_heap s |` (- set (addrs cs)) = F" using assms by (auto simp: is_queue_def)
  note hs = holds_simps [OF h(1)]
  consider (no) "n = 0 \<or> length bs < n" | (yes) "0 < n" "n \<le> length (content cs)" using h(3) by fastforce
  then show ?thesis
  proof cases
    case no
    then have "evbuffer_pullup b (int n) s = Inr (None, s)"
      using hs(1,2,10) h(3) by (auto simp: evbuffer_pullup_def run_bnd_simps Let_def)
    then show ?thesis using assms by (simp add: pullup_bytes_def bnd_def)
  next
    case yes
    then have "content cs \<noteq> []" by auto
    then have sp: "spare cs = []" by (rule tight_full [OF h(2)])
    consider (ok) tmp where "pulls s b e (set (addrs cs)) tmp n (content cs) (spare cs = []) (evbuffer_pullup b (int n) s)"
      | (fail) s' where "evbuffer_pullup b (int n) s = Inr (None, s')" "becomes s b e cs s' cs"
      using evbuffer_pullup_run [OF h(1,6) yes, of "int n"] by blast
    then show ?thesis
    proof cases
      case fail
      then show ?thesis using is_queueI [OF fail(2) h(6,1,2,4,5)] h(3,7) by (auto simp: pullup_bytes_def bnd_def)
    next
      case ok
      obtain s' e' t rs where p: "evbuffer_pullup b (int n) s = Inr (Some (tmp, misalign t), s')" "holds s' b e' ((tmp, t) # rs)"
        "settings e' = settings e" "n \<le> off t" "spare ((tmp, t) # rs) = []" "content ((tmp, t) # rs) = content cs"
        "evolves s s' {b} (set (addrs cs)) (set (addrs ((tmp, t) # rs)))"
        using ok sp unfolding pulls_def by blast
      note at = chain_at [of s' b e' "[]" tmp t rs, simplified, OF p(2)]
      have "ld_bytes tmp (misalign t) n s' = Inr (slice (ch_buffer t) (misalign t) n, s')"
        using at(1,2) chain_okD(1) [OF at(3)] p(4) by (simp add: run_simps)
      moreover have "slice (ch_buffer t) (misalign t) n = take n (chain_bytes t)" using p(4) by (simp add: chain_bytes_def min_def)
      moreover have "take n (chain_bytes t) = take n (content ((tmp, t) # rs))" using p(4) by simp
      ultimately have ld: "ld_bytes tmp (misalign t) n s' = Inr (take n bs, s')" by (simp only: p(6) h(3))
      have "becomes s b e cs s' ((tmp, t) # rs)" using p(2,3,7) unfolding becomes_def by blast
      moreover have "tight ((tmp, t) # rs)" unfolding tight_def using p(5) by blast
      ultimately have "is_queue b F s' bs" using is_queueI [OF _ h(6,1) _ h(4,5)] p(6) h(3,7) by metis
      then show ?thesis using p(1) yes h(3) ld by (simp add: pullup_bytes_def bnd_def)
    qed
  qed
qed

interpretation evq: byte_queue "is_queue b F" "evbuffer_add b" "evbuffer_remove b" "evbuffer_drain b" "pullup_bytes b" for b F
proof
  fix s bs and d :: "u8 list"
  assume a: "is_queue b F s bs" "d \<noteq> []" "length bs + length d < 2 ^ 64"
  obtain e cs where h: "holds s b e cs" "tight cs" "content cs = bs" "\<not> freeze_start e" "\<not> freeze_end e" "wf_ev s"
    "ch_heap s |` (- set (addrs cs)) = F" using a(1) by (auto simp: is_queue_def)
  have "appends s b e cs d (evbuffer_add b d s)"
    by (rule evbuffer_add_run [OF h(1,6,2,5)]) (use holds_simps(10) [OF h(1)] a(3) h(3) in simp)
  then obtain r s' cs' where r: "evbuffer_add b d s = Inr (r, s')" "becomes s b e cs s' cs'" "tight cs'"
    "r = 0 \<and> content cs' = bs @ d \<or> r = - 1 \<and> content cs' = bs" using a(2) h(3) unfolding appends_def by blast
  have "is_queue b F s' (content cs')" using is_queueI [OF r(2) h(6,1) r(3) h(4,5)] h(7) by simp
  then show "\<exists>r s'. evbuffer_add b d s = Inr (r, s') \<and> (r = 0 \<and> is_queue b F s' (bs @ d) \<or> r = - 1 \<and> is_queue b F s' bs)"
    using r(1,4) by metis
next
  fix s bs n
  assume a: "is_queue b F s bs"
  then obtain e cs where h: "holds s b e cs" "tight cs" "content cs = bs" "\<not> freeze_start e" "\<not> freeze_end e" "wf_ev s"
    "ch_heap s |` (- set (addrs cs)) = F" by (auto simp: is_queue_def)
  obtain s' cs' where r: "evbuffer_remove b n s = Inr (Some (take n (content cs)), s')" "becomes s b e cs s' cs'"
    "content cs' = drop n (content cs)" "tight cs \<longrightarrow> tight cs'" using evbuffer_remove_run [OF h(1,6,4)] .
  then show "\<exists>s'. evbuffer_remove b n s = Inr (Some (take n bs), s') \<and> is_queue b F s' (drop n bs)"
    using is_queueI [OF r(2) h(6,1) _ h(4,5)] h(2,3,7) by metis
  obtain s' cs' where r: "evbuffer_drain b n s = Inr (0, s')" "becomes s b e cs s' cs'"
    "content cs' = drop n (content cs)" "tight cs \<longrightarrow> tight cs'" using evbuffer_drain_run [OF h(1,6,4)] unfolding drains_def by blast
  then show "\<exists>s'. evbuffer_drain b n s = Inr (0, s') \<and> is_queue b F s' (drop n bs)"
    using is_queueI [OF r(2) h(6,1) _ h(4,5)] h(2,3,7) by metis
  show "\<exists>r s'. pullup_bytes b n s = Inr (r, s') \<and> is_queue b F s' bs \<and> (r = None \<or> 0 < n \<and> n \<le> length bs \<and> r = Some (take n bs))"
    by (rule pullup_bytes_run [OF a])
qed

interpretation tagq: byte_queue "(=)" "\<lambda>d. bnd (bytes_add d) (\<lambda>_. ret 0)" "\<lambda>n. bnd (bytes_remove n) (\<lambda>x. ret (Some x))"
  "\<lambda>n. bnd (bytes_drain n) (\<lambda>_. ret 0)" bytes_pullup
  by unfold_locales (auto simp: bytes_add_def bytes_remove_def bytes_drain_def bytes_pullup_def bnd_def)

end
