(* ===== verification/Evbuffer_Properties.thy ===== *)
theory Evbuffer_Properties
  imports Evbuffer_Queue
begin

text \<open>
  What the byte buffers of the event library guarantee. The witnesses use a buffer at address 1, empty
  or with one chain of data.
\<close>

section \<open>Example states\<close>

definition eg_buf :: "nat \<Rightarrow> nat \<Rightarrow> nat \<Rightarrow> evbuffer" where
  "eg_buf b p n = \<lparr>eb_first = p, eb_last = p, last_with_datap = First b, total_len = n, n_add_for_cb = 0, n_del_for_cb = 0,
     freeze_start = False, freeze_end = False, deferred_cbs = False, eb_flags = 0, refcnt = 1, deferred_queued = False, callbacks = []\<rparr>"

definition eg_chain :: "u8 list \<Rightarrow> evbuffer_chain" where
  "eg_chain xs = \<lparr>ch_next = 0, buffer_len = 976, misalign = 4, off = length xs, ch_flags = 0, ch_buffer = put (\<lambda>_. 0) 4 xs, ch_extra = NoExtra\<rparr>"

definition eg_state :: "(nat \<Rightarrow> evbuffer_chain option) \<Rightarrow> (nat \<Rightarrow> evbuffer option) \<Rightarrow> evstate" where
  "eg_state ch eb = \<lparr>ch_heap = ch, eb_heap = eb, ev_brk = 10, ev_oom = (\<lambda>_. False), ev_junk = (\<lambda>_. 0), ev_log = []\<rparr>"

lemma eg_wf: "(\<And>x. 10 \<le> x \<Longrightarrow> ch x = None \<and> eb x = None) \<Longrightarrow> wf_ev (eg_state ch eb)"
  by (simp add: wf_ev_def eg_state_def)

lemma eg_empty: "0 < b \<Longrightarrow> eb b = Some (eg_buf b 0 0) \<Longrightarrow> holds (eg_state ch eb) b (eg_buf b 0 0) []"
  by (simp add: holds_def eg_state_def eg_buf_def last_addr_def cell_of_def)

lemma eg_one:
  assumes "0 < b" "0 < p" "p < 10" "eb b = Some (eg_buf b p n)" "ch p = Some (eg_chain xs)" "xs \<noteq> []" "length xs = n" "n \<le> 900"
  shows "holds (eg_state ch eb) b (eg_buf b p n) [(p, eg_chain xs)]"
proof -
  have "chain_ok (eg_chain xs)" using assms(7,8)
    by (simp add: chain_ok_def eg_chain_def mutable_def EVBUFFER_CHAIN_MAX_def EVBUFFER_CHAIN_SIZE_def EV_SSIZE_MAX_def)
  then show "holds (eg_state ch eb) b (eg_buf b p n) [(p, eg_chain xs)]"
    using assms by (simp add: holds_def eg_state_def eg_buf_def last_addr_def cell_of_def has_data_def) (simp add: eg_chain_def)
qed

lemma eg_content: "content [(p, eg_chain xs)] = xs"
  by (simp add: chain_bytes_def eg_chain_def)

text \<open>Two buffers, each with one chain.\<close>

definition eg_two :: evstate where
  "eg_two = eg_state [2 \<mapsto> eg_chain [1, 2], 4 \<mapsto> eg_chain [5, 6, 7]] [1 \<mapsto> eg_buf 1 2 2, 3 \<mapsto> eg_buf 3 4 3]"

lemma eg_two:
  shows "wf_ev eg_two" "holds eg_two 1 (eg_buf 1 2 2) [(2, eg_chain [1, 2])]" "holds eg_two 3 (eg_buf 3 4 3) [(4, eg_chain [5, 6, 7])]"
    "\<not> ev_oom eg_two n"
proof -
  show "wf_ev eg_two" unfolding eg_two_def by (rule eg_wf) auto
  show "holds eg_two 1 (eg_buf 1 2 2) [(2, eg_chain [1, 2])]" "holds eg_two 3 (eg_buf 3 4 3) [(4, eg_chain [5, 6, 7])]"
    unfolding eg_two_def by (rule eg_one; simp)+
  show "\<not> ev_oom eg_two n" by (simp add: eg_two_def eg_state_def)
qed

lemma eg_fields:
  "total_len (eg_buf b p n) = n" "\<not> freeze_start (eg_buf b p n)" "\<not> freeze_end (eg_buf b p n)" "refcnt (eg_buf b p n) = 1"
  "off (eg_chain xs) = length xs" "tight [xc]"
  by (simp_all add: eg_buf_def eg_chain_def has_data_def tight_def)

lemma eg_small: "n < 100 \<Longrightarrow> n \<le> EVBUFFER_CHAIN_MAX - EVBUFFER_CHAIN_SIZE"
  by (simp add: EVBUFFER_CHAIN_MAX_def EVBUFFER_CHAIN_SIZE_def EV_SSIZE_MAX_def)

section \<open>A queue of bytes\<close>

text \<open>
  C7. An \<open>evbuffer\<close> is a queue of bytes. Any sequence of calls of \<open>evbuffer_add\<close> (with data), \<open>evbuffer_remove\<close>,
  \<open>evbuffer_drain\<close> and \<open>evbuffer_pullup\<close> runs without a fault on a buffer in order, whichever allocations
  fail; what the calls return is what the abstract queue returns, the buffer is in order afterwards
  with the bytes the queue has left, and all other chain memory is unchanged: nothing leaks. If
  nothing is skipped, the bytes delivered and the bytes left are the bytes there were and the bytes
  that were accepted, in order.
\<close>

theorem evbuffer_refines_queue:
  assumes "is_queue b F s bs" "\<forall>d. Append d \<in> set ops \<longrightarrow> d \<noteq> []" "length bs + appended ops < 2 ^ 64"
  shows "\<exists>rs s' bs'. queue_calls (queue_call (evbuffer_add b) (evbuffer_remove b) (evbuffer_drain b) (pullup_bytes b)) ops s = Inr (rs, s')
    \<and> queue_spec ops rs bs = Some bs' \<and> is_queue b F s' bs'
    \<and> ((\<forall>n. Skip n \<notin> set ops) \<longrightarrow> delivered rs @ bs' = bs @ accepted ops rs)"
  using evq.calls_refine [OF assms] queue_spec_order by blast

theorem evbuffer_refines_queue_witness:
  "\<exists>rs s' bs'. queue_calls (queue_call (evbuffer_add 1) (evbuffer_remove 1) (evbuffer_drain 1) (pullup_bytes 1))
     [Append [1, 2, 3], Take 2, Look 1, Append [4], Skip 5] (eg_state Map.empty [1 \<mapsto> eg_buf 1 0 0]) = Inr (rs, s')
    \<and> queue_spec [Append [1, 2, 3], Take 2, Look 1, Append [4], Skip 5] rs [] = Some bs' \<and> is_queue 1 Map.empty s' bs'"
proof -
  have "wf_ev (eg_state Map.empty [1 \<mapsto> eg_buf 1 0 0])" by (rule eg_wf) auto
  moreover have "holds (eg_state Map.empty [1 \<mapsto> eg_buf 1 0 0]) 1 (eg_buf 1 0 0) []" by (rule eg_empty) simp_all
  ultimately have "is_queue 1 Map.empty (eg_state Map.empty [1 \<mapsto> eg_buf 1 0 0]) []"
    unfolding is_queue_def by (intro conjI exI [of _ "eg_buf 1 0 0"] exI [of _ "[]"]) (simp_all add: tight_def eg_buf_def eg_state_def)
  then show ?thesis
    using evbuffer_refines_queue [of 1 Map.empty _ "[]" "[Append [1, 2, 3], Take 2, Look 1, Append [4], Skip 5]"] by auto
qed

section \<open>Adding in front\<close>

text \<open>
  \<open>evbuffer_prepend\<close> puts its data in front of the content, in order, and leaks nothing. When it
  fails an allocation failed or the data was longer than a chain can be, and then an end of the data
  may have been added already: the call is not atomic.
\<close>

theorem evbuffer_prepend_front:
  assumes "holds s b e cs" "wf_ev s" "cs = [] \<or> has_data (hd cs)" "data \<noteq> []" "\<not> freeze_start e" "total_len e + length data < 2 ^ 64"
  shows "\<exists>r s' e' cs' k. evbuffer_prepend b data s = Inr (r, s') \<and> holds s' b e' cs' \<and> content cs' = drop k data @ content cs
    \<and> ch_heap s' |` (- set (addrs cs')) = ch_heap s |` (- set (addrs cs))
    \<and> (r = 0 \<and> k = 0 \<or> r = - 1 \<and> ((\<exists>n. ev_oom s n) \<or> EVBUFFER_CHAIN_MAX - EVBUFFER_CHAIN_SIZE < length data))"
proof -
  obtain r s' cs' k where r: "evbuffer_prepend b data s = Inr (r, s')" "becomes s b e cs s' cs'" "content cs' = drop k data @ content cs"
    "r = 0 \<and> k = 0 \<or> r = - 1 \<and> ((\<exists>n. ev_oom s n) \<or> EVBUFFER_CHAIN_MAX - EVBUFFER_CHAIN_SIZE < length data)"
    using evbuffer_prepend_run [OF assms] unfolding prepends_def by blast
  then show ?thesis using frame_kept [OF _ assms(2)] unfolding becomes_def by blast
qed

theorem evbuffer_prepend_front_witness:
  "\<exists>r s' e' cs' k. evbuffer_prepend 1 [7, 8] eg_two = Inr (r, s') \<and> holds s' 1 e' cs'
    \<and> content cs' = drop k [7, 8] @ [1, 2] \<and> r = 0 \<and> k = 0"
  using evbuffer_prepend_front [OF eg_two(2,1), of "[7, 8]"] eg_small [of 2] eg_two(4) unfolding eg_content by (auto simp: eg_fields)

section \<open>Moving data\<close>

text \<open>
  C8. \<open>evbuffer_add_buffer\<close> and \<open>evbuffer_prepend_buffer\<close> move all bytes of one buffer to the end or the front
  of another: the source is empty afterwards, both buffers are in order, and the chains of the target
  are all the chain memory that is new or changed.
\<close>

theorem evbuffer_moves_all:
  assumes h: "holds s ob eo co" "holds s ib ei ci" "wf_ev s" "ob \<noteq> ib" "set (addrs co) \<inter> set (addrs ci) = {}"
    "\<not> freeze_start eo" "\<not> freeze_end eo" "\<not> freeze_start ei" "content ci \<noteq> []" "tight co" "tight ci" "total_len eo + total_len ei < 2 ^ 64"
  shows "(\<exists>s' eo' ei' cs. evbuffer_add_buffer ob ib s = Inr (0, s') \<and> holds s' ob eo' cs \<and> content cs = content co @ content ci
      \<and> holds s' ib ei' [] \<and> ch_heap s' |` (- set (addrs cs)) = ch_heap s |` (- set (addrs (co @ ci))))
    \<and> (\<exists>s' eo' ei' cs. evbuffer_prepend_buffer ob ib s = Inr (0, s') \<and> holds s' ob eo' cs \<and> content cs = content ci @ content co
      \<and> holds s' ib ei' [] \<and> ch_heap s' |` (- set (addrs cs)) = ch_heap s |` (- set (addrs (co @ ci))))"
  using evbuffer_add_buffer_run [OF h(1-5,7-10,12)] evbuffer_prepend_buffer_run [OF h(1-6,8,9,11,12)] frame_kept [OF _ h(3)]
  unfolding transfers_def by (intro conjI; blast)

theorem evbuffer_moves_all_witness:
  "(\<exists>s' eo' ei' cs. evbuffer_add_buffer 1 3 eg_two = Inr (0, s') \<and> holds s' 1 eo' cs \<and> content cs = [1, 2, 5, 6, 7] \<and> holds s' 3 ei' [])
   \<and> (\<exists>s' eo' ei' cs. evbuffer_prepend_buffer 1 3 eg_two = Inr (0, s') \<and> holds s' 1 eo' cs \<and> content cs = [5, 6, 7, 1, 2] \<and> holds s' 3 ei' [])"
  using evbuffer_moves_all [OF eg_two(2,3,1)] unfolding eg_content by (auto simp: eg_fields)

section \<open>Freezing and freeing\<close>

text \<open>
  A frozen end refuses every operation at that end with -1 (or no data) and leaves the state exactly as
  it was: \<open>evbuffer_drain\<close>, \<open>evbuffer_remove\<close> and \<open>evbuffer_prepend\<close> at the start, \<open>evbuffer_add\<close> at the end.
\<close>

theorem evbuffer_frozen:
  assumes "holds s b e cs" "content cs \<noteq> []" "0 < n"
  shows "(freeze_start e \<longrightarrow> evbuffer_drain b n s = Inr (- 1, s) \<and> evbuffer_remove b n s = Inr (None, s) \<and> evbuffer_prepend b data s = Inr (- 1, s))
    \<and> (freeze_end e \<longrightarrow> evbuffer_add b data s = Inr (- 1, s))"
  using frozen_runs [OF assms(1)] assms(2,3) by blast

theorem evbuffer_frozen_witness:
  "evbuffer_drain 1 2 (eg_two\<lparr>eb_heap := [1 \<mapsto> (eg_buf 1 2 2)\<lparr>freeze_start := True\<rparr>]\<rparr>)
     = Inr (- 1, eg_two\<lparr>eb_heap := [1 \<mapsto> (eg_buf 1 2 2)\<lparr>freeze_start := True\<rparr>]\<rparr>)"
proof -
  have "holds (eg_two\<lparr>eb_heap := [1 \<mapsto> (eg_buf 1 2 2)\<lparr>freeze_start := True\<rparr>]\<rparr>) 1 ((eg_buf 1 2 2)\<lparr>freeze_start := True\<rparr>) [(2, eg_chain [1, 2])]"
    using eg_two(2) by (simp add: holds_def)
  then show ?thesis using evbuffer_frozen [of _ 1 _ "[(2, eg_chain [1, 2])]" 2] eg_content [of 2 "[1, 2]"] by simp
qed

text \<open>
  C10. Freeing a buffer to which there is one reference frees exactly its chains and the buffer itself, and
  calls the cleanup function of every referenced block of memory once, in the order of the chains.
\<close>

theorem evbuffer_free_exact:
  assumes "holds s b e cs" "wf_ev s" "refcnt e = 1"
  shows "\<exists>s'. evbuffer_free b s = Inr ((), s') \<and> ch_heap s' = ch_heap s |` (- set (addrs cs)) \<and> eb_heap s' = (eb_heap s)(b := None)
    \<and> ev_log s' = ev_log s @ cleanups cs"
proof -
  obtain s' where s': "evbuffer_free b s = Inr ((), s')" "evolves s s' {b} (set (addrs cs)) {}" "eb_heap s' b = None"
    "ev_log s' = ev_log s @ cleanups cs" using evbuffer_free_run [OF assms] .
  have "ch_heap s' = ch_heap s |` (- set (addrs cs))" using frame_kept [OF s'(2) assms(2)] by (simp add: restrict_map_def)
  moreover have "eb_heap s' = (eb_heap s)(b := None)" using s'(2,3) by (auto simp: evolves_def)
  ultimately show ?thesis using s'(1,4) by blast
qed

theorem evbuffer_free_exact_witness:
  "\<exists>s'. evbuffer_free 1 eg_two = Inr ((), s') \<and> ch_heap s' = ch_heap eg_two |` (- {2})"
  using evbuffer_free_exact [OF eg_two(2,1)] by (auto simp: eg_fields)

end
