(* ===== verification/Evbuffer_Space.thy ===== *)
theory Evbuffer_Space
  imports Evbuffer_Ops
begin

unbundle bit_operations_syntax

text \<open>
  Room at the end of a buffer, \<^verbatim>\<open>libevent/buffer.c\<close>: making room (\<^verbatim>\<open>evbuffer_expand\<close> and its two
  helpers), writing into it from outside (\<^verbatim>\<open>evbuffer_reserve_space\<close>, \<^verbatim>\<open>evbuffer_commit_space\<close>) and
  formatted output (\<^verbatim>\<open>evbuffer_add_vprintf\<close>). A \<^verbatim>\<open>struct evbuffer_iovec\<close> is a chain with an offset, and a
  length.
\<close>

section \<open>Making room\<close>

text \<open>
  \<open>expand_resize\<close> is the branch that replaces the chain by a larger one, \<open>expand_chain\<close> what is decided
  once the first chain with room is known; \<open>None\<close> stands for \<^verbatim>\<open>goto insert_new\<close>.
\<close>

definition expand_resize :: "nat \<Rightarrow> cell \<Rightarrow> nat \<Rightarrow> evbuffer_chain \<Rightarrow> nat \<Rightarrow> nat brun" where
  "expand_resize buf chainp chain c datlen =
     bnd (evbuffer_chain_new (sz_add (off c) datlen)) (\<lambda>tmp.
     if tmp = 0 then ret 0
     else
       bnd (upd_chain tmp (\<lambda>t. t\<lparr>off := off c\<rparr>)) (\<lambda>_.
       bnd (ld_bytes chain (misalign c) (off c)) (\<lambda>bs.
       bnd (st_bytes tmp 0 bs) (\<lambda>_.
       bnd (rd_cell chainp) (\<lambda>p.
       bnd (chk (p = chain) AssertFailed) (\<lambda>_.
       bnd (wr_cell chainp tmp) (\<lambda>_.
       bnd (upd_buf buf (\<lambda>e. if eb_last e = chain then e\<lparr>eb_last := tmp\<rparr> else e)) (\<lambda>_.
       bnd (upd_chain tmp (\<lambda>t. t\<lparr>ch_next := ch_next c\<rparr>)) (\<lambda>_.
       bnd (evbuffer_chain_free chain) (\<lambda>_.
       ret tmp))))))))))"

definition expand_chain :: "nat \<Rightarrow> cell \<Rightarrow> nat \<Rightarrow> evbuffer_chain \<Rightarrow> nat \<Rightarrow> nat option brun" where
  "expand_chain buf chainp chain c datlen =
     (if CHAIN_SPACE_LEN c \<ge> datlen then ret (Some chain)
      else if off c = 0 then ret None
      else if evbuffer_chain_should_realign c datlen then
        bnd (evbuffer_chain_align chain) (\<lambda>_. ret (Some chain))
      else if CHAIN_SPACE_LEN c < buffer_len c div 8 \<or> off c > MAX_TO_COPY_IN_EXPAND
          \<or> datlen < EVBUFFER_CHAIN_MAX \<and> EVBUFFER_CHAIN_MAX - datlen \<ge> off c then
        (if ch_next c \<noteq> 0 then
           bnd (ld_chain (ch_next c)) (\<lambda>n. if CHAIN_SPACE_LEN n \<ge> datlen then ret (Some (ch_next c)) else ret None)
         else ret None)
      else bnd (expand_resize buf chainp chain c datlen) (\<lambda>r. ret (Some r)))"

text \<open>The assertions under the label \<^verbatim>\<open>ok\<close>.\<close>

definition expand_ok :: "nat \<Rightarrow> nat \<Rightarrow> nat brun" where
  "expand_ok result datlen =
     (if result = 0 then ret 0
      else bnd (ld_chain result) (\<lambda>r. bnd (chk (CHAIN_SPACE_LEN r \<ge> datlen) AssertFailed) (\<lambda>_. ret result)))"

definition evbuffer_expand_singlechain :: "nat \<Rightarrow> nat \<Rightarrow> nat brun" where
  "evbuffer_expand_singlechain buf datlen =
     bnd (ld_buf buf) (\<lambda>e.
     bnd (rd_cell (last_with_datap e)) (\<lambda>d.
     bnd (if d \<noteq> 0 then bnd (ld_chain d) (\<lambda>c. ret (if CHAIN_SPACE_LEN c = 0 then Next d else last_with_datap e))
          else ret (last_with_datap e)) (\<lambda>chainp.
     bnd (rd_cell chainp) (\<lambda>chain.
     bnd (if chain = 0 then ret None
          else
            bnd (ld_chain chain) (\<lambda>c.
            if ch_flags c AND (EVBUFFER_IMMUTABLE OR EVBUFFER_MEM_PINNED_ANY) \<noteq> 0 then ret None
            else expand_chain buf chainp chain c datlen)) (\<lambda>r.
     case r of
       Some result \<Rightarrow> expand_ok result datlen
     | None \<Rightarrow> bnd (evbuffer_chain_insert_new buf datlen) (\<lambda>result. expand_ok result datlen))))))"

definition evbuffer_expand :: "nat \<Rightarrow> nat \<Rightarrow> int brun" where
  "evbuffer_expand buf datlen = bnd (evbuffer_expand_singlechain buf datlen) (\<lambda>chain. ret (if chain \<noteq> 0 then 0 else - 1))"

text \<open>
  The loop that counts the room in the first \<open>n\<close> chains with room: \<open>None\<close> is the early return when there is
  enough, otherwise the chain it stopped at, the number of chains and the room in them.
\<close>

fun expand_count_loop :: "nat \<Rightarrow> nat \<Rightarrow> nat \<Rightarrow> nat \<Rightarrow> nat \<Rightarrow> nat \<Rightarrow> nat \<Rightarrow> (nat \<times> nat \<times> nat) option brun" where
  "expand_count_loop 0 buf datlen n chain used avail = stop OutOfFuel"
| "expand_count_loop (Suc f) buf datlen n chain used avail =
     (if chain = 0 then ret (Some (chain, used, avail))
      else
        bnd (ld_chain chain) (\<lambda>c.
        bnd (if off c \<noteq> 0 then
               bnd (ld_buf buf) (\<lambda>e.
               bnd (rd_cell (last_with_datap e)) (\<lambda>d.
               bnd (chk (chain = d) AssertFailed) (\<lambda>_.
               ret (if CHAIN_SPACE_LEN c \<noteq> 0 then (used + 1, sz_add avail (CHAIN_SPACE_LEN c)) else (used, avail)))))
             else
               bnd (upd_chain chain (\<lambda>c. c\<lparr>misalign := 0\<rparr>)) (\<lambda>_.
               ret (used + 1, sz_add avail (buffer_len c)))) (\<lambda>(used, avail).
        if avail \<ge> datlen then ret None
        else if used = n then ret (Some (chain, used, avail))
        else expand_count_loop f buf datlen n (ch_next c) used avail)))"

fun free_empty_loop :: "nat \<Rightarrow> nat \<Rightarrow> unit brun" where
  "free_empty_loop 0 chain = stop OutOfFuel"
| "free_empty_loop (Suc f) chain =
     (if chain = 0 then ret ()
      else
        bnd (ld_chain chain) (\<lambda>c.
        bnd (chk (off c = 0) AssertFailed) (\<lambda>_.
        bnd (evbuffer_chain_free chain) (\<lambda>_. free_empty_loop f (ch_next c)))))"

text \<open>The branch that replaces all empty chains by one.\<close>

definition expand_replace :: "nat \<Rightarrow> nat \<Rightarrow> int brun" where
  "expand_replace buf datlen =
     bnd (ld_buf buf) (\<lambda>e.
     bnd (rd_cell (last_with_datap e)) (\<lambda>d.
     bnd (ld_chain d) (\<lambda>c.
     let rmv_all = (off c = 0); avail = (if rmv_all then 0 else CHAIN_SPACE_LEN c) in
     bnd (if rmv_all then bnd (chk (d = eb_first e) AssertFailed) (\<lambda>_. ret d) else ret (ch_next c)) (\<lambda>chain.
     bnd (with_brk (\<lambda>n. free_empty_loop n chain)) (\<lambda>_.
     bnd (chk (datlen \<ge> avail) AssertFailed) (\<lambda>_.
     bnd (evbuffer_chain_new (datlen - avail)) (\<lambda>tmp.
     if tmp = 0 then
       bnd (if rmv_all then ZERO_CHAIN buf
            else
              bnd (upd_buf buf (\<lambda>e. e\<lparr>eb_last := d\<rparr>)) (\<lambda>_. upd_chain d (\<lambda>c. c\<lparr>ch_next := 0\<rparr>))) (\<lambda>_.
       ret (- 1))
     else
       bnd (if rmv_all then
              upd_buf buf (\<lambda>e. e\<lparr>eb_first := tmp, eb_last := tmp, last_with_datap := First buf\<rparr>)
            else
              bnd (upd_chain d (\<lambda>c. c\<lparr>ch_next := tmp\<rparr>)) (\<lambda>_. upd_buf buf (\<lambda>e. e\<lparr>eb_last := tmp\<rparr>))) (\<lambda>_.
       ret 0))))))))"

definition evbuffer_expand_fast :: "nat \<Rightarrow> nat \<Rightarrow> nat \<Rightarrow> int brun" where
  "evbuffer_expand_fast buf datlen n =
     bnd (chk (n \<ge> 2) AssertFailed) (\<lambda>_.
     bnd (ld_buf buf) (\<lambda>e.
     bnd (if eb_last e = 0 then ret True
          else bnd (ld_chain (eb_last e)) (\<lambda>c. ret (ch_flags c AND EVBUFFER_IMMUTABLE \<noteq> 0))) (\<lambda>add_new.
     if add_new then
       bnd (evbuffer_chain_new datlen) (\<lambda>chain.
       if chain = 0 then ret (- 1) else bnd (evbuffer_chain_insert buf chain) (\<lambda>_. ret 0))
     else
       bnd (rd_cell (last_with_datap e)) (\<lambda>d.
       bnd (with_brk (\<lambda>f. expand_count_loop f buf datlen n d 0 0)) (\<lambda>r.
       case r of None \<Rightarrow> ret 0
       | Some (chain, used, avail) \<Rightarrow>
           if used < n then
             bnd (chk (chain = 0) AssertFailed) (\<lambda>_.
             bnd (evbuffer_chain_new (sz_sub datlen avail)) (\<lambda>tmp.
             if tmp = 0 then ret (- 1)
             else
               bnd (upd_chain (eb_last e) (\<lambda>c. c\<lparr>ch_next := tmp\<rparr>)) (\<lambda>_.
               bnd (upd_buf buf (\<lambda>e. e\<lparr>eb_last := tmp\<rparr>)) (\<lambda>_. ret 0))))
           else expand_replace buf datlen)))))"

section \<open>Reserving and committing\<close>

type_synonym iovec = "(nat \<times> nat) \<times> nat"

fun setup_loop :: "nat \<Rightarrow> nat \<Rightarrow> nat \<Rightarrow> nat \<Rightarrow> bool \<Rightarrow> iovec list \<Rightarrow> iovec list brun" where
  "setup_loop 0 howmuch chain so_far exact vecs = ret vecs"
| "setup_loop (Suc n) howmuch chain so_far exact vecs =
     (if so_far < howmuch then
        bnd (ld_chain chain) (\<lambda>c.
        let avail = (if CHAIN_SPACE_LEN c > howmuch - so_far \<and> exact then howmuch - so_far else CHAIN_SPACE_LEN c) in
        setup_loop n howmuch (ch_next c) (sz_add so_far avail) exact (vecs @ [(CHAIN_SPACE_PTR chain c, avail)]))
      else ret vecs)"

text \<open>The first chain with room, through the pointer to it.\<close>

definition first_with_space :: "cell \<Rightarrow> cell brun" where
  "first_with_space cp =
     bnd (rd_cell cp) (\<lambda>d. bnd (ld_chain d) (\<lambda>c. ret (if CHAIN_SPACE_LEN c = 0 then Next d else cp)))"

definition evbuffer_read_setup_vecs :: "nat \<Rightarrow> int \<Rightarrow> nat \<Rightarrow> bool \<Rightarrow> (int \<times> iovec list \<times> cell option) brun" where
  "evbuffer_read_setup_vecs buf howmuch n_vecs_avail exact =
     (if howmuch < 0 then ret (- 1, [], None)
      else
        bnd (ld_buf buf) (\<lambda>e.
        bnd (first_with_space (last_with_datap e)) (\<lambda>firstchainp.
        bnd (rd_cell firstchainp) (\<lambda>chain.
        bnd (setup_loop n_vecs_avail (nat howmuch) chain 0 exact []) (\<lambda>vecs.
        ret (int (length vecs), vecs, Some firstchainp))))))"

definition evbuffer_reserve_space :: "nat \<Rightarrow> int \<Rightarrow> int \<Rightarrow> (int \<times> iovec list) brun" where
  "evbuffer_reserve_space buf sz n_vecs =
     bnd (ld_buf buf) (\<lambda>e.
     if freeze_end e \<or> n_vecs < 1 then ret (- 1, [])
     else if n_vecs = 1 then
       bnd (evbuffer_expand_singlechain buf (nat (sz mod 2 ^ 64))) (\<lambda>chain.
       if chain = 0 then ret (- 1, [])
       else
         bnd (ld_chain chain) (\<lambda>c.
         bnd (chk (sz < 0 \<or> CHAIN_SPACE_LEN c \<ge> nat sz) AssertFailed) (\<lambda>_.
         ret (1, [(CHAIN_SPACE_PTR chain c, CHAIN_SPACE_LEN c)]))))
     else
       bnd (evbuffer_expand_fast buf (nat (sz mod 2 ^ 64)) (nat n_vecs)) (\<lambda>r.
       if r < 0 then ret (- 1, [])
       else bnd (evbuffer_read_setup_vecs buf sz (nat n_vecs) False) (\<lambda>(n, vecs, _). ret (n, vecs))))"

text \<open>The two passes over the vectors.\<close>

fun commit_check :: "iovec list \<Rightarrow> nat \<Rightarrow> bool brun" where
  "commit_check [] chain = ret True"
| "commit_check ((base, len) # vs) chain =
     (if chain = 0 then ret False
      else
        bnd (ld_chain chain) (\<lambda>c.
        if base \<noteq> CHAIN_SPACE_PTR chain c \<or> len > CHAIN_SPACE_LEN c then ret False
        else commit_check vs (ch_next c)))"

fun commit_apply :: "nat \<Rightarrow> iovec list \<Rightarrow> cell \<Rightarrow> nat \<Rightarrow> nat brun" where
  "commit_apply buf [] chainp added = ret added"
| "commit_apply buf ((base, len) # vs) chainp added =
     bnd (rd_cell chainp) (\<lambda>chain.
     bnd (upd_chain chain (\<lambda>c. c\<lparr>off := off c + len\<rparr>)) (\<lambda>_.
     bnd (if len \<noteq> 0 then upd_buf buf (\<lambda>e. e\<lparr>last_with_datap := chainp\<rparr>) else ret ()) (\<lambda>_.
     commit_apply buf vs (Next chain) (sz_add added len))))"

definition commit_done :: "nat \<Rightarrow> nat \<Rightarrow> int brun" where
  "commit_done buf added = bnd (count_added buf added) (\<lambda>_. bnd (evbuffer_invoke_callbacks buf) (\<lambda>_. ret 0))"

definition evbuffer_commit_space :: "nat \<Rightarrow> iovec list \<Rightarrow> int brun" where
  "evbuffer_commit_space buf vec =
     bnd (ld_buf buf) (\<lambda>e.
     if freeze_end e then ret (- 1)
     else if vec = [] then ret 0
     else
       bnd (if length vec = 1 \<and> eb_last e \<noteq> 0 then
              bnd (ld_chain (eb_last e)) (\<lambda>c. ret (fst (hd vec) = CHAIN_SPACE_PTR (eb_last e) c))
            else ret False) (\<lambda>at_last.
       if at_last then
         bnd (ld_chain (eb_last e)) (\<lambda>c.
         let len = snd (hd vec) in
         if len > CHAIN_SPACE_LEN c then ret (- 1)
         else
           bnd (upd_chain (eb_last e) (\<lambda>c. c\<lparr>off := off c + len\<rparr>)) (\<lambda>_.
           bnd (if len \<noteq> 0 then bnd (advance_last_with_data buf) (\<lambda>_. ret ()) else ret ()) (\<lambda>_.
           commit_done buf len)))
       else
         bnd (rd_cell (last_with_datap e)) (\<lambda>d.
         if d = 0 then ret (- 1)
         else
           bnd (first_with_space (last_with_datap e)) (\<lambda>firstchainp.
           bnd (rd_cell firstchainp) (\<lambda>chain.
           bnd (commit_check vec chain) (\<lambda>fits.
           if \<not> fits then ret (- 1)
           else bnd (commit_apply buf vec firstchainp 0) (\<lambda>added. commit_done buf added)))))))"

text \<open>What a client does with the reserved room: it writes its data there.\<close>

section \<open>Formatted output\<close>

text \<open>
  \<open>text\<close> is what the format and its arguments stand for. \<^verbatim>\<open>vsnprintf\<close> writes as much of it as fits, ends it
  with a zero byte and returns the length of the whole text.
\<close>

definition evutil_vsnprintf :: "nat \<Rightarrow> nat \<Rightarrow> nat \<Rightarrow> u8 list \<Rightarrow> int brun" where
  "evutil_vsnprintf chain i buflen text =
     (if buflen = 0 then ret 0
      else
        bnd (st_bytes chain i (take (buflen - 1) text @ [0])) (\<lambda>_.
        bnd (st_bytes chain (i + buflen - 1) [0]) (\<lambda>_. ret (int (length text)))))"

fun vprintf_loop :: "nat \<Rightarrow> nat \<Rightarrow> nat \<Rightarrow> u8 list \<Rightarrow> int brun" where
  "vprintf_loop 0 buf chain text = stop OutOfFuel"
| "vprintf_loop (Suc f) buf chain text =
     bnd (ld_chain chain) (\<lambda>c.
     bnd (evutil_vsnprintf chain (misalign c + off c) (CHAIN_SPACE_LEN c) text) (\<lambda>sz.
     if sz < 0 then ret (- 1)
     else if nat sz < CHAIN_SPACE_LEN c then
       bnd (upd_chain chain (\<lambda>c. c\<lparr>off := off c + nat sz\<rparr>)) (\<lambda>_.
       bnd (count_added buf (nat sz)) (\<lambda>_.
       bnd (advance_last_with_data buf) (\<lambda>_.
       bnd (evbuffer_invoke_callbacks buf) (\<lambda>_. ret sz))))
     else
       bnd (evbuffer_expand_singlechain buf (nat sz + 1)) (\<lambda>chain.
       if chain = 0 then ret (- 1) else vprintf_loop f buf chain text)))"

text \<open>The loop runs at most twice: the second time there is room for the whole text.\<close>

definition evbuffer_add_vprintf :: "nat \<Rightarrow> u8 list \<Rightarrow> int brun" where
  "evbuffer_add_vprintf buf text =
     bnd (ld_buf buf) (\<lambda>e.
     if freeze_end e then ret (- 1)
     else
       bnd (evbuffer_expand_singlechain buf 64) (\<lambda>chain.
       if chain = 0 then ret (- 1) else vprintf_loop 2 buf chain text))"

definition evbuffer_add_printf :: "nat \<Rightarrow> u8 list \<Rightarrow> int brun" where
  "evbuffer_add_printf buf text = evbuffer_add_vprintf buf text"

end
