(* ===== verification/Evbuffer_Printf.thy ===== *)
theory Evbuffer_Printf
  imports Evbuffer_Space Evbuffer_Pullup
begin

unbundle bit_operations_syntax

text \<open>
  Making room and formatted output. \<open>spacious n cs r\<close>: chain \<open>r\<close> of \<open>cs\<close> may be written to, has room for \<open>n\<close>
  bytes, and everything behind it is empty, so that data written there comes after all other data.
\<close>

definition spacious :: "nat \<Rightarrow> (nat \<times> evbuffer_chain) list \<Rightarrow> nat \<Rightarrow> bool" where
  "spacious n cs r \<longleftrightarrow> (\<exists>as c bs. cs = as @ (r, c) # bs \<and> (\<forall>xc\<in>set as. has_data xc) \<and> (\<forall>xc\<in>set bs. \<not> has_data xc)
     \<and> mutable c \<and> n \<le> CHAIN_SPACE_LEN c)"

text \<open>An empty buffer has at most one chain.\<close>

definition few :: "(nat \<times> evbuffer_chain) list \<Rightarrow> bool" where
  "few cs \<longleftrightarrow> used cs \<noteq> [] \<or> length cs \<le> 1"

section \<open>Making room\<close>

definition expands :: "evstate \<Rightarrow> nat \<Rightarrow> evbuffer \<Rightarrow> (nat \<times> evbuffer_chain) list \<Rightarrow> nat \<Rightarrow> fault + nat \<times> evstate \<Rightarrow> bool" where
  "expands s b e cs n r \<longleftrightarrow> (\<exists>p s' cs'. r = Inr (p, s') \<and> becomes s b e cs s' cs' \<and> content cs' = content cs \<and> few cs'
     \<and> (p = 0 \<and> \<not> room n s \<or> p \<noteq> 0 \<and> spacious n cs' p))"

lemma expand_ok_run:
  assumes "holds s b e cs" "spacious n cs p"
  shows "expand_ok p n s = Inr (p, s)"
proof -
  obtain as c bs where "cs = as @ (p, c) # bs" "n \<le> CHAIN_SPACE_LEN c" using assms(2) unfolding spacious_def by blast
  then show ?thesis using chain_at [of s b e as p c bs] assms(1) by (simp add: expand_ok_def run_simps)
qed

lemma expand_insert:
  assumes "holds s b e cs" "wf_ev s" "few cs"
  shows "expands s b e cs n (bnd (evbuffer_chain_insert_new b n) (\<lambda>result. expand_ok result n) s)"
proof (cases rule: insert_empty_run [OF assms(1,2), of n])
  case (1 s')
  then show ?thesis using assms(3) unfolding expands_def by (intro exI [of _ 0] exI [of _ s'] exI [of _ cs]) (simp add: bnd_def expand_ok_def)
next
  case (2 s' p c)
  obtain e' where e': "holds s' b e' (used cs @ [(p, c)])" using 2(3) by (auto simp: becomes_def)
  have c: "mutable c" "chain_ok c" "misalign c = 0" "off c = 0" "n \<le> buffer_len c" using 2(4) new_chain_ok [OF 2(4)] by (simp_all add: new_chain_def)
  have sp: "spacious n (used cs @ [(p, c)]) p" unfolding spacious_def
    using used_all [of cs] c chain_okD(6) [OF c(2)] by (intro exI [of _ "used cs"] exI [of _ c] exI [of _ "[]"]) simp
  have "bnd (evbuffer_chain_insert_new b n) (\<lambda>result. expand_ok result n) s = Inr (p, s')"
    using 2(1) expand_ok_run [OF e' sp] by (simp add: bnd_def)
  moreover have "content (used cs @ [(p, c)]) = content cs" using holds_content [OF assms(1)] c(4) by (simp add: chain_bytes_def)
  moreover have "few (used cs @ [(p, c)])" using used_snoc(1) [OF used_all, of cs "(p, c)"] c(4) by (cases "used cs = []") (simp_all add: few_def)
  ultimately show ?thesis using 2(2,3) sp unfolding expands_def by blast
qed

lemma expand_here:
  assumes "holds s b e cs" "wf_ev s" "few cs" "spacious n cs p" "p \<noteq> 0"
  shows "expands s b e cs n (expand_ok p n s)"
  using expand_ok_run [OF assms(1,4)] becomes_refl [OF assms(2,1)] assms(3-5) unfolding expands_def by blast

text \<open>Moving the data of a chain to the beginning of its memory.\<close>

lemma align_run:
  assumes h: "holds s b e (as @ (x, c) # bs)" "wf_ev s" "mutable c"
  obtains s' c' where "evbuffer_chain_align x s = Inr ((), s')" "becomes s b e (as @ (x, c) # bs) s' (as @ (x, c') # bs)"
    "chain_bytes c' = chain_bytes c" "misalign c' = 0" "off c' = off c" "buffer_len c' = buffer_len c" "mutable c'" "chain_ok c'"
proof -
  note at = chain_at [OF h(1)] and hs = holds_simps [OF h(1)]
  note ok = chain_okD [OF at(3)]
  define c' where "c' = set_data c 0 (off c) (put (ch_buffer c) 0 (chain_bytes c))"
  have c': "chain_ok c'" "chain_bytes c' = chain_bytes c"
    using set_data_ok [OF at(3) h(3), of 0 "off c"] ok(1) slice_put [of "ch_buffer c" 0 "chain_bytes c"]
    by (simp_all add: c'_def chain_bytes_def [of "set_data c m n f" for m n f])
  let ?s = "s\<lparr>ch_heap := (ch_heap s)(x \<mapsto> c'\<lparr>ch_next := head_addr bs 0\<rparr>)\<rparr>"
  have "holds ?s b e (as @ (x, c') # bs)"
    by (rule holds_upd [OF h(1)]) (use hs(2,10,11) c' in \<open>simp_all add: c'_def\<close>)
  moreover have "evolves s ?s {b} (set (addrs (as @ (x, c) # bs))) (set (addrs (as @ (x, c') # bs)))"
    by (rule evolvesI [OF h(2)]) (use holds_addrs_less [OF h(1)] in auto)
  ultimately have "becomes s b e (as @ (x, c) # bs) ?s (as @ (x, c') # bs)" unfolding becomes_def by blast
  moreover have "evbuffer_chain_align x s = Inr ((), ?s)"
    using at(1,2) ok(1,7) h(3) by (simp add: evbuffer_chain_align_def run_simps chain_writes mutable_def c'_def chain_bytes_def)
  ultimately show thesis using that [of ?s c'] c' h(3) by (simp add: c'_def)
qed

lemma last_data_split:
  assumes "holds s b e cs" "cs \<noteq> []"
  obtains as x c bs where "cs = as @ (x, c) # bs" "\<forall>xc\<in>set as. has_data xc" "\<forall>xc\<in>set bs. \<not> has_data xc"
    "rd_cell (last_with_datap e) s = Inr (x, s)" "used cs = (if off c = 0 then as else as @ [(x, c)])" "off c = 0 \<longrightarrow> as = []"
proof -
  note h = holds_simps [OF assms(1)]
  let ?k = "length (used cs) - 1"
  have k: "?k < length cs" using assms(2) length_takeWhile_le [of has_data cs] by (cases cs) auto
  obtain x c where xc: "cs ! ?k = (x, c)" by (cases "cs ! ?k")
  have cs: "cs = take ?k cs @ (x, c) # drop (Suc ?k) cs" using id_take_nth_drop [OF k] xc by simp
  have "set (take ?k cs) \<subseteq> set (used cs)"
    by (metis set_take_subset takeWhile_eq_take take_take min_def diff_le_self)
  then have a: "\<forall>xc\<in>set (take ?k cs). has_data xc" using used_all by blast
  have "rd_cell (last_with_datap e) s = Inr (x, s)"
    using rd_cell_run [OF h(3,2,1), of ?k] k h(7) xc drop_nth_Cons [OF k] by simp
  moreover have "\<forall>xc\<in>set (drop (Suc ?k) cs). \<not> has_data xc"
  proof -
    have "set (drop (Suc ?k) cs) \<subseteq> set (spare cs)" using set_drop_subset_set_drop [of "length (used cs)" "Suc ?k" cs] drop_used [of cs] by simp
    then show ?thesis using h(8) by blast
  qed
  moreover have "used cs = (if off c = 0 then take ?k cs else take ?k cs @ [(x, c)]) \<and> (off c = 0 \<longrightarrow> take ?k cs = [])"
  proof (cases "used cs")
    case Nil
    then have "\<not> has_data (hd cs)" using assms(2) by (cases cs) (auto split: if_splits)
    then show ?thesis using Nil xc assms(2) by (simp add: hd_conv_nth)
  next
    case (Cons y ys)
    then have "?k < length (used cs)" "length (used cs) = Suc ?k" by simp_all
    then have "has_data (x, c)" "used cs = take (Suc ?k) cs" using used_nth [of ?k cs] xc takeWhile_eq_take [of has_data cs] by simp_all
    then show ?thesis using take_Suc_conv_app_nth [OF k] xc by simp
  qed
  ultimately show thesis by (intro that [OF cs a]) blast+
qed

lemma expand_chain_none:
  assumes "CHAIN_SPACE_LEN c < n" "off c \<noteq> 0" "\<not> evbuffer_chain_should_realign c n" "n \<le> 2 ^ 32"
  shows "expand_chain b cp x c n = (if ch_next c \<noteq> 0 then
           bnd (ld_chain (ch_next c)) (\<lambda>d. if CHAIN_SPACE_LEN d \<ge> n then ret (Some (ch_next c)) else ret None)
         else ret None)"
proof -
  have "off c > MAX_TO_COPY_IN_EXPAND \<or> n < EVBUFFER_CHAIN_MAX \<and> EVBUFFER_CHAIN_MAX - n \<ge> off c"
    using assms(4) by (simp add: MAX_TO_COPY_IN_EXPAND_def EVBUFFER_CHAIN_MAX_def EV_SSIZE_MAX_def) linarith
  then show ?thesis using assms(1-3) by (auto simp: expand_chain_def)
qed

lemma mutable_flags: "mutable c \<Longrightarrow> chain_ok c \<Longrightarrow> ch_flags c AND (EVBUFFER_IMMUTABLE OR EVBUFFER_MEM_PINNED_ANY) = 0"
  by (simp add: mutable_def chain_ok_def bit.conj_disj_distrib)

lemma immutable_flags: "\<not> mutable c \<Longrightarrow> ch_flags c AND (EVBUFFER_IMMUTABLE OR EVBUFFER_MEM_PINNED_ANY) \<noteq> 0"
  by (auto simp: mutable_def bit.conj_disj_distrib or_eq_0_iff)

theorem expand_singlechain_run:
  assumes h: "holds s b e cs" "wf_ev s" "few cs" "0 < n" "n \<le> 2 ^ 32"
  shows "expands s b e cs n (evbuffer_expand_singlechain b n s)"
proof (cases "cs = []")
  case True
  have "rd_cell (last_with_datap e) s = Inr (0, s)"
    using rd_cell_run [of s e cs b 0] holds_simps(1-3,7) [OF h(1)] True by simp
  then have "evbuffer_expand_singlechain b n s = bnd (evbuffer_chain_insert_new b n) (\<lambda>result. expand_ok result n) s"
    using holds_simps(1,2) [OF h(1)] by (simp add: evbuffer_expand_singlechain_def run_simps)
  then show ?thesis using expand_insert [OF h(1-3)] by simp
next
  case False
  obtain as x c bs where cs: "cs = as @ (x, c) # bs" "\<forall>xc\<in>set as. has_data xc" "\<forall>xc\<in>set bs. \<not> has_data xc"
    "rd_cell (last_with_datap e) s = Inr (x, s)" "used cs = (if off c = 0 then as else as @ [(x, c)])" "off c = 0 \<longrightarrow> as = []"
    using last_data_split [OF h(1) False] .
  note at = chain_at [OF h(1) [unfolded cs(1)]] and hs = holds_simps(1,2) [OF h(1)]
  let ?c = "c\<lparr>ch_next := head_addr bs 0\<rparr>"
  let ?ins = "bnd (evbuffer_chain_insert_new b n) (\<lambda>result. expand_ok result n)"
  note ins = expand_insert [OF h(1-3), of n]
  have start: "evbuffer_expand_singlechain b n s = bnd (rd_cell chainp) (\<lambda>chain.
     bnd (if chain = 0 then ret None
          else
            bnd (ld_chain chain) (\<lambda>c.
            if ch_flags c AND (EVBUFFER_IMMUTABLE OR EVBUFFER_MEM_PINNED_ANY) \<noteq> 0 then ret None
            else expand_chain b chainp chain c n)) (\<lambda>r. case r of Some result \<Rightarrow> expand_ok result n | None \<Rightarrow> ?ins)) s"
    if "chainp = (if CHAIN_SPACE_LEN c = 0 then Next x else last_with_datap e)" for chainp
    unfolding that using hs at(1,2) cs(4) by (cases "CHAIN_SPACE_LEN c = 0") (simp_all add: evbuffer_expand_singlechain_def run_simps)
  show ?thesis
  proof (cases "CHAIN_SPACE_LEN c = 0")
    case full: True
    have rd: "rd_cell (Next x) s = Inr (head_addr bs 0, s)" using at(1,2) by (simp add: run_simps)
    show ?thesis
    proof (cases bs)
      case Nil
      then show ?thesis using ins start [of "Next x"] full rd by (simp add: run_simps)
    next
      case (Cons yd bs1)
      obtain y d where yd: "bs = (y, d) # bs1" using Cons by (cases yd) simp
      have x: "off c \<noteq> 0" using h(3) cs(1,5,6) yd by (cases "off c") (simp_all add: few_def)
      have cs': "cs = (as @ [(x, c)]) @ (y, d) # bs1" "\<forall>xc\<in>set (as @ [(x, c)]). has_data xc" "\<forall>xc\<in>set bs1. \<not> has_data xc" "off d = 0"
        using cs(1-3) yd x by auto
      note ay = chain_at [OF h(1) [unfolded cs'(1)]]
      show ?thesis
      proof (cases "mutable d")
        case False
        then show ?thesis using ins start [of "Next x"] full rd yd ay(1,2) immutable_flags [OF False] by (simp add: run_simps)
      next
        case mut: True
        have run: "evbuffer_expand_singlechain b n s = (if n \<le> CHAIN_SPACE_LEN d then expand_ok y n s else ?ins s)"
          using start [of "Next x"] full rd yd ay(1,2) mutable_flags [OF mut ay(3)] cs'(4) by (simp add: run_simps expand_chain_def)
        have "spacious n cs y" if "n \<le> CHAIN_SPACE_LEN d" unfolding spacious_def using cs'(1-3) mut that by blast
        then show ?thesis using run ins expand_here [OF h(1-3)] ay(2) by auto
      qed
    qed
  next
    case room: False
    then have mut: "mutable c" using chain_okD(5,6) [OF at(3)] by fastforce
    have run: "evbuffer_expand_singlechain b n s
        = bnd (expand_chain b (last_with_datap e) x ?c n) (\<lambda>r. case r of Some result \<Rightarrow> expand_ok result n | None \<Rightarrow> ?ins) s"
      using start [of "last_with_datap e"] room cs(4) at(1,2) mutable_flags [OF mut at(3)] by (simp add: bnd_def ld_chain_def)
    consider (fits) "n \<le> CHAIN_SPACE_LEN c" | (none) "CHAIN_SPACE_LEN c < n" "off c = 0"
      | (align) "CHAIN_SPACE_LEN c < n" "off c \<noteq> 0" "evbuffer_chain_should_realign c n"
      | (more) "CHAIN_SPACE_LEN c < n" "off c \<noteq> 0" "\<not> evbuffer_chain_should_realign c n" by linarith
    then show ?thesis
    proof cases
      case fits
      have "spacious n cs x" unfolding spacious_def using cs(1-3) mut fits by blast
      then have "expands s b e cs n (expand_ok x n s)" using expand_here [OF h(1-3)] at(2) by simp
      moreover have "evbuffer_expand_singlechain b n s = expand_ok x n s" unfolding run using fits by (simp add: expand_chain_def run_simps)
      ultimately show ?thesis by simp
    next
      case none
      then show ?thesis using ins unfolding run by (simp add: expand_chain_def run_simps)
    next
      case align
      obtain s' c' where a: "evbuffer_chain_align x s = Inr ((), s')" "becomes s b e (as @ (x, c) # bs) s' (as @ (x, c') # bs)"
        "chain_bytes c' = chain_bytes c" "misalign c' = 0" "off c' = off c" "buffer_len c' = buffer_len c" "mutable c'" "chain_ok c'"
        using align_run [OF h(1) [unfolded cs(1)] h(2) mut] .
      let ?cs = "as @ (x, c') # bs"
      obtain e' where e': "holds s' b e' ?cs" using a(2) by (auto simp: becomes_def)
      have "n \<le> buffer_len c - off c" using align(3) chain_okD(1,3) [OF at(3)] by (simp add: evbuffer_chain_should_realign_def)
      then have sp: "spacious n ?cs x"
        unfolding spacious_def using cs(2,3) a(4-8) chain_okD(6) [OF a(8)] by (intro exI [of _ as] exI [of _ c'] exI [of _ bs]) simp
      have "evbuffer_expand_singlechain b n s = Inr (x, s')"
        unfolding run using align a(1) expand_ok_run [OF e' sp] by (simp add: expand_chain_def run_simps)
      moreover have "few ?cs" using align(2) a(5) cs(2) by (simp add: few_def)
      ultimately show ?thesis using a(2,3) sp at(2) cs(1) unfolding expands_def by (intro exI [of _ x] exI [of _ s'] exI [of _ ?cs]) simp
    next
      case more
      have ec: "expand_chain b (last_with_datap e) x ?c n = (if head_addr bs 0 \<noteq> 0 then
           bnd (ld_chain (head_addr bs 0)) (\<lambda>d. if CHAIN_SPACE_LEN d \<ge> n then ret (Some (head_addr bs 0)) else ret None) else ret None)"
        using expand_chain_none [of ?c n b "last_with_datap e" x] more h(5) by (simp cong: if_cong)
      show ?thesis
      proof (cases bs)
        case Nil
        then show ?thesis using ins unfolding run ec by (simp add: run_simps)
      next
        case (Cons yd bs1)
        obtain y d where yd: "bs = (y, d) # bs1" using Cons by (cases yd) simp
        have cs': "cs = (as @ [(x, c)]) @ (y, d) # bs1" "\<forall>xc\<in>set (as @ [(x, c)]). has_data xc" "\<forall>xc\<in>set bs1. \<not> has_data xc"
          using cs(1-3) yd more(2) by auto
        note ay = chain_at [OF h(1) [unfolded cs'(1)]]
        have r: "evbuffer_expand_singlechain b n s = (if n \<le> CHAIN_SPACE_LEN d then expand_ok y n s else ?ins s)"
          unfolding run ec using yd ay(1,2) by (simp add: run_simps)
        have "spacious n cs y" if "n \<le> CHAIN_SPACE_LEN d"
        proof -
          have "mutable d" using that h(4) chain_okD(5,6) [OF ay(3)] by fastforce
          then show ?thesis unfolding spacious_def using cs' that by blast
        qed
        then show ?thesis using r ins expand_here [OF h(1-3)] ay(2) by auto
      qed
    qed
  qed
qed

section \<open>Catching up with the last chain that has data\<close>

lemma advance_loop_run:
  assumes "chain_seg (ch_heap s) (eb_first e) cs 0" "eb_heap s b = Some e" "0 < b" "last_with_datap e = cell_of b cs k" "k \<le> m" "m < length cs"
    "\<forall>i. k < i \<and> i \<le> m \<longrightarrow> off (snd (cs ! i)) \<noteq> 0" "Suc m < length cs \<longrightarrow> off (snd (cs ! Suc m)) = 0" "m - k < f"
  shows "\<exists>r. advance_loop f b j s = Inr (r, s\<lparr>eb_heap := (eb_heap s)(b \<mapsto> e\<lparr>last_with_datap := cell_of b cs m\<rparr>)\<rparr>)"
  using assms
proof (induction f arbitrary: s e k j)
  case (Suc f)
  have k: "k < length cs" using Suc.prems(5,6) by simp
  have rd: "rd_cell (last_with_datap e) s = Inr (fst (cs ! k), s)"
    using rd_cell_run [OF Suc.prems(1,2), of k] Suc.prems(3,4) k drop_nth_Cons [OF k] by simp
  note ck = chain_seg_nth [OF Suc.prems(1) k]
  show ?case
  proof (cases "k = m")
    case True
    have "advance_loop (Suc f) b j s = Inr (j, s)"
    proof (cases "Suc m < length cs")
      case last: True
      then have "head_addr (drop (Suc k) cs) 0 = fst (cs ! Suc m)" using True by (simp flip: Cons_nth_drop_Suc)
      then show ?thesis using Suc.prems(2,3,8) rd ck chain_seg_nth [OF Suc.prems(1) last] last by (simp add: run_simps)
    next
      case False
      then have "head_addr (drop (Suc k) cs) 0 = 0" using True Suc.prems(6) by simp
      then show ?thesis using Suc.prems(2,3) rd ck by (simp add: run_simps)
    qed
    then show ?thesis using True Suc.prems(2,4) by (auto simp: fun_upd_idem)
  next
    case False
    then have n: "Suc k < length cs" "Suc k \<le> m" "off (snd (cs ! Suc k)) \<noteq> 0" using Suc.prems(5-7) by auto
    let ?e = "e\<lparr>last_with_datap := Next (fst (cs ! k))\<rparr>"
    let ?s = "s\<lparr>eb_heap := (eb_heap s)(b \<mapsto> ?e)\<rparr>"
    have "head_addr (drop (Suc k) cs) 0 = fst (cs ! Suc k)" using n(1) by (simp flip: Cons_nth_drop_Suc)
    then have "advance_loop (Suc f) b j s = advance_loop f b (j + 1) ?s"
      using Suc.prems(2,3) rd ck chain_seg_nth [OF Suc.prems(1) n(1)] n(3) by (simp add: run_simps)
    moreover have "\<exists>r. advance_loop f b (j + 1) ?s = Inr (r, ?s\<lparr>eb_heap := (eb_heap ?s)(b \<mapsto> ?e\<lparr>last_with_datap := cell_of b cs m\<rparr>)\<rparr>)"
      by (rule Suc.IH [of ?s ?e "Suc k"]) (use Suc.prems n False in \<open>auto simp: cell_of_def\<close>)
    ultimately show ?thesis by (simp del: advance_loop.simps fun_upd_apply)
  qed
qed simp

lemma advance_run:
  assumes "chain_seg (ch_heap s) (eb_first e) cs 0" "eb_heap s b = Some e" "0 < b" "last_with_datap e = cell_of b cs k" "k \<le> m" "m < length cs"
    "\<forall>i. k < i \<and> i \<le> m \<longrightarrow> off (snd (cs ! i)) \<noteq> 0" "Suc m < length cs \<longrightarrow> off (snd (cs ! Suc m)) = 0" "length cs < Suc (ev_brk s)"
  obtains r where "advance_last_with_data b s = Inr (r, s\<lparr>eb_heap := (eb_heap s)(b \<mapsto> e\<lparr>last_with_datap := cell_of b cs m\<rparr>)\<rparr>)"
proof -
  have k: "k < length cs" "m - k < Suc (ev_brk s)" using assms(5,6,9) by auto
  have "rd_cell (last_with_datap e) s = Inr (fst (cs ! k), s)"
    using rd_cell_run [OF assms(1,2), of k] assms(3,4) k drop_nth_Cons [OF k(1)] by simp
  moreover obtain r where "advance_loop (Suc (ev_brk s)) b 0 s = Inr (r, s\<lparr>eb_heap := (eb_heap s)(b \<mapsto> e\<lparr>last_with_datap := cell_of b cs m\<rparr>)\<rparr>)"
    using advance_loop_run [OF assms(1-8) k(2)] by blast
  ultimately show thesis using that [of r] assms(2,3) chain_seg_nth [OF assms(1) k(1)]
    by (simp add: advance_last_with_data_def run_simps del: advance_loop.simps)
qed

section \<open>Formatted output\<close>

text \<open>What \<^verbatim>\<open>vsnprintf\<close> leaves in the memory of the chain: the text if it fits, and otherwise nothing in front of the free room changes.\<close>

definition printed :: "(nat \<Rightarrow> u8) \<Rightarrow> nat \<Rightarrow> nat \<Rightarrow> u8 list \<Rightarrow> nat \<Rightarrow> u8" where
  "printed f i n text = put (put f i (take (n - 1) text @ [0])) (i + n - 1) [0]"

lemma slice_printed:
  assumes "0 < n"
  shows "j + k \<le> i \<Longrightarrow> slice (printed f i n text) j k = slice f j k"
    "length text < n \<Longrightarrow> j + k = i \<Longrightarrow> slice (printed f i n text) j (k + length text) = slice f j k @ text"
proof -
  show "j + k \<le> i \<Longrightarrow> slice (printed f i n text) j k = slice f j k" using assms by (simp add: printed_def slice_put_before)
  assume a: "length text < n" "j + k = i"
  then have t: "take (n - 1) text = text" by simp
  have "slice (printed f i n text) j (k + length text) = slice (put f i (text @ [0])) j (k + length text)"
    using a assms unfolding printed_def t by (intro slice_put_before) simp
  moreover have "slice (put f i (text @ [0])) j (k + length (text @ [0])) = slice f j k @ text @ [0]" using a by (intro slice_put_append) simp
  then have "take (k + length text) (slice (put f i (text @ [0])) j (k + length (text @ [0]))) = slice f j k @ text" by simp
  ultimately show "slice (printed f i n text) j (k + length text) = slice f j k @ text" by (simp add: min_def)
qed

lemma vsnprintf_run:
  assumes "ch_heap s p = Some c" "0 < p" "0 < n" "i + n \<le> buffer_len c"
  shows "evutil_vsnprintf p i n text s
    = Inr (int (length text), s\<lparr>ch_heap := (ch_heap s)(p \<mapsto> c\<lparr>ch_buffer := printed (ch_buffer c) i n text\<rparr>)\<rparr>)"
  using assms by (simp add: evutil_vsnprintf_def run_simps printed_def)

lemma used_split:
  assumes "\<forall>xc\<in>set as. has_data xc" "\<forall>xc\<in>set bs. \<not> has_data xc"
  shows "length (used (as @ (x, c) # bs)) = length as + (if off c = 0 then 0 else 1)" "\<forall>xc\<in>set (spare (as @ (x, c) # bs)). \<not> has_data xc"
proof -
  have b: "used bs = []" "spare bs = bs" using assms(2) by (cases bs; simp)+
  show "length (used (as @ (x, c) # bs)) = length as + (if off c = 0 then 0 else 1)" using assms(1) b(1) by simp
  have "spare (as @ (x, c) # bs) = (if off c = 0 then (x, c) # bs else bs)" using assms(1) b(2) by simp
  then show "\<forall>xc\<in>set (spare (as @ (x, c) # bs)). \<not> has_data xc" using assms(2) by (cases "off c = 0") (simp_all only: if_True if_False list.set(2) ball_simps(7), simp)
qed

text \<open>The branch for a text that fits: the new bytes are counted, \<^verbatim>\<open>last_with_datap\<close> catches up, callbacks run.\<close>

lemma print_fits:
  assumes h: "holds s b e (as @ (p, c) # bs)" "wf_ev s" "few (as @ (p, c) # bs)" "\<forall>xc\<in>set as. has_data xc" "\<forall>xc\<in>set bs. \<not> has_data xc"
      "mutable c" "length text < CHAIN_SPACE_LEN c" "total_len e + length text < 2 ^ 64"
  shows "\<exists>s' cs'. vprintf_loop (Suc f) b p text s = Inr (int (length text), s') \<and> becomes s b e (as @ (p, c) # bs) s' cs'
    \<and> content cs' = content (as @ (p, c) # bs) @ text \<and> few cs'"
proof -
  let ?cs = "as @ (p, c) # bs" and ?n = "length text" and ?i = "misalign c + off c" and ?L = "CHAIN_SPACE_LEN c"
  note hs = holds_simps [OF h(1)] and at = chain_at [OF h(1)]
  note ok = chain_okD [OF at(3)]
  define c' where "c' = set_data c (misalign c) (off c + ?n) (printed (ch_buffer c) ?i ?L text)"
  have L: "0 < ?L" "?i + ?L \<le> buffer_len c" using h(7) ok(1,6) by simp_all
  have c': "chain_ok c'" "chain_bytes c' = chain_bytes c @ text" "off c' = off c + ?n"
    using set_data_ok [OF at(3) h(6)] h(7) ok(1,6) slice_printed(2) [OF L(1) h(7), of "misalign c" "off c" ?i "ch_buffer c"]
    by (simp_all add: c'_def chain_bytes_def)
  let ?cs' = "as @ (p, c') # bs"
  let ?k = "length (used ?cs) - 1" and ?m = "length (used ?cs') - 1"
  note u = used_split [OF h(4,5), of p c] and u' = used_split [OF h(4,5), of p c']
  let ?e1 = "e\<lparr>total_len := total_len e + ?n, n_add_for_cb := sz_add (n_add_for_cb e) ?n\<rparr>"
  let ?s1 = "s\<lparr>ch_heap := (ch_heap s)(p \<mapsto> c'\<lparr>ch_next := head_addr bs 0\<rparr>), eb_heap := (eb_heap s)(b \<mapsto> ?e1)\<rparr>"
  have seg: "chain_seg (ch_heap ?s1) (eb_first ?e1) ?cs' 0" using chain_seg_set [OF hs(3,4), of c'] by simp
  have few: "as = [] \<Longrightarrow> off c = 0 \<Longrightarrow> bs = []" using h(3) u(1) by (auto simp: few_def)
  have lw: "last_with_datap ?e1 = cell_of b ?cs' ?k" using hs(7) cell_of_replace by simp
  have mk: "?k \<le> ?m" "?m < length ?cs'" unfolding u(1) u'(1) using c'(3) by auto
  have adv: "\<forall>i. ?k < i \<and> i \<le> ?m \<longrightarrow> off (snd (?cs' ! i)) \<noteq> 0"
  proof (intro allI impI)
    fix i assume i: "?k < i \<and> i \<le> ?m"
    then have "i = length as" "off c' \<noteq> 0" unfolding u(1) u'(1) using c'(3) by (auto split: if_splits)
    then show "off (snd (?cs' ! i)) \<noteq> 0" by simp
  qed
  have stop: "Suc ?m < length ?cs' \<longrightarrow> off (snd (?cs' ! Suc ?m)) = 0"
  proof
    assume l: "Suc ?m < length ?cs'"
    show "off (snd (?cs' ! Suc ?m)) = 0"
    proof (cases "off c' = 0 \<and> as \<noteq> []")
      case True
      then have "Suc ?m = length as" unfolding u'(1) by simp
      then show ?thesis using True by simp
    next
      case False
      then have m: "Suc ?m = Suc (length as)" unfolding u'(1) by auto
      then have "bs ! 0 \<in> set bs" using l by (intro nth_mem) simp
      then show ?thesis using h(5) m by (auto simp: nth_append has_data_def)
    qed
  qed
  obtain r where r: "advance_last_with_data b ?s1 = Inr (r, ?s1\<lparr>eb_heap := (eb_heap ?s1)(b \<mapsto> ?e1\<lparr>last_with_datap := cell_of b ?cs' ?m\<rparr>)\<rparr>)"
    by (rule advance_run [OF seg _ _ lw mk adv stop]) (use hs(1) holds_fuel [OF h(1)] in simp_all)
  let ?e2 = "?e1\<lparr>last_with_datap := cell_of b ?cs' ?m\<rparr>"
  let ?s2 = "s\<lparr>ch_heap := (ch_heap s)(p \<mapsto> c'\<lparr>ch_next := head_addr bs 0\<rparr>), eb_heap := (eb_heap s)(b \<mapsto> ?e2)\<rparr>"
  have h2: "holds ?s2 b ?e2 ?cs'"
    unfolding holds_def
  proof (intro conjI)
    show "\<forall>xc\<in>set (spare ?cs'). \<not> has_data xc" by (rule u'(2))
    show "eb_last ?e2 = last_addr ?cs'" using hs(6) by (simp add: last_addr_def)
    show "\<forall>xc\<in>set ?cs'. chain_ok (snd xc)" using hs(9) c'(1) by auto
    show "total_len ?e2 = length (content ?cs')" using hs(10) c'(3) by simp
  qed (use seg hs(1,4,5) h(8) in simp_all)
  have ev: "evolves s ?s2 {b} (set (addrs ?cs)) (set (addrs ?cs'))"
    using evolves_step(1) [OF h(2) _ holds_addrs_less [OF h(1)], of p b "{b}"] by simp
  have wf: "wf_ev ?s2" using evolves_wf [OF h(2) ev] holds_addrs_less [OF h2] holds_buf_less [OF h(1,2)] by simp
  obtain s' e' where s': "evbuffer_invoke_callbacks b ?s2 = Inr ((), s')" "holds s' b e' ?cs'" "settings e' = settings ?e2" "\<forall>X. evolves ?s2 s' {b} X X"
    using invoke_holds [OF h2 wf] .
  have "becomes s b e ?cs s' ?cs'" using s'(2,3) evolves_trans [OF ev] s'(4) unfolding becomes_def by (auto simp: settings_def)
  moreover have "vprintf_loop (Suc f) b p text s = Inr (int ?n, s')"
    using at(1,2) vsnprintf_run [of s p "c\<lparr>ch_next := head_addr bs 0\<rparr>" ?L ?i "text"] L h(7,8) hs(1,2) r s'(1)
    by (simp add: run_simps chain_writes c'_def ev_order)
  moreover have "content ?cs' = content ?cs @ text" using c'(2) content_empty [OF h(5)] by simp
  moreover have "few ?cs'" using h(3) u(1) u'(1) c'(3) by (auto simp: few_def split: if_splits)
  ultimately show ?thesis by blast
qed

text \<open>A text that does not fit only spoils free memory.\<close>

lemma print_spoils:
  assumes h: "holds s b e (as @ (p, c) # bs)" "wf_ev s" "mutable c" "0 < CHAIN_SPACE_LEN c"
  obtains s' c' where "evutil_vsnprintf p (misalign c + off c) (CHAIN_SPACE_LEN c) text s = Inr (int (length text), s')"
    "becomes s b e (as @ (p, c) # bs) s' (as @ (p, c') # bs)" "chain_bytes c' = chain_bytes c" "off c' = off c"
proof -
  note hs = holds_simps [OF h(1)] and at = chain_at [OF h(1)]
  note ok = chain_okD [OF at(3)]
  define c' where "c' = c\<lparr>ch_buffer := printed (ch_buffer c) (misalign c + off c) (CHAIN_SPACE_LEN c) text\<rparr>"
  let ?s = "s\<lparr>ch_heap := (ch_heap s)(p \<mapsto> c'\<lparr>ch_next := head_addr bs 0\<rparr>)\<rparr>"
  have c': "chain_ok c'" "chain_bytes c' = chain_bytes c" "off c' = off c"
    using collected_ok(1) [OF at(3) h(3)] slice_printed(1) [OF h(4)] by (simp_all add: c'_def chain_bytes_def)
  have "holds ?s b e (as @ (p, c') # bs)" by (rule holds_upd [OF h(1)]) (use hs(2,10,11) c' in simp_all)
  moreover have "evolves s ?s {b} (set (addrs (as @ (p, c) # bs))) (set (addrs (as @ (p, c') # bs)))"
    by (rule evolvesI [OF h(2)]) (use holds_addrs_less [OF h(1)] in auto)
  ultimately have "becomes s b e (as @ (p, c) # bs) ?s (as @ (p, c') # bs)" unfolding becomes_def by blast
  moreover have "evutil_vsnprintf p (misalign c + off c) (CHAIN_SPACE_LEN c) text s = Inr (int (length text), ?s)"
    using vsnprintf_run [OF at(1,2) h(4), of "misalign c + off c" "text"] ok(1,6) by (simp add: c'_def chain_writes)
  ultimately show thesis using that c' by blast
qed

definition prints :: "evstate \<Rightarrow> nat \<Rightarrow> evbuffer \<Rightarrow> (nat \<times> evbuffer_chain) list \<Rightarrow> u8 list \<Rightarrow> fault + int \<times> evstate \<Rightarrow> bool" where
  "prints s b e cs str r \<longleftrightarrow> (\<exists>z s' cs'. r = Inr (z, s') \<and> becomes s b e cs s' cs' \<and> few cs'
     \<and> (z = int (length str) \<and> content cs' = content cs @ str \<or> z = - 1 \<and> content cs' = content cs \<and> (\<exists>n. ev_oom s n)))"

lemma prints_later:
  assumes "becomes s b e cs s1 cs1" "content cs1 = content cs" "\<And>e1. holds s1 b e1 cs1 \<Longrightarrow> settings e1 = settings e \<Longrightarrow> prints s1 b e1 cs1 str r"
  shows "prints s b e cs str r"
proof -
  obtain e1 where e1: "holds s1 b e1 cs1" "settings e1 = settings e" and ev: "evolves s s1 {b} (set (addrs cs)) (set (addrs cs1))"
    using assms(1) by (auto simp: becomes_def)
  have "ev_oom s1 = ev_oom s" using ev by (simp add: evolves_def)
  then show ?thesis using assms(3) [OF e1] becomes_trans [OF e1 ev] assms(2) unfolding prints_def by fastforce
qed

lemma no_room: "\<not> room n s \<Longrightarrow> n \<le> 2 ^ 32 \<Longrightarrow> \<exists>n. ev_oom s n"
  by (auto simp: room_def EVBUFFER_CHAIN_MAX_def EVBUFFER_CHAIN_SIZE_def EV_SSIZE_MAX_def)

lemma expanded_print:
  assumes h: "holds s b e cs" "wf_ev s" "few cs" "0 < n" "n \<le> 2 ^ 32"
    and k: "\<And>p s' e' cs'. holds s' b e' cs' \<Longrightarrow> wf_ev s' \<Longrightarrow> few cs' \<Longrightarrow> spacious n cs' p \<Longrightarrow> content cs' = content cs \<Longrightarrow> prints s' b e' cs' str (f p s')"
  shows "prints s b e cs str (bnd (evbuffer_expand_singlechain b n) (\<lambda>p. if p = 0 then ret (- 1) else f p) s)"
proof -
  obtain p s' cs' where r: "evbuffer_expand_singlechain b n s = Inr (p, s')" "becomes s b e cs s' cs'" "content cs' = content cs" "few cs'"
    "p = 0 \<and> \<not> room n s \<or> p \<noteq> 0 \<and> spacious n cs' p" using expand_singlechain_run [OF h] unfolding expands_def by blast
  have wf: "wf_ev s'" by (rule becomes_wf [OF h(2,1) r(2)])
  show ?thesis
  proof (cases "p = 0")
    case True
    then have "\<exists>n. ev_oom s n" using r(5) no_room [OF _ h(5)] by blast
    then show ?thesis using r(1-4) True unfolding prints_def by (intro exI [of _ "- 1"] exI [of _ s'] exI [of _ cs']) (simp add: bnd_def)
  next
    case False
    have "prints s b e cs str (f p s')"
      by (rule prints_later [OF r(2,3)]) (use k wf r(3-5) False in blast)
    then show ?thesis using r(1) False by (simp add: bnd_def)
  qed
qed

theorem evbuffer_add_vprintf_run:
  assumes h: "holds s b e cs" "wf_ev s" "few cs" "\<not> freeze_end e" "length str < 2 ^ 31 - 1" "total_len e + length str < 2 ^ 64"
  shows "prints s b e cs str (evbuffer_add_vprintf b str s)"
proof -
  have len: "length (content cs) + length str < 2 ^ 64" using h(6) holds_simps(10) [OF h(1)] by simp
  have last: "prints s b e cs str (vprintf_loop (Suc f) b p str s)"
    if g: "holds s b e cs" "wf_ev s" "few cs" "spacious n cs p" "length str < n" "length (content cs) + length str < 2 ^ 64" for s e cs p n f
  proof -
    obtain as c bs where c: "cs = as @ (p, c) # bs" "\<forall>xc\<in>set as. has_data xc" "\<forall>xc\<in>set bs. \<not> has_data xc" "mutable c" "n \<le> CHAIN_SPACE_LEN c"
      using g(4) unfolding spacious_def by blast
    have "\<exists>s' cs'. vprintf_loop (Suc f) b p str s = Inr (int (length str), s') \<and> becomes s b e cs s' cs' \<and> content cs' = content cs @ str \<and> few cs'"
      using print_fits [of s b e as p c bs str f] g c holds_simps(10) [OF g(1)] by simp
    then show ?thesis unfolding prints_def by blast
  qed
  have once: "prints s b e cs str (vprintf_loop 2 b p str s)"
    if g: "holds s b e cs" "wf_ev s" "few cs" "spacious 64 cs p" "length (content cs) + length str < 2 ^ 64" for s e cs p
  proof -
    obtain as c bs where c: "cs = as @ (p, c) # bs" "\<forall>xc\<in>set as. has_data xc" "\<forall>xc\<in>set bs. \<not> has_data xc" "mutable c" "64 \<le> CHAIN_SPACE_LEN c"
      using g(4) unfolding spacious_def by blast
    show ?thesis
    proof (cases "length str < CHAIN_SPACE_LEN c")
      case True
      have "spacious (CHAIN_SPACE_LEN c) cs p" unfolding spacious_def using c by blast
      then show ?thesis using last [OF g(1-3) _ True g(5), of p 1] by (simp add: numeral_2_eq_2)
    next
      case False
      have L: "0 < CHAIN_SPACE_LEN c" using c(5) by simp
      obtain s1 c1 where s1: "evutil_vsnprintf p (misalign c + off c) (CHAIN_SPACE_LEN c) str s = Inr (int (length str), s1)"
        "becomes s b e (as @ (p, c) # bs) s1 (as @ (p, c1) # bs)" "chain_bytes c1 = chain_bytes c" "off c1 = off c"
        using print_spoils [OF g(1) [unfolded c(1)] g(2) c(4) L, of str] .
      have few1: "few (as @ (p, c1) # bs)" using g(3) s1(4) used_split(1) [OF c(2,3), of p c] used_split(1) [OF c(2,3), of p c1] unfolding c(1) few_def by (metis length_0_conv length_append length_Cons)
      have "vprintf_loop 2 b p str s = bnd (evbuffer_expand_singlechain b (length str + 1)) (\<lambda>p. if p = 0 then ret (- 1) else vprintf_loop (Suc 0) b p str) s1"
        using chain_at(1,2) [OF g(1) [unfolded c(1)]] s1(1) False by (simp add: numeral_2_eq_2 run_simps)
      moreover have "prints s1 b e1 (as @ (p, c1) # bs) str (bnd (evbuffer_expand_singlechain b (length str + 1)) (\<lambda>p. if p = 0 then ret (- 1) else vprintf_loop (Suc 0) b p str) s1)"
        if e1: "holds s1 b e1 (as @ (p, c1) # bs)" for e1
      proof (rule expanded_print [OF e1 becomes_wf [OF g(2,1) s1(2) [folded c(1)]] few1])
        fix q s2 e2 cs2
        assume a: "holds s2 b e2 cs2" "wf_ev s2" "few cs2" "spacious (length str + 1) cs2 q" "content cs2 = content (as @ (p, c1) # bs)"
        then show "prints s2 b e2 cs2 str (vprintf_loop (Suc 0) b q str s2)"
          using last [OF a(1-4)] g(5) s1(3) c(1) by simp
      qed (use h(5) in simp_all)
      ultimately show ?thesis using prints_later [OF s1(2) [folded c(1)]] s1(3) c(1) by simp
    qed
  qed
  have "evbuffer_add_vprintf b str s = bnd (evbuffer_expand_singlechain b 64) (\<lambda>p. if p = 0 then ret (- 1) else vprintf_loop 2 b p str) s"
    using holds_simps(1,2) [OF h(1)] h(4) by (simp add: evbuffer_add_vprintf_def run_bnd_simps)
  moreover have "prints s b e cs str (bnd (evbuffer_expand_singlechain b 64) (\<lambda>p. if p = 0 then ret (- 1) else vprintf_loop 2 b p str) s)"
    by (rule expanded_print [OF h(1-3)]) (use once len in simp_all)
  ultimately show ?thesis by simp
qed

end
