(* ===== verification/Evbuffer_Search.thy ===== *)
theory Evbuffer_Search
  imports Evbuffer_Ops
begin

text \<open>
  Finding things in a buffer, \<^verbatim>\<open>libevent/buffer.c\<close>: positions, comparing, searching, line ends and reading
  a line. A position is a number and the chain with the offset in it; the number is -1 when nothing
  was found. Nothing here changes a chain, so the state only changes when a line is taken out.
\<close>

record evbuffer_ptr =
  ptr_pos :: int
  ptr_chain :: nat
  pos_in_chain :: nat

datatype evbuffer_eol_style = EVBUFFER_EOL_ANY | EVBUFFER_EOL_CRLF | EVBUFFER_EOL_CRLF_STRICT | EVBUFFER_EOL_LF

datatype evbuffer_ptr_how = EVBUFFER_PTR_SET | EVBUFFER_PTR_ADD

section \<open>Bytes\<close>

definition memchr :: "u8 \<Rightarrow> u8 list \<Rightarrow> nat option" where
  "memchr x bs = (let k = length (takeWhile (\<lambda>y. y \<noteq> x) bs) in if k < length bs then Some k else None)"

fun memcmp :: "u8 list \<Rightarrow> u8 list \<Rightarrow> int" where
  "memcmp (x # xs) (y # ys) = (if x = y then memcmp xs ys else uint x - uint y)"
| "memcmp _ _ = 0"

definition CR :: u8 where "CR = 13"
definition LF :: u8 where "LF = 10"
definition CHUNK_SZ :: nat where "CHUNK_SZ = 128"

text \<open>The search for an end of line, 128 bytes at a time; \<open>i\<close> is the offset of \<^verbatim>\<open>s\<close>.\<close>

function find_eol_from :: "nat \<Rightarrow> u8 list \<Rightarrow> nat option" where
  "find_eol_from i s =
     (if s = [] then None
      else case memchr CR (take CHUNK_SZ s) of
          Some cr \<Rightarrow> (case memchr LF (take CHUNK_SZ s) of
              Some lf \<Rightarrow> if lf < cr then Some (i + lf) else Some (i + cr)
            | None \<Rightarrow> Some (i + cr))
        | None \<Rightarrow> (case memchr LF (take CHUNK_SZ s) of
              Some lf \<Rightarrow> Some (i + lf)
            | None \<Rightarrow> find_eol_from (i + CHUNK_SZ) (drop CHUNK_SZ s)))"
  by pat_completeness auto

termination
  by (relation "measure (\<lambda>(i, s). length s)") (auto simp: CHUNK_SZ_def)

declare find_eol_from.simps [simp del]

definition find_eol_char :: "u8 list \<Rightarrow> nat option" where
  "find_eol_char s = find_eol_from 0 s"

section \<open>Scanning forward\<close>

text \<open>\<open>evbuffer_strchr\<close> and \<open>evbuffer_find_eol_char\<close> differ in what they look for in a chain.\<close>

fun scan_loop :: "(u8 list \<Rightarrow> nat option) \<Rightarrow> nat \<Rightarrow> evbuffer_ptr \<Rightarrow> nat \<Rightarrow> nat \<Rightarrow> (int \<times> evbuffer_ptr) brun" where
  "scan_loop look 0 it chain i = stop OutOfFuel"
| "scan_loop look (Suc f) it chain i =
     (if chain = 0 then ret (- 1, it)
      else
        bnd (ld_chain chain) (\<lambda>c.
        bnd (ld_bytes chain (misalign c + i) (sz_sub (off c) i)) (\<lambda>bs.
        case look bs of
          Some k \<Rightarrow>
            let it = it\<lparr>ptr_chain := chain, pos_in_chain := i + k, ptr_pos := ptr_pos it + int k\<rparr> in ret (ptr_pos it, it)
        | None \<Rightarrow> scan_loop look f (it\<lparr>ptr_pos := ptr_pos it + int (off c) - int i\<rparr>) (ch_next c) 0)))"

definition evbuffer_strchr :: "evbuffer_ptr \<Rightarrow> u8 \<Rightarrow> (int \<times> evbuffer_ptr) brun" where
  "evbuffer_strchr it chr = with_brk (\<lambda>n. scan_loop (memchr chr) n it (ptr_chain it) (pos_in_chain it))"

definition evbuffer_find_eol_char :: "evbuffer_ptr \<Rightarrow> (int \<times> evbuffer_ptr) brun" where
  "evbuffer_find_eol_char it = with_brk (\<lambda>n. scan_loop find_eol_char n it (ptr_chain it) (pos_in_chain it))"

fun strspn_loop :: "nat \<Rightarrow> nat \<Rightarrow> nat \<Rightarrow> nat \<Rightarrow> u8 list \<Rightarrow> (nat \<times> nat \<times> nat) brun" where
  "strspn_loop 0 chain i count chrset = stop OutOfFuel"
| "strspn_loop (Suc f) chain i count chrset =
     bnd (ld_chain chain) (\<lambda>c.
     bnd (if i < off c then ld_bytes chain (misalign c + i) (off c - i) else ret []) (\<lambda>bs.
     let k = length (takeWhile (\<lambda>x. x \<in> set chrset) bs) in
     if k < length bs then ret (chain, i + k, count + k)
     else if ch_next c = 0 then ret (chain, 0, count + k)
     else strspn_loop f (ch_next c) 0 (count + k) chrset))"

definition evbuffer_strspn :: "evbuffer_ptr \<Rightarrow> u8 list \<Rightarrow> (int \<times> evbuffer_ptr) brun" where
  "evbuffer_strspn ptr chrset =
     (if ptr_chain ptr = 0 then ret (- 1, ptr)
      else
        bnd (with_brk (\<lambda>n. strspn_loop n (ptr_chain ptr) (pos_in_chain ptr) 0 chrset)) (\<lambda>(chain, i, count).
        ret (int count, ptr\<lparr>ptr_chain := chain, pos_in_chain := i, ptr_pos := ptr_pos ptr + int count\<rparr>)))"

definition evbuffer_getchr :: "evbuffer_ptr \<Rightarrow> u8 brun" where
  "evbuffer_getchr it =
     bnd (ld_chain (ptr_chain it)) (\<lambda>c.
     bnd (ld_bytes (ptr_chain it) (misalign c + pos_in_chain it) 1) (\<lambda>bs. ret (hd bs)))"

section \<open>Positions\<close>

fun ptr_loop :: "nat \<Rightarrow> nat \<Rightarrow> nat \<Rightarrow> nat \<Rightarrow> (nat \<times> nat) brun" where
  "ptr_loop 0 chain position left = stop OutOfFuel"
| "ptr_loop (Suc f) chain position left =
     (if chain = 0 then ret (0, 0)
      else
        bnd (ld_chain chain) (\<lambda>c.
        if position + left \<ge> off c then ptr_loop f (ch_next c) 0 (sz_sub left (sz_sub (off c) position))
        else ret (chain, position + left)))"

definition ptr_finish :: "evbuffer_ptr \<Rightarrow> nat \<Rightarrow> nat \<Rightarrow> nat \<Rightarrow> (int \<times> evbuffer_ptr) brun" where
  "ptr_finish pos chain position left =
     bnd (chk (EV_SIZE_MAX - left \<ge> position) AssertFailed) (\<lambda>_.
     bnd (with_brk (\<lambda>n. ptr_loop n chain position left)) (\<lambda>(chain, i).
     if chain \<noteq> 0 then ret (0, pos\<lparr>ptr_chain := chain, pos_in_chain := i\<rparr>)
     else ret (- 1, pos\<lparr>ptr_chain := 0, ptr_pos := - 1\<rparr>)))"

fun evbuffer_ptr_set :: "nat \<Rightarrow> evbuffer_ptr \<Rightarrow> nat \<Rightarrow> evbuffer_ptr_how \<Rightarrow> (int \<times> evbuffer_ptr) brun" where
  "evbuffer_ptr_set buf pos position EVBUFFER_PTR_SET =
     bnd (ld_buf buf) (\<lambda>e. ptr_finish (pos\<lparr>ptr_pos := int position\<rparr>) (eb_first e) 0 position)"
| "evbuffer_ptr_set buf pos position EVBUFFER_PTR_ADD =
     (if ptr_pos pos < 0 \<or> int (EV_SIZE_MAX - position) < ptr_pos pos then ret (- 1, pos)
      else ptr_finish (pos\<lparr>ptr_pos := ptr_pos pos + int position\<rparr>) (ptr_chain pos) (pos_in_chain pos) position)"

fun memcmp_loop :: "nat \<Rightarrow> nat \<Rightarrow> nat \<Rightarrow> u8 list \<Rightarrow> int brun" where
  "memcmp_loop 0 chain position mem = stop OutOfFuel"
| "memcmp_loop (Suc f) chain position mem =
     (if mem = [] \<or> chain = 0 then ret 0
      else
        bnd (ld_chain chain) (\<lambda>c.
        let n_comparable = (if length mem + position > off c then sz_sub (off c) position else length mem) in
        bnd (ld_bytes chain (misalign c + position) n_comparable) (\<lambda>bs.
        let r = memcmp bs (take n_comparable mem) in
        if r \<noteq> 0 then ret r else memcmp_loop f (ch_next c) 0 (drop n_comparable mem))))"

definition evbuffer_ptr_memcmp :: "nat \<Rightarrow> evbuffer_ptr \<Rightarrow> u8 list \<Rightarrow> int brun" where
  "evbuffer_ptr_memcmp buf pos mem =
     bnd (ld_buf buf) (\<lambda>e.
     if ptr_pos pos < 0 \<or> int (EV_SIZE_MAX - length mem) < ptr_pos pos \<or> ptr_pos pos + int (length mem) > int (total_len e)
     then ret (- 1)
     else with_brk (\<lambda>n. memcmp_loop n (ptr_chain pos) (pos_in_chain pos) mem))"

section \<open>Searching\<close>

text \<open>\<open>lim\<close> is the end of the range: its chain and its position. Every step moves forward by a byte or a chain.\<close>

definition not_found :: "evbuffer_ptr \<Rightarrow> evbuffer_ptr" where
  "not_found pos = pos\<lparr>ptr_pos := - 1, ptr_chain := 0\<rparr>"

fun search_loop :: "nat \<Rightarrow> nat \<Rightarrow> u8 list \<Rightarrow> evbuffer_ptr option \<Rightarrow> evbuffer_ptr \<Rightarrow> evbuffer_ptr brun" where
  "search_loop 0 buf what lim pos = stop OutOfFuel"
| "search_loop (Suc f) buf what lim pos =
     (if ptr_chain pos = 0 then ret (not_found pos)
      else
        bnd (ld_chain (ptr_chain pos)) (\<lambda>c.
        bnd (ld_bytes (ptr_chain pos) (misalign c + pos_in_chain pos) (sz_sub (off c) (pos_in_chain pos))) (\<lambda>bs.
        case memchr (hd what) bs of
          Some k \<Rightarrow>
            let pos = pos\<lparr>ptr_pos := ptr_pos pos + int k, pos_in_chain := pos_in_chain pos + k\<rparr> in
            bnd (evbuffer_ptr_memcmp buf pos what) (\<lambda>r.
            if r = 0 then
              (case lim of
                 Some l \<Rightarrow> if ptr_pos pos + int (length what) > ptr_pos l then ret (not_found pos) else ret pos
               | None \<Rightarrow> ret pos)
            else
              let pos = pos\<lparr>ptr_pos := ptr_pos pos + 1, pos_in_chain := pos_in_chain pos + 1\<rparr> in
              search_loop f buf what lim
                (if pos_in_chain pos = off c then pos\<lparr>ptr_chain := ch_next c, pos_in_chain := 0\<rparr> else pos))
        | None \<Rightarrow>
            if (case lim of Some l \<Rightarrow> ptr_chain l = ptr_chain pos | None \<Rightarrow> False) then ret (not_found pos)
            else search_loop f buf what lim
                (pos\<lparr>ptr_pos := ptr_pos pos + int (off c) - int (pos_in_chain pos), ptr_chain := ch_next c, pos_in_chain := 0\<rparr>))))"

definition ptr_start :: "evbuffer \<Rightarrow> evbuffer_ptr option \<Rightarrow> evbuffer_ptr" where
  "ptr_start e start = (case start of Some p \<Rightarrow> p | None \<Rightarrow> \<lparr>ptr_pos = 0, ptr_chain = eb_first e, pos_in_chain = 0\<rparr>)"

definition evbuffer_search_range :: "nat \<Rightarrow> u8 list \<Rightarrow> evbuffer_ptr option \<Rightarrow> evbuffer_ptr option \<Rightarrow> evbuffer_ptr brun" where
  "evbuffer_search_range buf what start lim =
     bnd (ld_buf buf) (\<lambda>e.
     if what = [] \<or> length what > EV_SSIZE_MAX then ret (ptr_start e start)
     else with_brk (\<lambda>n. search_loop (n + total_len e) buf what lim (ptr_start e start)))"

definition evbuffer_search :: "nat \<Rightarrow> u8 list \<Rightarrow> evbuffer_ptr option \<Rightarrow> evbuffer_ptr brun" where
  "evbuffer_search buf what start = evbuffer_search_range buf what start None"

definition evbuffer_find :: "nat \<Rightarrow> u8 list \<Rightarrow> (nat \<times> nat) option brun" where
  "evbuffer_find buf what =
     bnd (evbuffer_search buf what None) (\<lambda>p.
     if ptr_pos p < 0 then ret None
     else
       bnd (evbuffer_pullup buf (ptr_pos p + int (length what))) (\<lambda>r.
       ret (case r of None \<Rightarrow> None | Some (chain, i) \<Rightarrow> Some (chain, i + nat (ptr_pos p)))))"

section \<open>Lines\<close>

text \<open>
  The loop for lines that end in an optional carriage return and a line feed; \<open>None\<close> when no end was found, otherwise
  the position and the length of the line end.
\<close>

fun crlf_loop :: "nat \<Rightarrow> nat \<Rightarrow> evbuffer_ptr \<Rightarrow> (evbuffer_ptr \<times> nat option) brun" where
  "crlf_loop 0 buf it = stop OutOfFuel"
| "crlf_loop (Suc f) buf it =
     bnd (evbuffer_find_eol_char it) (\<lambda>(r, it).
     if r < 0 then ret (it, None)
     else
       bnd (evbuffer_getchr it) (\<lambda>c.
       if c = LF then ret (it, Some 1)
       else
         bnd (evbuffer_ptr_memcmp buf it [CR, LF]) (\<lambda>r.
         if r = 0 then ret (it, Some 2)
         else
           bnd (evbuffer_ptr_set buf it 1 EVBUFFER_PTR_ADD) (\<lambda>(r, it).
           if r < 0 then ret (it, None) else crlf_loop f buf it))))"

text \<open>The position and the line end's length, which is 0 when there is none (in a \<open>size_t\<close>, so a length of -1 would be huge).\<close>

definition evbuffer_search_eol :: "nat \<Rightarrow> evbuffer_ptr option \<Rightarrow> evbuffer_eol_style \<Rightarrow> (evbuffer_ptr \<times> nat) brun" where
  "evbuffer_search_eol buf start eol_style =
     bnd (ld_buf buf) (\<lambda>e.
     let it = ptr_start e start in
     bnd (case eol_style of
            EVBUFFER_EOL_ANY \<Rightarrow>
              bnd (evbuffer_find_eol_char it) (\<lambda>(r, it).
              if r < 0 then ret (it, None)
              else bnd (evbuffer_strspn it [CR, LF]) (\<lambda>(n, _). ret (it, Some (nat (n mod 2 ^ 64)))))
          | EVBUFFER_EOL_CRLF_STRICT \<Rightarrow>
              bnd (evbuffer_search buf [CR, LF] (Some it)) (\<lambda>it.
              ret (it, if ptr_pos it < 0 then None else Some 2))
          | EVBUFFER_EOL_CRLF \<Rightarrow> with_brk (\<lambda>n. crlf_loop (n + total_len e) buf it)
          | EVBUFFER_EOL_LF \<Rightarrow>
              bnd (evbuffer_strchr it LF) (\<lambda>(r, it). ret (it, if r < 0 then None else Some 1))) (\<lambda>(it, r).
     case r of None \<Rightarrow> ret (it\<lparr>ptr_pos := - 1\<rparr>, 0) | Some n \<Rightarrow> ret (it, n)))"

text \<open>\<^verbatim>\<open>mm_malloc\<close> of the memory for a line.\<close>

definition malloc_line :: "bool brun" where
  "malloc_line = (\<lambda>s. Inr (\<not> ev_oom s (ev_brk s), s\<lparr>ev_brk := Suc (ev_brk s)\<rparr>))"

definition evbuffer_readln :: "nat \<Rightarrow> evbuffer_eol_style \<Rightarrow> u8 list option brun" where
  "evbuffer_readln buf eol_style =
     bnd (ld_buf buf) (\<lambda>e.
     if freeze_start e then ret None
     else
       bnd (evbuffer_search_eol buf None eol_style) (\<lambda>(it, extra_drain).
       if ptr_pos it < 0 then ret None
       else
         bnd malloc_line (\<lambda>ok.
         if \<not> ok then ret None
         else
           bnd (evbuffer_remove buf (nat (ptr_pos it))) (\<lambda>line.
           bnd (evbuffer_drain buf extra_drain) (\<lambda>_.
           case line of None \<Rightarrow> stop Uninit | Some l \<Rightarrow> ret (Some l))))))"

definition evbuffer_readline :: "nat \<Rightarrow> u8 list option brun" where
  "evbuffer_readline buf = evbuffer_readln buf EVBUFFER_EOL_ANY"

section \<open>Looking without copying\<close>

fun peek_loop :: "nat \<Rightarrow> int \<Rightarrow> nat \<Rightarrow> nat \<Rightarrow> int \<Rightarrow> nat \<Rightarrow> ((nat \<times> nat) \<times> nat) list \<Rightarrow> (nat \<times> ((nat \<times> nat) \<times> nat) list) brun" where
  "peek_loop 0 len n_vec chain len_so_far idx vec = stop OutOfFuel"
| "peek_loop (Suc f) len n_vec chain len_so_far idx vec =
     (if chain = 0 \<or> len \<ge> 0 \<and> len_so_far \<ge> len then ret (idx, vec)
      else
        bnd (ld_chain chain) (\<lambda>c.
        if idx < n_vec then
          peek_loop f len n_vec (ch_next c) (len_so_far + int (off c)) (idx + 1) (vec @ [((chain, misalign c), off c)])
        else if len < 0 then ret (idx, vec)
        else peek_loop f len n_vec (ch_next c) (len_so_far + int (off c)) (idx + 1) vec))"

text \<open>The number of vectors needed and the vectors filled in.\<close>

definition evbuffer_peek :: "nat \<Rightarrow> int \<Rightarrow> evbuffer_ptr option \<Rightarrow> nat \<Rightarrow> (nat \<times> ((nat \<times> nat) \<times> nat) list) brun" where
  "evbuffer_peek buf len start_at n_vec =
     bnd (ld_buf buf) (\<lambda>e.
     bnd (case start_at of
            Some p \<Rightarrow>
              bnd (ld_chain (ptr_chain p)) (\<lambda>c.
              let n = sz_sub (off c) (pos_in_chain p) in
              ret (ch_next c, int n, 1, if n_vec > 0 then [((ptr_chain p, misalign c + pos_in_chain p), n)] else []))
          | None \<Rightarrow> ret (eb_first e, 0, 0, [])) (\<lambda>(chain, len_so_far, idx, vec).
     let len = (if n_vec = 0 \<and> len < 0 then int (total_len e) - (case start_at of Some p \<Rightarrow> ptr_pos p | None \<Rightarrow> 0) else len) in
     with_brk (\<lambda>n. peek_loop n len n_vec chain len_so_far idx vec)))"

end
