(* ===== verification/Evbuffer_Find.thy ===== *)
theory Evbuffer_Find
  imports Evbuffer_Search Evbuffer_Queue
begin

text \<open>
  Positions in a buffer stand for positions in its content: scanning, comparing and searching give what
  they give on the byte sequence.
\<close>

section \<open>First occurrences\<close>

text \<open>The index of the first byte that satisfies \<open>P\<close>, or the length.\<close>

definition first_at :: "('a \<Rightarrow> bool) \<Rightarrow> 'a list \<Rightarrow> nat" where
  "first_at P xs = length (takeWhile (\<lambda>x. \<not> P x) xs)"

definition looks_for :: "('a \<Rightarrow> bool) \<Rightarrow> ('a list \<Rightarrow> nat option) \<Rightarrow> bool" where
  "looks_for P f \<longleftrightarrow> (\<forall>xs. f xs = (if first_at P xs < length xs then Some (first_at P xs) else None))"

lemma first_at_append: "first_at P (xs @ ys) = (if first_at P xs < length xs then first_at P xs else length xs + first_at P ys)"
  by (induction xs) (auto simp: first_at_def)

lemma first_at_le: "first_at P xs \<le> length xs"
  by (simp add: first_at_def length_takeWhile_le)

lemma first_at_less: "first_at P xs < length xs \<longleftrightarrow> (\<exists>x\<in>set xs. P x)"
  by (induction xs) (auto simp: first_at_def)

lemma first_at_nth: "first_at P xs < length xs \<Longrightarrow> P (xs ! first_at P xs)"
  using nth_length_takeWhile [of "\<lambda>x. \<not> P x" xs] by (simp add: first_at_def)

lemma first_at_before: "j < first_at P xs \<Longrightarrow> \<not> P (xs ! j)"
  unfolding first_at_def by (metis nth_mem set_takeWhileD takeWhile_nth)

lemma memchr_looks: "looks_for (\<lambda>y. y = x) (memchr x)"
  by (simp add: looks_for_def memchr_def first_at_def Let_def)

definition is_eol :: "u8 \<Rightarrow> bool" where
  "is_eol x \<longleftrightarrow> x = CR \<or> x = LF"

text \<open>The search in blocks finds the first end-of-line byte.\<close>

lemma first_at_or: "first_at (\<lambda>x. P x \<or> Q x) xs = min (first_at P xs) (first_at Q xs)"
  by (induction xs) (auto simp: first_at_def)

lemma memchr_simp: "memchr x xs = (if first_at (\<lambda>y. y = x) xs < length xs then Some (first_at (\<lambda>y. y = x) xs) else None)"
  using memchr_looks by (simp add: looks_for_def)

lemma find_eol_from_looks: "find_eol_from i s = (if first_at is_eol s < length s then Some (i + first_at is_eol s) else None)"
proof (induction i s rule: find_eol_from.induct)
  case (1 i s)
  let ?t = "take CHUNK_SZ s" and ?d = "drop CHUNK_SZ s"
  have eol: "first_at is_eol xs = min (first_at (\<lambda>y. y = CR) xs) (first_at (\<lambda>y. y = LF) xs)" for xs
    unfolding first_at_or [symmetric] is_eol_def ..
  have split: "first_at is_eol s = (if first_at is_eol ?t < length ?t then first_at is_eol ?t else length ?t + first_at is_eol ?d)"
    using first_at_append [of is_eol ?t ?d] by simp
  show ?case
  proof (cases "first_at is_eol ?t < length ?t")
    case True
    have "s \<noteq> []" "length ?t \<le> length s" using True by auto
    then show ?thesis using True eol [of ?t] split unfolding find_eol_from.simps [of i s] memchr_simp by (auto simp: min_def split: if_splits)
  next
    case False
    then have n: "memchr CR ?t = None" "memchr LF ?t = None"
      using eol [of ?t] first_at_le [of "\<lambda>y. y = CR" ?t] first_at_le [of "\<lambda>y. y = LF" ?t] by (auto simp: memchr_simp min_def split: if_splits)
    show ?thesis
    proof (cases "s = []")
      case True
      then show ?thesis by (simp add: find_eol_from.simps first_at_def)
    next
      case ne: False
      then have "find_eol_from i s = find_eol_from (i + CHUNK_SZ) ?d" using n by (subst find_eol_from.simps) simp
      then show ?thesis using 1 [OF ne n] split False by (cases "length s \<le> CHUNK_SZ") (auto simp: first_at_def)
    qed
  qed
qed

lemma find_eol_looks: "looks_for is_eol find_eol_char"
  by (simp add: looks_for_def find_eol_char_def find_eol_from_looks)

section \<open>Positions\<close>

text \<open>\<open>ptr_on cs it i\<close>: the position stands on byte \<open>i\<close>; \<open>ptr_at\<close> also allows the ends of chains and of the buffer.\<close>

definition lands :: "(nat \<times> evbuffer_chain) list \<Rightarrow> nat \<Rightarrow> evbuffer_ptr \<Rightarrow> bool" where
  "lands cs i it \<longleftrightarrow> (\<exists>as c bs. cs = as @ (ptr_chain it, c) # bs \<and> pos_in_chain it < off c \<and> i = length (content as) + pos_in_chain it)"

definition ptr_on :: "(nat \<times> evbuffer_chain) list \<Rightarrow> evbuffer_ptr \<Rightarrow> nat \<Rightarrow> bool" where
  "ptr_on cs it i \<longleftrightarrow> ptr_pos it = int i \<and> lands cs i it"

definition ptr_at :: "(nat \<times> evbuffer_chain) list \<Rightarrow> evbuffer_ptr \<Rightarrow> nat \<Rightarrow> bool" where
  "ptr_at cs it i \<longleftrightarrow> ptr_pos it = int i \<and> (\<exists>as ds. cs = as @ ds \<and> ptr_chain it = head_addr ds 0
     \<and> (case ds of [] \<Rightarrow> pos_in_chain it = 0 | (x, c) # _ \<Rightarrow> pos_in_chain it \<le> off c) \<and> i = length (content as) + pos_in_chain it)"

lemma lands_append: "lands ds i it \<Longrightarrow> lands (as @ ds) (length (content as) + i) it"
  unfolding lands_def by (metis append_assoc content_simps(3) length_append add.assoc)

lemma lands_Cons: "lands ds i it \<Longrightarrow> lands ((x, c) # ds) (off c + i) it"
  using lands_append [of ds i it "[(x, c)]"] by simp

lemma lands_hd: "j < off c \<Longrightarrow> ptr_chain it = x \<Longrightarrow> pos_in_chain it = j \<Longrightarrow> lands ((x, c) # ds) j it"
  unfolding lands_def by fastforce

lemma ptr_on_at: "ptr_on cs it i \<Longrightarrow> ptr_at cs it i"
  unfolding ptr_on_def ptr_at_def lands_def by fastforce

lemma ptr_on_less: "ptr_on cs it i \<Longrightarrow> i < length (content cs)"
  unfolding ptr_on_def lands_def by auto

text \<open>The chains from a position on, for the loops.\<close>

definition seg_ok :: "evstate \<Rightarrow> nat \<Rightarrow> (nat \<times> evbuffer_chain) list \<Rightarrow> nat \<Rightarrow> bool" where
  "seg_ok s p ds i \<longleftrightarrow> chain_seg (ch_heap s) p ds 0 \<and> (\<forall>xc\<in>set ds. chain_ok (snd xc)) \<and> (case ds of [] \<Rightarrow> i = 0 | (x, c) # _ \<Rightarrow> i \<le> off c)"

lemma seg_okD:
  assumes "seg_ok s p ((x, c) # ds) i"
  shows "p = x" "0 < x" "ch_heap s x = Some (c\<lparr>ch_next := head_addr ds 0\<rparr>)" "seg_ok s (head_addr ds 0) ds 0" "i \<le> off c"
    "sz_sub (off c) i = off c - i" "chain_ok c" "ld_bytes x (misalign c + i) (off c - i) s = Inr (drop i (chain_bytes c), s)"
    "off c < 2 ^ 64"
proof -
  have c: "chain_seg (ch_heap s) p ((x, c) # ds) 0" "chain_ok c" "\<forall>xc\<in>set ds. chain_ok (snd xc)" "i \<le> off c" using assms by (auto simp: seg_ok_def)
  note ok = chain_okD(1,3) [OF c(2)]
  show "p = x" "0 < x" "ch_heap s x = Some (c\<lparr>ch_next := head_addr ds 0\<rparr>)" "i \<le> off c" "chain_ok c" using c by auto
  show "seg_ok s (head_addr ds 0) ds 0" using c(1,3) by (auto simp: seg_ok_def split: list.splits)
  show o: "off c < 2 ^ 64" using ok by simp
  show "sz_sub (off c) i = off c - i" using c(4) o by simp
  show "ld_bytes x (misalign c + i) (off c - i) s = Inr (drop i (chain_bytes c), s)"
    using c(1,4) ok(1) by (simp add: run_simps chain_bytes_def)
qed

lemma ptr_seg:
  assumes "holds s b e cs" "ptr_at cs it i"
  obtains as ds where "cs = as @ ds" "seg_ok s (ptr_chain it) ds (pos_in_chain it)" "i = length (content as) + pos_in_chain it"
    "drop i (content cs) = drop (pos_in_chain it) (content ds)" "length ds < Suc (ev_brk s)"
proof -
  obtain as ds where a: "cs = as @ ds" "ptr_chain it = head_addr ds 0"
    "case ds of [] \<Rightarrow> pos_in_chain it = 0 | (x, c) # _ \<Rightarrow> pos_in_chain it \<le> off c" "i = length (content as) + pos_in_chain it"
    using assms(2) unfolding ptr_at_def by blast
  have "seg_ok s (ptr_chain it) ds (pos_in_chain it)"
    using a holds_simps(3,9) [OF assms(1)] unfolding seg_ok_def by (auto simp: chain_seg_append)
  then show thesis using that [OF a(1) _ a(4)] a holds_fuel [OF assms(1)] by simp
qed

section \<open>Scanning\<close>

lemma scan_loop_run:
  assumes "seg_ok s p ds i" "looks_for P look" "length ds < f"
  defines "K \<equiv> first_at P (drop i (content ds))"
  shows "\<exists>r it'. scan_loop look f it p i s = Inr ((r, it'), s)
    \<and> (if i + K < length (content ds) then r = ptr_pos it + int K \<and> ptr_pos it' = r \<and> lands ds (i + K) it' else r = - 1)"
  using assms(1,3) unfolding K_def
proof (induction ds arbitrary: p i f it)
  case Nil
  then have "p = 0" by (simp add: seg_ok_def)
  then show ?case using Nil by (cases f) auto
next
  case (Cons xc ds)
  obtain x c where xc: "xc = (x, c)" by (cases xc)
  obtain g where f: "f = Suc g" using Cons.prems(2) by (cases f) auto
  note d = seg_okD [OF Cons.prems(1) [unfolded xc]]
  let ?b = "drop i (chain_bytes c)" and ?K = "first_at P (content ds)"
  have cont: "drop i (content (xc # ds)) = ?b @ content ds" using xc d(5) by simp
  have lk: "look ?b = (if first_at P ?b < off c - i then Some (first_at P ?b) else None)" using assms(2) by (simp add: looks_for_def)
  show ?case
  proof (cases "first_at P ?b < off c - i")
    case True
    then have K: "first_at P (drop i (content (xc # ds))) = first_at P ?b" unfolding cont first_at_append by simp
    let ?it = "it\<lparr>ptr_chain := x, pos_in_chain := i + first_at P ?b, ptr_pos := ptr_pos it + int (first_at P ?b)\<rparr>"
    have "scan_loop look f it p i s = Inr ((ptr_pos it + int (first_at P ?b), ?it), s)"
      using d(1-3,6,8) True f lk by (simp add: run_simps Let_def)
    moreover have "lands (xc # ds) (i + first_at P ?b) ?it" unfolding xc by (rule lands_hd) (use True in simp_all)
    moreover have "i + first_at P ?b < length (content (xc # ds))" using True xc by simp
    ultimately show ?thesis unfolding K by simp
  next
    case False
    then have K: "i + first_at P (drop i (content (xc # ds))) = off c + ?K" "int (off c) - int i + int ?K = int (first_at P (drop i (content (xc # ds))))"
      unfolding cont first_at_append using d(5) by simp_all
    let ?it = "it\<lparr>ptr_pos := ptr_pos it + int (off c) - int i\<rparr>"
    have "scan_loop look f it p i s = scan_loop look g ?it (head_addr ds 0) 0 s"
      using d(1-3,6,8) False f lk by (simp add: run_simps)
    moreover have "length ds < g" using Cons.prems(2) f by simp
    ultimately obtain r it' where r: "scan_loop look f it p i s = Inr ((r, it'), s)"
      "if ?K < length (content ds) then r = ptr_pos ?it + int ?K \<and> ptr_pos it' = r \<and> lands ds ?K it' else r = - 1"
      using Cons.IH [OF d(4), of g ?it] unfolding drop_0 add_0 by metis
    then show ?thesis using K lands_Cons [of ds ?K it' x c] unfolding K(1) xc by (auto split: if_splits)
  qed
qed

lemma scan_run:
  assumes "holds s b e cs" "ptr_at cs it i" "looks_for P look"
  defines "n \<equiv> i + first_at P (drop i (content cs))"
  obtains r it' where "with_brk (\<lambda>f. scan_loop look f it (ptr_chain it) (pos_in_chain it)) s = Inr ((r, it'), s)"
    "if n < length (content cs) then r = int n \<and> ptr_on cs it' n else r = - 1"
proof -
  obtain as ds where a: "cs = as @ ds" "seg_ok s (ptr_chain it) ds (pos_in_chain it)" "i = length (content as) + pos_in_chain it"
    "drop i (content cs) = drop (pos_in_chain it) (content ds)" "length ds < Suc (ev_brk s)" using ptr_seg [OF assms(1,2)] .
  have p: "ptr_pos it = int i" using assms(2) by (simp add: ptr_at_def)
  let ?K = "first_at P (drop (pos_in_chain it) (content ds))"
  obtain r it' where r: "scan_loop look (Suc (ev_brk s)) it (ptr_chain it) (pos_in_chain it) s = Inr ((r, it'), s)"
    "if pos_in_chain it + ?K < length (content ds) then r = ptr_pos it + int ?K \<and> ptr_pos it' = r \<and> lands ds (pos_in_chain it + ?K) it' else r = - 1"
    using scan_loop_run [OF a(2) assms(3) a(5), of it] by blast
  have n: "n = length (content as) + (pos_in_chain it + ?K)" "length (content cs) = length (content as) + length (content ds)"
    using a(1,3,4) by (simp_all add: n_def)
  show thesis
  proof (rule that)
    show "with_brk (\<lambda>f. scan_loop look f it (ptr_chain it) (pos_in_chain it)) s = Inr ((r, it'), s)" using r(1) by (simp add: with_brk_def)
    show "if n < length (content cs) then r = int n \<and> ptr_on cs it' n else r = - 1"
      using r(2) lands_append [of ds "pos_in_chain it + ?K" it' as] a(1,3) p unfolding n by (auto simp: ptr_on_def split: if_splits)
  qed
qed

lemma strspn_loop_run:
  assumes "seg_ok s p ds i" "ds \<noteq> []" "length ds < f"
  shows "\<exists>x j. strspn_loop f p i n S s = Inr ((x, j, n + first_at (\<lambda>x. x \<notin> set S) (drop i (content ds))), s)"
  using assms
proof (induction ds arbitrary: p i n f)
  case (Cons xc ds)
  obtain x c where xc: "xc = (x, c)" by (cases xc)
  obtain g where f: "f = Suc g" using Cons.prems(3) by (cases f) auto
  note d = seg_okD [OF Cons.prems(1) [unfolded xc]]
  let ?b = "drop i (chain_bytes c)" and ?P = "\<lambda>x. x \<notin> set S"
  have cont: "drop i (content (xc # ds)) = ?b @ content ds" using xc d(5) by simp
  have k: "length (takeWhile (\<lambda>x. x \<in> set S) ?b) = first_at ?P ?b" by (simp add: first_at_def)
  have run: "strspn_loop f p i n S s = (if first_at ?P ?b < off c - i then Inr ((x, i + first_at ?P ?b, n + first_at ?P ?b), s)
      else if head_addr ds 0 = 0 then Inr ((x, 0, n + first_at ?P ?b), s) else strspn_loop g (head_addr ds 0) 0 (n + first_at ?P ?b) S s)"
  proof (cases "i < off c")
    case True
    then show ?thesis using d(1-3,8) f k by (simp add: run_simps Let_def cong: if_cong)
  next
    case False
    then have "i = off c" using d(5) by simp
    then show ?thesis using d(1-3) f by (simp add: run_simps Let_def first_at_def cong: if_cong)
  qed
  show ?case
  proof (cases "first_at ?P ?b < off c - i")
    case True
    then show ?thesis unfolding run cont first_at_append by simp
  next
    case False
    then have K: "first_at ?P ?b = off c - i" using first_at_le [of ?P ?b] by simp
    show ?thesis
    proof (cases ds)
      case Nil
      then show ?thesis using K unfolding run cont first_at_append by (simp add: first_at_def)
    next
      case (Cons yd ds')
      then have "head_addr ds 0 \<noteq> 0" "length ds < g" "ds \<noteq> []" using d(4) Cons.prems(3) f by (cases yd; auto simp: seg_ok_def)+
      then show ?thesis using Cons.IH [OF d(4), of g "n + (off c - i)"] K unfolding run cont first_at_append by (simp add: add.assoc)
    qed
  qed
qed simp

lemma ptr_loop_run:
  assumes "seg_ok s p ds i" "length ds < f" "i + n < 2 ^ 64"
  shows "\<exists>x j. ptr_loop f p i n s = Inr ((x, j), s)
    \<and> (if i + n < length (content ds) then x \<noteq> 0 \<and> (\<forall>it. lands ds (i + n) (it\<lparr>ptr_chain := x, pos_in_chain := j\<rparr>)) else x = 0)"
  using assms
proof (induction ds arbitrary: p i n f)
  case Nil
  then have "p = 0" by (simp add: seg_ok_def)
  then show ?case using Nil by (cases f) auto
next
  case (Cons xc ds)
  obtain x c where xc: "xc = (x, c)" by (cases xc)
  obtain g where f: "f = Suc g" using Cons.prems(2) by (cases f) auto
  note d = seg_okD [OF Cons.prems(1) [unfolded xc]]
  show ?case
  proof (cases "off c \<le> i + n")
    case False
    then have "ptr_loop f p i n s = Inr ((x, i + n), s)" using d(1-3) f by (simp add: run_simps)
    moreover have "lands (xc # ds) (i + n) (it\<lparr>ptr_chain := x, pos_in_chain := i + n\<rparr>)" for it
      unfolding xc by (rule lands_hd) (use False in simp_all)
    ultimately show ?thesis using False d(2) xc by simp
  next
    case True
    then have sub: "sz_sub n (off c - i) = n - (off c - i)" using Cons.prems(3) by simp
    have e: "i + n = off c + (n - (off c - i))" using True d(5) by simp
    have "ptr_loop f p i n s = ptr_loop g (head_addr ds 0) 0 (n - (off c - i)) s"
      using d(1-3,6) f True sub by (simp add: run_simps)
    moreover have "length ds < g" "0 + (n - (off c - i)) < 2 ^ 64" using Cons.prems(2,3) f by simp_all
    ultimately obtain y j where r: "ptr_loop f p i n s = Inr ((y, j), s)"
      "if 0 + (n - (off c - i)) < length (content ds) then y \<noteq> 0 \<and> (\<forall>it. lands ds (0 + (n - (off c - i))) (it\<lparr>ptr_chain := y, pos_in_chain := j\<rparr>)) else y = 0"
      using Cons.IH [OF d(4), of g "n - (off c - i)"] by metis
    then show ?thesis using lands_Cons [of ds "n - (off c - i)" _ x c] e unfolding xc by (auto split: if_splits)
  qed
qed

lemma memcmp_zero: "length xs = length ys \<Longrightarrow> memcmp xs ys = 0 \<longleftrightarrow> xs = ys"
  by (induction xs ys rule: list_induct2) (auto simp: word_uint_eq_iff)

lemma memcmp_loop_run:
  assumes "seg_ok s p ds i" "length ds < f" "i + length mem \<le> length (content ds)"
  shows "\<exists>r. memcmp_loop f p i mem s = Inr (r, s) \<and> (r = 0 \<longleftrightarrow> take (length mem) (drop i (content ds)) = mem)"
  using assms
proof (induction ds arbitrary: p i mem f)
  case Nil
  then show ?case by (cases f) auto
next
  case (Cons xc ds)
  obtain x c where xc: "xc = (x, c)" by (cases xc)
  obtain g where f: "f = Suc g" using Cons.prems(2) by (cases f) auto
  note d = seg_okD [OF Cons.prems(1) [unfolded xc]]
  let ?b = "drop i (chain_bytes c)"
  have cont: "drop i (content (xc # ds)) = ?b @ content ds" using xc d(5) by simp
  define n where "n = (if length mem + i > off c then off c - i else length mem)"
  have n: "n \<le> off c - i" "n \<le> length mem" "n = min (off c - i) (length mem)" using d(5) by (auto simp: n_def)
  have ld: "ld_bytes x (misalign c + i) n s = Inr (take n ?b, s)"
    using d(2,3) chain_okD(1) [OF d(7)] n(1) d(5) by (simp add: run_simps chain_bytes_def min_def)
  have z: "memcmp (take n ?b) (take n mem) = 0 \<longleftrightarrow> take n ?b = take n mem" using n(1,2) by (intro memcmp_zero) simp
  show ?case
  proof (cases "mem = []")
    case True
    then show ?thesis using f by simp
  next
    case False
    have run: "memcmp_loop f p i mem s = (if memcmp (take n ?b) (take n mem) \<noteq> 0 then ret (memcmp (take n ?b) (take n mem))
        else memcmp_loop g (head_addr ds 0) 0 (drop n mem)) s"
      using False f d(1-3,6) ld by (cases "off c < length mem + i") (simp_all add: run_simps Let_def n_def cong: if_cong)
    have tk: "take (length mem) (drop i (content (xc # ds))) = take n ?b @ take (length mem - n) (content ds)"
      unfolding cont using n(3) d(5) by (auto simp: min_def)
    have eq: "take (length mem) (drop i (content (xc # ds))) = mem \<longleftrightarrow> take n ?b = take n mem \<and> take (length mem - n) (content ds) = drop n mem"
      unfolding tk using append_eq_append_conv [of "take n ?b" "take n mem" _ "drop n mem"] n(1,2) by simp
    have rest: "0 + length (drop n mem) \<le> length (content ds)" using Cons.prems(3) n(3) d(5) xc by (auto simp: min_def)
    have g: "length ds < g" using Cons.prems(2) f by simp
    show ?thesis using run eq z Cons.IH [OF d(4) g rest] by auto
  qed
qed

section \<open>The operations on positions\<close>

lemma ptr_on_seg:
  assumes "holds s b e cs" "ptr_on cs it i"
  obtains as c bs where "cs = as @ (ptr_chain it, c) # bs" "pos_in_chain it < off c" "i = length (content as) + pos_in_chain it"
    "seg_ok s (ptr_chain it) ((ptr_chain it, c) # bs) (pos_in_chain it)" "drop i (content cs) = drop (pos_in_chain it) (content ((ptr_chain it, c) # bs))"
    "length ((ptr_chain it, c) # bs) < Suc (ev_brk s)"
proof -
  obtain as c bs where a: "cs = as @ (ptr_chain it, c) # bs" "pos_in_chain it < off c" "i = length (content as) + pos_in_chain it"
    using assms(2) unfolding ptr_on_def lands_def by blast
  have "seg_ok s (ptr_chain it) ((ptr_chain it, c) # bs) (pos_in_chain it)"
    using a holds_simps(3,9) [OF assms(1)] unfolding seg_ok_def by (auto simp: chain_seg_append)
  then show thesis using that [OF a] a holds_fuel [OF assms(1)] by simp
qed

lemma strspn_run:
  assumes "holds s b e cs" "ptr_on cs it i"
  obtains it' where "evbuffer_strspn it S s = Inr ((int (first_at (\<lambda>x. x \<notin> set S) (drop i (content cs))), it'), s)"
proof -
  obtain as c bs where a: "seg_ok s (ptr_chain it) ((ptr_chain it, c) # bs) (pos_in_chain it)"
    "drop i (content cs) = drop (pos_in_chain it) (content ((ptr_chain it, c) # bs))" "length ((ptr_chain it, c) # bs) < Suc (ev_brk s)"
    using ptr_on_seg [OF assms] by metis
  obtain x j where "strspn_loop (Suc (ev_brk s)) (ptr_chain it) (pos_in_chain it) 0 S s
      = Inr ((x, j, 0 + first_at (\<lambda>x. x \<notin> set S) (drop (pos_in_chain it) (content ((ptr_chain it, c) # bs)))), s)"
    using strspn_loop_run [OF a(1) _ a(3), of 0 S] by blast
  then show thesis using that seg_okD(2) [OF a(1)] unfolding a(2) by (simp add: evbuffer_strspn_def run_simps del: strspn_loop.simps)
qed

lemma getchr_run:
  assumes "holds s b e cs" "ptr_on cs it i"
  shows "evbuffer_getchr it s = Inr (content cs ! i, s)"
proof -
  obtain as c bs where a: "cs = as @ (ptr_chain it, c) # bs" "pos_in_chain it < off c" "i = length (content as) + pos_in_chain it"
    "seg_ok s (ptr_chain it) ((ptr_chain it, c) # bs) (pos_in_chain it)" using ptr_on_seg [OF assms] by metis
  note d = seg_okD [OF a(4)]
  have "content cs ! i = chain_bytes c ! pos_in_chain it" using a(1-3) by (simp add: nth_append)
  also have "\<dots> = ch_buffer c (misalign c + pos_in_chain it)" using a(2) by (simp add: chain_bytes_def)
  finally show ?thesis using d(2,3) chain_okD(1) [OF d(7)] a(2) by (simp add: evbuffer_getchr_def run_simps slice_def)
qed

lemma ptr_add_run:
  assumes "holds s b e cs" "ptr_on cs it i" "i + n < 2 ^ 64"
  obtains r it' where "evbuffer_ptr_set b it n EVBUFFER_PTR_ADD s = Inr ((r, it'), s)"
    "if i + n < length (content cs) then r = 0 \<and> ptr_on cs it' (i + n) else r = - 1"
proof -
  obtain as c bs where a: "cs = as @ (ptr_chain it, c) # bs" "i = length (content as) + pos_in_chain it"
    "seg_ok s (ptr_chain it) ((ptr_chain it, c) # bs) (pos_in_chain it)" "length ((ptr_chain it, c) # bs) < Suc (ev_brk s)"
    using ptr_on_seg [OF assms(1,2)] by metis
  have p: "ptr_pos it = int i" using assms(2) by (simp add: ptr_on_def)
  let ?ds = "(ptr_chain it, c) # bs" and ?it = "it\<lparr>ptr_pos := int (i + n)\<rparr>"
  have lim: "pos_in_chain it + n < 2 ^ 64" using a(2) assms(3) by simp
  obtain x j where r: "ptr_loop (Suc (ev_brk s)) (ptr_chain it) (pos_in_chain it) n s = Inr ((x, j), s)"
    "if pos_in_chain it + n < length (content ?ds) then x \<noteq> 0 \<and> (\<forall>z. lands ?ds (pos_in_chain it + n) (z\<lparr>ptr_chain := x, pos_in_chain := j\<rparr>)) else x = 0"
    using ptr_loop_run [OF a(3,4) lim] by blast
  have i: "i + n < length (content cs) \<longleftrightarrow> pos_in_chain it + n < length (content ?ds)" using a(1,2) by simp
  have chk: "pos_in_chain it \<le> EV_SIZE_MAX - n" "\<not> int (EV_SIZE_MAX - n) < int i" using lim assms(3) by (simp_all add: EV_SIZE_MAX_def)
  have st: "evbuffer_ptr_set b it n EVBUFFER_PTR_ADD s = (if x \<noteq> 0 then Inr ((0, ?it\<lparr>ptr_chain := x, pos_in_chain := j\<rparr>), s)
      else Inr ((- 1, ?it\<lparr>ptr_chain := 0, ptr_pos := - 1\<rparr>), s))"
    using r(1) p chk by (simp add: ptr_finish_def run_simps del: ptr_loop.simps)
  show thesis
  proof (cases "i + n < length (content cs)")
    case True
    then have x: "x \<noteq> 0" "lands ?ds (pos_in_chain it + n) (?it\<lparr>ptr_chain := x, pos_in_chain := j\<rparr>)" using r(2) i by simp_all
    have "ptr_on cs (?it\<lparr>ptr_chain := x, pos_in_chain := j\<rparr>) (i + n)"
      using lands_append [OF x(2), of as] a(1,2) by (simp add: ptr_on_def add.assoc)
    then show thesis using that st x(1) True by simp
  next
    case False
    then have "x = 0" using r(2) i by simp
    then show thesis using that st False by simp
  qed
qed

lemma memcmp_run:
  assumes "holds s b e cs" "ptr_on cs it i" "length mem < 2 ^ 63"
  obtains r where "evbuffer_ptr_memcmp b it mem s = Inr (r, s)" "r = 0 \<longleftrightarrow> take (length mem) (drop i (content cs)) = mem"
proof -
  obtain as c bs where a: "cs = as @ (ptr_chain it, c) # bs" "i = length (content as) + pos_in_chain it"
    "seg_ok s (ptr_chain it) ((ptr_chain it, c) # bs) (pos_in_chain it)" "length ((ptr_chain it, c) # bs) < Suc (ev_brk s)"
    "drop i (content cs) = drop (pos_in_chain it) (content ((ptr_chain it, c) # bs))"
    using ptr_on_seg [OF assms(1,2)] by metis
  note hs = holds_simps [OF assms(1)]
  have p: "ptr_pos it = int i" using assms(2) by (simp add: ptr_on_def)
  show thesis
  proof (cases "i + length mem \<le> length (content cs)")
    case True
    then have "pos_in_chain it + length mem \<le> length (content ((ptr_chain it, c) # bs))" using a(1,2) by simp
    then obtain r where r: "memcmp_loop (Suc (ev_brk s)) (ptr_chain it) (pos_in_chain it) mem s = Inr (r, s)"
      "r = 0 \<longleftrightarrow> take (length mem) (drop i (content cs)) = mem" using memcmp_loop_run [OF a(3,4)] unfolding a(5) by blast
    moreover have "i + length mem < 2 ^ 64" using True hs(11) by simp
    ultimately have "evbuffer_ptr_memcmp b it mem s = Inr (r, s)"
      using hs(1,2,10) p True by (simp add: evbuffer_ptr_memcmp_def run_simps EV_SIZE_MAX_def of_nat_diff del: memcmp_loop.simps)
    then show thesis using that r(2) by blast
  next
    case False
    then have "evbuffer_ptr_memcmp b it mem s = Inr (- 1, s)"
      using hs(1,2,10) p by (simp add: evbuffer_ptr_memcmp_def run_simps)
    moreover have "length (take (length mem) (drop i (content cs))) < length mem" using False ptr_on_less [OF assms(2)] by simp
    then have "take (length mem) (drop i (content cs)) \<noteq> mem" by auto
    ultimately show thesis using that by simp
  qed
qed

section \<open>Searching\<close>

definition occurs :: "'a list \<Rightarrow> 'a list \<Rightarrow> nat \<Rightarrow> bool" where
  "occurs what bs i \<longleftrightarrow> take (length what) (drop i bs) = what"

lemma occurs_hd: "occurs what bs i \<Longrightarrow> what \<noteq> [] \<Longrightarrow> i < length bs \<and> bs ! i = hd what"
proof -
  assume a: "occurs what bs i" "what \<noteq> []"
  then obtain x xs where w: "what = x # xs" by (cases what) auto
  have "drop i bs \<noteq> []" using a by (auto simp: occurs_def)
  then have i: "i < length bs" by simp
  then have "drop i bs = bs ! i # drop (Suc i) bs" by (simp add: Cons_nth_drop_Suc)
  then show ?thesis using a w i by (simp add: occurs_def)
qed

text \<open>The result of a search that starts at \<open>i\<close>: the first occurrence from there on.\<close>

definition search_result :: "(nat \<times> evbuffer_chain) list \<Rightarrow> u8 list \<Rightarrow> nat \<Rightarrow> evbuffer_ptr \<Rightarrow> bool" where
  "search_result cs what i p \<longleftrightarrow>
     (\<exists>n. i \<le> n \<and> ptr_on cs p n \<and> occurs what (content cs) n \<and> (\<forall>j. i \<le> j \<and> j < n \<longrightarrow> \<not> occurs what (content cs) j))
   \<or> ptr_pos p = - 1 \<and> (\<forall>j\<ge>i. \<not> occurs what (content cs) j)"

lemma search_result_skip:
  assumes "search_result cs what i' p" "i \<le> i'" "\<forall>j. i \<le> j \<and> j < i' \<longrightarrow> \<not> occurs what (content cs) j"
  shows "search_result cs what i p"
  using assms unfolding search_result_def by (metis le_trans linorder_not_less)

lemma search_loop_run:
  assumes "holds s b e cs" "what \<noteq> []" "length what < 2 ^ 63" "cs = as @ ds" "seg_ok s (ptr_chain pos) ds (pos_in_chain pos)"
    "i = length (content as) + pos_in_chain pos" "ptr_pos pos = int i" "length ds + (length (content cs) - i) < f"
  shows "\<exists>p. search_loop f b what None pos s = Inr (p, s) \<and> search_result cs what i p"
  using assms(4-8)
proof (induction f arbitrary: pos as ds i)
  case (Suc f)
  show ?case
  proof (cases ds)
    case Nil
    then have "ptr_chain pos = 0" "pos_in_chain pos = 0" using Suc.prems(2) by (simp_all add: seg_ok_def)
    moreover have "\<not> occurs what (content cs) j" if "i \<le> j" for j
      using occurs_hd [of what "content cs" j] assms(2) that Nil Suc.prems(1,3) calculation(2) by auto
    ultimately show ?thesis by (simp add: search_result_def not_found_def)
  next
    case (Cons xc ds')
    obtain x c where xc: "xc = (x, c)" by (cases xc)
    let ?j = "pos_in_chain pos"
    let ?bs = "drop ?j (chain_bytes c)"
    note d = seg_okD [OF Suc.prems(2) [unfolded Cons xc]]
    have cs: "cs = as @ (x, c) # ds'" using Suc.prems(1) Cons xc by simp
    have nth: "content cs ! (i + k) = ?bs ! k" if "k < off c - ?j" for k
    proof -
      have "?j + k < off c" using that by simp
      then show ?thesis using Suc.prems(3) cs by (simp add: nth_append add.assoc)
    qed
    have len: "length (content cs) = length (content as) + off c + length (content ds')" using cs by simp
    have none: "\<not> occurs what (content cs) j" if "i \<le> j" "j < i + first_at (\<lambda>y. y = hd what) ?bs" for j
    proof -
      define k where "k = j - i"
      have k: "j = i + k" "k < first_at (\<lambda>y. y = hd what) ?bs" using that by (simp_all add: k_def less_diff_conv2)
      then have "k < off c - ?j" using first_at_le [of "\<lambda>y. y = hd what" ?bs] by simp
      then show ?thesis using occurs_hd [OF _ assms(2), of "content cs" j] first_at_before [OF k(2)] nth [of k] k(1) by auto
    qed
    show ?thesis
    proof (cases "first_at (\<lambda>y. y = hd what) ?bs < off c - ?j")
      case False
      then have all: "first_at (\<lambda>y. y = hd what) ?bs = off c - ?j" using first_at_le [of "\<lambda>y. y = hd what" ?bs] by simp
      let ?pos = "pos\<lparr>ptr_pos := ptr_pos pos + int (off c) - int ?j, ptr_chain := head_addr ds' 0, pos_in_chain := 0\<rparr>"
        and ?i = "length (content (as @ [(x, c)])) + 0"
      have run: "search_loop (Suc f) b what None pos s = search_loop f b what None ?pos s"
        using d(1-3,6,8) all by (simp add: run_simps memchr_simp)
      have ii: "?i = i + (off c - ?j)" using Suc.prems(3) d(5) by simp
      obtain p where "search_loop f b what None ?pos s = Inr (p, s)" "search_result cs what ?i p"
      proof -
        have "\<exists>p. search_loop f b what None ?pos s = Inr (p, s) \<and> search_result cs what ?i p"
          by (rule Suc.IH [of "as @ [(x, c)]" ds']) (use cs d(4,5) Suc.prems(3-5) Cons len in auto)
        then show ?thesis using that by blast
      qed
      then show ?thesis using run search_result_skip [of cs what ?i p i] none all ii by simp
    next
      case True
      let ?k = "first_at (\<lambda>y. y = hd what) ?bs"
      let ?p = "pos\<lparr>ptr_pos := ptr_pos pos + int ?k, pos_in_chain := ?j + ?k\<rparr>"
      have on: "ptr_on cs ?p (i + ?k)"
        using True Suc.prems(3,4) cs d(1) unfolding ptr_on_def lands_def by (intro conjI exI [of _ as] exI [of _ c] exI [of _ ds']) simp_all
      obtain r where r: "evbuffer_ptr_memcmp b ?p what s = Inr (r, s)" "r = 0 \<longleftrightarrow> occurs what (content cs) (i + ?k)"
        using memcmp_run [OF assms(1) on assms(3)] unfolding occurs_def by blast
      show ?thesis
      proof (cases "r = 0")
        case z: True
        then have "search_loop (Suc f) b what None pos s = Inr (?p, s)"
          using d(1-3,6,8) True r(1) by (simp add: run_simps memchr_simp Let_def)
        then show ?thesis using on r(2) z none unfolding search_result_def by (metis le_add1)
      next
        case nz: False
        let ?q = "?p\<lparr>ptr_pos := ptr_pos ?p + 1, pos_in_chain := pos_in_chain ?p + 1\<rparr>"
        let ?q' = "if pos_in_chain ?q = off c then ?q\<lparr>ptr_chain := head_addr ds' 0, pos_in_chain := 0\<rparr> else ?q"
        have run: "search_loop (Suc f) b what None pos s = search_loop f b what None ?q' s"
          using d(1-3,6,8) True r(1) nz by (simp add: run_simps memchr_simp Let_def)
        have "\<exists>p. search_loop f b what None ?q' s = Inr (p, s) \<and> search_result cs what (i + ?k + 1) p"
        proof (cases "?j + ?k + 1 = off c")
          case e: True
          show ?thesis by (rule Suc.IH [of "as @ [(x, c)]" ds']) (use e cs d(4) Suc.prems(3-5) Cons len in auto)
        next
          case ne: False
          have "seg_ok s x ((x, c) # ds') (?j + ?k + 1)" using Suc.prems(2) Cons xc True d(1) ne by (auto simp: seg_ok_def)
          then show ?thesis by (intro Suc.IH [of as "(x, c) # ds'"]) (use ne cs d(1) True Suc.prems(3-5) Cons len in auto)
        qed
        then obtain p where p: "search_loop (Suc f) b what None pos s = Inr (p, s)" "search_result cs what (i + ?k + 1) p" using run by auto
        have "\<forall>j. i \<le> j \<and> j < i + ?k + 1 \<longrightarrow> \<not> occurs what (content cs) j" using none r(2) nz by (auto simp: less_Suc_eq)
        then show ?thesis using p search_result_skip [OF p(2), of i] by simp
      qed
    qed
  qed
qed simp

lemma ptr_start_at: "holds s b e cs \<Longrightarrow> ptr_at cs (ptr_start e None) 0"
  unfolding ptr_at_def ptr_start_def using holds_simps(12) [of s b e cs]
  by (intro conjI exI [of _ "[]"] exI [of _ cs]) (simp_all split: list.splits)

theorem search_run:
  assumes "holds s b e cs" "ptr_at cs (ptr_start e start) i" "what \<noteq> []" "length what < 2 ^ 63"
  obtains p where "evbuffer_search b what start s = Inr (p, s)" "search_result cs what i p"
proof -
  note hs = holds_simps [OF assms(1)]
  obtain as ds where a: "cs = as @ ds" "seg_ok s (ptr_chain (ptr_start e start)) ds (pos_in_chain (ptr_start e start))"
    "i = length (content as) + pos_in_chain (ptr_start e start)" "length ds < Suc (ev_brk s)" using ptr_seg [OF assms(1,2)] by metis
  have "length ds + (length (content cs) - i) < Suc (ev_brk s) + total_len e" using a(4) hs(10) by simp
  then obtain p where p: "search_loop (Suc (ev_brk s) + total_len e) b what None (ptr_start e start) s = Inr (p, s)" "search_result cs what i p"
    using search_loop_run [OF assms(1,3,4) a(1-3)] assms(2) unfolding ptr_at_def by blast
  have "\<not> EV_SSIZE_MAX < length what" using assms(4) by (simp add: EV_SSIZE_MAX_def)
  then show thesis using that p assms(3) hs(1,2)
    by (simp add: evbuffer_search_def evbuffer_search_range_def run_simps del: search_loop.simps)
qed

end
