(* ===== verification/Evbuffer_Lines.thy ===== *)
theory Evbuffer_Lines
  imports Evbuffer_Find
begin

text \<open>
  Reading lines. \<open>split_line\<close> says what a line is: the bytes in front of the first line end, where
  \<open>eol_len\<close> is the length of the line end that a byte sequence starts with.
\<close>

fun eol_len :: "evbuffer_eol_style \<Rightarrow> u8 list \<Rightarrow> nat option" where
  "eol_len st [] = None"
| "eol_len EVBUFFER_EOL_LF (x # xs) = (if x = LF then Some 1 else None)"
| "eol_len EVBUFFER_EOL_CRLF_STRICT (x # xs) = (if take 2 (x # xs) = [CR, LF] then Some 2 else None)"
| "eol_len EVBUFFER_EOL_CRLF (x # xs) = (if x = LF then Some 1 else if take 2 (x # xs) = [CR, LF] then Some 2 else None)"
| "eol_len EVBUFFER_EOL_ANY (x # xs) = (if is_eol x then Some (length (takeWhile is_eol (x # xs))) else None)"

fun split_line :: "evbuffer_eol_style \<Rightarrow> u8 list \<Rightarrow> (u8 list \<times> u8 list) option" where
  "split_line st [] = None"
| "split_line st (x # xs) =
     (case eol_len st (x # xs) of
        Some n \<Rightarrow> Some ([], drop n (x # xs))
      | None \<Rightarrow> (case split_line st xs of None \<Rightarrow> None | Some (l, r) \<Rightarrow> Some (x # l, r)))"

text \<open>The first line end from \<open>i\<close> on is at \<open>n\<close> and has length \<open>k\<close>; or there is none.\<close>

definition first_eol :: "evbuffer_eol_style \<Rightarrow> u8 list \<Rightarrow> nat \<Rightarrow> nat \<Rightarrow> nat \<Rightarrow> bool" where
  "first_eol st bs i n k \<longleftrightarrow> i \<le> n \<and> eol_len st (drop n bs) = Some k \<and> (\<forall>j. i \<le> j \<and> j < n \<longrightarrow> eol_len st (drop j bs) = None)"

definition no_eol :: "evbuffer_eol_style \<Rightarrow> u8 list \<Rightarrow> nat \<Rightarrow> bool" where
  "no_eol st bs i \<longleftrightarrow> (\<forall>j\<ge>i. eol_len st (drop j bs) = None)"

lemma split_line_first: "first_eol st bs 0 n k \<Longrightarrow> split_line st bs = Some (take n bs, drop (n + k) bs)"
proof (induction bs arbitrary: n)
  case (Cons x xs)
  show ?case
  proof (cases n)
    case 0
    then show ?thesis using Cons.prems by (simp add: first_eol_def)
  next
    case (Suc m)
    have "eol_len st (x # xs) = None" using Cons.prems Suc unfolding first_eol_def by (metis drop_0 le0 zero_less_Suc)
    moreover have "first_eol st xs 0 m k"
      using Cons.prems Suc unfolding first_eol_def by (auto dest: spec [where x = "Suc j" for j])
    ultimately show ?thesis using Cons.IH Suc by simp
  qed
qed (simp add: first_eol_def)

lemma split_line_none: "no_eol st bs 0 \<Longrightarrow> split_line st bs = None"
proof (induction bs)
  case (Cons x xs)
  have "eol_len st (x # xs) = None" using Cons.prems unfolding no_eol_def by (metis drop_0 le0)
  moreover have "no_eol st xs 0" using Cons.prems unfolding no_eol_def by (metis drop_Suc_Cons le0)
  ultimately show ?case using Cons.IH by simp
qed simp

lemma first_eol_skip: "first_eol st bs i' n k \<Longrightarrow> i \<le> i' \<Longrightarrow> \<forall>j. i \<le> j \<and> j < i' \<longrightarrow> eol_len st (drop j bs) = None \<Longrightarrow> first_eol st bs i n k"
  unfolding first_eol_def by (metis le_trans linorder_not_less)

lemma no_eol_skip: "no_eol st bs i' \<Longrightarrow> i \<le> i' \<Longrightarrow> \<forall>j. i \<le> j \<and> j < i' \<longrightarrow> eol_len st (drop j bs) = None \<Longrightarrow> no_eol st bs i"
  unfolding no_eol_def by (metis linorder_not_less)

text \<open>Every line end begins with a byte that satisfies \<open>P\<close>.\<close>

definition eol_starts :: "evbuffer_eol_style \<Rightarrow> (u8 \<Rightarrow> bool) \<Rightarrow> bool" where
  "eol_starts st P \<longleftrightarrow> (\<forall>x xs k. eol_len st (x # xs) = Some k \<longrightarrow> P x)"

lemma eol_len_is_eol: "eol_starts st is_eol"
  by (cases st) (auto simp: eol_starts_def is_eol_def numeral_2_eq_2 split: if_splits)

lemma eol_len_at:
  assumes "j < length bs" "\<not> P (bs ! j)" "eol_starts st P"
  shows "eol_len st (drop j bs) = None"
  using assms by (cases "eol_len st (drop j bs)") (auto simp: eol_starts_def simp flip: Cons_nth_drop_Suc)

text \<open>What lies before the first byte that satisfies \<open>P\<close> is no line end.\<close>

lemma before_first:
  assumes "eol_starts st P" "i \<le> j" "j < i + first_at P (drop i bs)" "i \<le> length bs"
  shows "eol_len st (drop j bs) = None"
proof -
  have k: "j - i < first_at P (drop i bs)" "j - i < length (drop i bs)" using assms(2,3) first_at_le [of P "drop i bs"] by simp_all
  have "bs ! j = drop i bs ! (j - i)" using assms(2,4) by simp
  moreover have "j < length bs" using k(2) assms(2) by simp
  ultimately show ?thesis using first_at_before [OF k(1)] assms(1) by (intro eol_len_at) simp_all
qed

lemma is_eol_fun: "is_eol = (\<lambda>x. x = CR \<or> x = LF)"
  by (simp add: fun_eq_iff is_eol_def)

lemma drop_Cons_at: "n < length bs \<Longrightarrow> drop n bs = bs ! n # drop (Suc n) bs"
  by (simp add: Cons_nth_drop_Suc)

section \<open>Finding the line end\<close>

definition eol_result :: "(nat \<times> evbuffer_chain) list \<Rightarrow> evbuffer_eol_style \<Rightarrow> nat \<Rightarrow> evbuffer_ptr \<times> nat option \<Rightarrow> bool" where
  "eol_result cs st i r \<longleftrightarrow> (case r of
     (it, Some k) \<Rightarrow> (\<exists>n. ptr_on cs it n \<and> first_eol st (content cs) i n k)
   | (it, None) \<Rightarrow> no_eol st (content cs) i)"

lemma scan_none:
  assumes "eol_starts st P" "i \<le> length bs" "\<not> i + first_at P (drop i bs) < length bs"
  shows "no_eol st bs i"
  unfolding no_eol_def
proof (intro allI impI)
  fix j assume j: "i \<le> j"
  show "eol_len st (drop j bs) = None"
  proof (cases "j < length bs")
    case True
    then show ?thesis using before_first [OF assms(1) j] assms(2,3) by auto
  qed simp
qed

lemma crlf_loop_run:
  assumes "holds s b e cs" "ptr_at cs it i" "i \<le> length (content cs)" "length (content cs) - i < f"
  shows "\<exists>r. crlf_loop f b it s = Inr (r, s) \<and> eol_result cs EVBUFFER_EOL_CRLF i r"
  using assms(2-4)
proof (induction f arbitrary: it i)
  case (Suc f)
  let ?bs = "content cs" and ?st = EVBUFFER_EOL_CRLF
  let ?n = "i + first_at is_eol (drop i (content cs))"
  obtain r it' where r: "evbuffer_find_eol_char it s = Inr ((r, it'), s)" "if ?n < length ?bs then r = int ?n \<and> ptr_on cs it' ?n else r = - 1"
    using scan_run [OF assms(1) Suc.prems(1) find_eol_looks] unfolding evbuffer_find_eol_char_def by blast
  have before: "\<forall>j. i \<le> j \<and> j < ?n \<longrightarrow> eol_len ?st (drop j ?bs) = None" using before_first [OF eol_len_is_eol _ _ Suc.prems(2)] by blast
  show ?case
  proof (cases "?n < length ?bs")
    case False
    then have "no_eol ?st ?bs i" using scan_none [OF eol_len_is_eol Suc.prems(2)] by blast
    then show ?thesis using r False by (auto simp: run_simps eol_result_def)
  next
    case True
    then have on: "r = int ?n" "ptr_on cs it' ?n" using r(2) by simp_all
    note ch = getchr_run [OF assms(1) on(2)]
    have two: "length [CR, LF] = 2" "(2 :: nat) < 2 ^ 63" by simp_all
    obtain q where q: "evbuffer_ptr_memcmp b it' [CR, LF] s = Inr (q, s)" "q = 0 \<longleftrightarrow> take 2 (drop ?n ?bs) = [CR, LF]"
      using memcmp_run [OF assms(1) on(2), of "[CR, LF]", unfolded two(1), OF two(2)] .
    have len: "eol_len ?st (drop ?n ?bs) = (if ?bs ! ?n = LF then Some 1 else if q = 0 then Some 2 else None)"
      using drop_Cons_at [OF True] q(2) by simp
    show ?thesis
    proof (cases "?bs ! ?n = LF \<or> q = 0")
      case found: True
      define k where "k = (if ?bs ! ?n = LF then 1 else 2 :: nat)"
      have "crlf_loop (Suc f) b it s = Inr ((it', Some k), s)"
        using r(1) on(1) ch q(1) found by (auto simp: run_simps k_def)
      moreover have "first_eol ?st ?bs i ?n k" using len found before unfolding first_eol_def by (auto simp: k_def)
      ultimately show ?thesis using on(2) by (auto simp: eol_result_def)
    next
      case False
      have lim: "?n + 1 < 2 ^ 64" using True holds_simps(11) [OF assms(1)] by simp
      obtain z it2 where z: "evbuffer_ptr_set b it' 1 EVBUFFER_PTR_ADD s = Inr ((z, it2), s)"
        "if ?n + 1 < length ?bs then z = 0 \<and> ptr_on cs it2 (?n + 1) else z = - 1" using ptr_add_run [OF assms(1) on(2) lim] .
      have skip: "\<forall>j. i \<le> j \<and> j < ?n + 1 \<longrightarrow> eol_len ?st (drop j ?bs) = None" using before len False by (auto simp: less_Suc_eq)
      have run: "crlf_loop (Suc f) b it s = (if z < 0 then Inr ((it2, None), s) else crlf_loop f b it2 s)"
        using r(1) on(1) ch q(1) z(1) False by (simp add: run_simps del: evbuffer_ptr_set.simps)
      show ?thesis
      proof (cases "?n + 1 < length ?bs")
        case more: True
        then have z0: "z = 0" "ptr_at cs it2 (?n + 1)" using z(2) ptr_on_at by auto
        obtain p where p: "crlf_loop f b it2 s = Inr (p, s)" "eol_result cs ?st (?n + 1) p"
          using Suc.IH [OF z0(2)] more Suc.prems(3) by fastforce
        have "eol_result cs ?st i p" using p(2) first_eol_skip [OF _ _ skip] no_eol_skip [OF _ _ skip]
          unfolding eol_result_def by (auto split: prod.splits option.splits)
        then show ?thesis using run z0(1) p(1) by simp
      next
        case over: False
        then have "no_eol ?st ?bs (?n + 1)" by (simp add: no_eol_def)
        then show ?thesis using run z(2) over no_eol_skip [OF _ _ skip] by (auto simp: eol_result_def)
      qed
    qed
  qed
qed simp

lemma eol_lf: "eol_starts EVBUFFER_EOL_LF (\<lambda>y. y = LF)"
  by (simp add: eol_starts_def)

lemma first_eolI:
  assumes "eol_starts st P" "i + first_at P (drop i bs) < length bs"
    "eol_len st (drop (i + first_at P (drop i bs)) bs) = Some k"
  shows "first_eol st bs i (i + first_at P (drop i bs)) k"
  using assms(2,3) before_first [OF assms(1), where i = i and bs = bs] unfolding first_eol_def by auto

theorem search_eol_run:
  assumes h: "holds s b e cs"
  obtains it k where "evbuffer_search_eol b None st s = Inr ((it, k), s)"
    "(\<exists>n. ptr_on cs it n \<and> first_eol st (content cs) 0 n k) \<or> ptr_pos it = - 1 \<and> no_eol st (content cs) 0"
proof -
  let ?bs = "content cs" and ?it = "ptr_start e None"
  note hs = holds_simps [OF h] and at = ptr_start_at [OF h]
  define body where "body = (case st of
            EVBUFFER_EOL_ANY \<Rightarrow>
              bnd (evbuffer_find_eol_char ?it) (\<lambda>(r, it).
              if r < 0 then ret (it, None)
              else bnd (evbuffer_strspn it [CR, LF]) (\<lambda>(n, _). ret (it, Some (nat (n mod 2 ^ 64)))))
          | EVBUFFER_EOL_CRLF_STRICT \<Rightarrow>
              bnd (evbuffer_search b [CR, LF] (Some ?it)) (\<lambda>it.
              ret (it, if ptr_pos it < 0 then None else Some 2))
          | EVBUFFER_EOL_CRLF \<Rightarrow> with_brk (\<lambda>n. crlf_loop (n + total_len e) b ?it)
          | EVBUFFER_EOL_LF \<Rightarrow>
              bnd (evbuffer_strchr ?it LF) (\<lambda>(r, it). ret (it, if r < 0 then None else Some 1)))"
  have run: "evbuffer_search_eol b None st s = bnd body (\<lambda>(it, r). case r of None \<Rightarrow> ret (it\<lparr>ptr_pos := - 1\<rparr>, 0) | Some n \<Rightarrow> ret (it, n)) s"
    using hs(1,2) by (simp add: evbuffer_search_eol_def run_bnd_simps Let_def body_def)
  have "\<exists>r. body s = Inr (r, s) \<and> eol_result cs st 0 r"
  proof (cases st)
    case EVBUFFER_EOL_ANY
    let ?n = "0 + first_at is_eol (drop 0 ?bs)"
    obtain r it' where r: "evbuffer_find_eol_char ?it s = Inr ((r, it'), s)" "if ?n < length ?bs then r = int ?n \<and> ptr_on cs it' ?n else r = - 1"
      using scan_run [OF h at find_eol_looks] unfolding evbuffer_find_eol_char_def by blast
    show ?thesis
    proof (cases "?n < length ?bs")
      case True
      then have on: "ptr_on cs it' ?n" "r = int ?n" using r(2) by simp_all
      let ?k = "first_at (\<lambda>x. x \<notin> set [CR, LF]) (drop ?n ?bs)"
      obtain it2 where "evbuffer_strspn it' [CR, LF] s = Inr ((int ?k, it2), s)" using strspn_run [OF h on(1), of "[CR, LF]"] .
      moreover have "?k < 2 ^ 64" using first_at_le [of "\<lambda>x. x \<notin> set [CR, LF]" "drop ?n ?bs"] hs(11) by simp
      ultimately have "body s = Inr ((it', Some ?k), s)" using r(1) on(2) EVBUFFER_EOL_ANY by (simp add: body_def run_simps)
      moreover have "eol_len st (drop ?n ?bs) = Some ?k"
        using drop_Cons_at [OF True] first_at_nth [of is_eol ?bs] True EVBUFFER_EOL_ANY is_eol_fun by (simp add: first_at_def)
      ultimately show ?thesis using on(1) first_eolI [OF eol_len_is_eol, where i = 0 and bs = ?bs and st = st and k = ?k] True by (auto simp: eol_result_def)
    next
      case False
      then show ?thesis using r scan_none [OF eol_len_is_eol, where i = 0 and bs = ?bs and st = st] EVBUFFER_EOL_ANY by (auto simp: body_def run_simps eol_result_def)
    qed
  next
    case EVBUFFER_EOL_LF
    let ?n = "0 + first_at (\<lambda>y. y = LF) (drop 0 ?bs)"
    obtain r it' where r: "evbuffer_strchr ?it LF s = Inr ((r, it'), s)" "if ?n < length ?bs then r = int ?n \<and> ptr_on cs it' ?n else r = - 1"
      using scan_run [OF h at memchr_looks] unfolding evbuffer_strchr_def by blast
    show ?thesis
    proof (cases "?n < length ?bs")
      case True
      have "eol_len st (drop ?n ?bs) = Some 1"
        using drop_Cons_at [OF True] first_at_nth [of "\<lambda>y. y = LF" ?bs] True EVBUFFER_EOL_LF by simp
      then have "first_eol st ?bs 0 ?n 1" using first_eolI [of st "\<lambda>y. y = LF" 0 ?bs 1] eol_lf True EVBUFFER_EOL_LF by blast
      then show ?thesis using r True EVBUFFER_EOL_LF by (auto simp: body_def run_simps eol_result_def)
    next
      case False
      then have "no_eol st ?bs 0" using scan_none [of st "\<lambda>y. y = LF" 0 ?bs] eol_lf EVBUFFER_EOL_LF by blast
      then show ?thesis using r False EVBUFFER_EOL_LF by (auto simp: body_def run_simps eol_result_def)
    qed
  next
    case EVBUFFER_EOL_CRLF
    have "length ?bs - 0 < Suc (ev_brk s) + total_len e" using hs(10) by simp
    then obtain r where "crlf_loop (Suc (ev_brk s) + total_len e) b ?it s = Inr (r, s)" "eol_result cs EVBUFFER_EOL_CRLF 0 r"
      using crlf_loop_run [OF h at] by blast
    then show ?thesis using EVBUFFER_EOL_CRLF by (simp add: body_def with_brk_def del: crlf_loop.simps)
  next
    case EVBUFFER_EOL_CRLF_STRICT
    obtain p where p: "evbuffer_search b [CR, LF] (Some ?it) s = Inr (p, s)" "search_result cs [CR, LF] 0 p"
      using search_run [OF h, of "Some ?it" 0 "[CR, LF]"] at by (auto simp: ptr_start_def)
    have oc: "occurs [CR, LF] ?bs j \<longleftrightarrow> eol_len st (drop j ?bs) = Some 2" "eol_len st (drop j ?bs) = None \<longleftrightarrow> \<not> occurs [CR, LF] ?bs j" for j
      using EVBUFFER_EOL_CRLF_STRICT by (cases "drop j ?bs"; auto simp: occurs_def numeral_2_eq_2)+
    from p(2) show ?thesis unfolding search_result_def
    proof
      assume "\<exists>n\<ge>0. ptr_on cs p n \<and> occurs [CR, LF] ?bs n \<and> (\<forall>j. 0 \<le> j \<and> j < n \<longrightarrow> \<not> occurs [CR, LF] ?bs j)"
      then obtain n where n: "ptr_on cs p n" "occurs [CR, LF] ?bs n" "\<forall>j<n. \<not> occurs [CR, LF] ?bs j" by auto
      then have "first_eol st ?bs 0 n 2" using oc by (simp add: first_eol_def)
      moreover have "\<not> ptr_pos p < 0" using n(1) by (simp add: ptr_on_def)
      ultimately show ?thesis using p(1) n(1) EVBUFFER_EOL_CRLF_STRICT by (auto simp: body_def run_simps eol_result_def)
    next
      assume "ptr_pos p = - 1 \<and> (\<forall>j\<ge>0. \<not> occurs [CR, LF] ?bs j)"
      then show ?thesis using p(1) oc EVBUFFER_EOL_CRLF_STRICT by (auto simp: body_def run_simps eol_result_def no_eol_def)
    qed
  qed
  then obtain it r where r: "body s = Inr ((it, r), s)" "eol_result cs st 0 (it, r)" by auto
  then show thesis using that run by (cases r) (auto simp: bnd_def eol_result_def)
qed

section \<open>Reading a line\<close>

lemma is_queue_malloc: "is_queue b F s bs \<Longrightarrow> is_queue b F (s\<lparr>ev_brk := Suc (ev_brk s)\<rparr>) bs"
proof -
  assume "is_queue b F s bs"
  then obtain e cs where h: "wf_ev s" "holds s b e cs" "tight cs" "content cs = bs" "\<not> freeze_start e" "\<not> freeze_end e"
    "ch_heap s |` (- set (addrs cs)) = F" unfolding is_queue_def by blast
  have "holds (s\<lparr>ev_brk := Suc (ev_brk s)\<rparr>) b e cs" using h(2) unfolding holds_def by (simp add: less_SucI)
  moreover have "wf_ev (s\<lparr>ev_brk := Suc (ev_brk s)\<rparr>)" using h(1) by (simp add: wf_ev_def)
  ultimately show ?thesis using h(3-7) unfolding is_queue_def by fastforce
qed

lemma eol_bounds: "eol_len st xs = Some k \<Longrightarrow> xs \<noteq> []"
  by (cases xs) auto

text \<open>Taking bytes out does not change which allocations fail.\<close>

lemma becomes_oom: "becomes s b e cs s' cs' \<Longrightarrow> ev_oom s' = ev_oom s"
  by (auto simp: becomes_def evolves_def)

lemma remove_oom:
  assumes "is_queue b F s bs" "evbuffer_remove b n s = Inr (r, s')"
  shows "ev_oom s' = ev_oom s"
proof -
  obtain e cs where h: "wf_ev s" "holds s b e cs" "\<not> freeze_start e" using assms(1) unfolding is_queue_def by blast
  show ?thesis by (rule evbuffer_remove_run [OF h(2,1,3), of n]) (use assms(2) becomes_oom in auto)
qed

lemma drain_oom:
  assumes "is_queue b F s bs" "evbuffer_drain b n s = Inr (r, s')"
  shows "ev_oom s' = ev_oom s"
proof -
  obtain e cs where h: "wf_ev s" "holds s b e cs" "\<not> freeze_start e" using assms(1) unfolding is_queue_def by blast
  obtain t cs' where "evbuffer_drain b n s = Inr (0, t)" "becomes s b e cs t cs'"
    using evbuffer_drain_run [OF h(2,1,3)] unfolding drains_def by blast
  then show ?thesis using assms(2) becomes_oom by auto
qed

definition reads_line :: "nat \<Rightarrow> (nat \<Rightarrow> evbuffer_chain option) \<Rightarrow> evbuffer_eol_style \<Rightarrow> u8 list \<Rightarrow> bool \<Rightarrow> u8 list option \<Rightarrow> evstate \<Rightarrow> bool" where
  "reads_line b F st bs refused r s' \<longleftrightarrow>
     (case r of Some l \<Rightarrow> (\<exists>rest. split_line st bs = Some (l, rest) \<and> is_queue b F s' rest)
      | None \<Rightarrow> (refused \<or> split_line st bs = None) \<and> is_queue b F s' bs)"

theorem readln_run:
  assumes "is_queue b F s bs"
  shows "\<exists>r s'. evbuffer_readln b st s = Inr (r, s') \<and> reads_line b F st bs (ev_oom s (ev_brk s)) r s' \<and> ev_oom s' = ev_oom s"
proof -
  obtain e cs where h: "holds s b e cs" "content cs = bs" "\<not> freeze_start e" using assms by (auto simp: is_queue_def)
  note hs = holds_simps [OF h(1)]
  obtain it k where e: "evbuffer_search_eol b None st s = Inr ((it, k), s)"
    "(\<exists>n. ptr_on cs it n \<and> first_eol st bs 0 n k) \<or> ptr_pos it = - 1 \<and> no_eol st bs 0"
    using search_eol_run [OF h(1)] unfolding h(2) .
  let ?s = "s\<lparr>ev_brk := Suc (ev_brk s)\<rparr>"
  have q: "is_queue b F ?s bs" using is_queue_malloc [OF assms] .
  from e(2) show ?thesis
  proof
    assume "\<exists>n. ptr_on cs it n \<and> first_eol st bs 0 n k"
    then obtain n where n: "ptr_on cs it n" "first_eol st bs 0 n k" by blast
    have pos: "ptr_pos it = int n" using n(1) by (simp add: ptr_on_def)
    have line: "split_line st bs = Some (take n bs, drop (n + k) bs)" using split_line_first [OF n(2)] .
    obtain s1 where s1: "evbuffer_remove b n ?s = Inr (Some (take n bs), s1)" "is_queue b F s1 (drop n bs)" using evq.remove_law [OF q] by blast
    obtain s2 where s2: "evbuffer_drain b k s1 = Inr (0, s2)" "is_queue b F s2 (drop (k + n) bs)" using evq.drain_law [OF s1(2), of k] by auto
    have "evbuffer_readln b st s = (if ev_oom s (ev_brk s) then Inr (None, ?s) else Inr (Some (take n bs), s2))"
      using hs(1,2) h(3) e(1) pos s1(1) s2(1) by (simp add: evbuffer_readln_def run_simps malloc_line_def)
    moreover have "ev_oom s2 = ev_oom s" using remove_oom [OF q s1(1)] drain_oom [OF s1(2) s2(1)] by simp
    ultimately show ?thesis using line s2(2) q by (auto simp: reads_line_def add.commute)
  next
    assume none: "ptr_pos it = - 1 \<and> no_eol st bs 0"
    then have "evbuffer_readln b st s = Inr (None, s)"
      using hs(1,2) h(3) e(1) by (simp add: evbuffer_readln_def run_simps)
    then show ?thesis using split_line_none none assms by (simp add: reads_line_def)
  qed
qed

text \<open>A caller that reads up to \<open>n\<close> lines.\<close>

fun readlns :: "nat \<Rightarrow> evbuffer_eol_style \<Rightarrow> nat \<Rightarrow> u8 list list brun" where
  "readlns b st 0 = ret []"
| "readlns b st (Suc n) = bnd (evbuffer_readln b st) (\<lambda>r.
     case r of None \<Rightarrow> ret [] | Some l \<Rightarrow> bnd (readlns b st n) (\<lambda>ls. ret (l # ls)))"

fun eol_text :: "evbuffer_eol_style \<Rightarrow> u8 list" where
  "eol_text EVBUFFER_EOL_LF = [LF]"
| "eol_text _ = [CR, LF]"

definition unlines :: "evbuffer_eol_style \<Rightarrow> u8 list list \<Rightarrow> u8 list" where
  "unlines st ls = concat (map (\<lambda>l. l @ eol_text st) ls)"

lemma CR_LF [simp]: "CR \<noteq> LF" "LF \<noteq> CR"
  by (simp_all add: CR_def LF_def)

text \<open>
  The lines that can be told apart: without a line feed, and for \<^verbatim>\<open>EVBUFFER_EOL_ANY\<close>, where a run of carriage returns and line
  feeds is one line end, also without a carriage return and with no empty line but the first.
\<close>

definition lines_ok :: "evbuffer_eol_style \<Rightarrow> u8 list list \<Rightarrow> bool" where
  "lines_ok st ls \<longleftrightarrow> LF \<notin> set (concat ls) \<and> (st = EVBUFFER_EOL_ANY \<longrightarrow> CR \<notin> set (concat ls) \<and> [] \<notin> set (tl ls))"

lemma lines_ok_tl: "lines_ok st (l # ls) \<Longrightarrow> lines_ok st ls"
  by (cases ls) (auto simp: lines_ok_def)

lemma eol_run:
  assumes "st = EVBUFFER_EOL_ANY \<longrightarrow> bs = [] \<or> \<not> is_eol (hd bs)"
  shows "eol_len st (eol_text st @ bs) = Some (length (eol_text st))"
  using assms by (cases st; cases bs) (simp_all add: is_eol_def)

lemma split_unlines:
  assumes "LF \<notin> set l" "st = EVBUFFER_EOL_ANY \<longrightarrow> CR \<notin> set l \<and> (bs = [] \<or> \<not> is_eol (hd bs))"
  shows "split_line st (l @ eol_text st @ bs) = Some (l, bs)"
proof -
  have "eol_len st (eol_text st @ bs) = Some (length (eol_text st))" using assms(2) by (intro eol_run) blast
  moreover have "eol_len st (drop j l @ eol_text st @ bs) = None" if j: "j < length l" for j
  proof -
    have d: "drop j l = l ! j # drop (Suc j) l" using j by (simp add: Cons_nth_drop_Suc)
    have "l ! j \<noteq> LF" "LF \<notin> set (drop (Suc j) l)" "st = EVBUFFER_EOL_ANY \<longrightarrow> l ! j \<noteq> CR"
      using assms nth_mem [OF j] by (metis, auto dest: in_set_dropD)
    then show ?thesis unfolding d by (cases st; cases "drop (Suc j) l") (auto simp: is_eol_def)
  qed
  ultimately have "first_eol st (l @ eol_text st @ bs) 0 (length l) (length (eol_text st))" by (simp add: first_eol_def)
  from split_line_first [OF this] show ?thesis by simp
qed

lemma split_first_line:
  assumes "lines_ok st (l # ls)"
  shows "split_line st (unlines st (l # ls)) = Some (l, unlines st ls)"
proof -
  have "unlines st ls = [] \<or> \<not> is_eol (hd (unlines st ls))" if "st = EVBUFFER_EOL_ANY"
    using that assms by (cases ls; cases "hd ls") (auto simp: lines_ok_def unlines_def is_eol_def)
  then show ?thesis using split_unlines [of l st "unlines st ls"] assms by (simp add: unlines_def lines_ok_def)
qed

lemma readlns_run:
  assumes "is_queue b F s (unlines st ls)" "\<forall>n. \<not> ev_oom s n" "lines_ok st ls"
  shows "\<exists>s'. readlns b st (length ls) s = Inr (ls, s') \<and> is_queue b F s' []"
  using assms
proof (induction ls arbitrary: s)
  case Nil
  then show ?case by (simp add: unlines_def ret_def)
next
  case (Cons l ls)
  note line = split_first_line [OF Cons.prems(3)]
  obtain r s1 where r: "evbuffer_readln b st s = Inr (r, s1)" "reads_line b F st (unlines st (l # ls)) False r s1" "ev_oom s1 = ev_oom s"
    using readln_run [OF Cons.prems(1), of st] Cons.prems(2) by auto
  then have s1: "r = Some l" "is_queue b F s1 (unlines st ls)" using line by (auto simp: reads_line_def split: option.splits)
  have "\<forall>n. \<not> ev_oom s1 n" using r(3) Cons.prems(2) by simp
  then obtain s' where "readlns b st (length ls) s1 = Inr (ls, s')" "is_queue b F s' []" using Cons.IH [OF s1(2) _ lines_ok_tl [OF Cons.prems(3)]] by auto
  then show ?case using r(1) s1(1) by (simp add: run_simps)
qed

end
