(* ===== verification/Evbuffer_Text.thy ===== *)
theory Evbuffer_Text
  imports Evbuffer_Properties Evbuffer_Printf Evbuffer_Lines
begin

text \<open>What printing into a buffer, searching in it and reading lines from it guarantee.\<close>

section \<open>Printing\<close>

text \<open>
  \<open>evbuffer_add_printf\<close> appends the formatted text, without its terminator, to a buffer whose bytes are in
  order, and returns its length; when an allocation fails it returns -1 and the content is as before.
  Whichever happens, no chain is leaked and chains of other buffers are not touched.
\<close>

theorem evbuffer_printf_appends:
  assumes "holds s b e cs" "wf_ev s" "few cs" "\<not> freeze_end e" "length str < 2 ^ 31 - 1" "total_len e + length str < 2 ^ 64"
  shows "\<exists>r s' e' cs'. evbuffer_add_printf b str s = Inr (r, s') \<and> holds s' b e' cs'
    \<and> ch_heap s' |` (- set (addrs cs')) = ch_heap s |` (- set (addrs cs))
    \<and> (r = int (length str) \<and> content cs' = content cs @ str \<or> r = - 1 \<and> content cs' = content cs \<and> (\<exists>n. ev_oom s n))"
proof -
  obtain r s' cs' where r: "evbuffer_add_printf b str s = Inr (r, s')" "becomes s b e cs s' cs'"
    "r = int (length str) \<and> content cs' = content cs @ str \<or> r = - 1 \<and> content cs' = content cs \<and> (\<exists>n. ev_oom s n)"
    using evbuffer_add_vprintf_run [OF assms] unfolding prints_def evbuffer_add_printf_def by blast
  then show ?thesis using frame_kept [OF _ assms(2)] unfolding becomes_def by blast
qed

theorem evbuffer_printf_appends_witness:
  "\<exists>r s' e' cs'. evbuffer_add_printf 1 [72, 105] eg_two = Inr (r, s') \<and> holds s' 1 e' cs' \<and> r = 2 \<and> content cs' = [1, 2, 72, 105]"
  using evbuffer_printf_appends [OF eg_two(2,1), of "[72, 105]"] eg_two(4) unfolding eg_content by (auto simp: eg_fields few_def)

section \<open>Searching\<close>

text \<open>
  \<open>evbuffer_search\<close> finds the first occurrence of a byte string that begins at or behind the start
  position, also when it spans chains, and returns a position that denotes it; when there is none it
  returns position -1. It changes nothing.
\<close>

theorem evbuffer_search_first:
  assumes "holds s b e cs" "ptr_at cs (ptr_start e start) i" "what \<noteq> []" "length what < 2 ^ 63"
  shows "\<exists>p. evbuffer_search b what start s = Inr (p, s)
    \<and> ((\<exists>n. i \<le> n \<and> ptr_on cs p n \<and> take (length what) (drop n (content cs)) = what
          \<and> (\<forall>j. i \<le> j \<and> j < n \<longrightarrow> take (length what) (drop j (content cs)) \<noteq> what))
       \<or> ptr_pos p = - 1 \<and> (\<forall>j\<ge>i. take (length what) (drop j (content cs)) \<noteq> what))"
proof -
  obtain p where "evbuffer_search b what start s = Inr (p, s)" "search_result cs what i p" by (rule search_run [OF assms])
  then show ?thesis unfolding search_result_def occurs_def by (intro exI [of _ p] conjI)
qed

theorem evbuffer_search_first_witness:
  "\<exists>p. evbuffer_search 3 [6, 7] None eg_two = Inr (p, eg_two) \<and> ptr_pos p = 1"
proof -
  let ?cs = "[(4, eg_chain [5, 6, 7])]" and ?w = "[6, 7] :: u8 list"
  have w: "?w \<noteq> []" "length ?w < 2 ^ 63" by simp_all
  have at: "take (length ?w) (drop 1 (content ?cs)) = ?w" unfolding eg_content by simp
  have no: "take (length ?w) (drop n (content ?cs)) \<noteq> ?w" if "n \<noteq> 1" for n
  proof -
    consider "n = 0" | "n = 2" | "3 \<le> n" using \<open>n \<noteq> 1\<close> by linarith
    then show ?thesis unfolding eg_content by cases simp_all
  qed
  obtain p where p: "evbuffer_search 3 ?w None eg_two = Inr (p, eg_two)" "ptr_on ?cs p 1"
    using evbuffer_search_first [OF eg_two(3) ptr_start_at [OF eg_two(3)] w] at no by (metis le0)
  then show ?thesis by (auto simp: ptr_on_def)
qed

section \<open>Lines\<close>

text \<open>
  \<open>evbuffer_readln\<close> takes the first line out of the buffer, for each of the four styles of line ends: it
  returns the bytes in front of the first line end and removes them with the line end. When there is no
  line end, or the memory for the line cannot be allocated, it returns \<^verbatim>\<open>NULL\<close> and the buffer holds what it
  held.
\<close>

theorem evbuffer_readln_line:
  assumes "is_queue b F s bs"
  shows "\<exists>r s'. evbuffer_readln b st s = Inr (r, s')
    \<and> (case r of Some l \<Rightarrow> (\<exists>bs'. split_line st bs = Some (l, bs') \<and> is_queue b F s' bs')
       | None \<Rightarrow> (ev_oom s (ev_brk s) \<or> split_line st bs = None) \<and> is_queue b F s' bs)"
  using readln_run [OF assms, of st] unfolding reads_line_def by blast

text \<open>A buffer at address 1 with one chain.\<close>

lemma eg_queue:
  assumes "xs \<noteq> []" "length xs = n" "n \<le> 900"
  shows "is_queue 1 Map.empty (eg_state [2 \<mapsto> eg_chain xs] [1 \<mapsto> eg_buf 1 2 n]) xs"
proof -
  have "wf_ev (eg_state [2 \<mapsto> eg_chain xs] [1 \<mapsto> eg_buf 1 2 n])" by (rule eg_wf) auto
  moreover have "holds (eg_state [2 \<mapsto> eg_chain xs] [1 \<mapsto> eg_buf 1 2 n]) 1 (eg_buf 1 2 n) [(2, eg_chain xs)]" by (rule eg_one) (use assms in simp_all)
  moreover have "ch_heap (eg_state [2 \<mapsto> eg_chain xs] [1 \<mapsto> eg_buf 1 2 n]) |` (- set (addrs [(2, eg_chain xs)])) = Map.empty" by (auto simp: eg_state_def restrict_map_def)
  ultimately show ?thesis unfolding is_queue_def
    by (intro conjI exI [of _ "eg_buf 1 2 n"] exI [of _ "[(2, eg_chain xs)]"]) (use eg_content [of 2 xs] in \<open>simp_all add: eg_fields\<close>)
qed

theorem evbuffer_readln_line_witness:
  "\<exists>r s'. evbuffer_readln 1 EVBUFFER_EOL_CRLF (eg_state [2 \<mapsto> eg_chain [65, 13, 10, 66]] [1 \<mapsto> eg_buf 1 2 4]) = Inr (r, s')
    \<and> r = Some [65] \<and> is_queue 1 Map.empty s' [66]"
proof -
  let ?s = "eg_state [2 \<mapsto> eg_chain [65, 13, 10, 66]] [1 \<mapsto> eg_buf 1 2 4]"
  have q: "is_queue 1 Map.empty ?s [65, 13, 10, 66]" by (rule eg_queue) simp_all
  have sp: "split_line EVBUFFER_EOL_CRLF [65, 13, 10, 66] = Some ([65], [66])" by (simp add: CR_def LF_def)
  have oom: "\<not> ev_oom ?s n" for n by (simp add: eg_state_def)
  obtain r s' where r: "evbuffer_readln 1 EVBUFFER_EOL_CRLF ?s = Inr (r, s')"
    "case r of Some l \<Rightarrow> (\<exists>bs'. Some ([65], [66]) = Some (l, bs') \<and> is_queue 1 Map.empty s' bs')
       | None \<Rightarrow> (ev_oom ?s (ev_brk ?s) \<or> Some ([65 :: u8], [66 :: u8]) = None) \<and> is_queue 1 Map.empty s' [65, 13, 10, 66]"
    using evbuffer_readln_line [OF q, of EVBUFFER_EOL_CRLF] unfolding sp by blast
  then have "r = Some [65] \<and> is_queue 1 Map.empty s' [66]" using oom by (simp split: option.splits)
  with r(1) show ?thesis by blast
qed

text \<open>
  C9. As long as no allocation fails, a text written as lines, each followed by the line end of the style (a line feed, or a carriage return and a
  line feed), is read back by \<open>evbuffer_readln\<close> line by line, and the buffer is empty afterwards. The lines must not contain a line feed. For the
  style \<^verbatim>\<open>EVBUFFER_EOL_ANY\<close>, where any run of carriage returns and line feeds is one line end, they must not contain a carriage return either,
  and only the first of them may be empty; for the other three styles they may contain carriage returns and may be empty.
\<close>

theorem lines_round_trip:
  assumes "is_queue b F s (unlines st ls)" "\<forall>n. \<not> ev_oom s n" "LF \<notin> set (concat ls)"
    "st = EVBUFFER_EOL_ANY \<longrightarrow> CR \<notin> set (concat ls) \<and> [] \<notin> set (tl ls)"
  shows "\<exists>s'. readlns b st (length ls) s = Inr (ls, s') \<and> is_queue b F s' []"
  by (rule readlns_run [OF assms(1,2)]) (use assms(3,4) in \<open>simp add: lines_ok_def\<close>)

theorem lines_round_trip_witness:
  "(\<exists>s'. readlns 1 EVBUFFER_EOL_CRLF_STRICT 2 (eg_state [2 \<mapsto> eg_chain [65, 13, 13, 10, 13, 10]] [1 \<mapsto> eg_buf 1 2 6]) = Inr ([[65, 13], []], s')
     \<and> is_queue 1 Map.empty s' [])
   \<and> (\<exists>s'. readlns 1 EVBUFFER_EOL_ANY 2 (eg_state [2 \<mapsto> eg_chain [65, 13, 10, 66, 13, 10]] [1 \<mapsto> eg_buf 1 2 6]) = Inr ([[65], [66]], s')
     \<and> is_queue 1 Map.empty s' [])"
proof -
  have q: "is_queue 1 Map.empty (eg_state [2 \<mapsto> eg_chain (unlines st ls)] [1 \<mapsto> eg_buf 1 2 6]) (unlines st ls)" if "length (unlines st ls) = 6" for st ls
    by (rule eg_queue) (use that in auto)
  have oom: "\<forall>n. \<not> ev_oom (eg_state C B) n" for C B by (simp add: eg_state_def)
  have u: "unlines EVBUFFER_EOL_CRLF_STRICT [[65, 13], []] = [65, 13, 13, 10, 13, 10]" "unlines EVBUFFER_EOL_ANY [[65], [66]] = [65, 13, 10, 66, 13, 10]"
    by (simp_all add: unlines_def CR_def LF_def)
  have l: "length [[65, 13], [] :: u8 list] = 2" "length [[65], [66 :: u8]] = 2" by simp_all
  show ?thesis
    using lines_round_trip [OF q oom, of EVBUFFER_EOL_CRLF_STRICT "[[65, 13], []]"] lines_round_trip [OF q oom, of EVBUFFER_EOL_ANY "[[65], [66]]"]
    unfolding u l by (simp add: CR_def LF_def)
qed

end
