(* ===== verification/Evbuffer_Order.thy ===== *)
theory Evbuffer_Order
  imports Evbuffer_Properties Evbuffer_Space
begin

text \<open>
  A sequence of calls on a fresh buffer after which the bytes are not in the order in which they were
  written. \<open>evbuffer_expand\<close> leaves an empty chain behind the one with data; \<open>evbuffer_add\<close> then writes into the
  last chain, without moving \<^verbatim>\<open>last_with_datap\<close> to it; and \<open>evbuffer_add_printf\<close> writes into the chain that
  \<^verbatim>\<open>last_with_datap\<close> names, in front of the byte that is already behind it.
\<close>

unbundle bit_operations_syntax

lemmas eval_defs = evbuffer_add_def evbuffer_expand_def evbuffer_expand_singlechain_def evbuffer_add_printf_def evbuffer_add_vprintf_def
  evbuffer_copyout_def expand_chain_def expand_ok_def expand_resize_def evutil_vsnprintf_def
  evbuffer_chain_new_def evbuffer_chain_insert_def evbuffer_chain_insert_new_def add_to_chain_def add_chain_for_def fill_remaining_def
  count_added_def evbuffer_invoke_callbacks_def evbuffer_run_callbacks_def advance_last_with_data_def
  evbuffer_chain_free_def mm_free_chain_def evbuffer_chains_all_empty_def
  CHAIN_SPACE_LEN_def CHAIN_PINNED_def CHAIN_PINNED_R_def evbuffer_chain_should_realign_def evbuffer_chain_align_def
  EVBUFFER_CHAIN_MAX_def EVBUFFER_CHAIN_SIZE_def EV_SSIZE_MAX_def EV_SIZE_MAX_def MIN_BUFFER_SIZE_def MAX_TO_COPY_IN_EXPAND_def
  MAX_TO_REALIGN_IN_EXPAND_def EVBUFFER_CHAIN_MAX_AUTO_SIZE_def EVBUFFER_IMMUTABLE_def EVBUFFER_MEM_PINNED_ANY_def EVBUFFER_MEM_PINNED_R_def
  EVBUFFER_MEM_PINNED_W_def EVBUFFER_REFERENCE_def EVBUFFER_MMAP_def EVBUFFER_SENDFILE_def sz_add_def sz_sub_def

lemmas loop_numeral = victim_loop.simps(2) [of "pred_numeral k" for k, folded numeral_eq_Suc]
  all_empty_loop.simps(2) [of "pred_numeral k" for k, folded numeral_eq_Suc]
  advance_loop.simps(2) [of "pred_numeral k" for k, folded numeral_eq_Suc] copyout_loop.simps(2) [of "pred_numeral k" for k, folded numeral_eq_Suc]
  vprintf_loop.simps(2) [of "pred_numeral k" for k, folded numeral_eq_Suc]

lemma grown_sizes: "grown_size 1024 49 = 1024" "grown_size 1024 2048 = 2048"
  by (subst grown_size.simps, simp)+

section \<open>The states of the sequence\<close>

definition order_chain :: "nat \<Rightarrow> nat \<Rightarrow> nat \<Rightarrow> (nat \<Rightarrow> 8 word) \<Rightarrow> evbuffer_chain" where
  "order_chain p len n f = \<lparr>ch_next = p, buffer_len = len, misalign = 0, off = n, ch_flags = 0, ch_buffer = f, ch_extra = NoExtra\<rparr>"

definition order_buf :: "nat \<Rightarrow> cell \<Rightarrow> nat \<Rightarrow> evbuffer" where
  "order_buf l d n = \<lparr>eb_first = 10, eb_last = l, last_with_datap = d, total_len = n, n_add_for_cb = 0, n_del_for_cb = 0,
     freeze_start = False, freeze_end = False, deferred_cbs = False, eb_flags = 0, refcnt = 1, deferred_queued = False, callbacks = []\<rparr>"

definition order_state :: "nat \<Rightarrow> (nat \<Rightarrow> evbuffer_chain option) \<Rightarrow> evbuffer \<Rightarrow> evstate" where
  "order_state n ch e = \<lparr>ch_heap = ch, eb_heap = [1 \<mapsto> e], ev_brk = n, ev_oom = (\<lambda>_. False), ev_junk = (\<lambda>_. 0), ev_log = []\<rparr>"

lemmas order_defs = order_chain_def order_buf_def order_state_def

lemma order_add: "evbuffer_add 1 [97] (eg_state Map.empty [1 \<mapsto> eg_buf 1 0 0])
    = Inr (0, order_state 11 [10 \<mapsto> order_chain 0 976 1 (put (\<lambda>_. 0) 0 [97])] (order_buf 10 (First 1) 1))"
  by (simp add: eg_state_def eg_buf_def eval_defs run_simps loop_numeral grown_sizes Let_def order_defs)

lemma order_expand: "evbuffer_expand 1 2000 (order_state 11 [10 \<mapsto> order_chain 0 976 1 f] (order_buf 10 (First 1) 1))
    = Inr (0, order_state 12 [10 \<mapsto> order_chain 11 976 1 f, 11 \<mapsto> order_chain 0 2000 0 (\<lambda>_. 0)] (order_buf 11 (First 1) 1))"
  by (simp add: eval_defs run_simps loop_numeral grown_sizes Let_def order_defs fun_upd_twist)

lemma order_add_last: "evbuffer_add 1 [1] (order_state 12 [10 \<mapsto> order_chain 11 976 1 f, 11 \<mapsto> order_chain 0 2000 0 (\<lambda>_. 0)] (order_buf 11 (First 1) 1))
    = Inr (0, order_state 12 [10 \<mapsto> order_chain 11 976 1 f, 11 \<mapsto> order_chain 0 2000 1 (put (\<lambda>_. 0) 0 [1])] (order_buf 11 (First 1) (Suc (Suc 0))))"
  by (simp add: eval_defs run_simps loop_numeral grown_sizes Let_def order_defs fun_upd_twist)

lemma order_print: "evbuffer_add_printf 1 [2] (order_state 12 [10 \<mapsto> order_chain 11 976 1 f, 11 \<mapsto> order_chain 0 2000 1 g] (order_buf 11 (First 1) (Suc (Suc 0))))
    = Inr (1, order_state 12 [10 \<mapsto> order_chain 11 976 (Suc (Suc 0)) (put (put f (Suc 0) [2, 0]) 975 [0]), 11 \<mapsto> order_chain 0 2000 1 g] (order_buf 11 (Next 10) 3))"
  by (simp add: eval_defs run_simps loop_numeral grown_sizes Let_def order_defs fun_upd_twist)

lemma order_copyout: "evbuffer_copyout 1 3 (order_state 12 [10 \<mapsto> order_chain 11 976 (Suc (Suc 0)) f, 11 \<mapsto> order_chain 0 2000 1 g] (order_buf 11 (Next 10) 3))
    = Inr (Some [f 0, f 1, g 0], order_state 12 [10 \<mapsto> order_chain 11 976 (Suc (Suc 0)) f, 11 \<mapsto> order_chain 0 2000 1 g] (order_buf 11 (Next 10) 3))"
  by (simp add: eval_defs run_simps loop_numeral Let_def order_defs slice_def)

definition three_writes :: "u8 list option brun" where
  "three_writes = bnd (evbuffer_add 1 [97]) (\<lambda>_. bnd (evbuffer_expand 1 2000) (\<lambda>_. bnd (evbuffer_add 1 [1]) (\<lambda>_.
     bnd (evbuffer_add_printf 1 [2]) (\<lambda>_. evbuffer_copyout 1 3))))"

text \<open>
  Writing 97, making room for 2000 bytes, writing 1 and printing 2 on a fresh buffer leaves 97, 2, 1 in it:
  the bytes of the buffer are not in the order of the calls.
\<close>

theorem evbuffer_reorders: "\<exists>s'. three_writes (eg_state Map.empty [1 \<mapsto> eg_buf 1 0 0]) = Inr (Some [97, 2, 1], s')"
proof -
  let ?f = "put (put (put (\<lambda>_. 0) 0 [97]) (Suc 0) [2, 0]) 975 [0 :: u8]" and ?g = "put (\<lambda>_. 0) 0 [1 :: u8]"
  have bytes: "[?f 0, ?f 1, ?g 0] = [97, 2, 1]" by (simp add: put_def)
  show ?thesis
    by (simp only: three_writes_def bnd_def order_add order_expand order_add_last order_print order_copyout sum.case prod.case bytes) blast
qed

end
