(* ===== verification/Evdns.thy ===== *)
theory Evdns
  imports Evutil_Ascii
begin

unbundle bit_operations_syntax

text \<open>
  The wire format of the resolver and of the name server, \<^verbatim>\<open>libevent/evdns.c\<close>: names with compression,
  requests, replies, and what the two sides make of the packets they receive.

  A packet in memory is a byte sequence \<open>packet\<close>, the array, of which the first \<open>len\<close> bytes were received;
  a read behind the array is a fault. A packet that is built is written into \<open>obuf\<close>, an array that holds
  arbitrary bytes at first. \<open>d_oom\<close> says which allocations fail. Results \<open>None\<close> stand for \<^verbatim>\<open>goto err\<close> or
  \<^verbatim>\<open>goto overflow\<close>.
\<close>

section \<open>State\<close>

record dns_mem =
  d_brk :: nat
  d_oom :: "nat \<Rightarrow> bool"

record dns_out = dns_mem +
  obuf :: "byte list"
  lab_table :: "(byte list \<times> nat) list"

record dns_port = dns_mem +
  port_refcnt :: int

type_synonym 'a drun = "(dns_out, 'a) run"

definition dns_alloc :: "('m dns_mem_scheme, bool) run" where
  "dns_alloc = (\<lambda>s. Inr (\<not> d_oom s (d_brk s), s\<lparr>d_brk := Suc (d_brk s)\<rparr>))"

definition rd :: "byte list \<Rightarrow> nat \<Rightarrow> ('s, byte) run" where
  "rd packet j = (if j < length packet then ret (packet ! j) else stop OutOfBounds)"

definition rd_bytes :: "byte list \<Rightarrow> nat \<Rightarrow> nat \<Rightarrow> ('s, byte list) run" where
  "rd_bytes packet j n = (if j + n \<le> length packet then ret (take n (drop j packet)) else stop OutOfBounds)"

text \<open>Going on with the value, or giving up with the result \<open>e\<close>.\<close>

definition orelse :: "'b \<Rightarrow> ('s, 'a option) run \<Rightarrow> ('a \<Rightarrow> ('s, 'b) run) \<Rightarrow> ('s, 'b) run" where
  "orelse e f g = bnd f (\<lambda>r. case r of None \<Rightarrow> ret e | Some x \<Rightarrow> g x)"

section \<open>Numbers in network order\<close>

definition be16 :: "16 word \<Rightarrow> byte list" where
  "be16 x = [char_of (unat x div 256), char_of (unat x mod 256)]"

definition be32 :: "32 word \<Rightarrow> byte list" where
  "be32 x = [char_of (unat x div 2 ^ 24), char_of (unat x div 2 ^ 16 mod 256), char_of (unat x div 256 mod 256), char_of (unat x mod 256)]"

fun be_val :: "byte list \<Rightarrow> nat" where
  "be_val [] = 0"
| "be_val (c # cs) = of_char c * 256 ^ length cs + be_val cs"

definition GET16 :: "byte list \<Rightarrow> nat \<Rightarrow> nat \<Rightarrow> ('s, (16 word \<times> nat) option) run" where
  "GET16 packet len j =
     (if j + 2 > len then ret None
      else bnd (rd_bytes packet j 2) (\<lambda>t. ret (Some (word_of_nat (be_val t), j + 2))))"

definition GET32 :: "byte list \<Rightarrow> nat \<Rightarrow> nat \<Rightarrow> ('s, (32 word \<times> nat) option) run" where
  "GET32 packet len j =
     (if j + 4 > len then ret None
      else bnd (rd_bytes packet j 4) (\<lambda>t. ret (Some (word_of_nat (be_val t), j + 4))))"

definition GET8 :: "byte list \<Rightarrow> nat \<Rightarrow> nat \<Rightarrow> ('s, (nat \<times> nat) option) run" where
  "GET8 packet len j =
     (if j \<ge> len then ret None else bnd (rd packet j) (\<lambda>c. ret (Some (of_char c, j + 1))))"

section \<open>Reading a name\<close>

text \<open>
  The loop of \<open>name_parse\<close>: \<open>out\<close> is what was written to \<^verbatim>\<open>name_out\<close>, an array of \<open>cap\<close> bytes. A length with one of
  its two high bits set is the start of a pointer. The result is the index behind the name and the name.
\<close>

fun name_parse_loop :: "nat \<Rightarrow> byte list \<Rightarrow> nat \<Rightarrow> nat \<Rightarrow> nat \<Rightarrow> nat option \<Rightarrow> nat \<Rightarrow> byte list
    \<Rightarrow> ('s, (nat \<times> byte list) option) run" where
  "name_parse_loop 0 packet len cap j name_end ptr_count out = stop OutOfFuel"
| "name_parse_loop (Suc f) packet len cap j name_end ptr_count out =
     (if j \<ge> len then ret None
      else
        orelse None (GET8 packet len j) (\<lambda>(label_len, j).
        if label_len = 0 then
          (if length out \<ge> cap then ret None
           else ret (Some (case name_end of None \<Rightarrow> j | Some e \<Rightarrow> e, out)))
        else if label_len AND 0xc0 \<noteq> 0 then
          orelse None (GET8 packet len j) (\<lambda>(ptr_low, j).
          let name_end = (case name_end of None \<Rightarrow> Some j | Some e \<Rightarrow> Some e);
              j = (label_len AND 0x3f) * 256 + ptr_low in
          if j \<ge> len then ret None
          else if ptr_count + 1 > len then ret None
          else name_parse_loop f packet len cap j name_end (ptr_count + 1) out)
        else if label_len > 63 then ret None
        else if out \<noteq> [] \<and> length out + 1 \<ge> cap then ret None
        else
          let out = (if out \<noteq> [] then out @ ''.'' else out) in
          if length out + label_len \<ge> cap then ret None
          else
            bnd (rd_bytes packet j label_len) (\<lambda>l.
            name_parse_loop f packet len cap (j + label_len) name_end ptr_count (out @ l))))"

definition name_parse :: "byte list \<Rightarrow> nat \<Rightarrow> nat \<Rightarrow> nat \<Rightarrow> ('s, (nat \<times> byte list) option) run" where
  "name_parse packet len idx name_out_len = name_parse_loop (len + name_out_len + 1) packet len name_out_len idx None 0 []"

section \<open>Writing a name\<close>

definition MAX_LABELS :: nat where "MAX_LABELS = 128"

fun dnslabel_table_get_pos :: "(byte list \<times> nat) list \<Rightarrow> byte list \<Rightarrow> int" where
  "dnslabel_table_get_pos [] label = - 1"
| "dnslabel_table_get_pos ((v, p) # table) label = (if label = v then int p else dnslabel_table_get_pos table label)"

definition dnslabel_table_init :: "unit drun" where
  "dnslabel_table_init = (\<lambda>s. Inr ((), s\<lparr>lab_table := []\<rparr>))"

definition dnslabel_clear :: "unit drun" where
  "dnslabel_clear = (\<lambda>s. Inr ((), s\<lparr>lab_table := []\<rparr>))"

definition dnslabel_table_add :: "byte list \<Rightarrow> nat \<Rightarrow> int drun" where
  "dnslabel_table_add label p =
     (\<lambda>s. if length (lab_table s) = MAX_LABELS then Inr (- 1, s)
          else bnd dns_alloc (\<lambda>ok. if \<not> ok then ret (- 1)
                 else (\<lambda>s. Inr (0, s\<lparr>lab_table := lab_table s @ [(label, p)]\<rparr>))) s)"

definition st_at :: "nat \<Rightarrow> byte list \<Rightarrow> unit drun" where
  "st_at i bs = (\<lambda>s. if i + length bs \<le> length (obuf s) then Inr ((), s\<lparr>obuf := overwrite (obuf s) i bs\<rparr>) else Inl OutOfBounds)"

definition ld_at :: "nat \<Rightarrow> byte drun" where
  "ld_at i = (\<lambda>s. if i < length (obuf s) then Inr (obuf s ! i, s) else Inl OutOfBounds)"

definition APPEND16 :: "nat \<Rightarrow> nat \<Rightarrow> 16 word \<Rightarrow> nat option drun" where
  "APPEND16 buf_len j x =
     (if j + 2 > buf_len then ret None else bnd (st_at j (be16 x)) (\<lambda>_. ret (Some (j + 2))))"

definition APPEND32 :: "nat \<Rightarrow> nat \<Rightarrow> 32 word \<Rightarrow> nat option drun" where
  "APPEND32 buf_len j x =
     (if j + 4 > buf_len then ret None else bnd (st_at j (be32 x)) (\<lambda>_. ret (Some (j + 4))))"

text \<open>Several \<^verbatim>\<open>APPEND16\<close> in a row.\<close>

fun append16s :: "nat \<Rightarrow> nat \<Rightarrow> 16 word list \<Rightarrow> nat option drun" where
  "append16s buf_len j [] = ret (Some j)"
| "append16s buf_len j (x # xs) = orelse None (APPEND16 buf_len j x) (\<lambda>j. append16s buf_len j xs)"

text \<open>One label: its length and its bytes. The result is the index behind it, or an error.\<close>

definition put_label :: "nat \<Rightarrow> nat \<Rightarrow> byte list \<Rightarrow> byte list \<Rightarrow> bool \<Rightarrow> int drun" where
  "put_label buf_len j start label with_table =
     (if length label > 63 then ret (- 1)
      else if j + length label + 1 > buf_len then ret (- 2)
      else
        bnd (if with_table then dnslabel_table_add start j else ret 0) (\<lambda>_.
        bnd (st_at j [char_of (length label)]) (\<lambda>_.
        bnd (st_at (j + 1) label) (\<lambda>_.
        ret (int (j + 1 + length label))))))"

text \<open>
  The zero at the end, which is there already when the name ended in a dot. The write is not checked against
  the length of the buffer.
\<close>

definition put_end :: "nat \<Rightarrow> int drun" where
  "put_end j =
     bnd (if j = 0 then ret True else bnd (ld_at (j - 1)) (\<lambda>c. ret (c \<noteq> NUL))) (\<lambda>z.
     if z then bnd (st_at j [NUL]) (\<lambda>_. ret (int (j + 1))) else ret (int j))"

function labels_loop :: "nat \<Rightarrow> nat \<Rightarrow> byte list \<Rightarrow> bool \<Rightarrow> int drun" where
  "labels_loop buf_len j name with_table =
     bnd (if with_table then (\<lambda>s. Inr (dnslabel_table_get_pos (lab_table s) name, s)) else ret (- 1)) (\<lambda>ref.
     if ref \<ge> 0 then
       orelse (- 2) (APPEND16 buf_len j (word_of_int ref OR 0xc000)) (\<lambda>j. ret (int j))
     else
       let label = takeWhile (\<lambda>c. c \<noteq> CHR ''.'') name in
       bnd (put_label buf_len j name label with_table) (\<lambda>r.
       if r < 0 then ret r
       else if length label < length name then labels_loop buf_len (nat r) (drop (length label + 1) name) with_table
       else put_end (nat r)))"
  by pat_completeness auto

termination
  by (relation "measure (\<lambda>(buf_len, j, name, with_table). length name)") auto

declare labels_loop.simps [simp del]

text \<open>\<^verbatim>\<open>name_len\<close> is the length of the name.\<close>

definition dnsname_to_labels :: "nat \<Rightarrow> nat \<Rightarrow> byte list \<Rightarrow> bool \<Rightarrow> int drun" where
  "dnsname_to_labels buf_len j name with_table =
     (if length name > 255 then ret (- 2) else labels_loop buf_len j name with_table)"

section \<open>Requests\<close>

definition evdns_request_len :: "nat \<Rightarrow> nat" where
  "evdns_request_len name_len = 96 + name_len + 2 + 4"

definition evdns_request_data_build :: "byte list \<Rightarrow> 16 word \<Rightarrow> 16 word \<Rightarrow> 16 word \<Rightarrow> nat \<Rightarrow> int drun" where
  "evdns_request_data_build name trans_id type cls buf_len =
     orelse (- 1) (append16s buf_len 0 [trans_id, 0x0100, 1, 0, 0, 0]) (\<lambda>j.
     bnd (dnsname_to_labels buf_len j name False) (\<lambda>j.
     if j < 0 then ret j
     else orelse (- 1) (append16s buf_len (nat j) [type, cls]) (\<lambda>j. ret (int j))))"

end
