(* ===== verification/Evdns_Packets.thy ===== *)
theory Evdns_Packets
  imports Evdns
begin

unbundle bit_operations_syntax

text \<open>
  The packets of the resolver and the name server: what the server makes of a request (\<open>request_parse\<close>), how it
  collects and formats its answer, and what the resolver makes of it (\<open>reply_parse\<close>). Circular lists of requests
  are lists that start at the head.
\<close>

section \<open>Constants\<close>

text \<open>\<^verbatim>\<open>HOST_NAME_MAX\<close> has the value that \<^verbatim>\<open>evdns.c\<close> gives it where the system headers do not define it.\<close>

definition MAX_V4_ADDRS :: nat where "MAX_V4_ADDRS = 32"
definition MAX_V6_ADDRS :: nat where "MAX_V6_ADDRS = 32"
definition HOST_NAME_MAX :: nat where "HOST_NAME_MAX = 255"
definition TYPE_A :: "16 word" where "TYPE_A = 1"
definition TYPE_CNAME :: "16 word" where "TYPE_CNAME = 5"
definition TYPE_PTR :: "16 word" where "TYPE_PTR = 12"
definition TYPE_SOA :: "16 word" where "TYPE_SOA = 6"
definition TYPE_AAAA :: "16 word" where "TYPE_AAAA = 28"
definition CLASS_INET :: "16 word" where "CLASS_INET = 1"
definition DNS_ERR_NOTEXIST :: "16 word" where "DNS_ERR_NOTEXIST = 3"
definition EVDNS_FLAGS_AA :: "32 word" where "EVDNS_FLAGS_AA = 0x400"
definition EVDNS_FLAGS_RD :: "32 word" where "EVDNS_FLAGS_RD = 0x080"

fun get16s :: "byte list \<Rightarrow> nat \<Rightarrow> nat \<Rightarrow> nat \<Rightarrow> ('s, (16 word list \<times> nat) option) run" where
  "get16s packet len j 0 = ret (Some ([], j))"
| "get16s packet len j (Suc n) =
     orelse None (GET16 packet len j) (\<lambda>(x, j). orelse None (get16s packet len j n) (\<lambda>(xs, j). ret (Some (x # xs, j))))"

section \<open>The server: a request\<close>

record evdns_server_question =
  q_type :: "16 word"
  q_class :: "16 word"
  q_name :: "byte list"

text \<open>\<open>ri_data\<close> is \<open>None\<close> for \<^verbatim>\<open>NULL\<close>.\<close>

record server_reply_item =
  ri_name :: "byte list"
  ri_type :: "16 word"
  ri_class :: "16 word"
  ri_ttl :: "32 word"
  is_name :: bool
  ri_datalen :: "16 word"
  ri_data :: "byte list option"

record server_request =
  sr_trans_id :: "16 word"
  sr_addr :: "byte list"
  n_answer :: nat
  n_authority :: nat
  n_additional :: nat
  answer :: "server_reply_item list"
  authority :: "server_reply_item list"
  additional :: "server_reply_item list"
  response :: "byte list option"
  sr_flags :: "32 word"
  questions :: "evdns_server_question list"

datatype parse_outcome = Rejected | Not_Implemented server_request | Called_Back server_request

fun questions_loop :: "nat \<Rightarrow> byte list \<Rightarrow> nat \<Rightarrow> nat \<Rightarrow> ('m dns_mem_scheme, evdns_server_question list option) run" where
  "questions_loop 0 packet len j = ret (Some [])"
| "questions_loop (Suc n) packet len j =
     orelse None (name_parse packet len j 256) (\<lambda>(j, tmp_name).
     orelse None (GET16 packet len j) (\<lambda>(type, j).
     orelse None (GET16 packet len j) (\<lambda>(cls, j).
     bnd dns_alloc (\<lambda>ok. if \<not> ok then ret None
     else
       orelse None (questions_loop n packet len j) (\<lambda>qs.
       ret (Some (\<lparr>q_type = type, q_class = cls, q_name = cstr tmp_name\<rparr> # qs)))))))"

text \<open>
  The callback of the port is the outcome \<open>Called_Back\<close>. The test for the operation code comes after the flags
  have been reduced to two other bits.
\<close>

definition request_parse :: "byte list \<Rightarrow> nat \<Rightarrow> byte list \<Rightarrow> (dns_port, parse_outcome) run" where
  "request_parse packet len addr =
     orelse Rejected (get16s packet len 0 6) (\<lambda>(hdr, j).
     let trans_id = hdr ! 0; flags = hdr ! 1; nq = hdr ! 2 in
     if flags AND 0x8000 \<noteq> 0 then ret Rejected
     else
       let flags = flags AND 0x0110 in
       bnd dns_alloc (\<lambda>ok. if \<not> ok then ret Rejected
       else bnd dns_alloc (\<lambda>ok. if \<not> ok then ret Rejected
       else
         orelse Rejected (questions_loop (unat nq) packet len j) (\<lambda>qs.
         let req = \<lparr>sr_trans_id = trans_id, sr_addr = addr, n_answer = 0, n_authority = 0, n_additional = 0,
                    answer = [], authority = [], additional = [], response = None, sr_flags = ucast flags, questions = qs\<rparr> in
         bnd (\<lambda>s. Inr ((), s\<lparr>port_refcnt := port_refcnt s + 1\<rparr>)) (\<lambda>_.
         if flags AND 0x7800 \<noteq> 0 then ret (Not_Implemented req)
         else ret (Called_Back req))))))"

section \<open>The server: an answer\<close>

definition EVDNS_ANSWER_SECTION :: int where "EVDNS_ANSWER_SECTION = 0"
definition EVDNS_AUTHORITY_SECTION :: int where "EVDNS_AUTHORITY_SECTION = 1"
definition EVDNS_ADDITIONAL_SECTION :: int where "EVDNS_ADDITIONAL_SECTION = 2"

text \<open>The list and the counter the \<^verbatim>\<open>switch\<close> selects get the item; no section, no place for it.\<close>

definition add_item :: "int \<Rightarrow> server_request \<Rightarrow> (server_reply_item \<Rightarrow> server_request) option" where
  "add_item section req =
     (if section = EVDNS_ANSWER_SECTION then Some (\<lambda>i. req\<lparr>answer := answer req @ [i], n_answer := n_answer req + 1\<rparr>)
      else if section = EVDNS_AUTHORITY_SECTION then Some (\<lambda>i. req\<lparr>authority := authority req @ [i], n_authority := n_authority req + 1\<rparr>)
      else if section = EVDNS_ADDITIONAL_SECTION then Some (\<lambda>i. req\<lparr>additional := additional req @ [i], n_additional := n_additional req + 1\<rparr>)
      else None)"

text \<open>
  \<open>data\<close> holds \<^verbatim>\<open>datalen\<close> bytes, or a name. The result is 0 or -1 and the request, which an error leaves as
  it was.
\<close>

definition evdns_server_request_add_reply :: "server_request \<Rightarrow> int \<Rightarrow> byte list \<Rightarrow> 16 word \<Rightarrow> 16 word \<Rightarrow> 32 word \<Rightarrow> bool
    \<Rightarrow> byte list option \<Rightarrow> ('m dns_mem_scheme, int \<times> server_request) run" where
  "evdns_server_request_add_reply req section name type cls ttl isname data =
     (if response req \<noteq> None then ret (- 1, req)
      else case add_item section req of None \<Rightarrow> ret (- 1, req)
      | Some add \<Rightarrow>
        bnd dns_alloc (\<lambda>ok. if \<not> ok then ret (- 1, req)
        else bnd dns_alloc (\<lambda>ok. if \<not> ok then ret (- 1, req)
        else
          let item = \<lparr>ri_name = name, ri_type = type, ri_class = cls, ri_ttl = ttl, is_name = isname, ri_datalen = 0, ri_data = None\<rparr> in
          case data of None \<Rightarrow> ret (0, add item)
          | Some d \<Rightarrow>
             bnd dns_alloc (\<lambda>ok. if \<not> ok then ret (- 1, req)
             else ret (0, add (item\<lparr>ri_datalen := if isname then - 1 else word_of_nat (length d), ri_data := Some d\<rparr>))))))"

definition evdns_server_request_add_a_reply :: "server_request \<Rightarrow> byte list \<Rightarrow> byte list \<Rightarrow> 32 word \<Rightarrow> ('m dns_mem_scheme, int \<times> server_request) run" where
  "evdns_server_request_add_a_reply req name addrs ttl =
     evdns_server_request_add_reply req EVDNS_ANSWER_SECTION name TYPE_A CLASS_INET ttl False (Some addrs)"

definition evdns_server_request_add_aaaa_reply :: "server_request \<Rightarrow> byte list \<Rightarrow> byte list \<Rightarrow> 32 word \<Rightarrow> ('m dns_mem_scheme, int \<times> server_request) run" where
  "evdns_server_request_add_aaaa_reply req name addrs ttl =
     evdns_server_request_add_reply req EVDNS_ANSWER_SECTION name TYPE_AAAA CLASS_INET ttl False (Some addrs)"

definition evdns_server_request_add_cname_reply :: "server_request \<Rightarrow> byte list \<Rightarrow> byte list \<Rightarrow> 32 word \<Rightarrow> ('m dns_mem_scheme, int \<times> server_request) run" where
  "evdns_server_request_add_cname_reply req name cname ttl =
     evdns_server_request_add_reply req EVDNS_ANSWER_SECTION name TYPE_CNAME CLASS_INET ttl True (Some cname)"

text \<open>The name of an address in \<^verbatim>\<open>in-addr.arpa\<close>, for an address in host order.\<close>

definition arpa_name :: "32 word \<Rightarrow> byte list" where
  "arpa_name a = dec (unat a mod 256) @ ''.'' @ dec (unat a div 256 mod 256) @ ''.'' @ dec (unat a div 2 ^ 16 mod 256)
     @ ''.'' @ dec (unat a div 2 ^ 24 mod 256) @ ''.in-addr.arpa''"

definition evdns_server_request_add_ptr_reply :: "server_request \<Rightarrow> 32 word option \<Rightarrow> byte list option \<Rightarrow> byte list \<Rightarrow> 32 word
    \<Rightarrow> ('m dns_mem_scheme, int \<times> server_request) run" where
  "evdns_server_request_add_ptr_reply req inp inaddr_name hostname ttl =
     (case (inp, inaddr_name) of
        (Some a, None) \<Rightarrow> evdns_server_request_add_reply req EVDNS_ANSWER_SECTION (arpa_name a) TYPE_PTR CLASS_INET ttl True (Some hostname)
      | (None, Some n) \<Rightarrow> evdns_server_request_add_reply req EVDNS_ANSWER_SECTION n TYPE_PTR CLASS_INET ttl True (Some hostname)
      | _ \<Rightarrow> ret (- 1, req))"

definition evdns_server_request_set_flags :: "server_request \<Rightarrow> 32 word \<Rightarrow> server_request" where
  "evdns_server_request_set_flags req flags =
     req\<lparr>sr_flags := (sr_flags req AND NOT (EVDNS_FLAGS_AA OR EVDNS_FLAGS_RD)) OR flags\<rparr>"

definition server_request_free_answers :: "server_request \<Rightarrow> server_request" where
  "server_request_free_answers req = req\<lparr>answer := [], authority := [], additional := []\<rparr>"

section \<open>The server: the packet\<close>

fun put_questions :: "nat \<Rightarrow> nat \<Rightarrow> evdns_server_question list \<Rightarrow> (int + nat option) drun" where
  "put_questions buf_len j [] = ret (Inr (Some j))"
| "put_questions buf_len j (q # qs) =
     bnd (dnsname_to_labels buf_len j (q_name q) True) (\<lambda>r.
     if r < 0 then ret (Inl r)
     else orelse (Inr None) (append16s buf_len (nat r) [q_type q, q_class q]) (\<lambda>j. put_questions buf_len j qs))"

text \<open>The data of a record that is a name, with its length in front.\<close>

definition put_name_data :: "nat \<Rightarrow> nat \<Rightarrow> byte list option \<Rightarrow> nat option drun" where
  "put_name_data buf_len len_idx data =
     (case data of None \<Rightarrow> stop NullDeref
      | Some d \<Rightarrow>
         bnd (dnsname_to_labels buf_len (len_idx + 2) d True) (\<lambda>r.
         if r < 0 then ret None
         else
           bnd (st_at len_idx (be16 (word_of_nat (nat r - (len_idx + 2))))) (\<lambda>_.
           ret (Some (nat r)))))"

definition put_plain_data :: "nat \<Rightarrow> nat \<Rightarrow> 16 word \<Rightarrow> byte list option \<Rightarrow> nat option drun" where
  "put_plain_data buf_len j datalen data =
     orelse None (APPEND16 buf_len j datalen) (\<lambda>j.
     if j + unat datalen > buf_len then ret None
     else
       bnd (case data of None \<Rightarrow> (if datalen = 0 then ret [] else stop NullDeref) | Some d \<Rightarrow> rd_bytes d 0 (unat datalen)) (\<lambda>d.
       bnd (st_at j d) (\<lambda>_. ret (Some (j + unat datalen)))))"

fun put_items :: "nat \<Rightarrow> nat \<Rightarrow> server_reply_item list \<Rightarrow> nat option drun" where
  "put_items buf_len j [] = ret (Some j)"
| "put_items buf_len j (i # is) =
     bnd (dnsname_to_labels buf_len j (ri_name i) True) (\<lambda>r.
     if r < 0 then ret None
     else
       orelse None (append16s buf_len (nat r) [ri_type i, ri_class i]) (\<lambda>j.
       orelse None (APPEND32 buf_len j (ri_ttl i)) (\<lambda>j.
       orelse None (if is_name i then put_name_data buf_len j (ri_data i)
                    else put_plain_data buf_len j (ri_datalen i) (ri_data i)) (\<lambda>j.
       put_items buf_len j is))))"

text \<open>
  The array on the stack has 1500 bytes. On overflow, and that includes a name that cannot be written, the response is
  the first 512 bytes of the array, whatever part of them was written. The result is the return value and
  the request.
\<close>

definition finish_response :: "server_request \<Rightarrow> nat option \<Rightarrow> (int \<times> server_request) drun" where
  "finish_response req r =
     (let fits = (case r of None \<Rightarrow> False | Some j \<Rightarrow> j \<le> 512);
          n = (case r of None \<Rightarrow> 512 | Some j \<Rightarrow> min j 512) in
      bnd (if fits then ret () else bnd (ld_at 2) (\<lambda>c. st_at 2 [char_of ((of_char c :: nat) OR 0x02)])) (\<lambda>_.
      bnd dns_alloc (\<lambda>ok. bnd dnslabel_clear (\<lambda>_ s.
        if \<not> ok then Inr ((- 1, server_request_free_answers req), s)
        else Inr ((0, server_request_free_answers (req\<lparr>response := Some (take n (obuf s))\<rparr>)), s)))))"

definition evdns_server_request_format_response :: "server_request \<Rightarrow> int \<Rightarrow> (int \<times> server_request) drun" where
  "evdns_server_request_format_response req err =
     (if err < 0 \<or> err > 15 then ret (- 1, req)
      else
        let flags = ucast (sr_flags req) OR (0x8000 OR word_of_int err); buf_len = 1500 in
        bnd dnslabel_table_init (\<lambda>_.
        bnd (append16s buf_len 0 [sr_trans_id req, flags, word_of_nat (length (questions req)),
               word_of_nat (n_answer req), word_of_nat (n_authority req), word_of_nat (n_additional req)]) (\<lambda>r.
        case r of None \<Rightarrow> finish_response req None
        | Some j \<Rightarrow>
           bnd (put_questions buf_len j (questions req)) (\<lambda>r.
           case r of Inl e \<Rightarrow> bnd dnslabel_clear (\<lambda>_. ret (e, req))
           | Inr None \<Rightarrow> finish_response req None
           | Inr (Some j) \<Rightarrow>
              bnd (put_items buf_len j (answer req @ authority req @ additional req)) (\<lambda>r.
              finish_response req r)))))"

end
