(* ===== verification/Evdns_Reply.thy ===== *)
theory Evdns_Reply
  imports Evdns_Packets
begin

unbundle bit_operations_syntax

text \<open>
  The resolver: what \<open>reply_parse\<close> makes of a packet from a name server. \<open>put_cname\<close> is the place for a canonical
  name: \<open>None\<close> when the caller gave none, \<open>Some None\<close> when it is still empty. The call of \<open>reply_handle\<close> is the
  result: the request, the flags, the time to live and the reply, or \<open>None\<close> for \<^verbatim>\<open>NULL\<close>.
\<close>

record dns_request =
  rq_request :: "byte list"
  rq_type :: "8 word"
  rq_trans_id :: "16 word"
  put_cname :: "byte list option option"

record evdns_base =
  req_heads :: "dns_request list list"
  global_randomize_case :: bool

record reply =
  r_type :: "8 word"
  have_answer :: bool
  v4_count :: nat
  v4_data :: "byte list"
  v6_count :: nat
  v6_data :: "byte list"
  ptr_name :: "byte list"

type_synonym handled = "dns_request \<times> 16 word \<times> 32 word \<times> reply option"

text \<open>There is always at least one list of requests.\<close>

definition request_find_from_trans_id :: "evdns_base \<Rightarrow> 16 word \<Rightarrow> dns_request option" where
  "request_find_from_trans_id base trans_id =
     (if req_heads base = [] then None
      else find (\<lambda>r. rq_trans_id r = trans_id) (req_heads base ! (unat trans_id mod length (req_heads base))))"

text \<open>\<^verbatim>\<open>TEST_NAME\<close>: the name in the packet against the name at the same place of the request.\<close>

definition TEST_NAME :: "evdns_base \<Rightarrow> dns_request \<Rightarrow> byte list \<Rightarrow> nat \<Rightarrow> nat \<Rightarrow> ('s, (nat \<times> bool) option) run" where
  "TEST_NAME base req packet len j =
     orelse None (name_parse packet len j 256) (\<lambda>(j', tmp_name).
     orelse None (name_parse (rq_request req) (length (rq_request req)) j 256) (\<lambda>(_, cmp_name).
     ret (Some (j', if global_randomize_case base then cstr tmp_name = cstr cmp_name
                    else evutil_ascii_strcasecmp tmp_name cmp_name = 0))))"

fun test_questions :: "nat \<Rightarrow> evdns_base \<Rightarrow> dns_request \<Rightarrow> byte list \<Rightarrow> nat \<Rightarrow> nat \<Rightarrow> bool \<Rightarrow> ('s, (nat \<times> bool) option) run" where
  "test_questions 0 base req packet len j name_matches = ret (Some (j, name_matches))"
| "test_questions (Suc n) base req packet len j name_matches =
     orelse None (TEST_NAME base req packet len j) (\<lambda>(j, m).
     if j + 4 > len then ret None
     else test_questions n base req packet len (j + 4) (name_matches \<or> m))"

definition SKIP_NAME :: "byte list \<Rightarrow> nat \<Rightarrow> nat \<Rightarrow> ('s, nat option) run" where
  "SKIP_NAME packet len j = orelse None (name_parse packet len j 256) (\<lambda>(j, _). ret (Some j))"

text \<open>The fixed part of a record: type, class, time to live and length of the data.\<close>

definition record_head :: "byte list \<Rightarrow> nat \<Rightarrow> nat \<Rightarrow> ('s, (16 word \<times> 16 word \<times> 32 word \<times> nat \<times> nat) option) run" where
  "record_head packet len j =
     orelse None (SKIP_NAME packet len j) (\<lambda>j.
     orelse None (GET16 packet len j) (\<lambda>(type, j).
     orelse None (GET16 packet len j) (\<lambda>(cls, j).
     orelse None (GET32 packet len j) (\<lambda>(ttl, j).
     orelse None (GET16 packet len j) (\<lambda>(datalength, j).
     ret (Some (type, cls, ttl, unat datalength, j)))))))"

text \<open>
  One answer. The result is whether the loop is left, the index behind the answer, the time to live and the
  reply so far; \<open>None\<close> is \<^verbatim>\<open>goto err\<close>. Addresses are copied as long as there is room for them; \<open>n\<close> is the length of an
  address.
\<close>

definition copy_addrs :: "nat \<Rightarrow> nat \<Rightarrow> nat \<Rightarrow> byte list \<Rightarrow> nat \<Rightarrow> nat \<Rightarrow> nat \<Rightarrow> ('s, (nat \<times> byte list) option) run" where
  "copy_addrs n room have packet len j datalength =
     (if datalength mod n \<noteq> 0 then ret None
      else
        let addrtocopy = min (room - have) (datalength div n) in
        if j + n * addrtocopy > len then ret None
        else bnd (rd_bytes packet j (n * addrtocopy)) (\<lambda>bs. ret (Some (addrtocopy, bs))))"

definition answer_a :: "byte list \<Rightarrow> nat \<Rightarrow> nat \<Rightarrow> nat \<Rightarrow> 32 word \<Rightarrow> reply \<Rightarrow> ('s, (bool \<times> nat \<times> 32 word \<times> reply) option) run" where
  "answer_a packet len j datalength ttl_r rep =
     orelse None (copy_addrs 4 MAX_V4_ADDRS (v4_count rep) packet len j datalength) (\<lambda>(k, bs).
     let rep = rep\<lparr>v4_data := v4_data rep @ bs, v4_count := v4_count rep + k, have_answer := True\<rparr> in
     ret (Some (v4_count rep = MAX_V4_ADDRS, j + 4 * k, ttl_r, rep)))"

definition answer_aaaa :: "byte list \<Rightarrow> nat \<Rightarrow> nat \<Rightarrow> nat \<Rightarrow> 32 word \<Rightarrow> reply \<Rightarrow> ('s, (bool \<times> nat \<times> 32 word \<times> reply) option) run" where
  "answer_aaaa packet len j datalength ttl_r rep =
     orelse None (copy_addrs 16 MAX_V6_ADDRS (v6_count rep) packet len j datalength) (\<lambda>(k, bs).
     let rep = rep\<lparr>v6_data := v6_data rep @ bs, v6_count := v6_count rep + k, have_answer := True\<rparr> in
     ret (Some (v6_count rep = MAX_V6_ADDRS, j + 16 * k, ttl_r, rep)))"

definition answer_ptr :: "byte list \<Rightarrow> nat \<Rightarrow> nat \<Rightarrow> 32 word \<Rightarrow> reply \<Rightarrow> ('s, (bool \<times> nat \<times> 32 word \<times> reply) option) run" where
  "answer_ptr packet len j ttl_r rep =
     orelse None (name_parse packet len j HOST_NAME_MAX) (\<lambda>(j, name).
     ret (Some (True, j, ttl_r, rep\<lparr>ptr_name := name, have_answer := True\<rparr>)))"

text \<open>The place for the canonical name is filled, also with \<^verbatim>\<open>NULL\<close> when the copy cannot be allocated.\<close>

definition answer_cname :: "dns_request \<Rightarrow> byte list \<Rightarrow> nat \<Rightarrow> nat \<Rightarrow> ('m dns_mem_scheme, (dns_request \<times> nat) option) run" where
  "answer_cname req packet len j =
     orelse None (name_parse packet len j HOST_NAME_MAX) (\<lambda>(j, cname).
     bnd dns_alloc (\<lambda>ok. ret (Some (req\<lparr>put_cname := Some (if ok then Some (cstr cname) else None)\<rparr>, j))))"

definition answer_step :: "dns_request \<Rightarrow> byte list \<Rightarrow> nat \<Rightarrow> nat \<Rightarrow> 32 word \<Rightarrow> reply
    \<Rightarrow> ('m dns_mem_scheme, (dns_request \<times> bool \<times> nat \<times> 32 word \<times> reply) option) run" where
  "answer_step req packet len j ttl_r rep =
     orelse None (record_head packet len j) (\<lambda>(type, cls, ttl, datalength, j).
     let skip = ret (Some (req, False, j + datalength, ttl_r, rep)) in
     if type = TYPE_A \<and> cls = CLASS_INET then
       (if ucast (rq_type req) \<noteq> TYPE_A then skip
        else orelse None (answer_a packet len j datalength (min ttl_r ttl) rep) (\<lambda>x. ret (Some (req, x))))
     else if type = TYPE_PTR \<and> cls = CLASS_INET then
       (if ucast (rq_type req) \<noteq> TYPE_PTR then skip
        else orelse None (answer_ptr packet len j (min ttl_r ttl) rep) (\<lambda>x. ret (Some (req, x))))
     else if type = TYPE_CNAME then
       (if put_cname req \<noteq> Some None then skip
        else orelse None (answer_cname req packet len j) (\<lambda>(req, j). ret (Some (req, False, j, ttl_r, rep))))
     else if type = TYPE_AAAA \<and> cls = CLASS_INET then
       (if ucast (rq_type req) \<noteq> TYPE_AAAA then skip
        else orelse None (answer_aaaa packet len j datalength (min ttl_r ttl) rep) (\<lambda>x. ret (Some (req, x))))
     else skip)"

text \<open>The request comes back also after an error: a canonical name that was found stays in its place.\<close>

fun answers_loop :: "nat \<Rightarrow> dns_request \<Rightarrow> byte list \<Rightarrow> nat \<Rightarrow> nat \<Rightarrow> 32 word \<Rightarrow> reply
    \<Rightarrow> ('m dns_mem_scheme, dns_request \<times> (nat \<times> 32 word \<times> reply) option) run" where
  "answers_loop 0 req packet len j ttl_r rep = ret (req, Some (j, ttl_r, rep))"
| "answers_loop (Suc n) req packet len j ttl_r rep =
     orelse (req, None) (answer_step req packet len j ttl_r rep) (\<lambda>(req, left, j, ttl_r, rep).
     if left then ret (req, Some (j, ttl_r, rep)) else answers_loop n req packet len j ttl_r rep)"

fun authority_loop :: "nat \<Rightarrow> byte list \<Rightarrow> nat \<Rightarrow> nat \<Rightarrow> 32 word \<Rightarrow> ('s, 32 word option) run" where
  "authority_loop 0 packet len j ttl_r = ret (Some ttl_r)"
| "authority_loop (Suc n) packet len j ttl_r =
     orelse None (record_head packet len j) (\<lambda>(type, cls, ttl, datalength, j).
     if type = TYPE_SOA \<and> cls = CLASS_INET then
       orelse None (SKIP_NAME packet len j) (\<lambda>j.
       orelse None (SKIP_NAME packet len j) (\<lambda>j.
       orelse None (GET32 packet len j) (\<lambda>(serial, j).
       orelse None (GET32 packet len j) (\<lambda>(refresh, j).
       orelse None (GET32 packet len j) (\<lambda>(retry, j).
       orelse None (GET32 packet len j) (\<lambda>(expire, j).
       orelse None (GET32 packet len j) (\<lambda>(minimum, j).
       authority_loop n packet len j (min (min ttl_r ttl) minimum))))))))
     else authority_loop n packet len (j + datalength) ttl_r)"

definition no_reply :: "dns_request \<Rightarrow> reply" where
  "no_reply req = \<lparr>r_type = rq_type req, have_answer = False, v4_count = 0, v4_data = [], v6_count = 0, v6_data = [], ptr_name = []\<rparr>"

definition reply_parse :: "evdns_base \<Rightarrow> byte list \<Rightarrow> nat \<Rightarrow> ('m dns_mem_scheme, int \<times> handled option) run" where
  "reply_parse base packet len =
     orelse (- 1, None) (get16s packet len 0 6) (\<lambda>(hdr, j).
     let trans_id = hdr ! 0; flags = hdr ! 1; nq = unat (hdr ! 2); na = unat (hdr ! 3); nauth = unat (hdr ! 4) in
     case request_find_from_trans_id base trans_id of None \<Rightarrow> ret (- 1, None)
     | Some req \<Rightarrow>
        let err = (- 1, Some (req, flags, 0, None)) in
        if flags AND 0x8000 = 0 then ret (- 1, None)
        else if flags AND 0x020f \<noteq> 0 \<and> flags AND 0x020f \<noteq> DNS_ERR_NOTEXIST then ret err
        else
          orelse err (test_questions nq base req packet len j False) (\<lambda>(j, name_matches).
          if \<not> name_matches then ret err
          else
            bnd (answers_loop na req packet len j 0xffffffff (no_reply req)) (\<lambda>(req, r).
            let err = (- 1, Some (req, flags, 0, None)) in
            case r of None \<Rightarrow> ret err
            | Some (j, ttl_r, rep) \<Rightarrow>
               orelse err (if \<not> have_answer rep then authority_loop nauth packet len j ttl_r else ret (Some ttl_r)) (\<lambda>ttl_r.
               let ttl_r = (if ttl_r = 0xffffffff then 0 else ttl_r) in
               ret (0, Some (req, flags, ttl_r, Some rep))))))"

end
