(* ===== verification/Evdns_Facts.thy ===== *)
theory Evdns_Facts
  imports Evdns_Reply
begin

unbundle bit_operations_syntax

text \<open>
  Names on the wire. \<open>name_at p j b k ls e\<close> says that at index \<open>j\<close> of the packet \<open>p\<close> there is a name with the labels
  \<open>ls\<close> that ends in front of \<open>e\<close> and is read with \<open>k\<close> jumps, each to an index below the start of the part that is
  being read, the first below \<open>b\<close>. What is written satisfies it and what satisfies it is read back.
\<close>

section \<open>Running\<close>

lemma orelse_Some [run_simps]: "f s = Inr (Some x, s') \<Longrightarrow> orelse e f g s = g x s'"
  by (simp add: orelse_def bnd_def)

lemma orelse_None [run_simps]: "f s = Inr (None, s') \<Longrightarrow> orelse e f g s = Inr (e, s')"
  by (simp add: orelse_def bnd_def)

lemma orelse_Inl [run_simps]: "f s = Inl x \<Longrightarrow> orelse e f g s = Inl x"
  by (simp add: orelse_def bnd_def)

lemma orelse_ret [simp]: "orelse e (ret None) g = ret e" "orelse e (ret (Some x)) g = g x"
  by (simp_all add: orelse_def ret_def bnd_def)

lemma rd_run: "rd p j s = (if j < length p then Inr (p ! j, s) else Inl OutOfBounds)"
  by (simp add: rd_def)

lemma packet_bytes_run: "rd_bytes p j n s = (if j + n \<le> length p then Inr (take n (drop j p), s) else Inl OutOfBounds)"
  by (simp add: rd_bytes_def)

lemma GET8_run: "len \<le> length p \<Longrightarrow> GET8 p len j s = (if j < len then Inr (Some (of_char (p ! j), j + 1), s) else Inr (None, s))"
  by (simp add: GET8_def bnd_def rd_run)

section \<open>Bytes\<close>

lemma of_char_char_of_nat [simp]: "(of_char (char_of n :: char) :: nat) = n mod 256"
  by (simp add: of_char_of)

lemma mask_low_bits: "x AND 3 = x mod 4" "x AND 0x3f = x mod (64 :: nat)"
  using take_bit_eq_mask [of 2 x] take_bit_eq_mask [of 6 x] by (simp_all add: take_bit_eq_mod mask_eq_exp_minus_1)

lemma mask_high: "n < 256 \<Longrightarrow> n AND 0xc0 = (0 :: nat) \<longleftrightarrow> n < 64"
proof -
  assume n: "n < 256"
  have "n AND push_bit 6 y = push_bit 6 (drop_bit 6 n AND y)" for y by (rule bit_eqI) (auto simp: bit_simps)
  from this [of 3] have "n AND 0xc0 = 64 * (n div 64 mod 4)" by (simp add: push_bit_eq_mult drop_bit_eq_div mask_low_bits)
  moreover have "n div 64 < 4" using n by (simp add: less_mult_imp_div_less)
  ultimately show ?thesis by auto
qed

lemma mask_low: "n < 64 \<Longrightarrow> (192 + n) AND 0x3f = (n :: nat)"
  unfolding mask_low_bits using mod_mult_self2 [of n 64 3] by (simp add: add.commute)

lemma length_be [simp]: "length (be16 x) = 2" "length (be32 y) = 4"
  by (simp_all add: be16_def be32_def)

lemma unat_16: "unat (x :: 16 word) < 65536" and unat_32: "unat (y :: 32 word) < 4294967296"
  using unsigned_less [of x, where ?'a = nat] unsigned_less [of y, where ?'a = nat] by simp_all

lemma be_val_be16 [simp]: "be_val (be16 x) = unat x"
  using unat_16 [of x] by (simp add: be16_def)

lemma be_val_be32 [simp]: "be_val (be32 x) = unat x"
proof -
  let ?n = "unat x"
  have "?n div 256 = ?n div 65536 * 256 + ?n div 256 mod 256" "?n div 65536 = ?n div 16777216 * 256 + ?n div 65536 mod 256"
    using div_mult_mod_eq [of "?n div 256" 256] div_mult_mod_eq [of "?n div 65536" 256] by (simp_all flip: div_mult2_eq)
  moreover have "?n = ?n div 256 * 256 + ?n mod 256" by simp
  moreover have "be_val (be32 x) = ?n div 16777216 mod 256 * 16777216 + ?n div 65536 mod 256 * 65536 + ?n div 256 mod 256 * 256 + ?n mod 256"
    by (simp add: be32_def)
  moreover have "?n div 16777216 mod 256 = ?n div 16777216" using unat_32 [of x] by (simp add: less_mult_imp_div_less)
  ultimately show ?thesis by linarith
qed

section \<open>Names\<close>

fun dotted :: "byte list list \<Rightarrow> byte list" where
  "dotted [] = []"
| "dotted [l] = l"
| "dotted (l # m # ls) = l @ CHR ''.'' # dotted (m # ls)"

text \<open>What \<open>name_parse\<close> writes behind \<open>out\<close>.\<close>

fun joined :: "byte list \<Rightarrow> byte list list \<Rightarrow> byte list" where
  "joined out [] = out"
| "joined out (l # ls) = joined ((if out \<noteq> [] then out @ ''.'' else out) @ l) ls"

definition good_label :: "byte list \<Rightarrow> bool" where
  "good_label l \<longleftrightarrow> l \<noteq> [] \<and> length l \<le> 63 \<and> CHR ''.'' \<notin> set l \<and> NUL \<notin> set l"

lemma joined_dotted: "\<forall>l\<in>set ls. l \<noteq> [] \<Longrightarrow> out \<noteq> [] \<Longrightarrow> ls \<noteq> [] \<Longrightarrow> joined out ls = out @ CHR ''.'' # dotted ls"
proof (induction ls arbitrary: out rule: dotted.induct)
  case (3 l m ls)
  have "joined out (l # m # ls) = joined (out @ ''.'' @ l) (m # ls)" using 3(3) by simp
  then show ?case using 3(1) [of "out @ ''.'' @ l"] 3(2) by simp
qed simp_all

lemma joined_Nil: "\<forall>l\<in>set ls. l \<noteq> [] \<Longrightarrow> joined [] ls = dotted ls"
proof (cases ls rule: dotted.cases)
  case (3 l m ms)
  assume "\<forall>l\<in>set ls. l \<noteq> []"
  then show ?thesis using joined_dotted [of "m # ms" l] 3 by simp
qed simp_all

lemma joined_length: "\<forall>l\<in>set ls. l \<noteq> [] \<Longrightarrow> length out + length ls \<le> length (joined out ls)"
proof (induction ls arbitrary: out)
  case (Cons l ls)
  let ?o = "(if out \<noteq> [] then out @ ''.'' else out) @ l"
  have "length out + 1 \<le> length ?o" using Cons.prems by (cases l) auto
  moreover have "length ?o + length ls \<le> length (joined ?o ls)" using Cons.IH [of ?o] Cons.prems by simp
  ultimately show ?case by simp
qed simp

inductive name_at :: "byte list \<Rightarrow> nat \<Rightarrow> nat \<Rightarrow> nat \<Rightarrow> byte list list \<Rightarrow> nat \<Rightarrow> bool" for p where
  name_end: "j < length p \<Longrightarrow> p ! j = NUL \<Longrightarrow> name_at p j b 0 [] (Suc j)"
| name_label: "j < length p \<Longrightarrow> p ! j = char_of (length l) \<Longrightarrow> l \<noteq> [] \<Longrightarrow> length l \<le> 63 \<Longrightarrow> take (length l) (drop (Suc j) p) = l
     \<Longrightarrow> name_at p (Suc j + length l) b k ls e \<Longrightarrow> name_at p j b k (l # ls) e"
| name_ptr: "Suc j < length p \<Longrightarrow> p ! j = char_of (192 + t div 256) \<Longrightarrow> p ! Suc j = char_of t \<Longrightarrow> t < 16384 \<Longrightarrow> t < b
     \<Longrightarrow> t < length p \<Longrightarrow> name_at p t t k ls e \<Longrightarrow> name_at p j b (Suc k) ls (Suc (Suc j))"

lemma name_at_labels: "name_at p j b k ls e \<Longrightarrow> \<forall>l\<in>set ls. l \<noteq> []"
  by (induction rule: name_at.induct) auto

lemma name_at_jumps: "name_at p j b k ls e \<Longrightarrow> k \<le> b"
  by (induction rule: name_at.induct) auto

lemma name_at_mono: "name_at p j b k ls e \<Longrightarrow> b \<le> b' \<Longrightarrow> name_at p j b' k ls e"
  by (induction rule: name_at.induct) (auto intro: name_at.intros less_le_trans)

lemma name_at_append: "name_at p j b k ls e \<Longrightarrow> name_at (p @ q) j b k ls e"
proof (induction rule: name_at.induct)
  case (name_label j l b k ls e)
  have "length (take (length l) (drop (Suc j) p)) = length l" using name_label(5) by simp
  then have "Suc j + length l \<le> length p" using name_label(1) by simp
  then show ?case using name_label by (intro name_at.name_label) (auto simp: nth_append)
next
  case (name_ptr j t b k ls e)
  then show ?case by (intro name_at.name_ptr [of _ _ t]) (auto simp: nth_append)
qed (auto intro: name_at.intros simp: nth_append)

lemma name_at_bounds: "name_at p j b k ls e \<Longrightarrow> j < e \<and> e \<le> length p"
  by (induction rule: name_at.induct) auto

section \<open>Reading what is there\<close>

lemma parse_at:
  assumes "name_at (take len packet) j b k ls e" "len \<le> length packet" "pc + k \<le> len" "length (joined out ls) < cap" "length ls + k < f"
  shows "name_parse_loop f packet len cap j ne pc out s = Inr (Some (case ne of None \<Rightarrow> e | Some x \<Rightarrow> x, joined out ls), s)"
  using assms
proof (induction arbitrary: f ne pc out rule: name_at.induct)
  case (name_end j b)
  then show ?case by (cases f) (auto simp: GET8_run run_simps)
next
  case (name_label j l b k ls e)
  obtain g where f: "f = Suc g" using name_label.prems(4) by (cases f) auto
  have len: "length (take (length l) (drop (Suc j) (take len packet))) = length l" using name_label.hyps(5) by simp
  have at: "j < len" "Suc j + length l \<le> len" "packet ! j = char_of (length l)" using name_label.hyps(1,2) len name_label.prems(1) by auto
  have l: "take (length l) (drop (Suc j) packet) = l" using name_label.hyps(5) at(2) le_diff_conv2 [of "Suc j" len "length l"] by (simp add: drop_take min_absorb1)
  have lab: "0 < length l" "length l \<le> 63" "length l mod 256 = length l" "length l AND 0xc0 = 0" using name_label.hyps(3,4) mask_high [of "length l"] by auto
  let ?o = "if out \<noteq> [] then out @ ''.'' else out"
  have room: "length ?o + length l < cap" "\<not> (out \<noteq> [] \<and> cap \<le> length out + 1)"
    using name_label.prems(3) joined_length [OF name_at_labels [OF name_label.hyps(6)], of "?o @ l"] lab(1) by (auto split: if_splits)
  have IH: "name_parse_loop g packet len cap (Suc j + length l) ne pc (?o @ l) s = Inr (Some (case ne of None \<Rightarrow> e | Some x \<Rightarrow> x, joined (?o @ l) ls), s)"
    by (rule name_label.IH) (use name_label.prems f in auto)
  show ?case using at lab room IH l name_label.prems(1) unfolding f by (simp add: GET8_run packet_bytes_run run_simps Let_def)
next
  case (name_ptr j t b k ls e)
  obtain g where f: "f = Suc g" using name_ptr.prems(4) by (cases f) auto
  have at: "Suc j < len" "packet ! j = char_of (192 + t div 256)" "packet ! Suc j = char_of t" "t < len"
    using name_ptr.hyps(1-3,6) name_ptr.prems(1) by auto
  have t: "t div 256 < 64" using name_ptr.hyps(4) by (simp add: less_mult_imp_div_less)
  have hi: "(192 + t div 256) mod 256 = 192 + t div 256" "(192 + t div 256) AND 0xc0 \<noteq> 0" "(192 + t div 256) AND 0x3f = t div 256"
    using t mask_high [of "192 + t div 256"] mask_low [OF t] by auto
  have IH: "name_parse_loop g packet len cap t ne' (pc + 1) out s = Inr (Some (case ne' of None \<Rightarrow> e | Some x \<Rightarrow> x, joined out ls), s)" for ne'
    by (rule name_ptr.IH) (use name_ptr.prems f in auto)
  show ?case using at t hi IH name_ptr.prems(1,2) unfolding f by (simp add: GET8_run run_simps Let_def split: option.split)
qed

lemma name_parse_at:
  assumes "name_at (take len packet) j b k ls e" "len \<le> length packet" "length (dotted ls) < cap" "b \<le> len"
  shows "name_parse packet len j cap s = Inr (Some (e, dotted ls), s)"
proof -
  have ls: "\<forall>l\<in>set ls. l \<noteq> []" by (rule name_at_labels [OF assms(1)])
  have "length ls < cap" using joined_length [OF ls, of "[]"] joined_Nil [OF ls] assms(3) by simp
  moreover have "k \<le> len" using name_at_jumps [OF assms(1)] assms(4) by simp
  ultimately show ?thesis unfolding name_parse_def
    using parse_at [OF assms(1,2), of 0 "[]" cap "len + cap + 1" None s] joined_Nil [OF ls] assms(3) by simp
qed

end
