(* ===== verification/Evdns_Names.thy ===== *)
theory Evdns_Names
  imports Evdns_Facts
begin

unbundle bit_operations_syntax

text \<open>
  Writing names, with and without compression. The table is in order when every entry is the index of a
  name that is read as the entry says; writing a name out_kept it so, and the name is read back.
\<close>

section \<open>Single steps\<close>

lemma pointer_word:
  assumes "p < 16384"
  shows "be16 (word_of_nat p OR 0xc000) = [char_of (192 + p div 256), char_of p]"
proof -
  let ?x = "word_of_nat p :: 16 word"
  have "take_bit 14 p = p" using assms by (simp add: take_bit_nat_eq_self)
  then have "?x = take_bit 14 ?x" by (simp add: take_bit_of_nat)
  moreover have "take_bit 14 x AND push_bit 14 y = 0" for x y :: "16 word" by (rule bit_eqI) (auto simp: bit_simps)
  ultimately have "?x AND push_bit 14 3 = 0" by metis
  then have "?x AND 0xc000 = 0" by (simp add: push_bit_eq_mult)
  then have "?x OR 0xc000 = ?x + 0xc000" by (simp add: disjunctive_add_eq_or)
  moreover have "unat (?x + 0xc000) = p + 49152" using assms by (simp add: unat_word_ariths unsigned_of_nat take_bit_eq_mod)
  moreover have "(p + 49152) div 256 = 192 + p div 256" "(p + 49152) mod 256 = p mod 256" 
    using div_mult_self1 [of 256 p 192] mod_mult_self1 [of p 192 256] by simp_all
  ultimately show ?thesis by (simp add: be16_def)
qed

lemma st_at_run [run_simps]: "st_at i bs s = (if i + length bs \<le> length (obuf s) then Inr ((), s\<lparr>obuf := overwrite (obuf s) i bs\<rparr>) else Inl OutOfBounds)"
  by (simp add: st_at_def)

lemma take_overwrite_end: "i + length bs \<le> length xs \<Longrightarrow> take (i + length bs) (overwrite xs i bs) = take i xs @ bs"
  by (simp add: overwrite_def)

lemma drop_overwrite: "i + length bs \<le> length xs \<Longrightarrow> i + length bs \<le> k \<Longrightarrow> drop k (overwrite xs i bs) = drop k xs"
  by (simp add: overwrite_def)

lemma table_add_run: "\<exists>r s' X. dnslabel_table_add v p s = Inr (r, s') \<and> lab_table s' = lab_table s @ X \<and> (X = [] \<or> X = [(v, p)])
    \<and> obuf s' = obuf s \<and> d_oom s' = d_oom s"
  by (auto simp: dnslabel_table_add_def dns_alloc_def bnd_def ret_def)

lemma get_pos: "dnslabel_table_get_pos T v = - 1 \<or> (\<exists>p. dnslabel_table_get_pos T v = int p \<and> (v, p) \<in> set T)"
proof (induction T)
  case (Cons x T)
  then show ?case by (cases x; cases "v = fst x") auto
qed simp

text \<open>
  \<open>wrote s j bs s'\<close>: the bytes \<open>bs\<close> were written at \<open>j\<close>, behind them nothing changed, and what came before is the
  same.
\<close>

definition wrote :: "dns_out \<Rightarrow> nat \<Rightarrow> byte list \<Rightarrow> dns_out \<Rightarrow> bool" where
  "wrote s j bs s' \<longleftrightarrow> j + length bs \<le> length (obuf s) \<and> obuf s' = overwrite (obuf s) j bs \<and> d_oom s' = d_oom s"

lemma wrote_take: "wrote s j bs s' \<Longrightarrow> take (j + length bs) (obuf s') = take j (obuf s) @ bs" "wrote s j bs s' \<Longrightarrow> length (obuf s') = length (obuf s)"
  by (simp_all add: wrote_def take_overwrite_end)

lemma overwrite_overwrite:
  "i + length bs + length cs \<le> length xs \<Longrightarrow> overwrite (overwrite xs i bs) (i + length bs) cs = overwrite xs i (bs @ cs)"
  by (simp add: overwrite_def ac_simps)

lemma wrote_trans:
  assumes "wrote s j bs s1" "wrote s1 (j + length bs) cs s2"
  shows "wrote s j (bs @ cs) s2"
  using assms overwrite_overwrite [of j bs cs "obuf s"] by (auto simp: wrote_def)

lemma put_label_run:
  assumes "length l \<le> 63" "j + length l + 1 \<le> bl" "bl \<le> length (obuf s)"
  shows "\<exists>s' X. put_label bl j v l tb s = Inr (int (j + 1 + length l), s') \<and> wrote s j (char_of (length l) # l) s'
    \<and> lab_table s' = lab_table s @ X \<and> (X = [] \<or> X = [(v, j)] \<and> tb)"
proof -
  let ?add = "if tb then dnslabel_table_add v j else ret 0"
  obtain r s1 X where a: "?add s = Inr (r, s1)" "lab_table s1 = lab_table s @ X" "X = [] \<or> X = [(v, j)] \<and> tb" "obuf s1 = obuf s" "d_oom s1 = d_oom s"
    using table_add_run [of v j s] by (cases tb) fastforce+
  let ?s2 = "s1\<lparr>obuf := overwrite (overwrite (obuf s) j [char_of (length l)]) (j + 1) l\<rparr>"
  have "put_label bl j v l tb s = Inr (int (j + 1 + length l), ?s2)"
    using assms a(1,4) by (simp add: put_label_def bnd_Inr [of ?add, OF a(1)] st_at_run bnd_def)
  moreover have "wrote s j (char_of (length l) # l) ?s2"
    using assms a(4,5) overwrite_overwrite [of j "[char_of (length l)]" l "obuf s"] by (simp add: wrote_def)
  ultimately show ?thesis using a(2,3) by (intro exI [of _ ?s2] exI [of _ X]) simp
qed

lemma put_end_run:
  assumes "0 < j" "j < length (obuf s)" "obuf s ! (j - 1) \<noteq> NUL"
  shows "\<exists>s'. put_end j s = Inr (int (j + 1), s') \<and> wrote s j [NUL] s' \<and> lab_table s' = lab_table s"
  using assms by (simp add: put_end_def ld_at_def bnd_def st_at_run wrote_def)

section \<open>Names with compression\<close>

definition entry_ok :: "byte list \<Rightarrow> nat \<Rightarrow> byte list \<times> nat \<Rightarrow> bool" where
  "entry_ok p b x \<longleftrightarrow> snd x < 16384 \<and> (\<exists>k ls e. name_at p (snd x) b k ls e \<and> fst x = dotted ls \<and> (\<forall>l\<in>set ls. good_label l))"

definition tab_ok :: "byte list \<Rightarrow> (byte list \<times> nat) list \<Rightarrow> bool" where
  "tab_ok p T \<longleftrightarrow> (\<forall>x\<in>set T. entry_ok p (snd x) x)"

lemma dotted_split:
  assumes "good_label l"
  shows "takeWhile (\<lambda>c. c \<noteq> CHR ''.'') (dotted (l # ls)) = l" "length l < length (dotted (l # ls)) \<longleftrightarrow> ls \<noteq> []"
    "drop (length l + 1) (dotted (l # ls)) = dotted ls"
  using assms by (cases ls; auto simp: good_label_def takeWhile_append intro: takeWhile_cong)+

lemma length_dotted: "length (dotted (l # ls)) = length l + (if ls = [] then 0 else Suc (length (dotted ls)))"
  by (cases ls) simp_all

lemma dotted_Cons_ne: "good_label l \<Longrightarrow> dotted (l # ls) \<noteq> []"
  by (cases ls) (auto simp: good_label_def)

lemma dotted_inj:
  assumes "\<forall>l\<in>set ls. good_label l" "\<forall>l\<in>set ms. good_label l" "dotted ls = dotted ms"
  shows "ls = ms"
  using assms
proof (induction ls arbitrary: ms)
  case Nil
  then show ?case using dotted_Cons_ne [of "hd ms" "tl ms"] by (cases ms) auto
next
  case (Cons l ls)
  obtain m ms' where ms: "ms = m # ms'" using Cons.prems dotted_Cons_ne [of l ls] by (cases ms) auto
  have g: "good_label l" "good_label m" using Cons.prems(1,2) ms by simp_all
  have "l = m" "dotted ls = dotted ms'" using dotted_split(1,3) [OF g(1), of ls] dotted_split(1,3) [OF g(2), of ms'] Cons.prems(3) ms by metis+
  then show ?case using Cons.IH [of ms'] Cons.prems(1,2) ms by simp
qed

lemma entry_ok_append: "entry_ok p b x \<Longrightarrow> entry_ok (p @ q) b x"
  unfolding entry_ok_def using name_at_append by blast

text \<open>
  A name is written at \<open>j\<close>. The entries of the table are in order, except that those of the longer suffixes of the
  same name are in it already; afterwards the name is there and the new entries are in order.
\<close>

definition writes_name :: "nat \<Rightarrow> nat \<Rightarrow> byte list list \<Rightarrow> bool \<Rightarrow> dns_out \<Rightarrow> fault + int \<times> dns_out \<Rightarrow> bool" where
  "writes_name j b ls tb s r \<longleftrightarrow> (\<exists>s' enc k X. r = Inr (int (j + length enc), s') \<and> wrote s j enc s' \<and> lab_table s' = lab_table s @ X
     \<and> length enc \<le> length (dotted ls) + 2 \<and> name_at (take j (obuf s) @ enc) j b k ls (j + length enc)
     \<and> (\<forall>x\<in>set X. j \<le> snd x \<and> entry_ok (take j (obuf s) @ enc) b x) \<and> (\<not> tb \<longrightarrow> X = [] \<and> k = 0))"

lemma labels_loop_run:
  assumes "ls \<noteq> []" "\<forall>l\<in>set ls. good_label l" "j + length (dotted ls) + 2 \<le> bl" "bl \<le> length (obuf s)" "bl \<le> 16384" "b \<le> j" "0 < b"
    "tb \<Longrightarrow> \<forall>x\<in>set (lab_table s). length (dotted ls) < length (fst x) \<or> snd x < b \<and> entry_ok (take j (obuf s)) (snd x) x"
  shows "writes_name j b ls tb s (labels_loop bl j (dotted ls) tb s)"
  using assms
proof (induction ls arbitrary: j s)
  case (Cons l ls)
  note good = Cons.prems(2)
  let ?n = "dotted (l # ls)" and ?p = "take j (obuf s)"
  have l: "good_label l" using good by simp
  note sp = dotted_split [OF l, of ls]
  let ?ref = "if tb then dnslabel_table_get_pos (lab_table s) ?n else - 1"
  have step: "labels_loop bl j ?n tb s = (if ?ref \<ge> 0 then orelse (- 2) (APPEND16 bl j (word_of_int ?ref OR 0xc000)) (\<lambda>j. ret (int j)) s
      else bnd (put_label bl j ?n l tb) (\<lambda>r. if r < 0 then ret r
           else if ls \<noteq> [] then labels_loop bl (nat r) (dotted ls) tb else put_end (nat r)) s)"
    by (subst labels_loop.simps) (simp only: sp Let_def, simp add: bnd_def)
  consider (ptr) p where "tb" "?ref = int p" "(?n, p) \<in> set (lab_table s)" | (new) "?ref = - 1"
    using get_pos [of "lab_table s" ?n] by (cases tb) auto
  then show ?case
  proof cases
    case ptr
    have p: "p < b" "entry_ok ?p p (?n, p)" using Cons.prems(8) [OF ptr(1)] ptr(3) by fastforce+
    then obtain k ms e where ms: "p < 16384" "name_at ?p p p k ms e" "?n = dotted ms" "\<forall>l\<in>set ms. good_label l" by (auto simp: entry_ok_def)
    have eq: "ms = l # ls" using dotted_inj [OF good ms(4,3)] by simp
    let ?enc = "[char_of (192 + p div 256), char_of p]" and ?s = "s\<lparr>obuf := overwrite (obuf s) j [char_of (192 + p div 256), char_of p]\<rparr>"
    have room: "j + 2 \<le> bl" "j + 2 \<le> length (obuf s)" using Cons.prems(3,4) by simp_all
    have "labels_loop bl j ?n tb s = Inr (int (j + 2), ?s)"
      using step ptr(2) room by (simp add: APPEND16_def pointer_word [OF ms(1)] orelse_def bnd_def st_at_run)
    moreover have "wrote s j ?enc ?s" using room by (simp add: wrote_def)
    moreover have "name_at (?p @ ?enc) j b (Suc k) (l # ls) (Suc (Suc j))"
      by (rule name_ptr [where t = p and e = e]) (use room p(1) ms(1) Cons.prems(6) name_at_append [OF ms(2)] eq in \<open>simp_all add: nth_append\<close>)
    ultimately show ?thesis unfolding writes_name_def using ptr(1)
      by - (rule exI [of _ ?s], rule exI [of _ ?enc], rule exI [of _ "Suc k"], rule exI [of _ "[]"], auto)
  next
    case new
    obtain s1 X where s1: "put_label bl j ?n l tb s = Inr (int (j + 1 + length l), s1)" "wrote s j (char_of (length l) # l) s1"
      "lab_table s1 = lab_table s @ X" "X = [] \<or> X = [(?n, j)] \<and> tb"
      using put_label_run [of l j bl s ?n tb] l Cons.prems(3,4) length_dotted [of l ls] by (auto simp: good_label_def)
    let ?lab = "char_of (length l) # l" and ?q = "take j (obuf s) @ char_of (length l) # l" and ?i = "j + 1 + length l"
    have q: "take ?i (obuf s1) = ?q" "length (obuf s1) = length (obuf s)" using wrote_take [OF s1(2)] by simp_all
    have jl: "length ?p = j" "Suc j + length l \<le> length (obuf s)" using Cons.prems(3,4) length_dotted [of l ls] by (auto split: if_splits)
    have head: "name_at (?q @ enc) j b k (l # ls) e" if "name_at (?q @ enc) ?i b k ls e" for enc k e
      by (rule name_label) (use jl l that in \<open>auto simp: good_label_def nth_append\<close>)
    have run: "labels_loop bl j ?n tb s = (if ls \<noteq> [] then labels_loop bl ?i (dotted ls) tb s1 else put_end ?i s1)"
      unfolding step bnd_Inr [of "put_label bl j ?n l tb", OF s1(1)] using new by (simp del: of_nat_add of_nat_Suc)
    have "\<exists>s2 enc k X2. labels_loop bl j ?n tb s = Inr (int (?i + length enc), s2) \<and> wrote s1 ?i enc s2 \<and> lab_table s2 = lab_table s1 @ X2
      \<and> length enc \<le> length ?n + 2 - (1 + length l) \<and> name_at (?q @ enc) ?i b k ls (?i + length enc)
      \<and> (\<forall>x\<in>set X2. ?i \<le> snd x \<and> entry_ok (?q @ enc) b x) \<and> (\<not> tb \<longrightarrow> X2 = [] \<and> k = 0)"
    proof (cases "ls = []")
      case True
      have "?q ! (j + length l) = last l" using jl l by (auto simp: nth_append last_conv_nth good_label_def nth_Cons')
      moreover have "obuf s1 ! (j + length l) = ?q ! (j + length l)" using q(1) by (metis add.commute lessI nth_take plus_1_eq_Suc add_Suc)
      moreover have "last l \<noteq> NUL" using l by (metis good_label_def last_in_set)
      ultimately have "obuf s1 ! (?i - 1) \<noteq> NUL" by simp
      then obtain s2 where s2: "put_end ?i s1 = Inr (int (?i + 1), s2)" "wrote s1 ?i [NUL] s2" "lab_table s2 = lab_table s1"
        using put_end_run [of ?i s1] jl q(2) Cons.prems(3,4) length_dotted [of l ls] True by auto
      have "name_at (?q @ [NUL]) ?i b 0 [] (Suc ?i)" by (rule name_end) (use jl in \<open>simp_all add: nth_append\<close>)
      moreover have "labels_loop bl j ?n tb s = Inr (int (?i + 1), s2)" using run s2(1) True by simp
      ultimately show ?thesis using s2(2,3) True length_dotted [of l ls]
        by - (rule exI [of _ s2], rule exI [of _ "[NUL]"], rule exI [of _ 0], rule exI [of _ "[]"], simp)
    next
      case False
      have "writes_name ?i b ls tb s1 (labels_loop bl ?i (dotted ls) tb s1)"
      proof (rule Cons.IH [OF False])
        show "\<forall>x\<in>set (lab_table s1). length (dotted ls) < length (fst x) \<or> snd x < b \<and> entry_ok (take ?i (obuf s1)) (snd x) x" if tb
          unfolding q(1) using Cons.prems(8) [OF that] s1(3,4) length_dotted [of l ls] False entry_ok_append [of ?p _ _ ?lab] by (auto dest: bspec)
      qed (use Cons.prems q(2) length_dotted [of l ls] False in auto)
      moreover have "labels_loop bl j ?n tb s = labels_loop bl ?i (dotted ls) tb s1" using run False by simp
      ultimately show ?thesis using length_dotted [of l ls] False unfolding writes_name_def q(1) by fastforce
    qed
    then obtain s2 enc k X2 where s2: "labels_loop bl j ?n tb s = Inr (int (?i + length enc), s2)" "wrote s1 ?i enc s2" "lab_table s2 = lab_table s1 @ X2"
      "length enc \<le> length ?n + 2 - (1 + length l)" "name_at (?q @ enc) ?i b k ls (?i + length enc)"
      "\<forall>x\<in>set X2. ?i \<le> snd x \<and> entry_ok (?q @ enc) b x" "\<not> tb \<longrightarrow> X2 = [] \<and> k = 0" by blast
    have nm: "name_at (?p @ ?lab @ enc) j b k (l # ls) (j + length (?lab @ enc))" using head [OF s2(5)] by (simp add: add.assoc)
    moreover have "wrote s j (?lab @ enc) s2" using wrote_trans [OF s1(2)] s2(2) by simp
    moreover have "\<forall>x\<in>set (X @ X2). j \<le> snd x \<and> entry_ok (?p @ ?lab @ enc) b x"
    proof -
      have "entry_ok (?p @ ?lab @ enc) b (?n, j)" unfolding entry_ok_def using nm good Cons.prems(3,5) by fastforce
      then show ?thesis using s1(4) s2(6) by auto
    qed
    ultimately show ?thesis unfolding writes_name_def using s2(1,3,4,7) s1(3,4) length_dotted [of l ls]
      by - (rule exI [of _ s2], rule exI [of _ "?lab @ enc"], rule exI [of _ k], rule exI [of _ "X @ X2"], auto)
  qed
qed simp

end
