(* ===== verification/Evdns_Trip.thy ===== *)
theory Evdns_Trip
  imports Evdns_Names
begin

unbundle bit_operations_syntax

text \<open>From the packets that are built to the packets that are read.\<close>

section \<open>Whole names\<close>

definition good_name :: "byte list list \<Rightarrow> bool" where
  "good_name ls \<longleftrightarrow> ls \<noteq> [] \<and> (\<forall>l\<in>set ls. good_label l) \<and> length (dotted ls) \<le> 255"

text \<open>The name was written at \<open>j\<close> up to \<open>j'\<close>, and whoever reads a packet that begins with these bytes reads it back.\<close>

definition wrote_name :: "dns_out \<Rightarrow> nat \<Rightarrow> byte list list \<Rightarrow> dns_out \<Rightarrow> nat \<Rightarrow> bool" where
  "wrote_name s j ls s' j' \<longleftrightarrow> (\<exists>enc k. j' = j + length enc \<and> wrote s j enc s' \<and> length enc \<le> length (dotted ls) + 2 \<and> name_at (take j (obuf s) @ enc) j j k ls j')"

lemma dnsname_run:
  assumes "good_name ls" "j + length (dotted ls) + 2 \<le> bl" "bl \<le> length (obuf s)" "bl \<le> 16384" "0 < j"
    "tb \<Longrightarrow> tab_ok (take j (obuf s)) (lab_table s)"
  shows "\<exists>s' j'. dnsname_to_labels bl j (dotted ls) tb s = Inr (int j', s') \<and> wrote_name s j ls s' j'
    \<and> (tb \<longrightarrow> tab_ok (take j' (obuf s')) (lab_table s')) \<and> (\<not> tb \<longrightarrow> lab_table s' = lab_table s)"
proof -
  have "snd x < j" if "x \<in> set (lab_table s)" tb for x
  proof -
    have "entry_ok (take j (obuf s)) (snd x) x" using assms(6) that by (auto simp: tab_ok_def)
    then obtain k ms e where "name_at (take j (obuf s)) (snd x) (snd x) k ms e" by (auto simp: entry_ok_def)
    then show ?thesis using name_at_bounds by fastforce
  qed
  then have "writes_name j j ls tb s (labels_loop bl j (dotted ls) tb s)"
    by (intro labels_loop_run) (use assms in \<open>auto simp: good_name_def tab_ok_def\<close>)
  then obtain s' enc k X where w: "labels_loop bl j (dotted ls) tb s = Inr (int (j + length enc), s')" "wrote s j enc s'" "lab_table s' = lab_table s @ X"
    "length enc \<le> length (dotted ls) + 2" "name_at (take j (obuf s) @ enc) j j k ls (j + length enc)"
    "\<forall>x\<in>set X. j \<le> snd x \<and> entry_ok (take j (obuf s) @ enc) j x" "\<not> tb \<longrightarrow> X = [] \<and> k = 0" unfolding writes_name_def by blast
  have "tab_ok (take (j + length enc) (obuf s')) (lab_table s')" if tb
    unfolding wrote_take(1) [OF w(2)] tab_ok_def w(3)
  proof
    fix x assume "x \<in> set (lab_table s @ X)"
    then consider "x \<in> set (lab_table s)" | "x \<in> set X" by auto
    then show "entry_ok (take j (obuf s) @ enc) (snd x) x"
    proof cases
      case 1
      then show ?thesis using assms(6) [OF that] entry_ok_append by (auto simp: tab_ok_def)
    next
      case 2
      then show ?thesis using w(6) name_at_mono unfolding entry_ok_def by blast
    qed
  qed
  moreover have "wrote_name s j ls s' (j + length enc)" unfolding wrote_name_def using w(2,4,5) by blast
  moreover have "dnsname_to_labels bl j (dotted ls) tb s = Inr (int (j + length enc), s')" using w(1) assms(1) by (simp add: dnsname_to_labels_def good_name_def)
  ultimately show ?thesis using w(3,7) by (intro exI [of _ s'] exI [of _ "j + length enc"]) simp
qed

lemma wrote_name_bounds: "wrote_name s j ls s' j' \<Longrightarrow> j \<le> j' \<and> j' \<le> j + length (dotted ls) + 2 \<and> j' \<le> length (obuf s') \<and> length (obuf s') = length (obuf s)"
  using wrote_take(2) by (auto simp: wrote_name_def wrote_def)

lemma wrote_name_prefix: "wrote_name s j ls s' j' \<Longrightarrow> i \<le> j \<Longrightarrow> take i (obuf s') = take i (obuf s)"
  by (auto simp: wrote_name_def wrote_def)

text \<open>The name stands at \<open>j\<close> of a packet and ends in front of \<open>j'\<close>.\<close>

definition named_at :: "byte list \<Rightarrow> nat \<Rightarrow> byte list list \<Rightarrow> nat \<Rightarrow> bool" where
  "named_at p j ls j' \<longleftrightarrow> j' \<le> length p \<and> (\<exists>k. name_at (take j' p) j j k ls j')"

lemma wrote_named: "wrote_name s j ls s' j' \<Longrightarrow> named_at (obuf s') j ls j'"
  using wrote_take unfolding wrote_name_def named_at_def by (metis wrote_def)

lemma named_cong: "named_at p j ls j' \<Longrightarrow> take j' q = take j' p \<Longrightarrow> j' \<le> length q \<Longrightarrow> named_at q j ls j'"
  by (simp add: named_at_def)

lemma read_named:
  assumes "named_at packet j ls j'" "j' \<le> len" "len \<le> length packet" "length (dotted ls) < cap"
  shows "name_parse packet len j cap t = Inr (Some (j', dotted ls), t)"
proof -
  obtain k where k: "name_at (take j' packet) j j k ls j'" using assms(1) by (auto simp: named_at_def)
  have "take len packet = take j' packet @ drop j' (take len packet)" using assms(2) by (metis append_take_drop_id min.absorb1 take_take)
  then have "name_at (take len packet) j j k ls j'" using name_at_append [OF k] by metis
  then show ?thesis by (rule name_parse_at) (use assms(2-4) name_at_bounds [OF k] in simp_all)
qed

section \<open>Numbers\<close>

definition be16s :: "16 word list \<Rightarrow> byte list" where
  "be16s xs = concat (map be16 xs)"

lemma length_be16s [simp]: "length (be16s xs) = 2 * length xs"
  by (induction xs) (simp_all add: be16s_def)

lemma append16s_run:
  assumes "j + 2 * length xs \<le> bl" "bl \<le> length (obuf s)"
  shows "\<exists>s'. append16s bl j xs s = Inr (Some (j + 2 * length xs), s') \<and> wrote s j (be16s xs) s' \<and> lab_table s' = lab_table s"
  using assms
proof (induction xs arbitrary: j s)
  case Nil
  then show ?case by (simp add: be16s_def wrote_def)
next
  case (Cons x xs)
  let ?s = "s\<lparr>obuf := overwrite (obuf s) j (be16 x)\<rparr>"
  have ap: "APPEND16 bl j x s = Inr (Some (j + 2), ?s)" using Cons.prems by (simp add: APPEND16_def bnd_def st_at_run)
  obtain s' where s': "append16s bl (j + 2) xs ?s = Inr (Some (j + 2 + 2 * length xs), s')" "wrote ?s (j + 2) (be16s xs) s'" "lab_table s' = lab_table ?s"
    using Cons.IH [of "j + 2" ?s] Cons.prems by auto
  have "wrote s j (be16 x) ?s" using Cons.prems by (simp add: wrote_def)
  then have "wrote s j (be16s (x # xs)) s'" using wrote_trans [of s j "be16 x" ?s "be16s xs" s'] s'(2) by (simp add: be16s_def)
  then show ?case using s'(1,3) by (simp add: orelse_Some [of "APPEND16 bl j x", OF ap])
qed

lemma GET16_run:
  assumes "take 2 (drop j packet) = be16 x" "j + 2 \<le> len" "len \<le> length packet"
  shows "GET16 packet len j t = Inr (Some (x, j + 2), t)"
  using assms by (simp add: GET16_def bnd_def packet_bytes_run)

lemma GET32_run:
  assumes "take 4 (drop j packet) = be32 x" "j + 4 \<le> len" "len \<le> length packet"
  shows "GET32 packet len j t = Inr (Some (x, j + 4), t)"
  using assms by (simp add: GET32_def bnd_def packet_bytes_run)

lemma get16s_run:
  assumes "take (2 * length xs) (drop j packet) = be16s xs" "j + 2 * length xs \<le> len" "len \<le> length packet"
  shows "get16s packet len j (length xs) t = Inr (Some (xs, j + 2 * length xs), t)"
  using assms
proof (induction xs arbitrary: j)
  case (Cons x xs)
  have hd: "take 2 (drop j packet) = be16 x"
    using arg_cong [OF Cons.prems(1), of "take 2"] by (simp add: be16s_def min_def)
  have tl: "take (2 * length xs) (drop (j + 2) packet) = be16s xs"
    using arg_cong [OF Cons.prems(1), of "drop 2"] by (simp add: be16s_def drop_take add.commute)
  have "GET16 packet len j t = Inr (Some (x, j + 2), t)" by (rule GET16_run [OF hd]) (use Cons.prems in simp_all)
  moreover have "get16s packet len (j + 2) (length xs) t = Inr (Some (xs, j + 2 + 2 * length xs), t)" by (rule Cons.IH [OF tl]) (use Cons.prems in simp_all)
  ultimately show ?case by (simp add: orelse_def bnd_def)
qed simp

section \<open>Requests\<close>

text \<open>A packet with a header and one question.\<close>

definition asks :: "byte list \<Rightarrow> 16 word list \<Rightarrow> byte list list \<Rightarrow> nat \<Rightarrow> 16 word \<Rightarrow> 16 word \<Rightarrow> bool" where
  "asks p hdr ls j' type cls \<longleftrightarrow> length hdr = 6 \<and> take 12 p = be16s hdr \<and> 12 \<le> j' \<and> named_at p 12 ls j' \<and> take 4 (drop j' p) = be16s [type, cls] \<and> j' + 4 \<le> length p"

lemma asks_cong: "asks p hdr ls j' type cls \<Longrightarrow> take (j' + 4) q = take (j' + 4) p \<Longrightarrow> j' + 4 \<le> length q \<Longrightarrow> asks q hdr ls j' type cls"
proof -
  assume a: "asks p hdr ls j' type cls" "take (j' + 4) q = take (j' + 4) p" "j' + 4 \<le> length q"
  have "take i q = take i p" if "i \<le> j' + 4" for i using a(2) that by (metis min.absorb1 take_take)
  moreover have "take 4 (drop j' q) = take 4 (drop j' p)" using a(2) by (metis add.commute take_drop)
  ultimately show ?thesis using a named_cong [of p 12 ls j' q] unfolding asks_def by simp
qed

lemma wrote_steps:
  assumes "wrote s1 i xs s2" "wrote s2 (i + length xs) ys s3"
  shows "take (i + length xs) (obuf s3) = take (i + length xs) (obuf s2)" "take (length ys) (drop (i + length xs) (obuf s3)) = ys"
  using assms by (auto simp: wrote_def overwrite_slice)

lemma request_build_run:
  assumes "good_name ls" "length (dotted ls) + 18 \<le> bl" "bl \<le> length (obuf s)" "bl \<le> 16384"
  shows "\<exists>s' j'. evdns_request_data_build (dotted ls) tid type cls bl s = Inr (int (j' + 4), s') \<and> asks (obuf s') [tid, 0x0100, 1, 0, 0, 0] ls j' type cls
    \<and> j' \<le> length (dotted ls) + 14"
proof -
  let ?h = "[tid, 0x0100, 1, 0, 0, 0]"
  obtain s1 where s1: "append16s bl 0 ?h s = Inr (Some 12, s1)" "wrote s 0 (be16s ?h) s1" using append16s_run [of 0 ?h bl s] assms(2,3) by auto
  have l1: "length (obuf s1) = length (obuf s)" "take 12 (obuf s1) = be16s ?h" using wrote_take [OF s1(2)] by simp_all
  obtain s2 j' where s2: "dnsname_to_labels bl 12 (dotted ls) False s1 = Inr (int j', s2)" "wrote_name s1 12 ls s2 j'"
    using dnsname_run [of ls 12 bl s1 False] assms l1(1) by auto
  note b = wrote_name_bounds [OF s2(2)]
  obtain s3 where s3: "append16s bl j' [type, cls] s2 = Inr (Some (j' + 4), s3)" "wrote s2 j' (be16s [type, cls]) s3"
    using append16s_run [of j' "[type, cls]" bl s2] b l1(1) assms(2,3) by auto
  have "evdns_request_data_build (dotted ls) tid type cls bl s = Inr (int (j' + 4), s3)"
    unfolding evdns_request_data_build_def
    using s1(1) s2(1) s3(1) by (simp add: orelse_Some [of "append16s bl 0 ?h"] bnd_Inr [of "dnsname_to_labels bl 12 (dotted ls) False"] orelse_Some [of "append16s bl j' [type, cls]"] del: append16s.simps)
  moreover have "take j' (obuf s3) = take j' (obuf s2)" "take 4 (drop j' (obuf s3)) = be16s [type, cls]" "j' + 4 \<le> length (obuf s3)"
    using s3(2) overwrite_slice [of j' "be16s [type, cls]" "obuf s2"] by (auto simp: wrote_def)
  moreover have "take 12 (obuf s3) = be16s ?h"
    using wrote_name_prefix [OF s2(2), of 12] calculation(2) b l1(2) by (metis le_refl min.absorb1 take_take)
  ultimately show ?thesis using wrote_named [OF s2(2)] named_cong [of "obuf s2" 12 ls j' "obuf s3"] b unfolding asks_def by fastforce
qed

lemma dotted_no_NUL: "\<forall>l\<in>set ls. good_label l \<Longrightarrow> NUL \<notin> set (dotted ls)"
  by (induction ls rule: dotted.induct) (auto simp: good_label_def)

lemma cstr_dotted: "good_name ls \<Longrightarrow> cstr (dotted ls) = dotted ls"
  using dotted_no_NUL [of ls] by (auto simp: cstr_def good_name_def takeWhile_eq_all_conv)

lemma read_header:
  assumes "asks p hdr ls j' type cls" "j' + 4 \<le> len" "len \<le> length p"
  shows "get16s p len 0 6 t = Inr (Some (hdr, 12), t)"
  using get16s_run [of hdr 0 p len t] assms by (simp add: asks_def)

lemma read_type_class:
  assumes "asks p hdr ls j' type cls" "j' + 4 \<le> len" "len \<le> length p"
  shows "GET16 p len j' t = Inr (Some (type, j' + 2), t)" "GET16 p len (j' + 2) t = Inr (Some (cls, j' + 4), t)"
proof -
  have q: "take 4 (drop j' p) = be16s [type, cls]" using assms(1) by (simp add: asks_def)
  have "take 2 (drop j' p) = be16 type" using arg_cong [OF q, of "take 2"] by (simp add: be16s_def)
  moreover have "take 2 (drop (j' + 2) p) = be16 cls" using arg_cong [OF q, of "drop 2"] by (simp add: be16s_def drop_take add.commute)
  ultimately show "GET16 p len j' t = Inr (Some (type, j' + 2), t)" "GET16 p len (j' + 2) t = Inr (Some (cls, j' + 4), t)"
    using GET16_run [of j' p type len t] GET16_run [of "j' + 2" p cls len t] assms(2,3) by simp_all
qed

lemma request_parse_run:
  assumes "asks p [tid, 0x0100, 1, 0, 0, 0] ls j' type cls" "good_name ls" "j' + 4 \<le> len" "len \<le> length p" "\<forall>n. \<not> d_oom t n"
  shows "\<exists>t' req. request_parse p len addr t = Inr (Called_Back req, t') \<and> sr_trans_id req = tid \<and> sr_addr req = addr \<and> sr_flags req = 0x0100
    \<and> questions req = [\<lparr>q_type = type, q_class = cls, q_name = dotted ls\<rparr>] \<and> response req = None \<and> answer req = [] \<and> authority req = [] \<and> additional req = []
    \<and> n_answer req = 0 \<and> n_authority req = 0 \<and> n_additional req = 0 \<and> port_refcnt t' = port_refcnt t + 1"
proof -
  have nm: "name_parse p len 12 256 t = Inr (Some (j', dotted ls), t)" for t :: dns_port
    by (rule read_named) (use assms(1-4) in \<open>simp_all add: asks_def good_name_def\<close>)
  have q: "questions_loop (Suc 0) p len 12 t = Inr (Some [\<lparr>q_type = type, q_class = cls, q_name = dotted ls\<rparr>], t\<lparr>d_brk := Suc (d_brk t)\<rparr>)"
    if "\<forall>n. \<not> d_oom t n" for t :: dns_port
    using that by (simp add: orelse_def bnd_def nm read_type_class [OF assms(1,3,4), unfolded add_2_eq_Suc'] dns_alloc_def cstr_dotted [OF assms(2)])
  show ?thesis unfolding request_parse_def
    using assms(5) by (simp add: read_header [OF assms(1,3,4)] dns_alloc_def bnd_def orelse_def q Let_def del: questions_loop.simps)
qed

end
