(* ===== verification/Evdns_Answer.thy ===== *)
theory Evdns_Answer
  imports Evdns_Trip
begin

unbundle bit_operations_syntax

text \<open>The answer of the server, and what the resolver reads in it.\<close>

section \<open>What stays in the buffer\<close>

definition out_kept :: "dns_out \<Rightarrow> nat \<Rightarrow> dns_out \<Rightarrow> bool" where
  "out_kept s i s' \<longleftrightarrow> length (obuf s') = length (obuf s) \<and> take i (obuf s') = take i (obuf s) \<and> d_oom s' = d_oom s"

lemma out_kept_wrote: "wrote s j bs s' \<Longrightarrow> i \<le> j \<Longrightarrow> out_kept s i s'"
  by (auto simp: wrote_def out_kept_def)

lemma out_kept_name: "wrote_name s j ls s' j' \<Longrightarrow> i \<le> j \<Longrightarrow> out_kept s i s'"
  by (auto simp: wrote_name_def out_kept_wrote)

lemma out_kept_trans: "out_kept s i s' \<Longrightarrow> out_kept s' i' s'' \<Longrightarrow> i \<le> i' \<Longrightarrow> out_kept s i s''"
  unfolding out_kept_def by (metis min.absorb1 take_take)

lemma out_kept_slice: "out_kept s i s' \<Longrightarrow> j + n \<le> i \<Longrightarrow> take n (drop j (obuf s')) = take n (drop j (obuf s))"
  unfolding out_kept_def by (metis add.commute min.absorb1 take_drop take_take)

lemma wrote_slice: "wrote s j bs s' \<Longrightarrow> take (length bs) (drop j (obuf s')) = bs"
  by (simp add: wrote_def overwrite_slice)

lemma tab_ok_append: "tab_ok p T \<Longrightarrow> tab_ok (p @ q) T"
  using entry_ok_append by (auto simp: tab_ok_def)

lemma APPEND32_run:
  assumes "j + 4 \<le> bl" "bl \<le> length (obuf s)"
  shows "\<exists>s'. APPEND32 bl j x s = Inr (Some (j + 4), s') \<and> wrote s j (be32 x) s' \<and> lab_table s' = lab_table s"
  using assms by (simp add: APPEND32_def bnd_def st_at_run wrote_def)

lemma plain_data_run:
  assumes "j + 2 + length d \<le> bl" "bl \<le> length (obuf s)" "length d < 65536"
  shows "\<exists>s'. put_plain_data bl j (word_of_nat (length d)) (Some d) s = Inr (Some (j + 2 + length d), s') \<and> wrote s j (be16 (word_of_nat (length d)) @ d) s'"
proof -
  have n: "unat (word_of_nat (length d) :: 16 word) = length d" using assms(3) by (simp add: unsigned_of_nat take_bit_eq_mod)
  let ?s = "s\<lparr>obuf := overwrite (obuf s) j (be16 (word_of_nat (length d)))\<rparr>"
  have ap: "APPEND16 bl j (word_of_nat (length d)) s = Inr (Some (j + 2), ?s)" using assms by (simp add: APPEND16_def bnd_def st_at_run)
  have "put_plain_data bl j (word_of_nat (length d)) (Some d) s = Inr (Some (j + 2 + length d), ?s\<lparr>obuf := overwrite (obuf ?s) (j + 2) d\<rparr>)"
    unfolding put_plain_data_def orelse_Some [of "APPEND16 bl j (word_of_nat (length d))", OF ap]
    using assms n by (simp add: bnd_def packet_bytes_run st_at_run)
  moreover have "wrote s j (be16 (word_of_nat (length d)) @ d) (?s\<lparr>obuf := overwrite (obuf ?s) (j + 2) d\<rparr>)"
    using assms overwrite_overwrite [of j "be16 (word_of_nat (length d))" d "obuf s"] by (simp add: wrote_def)
  ultimately show ?thesis by blast
qed

section \<open>One record\<close>

text \<open>A record at \<open>j\<close> of a packet: its name ends at \<open>i\<close>, and its data follows ten bytes behind that.\<close>

definition record_at :: "byte list \<Rightarrow> nat \<Rightarrow> byte list list \<Rightarrow> nat \<Rightarrow> 16 word \<Rightarrow> 16 word \<Rightarrow> 32 word \<Rightarrow> byte list \<Rightarrow> bool" where
  "record_at p j ls i type cls ttl d \<longleftrightarrow> j \<le> i \<and> named_at p j ls i \<and> take 4 (drop i p) = be16s [type, cls] \<and> take 4 (drop (i + 4) p) = be32 ttl
     \<and> take (2 + length d) (drop (i + 8) p) = be16 (word_of_nat (length d)) @ d \<and> i + 10 + length d \<le> length p"

lemma item_run:
  assumes "good_name ls" "0 < j" "j + length (dotted ls) + 12 + length d \<le> bl" "bl \<le> length (obuf s)" "bl \<le> 16384"
    "tab_ok (take j (obuf s)) (lab_table s)" "length d < 65536"
    "i = \<lparr>ri_name = dotted ls, ri_type = type, ri_class = cls, ri_ttl = ttl, is_name = False, ri_datalen = word_of_nat (length d), ri_data = Some d\<rparr>"
  shows "\<exists>s' k. put_items bl j [i] s = Inr (Some (k + 10 + length d), s') \<and> record_at (obuf s') j ls k type cls ttl d \<and> out_kept s j s' \<and> k \<le> j + length (dotted ls) + 2"
proof -
  obtain s1 k where s1: "dnsname_to_labels bl j (dotted ls) True s = Inr (int k, s1)" "wrote_name s j ls s1 k"
    using dnsname_run [of ls j bl s True] assms by auto
  note b = wrote_name_bounds [OF s1(2)]
  obtain s2 where s2: "append16s bl k [type, cls] s1 = Inr (Some (k + 4), s2)" "wrote s1 k (be16s [type, cls]) s2"
    using append16s_run [of k "[type, cls]" bl s1] b assms(3,4) by auto
  have l2: "length (obuf s2) = length (obuf s)" using wrote_take(2) [OF s2(2)] b by simp
  obtain s3 where s3: "APPEND32 bl (k + 4) ttl s2 = Inr (Some (k + 8), s3)" "wrote s2 (k + 4) (be32 ttl) s3"
    using APPEND32_run [of "k + 4" bl s2 ttl] b l2 assms(3,4) by auto
  have l3: "length (obuf s3) = length (obuf s)" using wrote_take(2) [OF s3(2)] l2 by simp
  obtain s4 where s4: "put_plain_data bl (k + 8) (word_of_nat (length d)) (Some d) s3 = Inr (Some (k + 10 + length d), s4)"
    "wrote s3 (k + 8) (be16 (word_of_nat (length d)) @ d) s4"
    using plain_data_run [of "k + 8" d bl s3] b l3 assms(3,4,7) by auto
  have run: "put_items bl j [i] s = Inr (Some (k + 10 + length d), s4)"
    unfolding assms(8) put_items.simps server_reply_item.simps bnd_Inr [of "dnsname_to_labels bl j (dotted ls) True", OF s1(1)]
    using s2(1) s3(1) s4(1) by (simp add: orelse_def bnd_def del: append16s.simps)
  have k3: "out_kept s3 (k + 8) s4" by (rule out_kept_wrote [OF s4(2) le_refl])
  have k2: "out_kept s2 (k + 4) s4" by (rule out_kept_trans [OF out_kept_wrote [OF s3(2) le_refl] k3]) simp
  have k1: "out_kept s1 k s4" by (rule out_kept_trans [OF out_kept_wrote [OF s2(2) le_refl] k2]) simp
  have "named_at (obuf s4) j ls k" by (rule named_cong [OF wrote_named [OF s1(2)]]) (use k1 b in \<open>simp_all add: out_kept_def\<close>)
  moreover have "take 4 (drop k (obuf s4)) = be16s [type, cls]" using out_kept_slice [OF k2, of k 4] wrote_slice [OF s2(2)] by simp
  moreover have "take 4 (drop (k + 4) (obuf s4)) = be32 ttl" using out_kept_slice [OF k3, of "k + 4" 4] wrote_slice [OF s3(2)] by simp
  moreover have "take (2 + length d) (drop (k + 8) (obuf s4)) = be16 (word_of_nat (length d)) @ d" using wrote_slice [OF s4(2)] by simp
  moreover have "length (obuf s4) = length (obuf s)" using wrote_take(2) [OF s4(2)] l3 by simp
  moreover have "out_kept s j s4" using out_kept_trans [OF out_kept_name [OF s1(2) le_refl] k1] b by simp
  ultimately show ?thesis using run b assms(3,4) unfolding record_at_def by (intro exI [of _ s4] exI [of _ k]) simp
qed

section \<open>The whole answer\<close>

lemma question_run:
  assumes "good_name ls" "12 + length (dotted ls) + 6 \<le> bl" "bl \<le> length (obuf s)" "bl \<le> 16384" "tab_ok (take 12 (obuf s)) (lab_table s)"
    "take 12 (obuf s) = be16s hdr" "length hdr = 6"
  shows "\<exists>s' j'. put_questions bl 12 [\<lparr>q_type = type, q_class = cls, q_name = dotted ls\<rparr>] s = Inr (Inr (Some (j' + 4)), s')
    \<and> asks (obuf s') hdr ls j' type cls \<and> out_kept s 12 s' \<and> tab_ok (take (j' + 4) (obuf s')) (lab_table s') \<and> j' \<le> length (dotted ls) + 14"
proof -
  obtain s1 j' where s1: "dnsname_to_labels bl 12 (dotted ls) True s = Inr (int j', s1)" "wrote_name s 12 ls s1 j'" "tab_ok (take j' (obuf s1)) (lab_table s1)"
    using dnsname_run [of ls 12 bl s True] assms by auto
  note b = wrote_name_bounds [OF s1(2)]
  obtain s2 where s2: "append16s bl j' [type, cls] s1 = Inr (Some (j' + 4), s2)" "wrote s1 j' (be16s [type, cls]) s2" "lab_table s2 = lab_table s1"
    using append16s_run [of j' "[type, cls]" bl s1] b assms(2,3) by auto
  have k1: "out_kept s1 j' s2" by (rule out_kept_wrote [OF s2(2) le_refl])
  have k0: "out_kept s 12 s2" by (rule out_kept_trans [OF out_kept_name [OF s1(2) le_refl] k1]) (use b in simp)
  have l2: "length (obuf s2) = length (obuf s)" using k0 by (simp add: out_kept_def)
  have "put_questions bl 12 [\<lparr>q_type = type, q_class = cls, q_name = dotted ls\<rparr>] s = Inr (Inr (Some (j' + 4)), s2)"
    unfolding put_questions.simps evdns_server_question.simps bnd_Inr [of "dnsname_to_labels bl 12 (dotted ls) True", OF s1(1)]
    using s2(1) by (simp add: orelse_def bnd_def del: append16s.simps)
  moreover have "named_at (obuf s2) 12 ls j'" by (rule named_cong [OF wrote_named [OF s1(2)]]) (use k1 b in \<open>simp_all add: out_kept_def\<close>)
  moreover have "take 4 (drop j' (obuf s2)) = be16s [type, cls]" using wrote_slice [OF s2(2)] by simp
  moreover have "take (j' + 4) (obuf s2) = take j' (obuf s1) @ be16s [type, cls]" using wrote_take(1) [OF s2(2)] by simp
  moreover have "take 12 (obuf s2) = be16s hdr" using k0 assms(6) by (simp add: out_kept_def)
  ultimately show ?thesis using k0 b l2 s1(3) s2(3) assms(2,3,7) tab_ok_append unfolding asks_def
    by (intro exI [of _ s2] exI [of _ j']) simp
qed

lemma asks_take: "asks p hdr ls j' type cls \<Longrightarrow> j' + 4 \<le> n \<Longrightarrow> n \<le> length p \<Longrightarrow> asks (take n p) hdr ls j' type cls"
  by (rule asks_cong) simp_all

lemma take_within: "j + m \<le> n \<Longrightarrow> take m (drop j (take n p)) = take m (drop j p)"
  by (simp add: drop_take min_def)

lemma record_take: "record_at p j ls i type cls ttl d \<Longrightarrow> i + 10 + length d = n \<Longrightarrow> record_at (take n p) j ls i type cls ttl d"
proof -
  assume r: "record_at p j ls i type cls ttl d" "i + 10 + length d = n"
  have "take 4 (drop i (take n p)) = take 4 (drop i p)" "take 4 (drop (i + 4) (take n p)) = take 4 (drop (i + 4) p)"
    "take (2 + length d) (drop (i + 8) (take n p)) = take (2 + length d) (drop (i + 8) p)" by (rule take_within, use r(2) in simp)+
  moreover have "named_at (take n p) j ls i" by (rule named_cong) (use r in \<open>auto simp: record_at_def\<close>)
  ultimately show ?thesis using r unfolding record_at_def by (simp only: length_take min_absorb2) blast
qed

definition one_answer :: "server_request \<Rightarrow> byte list list \<Rightarrow> 16 word \<Rightarrow> 32 word \<Rightarrow> byte list \<Rightarrow> bool" where
  "one_answer req ls type ttl d \<longleftrightarrow> questions req = [\<lparr>q_type = type, q_class = CLASS_INET, q_name = dotted ls\<rparr>]
     \<and> answer req = [\<lparr>ri_name = dotted ls, ri_type = type, ri_class = CLASS_INET, ri_ttl = ttl, is_name = False, ri_datalen = word_of_nat (length d), ri_data = Some d\<rparr>]
     \<and> authority req = [] \<and> additional req = [] \<and> n_answer req = 1 \<and> n_authority req = 0 \<and> n_additional req = 0"

lemma format_run:
  assumes "one_answer req ls type ttl d" "good_name ls" "2 * length (dotted ls) + length d + 32 \<le> 512" "length (obuf s) = 1500" "\<forall>n. \<not> d_oom s n"
  shows "\<exists>s' req' p j i. evdns_server_request_format_response req 0 s = Inr ((0, req'), s') \<and> response req' = Some p
    \<and> asks p [sr_trans_id req, ucast (sr_flags req) OR 0x8000, 1, 1, 0, 0] ls j type CLASS_INET \<and> record_at p (j + 4) ls i type CLASS_INET ttl d \<and> length p = i + 10 + length d"
proof -
  let ?h = "[sr_trans_id req, ucast (sr_flags req) OR 0x8000, 1, 1, 0, 0] :: 16 word list" and ?s = "s\<lparr>lab_table := []\<rparr>"
  note one = assms(1) [unfolded one_answer_def]
  obtain s1 where s1: "append16s 1500 0 ?h ?s = Inr (Some 12, s1)" "wrote ?s 0 (be16s ?h) s1" "lab_table s1 = []"
    using append16s_run [of 0 ?h 1500 ?s] assms(4) by auto
  have l1: "length (obuf s1) = 1500" "take 12 (obuf s1) = be16s ?h" "d_oom s1 = d_oom s" using wrote_take [OF s1(2)] assms(4) s1(2) by (simp_all add: wrote_def)
  obtain s2 j where s2: "put_questions 1500 12 (questions req) s1 = Inr (Inr (Some (j + 4)), s2)" "asks (obuf s2) ?h ls j type CLASS_INET" "out_kept s1 12 s2"
    "tab_ok (take (j + 4) (obuf s2)) (lab_table s2)" "j \<le> length (dotted ls) + 14"
    using question_run [of ls 1500 s1 ?h type CLASS_INET] assms(2,3) l1 s1(3) one by (auto simp: tab_ok_def)
  have l2: "length (obuf s2) = 1500" "d_oom s2 = d_oom s" using s2(3) l1 by (simp_all add: out_kept_def)
  obtain s3 i where s3: "put_items 1500 (j + 4) (answer req) s2 = Inr (Some (i + 10 + length d), s3)" "record_at (obuf s3) (j + 4) ls i type CLASS_INET ttl d"
    "out_kept s2 (j + 4) s3" "i \<le> j + 4 + length (dotted ls) + 2"
    using item_run [OF assms(2), of "j + 4" d 1500 s2 _ type CLASS_INET ttl] assms(3) l2(1) s2(4,5) one by fastforce
  let ?n = "i + 10 + length d"
  have l3: "length (obuf s3) = 1500" "\<not> d_oom s3 n" for n using s3(3) l2 assms(5) by (simp_all add: out_kept_def)
  have n: "?n \<le> 512" using s2(5) s3(4) assms(3) by simp
  define s' where "s' = s3\<lparr>d_brk := Suc (d_brk s3), lab_table := []\<rparr>"
  define req' where "req' = server_request_free_answers (req\<lparr>response := Some (take ?n (obuf s3))\<rparr>)"
  have fin: "finish_response req (Some ?n) s3 = Inr ((0, req'), s')"
    using n l3(2) by (simp add: finish_response_def bnd_def dns_alloc_def dnslabel_clear_def Let_def s'_def req'_def min_def)
  have "evdns_server_request_format_response req 0 s = Inr ((0, req'), s')"
    unfolding evdns_server_request_format_response_def using s1(1) s2(1) s3(1) fin one
    by (simp add: bnd_def dnslabel_table_init_def Let_def del: append16s.simps put_questions.simps put_items.simps)
  moreover have "asks (take ?n (obuf s3)) ?h ls j type CLASS_INET"
    by (rule asks_take [OF asks_cong [OF s2(2)]]) (use s3(2,3) l3(1) l2(1) n s2(5) in \<open>auto simp: out_kept_def record_at_def\<close>)
  moreover have "record_at (take ?n (obuf s3)) (j + 4) ls i type CLASS_INET ttl d" by (rule record_take [OF s3(2) refl])
  ultimately show ?thesis using n l3(1)
    by - (rule exI [of _ s'], rule exI [of _ req'], rule exI [of _ "take ?n (obuf s3)"], rule exI [of _ j], rule exI [of _ i],
        simp add: req'_def server_request_free_answers_def)
qed

section \<open>Reading the answer\<close>

lemma record_head_run:
  assumes "record_at p j ls i type cls ttl d" "length (dotted ls) < 256" "length d < 65536"
  shows "record_head p (length p) j t = Inr (Some (type, cls, ttl, length d, i + 10), t)" "take (length d) (drop (i + 10) p) = d"
proof -
  let ?l = "length p"
  have r: "named_at p j ls i" "take 4 (drop i p) = be16s [type, cls]" "take 4 (drop (i + 4) p) = be32 ttl"
    "take (2 + length d) (drop (i + 8) p) = be16 (word_of_nat (length d)) @ d" "i + 10 + length d \<le> ?l" using assms(1) by (simp_all add: record_at_def)
  have n: "name_parse p ?l j 256 t = Inr (Some (i, dotted ls), t)" by (rule read_named [OF r(1)]) (use r(5) assms(2) in simp_all)
  have "take 2 (drop i p) = be16 type" using arg_cong [OF r(2), of "take 2"] by (simp add: be16s_def)
  then have g1: "GET16 p ?l i t = Inr (Some (type, i + 2), t)" by (rule GET16_run) (use r(5) in simp_all)
  have "take 2 (drop (i + 2) p) = be16 cls" using arg_cong [OF r(2), of "drop 2"] by (simp add: be16s_def drop_take add.commute)
  then have g2: "GET16 p ?l (i + 2) t = Inr (Some (cls, i + 2 + 2), t)" by (rule GET16_run) (use r(5) in simp_all)
  have g3: "GET32 p ?l (i + 2 + 2) t = Inr (Some (ttl, i + 2 + 2 + 4), t)" by (rule GET32_run) (use r(3,5) in \<open>simp_all add: eval_nat_numeral\<close>)
  have "take 2 (drop (i + 8) p) = be16 (word_of_nat (length d))" using arg_cong [OF r(4), of "take 2"] by (simp add: min_def)
  then have g4: "GET16 p ?l (i + 2 + 2 + 4) t = Inr (Some (word_of_nat (length d), i + 2 + 2 + 4 + 2), t)"
    by (intro GET16_run) (use r(5) in \<open>simp_all add: ac_simps\<close>)
  have "unat (word_of_nat (length d) :: 16 word) = length d" using assms(3) by (simp add: unsigned_of_nat take_bit_eq_mod)
  then show "record_head p ?l j t = Inr (Some (type, cls, ttl, length d, i + 10), t)"
    unfolding record_head_def SKIP_NAME_def using n g1 g2 g3 g4 by (simp add: orelse_def bnd_def add.assoc)
  show "take (length d) (drop (i + 10) p) = d" using arg_cong [OF r(4), of "drop 2"] by (simp add: drop_take add.commute)
qed

lemma strcasecmp_refl: "evutil_ascii_strcasecmp x x = 0"
proof (induction x)
  case Nil
  then show ?case by (subst evutil_ascii_strcasecmp.simps) (simp add: Let_def char_at_def)
next
  case (Cons c x)
  then show ?case by (subst evutil_ascii_strcasecmp.simps) (simp add: Let_def)
qed

lemma answer_a_run:
  assumes "record_at p j ls i TYPE_A CLASS_INET ttl d" "length (dotted ls) < 256" "length d = 4 * n" "n \<le> 32" "ucast (rq_type req) = TYPE_A" "v4_count rep = 0"
  shows "answers_loop 1 req p (length p) j ttl_r rep t
    = Inr ((req, Some (i + 10 + length d, min ttl_r ttl, rep\<lparr>v4_data := v4_data rep @ d, v4_count := n, have_answer := True\<rparr>)), t)"
proof -
  have len: "length d < 65536" "i + 10 + length d \<le> length p" using assms(1,3,4) by (simp_all add: record_at_def)
  note h = record_head_run [OF assms(1,2) len(1)]
  have "copy_addrs 4 MAX_V4_ADDRS 0 p (length p) (i + 10) (length d) t = Inr (Some (n, d), t)"
    using len(2) assms(3,4) h(2) by (simp add: copy_addrs_def MAX_V4_ADDRS_def Let_def bnd_def packet_bytes_run min_def)
  then have "answer_step req p (length p) j ttl_r rep t
    = Inr (Some (req, n = MAX_V4_ADDRS, i + 10 + length d, min ttl_r ttl, rep\<lparr>v4_data := v4_data rep @ d, v4_count := n, have_answer := True\<rparr>), t)"
    using assms(3,5,6) by (simp add: h(1) answer_step_def answer_a_def orelse_def bnd_def Let_def)
  then show ?thesis by (simp add: orelse_def bnd_def)
qed

lemma reply_parse_run:
  assumes "asks p [tid, flags, 1, 1, 0, 0] ls j TYPE_A CLASS_INET" "record_at p (j + 4) ls i TYPE_A CLASS_INET ttl d" "good_name ls" "length d = 4 * n" "n \<le> 32"
    "request_find_from_trans_id base tid = Some req" "named_at (rq_request req) 12 ls jq" "rq_type req = 1" "flags AND 0x8000 \<noteq> 0" "flags AND 0x020f = 0"
  shows "reply_parse base p (length p) t
    = Inr ((0, Some (req, flags, if ttl = 0xffffffff then 0 else ttl, Some ((no_reply req)\<lparr>v4_data := d, v4_count := n, have_answer := True\<rparr>))), t)"
proof -
  have ln: "length (dotted ls) < 256" using assms(3) by (simp add: good_name_def)
  have b: "j + 4 \<le> length p" "named_at p 12 ls j" "j \<le> length p" using assms(1) by (simp_all add: asks_def)
  have jq: "jq \<le> length (rq_request req)" using assms(7) by (simp add: named_at_def)
  have tn: "TEST_NAME base req p (length p) 12 t = Inr (Some (j, True), t)" for t
    unfolding TEST_NAME_def by (simp add: read_named [OF b(2) b(3) le_refl ln] read_named [OF assms(7) jq le_refl ln] orelse_def bnd_def strcasecmp_refl)
  have q: "test_questions (Suc 0) base req p (length p) 12 False t = Inr (Some (j + 4, True), t)" for t using b(1) by (simp add: tn orelse_def bnd_def)
  have "min (- 1 :: 32 word) ttl = ttl" by (rule min_absorb2) (rule word_order.extremum)
  moreover have "(0xffffffff :: 32 word) = - 1" by simp
  ultimately have ttl: "min (0xffffffff :: 32 word) ttl = ttl" by (simp only:)
  have a: "answers_loop (Suc 0) req p (length p) (j + 4) 0xffffffff (no_reply req) t
    = Inr ((req, Some (i + 10 + length d, ttl, (no_reply req)\<lparr>v4_data := d, v4_count := n, have_answer := True\<rparr>)), t)" for t :: "'a dns_mem_scheme"
    using answer_a_run [OF assms(2) ln assms(4,5), of req "no_reply req" "0xffffffff" t] assms(8)
    by (simp add: no_reply_def TYPE_A_def ttl)
  show ?thesis unfolding reply_parse_def
    using assms(6,9,10) by (simp add: q a orelse_def bnd_def read_header [OF assms(1) b(1) le_refl] Let_def del: answers_loop.simps test_questions.simps)
qed

end
