(* ===== verification/Evdns_Properties.thy ===== *)
theory Evdns_Properties
  imports Evdns_Answer
begin

unbundle bit_operations_syntax

text \<open>
  What the packets of \<^verbatim>\<open>libevent/evdns.c\<close> promise: a request and its answer survive the trip, names are written in compressed form
  and read back, reading a name ends, and where the code leaves its buffers.
\<close>

section \<open>Reading a name ends\<close>

definition name_result :: "nat \<Rightarrow> nat \<Rightarrow> (nat \<times> byte list) option \<Rightarrow> bool" where
  "name_result len cap r = (case r of None \<Rightarrow> True | Some (e, out) \<Rightarrow> e \<le> len \<and> length out < cap)"

text \<open>How a call ends: with a result, or by reading behind the memory of the packet, which 63 readable bytes behind the packet exclude.\<close>

definition name_ends :: "byte list \<Rightarrow> nat \<Rightarrow> nat \<Rightarrow> 's \<Rightarrow> fault + (nat \<times> byte list) option \<times> 's \<Rightarrow> bool" where
  "name_ends packet len cap s z \<longleftrightarrow> (\<exists>r. z = Inr (r, s) \<and> name_result len cap r) \<or> z = Inl OutOfBounds \<and> length packet < len + 63"

lemma name_parse_loop_total:
  assumes "len \<le> length packet" "(len - pc) + (cap - length out) < f" "case ne of None \<Rightarrow> True | Some e \<Rightarrow> e \<le> len"
  shows "name_ends packet len cap s (name_parse_loop f packet len cap j ne pc out s)"
  using assms
proof (induction f arbitrary: j ne pc out)
  case (Suc f)
  note IH = Suc.IH [OF assms(1)]
  note step = GET8_def rd_def orelse_def bnd_def ret_def Let_def name_ends_def name_result_def
  consider "len \<le> j" | "j < len" "packet ! j = NUL" | "j < len" "of_char (packet ! j) AND 0xc0 \<noteq> (0::nat)" | "j < len" "of_char (packet ! j) AND 0xc0 = (0::nat)" "packet ! j \<noteq> NUL"
    by linarith
  then show ?case
  proof cases
    case 2
    then show ?thesis using assms(1) Suc.prems(3) by (auto simp: step split: option.splits)
  next
    case 3
    let ?k = "(of_char (packet ! j) AND 0x3f) * 256 + of_char (packet ! Suc j) :: nat"
    have nz: "of_char (packet ! j) \<noteq> (0::nat)" using 3(2) by (metis and_zero_eq zero_and_eq)
    show ?thesis
    proof (cases "Suc j < len \<and> ?k < len \<and> pc < len")
      case True
      let ?ne = "case ne of None \<Rightarrow> Some (Suc (Suc j)) | Some e \<Rightarrow> Some e"
      have "name_parse_loop (Suc f) packet len cap j ne pc out s = name_parse_loop f packet len cap ?k ?ne (pc + 1) out s"
        using 3 True nz assms(1) by (simp add: GET8_def rd_def orelse_def bnd_def ret_def Let_def)
      then show ?thesis using IH [of "pc + 1" out ?ne ?k] Suc.prems(2,3) True by (auto split: option.splits)
    next
      case False
      then show ?thesis using 3 nz assms(1) by (auto simp: step)
    qed
  next
    case 4
    let ?n = "of_char (packet ! j) :: nat" and ?o = "if out \<noteq> [] then out @ ''.'' else out"
    have "of_char NUL = (0::nat)" by simp
    then have nz: "?n \<noteq> 0" using 4(3) by (metis of_char_eq_iff)
    let ?fits = "?n \<le> 63 \<and> \<not> (out \<noteq> [] \<and> length out + 1 \<ge> cap) \<and> length ?o + ?n < cap"
    consider "\<not> ?fits" | "?fits" "Suc j + ?n \<le> length packet" | "?fits" "length packet < Suc j + ?n" by linarith
    then show ?thesis
    proof cases
      case 1
      then show ?thesis using 4 nz assms(1) by (auto simp: step)
    next
      case b: 2
      let ?l = "take ?n (drop (Suc j) packet)"
      have "name_parse_loop (Suc f) packet len cap j ne pc out s = name_parse_loop f packet len cap (Suc j + ?n) ne pc (?o @ ?l) s"
        using 4 b nz assms(1) by (cases "out = []") (simp_all add: GET8_def rd_def rd_bytes_def orelse_def bnd_def ret_def Let_def)
      moreover have "(len - pc) + (cap - length (?o @ ?l)) < f" using Suc.prems(2) b nz by auto
      ultimately show ?thesis using IH [of pc "?o @ ?l" ne "Suc j + ?n"] Suc.prems(3) by simp
    next
      case b: 3
      then have "length packet < len + 63" using 4(1) by linarith
      moreover have "name_parse_loop (Suc f) packet len cap j ne pc out s = Inl OutOfBounds"
        using 4 b nz assms(1) by (cases "out = []") (simp_all add: GET8_def rd_def rd_bytes_def orelse_def bnd_def ret_def stop_def Let_def)
      ultimately show ?thesis by (simp add: name_ends_def)
    qed
  qed (simp add: step)
qed simp

text \<open>
  C22. Reading a name from a packet ends, whatever the bytes are and also when its pointers form a circle: with an error, with an index inside the packet and a name
  that leaves room for its final zero, or by a read behind the memory of the packet. The last can only happen when fewer than 63 bytes can be read behind the packet.
\<close>

theorem name_parse_total:
  assumes "len \<le> length packet"
  shows "(\<exists>r. name_parse packet len idx name_out_len s = Inr (r, s) \<and> name_result len name_out_len r)
    \<or> name_parse packet len idx name_out_len s = Inl OutOfBounds \<and> length packet < len + 63"
  using name_parse_loop_total [OF assms, of 0 name_out_len "[]" "len + name_out_len + 1" None s idx] by (simp add: name_ends_def name_parse_def)

theorem name_parse_total_witness:
  "\<exists>r. name_parse (replicate 64 (CHR 0xc0)) 1 0 256 (0::nat) = Inr (r, 0) \<and> name_result 1 256 r"
  using name_parse_total [of 1 "replicate 64 (CHR 0xc0)" 0 256 "0::nat"] by auto

text \<open>
  C23. The copy of a label reads behind the packet: its length is compared with the room for the name,
  never with what is left of the packet.
\<close>

theorem name_parse_overreads:
  assumes "length packet = len" "idx < len" "0 < (of_char (packet ! idx) :: nat)" "of_char (packet ! idx) \<le> (63::nat)"
    "len < Suc idx + of_char (packet ! idx)" "of_char (packet ! idx) < name_out_len"
  shows "name_parse packet len idx name_out_len s = Inl OutOfBounds"
proof -
  have "of_char (packet ! idx) AND 0xc0 = (0::nat)" using mask_high [of "of_char (packet ! idx)"] assms(4) by simp
  then show ?thesis unfolding name_parse_def
    using assms by (simp add: GET8_def rd_def rd_bytes_def orelse_def bnd_def ret_def stop_def Let_def)
qed

theorem name_parse_overreads_witness: "name_parse [CHR 0x3f] 1 0 256 (0::nat) = Inl OutOfBounds"
  by (rule name_parse_overreads) simp_all

section \<open>Writing a name\<close>

text \<open>
  A name of one label that just fits, without its final zero, passes every test of the code; the zero is then written behind the buffer.
\<close>

theorem dnsname_to_labels_overflows:
  assumes "good_label l" "j + length l + 1 = buf_len" "length (obuf s) = buf_len"
  shows "dnsname_to_labels buf_len j l False s = Inl OutOfBounds"
proof -
  have l: "takeWhile (\<lambda>c. c \<noteq> CHR ''.'') l = l" "l \<noteq> []" "NUL \<notin> set l" "length l \<le> 63" using assms(1) by (auto simp: good_label_def takeWhile_eq_all_conv)
  let ?b = "overwrite (overwrite (obuf s) j [char_of (length l)]) (j + 1) l"
  have p: "put_label buf_len j l l False s = Inr (int (j + 1 + length l), s\<lparr>obuf := ?b\<rparr>)"
    using assms(2,3) l(4) by (simp add: put_label_def bnd_def ret_def st_at_def)
  have "?b ! (j + length l) = last l" using assms(2,3) l(2) by (subst overwrite_nth) (auto simp: Suc_le_eq last_conv_nth)
  then have "?b ! (j + length l) \<noteq> NUL" using l(2,3) last_in_set [of l] by metis
  moreover have "nat (1 + (int j + int (length l))) = Suc (j + length l)" by simp
  ultimately show ?thesis using assms(3) l(4) p unfolding assms(2) [symmetric]
    by (subst dnsname_to_labels_def, subst labels_loop.simps) (simp add: l(1) bnd_def ret_def put_end_def ld_at_def st_at_def)
qed

theorem dnsname_to_labels_overflows_witness:
  "dnsname_to_labels 4 0 ''abc'' False \<lparr>d_brk = 0, d_oom = \<lambda>_. False, obuf = ''wxyz'', lab_table = []\<rparr> = Inl OutOfBounds"
  by (rule dnsname_to_labels_overflows) (simp_all add: good_label_def)

text \<open>Names one behind the other. The result is where each of them starts and where the last one ends.\<close>

fun put_names :: "nat \<Rightarrow> nat \<Rightarrow> byte list list \<Rightarrow> nat list option drun" where
  "put_names buf_len j [] = ret (Some [j])"
| "put_names buf_len j (n # ns) =
     bnd (dnsname_to_labels buf_len j n True) (\<lambda>r.
     if r < 0 then ret None else orelse None (put_names buf_len (nat r) ns) (\<lambda>js. ret (Some (j # js))))"

lemma put_names_run:
  assumes "\<forall>ls\<in>set names. good_name ls" "j + sum_list (map (\<lambda>ls. length (dotted ls) + 2) names) \<le> bl" "bl \<le> length (obuf s)" "bl \<le> 16384" "0 < j"
    "tab_ok (take j (obuf s)) (lab_table s)"
  shows "\<exists>js s'. put_names bl j (map dotted names) s = Inr (Some js, s') \<and> length js = Suc (length names) \<and> js ! 0 = j \<and> out_kept s j s'
    \<and> (\<forall>i<length names. named_at (obuf s') (js ! i) (names ! i) (js ! Suc i))"
  using assms
proof (induction names arbitrary: j s)
  case Nil
  then show ?case by (auto simp: ret_def out_kept_def)
next
  case (Cons ls names)
  obtain s1 j1 where s1: "dnsname_to_labels bl j (dotted ls) True s = Inr (int j1, s1)" "wrote_name s j ls s1 j1" "tab_ok (take j1 (obuf s1)) (lab_table s1)"
    using dnsname_run [of ls j bl s True] Cons.prems by auto
  note b = wrote_name_bounds [OF s1(2)]
  obtain js s2 where s2: "put_names bl j1 (map dotted names) s1 = Inr (Some js, s2)" "length js = Suc (length names)" "js ! 0 = j1" "out_kept s1 j1 s2"
    "\<forall>i<length names. named_at (obuf s2) (js ! i) (names ! i) (js ! Suc i)"
    using Cons.IH [of j1 s1] Cons.prems s1(3) b by force
  have "put_names bl j (map dotted (ls # names)) s = Inr (Some (j # js), s2)"
    using s1(1) s2(1) by (simp add: bnd_def orelse_def ret_def)
  moreover have "named_at (obuf s2) j ls j1"
    using named_cong [OF wrote_named [OF s1(2)], of "obuf s2"] s2(4) b by (simp add: out_kept_def)
  moreover have "out_kept s j s2" using out_kept_trans [OF out_kept_name [OF s1(2), of j] s2(4)] b by simp
  ultimately show ?case using s2(2,3,5) by (intro exI [of _ "j # js"] exI [of _ s2]) (auto simp: nth_Cons' less_Suc_eq_0_disj)
qed

text \<open>
  C21. Names that are written one behind the other, each one shortened by a pointer to the longest of its tails that was written before, are
  read back as they were, and each of them ends where the next one starts.
\<close>

theorem names_round_trip:
  assumes "\<forall>ls\<in>set names. good_name ls" "j + sum_list (map (\<lambda>ls. length (dotted ls) + 2) names) \<le> buf_len" "buf_len \<le> length (obuf s)" "buf_len \<le> 16384"
    "0 < j" "lab_table s = []"
  shows "\<exists>js s'. put_names buf_len j (map dotted names) s = Inr (Some js, s') \<and> length js = Suc (length names) \<and> js ! 0 = j
    \<and> (\<forall>i<length names. name_parse (obuf s') (length (obuf s')) (js ! i) 256 t = Inr (Some (js ! Suc i, dotted (names ! i)), t))"
proof -
  obtain js s' where r: "put_names buf_len j (map dotted names) s = Inr (Some js, s')" "length js = Suc (length names)" "js ! 0 = j"
    "\<forall>i<length names. named_at (obuf s') (js ! i) (names ! i) (js ! Suc i)"
    using put_names_run [OF assms(1-5)] assms(6) by (auto simp: tab_ok_def)
  have "name_parse (obuf s') (length (obuf s')) (js ! i) 256 t = Inr (Some (js ! Suc i, dotted (names ! i)), t)" if "i < length names" for i
  proof (rule read_named)
    show n: "named_at (obuf s') (js ! i) (names ! i) (js ! Suc i)" using r(4) that by blast
    then show "js ! Suc i \<le> length (obuf s')" by (simp add: named_at_def)
    show "length (dotted (names ! i)) < 256" using bspec [OF assms(1) nth_mem [OF that]] by (simp add: good_name_def)
  qed simp
  then show ?thesis using r(1-3) by blast
qed

theorem names_round_trip_witness:
  "\<exists>js s'. put_names 100 12 (map dotted [[''www'', ''tk'', ''de''], [''ftp'', ''tk'', ''de'']])
       \<lparr>d_brk = 0, d_oom = \<lambda>_. False, obuf = replicate 100 (CHR ''x''), lab_table = []\<rparr> = Inr (Some js, s')
     \<and> name_parse (obuf s') (length (obuf s')) (js ! 1) 256 (0::nat) = Inr (Some (js ! 2, ''ftp.tk.de''), 0)"
proof -
  let ?names = "[[''www'', ''tk'', ''de''], [''ftp'', ''tk'', ''de'']]" and ?s = "\<lparr>d_brk = 0, d_oom = \<lambda>_. False, obuf = replicate 100 (CHR ''x''), lab_table = []\<rparr>"
  obtain js s' where r: "put_names 100 12 (map dotted ?names) ?s = Inr (Some js, s')"
    "\<forall>i<length ?names. name_parse (obuf s') (length (obuf s')) (js ! i) 256 (0::nat) = Inr (Some (js ! Suc i, dotted (?names ! i)), 0)"
    using names_round_trip [of ?names 12 100 ?s 0] by (auto simp: good_name_def good_label_def)
  have "name_parse (obuf s') (length (obuf s')) (js ! 1) 256 (0::nat) = Inr (Some (js ! 2, ''ftp.tk.de''), 0)"
    using r(2) [rule_format, of 1] by (simp add: eval_nat_numeral)
  then show ?thesis using r(1) by blast
qed

section \<open>The server\<close>

text \<open>
  A request with another operation code than that of a standard query is never refused: the flags have lost these bits before the test.
\<close>

theorem request_parse_any_opcode: "request_parse packet len addr s \<noteq> Inr (Not_Implemented req, s')"
proof -
  have "(x AND 0x0110) AND 0x7800 = 0" for x :: "16 word" by (simp add: and.assoc)
  then show ?thesis unfolding request_parse_def
    by (auto simp: orelse_def bnd_def ret_def Let_def dns_alloc_def split: sum.splits option.splits prod.splits)
qed

text \<open>
  A name in an answer that cannot be written, because it is too long, does not make the answer fail: a packet of 512 bytes is sent, of
  which all bytes behind the header are what the array on the stack held before.
\<close>

theorem format_response_leaks:
  assumes "questions req = []" "answer req = i # is" "255 < length (ri_name i)" "length (obuf s) = 1500" "\<forall>n. \<not> d_oom s n"
  shows "\<exists>req' s' p. evdns_server_request_format_response req 0 s = Inr ((0, req'), s') \<and> response req' = Some p \<and> length p = 512
    \<and> drop 12 p = take 500 (drop 12 (obuf s))"
proof -
  let ?h = "[sr_trans_id req, ucast (sr_flags req) OR 0x8000, 0, word_of_nat (n_answer req), word_of_nat (n_authority req), word_of_nat (n_additional req)] :: 16 word list"
  let ?s = "s\<lparr>lab_table := []\<rparr>"
  obtain s1 where s1: "append16s 1500 0 ?h ?s = Inr (Some 12, s1)" "wrote ?s 0 (be16s ?h) s1"
    using append16s_run [of 0 ?h 1500 ?s] assms(4) by auto
  have l: "length (obuf s1) = 1500" "drop 12 (obuf s1) = drop 12 (obuf s)" "\<forall>n. \<not> d_oom s1 n" using s1(2) assms(4,5) by (auto simp: wrote_def overwrite_def)
  let ?c = "char_of ((of_char (obuf s1 ! 2) :: nat) OR 0x02) :: byte"
  let ?b = "overwrite (obuf s1) 2 [?c]"
  let ?r = "server_request_free_answers (req\<lparr>response := Some (take 512 ?b)\<rparr>)" and ?s' = "s1\<lparr>obuf := ?b, d_brk := Suc (d_brk s1), lab_table := []\<rparr>"
  have f: "finish_response req None s1 = Inr ((0, ?r), ?s')"
    using l(1,3) by (simp add: finish_response_def bnd_def ret_def ld_at_def st_at_def dns_alloc_def dnslabel_clear_def)
  have i: "put_items 1500 12 (answer req @ authority req @ additional req) s1 = Inr (None, s1)"
    using assms(2,3) by (simp add: dnsname_to_labels_def bnd_def ret_def)
  have "evdns_server_request_format_response req 0 s = Inr ((0, ?r), ?s')"
    unfolding evdns_server_request_format_response_def using s1(1) f i assms(1)
    by (simp add: bnd_def ret_def dnslabel_table_init_def Let_def del: append16s.simps put_items.simps)
  moreover have "drop 12 ?b = drop 12 (obuf s)" using l(1,2) by (simp add: overwrite_def)
  ultimately show ?thesis using l(1) by (auto simp: server_request_free_answers_def drop_take)
qed

theorem format_response_leaks_witness:
  "\<exists>req' s' p. evdns_server_request_format_response
       \<lparr>sr_trans_id = 7, sr_addr = [], n_answer = 1, n_authority = 0, n_additional = 0,
        answer = [\<lparr>ri_name = replicate 300 (CHR ''a''), ri_type = TYPE_A, ri_class = CLASS_INET, ri_ttl = 60, is_name = False, ri_datalen = 4, ri_data = Some ''abcd''\<rparr>],
        authority = [], additional = [], response = None, sr_flags = 0, questions = []\<rparr> 0
       \<lparr>d_brk = 0, d_oom = \<lambda>_. False, obuf = replicate 1500 (CHR ''s''), lab_table = []\<rparr> = Inr ((0, req'), s')
     \<and> response req' = Some p \<and> length p = 512 \<and> drop 12 p = take 500 (drop 12 (replicate 1500 (CHR ''s'')))"
  using format_response_leaks
    [of "\<lparr>sr_trans_id = 7, sr_addr = [], n_answer = 1, n_authority = 0, n_additional = 0,
        answer = [\<lparr>ri_name = replicate 300 (CHR ''a''), ri_type = TYPE_A, ri_class = CLASS_INET, ri_ttl = 60, is_name = False, ri_datalen = 4, ri_data = Some ''abcd''\<rparr>],
        authority = [], additional = [], response = None, sr_flags = 0, questions = []\<rparr>"
      "\<lparr>ri_name = replicate 300 (CHR ''a''), ri_type = TYPE_A, ri_class = CLASS_INET, ri_ttl = 60, is_name = False, ri_datalen = 4, ri_data = Some ''abcd''\<rparr>" "[]"
      "\<lparr>d_brk = 0, d_oom = \<lambda>_. False, obuf = replicate 1500 (CHR ''s''), lab_table = []\<rparr>"]
  by simp

section \<open>From the question to the addresses\<close>

lemma add_a_reply_run:
  assumes "response req = None" "questions req = [\<lparr>q_type = TYPE_A, q_class = CLASS_INET, q_name = dotted ls\<rparr>]" "answer req = []" "authority req = []"
    "additional req = []" "n_answer req = 0" "n_authority req = 0" "n_additional req = 0" "\<forall>n. \<not> d_oom u n"
  shows "\<exists>req' u'. evdns_server_request_add_a_reply req (dotted ls) addrs ttl u = Inr ((0, req'), u') \<and> one_answer req' ls TYPE_A ttl addrs
    \<and> sr_trans_id req' = sr_trans_id req \<and> sr_flags req' = sr_flags req"
  using assms by (simp add: evdns_server_request_add_a_reply_def evdns_server_request_add_reply_def bnd_def ret_def dns_alloc_def one_answer_def add_item_def)

text \<open>
  C20. A question and its answer: the request that the resolver builds for the addresses of a name is taken by the server as a question for this
  name; when the server adds addresses and formats its response, the resolver that receives it, and still has the request,
  finds these addresses and their time to live.
\<close>

theorem dns_answer_round_trip:
  assumes "good_name ls" "length addrs = 4 * n" "n \<le> 32" "2 * length (dotted ls) + length addrs + 32 \<le> 512"
    "length (obuf s) = evdns_request_len (length (dotted ls))" "length (obuf r) = 1500" "\<forall>n. \<not> d_oom t n" "\<forall>n. \<not> d_oom u n" "\<forall>n. \<not> d_oom r n"
  shows "\<exists>len s' req t' req1 u' req2 r' p.
    evdns_request_data_build (dotted ls) tid TYPE_A CLASS_INET (evdns_request_len (length (dotted ls))) s = Inr (int len, s')
    \<and> request_parse (take len (obuf s')) len addr t = Inr (Called_Back req, t')
    \<and> questions req = [\<lparr>q_type = TYPE_A, q_class = CLASS_INET, q_name = dotted ls\<rparr>] \<and> sr_addr req = addr
    \<and> evdns_server_request_add_a_reply req (dotted ls) addrs ttl u = Inr ((0, req1), u')
    \<and> evdns_server_request_format_response req1 0 r = Inr ((0, req2), r') \<and> response req2 = Some p
    \<and> (\<forall>base q m. request_find_from_trans_id base tid = Some q \<and> rq_request q = take len (obuf s') \<and> rq_type q = 1 \<longrightarrow>
         reply_parse base p (length p) m = Inr ((0, Some (q, 0x8100, if ttl = 0xffffffff then 0 else ttl,
           Some ((no_reply q)\<lparr>v4_data := addrs, v4_count := n, have_answer := True\<rparr>))), m :: dns_mem))"
proof -
  obtain s' j where b: "evdns_request_data_build (dotted ls) tid TYPE_A CLASS_INET (evdns_request_len (length (dotted ls))) s = Inr (int (j + 4), s')"
    "asks (obuf s') [tid, 0x0100, 1, 0, 0, 0] ls j TYPE_A CLASS_INET"
    using request_build_run [of ls "evdns_request_len (length (dotted ls))" s tid TYPE_A CLASS_INET] assms(1,5) by (auto simp: evdns_request_len_def good_name_def)
  let ?q = "take (j + 4) (obuf s')"
  have jl: "j + 4 \<le> length (obuf s')" using b(2) by (simp add: asks_def)
  have a: "asks ?q [tid, 0x0100, 1, 0, 0, 0] ls j TYPE_A CLASS_INET" by (rule asks_take [OF b(2) le_refl jl])
  obtain t' req where p: "request_parse ?q (j + 4) addr t = Inr (Called_Back req, t')" "sr_trans_id req = tid" "sr_addr req = addr" "sr_flags req = 0x0100"
    "questions req = [\<lparr>q_type = TYPE_A, q_class = CLASS_INET, q_name = dotted ls\<rparr>]" "response req = None" "answer req = []" "authority req = []" "additional req = []"
    "n_answer req = 0" "n_authority req = 0" "n_additional req = 0"
    using request_parse_run [OF a assms(1) _ _ assms(7), of "j + 4" addr] jl by auto
  obtain req1 u' where r1: "evdns_server_request_add_a_reply req (dotted ls) addrs ttl u = Inr ((0, req1), u')" "one_answer req1 ls TYPE_A ttl addrs"
    "sr_trans_id req1 = tid" "sr_flags req1 = 0x0100" using add_a_reply_run [OF p(6,5,7-12) assms(8), of addrs ttl] p(2,4) by auto
  have fl: "ucast (sr_flags req1) OR 0x8000 = (0x8100 :: 16 word)" using r1(4) by simp
  obtain r' req2 k i pk where f: "evdns_server_request_format_response req1 0 r = Inr ((0, req2), r')" "response req2 = Some pk"
    "asks pk [tid, 0x8100, 1, 1, 0, 0] ls k TYPE_A CLASS_INET" "record_at pk (k + 4) ls i TYPE_A CLASS_INET ttl addrs"
    using format_run [OF r1(2) assms(1,4,6,9)] r1(3) fl by auto
  have "reply_parse base pk (length pk) m = Inr ((0, Some (q, 0x8100, if ttl = 0xffffffff then 0 else ttl,
      Some ((no_reply q)\<lparr>v4_data := addrs, v4_count := n, have_answer := True\<rparr>))), m)"
    if "request_find_from_trans_id base tid = Some q" "rq_request q = ?q" "rq_type q = 1" for base q and m :: dns_mem
    by (rule reply_parse_run [OF f(3,4) assms(1-3) that(1) _ that(3), of j]) (use a that(2) in \<open>simp_all add: asks_def\<close>)
  then show ?thesis using b(1) p(1,3,5) r1(1) f(1,2) by blast
qed

theorem dns_answer_round_trip_witness:
  "\<exists>len s' req t' req1 u' req2 r' p q base.
    evdns_request_data_build ''tk.de'' 7 TYPE_A CLASS_INET 107 \<lparr>d_brk = 0, d_oom = \<lambda>_. False, obuf = replicate 107 NUL, lab_table = []\<rparr> = Inr (int len, s')
    \<and> request_parse (take len (obuf s')) len [] \<lparr>d_brk = 0, d_oom = \<lambda>_. False, port_refcnt = 1\<rparr> = Inr (Called_Back req, t')
    \<and> evdns_server_request_add_a_reply req ''tk.de'' ''wxyz'' 60 \<lparr>d_brk = 0, d_oom = \<lambda>_. False\<rparr> = Inr ((0, req1), u')
    \<and> evdns_server_request_format_response req1 0 \<lparr>d_brk = 0, d_oom = \<lambda>_. False, obuf = replicate 1500 NUL, lab_table = []\<rparr> = Inr ((0, req2), r')
    \<and> response req2 = Some p
    \<and> q = \<lparr>rq_request = take len (obuf s'), rq_type = 1, rq_trans_id = 7, put_cname = None\<rparr>
    \<and> base = \<lparr>req_heads = [[q]], global_randomize_case = True\<rparr>
    \<and> reply_parse base p (length p) \<lparr>d_brk = 0, d_oom = \<lambda>_. False\<rparr>
       = Inr ((0, Some (q, 0x8100, 60, Some ((no_reply q)\<lparr>v4_data := ''wxyz'', v4_count := 1, have_answer := True\<rparr>))), \<lparr>d_brk = 0, d_oom = \<lambda>_. False\<rparr>)"
proof -
  let ?ls = "[''tk'', ''de'']" and ?m = "\<lparr>d_brk = 0, d_oom = \<lambda>_. False\<rparr>"
  let ?s = "\<lparr>d_brk = 0, d_oom = \<lambda>_. False, obuf = replicate 107 NUL, lab_table = []\<rparr>" and ?r = "\<lparr>d_brk = 0, d_oom = \<lambda>_. False, obuf = replicate 1500 NUL, lab_table = []\<rparr>"
  obtain len s' req t' req1 u' req2 r' p where
    e: "evdns_request_data_build ''tk.de'' 7 TYPE_A CLASS_INET 107 ?s = Inr (int len, s')"
      "request_parse (take len (obuf s')) len [] \<lparr>d_brk = 0, d_oom = \<lambda>_. False, port_refcnt = 1\<rparr> = Inr (Called_Back req, t')"
      "evdns_server_request_add_a_reply req ''tk.de'' ''wxyz'' 60 ?m = Inr ((0, req1), u')"
      "evdns_server_request_format_response req1 0 ?r = Inr ((0, req2), r')" "response req2 = Some p"
    and reply: "\<And>base q m. request_find_from_trans_id base 7 = Some q \<Longrightarrow> rq_request q = take len (obuf s') \<Longrightarrow> rq_type q = 1 \<Longrightarrow>
       reply_parse base p (length p) m = Inr ((0, Some (q, 0x8100, 60, Some ((no_reply q)\<lparr>v4_data := ''wxyz'', v4_count := 1, have_answer := True\<rparr>))), m :: dns_mem)"
    using dns_answer_round_trip [of ?ls "''wxyz''" 1 ?s ?r "\<lparr>d_brk = 0, d_oom = \<lambda>_. False, port_refcnt = 1\<rparr>" ?m 7 "[]" 60]
    by (auto simp: good_name_def good_label_def evdns_request_len_def)
  let ?q = "\<lparr>rq_request = take len (obuf s'), rq_type = 1, rq_trans_id = 7, put_cname = None\<rparr>"
  let ?b = "\<lparr>req_heads = [[?q]], global_randomize_case = True\<rparr>"
  have "request_find_from_trans_id ?b 7 = Some ?q" by (simp add: request_find_from_trans_id_def)
  then have "reply_parse ?b p (length p) ?m = Inr ((0, Some (?q, 0x8100, 60, Some ((no_reply ?q)\<lparr>v4_data := ''wxyz'', v4_count := 1, have_answer := True\<rparr>))), ?m)"
    by (rule reply) simp_all
  then show ?thesis using e by blast
qed

end
