(* ===== verification/Event_Base.thy ===== *)
theory Event_Base
  imports Min_Heap
begin

unbundle bit_operations_syntax

text \<open>
  The event base of \<^verbatim>\<open>libevent/event.c\<close> with the maps of \<^verbatim>\<open>libevent/evmap.c\<close>: events, the queues they stand in, the map
  from descriptors and signals to events, timeouts, and adding, deleting and activating an event.

  There is one base and one thread, so the locks and the wake-up of another thread are left out. A queue of the
  \<^verbatim>\<open>TAILQ\<close> macros is a list; removing an event that is not in the queue is a fault. Sets of bits in a \<^verbatim>\<open>short\<close> are
  sets. The fields \<^verbatim>\<open>ev_timeout\<close> and \<^verbatim>\<open>min_heap_idx\<close> of an event are those in the timeout heap. The back end is a sequence of
  replies, and its calls are recorded; so is the clock, which does not fail. The fields for signals and those for persistent events share memory in the code; no
  event uses both. \<^verbatim>\<open>event_errx\<close> and a failed \<^verbatim>\<open>EVUTIL_ASSERT\<close> end the program.
\<close>

section \<open>State\<close>

datatype evlist = EVLIST_TIMEOUT | EVLIST_INSERTED | EVLIST_SIGNAL | EVLIST_ACTIVE | EVLIST_INTERNAL | EVLIST_INIT

datatype evbit = EV_TIMEOUT | EV_READ | EV_WRITE | EV_SIGNAL | EV_PERSIST | EV_ET

datatype ev_closure = EV_CLOSURE_NONE | EV_CLOSURE_SIGNAL | EV_CLOSURE_PERSIST

text \<open>What is called: code of the user, or one of the callbacks of \<^verbatim>\<open>event.c\<close>.\<close>

datatype once_cb = Once_User | Once_Loopexit

datatype ev_callback = Cb_User | Cb_Common_Timeout nat | Cb_Once once_cb

text \<open>\<open>ev_pncalls\<close> is a pointer to a local variable of \<^verbatim>\<open>event_signal_closure\<close>, named by the number of the call.\<close>

record event =
  ev_fd :: int
  ev_base :: bool
  ev_io_timeout :: timeval
  ev_ncalls :: "16 word"
  ev_pncalls :: "nat option"
  ev_events :: "evbit set"
  ev_res :: "evbit set"
  ev_flags :: "evlist set"
  ev_pri :: nat
  ev_close :: ev_closure
  ev_call :: ev_callback

record evmap_io =
  io_events :: "eptr list"
  nread :: nat
  nwrite :: nat

record common_timeout_list =
  ctl_events :: "eptr list"
  ctl_duration :: timeval
  ctl_timeout_event :: eptr

datatype be_call = Be_Add int "evbit set" "evbit set" | Be_Del int "evbit set" "evbit set" | Sig_Add int | Sig_Del int

record event_base =
  evs :: "eptr \<Rightarrow> event option"
  timeheap :: min_heap
  eventqueue :: "eptr list"
  activequeues :: "eptr list list"
  common_timeout_queues :: "common_timeout_list list"
  n_common_timeouts_allocated :: nat
  io_map :: "evmap_io option list"
  sigmap :: "eptr list option list"
  event_count :: int
  event_count_active :: int
  virtual_event_count :: int
  event_gotterm :: bool
  event_break :: bool
  event_continue :: bool
  event_running_priority :: int
  running_loop :: bool
  event_tv :: timeval
  tv_cache :: timeval
  no_cache_time :: bool
  use_monotonic :: bool
  debug_mode :: bool
  deferred :: "nat list"
  deferred_count :: int
  queued :: "nat \<Rightarrow> bool"
  sig_ncalls :: "nat \<Rightarrow> 16 word option"
  sig_frames :: nat
  tv_clock_diff :: timeval
  last_updated_clock_diff :: int
  eb_clock :: "nat \<Rightarrow> timeval"
  eb_wall :: "nat \<Rightarrow> timeval"
  eb_reads :: nat
  be_fails :: "nat \<Rightarrow> be_call \<Rightarrow> bool"
  be_calls :: "(be_call \<times> bool) list"
  eb_brk :: eptr
  eb_oom :: "nat \<Rightarrow> bool"
  ev_log :: "(eptr \<times> evbit set) list"

type_synonym 'a erun = "(event_base, 'a) run"

section \<open>Access\<close>

definition ld_ev :: "eptr \<Rightarrow> event erun" where
  "ld_ev ev = (\<lambda>s. case evs s ev of None \<Rightarrow> Inl BadPointer | Some x \<Rightarrow> Inr (x, s))"

definition upd_ev :: "eptr \<Rightarrow> (event \<Rightarrow> event) \<Rightarrow> unit erun" where
  "upd_ev ev f = bnd (ld_ev ev) (\<lambda>x s. Inr ((), s\<lparr>evs := (evs s)(ev \<mapsto> f x)\<rparr>))"

definition ask :: "(event_base \<Rightarrow> 'a) \<Rightarrow> 'a erun" where
  "ask f = (\<lambda>s. Inr (f s, s))"

definition upd_base :: "(event_base \<Rightarrow> event_base) \<Rightarrow> unit erun" where
  "upd_base f = (\<lambda>s. Inr ((), f s))"

definition in_heap :: "'a hrun \<Rightarrow> 'a erun" where
  "in_heap f = (\<lambda>s. case f (timeheap s) of Inl e \<Rightarrow> Inl e | Inr (x, h) \<Rightarrow> Inr (x, s\<lparr>timeheap := h\<rparr>))"

definition ld_timeout :: "eptr \<Rightarrow> timeval erun" where
  "ld_timeout ev = bnd (in_heap (event_of ev)) (\<lambda>y. ret (ev_timeout y))"

definition st_timeout :: "eptr \<Rightarrow> timeval \<Rightarrow> unit erun" where
  "st_timeout ev tv = in_heap (bnd (event_of ev) (\<lambda>y h. Inr ((), h\<lparr>mh_events := (mh_events h)(ev \<mapsto> y\<lparr>ev_timeout := tv\<rparr>)\<rparr>)))"

definition ev_alloc :: "eptr erun" where
  "ev_alloc = (\<lambda>s. Inr (if eb_oom s (eb_brk s) then 0 else eb_brk s, s\<lparr>eb_brk := Suc (eb_brk s)\<rparr>))"

definition TAILQ_REMOVE :: "eptr \<Rightarrow> eptr list \<Rightarrow> eptr list erun" where
  "TAILQ_REMOVE ev q = (if ev \<in> set q then ret (remove1 ev q) else stop BadPointer)"

definition backend :: "be_call \<Rightarrow> bool erun" where
  "backend c = (\<lambda>s. let ok = \<not> be_fails s (length (be_calls s)) c in Inr (ok, s\<lparr>be_calls := be_calls s @ [(c, ok)]\<rparr>))"

section \<open>Times\<close>

text \<open>Seconds are unbounded here: the sums of the code stay far from the limits of a 64-bit \<^verbatim>\<open>time_t\<close>.\<close>

definition evutil_timeradd :: "timeval \<Rightarrow> timeval \<Rightarrow> timeval" where
  "evutil_timeradd t u =
     (let s = tv_sec t + tv_sec u; us = tv_usec t + tv_usec u in
      if us \<ge> 1000000 then \<lparr>tv_sec = s + 1, tv_usec = us - 1000000\<rparr> else \<lparr>tv_sec = s, tv_usec = us\<rparr>)"

definition evutil_timersub :: "timeval \<Rightarrow> timeval \<Rightarrow> timeval" where
  "evutil_timersub t u =
     (let s = tv_sec t - tv_sec u; us = tv_usec t - tv_usec u in
      if us < 0 then \<lparr>tv_sec = s - 1, tv_usec = us + 1000000\<rparr> else \<lparr>tv_sec = s, tv_usec = us\<rparr>)"

text \<open>
  A reading of the clock in use, \<open>eb_clock\<close>, or of the time of day, \<open>eb_wall\<close>, succeeds. With a monotonic clock the distance to the time of day is kept.
\<close>

definition CLOCK_SYNC_INTERVAL :: int where "CLOCK_SYNC_INTERVAL = - 1"

definition gettime :: "timeval erun" where
  "gettime = (\<lambda>s.
     if tv_sec (tv_cache s) \<noteq> 0 then Inr (tv_cache s, s)
     else
       let t = eb_clock s (eb_reads s);
           sync = use_monotonic s \<and> last_updated_clock_diff s + CLOCK_SYNC_INTERVAL < tv_sec t in
       Inr (t, s\<lparr>eb_reads := Suc (eb_reads s),
         tv_clock_diff := if sync then evutil_timersub (eb_wall s (eb_reads s)) t else tv_clock_diff s,
         last_updated_clock_diff := if sync then tv_sec t else last_updated_clock_diff s\<rparr>))"

definition event_base_gettimeofday_cached :: "timeval erun" where
  "event_base_gettimeofday_cached = (\<lambda>s.
     if tv_sec (tv_cache s) = 0 then Inr (eb_wall s (eb_reads s), s\<lparr>eb_reads := Suc (eb_reads s)\<rparr>)
     else Inr (evutil_timeradd (tv_cache s) (tv_clock_diff s), s))"

definition clear_time_cache :: "unit erun" where
  "clear_time_cache = upd_base (\<lambda>s. s\<lparr>tv_cache := (tv_cache s)\<lparr>tv_sec := 0\<rparr>\<rparr>)"

definition update_time_cache :: "unit erun" where
  "update_time_cache =
     bnd clear_time_cache (\<lambda>_.
     bnd (ask no_cache_time) (\<lambda>nc.
     if \<not> nc then bnd gettime (\<lambda>t. upd_base (\<lambda>s. s\<lparr>tv_cache := t\<rparr>)) else ret ()))"

definition MICROSECONDS_MASK :: int where "MICROSECONDS_MASK = 0x000fffff"
definition COMMON_TIMEOUT_IDX_MASK :: int where "COMMON_TIMEOUT_IDX_MASK = 0x0ff00000"
definition COMMON_TIMEOUT_IDX_SHIFT :: nat where "COMMON_TIMEOUT_IDX_SHIFT = 20"
definition COMMON_TIMEOUT_MASK :: int where "COMMON_TIMEOUT_MASK = 0xf0000000"
definition COMMON_TIMEOUT_MAGIC :: int where "COMMON_TIMEOUT_MAGIC = 0x50000000"

definition COMMON_TIMEOUT_IDX :: "timeval \<Rightarrow> nat" where
  "COMMON_TIMEOUT_IDX tv = nat (drop_bit COMMON_TIMEOUT_IDX_SHIFT (tv_usec tv AND COMMON_TIMEOUT_IDX_MASK))"

definition is_common_timeout :: "timeval \<Rightarrow> event_base \<Rightarrow> bool" where
  "is_common_timeout tv base =
     (if tv_usec tv AND COMMON_TIMEOUT_MASK \<noteq> COMMON_TIMEOUT_MAGIC then False
      else COMMON_TIMEOUT_IDX tv < length (common_timeout_queues base))"

definition is_same_common_timeout :: "timeval \<Rightarrow> timeval \<Rightarrow> bool" where
  "is_same_common_timeout t u \<longleftrightarrow> tv_usec t AND NOT MICROSECONDS_MASK = tv_usec u AND NOT MICROSECONDS_MASK"

text \<open>The time without its magic bits.\<close>

definition plain_time :: "timeval \<Rightarrow> timeval" where
  "plain_time tv = tv\<lparr>tv_usec := tv_usec tv AND MICROSECONDS_MASK\<rparr>"

definition ld_ctl :: "nat \<Rightarrow> common_timeout_list erun" where
  "ld_ctl i = (\<lambda>s. if i < length (common_timeout_queues s) then Inr (common_timeout_queues s ! i, s) else Inl OutOfBounds)"

definition get_common_timeout_list :: "timeval \<Rightarrow> common_timeout_list erun" where
  "get_common_timeout_list tv = ld_ctl (COMMON_TIMEOUT_IDX tv)"

definition set_ctl_events :: "nat \<Rightarrow> eptr list \<Rightarrow> unit erun" where
  "set_ctl_events i es = upd_base (\<lambda>s. s\<lparr>common_timeout_queues := (common_timeout_queues s)[i := (common_timeout_queues s ! i)\<lparr>ctl_events := es\<rparr>]\<rparr>)"

section \<open>Queues\<close>

text \<open>The search from the end of the list for the place of an event; the list is given from its end.\<close>

fun insert_from_end :: "eptr \<Rightarrow> eptr list \<Rightarrow> eptr list erun" where
  "insert_from_end ev [] = ret [ev]"
| "insert_from_end ev (e # es) =
     bnd (ld_timeout e) (\<lambda>u.
     bnd (ld_timeout ev) (\<lambda>t.
     if \<not> is_same_common_timeout u t then stop AssertFailed
     else if \<not> timercmp_gt u t then ret (ev # e # es)
     else bnd (insert_from_end ev es) (\<lambda>es. ret (e # es))))"

definition insert_common_timeout_inorder :: "nat \<Rightarrow> eptr \<Rightarrow> unit erun" where
  "insert_common_timeout_inorder i ev =
     bnd (ld_ctl i) (\<lambda>ctl.
     bnd (insert_from_end ev (rev (ctl_events ctl))) (\<lambda>es. set_ctl_events i (rev es)))"

definition ld_active :: "nat \<Rightarrow> eptr list erun" where
  "ld_active p = (\<lambda>s. if p < length (activequeues s) then Inr (activequeues s ! p, s) else Inl OutOfBounds)"

definition set_active :: "nat \<Rightarrow> eptr list \<Rightarrow> unit erun" where
  "set_active p q = upd_base (\<lambda>s. s\<lparr>activequeues := (activequeues s)[p := q]\<rparr>)"

definition count_event :: "event \<Rightarrow> int \<Rightarrow> unit erun" where
  "count_event x d = (if EVLIST_INTERNAL \<notin> ev_flags x then upd_base (\<lambda>s. s\<lparr>event_count := event_count s + d\<rparr>) else ret ())"

definition event_queue_remove :: "eptr \<Rightarrow> evlist \<Rightarrow> unit erun" where
  "event_queue_remove ev which =
     bnd (ld_ev ev) (\<lambda>x.
     if which \<notin> ev_flags x then stop AssertFailed
     else
       bnd (count_event x (- 1)) (\<lambda>_.
       bnd (upd_ev ev (\<lambda>x. x\<lparr>ev_flags := ev_flags x - {which}\<rparr>)) (\<lambda>_.
       case which of
         EVLIST_INSERTED \<Rightarrow>
           bnd (ask eventqueue) (\<lambda>q. bnd (TAILQ_REMOVE ev q) (\<lambda>q. upd_base (\<lambda>s. s\<lparr>eventqueue := q\<rparr>)))
       | EVLIST_ACTIVE \<Rightarrow>
           bnd (upd_base (\<lambda>s. s\<lparr>event_count_active := event_count_active s - 1\<rparr>)) (\<lambda>_.
           bnd (ld_active (ev_pri x)) (\<lambda>q. bnd (TAILQ_REMOVE ev q) (\<lambda>q. set_active (ev_pri x) q)))
       | EVLIST_TIMEOUT \<Rightarrow>
           bnd (ld_timeout ev) (\<lambda>tv.
           bnd (ask (is_common_timeout tv)) (\<lambda>c.
           if c then
             bnd (get_common_timeout_list tv) (\<lambda>ctl.
             bnd (TAILQ_REMOVE ev (ctl_events ctl)) (\<lambda>q. set_ctl_events (COMMON_TIMEOUT_IDX tv) q))
           else bnd (in_heap (min_heap_erase ev)) (\<lambda>_. ret ())))
       | _ \<Rightarrow> stop AssertFailed)))"

definition event_queue_insert :: "eptr \<Rightarrow> evlist \<Rightarrow> unit erun" where
  "event_queue_insert ev which =
     bnd (ld_ev ev) (\<lambda>x.
     if which \<in> ev_flags x then (if which = EVLIST_ACTIVE then ret () else stop AssertFailed)
     else
       bnd (count_event x 1) (\<lambda>_.
       bnd (upd_ev ev (\<lambda>x. x\<lparr>ev_flags := insert which (ev_flags x)\<rparr>)) (\<lambda>_.
       case which of
         EVLIST_INSERTED \<Rightarrow> upd_base (\<lambda>s. s\<lparr>eventqueue := eventqueue s @ [ev]\<rparr>)
       | EVLIST_ACTIVE \<Rightarrow>
           bnd (upd_base (\<lambda>s. s\<lparr>event_count_active := event_count_active s + 1\<rparr>)) (\<lambda>_.
           bnd (ld_active (ev_pri x)) (\<lambda>q. set_active (ev_pri x) (q @ [ev])))
       | EVLIST_TIMEOUT \<Rightarrow>
           bnd (ld_timeout ev) (\<lambda>tv.
           bnd (ask (is_common_timeout tv)) (\<lambda>c.
           if c then insert_common_timeout_inorder (COMMON_TIMEOUT_IDX tv) ev
           else bnd (in_heap (min_heap_push ev)) (\<lambda>_. ret ())))
       | _ \<Rightarrow> stop AssertFailed)))"

section \<open>Activating\<close>

text \<open>Stop the loop that is calling back this signal event, if there is one.\<close>

definition abort_loop :: "eptr \<Rightarrow> unit erun" where
  "abort_loop ev =
     bnd (ld_ev ev) (\<lambda>x.
     if ev_ncalls x \<noteq> 0 then
       (case ev_pncalls x of None \<Rightarrow> ret ()
        | Some k \<Rightarrow> bnd (ask (\<lambda>s. sig_ncalls s k)) (\<lambda>v.
            if v = None then stop BadPointer else upd_base (\<lambda>s. s\<lparr>sig_ncalls := (sig_ncalls s)(k \<mapsto> 0)\<rparr>)))
     else ret ())"

definition event_active_nolock :: "eptr \<Rightarrow> evbit set \<Rightarrow> 16 word \<Rightarrow> unit erun" where
  "event_active_nolock ev res ncalls =
     bnd (ld_ev ev) (\<lambda>x.
     if EVLIST_ACTIVE \<in> ev_flags x then upd_ev ev (\<lambda>x. x\<lparr>ev_res := ev_res x \<union> res\<rparr>)
     else
       bnd (upd_ev ev (\<lambda>x. x\<lparr>ev_res := res\<rparr>)) (\<lambda>_.
       bnd (upd_base (\<lambda>s. if int (ev_pri x) < event_running_priority s then s\<lparr>event_continue := True\<rparr> else s)) (\<lambda>_.
       bnd (if EV_SIGNAL \<in> ev_events x then upd_ev ev (\<lambda>x. x\<lparr>ev_ncalls := ncalls, ev_pncalls := None\<rparr>) else ret ()) (\<lambda>_.
       event_queue_insert ev EVLIST_ACTIVE))))"

definition event_active :: "eptr \<Rightarrow> evbit set \<Rightarrow> 16 word \<Rightarrow> unit erun" where
  "event_active ev res ncalls =
     bnd (ld_ev ev) (\<lambda>x. if \<not> ev_base x then ret () else event_active_nolock ev res ncalls)"

end
