(* ===== verification/Event_Ops.thy ===== *)
theory Event_Ops
  imports Event_Base
begin

unbundle bit_operations_syntax

text \<open>
  The maps from descriptors and signals to events (\<^verbatim>\<open>libevent/evmap.c\<close>), and adding and deleting events, common timeouts and the
  timeouts that are due (\<^verbatim>\<open>libevent/event.c\<close>).
\<close>

section \<open>Maps\<close>

text \<open>Doubling until the slot is there.\<close>

function grow_entries :: "nat \<Rightarrow> nat \<Rightarrow> nat" where
  "grow_entries n sl = (if 0 < n \<and> n \<le> sl then grow_entries (2 * n) sl else n)"
  by pat_completeness auto

termination
  by (relation "measure (\<lambda>(n, sl). Suc sl - n)") auto

declare grow_entries.simps [simp del]

text \<open>
  The size of the array, at eight bytes for each entry, is computed as an \<^verbatim>\<open>int\<close>. When it does not fit the result is undefined, a fault here;
  the shift in the loop overflows only when the size does.
\<close>

definition evmap_make_space :: "'a option list \<Rightarrow> nat \<Rightarrow> 'a option list option erun" where
  "evmap_make_space entries sl =
     (if length entries \<le> sl then
        let n = grow_entries (if entries \<noteq> [] then length entries else 32) sl in
        if n * 8 \<ge> 2 ^ 31 then stop OutOfBounds
        else bnd ev_alloc (\<lambda>tmp. if tmp = 0 then ret None else ret (Some (entries @ replicate (n - length entries) None)))
      else ret (Some entries))"

definition set_io :: "nat \<Rightarrow> evmap_io option \<Rightarrow> unit erun" where
  "set_io fd c = upd_base (\<lambda>s. s\<lparr>io_map := (io_map s)[fd := c]\<rparr>)"

definition evmap_io_init :: evmap_io where
  "evmap_io_init = \<lparr>io_events = [], nread = 0, nwrite = 0\<rparr>"

text \<open>The entry for a descriptor, made when it is not there; \<open>None\<close> when memory runs out.\<close>

definition GET_IO_SLOT_AND_CTOR :: "nat \<Rightarrow> evmap_io option erun" where
  "GET_IO_SLOT_AND_CTOR fd =
     bnd (ask (\<lambda>s. io_map s ! fd)) (\<lambda>c.
     if c = None then
       bnd ev_alloc (\<lambda>p. if p = 0 then ret None else bnd (set_io fd (Some evmap_io_init)) (\<lambda>_. ret (Some evmap_io_init)))
     else ret c)"

definition wants :: "evbit \<Rightarrow> bool \<Rightarrow> evbit set" where
  "wants b c = (if c then {b} else {})"

text \<open>Edge-triggered and level-triggered events on one descriptor, which only the debug mode refuses.\<close>

definition mixes_et :: "evmap_io \<Rightarrow> event \<Rightarrow> bool erun" where
  "mixes_et c x =
     bnd (ask debug_mode) (\<lambda>dbg.
     if dbg \<and> io_events c \<noteq> [] then
       bnd (ld_ev (hd (io_events c))) (\<lambda>y. ret ((EV_ET \<in> ev_events y) \<noteq> (EV_ET \<in> ev_events x)))
     else ret False)"

text \<open>The two halves of \<open>evmap_io_add\<close>: finding the entry of the descriptor, and counting and listing the event there.\<close>

definition io_slot :: "nat \<Rightarrow> evmap_io option erun" where
  "io_slot fd =
     bnd (ask io_map) (\<lambda>m.
     bnd (evmap_make_space m fd) (\<lambda>m. case m of None \<Rightarrow> ret None
     | Some m \<Rightarrow> bnd (upd_base (\<lambda>s. s\<lparr>io_map := m\<rparr>)) (\<lambda>_. GET_IO_SLOT_AND_CTOR fd)))"

definition io_insert :: "nat \<Rightarrow> eptr \<Rightarrow> event \<Rightarrow> evmap_io \<Rightarrow> int erun" where
  "io_insert fd ev x c =
     (let old = wants EV_READ (nread c \<noteq> 0) \<union> wants EV_WRITE (nwrite c \<noteq> 0);
          nr = (if EV_READ \<in> ev_events x then nread c + 1 else nread c);
          nw = (if EV_WRITE \<in> ev_events x then nwrite c + 1 else nwrite c);
          res = wants EV_READ (EV_READ \<in> ev_events x \<and> nr = 1) \<union> wants EV_WRITE (EV_WRITE \<in> ev_events x \<and> nw = 1) in
      if nr > 0xffff \<or> nw > 0xffff then ret (- 1)
      else
        bnd (mixes_et c x) (\<lambda>mix.
        if mix then ret (- 1)
        else
          bnd (if res \<noteq> {} then backend (Be_Add (int fd) old (ev_events x \<inter> {EV_ET} \<union> res)) else ret True) (\<lambda>ok.
          if \<not> ok then ret (- 1)
          else
            bnd (set_io fd (Some \<lparr>io_events = io_events c @ [ev], nread = nr, nwrite = nw\<rparr>)) (\<lambda>_.
            ret (if res \<noteq> {} then 1 else 0)))))"

definition evmap_io_add :: "int \<Rightarrow> eptr \<Rightarrow> int erun" where
  "evmap_io_add fd ev =
     bnd (ld_ev ev) (\<lambda>x.
     if fd \<noteq> ev_fd x then stop AssertFailed
     else if fd < 0 then ret 0
     else bnd (io_slot (nat fd)) (\<lambda>ctx. case ctx of None \<Rightarrow> ret (- 1) | Some c \<Rightarrow> io_insert (nat fd) ev x c))"

text \<open>The second half of \<open>evmap_io_del\<close>. The assertions \<^verbatim>\<open>nread >= 0\<close> and \<^verbatim>\<open>nwrite >= 0\<close> come after the decrement.\<close>

definition io_remove :: "nat \<Rightarrow> eptr \<Rightarrow> event \<Rightarrow> evmap_io \<Rightarrow> int erun" where
  "io_remove fd ev x c =
     (let old = wants EV_READ (nread c \<noteq> 0) \<union> wants EV_WRITE (nwrite c \<noteq> 0);
          r = EV_READ \<in> ev_events x; w = EV_WRITE \<in> ev_events x;
          res = wants EV_READ (r \<and> nread c = 1) \<union> wants EV_WRITE (w \<and> nwrite c = 1) in
      if (r \<and> nread c = 0) \<or> (w \<and> nwrite c = 0) then stop AssertFailed
      else
        bnd (if res \<noteq> {} then backend (Be_Del (int fd) old res) else ret True) (\<lambda>ok.
        if \<not> ok then ret (- 1)
        else
          bnd (TAILQ_REMOVE ev (io_events c)) (\<lambda>q.
          bnd (set_io fd (Some \<lparr>io_events = q, nread = (if r then nread c - 1 else nread c), nwrite = (if w then nwrite c - 1 else nwrite c)\<rparr>)) (\<lambda>_.
          ret (if res \<noteq> {} then 1 else 0)))))"

definition evmap_io_del :: "int \<Rightarrow> eptr \<Rightarrow> int erun" where
  "evmap_io_del fd ev =
     (if fd < 0 then ret 0
      else
        bnd (ld_ev ev) (\<lambda>x.
        if fd \<noteq> ev_fd x then stop AssertFailed
        else
          bnd (ask io_map) (\<lambda>m.
          if nat fd \<ge> length m then ret (- 1)
          else case m ! nat fd of None \<Rightarrow> stop NullDeref | Some c \<Rightarrow> io_remove (nat fd) ev x c)))"

fun activate_all :: "(event \<Rightarrow> evbit set) \<Rightarrow> 16 word \<Rightarrow> eptr list \<Rightarrow> unit erun" where
  "activate_all what ncalls [] = ret ()"
| "activate_all what ncalls (ev # es) =
     bnd (ld_ev ev) (\<lambda>x.
     bnd (if what x \<noteq> {} then event_active_nolock ev (what x) ncalls else ret ()) (\<lambda>_. activate_all what ncalls es))"

definition evmap_io_active :: "int \<Rightarrow> evbit set \<Rightarrow> unit erun" where
  "evmap_io_active fd events =
     bnd (ask io_map) (\<lambda>m.
     if fd \<ge> int (length m) then stop AssertFailed
     else if fd < 0 then stop OutOfBounds
     else case m ! nat fd of None \<Rightarrow> stop AssertFailed
     | Some c \<Rightarrow> activate_all (\<lambda>x. ev_events x \<inter> events) 1 (io_events c))"

definition set_sig :: "nat \<Rightarrow> eptr list option \<Rightarrow> unit erun" where
  "set_sig sig c = upd_base (\<lambda>s. s\<lparr>sigmap := (sigmap s)[sig := c]\<rparr>)"

definition GET_SIGNAL_SLOT_AND_CTOR :: "nat \<Rightarrow> eptr list option erun" where
  "GET_SIGNAL_SLOT_AND_CTOR sig =
     bnd (ask (\<lambda>s. sigmap s ! sig)) (\<lambda>c.
     if c = None then bnd ev_alloc (\<lambda>p. if p = 0 then ret None else bnd (set_sig sig (Some [])) (\<lambda>_. ret (Some [])))
     else ret c)"

definition sig_slot :: "nat \<Rightarrow> eptr list option erun" where
  "sig_slot sig =
     bnd (ask sigmap) (\<lambda>m.
     bnd (evmap_make_space m sig) (\<lambda>m. case m of None \<Rightarrow> ret None
     | Some m \<Rightarrow> bnd (upd_base (\<lambda>s. s\<lparr>sigmap := m\<rparr>)) (\<lambda>_. GET_SIGNAL_SLOT_AND_CTOR sig)))"

definition evmap_signal_add :: "int \<Rightarrow> eptr \<Rightarrow> int erun" where
  "evmap_signal_add sig ev =
     (if sig < 0 then stop OutOfBounds
      else
        bnd (sig_slot (nat sig)) (\<lambda>ctx. case ctx of None \<Rightarrow> ret (- 1)
        | Some es \<Rightarrow>
           bnd (ld_ev ev) (\<lambda>x.
           bnd (if es = [] then backend (Sig_Add (ev_fd x)) else ret True) (\<lambda>ok.
           if \<not> ok then ret (- 1) else bnd (set_sig (nat sig) (Some (es @ [ev]))) (\<lambda>_. ret 1)))))"

text \<open>First and last are the same also in an empty queue.\<close>

definition evmap_signal_del :: "int \<Rightarrow> eptr \<Rightarrow> int erun" where
  "evmap_signal_del sig ev =
     bnd (ask sigmap) (\<lambda>m.
     if sig \<ge> int (length m) then ret (- 1)
     else if sig < 0 then stop OutOfBounds
     else case m ! nat sig of None \<Rightarrow> stop NullDeref
     | Some es \<Rightarrow>
        bnd (ld_ev ev) (\<lambda>x.
        bnd (if length es \<le> 1 then backend (Sig_Del (ev_fd x)) else ret True) (\<lambda>ok.
        if \<not> ok then ret (- 1)
        else bnd (TAILQ_REMOVE ev es) (\<lambda>q. bnd (set_sig (nat sig) (Some q)) (\<lambda>_. ret 1)))))"

definition evmap_signal_active :: "int \<Rightarrow> 16 word \<Rightarrow> unit erun" where
  "evmap_signal_active sig ncalls =
     bnd (ask sigmap) (\<lambda>m.
     if sig \<ge> int (length m) then stop AssertFailed
     else if sig < 0 then stop OutOfBounds
     else case m ! nat sig of None \<Rightarrow> stop NullDeref
     | Some es \<Rightarrow> activate_all (\<lambda>_. {EV_SIGNAL}) ncalls es)"

section \<open>Deleting\<close>

definition on_cond :: "bool \<Rightarrow> unit erun \<Rightarrow> unit erun" where
  "on_cond b f = (if b then f else ret ())"

definition event_del_internal :: "eptr \<Rightarrow> int erun" where
  "event_del_internal ev =
     bnd (ld_ev ev) (\<lambda>x.
     if \<not> ev_base x then ret (- 1)
     else
       bnd (on_cond (EV_SIGNAL \<in> ev_events x) (abort_loop ev)) (\<lambda>_.
       bnd (on_cond (EVLIST_TIMEOUT \<in> ev_flags x) (event_queue_remove ev EVLIST_TIMEOUT)) (\<lambda>_.
       bnd (on_cond (EVLIST_ACTIVE \<in> ev_flags x) (event_queue_remove ev EVLIST_ACTIVE)) (\<lambda>_.
       if EVLIST_INSERTED \<in> ev_flags x then
         bnd (event_queue_remove ev EVLIST_INSERTED) (\<lambda>_.
         bnd (if ev_events x \<inter> {EV_READ, EV_WRITE} \<noteq> {} then evmap_io_del (ev_fd x) ev else evmap_signal_del (ev_fd x) ev) (\<lambda>res.
         ret (if res = 1 then 0 else res)))
       else ret 0))))"

definition event_del :: "eptr \<Rightarrow> int erun" where
  "event_del ev = bnd (ld_ev ev) (\<lambda>x. if \<not> ev_base x then ret (- 1) else event_del_internal ev)"

section \<open>Adding\<close>

definition add_to_map :: "eptr \<Rightarrow> event \<Rightarrow> int erun" where
  "add_to_map ev x =
     (if ev_events x \<inter> {EV_READ, EV_WRITE, EV_SIGNAL} \<noteq> {} \<and> ev_flags x \<inter> {EVLIST_INSERTED, EVLIST_ACTIVE} = {} then
        bnd (if ev_events x \<inter> {EV_READ, EV_WRITE} \<noteq> {} then evmap_io_add (ev_fd x) ev else evmap_signal_add (ev_fd x) ev) (\<lambda>res.
        bnd (on_cond (res \<noteq> - 1) (event_queue_insert ev EVLIST_INSERTED)) (\<lambda>_.
        ret (if res = 1 then 0 else res)))
      else ret 0)"

text \<open>The point of time at which the event is due; \<open>c\<close> says that \<open>tv\<close> is a common timeout.\<close>

definition due_at :: "timeval \<Rightarrow> timeval \<Rightarrow> bool \<Rightarrow> bool \<Rightarrow> timeval" where
  "due_at now tv tv_is_absolute c =
     (if tv_is_absolute then tv
      else if c then
        (let t = evutil_timeradd now (plain_time tv) in t\<lparr>tv_usec := tv_usec t OR (tv_usec tv AND NOT MICROSECONDS_MASK)\<rparr>)
      else evutil_timeradd now tv)"

text \<open>The second half of \<open>event_add_internal\<close>; \<open>schedule\<close> is \<open>common_timeout_schedule\<close>.\<close>

definition add_timeout :: "(nat \<Rightarrow> eptr \<Rightarrow> unit erun) \<Rightarrow> eptr \<Rightarrow> timeval \<Rightarrow> bool \<Rightarrow> unit erun" where
  "add_timeout schedule ev tv tv_is_absolute =
     bnd (ld_ev ev) (\<lambda>x.
     bnd (on_cond (ev_close x = EV_CLOSURE_PERSIST \<and> \<not> tv_is_absolute) (upd_ev ev (\<lambda>x. x\<lparr>ev_io_timeout := tv\<rparr>))) (\<lambda>_.
     bnd (on_cond (EVLIST_TIMEOUT \<in> ev_flags x) (event_queue_remove ev EVLIST_TIMEOUT)) (\<lambda>_.
     bnd (on_cond (EVLIST_ACTIVE \<in> ev_flags x \<and> EV_TIMEOUT \<in> ev_res x)
            (bnd (on_cond (EV_SIGNAL \<in> ev_events x) (abort_loop ev)) (\<lambda>_. event_queue_remove ev EVLIST_ACTIVE))) (\<lambda>_.
     bnd gettime (\<lambda>now.
     bnd (ask (is_common_timeout tv)) (\<lambda>c.
     bnd (st_timeout ev (due_at now tv tv_is_absolute c)) (\<lambda>_.
     bnd (event_queue_insert ev EVLIST_TIMEOUT) (\<lambda>_.
     on_cond c
       (bnd (ld_timeout ev) (\<lambda>t.
        bnd (get_common_timeout_list t) (\<lambda>ctl.
        on_cond (ctl_events ctl \<noteq> [] \<and> hd (ctl_events ctl) = ev) (schedule (COMMON_TIMEOUT_IDX t) ev))))))))))))"

definition add_event :: "(nat \<Rightarrow> eptr \<Rightarrow> unit erun) \<Rightarrow> eptr \<Rightarrow> timeval option \<Rightarrow> bool \<Rightarrow> int erun" where
  "add_event schedule ev tv tv_is_absolute =
     bnd (ld_ev ev) (\<lambda>x.
     bnd (if tv \<noteq> None \<and> EVLIST_TIMEOUT \<notin> ev_flags x then in_heap (bnd min_heap_size (\<lambda>n. min_heap_reserve (u32_add 1 n))) else ret 0) (\<lambda>r.
     if r = - 1 then ret (- 1)
     else
       bnd (add_to_map ev x) (\<lambda>res.
       bnd (case tv of Some t \<Rightarrow> on_cond (res \<noteq> - 1) (add_timeout schedule ev t tv_is_absolute) | None \<Rightarrow> ret ()) (\<lambda>_.
       ret res))))"

text \<open>
  \<open>event_add_internal\<close> calls itself through \<open>common_timeout_schedule\<close>, with a time that has no magic bits, so not a second time.
\<close>

definition common_timeout_schedule :: "nat \<Rightarrow> eptr \<Rightarrow> unit erun" where
  "common_timeout_schedule i head =
     bnd (ld_timeout head) (\<lambda>t.
     bnd (ld_ctl i) (\<lambda>ctl.
     bnd (add_event (\<lambda>_ _. stop OutOfFuel) (ctl_timeout_event ctl) (Some (plain_time t)) True) (\<lambda>_. ret ())))"

definition event_add_internal :: "eptr \<Rightarrow> timeval option \<Rightarrow> bool \<Rightarrow> int erun" where
  "event_add_internal = add_event common_timeout_schedule"

definition event_add :: "eptr \<Rightarrow> timeval option \<Rightarrow> int erun" where
  "event_add ev tv = bnd (ld_ev ev) (\<lambda>x. if \<not> ev_base x then ret (- 1) else event_add_internal ev tv False)"

section \<open>Setting up\<close>

definition event_assign :: "eptr \<Rightarrow> int \<Rightarrow> evbit set \<Rightarrow> ev_callback \<Rightarrow> int erun" where
  "event_assign ev fd events callback =
     bnd (upd_ev ev (\<lambda>x. x\<lparr>ev_base := True, ev_call := callback, ev_fd := fd, ev_events := events, ev_res := {}, ev_flags := {EVLIST_INIT},
                            ev_ncalls := 0, ev_pncalls := None\<rparr>)) (\<lambda>_.
     if EV_SIGNAL \<in> events \<and> events \<inter> {EV_READ, EV_WRITE} \<noteq> {} then ret (- 1)
     else
       bnd (upd_ev ev (\<lambda>x.
              if EV_SIGNAL \<in> events then x\<lparr>ev_close := EV_CLOSURE_SIGNAL\<rparr>
              else if EV_PERSIST \<in> events then x\<lparr>ev_io_timeout := \<lparr>tv_sec = 0, tv_usec = 0\<rparr>, ev_close := EV_CLOSURE_PERSIST\<rparr>
              else x\<lparr>ev_close := EV_CLOSURE_NONE\<rparr>)) (\<lambda>_.
       bnd (in_heap (min_heap_elem_init ev)) (\<lambda>_.
       bnd (ask (length \<circ> activequeues)) (\<lambda>n.
       bnd (upd_ev ev (\<lambda>x. x\<lparr>ev_pri := n div 2\<rparr>)) (\<lambda>_. ret 0)))))"

definition event_priority_set :: "eptr \<Rightarrow> int \<Rightarrow> int erun" where
  "event_priority_set ev pri =
     bnd (ld_ev ev) (\<lambda>x.
     if EVLIST_ACTIVE \<in> ev_flags x then ret (- 1)
     else
       bnd (ask (length \<circ> activequeues)) (\<lambda>n.
       if pri < 0 \<or> pri \<ge> int n then ret (- 1)
       else bnd (upd_ev ev (\<lambda>x. x\<lparr>ev_pri := nat pri\<rparr>)) (\<lambda>_. ret 0)))"

text \<open>The memory of a new event holds arbitrary values; \<open>event_assign\<close> writes all that is read.\<close>

definition raw_event :: event where
  "raw_event = \<lparr>ev_fd = 0, ev_base = False, ev_io_timeout = \<lparr>tv_sec = 0, tv_usec = 0\<rparr>, ev_ncalls = 0, ev_pncalls = None, ev_events = {}, ev_res = {},
     ev_flags = {}, ev_pri = 0, ev_close = EV_CLOSURE_NONE, ev_call = Cb_User\<rparr>"

definition new_memory :: "eptr erun" where
  "new_memory =
     bnd ev_alloc (\<lambda>p.
     bnd (on_cond (p \<noteq> 0) (upd_base (\<lambda>s. s\<lparr>evs := (evs s)(p \<mapsto> raw_event),
       timeheap := (timeheap s)\<lparr>mh_events := (mh_events (timeheap s))(p \<mapsto> \<lparr>ev_timeout = \<lparr>tv_sec = 0, tv_usec = 0\<rparr>, min_heap_idx = - 1\<rparr>)\<rparr>\<rparr>))) (\<lambda>_. ret p))"

definition mm_free_event :: "eptr \<Rightarrow> unit erun" where
  "mm_free_event ev =
     bnd (ld_ev ev) (\<lambda>_. upd_base (\<lambda>s. s\<lparr>evs := (evs s)(ev := None), timeheap := (timeheap s)\<lparr>mh_events := (mh_events (timeheap s))(ev := None)\<rparr>\<rparr>))"

definition event_new :: "int \<Rightarrow> evbit set \<Rightarrow> ev_callback \<Rightarrow> eptr erun" where
  "event_new fd events cb =
     bnd new_memory (\<lambda>ev.
     if ev = 0 then ret 0
     else bnd (event_assign ev fd events cb) (\<lambda>r. if r < 0 then bnd (mm_free_event ev) (\<lambda>_. ret 0) else ret ev))"

definition event_free :: "eptr \<Rightarrow> unit erun" where
  "event_free ev = bnd (event_del ev) (\<lambda>_. mm_free_event ev)"

text \<open>The bits that are pending, and the time of day at which a pending timeout is due.\<close>

definition event_pending :: "eptr \<Rightarrow> evbit set \<Rightarrow> (evbit set \<times> timeval option) erun" where
  "event_pending ev bits =
     bnd (ld_ev ev) (\<lambda>x.
     if \<not> ev_base x then ret ({}, None)
     else
       let flags = (if EVLIST_INSERTED \<in> ev_flags x then ev_events x \<inter> {EV_READ, EV_WRITE, EV_SIGNAL} else {})
                   \<union> (if EVLIST_ACTIVE \<in> ev_flags x then ev_res x else {})
                   \<union> (if EVLIST_TIMEOUT \<in> ev_flags x then {EV_TIMEOUT} else {});
           found = flags \<inter> bits \<inter> {EV_TIMEOUT, EV_READ, EV_WRITE, EV_SIGNAL} in
       bnd (ld_timeout ev) (\<lambda>t.
       bnd (ask tv_clock_diff) (\<lambda>d. ret (found, if EV_TIMEOUT \<in> found then Some (evutil_timeradd d (plain_time t)) else None))))"

section \<open>Timeouts\<close>

text \<open>The loop of \<open>timeout_process\<close> takes one event off the heap per turn.\<close>

fun due_loop :: "nat \<Rightarrow> timeval \<Rightarrow> unit erun" where
  "due_loop 0 now = stop OutOfFuel"
| "due_loop (Suc f) now =
     bnd (in_heap min_heap_top) (\<lambda>ev.
     if ev = 0 then ret ()
     else
       bnd (ld_timeout ev) (\<lambda>t.
       if timercmp_gt t now then ret ()
       else
         bnd (event_del_internal ev) (\<lambda>_.
         bnd (event_active_nolock ev {EV_TIMEOUT} 1) (\<lambda>_. due_loop f now))))"

definition timeout_process :: "unit erun" where
  "timeout_process =
     bnd (in_heap min_heap_empty) (\<lambda>e.
     if e then ret ()
     else bnd gettime (\<lambda>now. bnd (in_heap min_heap_size) (\<lambda>n. due_loop (Suc n) now)))"

text \<open>How long to wait: \<open>None\<close> is forever.\<close>

definition timeout_next :: "timeval option erun" where
  "timeout_next =
     bnd (in_heap min_heap_top) (\<lambda>ev.
     if ev = 0 then ret None
     else
       bnd gettime (\<lambda>now.
       bnd (ld_timeout ev) (\<lambda>t.
       if \<not> timercmp_gt t now then ret (Some \<lparr>tv_sec = 0, tv_usec = 0\<rparr>)
       else
         let tv = evutil_timersub t now in
         if tv_sec tv < 0 \<or> tv_usec tv < 0 then stop AssertFailed else ret (Some tv))))"

fun shift_timeouts :: "(timeval \<Rightarrow> timeval) \<Rightarrow> eptr list \<Rightarrow> unit erun" where
  "shift_timeouts f [] = ret ()"
| "shift_timeouts f (ev # es) = bnd (ld_timeout ev) (\<lambda>t. bnd (st_timeout ev (f t)) (\<lambda>_. shift_timeouts f es))"

fun shift_common :: "timeval \<Rightarrow> nat \<Rightarrow> common_timeout_list list \<Rightarrow> unit erun" where
  "shift_common off i [] = ret ()"
| "shift_common off i (ctl # ctls) =
     bnd (shift_timeouts (\<lambda>t. let u = evutil_timersub (plain_time t) off in
            u\<lparr>tv_usec := tv_usec u OR (COMMON_TIMEOUT_MAGIC OR push_bit COMMON_TIMEOUT_IDX_SHIFT (int i))\<rparr>) (ctl_events ctl)) (\<lambda>_.
     shift_common off (Suc i) ctls)"

definition timeout_correct :: "unit erun" where
  "timeout_correct =
     bnd (ask use_monotonic) (\<lambda>mono.
     if mono then ret ()
     else
       bnd gettime (\<lambda>tv.
       bnd (ask event_tv) (\<lambda>last.
       if \<not> timercmp_gt last tv then upd_base (\<lambda>s. s\<lparr>event_tv := tv\<rparr>)
       else
         let off = evutil_timersub last tv in
         bnd (ask (\<lambda>s. take (mh_n (timeheap s)) (mh_p (timeheap s)))) (\<lambda>q.
         bnd (shift_timeouts (\<lambda>t. evutil_timersub t off) q) (\<lambda>_.
         bnd (ask common_timeout_queues) (\<lambda>ctls.
         bnd (shift_common off 0 ctls) (\<lambda>_.
         upd_base (\<lambda>s. s\<lparr>event_tv := tv\<rparr>))))))))"

end
