(* ===== verification/Event_Loop.thy ===== *)
theory Event_Loop
  imports Event_Ops
begin

unbundle bit_operations_syntax

text \<open>
  The loop of \<^verbatim>\<open>libevent/event.c\<close>: calling back active events by priority, deferred callbacks, common timeouts, and
  \<^verbatim>\<open>event_base_loop\<close>.

  Callbacks are code of the user, \<open>user\<close>: given the event, the descriptor and the bits, what they do to the base.
  Every call is recorded. The dispatch function of the back end is the argument \<open>dispatch\<close>. A loop that need not end takes its fuel as an argument.
\<close>

section \<open>Common timeouts\<close>

definition MAX_COMMON_TIMEOUTS :: nat where "MAX_COMMON_TIMEOUTS = 256"

definition normal_duration :: "timeval \<Rightarrow> event_base \<Rightarrow> timeval" where
  "normal_duration duration base =
     (if tv_usec duration > 1000000 then
        (let tv = (if is_common_timeout duration base then plain_time duration else duration) in
         \<lparr>tv_sec = tv_sec tv + tv_usec tv div 1000000, tv_usec = tv_usec tv mod 1000000\<rparr>)
      else duration)"

text \<open>
  The index of a list that has this duration. A duration that was found is asserted to be a common timeout.
\<close>

definition find_common :: "timeval \<Rightarrow> common_timeout_list list \<Rightarrow> nat option" where
  "find_common d ctls = find (\<lambda>i. tv_sec d = tv_sec (ctl_duration (ctls ! i)) \<and> tv_usec d = tv_usec (plain_time (ctl_duration (ctls ! i)))) [0..<length ctls]"

definition common_duration :: "timeval option \<Rightarrow> timeval option erun" where
  "common_duration r =
     (case r of None \<Rightarrow> ret None
      | Some d \<Rightarrow> bnd (ask (is_common_timeout d)) (\<lambda>c. if c then ret (Some d) else stop AssertFailed))"

text \<open>Room for one more list.\<close>

definition common_room :: "bool erun" where
  "common_room =
     bnd (ask (length \<circ> common_timeout_queues)) (\<lambda>k.
     bnd (ask n_common_timeouts_allocated) (\<lambda>a.
     if a = k then
       bnd ev_alloc (\<lambda>p.
       if p = 0 then ret False else bnd (upd_base (\<lambda>s. s\<lparr>n_common_timeouts_allocated := if k < 16 then 16 else k * 2\<rparr>)) (\<lambda>_. ret True))
     else ret True))"

definition event_base_init_common_timeout :: "timeval \<Rightarrow> timeval option erun" where
  "event_base_init_common_timeout duration =
     bnd (ask (normal_duration duration)) (\<lambda>d.
     bnd (ask common_timeout_queues) (\<lambda>ctls.
     case find_common d ctls of Some i \<Rightarrow> common_duration (Some (ctl_duration (ctls ! i)))
     | None \<Rightarrow>
        if length ctls = MAX_COMMON_TIMEOUTS then ret None
        else
          bnd common_room (\<lambda>ok.
          if \<not> ok then ret None
          else
            bnd new_memory (\<lambda>ev.
            if ev = 0 then ret None
            else
              let i = length ctls;
                  m = \<lparr>tv_sec = tv_sec d, tv_usec = (tv_usec d OR COMMON_TIMEOUT_MAGIC) OR push_bit COMMON_TIMEOUT_IDX_SHIFT (int i)\<rparr> in
              bnd (event_assign ev (- 1) {} (Cb_Common_Timeout i)) (\<lambda>_.
              bnd (upd_ev ev (\<lambda>x. x\<lparr>ev_flags := insert EVLIST_INTERNAL (ev_flags x)\<rparr>)) (\<lambda>_.
              bnd (event_priority_set ev 0) (\<lambda>_.
              bnd (upd_base (\<lambda>s. s\<lparr>common_timeout_queues := common_timeout_queues s @ [\<lparr>ctl_events = [], ctl_duration = m, ctl_timeout_event = ev\<rparr>]\<rparr>)) (\<lambda>_.
              common_duration (Some m)))))))))"

fun common_due_loop :: "nat \<Rightarrow> nat \<Rightarrow> timeval \<Rightarrow> eptr erun" where
  "common_due_loop 0 i now = stop OutOfFuel"
| "common_due_loop (Suc f) i now =
     bnd (ld_ctl i) (\<lambda>ctl.
     case ctl_events ctl of [] \<Rightarrow> ret 0
     | ev # _ \<Rightarrow>
        bnd (ld_timeout ev) (\<lambda>t.
        if timercmp_gt (plain_time t) now then ret ev
        else
          bnd (event_del_internal ev) (\<lambda>_.
          bnd (event_active_nolock ev {EV_TIMEOUT} 1) (\<lambda>_. common_due_loop f i now))))"

definition common_timeout_callback :: "nat \<Rightarrow> unit erun" where
  "common_timeout_callback i =
     bnd gettime (\<lambda>now.
     bnd (ld_ctl i) (\<lambda>ctl.
     bnd (common_due_loop (Suc (length (ctl_events ctl))) i now) (\<lambda>ev.
     on_cond (ev \<noteq> 0) (common_timeout_schedule i ev))))"

section \<open>Calling back\<close>

type_synonym callbacks = "eptr \<Rightarrow> int \<Rightarrow> evbit set \<Rightarrow> unit erun"

text \<open>\<open>event_once_cb\<close> frees its event; \<open>event_loopexit_cb\<close> asks the loop to end.\<close>

definition run_callback :: "callbacks \<Rightarrow> eptr \<Rightarrow> event \<Rightarrow> unit erun" where
  "run_callback user ev x =
     bnd (upd_base (\<lambda>s. s\<lparr>ev_log := ev_log s @ [(ev, ev_res x)]\<rparr>)) (\<lambda>_.
     case ev_call x of
       Cb_User \<Rightarrow> user ev (ev_fd x) (ev_res x)
     | Cb_Common_Timeout i \<Rightarrow> common_timeout_callback i
     | Cb_Once Once_User \<Rightarrow> bnd (user ev (ev_fd x) (ev_res x)) (\<lambda>_. mm_free_event ev)
     | Cb_Once Once_Loopexit \<Rightarrow> bnd (upd_base (\<lambda>s. s\<lparr>event_gotterm := True\<rparr>)) (\<lambda>_. mm_free_event ev))"

text \<open>
  \<^verbatim>\<open>ncalls\<close> of a call of \<open>event_signal_closure\<close> is \<open>sig_ncalls\<close> at the number \<open>k\<close> of the call; the variable is gone when the function returns.
\<close>

fun signal_loop :: "callbacks \<Rightarrow> nat \<Rightarrow> nat \<Rightarrow> eptr \<Rightarrow> unit erun" where
  "signal_loop user 0 k ev = stop OutOfFuel"
| "signal_loop user (Suc f) k ev =
     bnd (ask (\<lambda>s. sig_ncalls s k)) (\<lambda>v. case v of None \<Rightarrow> stop BadPointer
     | Some n \<Rightarrow>
        if n = 0 then ret ()
        else
          bnd (upd_base (\<lambda>s. s\<lparr>sig_ncalls := (sig_ncalls s)(k \<mapsto> n - 1)\<rparr>)) (\<lambda>_.
          bnd (upd_ev ev (\<lambda>x. x\<lparr>ev_ncalls := n - 1, ev_pncalls := if n - 1 = 0 then None else ev_pncalls x\<rparr>)) (\<lambda>_.
          bnd (ld_ev ev) (\<lambda>x.
          bnd (run_callback user ev x) (\<lambda>_.
          bnd (ask event_break) (\<lambda>b.
          if b then
            bnd (ask (\<lambda>s. sig_ncalls s k)) (\<lambda>v. on_cond (v \<noteq> Some 0) (upd_ev ev (\<lambda>x. x\<lparr>ev_pncalls := None\<rparr>)))
          else signal_loop user f k ev))))))"

definition event_signal_closure :: "callbacks \<Rightarrow> eptr \<Rightarrow> unit erun" where
  "event_signal_closure user ev =
     bnd (ld_ev ev) (\<lambda>x.
     bnd (ask sig_frames) (\<lambda>k.
     bnd (upd_base (\<lambda>s. s\<lparr>sig_frames := Suc k, sig_ncalls := (sig_ncalls s)(k \<mapsto> ev_ncalls x)\<rparr>)) (\<lambda>_.
     bnd (on_cond (ev_ncalls x \<noteq> 0) (upd_ev ev (\<lambda>x. x\<lparr>ev_pncalls := Some k\<rparr>))) (\<lambda>_.
     bnd (signal_loop user (Suc (unat (ev_ncalls x))) k ev) (\<lambda>_.
     upd_base (\<lambda>s. s\<lparr>sig_ncalls := (sig_ncalls s)(k := None)\<rparr>))))))"

text \<open>When the next call of a persistent event with a timeout is due; \<open>delay\<close> and \<open>base_time\<close> have no magic bits.\<close>

definition run_at :: "timeval \<Rightarrow> timeval \<Rightarrow> timeval \<Rightarrow> timeval" where
  "run_at now base_time delay =
     (let r = evutil_timeradd base_time delay in if timercmp_gt now r then evutil_timeradd now delay else r)"

definition reschedule :: "eptr \<Rightarrow> event \<Rightarrow> unit erun" where
  "reschedule ev x =
     bnd (ld_timeout ev) (\<lambda>t.
     if \<not> is_same_common_timeout t (ev_io_timeout x) then stop AssertFailed
     else
       bnd gettime (\<lambda>now.
       bnd (ask (is_common_timeout t)) (\<lambda>c.
       let delay = (if c then plain_time (ev_io_timeout x) else ev_io_timeout x);
           usec_mask = (if c then tv_usec (ev_io_timeout x) AND NOT MICROSECONDS_MASK else 0);
           base_time = (if EV_TIMEOUT \<in> ev_res x then (if c then plain_time t else t) else now);
           r = run_at now base_time delay in
       bnd (event_add_internal ev (Some (r\<lparr>tv_usec := tv_usec r OR usec_mask\<rparr>)) True) (\<lambda>_. ret ()))))"

definition event_persist_closure :: "callbacks \<Rightarrow> eptr \<Rightarrow> unit erun" where
  "event_persist_closure user ev =
     bnd (ld_ev ev) (\<lambda>x.
     bnd (on_cond (tv_sec (ev_io_timeout x) \<noteq> 0 \<or> tv_usec (ev_io_timeout x) \<noteq> 0) (reschedule ev x)) (\<lambda>_.
     bnd (ld_ev ev) (\<lambda>x. run_callback user ev x)))"

definition call_event :: "callbacks \<Rightarrow> eptr \<Rightarrow> unit erun" where
  "call_event user ev =
     bnd (ld_ev ev) (\<lambda>x. case ev_close x of
       EV_CLOSURE_SIGNAL \<Rightarrow> event_signal_closure user ev
     | EV_CLOSURE_PERSIST \<Rightarrow> event_persist_closure user ev
     | EV_CLOSURE_NONE \<Rightarrow> run_callback user ev x)"

fun event_process_active_single_queue :: "callbacks \<Rightarrow> nat \<Rightarrow> nat \<Rightarrow> int \<Rightarrow> int erun" where
  "event_process_active_single_queue user 0 i cnt = stop OutOfFuel"
| "event_process_active_single_queue user (Suc f) i cnt =
     bnd (ld_active i) (\<lambda>q. case q of [] \<Rightarrow> ret cnt
     | ev # _ \<Rightarrow>
        bnd (ld_ev ev) (\<lambda>x.
        bnd (if EV_PERSIST \<in> ev_events x then event_queue_remove ev EVLIST_ACTIVE else bnd (event_del_internal ev) (\<lambda>_. ret ())) (\<lambda>_.
        let cnt = (if EVLIST_INTERNAL \<notin> ev_flags x then cnt + 1 else cnt) in
        bnd (call_event user ev) (\<lambda>_.
        bnd (ask event_break) (\<lambda>b.
        if b then ret (- 1)
        else bnd (ask event_continue) (\<lambda>c. if c then ret cnt else event_process_active_single_queue user f i cnt))))))"

section \<open>Deferred callbacks\<close>

definition event_deferred_cb_schedule :: "nat \<Rightarrow> unit erun" where
  "event_deferred_cb_schedule cb =
     bnd (ask (\<lambda>s. queued s cb)) (\<lambda>q.
     on_cond (\<not> q) (upd_base (\<lambda>s. s\<lparr>queued := (queued s)(cb := True), deferred := deferred s @ [cb], deferred_count := deferred_count s + 1\<rparr>)))"

definition event_deferred_cb_cancel :: "nat \<Rightarrow> unit erun" where
  "event_deferred_cb_cancel cb =
     bnd (ask (\<lambda>s. queued s cb)) (\<lambda>q.
     on_cond q
       (bnd (ask deferred) (\<lambda>d.
        bnd (TAILQ_REMOVE cb d) (\<lambda>d.
        upd_base (\<lambda>s. s\<lparr>queued := (queued s)(cb := False), deferred := d, deferred_count := deferred_count s - 1\<rparr>)))))"

text \<open>The first argument is how many may still run, 16 at first.\<close>

fun event_process_deferred_callbacks :: "(nat \<Rightarrow> unit erun) \<Rightarrow> nat \<Rightarrow> int \<Rightarrow> int erun" where
  "event_process_deferred_callbacks dcb 0 cnt = ret cnt"
| "event_process_deferred_callbacks dcb (Suc n) cnt =
     bnd (ask deferred) (\<lambda>d. case d of [] \<Rightarrow> ret cnt
     | cb # _ \<Rightarrow>
        bnd (upd_base (\<lambda>s. s\<lparr>queued := (queued s)(cb := False), deferred := tl d, deferred_count := deferred_count s - 1\<rparr>)) (\<lambda>_.
        bnd (dcb cb) (\<lambda>_.
        bnd (ask event_break) (\<lambda>b. if b then ret (- 1) else event_process_deferred_callbacks dcb n (cnt + 1)))))"

section \<open>Active events\<close>

definition EVENT_MAX_PRIORITIES :: nat where "EVENT_MAX_PRIORITIES = 256"

text \<open>
  From queue \<open>i\<close> on; the result is the number of the last queue that was processed, or a negative number to stop. There are fewer than
  \<open>EVENT_MAX_PRIORITIES\<close> queues, so \<open>n\<close>, which counts down from it, does not run out.
\<close>

fun process_queues :: "callbacks \<Rightarrow> nat \<Rightarrow> nat \<Rightarrow> nat \<Rightarrow> int \<Rightarrow> int erun" where
  "process_queues user f 0 i c = stop OutOfFuel"
| "process_queues user f (Suc n) i c =
     bnd (ask activequeues) (\<lambda>qs.
     if i \<ge> length qs then ret c
     else if qs ! i \<noteq> [] then
       bnd (upd_base (\<lambda>s. s\<lparr>event_running_priority := int i\<rparr>)) (\<lambda>_.
       bnd (event_process_active_single_queue user f i 0) (\<lambda>c.
       if c \<noteq> 0 then ret c else process_queues user f n (Suc i) c))
     else process_queues user f n (Suc i) c)"

definition event_process_active :: "callbacks \<Rightarrow> (nat \<Rightarrow> unit erun) \<Rightarrow> nat \<Rightarrow> int erun" where
  "event_process_active user dcb f =
     bnd (process_queues user f EVENT_MAX_PRIORITIES 0 0) (\<lambda>c.
     if c < 0 then bnd (upd_base (\<lambda>s. s\<lparr>event_running_priority := - 1\<rparr>)) (\<lambda>_. ret (- 1))
     else
       bnd (event_process_deferred_callbacks dcb 16 0) (\<lambda>_.
       bnd (upd_base (\<lambda>s. s\<lparr>event_running_priority := - 1\<rparr>)) (\<lambda>_. ret c)))"

section \<open>The loop\<close>

definition N_ACTIVE_CALLBACKS :: "event_base \<Rightarrow> int" where
  "N_ACTIVE_CALLBACKS base = event_count_active base + deferred_count base"

definition event_haveevents :: "event_base \<Rightarrow> bool" where
  "event_haveevents base \<longleftrightarrow> virtual_event_count base > 0 \<or> event_count base > 0"

datatype loop_flag = EVLOOP_ONCE | EVLOOP_NONBLOCK

text \<open>One turn of the loop: \<open>Inl\<close> is the return value, \<open>Inr\<close> says whether the loop is done.\<close>

definition loop_turn :: "callbacks \<Rightarrow> (nat \<Rightarrow> unit erun) \<Rightarrow> (timeval option \<Rightarrow> int erun) \<Rightarrow> nat \<Rightarrow> loop_flag set \<Rightarrow> (int + bool) erun" where
  "loop_turn user dcb dispatch f flags =
     bnd (upd_base (\<lambda>s. s\<lparr>event_continue := False\<rparr>)) (\<lambda>_.
     bnd (ask (\<lambda>s. event_gotterm s \<or> event_break s)) (\<lambda>stopped.
     if stopped then ret (Inl 0)
     else
       bnd timeout_correct (\<lambda>_.
       bnd (ask N_ACTIVE_CALLBACKS) (\<lambda>n.
       bnd (if n = 0 \<and> EVLOOP_NONBLOCK \<notin> flags then timeout_next else ret (Some \<lparr>tv_sec = 0, tv_usec = 0\<rparr>)) (\<lambda>tv.
       bnd (ask (\<lambda>s. event_haveevents s \<or> N_ACTIVE_CALLBACKS s \<noteq> 0)) (\<lambda>have.
       if \<not> have then ret (Inl 1)
       else
         bnd gettime (\<lambda>now.
         bnd (upd_base (\<lambda>s. s\<lparr>event_tv := now\<rparr>)) (\<lambda>_.
         bnd clear_time_cache (\<lambda>_.
         bnd (dispatch tv) (\<lambda>res.
         if res = - 1 then ret (Inl (- 1))
         else
           bnd update_time_cache (\<lambda>_.
           bnd timeout_process (\<lambda>_.
           bnd (ask N_ACTIVE_CALLBACKS) (\<lambda>n.
           if n \<noteq> 0 then
             bnd (event_process_active user dcb f) (\<lambda>c.
             bnd (ask N_ACTIVE_CALLBACKS) (\<lambda>n. ret (Inr (EVLOOP_ONCE \<in> flags \<and> n = 0 \<and> c \<noteq> 0))))
           else ret (Inr (EVLOOP_NONBLOCK \<in> flags)))))))))))))))"

fun loop_turns :: "callbacks \<Rightarrow> (nat \<Rightarrow> unit erun) \<Rightarrow> (timeval option \<Rightarrow> int erun) \<Rightarrow> nat \<Rightarrow> nat \<Rightarrow> loop_flag set \<Rightarrow> int erun" where
  "loop_turns user dcb dispatch f 0 flags = stop OutOfFuel"
| "loop_turns user dcb dispatch f (Suc n) flags =
     bnd (loop_turn user dcb dispatch f flags) (\<lambda>r. case r of Inl v \<Rightarrow> ret v
     | Inr fin \<Rightarrow> if fin then ret 0 else loop_turns user dcb dispatch f n flags)"

definition event_base_loop :: "callbacks \<Rightarrow> (nat \<Rightarrow> unit erun) \<Rightarrow> (timeval option \<Rightarrow> int erun) \<Rightarrow> nat \<Rightarrow> nat \<Rightarrow> loop_flag set \<Rightarrow> int erun" where
  "event_base_loop user dcb dispatch f n flags =
     bnd (ask running_loop) (\<lambda>r.
     if r then ret (- 1)
     else
       bnd (upd_base (\<lambda>s. s\<lparr>running_loop := True\<rparr>)) (\<lambda>_.
       bnd clear_time_cache (\<lambda>_.
       bnd (upd_base (\<lambda>s. s\<lparr>event_gotterm := False, event_break := False\<rparr>)) (\<lambda>_.
       bnd (loop_turns user dcb dispatch f n flags) (\<lambda>v.
       bnd clear_time_cache (\<lambda>_.
       bnd (upd_base (\<lambda>s. s\<lparr>running_loop := False\<rparr>)) (\<lambda>_. ret v)))))))"

definition event_base_loopbreak :: "int erun" where
  "event_base_loopbreak = bnd (upd_base (\<lambda>s. s\<lparr>event_break := True\<rparr>)) (\<lambda>_. ret 0)"

definition event_base_got_break :: "bool erun" where
  "event_base_got_break = ask event_break"

definition event_base_got_exit :: "bool erun" where
  "event_base_got_exit = ask event_gotterm"

definition event_base_once :: "int \<Rightarrow> evbit set \<Rightarrow> once_cb \<Rightarrow> timeval option \<Rightarrow> int erun" where
  "event_base_once fd events callback tv =
     (if events \<inter> {EV_SIGNAL, EV_PERSIST} \<noteq> {} then ret (- 1)
      else
        bnd new_memory (\<lambda>ev.
        if ev = 0 then ret (- 1)
        else if events \<noteq> {EV_TIMEOUT} \<and> events \<inter> {EV_READ, EV_WRITE} = {} then bnd (mm_free_event ev) (\<lambda>_. ret (- 1))
        else
          bnd (if events = {EV_TIMEOUT} then event_assign ev (- 1) {} (Cb_Once callback)
               else event_assign ev fd (events \<inter> {EV_READ, EV_WRITE}) (Cb_Once callback)) (\<lambda>_.
          bnd (event_add ev (if events = {EV_TIMEOUT} \<and> tv = None then Some \<lparr>tv_sec = 0, tv_usec = 0\<rparr> else tv)) (\<lambda>res.
          if res \<noteq> 0 then bnd (mm_free_event ev) (\<lambda>_. ret res) else ret 0))))"

definition event_base_loopexit :: "timeval option \<Rightarrow> int erun" where
  "event_base_loopexit tv = event_base_once (- 1) {EV_TIMEOUT} Once_Loopexit tv"

section \<open>Priorities and virtual events\<close>

definition event_base_priority_init :: "int \<Rightarrow> int erun" where
  "event_base_priority_init npriorities =
     bnd (ask N_ACTIVE_CALLBACKS) (\<lambda>n.
     if n \<noteq> 0 \<or> npriorities < 1 \<or> npriorities \<ge> int EVENT_MAX_PRIORITIES then ret (- 1)
     else
       bnd (ask (length \<circ> activequeues)) (\<lambda>k.
       if npriorities = int k then ret 0
       else
         bnd ev_alloc (\<lambda>p.
         if p = 0 then bnd (upd_base (\<lambda>s. s\<lparr>activequeues := []\<rparr>)) (\<lambda>_. ret (- 1))
         else bnd (upd_base (\<lambda>s. s\<lparr>activequeues := replicate (nat npriorities) []\<rparr>)) (\<lambda>_. ret 0))))"

definition event_base_add_virtual :: "unit erun" where
  "event_base_add_virtual = upd_base (\<lambda>s. s\<lparr>virtual_event_count := virtual_event_count s + 1\<rparr>)"

definition event_base_del_virtual :: "unit erun" where
  "event_base_del_virtual =
     bnd (ask virtual_event_count) (\<lambda>n.
     if n \<le> 0 then stop AssertFailed else upd_base (\<lambda>s. s\<lparr>virtual_event_count := virtual_event_count s - 1\<rparr>))"

end
