(* ===== verification/Event_Facts.thy ===== *)
theory Event_Facts
  imports Event_Loop
begin

unbundle bit_operations_syntax

text \<open>
  The invariant of an event base on which no common timeouts are in use, and that putting an event into a queue and taking
  it out keep it: the flags of an event say in which queues it stands, the counters count, and the timeouts form a heap.
\<close>

section \<open>Reading and writing\<close>

lemma ev_runs [run_simps]:
  "evs s e = Some x \<Longrightarrow> ld_ev e s = Inr (x, s)"
  "evs s e = Some x \<Longrightarrow> upd_ev e f s = Inr ((), s\<lparr>evs := (evs s)(e \<mapsto> f x)\<rparr>)"
  "ask g s = Inr (g s, s)" "upd_base h s = Inr ((), h s)"
  "e \<in> set q \<Longrightarrow> TAILQ_REMOVE e q s = Inr (remove1 e q, s)"
  "p < length (activequeues s) \<Longrightarrow> ld_active p s = Inr (activequeues s ! p, s)"
  by (simp_all add: ld_ev_def upd_ev_def bnd_def ask_def upd_base_def TAILQ_REMOVE_def ld_active_def)

lemma count_run [run_simps]:
  "count_event x d s = Inr ((), s\<lparr>event_count := event_count s + (if EVLIST_INTERNAL \<notin> ev_flags x then d else 0)\<rparr>)"
  by (simp add: count_event_def upd_base_def)

lemma heap_run [run_simps]: "f (timeheap s) = Inr (x, h) \<Longrightarrow> in_heap f s = Inr (x, s\<lparr>timeheap := h\<rparr>)"
  by (simp add: in_heap_def)

definition timeout_of :: "event_base \<Rightarrow> eptr \<Rightarrow> timeval" where
  "timeout_of s e = (case mh_events (timeheap s) e of Some y \<Rightarrow> ev_timeout y | None \<Rightarrow> \<lparr>tv_sec = 0, tv_usec = 0\<rparr>)"

lemma timeout_run [run_simps]: "live (timeheap s) e \<Longrightarrow> ld_timeout e s = Inr (timeout_of s e, s)"
  by (auto simp: ld_timeout_def in_heap_def event_of_def bnd_def live_def timeout_of_def)

lemma key_timeout: "live (timeheap s) e \<Longrightarrow> key (timeheap s) e = (tv_sec (timeout_of s e), tv_usec (timeout_of s e))"
  by (auto simp: key_def timeout_of_def live_def)

lemma timercmp_key: "timercmp_gt t u \<longleftrightarrow> (tv_sec u, tv_usec u) < (tv_sec t, tv_usec t)"
  by (auto simp: timercmp_gt_def less_prod_def)

section \<open>The invariant\<close>

definition flagged :: "event_base \<Rightarrow> evlist \<Rightarrow> eptr set" where
  "flagged s w = {e. \<exists>x. evs s e = Some x \<and> w \<in> ev_flags x}"

definition heap_ok :: "event_base \<Rightarrow> bool" where
  "heap_ok s \<longleftrightarrow> common_timeout_queues s = [] \<and> (\<forall>e. live (timeheap s) e \<longleftrightarrow> e \<in> dom (evs s)) \<and> (\<exists>q. queue (timeheap s) q \<and> set q = flagged s EVLIST_TIMEOUT)"

definition inserted_ok :: "event_base \<Rightarrow> bool" where
  "inserted_ok s \<longleftrightarrow> distinct (eventqueue s) \<and> set (eventqueue s) = flagged s EVLIST_INSERTED"

definition pri_of :: "event_base \<Rightarrow> eptr \<Rightarrow> nat" where
  "pri_of s e = (case evs s e of Some x \<Rightarrow> ev_pri x | None \<Rightarrow> 0)"

definition active_ok :: "event_base \<Rightarrow> bool" where
  "active_ok s \<longleftrightarrow> (\<forall>p<length (activequeues s). distinct (activequeues s ! p) \<and> set (activequeues s ! p) = {e \<in> flagged s EVLIST_ACTIVE. pri_of s e = p})
     \<and> (\<forall>e\<in>dom (evs s). pri_of s e < length (activequeues s))"

definition counted :: "event_base \<Rightarrow> (eptr \<times> evlist) set" where
  "counted s = {(e, w). w \<in> {EVLIST_TIMEOUT, EVLIST_INSERTED, EVLIST_ACTIVE} \<and> e \<in> flagged s w \<and> e \<notin> flagged s EVLIST_INTERNAL}"

definition counts_ok :: "event_base \<Rightarrow> bool" where
  "counts_ok s \<longleftrightarrow> finite (dom (evs s)) \<and> event_count s = int (card (counted s)) \<and> event_count_active s = int (card (flagged s EVLIST_ACTIVE))"

text \<open>No call of a signal event is under way.\<close>

definition calm :: "event_base \<Rightarrow> bool" where
  "calm s \<longleftrightarrow> (\<forall>e x. evs s e = Some x \<longrightarrow> ev_pncalls x = None \<and> ev_base x) \<and> evs s 0 = None"

definition base_ok :: "event_base \<Rightarrow> bool" where
  "base_ok s \<longleftrightarrow> heap_ok s \<and> inserted_ok s \<and> active_ok s \<and> counts_ok s \<and> calm s"

lemma heap_ok_no_queues: "heap_ok s \<Longrightarrow> common_timeout_queues s = []"
  by (simp add: heap_ok_def)

lemma flagged_upd:
  assumes "evs s e = Some x"
  shows "flagged (s\<lparr>evs := (evs s)(e \<mapsto> y)\<rparr>) w = (if w \<in> ev_flags y then insert e (flagged s w) else flagged s w - {e})"
  using assms by (auto simp: flagged_def)

lemma flagged_cong: "evs s' = evs s \<Longrightarrow> flagged s' w = flagged s w"
  by (simp add: flagged_def)

lemma pri_cong: "evs s' = evs s \<Longrightarrow> pri_of s' = pri_of s"
  by (simp add: pri_of_def fun_eq_iff)

lemma flagged_iff: "evs s e = Some x \<Longrightarrow> e \<in> flagged s w \<longleftrightarrow> w \<in> ev_flags x"
  by (simp add: flagged_def)

lemma flagged_dom: "flagged s w \<subseteq> dom (evs s)"
  by (auto simp: flagged_def)

lemma finite_flagged: "finite (dom (evs s)) \<Longrightarrow> finite (flagged s w)"
  using flagged_dom finite_subset by metis

lemma finite_counted: "finite (dom (evs s)) \<Longrightarrow> finite (counted s)"
proof -
  assume f: "finite (dom (evs s))"
  have "counted s \<subseteq> dom (evs s) \<times> {EVLIST_TIMEOUT, EVLIST_INSERTED, EVLIST_ACTIVE}" using flagged_dom by (auto simp: counted_def)
  then show ?thesis using f finite_subset by blast
qed

lemma heap_ok_cong:
  "heap_ok s \<Longrightarrow> timeheap s' = timeheap s \<Longrightarrow> common_timeout_queues s' = common_timeout_queues s \<Longrightarrow> dom (evs s') = dom (evs s)
   \<Longrightarrow> flagged s' EVLIST_TIMEOUT = flagged s EVLIST_TIMEOUT \<Longrightarrow> heap_ok s'"
  by (simp add: heap_ok_def)

lemma inserted_ok_cong: "inserted_ok s \<Longrightarrow> eventqueue s' = eventqueue s \<Longrightarrow> flagged s' EVLIST_INSERTED = flagged s EVLIST_INSERTED \<Longrightarrow> inserted_ok s'"
  by (simp add: inserted_ok_def)

lemma active_ok_cong:
  "active_ok s \<Longrightarrow> activequeues s' = activequeues s \<Longrightarrow> flagged s' EVLIST_ACTIVE = flagged s EVLIST_ACTIVE \<Longrightarrow> pri_of s' = pri_of s
   \<Longrightarrow> dom (evs s') = dom (evs s) \<Longrightarrow> active_ok s'"
  by (simp add: active_ok_def)

section \<open>Counters\<close>

abbreviation queues :: "evlist set" where "queues \<equiv> {EVLIST_TIMEOUT, EVLIST_INSERTED, EVLIST_ACTIVE}"

lemma card_without: "finite A \<Longrightarrow> a \<in> A \<Longrightarrow> int (card (A - {a})) = int (card A) - 1"
  using card_Suc_Diff1 [of A a] by linarith

lemma counts_remove:
  assumes "counts_ok s" "evs s e = Some x" "w \<in> ev_flags x" "w \<in> queues" "evs s' = (evs s)(e \<mapsto> y)" "ev_flags y = ev_flags x - {w}"
    "event_count s' = event_count s + (if EVLIST_INTERNAL \<notin> ev_flags x then - 1 else 0)"
    "event_count_active s' = event_count_active s - (if w = EVLIST_ACTIVE then 1 else 0)"
  shows "counts_ok s'"
proof -
  have fl: "flagged s' v = (if v \<in> ev_flags x - {w} then insert e (flagged s v) else flagged s v - {e})" for v
    using flagged_upd [OF assms(2), of y v] assms(5,6) flagged_cong [of s' "s\<lparr>evs := (evs s)(e \<mapsto> y)\<rparr>"] by simp
  have e: "e \<in> flagged s v \<longleftrightarrow> v \<in> ev_flags x" for v using assms(2) by (simp add: flagged_iff)
  have fin: "finite (counted s)" "finite (flagged s EVLIST_ACTIVE)" using assms(1) finite_counted finite_flagged by (auto simp: counts_ok_def)
  have i: "e \<in> flagged s' EVLIST_INTERNAL \<longleftrightarrow> e \<in> flagged s EVLIST_INTERNAL" using fl e assms(4) by auto
  have "counted s' = (if EVLIST_INTERNAL \<notin> ev_flags x then counted s - {(e, w)} else counted s)"
    using fl e i assms(3,4) unfolding counted_def by (auto split: if_splits)
  moreover have "(e, w) \<in> counted s" if "EVLIST_INTERNAL \<notin> ev_flags x" using that e assms(3,4) by (simp add: counted_def)
  ultimately have c: "int (card (counted s')) = int (card (counted s)) + (if EVLIST_INTERNAL \<notin> ev_flags x then - 1 else 0)"
    using fin(1) card_without [of "counted s" "(e, w)"] by auto
  have "flagged s' EVLIST_ACTIVE = (if w = EVLIST_ACTIVE then flagged s EVLIST_ACTIVE - {e} else flagged s EVLIST_ACTIVE)"
    using fl [of EVLIST_ACTIVE] e [of EVLIST_ACTIVE] by auto
  moreover have "int (card (flagged s EVLIST_ACTIVE - {e})) = int (card (flagged s EVLIST_ACTIVE)) - 1" if "w = EVLIST_ACTIVE"
    using that e [of w] assms(3) card_without [OF fin(2), of e] by simp
  ultimately have "int (card (flagged s' EVLIST_ACTIVE)) = int (card (flagged s EVLIST_ACTIVE)) - (if w = EVLIST_ACTIVE then 1 else 0)" by simp
  then show ?thesis using assms(1,5,7,8) c by (simp add: counts_ok_def)
qed

lemma counts_insert:
  assumes "counts_ok s" "evs s e = Some x" "w \<notin> ev_flags x" "w \<in> queues" "evs s' = (evs s)(e \<mapsto> y)" "ev_flags y = insert w (ev_flags x)"
    "event_count s' = event_count s + (if EVLIST_INTERNAL \<notin> ev_flags x then 1 else 0)"
    "event_count_active s' = event_count_active s + (if w = EVLIST_ACTIVE then 1 else 0)"
  shows "counts_ok s'"
proof -
  have fl: "flagged s' v = (if v \<in> insert w (ev_flags x) then insert e (flagged s v) else flagged s v - {e})" for v
    using flagged_upd [OF assms(2), of y v] assms(5,6) flagged_cong [of s' "s\<lparr>evs := (evs s)(e \<mapsto> y)\<rparr>"] by simp
  have e: "e \<in> flagged s v \<longleftrightarrow> v \<in> ev_flags x" for v using assms(2) by (simp add: flagged_iff)
  have fin: "finite (counted s)" "finite (flagged s EVLIST_ACTIVE)" using assms(1) finite_counted finite_flagged by (auto simp: counts_ok_def)
  have i: "e \<in> flagged s' EVLIST_INTERNAL \<longleftrightarrow> e \<in> flagged s EVLIST_INTERNAL" using fl e assms(4) by auto
  have "counted s' = (if EVLIST_INTERNAL \<notin> ev_flags x then insert (e, w) (counted s) else counted s)"
    using fl e i assms(3,4) unfolding counted_def by (auto split: if_splits)
  moreover have "(e, w) \<notin> counted s" using e assms(3) by (simp add: counted_def)
  ultimately have c: "int (card (counted s')) = int (card (counted s)) + (if EVLIST_INTERNAL \<notin> ev_flags x then 1 else 0)"
    using fin(1) by auto
  have "flagged s' EVLIST_ACTIVE = (if w = EVLIST_ACTIVE then insert e (flagged s EVLIST_ACTIVE) else flagged s EVLIST_ACTIVE)"
    using fl [of EVLIST_ACTIVE] e [of EVLIST_ACTIVE] by auto
  moreover have "e \<notin> flagged s EVLIST_ACTIVE" if "w = EVLIST_ACTIVE" using that e assms(3) by auto
  ultimately have "int (card (flagged s' EVLIST_ACTIVE)) = int (card (flagged s EVLIST_ACTIVE)) + (if w = EVLIST_ACTIVE then 1 else 0)"
    using fin(2) by simp
  then show ?thesis using assms(1,5,7,8) c by (simp add: counts_ok_def)
qed

section \<open>Taking an event out of a queue\<close>

text \<open>Only the events, the queues and the counters differ.\<close>

definition rest :: "event_base \<Rightarrow> event_base \<Rightarrow> bool" where
  "rest s s' \<longleftrightarrow> s' = s\<lparr>evs := evs s', timeheap := timeheap s', eventqueue := eventqueue s', activequeues := activequeues s',
     event_count := event_count s', event_count_active := event_count_active s'\<rparr>"

lemma rest_refl [simp]: "rest s s" by (simp add: rest_def)

lemma base_rest_fields:
  assumes "rest s s'"
  shows "io_map s' = io_map s" "sigmap s' = sigmap s" "common_timeout_queues s' = common_timeout_queues s" "be_calls s' = be_calls s" "be_fails s' = be_fails s"
    "tv_cache s' = tv_cache s" "eb_clock s' = eb_clock s" "eb_reads s' = eb_reads s" "event_break s' = event_break s" "event_running_priority s' = event_running_priority s"
    "ev_log s' = ev_log s" "eb_brk s' = eb_brk s" "eb_oom s' = eb_oom s" "sig_ncalls s' = sig_ncalls s" "debug_mode s' = debug_mode s" "event_continue s' = event_continue s" "deferred s' = deferred s"
  using arg_cong [OF assms [unfolded rest_def], of io_map] arg_cong [OF assms [unfolded rest_def], of sigmap]
    arg_cong [OF assms [unfolded rest_def], of common_timeout_queues] arg_cong [OF assms [unfolded rest_def], of be_calls]
    arg_cong [OF assms [unfolded rest_def], of be_fails] arg_cong [OF assms [unfolded rest_def], of tv_cache]
    arg_cong [OF assms [unfolded rest_def], of eb_clock] arg_cong [OF assms [unfolded rest_def], of eb_reads]
    arg_cong [OF assms [unfolded rest_def], of event_break] arg_cong [OF assms [unfolded rest_def], of event_running_priority]
    arg_cong [OF assms [unfolded rest_def], of ev_log] arg_cong [OF assms [unfolded rest_def], of eb_brk]
    arg_cong [OF assms [unfolded rest_def], of eb_oom] arg_cong [OF assms [unfolded rest_def], of sig_ncalls]
    arg_cong [OF assms [unfolded rest_def], of debug_mode] arg_cong [OF assms [unfolded rest_def], of event_continue]
    arg_cong [OF assms [unfolded rest_def], of deferred]
  by simp_all

lemma rest_trans: "rest s s' \<Longrightarrow> rest s' s'' \<Longrightarrow> rest s s''"
  unfolding rest_def by (cases s; cases s'; cases s'') simp

definition took :: "event_base \<Rightarrow> eptr \<Rightarrow> evlist \<Rightarrow> event_base \<Rightarrow> bool" where
  "took s e w s' \<longleftrightarrow> base_ok s' \<and> rest s s' \<and> evs s' = (evs s)(e := map_option (\<lambda>x. x\<lparr>ev_flags := ev_flags x - {w}\<rparr>) (evs s e))
     \<and> key (timeheap s') = key (timeheap s) \<and> mh_a (timeheap s') = mh_a (timeheap s)
     \<and> eventqueue s' = (if w = EVLIST_INSERTED then remove1 e (eventqueue s) else eventqueue s)
     \<and> activequeues s' = (if w = EVLIST_ACTIVE then (activequeues s)[pri_of s e := remove1 e (activequeues s ! pri_of s e)] else activequeues s)"

lemma base_parts:
  assumes "base_ok s" "evs s e = Some x"
  shows "heap_ok s" "inserted_ok s" "active_ok s" "counts_ok s" "calm s" "live (timeheap s) e" "ev_pri x < length (activequeues s)" "pri_of s e = ev_pri x"
    "ev_base x" "ev_pncalls x = None"
proof -
  show "heap_ok s" "inserted_ok s" "active_ok s" "counts_ok s" "calm s" "live (timeheap s) e" "ev_base x" "ev_pncalls x = None"
    using assms by (auto simp: base_ok_def heap_ok_def calm_def)
  show p: "pri_of s e = ev_pri x" using assms(2) by (simp add: pri_of_def)
  have "e \<in> dom (evs s)" using assms(2) by auto
  then show "ev_pri x < length (activequeues s)" using assms(1) p unfolding base_ok_def active_ok_def by metis
qed

lemma calm_upd: "calm s \<Longrightarrow> evs s e = Some x \<Longrightarrow> evs s' = (evs s)(e \<mapsto> y) \<Longrightarrow> ev_pncalls y = None \<Longrightarrow> ev_base y \<Longrightarrow> calm s'"
  by (cases "e = 0") (auto simp: calm_def)

lemma pri_upd: "evs s e = Some x \<Longrightarrow> ev_pri y = ev_pri x \<Longrightarrow> evs s' = (evs s)(e \<mapsto> y) \<Longrightarrow> pri_of s' = pri_of s"
  by (auto simp: pri_of_def fun_eq_iff)

lemma active_dequeued:
  assumes "active_ok s" "evs s e = Some x" "EVLIST_ACTIVE \<in> ev_flags x" "evs s' = (evs s)(e \<mapsto> y)" "ev_pri y = ev_pri x" "ev_flags y = ev_flags x - {EVLIST_ACTIVE}"
    "activequeues s' = (activequeues s)[ev_pri x := remove1 e (activequeues s ! ev_pri x)]"
  shows "active_ok s'"
proof -
  have p: "pri_of s' = pri_of s" "pri_of s e = ev_pri x" using pri_upd [OF assms(2,5,4)] assms(2) by (simp_all add: pri_of_def)
  have f: "flagged s' EVLIST_ACTIVE = flagged s EVLIST_ACTIVE - {e}"
    using flagged_upd [OF assms(2), of y EVLIST_ACTIVE] assms(4,6) flagged_cong [of s' "s\<lparr>evs := (evs s)(e \<mapsto> y)\<rparr>"] by simp
  have d: "dom (evs s') = dom (evs s)" using assms(2,4) by auto
  have "distinct (activequeues s' ! k) \<and> set (activequeues s' ! k) = {z \<in> flagged s' EVLIST_ACTIVE. pri_of s' z = k}" if k: "k < length (activequeues s)" for k
  proof -
    have q: "distinct (activequeues s ! k)" "set (activequeues s ! k) = {z \<in> flagged s EVLIST_ACTIVE. pri_of s z = k}" using assms(1) k by (simp_all add: active_ok_def)
    show ?thesis using q p f k by (cases "k = ev_pri x") (auto simp: assms(7))
  qed
  then show ?thesis using assms(1) p d by (simp add: active_ok_def assms(7))
qed

lemma heap_dequeued:
  assumes "heap_ok s" "evs s e = Some x" "EVLIST_TIMEOUT \<in> ev_flags x"
  shows "\<exists>h r. min_heap_erase e (timeheap s) = Inr (r, h) \<and> key h = key (timeheap s) \<and> live h = live (timeheap s) \<and> mh_a h = mh_a (timeheap s)
    \<and> (\<exists>q. queue h q \<and> set q = flagged s EVLIST_TIMEOUT - {e})"
proof -
  obtain q where q: "queue (timeheap s) q" "set q = flagged s EVLIST_TIMEOUT" using assms(1) by (auto simp: heap_ok_def)
  have "e \<in> set q" using q(2) assms(2,3) by (simp add: flagged_iff)
  from erase_run [OF q(1) this] obtain h q' where h: "min_heap_erase e (timeheap s) = Inr (0, h)" "queue h q'" "mset q' = mset q - {#e#}"
    "key h = key (timeheap s)" "live h = live (timeheap s)" "mh_a h = mh_a (timeheap s)" by blast
  have "mset q' = mset (remove1 e q)" using h(3) by simp
  then have "set q' = set (remove1 e q)" using mset_eq_setD by blast
  then have "set q' = set q - {e}" using queueD(4) [OF q(1)] by simp
  then show ?thesis using h q(2) by blast
qed

lemma event_queue_remove_run:
  assumes "base_ok s" "evs s e = Some x" "w \<in> ev_flags x" "w \<in> queues"
  shows "\<exists>s'. event_queue_remove e w s = Inr ((), s') \<and> took s e w s'"
proof -
  note p = base_parts [OF assms(1,2)]
  let ?y = "x\<lparr>ev_flags := ev_flags x - {w}\<rparr>"
  let ?d = "if EVLIST_INTERNAL \<notin> ev_flags x then - 1 else 0 :: int"
  let ?s = "s\<lparr>event_count := event_count s + ?d, evs := (evs s)(e \<mapsto> ?y)\<rparr>"
  have fl: "flagged ?s v = (if v = w then flagged s v - {e} else flagged s v)" for v
    using flagged_upd [OF assms(2), of ?y v] flagged_cong [of ?s "s\<lparr>evs := (evs s)(e \<mapsto> ?y)\<rparr>" v] flagged_iff [OF assms(2), of v] by auto
  have pri: "pri_of ?s = pri_of s" by (rule pri_upd [OF assms(2), of ?y]) simp_all
  have calm: "calm ?s" by (rule calm_upd [OF p(5) assms(2), of _ ?y]) (use p(9,10) in simp_all)
  have dm: "dom (evs ?s) = dom (evs s)" using assms(2) by auto
  have start: "event_queue_remove e w s = (case w of EVLIST_INSERTED \<Rightarrow> bnd (ask eventqueue) (\<lambda>q. bnd (TAILQ_REMOVE e q) (\<lambda>q. upd_base (\<lambda>s. s\<lparr>eventqueue := q\<rparr>)))
       | EVLIST_ACTIVE \<Rightarrow> bnd (upd_base (\<lambda>s. s\<lparr>event_count_active := event_count_active s - 1\<rparr>)) (\<lambda>_.
           bnd (ld_active (ev_pri x)) (\<lambda>q. bnd (TAILQ_REMOVE e q) (\<lambda>q. set_active (ev_pri x) q)))
       | EVLIST_TIMEOUT \<Rightarrow> bnd (in_heap (min_heap_erase e)) (\<lambda>_. ret ()) | _ \<Rightarrow> stop AssertFailed) ?s"
    using assms(2,3) p(6) heap_ok_no_queues [OF p(1)] unfolding event_queue_remove_def
    by (cases w) (simp_all add: run_simps is_common_timeout_def)
  consider "w = EVLIST_INSERTED" | "w = EVLIST_ACTIVE" | "w = EVLIST_TIMEOUT" using assms(4) by blast
  then show ?thesis
  proof cases
    case 1
    have "e \<in> set (eventqueue s)" using p(2) assms(2,3) 1 by (simp add: inserted_ok_def flagged_iff)
    then have r: "event_queue_remove e w s = Inr ((), ?s\<lparr>eventqueue := remove1 e (eventqueue s)\<rparr>)" (is "_ = Inr ((), ?t)")
      unfolding start using 1 by (simp add: run_simps)
    have "heap_ok ?t" by (rule heap_ok_cong [OF p(1)]) (use fl 1 dm flagged_cong [of ?t ?s] in simp_all)
    moreover have "inserted_ok ?t" using p(2) fl [of w] 1 flagged_cong [of ?t ?s] by (simp add: inserted_ok_def)
    moreover have "active_ok ?t" by (rule active_ok_cong [OF p(3)]) (use fl 1 dm pri pri_cong [of ?t ?s] flagged_cong [of ?t ?s] in simp_all)
    moreover have "counts_ok ?t" by (rule counts_remove [OF p(4) assms(2-4), of _ ?y]) (use 1 in simp_all)
    moreover have "calm ?t" using calm by (simp add: calm_def)
    ultimately show ?thesis using r 1 assms(2) by (simp add: took_def base_ok_def rest_def)
  next
    case 2
    have e: "e \<in> set (activequeues s ! ev_pri x)" using p(3,7,8) assms(2,3) 2 by (simp add: active_ok_def flagged_iff)
    then have r: "event_queue_remove e w s = Inr ((), ?s\<lparr>event_count_active := event_count_active s - 1,
        activequeues := (activequeues s)[ev_pri x := remove1 e (activequeues s ! ev_pri x)]\<rparr>)" (is "_ = Inr ((), ?t)")
      unfolding start using 2 p(7) by (simp add: run_simps set_active_def)
    have "heap_ok ?t" by (rule heap_ok_cong [OF p(1)]) (use fl 2 dm flagged_cong [of ?t ?s] in simp_all)
    moreover have "inserted_ok ?t" by (rule inserted_ok_cong [OF p(2)]) (use fl 2 flagged_cong [of ?t ?s] in simp_all)
    moreover have "active_ok ?t" by (rule active_dequeued [OF p(3) assms(2), of _ ?y]) (use 2 assms(3) in simp_all)
    moreover have "counts_ok ?t" by (rule counts_remove [OF p(4) assms(2-4), of _ ?y]) (use 2 in simp_all)
    moreover have "calm ?t" using calm by (simp add: calm_def)
    ultimately show ?thesis using r 2 assms(2) p(8) by (simp add: took_def base_ok_def rest_def)
  next
    case 3
    obtain h q v where h: "min_heap_erase e (timeheap s) = Inr (v, h)" "key h = key (timeheap s)" "live h = live (timeheap s)" "mh_a h = mh_a (timeheap s)"
      "queue h q" "set q = flagged s EVLIST_TIMEOUT - {e}" using heap_dequeued [OF p(1) assms(2)] assms(3) 3 by blast
    have r: "event_queue_remove e w s = Inr ((), ?s\<lparr>timeheap := h\<rparr>)" (is "_ = Inr ((), ?t)")
      unfolding start using 3 h(1) by (simp add: in_heap_def bnd_def)
    have "heap_ok ?t" using p(1) h(3,5,6) dm fl [of w] 3 flagged_cong [of ?t ?s] unfolding heap_ok_def by auto
    moreover have "inserted_ok ?t" by (rule inserted_ok_cong [OF p(2)]) (use fl 3 flagged_cong [of ?t ?s] in simp_all)
    moreover have "active_ok ?t" by (rule active_ok_cong [OF p(3)]) (use fl 3 dm pri pri_cong [of ?t ?s] flagged_cong [of ?t ?s] in simp_all)
    moreover have "counts_ok ?t" by (rule counts_remove [OF p(4) assms(2-4), of _ ?y]) (use 3 in simp_all)
    moreover have "calm ?t" using calm by (simp add: calm_def)
    ultimately show ?thesis using r 3 assms(2) h(2,4) by (simp add: took_def base_ok_def rest_def)
  qed
qed

section \<open>Putting an event into a queue\<close>

definition entered :: "event_base \<Rightarrow> eptr \<Rightarrow> evlist \<Rightarrow> event_base \<Rightarrow> bool" where
  "entered s e w s' \<longleftrightarrow> base_ok s' \<and> rest s s' \<and> evs s' = (evs s)(e := map_option (\<lambda>x. x\<lparr>ev_flags := insert w (ev_flags x)\<rparr>) (evs s e))
     \<and> key (timeheap s') = key (timeheap s)
     \<and> eventqueue s' = (if w = EVLIST_INSERTED then eventqueue s @ [e] else eventqueue s)
     \<and> activequeues s' = (if w = EVLIST_ACTIVE then (activequeues s)[pri_of s e := activequeues s ! pri_of s e @ [e]] else activequeues s)
     \<and> (w \<noteq> EVLIST_TIMEOUT \<longrightarrow> timeheap s' = timeheap s)"

lemma push_reserved:
  assumes "queue h q" "live h e" "e \<notin> set q" "Suc (mh_n h) < 2 ^ 31" "mh_n h < mh_a h"
  shows "\<exists>h' q'. min_heap_push e h = Inr (0, h') \<and> queue h' q' \<and> set q' = insert e (set q) \<and> key h' = key h \<and> live h' = live h"
proof -
  have n: "u32_add (mh_n h) (Suc 0) = Suc (mh_n h)" using assms(4) by (simp add: u32_add_def)
  have "min_heap_reserve (Suc (mh_n h)) h = Inr (0, h)" using assms(5) by (simp add: min_heap_reserve_def)
  then have "min_heap_push e h \<noteq> Inr (- 1, h)" by (auto simp: min_heap_push_def n bnd_def get_heap_def set_n_def split: sum.splits)
  then obtain h' q' where h: "min_heap_push e h = Inr (0, h')" "queue h' q'" "mset q' = add_mset e (mset q)" "key h' = key h" "live h' = live h"
    using push_run [OF assms(1-4)] by blast
  have "mset q' = mset (e # q)" using h(3) by simp
  then have "set q' = set (e # q)" using mset_eq_setD by blast
  then show ?thesis using h by auto
qed

lemma active_enqueued:
  assumes "active_ok s" "evs s e = Some x" "EVLIST_ACTIVE \<notin> ev_flags x" "evs s' = (evs s)(e \<mapsto> y)" "ev_pri y = ev_pri x" "ev_flags y = insert EVLIST_ACTIVE (ev_flags x)"
    "activequeues s' = (activequeues s)[ev_pri x := activequeues s ! ev_pri x @ [e]]"
  shows "active_ok s'"
proof -
  have p: "pri_of s' = pri_of s" "pri_of s e = ev_pri x" using pri_upd [OF assms(2,5,4)] assms(2) by (simp_all add: pri_of_def)
  have f: "flagged s' EVLIST_ACTIVE = insert e (flagged s EVLIST_ACTIVE)"
    using flagged_upd [OF assms(2), of y EVLIST_ACTIVE] assms(4,6) flagged_cong [of s' "s\<lparr>evs := (evs s)(e \<mapsto> y)\<rparr>"] by simp
  have e: "e \<notin> flagged s EVLIST_ACTIVE" using assms(2,3) by (simp add: flagged_iff)
  have d: "dom (evs s') = dom (evs s)" using assms(2,4) by auto
  have "distinct (activequeues s' ! k) \<and> set (activequeues s' ! k) = {z \<in> flagged s' EVLIST_ACTIVE. pri_of s' z = k}" if k: "k < length (activequeues s)" for k
  proof -
    have q: "distinct (activequeues s ! k)" "set (activequeues s ! k) = {z \<in> flagged s EVLIST_ACTIVE. pri_of s z = k}" using assms(1) k by (simp_all add: active_ok_def)
    show ?thesis using q p f k e by (cases "k = ev_pri x") (auto simp: assms(7))
  qed
  then show ?thesis using assms(1) p d by (simp add: active_ok_def assms(7))
qed

text \<open>Room for one more timeout.\<close>

definition has_room :: "event_base \<Rightarrow> bool" where
  "has_room s \<longleftrightarrow> mh_n (timeheap s) < mh_a (timeheap s) \<and> Suc (mh_n (timeheap s)) < 2 ^ 31"

lemma event_queue_insert_run:
  assumes "base_ok s" "evs s e = Some x" "w \<notin> ev_flags x" "w \<in> queues" "w = EVLIST_TIMEOUT \<Longrightarrow> has_room s"
  shows "\<exists>s'. event_queue_insert e w s = Inr ((), s') \<and> entered s e w s'"
proof -
  note p = base_parts [OF assms(1,2)]
  let ?y = "x\<lparr>ev_flags := insert w (ev_flags x)\<rparr>"
  let ?d = "if EVLIST_INTERNAL \<notin> ev_flags x then 1 else 0 :: int"
  let ?s = "s\<lparr>event_count := event_count s + ?d, evs := (evs s)(e \<mapsto> ?y)\<rparr>"
  have fl: "flagged ?s v = (if v = w then insert e (flagged s v) else flagged s v)" for v
    using flagged_upd [OF assms(2), of ?y v] flagged_cong [of ?s "s\<lparr>evs := (evs s)(e \<mapsto> ?y)\<rparr>" v] flagged_iff [OF assms(2), of v] by auto
  have pri: "pri_of ?s = pri_of s" by (rule pri_upd [OF assms(2), of ?y]) simp_all
  have calm: "calm ?s" by (rule calm_upd [OF p(5) assms(2), of _ ?y]) (use p(9,10) in simp_all)
  have dm: "dom (evs ?s) = dom (evs s)" using assms(2) by auto
  have start: "event_queue_insert e w s = (case w of EVLIST_INSERTED \<Rightarrow> upd_base (\<lambda>s. s\<lparr>eventqueue := eventqueue s @ [e]\<rparr>)
       | EVLIST_ACTIVE \<Rightarrow> bnd (upd_base (\<lambda>s. s\<lparr>event_count_active := event_count_active s + 1\<rparr>)) (\<lambda>_.
           bnd (ld_active (ev_pri x)) (\<lambda>q. set_active (ev_pri x) (q @ [e])))
       | EVLIST_TIMEOUT \<Rightarrow> bnd (in_heap (min_heap_push e)) (\<lambda>_. ret ()) | _ \<Rightarrow> stop AssertFailed) ?s"
    using assms(2,3) p(6) heap_ok_no_queues [OF p(1)] unfolding event_queue_insert_def
    by (cases w) (simp_all add: run_simps is_common_timeout_def)
  consider "w = EVLIST_INSERTED" | "w = EVLIST_ACTIVE" | "w = EVLIST_TIMEOUT" using assms(4) by blast
  then show ?thesis
  proof cases
    case 1
    have "e \<notin> set (eventqueue s)" using p(2) assms(2,3) 1 by (simp add: inserted_ok_def flagged_iff)
    have r: "event_queue_insert e w s = Inr ((), ?s\<lparr>eventqueue := eventqueue s @ [e]\<rparr>)" (is "_ = Inr ((), ?t)")
      unfolding start using 1 by (simp add: run_simps)
    have "heap_ok ?t" by (rule heap_ok_cong [OF p(1)]) (use fl 1 dm flagged_cong [of ?t ?s] in simp_all)
    moreover have "inserted_ok ?t" using p(2) fl [of w] 1 flagged_cong [of ?t ?s] \<open>e \<notin> set (eventqueue s)\<close> by (simp add: inserted_ok_def)
    moreover have "active_ok ?t" by (rule active_ok_cong [OF p(3)]) (use fl 1 dm pri pri_cong [of ?t ?s] flagged_cong [of ?t ?s] in simp_all)
    moreover have "counts_ok ?t" by (rule counts_insert [OF p(4) assms(2-4), of _ ?y]) (use 1 in simp_all)
    moreover have "calm ?t" using calm by (simp add: calm_def)
    ultimately show ?thesis using r 1 assms(2) by (simp add: entered_def base_ok_def rest_def)
  next
    case 2
    have r: "event_queue_insert e w s = Inr ((), ?s\<lparr>event_count_active := event_count_active s + 1,
        activequeues := (activequeues s)[ev_pri x := activequeues s ! ev_pri x @ [e]]\<rparr>)" (is "_ = Inr ((), ?t)")
      unfolding start using 2 p(7) by (simp add: run_simps set_active_def)
    have "heap_ok ?t" by (rule heap_ok_cong [OF p(1)]) (use fl 2 dm flagged_cong [of ?t ?s] in simp_all)
    moreover have "inserted_ok ?t" by (rule inserted_ok_cong [OF p(2)]) (use fl 2 flagged_cong [of ?t ?s] in simp_all)
    moreover have "active_ok ?t" by (rule active_enqueued [OF p(3) assms(2), of _ ?y]) (use 2 assms(3) in simp_all)
    moreover have "counts_ok ?t" by (rule counts_insert [OF p(4) assms(2-4), of _ ?y]) (use 2 in simp_all)
    moreover have "calm ?t" using calm by (simp add: calm_def)
    ultimately show ?thesis using r 2 assms(2) p(8) by (simp add: entered_def base_ok_def rest_def)
  next
    case 3
    obtain q where q: "queue (timeheap s) q" "set q = flagged s EVLIST_TIMEOUT" using p(1) by (auto simp: heap_ok_def)
    have "e \<notin> set q" using q(2) assms(2,3) 3 by (simp add: flagged_iff)
    from push_reserved [OF q(1) p(6) this] obtain h q' where h: "min_heap_push e (timeheap s) = Inr (0, h)" "queue h q'"
      "set q' = insert e (flagged s EVLIST_TIMEOUT)" "key h = key (timeheap s)" "live h = live (timeheap s)"
      using assms(5) 3 q(2) by (auto simp: has_room_def)
    have r: "event_queue_insert e w s = Inr ((), ?s\<lparr>timeheap := h\<rparr>)" (is "_ = Inr ((), ?t)")
      unfolding start using 3 h(1) by (simp add: in_heap_def bnd_def)
    have "heap_ok ?t" using p(1) h(2,3,5) dm fl [of w] 3 flagged_cong [of ?t ?s] unfolding heap_ok_def by auto
    moreover have "inserted_ok ?t" by (rule inserted_ok_cong [OF p(2)]) (use fl 3 flagged_cong [of ?t ?s] in simp_all)
    moreover have "active_ok ?t" by (rule active_ok_cong [OF p(3)]) (use fl 3 dm pri pri_cong [of ?t ?s] flagged_cong [of ?t ?s] in simp_all)
    moreover have "counts_ok ?t" by (rule counts_insert [OF p(4) assms(2-4), of _ ?y]) (use 3 in simp_all)
    moreover have "calm ?t" using calm by (simp add: calm_def)
    ultimately show ?thesis using r 3 assms(2) h(4) by (simp add: entered_def base_ok_def rest_def)
  qed
qed

section \<open>Other changes of an event\<close>

lemma base_ok_upd:
  assumes "base_ok s" "evs s e = Some x" "ev_flags (f x) = ev_flags x" "ev_pri (f x) = ev_pri x" "ev_pncalls (f x) = None" "ev_base (f x)"
  shows "base_ok (s\<lparr>evs := (evs s)(e \<mapsto> f x)\<rparr>)"
proof -
  let ?t = "s\<lparr>evs := (evs s)(e \<mapsto> f x)\<rparr>"
  note p = base_parts [OF assms(1,2)]
  have fl: "flagged ?t v = flagged s v" for v using flagged_upd [OF assms(2), of "f x" v] flagged_iff [OF assms(2), of v] assms(3) by auto
  have dm: "dom (evs ?t) = dom (evs s)" using assms(2) by auto
  have pri: "pri_of ?t = pri_of s" by (rule pri_upd [OF assms(2) assms(4)]) simp
  have "heap_ok ?t" by (rule heap_ok_cong [OF p(1)]) (use fl dm in simp_all)
  moreover have "inserted_ok ?t" by (rule inserted_ok_cong [OF p(2)]) (use fl in simp_all)
  moreover have "active_ok ?t" by (rule active_ok_cong [OF p(3)]) (use fl dm pri in simp_all)
  moreover have "counts_ok ?t" using p(4) fl dm by (simp add: counts_ok_def counted_def)
  moreover have "calm ?t" by (rule calm_upd [OF p(5) assms(2), of _ "f x"]) (use assms(5,6) in simp_all)
  ultimately show ?thesis by (simp add: base_ok_def)
qed

lemma base_ok_fields:
  assumes "base_ok s" "evs s' = evs s" "timeheap s' = timeheap s" "eventqueue s' = eventqueue s" "activequeues s' = activequeues s"
    "common_timeout_queues s' = common_timeout_queues s" "event_count s' = event_count s" "event_count_active s' = event_count_active s"
  shows "base_ok s'"
proof -
  have fl: "flagged s' = flagged s" using flagged_cong [OF assms(2)] by (simp add: fun_eq_iff)
  have c: "counted s' = counted s" using fl by (simp add: counted_def)
  have p: "pri_of s' = pri_of s" by (rule pri_cong [OF assms(2)])
  show ?thesis using assms fl c p unfolding base_ok_def heap_ok_def inserted_ok_def active_ok_def counts_ok_def calm_def by simp
qed

text \<open>A new time for an event that is not in the heap.\<close>

lemma st_timeout_run:
  assumes "base_ok s" "evs s e = Some x" "EVLIST_TIMEOUT \<notin> ev_flags x"
  shows "\<exists>s'. st_timeout e tv s = Inr ((), s') \<and> base_ok s' \<and> s' = s\<lparr>timeheap := timeheap s'\<rparr> \<and> timeout_of s' = (timeout_of s)(e := tv)
    \<and> mh_n (timeheap s') = mh_n (timeheap s) \<and> mh_a (timeheap s') = mh_a (timeheap s)"
proof -
  note p = base_parts [OF assms(1,2)]
  obtain y where y: "mh_events (timeheap s) e = Some y" using p(6) by (auto simp: live_def)
  let ?h = "(timeheap s)\<lparr>mh_events := (mh_events (timeheap s))(e \<mapsto> y\<lparr>ev_timeout := tv\<rparr>)\<rparr>"
  let ?t = "s\<lparr>timeheap := ?h\<rparr>"
  have r: "st_timeout e tv s = Inr ((), ?t)" using y by (simp add: st_timeout_def in_heap_def bnd_def event_of_def)
  obtain q where q: "queue (timeheap s) q" "set q = flagged s EVLIST_TIMEOUT" using p(1) by (auto simp: heap_ok_def)
  have e: "e \<notin> set q" using q(2) assms(2,3) by (simp add: flagged_iff)
  have f: "live ?h = live (timeheap s)" "idx ?h = idx (timeheap s)" "\<And>z. z \<noteq> e \<Longrightarrow> key ?h z = key (timeheap s) z"
    using y by (auto simp: live_def idx_def key_def fun_eq_iff)
  have "heap_ord (key ?h) q"
  proof -
    have "key ?h (q ! i) = key (timeheap s) (q ! i)" if "i < length q" for i using f(3) [of "q ! i"] e nth_mem [OF that] by auto
    moreover have "par i < length q" if "0 < i" "i < length q" for i using par_less [OF that(1)] that(2) by simp
    ultimately show ?thesis using queueD(6) [OF q(1)] unfolding heap_ord_def by auto
  qed
  then have "queue ?h q" using q(1) f(1,2) unfolding queue_def placed_def by auto
  then have "heap_ok ?t" using p(1) q(2) f(1) flagged_cong [of ?t s] unfolding heap_ok_def by auto
  moreover have "inserted_ok ?t" "active_ok ?t" "counts_ok ?t" "calm ?t"
    using p(2-5) flagged_cong [of ?t s] pri_cong [of ?t s] by (simp_all add: inserted_ok_def active_ok_def counts_ok_def counted_def calm_def)
  ultimately have "base_ok ?t" by (simp add: base_ok_def)
  moreover have "timeout_of ?t = (timeout_of s)(e := tv)" by (auto simp: timeout_of_def fun_eq_iff)
  ultimately show ?thesis using r by (intro exI [of _ ?t]) simp
qed

end
