(* ===== verification/Event_Maps.thy ===== *)
theory Event_Maps
  imports Event_Facts
begin

text \<open>
  The maps from descriptors and signals to events: each entry lists the events that are added for it and counts the readers and
  the writers among them, and the back end has been told of a descriptor exactly what its events want.
\<close>

section \<open>The invariant\<close>

definition events_of :: "event_base \<Rightarrow> eptr \<Rightarrow> evbit set" where
  "events_of s e = (case evs s e of Some x \<Rightarrow> ev_events x | None \<Rightarrow> {})"

definition fd_of :: "event_base \<Rightarrow> eptr \<Rightarrow> int" where
  "fd_of s e = (case evs s e of Some x \<Rightarrow> ev_fd x | None \<Rightarrow> 0)"

abbreviation RW :: "evbit set" where "RW \<equiv> {EV_READ, EV_WRITE}"

definition entry :: "event_base \<Rightarrow> nat \<Rightarrow> evmap_io" where
  "entry s fd = (if fd < length (io_map s) then case io_map s ! fd of None \<Rightarrow> evmap_io_init | Some c \<Rightarrow> c else evmap_io_init)"

definition sig_entry :: "event_base \<Rightarrow> nat \<Rightarrow> eptr list" where
  "sig_entry s sig = (if sig < length (sigmap s) then case sigmap s ! sig of None \<Rightarrow> [] | Some es \<Rightarrow> es else [])"

text \<open>How many of the events want to read, or to write.\<close>

definition wanting :: "event_base \<Rightarrow> evbit \<Rightarrow> eptr list \<Rightarrow> nat" where
  "wanting s b es = length (filter (\<lambda>e. b \<in> events_of s e) es)"

text \<open>What the back end was told about a descriptor.\<close>

fun tell :: "(int \<Rightarrow> evbit set) \<Rightarrow> be_call \<times> bool \<Rightarrow> int \<Rightarrow> evbit set" where
  "tell I (c, False) = I"
| "tell I (Be_Add fd old es, True) = I(fd := I fd \<union> (es \<inter> RW))"
| "tell I (Be_Del fd old es, True) = I(fd := I fd - es)"
| "tell I (Sig_Add sig, True) = I"
| "tell I (Sig_Del sig, True) = I"

definition interest :: "(be_call \<times> bool) list \<Rightarrow> int \<Rightarrow> evbit set" where
  "interest cs = foldl tell (\<lambda>_. {}) cs"

lemma interest_snoc: "interest (cs @ [c]) = tell (interest cs) c"
  by (simp add: interest_def)

text \<open>The maps hold the events of the set \<open>A\<close>.\<close>

definition entry_ok :: "event_base \<Rightarrow> eptr set \<Rightarrow> nat \<Rightarrow> bool" where
  "entry_ok s A fd \<longleftrightarrow> (let c = entry s fd in
     distinct (io_events c) \<and> set (io_events c) = {e \<in> A. events_of s e \<inter> RW \<noteq> {} \<and> fd_of s e = int fd}
     \<and> nread c = wanting s EV_READ (io_events c) \<and> nwrite c = wanting s EV_WRITE (io_events c)
     \<and> interest (be_calls s) (int fd) = wants EV_READ (nread c \<noteq> 0) \<union> wants EV_WRITE (nwrite c \<noteq> 0))"

definition sig_ok :: "event_base \<Rightarrow> eptr set \<Rightarrow> nat \<Rightarrow> bool" where
  "sig_ok s A sig \<longleftrightarrow> distinct (sig_entry s sig) \<and> set (sig_entry s sig) = {e \<in> A. events_of s e \<inter> RW = {} \<and> fd_of s e = int sig}"

definition maps_ok :: "event_base \<Rightarrow> eptr set \<Rightarrow> bool" where
  "maps_ok s A \<longleftrightarrow> (\<forall>fd. entry_ok s A fd) \<and> (\<forall>sig. sig_ok s A sig) \<and> \<not> debug_mode s"

definition map_rest :: "event_base \<Rightarrow> event_base \<Rightarrow> bool" where
  "map_rest s s' \<longleftrightarrow> s' = s\<lparr>io_map := io_map s', sigmap := sigmap s', be_calls := be_calls s', eb_brk := eb_brk s'\<rparr>"

lemma wanting_cong: "\<forall>e\<in>set es. events_of s' e = events_of s e \<Longrightarrow> wanting s' b es = wanting s b es"
  unfolding wanting_def by (rule arg_cong [of _ _ length], rule filter_cong) simp_all

lemma maps_ok_cong:
  assumes "maps_ok s A" "io_map s' = io_map s" "sigmap s' = sigmap s" "be_calls s' = be_calls s" "debug_mode s' = debug_mode s" "events_of s' = events_of s" "fd_of s' = fd_of s"
  shows "maps_ok s' A"
proof -
  have "entry s' = entry s" "sig_entry s' = sig_entry s" "wanting s' = wanting s"
    using assms(2,3,6) by (simp_all add: entry_def sig_entry_def wanting_def fun_eq_iff)
  then show ?thesis using assms(1,4-7) by (simp add: maps_ok_def entry_ok_def sig_ok_def)
qed

lemma maps_ok_restrict:
  assumes "maps_ok s A" "\<And>e. e \<in> A \<longleftrightarrow> e \<in> B"
  shows "maps_ok s B"
proof -
  have "A = B" using assms(2) by blast
  then show ?thesis using assms(1) by simp
qed

section \<open>Descriptors\<close>

lemma grow_gt: "0 < n \<Longrightarrow> sl < grow_entries n sl \<and> n \<le> grow_entries n sl"
proof (induction n sl rule: grow_entries.induct)
  case (1 n sl)
  show ?case
  proof (cases "n \<le> sl")
    case True
    then have "grow_entries n sl = grow_entries (2 * n) sl" using 1(2) by (subst grow_entries.simps) simp
    then show ?thesis using 1(1) True 1(2) by auto
  next
    case False
    then have "grow_entries n sl = n" by (subst grow_entries.simps) simp
    then show ?thesis using False by simp
  qed
qed

lemma grow_le: "0 < n \<Longrightarrow> grow_entries n sl \<le> max n (2 * sl)"
proof (induction n sl rule: grow_entries.induct)
  case (1 n sl)
  show ?case
  proof (cases "n \<le> sl")
    case True
    then have "grow_entries n sl = grow_entries (2 * n) sl" using 1(2) by (subst grow_entries.simps) simp
    then show ?thesis using 1(1) True 1(2) by auto
  next
    case False
    then have "grow_entries n sl = n" by (subst grow_entries.simps) simp
    then show ?thesis by simp
  qed
qed

text \<open>Descriptors and signals below this bound have entries whose size fits.\<close>

definition MAX_SLOT :: nat where "MAX_SLOT = 2 ^ 27"

lemma make_space_run:
  assumes "sl < MAX_SLOT"
  shows "\<exists>r b. evmap_make_space m sl s = Inr (r, s\<lparr>eb_brk := b\<rparr>) \<and> (\<forall>m'. r = Some m' \<longrightarrow> sl < length m' \<and> (\<exists>k. m' = m @ replicate k None))"
proof (cases "length m \<le> sl")
  case True
  let ?n = "if m \<noteq> [] then length m else 32"
  have "sl < grow_entries ?n sl" using grow_gt [of ?n sl] by auto
  then have l: "sl < length (m @ replicate (grow_entries ?n sl - length m) None)" using True by simp
  let ?r = "if (if eb_oom s (eb_brk s) then 0 else eb_brk s) = 0 then None else Some (m @ replicate (grow_entries ?n sl - length m) None)"
  have "grow_entries ?n sl \<le> max ?n (2 * sl)" by (rule grow_le) simp
  then have "\<not> grow_entries ?n sl * 8 \<ge> 2 ^ 31" using assms True by (auto simp: MAX_SLOT_def split: if_splits)
  then have "evmap_make_space m sl s = Inr (?r, s\<lparr>eb_brk := Suc (eb_brk s)\<rparr>)" using True by (simp add: evmap_make_space_def Let_def ev_alloc_def bnd_def)
  moreover have "\<forall>m'. ?r = Some m' \<longrightarrow> sl < length m' \<and> (\<exists>k. m' = m @ replicate k None)"
  proof (intro allI impI)
    fix m' assume "?r = Some m'"
    then have "m' = m @ replicate (grow_entries ?n sl - length m) None" by (auto split: if_splits)
    then show "sl < length m' \<and> (\<exists>k. m' = m @ replicate k None)" using l by blast
  qed
  ultimately show ?thesis by blast
next
  case False
  then have "evmap_make_space m sl s = Inr (Some m, s\<lparr>eb_brk := eb_brk s\<rparr>)" by (simp add: evmap_make_space_def)
  moreover have "\<exists>k. m = m @ replicate k None" by (rule exI [of _ 0]) simp
  ultimately show ?thesis using False by (intro exI [of _ "Some m"] exI [of _ "eb_brk s"]) simp
qed

lemma entry_grown: "entry (s\<lparr>io_map := io_map s @ replicate k None\<rparr>) fd = entry s fd"
  by (auto simp: entry_def nth_append)

lemma sig_entry_grown: "sig_entry (s\<lparr>sigmap := sigmap s @ replicate k None\<rparr>) fd = sig_entry s fd"
  by (auto simp: sig_entry_def nth_append)

text \<open>The entry that is read or made.\<close>

lemma io_slot_run:
  assumes "fd < length (io_map s)"
  shows "\<exists>r s'. GET_IO_SLOT_AND_CTOR fd s = Inr (r, s') \<and> map_rest s s' \<and> be_calls s' = be_calls s \<and> sigmap s' = sigmap s \<and> length (io_map s') = length (io_map s)
    \<and> (\<forall>i. entry s' i = entry s i) \<and> (\<forall>c. r = Some c \<longrightarrow> c = entry s fd)"
proof (cases "io_map s ! fd")
  case (Some c)
  then show ?thesis using assms by (simp add: GET_IO_SLOT_AND_CTOR_def run_simps map_rest_def entry_def)
next
  case None
  then show ?thesis using assms
    by (cases "eb_oom s (eb_brk s) \<or> eb_brk s = 0")
      (auto simp: GET_IO_SLOT_AND_CTOR_def bnd_def ask_def ev_alloc_def set_io_def upd_base_def map_rest_def entry_def nth_list_update)
qed

lemma map_rest_refl [simp]: "map_rest s s" by (simp add: map_rest_def)

lemma map_rest_trans: "map_rest s s' \<Longrightarrow> map_rest s' s'' \<Longrightarrow> map_rest s s''"
  unfolding map_rest_def by (cases s; cases s'; cases s'') simp

lemma map_rest_fields:
  assumes "map_rest s s'"
  shows "evs s' = evs s" "timeheap s' = timeheap s" "eventqueue s' = eventqueue s" "activequeues s' = activequeues s" "event_count s' = event_count s"
    "event_count_active s' = event_count_active s" "common_timeout_queues s' = common_timeout_queues s" "be_fails s' = be_fails s" "debug_mode s' = debug_mode s"
    "tv_cache s' = tv_cache s" "eb_clock s' = eb_clock s" "eb_reads s' = eb_reads s" "event_running_priority s' = event_running_priority s" "ev_log s' = ev_log s"
    "event_break s' = event_break s" "sig_ncalls s' = sig_ncalls s" "event_continue s' = event_continue s" "deferred s' = deferred s"
  using arg_cong [OF assms [unfolded map_rest_def], of evs] arg_cong [OF assms [unfolded map_rest_def], of timeheap]
    arg_cong [OF assms [unfolded map_rest_def], of eventqueue] arg_cong [OF assms [unfolded map_rest_def], of activequeues]
    arg_cong [OF assms [unfolded map_rest_def], of event_count] arg_cong [OF assms [unfolded map_rest_def], of event_count_active]
    arg_cong [OF assms [unfolded map_rest_def], of common_timeout_queues] arg_cong [OF assms [unfolded map_rest_def], of be_fails]
    arg_cong [OF assms [unfolded map_rest_def], of debug_mode] arg_cong [OF assms [unfolded map_rest_def], of tv_cache]
    arg_cong [OF assms [unfolded map_rest_def], of eb_clock] arg_cong [OF assms [unfolded map_rest_def], of eb_reads]
    arg_cong [OF assms [unfolded map_rest_def], of event_running_priority] arg_cong [OF assms [unfolded map_rest_def], of ev_log]
    arg_cong [OF assms [unfolded map_rest_def], of event_break] arg_cong [OF assms [unfolded map_rest_def], of sig_ncalls]
    arg_cong [OF assms [unfolded map_rest_def], of event_continue] arg_cong [OF assms [unfolded map_rest_def], of deferred]
  by simp_all

lemma map_rest_base: "base_ok s \<Longrightarrow> map_rest s s' \<Longrightarrow> base_ok s'"
  by (rule base_ok_fields) (simp_all add: map_rest_fields)

lemma map_rest_of: "map_rest s s' \<Longrightarrow> events_of s' = events_of s" "map_rest s s' \<Longrightarrow> fd_of s' = fd_of s" "map_rest s s' \<Longrightarrow> wanting s' = wanting s"
  by (simp_all add: events_of_def fd_of_def wanting_def map_rest_fields fun_eq_iff)

lemma maps_ok_entries:
  assumes "maps_ok s A" "map_rest s s'" "be_calls s' = be_calls s" "\<And>i. entry s' i = entry s i" "\<And>i. sig_entry s' i = sig_entry s i"
  shows "maps_ok s' A"
  using assms(1,3-5) map_rest_of [OF assms(2)] map_rest_fields(9) [OF assms(2)] by (simp add: maps_ok_def entry_ok_def sig_ok_def)

lemma wanting_snoc: "evs s e = Some x \<Longrightarrow> wanting s b (es @ [e]) = wanting s b es + (if b \<in> ev_events x then 1 else 0)"
  by (simp add: wanting_def events_of_def)

lemma event_of_simps: "evs s e = Some x \<Longrightarrow> events_of s e = ev_events x" "evs s e = Some x \<Longrightarrow> fd_of s e = ev_fd x"
  by (simp_all add: events_of_def fd_of_def)

text \<open>What changes at a descriptor when an event is added.\<close>

definition added_entry :: "evmap_io \<Rightarrow> eptr \<Rightarrow> event \<Rightarrow> evmap_io" where
  "added_entry c e x = \<lparr>io_events = io_events c @ [e], nread = (if EV_READ \<in> ev_events x then nread c + 1 else nread c),
     nwrite = (if EV_WRITE \<in> ev_events x then nwrite c + 1 else nwrite c)\<rparr>"

definition new_wants :: "evmap_io \<Rightarrow> event \<Rightarrow> evbit set" where
  "new_wants c x = wants EV_READ (EV_READ \<in> ev_events x \<and> nread c = 0) \<union> wants EV_WRITE (EV_WRITE \<in> ev_events x \<and> nwrite c = 0)"

lemma entry_added:
  assumes "maps_ok s A" "evs s e = Some x" "e \<notin> A" "ev_events x \<inter> RW \<noteq> {}" "ev_fd x = int fd" "map_rest s s'" "\<And>i. sig_entry s' i = sig_entry s i"
    "\<And>i. entry s' i = (if i = fd then added_entry (entry s fd) e x else entry s i)"
    "\<And>i. interest (be_calls s') (int i) = (if i = fd then interest (be_calls s) (int fd) \<union> new_wants (entry s fd) x else interest (be_calls s) (int i))"
  shows "maps_ok s' (insert e A)"
proof -
  note of = map_rest_of [OF assms(6)] event_of_simps [OF assms(2)]
  have ok: "entry_ok s A i" "sig_ok s A i" for i using assms(1) by (simp_all add: maps_ok_def)
  have "entry_ok s' (insert e A) i" for i
  proof (cases "i = fd")
    case True
    let ?c = "entry s fd"
    have c: "distinct (io_events ?c)" "set (io_events ?c) = {e \<in> A. events_of s e \<inter> RW \<noteq> {} \<and> fd_of s e = int fd}"
      "nread ?c = wanting s EV_READ (io_events ?c)" "nwrite ?c = wanting s EV_WRITE (io_events ?c)"
      "interest (be_calls s) (int fd) = wants EV_READ (nread ?c \<noteq> 0) \<union> wants EV_WRITE (nwrite ?c \<noteq> 0)" using ok(1) [of fd] by (simp_all add: entry_ok_def Let_def)
    have n: "entry s' i = added_entry ?c e x" "interest (be_calls s') (int i) = interest (be_calls s) (int fd) \<union> new_wants ?c x" using assms(8,9) True by simp_all
    have "interest (be_calls s') (int i) = wants EV_READ (nread (added_entry ?c e x) \<noteq> 0) \<union> wants EV_WRITE (nwrite (added_entry ?c e x) \<noteq> 0)"
      unfolding n(2) c(5) by (auto simp: added_entry_def new_wants_def wants_def)
    moreover have "distinct (io_events (added_entry ?c e x))" using c(1,2) assms(3) by (simp add: added_entry_def)
    moreover have "set (io_events (added_entry ?c e x)) = {z \<in> insert e A. events_of s' z \<inter> RW \<noteq> {} \<and> fd_of s' z = int i}"
      using c(2) of assms(4,5) True by (auto simp: added_entry_def)
    moreover have "nread (added_entry ?c e x) = wanting s' EV_READ (io_events (added_entry ?c e x))" "nwrite (added_entry ?c e x) = wanting s' EV_WRITE (io_events (added_entry ?c e x))"
      using c(3,4) of(3) wanting_snoc [OF assms(2)] by (simp_all add: added_entry_def)
    ultimately show ?thesis using n(1) by (simp add: entry_ok_def Let_def)
  next
    case False
    then show ?thesis using ok(1) [of i] assms(8,9) of assms(5) by (auto simp: entry_ok_def Let_def)
  qed
  moreover have "sig_ok s' (insert e A) i" for i using ok(2) [of i] assms(4,7) of by (auto simp: sig_ok_def)
  ultimately show ?thesis using assms(1) map_rest_fields(9) [OF assms(6)] by (simp add: maps_ok_def)
qed

text \<open>A back end that may refuse to watch a descriptor or a signal, but never to forget one.\<close>

fun is_del :: "be_call \<Rightarrow> bool" where
  "is_del (Be_Del fd old es) = True"
| "is_del (Sig_Del sig) = True"
| "is_del _ = False"

definition forgetting :: "event_base \<Rightarrow> bool" where
  "forgetting s \<longleftrightarrow> (\<forall>n c. is_del c \<longrightarrow> \<not> be_fails s n c)"

lemma forgetting_cong: "be_fails s' = be_fails s \<Longrightarrow> forgetting s' = forgetting s"
  by (simp add: forgetting_def)

lemma backend_run: "\<exists>ok. backend c s = Inr (ok, s\<lparr>be_calls := be_calls s @ [(c, ok)]\<rparr>) \<and> (is_del c \<and> forgetting s \<longrightarrow> ok)"
  by (auto simp: backend_def Let_def forgetting_def)

lemma interest_failed: "interest (cs @ [(c, False)]) = interest cs"
  by (simp add: interest_snoc)

lemma maps_ok_failed: "maps_ok s A \<Longrightarrow> maps_ok (s\<lparr>be_calls := be_calls s @ [(c, False)]\<rparr>) A"
proof -
  let ?t = "s\<lparr>be_calls := be_calls s @ [(c, False)]\<rparr>"
  assume m: "maps_ok s A"
  have "entry ?t = entry s" "sig_entry ?t = sig_entry s" "wanting ?t = wanting s" "events_of ?t = events_of s" "fd_of ?t = fd_of s"
    by (simp_all add: entry_def sig_entry_def wanting_def events_of_def fd_of_def fun_eq_iff)
  then show ?thesis using m by (simp add: maps_ok_def entry_ok_def sig_ok_def interest_failed)
qed

text \<open>\<open>r\<close> is -1 when memory, the counters or the back end refuse.\<close>

definition mapped :: "event_base \<Rightarrow> eptr set \<Rightarrow> eptr set \<Rightarrow> int \<Rightarrow> event_base \<Rightarrow> bool" where
  "mapped s A B r s' \<longleftrightarrow> map_rest s s' \<and> r \<in> {- 1, 0, 1} \<and> maps_ok s' (if r = - 1 then A else B)"

lemma io_add_negative:
  assumes "maps_ok s A" "evs s e = Some x" "ev_events x \<inter> RW \<noteq> {}" "ev_fd x < 0"
  shows "maps_ok s (insert e A)" "maps_ok s (A - {e})"
  using assms event_of_simps [OF assms(2)] by (auto simp: maps_ok_def entry_ok_def sig_ok_def Let_def)

lemma entry_set: "fd < length (io_map s) \<Longrightarrow> entry (s\<lparr>io_map := (io_map s)[fd := Some c]\<rparr>) i = (if i = fd then c else entry s i)"
  by (auto simp: entry_def)

lemma io_slot_space_run:
  assumes "maps_ok s A" "fd < MAX_SLOT"
  shows "\<exists>r s'. io_slot fd s = Inr (r, s') \<and> map_rest s s' \<and> maps_ok s' A
    \<and> (\<forall>c. r = Some c \<longrightarrow> c = entry s fd \<and> fd < length (io_map s') \<and> (\<forall>i. entry s' i = entry s i) \<and> (\<forall>i. sig_entry s' i = sig_entry s i) \<and> be_calls s' = be_calls s)"
proof -
  obtain r b where sp: "evmap_make_space (io_map s) fd s = Inr (r, s\<lparr>eb_brk := b\<rparr>)" "\<forall>m'. r = Some m' \<longrightarrow> fd < length m' \<and> (\<exists>k. m' = io_map s @ replicate k None)"
    using make_space_run [OF assms(2)] by blast
  show ?thesis
  proof (cases r)
    case None
    have "maps_ok (s\<lparr>eb_brk := b\<rparr>) A" by (rule maps_ok_cong [OF assms(1)]) (simp_all add: events_of_def fd_of_def fun_eq_iff)
    then show ?thesis using None sp(1) by (simp add: io_slot_def run_simps map_rest_def)
  next
    case (Some m)
    then obtain k where k: "m = io_map s @ replicate k None" "fd < length m" using sp(2) by blast
    let ?s = "s\<lparr>eb_brk := b, io_map := m\<rparr>"
    have e1: "entry ?s i = entry s i" "sig_entry ?s i = sig_entry s i" for i
      using entry_grown [of "s\<lparr>eb_brk := b\<rparr>" k i] by (simp_all add: k(1) entry_def sig_entry_def)
    obtain r' s' where sl: "GET_IO_SLOT_AND_CTOR fd ?s = Inr (r', s')" "map_rest ?s s'" "be_calls s' = be_calls s" "sigmap s' = sigmap s" "length (io_map s') = length m"
      "\<forall>i. entry s' i = entry ?s i" "\<forall>c. r' = Some c \<longrightarrow> c = entry ?s fd" using io_slot_run [of fd ?s] k(2) by auto
    have mr: "map_rest s s'" by (rule map_rest_trans [OF _ sl(2)]) (simp add: map_rest_def)
    have se: "sig_entry s' i = sig_entry s i" for i using sl(4) by (simp add: sig_entry_def)
    have "maps_ok s' A" by (rule maps_ok_entries [OF assms(1) mr]) (use sl(3,6) e1(1) se in simp_all)
    moreover have "io_slot fd s = Inr (r', s')" using Some sp(1) sl(1) by (simp add: io_slot_def run_simps)
    ultimately show ?thesis using sl(3,5,6,7) e1(1) se mr k(2) by auto
  qed
qed

lemma io_insert_run:
  assumes "maps_ok s A" "evs s e = Some x" "e \<notin> A" "ev_events x \<inter> RW \<noteq> {}" "ev_fd x = int fd" "fd < length (io_map s)" "c = entry s fd"
  shows "\<exists>r s'. io_insert fd e x c s = Inr (r, s') \<and> mapped s A (insert e A) r s'"
proof -
  let ?n = "added_entry c e x" and ?old = "wants EV_READ (nread c \<noteq> 0) \<union> wants EV_WRITE (nwrite c \<noteq> 0)"
  let ?call = "Be_Add (int fd) ?old (ev_events x \<inter> {EV_ET} \<union> new_wants c x)"
  have mix: "mixes_et c x s = Inr (False, s)" if "\<not> debug_mode s" for s :: event_base using that by (simp add: mixes_et_def run_simps)
  have dbg: "\<not> debug_mode s" using assms(1) by (simp add: maps_ok_def)
  have un: "io_insert fd e x c s = (if nread ?n > 0xffff \<or> nwrite ?n > 0xffff then Inr (- 1, s)
      else bnd (if new_wants c x \<noteq> {} then backend ?call else ret True) (\<lambda>ok.
          if \<not> ok then ret (- 1) else bnd (set_io fd (Some ?n)) (\<lambda>_. ret (if new_wants c x \<noteq> {} then 1 else 0))) s)"
  proof -
    have n: "(if EV_READ \<in> ev_events x then nread c + 1 else nread c) = nread ?n" "(if EV_WRITE \<in> ev_events x then nwrite c + 1 else nwrite c) = nwrite ?n"
      by (simp_all add: added_entry_def)
    have m: "\<lparr>io_events = io_events c @ [e], nread = nread ?n, nwrite = nwrite ?n\<rparr> = ?n" by (simp add: added_entry_def)
    have "bnd (mixes_et c x) g s = g False s" for g :: "bool \<Rightarrow> int erun" using mix [OF dbg] by (rule bnd_Inr)
    moreover have w: "wants EV_READ (EV_READ \<in> ev_events x \<and> nread ?n = 1) \<union> wants EV_WRITE (EV_WRITE \<in> ev_events x \<and> nwrite ?n = 1) = new_wants c x"
      by (auto simp: added_entry_def new_wants_def wants_def)
    ultimately show ?thesis unfolding io_insert_def Let_def n m w by simp
  qed
  have small: "r \<noteq> - 1 \<Longrightarrow> mapped s A (insert e A) r t" if "map_rest s t" "io_map t = (io_map s)[fd := Some ?n]" "sigmap t = sigmap s" "r \<in> {0, 1}"
    "\<And>i. interest (be_calls t) (int i) = (if i = fd then interest (be_calls s) (int fd) \<union> new_wants c x else interest (be_calls s) (int i))" for r t
  proof -
    have "entry t i = (if i = fd then ?n else entry s i)" for i using that(2) assms(6) by (auto simp: entry_def)
    moreover have "sig_entry t i = sig_entry s i" for i using that(3) by (simp add: sig_entry_def)
    ultimately have "maps_ok t (insert e A)" using that(5) assms(7) by (intro entry_added [OF assms(1-5) that(1)]) auto
    then show ?thesis using that(1,4) by (auto simp: mapped_def)
  qed
  show ?thesis
  proof (cases "nread ?n > 0xffff \<or> nwrite ?n > 0xffff")
    case True
    then show ?thesis using assms(1) unfolding un by (simp add: mapped_def)
  next
    case False
    show ?thesis
    proof (cases "new_wants c x = {}")
      case True
      let ?t = "s\<lparr>io_map := (io_map s)[fd := Some ?n]\<rparr>"
      have "mapped s A (insert e A) 0 ?t" by (rule small) (use True in \<open>simp_all add: map_rest_def\<close>)
      then show ?thesis unfolding un using True False by (simp add: set_io_def run_simps)
    next
      case nw: False
      obtain ok where b: "backend ?call s = Inr (ok, s\<lparr>be_calls := be_calls s @ [(?call, ok)]\<rparr>)" using backend_run by blast
      show ?thesis
      proof (cases ok)
        case True
        let ?t = "s\<lparr>be_calls := be_calls s @ [(?call, True)], io_map := (io_map s)[fd := Some ?n]\<rparr>"
        have rw: "(ev_events x \<inter> {EV_ET} \<union> new_wants c x) \<inter> RW = new_wants c x" by (auto simp: new_wants_def wants_def)
        have "mapped s A (insert e A) 1 ?t" by (rule small) (use rw in \<open>simp_all add: map_rest_def interest_snoc\<close>)
        then show ?thesis unfolding un using b True False nw by (simp add: set_io_def run_simps)
      next
        case no: False
        have "mapped s A (insert e A) (- 1) (s\<lparr>be_calls := be_calls s @ [(?call, False)]\<rparr>)"
          using maps_ok_failed [OF assms(1)] by (simp add: mapped_def map_rest_def)
        then show ?thesis unfolding un using b False nw no by (simp add: run_simps)
      qed
    qed
  qed
qed

lemma io_add_run:
  assumes "maps_ok s A" "evs s e = Some x" "e \<notin> A" "ev_events x \<inter> RW \<noteq> {}" "ev_fd x < int MAX_SLOT"
  shows "\<exists>r s'. evmap_io_add (ev_fd x) e s = Inr (r, s') \<and> mapped s A (insert e A) r s'"
proof (cases "ev_fd x < 0")
  case True
  then show ?thesis using assms(2) io_add_negative(1) [OF assms(1,2,4)] by (simp add: evmap_io_add_def run_simps mapped_def)
next
  case False
  then obtain fd where fd: "ev_fd x = int fd" by (metis linorder_not_le nonneg_int_cases)
  obtain r s1 where s1: "io_slot fd s = Inr (r, s1)" "map_rest s s1" "maps_ok s1 A" "\<forall>c. r = Some c \<longrightarrow> c = entry s fd \<and> fd < length (io_map s1) \<and> (\<forall>i. entry s1 i = entry s i)"
    using io_slot_space_run [OF assms(1), of fd] fd assms(5) by (simp only: of_nat_less_iff) blast
  have un: "evmap_io_add (ev_fd x) e s = (case r of None \<Rightarrow> Inr (- 1, s1) | Some c \<Rightarrow> io_insert fd e x c s1)"
    unfolding evmap_io_add_def using assms(2) fd s1(1) by (simp add: run_simps split: option.split)
  show ?thesis
  proof (cases r)
    case None
    then show ?thesis using s1(2,3) un by (simp add: mapped_def)
  next
    case (Some c)
    then have c: "c = entry s1 fd" "fd < length (io_map s1)" using s1(4) by auto
    have "evs s1 e = Some x" using map_rest_fields(1) [OF s1(2)] assms(2) by simp
    from io_insert_run [OF s1(3) this assms(3,4) fd c(2,1)] obtain r' s' where "io_insert fd e x c s1 = Inr (r', s')" "mapped s1 A (insert e A) r' s'" by blast
    then show ?thesis using un Some map_rest_trans [OF s1(2)] by (auto simp: mapped_def)
  qed
qed

lemma wanting_remove1: "evs s e = Some x \<Longrightarrow> e \<in> set es \<Longrightarrow> wanting s b (remove1 e es) = wanting s b es - (if b \<in> ev_events x then 1 else 0)"
  by (simp add: wanting_def events_of_def filter_remove1 length_remove1)

lemma wanting_pos: "evs s e = Some x \<Longrightarrow> e \<in> set es \<Longrightarrow> b \<in> ev_events x \<Longrightarrow> 0 < wanting s b es"
  using event_of_simps(1) [of s e x] by (force simp: wanting_def filter_empty_conv)

definition removed_entry :: "evmap_io \<Rightarrow> eptr \<Rightarrow> event \<Rightarrow> evmap_io" where
  "removed_entry c e x = \<lparr>io_events = remove1 e (io_events c), nread = (if EV_READ \<in> ev_events x then nread c - 1 else nread c),
     nwrite = (if EV_WRITE \<in> ev_events x then nwrite c - 1 else nwrite c)\<rparr>"

definition lost_wants :: "evmap_io \<Rightarrow> event \<Rightarrow> evbit set" where
  "lost_wants c x = wants EV_READ (EV_READ \<in> ev_events x \<and> nread c = 1) \<union> wants EV_WRITE (EV_WRITE \<in> ev_events x \<and> nwrite c = 1)"

lemma entry_removed:
  assumes "maps_ok s A" "evs s e = Some x" "e \<in> A" "ev_events x \<inter> RW \<noteq> {}" "ev_fd x = int fd" "map_rest s s'" "\<And>i. sig_entry s' i = sig_entry s i"
    "\<And>i. entry s' i = (if i = fd then removed_entry (entry s fd) e x else entry s i)"
    "\<And>i. interest (be_calls s') (int i) = (if i = fd then interest (be_calls s) (int fd) - lost_wants (entry s fd) x else interest (be_calls s) (int i))"
  shows "maps_ok s' (A - {e})"
proof -
  note of = map_rest_of [OF assms(6)] event_of_simps [OF assms(2)]
  have ok: "entry_ok s A i" "sig_ok s A i" for i using assms(1) by (simp_all add: maps_ok_def)
  have "entry_ok s' (A - {e}) i" for i
  proof (cases "i = fd")
    case True
    let ?c = "entry s fd"
    have c: "distinct (io_events ?c)" "set (io_events ?c) = {e \<in> A. events_of s e \<inter> RW \<noteq> {} \<and> fd_of s e = int fd}"
      "nread ?c = wanting s EV_READ (io_events ?c)" "nwrite ?c = wanting s EV_WRITE (io_events ?c)"
      "interest (be_calls s) (int fd) = wants EV_READ (nread ?c \<noteq> 0) \<union> wants EV_WRITE (nwrite ?c \<noteq> 0)" using ok(1) [of fd] by (simp_all add: entry_ok_def Let_def)
    have e: "e \<in> set (io_events ?c)" using c(2) assms(3-5) of by simp
    have pos: "EV_READ \<in> ev_events x \<Longrightarrow> 0 < nread ?c" "EV_WRITE \<in> ev_events x \<Longrightarrow> 0 < nwrite ?c"
      using c(3,4) wanting_pos [OF assms(2) e] by auto
    have n: "entry s' i = removed_entry ?c e x" "interest (be_calls s') (int i) = interest (be_calls s) (int fd) - lost_wants ?c x" using assms(8,9) True by simp_all
    have "interest (be_calls s') (int i) = wants EV_READ (nread (removed_entry ?c e x) \<noteq> 0) \<union> wants EV_WRITE (nwrite (removed_entry ?c e x) \<noteq> 0)"
      unfolding n(2) c(5) using pos by (auto simp: removed_entry_def lost_wants_def wants_def)
    moreover have "distinct (io_events (removed_entry ?c e x))" using c(1) by (simp add: removed_entry_def)
    moreover have "set (io_events (removed_entry ?c e x)) = {z \<in> A - {e}. events_of s' z \<inter> RW \<noteq> {} \<and> fd_of s' z = int i}"
      using c(1,2) of True by (auto simp: removed_entry_def)
    moreover have "nread (removed_entry ?c e x) = wanting s' EV_READ (io_events (removed_entry ?c e x))" "nwrite (removed_entry ?c e x) = wanting s' EV_WRITE (io_events (removed_entry ?c e x))"
      using c(3,4) of(3) wanting_remove1 [OF assms(2) e] by (simp_all add: removed_entry_def)
    ultimately show ?thesis using n(1) by (simp add: entry_ok_def Let_def)
  next
    case False
    then show ?thesis using ok(1) [of i] assms(8,9) of assms(5) by (auto simp: entry_ok_def Let_def)
  qed
  moreover have "sig_ok s' (A - {e}) i" for i using ok(2) [of i] assms(4,7) of by (auto simp: sig_ok_def)
  ultimately show ?thesis using assms(1) map_rest_fields(9) [OF assms(6)] by (simp add: maps_ok_def)
qed

lemma entry_listed: "io_events (entry s fd) \<noteq> [] \<Longrightarrow> fd < length (io_map s) \<and> io_map s ! fd = Some (entry s fd)"
  by (auto simp: entry_def evmap_io_init_def split: if_splits option.splits)

lemma io_del_run:
  assumes "maps_ok s A" "evs s e = Some x" "e \<in> A" "ev_events x \<inter> RW \<noteq> {}"
  shows "\<exists>r s'. evmap_io_del (ev_fd x) e s = Inr (r, s') \<and> mapped s A (A - {e}) r s' \<and> (r = - 1 \<longrightarrow> \<not> forgetting s)"
proof (cases "ev_fd x < 0")
  case True
  then show ?thesis using assms(2) io_add_negative(2) [OF assms(1,2,4)] by (simp add: evmap_io_del_def run_simps mapped_def)
next
  case False
  then obtain fd where fd: "ev_fd x = int fd" by (metis linorder_not_le nonneg_int_cases)
  let ?c = "entry s fd"
  let ?n = "removed_entry ?c e x" and ?old = "wants EV_READ (nread ?c \<noteq> 0) \<union> wants EV_WRITE (nwrite ?c \<noteq> 0)"
  let ?call = "Be_Del (int fd) ?old (lost_wants ?c x)"
  have ok: "entry_ok s A fd" using assms(1) by (simp add: maps_ok_def)
  have e: "e \<in> set (io_events ?c)" using ok assms(3,4) fd event_of_simps [OF assms(2)] by (simp add: entry_ok_def Let_def)
  then have "io_events ?c \<noteq> []" by auto
  then have c: "fd < length (io_map s)" "io_map s ! fd = Some ?c" using entry_listed by blast+
  have pos: "(EV_READ \<in> ev_events x \<and> nread ?c = 0 \<or> EV_WRITE \<in> ev_events x \<and> nwrite ?c = 0) = False"
    using ok wanting_pos [OF assms(2) e] by (auto simp: entry_ok_def Let_def)
  have m: "\<lparr>io_events = remove1 e (io_events ?c), nread = (if EV_READ \<in> ev_events x then nread ?c - 1 else nread ?c),
     nwrite = (if EV_WRITE \<in> ev_events x then nwrite ?c - 1 else nwrite ?c)\<rparr> = ?n" by (simp add: removed_entry_def)
  have "evmap_io_del (int fd) e s = io_remove fd e x ?c s" using assms(2) fd c by (simp add: evmap_io_del_def run_simps)
  also have "\<dots> = bnd (if lost_wants ?c x \<noteq> {} then backend ?call else ret True) (\<lambda>ok.
          if \<not> ok then ret (- 1) else bnd (TAILQ_REMOVE e (io_events ?c)) (\<lambda>q. bnd (set_io fd (Some \<lparr>io_events = q, nread = (if EV_READ \<in> ev_events x then nread ?c - 1 else nread ?c),
     nwrite = (if EV_WRITE \<in> ev_events x then nwrite ?c - 1 else nwrite ?c)\<rparr>)) (\<lambda>_. ret (if lost_wants ?c x \<noteq> {} then 1 else 0)))) s"
    unfolding io_remove_def Let_def lost_wants_def [symmetric] pos by (simp only: if_False)
  also have "\<dots> = bnd (if lost_wants ?c x \<noteq> {} then backend ?call else ret True) (\<lambda>ok.
          if \<not> ok then ret (- 1) else bnd (set_io fd (Some ?n)) (\<lambda>_. ret (if lost_wants ?c x \<noteq> {} then 1 else 0))) s"
  proof -
    have "bnd (TAILQ_REMOVE e (io_events ?c)) g = g (remove1 e (io_events ?c))" for g :: "eptr list \<Rightarrow> int erun" using e by (simp add: TAILQ_REMOVE_def)
    then show ?thesis by (simp only: m)
  qed
  finally have un: "evmap_io_del (ev_fd x) e s = bnd (if lost_wants ?c x \<noteq> {} then backend ?call else ret True) (\<lambda>ok.
          if \<not> ok then ret (- 1) else bnd (set_io fd (Some ?n)) (\<lambda>_. ret (if lost_wants ?c x \<noteq> {} then 1 else 0))) s" using fd by simp
  have small: "mapped s A (A - {e}) r t" if "map_rest s t" "io_map t = (io_map s)[fd := Some ?n]" "sigmap t = sigmap s" "r \<in> {0, 1}"
    "\<And>i. interest (be_calls t) (int i) = (if i = fd then interest (be_calls s) (int fd) - lost_wants ?c x else interest (be_calls s) (int i))" for r t
  proof -
    have "entry t i = (if i = fd then ?n else entry s i)" for i using that(2) c(1) by (auto simp: entry_def)
    moreover have "sig_entry t i = sig_entry s i" for i using that(3) by (simp add: sig_entry_def)
    ultimately have "maps_ok t (A - {e})" using that(5) by (intro entry_removed [OF assms fd that(1)]) auto
    then show ?thesis using that(1,4) by (auto simp: mapped_def)
  qed
  show ?thesis
  proof (cases "lost_wants ?c x = {}")
    case True
    let ?t = "s\<lparr>io_map := (io_map s)[fd := Some ?n]\<rparr>"
    have "mapped s A (A - {e}) 0 ?t" by (rule small) (use True in \<open>simp_all add: map_rest_def\<close>)
    then show ?thesis unfolding un using True by (simp add: set_io_def run_simps)
  next
    case nw: False
    obtain ok where b: "backend ?call s = Inr (ok, s\<lparr>be_calls := be_calls s @ [(?call, ok)]\<rparr>)" "forgetting s \<longrightarrow> ok" using backend_run [of ?call s] by auto
    show ?thesis
    proof (cases ok)
      case True
      let ?t = "s\<lparr>be_calls := be_calls s @ [(?call, True)], io_map := (io_map s)[fd := Some ?n]\<rparr>"
      have "mapped s A (A - {e}) 1 ?t" by (rule small) (simp_all add: map_rest_def interest_snoc)
      moreover have "evmap_io_del (ev_fd x) e s = Inr (1, ?t)"
        unfolding un using True nw b(1) by (simp add: set_io_def upd_base_def bnd_def)
      ultimately show ?thesis by (intro exI [of _ 1] exI [of _ ?t]) simp
    next
      case no: False
      have "mapped s A (A - {e}) (- 1) (s\<lparr>be_calls := be_calls s @ [(?call, False)]\<rparr>)"
        using maps_ok_failed [OF assms(1)] by (simp add: mapped_def map_rest_def)
      moreover have "evmap_io_del (ev_fd x) e s = Inr (- 1, s\<lparr>be_calls := be_calls s @ [(?call, False)]\<rparr>)"
        unfolding un using no nw b(1) by (simp add: bnd_def)
      ultimately show ?thesis using b(2) no by blast
    qed
  qed
qed

section \<open>Signals\<close>

lemma interest_signal: "interest (cs @ [(Sig_Add n, ok)]) = interest cs" "interest (cs @ [(Sig_Del n, ok)]) = interest cs"
  by (cases ok; simp add: interest_snoc)+

text \<open>A new list for one signal; what the back end was told of descriptors is the same.\<close>

lemma sig_changed:
  assumes "maps_ok s A" "evs s e = Some x" "ev_events x \<inter> RW = {}" "ev_fd x = int sig" "map_rest s s'" "\<And>i. entry s' i = entry s i"
    "\<And>i. sig_entry s' i = (if i = sig then es else sig_entry s i)" "interest (be_calls s') = interest (be_calls s)"
    "distinct es" "set es = {z \<in> B. events_of s z \<inter> RW = {} \<and> fd_of s z = int sig}" "\<And>z. z \<noteq> e \<Longrightarrow> z \<in> B \<longleftrightarrow> z \<in> A"
  shows "maps_ok s' B"
proof -
  note of = map_rest_of [OF assms(5)] event_of_simps [OF assms(2)]
  have ok: "entry_ok s A i" "sig_ok s A i" for i using assms(1) by (simp_all add: maps_ok_def)
  have eq: "{z \<in> B. events_of s z \<inter> RW \<noteq> {} \<and> fd_of s z = int i} = {z \<in> A. events_of s z \<inter> RW \<noteq> {} \<and> fd_of s z = int i}" for i
  proof (rule Collect_cong)
    fix z show "(z \<in> B \<and> events_of s z \<inter> RW \<noteq> {} \<and> fd_of s z = int i) = (z \<in> A \<and> events_of s z \<inter> RW \<noteq> {} \<and> fd_of s z = int i)"
      using assms(3) assms(11) [of z] of(4) by (cases "z = e") auto
  qed
  have "entry_ok s' B i" for i using ok(1) [of i] assms(6,8) of(1-3) eq [of i] by (simp add: entry_ok_def Let_def)
  moreover have "sig_ok s' B i" for i
  proof (cases "i = sig")
    case True
    then show ?thesis using assms(7,9,10) of by (simp add: sig_ok_def)
  next
    case False
    have "{z \<in> B. events_of s z \<inter> RW = {} \<and> fd_of s z = int i} = {z \<in> A. events_of s z \<inter> RW = {} \<and> fd_of s z = int i}"
    proof (rule Collect_cong)
      fix z show "(z \<in> B \<and> events_of s z \<inter> RW = {} \<and> fd_of s z = int i) = (z \<in> A \<and> events_of s z \<inter> RW = {} \<and> fd_of s z = int i)"
        using assms(4) assms(11) [of z] of(5) False by (cases "z = e") auto
    qed
    then show ?thesis using ok(2) [of i] False assms(7) of(1,2) by (simp add: sig_ok_def)
  qed
  ultimately show ?thesis using assms(1) map_rest_fields(9) [OF assms(5)] by (simp add: maps_ok_def)
qed

lemma sig_set: "sig < length (sigmap s) \<Longrightarrow> sigmap t = (sigmap s)[sig := Some es] \<Longrightarrow> sig_entry t i = (if i = sig then es else sig_entry s i)"
  by (auto simp: sig_entry_def)

lemma sig_slot_run:
  assumes "maps_ok s A" "sig < MAX_SLOT"
  shows "\<exists>r s'. sig_slot sig s = Inr (r, s') \<and> map_rest s s' \<and> maps_ok s' A
    \<and> (\<forall>c. r = Some c \<longrightarrow> c = sig_entry s sig \<and> sig < length (sigmap s') \<and> (\<forall>i. entry s' i = entry s i) \<and> (\<forall>i. sig_entry s' i = sig_entry s i) \<and> be_calls s' = be_calls s)"
proof -
  obtain r b where sp: "evmap_make_space (sigmap s) sig s = Inr (r, s\<lparr>eb_brk := b\<rparr>)" "\<forall>m'. r = Some m' \<longrightarrow> sig < length m' \<and> (\<exists>k. m' = sigmap s @ replicate k None)"
    using make_space_run [OF assms(2)] by blast
  show ?thesis
  proof (cases r)
    case None
    have "maps_ok (s\<lparr>eb_brk := b\<rparr>) A" by (rule maps_ok_cong [OF assms(1)]) (simp_all add: events_of_def fd_of_def fun_eq_iff)
    then show ?thesis using None sp(1) by (simp add: sig_slot_def run_simps map_rest_def)
  next
    case (Some m)
    then obtain k where k: "m = sigmap s @ replicate k None" "sig < length m" using sp(2) by blast
    let ?s = "s\<lparr>eb_brk := b, sigmap := m\<rparr>"
    have e1: "sig_entry ?s i = sig_entry s i" for i using sig_entry_grown [of "s\<lparr>eb_brk := b\<rparr>" k i] by (simp add: k(1) sig_entry_def)
    have "\<exists>r' s'. GET_SIGNAL_SLOT_AND_CTOR sig ?s = Inr (r', s') \<and> map_rest ?s s' \<and> be_calls s' = be_calls s \<and> io_map s' = io_map s \<and> length (sigmap s') = length m
      \<and> (\<forall>i. sig_entry s' i = sig_entry ?s i) \<and> (\<forall>c. r' = Some c \<longrightarrow> c = sig_entry ?s sig)"
    proof (cases "m ! sig")
      case (Some c)
      then show ?thesis using k(2) by (simp add: GET_SIGNAL_SLOT_AND_CTOR_def run_simps sig_entry_def)
    next
      case None
      then show ?thesis using k(2)
        by (cases "eb_oom s b \<or> b = 0")
          (auto simp: GET_SIGNAL_SLOT_AND_CTOR_def bnd_def ask_def ev_alloc_def set_sig_def upd_base_def map_rest_def sig_entry_def nth_list_update)
    qed
    then obtain r' s' where sl: "GET_SIGNAL_SLOT_AND_CTOR sig ?s = Inr (r', s')" "map_rest ?s s'" "be_calls s' = be_calls s" "io_map s' = io_map s" "length (sigmap s') = length m"
      "\<forall>i. sig_entry s' i = sig_entry ?s i" "\<forall>c. r' = Some c \<longrightarrow> c = sig_entry ?s sig" by blast
    have mr: "map_rest s s'" by (rule map_rest_trans [OF _ sl(2)]) (simp add: map_rest_def)
    have en: "entry s' i = entry s i" for i using sl(4) by (simp add: entry_def)
    have "maps_ok s' A" by (rule maps_ok_entries [OF assms(1) mr]) (use sl(3,6) e1 en in simp_all)
    moreover have "sig_slot sig s = Inr (r', s')" using Some sp(1) sl(1) by (simp add: sig_slot_def run_simps)
    ultimately show ?thesis using sl(3,5,6,7) e1 en mr k(2) by auto
  qed
qed

lemma sig_add_run:
  assumes "maps_ok s A" "evs s e = Some x" "e \<notin> A" "ev_events x \<inter> RW = {}" "ev_fd x = int sig" "sig < MAX_SLOT"
  shows "\<exists>r s'. evmap_signal_add (ev_fd x) e s = Inr (r, s') \<and> mapped s A (insert e A) r s'"
proof -
  obtain r s1 where s1: "sig_slot sig s = Inr (r, s1)" "map_rest s s1" "maps_ok s1 A"
    "\<forall>c. r = Some c \<longrightarrow> c = sig_entry s sig \<and> sig < length (sigmap s1) \<and> (\<forall>i. entry s1 i = entry s i) \<and> (\<forall>i. sig_entry s1 i = sig_entry s i)"
    using sig_slot_run [OF assms(1,6)] by blast
  show ?thesis
  proof (cases r)
    case None
    then show ?thesis using s1 assms(5) by (simp add: evmap_signal_add_def run_simps mapped_def)
  next
    case (Some es)
    then have es: "es = sig_entry s1 sig" "sig < length (sigmap s1)" using s1(4) by auto
    have x: "evs s1 e = Some x" using map_rest_fields(1) [OF s1(2)] assms(2) by simp
    have "sig_ok s1 A sig" using s1(3) by (simp add: maps_ok_def)
    then have d: "distinct (es @ [e])" "set (es @ [e]) = {z \<in> insert e A. events_of s1 z \<inter> RW = {} \<and> fd_of s1 z = int sig}"
      using assms(3-5) es(1) event_of_simps [OF x] by (auto simp: sig_ok_def)
    have small: "maps_ok t (insert e A)" if "map_rest s1 t" "io_map t = io_map s1" "sigmap t = (sigmap s1)[sig := Some (es @ [e])]" "interest (be_calls t) = interest (be_calls s1)" for t
      by (rule sig_changed [OF s1(3) x assms(4,5) that(1) _ sig_set [OF es(2) that(3)] that(4) d]) (use that(2) in \<open>auto simp: entry_def\<close>)
    let ?t = "\<lambda>cs. s1\<lparr>be_calls := cs, sigmap := (sigmap s1)[sig := Some (es @ [e])]\<rparr>"
    have un: "evmap_signal_add (ev_fd x) e s = bnd (if es = [] then backend (Sig_Add (ev_fd x)) else ret True) (\<lambda>ok.
           if \<not> ok then ret (- 1) else bnd (set_sig sig (Some (es @ [e]))) (\<lambda>_. ret 1)) s1"
      unfolding evmap_signal_add_def assms(5) nat_int using assms(5) s1(1) Some x by (simp add: run_simps)
    show ?thesis
    proof (cases "es = []")
      case False
      have "maps_ok (?t (be_calls s1)) (insert e A)" by (rule small) (simp_all add: map_rest_def)
      moreover have "map_rest s (?t (be_calls s1))" by (rule map_rest_trans [OF s1(2)]) (simp add: map_rest_def)
      ultimately show ?thesis unfolding un using False by (simp add: set_sig_def run_simps mapped_def)
    next
      case True
      obtain ok where b: "backend (Sig_Add (ev_fd x)) s1 = Inr (ok, s1\<lparr>be_calls := be_calls s1 @ [(Sig_Add (ev_fd x), ok)]\<rparr>)" using backend_run by blast
      have mr: "map_rest s (?t (be_calls s1 @ [(Sig_Add (ev_fd x), ok)]))" "map_rest s (s1\<lparr>be_calls := be_calls s1 @ [(Sig_Add (ev_fd x), ok)]\<rparr>)"
        by (rule map_rest_trans [OF s1(2)], simp add: map_rest_def)+
      show ?thesis
      proof (cases ok)
        case ok: True
        have "maps_ok (?t (be_calls s1 @ [(Sig_Add (ev_fd x), ok)])) (insert e A)" by (rule small) (simp_all add: map_rest_def interest_signal)
        then show ?thesis unfolding un using True b ok mr(1) by (simp add: set_sig_def run_simps mapped_def)
      next
        case no: False
        then show ?thesis unfolding un using True b mr(2) maps_ok_failed [OF s1(3)] by (simp add: run_simps mapped_def)
      qed
    qed
  qed
qed

lemma sig_listed: "sig_entry s sig \<noteq> [] \<Longrightarrow> sig < length (sigmap s) \<and> sigmap s ! sig = Some (sig_entry s sig)"
  by (auto simp: sig_entry_def split: if_splits option.splits)

lemma sig_del_run:
  assumes "maps_ok s A" "evs s e = Some x" "e \<in> A" "ev_events x \<inter> RW = {}" "ev_fd x = int sig"
  shows "\<exists>r s'. evmap_signal_del (ev_fd x) e s = Inr (r, s') \<and> mapped s A (A - {e}) r s' \<and> (r = - 1 \<longrightarrow> \<not> forgetting s)"
proof -
  let ?es = "sig_entry s sig"
  have "sig_ok s A sig" using assms(1) by (simp add: maps_ok_def)
  then have e: "e \<in> set ?es" "distinct ?es" "set ?es = {z \<in> A. events_of s z \<inter> RW = {} \<and> fd_of s z = int sig}"
    using assms(3-5) event_of_simps [OF assms(2)] by (simp_all add: sig_ok_def)
  then have "?es \<noteq> []" by auto
  then have m: "sig < length (sigmap s)" "sigmap s ! sig = Some ?es" using sig_listed by blast+
  have d: "distinct (remove1 e ?es)" "set (remove1 e ?es) = {z \<in> A - {e}. events_of s z \<inter> RW = {} \<and> fd_of s z = int sig}" using e(2,3) by auto
  have small: "maps_ok t (A - {e})" if "map_rest s t" "io_map t = io_map s" "sigmap t = (sigmap s)[sig := Some (remove1 e ?es)]" "interest (be_calls t) = interest (be_calls s)" for t
    by (rule sig_changed [OF assms(1,2,4,5) that(1) _ sig_set [OF m(1) that(3)] that(4) d]) (use that(2) in \<open>auto simp: entry_def\<close>)
  let ?t = "\<lambda>cs. s\<lparr>be_calls := cs, sigmap := (sigmap s)[sig := Some (remove1 e ?es)]\<rparr>"
  have un: "evmap_signal_del (ev_fd x) e s = bnd (if length ?es \<le> 1 then backend (Sig_Del (ev_fd x)) else ret True) (\<lambda>ok.
        if \<not> ok then ret (- 1) else bnd (set_sig sig (Some (remove1 e ?es))) (\<lambda>_. ret 1)) s"
    unfolding evmap_signal_del_def assms(5) nat_int using assms(2,5) m e(1) by (simp add: run_simps TAILQ_REMOVE_def cong: if_cong)
  show ?thesis
  proof (cases "length ?es \<le> 1")
    case False
    have "maps_ok (?t (be_calls s)) (A - {e})" by (rule small) (simp_all add: map_rest_def)
    then show ?thesis unfolding un using False by (simp add: set_sig_def run_simps mapped_def map_rest_def)
  next
    case True
    obtain ok where b: "backend (Sig_Del (ev_fd x)) s = Inr (ok, s\<lparr>be_calls := be_calls s @ [(Sig_Del (ev_fd x), ok)]\<rparr>)" "forgetting s \<longrightarrow> ok"
      using backend_run [of "Sig_Del (ev_fd x)" s] by auto
    show ?thesis
    proof (cases ok)
      case ok: True
      have "maps_ok (?t (be_calls s @ [(Sig_Del (ev_fd x), ok)])) (A - {e})" by (rule small) (simp_all add: map_rest_def interest_signal)
      then have "mapped s A (A - {e}) 1 (?t (be_calls s @ [(Sig_Del (ev_fd x), ok)]))" by (simp add: mapped_def map_rest_def)
      moreover have "evmap_signal_del (ev_fd x) e s = Inr (1, ?t (be_calls s @ [(Sig_Del (ev_fd x), ok)]))"
        unfolding un using True ok b(1) by (simp add: bnd_Inr [of "backend (Sig_Del (ev_fd x))", OF b(1)] set_sig_def upd_base_def bnd_def)
      ultimately show ?thesis by (intro exI [of _ 1] exI [of _ "?t (be_calls s @ [(Sig_Del (ev_fd x), ok)])"]) simp
    next
      case no: False
      have "mapped s A (A - {e}) (- 1) (s\<lparr>be_calls := be_calls s @ [(Sig_Del (ev_fd x), False)]\<rparr>)"
        using maps_ok_failed [OF assms(1)] by (simp add: mapped_def map_rest_def)
      moreover have "evmap_signal_del (ev_fd x) e s = Inr (- 1, s\<lparr>be_calls := be_calls s @ [(Sig_Del (ev_fd x), False)]\<rparr>)"
        unfolding un using True no b(1) by (simp add: bnd_Inr [of "backend (Sig_Del (ev_fd x))", OF b(1)])
      ultimately show ?thesis using b(2) no by blast
    qed
  qed
qed

end
