(* ===== verification/Event_Runs.thy ===== *)
theory Event_Runs
  imports Event_Maps
begin

text \<open>
  Deleting, activating and adding an event keep the invariant of the base and of its maps. Deleting and activating are what
  \<open>timeout_process\<close> does with the events that are due.
\<close>

section \<open>The whole invariant\<close>

definition sig_fds :: "event_base \<Rightarrow> bool" where
  "sig_fds s \<longleftrightarrow> (\<forall>e\<in>flagged s EVLIST_INSERTED. events_of s e \<inter> RW = {} \<longrightarrow> 0 \<le> fd_of s e)"

definition all_ok :: "event_base \<Rightarrow> bool" where
  "all_ok s \<longleftrightarrow> base_ok s \<and> maps_ok s (flagged s EVLIST_INSERTED) \<and> sig_fds s"

text \<open>The fields that no queue and no map is made of.\<close>

definition kept :: "event_base \<Rightarrow> event_base \<Rightarrow> bool" where
  "kept s s' \<longleftrightarrow> tv_cache s' = tv_cache s \<and> eb_clock s' = eb_clock s \<and> eb_reads s' = eb_reads s \<and> event_break s' = event_break s \<and> ev_log s' = ev_log s
     \<and> event_running_priority s' = event_running_priority s \<and> sig_ncalls s' = sig_ncalls s \<and> debug_mode s' = debug_mode s \<and> be_fails s' = be_fails s
     \<and> common_timeout_queues s' = common_timeout_queues s \<and> deferred s' = deferred s"

lemma kept_refl [simp]: "kept s s" by (simp add: kept_def)

lemma kept_trans: "kept s s' \<Longrightarrow> kept s' s'' \<Longrightarrow> kept s s''" by (simp add: kept_def)

lemma rest_kept: "rest s s' \<Longrightarrow> kept s s'" by (simp add: kept_def base_rest_fields)

lemma map_rest_kept: "map_rest s s' \<Longrightarrow> kept s s'" by (simp add: kept_def map_rest_fields)

lemma took_flags:
  assumes "took s e w s'" "evs s e = Some x"
  shows "evs s' = (evs s)(e \<mapsto> x\<lparr>ev_flags := ev_flags x - {w}\<rparr>)" "events_of s' = events_of s" "fd_of s' = fd_of s"
    "flagged s' v = (if v = w then flagged s v - {e} else flagged s v)" "pri_of s' = pri_of s"
proof -
  show ev: "evs s' = (evs s)(e \<mapsto> x\<lparr>ev_flags := ev_flags x - {w}\<rparr>)" using assms by (simp add: took_def)
  then show "events_of s' = events_of s" "fd_of s' = fd_of s" "pri_of s' = pri_of s" using assms(2) by (auto simp: events_of_def fd_of_def pri_of_def fun_eq_iff)
  show "flagged s' v = (if v = w then flagged s v - {e} else flagged s v)"
    using flagged_upd [OF assms(2), of "x\<lparr>ev_flags := ev_flags x - {w}\<rparr>" v] flagged_cong [of s' "s\<lparr>evs := evs s'\<rparr>" v] flagged_iff [OF assms(2), of v] ev by auto
qed

lemma entered_flags:
  assumes "entered s e w s'" "evs s e = Some x"
  shows "evs s' = (evs s)(e \<mapsto> x\<lparr>ev_flags := insert w (ev_flags x)\<rparr>)" "events_of s' = events_of s" "fd_of s' = fd_of s"
    "flagged s' v = (if v = w then insert e (flagged s v) else flagged s v)" "pri_of s' = pri_of s"
proof -
  show ev: "evs s' = (evs s)(e \<mapsto> x\<lparr>ev_flags := insert w (ev_flags x)\<rparr>)" using assms by (simp add: entered_def)
  then show "events_of s' = events_of s" "fd_of s' = fd_of s" "pri_of s' = pri_of s" using assms(2) by (auto simp: events_of_def fd_of_def pri_of_def fun_eq_iff)
  show "flagged s' v = (if v = w then insert e (flagged s v) else flagged s v)"
    using flagged_upd [OF assms(2), of "x\<lparr>ev_flags := insert w (ev_flags x)\<rparr>" v] flagged_cong [of s' "s\<lparr>evs := evs s'\<rparr>" v] flagged_iff [OF assms(2), of v] ev by auto
qed

lemma maps_rest:
  assumes "maps_ok s A" "rest s s'" "events_of s' = events_of s" "fd_of s' = fd_of s"
  shows "maps_ok s' A"
  by (rule maps_ok_cong [OF assms(1)]) (simp_all add: base_rest_fields [OF assms(2)] assms(3,4))

section \<open>Deleting\<close>

text \<open>The event \<open>e\<close> left every queue, and the times and the order of the others are as they were.\<close>

definition removed :: "event_base \<Rightarrow> eptr \<Rightarrow> event_base \<Rightarrow> bool" where
  "removed s e s' \<longleftrightarrow> base_ok s' \<and> kept s s' \<and> event_continue s' = event_continue s \<and> evs s' = (evs s)(e := map_option (\<lambda>x. x\<lparr>ev_flags := ev_flags x - queues\<rparr>) (evs s e))
     \<and> key (timeheap s') = key (timeheap s) \<and> mh_a (timeheap s') = mh_a (timeheap s)
     \<and> activequeues s' = (activequeues s)[pri_of s e := remove1 e (activequeues s ! pri_of s e)]"

lemma on_cond_False [simp]: "on_cond False f = ret ()" and on_cond_True [simp]: "on_cond True f = f"
  by (simp_all add: on_cond_def)

lemma abort_calm: "base_ok s \<Longrightarrow> evs s e = Some x \<Longrightarrow> abort_loop e s = Inr ((), s)"
  using base_parts(10) [of s e x] by (simp add: abort_loop_def run_simps)

lemma maybe_remove:
  assumes "base_ok s" "evs s e = Some x" "w \<in> queues"
  shows "\<exists>s'. on_cond (w \<in> ev_flags x) (event_queue_remove e w) s = Inr ((), s') \<and> took s e w s'"
proof (cases "w \<in> ev_flags x")
  case True
  then show ?thesis using event_queue_remove_run [OF assms(1,2)] assms(3) by simp
next
  case False
  have m: "map_option (\<lambda>x. x\<lparr>ev_flags := ev_flags x - {w}\<rparr>) (evs s e) = evs s e" using assms(2) False by simp
  have "e \<notin> set (eventqueue s)" if "w = EVLIST_INSERTED" using that False base_parts(2) [OF assms(1,2)] assms(2) by (simp add: inserted_ok_def flagged_iff)
  moreover have "e \<notin> set (activequeues s ! pri_of s e)" if "w = EVLIST_ACTIVE"
    using that False base_parts(3,7,8) [OF assms(1,2)] assms(2) by (simp add: active_ok_def flagged_iff)
  ultimately have "took s e w s" using assms(1) m by (auto simp: took_def remove1_idem fun_upd_idem)
  then show ?thesis using False by simp
qed

definition leave_queues :: "eptr \<Rightarrow> event \<Rightarrow> unit erun" where
  "leave_queues e x =
     bnd (on_cond (EV_SIGNAL \<in> ev_events x) (abort_loop e)) (\<lambda>_.
       bnd (on_cond (EVLIST_TIMEOUT \<in> ev_flags x) (event_queue_remove e EVLIST_TIMEOUT)) (\<lambda>_.
       bnd (on_cond (EVLIST_ACTIVE \<in> ev_flags x) (event_queue_remove e EVLIST_ACTIVE)) (\<lambda>_.
       on_cond (EVLIST_INSERTED \<in> ev_flags x) (event_queue_remove e EVLIST_INSERTED))))"

lemma dequeued_run:
  assumes "base_ok s" "evs s e = Some x"
  shows "\<exists>s'. leave_queues e x s = Inr ((), s')
     \<and> removed s e s' \<and> rest s s' \<and> flagged s' EVLIST_INSERTED = flagged s EVLIST_INSERTED - {e} \<and> events_of s' = events_of s \<and> fd_of s' = fd_of s"
proof -
  obtain s1 where s1: "on_cond (EVLIST_TIMEOUT \<in> ev_flags x) (event_queue_remove e EVLIST_TIMEOUT) s = Inr ((), s1)" "took s e EVLIST_TIMEOUT s1"
    using maybe_remove [OF assms, of EVLIST_TIMEOUT] by auto
  note f1 = took_flags [OF s1(2) assms(2)]
  have x1: "evs s1 e = Some (x\<lparr>ev_flags := ev_flags x - {EVLIST_TIMEOUT}\<rparr>)" using f1(1) by simp
  obtain s2 where s2: "on_cond (EVLIST_ACTIVE \<in> ev_flags x) (event_queue_remove e EVLIST_ACTIVE) s1 = Inr ((), s2)" "took s1 e EVLIST_ACTIVE s2"
    using maybe_remove [OF _ x1, of EVLIST_ACTIVE] s1(2) by (auto simp: took_def)
  note f2 = took_flags [OF s2(2) x1]
  have x2: "evs s2 e = Some (x\<lparr>ev_flags := ev_flags x - {EVLIST_TIMEOUT} - {EVLIST_ACTIVE}\<rparr>)" using f2(1) by simp
  obtain s3 where s3: "on_cond (EVLIST_INSERTED \<in> ev_flags x) (event_queue_remove e EVLIST_INSERTED) s2 = Inr ((), s3)" "took s2 e EVLIST_INSERTED s3"
    using maybe_remove [OF _ x2, of EVLIST_INSERTED] s2(2) by (auto simp: took_def)
  note f3 = took_flags [OF s3(2) x2]
  have r: "rest s s3" using s1(2) s2(2) s3(2) rest_trans unfolding took_def by blast
  have "on_cond (EV_SIGNAL \<in> ev_events x) (abort_loop e) s = Inr ((), s)" using abort_calm [OF assms] by (cases "EV_SIGNAL \<in> ev_events x") simp_all
  then have run: "leave_queues e x s = Inr ((), s3)"
    using s1(1) s2(1) s3(1) by (simp add: leave_queues_def bnd_def)
  have d: "ev_flags x - {EVLIST_TIMEOUT} - {EVLIST_ACTIVE} - {EVLIST_INSERTED} = ev_flags x - queues" by auto
  have "evs s3 = (evs s)(e \<mapsto> x\<lparr>ev_flags := ev_flags x - queues\<rparr>)" using f3(1) f2(1) unfolding f1(1) by (simp add: d)
  then have "removed s e s3" using s1(2) s2(2) s3(2) rest_kept [OF r] base_rest_fields(16) [OF r] f1(5) assms(2) by (simp add: removed_def took_def)
  then show ?thesis using run r f1(2-5) f2(2-5) f3(2-5) by auto
qed

lemma event_del_internal_split:
  assumes "evs s e = Some x" "ev_base x"
  shows "event_del_internal e s =
    bnd (leave_queues e x) (\<lambda>_.
    if EVLIST_INSERTED \<in> ev_flags x then
      bnd (if ev_events x \<inter> RW \<noteq> {} then evmap_io_del (ev_fd x) e else evmap_signal_del (ev_fd x) e) (\<lambda>res. ret (if res = 1 then 0 else res))
    else ret 0) s"
  by (cases "EVLIST_INSERTED \<in> ev_flags x") (simp_all add: event_del_internal_def ev_runs(1) [OF assms(1)] assms(2) leave_queues_def bnd_assoc bnd_def split: sum.splits)

lemma event_del_internal_run:
  assumes "all_ok s" "evs s e = Some x"
  shows "\<exists>r s'. event_del_internal e s = Inr (r, s') \<and> removed s e s' \<and> (r = 0 \<and> all_ok s' \<or> r = - 1 \<and> maps_ok s' (flagged s EVLIST_INSERTED) \<and> \<not> forgetting s)"
proof -
  have b: "base_ok s" "maps_ok s (flagged s EVLIST_INSERTED)" "sig_fds s" using assms(1) by (simp_all add: all_ok_def)
  obtain s1 where s1: "leave_queues e x s = Inr ((), s1)"
     "removed s e s1" "rest s s1" "flagged s1 EVLIST_INSERTED = flagged s EVLIST_INSERTED - {e}" "events_of s1 = events_of s" "fd_of s1 = fd_of s"
    using dequeued_run [OF b(1) assms(2)] by blast
  let ?A = "flagged s EVLIST_INSERTED"
  have m1: "maps_ok s1 ?A" by (rule maps_rest [OF b(2) s1(3,5,6)])
  have x1: "evs s1 e = Some (x\<lparr>ev_flags := ev_flags x - queues\<rparr>)" using s1(2) assms(2) by (simp add: removed_def)
  have sf: "sig_fds s1" using b(3) s1(4-6) by (auto simp: sig_fds_def)
  show ?thesis
  proof (cases "EVLIST_INSERTED \<in> ev_flags x")
    case False
    then have "?A - {e} = ?A" using assms(2) by (simp add: flagged_iff)
    then have "all_ok s1" using m1 sf s1(2,4) by (simp add: all_ok_def removed_def)
    then show ?thesis using s1(1,2) False base_parts(9) [OF b(1) assms(2)] assms(2) by (simp add: event_del_internal_split bnd_Inr [of "leave_queues e x", OF s1(1)])
  next
    case True
    then have eA: "e \<in> ?A" using assms(2) by (simp add: flagged_iff)
    let ?del = "if ev_events x \<inter> RW \<noteq> {} then evmap_io_del (ev_fd x) e else evmap_signal_del (ev_fd x) e"
    have "\<exists>r s2. ?del s1 = Inr (r, s2) \<and> mapped s1 ?A (?A - {e}) r s2 \<and> (r = - 1 \<longrightarrow> \<not> forgetting s1)"
    proof (cases "ev_events x \<inter> RW \<noteq> {}")
      case rw: True
      then show ?thesis using io_del_run [OF m1 x1 eA] by simp
    next
      case sg: False
      then have "0 \<le> ev_fd x" using bspec [OF b(3) [unfolded sig_fds_def] eA] assms(2) by (simp add: events_of_def fd_of_def)
      then show ?thesis using sg sig_del_run [OF m1 x1 eA, of "nat (ev_fd x)"] by simp
    qed
    then obtain r s2 where d: "?del s1 = Inr (r, s2)" "mapped s1 ?A (?A - {e}) r s2" "r = - 1 \<longrightarrow> \<not> forgetting s1" by blast
    have mr: "map_rest s1 s2" "r \<in> {- 1, 0, 1}" "maps_ok s2 (if r = - 1 then ?A else ?A - {e})" using d(2) by (simp_all add: mapped_def)
    have rem: "removed s e s2"
      using s1(2) map_rest_base [OF _ mr(1)] kept_trans [OF _ map_rest_kept [OF mr(1)]] by (simp add: removed_def map_rest_fields [OF mr(1)])
    have fl: "flagged s2 EVLIST_INSERTED = ?A - {e}" using s1(4) flagged_cong [OF map_rest_fields(1) [OF mr(1)]] by simp
    have "sig_fds s2" using sf fl s1(4) map_rest_of [OF mr(1)] by (simp add: sig_fds_def)
    then have ok: "all_ok s2" if "r \<noteq> - 1" using that rem mr(3) fl by (simp add: all_ok_def removed_def)
    have "event_del_internal e s = bnd ?del (\<lambda>res. ret (if res = 1 then 0 else res)) s1"
      unfolding event_del_internal_split [OF assms(2) base_parts(9) [OF b(1) assms(2)]] using True by (simp add: bnd_Inr [of "leave_queues e x", OF s1(1)])
    then have "event_del_internal e s = Inr (if r = 1 then 0 else r, s2)" by (simp only: bnd_Inr [of ?del, OF d(1)] ret_def)
    then show ?thesis using rem ok mr(2,3) d(3) forgetting_cong [OF base_rest_fields(5) [OF s1(3)]] by auto
  qed
qed

section \<open>Activating\<close>

lemma all_ok_upd:
  assumes "all_ok s" "evs s e = Some x" "ev_flags (f x) = ev_flags x" "ev_pri (f x) = ev_pri x" "ev_pncalls (f x) = None" "ev_base (f x)" "ev_events (f x) = ev_events x"
    "ev_fd (f x) = ev_fd x"
  shows "all_ok (s\<lparr>evs := (evs s)(e \<mapsto> f x)\<rparr>)"
proof -
  let ?t = "s\<lparr>evs := (evs s)(e \<mapsto> f x)\<rparr>"
  have of: "events_of ?t = events_of s" "fd_of ?t = fd_of s" using assms(2,7,8) by (auto simp: events_of_def fd_of_def fun_eq_iff)
  have fl: "flagged ?t EVLIST_INSERTED = flagged s EVLIST_INSERTED"
    using flagged_upd [OF assms(2), of "f x" EVLIST_INSERTED] flagged_iff [OF assms(2), of EVLIST_INSERTED] assms(3) by auto
  have "maps_ok ?t (flagged s EVLIST_INSERTED)" by (rule maps_ok_cong [of s]) (use assms(1) of in \<open>simp_all add: all_ok_def\<close>)
  then show ?thesis using assms(1) base_ok_upd [where f = f, OF _ assms(2-6)] of fl by (simp add: all_ok_def sig_fds_def)
qed

lemma all_ok_fields:
  assumes "all_ok s" "evs s' = evs s" "timeheap s' = timeheap s" "eventqueue s' = eventqueue s" "activequeues s' = activequeues s"
    "common_timeout_queues s' = common_timeout_queues s" "event_count s' = event_count s" "event_count_active s' = event_count_active s"
    "io_map s' = io_map s" "sigmap s' = sigmap s" "be_calls s' = be_calls s" "debug_mode s' = debug_mode s"
  shows "all_ok s'"
proof -
  have of: "events_of s' = events_of s" "fd_of s' = fd_of s" using assms(2) by (auto simp: events_of_def fd_of_def fun_eq_iff)
  have "maps_ok s' (flagged s EVLIST_INSERTED)" by (rule maps_ok_cong [of s]) (use assms of in \<open>simp_all add: all_ok_def\<close>)
  moreover have "base_ok s'" by (rule base_ok_fields [OF _ assms(2-8)]) (use assms(1) in \<open>simp add: all_ok_def\<close>)
  ultimately show ?thesis using assms(1) of flagged_cong [OF assms(2)] by (simp add: all_ok_def sig_fds_def)
qed

lemma all_ok_entered: "all_ok s \<Longrightarrow> evs s e = Some x \<Longrightarrow> entered s e w s' \<Longrightarrow> w \<noteq> EVLIST_INSERTED \<Longrightarrow> all_ok s'"
  using maps_rest [of s "flagged s EVLIST_INSERTED" s'] entered_flags [of s e w s' x]
  by (simp add: all_ok_def entered_def sig_fds_def)

lemma all_ok_took: "all_ok s \<Longrightarrow> evs s e = Some x \<Longrightarrow> took s e w s' \<Longrightarrow> w \<noteq> EVLIST_INSERTED \<Longrightarrow> all_ok s'"
  using maps_rest [of s "flagged s EVLIST_INSERTED" s'] took_flags [of s e w s' x]
  by (simp add: all_ok_def took_def sig_fds_def)

text \<open>What an event looks like when it was made active for \<open>res\<close>.\<close>

definition activated :: "evbit set \<Rightarrow> 16 word \<Rightarrow> event \<Rightarrow> event" where
  "activated res ncalls x =
     (if EVLIST_ACTIVE \<in> ev_flags x then x\<lparr>ev_res := ev_res x \<union> res\<rparr>
      else (if EV_SIGNAL \<in> ev_events x then x\<lparr>ev_res := res, ev_ncalls := ncalls, ev_pncalls := None\<rparr> else x\<lparr>ev_res := res\<rparr>)\<lparr>ev_flags := insert EVLIST_ACTIVE (ev_flags x)\<rparr>)"

definition made_active :: "event_base \<Rightarrow> eptr \<Rightarrow> event \<Rightarrow> event \<Rightarrow> event_base \<Rightarrow> bool" where
  "made_active s e x y s' \<longleftrightarrow> kept s s' \<and> evs s' = (evs s)(e \<mapsto> y) \<and> timeheap s' = timeheap s \<and> eventqueue s' = eventqueue s \<and> be_calls s' = be_calls s
     \<and> io_map s' = io_map s \<and> sigmap s' = sigmap s
     \<and> activequeues s' = (if EVLIST_ACTIVE \<in> ev_flags x then activequeues s else (activequeues s)[ev_pri x := activequeues s ! ev_pri x @ [e]])"

lemma event_active_nolock_run:
  assumes "all_ok s" "evs s e = Some x"
  shows "\<exists>s'. event_active_nolock e res ncalls s = Inr ((), s') \<and> all_ok s' \<and> made_active s e x (activated res ncalls x) s'"
proof (cases "EVLIST_ACTIVE \<in> ev_flags x")
  case True
  have "all_ok (s\<lparr>evs := (evs s)(e \<mapsto> x\<lparr>ev_res := ev_res x \<union> res\<rparr>)\<rparr>)"
    using all_ok_upd [OF assms, of "\<lambda>x. x\<lparr>ev_res := ev_res x \<union> res\<rparr>"] base_parts(9,10) [OF _ assms(2)] assms(1) by (simp add: all_ok_def)
  then show ?thesis using True assms(2) by (simp add: event_active_nolock_def run_simps made_active_def activated_def kept_def)
next
  case False
  let ?y = "if EV_SIGNAL \<in> ev_events x then x\<lparr>ev_res := res, ev_ncalls := ncalls, ev_pncalls := None\<rparr> else x\<lparr>ev_res := res\<rparr>"
  let ?u = "s\<lparr>evs := (evs s)(e \<mapsto> ?y)\<rparr>"
  let ?t = "if int (ev_pri x) < event_running_priority s then s\<lparr>event_continue := True, evs := (evs s)(e \<mapsto> ?y)\<rparr> else ?u"
  have b: "base_ok s" using assms(1) by (simp add: all_ok_def)
  have "all_ok ?u" using all_ok_upd [OF assms, of "\<lambda>_. ?y"] base_parts(9,10) [OF b assms(2)] by simp
  then have t: "all_ok ?t" using all_ok_fields [of ?u ?t] by auto
  have y: "evs ?t e = Some ?y" by simp
  have "EVLIST_ACTIVE \<notin> ev_flags ?y" using False by simp
  then obtain s' where s': "event_queue_insert e EVLIST_ACTIVE ?t = Inr ((), s')" "entered ?t e EVLIST_ACTIVE s'"
    using event_queue_insert_run [OF _ y, of EVLIST_ACTIVE] t by (auto simp: all_ok_def)
  have sw: "s\<lparr>evs := E, event_continue := True\<rparr> = s\<lparr>event_continue := True, evs := E\<rparr>" for E by simp
  have "event_active_nolock e res ncalls s = event_queue_insert e EVLIST_ACTIVE ?t"
    using False assms(2) by (simp add: event_active_nolock_def run_simps sw)
  moreover have "all_ok s'" by (rule all_ok_entered [OF t y s'(2)]) simp
  moreover have "made_active s e x (activated res ncalls x) s'"
  proof -
    have r: "rest ?t s'" using s'(2) by (simp add: entered_def)
    have "kept s ?t" by (simp add: kept_def)
    then have "kept s s'" using kept_trans rest_kept [OF r] by blast
    moreover have "pri_of ?t e = ev_pri x" by (simp add: pri_of_def)
    moreover have "evs s' = (evs s)(e \<mapsto> activated res ncalls x)" using entered_flags(1) [OF s'(2) y] False by (simp add: activated_def)
    ultimately show ?thesis using s'(2) False base_rest_fields [OF r] by (simp add: made_active_def entered_def)
  qed
  ultimately show ?thesis using s'(1) by auto
qed

end
