(* ===== verification/Event_Due.thy ===== *)
theory Event_Due
  imports Event_Runs
begin

text \<open>
  \<open>timeout_process\<close>: the events that are due leave the heap and their other queues and enter the active queues, in the order of their timeouts.
\<close>

section \<open>The first event of the heap\<close>

lemma top_run:
  assumes "queue h q"
  shows "min_heap_top h = Inr (if q = [] then 0 else q ! 0, h)"
proof (cases "q = []")
  case True
  then show ?thesis using queueD(1) [OF assms] by (simp add: min_heap_top_def get_heap_def run_simps)
next
  case False
  then have "0 < mh_n h" using queueD(1) [OF assms] length_greater_0_conv [of q] by simp
  then show ?thesis using False queueD(2,7) [OF assms] by (auto simp: min_heap_top_def get_heap_def slot_def run_simps)
qed

lemma heap_queue:
  assumes "base_ok s"
  shows "\<exists>q. queue (timeheap s) q \<and> set q = flagged s EVLIST_TIMEOUT \<and> distinct q \<and> length q = mh_n (timeheap s)
    \<and> (\<forall>e\<in>set q. key (timeheap s) (q ! 0) \<le> key (timeheap s) e)"
proof -
  obtain q where q: "queue (timeheap s) q" "set q = flagged s EVLIST_TIMEOUT" using assms by (auto simp: base_ok_def heap_ok_def)
  note d = queueD [OF q(1)]
  have "key (timeheap s) (q ! 0) \<le> key (timeheap s) e" if "e \<in> set q" for e using heap_ord_min [OF d(6)] that by (metis in_set_conv_nth)
  then show ?thesis using q d(1,4) by blast
qed

lemma flagged_event: "e \<in> flagged s w \<Longrightarrow> \<exists>x. evs s e = Some x \<and> w \<in> ev_flags x"
  by (simp add: flagged_def)

section \<open>Firing\<close>

definition fired_event :: "event \<Rightarrow> event" where
  "fired_event x = activated {EV_TIMEOUT} 1 (x\<lparr>ev_flags := ev_flags x - queues\<rparr>)"

definition fired :: "event_base \<Rightarrow> eptr list \<Rightarrow> event_base \<Rightarrow> bool" where
  "fired s es s' \<longleftrightarrow> evs s' = (\<lambda>e. if e \<in> set es then map_option fired_event (evs s e) else evs s e)
     \<and> activequeues s' = map (\<lambda>p. filter (\<lambda>e. e \<notin> set es) (activequeues s ! p) @ filter (\<lambda>e. pri_of s e = p) es) [0..<length (activequeues s)]
     \<and> key (timeheap s') = key (timeheap s) \<and> be_fails s' = be_fails s"

lemma fired_refl: "fired s [] s"
  by (auto simp: fired_def fun_eq_iff intro: nth_equalityI)

lemma fire_run:
  assumes "all_ok s" "evs s e = Some x" "forgetting s"
  shows "\<exists>s'. bnd (event_del_internal e) (\<lambda>_. event_active_nolock e {EV_TIMEOUT} 1) s = Inr ((), s') \<and> all_ok s' \<and> fired s [e] s'"
proof -
  have b: "base_ok s" using assms(1) by (simp add: all_ok_def)
  obtain r s1 where s1: "event_del_internal e s = Inr (r, s1)" "removed s e s1" "all_ok s1" using event_del_internal_run [OF assms(1,2)] assms(3) by blast
  let ?y = "x\<lparr>ev_flags := ev_flags x - queues\<rparr>"
  have x1: "evs s1 e = Some ?y" using s1(2) assms(2) by (simp add: removed_def)
  obtain s2 where s2: "event_active_nolock e {EV_TIMEOUT} 1 s1 = Inr ((), s2)" "all_ok s2" "made_active s1 e ?y (activated {EV_TIMEOUT} 1 ?y) s2"
    using event_active_nolock_run [OF s1(3) x1] by blast
  have p: "pri_of s e = ev_pri x" "ev_pri x < length (activequeues s)" using base_parts(7,8) [OF b assms(2)] by simp_all
  have q: "distinct (activequeues s ! i)" "e \<in> set (activequeues s ! i) \<Longrightarrow> i = ev_pri x" if "i < length (activequeues s)" for i
    using base_parts(3) [OF b assms(2)] that p(1) by (auto simp: active_ok_def)
  have "activequeues s2 = (activequeues s)[ev_pri x := remove1 e (activequeues s ! ev_pri x) @ [e]]"
    using s1(2) s2(3) p by (simp add: removed_def made_active_def)
  also have "\<dots> = map (\<lambda>p. filter (\<lambda>z. z \<notin> set [e]) (activequeues s ! p) @ filter (\<lambda>z. pri_of s z = p) [e]) [0..<length (activequeues s)]"
  proof (rule nth_equalityI)
    fix i assume "i < length ((activequeues s)[ev_pri x := remove1 e (activequeues s ! ev_pri x) @ [e]])"
    then have i: "i < length (activequeues s)" by simp
    show "(activequeues s)[ev_pri x := remove1 e (activequeues s ! ev_pri x) @ [e]] ! i =
      map (\<lambda>p. filter (\<lambda>z. z \<notin> set [e]) (activequeues s ! p) @ filter (\<lambda>z. pri_of s z = p) [e]) [0..<length (activequeues s)] ! i"
    proof (cases "i = ev_pri x")
      case True
      then show ?thesis using i p q(1) [OF i] by (simp add: distinct_remove1_removeAll removeAll_filter_not_eq) (metis (mono_tags, lifting) filter_cong)
    next
      case False
      then have "filter (\<lambda>z. z \<noteq> e) (activequeues s ! i) = activequeues s ! i" using q(2) [OF i] by (metis (mono_tags, lifting) filter_True)
      then show ?thesis using i p False by simp
    qed
  qed simp
  finally have "fired s [e] s2"
    using s1(2) s2(3) assms(2) by (auto simp: fired_def removed_def made_active_def fired_event_def kept_def fun_eq_iff)
  then show ?thesis using s1(1) s2(1,2) by (simp add: bnd_Inr)
qed

lemma fired_flags: "fired s es s' \<Longrightarrow> flagged s' EVLIST_TIMEOUT = flagged s EVLIST_TIMEOUT - set es" "fired s es s' \<Longrightarrow> pri_of s' = pri_of s"
  by (auto simp: fired_def flagged_def fired_event_def activated_def pri_of_def fun_eq_iff split: option.splits if_splits)

lemma fired_trans:
  assumes "fired s [e] s'" "fired s' es s''" "e \<notin> set es"
  shows "fired s (e # es) s''"
proof -
  have p: "pri_of s' = pri_of s" using fired_flags(2) [OF assms(1)] .
  have "activequeues s'' = map (\<lambda>p. filter (\<lambda>z. z \<notin> set (e # es)) (activequeues s ! p) @ filter (\<lambda>z. pri_of s z = p) (e # es)) [0..<length (activequeues s)]"
    using assms p by (auto simp: fired_def conj_commute intro!: nth_equalityI)
  then show ?thesis using assms by (auto simp: fired_def fun_eq_iff)
qed

section \<open>The loop\<close>

lemma due_loop_run:
  assumes "all_ok s" "forgetting s" "mh_n (timeheap s) < f"
  shows "\<exists>s' es. due_loop f now s = Inr ((), s') \<and> all_ok s' \<and> fired s es s' \<and> distinct es \<and> sorted (map (key (timeheap s)) es)
    \<and> set es = {e \<in> flagged s EVLIST_TIMEOUT. key (timeheap s) e \<le> (tv_sec now, tv_usec now)}"
  using assms
proof (induction f arbitrary: s)
  case (Suc f)
  have b: "base_ok s" using Suc.prems(1) by (simp add: all_ok_def)
  obtain q where q: "queue (timeheap s) q" "set q = flagged s EVLIST_TIMEOUT" "distinct q" "length q = mh_n (timeheap s)"
    "\<forall>e\<in>set q. key (timeheap s) (q ! 0) \<le> key (timeheap s) e" using heap_queue [OF b] by blast
  have top: "in_heap min_heap_top s = Inr (if q = [] then 0 else q ! 0, s)" using top_run [OF q(1)] by (simp add: in_heap_def)
  show ?case
  proof (cases "q = []")
    case True
    then have "due_loop (Suc f) now s = Inr ((), s)" using top by (simp add: run_simps)
    then show ?thesis using Suc.prems(1) fired_refl q(2) True by (intro exI [of _ s] exI [of _ "[]"]) simp
  next
    case False
    let ?e = "q ! 0"
    have e: "?e \<in> set q" using False by simp
    then obtain x where x: "evs s ?e = Some x" using q(2) flagged_event by blast
    have "evs s 0 = None" using b by (simp add: base_ok_def calm_def)
    then have n0: "?e \<noteq> 0" using x by (intro notI) simp
    note p = base_parts [OF b x]
    have k: "key (timeheap s) ?e = (tv_sec (timeout_of s ?e), tv_usec (timeout_of s ?e))" by (rule key_timeout [OF p(6)])
    have run: "due_loop (Suc f) now s = (if timercmp_gt (timeout_of s ?e) now then ret ()
       else bnd (event_del_internal ?e) (\<lambda>_. bnd (event_active_nolock ?e {EV_TIMEOUT} 1) (\<lambda>_. due_loop f now))) s"
      using top False n0 p(6) by (simp add: bnd_Inr timeout_run)
    show ?thesis
    proof (cases "timercmp_gt (timeout_of s ?e) now")
      case True
      then have lt: "(tv_sec now, tv_usec now) < key (timeheap s) ?e" using k by (simp add: timercmp_key del: less_prod_simp)
      have "\<not> key (timeheap s) e \<le> (tv_sec now, tv_usec now)" if "e \<in> set q" for e using lt bspec [OF q(5) that] by (metis less_le_trans leD)
      then have "{e \<in> flagged s EVLIST_TIMEOUT. key (timeheap s) e \<le> (tv_sec now, tv_usec now)} = {}" using q(2) by auto
      then show ?thesis using run True Suc.prems(1) fired_refl by (intro exI [of _ s] exI [of _ "[]"]) simp
    next
      case due: False
      obtain s1 where s1: "bnd (event_del_internal ?e) (\<lambda>_. event_active_nolock ?e {EV_TIMEOUT} 1) s = Inr ((), s1)" "all_ok s1" "fired s [?e] s1"
        using fire_run [OF Suc.prems(1) x Suc.prems(2)] by blast
      have fl: "flagged s1 EVLIST_TIMEOUT = set q - {?e}" using fired_flags(1) [OF s1(3)] q(2) by simp
      have ks: "key (timeheap s1) = key (timeheap s)" "forgetting s1" using s1(3) Suc.prems(2) by (simp_all add: fired_def forgetting_def)
      have "mh_n (timeheap s1) < f"
      proof -
        obtain q1 where "distinct q1" "length q1 = mh_n (timeheap s1)" "set q1 = flagged s1 EVLIST_TIMEOUT"
          using heap_queue [of s1] s1(2) unfolding all_ok_def by blast
        then have "mh_n (timeheap s1) = card (set q - {?e})" using fl distinct_card [of q1] by simp
        then show ?thesis using e Suc.prems(3) q(3,4) distinct_card [of q] card_Diff_singleton [of ?e "set q"] card_gt_0_iff [of "set q"] by force
      qed
      then obtain s' es where s': "due_loop f now s1 = Inr ((), s')" "all_ok s'" "fired s1 es s'" "distinct es" "sorted (map (key (timeheap s)) es)"
          "set es = {e \<in> set q - {?e}. key (timeheap s) e \<le> (tv_sec now, tv_usec now)}"
        using Suc.IH [OF s1(2) ks(2)] unfolding ks(1) fl by blast
      have "fired s (?e # es) s'" using fired_trans [OF s1(3) s'(3)] s'(6) by simp
      moreover have "due_loop (Suc f) now s = Inr ((), s')"
        using run due s'(1) bnd_Inr [of "bnd (event_del_internal ?e) (\<lambda>_. event_active_nolock ?e {EV_TIMEOUT} 1)" s "()" s1 "\<lambda>_. due_loop f now", OF s1(1)]
        by (simp add: bnd_assoc)
      moreover have "sorted (map (key (timeheap s)) (?e # es))" using s'(5,6) q(5) by auto
      moreover have "set (?e # es) = {e \<in> flagged s EVLIST_TIMEOUT. key (timeheap s) e \<le> (tv_sec now, tv_usec now)}"
        using s'(6) q(2) e due k by (auto simp: timercmp_key not_less)
      moreover have "distinct (?e # es)" using s'(4,6) by simp
      ultimately show ?thesis using s'(2) by blast
    qed
  qed
qed simp

end
