(* ===== verification/Event_Adding.thy ===== *)
theory Event_Adding
  imports Event_Due
begin

text \<open>\<open>event_add\<close>: room in the heap, the maps and the timeout. It keeps the invariant, and when it fails the event is as it was.\<close>

section \<open>Room in the heap\<close>

lemma base_ok_heap:
  assumes "base_ok s" "queue h q" "set q = flagged s EVLIST_TIMEOUT" "live h = live (timeheap s)"
  shows "base_ok (s\<lparr>timeheap := h\<rparr>)"
proof -
  let ?t = "s\<lparr>timeheap := h\<rparr>"
  have fl: "flagged ?t = flagged s" "pri_of ?t = pri_of s" using flagged_cong [of ?t s] pri_cong [of ?t s] by auto
  have "heap_ok ?t" using assms fl unfolding base_ok_def heap_ok_def by auto
  then show ?thesis using assms(1) fl by (simp add: base_ok_def inserted_ok_def active_ok_def counts_ok_def counted_def calm_def)
qed

lemma heap_small:
  assumes "base_ok s" "evs s e = Some x" "EVLIST_TIMEOUT \<notin> ev_flags x" "card (dom (evs s)) < 2 ^ 31"
  shows "Suc (mh_n (timeheap s)) < 2 ^ 31"
proof -
  obtain q where q: "set q = flagged s EVLIST_TIMEOUT" "distinct q" "length q = mh_n (timeheap s)" using heap_queue [OF assms(1)] by blast
  have f: "finite (dom (evs s))" using assms(1) by (simp add: base_ok_def counts_ok_def)
  have "insert e (set q) \<subseteq> dom (evs s)" using q(1) flagged_dom assms(2) by auto
  then have "card (insert e (set q)) \<le> card (dom (evs s))" using f card_mono by blast
  moreover have "card (insert e (set q)) = Suc (mh_n (timeheap s))" using q assms(2,3) distinct_card [OF q(2)] card_insert_disjoint [OF finite_set, of e q] by (simp add: flagged_iff)
  ultimately show ?thesis using assms(4) by linarith
qed

lemma reserve_keeps:
  assumes "queue h q" "Suc (mh_n h) < 2 ^ 31"
  shows "\<exists>r h'. bnd min_heap_size (\<lambda>n. min_heap_reserve (u32_add 1 n)) h = Inr (r, h') \<and> queue h' q \<and> mh_events h' = mh_events h
    \<and> (r = 0 \<and> mh_n h' < mh_a h' \<and> Suc (mh_n h') < 2 ^ 31 \<or> r = - 1 \<and> mh_a h \<le> mh_n h)"
proof -
  note d = queueD [OF assms(1)]
  have n: "u32_add 1 (mh_n h) = Suc (mh_n h)" using assms(2) by (simp add: u32_add_def)
  have run: "bnd min_heap_size (\<lambda>n. min_heap_reserve (u32_add 1 n)) h = min_heap_reserve (Suc (mh_n h)) h"
    using n by (simp add: min_heap_size_def get_heap_def bnd_def)
  consider "min_heap_reserve (Suc (mh_n h)) h = Inr (- 1, h)"
    | h' where "min_heap_reserve (Suc (mh_n h)) h = Inr (0, h')" "mh_n h' = mh_n h" "mh_events h' = mh_events h"
        "Suc (mh_n h) \<le> mh_a h'" "length (mh_p h') = mh_a h'" "take (mh_n h) (mh_p h') = take (mh_n h) (mh_p h)"
    using reserve_run [of h "Suc (mh_n h)"] d(2,5) assms(2) by auto
  then show ?thesis
  proof cases
    case 1
    then have "mh_a h \<le> mh_n h" by (auto simp: min_heap_reserve_def Let_def split: if_splits)
    then show ?thesis using 1 run assms(1) by simp
  next
    case (2 h')
    have f: "key h' = key h" "idx h' = idx h" "live h' = live h" using 2(3) by (auto simp: key_def idx_def live_def fun_eq_iff)
    have "mh_p h' ! i = mh_p h ! i" if "i < mh_n h" for i using 2(6) that by (metis nth_take)
    then have "queue h' q" using assms(1) 2 f by (auto simp: queue_def placed_def)
    then show ?thesis using run 2 assms(2) by auto
  qed
qed

lemma reserve_step:
  assumes "all_ok s" "evs s e = Some x" "EVLIST_TIMEOUT \<notin> ev_flags x" "card (dom (evs s)) < 2 ^ 31"
  shows "\<exists>r h. in_heap (bnd min_heap_size (\<lambda>n. min_heap_reserve (u32_add 1 n))) s = Inr (r, s\<lparr>timeheap := h\<rparr>) \<and> all_ok (s\<lparr>timeheap := h\<rparr>)
    \<and> mh_events h = mh_events (timeheap s) \<and> (r = 0 \<and> has_room (s\<lparr>timeheap := h\<rparr>) \<or> r = - 1 \<and> mh_a (timeheap s) \<le> mh_n (timeheap s))"
proof -
  have b: "base_ok s" using assms(1) by (simp add: all_ok_def)
  obtain q where q: "queue (timeheap s) q" "set q = flagged s EVLIST_TIMEOUT" using heap_queue [OF b] by blast
  obtain r h where h: "bnd min_heap_size (\<lambda>n. min_heap_reserve (u32_add 1 n)) (timeheap s) = Inr (r, h)" "queue h q" "mh_events h = mh_events (timeheap s)"
    "r = 0 \<and> mh_n h < mh_a h \<and> Suc (mh_n h) < 2 ^ 31 \<or> r = - 1 \<and> mh_a (timeheap s) \<le> mh_n (timeheap s)"
    using reserve_keeps [OF q(1) heap_small [OF b assms(2-4)]] by blast
  let ?t = "s\<lparr>timeheap := h\<rparr>"
  have "base_ok ?t" by (rule base_ok_heap [OF b h(2) q(2)]) (use h(3) in \<open>simp add: live_def fun_eq_iff\<close>)
  moreover have "maps_ok ?t (flagged s EVLIST_INSERTED)"
    by (rule maps_ok_cong [of s]) (use assms(1) in \<open>simp_all add: all_ok_def events_of_def fd_of_def fun_eq_iff\<close>)
  ultimately have "all_ok ?t" using assms(1) flagged_cong [of ?t s] by (simp add: all_ok_def sig_fds_def events_of_def fd_of_def)
  then show ?thesis using h by (auto simp: in_heap_def has_room_def)
qed

section \<open>The maps\<close>

definition enters_map :: "event \<Rightarrow> bool" where
  "enters_map x \<longleftrightarrow> ev_events x \<inter> {EV_READ, EV_WRITE, EV_SIGNAL} \<noteq> {} \<and> ev_flags x \<inter> {EVLIST_INSERTED, EVLIST_ACTIVE} = {}"

definition fd_ok :: "event \<Rightarrow> bool" where
  "fd_ok x \<longleftrightarrow> ev_fd x < int MAX_SLOT \<and> (ev_events x \<inter> RW = {} \<longrightarrow> EV_SIGNAL \<in> ev_events x \<longrightarrow> 0 \<le> ev_fd x)"

definition into_map :: "event_base \<Rightarrow> eptr \<Rightarrow> event \<Rightarrow> int \<Rightarrow> event_base \<Rightarrow> bool" where
  "into_map s e x r s' \<longleftrightarrow> all_ok s' \<and> r \<in> {0, - 1} \<and> kept s s' \<and> timeheap s' = timeheap s \<and> activequeues s' = activequeues s
    \<and> evs s' = (if r = 0 \<and> enters_map x then (evs s)(e \<mapsto> x\<lparr>ev_flags := insert EVLIST_INSERTED (ev_flags x)\<rparr>) else evs s)"

lemma add_to_map_run:
  assumes "all_ok s" "evs s e = Some x" "fd_ok x"
  shows "\<exists>r s'. add_to_map e x s = Inr (r, s') \<and> into_map s e x r s'"
proof (cases "enters_map x")
  case False
  then have "add_to_map e x s = Inr (0, s)" by (simp only: add_to_map_def enters_map_def [symmetric] if_False ret_def)
  then show ?thesis using assms(1) False by (simp add: into_map_def)
next
  case True
  let ?A = "flagged s EVLIST_INSERTED"
  let ?add = "if ev_events x \<inter> RW \<noteq> {} then evmap_io_add (ev_fd x) e else evmap_signal_add (ev_fd x) e"
  have b: "base_ok s" "maps_ok s ?A" "sig_fds s" using assms(1) by (simp_all add: all_ok_def)
  have n: "EVLIST_INSERTED \<notin> ev_flags x" "e \<notin> ?A" using True assms(2) by (auto simp: enters_map_def flagged_iff)
  have "\<exists>r s1. ?add s = Inr (r, s1) \<and> mapped s ?A (insert e ?A) r s1"
  proof (cases "ev_events x \<inter> RW \<noteq> {}")
    case rw: True
    then show ?thesis using io_add_run [OF b(2) assms(2) n(2)] assms(3) by (simp add: fd_ok_def)
  next
    case sg: False
    then have "0 \<le> ev_fd x" using assms(3) True by (auto simp: fd_ok_def enters_map_def)
    then show ?thesis using sg sig_add_run [OF b(2) assms(2) n(2), of "nat (ev_fd x)"] assms(3) by (simp add: fd_ok_def)
  qed
  then obtain r s1 where a: "?add s = Inr (r, s1)" "mapped s ?A (insert e ?A) r s1" by blast
  have mr: "map_rest s s1" "r \<in> {- 1, 0, 1}" "maps_ok s1 (if r = - 1 then ?A else insert e ?A)" using a(2) by (simp_all add: mapped_def)
  note mf = map_rest_fields [OF mr(1)] and mo = map_rest_of [OF mr(1)]
  have b1: "base_ok s1" "evs s1 e = Some x" using map_rest_base [OF b(1) mr(1)] mf(1) assms(2) by simp_all
  have run: "add_to_map e x s = bnd ?add (\<lambda>res. bnd (on_cond (res \<noteq> - 1) (event_queue_insert e EVLIST_INSERTED)) (\<lambda>_. ret (if res = 1 then 0 else res))) s"
    using True by (simp only: add_to_map_def enters_map_def [symmetric] if_True)
  then have run1: "add_to_map e x s = bnd (on_cond (r \<noteq> - 1) (event_queue_insert e EVLIST_INSERTED)) (\<lambda>_. ret (if r = 1 then 0 else r)) s1"
    by (simp only: bnd_Inr [of ?add, OF a(1)])
  show ?thesis
  proof (cases "r = - 1")
    case True
    then have "all_ok s1" using b1 mr(3) b(3) flagged_cong [OF mf(1)] mo by (simp add: all_ok_def sig_fds_def)
    then show ?thesis using run1 True mf(1,2,4) map_rest_kept [OF mr(1)] by (simp add: into_map_def)
  next
    case False
    obtain s2 where s2: "event_queue_insert e EVLIST_INSERTED s1 = Inr ((), s2)" "entered s1 e EVLIST_INSERTED s2"
      using event_queue_insert_run [OF b1 n(1)] by auto
    note f = entered_flags [OF s2(2) b1(2)]
    have r2: "rest s1 s2" "base_ok s2" "timeheap s2 = timeheap s1" "activequeues s2 = activequeues s1" using s2(2) by (simp_all add: entered_def)
    have fl: "flagged s2 EVLIST_INSERTED = insert e ?A" using f(4) flagged_cong [OF mf(1)] by simp
    have m2: "maps_ok s2 (insert e ?A)" using maps_rest [OF _ r2(1) f(2,3)] mr(3) False by simp
    have "events_of s2 e = ev_events x" "fd_of s2 e = ev_fd x" using f(2,3) mo event_of_simps [OF assms(2)] by simp_all
    then have "sig_fds s2" using b(3) f(2,3) mo fl assms(3) \<open>enters_map x\<close> by (auto simp: sig_fds_def fd_ok_def enters_map_def)
    then have "all_ok s2" using r2(2) m2 fl by (simp add: all_ok_def)
    moreover have "kept s s2" using kept_trans map_rest_kept [OF mr(1)] rest_kept [OF r2(1)] by blast
    moreover have "add_to_map e x s = Inr (0, s2)" using run1 False s2(1) mr(2) by (auto simp: bnd_Inr)
    ultimately show ?thesis using r2(3,4) mf(1,2,4) f(1) \<open>enters_map x\<close> by (simp add: into_map_def)
  qed
qed

section \<open>The timeout\<close>

lemma key_of_timeout: "key (timeheap s) z = (tv_sec (timeout_of s z), tv_usec (timeout_of s z))"
  by (simp add: key_def timeout_of_def split: option.splits)

lemma no_common: "base_ok s \<Longrightarrow> \<not> is_common_timeout tv s"
  by (simp add: base_ok_def heap_ok_def is_common_timeout_def)

definition now_of :: "event_base \<Rightarrow> timeval" where
  "now_of s = (if tv_sec (tv_cache s) \<noteq> 0 then tv_cache s else eb_clock s (eb_reads s))"

text \<open>The event \<open>x\<close> after its timeout was set: a persistent event also remembers the timeout.\<close>

definition remembered :: "timeval \<Rightarrow> bool \<Rightarrow> event \<Rightarrow> event" where
  "remembered tv ab x = (if ev_close x = EV_CLOSURE_PERSIST \<and> \<not> ab then x\<lparr>ev_io_timeout := tv\<rparr> else x)"

definition unqueued :: "event \<Rightarrow> event" where
  "unqueued x = x\<lparr>ev_flags := (if EV_TIMEOUT \<in> ev_res x then ev_flags x - {EVLIST_ACTIVE} else ev_flags x) - {EVLIST_TIMEOUT}\<rparr>"

definition timed_event :: "timeval \<Rightarrow> bool \<Rightarrow> event \<Rightarrow> event" where
  "timed_event tv ab x = (remembered tv ab x)\<lparr>ev_flags := insert EVLIST_TIMEOUT (if EV_TIMEOUT \<in> ev_res x then ev_flags x - {EVLIST_ACTIVE} else ev_flags x)\<rparr>"

lemma remembered_fields [simp]:
  "ev_flags (remembered tv ab x) = ev_flags x" "ev_res (remembered tv ab x) = ev_res x" "ev_events (remembered tv ab x) = ev_events x"
  "ev_fd (remembered tv ab x) = ev_fd x" "ev_pri (remembered tv ab x) = ev_pri x" "ev_pncalls (remembered tv ab x) = ev_pncalls x" "ev_base (remembered tv ab x) = ev_base x"
  by (simp_all add: remembered_def)

lemma timed_unqueued: "(unqueued (remembered tv ab x))\<lparr>ev_flags := insert EVLIST_TIMEOUT (ev_flags (unqueued (remembered tv ab x)))\<rparr> = timed_event tv ab x"
  by (simp add: unqueued_def timed_event_def)

definition set_timeout :: "event_base \<Rightarrow> eptr \<Rightarrow> event \<Rightarrow> timeval \<Rightarrow> event_base \<Rightarrow> bool" where
  "set_timeout s e y d s' \<longleftrightarrow> all_ok s' \<and> evs s' = (evs s)(e \<mapsto> y) \<and> key (timeheap s') = (key (timeheap s))(e := (tv_sec d, tv_usec d))
     \<and> be_calls s' = be_calls s \<and> be_fails s' = be_fails s"

lemma gettime_run:
  assumes "all_ok s"
  shows "\<exists>s'. gettime s = Inr (now_of s, s') \<and> all_ok s' \<and> evs s' = evs s \<and> timeheap s' = timeheap s \<and> activequeues s' = activequeues s \<and> be_calls s' = be_calls s
    \<and> be_fails s' = be_fails s"
proof (cases "tv_sec (tv_cache s) = 0")
  case True
  have "all_ok (s\<lparr>eb_reads := n, tv_clock_diff := d, last_updated_clock_diff := l\<rparr>)" for n d l by (rule all_ok_fields [OF assms]) simp_all
  then show ?thesis using True by (simp add: gettime_def now_of_def Let_def)
next
  case False
  then show ?thesis using assms by (simp add: gettime_def now_of_def)
qed

lemma st_timeout_all:
  assumes "all_ok s" "evs s e = Some x" "EVLIST_TIMEOUT \<notin> ev_flags x"
  shows "\<exists>h. st_timeout e tv s = Inr ((), s\<lparr>timeheap := h\<rparr>) \<and> all_ok (s\<lparr>timeheap := h\<rparr>) \<and> key h = (key (timeheap s))(e := (tv_sec tv, tv_usec tv))
    \<and> mh_n h = mh_n (timeheap s) \<and> mh_a h = mh_a (timeheap s)"
proof -
  have b: "base_ok s" using assms(1) by (simp add: all_ok_def)
  obtain s' where s': "st_timeout e tv s = Inr ((), s')" "base_ok s'" "s' = s\<lparr>timeheap := timeheap s'\<rparr>" "timeout_of s' = (timeout_of s)(e := tv)"
    "mh_n (timeheap s') = mh_n (timeheap s)" "mh_a (timeheap s') = mh_a (timeheap s)" using st_timeout_run [OF b assms(2,3)] by blast
  obtain h where h: "s' = s\<lparr>timeheap := h\<rparr>" using s'(3) by blast
  have "maps_ok s' (flagged s EVLIST_INSERTED)"
    by (rule maps_ok_cong [of s]) (use assms(1) h in \<open>simp_all add: all_ok_def events_of_def fd_of_def fun_eq_iff\<close>)
  then have "all_ok s'" using assms(1) flagged_cong [of s' s] s'(2) h by (simp add: all_ok_def sig_fds_def events_of_def fd_of_def)
  moreover have "key (timeheap s') = (key (timeheap s))(e := (tv_sec tv, tv_usec tv))" using s'(4) by (auto simp: key_of_timeout fun_eq_iff)
  ultimately show ?thesis using s'(1,5,6) h by auto
qed

lemma heap_card: "base_ok s \<Longrightarrow> mh_n (timeheap s) = card (flagged s EVLIST_TIMEOUT) \<and> mh_n (timeheap s) \<le> mh_a (timeheap s) \<and> mh_n (timeheap s) < 2 ^ 31"
proof -
  assume "base_ok s"
  then obtain q where q: "queue (timeheap s) q" "set q = flagged s EVLIST_TIMEOUT" "distinct q" "length q = mh_n (timeheap s)" using heap_queue by blast
  then show ?thesis using queueD(2,3,5) [OF q(1)] distinct_card [OF q(3)] by simp
qed

lemma took_room:
  assumes "base_ok s" "evs s e = Some x" "took s e w s'" "has_room s \<or> w = EVLIST_TIMEOUT \<and> EVLIST_TIMEOUT \<in> ev_flags x"
  shows "has_room s'"
proof -
  have b: "base_ok s'" "mh_a (timeheap s') = mh_a (timeheap s)" using assms(3) by (simp_all add: took_def)
  have fl: "flagged s' EVLIST_TIMEOUT = (if w = EVLIST_TIMEOUT then flagged s EVLIST_TIMEOUT - {e} else flagged s EVLIST_TIMEOUT)"
    using took_flags(4) [OF assms(3,2), of EVLIST_TIMEOUT] by simp
  have f: "finite (flagged s EVLIST_TIMEOUT)" using assms(1) finite_flagged by (auto simp: base_ok_def counts_ok_def)
  have le: "card (flagged s EVLIST_TIMEOUT - {e}) \<le> card (flagged s EVLIST_TIMEOUT)" using card_mono [OF f, of "flagged s EVLIST_TIMEOUT - {e}"] by blast
  have "card (flagged s EVLIST_TIMEOUT - {e}) < card (flagged s EVLIST_TIMEOUT)" if "EVLIST_TIMEOUT \<in> ev_flags x"
    using that assms(2) f card_Diff1_less by (metis flagged_iff)
  then show ?thesis using assms(4) heap_card [OF assms(1)] heap_card [OF b(1)] b(2) fl le by (auto simp: has_room_def)
qed

text \<open>Where the event stands before its new time is set.\<close>

definition cleared :: "event_base \<Rightarrow> eptr \<Rightarrow> event \<Rightarrow> event_base \<Rightarrow> bool" where
  "cleared s e x s' \<longleftrightarrow> all_ok s' \<and> has_room s' \<and> key (timeheap s') = key (timeheap s) \<and> kept s s' \<and> be_calls s' = be_calls s
     \<and> evs s' = (evs s)(e \<mapsto> unqueued x)"

lemma clear_run:
  assumes "all_ok s" "evs s e = Some x" "has_room s \<or> EVLIST_TIMEOUT \<in> ev_flags x"
  shows "\<exists>s'. bnd (on_cond (EVLIST_TIMEOUT \<in> ev_flags x) (event_queue_remove e EVLIST_TIMEOUT)) (\<lambda>_.
     on_cond (EVLIST_ACTIVE \<in> ev_flags x \<and> EV_TIMEOUT \<in> ev_res x)
            (bnd (on_cond (EV_SIGNAL \<in> ev_events x) (abort_loop e)) (\<lambda>_. event_queue_remove e EVLIST_ACTIVE))) s = Inr ((), s') \<and> cleared s e x s'"
proof -
  have b: "base_ok s" using assms(1) by (simp add: all_ok_def)
  obtain s1 where s1: "on_cond (EVLIST_TIMEOUT \<in> ev_flags x) (event_queue_remove e EVLIST_TIMEOUT) s = Inr ((), s1)" "took s e EVLIST_TIMEOUT s1"
    using maybe_remove [OF b assms(2), of EVLIST_TIMEOUT] by auto
  let ?x1 = "x\<lparr>ev_flags := ev_flags x - {EVLIST_TIMEOUT}\<rparr>"
  have ok1: "all_ok s1" "has_room s1" "rest s s1" "key (timeheap s1) = key (timeheap s)" "base_ok s1"
    using all_ok_took [OF assms(1,2) s1(2)] took_room [OF b assms(2) s1(2)] assms(3) s1(2) by (auto simp: took_def)
  have x1: "evs s1 = (evs s)(e \<mapsto> ?x1)" "evs s1 e = Some ?x1" using took_flags(1) [OF s1(2) assms(2)] by simp_all
  show ?thesis
  proof (cases "EVLIST_ACTIVE \<in> ev_flags x \<and> EV_TIMEOUT \<in> ev_res x")
    case False
    have "ev_flags x - {EVLIST_TIMEOUT} = (if EV_TIMEOUT \<in> ev_res x then ev_flags x - {EVLIST_ACTIVE} else ev_flags x) - {EVLIST_TIMEOUT}" using False by auto
    then have "evs s1 = (evs s)(e \<mapsto> unqueued x)" using x1(1) by (simp only: unqueued_def)
    then have "cleared s e x s1" using ok1(1,2,4) rest_kept [OF ok1(3)] base_rest_fields(4) [OF ok1(3)] by (simp only: cleared_def simp_thms)
    moreover have "(EVLIST_ACTIVE \<in> ev_flags x \<and> EV_TIMEOUT \<in> ev_res x) = False" using False by blast
    ultimately show ?thesis using s1(1) by (simp only: bnd_Inr on_cond_False ret_def) simp
  next
    case True
    obtain s2 where s2: "event_queue_remove e EVLIST_ACTIVE s1 = Inr ((), s2)" "took s1 e EVLIST_ACTIVE s2"
      using event_queue_remove_run [OF ok1(5) x1(2), of EVLIST_ACTIVE] True by auto
    let ?x2 = "x\<lparr>ev_flags := ev_flags x - {EVLIST_TIMEOUT} - {EVLIST_ACTIVE}\<rparr>"
    have ok2: "all_ok s2" "has_room s2" "rest s1 s2" "key (timeheap s2) = key (timeheap s)"
      using all_ok_took [OF ok1(1) x1(2) s2(2)] took_room [OF ok1(5) x1(2) s2(2)] ok1(2,4) s2(2) by (auto simp: took_def)
    have "on_cond (EV_SIGNAL \<in> ev_events x) (abort_loop e) s1 = Inr ((), s1)" using abort_calm [OF ok1(5) x1(2)] by (cases "EV_SIGNAL \<in> ev_events x") simp_all
    then have run: "bnd (on_cond (EV_SIGNAL \<in> ev_events x) (abort_loop e)) (\<lambda>_. event_queue_remove e EVLIST_ACTIVE) s1 = Inr ((), s2)" using s2(1) by (simp add: bnd_Inr)
    have x2: "evs s2 = (evs s)(e \<mapsto> ?x2)" using took_flags(1) [OF s2(2) x1(2)] x1(1) by simp
    have fl: "ev_flags x - {EVLIST_TIMEOUT} - {EVLIST_ACTIVE} = ev_flags x - {EVLIST_ACTIVE} - {EVLIST_TIMEOUT}" by auto
    have r: "rest s s2" using rest_trans [OF ok1(3) ok2(3)] .
    have "evs s2 = (evs s)(e \<mapsto> unqueued x)" using x2 True unfolding fl unqueued_def by simp
    then have "cleared s e x s2" using ok2(1,2,4) rest_kept [OF r] base_rest_fields(4) [OF r] by (simp only: cleared_def simp_thms)
    then show ?thesis using s1(1) True run by (simp add: bnd_Inr)
  qed
qed

lemma insert_timeout_run:
  assumes "all_ok s" "evs s e = Some x" "EVLIST_TIMEOUT \<notin> ev_flags x" "has_room s"
  shows "\<exists>s'. bnd (st_timeout e d) (\<lambda>_. event_queue_insert e EVLIST_TIMEOUT) s = Inr ((), s') \<and> all_ok s' \<and> rest s s'
    \<and> evs s' = (evs s)(e \<mapsto> x\<lparr>ev_flags := insert EVLIST_TIMEOUT (ev_flags x)\<rparr>) \<and> key (timeheap s') = (key (timeheap s))(e := (tv_sec d, tv_usec d))"
proof -
  obtain h where h: "st_timeout e d s = Inr ((), s\<lparr>timeheap := h\<rparr>)" "all_ok (s\<lparr>timeheap := h\<rparr>)" "key h = (key (timeheap s))(e := (tv_sec d, tv_usec d))"
    "mh_n h = mh_n (timeheap s)" "mh_a h = mh_a (timeheap s)" using st_timeout_all [OF assms(1-3)] by blast
  let ?t = "s\<lparr>timeheap := h\<rparr>"
  have x: "evs ?t e = Some x" using assms(2) by simp
  obtain s' where s': "event_queue_insert e EVLIST_TIMEOUT ?t = Inr ((), s')" "entered ?t e EVLIST_TIMEOUT s'"
    using event_queue_insert_run [OF _ x assms(3)] h(2,4,5) assms(4) by (auto simp: all_ok_def has_room_def)
  have "all_ok s'" by (rule all_ok_entered [OF h(2) x s'(2)]) simp
  moreover have "rest s ?t" by (simp add: rest_def)
  then have "rest s s'" using s'(2) rest_trans unfolding entered_def by blast
  ultimately show ?thesis using h(1,3) s' entered_flags(1) [OF s'(2) x] by (simp add: bnd_Inr entered_def)
qed

lemma add_timeout_run:
  assumes "all_ok s" "evs s e = Some x" "has_room s \<or> EVLIST_TIMEOUT \<in> ev_flags x"
  shows "\<exists>s'. add_timeout sch e tv ab s = Inr ((), s') \<and> set_timeout s e (timed_event tv ab x) (due_at (now_of s) tv ab False) s'"
proof -
  let ?f = "remembered tv ab"
  let ?s = "s\<lparr>evs := (evs s)(e \<mapsto> ?f x)\<rparr>"
  have b: "base_ok s" using assms(1) by (simp add: all_ok_def)
  have u: "on_cond (ev_close x = EV_CLOSURE_PERSIST \<and> \<not> ab) (upd_ev e (\<lambda>x. x\<lparr>ev_io_timeout := tv\<rparr>)) s = Inr ((), ?s)"
    using assms(2) by (auto simp: on_cond_def run_simps fun_upd_idem remembered_def)
  have ok: "all_ok ?s" using all_ok_upd [where f = ?f, OF assms(1,2)] base_parts(9,10) [OF b assms(2)] by auto
  have x: "evs ?s e = Some (?f x)" "has_room ?s \<or> EVLIST_TIMEOUT \<in> ev_flags (?f x)" using assms(3) by (auto simp: has_room_def)
  obtain s1 where s1: "bnd (on_cond (EVLIST_TIMEOUT \<in> ev_flags x) (event_queue_remove e EVLIST_TIMEOUT)) (\<lambda>_.
     on_cond (EVLIST_ACTIVE \<in> ev_flags x \<and> EV_TIMEOUT \<in> ev_res x)
            (bnd (on_cond (EV_SIGNAL \<in> ev_events x) (abort_loop e)) (\<lambda>_. event_queue_remove e EVLIST_ACTIVE))) ?s = Inr ((), s1)" "cleared ?s e (?f x) s1"
    using clear_run [OF ok x] unfolding remembered_fields by blast
  let ?y = "unqueued (?f x)"
  have c: "all_ok s1" "has_room s1" "key (timeheap s1) = key (timeheap s)" "be_calls s1 = be_calls s" "kept s s1"
    "evs s1 = (evs s)(e \<mapsto> ?y)" using s1(2) by (simp_all add: cleared_def kept_def)
  have ny: "EVLIST_TIMEOUT \<notin> ev_flags ?y" by (simp add: unqueued_def)
  obtain s2 where s2: "gettime s1 = Inr (now_of s1, s2)" "all_ok s2" "evs s2 = evs s1" "timeheap s2 = timeheap s1" "be_calls s2 = be_calls s1" "be_fails s2 = be_fails s1"
    using gettime_run [OF c(1)] by blast
  have now: "now_of s1 = now_of s" using c(5) by (simp add: now_of_def kept_def)
  have x2: "evs s2 e = Some ?y" "has_room s2" using s2(3,4) c(2,6) by (simp_all add: has_room_def)
  let ?d = "due_at (now_of s) tv ab False"
  obtain s3 where s3: "bnd (st_timeout e ?d) (\<lambda>_. event_queue_insert e EVLIST_TIMEOUT) s2 = Inr ((), s3)" "all_ok s3" "rest s2 s3"
    "evs s3 = (evs s2)(e \<mapsto> ?y\<lparr>ev_flags := insert EVLIST_TIMEOUT (ev_flags ?y)\<rparr>)" "key (timeheap s3) = (key (timeheap s2))(e := (tv_sec ?d, tv_usec ?d))"
    using insert_timeout_run [OF s2(2) x2(1) ny x2(2)] by blast
  have nc: "\<not> is_common_timeout tv s2" using no_common s2(2) by (simp add: all_ok_def)
  have "set_timeout s e (timed_event tv ab x) ?d s3"
    using s3(2,5) s3(4) [unfolded timed_unqueued] s2(3-6) c(3-6) base_rest_fields(4,5) [OF s3(3)] by (auto simp: set_timeout_def kept_def)
  moreover have "add_timeout sch e tv ab s = Inr ((), s3)"
  proof -
    have "add_timeout sch e tv ab s = bnd (bnd (on_cond (EVLIST_TIMEOUT \<in> ev_flags x) (event_queue_remove e EVLIST_TIMEOUT)) (\<lambda>_.
       on_cond (EVLIST_ACTIVE \<in> ev_flags x \<and> EV_TIMEOUT \<in> ev_res x)
            (bnd (on_cond (EV_SIGNAL \<in> ev_events x) (abort_loop e)) (\<lambda>_. event_queue_remove e EVLIST_ACTIVE)))) (\<lambda>_.
       bnd gettime (\<lambda>now.
       bnd (ask (is_common_timeout tv)) (\<lambda>c.
       bnd (bnd (st_timeout e (due_at now tv ab c)) (\<lambda>_. event_queue_insert e EVLIST_TIMEOUT)) (\<lambda>_.
       on_cond c
       (bnd (ld_timeout e) (\<lambda>t.
        bnd (get_common_timeout_list t) (\<lambda>ctl.
        on_cond (ctl_events ctl \<noteq> [] \<and> hd (ctl_events ctl) = e) (sch (COMMON_TIMEOUT_IDX t) e)))))))) ?s"
      unfolding add_timeout_def bnd_assoc 
      by (simp only: bnd_Inr [of "ld_ev e" s x s, OF ev_runs(1) [OF assms(2)]]
        bnd_Inr [of "on_cond (ev_close x = EV_CLOSURE_PERSIST \<and> \<not> ab) (upd_ev e (\<lambda>x. x\<lparr>ev_io_timeout := tv\<rparr>))" s "()" ?s, OF u])
    then show ?thesis using s1(1) s2(1) now nc s3(1) by (simp add: bnd_def ask_def)
  qed
  ultimately show ?thesis by blast
qed

section \<open>Adding\<close>

text \<open>What an event looks like after it was added with success.\<close>

definition listed :: "event \<Rightarrow> event" where
  "listed x = (if enters_map x then x\<lparr>ev_flags := insert EVLIST_INSERTED (ev_flags x)\<rparr> else x)"

definition added_event :: "timeval option \<Rightarrow> bool \<Rightarrow> event \<Rightarrow> event" where
  "added_event tv ab x = (case tv of None \<Rightarrow> listed x | Some t \<Rightarrow> timed_event t ab (listed x))"

lemma added_event_fields: "ev_events (added_event tv ab x) = ev_events x" "ev_fd (added_event tv ab x) = ev_fd x"
  by (simp_all add: added_event_def listed_def timed_event_def split: option.splits)

definition add_result :: "event_base \<Rightarrow> eptr \<Rightarrow> event \<Rightarrow> timeval option \<Rightarrow> bool \<Rightarrow> int \<Rightarrow> event_base \<Rightarrow> bool" where
  "add_result s e x tv ab r s' \<longleftrightarrow> all_ok s' \<and> be_fails s' = be_fails s
     \<and> (r = - 1 \<and> evs s' = evs s \<and> key (timeheap s') = key (timeheap s) \<and> (enters_map x \<or> tv \<noteq> None \<and> mh_a (timeheap s) \<le> mh_n (timeheap s))
        \<or> r = 0 \<and> evs s' = (evs s)(e \<mapsto> added_event tv ab x)
          \<and> key (timeheap s') = (case tv of None \<Rightarrow> key (timeheap s)
               | Some t \<Rightarrow> (key (timeheap s))(e := (tv_sec (due_at (now_of s) t ab False), tv_usec (due_at (now_of s) t ab False)))))"

lemma add_to_map_run_stays: "\<not> enters_map x \<Longrightarrow> add_to_map e x s = Inr (0, s)"
  by (simp only: add_to_map_def enters_map_def [symmetric] if_False ret_def)

lemma add_event_run:
  assumes "all_ok s" "evs s e = Some x" "fd_ok x" "card (dom (evs s)) < 2 ^ 31"
  shows "\<exists>r s'. add_event sch e tv ab s = Inr (r, s') \<and> add_result s e x tv ab r s'"
proof -
  let ?reserve = "if tv \<noteq> None \<and> EVLIST_TIMEOUT \<notin> ev_flags x then in_heap (bnd min_heap_size (\<lambda>n. min_heap_reserve (u32_add 1 n))) else ret 0"
  have "\<exists>r h. ?reserve s = Inr (r, s\<lparr>timeheap := h\<rparr>) \<and> all_ok (s\<lparr>timeheap := h\<rparr>) \<and> key h = key (timeheap s)
    \<and> (r = 0 \<and> (tv \<noteq> None \<longrightarrow> has_room (s\<lparr>timeheap := h\<rparr>) \<or> EVLIST_TIMEOUT \<in> ev_flags x) \<or> r = - 1 \<and> tv \<noteq> None \<and> mh_a (timeheap s) \<le> mh_n (timeheap s))"
  proof (cases "tv \<noteq> None \<and> EVLIST_TIMEOUT \<notin> ev_flags x")
    case True
    then obtain r h where "in_heap (bnd min_heap_size (\<lambda>n. min_heap_reserve (u32_add 1 n))) s = Inr (r, s\<lparr>timeheap := h\<rparr>)" "all_ok (s\<lparr>timeheap := h\<rparr>)"
        "mh_events h = mh_events (timeheap s)" "r = 0 \<and> has_room (s\<lparr>timeheap := h\<rparr>) \<or> r = - 1 \<and> mh_a (timeheap s) \<le> mh_n (timeheap s)" using reserve_step [OF assms(1,2) _ assms(4)] by blast
    moreover from this have "key h = key (timeheap s)" by (simp add: key_def fun_eq_iff)
    ultimately show ?thesis using True by auto
  next
    case False
    then show ?thesis using assms(1) by (intro exI [of _ 0] exI [of _ "timeheap s"]) auto
  qed
  then obtain r h where h: "?reserve s = Inr (r, s\<lparr>timeheap := h\<rparr>)" "all_ok (s\<lparr>timeheap := h\<rparr>)" "key h = key (timeheap s)"
    "r = 0 \<and> (tv \<noteq> None \<longrightarrow> has_room (s\<lparr>timeheap := h\<rparr>) \<or> EVLIST_TIMEOUT \<in> ev_flags x) \<or> r = - 1 \<and> tv \<noteq> None \<and> mh_a (timeheap s) \<le> mh_n (timeheap s)" by blast
  let ?s = "s\<lparr>timeheap := h\<rparr>"
  have run: "add_event sch e tv ab s = (if r = - 1 then ret (- 1) else
      bnd (add_to_map e x) (\<lambda>res.
      bnd (case tv of Some t \<Rightarrow> on_cond (res \<noteq> - 1) (add_timeout sch e t ab) | None \<Rightarrow> ret ()) (\<lambda>_. ret res))) ?s"
    unfolding add_event_def by (simp only: bnd_Inr [of "ld_ev e" s x s, OF ev_runs(1) [OF assms(2)]] bnd_Inr [of ?reserve s r ?s, OF h(1)])
  show ?thesis
  proof (cases "r = - 1")
    case True
    then show ?thesis using run h(2-4) by (simp add: add_result_def)
  next
    case False
    obtain r2 s2 where s2: "add_to_map e x ?s = Inr (r2, s2)" "into_map ?s e x r2 s2" using add_to_map_run [OF h(2) _ assms(3), of e] assms(2) by auto
    have m: "all_ok s2" "r2 \<in> {0, - 1}" "kept s s2" "timeheap s2 = h" using s2(2) by (auto simp: into_map_def kept_def)
    have run2: "add_event sch e tv ab s = bnd (case tv of Some t \<Rightarrow> on_cond (r2 \<noteq> - 1) (add_timeout sch e t ab) | None \<Rightarrow> ret ()) (\<lambda>_. ret r2) s2"
      using run False by (simp add: bnd_Inr [of "add_to_map e x" ?s r2 s2, OF s2(1)])
    show ?thesis
    proof (cases "r2 = - 1")
      case True
      then have "enters_map x" using add_to_map_run_stays [of x e ?s] s2(1) by auto
      moreover have "add_event sch e tv ab s = Inr (- 1, s2)" using True run2 by (simp split: option.splits)
      ultimately show ?thesis using True s2(2) m h(3) by (auto simp: add_result_def into_map_def kept_def)
    next
      case ok: False
      then have r2: "r2 = 0" using m(2) by simp
      let ?x = "listed x"
      have x2: "evs s2 = (evs s)(e \<mapsto> ?x)" "evs s2 e = Some ?x" using s2(2) r2 assms(2) by (auto simp: into_map_def listed_def fun_upd_idem)
      show ?thesis
      proof (cases tv)
        case None
        have "add_result s e x None ab 0 s2" using x2(1) m h(3) by (auto simp: add_result_def added_event_def kept_def)
        then show ?thesis using None run2 r2 by simp
      next
        case (Some t)
        have "has_room s2 \<or> EVLIST_TIMEOUT \<in> ev_flags ?x" using h(4) False Some m(4) by (auto simp: has_room_def listed_def)
        then obtain s3 where s3: "add_timeout sch e t ab s2 = Inr ((), s3)" "set_timeout s2 e (timed_event t ab ?x) (due_at (now_of s2) t ab False) s3"
          using add_timeout_run [OF m(1) x2(2)] by blast
        have now: "now_of s2 = now_of s" using m(3) by (simp add: now_of_def kept_def)
        have "evs s3 = (evs s)(e \<mapsto> added_event tv ab x)" using s3(2) x2(1) Some by (simp add: set_timeout_def added_event_def)
        then have "add_result s e x tv ab 0 s3" using s3(2) now m(3,4) h(3) Some by (auto simp: add_result_def set_timeout_def kept_def)
        moreover have "add_event sch e tv ab s = Inr (0, s3)" using run2 Some r2 s3(1) by (simp add: bnd_Inr)
        ultimately show ?thesis by blast
      qed
    qed
  qed
qed

lemma event_add_run:
  assumes "all_ok s" "evs s e = Some x" "fd_ok x" "card (dom (evs s)) < 2 ^ 31"
  shows "\<exists>r s'. event_add e tv s = Inr (r, s') \<and> add_result s e x tv False r s'"
proof -
  have "ev_base x" using assms(1) base_parts(9) [OF _ assms(2)] by (simp add: all_ok_def)
  then show ?thesis using add_event_run [OF assms, of common_timeout_schedule tv False] assms(2) by (simp add: event_add_def event_add_internal_def run_simps)
qed

end
