(* ===== verification/Event_Calls.thy ===== *)
theory Event_Calls
  imports Event_Adding
begin

text \<open>
  \<open>event_process_active\<close> with callbacks that leave the base alone: the events of the most urgent queue that is not empty are called back, oldest first, and
  are pending no more.
\<close>

definition no_effect :: callbacks where
  "no_effect = (\<lambda>_ _ _. ret ())"

text \<open>Events that are neither persistent nor signals nor the base's own.\<close>

definition plain :: "event_base \<Rightarrow> eptr \<Rightarrow> bool" where
  "plain s e \<longleftrightarrow> (\<exists>x. evs s e = Some x \<and> ev_close x = EV_CLOSURE_NONE \<and> ev_call x = Cb_User \<and> EV_PERSIST \<notin> ev_events x \<and> EVLIST_INTERNAL \<notin> ev_flags x)"

definition res_of :: "event_base \<Rightarrow> eptr \<Rightarrow> evbit set" where
  "res_of s e = (case evs s e of Some x \<Rightarrow> ev_res x | None \<Rightarrow> {})"

section \<open>One queue\<close>

definition called :: "event_base \<Rightarrow> nat \<Rightarrow> eptr list \<Rightarrow> event_base \<Rightarrow> bool" where
  "called s i q s' \<longleftrightarrow> all_ok s' \<and> activequeues s' = (activequeues s)[i := []] \<and> ev_log s' = ev_log s @ map (\<lambda>e. (e, res_of s e)) q
     \<and> evs s' = (\<lambda>e. if e \<in> set q then map_option (\<lambda>x. x\<lparr>ev_flags := ev_flags x - queues\<rparr>) (evs s e) else evs s e)
     \<and> be_fails s' = be_fails s \<and> event_break s' = event_break s \<and> deferred s' = deferred s"

lemma call_one:
  assumes "all_ok s" "forgetting s" "i < length (activequeues s)" "activequeues s ! i = e # q" "plain s e"
  shows "\<exists>s'. bnd (bnd (event_del_internal e) (\<lambda>_. ret ())) (\<lambda>_. call_event no_effect e) s = Inr ((), s') \<and> all_ok s'
    \<and> activequeues s' = (activequeues s)[i := q] \<and> ev_log s' = ev_log s @ [(e, res_of s e)]
    \<and> evs s' = (evs s)(e := map_option (\<lambda>x. x\<lparr>ev_flags := ev_flags x - queues\<rparr>) (evs s e))
    \<and> be_fails s' = be_fails s \<and> event_break s' = event_break s \<and> deferred s' = deferred s \<and> event_continue s' = event_continue s"
proof -
  obtain x where x: "evs s e = Some x" "ev_close x = EV_CLOSURE_NONE" "ev_call x = Cb_User" using assms(5) by (auto simp: plain_def)
  have b: "base_ok s" using assms(1) by (simp add: all_ok_def)
  have "set (activequeues s ! i) = {e \<in> flagged s EVLIST_ACTIVE. pri_of s e = i}" using base_parts(3) [OF b x(1)] assms(3) by (simp add: active_ok_def)
  then have p: "pri_of s e = i" using assms(4) by auto
  obtain r s1 where s1: "event_del_internal e s = Inr (r, s1)" "removed s e s1" "all_ok s1" using event_del_internal_run [OF assms(1) x(1)] assms(2) by blast
  let ?y = "x\<lparr>ev_flags := ev_flags x - queues\<rparr>"
  have y: "evs s1 e = Some ?y" using s1(2) x(1) by (simp add: removed_def)
  let ?t = "s1\<lparr>ev_log := ev_log s1 @ [(e, ev_res x)]\<rparr>"
  have "call_event no_effect e s1 = Inr ((), ?t)" using y x(2,3) by (simp add: call_event_def run_callback_def no_effect_def run_simps)
  then have run: "bnd (bnd (event_del_internal e) (\<lambda>_. ret ())) (\<lambda>_. call_event no_effect e) s = Inr ((), ?t)" using s1(1) by (simp add: bnd_def)
  have "all_ok ?t" by (rule all_ok_fields [OF s1(3)]) simp_all
  moreover have "activequeues ?t = (activequeues s)[i := q]" using s1(2) p assms(4) by (simp add: removed_def)
  ultimately show ?thesis using run s1(2) x(1) by (simp add: removed_def kept_def res_of_def)
qed

lemma single_queue_run:
  assumes "all_ok s" "forgetting s" "i < length (activequeues s)" "activequeues s ! i = q" "\<forall>e\<in>set q. plain s e" "\<not> event_break s" "\<not> event_continue s" "length q < f"
  shows "\<exists>s'. event_process_active_single_queue no_effect f i cnt s = Inr (cnt + int (length q), s') \<and> called s i q s'"
  using assms
proof (induction f arbitrary: s q cnt)
  case (Suc f)
  have l: "ld_active i s = Inr (q, s)" using Suc.prems(3,4) by (simp add: ld_active_def)
  show ?case
  proof (cases q)
    case Nil
    then have "(activequeues s)[i := []] = activequeues s" using Suc.prems(4) list_update_id [of "activequeues s" i] by simp
    then show ?thesis using l Nil Suc.prems(1) by (simp add: bnd_Inr called_def)
  next
    case (Cons e es)
    note pl = Suc.prems(5) [unfolded Cons, simplified]
    obtain x where x: "evs s e = Some x" "EV_PERSIST \<notin> ev_events x" "EVLIST_INTERNAL \<notin> ev_flags x" using pl by (auto simp: plain_def)
    obtain s1 where s1: "bnd (bnd (event_del_internal e) (\<lambda>_. ret ())) (\<lambda>_. call_event no_effect e) s = Inr ((), s1)" "all_ok s1"
      "activequeues s1 = (activequeues s)[i := es]" "ev_log s1 = ev_log s @ [(e, res_of s e)]"
      "evs s1 = (evs s)(e := map_option (\<lambda>x. x\<lparr>ev_flags := ev_flags x - queues\<rparr>) (evs s e))"
      "be_fails s1 = be_fails s" "event_break s1 = event_break s" "deferred s1 = deferred s" "event_continue s1 = event_continue s"
      using call_one [OF Suc.prems(1-3)] Suc.prems(4) Cons pl by blast
    have run: "event_process_active_single_queue no_effect (Suc f) i cnt s = event_process_active_single_queue no_effect f i (cnt + 1) s1"
    proof -
      have "event_process_active_single_queue no_effect (Suc f) i cnt s = bnd (bnd (bnd (event_del_internal e) (\<lambda>_. ret ())) (\<lambda>_. call_event no_effect e)) (\<lambda>_.
        bnd (ask event_break) (\<lambda>b. if b then ret (- 1)
        else bnd (ask event_continue) (\<lambda>c. if c then ret (cnt + 1) else event_process_active_single_queue no_effect f i (cnt + 1)))) s"
        using l Cons x by (simp add: bnd_Inr [of "ld_active i", OF l] bnd_Inr [of "ld_ev e", OF ev_runs(1) [OF x(1)]] bnd_assoc Let_def)
      then show ?thesis using s1(1,7,9) Suc.prems(6,7)
        by (simp add: bnd_Inr [of "bnd (bnd (event_del_internal e) (\<lambda>_. ret ())) (\<lambda>_. call_event no_effect e)", OF s1(1)] bnd_def ask_def)
    qed
    have d: "e \<notin> set es" using Suc.prems(1,3,4) Cons unfolding all_ok_def base_ok_def active_ok_def by force
    have res: "res_of s1 z = res_of s z" for z using s1(5) x(1) by (simp add: res_of_def)
    have pl1: "\<forall>z\<in>set es. plain s1 z" using pl d s1(5) unfolding plain_def by auto
    obtain s' where s': "event_process_active_single_queue no_effect f i (cnt + 1) s1 = Inr (cnt + 1 + int (length es), s')" "called s1 i es s'"
      using Suc.IH [OF s1(2) _ _ _ pl1, of "cnt + 1"] forgetting_cong [OF s1(6)] s1(3,7,9) Suc.prems(2,3,6-8) Cons by auto
    have "called s i q s'" using s'(2) s1 d res Cons unfolding called_def by (auto simp: fun_eq_iff)
    then show ?thesis using run s'(1) Cons by simp
  qed
qed simp

section \<open>All queues\<close>

lemma skip_empty:
  assumes "j + k \<le> length (activequeues s)" "\<forall>i<k. activequeues s ! (j + i) = []"
  shows "process_queues user f (n + k) j c s = process_queues user f n (j + k) c s"
  using assms
proof (induction k arbitrary: j)
  case (Suc k)
  have "activequeues s ! j = []" "j < length (activequeues s)" using Suc.prems(1) Suc.prems(2) [rule_format, of 0] by simp_all
  moreover have "\<forall>i<k. activequeues s ! (Suc j + i) = []" using Suc.prems(2) by auto
  ultimately show ?case using Suc.IH [of "Suc j"] Suc.prems(1) by (simp add: run_simps)
qed simp

lemma process_active_run:
  assumes "all_ok s" "forgetting s" "i < length (activequeues s)" "length (activequeues s) \<le> EVENT_MAX_PRIORITIES" "\<forall>j<i. activequeues s ! j = []"
    "activequeues s ! i = q" "q \<noteq> []" "\<forall>e\<in>set q. plain s e" "\<not> event_break s" "\<not> event_continue s" "deferred s = []" "length q < f"
  shows "\<exists>s'. event_process_active no_effect dcb f s = Inr (int (length q), s') \<and> called s i q s' \<and> event_running_priority s' = - 1"
proof -
  obtain n where n: "EVENT_MAX_PRIORITIES = Suc n + i" using assms(3,4) by (metis add.commute add_Suc_right le_Suc_ex less_eq_Suc_le less_le_trans)
  let ?s = "s\<lparr>event_running_priority := int i\<rparr>"
  have ok: "all_ok ?s" by (rule all_ok_fields [OF assms(1)]) simp_all
  have pl: "plain ?s e = plain s e" "res_of ?s e = res_of s e" for e by (simp_all add: plain_def res_of_def)
  obtain s1 where s1: "event_process_active_single_queue no_effect f i 0 ?s = Inr (0 + int (length q), s1)" "called ?s i q s1"
    using single_queue_run [OF ok, of i q f 0] forgetting_cong [of ?s s] assms(2,3,6,8-10,12) pl by auto
  have "process_queues no_effect f EVENT_MAX_PRIORITIES 0 0 s = process_queues no_effect f (Suc n) i 0 s"
    unfolding n using skip_empty [of 0 i s no_effect f "Suc n" 0] assms(3,5) by simp
  also have "\<dots> = Inr (int (length q), s1)"
    using assms(3,6,7) s1(1) by (simp add: bnd_Inr [of "ask activequeues" s "activequeues s" s] ask_def upd_base_def bnd_def)
  finally have pq: "process_queues no_effect f EVENT_MAX_PRIORITIES 0 0 s = Inr (int (length q), s1)" .
  have d: "event_process_deferred_callbacks dcb 16 0 s1 = Inr (0, s1)"
    using s1(2) assms(11) by (simp add: called_def numeral_eq_Suc run_simps)
  let ?t = "s1\<lparr>event_running_priority := - 1\<rparr>"
  have r: "event_process_active no_effect dcb f s = Inr (int (length q), ?t)"
    unfolding event_process_active_def 
    by (simp add: bnd_Inr [of "process_queues no_effect f EVENT_MAX_PRIORITIES 0 0", OF pq] bnd_Inr [of "event_process_deferred_callbacks dcb 16 0", OF d] upd_base_def
      bnd_Inr [of "\<lambda>s. Inr ((), s\<lparr>event_running_priority := - 1\<rparr>)"])
  have "all_ok ?t" by (rule all_ok_fields [of s1]) (use s1(2) in \<open>simp_all add: called_def\<close>)
  moreover have "evs s1 = (\<lambda>e. if e \<in> set q then map_option (\<lambda>x. x\<lparr>ev_flags := ev_flags x - queues\<rparr>) (evs s e) else evs s e)"
    using s1(2) unfolding called_def by (simp cong: if_cong)
  ultimately have "called s i q ?t" using s1(2) pl(2) by (simp add: called_def)
  then show ?thesis using r by (intro exI [of _ ?t]) simp
qed

section \<open>Signals\<close>

text \<open>A callback that deletes its event.\<close>

definition delete_me :: callbacks where
  "delete_me e _ _ = bnd (event_del e) (\<lambda>_. ret ())"

lemma del_in_call:
  assumes "evs s e = Some x" "ev_base x" "EV_SIGNAL \<in> ev_events x" "ev_flags x \<inter> queues = {}" "ev_ncalls x \<noteq> 0" "ev_pncalls x = Some k" "sig_ncalls s k = Some v"
  shows "event_del e s = Inr (0, s\<lparr>sig_ncalls := (sig_ncalls s)(k \<mapsto> 0)\<rparr>)"
proof -
  have "abort_loop e s = Inr ((), s\<lparr>sig_ncalls := (sig_ncalls s)(k \<mapsto> 0)\<rparr>)" using assms by (simp add: abort_loop_def run_simps)
  moreover have "EVLIST_TIMEOUT \<notin> ev_flags x" "EVLIST_ACTIVE \<notin> ev_flags x" "EVLIST_INSERTED \<notin> ev_flags x" using assms(4) by auto
  ultimately show ?thesis using assms(1-3) by (simp add: event_del_def event_del_internal_def on_cond_def run_simps)
qed

lemma call_deletes:
  assumes "evs s e = Some x" "ev_base x" "ev_call x = Cb_User" "EV_SIGNAL \<in> ev_events x" "ev_flags x \<inter> queues = {}" "ev_ncalls x \<noteq> 0" "ev_pncalls x = Some k" "sig_ncalls s k = Some v"
  shows "run_callback delete_me e x s = Inr ((), s\<lparr>ev_log := ev_log s @ [(e, ev_res x)], sig_ncalls := (sig_ncalls s)(k \<mapsto> 0)\<rparr>)"
  using del_in_call [of "s\<lparr>ev_log := ev_log s @ [(e, ev_res x)]\<rparr>" e x k v] assms by (simp add: run_callback_def delete_me_def run_simps)

lemma signal_loop_deletes:
  assumes "sig_ncalls s k = Some n" "n \<noteq> 0" "n - 1 \<noteq> 0" "evs s e = Some x" "ev_base x" "ev_call x = Cb_User" "EV_SIGNAL \<in> ev_events x" "ev_flags x \<inter> queues = {}"
    "ev_pncalls x = Some k" "\<not> event_break s"
  shows "\<exists>s'. signal_loop delete_me (Suc (Suc f)) k e s = Inr ((), s') \<and> evs s' = (evs s)(e \<mapsto> x\<lparr>ev_ncalls := n - 1\<rparr>)"
proof -
  let ?y = "x\<lparr>ev_ncalls := n - 1\<rparr>"
  let ?s = "s\<lparr>sig_ncalls := (sig_ncalls s)(k \<mapsto> n - 1), evs := (evs s)(e \<mapsto> ?y)\<rparr>"
  let ?t = "?s\<lparr>ev_log := ev_log s @ [(e, ev_res x)], sig_ncalls := (sig_ncalls ?s)(k \<mapsto> 0)\<rparr>"
  have c: "run_callback delete_me e ?y ?s = Inr ((), ?t)" using call_deletes [of ?s e ?y k "n - 1"] assms by simp
  have "signal_loop delete_me (Suc (Suc f)) k e s = bnd (run_callback delete_me e ?y) (\<lambda>_. bnd (ask event_break) (\<lambda>b.
          if b then
            bnd (ask (\<lambda>s. sig_ncalls s k)) (\<lambda>v. on_cond (v \<noteq> Some 0) (upd_ev e (\<lambda>x. x\<lparr>ev_pncalls := None\<rparr>)))
          else signal_loop delete_me (Suc f) k e)) ?s"
    unfolding signal_loop.simps(2) [of delete_me "Suc f"] using assms(1-4,9) by (simp add: run_simps del: signal_loop.simps)
  also have "\<dots> = signal_loop delete_me (Suc f) k e ?t"
    using assms(10) by (simp add: bnd_Inr [of "run_callback delete_me e ?y", OF c] run_simps del: signal_loop.simps)
  also have "\<dots> = Inr ((), ?t)" by (simp add: run_simps)
  finally have "signal_loop delete_me (Suc (Suc f)) k e s = Inr ((), ?t)" .
  then show ?thesis by (intro exI [of _ ?t]) simp
qed

lemma signal_closure_dangles:
  assumes "evs s e = Some x" "ev_base x" "ev_call x = Cb_User" "EV_SIGNAL \<in> ev_events x" "ev_flags x \<inter> queues = {}" "2 \<le> ev_ncalls x" "\<not> event_break s"
  shows "\<exists>s'. event_signal_closure delete_me e s = Inr ((), s') \<and> event_del e s' = Inl BadPointer"
proof -
  let ?k = "sig_frames s" and ?n = "ev_ncalls x"
  have n: "?n \<noteq> 0" "?n - 1 \<noteq> 0" using assms(6) by (auto simp: word_le_nat_alt)
  obtain g where g: "unat ?n = Suc g" using n(1) by (metis not0_implies_Suc unat_eq_0)
  let ?x = "x\<lparr>ev_pncalls := Some ?k\<rparr>"
  let ?s = "s\<lparr>sig_frames := Suc ?k, sig_ncalls := (sig_ncalls s)(?k \<mapsto> ?n), evs := (evs s)(e \<mapsto> ?x)\<rparr>"
  obtain s1 where s1: "signal_loop delete_me (Suc (Suc g)) ?k e ?s = Inr ((), s1)" "evs s1 = (evs ?s)(e \<mapsto> ?x\<lparr>ev_ncalls := ?n - 1\<rparr>)"
    using signal_loop_deletes [of ?s ?k ?n e ?x g] n assms by auto
  let ?t = "s1\<lparr>sig_ncalls := (sig_ncalls s1)(?k := None)\<rparr>"
  have "event_signal_closure delete_me e s = Inr ((), ?t)"
    unfolding event_signal_closure_def using assms(1) n(1) g s1(1) by (simp add: run_simps del: signal_loop.simps)
  moreover have "abort_loop e ?t = Inl BadPointer" using n(2) s1(2) by (simp add: abort_loop_def run_simps stop_def)
  then have "event_del e ?t = Inl BadPointer" using assms(2,4) s1(2) by (simp add: event_del_def event_del_internal_def run_simps)
  ultimately show ?thesis by blast
qed

end
