(* ===== verification/Event_Properties.thy ===== *)
theory Event_Properties
  imports Event_Calls
begin

text \<open>
  What the event base of \<^verbatim>\<open>libevent/event.c\<close> promises: calls in any order keep its queues, maps, counters and heap in step with each other and
  with what the back end was told; timeouts that are due become active in their order; active events are called back in theirs.
\<close>

section \<open>Calls in any order\<close>

text \<open>Calls that keep an invariant from state to state, one by one, keep it in any sequence.\<close>

fun in_turn :: "('op \<Rightarrow> ('s, 'r) run) \<Rightarrow> 'op list \<Rightarrow> ('s, 'r list) run" where
  "in_turn call [] = ret []"
| "in_turn call (c # cs) = bnd (call c) (\<lambda>r. bnd (in_turn call cs) (\<lambda>rs. ret (r # rs)))"

locale steady_calls =
  fixes call :: "'op \<Rightarrow> ('s, 'r) run" and inv :: "'s \<Rightarrow> bool" and allowed :: "'op \<Rightarrow> bool"
  assumes call_keeps: "inv s \<Longrightarrow> allowed c \<Longrightarrow> \<exists>r s'. call c s = Inr (r, s') \<and> inv s'"
begin

lemma in_turn_keeps:
  assumes "inv s" "list_all allowed cs"
  shows "\<exists>rs s'. in_turn call cs s = Inr (rs, s') \<and> inv s' \<and> length rs = length cs"
  using assms
proof (induction cs arbitrary: s)
  case (Cons c cs)
  obtain r s1 where s1: "call c s = Inr (r, s1)" "inv s1" using call_keeps [OF Cons.prems(1), of c] Cons.prems(2) by auto
  obtain rs s' where "in_turn call cs s1 = Inr (rs, s')" "inv s'" "length rs = length cs" using Cons.IH [OF s1(2)] Cons.prems(2) by auto
  then show ?case using s1(1) by (simp add: bnd_Inr)
qed simp

end

text \<open>The calls of a user of the base, outside of the loop, and \<open>timeout_process\<close> of the loop.\<close>

datatype base_call =
    Call_Add eptr "timeval option"
  | Call_Del eptr
  | Call_Active eptr "evbit set" "16 word"
  | Call_Priority eptr int
  | Call_Timeouts

fun perform :: "base_call \<Rightarrow> int erun" where
  "perform (Call_Add e tv) = event_add e tv"
| "perform (Call_Del e) = event_del e"
| "perform (Call_Active e res n) = bnd (event_active e res n) (\<lambda>_. ret 0)"
| "perform (Call_Priority e p) = event_priority_set e p"
| "perform Call_Timeouts = bnd timeout_process (\<lambda>_. ret 0)"

fun within :: "eptr set \<Rightarrow> base_call \<Rightarrow> bool" where
  "within D (Call_Add e tv) = (e \<in> D)"
| "within D (Call_Del e) = (e \<in> D)"
| "within D (Call_Active e res n) = (e \<in> D)"
| "within D (Call_Priority e p) = (e \<in> D)"
| "within D Call_Timeouts = True"

text \<open>
  The base manages the events of the set \<open>D\<close>: queues, maps, counters and heap are in step (\<open>all_ok\<close>, which also says that no common timeouts are in use, that
  the base is not in debug mode and that no signal callback is running), and the descriptors and signal numbers are in range. It serves them when moreover the back end never refuses to forget a descriptor or a signal; it may refuse to watch one.
\<close>

definition manages :: "eptr set \<Rightarrow> event_base \<Rightarrow> bool" where
  "manages D s \<longleftrightarrow> all_ok s \<and> dom (evs s) = D \<and> card D < 2 ^ 31 \<and> (\<forall>e x. evs s e = Some x \<longrightarrow> fd_ok x)"

definition serves :: "eptr set \<Rightarrow> event_base \<Rightarrow> bool" where
  "serves D s \<longleftrightarrow> manages D s \<and> forgetting s"

lemma serves_manages: "serves D s \<Longrightarrow> manages D s" "serves D s \<Longrightarrow> forgetting s"
  by (simp_all add: serves_def)

lemma manages_event: "manages D s \<Longrightarrow> e \<in> D \<Longrightarrow> \<exists>x. evs s e = Some x \<and> fd_ok x \<and> all_ok s \<and> ev_base x"
  using base_parts(9) by (fastforce simp: manages_def all_ok_def)

lemma serves_event: "serves D s \<Longrightarrow> e \<in> D \<Longrightarrow> \<exists>x. evs s e = Some x \<and> fd_ok x \<and> all_ok s \<and> ev_base x"
  using manages_event serves_manages(1) by blast

lemma manages_next:
  assumes "manages D s" "all_ok s'" "dom (evs s') = dom (evs s)"
    "\<And>e x. evs s' e = Some x \<Longrightarrow> \<exists>y. evs s e = Some y \<and> ev_events y = ev_events x \<and> ev_fd y = ev_fd x"
  shows "manages D s'"
  using assms unfolding manages_def fd_ok_def by metis

lemma serves_next:
  assumes "serves D s" "all_ok s'" "be_fails s' = be_fails s" "dom (evs s') = dom (evs s)"
    "\<And>e x. evs s' e = Some x \<Longrightarrow> \<exists>y. evs s e = Some y \<and> ev_events y = ev_events x \<and> ev_fd y = ev_fd x"
  shows "serves D s'"
  using assms manages_next [OF _ assms(2,4,5)] forgetting_cong [OF assms(3)] by (simp add: serves_def)

lemma manages_one:
  assumes "manages D s" "all_ok s'" "evs s e = Some x" "evs s' = (evs s)(e \<mapsto> y)" "ev_events y = ev_events x" "ev_fd y = ev_fd x"
  shows "manages D s'"
  by (rule manages_next [OF assms(1,2)]) (use assms(3-6) in \<open>auto split: if_splits\<close>)

lemma serves_one:
  assumes "serves D s" "all_ok s'" "be_fails s' = be_fails s" "evs s e = Some x" "evs s' = (evs s)(e \<mapsto> y)" "ev_events y = ev_events x" "ev_fd y = ev_fd x"
  shows "serves D s'"
  by (rule serves_next [OF assms(1-3)]) (use assms(4-7) in \<open>auto split: if_splits\<close>)

lemma add_manages:
  assumes "manages D s" "e \<in> D"
  shows "\<exists>r s' x. event_add e tv s = Inr (r, s') \<and> manages D s' \<and> be_fails s' = be_fails s \<and> evs s e = Some x \<and> add_result s e x tv False r s'"
proof -
  obtain x where x: "evs s e = Some x" "fd_ok x" "all_ok s" using manages_event [OF assms] by blast
  obtain r s' where a: "event_add e tv s = Inr (r, s')" "add_result s e x tv False r s'"
    using event_add_run [OF x(3,1,2), of tv] assms(1) by (auto simp: manages_def)
  have s': "all_ok s'" "be_fails s' = be_fails s" using a(2) by (simp_all add: add_result_def)
  have "manages D s'"
  proof (cases "r = 0")
    case True
    then have "evs s' = (evs s)(e \<mapsto> added_event tv False x)" using a(2) by (auto simp: add_result_def)
    from manages_one [OF assms(1) s'(1) x(1) this added_event_fields] show ?thesis .
  next
    case False
    then have "evs s' = evs s" using a(2) by (auto simp: add_result_def)
    then show ?thesis using assms(1) s'(1) by (simp add: manages_def)
  qed
  then show ?thesis using a s'(2) x(1) by blast
qed

lemma add_serves:
  assumes "serves D s" "e \<in> D"
  shows "\<exists>r s'. event_add e tv s = Inr (r, s') \<and> serves D s'"
  using add_manages [OF serves_manages(1) [OF assms(1)] assms(2), of tv] serves_manages(2) [OF assms(1)] forgetting_cong unfolding serves_def by blast

lemma del_run:
  assumes "serves D s" "evs s e = Some x"
  shows "\<exists>s'. event_del e s = Inr (0, s') \<and> serves D s' \<and> removed s e s'"
proof -
  have ok: "all_ok s" "ev_base x" using serves_event [of D s e] assms by (auto simp: serves_def manages_def)
  obtain r s' where d: "event_del_internal e s = Inr (r, s')" "removed s e s'" "r = 0" "all_ok s'"
    using event_del_internal_run [OF ok(1) assms(2)] serves_manages(2) [OF assms(1)] by auto
  have "serves D s'" by (rule serves_one [OF assms(1) d(4) _ assms(2), of "x\<lparr>ev_flags := ev_flags x - queues\<rparr>"]) (use d(2) assms(2) in \<open>simp_all add: removed_def kept_def\<close>)
  then show ?thesis using d ok(2) assms(2) by (simp add: event_del_def run_simps)
qed

lemma active_run:
  assumes "serves D s" "evs s e = Some x"
  shows "\<exists>s'. event_active e res n s = Inr ((), s') \<and> serves D s' \<and> made_active s e x (activated res n x) s'"
proof -
  have ok: "all_ok s" "ev_base x" using serves_event [of D s e] assms by (auto simp: serves_def manages_def)
  obtain s' where a: "event_active_nolock e res n s = Inr ((), s')" "all_ok s'" "made_active s e x (activated res n x) s'"
    using event_active_nolock_run [OF ok(1) assms(2)] by blast
  have "serves D s'"
    by (rule serves_one [OF assms(1) a(2) _ assms(2), of "activated res n x"]) (use a(3) in \<open>auto simp: made_active_def kept_def activated_def\<close>)
  then show ?thesis using a ok(2) assms(2) by (simp add: event_active_def run_simps)
qed

lemma priority_serves:
  assumes "serves D s" "evs s e = Some x"
  shows "\<exists>r s'. event_priority_set e p s = Inr (r, s') \<and> serves D s'"
proof (cases "EVLIST_ACTIVE \<in> ev_flags x \<or> p < 0 \<or> p \<ge> int (length (activequeues s))")
  case True
  then show ?thesis using assms by (auto simp: event_priority_set_def run_simps)
next
  case False
  let ?y = "x\<lparr>ev_pri := nat p\<rparr>"
  let ?t = "s\<lparr>evs := (evs s)(e \<mapsto> ?y)\<rparr>"
  have ok: "all_ok s" "base_ok s" using assms(1) by (simp_all add: serves_def manages_def all_ok_def)
  note b = base_parts [OF ok(2) assms(2)]
  have fl: "flagged ?t w = flagged s w" for w using flagged_upd [OF assms(2), of ?y w] flagged_iff [OF assms(2), of w] by auto
  have dm: "dom (evs ?t) = dom (evs s)" using assms(2) by auto
  have pr: "pri_of ?t z = (if z = e then nat p else pri_of s z)" for z by (simp add: pri_of_def)
  have n: "e \<notin> flagged s EVLIST_ACTIVE" using False assms(2) by (simp add: flagged_iff)
  have of: "events_of ?t = events_of s" "fd_of ?t = fd_of s" using assms(2) by (auto simp: events_of_def fd_of_def fun_eq_iff)
  have "{z \<in> flagged s EVLIST_ACTIVE. pri_of ?t z = i} = {z \<in> flagged s EVLIST_ACTIVE. pri_of s z = i}" for i using n pr by auto
  then have "active_ok ?t" using b(3) fl pr dm False by (auto simp: active_ok_def nat_less_iff)
  moreover have "heap_ok ?t" by (rule heap_ok_cong [OF b(1)]) (use fl dm in simp_all)
  moreover have "inserted_ok ?t" by (rule inserted_ok_cong [OF b(2)]) (use fl in simp_all)
  moreover have "counts_ok ?t" using b(4) fl dm by (simp add: counts_ok_def counted_def)
  moreover have "calm ?t" by (rule calm_upd [OF b(5) assms(2), of _ ?y]) (use b(9,10) in simp_all)
  moreover have "maps_ok ?t (flagged s EVLIST_INSERTED)" by (rule maps_ok_cong [of s]) (use ok(1) of in \<open>simp_all add: all_ok_def\<close>)
  ultimately have "all_ok ?t" using ok(1) of fl by (simp add: all_ok_def base_ok_def sig_fds_def)
  then have "serves D ?t" by (rule serves_one [OF assms(1) _ _ assms(2), of _ ?y]) simp_all
  then show ?thesis using False assms(2) by (simp add: event_priority_set_def run_simps)
qed

section \<open>Timeouts\<close>

definition due_events :: "event_base \<Rightarrow> eptr set" where
  "due_events s = {e \<in> flagged s EVLIST_TIMEOUT. key (timeheap s) e \<le> (tv_sec (now_of s), tv_usec (now_of s))}"

lemma fired_event_fields: "ev_events (fired_event x) = ev_events x" "ev_fd (fired_event x) = ev_fd x" "ev_res (fired_event x) = {EV_TIMEOUT}"
    "ev_flags (fired_event x) = insert EVLIST_ACTIVE (ev_flags x - queues)"
  by (auto simp: fired_event_def activated_def)

lemma timeout_process_run:
  assumes "serves D s"
  shows "\<exists>s' es. timeout_process s = Inr ((), s') \<and> serves D s' \<and> fired s es s' \<and> distinct es \<and> sorted (map (key (timeheap s)) es) \<and> set es = due_events s"
proof -
  have ok: "all_ok s" "base_ok s" "forgetting s" using assms by (simp_all add: serves_def manages_def all_ok_def)
  have em: "in_heap min_heap_empty s = Inr (mh_n (timeheap s) = 0, s)" by (auto simp: in_heap_def min_heap_empty_def get_heap_def)
  show ?thesis
  proof (cases "mh_n (timeheap s) = 0")
    case True
    then have "flagged s EVLIST_TIMEOUT = {}" using heap_queue [OF ok(2)] by auto
    then have "due_events s = {}" by (simp add: due_events_def)
    moreover have "timeout_process s = Inr ((), s)" using True em by (simp add: timeout_process_def bnd_Inr)
    ultimately show ?thesis using assms fired_refl by (intro exI [of _ s] exI [of _ "[]"]) simp
  next
    case False
    obtain s1 where g: "gettime s = Inr (now_of s, s1)" "all_ok s1" "evs s1 = evs s" "timeheap s1 = timeheap s" "activequeues s1 = activequeues s" "be_fails s1 = be_fails s"
      using gettime_run [OF ok(1)] by blast
    have fl: "flagged s1 = flagged s" "pri_of s1 = pri_of s" using flagged_cong [OF g(3)] pri_cong [OF g(3)] by auto
    obtain s' es where d: "due_loop (Suc (mh_n (timeheap s))) (now_of s) s1 = Inr ((), s')" "all_ok s'" "fired s1 es s'" "distinct es" "sorted (map (key (timeheap s)) es)"
      "set es = due_events s" using due_loop_run [OF g(2), of "Suc (mh_n (timeheap s))" "now_of s"] g(4) fl ok(3) forgetting_cong [OF g(6)] unfolding due_events_def by auto
    have sz: "in_heap min_heap_size s1 = Inr (mh_n (timeheap s), s1)" using g(4) by (simp add: in_heap_def min_heap_size_def get_heap_def)
    have run: "timeout_process s = Inr ((), s')"
      using False d(1) unfolding timeout_process_def
      by (simp add: bnd_Inr [of "in_heap min_heap_empty", OF em] bnd_Inr [of gettime, OF g(1)] bnd_Inr [of "in_heap min_heap_size", OF sz] del: due_loop.simps)
    have ev: "evs s' = (\<lambda>e. if e \<in> set es then map_option fired_event (evs s e) else evs s e)" "be_fails s' = be_fails s"
      using d(3) unfolding fired_def g(3,6) by blast+
    have "serves D s'"
      by (rule serves_next [OF assms d(2) ev(2)]) (auto simp: ev(1) fired_event_fields split: if_splits)
    moreover have "fired s es s'" using d(3) unfolding fired_def g(3-6) fl by blast
    ultimately show ?thesis using run d(4-6) by blast
  qed
qed

lemma perform_serves:
  assumes "serves D s" "within D c"
  shows "\<exists>r s'. perform c s = Inr (r, s') \<and> serves D s'"
proof -
  have ev: "\<exists>x. evs s e = Some x" if "e \<in> D" for e using serves_event [OF assms(1) that] by blast
  show ?thesis
  proof (cases c)
    case (Call_Add e tv)
    then show ?thesis using add_serves [OF assms(1)] assms(2) by simp
  next
    case (Call_Del e)
    then show ?thesis using del_run [OF assms(1)] assms(2) ev by fastforce
  next
    case (Call_Active e res n)
    then obtain x where "evs s e = Some x" using assms(2) ev by auto
    from active_run [OF assms(1) this, of res n] obtain s' where "event_active e res n s = Inr ((), s')" "serves D s'" by blast
    then show ?thesis using Call_Active by (simp add: bnd_Inr)
  next
    case (Call_Priority e p)
    then show ?thesis using priority_serves [OF assms(1)] assms(2) ev by fastforce
  next
    case Call_Timeouts
    obtain s' where "timeout_process s = Inr ((), s')" "serves D s'" using timeout_process_run [OF assms(1)] by blast
    then show ?thesis using Call_Timeouts by (simp add: bnd_Inr)
  qed
qed

interpretation base_calls: steady_calls perform "serves D" "within D" for D
  by unfold_locales (rule perform_serves)

section \<open>What the back end knows\<close>

text \<open>The bits that the events added to the base want at a descriptor.\<close>

definition wanted :: "event_base \<Rightarrow> int \<Rightarrow> evbit set" where
  "wanted s fd = {b \<in> RW. \<exists>e\<in>flagged s EVLIST_INSERTED. fd_of s e = fd \<and> b \<in> events_of s e}"

lemma wanting_some: "wanting s b es \<noteq> 0 \<longleftrightarrow> (\<exists>e\<in>set es. b \<in> events_of s e)"
  by (auto simp: wanting_def filter_empty_conv)

lemma told_wanted:
  assumes "all_ok s"
  shows "interest (be_calls s) (int fd) = wanted s (int fd)"
proof -
  let ?c = "entry s fd"
  have e: "entry_ok s (flagged s EVLIST_INSERTED) fd" using assms by (simp add: all_ok_def maps_ok_def)
  have "interest (be_calls s) (int fd) = wants EV_READ (nread ?c \<noteq> 0) \<union> wants EV_WRITE (nwrite ?c \<noteq> 0)" using e by (simp add: entry_ok_def Let_def)
  moreover have "nread ?c \<noteq> 0 \<longleftrightarrow> (\<exists>e\<in>flagged s EVLIST_INSERTED. fd_of s e = int fd \<and> EV_READ \<in> events_of s e)"
    "nwrite ?c \<noteq> 0 \<longleftrightarrow> (\<exists>e\<in>flagged s EVLIST_INSERTED. fd_of s e = int fd \<and> EV_WRITE \<in> events_of s e)"
    using e wanting_some [of s _ "io_events ?c"] unfolding entry_ok_def Let_def by auto
  ultimately show ?thesis by (auto simp: wants_def wanted_def)
qed

text \<open>An event for each of the queues it stands in.\<close>

lemma counts_calls: "all_ok s \<Longrightarrow> event_count s = int (card (counted s)) \<and> event_count_active s = int (card (flagged s EVLIST_ACTIVE))"
  by (simp add: all_ok_def base_ok_def counts_ok_def)

section \<open>A base to start from\<close>

text \<open>Two priorities, nothing added yet, and all memory that is asked for.\<close>

definition new_base :: "(eptr \<rightharpoonup> event) \<Rightarrow> (eptr \<rightharpoonup> heap_event) \<Rightarrow> event_base" where
  "new_base E H = \<lparr>evs = E, timeheap = \<lparr>mh_p = [], mh_n = 0, mh_a = 0, mh_events = H, mh_nomem = (\<lambda>_. False), mh_junk = (\<lambda>_. 0)\<rparr>,
     eventqueue = [], activequeues = [[], []], common_timeout_queues = [], n_common_timeouts_allocated = 0, io_map = [], sigmap = [], event_count = 0,
     event_count_active = 0, virtual_event_count = 0, event_gotterm = False, event_break = False, event_continue = False, event_running_priority = - 1,
     running_loop = False, event_tv = \<lparr>tv_sec = 0, tv_usec = 0\<rparr>, tv_cache = \<lparr>tv_sec = 0, tv_usec = 0\<rparr>, no_cache_time = False, use_monotonic = True,
     debug_mode = False, deferred = [], deferred_count = 0, queued = (\<lambda>_. False), sig_ncalls = (\<lambda>_. None), sig_frames = 0, tv_clock_diff = \<lparr>tv_sec = 0, tv_usec = 0\<rparr>, last_updated_clock_diff = 0,
     eb_clock = (\<lambda>n. \<lparr>tv_sec = 100 + int n, tv_usec = 0\<rparr>), eb_wall = (\<lambda>n. \<lparr>tv_sec = 1000 + int n, tv_usec = 0\<rparr>), eb_reads = 0, be_fails = (\<lambda>_ _. False), be_calls = [], eb_brk = 1000, eb_oom = (\<lambda>_. False), ev_log = []\<rparr>"

lemma new_base_fields [simp]:
  "evs (new_base E H) = E" "timeheap (new_base E H) = \<lparr>mh_p = [], mh_n = 0, mh_a = 0, mh_events = H, mh_nomem = (\<lambda>_. False), mh_junk = (\<lambda>_. 0)\<rparr>"
  "eventqueue (new_base E H) = []" "activequeues (new_base E H) = [[], []]" "be_fails (new_base E H) = (\<lambda>_ _. False)" "event_break (new_base E H) = False"
  "event_continue (new_base E H) = False" "deferred (new_base E H) = []"
  "event_count (new_base E H) = 0" "event_count_active (new_base E H) = 0" "be_calls (new_base E H) = []" "ev_log (new_base E H) = []"
  by (simp_all add: new_base_def)

lemma new_base_ok:
  assumes "finite (dom E)" "dom H = dom E" "\<forall>y\<in>ran H. min_heap_idx y = - 1"
    "\<forall>x\<in>ran E. ev_flags x \<inter> queues = {} \<and> ev_pncalls x = None \<and> ev_base x \<and> ev_pri x < 2" "E 0 = None"
  shows "all_ok (new_base E H)"
proof -
  let ?s = "new_base E H"
  have fl: "flagged ?s w = {}" if "w \<in> queues" for w using assms(4) that by (auto simp: flagged_def ran_def)
  have idx: "idx (timeheap ?s) z = - 1" for z using assms(3) by (auto simp: idx_def ran_def split: option.splits)
  have lv: "live (timeheap ?s) z \<longleftrightarrow> z \<in> dom E" for z using assms(2) by (auto simp: live_def)
  have "queue (timeheap ?s) []" using idx by (simp add: queue_def placed_def heap_ord_def)
  then have "heap_ok ?s" using lv fl [of EVLIST_TIMEOUT] by (auto simp: heap_ok_def new_base_def intro!: exI [of _ "[]"])
  moreover have "inserted_ok ?s" using fl [of EVLIST_INSERTED] by (simp add: inserted_ok_def)
  moreover have "pri_of ?s z < 2" if "z \<in> dom E" for z using assms(4) that by (auto simp: pri_of_def ran_def)
  then have "active_ok ?s" using fl [of EVLIST_ACTIVE] by (simp add: active_ok_def nth_Cons' numeral_2_eq_2)
  moreover have "counted ?s = {}" using fl unfolding counted_def by auto
  then have "counts_ok ?s" using assms(1) fl [of EVLIST_ACTIVE] by (simp add: counts_ok_def)
  moreover have "calm ?s" using assms(4,5) by (auto simp: calm_def ran_def)
  moreover have "maps_ok ?s {}"
    by (simp add: maps_ok_def entry_ok_def sig_ok_def entry_def sig_entry_def new_base_def evmap_io_init_def wanting_def interest_def wants_def)
  ultimately show ?thesis using fl [of EVLIST_INSERTED] by (simp add: all_ok_def base_ok_def sig_fds_def)
qed

text \<open>An event that reads from descriptor 3, a timer, and a signal event.\<close>

definition ev_read3 :: event where
  "ev_read3 = raw_event\<lparr>ev_fd := 3, ev_base := True, ev_events := {EV_READ}, ev_flags := {EVLIST_INIT}\<rparr>"

definition ev_timer :: event where
  "ev_timer = raw_event\<lparr>ev_fd := - 1, ev_base := True, ev_flags := {EVLIST_INIT}\<rparr>"

definition ev_usr1 :: event where
  "ev_usr1 = raw_event\<lparr>ev_fd := 10, ev_base := True, ev_events := {EV_SIGNAL}, ev_ncalls := 2, ev_flags := {EVLIST_INIT}, ev_close := EV_CLOSURE_SIGNAL\<rparr>"

definition no_heap :: heap_event where
  "no_heap = \<lparr>ev_timeout = \<lparr>tv_sec = 0, tv_usec = 0\<rparr>, min_heap_idx = - 1\<rparr>"

definition base3 :: event_base where
  "base3 = new_base [1 \<mapsto> ev_read3, 2 \<mapsto> ev_timer, 3 \<mapsto> ev_usr1] [1 \<mapsto> no_heap, 2 \<mapsto> no_heap, 3 \<mapsto> no_heap]"

lemma base3_ok: "all_ok base3"
  unfolding base3_def
  by (rule new_base_ok) (auto simp: ran_def ev_read3_def ev_timer_def ev_usr1_def raw_event_def no_heap_def)

lemma base3_serves: "serves {1, 2, 3} base3"
  using base3_ok by (auto simp: serves_def manages_def forgetting_def base3_def fd_ok_def MAX_SLOT_def ev_read3_def ev_timer_def ev_usr1_def raw_event_def)

section \<open>Properties\<close>

text \<open>
  C24. On a base without common timeouts, outside of debug mode and of signal callbacks, and with a back end that may refuse to watch a descriptor or a signal but never refuses to forget
  one: adding, deleting and activating events, changing their priorities and processing timeouts, in any order and any number, never faults, whether or not memory
  runs out. After every such sequence an event is in the list of added events, in the timeout heap, in the list of its descriptor or signal and in the active queue of
  its priority exactly when its flags say so (\<open>manages\<close>); the counters count these memberships; and the back end was told of each descriptor exactly what
  the added events want there.
\<close>

theorem event_calls_steady:
  assumes "manages D s" "forgetting s" "list_all (within D) cs"
  shows "\<exists>rs s'. in_turn perform cs s = Inr (rs, s') \<and> length rs = length cs \<and> manages D s' \<and> (\<forall>fd. interest (be_calls s') (int fd) = wanted s' (int fd))
    \<and> event_count s' = int (card (counted s')) \<and> event_count_active s' = int (card (flagged s' EVLIST_ACTIVE))"
proof -
  have "serves D s" using assms(1,2) by (simp add: serves_def)
  then obtain rs s' where r: "in_turn perform cs s = Inr (rs, s')" "serves D s'" "length rs = length cs" using base_calls.in_turn_keeps [OF _ assms(3)] by blast
  then have "manages D s'" "all_ok s'" by (simp_all add: serves_def manages_def)
  then show ?thesis using r(1,3) told_wanted counts_calls by blast
qed

text \<open>The base with an event that reads from descriptor 3, a timer and a signal event, on a back end that refuses the first call to watch anything.\<close>

definition base3_unwilling :: event_base where
  "base3_unwilling = base3\<lparr>be_fails := (\<lambda>n c. n = 0 \<and> \<not> is_del c)\<rparr>"

lemma base3_unwilling_manages: "manages {1, 2, 3} base3_unwilling" "forgetting base3_unwilling"
proof -
  have "all_ok base3_unwilling" by (rule all_ok_fields [OF base3_ok]) (simp_all add: base3_unwilling_def)
  then show "manages {1, 2, 3} base3_unwilling" using base3_serves by (simp add: serves_def manages_def base3_unwilling_def)
qed (simp add: forgetting_def base3_unwilling_def)

theorem event_calls_steady_witness:
  "\<exists>rs s'. in_turn perform [Call_Add 1 (Some \<lparr>tv_sec = 5, tv_usec = 0\<rparr>), Call_Active 2 {EV_TIMEOUT} 1, Call_Add 3 None, Call_Timeouts, Call_Del 1, Call_Priority 1 1] base3_unwilling
      = Inr (rs, s') \<and> manages {1, 2, 3} s' \<and> (\<forall>fd. interest (be_calls s') (int fd) = wanted s' (int fd))
    \<and> event_count s' = int (card (counted s')) \<and> event_count_active s' = int (card (flagged s' EVLIST_ACTIVE))"
  using event_calls_steady [OF base3_unwilling_manages, of "[Call_Add 1 (Some \<lparr>tv_sec = 5, tv_usec = 0\<rparr>), Call_Active 2 {EV_TIMEOUT} 1, Call_Add 3 None, Call_Timeouts, Call_Del 1, Call_Priority 1 1]"]
  by auto

text \<open>
  C25. \<open>timeout_process\<close> makes active exactly the events whose timeout is not after the present time, with \<open>EV_TIMEOUT\<close> as their only result. They leave the
  heap and, when they were active already, their place in the active queue, and enter the queues of their priorities at the end, earlier timeouts first.
\<close>

theorem timeout_process_fires:
  assumes "serves D s"
  shows "\<exists>s' es. timeout_process s = Inr ((), s') \<and> set es = due_events s \<and> distinct es \<and> sorted (map (key (timeheap s)) es)
    \<and> flagged s' EVLIST_TIMEOUT = flagged s EVLIST_TIMEOUT - due_events s \<and> (\<forall>e\<in>due_events s. res_of s' e = {EV_TIMEOUT})
    \<and> activequeues s' = map (\<lambda>p. filter (\<lambda>e. e \<notin> due_events s) (activequeues s ! p) @ filter (\<lambda>e. pri_of s e = p) es) [0..<length (activequeues s)]"
proof -
  obtain s' es where r: "timeout_process s = Inr ((), s')" "fired s es s'" "distinct es" "sorted (map (key (timeheap s)) es)" "set es = due_events s"
    using timeout_process_run [OF assms] by blast
  have "res_of s' e = {EV_TIMEOUT}" if "e \<in> set es" for e
    using that r(2,5) by (auto simp: fired_def res_of_def due_events_def flagged_def fired_event_fields split: option.splits)
  then show ?thesis using r fired_flags(1) [OF r(2)] by (auto simp: fired_def)
qed

text \<open>A timer that is due.\<close>

definition timer_due :: "int \<Rightarrow> event_base \<Rightarrow> bool" where
  "timer_due r s \<longleftrightarrow> r = 0 \<and> now_of s = \<lparr>tv_sec = 101, tv_usec = 0\<rparr> \<and> key (timeheap s) 2 = (100, 0)
     \<and> (case evs s 2 of None \<Rightarrow> False | Some x \<Rightarrow> EVLIST_TIMEOUT \<in> ev_flags x)"

lemma timer_due_run:
  "\<exists>r s. event_add 2 (Some \<lparr>tv_sec = 0, tv_usec = 0\<rparr>) base3 = Inr (r, s) \<and> timer_due r s \<and> serves {1, 2, 3} s"
proof -
  obtain r s where r: "event_add 2 (Some \<lparr>tv_sec = 0, tv_usec = 0\<rparr>) base3 = Inr (r, s)" "serves {1, 2, 3} s"
    using add_serves [OF base3_serves, of 2 "Some \<lparr>tv_sec = 0, tv_usec = 0\<rparr>"] by auto
  have "case event_add 2 (Some \<lparr>tv_sec = 0, tv_usec = 0\<rparr>) base3 of Inl _ \<Rightarrow> False | Inr (r, s) \<Rightarrow> timer_due r s" by code_simp
  then show ?thesis using r by simp
qed

theorem timeout_process_fires_witness:
  "\<exists>r s s' es. event_add 2 (Some \<lparr>tv_sec = 0, tv_usec = 0\<rparr>) base3 = Inr (r, s) \<and> timeout_process s = Inr ((), s') \<and> set es = due_events s \<and> 2 \<in> set es \<and> res_of s' 2 = {EV_TIMEOUT}"
proof -
  obtain r s where r: "event_add 2 (Some \<lparr>tv_sec = 0, tv_usec = 0\<rparr>) base3 = Inr (r, s)" "timer_due r s" "serves {1, 2, 3} s" using timer_due_run by blast
  have "2 \<in> due_events s" using r(2) by (auto simp: timer_due_def due_events_def flagged_def split: option.splits)
  then show ?thesis using timeout_process_fires [OF r(3)] r(1) by metis
qed

text \<open>
  C27. On a base without common timeouts, outside of debug mode and of signal callbacks, whatever the back end and the allocator answer, \<open>event_add\<close> either fails and leaves every
  event and every timeout as it was, which happens only to an event that is to be listed for a descriptor or signal or when the heap is full, or it succeeds. Then
  the event is \<open>added_event\<close> in every field: listed for its descriptor or signal unless it was active; with a timeout also in the heap, no longer active if its
  last timeout had fired, and remembering the timeout if it is persistent; its time is the present time plus the timeout, and no other event or time changes.
\<close>

theorem event_add_exact:
  assumes "manages D s" "evs s e = Some x"
  shows "\<exists>r s'. event_add e tv s = Inr (r, s') \<and> manages D s'
    \<and> (r = - 1 \<and> evs s' = evs s \<and> key (timeheap s') = key (timeheap s) \<and> (enters_map x \<or> tv \<noteq> None \<and> mh_a (timeheap s) \<le> mh_n (timeheap s))
       \<or> r = 0 \<and> evs s' = (evs s)(e \<mapsto> added_event tv False x)
         \<and> key (timeheap s') = (case tv of None \<Rightarrow> key (timeheap s)
             | Some t \<Rightarrow> (let u = evutil_timeradd (now_of s) t in (key (timeheap s))(e := (tv_sec u, tv_usec u)))))"
proof -
  have "e \<in> D" using assms by (auto simp: manages_def)
  then obtain r s' where r: "event_add e tv s = Inr (r, s')" "manages D s'" "add_result s e x tv False r s'" using add_manages [OF assms(1), of e tv] assms(2) by auto
  have "due_at (now_of s) t False False = evutil_timeradd (now_of s) t" for t by (simp add: due_at_def)
  note r(3) [unfolded add_result_def this]
  then show ?thesis using r(1,2) unfolding Let_def by blast
qed

text \<open>The back end refuses the first call, so the first attempt to add the reader fails; a timer needs no back end and is added at once.\<close>

definition refused_reader :: bool where
  "refused_reader = ((case event_add 1 (Some \<lparr>tv_sec = 5, tv_usec = 0\<rparr>) base3_unwilling of Inl _ \<Rightarrow> False | Inr (r, s) \<Rightarrow> r = - 1)
     \<and> (case event_add 1 (Some \<lparr>tv_sec = 5, tv_usec = 0\<rparr>) base3 of Inl _ \<Rightarrow> False | Inr (r, s) \<Rightarrow> r = 0))"

theorem event_add_exact_witness:
  "(\<exists>s'. event_add 1 (Some \<lparr>tv_sec = 5, tv_usec = 0\<rparr>) base3_unwilling = Inr (- 1, s') \<and> evs s' = evs base3_unwilling)
   \<and> (\<exists>s'. event_add 1 (Some \<lparr>tv_sec = 5, tv_usec = 0\<rparr>) base3 = Inr (0, s') \<and> key (timeheap s') 1 = (105, 0)
        \<and> evs s' 1 = Some (ev_read3\<lparr>ev_flags := {EVLIST_INIT, EVLIST_INSERTED, EVLIST_TIMEOUT}\<rparr>))"
proof -
  let ?tv = "Some \<lparr>tv_sec = 5, tv_usec = 0\<rparr>"
  have e: "evs base3_unwilling 1 = Some ev_read3" "evs base3 1 = Some ev_read3" by (simp_all add: base3_unwilling_def base3_def)
  have r: refused_reader by code_simp
  have now: "evutil_timeradd (now_of base3) \<lparr>tv_sec = 5, tv_usec = 0\<rparr> = \<lparr>tv_sec = 105, tv_usec = 0\<rparr>" by code_simp
  have add: "added_event ?tv False ev_read3 = ev_read3\<lparr>ev_flags := {EVLIST_INIT, EVLIST_INSERTED, EVLIST_TIMEOUT}\<rparr>"
    by (auto simp: added_event_def listed_def timed_event_def remembered_def enters_map_def ev_read3_def raw_event_def)
  obtain s1 where "event_add 1 ?tv base3_unwilling = Inr (- 1, s1)" "evs s1 = evs base3_unwilling"
    using event_add_exact [OF base3_unwilling_manages(1) e(1), of ?tv] r by (auto simp: refused_reader_def)
  moreover obtain s2 where "event_add 1 ?tv base3 = Inr (0, s2)" "key (timeheap s2) 1 = (105, 0)"
      "evs s2 1 = Some (ev_read3\<lparr>ev_flags := {EVLIST_INIT, EVLIST_INSERTED, EVLIST_TIMEOUT}\<rparr>)"
    using event_add_exact [OF serves_manages(1) [OF base3_serves] e(2), of ?tv] r by (auto simp: refused_reader_def now add)
  ultimately show ?thesis by blast
qed

text \<open>
  C29. An event whose timeout has fired, and which waits for its callback, loses its descriptor when it is added again with a timeout and the heap has a free place:
  \<open>event_add\<close> returns 0, but the event is neither listed for its descriptor nor active, and only its new timeout can wake it.
\<close>

theorem event_add_drops_io:
  assumes "manages D s" "evs s e = Some x" "ev_flags x \<inter> queues = {EVLIST_ACTIVE}" "EV_TIMEOUT \<in> ev_res x" "mh_n (timeheap s) < mh_a (timeheap s)"
  shows "\<exists>s'. event_add e (Some tv) s = Inr (0, s') \<and> e \<in> flagged s' EVLIST_TIMEOUT \<and> e \<notin> flagged s' EVLIST_INSERTED \<and> e \<notin> flagged s' EVLIST_ACTIVE"
proof -
  have "e \<in> D" using assms(1,2) by (auto simp: manages_def)
  then obtain r s' where r: "event_add e (Some tv) s = Inr (r, s')" "add_result s e x (Some tv) False r s'" using add_manages [OF assms(1), of e "Some tv"] assms(2) by auto
  have f: "EVLIST_ACTIVE \<in> ev_flags x" "EVLIST_INSERTED \<notin> ev_flags x" "\<not> enters_map x" using assms(3) by (auto simp: enters_map_def)
  then have z: "r = 0" "evs s' e = Some (added_event (Some tv) False x)" using r(2) assms(5) by (auto simp: add_result_def)
  have "e \<in> flagged s' EVLIST_TIMEOUT \<and> e \<notin> flagged s' EVLIST_INSERTED \<and> e \<notin> flagged s' EVLIST_ACTIVE"
    using f assms(4) by (simp add: flagged_iff [OF z(2)] added_event_def listed_def timed_event_def)
  then show ?thesis using r(1) z(1) by blast
qed

text \<open>The reader of descriptor 3, added with a timeout of zero, after its timeout was processed.\<close>

definition fired_reader :: "fault + int list \<times> event_base \<Rightarrow> bool" where
  "fired_reader z = (case z of Inl _ \<Rightarrow> False | Inr (rs, s) \<Rightarrow>
     rs = [0, 0] \<and> mh_n (timeheap s) < mh_a (timeheap s)
     \<and> (case evs s 1 of None \<Rightarrow> False | Some x \<Rightarrow> ev_flags x = {EVLIST_ACTIVE, EVLIST_INIT} \<and> ev_res x = {EV_TIMEOUT} \<and> ev_events x = {EV_READ}))"

theorem event_add_drops_io_witness:
  "\<exists>rs s s'. in_turn perform [Call_Add 1 (Some \<lparr>tv_sec = 0, tv_usec = 0\<rparr>), Call_Timeouts] base3 = Inr (rs, s) \<and> EV_READ \<in> events_of s 1
    \<and> event_add 1 (Some \<lparr>tv_sec = 5, tv_usec = 0\<rparr>) s = Inr (0, s') \<and> 1 \<notin> flagged s' EVLIST_INSERTED \<and> 1 \<notin> flagged s' EVLIST_ACTIVE"
proof -
  let ?cs = "[Call_Add 1 (Some \<lparr>tv_sec = 0, tv_usec = 0\<rparr>), Call_Timeouts]"
  obtain rs s where r: "in_turn perform ?cs base3 = Inr (rs, s)" "serves {1, 2, 3} s" using base_calls.in_turn_keeps [OF base3_serves, of ?cs] by auto
  have "fired_reader (in_turn perform ?cs base3)" by code_simp
  then obtain x where x: "evs s 1 = Some x" "ev_flags x = {EVLIST_ACTIVE, EVLIST_INIT}" "ev_res x = {EV_TIMEOUT}" "ev_events x = {EV_READ}"
      "mh_n (timeheap s) < mh_a (timeheap s)"
    unfolding r(1) by (auto simp: fired_reader_def split: option.splits)
  have "ev_flags x \<inter> queues = {EVLIST_ACTIVE}" using x(2) by auto
  from event_add_drops_io [OF serves_manages(1) [OF r(2)] x(1) this, of "\<lparr>tv_sec = 5, tv_usec = 0\<rparr>"] x(3-5) show ?thesis
    using r(1) event_of_simps(1) [OF x(1)] by auto
qed

text \<open>
  C28. On a base without common timeouts, outside of debug mode and of signal callbacks, and with a back end that never refuses to forget a descriptor or signal, \<open>event_del\<close> returns 0
  and nothing of the base refers to the event any more: not the list of added events, the active queues, the timeout heap, nor the lists of any descriptor or signal.
  Its memory can be freed.
\<close>

theorem event_del_forgets:
  assumes "manages D s" "forgetting s" "e \<in> D"
  shows "\<exists>s'. event_del e s = Inr (0, s') \<and> manages D s' \<and> e \<notin> set (eventqueue s') \<and> (\<forall>q\<in>set (activequeues s'). e \<notin> set q)
    \<and> e \<notin> set (take (mh_n (timeheap s')) (mh_p (timeheap s'))) \<and> (\<forall>fd. e \<notin> set (io_events (entry s' fd))) \<and> (\<forall>sig. e \<notin> set (sig_entry s' sig))"
proof -
  obtain x where x: "evs s e = Some x" using manages_event [OF assms(1,3)] by blast
  have sv: "serves D s" using assms(1,2) by (simp add: serves_def)
  obtain s' where d: "event_del e s = Inr (0, s')" "manages D s'" "removed s e s'" using del_run [OF sv x] serves_manages(1) by blast
  have n: "e \<notin> flagged s' w" if "w \<in> queues" for w using that d(3) x by (auto simp: removed_def flagged_def)
  have ok: "base_ok s'" "maps_ok s' (flagged s' EVLIST_INSERTED)" using d(2) by (simp_all add: manages_def all_ok_def)
  obtain q where q: "queue (timeheap s') q" "set q = flagged s' EVLIST_TIMEOUT" using heap_queue [OF ok(1)] by blast
  have "e \<notin> set (take (mh_n (timeheap s')) (mh_p (timeheap s')))" using q(2) n [of EVLIST_TIMEOUT] queueD(11) [OF q(1)] by simp
  moreover have "\<forall>q\<in>set (activequeues s'). e \<notin> set q" using ok(1) n [of EVLIST_ACTIVE] by (auto simp: base_ok_def active_ok_def in_set_conv_nth [of _ "activequeues s'"])
  moreover have "e \<notin> set (eventqueue s')" using ok(1) n [of EVLIST_INSERTED] by (simp add: base_ok_def inserted_ok_def)
  moreover have "e \<notin> set (io_events (entry s' fd))" "e \<notin> set (sig_entry s' fd)" for fd
    using ok(2) n [of EVLIST_INSERTED] by (auto simp: maps_ok_def entry_ok_def sig_ok_def Let_def)
  ultimately show ?thesis using d(1,2) by blast
qed

theorem event_del_forgets_witness:
  "\<exists>r s s'. event_add 2 (Some \<lparr>tv_sec = 0, tv_usec = 0\<rparr>) base3 = Inr (r, s) \<and> 2 \<in> flagged s EVLIST_TIMEOUT \<and> event_del 2 s = Inr (0, s')
    \<and> 2 \<notin> set (take (mh_n (timeheap s')) (mh_p (timeheap s')))"
proof -
  obtain r s where r: "event_add 2 (Some \<lparr>tv_sec = 0, tv_usec = 0\<rparr>) base3 = Inr (r, s)" "timer_due r s" "serves {1, 2, 3} s" using timer_due_run by blast
  then have "2 \<in> flagged s EVLIST_TIMEOUT" by (auto simp: timer_due_def flagged_def split: option.splits)
  then show ?thesis using r(1) event_del_forgets [OF serves_manages [OF r(3)], of 2] by auto
qed

text \<open>
  C26. When the active events of the most urgent queue that is not empty are one-shot events (neither persistent nor signal nor internal events) whose callbacks
  leave the base alone, nobody asked for a break or a continue, no deferred callback waits, and the back end never refuses to forget, \<open>event_process_active\<close> calls
  back the events of that queue, each once with its result, oldest first, and no other; it returns their number, and they are pending no more.
\<close>

theorem process_active_in_order:
  assumes "serves D s" "i < length (activequeues s)" "length (activequeues s) \<le> EVENT_MAX_PRIORITIES" "\<forall>j<i. activequeues s ! j = []" "activequeues s ! i \<noteq> []"
    "\<forall>e\<in>set (activequeues s ! i). plain s e" "\<not> event_break s" "\<not> event_continue s" "deferred s = []" "length (activequeues s ! i) < f"
  shows "\<exists>s'. event_process_active no_effect dcb f s = Inr (int (length (activequeues s ! i)), s') \<and> all_ok s'
    \<and> ev_log s' = ev_log s @ map (\<lambda>e. (e, res_of s e)) (activequeues s ! i) \<and> activequeues s' = (activequeues s)[i := []]
    \<and> (\<forall>w\<in>queues. \<forall>e\<in>set (activequeues s ! i). e \<notin> flagged s' w)"
proof -
  have ok: "all_ok s" "forgetting s" using assms(1) by (simp_all add: serves_def manages_def)
  obtain s' where r: "event_process_active no_effect dcb f s = Inr (int (length (activequeues s ! i)), s')" "called s i (activequeues s ! i) s'"
    using process_active_run [OF ok assms(2-4) refl assms(5-10)] by blast
  have "e \<notin> flagged s' w" if "w \<in> queues" "e \<in> set (activequeues s ! i)" for w e using that r(2) by (auto simp: called_def flagged_def)
  then show ?thesis using r by (auto simp: called_def)
qed

text \<open>Two active events of the same priority.\<close>

definition two_active :: "fault + int list \<times> event_base \<Rightarrow> bool" where
  "two_active z = (case z of Inl _ \<Rightarrow> False | Inr (rs, s) \<Rightarrow> activequeues s = [[2, 1], []] \<and> \<not> event_break s \<and> \<not> event_continue s \<and> deferred s = [] \<and> ev_log s = []
     \<and> (\<forall>e\<in>{1, 2}. case evs s e of None \<Rightarrow> False | Some x \<Rightarrow>
          ev_res x = {EV_TIMEOUT} \<and> ev_close x = EV_CLOSURE_NONE \<and> ev_call x = Cb_User \<and> EV_PERSIST \<notin> ev_events x \<and> EVLIST_INTERNAL \<notin> ev_flags x))"

theorem process_active_in_order_witness:
  "\<exists>rs s s'. in_turn perform [Call_Active 2 {EV_TIMEOUT} 1, Call_Active 1 {EV_TIMEOUT} 1] base3 = Inr (rs, s)
    \<and> event_process_active no_effect (\<lambda>_. ret ()) 10 s = Inr (2, s') \<and> ev_log s' = [(2, {EV_TIMEOUT}), (1, {EV_TIMEOUT})]"
proof -
  let ?cs = "[Call_Active 2 {EV_TIMEOUT} 1, Call_Active 1 {EV_TIMEOUT} 1]"
  obtain rs s where r: "in_turn perform ?cs base3 = Inr (rs, s)" "serves {1, 2, 3} s" using base_calls.in_turn_keeps [OF base3_serves, of ?cs] by auto
  have "two_active (in_turn perform ?cs base3)" by code_simp
  then have s: "activequeues s = [[2, 1], []]" "\<not> event_break s" "\<not> event_continue s" "deferred s = []" "ev_log s = []" "plain s 1" "plain s 2"
      "res_of s 1 = {EV_TIMEOUT}" "res_of s 2 = {EV_TIMEOUT}"
    unfolding r(1) by (auto simp: two_active_def plain_def res_of_def split: option.splits)
  have "\<exists>s'. event_process_active no_effect (\<lambda>_. ret ()) 10 s = Inr (int (length (activequeues s ! 0)), s') \<and> all_ok s'
    \<and> ev_log s' = ev_log s @ map (\<lambda>e. (e, res_of s e)) (activequeues s ! 0) \<and> activequeues s' = (activequeues s)[0 := []]
    \<and> (\<forall>w\<in>queues. \<forall>e\<in>set (activequeues s ! 0). e \<notin> flagged s' w)"
    by (rule process_active_in_order [OF r(2)]) (use s in \<open>simp_all add: EVENT_MAX_PRIORITIES_def\<close>)
  then show ?thesis using r(1) s(1,5,8,9) by auto
qed

text \<open>
  C30. A signal event that is in no queue any more, as a one-shot event is while it is called back, and that is called back for two or more signals (\<open>ev_ncalls\<close>),
  keeps, when its callback deletes it, a pointer to a local variable of \<open>event_signal_closure\<close> after that function has returned; deleting the event again, as
  freeing it does, writes through the pointer.
\<close>

theorem signal_delete_dangles:
  assumes "evs s e = Some x" "ev_base x" "ev_call x = Cb_User" "EV_SIGNAL \<in> ev_events x" "ev_flags x \<inter> queues = {}" "2 \<le> ev_ncalls x" "\<not> event_break s"
  shows "\<exists>s'. event_signal_closure delete_me e s = Inr ((), s') \<and> event_del e s' = Inl BadPointer"
  by (rule signal_closure_dangles [OF assms])

theorem signal_delete_dangles_witness: "\<exists>s'. event_signal_closure delete_me 3 base3 = Inr ((), s') \<and> event_del 3 s' = Inl BadPointer"
  by (rule signal_delete_dangles [of _ _ ev_usr1]) (simp_all add: base3_def ev_usr1_def raw_event_def)

text \<open>
  C31. When the back end refuses to forget a descriptor, \<open>event_del\<close> returns -1 with the event out of every queue and its flags cleared, but still listed for its
  descriptor: a pointer to it stays behind, and deleting it again does not remove it.
\<close>

theorem failed_del_stays_listed:
  assumes "all_ok s" "evs s e = Some x" "EVLIST_INSERTED \<in> ev_flags x" "ev_events x \<inter> RW \<noteq> {}" "ev_fd x = int fd" "event_del e s = Inr (- 1, s')"
  shows "e \<in> set (io_events (entry s' fd)) \<and> (\<forall>w\<in>queues. e \<notin> flagged s' w) \<and> (\<exists>s''. event_del e s' = Inr (0, s'') \<and> io_map s'' = io_map s')"
proof -
  have b: "ev_base x" using assms(1) base_parts(9) [OF _ assms(2)] by (simp add: all_ok_def)
  have "event_del_internal e s = Inr (- 1, s')" using assms(2,6) b by (simp add: event_del_def run_simps)
  then have d: "removed s e s'" "maps_ok s' (flagged s EVLIST_INSERTED)" using event_del_internal_run [OF assms(1,2)] by auto
  let ?y = "x\<lparr>ev_flags := ev_flags x - queues\<rparr>"
  have y: "evs s' e = Some ?y" "base_ok s'" using d(1) assms(2) by (simp_all add: removed_def)
  have "entry_ok s' (flagged s EVLIST_INSERTED) fd" using d(2) by (simp add: maps_ok_def)
  moreover have "e \<in> flagged s EVLIST_INSERTED" "events_of s' e = ev_events x" "fd_of s' e = int fd" using assms(2,3,5) event_of_simps [OF y(1)] by (simp_all add: flagged_iff)
  ultimately have l: "e \<in> set (io_events (entry s' fd))" using assms(4) by (auto simp: entry_ok_def Let_def)
  have n: "e \<notin> flagged s' w" if "w \<in> queues" for w using that y(1) by (auto simp: flagged_iff)
  have "leave_queues e ?y s' = Inr ((), s')"
    using abort_calm [OF y(2,1)] by (cases "EV_SIGNAL \<in> ev_events x") (simp_all add: leave_queues_def bnd_Inr)
  then have "event_del e s' = Inr (0, s')" using y(1) b by (simp add: event_del_def event_del_internal_split run_simps)
  then show ?thesis using l n by auto
qed

text \<open>The base of before, on a back end that refuses the second call.\<close>

definition base3_refusing :: event_base where
  "base3_refusing = base3\<lparr>be_fails := (\<lambda>n c. n = 1)\<rparr>"

definition reader_added :: "fault + int \<times> event_base \<Rightarrow> bool" where
  "reader_added z = (case z of Inl _ \<Rightarrow> False | Inr (r, s) \<Rightarrow>
     (case evs s 1 of None \<Rightarrow> False | Some x \<Rightarrow> EVLIST_INSERTED \<in> ev_flags x \<and> ev_events x = {EV_READ} \<and> ev_fd x = 3)
     \<and> (case event_del 1 s of Inl _ \<Rightarrow> False | Inr (r, s') \<Rightarrow> r = - 1))"

theorem failed_del_stays_listed_witness:
  "\<exists>r s s'. event_add 1 None base3_refusing = Inr (r, s) \<and> event_del 1 s = Inr (- 1, s') \<and> 1 \<in> set (io_events (entry s' 3))"
proof -
  have ok: "all_ok base3_refusing" by (rule all_ok_fields [OF base3_ok]) (simp_all add: base3_refusing_def)
  have e: "evs base3_refusing 1 = Some ev_read3" "fd_ok ev_read3" "card (dom (evs base3_refusing)) < 2 ^ 31"
    by (simp_all add: base3_refusing_def base3_def fd_ok_def MAX_SLOT_def ev_read3_def raw_event_def)
  obtain r s where r: "event_add 1 None base3_refusing = Inr (r, s)" "all_ok s" using event_add_run [OF ok e, of None] by (auto simp: add_result_def)
  have "reader_added (event_add 1 None base3_refusing)" by code_simp
  then obtain x s' where x: "evs s 1 = Some x" "EVLIST_INSERTED \<in> ev_flags x" "ev_events x = {EV_READ}" "ev_fd x = int 3" "event_del 1 s = Inr (- 1, s')"
    unfolding r(1) by (auto simp: reader_added_def split: option.splits sum.splits)
  have "1 \<in> set (io_events (entry s' 3))" using failed_del_stays_listed [OF r(2) x(1,2) _ x(4,5)] x(3) by simp
  then show ?thesis using r(1) x(5) by blast
qed

end
