(* ===== verification/Spec2Isabelle.thy ===== *)
theory Spec2Isabelle
  imports B_Properties List_Properties Torrent Timer_Properties Message_Properties Socket_Properties Peer_Properties
    Heap_Properties Tagging_Properties Inet_Properties Http_Properties Evbuffer_Text Evbuffer_Order Evdns_Properties
    Event_Properties
begin

text \<open>
  \<^bold>\<open>BT-server, a BitTorrent peer, and the parts of its bundled event library that carry logic.\<close>

  \<^bold>\<open>The program.\<close> A torrent file is a bencoded dictionary. \<^verbatim>\<open>src/b_parse.c\<close> reads the bytes into a
  graph of strings, integers, lists and dictionaries held together by the intrusive lists of
  \<^verbatim>\<open>include/list.h\<close>; \<^verbatim>\<open>src/torrent_parse.c\<close> moves the values of known keys of that graph into a
  \<^verbatim>\<open>struct torrent\<close> and frees the rest. Peers (\<^verbatim>\<open>src/peer_manage.c\<close>) exchange messages
  (\<^verbatim>\<open>src/peer_message.c\<close>), which are built in strings of the bencode module and sent over sockets
  (\<^verbatim>\<open>src/bt_socket.c\<close>); periodic work hangs on a list of timers (\<^verbatim>\<open>src/bt_timer.c\<close>). The bundled event
  library adds an event loop with its timeout heap, byte buffers, serialised records, network addresses and URIs.

  \<^bold>\<open>How C is modelled.\<close> A C function is a function from a state to a fault or to a result with a new
  state (\<open>BT_Prelude\<close>: \<open>ret\<close>, \<open>bnd\<close>, \<open>stop\<close>). Undefined behaviour is a fault: an access outside an object,
  a freed object, \<open>NULL\<close>, an uninitialised variable, a failed \<open>assert\<close>. \<open>C_Memory\<close> is the heap: typed objects
  under addresses that are never reused, \<open>malloc\<close> that may fail, byte buffers with checked access, and
  the C library functions the sources call; \<open>C_Strings\<close> has the numerals. List nodes live in a heap of
  their own (\<open>Kernel_List\<close>). Machine integers are words, or numbers with the wrap-around written out.
  System calls take their results from a script of replies and are recorded (\<open>Bt_Socket\<close>). Code outside
  the repository (timer callbacks, \<open>send\<close>, \<open>signal\<close>, \<open>realloc\<close>) is a parameter or a part of the state.

  \<^bold>\<open>Theories and sources.\<close>
  \<^item> \<open>Kernel_List\<close>, \<open>C_Loops\<close>, \<open>List_Properties\<close>: \<^verbatim>\<open>include/list.h\<close>. \<open>dll h l xs\<close> says that a ring holds
    the nodes \<open>xs\<close>; every operation refines its counterpart on sequences and leaves other nodes alone.
  \<^item> \<open>B_Parse\<close>: \<^verbatim>\<open>src/b_parse.c\<close> function by function. \<open>B_Spec\<close>: bencoded values, their encoding and an abstract
    parser on bytes with its termination and round trip. \<open>B_Heap\<close>: object graphs and what the destructors free.
    \<open>B_Refine\<close>, \<open>B_Sim\<close>: the heap-level parser refines the abstract one. \<open>B_Properties\<close>: the results for whole buffers
    (refinement, round trip, termination, no leak, as long as no allocation fails), and the inputs on which the code leaves its buffers.
  \<^item> \<open>Torrent\<close>: \<^verbatim>\<open>src/torrent_parse.c\<close>.
  \<^item> \<open>Bt_Timer\<close>, \<open>Timer_Properties\<close>: \<^verbatim>\<open>src/bt_timer.c\<close>; the list stays sorted, shutting down frees it, and two
    repeating timers with the same interval of at most one second keep the signal handler running forever.
  \<^item> \<open>Peer_Message\<close>, \<open>Message_Properties\<close>: \<^verbatim>\<open>src/peer_message.c\<close>; the bytes of each message, and the off-by-one that
    makes messages with a payload overrun their buffer.
  \<^item> \<open>Bt_Socket\<close>, \<open>Socket_Properties\<close>: \<^verbatim>\<open>src/bt_socket.c\<close> up to the send queue; \<open>Peer_Manage\<close>, \<open>Peer_Properties\<close>:
    \<^verbatim>\<open>src/peer_manage.c\<close>.
  \<^item> \<open>Min_Heap\<close>, \<open>Heap_Properties\<close>: \<^verbatim>\<open>libevent/minheap-internal.h\<close>; the heap order, the position stored in each
    event, and that popping everything sorts.
  \<^item> \<open>Event_Tagging\<close>, \<open>Tagging_Codec\<close>, \<open>Tagging_Properties\<close>: \<^verbatim>\<open>libevent/event_tagging.c\<close>; round trips of integers, tags and
    records.
  \<^item> \<open>Evutil_Ascii\<close>, \<open>Evutil_Inet\<close>, \<open>Inet_Facts\<close>, \<open>Inet_Properties\<close>: character tables, comparisons and addresses of
    \<^verbatim>\<open>libevent/evutil.c\<close>; round trips of addresses and socket addresses.
  \<^item> \<open>Http_Uri\<close>, \<open>Http_Codec\<close>, \<open>Uri_Facts\<close>, \<open>Http_Properties\<close>: percent coding, query strings, host patterns, header queues
    and \<^verbatim>\<open>struct evhttp_uri\<close> of \<^verbatim>\<open>libevent/http.c\<close>; round trips in both directions, the type invariant of the
    struct with what its setters store, also when memory runs out, and which headers are taken.
  \<^item> \<open>Evbuffer\<close>, \<open>Evbuffer_Ops\<close>, \<open>Evbuffer_Space\<close>, \<open>Evbuffer_Search\<close>: \<^verbatim>\<open>libevent/buffer.c\<close> function by function: chains of memory
    blocks with a cell \<^verbatim>\<open>last_with_datap\<close> that points at a link; adding, prepending, draining, copying, moving, pulling
    up, pinned and referenced chains, callbacks and reference counts; making room, reserving and committing,
    printing; searching and lines. \<open>Evbuffer_Facts\<close> has the invariant: \<open>holds s b e cs\<close> says that buffer \<open>b\<close> is the list of
    chains \<open>cs\<close>. One theory per group of operations shows what they do to it: \<open>Evbuffer_Runs\<close>, \<open>Evbuffer_Insert\<close>, \<open>Evbuffer_Add\<close>,
    \<open>Evbuffer_Append\<close>, \<open>Evbuffer_Drain\<close>, \<open>Evbuffer_Prepend\<close>, \<open>Evbuffer_Move\<close>, \<open>Evbuffer_Pullup\<close>, \<open>Evbuffer_Printf\<close>, \<open>Evbuffer_Find\<close>,
    \<open>Evbuffer_Lines\<close>. \<open>Byte_Queue\<close> is the abstract queue of bytes and \<open>Evbuffer_Queue\<close> the proof that buffers implement it.
    \<open>Evbuffer_Properties\<close>, \<open>Evbuffer_Text\<close> and \<open>Evbuffer_Order\<close> have the results: refinement of the queue, moving, freeing,
    freezing, printing, searching, lines; and a sequence of calls that leaves the bytes in another order.
  \<^item> \<open>Evdns\<close>, \<open>Evdns_Packets\<close>, \<open>Evdns_Reply\<close>: the wire format of \<^verbatim>\<open>libevent/evdns.c\<close>: names with compression, requests, the server's
    answers and the resolver's reading of them. \<open>Evdns_Facts\<close>: what it is for a name to stand in a packet (\<open>name_at\<close>), and that such a
    name is read. \<open>Evdns_Names\<close>: what the table of written names promises, and that writing a name keeps it. \<open>Evdns_Trip\<close> and
    \<open>Evdns_Answer\<close>: the same for whole packets. \<open>Evdns_Properties\<close>: round trips of names and of a question with its answer, the end of
    reading on every packet, and where the code leaves its buffers.
  \<^item> \<open>Event_Base\<close>, \<open>Event_Ops\<close>, \<open>Event_Loop\<close>: \<^verbatim>\<open>libevent/event.c\<close> and \<^verbatim>\<open>libevent/evmap.c\<close> for one base and one thread: events, the queues
    they stand in, the maps of descriptors and signals, timeouts; adding, deleting and activating; the loop with its priorities, signal and persistent
    events, common timeouts and deferred callbacks. The replies of the back end, which may refuse any call, the clock and the callbacks are parameters. \<open>Event_Facts\<close>
    has the invariant of the queues, counters and heap (\<open>base_ok\<close>), \<open>Event_Maps\<close> that of the maps and of what the back end was told
    (\<open>maps_ok\<close>), for bases without common timeouts and out of the debug mode. \<open>Event_Runs\<close>, \<open>Event_Due\<close>, \<open>Event_Adding\<close>: deleting and activating, timeouts that are due, and adding keep
    it. \<open>Event_Calls\<close>: calling back. \<open>Event_Properties\<close>: calls in any order, the order of timeouts and callbacks, what adding and deleting leave (deleting on a back end that never refuses to forget), and
    three cases in which they leave a dangling pointer or lose a descriptor.

  \<^bold>\<open>Interfaces.\<close> \<open>byte_queue\<close> (\<open>Byte_Queue\<close>) has the laws of a buffer that is filled at the end and emptied at the front, and
  the proof that every sequence of calls behaves as the abstract queue; it is interpreted on the buffers of
  \<^verbatim>\<open>buffer.c\<close> and on the byte sequences that stand for buffers under the tagged format. \<open>safe_walk\<close> (\<open>B_Heap\<close>) is the contract of a loop body under \<open>list_for_each_entry_safe\<close> that frees its
  entry; \<open>part_scanner\<close> (\<open>Uri_Facts\<close>) that of a scanner that stops at a delimiter; \<open>name_match\<close> (\<open>Http_Properties\<close>)
  that of a name comparison under which header queues behave like maps; \<open>steady_calls\<close> (\<open>Event_Properties\<close>) that of calls that keep
  an invariant, which then holds after any sequence of them. Each is interpreted on the definitions of the model.

  \<^bold>\<open>Bounds.\<close> Loops over a list are bounded by the number of addresses ever handed out, since a ring has distinct
  nodes. The destructors use \<open>3 * brk + 2\<close> for their mutual recursion (three calls per object), and the parser
  twice the length of the buffer, which \<open>b_dict_parse_ends\<close> shows to be enough when no allocation fails. \<open>sendall\<close> and the retry loops
  consume one reply per iteration, so the number of replies is the bound. The heap's sift loop uses the
  number of events. Loops over the chains of a buffer are bounded by the number of addresses handed out, the search loops
  by that number plus the length of the buffer. Reading a name from a packet takes one step per pointer and per label, at most
  the length of the packet plus the room for the name (\<open>name_parse_total\<close>). The loop over the timeouts that are due takes one event
  off the heap per turn, so one more than the size of the heap is enough (\<open>due_loop_run\<close>); the loop of the event base and the one over an active queue, which callbacks can refill,
  take their fuel as an argument. The handler of the timers takes its fuel as an argument; that no fuel suffices in one
  case is a theorem.

  \<^bold>\<open>Not modelled.\<close> Trace output and the print functions; \<^verbatim>\<open>src/conn_tracker.c\<close>, a stub; the send queue of
  \<^verbatim>\<open>src/bt_socket.c\<close>, whose structs are declared nowhere; the Lua prototype; of \<^verbatim>\<open>buffer.c\<close> reading from and writing to descriptors, file
  segments and locks (each call is atomic, as it is under the lock of its buffer; callbacks are recorded in a log
  and do not call back into the buffer); and of the event library setting up, configuring and freeing a base, its back ends, the debug
  tables and wake-ups from other threads (\<^verbatim>\<open>evsig_set_base\<close>, \<^verbatim>\<open>event_reinit\<close>, \<^verbatim>\<open>evthread_notify_base\<close>), buffer events, TLS, name servers and their timers, search lists and \<^verbatim>\<open>getaddrinfo\<close>, the HTTP connection and server code, threads and
  Windows support, which are glue around system calls and callbacks.
\<close>

end
